(* ===== verification/Prelude.thy ===== *)
theory Prelude
  imports Main
begin

text \<open>
  The prelude of the development: run-time faults and the result type of every fallible
  step, the C++ \<open>int\<close> with its overflow checks, the constants of \<open>inc/config.h\<close>,
  and the generic list lemmas the components share.  Three fact collections carry the
  component proofs: \<open>res_simps\<close> evaluates the result combinator, \<open>int_simps\<close> evaluates
  checked arithmetic inside the range of \<open>int\<close>, and \<open>step_defs\<close> collects the
  definitions of the process bodies, so that one step of a module is computed by
  \<open>simp add: step_defs\<close>.
\<close>

named_theorems res_simps \<open>evaluation of results\<close>
named_theorems int_simps \<open>checked int arithmetic inside the range of int\<close>
named_theorems step_defs \<open>bodies of the processes\<close>

section \<open>Configuration\<close>

text \<open>\<open>inc/config.h\<close>: the number of processors, the depth of each neuron queue and the
  storage reserved for the result memory.\<close>

definition COUNT_PC_UNIT :: nat where
  "COUNT_PC_UNIT = 7"

definition QUEUE_SIZE :: nat where
  "QUEUE_SIZE = 5"

definition MEM_SIZE :: nat where
  "MEM_SIZE = 1024"

section \<open>Faults and results\<close>

text \<open>
  Everything the C++ code can do other than return: undefined behaviour of the language
  (signed overflow, a float outside the range of \<open>int\<close>, an access outside a vector's
  storage, a read of storage that was never written), an exception of the standard library,
  the \<open>sc_abort\<close> of \<open>io_module.cpp\<close>, and the errors the SystemC kernel throws: two processes
  writing one signal in the same delta cycle, a failed \<open>sc_assert\<close>, a pointer that points to no object, a second notification
  with \<open>notify_delayed\<close>, an immediate notification outside the evaluation phase, a duration
  beyond the maximal time, a process control request in a forbidden state, a clock without a high
  or a low phase, and a start of the simulation in a state that does not allow it; every other error
  that is reported through \<open>SC_REPORT_ERROR\<close> carries the text of its message identifier.
\<close>

datatype fault = IntOverflow | FloatToInt | OutOfBounds | Uninitialised | OutOfRange | LengthError | Aborted
  | MultipleDrivers | AssertFailed | NullPointer | NotifyDelayed | ImmediateNotification | TimeOverflow | ProcessControlCorner
  | ClockPeriod | SimulationStatus | ReportError string

type_synonym 'a res = "fault + 'a"

definition rbind :: "'a res \<Rightarrow> ('a \<Rightarrow> 'b res) \<Rightarrow> 'b res" where
  "rbind r f = (case r of Inl e \<Rightarrow> Inl e | Inr x \<Rightarrow> f x)"

lemma rbind_Inr [simp, res_simps]: "rbind (Inr x) f = f x"
  by (simp add: rbind_def)

lemma rbind_Inl [simp, res_simps]: "rbind (Inl e) f = Inl e"
  by (simp add: rbind_def)

lemma rbind_eq_Inr: "rbind r f = Inr y \<longleftrightarrow> (\<exists>x. r = Inr x \<and> f x = Inr y)"
  by (cases r) auto

lemma rbind_assoc: "rbind (rbind r f) g = rbind r (\<lambda>x. rbind (f x) g)"
  by (cases r) auto

lemma rbind_InrE [elim]:
  assumes "rbind r f = Inr y"
  obtains x where "r = Inr x" and "f x = Inr y"
  using assms by (cases r) auto

text \<open>A fallible step mapped over a list from the left, stopping at the first fault.\<close>

fun rmap :: "('a \<Rightarrow> 'b res) \<Rightarrow> 'a list \<Rightarrow> 'b list res" where
  "rmap f [] = Inr []"
| "rmap f (x # xs) = rbind (f x) (\<lambda>y. rbind (rmap f xs) (\<lambda>ys. Inr (y # ys)))"

lemma rmap_eq_Inr:
  "rmap f xs = Inr ys \<longleftrightarrow> list_all2 (\<lambda>x y. f x = Inr y) xs ys"
proof (induction xs arbitrary: ys)
  case Nil
  then show ?case by auto
next
  case (Cons x xs)
  then show ?case
    by (cases ys) (auto simp: rbind_eq_Inr)
qed

lemma rmap_total: "(\<And>x. x \<in> set xs \<Longrightarrow> f x = Inr (g x)) \<Longrightarrow> rmap f xs = Inr (map g xs)"
  by (induction xs) auto

text \<open>
  The methods of a module, run one after the other on the module's state: SystemC runs them
  to completion, and the module's members are shared between them.
\<close>

fun run_methods :: "('s \<Rightarrow> 's res) list \<Rightarrow> 's \<Rightarrow> 's res" where
  "run_methods [] s = Inr s"
| "run_methods (m # ms) s = rbind (m s) (run_methods ms)"

lemma run_methods_append: "run_methods (ms @ ns) s = rbind (run_methods ms s) (run_methods ns)"
proof (induction ms arbitrary: s)
  case (Cons m ms)
  have "run_methods (ms @ ns) = (\<lambda>x. rbind (run_methods ms x) (run_methods ns))"
    by (rule ext) (rule Cons.IH)
  then show ?case by (simp add: rbind_assoc)
qed simp

text \<open>
  A clocked component run over a sequence of inputs, one per clock edge: the states after
  each edge.
\<close>

fun clock_run :: "('p \<Rightarrow> 's \<Rightarrow> 's res) \<Rightarrow> 'p list \<Rightarrow> 's \<Rightarrow> 's list res" where
  "clock_run f [] s = Inr []"
| "clock_run f (p # ps) s = rbind (f p s) (\<lambda>s'. rbind (clock_run f ps s') (\<lambda>t. Inr (s' # t)))"

lemma clock_run_Cons:
  "f p s = Inr s' \<Longrightarrow> clock_run f ps s' = Inr t \<Longrightarrow> clock_run f (p # ps) s = Inr (s' # t)"
  by simp

lemma clock_run_append:
  assumes "clock_run f ps s = Inr (t @ [s'])" and "clock_run f qs s' = Inr u"
  shows "clock_run f (ps @ qs) s = Inr (t @ s' # u)"
  using assms
proof (induction ps arbitrary: s t)
  case (Cons p ps)
  then obtain s1 r where s1: "f p s = Inr s1" and r: "clock_run f ps s1 = Inr r" "t @ [s'] = s1 # r"
    by (auto simp: rbind_eq_Inr)
  show ?case
  proof (cases t)
    case Nil
    with r(2) have "r = []" "s' = s1" by auto
    with r(1) have "ps = []" by (cases ps) (auto simp: rbind_eq_Inr)
    with Nil s1 Cons.prems(2) \<open>s' = s1\<close> show ?thesis by simp
  next
    case (Cons a t')
    with r(2) have "r = t' @ [s']" "a = s1" by auto
    with Cons.IH [of s1 t'] Cons.prems(2) r(1) s1 Cons show ?thesis by simp
  qed
qed simp

lemma length_clock_run: "clock_run f ps s = Inr t \<Longrightarrow> length t = length ps"
  by (induction ps arbitrary: s t) (auto simp: rbind_eq_Inr)

lemma clock_run_split:
  "clock_run f (ps @ qs) s = rbind (clock_run f ps s) (\<lambda>t. rbind (clock_run f qs (last (s # t))) (\<lambda>u. Inr (t @ u)))"
proof (induction ps arbitrary: s)
  case Nil
  show ?case by (cases "clock_run f qs s") simp_all
next
  case (Cons p ps)
  show ?case
  proof (cases "f p s")
    case (Inr s1)
    show ?thesis
    proof (cases "clock_run f ps s1")
      case (Inr t)
      then show ?thesis using \<open>f p s = Inr s1\<close> Cons.IH [of s1]
        by (cases "clock_run f qs (last (s1 # t))") simp_all
    qed (use \<open>f p s = Inr s1\<close> Cons.IH [of s1] in simp)
  qed simp
qed

lemma clock_run_seq:
  assumes "clock_run f ps s = Inr t" and "last (s # t) = s'" and "clock_run f qs s' = Inr u"
  shows "clock_run f (ps @ qs) s = Inr (t @ u)"
  using assms by (simp add: clock_run_split del: last.simps)

lemma last_still: "last (s # replicate n s) = s"
  by (induction n) auto

lemma clock_run_still:
  "(\<And>p. p \<in> set ps \<Longrightarrow> f p s = Inr s) \<Longrightarrow> clock_run f ps s = Inr (replicate (length ps) s)"
proof (induction ps)
  case (Cons p ps)
  have "f p s = Inr s" by (rule Cons.prems) simp
  moreover have "clock_run f ps s = Inr (replicate (length ps) s)"
    by (rule Cons.IH) (simp add: Cons.prems)
  ultimately show ?case by simp
qed simp

text \<open>An invariant of the edges of a component holds along its run.\<close>

lemma clock_run_invariant:
  assumes "clock_run f ps s = Inr t" and "I s" and "\<And>p s s'. I s \<Longrightarrow> f p s = Inr s' \<Longrightarrow> I s'"
  shows "\<forall>s' \<in> set t. I s'"
  using assms(1,2)
proof (induction ps arbitrary: s t)
  case (Cons p ps)
  then obtain s1 t1 where s1: "f p s = Inr s1" "clock_run f ps s1 = Inr t1" "t = s1 # t1" by (auto simp: rbind_eq_Inr)
  have "I s1" by (rule assms(3) [OF Cons.prems(2) s1(1)])
  moreover from Cons.IH [OF s1(2) this] have "\<forall>s' \<in> set t1. I s'" .
  ultimately show ?case using s1(3) by simp
qed simp

text \<open>
  The deterministic step function of a system brings it to a state with the property
  \<open>Q\<close>: a liveness claim, so a fault on the way refutes it.
\<close>

inductive reaches :: "('s \<Rightarrow> 's res) \<Rightarrow> ('s \<Rightarrow> bool) \<Rightarrow> 's \<Rightarrow> bool" for step Q where
  reaches_now: "Q s \<Longrightarrow> reaches step Q s"
| reaches_later: "step s = Inr s' \<Longrightarrow> reaches step Q s' \<Longrightarrow> reaches step Q s"

lemma reaches_trans:
  assumes "reaches step P s" and "\<And>s. P s \<Longrightarrow> reaches step Q s"
  shows "reaches step Q s"
  using assms(1) by induction (auto intro: assms(2) reaches.intros)

lemma reaches_mono: "reaches step P s \<Longrightarrow> (\<And>s. P s \<Longrightarrow> Q s) \<Longrightarrow> reaches step Q s"
  by (erule reaches_trans) (blast intro: reaches_now)

lemma reaches_step: "step s = Inr s' \<Longrightarrow> Q s' \<Longrightarrow> reaches step Q s"
  by (blast intro: reaches.intros)

lemma reaches_measure:
  fixes f :: "'s \<Rightarrow> nat"
  assumes "P s" and "\<And>s. P s \<Longrightarrow> Q s \<or> (\<exists>s'. step s = Inr s' \<and> P s' \<and> f s' < f s)"
  shows "reaches step Q s"
  using assms(1)
proof (induction "f s" arbitrary: s rule: less_induct)
  case less
  then show ?case using assms(2) [of s] by (blast intro: reaches.intros)
qed

section \<open>The type int of C++\<close>

text \<open>
  A C++ \<open>int\<close> is modelled by an \<^typ>\<open>int\<close> that is kept inside the 32-bit range by
  every operation of the code: signed overflow is undefined behaviour, so an operation that
  leaves the range is a fault and not a wrapped value.
\<close>

type_synonym cint = int

definition INT_MAX :: int where
  "INT_MAX = 2147483647"

definition INT_MIN :: int where
  "INT_MIN = -2147483648"

definition is_cint :: "int \<Rightarrow> bool" where
  "is_cint n \<longleftrightarrow> INT_MIN \<le> n \<and> n \<le> INT_MAX"

definition check_int :: "int \<Rightarrow> cint res" where
  "check_int n = (if is_cint n then Inr n else Inl IntOverflow)"

lemma check_int_ok [simp, int_simps]: "is_cint n \<Longrightarrow> check_int n = Inr n"
  by (simp add: check_int_def)

lemma check_int_Inr: "check_int n = Inr m \<longleftrightarrow> is_cint n \<and> m = n"
  by (auto simp: check_int_def)

lemma is_cintI [intro]: "INT_MIN \<le> n \<Longrightarrow> n \<le> INT_MAX \<Longrightarrow> is_cint n"
  by (simp add: is_cint_def)

lemma is_cint_0 [simp]: "is_cint 0"
  by (simp add: is_cint_def INT_MIN_def INT_MAX_def)

lemma is_cint_mono: "is_cint b \<Longrightarrow> 0 \<le> a \<Longrightarrow> a \<le> b \<Longrightarrow> is_cint a"
  by (auto simp: is_cint_def INT_MIN_def INT_MAX_def)

lemma is_cint_nat: "k \<le> l \<Longrightarrow> int l \<le> INT_MAX \<Longrightarrow> is_cint (int k)"
  by (simp add: is_cint_def INT_MIN_def)

section \<open>Lists\<close>

lemma nth_append_snoc [simp]: "(xs @ [x]) ! length xs = x"
  by simp

lemma map_upt_eqI:
  assumes "length xs = n" and "\<And>i. i < n \<Longrightarrow> xs ! i = f i"
  shows "xs = map f [0..<n]"
  using assms by (auto intro: nth_equalityI)

lemma take_Suc_snoc: "n < length xs \<Longrightarrow> take (Suc n) xs = take n xs @ [xs ! n]"
  by (rule take_Suc_conv_app_nth)

end
