(* ===== verification/Rounding.thy ===== *)
theory Rounding
  imports Prelude
begin

text \<open>
  Rounding to a number of significant bits, to nearest with ties to even, as the \<open>float\<close>
  and \<open>double\<close> of C++ do it (IEEE 754).  Magnitudes are counted in units of the smallest
  subnormal number, so that the numbers of \<open>p\<close> significant bits are the multiples of
  \<open>2 ^ (bitlen n - p)\<close>.  The lemmas show that rounding is exact on representable
  magnitudes, monotone, between representable bounds of the exact value, and picks a nearest
  representable magnitude.
\<close>

section \<open>Definitions\<close>

text \<open>The number of binary digits of a natural number.\<close>

fun bitlen :: "nat \<Rightarrow> nat" where
  "bitlen n = (if n = 0 then 0 else Suc (bitlen (n div 2)))"

declare bitlen.simps [simp del]

definition rep_bits :: "nat \<Rightarrow> nat \<Rightarrow> bool" where
  "rep_bits p n \<longleftrightarrow> 2 ^ (bitlen n - p) dvd n"

text \<open>The quotient \<open>num / d\<close> rounded to the nearest integer, ties to even.\<close>

definition rne :: "nat \<Rightarrow> nat \<Rightarrow> nat" where
  "rne num d =
     (let q = num div d; r = num mod d
      in if 2 * r < d \<or> (2 * r = d \<and> even q) then q else q + 1)"

text \<open>
  The quotient \<open>num / den\<close> (in units) rounded to \<open>p\<close> significant bits: the spacing of
  the representable magnitudes around it is \<open>2 ^ k\<close>.
\<close>

definition round_bits :: "nat \<Rightarrow> nat \<Rightarrow> nat \<Rightarrow> nat" where
  "round_bits p num den =
     (let k = bitlen (num div den) - p in rne num (den * 2 ^ k) * 2 ^ k)"

section \<open>Binary digits\<close>

lemma bitlen_0 [simp]: "bitlen 0 = 0"
  by (simp add: bitlen.simps)

lemma bitlen_pos: "0 < n \<Longrightarrow> bitlen n = Suc (bitlen (n div 2))"
  by (simp add: bitlen.simps)

lemma bitlen_bounds: "0 < n \<Longrightarrow> 2 ^ (bitlen n - 1) \<le> n \<and> n < 2 ^ bitlen n"
proof (induction n rule: bitlen.induct)
  case (1 n)
  show ?case
  proof (cases "n div 2 = 0")
    case True
    with "1.prems" have "n = 1" by simp
    then show ?thesis by (simp add: bitlen_pos)
  next
    case False
    let ?b = "bitlen (n div 2)"
    from False "1.IH" "1.prems" have ih: "2 ^ (?b - 1) \<le> n div 2" "n div 2 < 2 ^ ?b" by simp_all
    from False have "0 < ?b" by (simp add: bitlen_pos)
    then have pw: "(2::nat) ^ ?b = 2 * 2 ^ (?b - 1)" by (cases ?b) simp_all
    have lo: "2 * (n div 2) \<le> n" by simp
    have "n < 2 * (n div 2) + 2" by linarith
    with ih(2) have hi: "n < 2 * 2 ^ ?b" by linarith
    from lo ih(1) have "2 * 2 ^ (?b - 1) \<le> n" by linarith
    with pw hi "1.prems" show ?thesis by (simp add: bitlen_pos)
  qed
qed

lemma bitlen_less: "n < 2 ^ bitlen n"
  by (cases "n = 0") (use bitlen_bounds in auto)

lemma bitlen_lower: "0 < n \<Longrightarrow> 2 ^ (bitlen n - 1) \<le> n"
  using bitlen_bounds by blast

lemma bitlen_le: "n < 2 ^ b \<Longrightarrow> bitlen n \<le> b"
proof (rule ccontr)
  assume a: "n < 2 ^ b" and "\<not> bitlen n \<le> b"
  then have b: "b \<le> bitlen n - 1" and "0 < n" by (auto intro: ccontr)
  have "(2::nat) ^ b \<le> 2 ^ (bitlen n - 1)" by (rule power_increasing [OF b]) simp
  also have "\<dots> \<le> n" by (rule bitlen_lower) fact
  finally show False using a by simp
qed

lemma bitlen_mono: "m \<le> n \<Longrightarrow> bitlen m \<le> bitlen n"
  by (rule bitlen_le) (use bitlen_less [of n] in linarith)

lemma bitlen_pow2 [simp]: "bitlen (2 ^ k) = Suc k"
proof (rule antisym)
  show "bitlen (2 ^ k) \<le> Suc k" by (rule bitlen_le) simp
  have "(2::nat) ^ k < 2 ^ bitlen (2 ^ k)" by (rule bitlen_less)
  then show "Suc k \<le> bitlen (2 ^ k)" by simp
qed

lemma bitlen_strict: "bitlen m < bitlen n \<Longrightarrow> m < 2 ^ (bitlen n - 1)"
proof -
  assume "bitlen m < bitlen n"
  then have "bitlen m \<le> bitlen n - 1" by simp
  then have "(2::nat) ^ bitlen m \<le> 2 ^ (bitlen n - 1)" by (rule power_increasing) simp
  with bitlen_less [of m] show ?thesis by linarith
qed

section \<open>Representable magnitudes\<close>

lemma rep_bits_small: "n < 2 ^ p \<Longrightarrow> rep_bits p n"
  using bitlen_le [of n p] by (simp add: rep_bits_def)

lemma rep_bits_dvd: "rep_bits p n \<Longrightarrow> k \<le> bitlen n - p \<Longrightarrow> 2 ^ k dvd n"
  unfolding rep_bits_def by (rule power_le_dvd)

lemma rep_bits_mult_pow2:
  assumes "n \<le> 2 ^ p" and p: "0 < p"
  shows "rep_bits p (n * 2 ^ k)"
proof (cases "n = 2 ^ p")
  case True
  then have "n * 2 ^ k = 2 ^ (p + k)" by (simp add: power_add)
  moreover have "(2::nat) ^ (bitlen (2 ^ (p + k)) - p) dvd 2 ^ (p + k)"
    unfolding bitlen_pow2 by (rule le_imp_power_dvd) (use p in simp)
  ultimately show ?thesis unfolding rep_bits_def by simp
next
  case False
  with assms(1) have "n < 2 ^ p" by simp
  then have "n * 2 ^ k < 2 ^ p * 2 ^ k" by simp
  then have "n * 2 ^ k < 2 ^ (p + k)" by (simp add: power_add)
  then have "bitlen (n * 2 ^ k) - p \<le> k" using bitlen_le [of "n * 2 ^ k" "p + k"] by linarith
  then have "(2::nat) ^ (bitlen (n * 2 ^ k) - p) dvd 2 ^ k" by (rule le_imp_power_dvd)
  then show ?thesis unfolding rep_bits_def by (rule dvd_mult)
qed

lemma rep_bits_pow2: "0 < p \<Longrightarrow> rep_bits p (2 ^ k)"
  using rep_bits_mult_pow2 [of 1 p k] by simp

lemma rep_bits_0 [simp]: "rep_bits p 0"
  by (simp add: rep_bits_def)

section \<open>Rounding to nearest even\<close>

lemma rne_exact: "0 < d \<Longrightarrow> rne (c * d) d = c"
  by (simp add: rne_def)

lemma rne_half:
  assumes "0 < d"
  shows "2 * \<bar>int (rne num d) * int d - int num\<bar> \<le> int d"
proof -
  let ?q = "num div d" and ?r = "num mod d"
  have num: "int num = int ?q * int d + int ?r"
    by (metis div_mult_mod_eq of_nat_add of_nat_mult)
  have r: "?r < d" using assms by simp
  show ?thesis
  proof (cases "2 * ?r < d \<or> (2 * ?r = d \<and> even ?q)")
    case True
    then have "rne num d = ?q" by (simp add: rne_def Let_def)
    with True num show ?thesis by auto
  next
    case False
    then have "rne num d = ?q + 1" by (auto simp: rne_def Let_def)
    with num have "int (rne num d) * int d - int num = int d - int ?r"
      by (simp add: algebra_simps)
    with False r show ?thesis by auto
  qed
qed

lemma rne_mono:
  assumes "0 < d" and "m \<le> n"
  shows "rne m d \<le> rne n d"
proof (cases "m div d = n div d")
  case True
  have "m mod d \<le> n mod d"
    using assms(2) True by (metis div_mult_mod_eq nat_add_left_cancel_le)
  with True show ?thesis by (auto simp: rne_def Let_def)
next
  case False
  from assms(2) have "m div d \<le> n div d" by (rule div_le_mono)
  with False have "m div d + 1 \<le> n div d" by simp
  then show ?thesis by (auto simp: rne_def Let_def)
qed

text \<open>The exponent of the spacing used for a quotient.\<close>

abbreviation spacing :: "nat \<Rightarrow> nat \<Rightarrow> nat \<Rightarrow> nat" where
  "spacing p num den \<equiv> bitlen (num div den) - p"

lemma round_bits_unfold: "round_bits p num den = rne num (den * 2 ^ spacing p num den) * 2 ^ spacing p num den"
  by (simp add: round_bits_def Let_def)

lemma round_bits_exact:
  assumes "0 < den" and "rep_bits p n"
  shows "round_bits p (n * den) den = n"
proof -
  let ?k = "bitlen n - p"
  from assms(2) obtain c where n: "n = c * 2 ^ ?k"
    unfolding rep_bits_def by (metis dvd_def mult.commute)
  have k: "spacing p (n * den) den = ?k" using assms(1) by simp
  have "n * den = c * (den * 2 ^ ?k)" by (subst n) (simp add: ac_simps)
  moreover have "0 < den * 2 ^ ?k" using assms(1) by simp
  ultimately have "rne (n * den) (den * 2 ^ ?k) = c" using rne_exact by metis
  then show ?thesis using n assms(1) by (simp add: round_bits_unfold k)
qed

text \<open>A representable bound on the quotient is a bound on the rounded quotient.\<close>

lemma round_bits_le:
  assumes "0 < den" and "rep_bits p n" and "num \<le> n * den"
  shows "round_bits p num den \<le> n"
proof -
  let ?k = "spacing p num den"
  have "num div den \<le> n" using assms(1,3) by (metis div_le_mono div_mult_self_is_m)
  then have "bitlen (num div den) \<le> bitlen n" by (rule bitlen_mono)
  then have "2 ^ ?k dvd n" by (intro rep_bits_dvd [OF assms(2)]) simp
  then obtain c where n: "n = c * 2 ^ ?k" by (metis dvd_def mult.commute)
  have pos: "0 < den * 2 ^ ?k" using assms(1) by simp
  have "num \<le> c * (den * 2 ^ ?k)" using assms(3) by (subst (asm) n) (simp add: ac_simps)
  then have "rne num (den * 2 ^ ?k) \<le> rne (c * (den * 2 ^ ?k)) (den * 2 ^ ?k)"
    by (rule rne_mono [OF pos])
  then have "rne num (den * 2 ^ ?k) \<le> c" by (simp only: rne_exact [OF pos])
  then have "rne num (den * 2 ^ ?k) * 2 ^ ?k \<le> c * 2 ^ ?k" by (rule mult_right_mono) simp
  then show ?thesis using n by (simp add: round_bits_unfold)
qed

lemma round_bits_ge_pow2:
  assumes "0 < den" and "0 < num div den" and p: "0 < p"
  shows "2 ^ (bitlen (num div den) - 1) \<le> round_bits p num den"
proof -
  let ?k = "spacing p num den" and ?b = "bitlen (num div den) - 1"
  have pos: "0 < den * 2 ^ ?k" using assms(1) by simp
  have kb: "?k \<le> ?b" using p by simp
  have "2 ^ ?b \<le> num div den" by (rule bitlen_lower) (rule assms(2))
  then have "2 ^ ?b * den \<le> num" using assms(1) by (simp add: less_eq_div_iff_mult_less_eq)
  moreover have "2 ^ (?b - ?k) * (den * 2 ^ ?k) = 2 ^ ?b * den"
  proof -
    have "(2::nat) ^ ?b = 2 ^ (?b - ?k) * 2 ^ ?k"
      unfolding power_add [symmetric] using kb by (simp only: le_add_diff_inverse2)
    then show ?thesis by (simp only: ac_simps)
  qed
  ultimately have "2 ^ (?b - ?k) * (den * 2 ^ ?k) \<le> num" by (simp only:)
  then have "rne (2 ^ (?b - ?k) * (den * 2 ^ ?k)) (den * 2 ^ ?k) \<le> rne num (den * 2 ^ ?k)"
    by (rule rne_mono [OF pos])
  then have "2 ^ (?b - ?k) \<le> rne num (den * 2 ^ ?k)" by (simp only: rne_exact [OF pos])
  then have "2 ^ (?b - ?k) * 2 ^ ?k \<le> rne num (den * 2 ^ ?k) * 2 ^ ?k" by (rule mult_right_mono) simp
  then show ?thesis
    unfolding round_bits_unfold power_add [symmetric] using kb by (simp only: le_add_diff_inverse2)
qed

lemma round_bits_ge:
  assumes "0 < den" and "rep_bits p n" and "n * den \<le> num" and p: "0 < p"
  shows "n \<le> round_bits p num den"
proof (cases "n = 0")
  case False
  have nq: "n \<le> num div den" using assms(1,3) by (simp add: less_eq_div_iff_mult_less_eq)
  then have q: "0 < num div den" using False by simp
  show ?thesis
  proof (cases "bitlen n < bitlen (num div den)")
    case True
    then have "n < 2 ^ (bitlen (num div den) - 1)" by (rule bitlen_strict)
    with round_bits_ge_pow2 [OF assms(1) q p] show ?thesis by linarith
  next
    case False
    with bitlen_mono [OF nq] have "bitlen n = bitlen (num div den)" by simp
    then have "2 ^ spacing p num den dvd n" by (intro rep_bits_dvd [OF assms(2)]) simp
    then obtain c where n: "n = c * 2 ^ spacing p num den" by (metis dvd_def mult.commute)
    let ?d = "den * 2 ^ spacing p num den"
    have pos: "0 < ?d" using assms(1) by simp
    have "c * ?d \<le> num" using assms(3) by (subst (asm) n) (simp add: ac_simps)
    then have "rne (c * ?d) ?d \<le> rne num ?d" by (rule rne_mono [OF pos])
    then have "c \<le> rne num ?d" by (simp only: rne_exact [OF pos])
    then have "c * 2 ^ spacing p num den \<le> rne num ?d * 2 ^ spacing p num den"
      by (rule mult_right_mono) simp
    then show ?thesis using n by (simp add: round_bits_unfold)
  qed
qed simp

lemma rep_bits_round:
  assumes "0 < den" and p: "0 < p"
  shows "rep_bits p (round_bits p num den)"
proof -
  let ?k = "spacing p num den"
  have pos: "0 < den * 2 ^ ?k" using assms(1) by simp
  have "rne num (den * 2 ^ ?k) \<le> 2 ^ p"
  proof -
    have "num div den < 2 ^ bitlen (num div den)" by (rule bitlen_less)
    also have "\<dots> \<le> 2 ^ (p + ?k)" by (rule power_increasing) simp_all
    finally have "num div den < 2 ^ p * 2 ^ ?k" by (simp add: power_add)
    then have "num < 2 ^ p * 2 ^ ?k * den" using assms(1) by (simp add: div_less_iff_less_mult)
    then have "num \<le> 2 ^ p * (den * 2 ^ ?k)" by (simp add: ac_simps)
    then have "rne num (den * 2 ^ ?k) \<le> rne (2 ^ p * (den * 2 ^ ?k)) (den * 2 ^ ?k)"
      by (rule rne_mono [OF pos])
    then show ?thesis by (simp only: rne_exact [OF pos])
  qed
  then show ?thesis by (simp only: round_bits_unfold rep_bits_mult_pow2 [OF _ p])
qed

lemma round_bits_mono:
  assumes "0 < den" and "m \<le> n" and p: "0 < p"
  shows "round_bits p m den \<le> round_bits p n den"
proof (cases "bitlen (m div den) < bitlen (n div den)")
  case True
  let ?p = "2 ^ (bitlen (n div den) - 1) :: nat"
  have "m div den < ?p" using True by (rule bitlen_strict)
  then have "m \<le> ?p * den" using assms(1) by (simp add: div_less_iff_less_mult less_imp_le)
  with assms(1) have "round_bits p m den \<le> ?p" by (intro round_bits_le rep_bits_pow2 p)
  also have "?p \<le> round_bits p n den"
    using assms(1) True p by (intro round_bits_ge_pow2) (auto intro: ccontr)
  finally show ?thesis .
next
  case False
  have "bitlen (m div den) \<le> bitlen (n div den)" using assms(2) by (intro bitlen_mono div_le_mono)
  with False have "bitlen (m div den) = bitlen (n div den)" by simp
  with assms show ?thesis by (simp add: round_bits_unfold rne_mono)
qed

lemma half_nearest: "D \<le> \<bar>R - N\<bar> \<Longrightarrow> 2 * \<bar>R - X\<bar> \<le> D \<Longrightarrow> \<bar>R - X\<bar> \<le> \<bar>N - X\<bar>"
  for D R N X :: int
  using abs_triangle_ineq4 [of "R - X" "N - X"] by simp

lemma scaled_distance:
  assumes "n = c * p"
  shows "\<bar>int r - int c\<bar> * int (den * p) = \<bar>int r * int (den * p) - int n * int den\<bar>"
proof -
  have "int n * int den = int c * int (den * p)" by (simp add: assms)
  then have "int r * int (den * p) - int n * int den = (int r - int c) * int (den * p)"
    by (simp only: left_diff_distrib)
  then show ?thesis by (simp only: abs_mult abs_of_nat)
qed

text \<open>No representable magnitude is closer to the quotient than the rounded one.\<close>

lemma round_bits_nearest:
  assumes "0 < den" and "rep_bits p n" and p: "0 < p"
  shows "\<bar>int (round_bits p num den) * int den - int num\<bar> \<le> \<bar>int n * int den - int num\<bar>"
proof -
  let ?k = "spacing p num den" and ?r = "round_bits p num den"
  let ?d = "den * 2 ^ ?k"
  have pos: "0 < ?d" using assms(1) by simp
  have r: "int ?r * int den = int (rne num ?d) * int ?d"
    by (simp add: round_bits_unfold)
  have half: "2 * \<bar>int ?r * int den - int num\<bar> \<le> int ?d"
    unfolding r by (rule rne_half [OF pos])
  consider (same) "?r = n" | (dvd) "2 ^ ?k dvd n" "?r \<noteq> n" | (low) "\<not> 2 ^ ?k dvd n" by blast
  then show ?thesis
  proof cases
    case same
    then show ?thesis by simp
  next
    case dvd
    then obtain c where n: "n = c * 2 ^ ?k" by (metis dvd_def mult.commute)
    have "rne num ?d \<noteq> c" using dvd(2) n by (auto simp: round_bits_unfold)
    then have "1 \<le> \<bar>int (rne num ?d) - int c\<bar>" by linarith
    then have "int ?d \<le> \<bar>int (rne num ?d) - int c\<bar> * int ?d"
      using mult_right_mono [of 1 "\<bar>int (rne num ?d) - int c\<bar>" "int ?d"] by simp
    also have "\<dots> = \<bar>int ?r * int den - int n * int den\<bar>"
      unfolding r by (rule scaled_distance [OF n])
    finally show ?thesis using half by (rule half_nearest)
  next
    case low
    then have "\<not> ?k \<le> bitlen n - p" using rep_bits_dvd [OF assms(2)] by blast
    then have lt: "bitlen n < bitlen (num div den)" by linarith
    then have q: "0 < num div den" by (auto intro: ccontr)
    let ?p = "2 ^ (bitlen (num div den) - 1) :: nat"
    have np: "n < ?p" using lt by (rule bitlen_strict)
    have "?p \<le> num div den" using q by (rule bitlen_lower)
    then have pn: "?p * den \<le> num" using assms(1) by (simp add: less_eq_div_iff_mult_less_eq)
    have "n * den \<le> ?p * den" using np by simp
    then have nn: "int n * int den \<le> int ?p * int den" by (metis of_nat_le_iff of_nat_mult)
    have pp: "int ?p * int den \<le> int num" using pn by (metis of_nat_le_iff of_nat_mult)
    have "?k \<le> bitlen (num div den) - 1" using p by simp
    then have "2 ^ ?k dvd ?p" by (rule le_imp_power_dvd)
    then obtain c where c: "?p = c * 2 ^ ?k" by (metis dvd_def mult.commute)
    have "\<bar>int ?r * int den - int num\<bar> \<le> \<bar>int ?p * int den - int num\<bar>"
    proof (cases "rne num ?d = c")
      case True
      then have "?r = ?p" using c by (simp add: round_bits_unfold)
      then show ?thesis by simp
    next
      case False
      then have "1 \<le> \<bar>int (rne num ?d) - int c\<bar>" by linarith
      then have "int ?d \<le> \<bar>int (rne num ?d) - int c\<bar> * int ?d"
        using mult_right_mono [of 1 "\<bar>int (rne num ?d) - int c\<bar>" "int ?d"] by simp
      also have "\<dots> = \<bar>int ?r * int den - int ?p * int den\<bar>"
        unfolding r by (rule scaled_distance [OF c])
      finally show ?thesis using half by (rule half_nearest)
    qed
    with nn pp show ?thesis by linarith
  qed
qed

end
