(* ===== verification/Float32.thy ===== *)
theory Float32
  imports Rounding
begin

text \<open>
  The C++ type \<open>float\<close> (IEEE 754 binary32, round to nearest even), as far as the program
  uses it: comparison, addition, multiplication, division, negation, and the conversions
  from and to \<open>int\<close>.

  Every finite binary32 number is a multiple of \<open>2\<^sup>-\<^sup>1\<^sup>4\<^sup>9\<close>, the smallest subnormal, so a
  finite number is a sign (\<open>True\<close> for negative) and its magnitude counted in units of
  \<open>2\<^sup>-\<^sup>1\<^sup>4\<^sup>9\<close>: \<open>1.0f\<close> is \<open>FNum False (2 ^ 149)\<close>.  The magnitudes that occur are those with
  at most 24 significant bits (\<open>representable\<close>) below \<open>2 ^ 277\<close> units (\<open>2 ^ 128\<close>), and
  \<open>wf_float\<close> says so.  There is one NaN: payloads and the sign of a NaN are not observable
  by the program.  The lemmas show that rounding is exact on representable magnitudes,
  monotone, and picks a nearest representable magnitude, and that small integers survive
  the round trip through \<open>float\<close>.
\<close>

section \<open>Values\<close>

datatype float32 = FNaN | FInf bool | FNum bool nat

definition FLOAT_ONE :: nat where
  "FLOAT_ONE = 2 ^ 149"

definition FLOAT_LIMIT :: nat where
  "FLOAT_LIMIT = 2 ^ 277"

definition representable :: "nat \<Rightarrow> bool" where
  "representable n \<longleftrightarrow> 2 ^ (bitlen n - 24) dvd n"

fun wf_float :: "float32 \<Rightarrow> bool" where
  "wf_float FNaN = True"
| "wf_float (FInf s) = True"
| "wf_float (FNum s n) = (representable n \<and> n < FLOAT_LIMIT)"

section \<open>Rounding\<close>

text \<open>
  The quotient \<open>num / den\<close> (in units) rounded to 24 significant bits: the spacing of the
  representable magnitudes around it is \<open>2 ^ k\<close>.
\<close>

definition round_mag :: "nat \<Rightarrow> nat \<Rightarrow> nat" where
  "round_mag num den =
     (let k = bitlen (num div den) - 24 in rne num (den * 2 ^ k) * 2 ^ k)"

definition round_float :: "bool \<Rightarrow> nat \<Rightarrow> nat \<Rightarrow> float32" where
  "round_float s num den =
     (let n = round_mag num den in if n < FLOAT_LIMIT then FNum s n else FInf s)"

section \<open>Operations\<close>

definition float_INFINITY :: float32 where
  "float_INFINITY = FInf False"

definition float_zero :: float32 where
  "float_zero = FNum False 0"

definition float_one :: float32 where
  "float_one = FNum False FLOAT_ONE"

fun float_neg :: "float32 \<Rightarrow> float32" where
  "float_neg FNaN = FNaN"
| "float_neg (FInf s) = FInf (\<not> s)"
| "float_neg (FNum s n) = FNum (\<not> s) n"

text \<open>The signed number of units of a finite float.\<close>

definition signed :: "bool \<Rightarrow> nat \<Rightarrow> int" where
  "signed s n = (if s then - int n else int n)"

fun float_eq :: "float32 \<Rightarrow> float32 \<Rightarrow> bool" where
  "float_eq (FNum s m) (FNum t n) = (signed s m = signed t n)"
| "float_eq (FInf s) (FInf t) = (s = t)"
| "float_eq _ _ = False"

fun float_ge :: "float32 \<Rightarrow> float32 \<Rightarrow> bool" where
  "float_ge (FNum s m) (FNum t n) = (signed s m \<ge> signed t n)"
| "float_ge (FInf s) (FNum t n) = (\<not> s)"
| "float_ge (FNum s m) (FInf t) = t"
| "float_ge (FInf s) (FInf t) = (s = t \<or> \<not> s)"
| "float_ge _ _ = False"

fun float_add :: "float32 \<Rightarrow> float32 \<Rightarrow> float32" where
  "float_add (FNum s m) (FNum t n) =
     (let z = signed s m + signed t n
      in if z = 0 then FNum (s \<and> t) 0 else round_float (z < 0) (nat \<bar>z\<bar>) 1)"
| "float_add (FInf s) (FInf t) = (if s = t then FInf s else FNaN)"
| "float_add (FInf s) (FNum t n) = FInf s"
| "float_add (FNum s m) (FInf t) = FInf t"
| "float_add FNaN _ = FNaN"
| "float_add _ FNaN = FNaN"

fun float_mul :: "float32 \<Rightarrow> float32 \<Rightarrow> float32" where
  "float_mul (FNum s m) (FNum t n) = round_float (s \<noteq> t) (m * n) FLOAT_ONE"
| "float_mul (FInf s) (FInf t) = FInf (s \<noteq> t)"
| "float_mul (FInf s) (FNum t n) = (if n = 0 then FNaN else FInf (s \<noteq> t))"
| "float_mul (FNum s m) (FInf t) = (if m = 0 then FNaN else FInf (s \<noteq> t))"
| "float_mul FNaN _ = FNaN"
| "float_mul _ FNaN = FNaN"

fun float_div :: "float32 \<Rightarrow> float32 \<Rightarrow> float32" where
  "float_div (FNum s m) (FNum t n) =
     (if n = 0 then if m = 0 then FNaN else FInf (s \<noteq> t)
      else round_float (s \<noteq> t) (m * FLOAT_ONE) n)"
| "float_div (FInf s) (FInf t) = FNaN"
| "float_div (FInf s) (FNum t n) = FInf (s \<noteq> t)"
| "float_div (FNum s m) (FInf t) = FNum (s \<noteq> t) 0"
| "float_div FNaN _ = FNaN"
| "float_div _ FNaN = FNaN"

text \<open>\<open>int\<close> to \<open>float\<close> rounds; \<open>float\<close> to \<open>int\<close> truncates towards zero and is
  undefined behaviour when the truncated value does not fit.\<close>

definition float_of_int :: "int \<Rightarrow> float32" where
  "float_of_int z = round_float (z < 0) (nat \<bar>z\<bar> * FLOAT_ONE) 1"

fun int_of_float :: "float32 \<Rightarrow> int res" where
  "int_of_float (FNum s n) =
     (let z = signed s (n div FLOAT_ONE) in if is_cint z then Inr z else Inl FloatToInt)"
| "int_of_float _ = Inl FloatToInt"

text \<open>Equality up to the sign of a zero, which is how a signal of type \<open>float\<close> reproduces
  what is written to it.\<close>

fun zeq :: "float32 \<Rightarrow> float32 \<Rightarrow> bool" where
  "zeq (FNum s m) (FNum t n) = (m = n \<and> (s = t \<or> n = 0))"
| "zeq x y = (x = y)"

section \<open>Rounding to 24 bits\<close>

lemma representable_rep_bits: "representable n = rep_bits 24 n"
  by (simp add: representable_def rep_bits_def)

lemma round_mag_bits: "round_mag num den = round_bits 24 num den"
  by (simp add: round_mag_def round_bits_def)

lemmas bits_24 = representable_rep_bits round_mag_bits

lemma representable_small: "n < 2 ^ 24 \<Longrightarrow> representable n"
  unfolding bits_24 by (rule rep_bits_small)

lemma representable_mult_pow2: "n \<le> 2 ^ 24 \<Longrightarrow> representable (n * 2 ^ k)"
  unfolding bits_24 by (rule rep_bits_mult_pow2) simp_all

lemma representable_pow2: "representable (2 ^ k)"
  unfolding bits_24 by (rule rep_bits_pow2) simp

lemma representable_0 [simp]: "representable 0"
  unfolding bits_24 by (rule rep_bits_0)

lemma round_mag_exact: "0 < den \<Longrightarrow> representable n \<Longrightarrow> round_mag (n * den) den = n"
  unfolding bits_24 by (rule round_bits_exact)

lemma round_mag_le: "0 < den \<Longrightarrow> representable n \<Longrightarrow> num \<le> n * den \<Longrightarrow> round_mag num den \<le> n"
  unfolding bits_24 by (rule round_bits_le)

lemma round_mag_ge: "0 < den \<Longrightarrow> representable n \<Longrightarrow> n * den \<le> num \<Longrightarrow> n \<le> round_mag num den"
  unfolding bits_24 by (rule round_bits_ge) simp_all

lemma representable_round_mag: "0 < den \<Longrightarrow> representable (round_mag num den)"
  unfolding bits_24 by (rule rep_bits_round) simp_all

lemma round_mag_mono: "0 < den \<Longrightarrow> m \<le> n \<Longrightarrow> round_mag m den \<le> round_mag n den"
  unfolding bits_24 by (rule round_bits_mono) simp_all

lemma round_mag_nearest:
  "0 < den \<Longrightarrow> representable n \<Longrightarrow> \<bar>int (round_mag num den) * int den - int num\<bar> \<le> \<bar>int n * int den - int num\<bar>"
  unfolding bits_24 by (rule round_bits_nearest) simp_all

section \<open>Well-formed results\<close>

lemma wf_round_float: "0 < den \<Longrightarrow> wf_float (round_float s num den)"
  by (simp add: round_float_def Let_def representable_round_mag)

lemma FLOAT_ONE_pos [simp]: "0 < FLOAT_ONE"
  by (simp add: FLOAT_ONE_def)

lemma FLOAT_LIMIT_pos [simp]: "0 < FLOAT_LIMIT"
  by (simp add: FLOAT_LIMIT_def)

lemma FLOAT_ONE_less_LIMIT [simp]: "FLOAT_ONE < FLOAT_LIMIT"
  by (simp add: FLOAT_ONE_def FLOAT_LIMIT_def)

lemma representable_FLOAT_ONE [simp]: "representable FLOAT_ONE"
  unfolding FLOAT_ONE_def by (rule representable_pow2)

lemma wf_float_neg: "wf_float x \<Longrightarrow> wf_float (float_neg x)"
  by (cases x) simp_all

lemma wf_float_add: "wf_float x \<Longrightarrow> wf_float y \<Longrightarrow> wf_float (float_add x y)"
  by (cases "(x, y)" rule: float_add.cases) (simp_all add: Let_def wf_round_float)

lemma wf_float_mul: "wf_float (float_mul x y)"
  by (cases "(x, y)" rule: float_mul.cases) (simp_all add: wf_round_float)

lemma wf_float_div: "wf_float (float_div x y)"
  by (cases "(x, y)" rule: float_div.cases) (simp_all add: wf_round_float)

lemma wf_float_of_int: "wf_float (float_of_int z)"
  by (simp add: float_of_int_def wf_round_float)

lemmas wf_float_ops = wf_float_neg wf_float_add wf_float_mul wf_float_div wf_float_of_int

section \<open>Comparison\<close>

lemma float_eq_INFINITY: "float_eq x float_INFINITY \<longleftrightarrow> x = FInf False"
  by (cases x) (auto simp: float_INFINITY_def)

lemma float_eq_neg_INFINITY: "float_eq x (float_neg float_INFINITY) \<longleftrightarrow> x = FInf True"
  by (cases x) (auto simp: float_INFINITY_def)

lemma float_eq_refl: "float_eq x x \<longleftrightarrow> x \<noteq> FNaN"
  by (cases x) auto

section \<open>Integers\<close>

lemma round_mag_of_int:
  assumes "n \<le> 2 ^ 24"
  shows "round_mag (n * FLOAT_ONE) 1 = n * FLOAT_ONE"
  using round_mag_exact [of 1 "n * FLOAT_ONE"] representable_mult_pow2 [OF assms, of 149]
  by (simp add: FLOAT_ONE_def)

lemma float_of_int_exact:
  assumes "\<bar>z\<bar> \<le> 2 ^ 24"
  shows "float_of_int z = FNum (z < 0) (nat \<bar>z\<bar> * FLOAT_ONE)"
proof -
  have n: "nat \<bar>z\<bar> \<le> 2 ^ 24" using assms by simp
  then have "nat \<bar>z\<bar> * FLOAT_ONE \<le> 2 ^ 24 * FLOAT_ONE" by (rule mult_right_mono) simp
  also have "2 ^ 24 * FLOAT_ONE < FLOAT_LIMIT" by (simp add: FLOAT_ONE_def FLOAT_LIMIT_def)
  finally show ?thesis
    unfolding float_of_int_def round_float_def Let_def round_mag_of_int [OF n] by simp
qed

lemma int_of_float_of_int:
  assumes "\<bar>z\<bar> \<le> 2 ^ 24"
  shows "int_of_float (float_of_int z) = Inr z"
  using assms
  by (auto simp: float_of_int_exact signed_def is_cint_def INT_MIN_def INT_MAX_def)

lemma float_of_int_not_Inf:
  assumes "\<bar>z\<bar> \<le> 2 ^ 24"
  shows "float_of_int z \<noteq> FInf s"
  using float_of_int_exact [OF assms] by simp

section \<open>The unit interval\<close>

text \<open>Floats between zero and one, the range of the activation function.\<close>

fun unit_float :: "float32 \<Rightarrow> bool" where
  "unit_float (FNum s n) = (n = 0 \<or> (\<not> s \<and> n \<le> FLOAT_ONE))"
| "unit_float _ = False"

lemma unit_float_div:
  assumes "m \<le> n" and "0 < n"
  shows "unit_float (float_div (FNum False m) (FNum False n))"
proof -
  have "m * FLOAT_ONE \<le> FLOAT_ONE * n" using assms(1) by (simp add: mult.commute)
  with assms(2) have "round_mag (m * FLOAT_ONE) n \<le> FLOAT_ONE"
    by (intro round_mag_le representable_FLOAT_ONE)
  moreover from this have "round_mag (m * FLOAT_ONE) n < FLOAT_LIMIT"
    using FLOAT_ONE_less_LIMIT by linarith
  ultimately show ?thesis using assms(2) by (simp add: round_float_def Let_def)
qed

text \<open>One plus a number of the unit interval: at least one, and at least that number.\<close>

lemma float_one_plus_unit:
  assumes "z \<le> FLOAT_ONE" and "representable z"
  obtains n where "float_add float_one (FNum False z) = FNum False n"
    and "FLOAT_ONE \<le> n" and "z \<le> n"
proof
  let ?n = "round_mag (FLOAT_ONE + z) 1"
  have two: "representable (2 * FLOAT_ONE)"
    using representable_pow2 [of 150] by (simp add: FLOAT_ONE_def)
  have "?n \<le> 2 * FLOAT_ONE" using assms(1) by (intro round_mag_le two) simp_all
  then have "?n < FLOAT_LIMIT" by (simp add: FLOAT_ONE_def FLOAT_LIMIT_def)
  moreover have "nat (int FLOAT_ONE + int z) = FLOAT_ONE + z" by simp
  moreover have "int FLOAT_ONE + int z \<noteq> 0" and "\<not> int FLOAT_ONE + int z < 0"
    using FLOAT_ONE_pos by linarith+
  ultimately show "float_add float_one (FNum False z) = FNum False ?n"
    by (simp add: float_one_def signed_def round_float_def Let_def)
  show "FLOAT_ONE \<le> ?n" by (intro round_mag_ge representable_FLOAT_ONE) simp_all
  show "z \<le> ?n" by (intro round_mag_ge assms(2)) simp_all
qed

section \<open>The sign of zero\<close>

lemma zeq_refl [simp]: "zeq x x"
  by (cases x) auto

lemma zeq_sym: "zeq x y \<Longrightarrow> zeq y x"
  by (cases x; cases y) auto

lemma zeq_trans: "zeq x y \<Longrightarrow> zeq y z \<Longrightarrow> zeq x z"
  by (cases x; cases y; cases z) auto

lemma zeq_iff: "zeq x y \<longleftrightarrow> x = y \<or> float_eq x y"
  by (cases x; cases y) (auto simp: signed_def)

lemma zeq_FInf [simp]: "zeq x (FInf s) \<longleftrightarrow> x = FInf s" "zeq (FInf s) x \<longleftrightarrow> x = FInf s"
  by (cases x; auto)+

lemma zeq_FNaN [simp]: "zeq x FNaN \<longleftrightarrow> x = FNaN" "zeq FNaN x \<longleftrightarrow> x = FNaN"
  by (cases x; auto)+

lemma zeq_cases:
  assumes "zeq x y"
  obtains "x = y" | s t where "x = FNum s 0" and "y = FNum t 0"
  using assms by (cases x; cases y) auto

lemma round_float_0 [simp]: "round_float s 0 d = FNum s 0"
  by (cases "d = 0") (simp_all add: round_float_def round_mag_def rne_def)

lemma zeq_mul_zero:
  "zeq (float_mul (FNum s 0) y) (float_mul (FNum t 0) y)" "zeq (float_mul y (FNum s 0)) (float_mul y (FNum t 0))"
  by (cases y; simp)+

lemma zeq_mul:
  assumes "zeq x x'" and "zeq y y'"
  shows "zeq (float_mul x y) (float_mul x' y')"
proof (rule zeq_trans)
  show "zeq (float_mul x y) (float_mul x' y)" using assms(1) by (rule zeq_cases) (simp_all add: zeq_mul_zero)
  show "zeq (float_mul x' y) (float_mul x' y')" using assms(2) by (rule zeq_cases) (simp_all add: zeq_mul_zero)
qed

text \<open>A sum that starts at \<open>+0\<close> never becomes \<open>-0\<close>, so the sign of a zero added to it does
  not matter.\<close>

definition not_neg_zero :: "float32 \<Rightarrow> bool" where
  "not_neg_zero x \<longleftrightarrow> x \<noteq> FNum True 0"

lemma round_mag_pos: "0 < n \<Longrightarrow> 0 < round_mag n 1"
  by (rule ccontr) (use round_mag_ge [of 1 1 n] in \<open>simp add: representable_small\<close>)

lemma not_neg_zero_round: "0 < n \<Longrightarrow> not_neg_zero (round_float s n 1)"
  using round_mag_pos [of n] by (simp add: not_neg_zero_def round_float_def Let_def)

lemma not_neg_zero_add:
  assumes "not_neg_zero x"
  shows "not_neg_zero (float_add x y)"
proof (cases "\<exists>s m t n. x = FNum s m \<and> y = FNum t n")
  case True
  then obtain s m t n where xy: "x = FNum s m" "y = FNum t n" by blast
  show ?thesis
  proof (cases "signed s m + signed t n = 0")
    case True
    have "\<not> (s \<and> t)" using assms True xy by (auto simp: not_neg_zero_def signed_def split: if_splits)
    with True xy show ?thesis by (simp add: Let_def not_neg_zero_def)
  next
    case False
    then have "0 < nat \<bar>signed s m + signed t n\<bar>" by simp
    from not_neg_zero_round [OF this] False xy show ?thesis by (simp add: Let_def)
  qed
next
  case False
  then show ?thesis by (cases x; cases y) (auto simp: not_neg_zero_def)
qed

lemma zeq_add:
  assumes "not_neg_zero x" and "zeq y y'"
  shows "float_add x y = float_add x y'"
  using assms(2)
proof (rule zeq_cases)
  fix s t
  assume y: "y = FNum s 0" "y' = FNum t 0"
  show ?thesis
  proof (cases x)
    case (FNum u n)
    with assms(1) have "n = 0 \<longrightarrow> \<not> u" by (auto simp: not_neg_zero_def)
    with y FNum show ?thesis by (auto simp: signed_def Let_def)
  qed (simp_all add: y)
qed simp

end
