(* ===== verification/Text_Input.thy ===== *)
theory Text_Input
  imports Float32
begin

text \<open>
  Formatted input of the C++ standard library as \<open>io_module.cpp\<close> uses it: an
  \<open>ifstream\<close> over the characters of a file, with its \<open>eofbit\<close> and \<open>failbit\<close>, and
  the extraction operators \<open>>> int\<close> and \<open>>> float\<close> in the default locale.  A decimal
  numeral is converted to \<open>float\<close> with correct rounding.  Printing is not part of the
  program; the decimal printer here only states the round trip of the layer sizes.
\<close>

section \<open>Streams\<close>

record istream =
  is_rest :: string
  is_eof :: bool
  is_fail :: bool

definition open_stream :: "string \<Rightarrow> istream" where
  "open_stream cs = \<lparr>is_rest = cs, is_eof = False, is_fail = False\<rparr>"

definition is_space :: "char \<Rightarrow> bool" where
  "is_space c \<longleftrightarrow> of_char c \<in> {9, 10, 11, 12, 13, 32 :: nat}"

definition is_digit :: "char \<Rightarrow> bool" where
  "is_digit c \<longleftrightarrow> 48 \<le> (of_char c :: nat) \<and> (of_char c :: nat) \<le> 57"

definition digit_val :: "char \<Rightarrow> nat" where
  "digit_val c = of_char c - 48"

definition is_sign :: "char \<Rightarrow> bool" where
  "is_sign c \<longleftrightarrow> c = CHR ''+'' \<or> c = CHR ''-''"

text \<open>
  The sentry of an extraction: on a stream whose state is not good it only sets
  \<open>failbit\<close>; otherwise it skips white space, and reaching the end sets both bits.
\<close>

definition sentry :: "istream \<Rightarrow> bool \<times> istream" where
  "sentry s =
     (if is_eof s \<or> is_fail s then (False, s\<lparr>is_fail := True\<rparr>)
      else case dropWhile is_space (is_rest s) of
        [] \<Rightarrow> (False, s\<lparr>is_rest := [], is_eof := True, is_fail := True\<rparr>)
      | c # cs \<Rightarrow> (True, s\<lparr>is_rest := c # cs\<rparr>))"

definition dec_value :: "string \<Rightarrow> nat" where
  "dec_value ds = foldl (\<lambda>v c. v * 10 + digit_val c) 0 ds"

text \<open>An optional sign, at the front of a numeral.\<close>

fun take_sign :: "string \<Rightarrow> bool \<times> string" where
  "take_sign [] = (False, [])"
| "take_sign (c # cs) = (if is_sign c then (c = CHR ''-'', cs) else (False, c # cs))"

section \<open>Integers\<close>

text \<open>
  \<open>>> int\<close>: no digit stores 0, a value outside the range of \<open>int\<close> stores the nearest
  limit, and both set \<open>failbit\<close>; when the sentry refuses, the variable keeps its value.
\<close>

definition get_int :: "int \<Rightarrow> istream \<Rightarrow> int \<times> istream" where
  "get_int old s =
     (case sentry s of
        (False, s1) \<Rightarrow> (old, s1)
      | (True, s1) \<Rightarrow>
          (case take_sign (is_rest s1) of (neg, cs) \<Rightarrow>
            let ds = takeWhile is_digit cs;
                s2 = s1\<lparr>is_rest := dropWhile is_digit cs, is_eof := (dropWhile is_digit cs = [])\<rparr>;
                z = signed neg (dec_value ds)
            in if ds = [] then (0, s2\<lparr>is_fail := True\<rparr>)
               else if z < INT_MIN then (INT_MIN, s2\<lparr>is_fail := True\<rparr>)
               else if INT_MAX < z then (INT_MAX, s2\<lparr>is_fail := True\<rparr>)
               else (z, s2)))"

section \<open>Floats\<close>

text \<open>
  The characters \<open>>> float\<close> takes: digits, at most one point, and after at least one
  digit an exponent, whose sign may follow the \<open>e\<close> directly.  The result is the whole
  part, the fraction, the exponent if an \<open>e\<close> was taken, and the rest of the input.
\<close>

definition take_fraction :: "string \<Rightarrow> string \<times> string" where
  "take_fraction cs =
     (case cs of
        [] \<Rightarrow> ([], [])
      | c # cs' \<Rightarrow> if c = CHR ''.'' then (takeWhile is_digit cs', dropWhile is_digit cs') else ([], cs))"

definition take_exponent :: "bool \<Rightarrow> string \<Rightarrow> (bool \<times> string) option \<times> string" where
  "take_exponent found cs =
     (case cs of
        [] \<Rightarrow> (None, [])
      | c # cs' \<Rightarrow>
          if found \<and> (c = CHR ''e'' \<or> c = CHR ''E'')
          then (case take_sign cs' of (neg, es) \<Rightarrow> (Some (neg, takeWhile is_digit es), dropWhile is_digit es))
          else (None, cs))"

text \<open>Correctly rounded value of \<open>m * 10 ^ e10\<close>.\<close>

definition float_of_decimal :: "bool \<Rightarrow> nat \<Rightarrow> int \<Rightarrow> float32" where
  "float_of_decimal neg m e10 =
     (if 0 \<le> e10 then round_float neg (m * 10 ^ nat e10 * FLOAT_ONE) 1
      else round_float neg (m * FLOAT_ONE) (10 ^ nat (- e10)))"

text \<open>An exponent mark that is not followed by a digit.\<close>

fun bad_exponent :: "(bool \<times> string) option \<Rightarrow> bool" where
  "bad_exponent None = False"
| "bad_exponent (Some (neg, es)) = (es = [])"

definition float_max :: "bool \<Rightarrow> float32" where
  "float_max neg = FNum neg ((2 ^ 24 - 1) * 2 ^ 253)"

text \<open>
  \<open>>> float\<close>: no digit, or an exponent without digits, stores 0; a value that rounds to
  infinity stores the largest finite float; both set \<open>failbit\<close>.
\<close>

definition get_float :: "float32 \<Rightarrow> istream \<Rightarrow> float32 \<times> istream" where
  "get_float old s =
     (case sentry s of
        (False, s1) \<Rightarrow> (old, s1)
      | (True, s1) \<Rightarrow>
          (case take_sign (is_rest s1) of (neg, cs) \<Rightarrow>
          (case take_fraction (dropWhile is_digit cs) of (fr, cs2) \<Rightarrow>
          let whole = takeWhile is_digit cs in
          (case take_exponent (whole \<noteq> [] \<or> fr \<noteq> []) cs2 of (ex, cs3) \<Rightarrow>
            let s2 = s1\<lparr>is_rest := cs3, is_eof := (cs3 = [])\<rparr>;
                e10 = (case ex of None \<Rightarrow> 0 | Some (eneg, es) \<Rightarrow> signed eneg (dec_value es));
                v = float_of_decimal neg (dec_value (whole @ fr)) (e10 - int (length fr))
            in if (whole = [] \<and> fr = []) \<or> bad_exponent ex then (float_zero, s2\<lparr>is_fail := True\<rparr>)
               else case v of
                 FInf sg \<Rightarrow> (float_max sg, s2\<lparr>is_fail := True\<rparr>)
               | _ \<Rightarrow> (v, s2)))))"

section \<open>Extraction consumes input\<close>

lemma length_dropWhile_is_digit: "length (dropWhile is_digit cs) \<le> length cs"
  by (rule length_dropWhile_le)

lemma take_sign_length: "take_sign cs = (neg, ds) \<Longrightarrow> length ds \<le> length cs"
  by (cases cs) (auto split: if_splits)

lemma take_fraction_length: "take_fraction cs = (fr, ds) \<Longrightarrow> length ds + length fr \<le> length cs"
proof (cases cs)
  case (Cons c cs')
  have "length (takeWhile is_digit cs') + length (dropWhile is_digit cs') = length cs'"
    by (metis length_append takeWhile_dropWhile_id)
  then show "take_fraction cs = (fr, ds) \<Longrightarrow> ?thesis"
    using Cons by (auto simp: take_fraction_def split: if_splits)
qed (auto simp: take_fraction_def)

lemma take_exponent_length: "take_exponent f cs = (ex, ds) \<Longrightarrow> length ds \<le> length cs"
proof (cases cs)
  case (Cons c cs')
  then show "take_exponent f cs = (ex, ds) \<Longrightarrow> ?thesis"
    using take_sign_length [of cs'] length_dropWhile_is_digit
    by (auto simp: take_exponent_def split: if_splits prod.splits intro: le_trans le_SucI)
qed (auto simp: take_exponent_def)

lemma sentry_True:
  "sentry s = (True, s1) \<Longrightarrow> is_rest s1 = dropWhile is_space (is_rest s) \<and> is_rest s1 \<noteq> [] \<and>
     is_eof s1 = is_eof s \<and> \<not> is_eof s \<and> \<not> is_fail s1 \<and> \<not> is_fail s"
  by (auto simp: sentry_def split: if_splits list.splits)

lemma sentry_False: "sentry s = (False, s1) \<Longrightarrow> is_fail s1"
  by (auto simp: sentry_def split: if_splits list.splits)

lemma get_float_consumes:
  assumes "get_float old s = (v, s')" and "\<not> is_fail s'"
  shows "length (is_rest s') < length (is_rest s)"
proof -
  from assms obtain s1 where s1: "sentry s = (True, s1)"
    by (cases "sentry s"; cases "fst (sentry s)") (auto simp: get_float_def dest: sentry_False)
  obtain neg cs where sg: "take_sign (is_rest s1) = (neg, cs)" by fastforce
  obtain fr cs2 where fr: "take_fraction (dropWhile is_digit cs) = (fr, cs2)" by fastforce
  let ?w = "takeWhile is_digit cs"
  obtain ex cs3 where ex: "take_exponent (?w \<noteq> [] \<or> fr \<noteq> []) cs2 = (ex, cs3)" by fastforce
  from assms s1 sg fr ex have w: "?w \<noteq> [] \<or> fr \<noteq> []"
    by (auto simp: get_float_def Let_def split: if_splits float32.splits)
  from assms s1 sg fr ex have rest: "is_rest s' = cs3"
    by (auto simp: get_float_def Let_def split: if_splits float32.splits)
  have "length ?w + length (dropWhile is_digit cs) = length cs"
    by (metis length_append takeWhile_dropWhile_id)
  with take_fraction_length [OF fr] w have "length cs2 < length cs" by (cases "?w"; cases fr) auto
  with take_exponent_length [OF ex] take_sign_length [OF sg]
  have "length cs3 < length (is_rest s1)" by linarith
  also have "\<dots> \<le> length (is_rest s)"
    using sentry_True [OF s1] length_dropWhile_le [of is_space "is_rest s"] by simp
  finally show ?thesis unfolding rest .
qed

section \<open>Decimal numerals\<close>

text \<open>The decimal numeral of a natural number, and of an integer.\<close>

fun show_nat :: "nat \<Rightarrow> string" where
  "show_nat n = (if n < 10 then [char_of (48 + n)] else show_nat (n div 10) @ [char_of (48 + n mod 10)])"

declare show_nat.simps [simp del]

definition show_int :: "int \<Rightarrow> string" where
  "show_int z = (if z < 0 then CHR ''-'' # show_nat (nat (- z)) else show_nat (nat z))"

lemma is_digit_not_space: "is_digit c \<Longrightarrow> \<not> is_space c"
  by (auto simp: is_digit_def is_space_def)

lemma is_digit_not_sign: "is_digit c \<Longrightarrow> \<not> is_sign c"
  by (auto simp: is_digit_def is_sign_def)

lemma is_space_not_digit: "is_space c \<Longrightarrow> \<not> is_digit c"
  by (auto simp: is_digit_def is_space_def)

lemma digit_char:
  assumes "d < 10"
  shows "is_digit (char_of (48 + d))" and "digit_val (char_of (48 + d)) = d"
    and "\<not> is_space (char_of (48 + d))" and "\<not> is_sign (char_of (48 + d))"
proof -
  have c: "(of_char (char_of (48 + d) :: char) :: nat) = 48 + d" using assms by simp
  show "digit_val (char_of (48 + d)) = d" unfolding digit_val_def c by simp
  show "\<not> is_space (char_of (48 + d))" using assms by (simp add: is_space_def c)
  show "is_digit (char_of (48 + d))" using assms by (simp add: is_digit_def c)
  then show "\<not> is_sign (char_of (48 + d))" by (rule is_digit_not_sign)
qed

lemma dec_value_snoc: "dec_value (ds @ [c]) = dec_value ds * 10 + digit_val c"
  by (simp add: dec_value_def)

lemma show_nat_digits:
  "show_nat n \<noteq> [] \<and> list_all is_digit (show_nat n) \<and> dec_value (show_nat n) = n"
proof (induction n rule: show_nat.induct)
  case (1 n)
  show ?case
  proof (cases "n < 10")
    case True
    then show ?thesis
      by (simp add: show_nat.simps [of n] digit_char dec_value_def)
  next
    case False
    with "1.IH" have "show_nat (n div 10) \<noteq> [] \<and> list_all is_digit (show_nat (n div 10)) \<and>
      dec_value (show_nat (n div 10)) = n div 10" by blast
    with False show ?thesis
      by (simp add: show_nat.simps [of n] digit_char dec_value_snoc)
  qed
qed

text \<open>The input stops at the first character that is not a digit.\<close>

fun stops_digits :: "string \<Rightarrow> bool" where
  "stops_digits [] = True"
| "stops_digits (c # cs) = (\<not> is_digit c)"

lemma takeWhile_digits:
  assumes "list_all is_digit ds" and "stops_digits rest"
  shows "takeWhile is_digit (ds @ rest) = ds" and "dropWhile is_digit (ds @ rest) = rest"
  using assms by (induction ds; cases rest; simp)+

lemma take_sign_show_int:
  "take_sign (show_int z @ rest) = (z < 0, show_nat (nat \<bar>z\<bar>) @ rest)"
proof (cases "z < 0")
  case True
  then show ?thesis by (simp add: show_int_def is_sign_def abs_if)
next
  case False
  obtain c cs where c: "show_nat (nat z) = c # cs" "is_digit c"
    using show_nat_digits [of "nat z"] by (cases "show_nat (nat z)") auto
  with False show ?thesis by (simp add: show_int_def is_digit_not_sign)
qed

lemma show_int_not_space:
  "\<exists>c cs. show_int z = c # cs \<and> \<not> is_space c"
proof (cases "z < 0")
  case False
  then show ?thesis
    using show_nat_digits [of "nat z"] is_digit_not_space
    by (cases "show_nat (nat z)") (auto simp: show_int_def)
qed (simp add: show_int_def is_space_def)

lemma dropWhile_space_show_int:
  assumes "list_all is_space ws"
  shows "dropWhile is_space (ws @ show_int z @ rest) = show_int z @ rest"
  using assms show_int_not_space [of z] by (induction ws) auto

text \<open>Reading back a printed integer.\<close>

lemma get_int_show:
  assumes "list_all is_space ws" and "is_cint z" and "stops_digits rest"
  shows "get_int old (open_stream (ws @ show_int z @ rest)) =
    (z, \<lparr>is_rest = rest, is_eof = (rest = []), is_fail = False\<rparr>)"
proof -
  obtain c cs where c: "show_int z = c # cs" using show_int_not_space by blast
  have sen: "sentry (open_stream (ws @ show_int z @ rest)) = (True, open_stream (show_int z @ rest))"
    using dropWhile_space_show_int [OF assms(1), of z rest]
    by (simp add: sentry_def open_stream_def c)
  let ?ds = "show_nat (nat \<bar>z\<bar>)"
  have ds: "?ds \<noteq> []" "list_all is_digit ?ds" "dec_value ?ds = nat \<bar>z\<bar>"
    using show_nat_digits by simp_all
  have z: "signed (z < 0) (nat \<bar>z\<bar>) = z" by (simp add: signed_def)
  show ?thesis
    unfolding get_int_def sen
    using assms(2) ds(1,3) takeWhile_digits [OF ds(2) assms(3)] z
    by (simp add: take_sign_show_int open_stream_def Let_def is_cint_def del: dropWhile_eq_Nil_conv)
qed

end
