(* ===== verification/Io_Module.thy ===== *)
theory Io_Module
  imports Text_Input
begin

text \<open>
  \<open>IO\<close> (\<open>inc/io_module.h\<close>, \<open>src/io_module.cpp\<close>): reads the configuration and the
  picture, sends them over the bus (the command \<open>+INFINITY\<close> and the number of layers at
  address 0, the layer sizes at 1, the picture at 2, the weights at 3, the command
  \<open>-INFINITY\<close> at 0), and afterwards reports every value it sees on the bus.
\<close>

section \<open>Reading the files\<close>

text \<open>The loop that reads the layer sizes into the resized, zeroed vector.\<close>

fun read_layers :: "nat \<Rightarrow> istream \<Rightarrow> int list \<times> istream" where
  "read_layers 0 s = ([], s)"
| "read_layers (Suc n) s =
     (case get_int 0 s of (v, s1) \<Rightarrow> case read_layers n s1 of (vs, s2) \<Rightarrow> (v # vs, s2))"

text \<open>The loops \<open>while (cfg >> w)\<close> and \<open>while (pic >> p)\<close>: until an extraction fails.\<close>

function read_floats :: "istream \<Rightarrow> float32 list" where
  "read_floats s =
     (case get_float float_zero s of (v, s') \<Rightarrow> if is_fail s' then [] else v # read_floats s')"
  by pat_completeness auto
termination
  by (relation "measure (length \<circ> is_rest)") (simp, metis comp_apply get_float_consumes in_measure)

declare read_floats.simps [simp del]

text \<open>What is read is finite, and a number of the format.\<close>

definition finite_float :: "float32 \<Rightarrow> bool" where
  "finite_float x \<longleftrightarrow> (\<exists>s n. x = FNum s n) \<and> wf_float x"

lemma finite_float_of_decimal:
  "(\<forall>s. float_of_decimal neg m e \<noteq> FInf s) \<Longrightarrow> finite_float (float_of_decimal neg m e)"
proof -
  assume "\<forall>s. float_of_decimal neg m e \<noteq> FInf s"
  moreover have "wf_float (float_of_decimal neg m e)"
    by (simp add: float_of_decimal_def wf_round_float)
  ultimately show ?thesis
    by (auto simp: finite_float_def float_of_decimal_def round_float_def Let_def split: if_splits)
qed

lemma float_of_decimal_not_NaN [simp]: "float_of_decimal neg m e \<noteq> FNaN"
  by (simp add: float_of_decimal_def round_float_def Let_def)

lemma get_float_finite:
  assumes "get_float old s = (v, s')" and "\<not> is_fail s'"
  shows "finite_float v"
proof -
  from assms obtain s1 where s1: "sentry s = (True, s1)"
    by (cases "sentry s"; cases "fst (sentry s)") (auto simp: get_float_def dest: sentry_False)
  obtain neg cs where sg: "take_sign (is_rest s1) = (neg, cs)" by fastforce
  obtain fr cs2 where fr: "take_fraction (dropWhile is_digit cs) = (fr, cs2)" by fastforce
  obtain ex cs3 where ex: "take_exponent (takeWhile is_digit cs \<noteq> [] \<or> fr \<noteq> []) cs2 = (ex, cs3)" by fastforce
  from assms s1 sg fr ex have "(\<exists>m e. v = float_of_decimal neg m e) \<and> (\<forall>b. v \<noteq> FInf b)"
    by (auto simp: get_float_def Let_def split: if_splits float32.splits)
  then show ?thesis using finite_float_of_decimal by blast
qed

lemma read_floats_finite: "x \<in> set (read_floats s) \<Longrightarrow> finite_float x"
proof (induction s rule: read_floats.induct)
  case (1 s)
  obtain v s' where g: "get_float float_zero s = (v, s')" by fastforce
  show ?case
  proof (cases "is_fail s'")
    case True
    then show ?thesis using "1.prems" g by (simp add: read_floats.simps [of s])
  next
    case False
    then have "x = v \<or> x \<in> set (read_floats s')" using "1.prems" g by (simp add: read_floats.simps [of s])
    then show ?thesis using "1.IH" [OF g [symmetric] False] get_float_finite [OF g False] by blast
  qed
qed

record load_result =
  ld_layersCount :: int
  ld_layers :: "int list"
  ld_weights :: "float32 list"
  ld_picture :: "float32 list"

text \<open>\<open>loadData\<close>: a file that cannot be opened is \<open>None\<close>, and then so is the result;
  a negative number of layers makes \<open>layers.resize\<close> throw.\<close>

definition loadData :: "string option \<Rightarrow> string option \<Rightarrow> load_result option res" where
  "loadData cfg pic =
     (case cfg of
        None \<Rightarrow> Inr None
      | Some c \<Rightarrow>
          (case get_int 0 (open_stream c) of (n, s1) \<Rightarrow>
            if n < 0 then Inl LengthError
            else case read_layers (nat n) s1 of (ls, s2) \<Rightarrow>
              (case pic of
                 None \<Rightarrow> Inr None
               | Some q \<Rightarrow>
                   Inr (Some \<lparr>ld_layersCount = n, ld_layers = ls, ld_weights = read_floats s2,
                              ld_picture = read_floats (open_stream q)\<rparr>))))"

lemma loadData_finite:
  assumes "loadData cfg pic = Inr (Some d)"
  shows "\<forall>x \<in> set (ld_weights d). finite_float x" and "\<forall>x \<in> set (ld_picture d). finite_float x"
  using assms read_floats_finite by (auto simp: loadData_def split: option.splits if_splits prod.splits)

section \<open>Module\<close>

record io_ports =
  io_now :: nat
  io_data_io :: float32
  io_wr_io :: bool

text \<open>The waits of \<open>write_data_to_system\<close>: before the first activation, after the command,
  after the number of layers, in each of the three loops, after the last command, and the
  end of the thread.\<close>

datatype io_pc = IO_Start | IO_Command | IO_Count | IO_Layers | IO_Picture | IO_Weights | IO_Go | IO_Done

text \<open>The locals \<open>layers\<close>, \<open>picture\<close> and \<open>weights\<close> hold the items the loops have
  still to send; the reported lines are kept as (time, counter, value).\<close>

record io_module =
  io_cfg :: "string option"
  io_pic :: "string option"
  io_counter :: int
  io_transmit :: bool
  io_pc :: io_pc
  io_layersCount :: int
  io_layers :: "int list"
  io_picture :: "float32 list"
  io_weights :: "float32 list"
  io_addr_o :: int
  io_data_write :: "float32 option"
  io_wr_write :: "bool option"
  io_report :: "(nat \<times> int \<times> float32) list"

definition io_module_new :: "string option \<Rightarrow> string option \<Rightarrow> io_module" where
  "io_module_new cfg pic =
     \<lparr>io_cfg = cfg, io_pic = pic, io_counter = 0, io_transmit = False, io_pc = IO_Start,
      io_layersCount = 0, io_layers = [], io_picture = [], io_weights = [], io_addr_o = 0,
      io_data_write = None, io_wr_write = None, io_report = []\<rparr>"

definition io_read_data_from_system :: "io_ports \<Rightarrow> io_module \<Rightarrow> io_module res" where
  "io_read_data_from_system p s =
     (if \<not> io_transmit s \<and> io_wr_io p
      then rbind (check_int (io_counter s + 1)) (\<lambda>c.
        Inr (s\<lparr>io_report := io_report s @ [(io_now p, io_counter s, io_data_io p)], io_counter := c\<rparr>))
      else Inr s)"

definition io_methods :: "io_ports \<Rightarrow> (io_module \<Rightarrow> io_module res) list" where
  "io_methods p = [io_read_data_from_system p]"

text \<open>The final command, and the heads of the three loops, each up to the next wait.\<close>

definition io_send_go :: "io_module \<Rightarrow> io_module" where
  "io_send_go s =
     s\<lparr>io_addr_o := 0, io_data_write := Some (float_neg float_INFINITY), io_wr_write := Some True, io_pc := IO_Go\<rparr>"

definition io_weights_head :: "io_module \<Rightarrow> io_module" where
  "io_weights_head s =
     (case io_weights s of
        [] \<Rightarrow> io_send_go s
      | w # ws \<Rightarrow> s\<lparr>io_data_write := Some w, io_weights := ws, io_pc := IO_Weights\<rparr>)"

definition io_picture_head :: "io_module \<Rightarrow> io_module" where
  "io_picture_head s =
     (case io_picture s of
        [] \<Rightarrow> io_weights_head (s\<lparr>io_addr_o := 3\<rparr>)
      | x # xs \<Rightarrow> s\<lparr>io_data_write := Some x, io_picture := xs, io_pc := IO_Picture\<rparr>)"

definition io_layers_head :: "io_module \<Rightarrow> io_module" where
  "io_layers_head s =
     (case io_layers s of
        [] \<Rightarrow> io_picture_head (s\<lparr>io_addr_o := 2\<rparr>)
      | l # ls \<Rightarrow> s\<lparr>io_data_write := Some (float_of_int l), io_layers := ls, io_pc := IO_Layers\<rparr>)"

definition io_write_data_to_system :: "io_module \<Rightarrow> io_module res" where
  "io_write_data_to_system s =
     (case io_pc s of
        IO_Start \<Rightarrow>
          rbind (loadData (io_cfg s) (io_pic s)) (\<lambda>r.
            case r of
              None \<Rightarrow> Inl Aborted
            | Some d \<Rightarrow>
                Inr (s\<lparr>io_transmit := True, io_layersCount := ld_layersCount d, io_layers := ld_layers d,
                       io_weights := ld_weights d, io_picture := ld_picture d, io_addr_o := 0,
                       io_data_write := Some float_INFINITY, io_wr_write := Some True, io_pc := IO_Command\<rparr>))
      | IO_Command \<Rightarrow> Inr (s\<lparr>io_data_write := Some (float_of_int (io_layersCount s)), io_pc := IO_Count\<rparr>)
      | IO_Count \<Rightarrow> Inr (io_layers_head (s\<lparr>io_addr_o := 1\<rparr>))
      | IO_Layers \<Rightarrow> Inr (io_layers_head s)
      | IO_Picture \<Rightarrow> Inr (io_picture_head s)
      | IO_Weights \<Rightarrow> Inr (io_weights_head s)
      | IO_Go \<Rightarrow> Inr (s\<lparr>io_wr_write := Some False, io_transmit := False, io_pc := IO_Done\<rparr>)
      | IO_Done \<Rightarrow> Inr s)"

text \<open>One clock edge; the bus writes of the last evaluation are forgotten first.\<close>

definition io_posedge :: "io_ports \<Rightarrow> io_module \<Rightarrow> io_module res" where
  "io_posedge p s =
     rbind (run_methods (rev (io_methods p)) (s\<lparr>io_data_write := None, io_wr_write := None\<rparr>))
       io_write_data_to_system"

section \<open>The schedule of the bus\<close>

text \<open>What the thread sends, in order: pairs of an address and a value.\<close>

definition io_go :: "int \<times> float32" where
  "io_go = (0, float_neg float_INFINITY)"

definition io_schedule :: "load_result \<Rightarrow> (int \<times> float32) list" where
  "io_schedule d =
     (0, float_INFINITY) # (0, float_of_int (ld_layersCount d)) #
     map (\<lambda>l. (1, float_of_int l)) (ld_layers d) @ map (Pair 2) (ld_picture d) @ map (Pair 3) (ld_weights d) @ [io_go]"

text \<open>What a suspended thread has still to send.\<close>

definition io_rest :: "io_module \<Rightarrow> (int \<times> float32) list" where
  "io_rest s =
     (let ws = map (Pair 3) (io_weights s) @ [io_go];
          xs = map (Pair 2) (io_picture s) @ ws;
          ls = map (\<lambda>l. (1, float_of_int l)) (io_layers s) @ xs
      in case io_pc s of
           IO_Command \<Rightarrow> (0, float_of_int (io_layersCount s)) # ls
         | IO_Count \<Rightarrow> ls | IO_Layers \<Rightarrow> ls | IO_Picture \<Rightarrow> xs | IO_Weights \<Rightarrow> ws | _ \<Rightarrow> [])"

text \<open>A thread that is sending has the address of its loop on the bus.\<close>

definition io_sending :: "io_module \<Rightarrow> bool" where
  "io_sending s \<longleftrightarrow> io_transmit s \<and>
     (case io_pc s of
        IO_Command \<Rightarrow> io_addr_o s = 0 | IO_Count \<Rightarrow> True | IO_Layers \<Rightarrow> io_addr_o s = 1
      | IO_Picture \<Rightarrow> io_addr_o s = 2 | IO_Weights \<Rightarrow> io_addr_o s = 3 | IO_Go \<Rightarrow> io_addr_o s = 0
      | _ \<Rightarrow> False)"

lemma io_rest_Go: "io_sending s \<Longrightarrow> io_rest s = [] \<longleftrightarrow> io_pc s = IO_Go"
  by (auto simp: io_sending_def io_rest_def Let_def split: io_pc.splits)

text \<open>The edge that puts the next item on the bus.\<close>

definition io_sent :: "io_module \<Rightarrow> int \<Rightarrow> float32 \<Rightarrow> (int \<times> float32) list \<Rightarrow> bool" where
  "io_sent s a x r \<longleftrightarrow> io_sending s \<and> io_rest s = r \<and> io_addr_o s = a \<and> io_data_write s = Some x \<and>
     io_wr_write s \<in> {None, Some True}"

lemma io_weights_head_sent:
  assumes "io_addr_o s = 3" and "io_transmit s" and "io_wr_write s = None"
    and "map (Pair 3) (io_weights s) @ [io_go] = (a, x) # r"
  shows "io_sent (io_weights_head s) a x r"
  using assms by (cases "io_weights s")
    (auto simp: io_weights_head_def io_send_go_def io_go_def io_sent_def io_sending_def io_rest_def)

lemma io_picture_head_sent:
  assumes "io_addr_o s = 2" and "io_transmit s" and "io_wr_write s = None"
    and "map (Pair 2) (io_picture s) @ map (Pair 3) (io_weights s) @ [io_go] = (a, x) # r"
  shows "io_sent (io_picture_head s) a x r"
proof (cases "io_picture s")
  case Nil
  then show ?thesis using assms by (simp add: io_picture_head_def io_weights_head_sent)
qed (use assms in \<open>auto simp: io_picture_head_def io_sent_def io_sending_def io_rest_def\<close>)

lemma io_layers_head_sent:
  assumes "io_addr_o s = 1" and "io_transmit s" and "io_wr_write s = None"
    and "map (\<lambda>l. (1, float_of_int l)) (io_layers s) @ map (Pair 2) (io_picture s) @ map (Pair 3) (io_weights s) @ [io_go] = (a, x) # r"
  shows "io_sent (io_layers_head s) a x r"
proof (cases "io_layers s")
  case Nil
  then show ?thesis using assms by (simp add: io_layers_head_def io_picture_head_sent)
qed (use assms in \<open>auto simp: io_layers_head_def io_sent_def io_sending_def io_rest_def\<close>)

lemmas io_head_unchanged = io_layers_head_def io_picture_head_def io_weights_head_def io_send_go_def

lemma io_heads_keep:
  "io_counter (io_weights_head s) = io_counter s" "io_report (io_weights_head s) = io_report s"
  "io_counter (io_picture_head s) = io_counter s" "io_report (io_picture_head s) = io_report s"
  "io_counter (io_layers_head s) = io_counter s" "io_report (io_layers_head s) = io_report s"
  by (simp_all add: io_head_unchanged split: list.splits)

lemma io_posedge_send:
  assumes "io_sending s" and "io_rest s = (a, x) # r"
  shows "\<exists>s'. io_posedge p s = Inr s' \<and> io_sent s' a x r \<and> io_counter s' = io_counter s \<and> io_report s' = io_report s"
proof -
  let ?t = "s\<lparr>io_data_write := None, io_wr_write := None\<rparr>"
  have tr: "io_transmit s" using assms(1) by (simp add: io_sending_def)
  then have m: "io_posedge p s = io_write_data_to_system ?t"
    by (simp add: io_posedge_def io_methods_def io_read_data_from_system_def)
  show ?thesis
  proof (cases "io_pc s")
    case IO_Command
    then show ?thesis using assms tr unfolding m
      by (auto simp: io_write_data_to_system_def io_sent_def io_sending_def io_rest_def Let_def)
  next
    case IO_Count
    then show ?thesis using assms tr unfolding m
      by (auto simp: io_write_data_to_system_def io_rest_def Let_def io_heads_keep intro!: io_layers_head_sent)
  next
    case IO_Layers
    then show ?thesis using assms tr unfolding m
      by (auto simp: io_write_data_to_system_def io_rest_def io_sending_def Let_def io_heads_keep intro!: io_layers_head_sent)
  next
    case IO_Picture
    then show ?thesis using assms tr unfolding m
      by (auto simp: io_write_data_to_system_def io_rest_def io_sending_def Let_def io_heads_keep intro!: io_picture_head_sent)
  next
    case IO_Weights
    then show ?thesis using assms tr unfolding m
      by (auto simp: io_write_data_to_system_def io_rest_def io_sending_def Let_def io_heads_keep intro!: io_weights_head_sent)
  qed (use assms in \<open>auto simp: io_sending_def io_rest_def\<close>)
qed

text \<open>The first edge loads the files and sends the command, the last one releases the bus.\<close>

lemma io_posedge_start:
  assumes "io_pc s = IO_Start" and "\<not> io_wr_io p" and "\<not> io_transmit s"
    and "loadData (io_cfg s) (io_pic s) = Inr (Some d)"
  shows "\<exists>s'. io_posedge p s = Inr s' \<and> io_sent s' 0 float_INFINITY (tl (io_schedule d)) \<and>
    io_counter s' = io_counter s \<and> io_report s' = io_report s \<and> io_wr_write s' = Some True"
  using assms
  by (auto simp: io_posedge_def io_methods_def io_read_data_from_system_def io_write_data_to_system_def
      io_sent_def io_sending_def io_rest_def io_schedule_def Let_def)

lemma io_posedge_end:
  assumes "io_pc s = IO_Go" and "io_transmit s"
  shows "io_posedge p s = Inr (s\<lparr>io_data_write := None, io_wr_write := Some False, io_transmit := False, io_pc := IO_Done\<rparr>)"
  using assms by (simp add: io_posedge_def io_methods_def io_read_data_from_system_def io_write_data_to_system_def)

text \<open>Afterwards every edge at which the bus is written reports one value.\<close>

lemma io_posedge_quiet:
  assumes "io_pc s = IO_Done" and "\<not> io_wr_io p"
  shows "io_posedge p s = Inr (s\<lparr>io_data_write := None, io_wr_write := None\<rparr>)"
  using assms by (simp add: io_posedge_def io_methods_def io_read_data_from_system_def io_write_data_to_system_def)

lemma io_posedge_report:
  assumes "io_pc s = IO_Done" and "\<not> io_transmit s" and "io_wr_io p" and "is_cint (io_counter s + 1)"
  shows "io_posedge p s = Inr (s\<lparr>io_data_write := None, io_wr_write := None,
    io_report := io_report s @ [(io_now p, io_counter s, io_data_io p)], io_counter := io_counter s + 1\<rparr>)"
  using assms by (simp add: io_posedge_def io_methods_def io_read_data_from_system_def io_write_data_to_system_def)

section \<open>Command line\<close>

text \<open>The globals with the file names, and the loop over the arguments of \<open>sc_main\<close>: an
  option that is the last argument has no value and is skipped, as is anything else.\<close>

record options =
  g_configFile :: string
  g_pictureFile :: string
  g_outputFile :: string

definition default_options :: options where
  "default_options = \<lparr>g_configFile = ''input/nn_config.txt'', g_pictureFile = ''input/picture.txt'', g_outputFile = []\<rparr>"

fun parse_args :: "options \<Rightarrow> string list \<Rightarrow> options" where
  "parse_args g (a # v # as) =
     (if a = ''-c'' then parse_args (g\<lparr>g_configFile := v\<rparr>) as
      else if a = ''-i'' then parse_args (g\<lparr>g_pictureFile := v\<rparr>) as
      else if a = ''-o'' then parse_args (g\<lparr>g_outputFile := v\<rparr>) as
      else parse_args g (v # as))"
| "parse_args g [a] = g"
| "parse_args g [] = g"

section \<open>Loading a printed configuration\<close>

text \<open>The text of a configuration: the number of layers and the sizes, each followed by a
  separator, then the weights as they are.\<close>

fun print_sizes :: "int list \<Rightarrow> string \<Rightarrow> string" where
  "print_sizes [] rest = rest"
| "print_sizes (z # zs) rest = show_int z @ CHR '' '' # print_sizes zs rest"

definition print_config :: "int list \<Rightarrow> string \<Rightarrow> string" where
  "print_config ls ws = show_int (int (length ls)) @ CHR 0x0A # print_sizes ls ws"

lemma get_int_show_sep:
  assumes "is_cint z" and "is_space c" and "list_all is_space ws"
  shows "get_int old (open_stream (ws @ show_int z @ c # rest)) = (z, open_stream (c # rest))"
  using get_int_show [OF assms(3,1), of "c # rest"] assms(2)
  by (simp add: open_stream_def is_space_not_digit)

lemma is_space_sep: "is_space (CHR '' '')" "is_space (CHR 0x0A)"
  by (simp_all add: is_space_def)

lemma read_layers_print:
  assumes "list_all is_cint zs" and "is_space c"
  shows "\<exists>c'. is_space c' \<and>
    read_layers (length zs) (open_stream (c # print_sizes zs rest)) = (zs, open_stream (c' # rest))"
  using assms
proof (induction zs arbitrary: c)
  case (Cons z zs)
  obtain c' where c': "is_space c'"
    "read_layers (length zs) (open_stream (CHR '' '' # print_sizes zs rest)) = (zs, open_stream (c' # rest))"
    using Cons.IH [of "CHR '' ''"] Cons.prems is_space_sep by auto
  moreover have "get_int 0 (open_stream (c # print_sizes (z # zs) rest)) = (z, open_stream (CHR '' '' # print_sizes zs rest))"
    using get_int_show_sep [of z "CHR '' ''" "[c]" 0 "print_sizes zs rest"] Cons.prems is_space_sep by simp
  ultimately show ?case by (intro exI [of _ c']) simp
qed auto

lemma sentry_skip_space:
  assumes "is_space c"
  shows "sentry (open_stream (c # rest)) = sentry (open_stream rest)"
  using assms by (cases "dropWhile is_space rest") (simp_all add: sentry_def open_stream_def del: dropWhile_eq_Nil_conv)

lemma read_floats_skip_space:
  assumes "is_space c"
  shows "read_floats (open_stream (c # rest)) = read_floats (open_stream rest)"
proof -
  have "get_float float_zero (open_stream (c # rest)) = get_float float_zero (open_stream rest)"
    unfolding get_float_def sentry_skip_space [OF assms] ..
  then show ?thesis by (simp add: read_floats.simps [of "open_stream (c # rest)"] read_floats.simps [of "open_stream rest"])
qed

lemma loadData_print:
  assumes "list_all is_cint zs" and "int (length zs) \<le> INT_MAX"
  shows "loadData (Some (print_config zs ws)) (Some pic) = Inr (Some \<lparr>ld_layersCount = int (length zs), ld_layers = zs,
    ld_weights = read_floats (open_stream ws), ld_picture = read_floats (open_stream pic)\<rparr>)"
proof -
  obtain c where c: "is_space c"
    "read_layers (length zs) (open_stream (CHR 0x0A # print_sizes zs ws)) = (zs, open_stream (c # ws))"
    using read_layers_print [OF assms(1), of "CHR 0x0A" ws] is_space_sep by blast
  have "is_cint (int (length zs))" using assms(2) by (simp add: is_cint_def INT_MIN_def)
  then have "get_int 0 (open_stream (print_config zs ws)) = (int (length zs), open_stream (CHR 0x0A # print_sizes zs ws))"
    using get_int_show_sep [of "int (length zs)" "CHR 0x0A" "[]" 0 "print_sizes zs ws"] is_space_sep
    by (simp add: print_config_def)
  with c show ?thesis by (simp add: loadData_def read_floats_skip_space)
qed

text \<open>Reading the numeral 1, for concrete inputs.\<close>

lemma float_of_decimal_1: "float_of_decimal False (Suc 0) 0 = float_one"
  using float_of_int_exact [of 1] by (simp add: float_of_decimal_def float_one_def float_of_int_def)

lemmas text_defs = get_float_def sentry_def open_stream_def is_space_def is_digit_def is_sign_def take_fraction_def
  take_exponent_def dec_value_def digit_val_def Let_def

lemma read_floats_1: "read_floats (open_stream ''1'') = [float_one]"
proof -
  have "get_float float_zero (open_stream ''1'') = (float_one, \<lparr>is_rest = [], is_eof = True, is_fail = False\<rparr>)"
    by (simp add: text_defs float_of_decimal_1 float_one_def)
  moreover have "read_floats \<lparr>is_rest = [], is_eof = True, is_fail = False\<rparr> = []"
    by (simp add: read_floats.simps get_float_def sentry_def)
  ultimately show ?thesis by (simp add: read_floats.simps [of "open_stream ''1''"])
qed

section \<open>The bus over a run\<close>

definition io_item :: "io_module \<Rightarrow> (int \<times> float32) option" where
  "io_item s = (case io_data_write s of None \<Rightarrow> None | Some x \<Rightarrow> Some (io_addr_o s, x))"

lemma io_sent_item: "io_sent s a x r \<Longrightarrow> io_item s = Some (a, x) \<and> io_sending s \<and> io_rest s = r \<and> io_wr_write s \<noteq> Some False"
  by (auto simp: io_sent_def io_item_def)

lemma io_run_rest:
  assumes "io_sending s" and "io_rest s = its" and "length ps = length its"
  shows "\<exists>t. clock_run io_posedge ps s = Inr t \<and> map io_item t = map Some its \<and> io_sending (last (s # t)) \<and>
    io_rest (last (s # t)) = [] \<and> (\<forall>u \<in> set t. io_wr_write u \<noteq> Some False \<and> io_report u = io_report s)"
  using assms
proof (induction ps arbitrary: s its)
  case (Cons p ps)
  then obtain a x r where its: "its = (a, x) # r" by (cases its) auto
  obtain s1 where s1: "io_posedge p s = Inr s1" "io_sent s1 a x r" "io_report s1 = io_report s"
    using io_posedge_send [OF Cons.prems(1)] Cons.prems(2) its by blast
  note it = io_sent_item [OF s1(2)]
  obtain t where t: "clock_run io_posedge ps s1 = Inr t" "map io_item t = map Some r" "io_sending (last (s1 # t))"
    "io_rest (last (s1 # t)) = []" "\<forall>u \<in> set t. io_wr_write u \<noteq> Some False \<and> io_report u = io_report s1"
    using Cons.IH [of s1 r] it Cons.prems(3) its by auto
  show ?case
    using clock_run_Cons [OF s1(1) t(1)] t(2-5) it its s1(3) by (intro exI [of _ "s1 # t"]) auto
qed simp

text \<open>C11: if both files load, the thread puts the schedule of the configuration on the bus, one item
  per edge from the first edge on: the read command and the number of layers at address 0, the
  sizes at 1, the picture at 2, the weights at 3 and the start command at 0.  The write strobe
  is raised with the first item, never lowered in between, and lowered at the edge after the
  last item; nothing the thread sends is reported as a result.\<close>

theorem io_sends_schedule:
  assumes "loadData cfg pic = Inr (Some d)" and "\<not> io_wr_io p" and "length ps = Suc (length (ld_layers d) + length (ld_picture d) + length (ld_weights d) + 1)"
  shows "\<exists>t u. clock_run io_posedge (p # ps @ [q]) (io_module_new cfg pic) = Inr (t @ [u]) \<and> map io_item t = map Some (io_schedule d) \<and>
    io_wr_write (hd t) = Some True \<and> (\<forall>s \<in> set t. io_wr_write s \<noteq> Some False \<and> io_report s = []) \<and>
    io_wr_write u = Some False \<and> io_data_write u = None \<and> \<not> io_transmit u"
proof -
  let ?s = "io_module_new cfg pic"
  have new: "io_pc ?s = IO_Start" "\<not> io_transmit ?s" "io_cfg ?s = cfg" "io_pic ?s = pic" "io_report ?s = []"
    by (simp_all add: io_module_new_def)
  obtain s1 where s1: "io_posedge p ?s = Inr s1" "io_sent s1 0 float_INFINITY (tl (io_schedule d))" "io_report s1 = []"
    "io_wr_write s1 = Some True"
    using io_posedge_start [OF new(1) assms(2) new(2), of d] assms(1) new(3-5) by auto
  note it = io_sent_item [OF s1(2)]
  have sch: "io_schedule d = (0, float_INFINITY) # tl (io_schedule d)" by (simp add: io_schedule_def)
  have len: "length ps = length (tl (io_schedule d))" using assms(3) by (simp add: io_schedule_def)
  obtain t where t: "clock_run io_posedge ps s1 = Inr t" "map io_item t = map Some (tl (io_schedule d))" "io_sending (last (s1 # t))"
    "io_rest (last (s1 # t)) = []" "\<forall>u \<in> set t. io_wr_write u \<noteq> Some False \<and> io_report u = io_report s1"
    using io_run_rest [OF _ _ len] it by blast
  let ?l = "last (s1 # t)"
  let ?u = "?l\<lparr>io_data_write := None, io_wr_write := Some False, io_transmit := False, io_pc := IO_Done\<rparr>"
  have "io_pc ?l = IO_Go" using io_rest_Go [OF t(3)] t(4) by simp
  moreover have "io_transmit ?l" using t(3) by (simp add: io_sending_def)
  ultimately have "io_posedge q ?l = Inr ?u" by (rule io_posedge_end)
  then have "clock_run io_posedge [q] ?l = Inr [?u]" by (simp del: last.simps)
  then have "clock_run io_posedge (ps @ [q]) s1 = Inr (t @ [?u])" by (rule clock_run_seq [OF t(1) refl])
  then have run: "clock_run io_posedge (p # ps @ [q]) ?s = Inr ((s1 # t) @ [?u])"
    using s1(1) by simp
  have "map io_item (s1 # t) = map Some (io_schedule d)" using t(2) it sch by (metis list.simps(9))
  then show ?thesis using run s1(3,4) t(5) it by (intro exI [of _ "s1 # t"] exI [of _ ?u]) simp
qed

definition io_quiet_port :: io_ports where
  "io_quiet_port = \<lparr>io_now = 0, io_data_io = float_zero, io_wr_io = False\<rparr>"

theorem io_sends_schedule_witness:
  "\<exists>t u. clock_run io_posedge (io_quiet_port # replicate 6 io_quiet_port @ [io_quiet_port])
      (io_module_new (Some (print_config [1, 1] ''1'')) (Some ''1'')) = Inr (t @ [u]) \<and>
    map io_item t = map Some [(0, float_INFINITY), (0, float_of_int 2), (1, float_of_int 1), (1, float_of_int 1),
      (2, float_one), (3, float_one), (0, float_neg float_INFINITY)] \<and> io_wr_write u = Some False"
proof -
  let ?d = "\<lparr>ld_layersCount = 2, ld_layers = [1, 1], ld_weights = [float_one], ld_picture = [float_one]\<rparr>"
  have "loadData (Some (print_config [1, 1] ''1'')) (Some ''1'') = Inr (Some ?d)"
    using loadData_print [of "[1, 1]" "''1''" "''1''"] by (simp add: is_cint_def INT_MIN_def INT_MAX_def read_floats_1)
  moreover have "\<not> io_wr_io io_quiet_port" by (simp add: io_quiet_port_def)
  moreover have "length (replicate 6 io_quiet_port) = Suc (length (ld_layers ?d) + length (ld_picture ?d) + length (ld_weights ?d) + 1)"
    by simp
  ultimately have "\<exists>t u. clock_run io_posedge (io_quiet_port # replicate 6 io_quiet_port @ [io_quiet_port])
      (io_module_new (Some (print_config [1, 1] ''1'')) (Some ''1'')) = Inr (t @ [u]) \<and> map io_item t = map Some (io_schedule ?d) \<and>
    io_wr_write (hd t) = Some True \<and> (\<forall>s \<in> set t. io_wr_write s \<noteq> Some False \<and> io_report s = []) \<and>
    io_wr_write u = Some False \<and> io_data_write u = None \<and> \<not> io_transmit u"
    by (rule io_sends_schedule)
  moreover have "io_schedule ?d = [(0, float_INFINITY), (0, float_of_int 2), (1, float_of_int 1), (1, float_of_int 1),
      (2, float_one), (3, float_one), (0, float_neg float_INFINITY)]"
    by (simp add: io_schedule_def io_go_def)
  ultimately show ?thesis by (elim exE conjE) (intro exI conjI, assumption, simp, assumption)
qed

text \<open>C39: reading back a printed configuration.  A text that holds the number of layers and the
  sizes as decimal numerals loads as exactly those, for all sizes of the range of \<open>int\<close>, negative
  ones included, and what follows is read as the weights.\<close>

theorem load_printed_configuration:
  assumes "\<forall>z \<in> set zs. is_cint z" and "int (length zs) \<le> INT_MAX"
  shows "\<exists>d. loadData (Some (print_config zs ws)) (Some pic) = Inr (Some d) \<and> ld_layersCount d = int (length zs) \<and>
    ld_layers d = zs \<and> ld_weights d = read_floats (open_stream ws) \<and> ld_picture d = read_floats (open_stream pic)"
  using loadData_print [of zs ws pic] assms by (simp add: list_all_iff)

theorem load_printed_configuration_witness:
  "\<exists>d. loadData (Some (print_config [784, -3] ''1'')) (Some ''1'') = Inr (Some d) \<and> ld_layers d = [784, -3] \<and>
    ld_weights d = [float_one]"
proof -
  have "\<forall>z \<in> set [784, -3]. is_cint z" "int (length [784, -3 :: int]) \<le> INT_MAX"
    by (simp_all add: is_cint_def INT_MIN_def INT_MAX_def)
  from load_printed_configuration [OF this, of "''1''" "''1''"] show ?thesis by (auto simp: read_floats_1)
qed

text \<open>What is loaded are numbers of the format: the loops stop at the first text that is not a
  float or is out of its range, so neither an infinity, which the bus would take for a command,
  nor a NaN can come from the files.\<close>

theorem loaded_floats_finite:
  assumes "loadData cfg pic = Inr (Some d)" and "x \<in> set (ld_weights d @ ld_picture d)"
  shows "(\<exists>s n. x = FNum s n \<and> representable n \<and> n < FLOAT_LIMIT) \<and> \<not> float_eq x float_INFINITY \<and> \<not> float_eq x (float_neg float_INFINITY)"
proof -
  have "finite_float x" using loadData_finite [OF assms(1)] assms(2) by auto
  then show ?thesis unfolding float_eq_INFINITY float_eq_neg_INFINITY by (auto simp: finite_float_def)
qed

theorem loaded_floats_finite_witness:
  "\<exists>d. loadData (Some (print_config [1] ''1'')) (Some ''1'') = Inr (Some d) \<and> \<not> float_eq (hd (ld_weights d)) float_INFINITY"
proof -
  let ?d = "\<lparr>ld_layersCount = 1, ld_layers = [1], ld_weights = [float_one], ld_picture = [float_one]\<rparr>"
  have l: "loadData (Some (print_config [1] ''1'')) (Some ''1'') = Inr (Some ?d)"
    using loadData_print [of "[1]" "''1''" "''1''"] by (simp add: is_cint_def INT_MIN_def INT_MAX_def read_floats_1)
  have "float_one \<in> set (ld_weights ?d @ ld_picture ?d)" by simp
  from loaded_floats_finite [OF l this] l show ?thesis by auto
qed

text \<open>A command line of options with their values sets each file name to the value of the last
  option of its kind, and leaves the names no option is given for; a last option without a value
  is skipped.\<close>

theorem last_option_wins:
  assumes "\<forall>(a, v) \<in> set avs. a \<in> {''-c'', ''-i'', ''-o''}" and "length rest \<le> 1"
  defines "pick \<equiv> \<lambda>a old. case map_of (rev avs) a of None \<Rightarrow> old | Some v \<Rightarrow> v"
  shows "parse_args g (concat (map (\<lambda>(a, v). [a, v]) avs) @ rest) =
    \<lparr>g_configFile = pick ''-c'' (g_configFile g), g_pictureFile = pick ''-i'' (g_pictureFile g),
     g_outputFile = pick ''-o'' (g_outputFile g)\<rparr>"
  using assms(1) unfolding pick_def
proof (induction avs arbitrary: g)
  case Nil
  show ?case using assms(2) by (cases g; cases rest) simp_all
next
  case (Cons av avs)
  obtain a v where av: "av = (a, v)" by fastforce
  have k: "\<forall>(a, v) \<in> set avs. a \<in> {''-c'', ''-i'', ''-o''}" using Cons.prems by simp
  consider "a = ''-c''" | "a = ''-i''" | "a = ''-o''" using Cons.prems av by auto
  then show ?case
    by cases (use Cons.IH [OF k] av in \<open>auto simp: map_add_def split: option.splits\<close>)
qed

theorem last_option_wins_witness:
  "parse_args default_options [''-c'', ''a'', ''-i'', ''p'', ''-c'', ''b'', ''-o''] =
     \<lparr>g_configFile = ''b'', g_pictureFile = ''p'', g_outputFile = []\<rparr>"
proof -
  let ?avs = "[(''-c'', ''a''), (''-i'', ''p''), (''-c'', ''b'')]"
  have "\<forall>(a, v) \<in> set ?avs. a \<in> {''-c'', ''-i'', ''-o''}" by simp
  from last_option_wins [OF this, of "[''-o'']" default_options] show ?thesis by (simp add: default_options_def)
qed

end
