(* ===== verification/Controller.thy ===== *)
theory Controller
  imports Float32
begin

text \<open>
  \<open>CONTROLLER\<close> (\<open>inc/controller.h\<close>, \<open>src/controller.cpp\<close>): the state machine that
  accepts the commands on the bus and sequences the layers.  Two methods watch the bus for
  the commands \<open>+INFINITY\<close> and \<open>-INFINITY\<close> at address 0; the clocked thread
  \<open>process\<close> does the rest.  A clocked thread is modelled by the program point of the
  \<open>wait()\<close> it is suspended in, its local variables, and a function that runs it from
  there to the next \<open>wait()\<close>.
\<close>

section \<open>Module\<close>

record ct_ports =
  ct_addr_i :: int
  ct_data_i :: float32
  ct_wr_i :: bool
  ct_size_of_layer_i :: int
  ct_end_clone_i :: bool
  ct_cycle_ended_i :: bool
  ct_start_weight_cur :: int

datatype ct_states = CT_IDLE | CT_READ_DATA | CT_START_CONV

text \<open>
  The waits of \<open>process\<close> in textual order: before the first activation, in the state
  \<open>IDLE\<close>, in the state \<open>READ_DATA\<close>, after raising \<open>save_prev_layer_size_o\<close>, after
  raising \<open>next_layer_o\<close>, after raising \<open>start_generator_o\<close>, the first of the two plain
  waits, the second one together with the loop on \<open>cycle_ended_i\<close>, after raising
  \<open>clr_controller_layer_o\<close>, after raising \<open>start_clone_controller_layer_o\<close>, and the loop
  on \<open>end_clone_controller_layer_i\<close>.
\<close>

datatype ct_pc = CT_Start | CT_Idle | CT_Read | CT_Save | CT_Next | CT_Gen | CT_Gap | CT_WaitCycle
  | CT_Clear | CT_Clone | CT_WaitClone

record controller =
  ct_state :: ct_states
  ct_layers :: int
  ct_pc :: ct_pc
  ct_prev_layer :: int
  ct_i :: int
  ct_next_layer_o :: bool
  ct_clr_o :: bool
  ct_write_out_o :: bool
  ct_start_clone_o :: bool
  ct_save_prev_o :: bool
  ct_start_generator_o :: bool
  ct_start_weight_o :: int

definition controller_new :: controller where
  "controller_new =
     \<lparr>ct_state = CT_IDLE, ct_layers = 0, ct_pc = CT_Start, ct_prev_layer = 0, ct_i = 0,
      ct_next_layer_o = False, ct_clr_o = False, ct_write_out_o = False, ct_start_clone_o = False,
      ct_save_prev_o = False, ct_start_generator_o = False, ct_start_weight_o = 0\<rparr>"

definition ct_state_read_data :: "ct_ports \<Rightarrow> controller \<Rightarrow> controller res" where
  "ct_state_read_data p s =
     (if ct_addr_i p = 0 \<and> float_eq (ct_data_i p) float_INFINITY \<and> ct_wr_i p \<and> ct_state s = CT_IDLE
      then Inr (s\<lparr>ct_state := CT_READ_DATA\<rparr>) else Inr s)"

definition ct_state_start_conv :: "ct_ports \<Rightarrow> controller \<Rightarrow> controller res" where
  "ct_state_start_conv p s =
     (if ct_addr_i p = 0 \<and> float_eq (ct_data_i p) (float_neg float_INFINITY) \<and> ct_wr_i p \<and> ct_state s = CT_IDLE
      then Inr (s\<lparr>ct_state := CT_START_CONV\<rparr>) else Inr s)"

definition ct_methods :: "ct_ports \<Rightarrow> (controller \<Rightarrow> controller res) list" where
  "ct_methods p = [ct_state_read_data p, ct_state_start_conv p]"

section \<open>The clocked thread\<close>

text \<open>The case \<open>IDLE\<close>: clear the weight address and wait.\<close>

definition ct_enter_idle :: "controller \<Rightarrow> controller" where
  "ct_enter_idle s = s\<lparr>ct_start_weight_o := 0, ct_pc := CT_Idle\<rparr>"

text \<open>
  The head of the loop over the layers: raise the strobe that saves the layer size, or leave
  the loop, raise \<open>write_out_controller_layer_o\<close>, and go through \<open>IDLE\<close> to its wait.
\<close>

definition ct_for_head :: "controller \<Rightarrow> controller res" where
  "ct_for_head s =
     rbind (check_int (ct_layers s - 1)) (\<lambda>n.
       if ct_i s < n then Inr (s\<lparr>ct_save_prev_o := True, ct_pc := CT_Save\<rparr>)
       else Inr (ct_enter_idle (s\<lparr>ct_write_out_o := True, ct_state := CT_IDLE\<rparr>)))"

text \<open>The switch at the head of the endless loop.\<close>

definition ct_switch :: "controller \<Rightarrow> controller res" where
  "ct_switch s =
     (case ct_state s of
        CT_IDLE \<Rightarrow> Inr (ct_enter_idle s)
      | CT_READ_DATA \<Rightarrow> Inr (s\<lparr>ct_pc := CT_Read\<rparr>)
      | CT_START_CONV \<Rightarrow> ct_for_head (s\<lparr>ct_i := 0\<rparr>))"

text \<open>The end of the loop body: advance the weight address past the layer.\<close>

definition ct_finish_layer :: "ct_ports \<Rightarrow> controller \<Rightarrow> controller res" where
  "ct_finish_layer p s =
     rbind (check_int (ct_prev_layer s + 1)) (\<lambda>a.
     rbind (check_int (a * ct_size_of_layer_i p)) (\<lambda>b.
     rbind (check_int (b + ct_start_weight_cur p)) (\<lambda>c.
     rbind (check_int (ct_i s + 1)) (\<lambda>i.
       ct_for_head (s\<lparr>ct_start_weight_o := c, ct_i := i\<rparr>)))))"

definition ct_process :: "ct_ports \<Rightarrow> controller \<Rightarrow> controller res" where
  "ct_process p s =
     (case ct_pc s of
        CT_Start \<Rightarrow> ct_switch (s\<lparr>ct_prev_layer := 0\<rparr>)
      | CT_Idle \<Rightarrow> ct_switch s
      | CT_Read \<Rightarrow>
          if ct_addr_i p = 0 \<and> ct_wr_i p
          then rbind (int_of_float (ct_data_i p)) (\<lambda>n. ct_switch (s\<lparr>ct_layers := n, ct_state := CT_IDLE\<rparr>))
          else ct_switch s
      | CT_Save \<Rightarrow>
          Inr (s\<lparr>ct_save_prev_o := False, ct_prev_layer := ct_size_of_layer_i p, ct_next_layer_o := True,
                 ct_pc := CT_Next\<rparr>)
      | CT_Next \<Rightarrow> Inr (s\<lparr>ct_next_layer_o := False, ct_start_generator_o := True, ct_pc := CT_Gen\<rparr>)
      | CT_Gen \<Rightarrow> Inr (s\<lparr>ct_start_generator_o := False, ct_pc := CT_Gap\<rparr>)
      | CT_Gap \<Rightarrow> Inr (s\<lparr>ct_pc := CT_WaitCycle\<rparr>)
      | CT_WaitCycle \<Rightarrow>
          if \<not> ct_cycle_ended_i p then Inr s else Inr (s\<lparr>ct_clr_o := True, ct_pc := CT_Clear\<rparr>)
      | CT_Clear \<Rightarrow> Inr (s\<lparr>ct_clr_o := False, ct_start_clone_o := True, ct_pc := CT_Clone\<rparr>)
      | CT_Clone \<Rightarrow>
          if \<not> ct_end_clone_i p then Inr (s\<lparr>ct_start_clone_o := False, ct_pc := CT_WaitClone\<rparr>)
          else ct_finish_layer p (s\<lparr>ct_start_clone_o := False\<rparr>)
      | CT_WaitClone \<Rightarrow>
          if \<not> ct_end_clone_i p then Inr s else ct_finish_layer p s)"

text \<open>One clock edge: the methods, then the thread.\<close>

definition ct_posedge :: "ct_ports \<Rightarrow> controller \<Rightarrow> controller res" where
  "ct_posedge p s = rbind (run_methods (rev (ct_methods p)) s) (ct_process p)"

section \<open>One clock edge\<close>

text \<open>The commands are only looked at in the state \<open>IDLE\<close>.\<close>

definition ct_command :: "ct_ports \<Rightarrow> float32 \<Rightarrow> bool" where
  "ct_command p x \<longleftrightarrow> ct_addr_i p = 0 \<and> ct_wr_i p \<and> ct_data_i p = x"

lemma ct_methods_busy:
  "ct_state s \<noteq> CT_IDLE \<Longrightarrow> run_methods (rev (ct_methods p)) s = Inr s"
  by (simp add: ct_methods_def ct_state_read_data_def ct_state_start_conv_def)

lemma ct_methods_idle:
  assumes "ct_state s = CT_IDLE"
  shows "run_methods (rev (ct_methods p)) s = Inr (s\<lparr>ct_state :=
    if ct_command p (FInf False) then CT_READ_DATA else if ct_command p (FInf True) then CT_START_CONV else CT_IDLE\<rparr>)"
  using assms
  by (cases s) (auto simp: ct_methods_def ct_state_read_data_def ct_state_start_conv_def ct_command_def
      float_eq_INFINITY float_eq_neg_INFINITY)

lemma ct_posedge_idle:
  assumes "ct_state s = CT_IDLE" and "ct_pc s \<in> {CT_Start, CT_Idle}" and "ct_prev_layer s = 0 \<or> ct_pc s = CT_Idle"
    and "\<not> ct_command p (FInf False)" and "\<not> ct_command p (FInf True)"
  shows "ct_posedge p s = Inr (s\<lparr>ct_start_weight_o := 0, ct_pc := CT_Idle\<rparr>)"
  using assms by (cases s) (auto simp: ct_posedge_def ct_methods_idle ct_process_def ct_switch_def ct_enter_idle_def)

lemma ct_posedge_read:
  assumes "ct_state s = CT_IDLE" and "ct_pc s = CT_Idle" and "ct_command p (FInf False)"
  shows "ct_posedge p s = Inr (s\<lparr>ct_state := CT_READ_DATA, ct_pc := CT_Read\<rparr>)"
  using assms by (simp add: ct_posedge_def ct_methods_idle ct_process_def ct_switch_def)

lemma ct_posedge_count:
  assumes "ct_state s = CT_READ_DATA" and "ct_pc s = CT_Read" and "ct_addr_i p = 0" and "ct_wr_i p"
    and "int_of_float (ct_data_i p) = Inr n"
  shows "ct_posedge p s = Inr (s\<lparr>ct_layers := n, ct_state := CT_IDLE, ct_start_weight_o := 0, ct_pc := CT_Idle\<rparr>)"
  using assms by (simp add: ct_posedge_def ct_methods_busy ct_process_def ct_switch_def ct_enter_idle_def)

text \<open>The head of the loop over the layers, reached from \<open>-INFINITY\<close> and from the end of
  every layer.\<close>

definition ct_at_head :: "controller \<Rightarrow> controller" where
  "ct_at_head s =
     (if ct_i s < ct_layers s - 1 then s\<lparr>ct_save_prev_o := True, ct_pc := CT_Save\<rparr>
      else s\<lparr>ct_write_out_o := True, ct_state := CT_IDLE, ct_start_weight_o := 0, ct_pc := CT_Idle\<rparr>)"

lemma ct_for_head_ok: "is_cint (ct_layers s - 1) \<Longrightarrow> ct_for_head s = Inr (ct_at_head s)"
  by (simp add: ct_for_head_def ct_at_head_def ct_enter_idle_def)

lemma ct_posedge_go:
  assumes "ct_state s = CT_IDLE" and "ct_pc s = CT_Idle" and "ct_command p (FInf True)" and "is_cint (ct_layers s - 1)"
  shows "ct_posedge p s = Inr (ct_at_head (s\<lparr>ct_state := CT_START_CONV, ct_i := 0\<rparr>))"
proof -
  have "\<not> ct_command p (FInf False)" using assms(3) by (auto simp: ct_command_def)
  then show ?thesis
    using assms by (simp add: ct_posedge_def ct_methods_idle ct_process_def ct_switch_def ct_for_head_ok)
qed

text \<open>The strobes of one layer, in the order in which they are raised.\<close>

lemma ct_posedge_layer:
  assumes "ct_state s = CT_START_CONV"
  shows "ct_pc s = CT_Save \<Longrightarrow> ct_posedge p s = Inr (s\<lparr>ct_save_prev_o := False, ct_prev_layer := ct_size_of_layer_i p,
      ct_next_layer_o := True, ct_pc := CT_Next\<rparr>)"
    and "ct_pc s = CT_Next \<Longrightarrow> ct_posedge p s = Inr (s\<lparr>ct_next_layer_o := False, ct_start_generator_o := True, ct_pc := CT_Gen\<rparr>)"
    and "ct_pc s = CT_Gen \<Longrightarrow> ct_posedge p s = Inr (s\<lparr>ct_start_generator_o := False, ct_pc := CT_Gap\<rparr>)"
    and "ct_pc s = CT_Gap \<Longrightarrow> ct_posedge p s = Inr (s\<lparr>ct_pc := CT_WaitCycle\<rparr>)"
    and "ct_pc s = CT_WaitCycle \<Longrightarrow> ct_posedge p s =
      Inr (if ct_cycle_ended_i p then s\<lparr>ct_clr_o := True, ct_pc := CT_Clear\<rparr> else s)"
    and "ct_pc s = CT_Clear \<Longrightarrow> ct_posedge p s = Inr (s\<lparr>ct_clr_o := False, ct_start_clone_o := True, ct_pc := CT_Clone\<rparr>)"
    and "ct_pc s = CT_Clone \<Longrightarrow> \<not> ct_end_clone_i p \<Longrightarrow>
      ct_posedge p s = Inr (s\<lparr>ct_start_clone_o := False, ct_pc := CT_WaitClone\<rparr>)"
    and "ct_pc s = CT_WaitClone \<Longrightarrow> \<not> ct_end_clone_i p \<Longrightarrow> ct_posedge p s = Inr s"
  using assms by (simp_all add: ct_posedge_def ct_methods_busy ct_process_def)

lemma ct_posedge_finish:
  assumes "ct_state s = CT_START_CONV" and "ct_pc s = CT_WaitClone" and "ct_end_clone_i p"
    and "ct_prev_layer s = int n" and "ct_size_of_layer_i p = int m" and "ct_start_weight_cur p = int off"
    and "ct_i s = int i" and "int i < ct_layers s" and "is_cint (ct_layers s)" and "0 < m"
    and "int (off + (n + 1) * m) \<le> INT_MAX"
  shows "ct_posedge p s = Inr (ct_at_head (s\<lparr>ct_start_weight_o := int (off + (n + 1) * m), ct_i := int (i + 1)\<rparr>))"
proof -
  have "n + 1 \<le> (n + 1) * m" using assms(10) by (cases m) simp_all
  then have "is_cint (int (n + 1))" by (intro is_cint_nat [OF _ assms(11)]) linarith
  moreover have "is_cint (int ((n + 1) * m))" "is_cint (int (off + (n + 1) * m))"
    by (rule_tac [!] is_cint_nat [OF _ assms(11)]) linarith+
  moreover have "is_cint (int (i + 1))" "is_cint (ct_layers s - 1)"
    using assms(8,9) by (auto simp: is_cint_def INT_MIN_def)
  ultimately show ?thesis
    using assms(1-7)
    by (simp add: ct_posedge_def ct_methods_busy ct_process_def ct_finish_layer_def ct_for_head_ok algebra_simps)
qed

section \<open>The protocol\<close>

text \<open>The states the controller can reach, whatever its ports show.\<close>

inductive ct_reach :: "controller \<Rightarrow> bool" where
  ct_reach_new: "ct_reach controller_new"
| ct_reach_step: "ct_reach s \<Longrightarrow> ct_posedge p s = Inr s' \<Longrightarrow> ct_reach s'"

text \<open>The state variable that belongs to a wait, and the strobes.\<close>

fun ct_state_at :: "ct_pc \<Rightarrow> ct_states" where
  "ct_state_at CT_Start = CT_IDLE"
| "ct_state_at CT_Idle = CT_IDLE"
| "ct_state_at CT_Read = CT_READ_DATA"
| "ct_state_at _ = CT_START_CONV"

definition ct_no_strobe :: "controller \<Rightarrow> bool" where
  "ct_no_strobe s \<longleftrightarrow> \<not> ct_save_prev_o s \<and> \<not> ct_next_layer_o s \<and> \<not> ct_start_generator_o s \<and> \<not> ct_clr_o s \<and> \<not> ct_start_clone_o s"

definition ct_protocol :: "controller \<Rightarrow> bool" where
  "ct_protocol s \<longleftrightarrow> ct_state s = ct_state_at (ct_pc s) \<and> ct_save_prev_o s = (ct_pc s = CT_Save) \<and>
     ct_next_layer_o s = (ct_pc s = CT_Next) \<and> ct_start_generator_o s = (ct_pc s = CT_Gen) \<and>
     ct_clr_o s = (ct_pc s = CT_Clear) \<and> ct_start_clone_o s = (ct_pc s = CT_Clone)"

lemma ct_for_head_protocol:
  assumes "ct_for_head s = Inr s'" and "ct_no_strobe s" and "ct_state s = CT_START_CONV"
  shows "ct_protocol s'"
  using assms
  by (auto simp: ct_for_head_def ct_enter_idle_def ct_protocol_def ct_no_strobe_def rbind_eq_Inr split: if_splits)

lemma ct_switch_protocol:
  assumes "ct_switch s = Inr s'" and "ct_no_strobe s"
  shows "ct_protocol s'"
proof (cases "ct_state s")
  case CT_START_CONV
  with assms(1) have "ct_for_head (s\<lparr>ct_i := 0\<rparr>) = Inr s'" by (simp add: ct_switch_def)
  then show ?thesis by (rule ct_for_head_protocol) (use assms(2) CT_START_CONV in \<open>simp_all add: ct_no_strobe_def\<close>)
qed (use assms in \<open>auto simp: ct_switch_def ct_enter_idle_def ct_protocol_def ct_no_strobe_def\<close>)

lemma ct_finish_protocol:
  assumes "ct_finish_layer p s = Inr s'" and "ct_no_strobe s" and "ct_state s = CT_START_CONV"
  shows "ct_protocol s'"
proof -
  obtain c i where "ct_for_head (s\<lparr>ct_start_weight_o := c, ct_i := i\<rparr>) = Inr s'"
    using assms(1) by (auto simp: ct_finish_layer_def rbind_eq_Inr)
  then show ?thesis by (rule ct_for_head_protocol) (use assms(2,3) in \<open>simp_all add: ct_no_strobe_def\<close>)
qed

text \<open>The methods move the state only between waits of the idle loop.\<close>

lemma ct_methods_protocol:
  assumes "ct_protocol s"
  obtains t where "run_methods (rev (ct_methods p)) s = Inr t" and "ct_pc t = ct_pc s"
    and "ct_save_prev_o t = ct_save_prev_o s" and "ct_next_layer_o t = ct_next_layer_o s"
    and "ct_start_generator_o t = ct_start_generator_o s" and "ct_clr_o t = ct_clr_o s"
    and "ct_start_clone_o t = ct_start_clone_o s" and "ct_write_out_o t = ct_write_out_o s"
    and "ct_state s \<noteq> CT_IDLE \<longrightarrow> t = s"
proof (cases "ct_state s = CT_IDLE")
  case True
  show thesis by (rule that [OF ct_methods_idle [OF True]]) (simp_all add: True)
next
  case False
  show thesis by (rule that [OF ct_methods_busy [OF False]]) simp_all
qed

lemma ct_posedge_protocol:
  assumes "ct_protocol s" and "ct_posedge p s = Inr s'"
  shows "ct_protocol s'"
proof -
  obtain t where t: "run_methods (rev (ct_methods p)) s = Inr t" "ct_pc t = ct_pc s"
    "ct_save_prev_o t = ct_save_prev_o s" "ct_next_layer_o t = ct_next_layer_o s"
    "ct_start_generator_o t = ct_start_generator_o s" "ct_clr_o t = ct_clr_o s"
    "ct_start_clone_o t = ct_start_clone_o s" "ct_state s \<noteq> CT_IDLE \<longrightarrow> t = s"
    by (rule ct_methods_protocol [OF assms(1), of p]) blast
  have s': "ct_process p t = Inr s'" using assms(2) t(1) by (simp add: ct_posedge_def)
  show ?thesis
  proof (cases "ct_pc s")
    case CT_Start
    then have "ct_switch (t\<lparr>ct_prev_layer := 0\<rparr>) = Inr s'" using s' t(2) by (simp add: ct_process_def)
    then show ?thesis
      by (rule ct_switch_protocol) (use assms(1) t CT_Start in \<open>simp add: ct_no_strobe_def ct_protocol_def\<close>)
  next
    case CT_Idle
    then have "ct_switch t = Inr s'" using s' t(2) by (simp add: ct_process_def)
    then show ?thesis
      by (rule ct_switch_protocol) (use assms(1) t CT_Idle in \<open>simp add: ct_no_strobe_def ct_protocol_def\<close>)
  next
    case CT_Read
    have ns: "ct_no_strobe t" using assms(1) t CT_Read by (simp add: ct_no_strobe_def ct_protocol_def)
    then have ns': "ct_no_strobe (t\<lparr>ct_layers := n, ct_state := CT_IDLE\<rparr>)" for n by (simp add: ct_no_strobe_def)
    from s' t(2) CT_Read show ?thesis
      by (auto simp: ct_process_def rbind_eq_Inr split: if_splits
          intro: ct_switch_protocol [OF _ ns] ct_switch_protocol [OF _ ns'])
  next
    case CT_Clone
    then have st: "ct_state s = CT_START_CONV" "t = s" using assms(1) t by (auto simp: ct_protocol_def)
    have ns: "ct_no_strobe (s\<lparr>ct_start_clone_o := False\<rparr>)" using assms(1) CT_Clone by (simp add: ct_no_strobe_def ct_protocol_def)
    show ?thesis
    proof (cases "ct_end_clone_i p")
      case True
      then have "ct_finish_layer p (s\<lparr>ct_start_clone_o := False\<rparr>) = Inr s'"
        using s' st CT_Clone by (simp add: ct_process_def)
      then show ?thesis by (rule ct_finish_protocol) (use ns st in simp_all)
    next
      case False
      then show ?thesis using s' st CT_Clone assms(1) by (auto simp: ct_process_def ct_protocol_def)
    qed
  next
    case CT_WaitClone
    then have st: "ct_state s = CT_START_CONV" "t = s" using assms(1) t by (auto simp: ct_protocol_def)
    have ns: "ct_no_strobe s" using assms(1) CT_WaitClone by (simp add: ct_no_strobe_def ct_protocol_def)
    from s' st CT_WaitClone assms(1) show ?thesis
      by (auto simp: ct_process_def split: if_splits intro!: ct_finish_protocol [OF _ ns])
  qed (use assms(1) s' t in \<open>auto simp: ct_protocol_def ct_process_def split: if_splits\<close>)
qed

lemma ct_reach_protocol: "ct_reach s \<Longrightarrow> ct_protocol s"
proof (induction rule: ct_reach.induct)
  case ct_reach_new
  then show ?case by (simp add: ct_protocol_def controller_new_def)
next
  case (ct_reach_step s p s')
  then show ?case by (blast intro: ct_posedge_protocol)
qed

text \<open>Whatever appears on its ports, the controller raises each of its five strobes
  exactly while it is suspended in the wait behind it, so two strobes are never up together and
  each is up for one clock period; and its state variable is determined by its wait.\<close>

theorem controller_strobes:
  assumes "ct_reach s"
  shows "ct_save_prev_o s = (ct_pc s = CT_Save) \<and> ct_next_layer_o s = (ct_pc s = CT_Next) \<and>
    ct_start_generator_o s = (ct_pc s = CT_Gen) \<and> ct_clr_o s = (ct_pc s = CT_Clear) \<and>
    ct_start_clone_o s = (ct_pc s = CT_Clone) \<and> ct_state s = ct_state_at (ct_pc s)"
  using ct_reach_protocol [OF assms] by (simp add: ct_protocol_def)

definition ct_go_ports :: ct_ports where
  "ct_go_ports = \<lparr>ct_addr_i = 0, ct_data_i = float_neg float_INFINITY, ct_wr_i = True, ct_size_of_layer_i = 3,
     ct_end_clone_i = False, ct_cycle_ended_i = False, ct_start_weight_cur = 0\<rparr>"

theorem controller_strobes_witness:
  "\<exists>s. ct_posedge ct_go_ports controller_new = Inr s \<and> ct_pc s = CT_Idle \<and> \<not> ct_next_layer_o s \<and> ct_write_out_o s"
proof -
  have "\<exists>s. ct_posedge ct_go_ports controller_new = Inr s \<and> ct_pc s = CT_Idle \<and> ct_write_out_o s"
    by (simp add: ct_posedge_def ct_methods_def ct_state_read_data_def ct_state_start_conv_def ct_go_ports_def controller_new_def
        float_INFINITY_def ct_process_def ct_switch_def ct_for_head_def ct_enter_idle_def is_cint_def INT_MIN_def INT_MAX_def)
  then obtain s where s: "ct_posedge ct_go_ports controller_new = Inr s" "ct_pc s = CT_Idle" "ct_write_out_o s" by blast
  then have "ct_reach s" by (blast intro: ct_reach.intros)
  from controller_strobes [OF this] s show ?thesis by auto
qed

text \<open>Once the result is requested, \<open>write_out_controller_layer_o\<close> stays up: no edge lowers
  it, whatever the inputs.  It is raised only by the edge that leaves the loop over the layers,
  with no layer left.\<close>

theorem controller_write_out_latched:
  assumes "ct_reach s" and "ct_posedge p s = Inr s'"
  shows "(ct_write_out_o s \<longrightarrow> ct_write_out_o s') \<and>
    (\<not> ct_write_out_o s \<longrightarrow> ct_write_out_o s' \<longrightarrow> ct_pc s' = CT_Idle \<and> ct_layers s' \<le> ct_i s' + 1)"
proof -
  obtain t where t: "run_methods (rev (ct_methods p)) s = Inr t" "ct_pc t = ct_pc s" "ct_write_out_o t = ct_write_out_o s"
    by (rule ct_methods_protocol [OF ct_reach_protocol [OF assms(1)], of p]) blast
  then have "ct_process p t = Inr s'" using assms(2) by (simp add: ct_posedge_def)
  then show ?thesis using t(3)
    by (auto simp: ct_process_def ct_switch_def ct_for_head_def ct_enter_idle_def ct_finish_layer_def rbind_eq_Inr check_int_Inr
        split: ct_pc.splits ct_states.splits if_splits)
qed

theorem controller_write_out_latched_witness:
  "\<exists>s. ct_posedge ct_go_ports controller_new = Inr s \<and> ct_write_out_o s \<and> ct_layers s \<le> ct_i s + 1"
proof -
  have "\<exists>s. ct_posedge ct_go_ports controller_new = Inr s \<and> ct_write_out_o s"
    by (simp add: ct_posedge_def ct_methods_def ct_state_read_data_def ct_state_start_conv_def ct_go_ports_def controller_new_def
        float_INFINITY_def ct_process_def ct_switch_def ct_for_head_def ct_enter_idle_def is_cint_def INT_MIN_def INT_MAX_def)
  then obtain s where s: "ct_posedge ct_go_ports controller_new = Inr s" "ct_write_out_o s" by blast
  moreover have "\<not> ct_write_out_o controller_new" by (simp add: controller_new_def)
  ultimately show ?thesis using controller_write_out_latched [OF ct_reach_new s(1)] by blast
qed

text \<open>The edges of one layer: four edges of strobes, any number of edges until the layer is
  calculated, three edges, any number until the result is copied.\<close>

lemma ct_layer_edges:
  fixes p0 p1 p2 p3 pe p4 p5 :: ct_ports and ws cs :: "ct_ports list" and s :: controller
  assumes "ct_state s = CT_START_CONV" and "ct_pc s = CT_Save"
    and "\<forall>p \<in> set ws. \<not> ct_cycle_ended_i p" and "ct_cycle_ended_i pe" and "\<not> ct_end_clone_i p5"
    and "\<forall>p \<in> set cs. \<not> ct_end_clone_i p"
  defines "a \<equiv> s\<lparr>ct_save_prev_o := False, ct_prev_layer := ct_size_of_layer_i p0, ct_next_layer_o := True, ct_pc := CT_Next\<rparr>"
  defines "b \<equiv> a\<lparr>ct_next_layer_o := False, ct_start_generator_o := True, ct_pc := CT_Gen\<rparr>"
  defines "c \<equiv> b\<lparr>ct_start_generator_o := False, ct_pc := CT_Gap\<rparr>"
  defines "d \<equiv> c\<lparr>ct_pc := CT_WaitCycle\<rparr>"
  defines "e \<equiv> d\<lparr>ct_clr_o := True, ct_pc := CT_Clear\<rparr>"
  defines "f \<equiv> e\<lparr>ct_clr_o := False, ct_start_clone_o := True, ct_pc := CT_Clone\<rparr>"
  defines "g \<equiv> f\<lparr>ct_start_clone_o := False, ct_pc := CT_WaitClone\<rparr>"
  shows "clock_run ct_posedge ([p0, p1, p2, p3] @ ws @ [pe, p4, p5] @ cs) s =
    Inr ([a, b, c, d] @ replicate (length ws) d @ [e, f, g] @ replicate (length cs) g)"
proof -
  have st: "ct_state a = CT_START_CONV" "ct_state b = CT_START_CONV" "ct_state c = CT_START_CONV" "ct_state d = CT_START_CONV"
    "ct_state e = CT_START_CONV" "ct_state f = CT_START_CONV" "ct_state g = CT_START_CONV"
    using assms(1) by (simp_all add: a_def b_def c_def d_def e_def f_def g_def)
  have "ct_posedge p0 s = Inr a" using ct_posedge_layer(1) [OF assms(1,2)] by (simp add: a_def)
  moreover have "ct_posedge p1 a = Inr b" using ct_posedge_layer(2) [OF st(1)] by (simp add: a_def b_def)
  moreover have "ct_posedge p2 b = Inr c" using ct_posedge_layer(3) [OF st(2)] by (simp add: b_def c_def)
  moreover have "ct_posedge p3 c = Inr d" using ct_posedge_layer(4) [OF st(3)] by (simp add: c_def d_def)
  ultimately have r1: "clock_run ct_posedge [p0, p1, p2, p3] s = Inr [a, b, c, d]" by simp
  have "ct_pc d = CT_WaitCycle" by (simp add: d_def)
  then have dd: "ct_posedge p d = Inr (if ct_cycle_ended_i p then d\<lparr>ct_clr_o := True, ct_pc := CT_Clear\<rparr> else d)" for p
    by (rule ct_posedge_layer(5) [OF st(4)])
  have r2: "clock_run ct_posedge ws d = Inr (replicate (length ws) d)"
    by (rule clock_run_still) (use dd assms(3) in auto)
  have "ct_posedge pe d = Inr e" using dd [of pe] assms(4) by (simp add: e_def)
  moreover have "ct_posedge p4 e = Inr f" using ct_posedge_layer(6) [OF st(5)] by (simp add: e_def f_def)
  moreover have "ct_posedge p5 f = Inr g" using ct_posedge_layer(7) [OF st(6) _ assms(5)] by (simp add: f_def g_def)
  ultimately have r3: "clock_run ct_posedge [pe, p4, p5] d = Inr [e, f, g]" by simp
  have "ct_pc g = CT_WaitClone" by (simp add: g_def)
  then have r4: "clock_run ct_posedge cs g = Inr (replicate (length cs) g)"
    by (intro clock_run_still) (use assms(6) ct_posedge_layer(8) [OF st(7)] in auto)
  have r34: "clock_run ct_posedge ([pe, p4, p5] @ cs) d = Inr ([e, f, g] @ replicate (length cs) g)"
    by (rule clock_run_seq [OF r3 _ r4]) simp
  have r234: "clock_run ct_posedge (ws @ [pe, p4, p5] @ cs) d = Inr (replicate (length ws) d @ [e, f, g] @ replicate (length cs) g)"
    by (rule clock_run_seq [OF r2 last_still r34])
  show ?thesis by (rule clock_run_seq [OF r1 _ r234]) simp
qed

text \<open>The five strobes of the controller, in the order in which a layer raises them.\<close>

definition ct_strobes :: "controller \<Rightarrow> bool list" where
  "ct_strobes s = [ct_save_prev_o s, ct_next_layer_o s, ct_start_generator_o s, ct_clr_o s, ct_start_clone_o s]"

abbreviation strobes_down :: "bool list" where
  "strobes_down \<equiv> [False, False, False, False, False]"

text \<open>C10: the handshake of one layer, with the values of all strobes at every edge.  From the wait at which only
  \<open>save_prev_layer_size_o\<close> is up, the controller shows \<open>next_layer_o\<close> alone for one edge, then \<open>start_generator_o\<close>
  alone, no strobe for two edges and for as many further ones as \<open>cycle_ended_i\<close> stays down,
  then the clear alone, then the copy request alone, then no strobe for one edge and for as many further ones as
  \<open>end_clone_controller_layer_i\<close> stays down; neither the weight address nor the request of the result changes
  meanwhile.  It then moves the weight address past the weights of the layer and shows \<open>save_prev_layer_size_o\<close>
  alone for the next layer, or, if no layer is left, no strobe, the request of the result and the address 0.\<close>

theorem controller_layer_handshake:
  assumes "ct_state s = CT_START_CONV" and "ct_pc s = CT_Save" and "ct_strobes s = [True, False, False, False, False]"
    and "\<forall>p \<in> set ws. \<not> ct_cycle_ended_i p" and "ct_cycle_ended_i pe" and "\<not> ct_end_clone_i p5"
    and "\<forall>p \<in> set cs. \<not> ct_end_clone_i p" and "ct_end_clone_i pd"
    and "ct_size_of_layer_i p0 = int n" and "ct_size_of_layer_i pd = int m" and "0 < m"
    and "ct_start_weight_cur pd = int off" and "int (off + (n + 1) * m) \<le> INT_MAX"
    and "ct_i s = int i" and "int i < ct_layers s" and "is_cint (ct_layers s)"
  shows "\<exists>t h. clock_run ct_posedge ([p0, p1, p2, p3] @ ws @ [pe, p4, p5] @ cs @ [pd]) s = Inr (t @ [h]) \<and>
    map ct_strobes t =
      [[False, True, False, False, False], [False, False, True, False, False], strobes_down, strobes_down] @
      replicate (length ws) strobes_down @
      [[False, False, False, True, False], [False, False, False, False, True], strobes_down] @
      replicate (length cs) strobes_down \<and>
    (\<forall>x \<in> set t. ct_write_out_o x = ct_write_out_o s \<and> ct_start_weight_o x = ct_start_weight_o s \<and> ct_state x = CT_START_CONV) \<and>
    ct_i h = int i + 1 \<and> ct_prev_layer h = int n \<and>
    (if int i + 1 < ct_layers s - 1
     then ct_strobes h = [True, False, False, False, False] \<and> ct_pc h = CT_Save \<and> ct_state h = CT_START_CONV \<and>
       ct_start_weight_o h = int (off + (n + 1) * m) \<and> ct_write_out_o h = ct_write_out_o s
     else ct_strobes h = strobes_down \<and> ct_pc h = CT_Idle \<and> ct_state h = CT_IDLE \<and> ct_start_weight_o h = 0 \<and> ct_write_out_o h)"
proof -
  let ?a = "s\<lparr>ct_save_prev_o := False, ct_prev_layer := ct_size_of_layer_i p0, ct_next_layer_o := True, ct_pc := CT_Next\<rparr>"
  let ?b = "?a\<lparr>ct_next_layer_o := False, ct_start_generator_o := True, ct_pc := CT_Gen\<rparr>"
  let ?c = "?b\<lparr>ct_start_generator_o := False, ct_pc := CT_Gap\<rparr>"
  let ?d = "?c\<lparr>ct_pc := CT_WaitCycle\<rparr>"
  let ?e = "?d\<lparr>ct_clr_o := True, ct_pc := CT_Clear\<rparr>"
  let ?f = "?e\<lparr>ct_clr_o := False, ct_start_clone_o := True, ct_pc := CT_Clone\<rparr>"
  let ?g = "?f\<lparr>ct_start_clone_o := False, ct_pc := CT_WaitClone\<rparr>"
  let ?h = "ct_at_head (?g\<lparr>ct_start_weight_o := int (off + (n + 1) * m), ct_i := int (i + 1)\<rparr>)"
  let ?t = "[?a, ?b, ?c, ?d] @ replicate (length ws) ?d @ [?e, ?f, ?g] @ replicate (length cs) ?g"
  have r: "clock_run ct_posedge ([p0, p1, p2, p3] @ ws @ [pe, p4, p5] @ cs) s = Inr ?t"
    by (rule ct_layer_edges [OF assms(1,2,4-7)])
  have "last ?t = ?g" by (cases cs) simp_all
  then have l: "last (s # ?t) = ?g" by (simp add: last_ConsR)
  have "ct_posedge pd ?g = Inr ?h"
    by (rule ct_posedge_finish) (use assms in simp_all)
  then have "clock_run ct_posedge [pd] ?g = Inr [?h]" by simp
  then have "clock_run ct_posedge (([p0, p1, p2, p3] @ ws @ [pe, p4, p5] @ cs) @ [pd]) s = Inr (?t @ [?h])"
    by (rule clock_run_seq [OF r l])
  then have run: "clock_run ct_posedge ([p0, p1, p2, p3] @ ws @ [pe, p4, p5] @ cs @ [pd]) s = Inr (?t @ [?h])" by simp
  have down: "\<not> ct_next_layer_o s" "\<not> ct_start_generator_o s" "\<not> ct_clr_o s" "\<not> ct_start_clone_o s"
    using assms(3) by (simp_all add: ct_strobes_def)
  show ?thesis
    by (rule exI [of _ ?t], rule exI [of _ ?h], intro conjI, rule run)
      (use down assms(1,9) in \<open>auto simp: ct_strobes_def ct_at_head_def\<close>)
qed

definition ct_layer_port :: "bool \<Rightarrow> bool \<Rightarrow> ct_ports" where
  "ct_layer_port cycle_ended end_clone = ct_go_ports\<lparr>ct_wr_i := False, ct_cycle_ended_i := cycle_ended, ct_end_clone_i := end_clone\<rparr>"

theorem controller_layer_handshake_witness:
  "\<exists>t. clock_run ct_posedge (replicate 4 (ct_layer_port False False) @ replicate 2 (ct_layer_port False False) @
      [ct_layer_port True False, ct_layer_port True False, ct_layer_port True False] @ [] @ [ct_layer_port True True])
      (controller_new\<lparr>ct_state := CT_START_CONV, ct_pc := CT_Save, ct_save_prev_o := True, ct_layers := 2\<rparr>) = Inr t \<and>
    map ct_strobes t = [[False, True, False, False, False], [False, False, True, False, False]] @ replicate 4 strobes_down @
      [[False, False, False, True, False], [False, False, False, False, True], strobes_down, strobes_down] \<and> ct_write_out_o (last t)"
proof -
  let ?s = "controller_new\<lparr>ct_state := CT_START_CONV, ct_pc := CT_Save, ct_save_prev_o := True, ct_layers := 2\<rparr>" and ?q = "ct_layer_port False False"
    and ?r = "ct_layer_port True False"
  have "ct_state ?s = CT_START_CONV" "ct_pc ?s = CT_Save" "ct_strobes ?s = [True, False, False, False, False]" "\<forall>p \<in> set [?q, ?q]. \<not> ct_cycle_ended_i p" "ct_cycle_ended_i ?r"
    "\<not> ct_end_clone_i ?r" "\<forall>p \<in> set ([] :: ct_ports list). \<not> ct_end_clone_i p" "ct_end_clone_i (ct_layer_port True True)"
    "ct_size_of_layer_i ?q = int 3" "ct_size_of_layer_i (ct_layer_port True True) = int 3" "(0::nat) < 3"
    "ct_start_weight_cur (ct_layer_port True True) = int 0" "int (0 + (3 + 1) * 3) \<le> INT_MAX"
    "ct_i ?s = int 0" "int 0 < ct_layers ?s" "is_cint (ct_layers ?s)"
    by (simp_all add: ct_strobes_def ct_layer_port_def ct_go_ports_def controller_new_def INT_MAX_def INT_MIN_def is_cint_def)
  note hs = controller_layer_handshake [OF this, of ?q ?q ?q ?r]
  have last: "\<not> int 0 + 1 < ct_layers ?s - 1" by simp
  from hs [unfolded if_not_P [OF last]] obtain t h where t: "clock_run ct_posedge ([?q, ?q, ?q, ?q] @ [?q, ?q] @ [?r, ?r, ?r] @ [] @ [ct_layer_port True True]) ?s = Inr (t @ [h])"
    "map ct_strobes t = [[False, True, False, False, False], [False, False, True, False, False], strobes_down, strobes_down] @
      replicate (length [?q, ?q]) strobes_down @ [[False, False, False, True, False], [False, False, False, False, True], strobes_down] @
      replicate (length ([] :: ct_ports list)) strobes_down"
    and h: "ct_strobes h = strobes_down" "ct_write_out_o h"
    by (elim exE conjE) (rule that)
  have "replicate 4 ?q = [?q, ?q, ?q, ?q]" "replicate 2 ?q = [?q, ?q]" by (simp_all add: numeral_eq_Suc)
  then show ?thesis using t h by (intro exI [of _ "t @ [h]"]) (simp add: numeral_eq_Suc)
qed

end
