(* ===== verification/Layers_Storage.thy ===== *)
theory Layers_Storage
  imports Float32
begin

text \<open>
  \<open>LAYERS_STORAGE\<close> (\<open>inc/layers_storage.h\<close>, \<open>src/layers_storage.cpp\<close>): the queue of
  layer sizes.  Sizes arrive as floats on the bus at address 1; \<open>next\<close> moves to the next
  size, and \<open>data_o\<close> shows the current one, or 0 behind the last.
\<close>

section \<open>Module\<close>

record ls_ports =
  ls_addr_i :: int
  ls_data_i :: float32
  ls_wr_i :: bool
  ls_next :: bool

text \<open>The members, and the value last written to the port \<open>data_o\<close>.\<close>

record layers_storage =
  ls_memory :: "int list"
  ls_index :: int
  ls_data_o :: int

definition layers_storage_new :: layers_storage where
  "layers_storage_new = \<lparr>ls_memory = [], ls_index = 0, ls_data_o = 0\<rparr>"

definition ls_next_element :: "ls_ports \<Rightarrow> layers_storage \<Rightarrow> layers_storage res" where
  "ls_next_element p s =
     (if ls_next p then rbind (check_int (ls_index s + 1)) (\<lambda>i. Inr (s\<lparr>ls_index := i\<rparr>))
      else Inr s)"

definition ls_add_to_queue :: "ls_ports \<Rightarrow> layers_storage \<Rightarrow> layers_storage res" where
  "ls_add_to_queue p s =
     (if ls_addr_i p = 1 \<and> ls_wr_i p
      then rbind (int_of_float (ls_data_i p)) (\<lambda>v. Inr (s\<lparr>ls_memory := ls_memory s @ [v]\<rparr>))
      else Inr s)"

definition ls_issue_element :: "ls_ports \<Rightarrow> layers_storage \<Rightarrow> layers_storage res" where
  "ls_issue_element p s =
     (if ls_index s < int (length (ls_memory s))
      then if ls_index s < 0 then Inl OutOfBounds
           else Inr (s\<lparr>ls_data_o := ls_memory s ! nat (ls_index s)\<rparr>)
      else Inr (s\<lparr>ls_data_o := 0\<rparr>))"

text \<open>The methods in the order of their registration in the constructor; a clock edge
  triggers them in the reverse order.\<close>

definition ls_methods :: "ls_ports \<Rightarrow> (layers_storage \<Rightarrow> layers_storage res) list" where
  "ls_methods p = [ls_next_element p, ls_add_to_queue p, ls_issue_element p]"

definition ls_posedge :: "ls_ports \<Rightarrow> layers_storage \<Rightarrow> layers_storage res" where
  "ls_posedge p s = run_methods (rev (ls_methods p)) s"

section \<open>Properties\<close>

definition ls_current :: "layers_storage \<Rightarrow> int" where
  "ls_current s = (if nat (ls_index s) < length (ls_memory s) then ls_memory s ! nat (ls_index s) else 0)"

definition ls_ok :: "layers_storage \<Rightarrow> bool" where
  "ls_ok s \<longleftrightarrow> 0 \<le> ls_index s \<and> ls_index s < INT_MAX"

lemmas ls_method_defs = ls_next_element_def ls_add_to_queue_def ls_issue_element_def

lemma ls_issue_ok: "0 \<le> ls_index s \<Longrightarrow> ls_issue_element p s = Inr (s\<lparr>ls_data_o := ls_current s\<rparr>)"
  by (auto simp: ls_issue_element_def ls_current_def)

text \<open>One clock edge, by the command on the bus and the \<open>next\<close> strobe.\<close>

lemma ls_posedge_idle:
  assumes "0 \<le> ls_index s" and "\<not> (ls_addr_i p = 1 \<and> ls_wr_i p)" and "\<not> ls_next p"
  shows "ls_posedge p s = Inr (s\<lparr>ls_data_o := ls_current s\<rparr>)"
  using assms by (auto simp: ls_posedge_def ls_methods_def ls_issue_ok ls_add_to_queue_def ls_next_element_def)

lemma ls_posedge_push:
  assumes "0 \<le> ls_index s" and "ls_addr_i p = 1" and "ls_wr_i p" and "\<not> ls_next p"
    and "int_of_float (ls_data_i p) = Inr v"
  shows "ls_posedge p s = Inr (s\<lparr>ls_memory := ls_memory s @ [v], ls_data_o := ls_current s\<rparr>)"
  using assms by (simp add: ls_posedge_def ls_methods_def ls_issue_ok ls_add_to_queue_def ls_next_element_def)

lemma ls_posedge_next:
  assumes "ls_ok s" and "\<not> (ls_addr_i p = 1 \<and> ls_wr_i p)" and "ls_next p"
  shows "ls_posedge p s = Inr (s\<lparr>ls_index := ls_index s + 1, ls_data_o := ls_current s\<rparr>)"
proof -
  have "is_cint (ls_index s + 1)"
    using assms(1) by (auto simp: ls_ok_def is_cint_def INT_MIN_def INT_MAX_def)
  with assms show ?thesis
    by (auto simp: ls_posedge_def ls_methods_def ls_issue_ok ls_add_to_queue_def ls_next_element_def ls_ok_def)
qed

lemma ls_posedge_fault:
  assumes "0 \<le> ls_index s" and "ls_addr_i p = 1" and "ls_wr_i p"
    and "int_of_float (ls_data_i p) = Inl e"
  shows "ls_posedge p s = Inl e"
  using assms by (simp add: ls_posedge_def ls_methods_def ls_issue_ok ls_add_to_queue_def)

section \<open>The queue over a run\<close>

definition ls_push :: "ls_ports \<Rightarrow> bool" where
  "ls_push p \<longleftrightarrow> ls_addr_i p = 1 \<and> ls_wr_i p"

text \<open>What is stored after the edges \<open>ps\<close>.\<close>

definition ls_holds :: "ls_ports list \<Rightarrow> layers_storage \<Rightarrow> bool" where
  "ls_holds ps s \<longleftrightarrow> map Inr (ls_memory s) = map (\<lambda>p. int_of_float (ls_data_i p)) (filter ls_push ps) \<and>
     ls_index s = int (length (filter ls_next ps))"

lemma ls_posedge_holds:
  assumes "ls_holds ps s" and "ls_push p \<Longrightarrow> \<exists>v. int_of_float (ls_data_i p) = Inr v" and "int (length ps) < INT_MAX"
  shows "\<exists>s'. ls_posedge p s = Inr s' \<and> ls_holds (ps @ [p]) s' \<and> ls_data_o s' = ls_current s"
proof -
  have i: "0 \<le> ls_index s" "ls_index s = int (length (filter ls_next ps))" using assms(1) by (simp_all add: ls_holds_def)
  then have "ls_index s < INT_MAX" using assms(3) length_filter_le [of ls_next ps] by linarith
  then have c: "is_cint (ls_index s + 1)" using i(1) by (auto simp: is_cint_def INT_MIN_def)
  have a: "\<exists>s1. ls_add_to_queue p (s\<lparr>ls_data_o := ls_current s\<rparr>) = Inr s1 \<and> ls_index s1 = ls_index s \<and>
      ls_data_o s1 = ls_current s \<and> map Inr (ls_memory s1) = map (\<lambda>p. int_of_float (ls_data_i p)) (filter ls_push (ps @ [p]))"
    using assms(1,2) by (cases "ls_push p") (auto simp: ls_add_to_queue_def ls_push_def ls_holds_def)
  then obtain s1 where s1: "ls_add_to_queue p (s\<lparr>ls_data_o := ls_current s\<rparr>) = Inr s1" "ls_index s1 = ls_index s"
    "ls_data_o s1 = ls_current s" "map Inr (ls_memory s1) = map (\<lambda>p. int_of_float (ls_data_i p)) (filter ls_push (ps @ [p]))"
    by blast
  then show ?thesis using i c
    by (cases "ls_next p") (auto simp: ls_posedge_def ls_methods_def ls_issue_ok [OF i(1)] ls_next_element_def ls_holds_def)
qed

lemma ls_run_holds:
  assumes "\<And>p. p \<in> set qs \<Longrightarrow> ls_push p \<Longrightarrow> \<exists>v. int_of_float (ls_data_i p) = Inr v"
    and "int (length ps + length qs) \<le> INT_MAX" and "ls_holds ps s"
  shows "\<exists>t. clock_run ls_posedge qs s = Inr t \<and> ls_holds (ps @ qs) (last (s # t))"
  using assms
proof (induction qs arbitrary: ps s)
  case (Cons p qs)
  obtain s' where s': "ls_posedge p s = Inr s'" "ls_holds (ps @ [p]) s'"
    using ls_posedge_holds [OF Cons.prems(3)] Cons.prems(1,2) by fastforce
  obtain t where "clock_run ls_posedge qs s' = Inr t" "ls_holds ((ps @ [p]) @ qs) (last (s' # t))"
    using Cons.IH [OF _ _ s'(2)] Cons.prems(1,2) by fastforce
  with s'(1) show ?case by auto
qed simp

text \<open>C37: the storage is a queue.  Over any run in which every size written to it is a number of
  the range of \<open>int\<close>, no edge faults, and the port \<open>data_o\<close> shows after the last edge the
  size that was written as number \<open>n\<close>, where \<open>n\<close> counts the \<open>next\<close> strobes before that edge,
  or 0 when fewer sizes were written.\<close>

theorem layers_storage_queue:
  assumes "\<forall>p \<in> set (ps @ [p]). ls_push p \<longrightarrow> (\<exists>v. int_of_float (ls_data_i p) = Inr v)"
    and "int (length ps) < INT_MAX"
  shows "\<exists>t. clock_run ls_posedge (ps @ [p]) layers_storage_new = Inr t \<and>
    (let sizes = filter ls_push ps; n = length (filter ls_next ps)
     in if n < length sizes then int_of_float (ls_data_i (sizes ! n)) = Inr (ls_data_o (last t)) else ls_data_o (last t) = 0)"
proof -
  have new: "ls_holds [] layers_storage_new" by (simp add: ls_holds_def layers_storage_new_def)
  obtain t where t: "clock_run ls_posedge ps layers_storage_new = Inr t" "ls_holds ps (last (layers_storage_new # t))"
    using ls_run_holds [OF _ _ new, of ps] assms by auto
  let ?s = "last (layers_storage_new # t)"
  obtain s' where s': "ls_posedge p ?s = Inr s'" "ls_data_o s' = ls_current ?s"
    using ls_posedge_holds [OF t(2), of p] assms by auto
  have "clock_run ls_posedge [p] ?s = Inr [s']" using s'(1) by simp
  then have run: "clock_run ls_posedge (ps @ [p]) layers_storage_new = Inr (t @ [s'])"
    by (rule clock_run_seq [OF t(1) refl])
  let ?n = "length (filter ls_next ps)" and ?z = "filter ls_push ps"
  have len: "length (ls_memory ?s) = length ?z" using t(2) by (auto simp: ls_holds_def dest: arg_cong [where f = length])
  have at: "int_of_float (ls_data_i (?z ! k)) = Inr (ls_memory ?s ! k)" if "k < length ?z" for k
  proof -
    have "map Inr (ls_memory ?s) ! k = map (\<lambda>p. int_of_float (ls_data_i p)) ?z ! k"
      using t(2) unfolding ls_holds_def by metis
    then show ?thesis unfolding nth_map [OF that] using nth_map [of k "ls_memory ?s" Inr] that len by simp
  qed
  have "nat (ls_index ?s) = ?n" using t(2) unfolding ls_holds_def by simp
  then have "ls_data_o s' = (if ?n < length ?z then ls_memory ?s ! ?n else 0)"
    unfolding s'(2) ls_current_def len by simp
  with run at show ?thesis by (auto simp: Let_def)
qed

definition ls_size_port :: "int \<Rightarrow> bool \<Rightarrow> ls_ports" where
  "ls_size_port z next = \<lparr>ls_addr_i = 1, ls_data_i = float_of_int z, ls_wr_i = \<not> next, ls_next = next\<rparr>"

theorem layers_storage_queue_witness:
  "\<exists>t. clock_run ls_posedge [ls_size_port 4 False, ls_size_port 2 False, ls_size_port 0 True, ls_size_port 0 True]
      layers_storage_new = Inr t \<and> ls_data_o (last t) = 2"
proof -
  let ?ps = "[ls_size_port 4 False, ls_size_port 2 False, ls_size_port 0 True]"
  have ok: "int_of_float (float_of_int 4) = Inr 4" "int_of_float (float_of_int 2) = Inr 2" "int_of_float (float_of_int 0) = Inr 0"
    by (simp_all add: int_of_float_of_int)
  then have "\<forall>p \<in> set (?ps @ [ls_size_port 0 True]). ls_push p \<longrightarrow> (\<exists>v. int_of_float (ls_data_i p) = Inr v)"
    by (simp add: ls_size_port_def)
  moreover have "int (length ?ps) < INT_MAX" by (simp add: INT_MAX_def)
  ultimately have "\<exists>t. clock_run ls_posedge (?ps @ [ls_size_port 0 True]) layers_storage_new = Inr t \<and>
    (let sizes = filter ls_push ?ps; n = length (filter ls_next ?ps)
     in if n < length sizes then int_of_float (ls_data_i (sizes ! n)) = Inr (ls_data_o (last t)) else ls_data_o (last t) = 0)"
    by (rule layers_storage_queue)
  moreover have "filter ls_push ?ps = [ls_size_port 4 False, ls_size_port 2 False]" "length (filter ls_next ?ps) = 1"
    by (simp_all add: ls_push_def ls_size_port_def)
  ultimately show ?thesis using ok(2) by (auto simp: Let_def ls_size_port_def)
qed

text \<open>A layer size is sent as a \<open>float\<close>.  Sizes up to \<open>2\<^sup>2\<^sup>4\<close> arrive unchanged, for every
  state of the storage; the size \<open>2\<^sup>2\<^sup>4 + 1\<close> arrives as \<open>2\<^sup>2\<^sup>4\<close>.\<close>

theorem layer_size_precision:
  "(0 \<le> z \<and> z \<le> 2 ^ 24 \<and> 0 \<le> ls_index s \<longrightarrow>
      ls_posedge (ls_size_port z False) s = Inr (s\<lparr>ls_memory := ls_memory s @ [z], ls_data_o := ls_current s\<rparr>)) \<and>
    ls_posedge (ls_size_port (2 ^ 24 + 1) False) layers_storage_new = Inr (layers_storage_new\<lparr>ls_memory := [2 ^ 24]\<rparr>)"
proof (intro conjI impI)
  assume "0 \<le> z \<and> z \<le> 2 ^ 24 \<and> 0 \<le> ls_index s"
  then show "ls_posedge (ls_size_port z False) s = Inr (s\<lparr>ls_memory := ls_memory s @ [z], ls_data_o := ls_current s\<rparr>)"
    by (intro ls_posedge_push) (simp_all add: ls_size_port_def int_of_float_of_int)
next
  have "bitlen (2 ^ 173) \<le> bitlen (16777217 * FLOAT_ONE)" by (rule bitlen_mono) (simp add: FLOAT_ONE_def)
  moreover have "bitlen (16777217 * FLOAT_ONE) \<le> 174" by (rule bitlen_le) (simp add: FLOAT_ONE_def)
  ultimately have "bitlen (16777217 * FLOAT_ONE) = 174" unfolding bitlen_pow2 by linarith
  then have "round_mag (16777217 * FLOAT_ONE) 1 = 16777216 * FLOAT_ONE"
    by (simp add: round_mag_def rne_def FLOAT_ONE_def Let_def)
  then have "float_of_int (2 ^ 24 + 1) = FNum False (16777216 * FLOAT_ONE)"
    by (simp add: float_of_int_def round_float_def FLOAT_LIMIT_def FLOAT_ONE_def)
  then have "int_of_float (float_of_int (2 ^ 24 + 1)) = Inr (2 ^ 24)"
    by (simp add: signed_def is_cint_def INT_MIN_def INT_MAX_def)
  then have "ls_posedge (ls_size_port (2 ^ 24 + 1) False) layers_storage_new =
      Inr (layers_storage_new\<lparr>ls_memory := ls_memory layers_storage_new @ [2 ^ 24], ls_data_o := ls_current layers_storage_new\<rparr>)"
    by (intro ls_posedge_push) (simp_all add: ls_size_port_def layers_storage_new_def)
  then show "ls_posedge (ls_size_port (2 ^ 24 + 1) False) layers_storage_new = Inr (layers_storage_new\<lparr>ls_memory := [2 ^ 24]\<rparr>)"
    by (simp add: layers_storage_new_def ls_current_def)
qed

theorem layer_size_precision_witness:
  "ls_posedge (ls_size_port 10 False) layers_storage_new = Inr (layers_storage_new\<lparr>ls_memory := [10]\<rparr>)"
proof -
  have "ls_posedge (ls_size_port 10 False) layers_storage_new =
      Inr (layers_storage_new\<lparr>ls_memory := ls_memory layers_storage_new @ [10], ls_data_o := ls_current layers_storage_new\<rparr>)"
    using layer_size_precision [of 10 layers_storage_new] by (simp add: layers_storage_new_def)
  then show ?thesis by (simp add: layers_storage_new_def ls_current_def)
qed

end
