(* ===== verification/Read_Port.thy ===== *)
theory Read_Port
  imports Float32
begin

text \<open>
  The interface between the processors and the two memories they read
  (\<open>WEIGHT_STORAGE\<close> and \<open>PREVIOUS_LAYER\<close>): a memory with one read port per processor.
  A provider gives the checked read of its code and the total function it computes on
  addresses that are not negative; the behaviour of the whole vector of ports follows
  once for both.
\<close>

locale read_port =
  fixes read :: "'m \<Rightarrow> int \<Rightarrow> float32 res"
    and at :: "'m \<Rightarrow> int \<Rightarrow> float32"
  assumes read_ok: "0 \<le> a \<Longrightarrow> read m a = Inr (at m a)"
    and read_negative: "a < 0 \<Longrightarrow> read m a = Inl OutOfBounds"
begin

lemma ports_ok:
  assumes "\<forall>i < n. 0 \<le> as ! i"
  shows "rmap (\<lambda>i. read m (as ! i)) [0..<n] = Inr (map (\<lambda>i. at m (as ! i)) [0..<n])"
  using assms by (intro rmap_total) (simp add: read_ok)

lemma ports_negative:
  assumes "i < n" and "as ! i < 0"
  shows "\<exists>e. rmap (\<lambda>i. read m (as ! i)) [0..<n] = Inl e"
proof (rule ccontr)
  assume "\<nexists>e. rmap (\<lambda>i. read m (as ! i)) [0..<n] = Inl e"
  then obtain ds where "rmap (\<lambda>i. read m (as ! i)) [0..<n] = Inr ds"
    by (cases "rmap (\<lambda>i. read m (as ! i)) [0..<n]") auto
  then have "read m (as ! ([0..<n] ! i)) = Inr (ds ! i)"
    using assms(1) by (auto simp: rmap_eq_Inr list_all2_conv_all_nth)
  with assms show False by (simp add: read_negative)
qed

end

text \<open>The memory seen through such a port: its contents, and a default outside.\<close>

definition mem_at :: "float32 \<Rightarrow> float32 list \<Rightarrow> int \<Rightarrow> float32" where
  "mem_at d mem a = (if 0 \<le> a \<and> nat a < length mem then mem ! nat a else d)"

lemma mem_at_nth: "n < length mem \<Longrightarrow> mem_at d mem (int n) = mem ! n"
  by (simp add: mem_at_def)

text \<open>The answers of all the ports.\<close>

definition mem_answers :: "float32 \<Rightarrow> float32 list \<Rightarrow> int list \<Rightarrow> float32 list" where
  "mem_answers d mem as = map (\<lambda>i. mem_at d mem (as ! i)) [0..<COUNT_PC_UNIT]"

lemma length_mem_answers [simp]: "length (mem_answers d mem as) = COUNT_PC_UNIT"
  by (simp add: mem_answers_def)

lemma nth_mem_answers [simp]: "i < COUNT_PC_UNIT \<Longrightarrow> mem_answers d mem as ! i = mem_at d mem (as ! i)"
  by (simp add: mem_answers_def)

definition addrs_ok :: "int list \<Rightarrow> bool" where
  "addrs_ok as \<longleftrightarrow> (\<forall>i < COUNT_PC_UNIT. 0 \<le> as ! i)"

end
