(* ===== verification/Weight_Storage.thy ===== *)
theory Weight_Storage
  imports Read_Port
begin

text \<open>
  \<open>WEIGHT_STORAGE\<close> (\<open>inc/weight_storage.h\<close>, \<open>src/weight_storage.cpp\<close>): the weight
  memory.  Weights arrive in order on the bus at address 3; every clock edge answers the
  address each processor has put on its own bus, with 0 behind the end.
\<close>

section \<open>Module\<close>

record ws_ports =
  ws_addr_io_bus_i :: int
  ws_data_io_bus_i :: float32
  ws_wr_io_bus_i :: bool
  ws_addr_out_bus_i :: "int list"

record weight_storage =
  ws_memory :: "float32 list"
  ws_data_out_bus_o :: "float32 list"

definition weight_storage_new :: weight_storage where
  "weight_storage_new = \<lparr>ws_memory = [], ws_data_out_bus_o = replicate COUNT_PC_UNIT float_zero\<rparr>"

definition ws_add_to_memory :: "ws_ports \<Rightarrow> weight_storage \<Rightarrow> weight_storage res" where
  "ws_add_to_memory p s =
     (if ws_addr_io_bus_i p = 3 \<and> ws_wr_io_bus_i p
      then Inr (s\<lparr>ws_memory := ws_memory s @ [ws_data_io_bus_i p]\<rparr>)
      else Inr s)"

text \<open>The bounds test of the code compares the size with the address, so a negative address
  passes it and indexes outside the vector.\<close>

definition ws_read :: "float32 list \<Rightarrow> int \<Rightarrow> float32 res" where
  "ws_read mem a =
     (if a < int (length mem) then if a < 0 then Inl OutOfBounds else Inr (mem ! nat a)
      else Inr float_zero)"

definition ws_issue_element :: "ws_ports \<Rightarrow> weight_storage \<Rightarrow> weight_storage res" where
  "ws_issue_element p s =
     rbind (rmap (\<lambda>i. ws_read (ws_memory s) (ws_addr_out_bus_i p ! i)) [0..<COUNT_PC_UNIT])
       (\<lambda>ds. Inr (s\<lparr>ws_data_out_bus_o := ds\<rparr>))"

definition ws_methods :: "ws_ports \<Rightarrow> (weight_storage \<Rightarrow> weight_storage res) list" where
  "ws_methods p = [ws_issue_element p, ws_add_to_memory p]"

definition ws_posedge :: "ws_ports \<Rightarrow> weight_storage \<Rightarrow> weight_storage res" where
  "ws_posedge p s = run_methods (rev (ws_methods p)) s"

section \<open>Properties\<close>

interpretation ws_port: read_port ws_read "mem_at float_zero"
  by unfold_locales (auto simp: ws_read_def mem_at_def)

lemma ws_issue_ok:
  assumes "addrs_ok (ws_addr_out_bus_i p)"
  shows "ws_issue_element p s =
    Inr (s\<lparr>ws_data_out_bus_o := mem_answers float_zero (ws_memory s) (ws_addr_out_bus_i p)\<rparr>)"
  using ws_port.ports_ok assms by (simp add: ws_issue_element_def mem_answers_def addrs_ok_def)

lemma ws_posedge_idle:
  assumes "addrs_ok (ws_addr_out_bus_i p)" and "\<not> (ws_addr_io_bus_i p = 3 \<and> ws_wr_io_bus_i p)"
  shows "ws_posedge p s =
    Inr (s\<lparr>ws_data_out_bus_o := mem_answers float_zero (ws_memory s) (ws_addr_out_bus_i p)\<rparr>)"
  using assms by (auto simp: ws_posedge_def ws_methods_def ws_add_to_memory_def ws_issue_ok)

lemma ws_posedge_push:
  assumes "addrs_ok (ws_addr_out_bus_i p)" and "ws_addr_io_bus_i p = 3" and "ws_wr_io_bus_i p"
  shows "ws_posedge p s = Inr (s\<lparr>ws_memory := ws_memory s @ [ws_data_io_bus_i p],
    ws_data_out_bus_o := mem_answers float_zero (ws_memory s @ [ws_data_io_bus_i p]) (ws_addr_out_bus_i p)\<rparr>)"
  using assms by (simp add: ws_posedge_def ws_methods_def ws_add_to_memory_def ws_issue_ok)

section \<open>The memory over a run\<close>

definition ws_push :: "ws_ports \<Rightarrow> bool" where
  "ws_push p \<longleftrightarrow> ws_addr_io_bus_i p = 3 \<and> ws_wr_io_bus_i p"

definition ws_stream :: "ws_ports list \<Rightarrow> float32 list" where
  "ws_stream ps = map ws_data_io_bus_i (filter ws_push ps)"

lemma ws_posedge_stream:
  assumes "addrs_ok (ws_addr_out_bus_i p)"
  shows "ws_posedge p s = Inr (s\<lparr>ws_memory := ws_memory s @ ws_stream [p],
    ws_data_out_bus_o := mem_answers float_zero (ws_memory s @ ws_stream [p]) (ws_addr_out_bus_i p)\<rparr>)"
proof (cases "ws_push p")
  case True
  then show ?thesis using ws_posedge_push [OF assms] by (simp add: ws_push_def ws_stream_def)
next
  case False
  then have "\<not> (ws_addr_io_bus_i p = 3 \<and> ws_wr_io_bus_i p)" by (simp add: ws_push_def)
  moreover have "ws_stream [p] = []" using False by (simp add: ws_stream_def)
  ultimately show ?thesis using ws_posedge_idle [OF assms, of s] by (cases s) simp
qed

lemma ws_run_stream:
  assumes "\<forall>p \<in> set ps. addrs_ok (ws_addr_out_bus_i p)"
  shows "\<exists>t. clock_run ws_posedge ps s = Inr t \<and> (\<forall>k < length ps.
    ws_memory (t ! k) = ws_memory s @ ws_stream (take (Suc k) ps) \<and>
    ws_data_out_bus_o (t ! k) = mem_answers float_zero (ws_memory (t ! k)) (ws_addr_out_bus_i (ps ! k)))"
  using assms
proof (induction ps arbitrary: s)
  case (Cons p ps)
  let ?m = "ws_memory s @ ws_stream [p]"
  let ?s1 = "s\<lparr>ws_memory := ?m, ws_data_out_bus_o := mem_answers float_zero ?m (ws_addr_out_bus_i p)\<rparr>"
  have s1: "ws_posedge p s = Inr ?s1" by (rule ws_posedge_stream) (use Cons.prems in simp)
  obtain t where t: "clock_run ws_posedge ps ?s1 = Inr t" "\<forall>k < length ps.
      ws_memory (t ! k) = ws_memory ?s1 @ ws_stream (take (Suc k) ps) \<and>
      ws_data_out_bus_o (t ! k) = mem_answers float_zero (ws_memory (t ! k)) (ws_addr_out_bus_i (ps ! k))"
    using Cons.IH [of ?s1] Cons.prems by auto
  have app: "ws_stream (p # qs) = ws_stream [p] @ ws_stream qs" for qs by (simp add: ws_stream_def)
  have "ws_memory ((?s1 # t) ! k) = ws_memory s @ ws_stream (take (Suc k) (p # ps)) \<and>
      ws_data_out_bus_o ((?s1 # t) ! k) = mem_answers float_zero (ws_memory ((?s1 # t) ! k)) (ws_addr_out_bus_i ((p # ps) ! k))"
    if "k < length (p # ps)" for k
  proof (cases k)
    case (Suc k')
    then show ?thesis using t(2) that app [of "take (Suc k') ps"] by simp
  qed simp
  with s1 t(1) show ?case by (intro exI [of _ "?s1 # t"]) simp
qed simp

text \<open>C38: over any run with addresses that are not negative no edge faults; after every edge the
  memory holds the weights seen on the bus at address 3 so far, in order, and every processor's
  port shows the weight at the address that processor has on its bus, the weight stored in the
  same edge included, and 0 behind the end.\<close>

theorem weight_storage_serves_stream:
  assumes "\<forall>p \<in> set ps. addrs_ok (ws_addr_out_bus_i p)" and "k < length ps" and "i < COUNT_PC_UNIT"
    and "ws_addr_out_bus_i (ps ! k) ! i = int a"
  shows "\<exists>t. clock_run ws_posedge ps weight_storage_new = Inr t \<and>
    (let ws = ws_stream (take (Suc k) ps)
     in ws_memory (t ! k) = ws \<and> ws_data_out_bus_o (t ! k) ! i = (if a < length ws then ws ! a else float_zero))"
  using ws_run_stream [OF assms(1), of weight_storage_new] assms(2-4)
  by (fastforce simp: weight_storage_new_def Let_def mem_at_def)

definition ws_bus_port :: "int \<Rightarrow> float32 \<Rightarrow> int \<Rightarrow> ws_ports" where
  "ws_bus_port addr x a = \<lparr>ws_addr_io_bus_i = addr, ws_data_io_bus_i = x, ws_wr_io_bus_i = True,
     ws_addr_out_bus_i = replicate COUNT_PC_UNIT a\<rparr>"

theorem weight_storage_serves_stream_witness:
  "\<exists>t. clock_run ws_posedge [ws_bus_port 3 float_one 1, ws_bus_port 2 float_zero 1, ws_bus_port 3 float_INFINITY 1]
      weight_storage_new = Inr t \<and> ws_data_out_bus_o (t ! 2) ! 6 = float_INFINITY"
proof -
  let ?ps = "[ws_bus_port 3 float_one 1, ws_bus_port 2 float_zero 1, ws_bus_port 3 float_INFINITY 1]"
  have "\<forall>p \<in> set ?ps. addrs_ok (ws_addr_out_bus_i p)" "2 < length ?ps" "6 < COUNT_PC_UNIT"
    "ws_addr_out_bus_i (?ps ! 2) ! 6 = int 1"
    by (simp_all add: ws_bus_port_def addrs_ok_def COUNT_PC_UNIT_def)
  from weight_storage_serves_stream [OF this] show ?thesis
    by (auto simp: Let_def ws_stream_def ws_push_def ws_bus_port_def)
qed

text \<open>The bounds test of \<open>issue_element\<close> lets a negative address through: whatever the memory
  holds, an edge that finds one on the bus of any processor indexes outside the vector.\<close>

theorem weight_storage_negative_address:
  assumes "i < COUNT_PC_UNIT" and "ws_addr_out_bus_i p ! i < 0"
  shows "\<exists>e. ws_posedge p s = Inl e"
proof -
  obtain s1 where "ws_add_to_memory p s = Inr s1"
    by (cases "ws_addr_io_bus_i p = 3 \<and> ws_wr_io_bus_i p") (auto simp: ws_add_to_memory_def)
  moreover obtain e where "rmap (\<lambda>i. ws_read (ws_memory s1) (ws_addr_out_bus_i p ! i)) [0..<COUNT_PC_UNIT] = Inl e"
    using ws_port.ports_negative [OF assms] by blast
  ultimately show ?thesis by (simp add: ws_posedge_def ws_methods_def ws_issue_element_def)
qed

theorem weight_storage_negative_address_witness:
  "\<exists>e. ws_posedge (ws_bus_port 3 float_one (-1)) weight_storage_new = Inl e"
proof (rule weight_storage_negative_address)
  show "0 < COUNT_PC_UNIT" by (simp add: COUNT_PC_UNIT_def)
  show "ws_addr_out_bus_i (ws_bus_port 3 float_one (-1)) ! 0 < 0" by (simp add: ws_bus_port_def COUNT_PC_UNIT_def)
qed

end
