(* ===== verification/Previous_Layer.thy ===== *)
theory Previous_Layer
  imports Read_Port
begin

text \<open>
  \<open>PREVIOUS_LAYER\<close> (\<open>inc/previous_layer.h\<close>, \<open>src/previous_layer.cpp\<close>): the memory of
  the layer the processors read.  It is filled from the bus (the picture, address 2) or
  from the result memory, answers the processors, and at the end writes its contents to the
  bus, one value per clock, and stops the simulation.
\<close>

section \<open>Module\<close>

record pl_ports =
  pl_addr_io_bus_i :: int
  pl_data_io_bus_io :: float32
  pl_wr_io_bus_io :: bool
  pl_wr_to_memory_from_mem_i :: bool
  pl_wr_to_out_i :: bool
  pl_clr_i :: bool
  pl_addr_PC_bus_i :: "int list"
  pl_data_mem_bus_i :: float32

text \<open>The members, the values last written to the processors' ports, the values written to
  the two shared bus signals in the current evaluation, and the request to stop.\<close>

record previous_layer =
  pl_memory :: "float32 list"
  pl_index_to_out :: int
  pl_data_PC_bus_o :: "float32 list"
  pl_data_io_write :: "float32 option"
  pl_wr_io_write :: "bool option"
  pl_stop :: bool

definition previous_layer_new :: previous_layer where
  "previous_layer_new =
     \<lparr>pl_memory = [], pl_index_to_out = 0, pl_data_PC_bus_o = replicate COUNT_PC_UNIT float_zero,
      pl_data_io_write = None, pl_wr_io_write = None, pl_stop = False\<rparr>"

definition pl_add_to_mem :: "pl_ports \<Rightarrow> previous_layer \<Rightarrow> previous_layer res" where
  "pl_add_to_mem p s =
     (let m1 = (if pl_wr_io_bus_io p \<and> pl_addr_io_bus_i p = 2
                then pl_memory s @ [pl_data_io_bus_io p] else pl_memory s);
          m2 = (if pl_wr_to_memory_from_mem_i p then m1 @ [pl_data_mem_bus_i p] else m1)
      in Inr (s\<lparr>pl_memory := m2\<rparr>))"

definition pl_issue_element_IO :: "pl_ports \<Rightarrow> previous_layer \<Rightarrow> previous_layer res" where
  "pl_issue_element_IO p s =
     (if pl_wr_to_out_i p
      then if pl_index_to_out s < int (length (pl_memory s))
           then if pl_index_to_out s < 0 then Inl OutOfBounds
                else rbind (check_int (pl_index_to_out s + 1)) (\<lambda>i.
                  Inr (s\<lparr>pl_data_io_write := Some (pl_memory s ! nat (pl_index_to_out s)),
                         pl_wr_io_write := Some True, pl_index_to_out := i\<rparr>))
           else Inr (s\<lparr>pl_stop := True\<rparr>)
      else Inr s)"

definition pl_read :: "float32 list \<Rightarrow> int \<Rightarrow> float32 res" where
  "pl_read mem a =
     (if a < int (length mem) then if a < 0 then Inl OutOfBounds else Inr (mem ! nat a)
      else Inr (float_of_int (-1)))"

definition pl_issue_element_PC :: "pl_ports \<Rightarrow> previous_layer \<Rightarrow> previous_layer res" where
  "pl_issue_element_PC p s =
     rbind (rmap (\<lambda>i. pl_read (pl_memory s) (pl_addr_PC_bus_i p ! i)) [0..<COUNT_PC_UNIT])
       (\<lambda>ds. Inr (s\<lparr>pl_data_PC_bus_o := ds\<rparr>))"

definition pl_clear :: "pl_ports \<Rightarrow> previous_layer \<Rightarrow> previous_layer res" where
  "pl_clear p s = (if pl_clr_i p then Inr (s\<lparr>pl_memory := [], pl_index_to_out := 0\<rparr>) else Inr s)"

definition pl_methods :: "pl_ports \<Rightarrow> (previous_layer \<Rightarrow> previous_layer res) list" where
  "pl_methods p = [pl_add_to_mem p, pl_issue_element_IO p, pl_issue_element_PC p, pl_clear p]"

text \<open>One clock edge; the bus writes of the last evaluation are forgotten first.\<close>

definition pl_posedge :: "pl_ports \<Rightarrow> previous_layer \<Rightarrow> previous_layer res" where
  "pl_posedge p s =
     run_methods (rev (pl_methods p)) (s\<lparr>pl_data_io_write := None, pl_wr_io_write := None\<rparr>)"

section \<open>Properties\<close>

text \<open>Behind the end of the memory the port shows -1.\<close>

abbreviation pl_default :: float32 where
  "pl_default \<equiv> float_of_int (-1)"

interpretation pl_port: read_port pl_read "mem_at pl_default"
  by unfold_locales (auto simp: pl_read_def mem_at_def)

lemma pl_issue_PC_ok:
  assumes "addrs_ok (pl_addr_PC_bus_i p)"
  shows "pl_issue_element_PC p s =
    Inr (s\<lparr>pl_data_PC_bus_o := mem_answers pl_default (pl_memory s) (pl_addr_PC_bus_i p)\<rparr>)"
  using pl_port.ports_ok assms by (simp add: pl_issue_element_PC_def mem_answers_def addrs_ok_def)

lemmas pl_posedge_unfold = pl_posedge_def pl_methods_def pl_clear_def pl_issue_element_IO_def
  pl_add_to_mem_def

text \<open>The four things an edge can do: nothing but answer, store, clear, and write out.\<close>

lemma pl_posedge_idle:
  assumes "addrs_ok (pl_addr_PC_bus_i p)" and "\<not> pl_clr_i p" and "\<not> pl_wr_to_out_i p"
    and "\<not> (pl_wr_io_bus_io p \<and> pl_addr_io_bus_i p = 2)" and "\<not> pl_wr_to_memory_from_mem_i p"
  shows "pl_posedge p s = Inr (s\<lparr>pl_data_io_write := None, pl_wr_io_write := None,
    pl_data_PC_bus_o := mem_answers pl_default (pl_memory s) (pl_addr_PC_bus_i p)\<rparr>)"
  using assms by (auto simp: pl_posedge_unfold pl_issue_PC_ok)

lemma pl_posedge_store_io:
  assumes "addrs_ok (pl_addr_PC_bus_i p)" and "\<not> pl_clr_i p" and "\<not> pl_wr_to_out_i p"
    and "pl_wr_io_bus_io p" and "pl_addr_io_bus_i p = 2" and "\<not> pl_wr_to_memory_from_mem_i p"
  shows "pl_posedge p s = Inr (s\<lparr>pl_data_io_write := None, pl_wr_io_write := None,
    pl_data_PC_bus_o := mem_answers pl_default (pl_memory s) (pl_addr_PC_bus_i p),
    pl_memory := pl_memory s @ [pl_data_io_bus_io p]\<rparr>)"
  using assms by (auto simp: pl_posedge_unfold pl_issue_PC_ok)

lemma pl_posedge_store_mem:
  assumes "addrs_ok (pl_addr_PC_bus_i p)" and "\<not> pl_clr_i p" and "\<not> pl_wr_to_out_i p"
    and "\<not> (pl_wr_io_bus_io p \<and> pl_addr_io_bus_i p = 2)" and "pl_wr_to_memory_from_mem_i p"
  shows "pl_posedge p s = Inr (s\<lparr>pl_data_io_write := None, pl_wr_io_write := None,
    pl_data_PC_bus_o := mem_answers pl_default (pl_memory s) (pl_addr_PC_bus_i p),
    pl_memory := pl_memory s @ [pl_data_mem_bus_i p]\<rparr>)"
  using assms by (auto simp: pl_posedge_unfold pl_issue_PC_ok)

lemma pl_posedge_clear:
  assumes "addrs_ok (pl_addr_PC_bus_i p)" and "pl_clr_i p" and "\<not> pl_wr_to_out_i p"
    and "\<not> (pl_wr_io_bus_io p \<and> pl_addr_io_bus_i p = 2)" and "\<not> pl_wr_to_memory_from_mem_i p"
  shows "pl_posedge p s = Inr (s\<lparr>pl_data_io_write := None, pl_wr_io_write := None,
    pl_data_PC_bus_o := mem_answers pl_default [] (pl_addr_PC_bus_i p), pl_memory := [], pl_index_to_out := 0\<rparr>)"
  using assms by (auto simp: pl_posedge_unfold pl_issue_PC_ok)

lemma pl_posedge_out:
  assumes "addrs_ok (pl_addr_PC_bus_i p)" and "\<not> pl_clr_i p" and "pl_wr_to_out_i p"
    and "\<not> (pl_wr_io_bus_io p \<and> pl_addr_io_bus_i p = 2)" and "\<not> pl_wr_to_memory_from_mem_i p"
    and "pl_index_to_out s = int k" and "k < length (pl_memory s)" and "int k < INT_MAX"
  shows "pl_posedge p s = Inr (s\<lparr>pl_data_io_write := Some (pl_memory s ! k), pl_wr_io_write := Some True,
    pl_data_PC_bus_o := mem_answers pl_default (pl_memory s) (pl_addr_PC_bus_i p), pl_index_to_out := int k + 1\<rparr>)"
proof -
  have "is_cint (int k + 1)" using assms(8) by (auto simp: is_cint_def INT_MIN_def INT_MAX_def)
  then show ?thesis using assms(1-7) by (auto simp: pl_posedge_unfold pl_issue_PC_ok)
qed

lemma pl_posedge_stop:
  assumes "addrs_ok (pl_addr_PC_bus_i p)" and "\<not> pl_clr_i p" and "pl_wr_to_out_i p"
    and "\<not> (pl_wr_io_bus_io p \<and> pl_addr_io_bus_i p = 2)" and "\<not> pl_wr_to_memory_from_mem_i p"
    and "int (length (pl_memory s)) \<le> pl_index_to_out s"
  shows "pl_posedge p s = Inr (s\<lparr>pl_data_io_write := None, pl_wr_io_write := None,
    pl_data_PC_bus_o := mem_answers pl_default (pl_memory s) (pl_addr_PC_bus_i p), pl_stop := True\<rparr>)"
  using assms by (auto simp: pl_posedge_unfold pl_issue_PC_ok)

section \<open>The output over a run\<close>

text \<open>An edge at which the memory is asked for its contents and for nothing else.\<close>

definition pl_out_port :: "pl_ports \<Rightarrow> bool" where
  "pl_out_port p \<longleftrightarrow> addrs_ok (pl_addr_PC_bus_i p) \<and> \<not> pl_clr_i p \<and> pl_wr_to_out_i p \<and>
     \<not> (pl_wr_io_bus_io p \<and> pl_addr_io_bus_i p = 2) \<and> \<not> pl_wr_to_memory_from_mem_i p"

lemma pl_run_out:
  assumes "\<forall>p \<in> set ps. pl_out_port p" and "pl_index_to_out s = int k" and "k + length ps = length (pl_memory s)"
    and "int (length (pl_memory s)) < INT_MAX"
  shows "\<exists>t. clock_run pl_posedge ps s = Inr t \<and>
    (\<forall>i < length ps. pl_data_io_write (t ! i) = Some (pl_memory s ! (k + i)) \<and> pl_wr_io_write (t ! i) = Some True \<and>
       pl_stop (t ! i) = pl_stop s) \<and>
    pl_memory (last (s # t)) = pl_memory s \<and> pl_index_to_out (last (s # t)) = int (length (pl_memory s)) \<and>
    pl_stop (last (s # t)) = pl_stop s"
  using assms
proof (induction ps arbitrary: s k)
  case (Cons p ps)
  let ?s1 = "s\<lparr>pl_data_io_write := Some (pl_memory s ! k), pl_wr_io_write := Some True,
    pl_data_PC_bus_o := mem_answers pl_default (pl_memory s) (pl_addr_PC_bus_i p), pl_index_to_out := int k + 1\<rparr>"
  have s1: "pl_posedge p s = Inr ?s1"
    by (rule pl_posedge_out) (use Cons.prems in \<open>auto simp: pl_out_port_def\<close>)
  have i: "pl_index_to_out ?s1 = int (Suc k)" "Suc k + length ps = length (pl_memory ?s1)" using Cons.prems(3) by simp_all
  obtain t where t: "clock_run pl_posedge ps ?s1 = Inr t"
    "\<forall>i < length ps. pl_data_io_write (t ! i) = Some (pl_memory s ! (Suc k + i)) \<and> pl_wr_io_write (t ! i) = Some True \<and>
       pl_stop (t ! i) = pl_stop s"
    "pl_memory (last (?s1 # t)) = pl_memory s" "pl_index_to_out (last (?s1 # t)) = int (length (pl_memory s))"
    "pl_stop (last (?s1 # t)) = pl_stop s"
    using Cons.IH [OF _ i] Cons.prems(1,4) by auto
  have "clock_run pl_posedge (p # ps) s = Inr (?s1 # t)" by (rule clock_run_Cons [OF s1 t(1)])
  moreover have "pl_data_io_write ((?s1 # t) ! i) = Some (pl_memory s ! (k + i)) \<and> pl_wr_io_write ((?s1 # t) ! i) = Some True \<and>
       pl_stop ((?s1 # t) ! i) = pl_stop s" if "i < length (p # ps)" for i
    using t(2) that by (cases i) auto
  ultimately show ?case using t(3-5) by (intro exI [of _ "?s1 # t"]) simp
qed simp

text \<open>Asked for its contents, the memory puts its elements on the shared bus in order, one per
  edge, each with the write strobe, and stops the simulation at the edge after the last one,
  at which it writes nothing.\<close>

theorem previous_layer_output:
  assumes "\<forall>p \<in> set (ps @ [q]). pl_out_port p" and "pl_index_to_out s = 0" and "\<not> pl_stop s"
    and "length ps = length (pl_memory s)" and "int (length (pl_memory s)) < INT_MAX"
  shows "\<exists>t u. clock_run pl_posedge (ps @ [q]) s = Inr (t @ [u]) \<and> length t = length (pl_memory s) \<and>
    map pl_data_io_write t = map Some (pl_memory s) \<and> (\<forall>i < length t. pl_wr_io_write (t ! i) = Some True \<and> \<not> pl_stop (t ! i)) \<and>
    pl_stop u \<and> pl_data_io_write u = None \<and> pl_wr_io_write u = None"
proof -
  obtain t where t: "clock_run pl_posedge ps s = Inr t"
    "\<forall>i < length ps. pl_data_io_write (t ! i) = Some (pl_memory s ! i) \<and> pl_wr_io_write (t ! i) = Some True \<and>
       pl_stop (t ! i) = pl_stop s"
    "pl_memory (last (s # t)) = pl_memory s" "pl_index_to_out (last (s # t)) = int (length (pl_memory s))"
    using pl_run_out [of ps s 0] assms by auto
  have len: "length t = length (pl_memory s)" using length_clock_run [OF t(1)] assms(4) by simp
  let ?u = "(last (s # t))\<lparr>pl_data_io_write := None, pl_wr_io_write := None,
    pl_data_PC_bus_o := mem_answers pl_default (pl_memory (last (s # t))) (pl_addr_PC_bus_i q), pl_stop := True\<rparr>"
  have "pl_posedge q (last (s # t)) = Inr ?u"
    by (rule pl_posedge_stop) (use assms(1) t(3,4) in \<open>auto simp: pl_out_port_def simp del: last.simps\<close>)
  then have "clock_run pl_posedge [q] (last (s # t)) = Inr [?u]" by (simp del: last.simps)
  then have "clock_run pl_posedge (ps @ [q]) s = Inr (t @ [?u])" by (rule clock_run_seq [OF t(1) refl])
  moreover have "map pl_data_io_write t = map Some (pl_memory s)"
    using t(2) len assms(4) by (intro nth_equalityI) auto
  ultimately show ?thesis using t(2) len assms(3,4) by (intro exI [of _ t] exI [of _ ?u]) simp
qed

definition pl_out_request :: pl_ports where
  "pl_out_request = \<lparr>pl_addr_io_bus_i = 0, pl_data_io_bus_io = float_zero, pl_wr_io_bus_io = True, pl_wr_to_memory_from_mem_i = False,
     pl_wr_to_out_i = True, pl_clr_i = False, pl_addr_PC_bus_i = replicate COUNT_PC_UNIT 0, pl_data_mem_bus_i = float_zero\<rparr>"

theorem previous_layer_output_witness:
  "\<exists>t u. clock_run pl_posedge (replicate 2 pl_out_request @ [pl_out_request]) (previous_layer_new\<lparr>pl_memory := [float_one, float_zero]\<rparr>) =
      Inr (t @ [u]) \<and> map pl_data_io_write t = [Some float_one, Some float_zero] \<and> pl_stop u"
proof -
  let ?s = "previous_layer_new\<lparr>pl_memory := [float_one, float_zero]\<rparr>"
  have "\<forall>p \<in> set (replicate 2 pl_out_request @ [pl_out_request]). pl_out_port p" "pl_index_to_out ?s = 0" "\<not> pl_stop ?s"
    "length (replicate 2 pl_out_request) = length (pl_memory ?s)" "int (length (pl_memory ?s)) < INT_MAX"
    by (auto simp: pl_out_port_def pl_out_request_def addrs_ok_def previous_layer_new_def INT_MAX_def)
  from previous_layer_output [OF this] show ?thesis by auto
qed

text \<open>A clear request wins over everything else of the same edge but the copy port: the old
  contents are gone, the processors read -1 everywhere, and a value offered by the result
  memory or the bus in the same edge is stored into the emptied memory.\<close>

theorem previous_layer_clear:
  assumes "addrs_ok (pl_addr_PC_bus_i p)" and "pl_clr_i p" and "\<not> pl_wr_to_out_i p"
  shows "\<exists>s'. pl_posedge p s = Inr s' \<and> pl_index_to_out s' = 0 \<and>
    pl_data_PC_bus_o s' = replicate COUNT_PC_UNIT pl_default \<and>
    pl_memory s' = (if pl_wr_io_bus_io p \<and> pl_addr_io_bus_i p = 2 then [pl_data_io_bus_io p] else []) @
      (if pl_wr_to_memory_from_mem_i p then [pl_data_mem_bus_i p] else [])"
proof -
  have "mem_answers pl_default [] as = replicate COUNT_PC_UNIT pl_default" for as
    by (simp add: mem_answers_def mem_at_def map_replicate_const)
  then show ?thesis using assms by (simp add: pl_posedge_unfold pl_issue_PC_ok Let_def)
qed

theorem previous_layer_clear_witness:
  "\<exists>s'. pl_posedge (pl_out_request\<lparr>pl_wr_to_out_i := False, pl_clr_i := True, pl_wr_to_memory_from_mem_i := True\<rparr>)
     (previous_layer_new\<lparr>pl_memory := [float_one]\<rparr>) = Inr s' \<and> pl_memory s' = [float_zero]"
proof -
  let ?p = "pl_out_request\<lparr>pl_wr_to_out_i := False, pl_clr_i := True, pl_wr_to_memory_from_mem_i := True\<rparr>"
  have "addrs_ok (pl_addr_PC_bus_i ?p)" "pl_clr_i ?p" "\<not> pl_wr_to_out_i ?p"
    by (simp_all add: pl_out_request_def addrs_ok_def)
  from previous_layer_clear [OF this, of "previous_layer_new\<lparr>pl_memory := [float_one]\<rparr>"] show ?thesis
    by (auto simp: pl_out_request_def)
qed

end
