(* ===== verification/Previous_Layer_Controller.thy ===== *)
theory Previous_Layer_Controller
  imports Prelude
begin

text \<open>
  \<open>PREVIOUS_LAYER_CONTROLLER\<close> (\<open>inc/previous_layer_controller.h\<close>,
  \<open>src/previous_layer_controller.cpp\<close>): passes the clear and write-out requests on, one
  clock later, and copies the result memory into the memory of the previous layer.
\<close>

record plc_ports =
  plc_clr_i :: bool
  plc_start_clone_i :: bool
  plc_write_out_i :: bool
  plc_layer_size_i :: int

text \<open>The waits of \<open>copy_memory\<close>: before the first activation, while no clone is
  requested, after raising \<open>next_o\<close>, in the loop, and after raising \<open>end_clone_o\<close>.\<close>

datatype plc_pc = PLC_Start | PLC_Idle | PLC_Next | PLC_Copy | PLC_Done

record previous_layer_controller =
  plc_pc :: plc_pc
  plc_i :: int
  plc_wr_to_memory_from_mem_o :: bool
  plc_wr_to_out_o :: bool
  plc_clr_o :: bool
  plc_next_o :: bool
  plc_end_clone_o :: bool

definition previous_layer_controller_new :: previous_layer_controller where
  "previous_layer_controller_new =
     \<lparr>plc_pc = PLC_Start, plc_i = 0, plc_wr_to_memory_from_mem_o = False, plc_wr_to_out_o = False,
      plc_clr_o = False, plc_next_o = False, plc_end_clone_o = False\<rparr>"

definition plc_clear :: "plc_ports \<Rightarrow> previous_layer_controller \<Rightarrow> previous_layer_controller res" where
  "plc_clear p s = Inr (s\<lparr>plc_clr_o := plc_clr_i p\<rparr>)"

definition plc_write_out_to_IO :: "plc_ports \<Rightarrow> previous_layer_controller \<Rightarrow> previous_layer_controller res" where
  "plc_write_out_to_IO p s = Inr (s\<lparr>plc_wr_to_out_o := plc_write_out_i p\<rparr>)"

definition plc_methods :: "plc_ports \<Rightarrow> (previous_layer_controller \<Rightarrow> previous_layer_controller res) list" where
  "plc_methods p = [plc_write_out_to_IO p, plc_clear p]"

text \<open>The head of the endless loop, with the loop that waits for \<open>start_clone_i\<close>.\<close>

definition plc_head :: "plc_ports \<Rightarrow> previous_layer_controller \<Rightarrow> previous_layer_controller" where
  "plc_head p s =
     (if \<not> plc_start_clone_i p then s\<lparr>plc_end_clone_o := False, plc_pc := PLC_Idle\<rparr>
      else s\<lparr>plc_next_o := True, plc_pc := PLC_Next\<rparr>)"

text \<open>The head of the copy loop; the size port is read again in every iteration.\<close>

definition plc_for_head :: "plc_ports \<Rightarrow> previous_layer_controller \<Rightarrow> previous_layer_controller res" where
  "plc_for_head p s =
     (if plc_i s < plc_layer_size_i p
      then rbind (check_int (plc_layer_size_i p - 1)) (\<lambda>n.
        Inr (s\<lparr>plc_next_o := plc_i s \<noteq> n, plc_wr_to_memory_from_mem_o := True, plc_pc := PLC_Copy\<rparr>))
      else Inr (s\<lparr>plc_next_o := False, plc_wr_to_memory_from_mem_o := False, plc_end_clone_o := True,
                  plc_pc := PLC_Done\<rparr>))"

definition plc_copy_memory :: "plc_ports \<Rightarrow> previous_layer_controller \<Rightarrow> previous_layer_controller res" where
  "plc_copy_memory p s =
     (case plc_pc s of
        PLC_Start \<Rightarrow> Inr (plc_head p s)
      | PLC_Idle \<Rightarrow> Inr (plc_head p s)
      | PLC_Next \<Rightarrow> plc_for_head p (s\<lparr>plc_i := 0\<rparr>)
      | PLC_Copy \<Rightarrow> rbind (check_int (plc_i s + 1)) (\<lambda>i. plc_for_head p (s\<lparr>plc_i := i\<rparr>))
      | PLC_Done \<Rightarrow> Inr (plc_head p s))"

definition plc_posedge :: "plc_ports \<Rightarrow> previous_layer_controller \<Rightarrow> previous_layer_controller res" where
  "plc_posedge p s = rbind (run_methods (rev (plc_methods p)) s) (plc_copy_memory p)"

section \<open>Properties\<close>

lemmas plc_posedge_unfold = plc_posedge_def plc_methods_def plc_clear_def plc_write_out_to_IO_def
  plc_copy_memory_def

text \<open>The two methods only delay their inputs by one clock.\<close>

lemma plc_posedge_delay:
  assumes "plc_posedge p s = Inr s'"
  shows "plc_clr_o s' = plc_clr_i p" and "plc_wr_to_out_o s' = plc_write_out_i p"
  using assms
  by (auto simp: plc_posedge_unfold plc_head_def plc_for_head_def rbind_eq_Inr check_int_Inr
      split: plc_pc.splits if_splits)

lemma plc_posedge_idle:
  assumes "plc_pc s \<in> {PLC_Start, PLC_Idle, PLC_Done}" and "\<not> plc_start_clone_i p"
  shows "plc_posedge p s = Inr (s\<lparr>plc_clr_o := plc_clr_i p, plc_wr_to_out_o := plc_write_out_i p,
    plc_end_clone_o := False, plc_pc := PLC_Idle\<rparr>)"
  using assms by (auto simp: plc_posedge_unfold plc_head_def)

lemma plc_posedge_start:
  assumes "plc_pc s \<in> {PLC_Start, PLC_Idle, PLC_Done}" and "plc_start_clone_i p"
  shows "plc_posedge p s = Inr (s\<lparr>plc_clr_o := plc_clr_i p, plc_wr_to_out_o := plc_write_out_i p,
    plc_next_o := True, plc_pc := PLC_Next\<rparr>)"
  using assms by (auto simp: plc_posedge_unfold plc_head_def)

text \<open>The iteration that handles element \<open>k\<close>, entered from the wait of the one before.\<close>

lemma plc_posedge_copy:
  assumes "(plc_pc s = PLC_Next \<and> k = 0) \<or> (plc_pc s = PLC_Copy \<and> plc_i s = k - 1)"
    and "0 \<le> k" and "k < plc_layer_size_i p" and "is_cint (plc_layer_size_i p)"
  shows "plc_posedge p s = Inr (s\<lparr>plc_clr_o := plc_clr_i p, plc_wr_to_out_o := plc_write_out_i p,
    plc_i := k, plc_next_o := k \<noteq> plc_layer_size_i p - 1, plc_wr_to_memory_from_mem_o := True,
    plc_pc := PLC_Copy\<rparr>)"
proof -
  have "is_cint k" and "is_cint (plc_layer_size_i p - 1)"
    using assms(2-4) by (auto simp: is_cint_def INT_MIN_def INT_MAX_def)
  with assms show ?thesis by (auto simp: plc_posedge_unfold plc_for_head_def)
qed

lemma plc_posedge_end:
  assumes "(plc_pc s = PLC_Next \<and> k = 0) \<or> (plc_pc s = PLC_Copy \<and> plc_i s = k - 1)"
    and "0 \<le> k" and "k \<ge> plc_layer_size_i p" and "is_cint k"
  shows "plc_posedge p s = Inr (s\<lparr>plc_clr_o := plc_clr_i p, plc_wr_to_out_o := plc_write_out_i p,
    plc_i := k, plc_next_o := False, plc_wr_to_memory_from_mem_o := False, plc_end_clone_o := True,
    plc_pc := PLC_Done\<rparr>)"
  using assms by (auto simp: plc_posedge_unfold plc_for_head_def)

section \<open>A copy\<close>

lemma plc_run_copy:
  assumes "\<forall>p \<in> set ps. plc_layer_size_i p = int m" and "is_cint (int m)" and "length ps + k = Suc m" and "ps \<noteq> []"
    and "(plc_pc s = PLC_Next \<and> k = 0) \<or> (plc_pc s = PLC_Copy \<and> plc_i s = int k - 1)" and "\<not> plc_end_clone_o s"
  shows "\<exists>t. clock_run plc_posedge ps s = Inr t \<and>
    (\<forall>i. i + k < m \<longrightarrow> plc_wr_to_memory_from_mem_o (t ! i) \<and> plc_next_o (t ! i) = (i + k + 1 < m) \<and> \<not> plc_end_clone_o (t ! i)) \<and>
    \<not> plc_wr_to_memory_from_mem_o (last t) \<and> \<not> plc_next_o (last t) \<and> plc_end_clone_o (last t)"
  using assms
proof (induction ps arbitrary: k s)
  case (Cons p ps)
  show ?case
  proof (cases "k < m")
    case True
    let ?s1 = "s\<lparr>plc_clr_o := plc_clr_i p, plc_wr_to_out_o := plc_write_out_i p, plc_i := int k,
      plc_next_o := int k \<noteq> plc_layer_size_i p - 1, plc_wr_to_memory_from_mem_o := True, plc_pc := PLC_Copy\<rparr>"
    have s1: "plc_posedge p s = Inr ?s1"
      by (rule plc_posedge_copy) (use Cons.prems True in auto)
    have "ps \<noteq> []" using Cons.prems(3) True by auto
    then obtain t where t: "clock_run plc_posedge ps ?s1 = Inr t"
      "\<forall>i. i + Suc k < m \<longrightarrow> plc_wr_to_memory_from_mem_o (t ! i) \<and> plc_next_o (t ! i) = (i + Suc k + 1 < m) \<and> \<not> plc_end_clone_o (t ! i)"
      "\<not> plc_wr_to_memory_from_mem_o (last t)" "\<not> plc_next_o (last t)" "plc_end_clone_o (last t)"
      using Cons.IH [of "Suc k" ?s1] Cons.prems by auto
    have "length t = length ps" by (rule length_clock_run [OF t(1)])
    with \<open>ps \<noteq> []\<close> have "t \<noteq> []" by auto
    have "plc_wr_to_memory_from_mem_o ((?s1 # t) ! i) \<and> plc_next_o ((?s1 # t) ! i) = (i + k + 1 < m) \<and> \<not> plc_end_clone_o ((?s1 # t) ! i)"
      if "i + k < m" for i
    proof (cases i)
      case 0
      have "int k \<noteq> int m - 1 \<longleftrightarrow> k + 1 < m" using True by auto
      then show ?thesis using 0 Cons.prems(1,6) by simp
    next
      case (Suc i')
      then show ?thesis using t(2) that by auto
    qed
    then show ?thesis using clock_run_Cons [OF s1 t(1)] t(3-5) \<open>t \<noteq> []\<close>
      by (intro exI [of _ "?s1 # t"]) simp
  next
    case False
    then have k: "k = m" "ps = []" using Cons.prems(3) by auto
    have "\<exists>s1. plc_posedge p s = Inr s1 \<and> \<not> plc_wr_to_memory_from_mem_o s1 \<and> \<not> plc_next_o s1 \<and> plc_end_clone_o s1"
      using plc_posedge_end [of s "int k" p] Cons.prems(1,2,5) k(1) by auto
    then show ?thesis using k by auto
  qed
qed simp

text \<open>One request copies the layer once.  From the edge that sees the request, with a layer of
  \<open>m\<close> neurons, the next \<open>m\<close> edges have the store strobe of the memory up, the read strobe of the
  result memory is up one edge ahead of it and at no other, and the edge after that announces
  the end with both strobes down.\<close>

theorem copy_controller_transfers_layer:
  assumes "plc_pc s \<in> {PLC_Start, PLC_Idle, PLC_Done}" and "plc_start_clone_i p" and "\<not> plc_end_clone_o s"
    and "\<forall>p \<in> set ps. plc_layer_size_i p = int m" and "is_cint (int m)" and "length ps = Suc m"
  shows "\<exists>s0 t. clock_run plc_posedge (p # ps) s = Inr (s0 # t) \<and> plc_next_o s0 \<and>
    (\<forall>i < m. plc_wr_to_memory_from_mem_o (t ! i) \<and> plc_next_o (t ! i) = (i + 1 < m) \<and> \<not> plc_end_clone_o (t ! i)) \<and>
    \<not> plc_wr_to_memory_from_mem_o (last t) \<and> \<not> plc_next_o (last t) \<and> plc_end_clone_o (last t)"
proof -
  let ?s0 = "s\<lparr>plc_clr_o := plc_clr_i p, plc_wr_to_out_o := plc_write_out_i p, plc_next_o := True, plc_pc := PLC_Next\<rparr>"
  have s0: "plc_posedge p s = Inr ?s0" by (rule plc_posedge_start [OF assms(1,2)])
  obtain t where t: "clock_run plc_posedge ps ?s0 = Inr t"
    "\<forall>i. i + 0 < m \<longrightarrow> plc_wr_to_memory_from_mem_o (t ! i) \<and> plc_next_o (t ! i) = (i + 0 + 1 < m) \<and> \<not> plc_end_clone_o (t ! i)"
    "\<not> plc_wr_to_memory_from_mem_o (last t)" "\<not> plc_next_o (last t)" "plc_end_clone_o (last t)"
    using plc_run_copy [OF assms(4,5), of 0 ?s0] assms(3,6) by (cases ps) auto
  show ?thesis using clock_run_Cons [OF s0 t(1)] t(2-5) by (intro exI [of _ ?s0] exI [of _ t]) simp
qed

definition plc_copy_port :: "bool \<Rightarrow> plc_ports" where
  "plc_copy_port start = \<lparr>plc_clr_i = False, plc_start_clone_i = start, plc_write_out_i = False, plc_layer_size_i = 3\<rparr>"

theorem copy_controller_transfers_layer_witness:
  "\<exists>s0 t. clock_run plc_posedge (plc_copy_port True # replicate 4 (plc_copy_port False)) previous_layer_controller_new = Inr (s0 # t) \<and>
    plc_next_o s0 \<and> plc_next_o (t ! 1) \<and> \<not> plc_next_o (t ! 2) \<and> plc_wr_to_memory_from_mem_o (t ! 2) \<and> plc_end_clone_o (last t)"
proof -
  let ?s = previous_layer_controller_new
  have "plc_pc ?s \<in> {PLC_Start, PLC_Idle, PLC_Done}" "plc_start_clone_i (plc_copy_port True)" "\<not> plc_end_clone_o ?s"
    "\<forall>p \<in> set (replicate 4 (plc_copy_port False)). plc_layer_size_i p = int 3" "is_cint (int 3)"
    "length (replicate 4 (plc_copy_port False)) = Suc 3"
    by (simp_all add: previous_layer_controller_new_def plc_copy_port_def is_cint_def INT_MIN_def INT_MAX_def)
  from copy_controller_transfers_layer [OF this] show ?thesis by fastforce
qed

end
