(* ===== verification/Previous_Layer_Size.thy ===== *)
theory Previous_Layer_Size
  imports Prelude
begin

text \<open>
  \<open>PREVIOUS_LAYER_SIZE\<close> (\<open>inc/previous_layer_size.h\<close>, \<open>src/previous_layer_size.cpp\<close>):
  a register holding the size of the layer before the one being computed.
\<close>

record pls_ports =
  pls_save_i :: bool
  pls_data_i :: int

record previous_layer_size =
  pls_layer_size :: int
  pls_data_o :: int

definition previous_layer_size_new :: previous_layer_size where
  "previous_layer_size_new = \<lparr>pls_layer_size = 0, pls_data_o = 0\<rparr>"

definition pls_save_new_element :: "pls_ports \<Rightarrow> previous_layer_size \<Rightarrow> previous_layer_size res" where
  "pls_save_new_element p s = (if pls_save_i p then Inr (s\<lparr>pls_layer_size := pls_data_i p\<rparr>) else Inr s)"

definition pls_pass_new_element :: "pls_ports \<Rightarrow> previous_layer_size \<Rightarrow> previous_layer_size res" where
  "pls_pass_new_element p s = Inr (s\<lparr>pls_data_o := pls_layer_size s\<rparr>)"

definition pls_methods :: "pls_ports \<Rightarrow> (previous_layer_size \<Rightarrow> previous_layer_size res) list" where
  "pls_methods p = [pls_save_new_element p, pls_pass_new_element p]"

definition pls_posedge :: "pls_ports \<Rightarrow> previous_layer_size \<Rightarrow> previous_layer_size res" where
  "pls_posedge p s = run_methods (rev (pls_methods p)) s"

text \<open>The register shows a saved size one edge after the edge that saved it.\<close>

lemma pls_posedge_eq:
  "pls_posedge p s = Inr \<lparr>pls_layer_size = (if pls_save_i p then pls_data_i p else pls_layer_size s),
     pls_data_o = pls_layer_size s\<rparr>"
  by (cases s) (simp add: pls_posedge_def pls_methods_def pls_save_new_element_def pls_pass_new_element_def)

end
