(* ===== verification/Generator.thy ===== *)
theory Generator
  imports Prelude
begin

text \<open>
  \<open>GENERATOR\<close> (\<open>inc/generator.h\<close>, \<open>src/generator.cpp\<close>): hands the neuron numbers of a
  layer out, one every two clocks, always to the processor with the shortest queue and only
  while that queue has room.
\<close>

section \<open>Module\<close>

record gen_ports =
  gen_layer_size_i :: int
  gen_generate_i :: bool
  gen_queue_size_i :: "int list"

datatype gen_states = GEN_IDLE | GEN_GENERATE

text \<open>The waits of \<open>generate\<close>: before the first activation, the wait of \<open>IDLE\<close>, and
  the first and the second wait of \<open>GENERATE\<close>.\<close>

datatype gen_pc = GEN_Start | GEN_Idle | GEN_Wait1 | GEN_Wait2

record generator =
  gen_state :: gen_states
  gen_layer_size :: int
  gen_pc :: gen_pc
  gen_counter :: int
  gen_end_generate_o :: bool
  gen_address_o :: int
  gen_data_o :: int
  gen_w_o :: bool

definition generator_new :: generator where
  "generator_new =
     \<lparr>gen_state = GEN_IDLE, gen_layer_size = 0, gen_pc = GEN_Start, gen_counter = 0,
      gen_end_generate_o = True, gen_address_o = 0, gen_data_o = 0, gen_w_o = False\<rparr>"

text \<open>
  \<open>find_min_index\<close>: the loop keeps the least value seen and its index, and moves only to
  a strictly smaller one.  The port vector has \<open>COUNT_PC_UNIT\<close> elements; reading
  element 0 of an empty one would be out of range.
\<close>

fun find_min_loop :: "int list \<Rightarrow> nat \<Rightarrow> int \<Rightarrow> int \<Rightarrow> int" where
  "find_min_loop [] i min_idx min_val = min_idx"
| "find_min_loop (v # vs) i min_idx min_val =
     (if v < min_val then find_min_loop vs (i + 1) (int i) v
      else find_min_loop vs (i + 1) min_idx min_val)"

definition find_min_index :: "int list \<Rightarrow> int res" where
  "find_min_index qs = (case qs of [] \<Rightarrow> Inl OutOfBounds | q # qs' \<Rightarrow> Inr (find_min_loop qs' 1 0 q))"

text \<open>The switch at the head of the endless loop.\<close>

definition gen_switch :: "gen_ports \<Rightarrow> generator \<Rightarrow> generator" where
  "gen_switch p s =
     (case gen_state s of
        GEN_IDLE \<Rightarrow>
          (let s1 = s\<lparr>gen_end_generate_o := True, gen_address_o := 0, gen_data_o := 0, gen_w_o := False,
                      gen_counter := 0\<rparr>
           in if gen_generate_i p
              then s1\<lparr>gen_end_generate_o := False, gen_state := GEN_GENERATE, gen_pc := GEN_Idle\<rparr>
              else s1\<lparr>gen_pc := GEN_Idle\<rparr>)
      | GEN_GENERATE \<Rightarrow> s\<lparr>gen_pc := GEN_Wait1\<rparr>)"

text \<open>The code between the two waits of \<open>GENERATE\<close>.\<close>

definition gen_emit :: "gen_ports \<Rightarrow> generator \<Rightarrow> generator res" where
  "gen_emit p s =
     rbind (find_min_index (gen_queue_size_i p)) (\<lambda>m.
       if gen_queue_size_i p ! nat m < int QUEUE_SIZE
       then rbind (check_int (gen_counter s + 1)) (\<lambda>c.
         Inr (s\<lparr>gen_data_o := gen_counter s, gen_address_o := m, gen_w_o := True, gen_counter := c,
                gen_state := (if c \<ge> gen_layer_size_i p then GEN_IDLE else gen_state s),
                gen_pc := GEN_Wait2\<rparr>))
       else Inr (s\<lparr>gen_pc := GEN_Wait2\<rparr>))"

definition gen_generate :: "gen_ports \<Rightarrow> generator \<Rightarrow> generator res" where
  "gen_generate p s =
     (case gen_pc s of
        GEN_Start \<Rightarrow> Inr (gen_switch p (s\<lparr>gen_counter := 0\<rparr>))
      | GEN_Idle \<Rightarrow> Inr (gen_switch p s)
      | GEN_Wait1 \<Rightarrow> gen_emit p s
      | GEN_Wait2 \<Rightarrow> Inr (gen_switch p (s\<lparr>gen_w_o := False\<rparr>)))"

section \<open>The shortest queue\<close>

lemma find_min_loop_spec:
  assumes "0 \<le> min_idx" and "nat min_idx < length pre" and "pre ! nat min_idx = min_val"
    and "\<forall>j < length pre. min_val \<le> pre ! j" and "\<forall>j < nat min_idx. min_val < pre ! j"
  shows "let m = find_min_loop vs (length pre) min_idx min_val; qs = pre @ vs in
    0 \<le> m \<and> nat m < length qs \<and> (\<forall>j < length qs. qs ! nat m \<le> qs ! j) \<and> (\<forall>j < nat m. qs ! nat m < qs ! j)"
  using assms
proof (induction vs arbitrary: pre min_idx min_val)
  case Nil
  then show ?case by (auto simp: Let_def)
next
  case (Cons v vs)
  show ?case
  proof (cases "v < min_val")
    case True
    have a: "0 \<le> int (length pre)" by simp
    have b: "nat (int (length pre)) < length (pre @ [v])" by simp
    have c: "(pre @ [v]) ! nat (int (length pre)) = v" by simp
    have d: "\<forall>j < length (pre @ [v]). v \<le> (pre @ [v]) ! j"
      using Cons.prems(4) True by (auto simp: nth_append less_Suc_eq)
    have e: "\<forall>j < nat (int (length pre)). v < (pre @ [v]) ! j"
      using Cons.prems(4) True by (auto simp: nth_append)
    show ?thesis using Cons.IH [OF a b c d e] True by simp
  next
    case False
    have b: "nat min_idx < length (pre @ [v])" using Cons.prems(2) by simp
    have c: "(pre @ [v]) ! nat min_idx = min_val" using Cons.prems(2,3) by (simp add: nth_append)
    have d: "\<forall>j < length (pre @ [v]). min_val \<le> (pre @ [v]) ! j"
      using Cons.prems(4) False by (auto simp: nth_append less_Suc_eq)
    have e: "\<forall>j < nat min_idx. min_val < (pre @ [v]) ! j"
      using Cons.prems(2,5) by (auto simp: nth_append)
    show ?thesis using Cons.IH [OF Cons.prems(1) b c d e] False by simp
  qed
qed

text \<open>The result is the first index of a least element.\<close>

lemma find_min_index_spec:
  assumes "qs \<noteq> []"
  obtains m where "find_min_index qs = Inr (int m)" and "m < length qs"
    and "\<forall>j < length qs. qs ! m \<le> qs ! j" and "\<forall>j < m. qs ! m < qs ! j"
proof -
  obtain q qs' where qs: "qs = q # qs'" using assms by (cases qs) auto
  let ?m = "find_min_loop qs' 1 0 q"
  have "0 \<le> ?m \<and> nat ?m < length qs \<and> (\<forall>j < length qs. qs ! nat ?m \<le> qs ! j) \<and> (\<forall>j < nat ?m. qs ! nat ?m < qs ! j)"
    using find_min_loop_spec [of 0 "[q]" q qs'] by (simp add: qs Let_def)
  then show ?thesis by (intro that [of "nat ?m"]) (auto simp: qs find_min_index_def)
qed

section \<open>One clock edge of a generation\<close>

text \<open>The generator at work on a layer of \<open>m\<close> neurons, and after it.\<close>

definition gen_fine :: "nat \<Rightarrow> generator \<Rightarrow> bool" where
  "gen_fine m g \<longleftrightarrow>
     (gen_w_o g \<longrightarrow> gen_pc g = GEN_Wait2 \<and> 0 \<le> gen_data_o g \<and> gen_data_o g < int m) \<and> 0 \<le> gen_counter g \<and>
     ((gen_state g = GEN_GENERATE \<and> gen_pc g = GEN_Wait1 \<and> gen_counter g < int m \<and> \<not> gen_end_generate_o g) \<or>
      (gen_pc g = GEN_Wait2 \<and> \<not> gen_end_generate_o g \<and>
       (if gen_state g = GEN_GENERATE then gen_counter g < int m else gen_counter g = int m)) \<or>
      (gen_state g = GEN_IDLE \<and> gen_pc g = GEN_Idle \<and> gen_end_generate_o g \<and> gen_address_o g = 0 \<and>
       gen_data_o g = 0 \<and> gen_counter g = 0))"

text \<open>The neurons handed out so far, and the edges to the next decision.\<close>

definition gen_made :: "nat \<Rightarrow> generator \<Rightarrow> nat" where
  "gen_made m g = (if gen_pc g = GEN_Idle then m else nat (gen_counter g))"

definition gen_phase :: "generator \<Rightarrow> nat" where
  "gen_phase g = (case gen_pc g of GEN_Wait1 \<Rightarrow> 1 | GEN_Wait2 \<Rightarrow> 2 | _ \<Rightarrow> 0)"

lemma find_min_room:
  assumes "qs \<noteq> []"
  obtains (room) k where "find_min_index qs = Inr (int k)" and "k < length qs" and "qs ! k < c"
  | (full) k where "find_min_index qs = Inr (int k)" and "k < length qs" and "\<forall>j < length qs. c \<le> qs ! j"
proof -
  obtain k where k: "find_min_index qs = Inr (int k)" "k < length qs" "\<forall>j < length qs. qs ! k \<le> qs ! j"
    using find_min_index_spec [OF assms] by blast
  show thesis
  proof (cases "qs ! k < c")
    case True
    with k room show ?thesis by blast
  next
    case False
    with k(3) have "\<forall>j < length qs. c \<le> qs ! j" by force
    with k full show ?thesis by blast
  qed
qed

definition gen_stepped :: "nat \<Rightarrow> gen_ports \<Rightarrow> generator \<Rightarrow> generator \<Rightarrow> bool" where
  "gen_stepped m p g g' \<longleftrightarrow>
     gen_generate p g = Inr g' \<and> gen_fine m g' \<and>
     (if gen_w_o g'
      then gen_pc g = GEN_Wait1 \<and> gen_made m g < m \<and> gen_data_o g' = int (gen_made m g) \<and> gen_made m g' = Suc (gen_made m g) \<and>
        (\<exists>k < length (gen_queue_size_i p). gen_address_o g' = int k \<and> gen_queue_size_i p ! k < int QUEUE_SIZE)
      else gen_made m g' = gen_made m g \<and>
        (gen_pc g = GEN_Wait1 \<longrightarrow> (\<forall>k < length (gen_queue_size_i p). int QUEUE_SIZE \<le> gen_queue_size_i p ! k))) \<and>
     (gen_pc g = GEN_Wait1 \<longrightarrow> gen_phase g' = 2) \<and> (gen_pc g = GEN_Wait2 \<longrightarrow> gen_phase g' \<le> 1) \<and>
     (gen_pc g = GEN_Idle \<longrightarrow> gen_pc g' = GEN_Idle)"

lemma gen_step:
  assumes "gen_fine m g" and "gen_layer_size_i p = int m" and "\<not> gen_generate_i p" and "gen_queue_size_i p \<noteq> []"
    and "int m < INT_MAX"
  shows "\<exists>g'. gen_stepped m p g g'"
proof (cases "gen_pc g")
  case GEN_Start
  then show ?thesis using assms(1) by (simp add: gen_fine_def)
next
  case GEN_Idle
  then have "gen_generate p g = Inr g"
    using assms(1,3) by (cases g) (auto simp: gen_fine_def gen_generate_def gen_switch_def Let_def)
  then show ?thesis using GEN_Idle assms(1)
    by (intro exI [of _ g]) (auto simp: gen_stepped_def gen_fine_def)
next
  case GEN_Wait2
  show ?thesis
  proof (cases "gen_state g")
    case GEN_IDLE
    then have "gen_generate p g = Inr (g\<lparr>gen_end_generate_o := True, gen_address_o := 0, gen_data_o := 0, gen_w_o := False,
        gen_counter := 0, gen_pc := GEN_Idle\<rparr>)"
      using GEN_Wait2 assms(3) by (simp add: gen_generate_def gen_switch_def Let_def)
    then show ?thesis using GEN_Wait2 GEN_IDLE assms(1)
      by (auto simp: gen_stepped_def gen_fine_def gen_made_def gen_phase_def)
  next
    case GEN_GENERATE
    then have "gen_generate p g = Inr (g\<lparr>gen_w_o := False, gen_pc := GEN_Wait1\<rparr>)"
      using GEN_Wait2 by (simp add: gen_generate_def gen_switch_def)
    then show ?thesis using GEN_Wait2 GEN_GENERATE assms(1)
      by (auto simp: gen_stepped_def gen_fine_def gen_made_def gen_phase_def)
  qed
next
  case GEN_Wait1
  then have g: "gen_state g = GEN_GENERATE" "0 \<le> gen_counter g" "gen_counter g < int m" "\<not> gen_w_o g" "\<not> gen_end_generate_o g"
    using assms(1) by (auto simp: gen_fine_def)
  have "is_cint (gen_counter g + 1)" using g(2,3) assms(5) by (auto simp: is_cint_def INT_MIN_def)
  show ?thesis using assms(4)
  proof (cases rule: find_min_room [where c = "int QUEUE_SIZE"])
    case (room k)
    let ?g = "g\<lparr>gen_data_o := gen_counter g, gen_address_o := int k, gen_w_o := True, gen_counter := gen_counter g + 1,
      gen_state := (if gen_counter g + 1 \<ge> gen_layer_size_i p then GEN_IDLE else gen_state g), gen_pc := GEN_Wait2\<rparr>"
    have "gen_generate p g = Inr ?g"
      using GEN_Wait1 room \<open>is_cint (gen_counter g + 1)\<close> by (simp add: gen_generate_def gen_emit_def)
    then show ?thesis using GEN_Wait1 room g assms(2)
      by (intro exI [of _ ?g]) (auto simp: gen_stepped_def gen_fine_def gen_made_def gen_phase_def nat_add_distrib)
  next
    case (full k)
    then have "gen_generate p g = Inr (g\<lparr>gen_pc := GEN_Wait2\<rparr>)"
      using GEN_Wait1 by (auto simp: gen_generate_def gen_emit_def not_less)
    then show ?thesis using GEN_Wait1 full g
      by (intro exI [of _ "g\<lparr>gen_pc := GEN_Wait2\<rparr>"]) (auto simp: gen_stepped_def gen_fine_def gen_made_def gen_phase_def)
  qed
qed

section \<open>A whole layer\<close>

definition gen_layer_ports :: "nat \<Rightarrow> gen_ports \<Rightarrow> bool" where
  "gen_layer_ports m p \<longleftrightarrow> gen_layer_size_i p = int m \<and> \<not> gen_generate_i p \<and> gen_queue_size_i p \<noteq> []"

text \<open>The neurons handed out during a run, with the queue each was given to.\<close>

definition gen_handed :: "generator list \<Rightarrow> int list" where
  "gen_handed t = map gen_data_o (filter gen_w_o t)"

lemma gen_run_made:
  assumes "\<forall>p \<in> set ps. gen_layer_ports m p" and "gen_fine m g" and "int m < INT_MAX"
  shows "\<exists>t. clock_run gen_generate ps g = Inr t \<and> gen_fine m (last (g # t)) \<and>
    gen_handed t = map int [gen_made m g..<gen_made m (last (g # t))] \<and> gen_made m g \<le> gen_made m (last (g # t)) \<and>
    (\<forall>k < length ps. gen_w_o (t ! k) \<longrightarrow> (\<exists>j < length (gen_queue_size_i (ps ! k)). gen_address_o (t ! k) = int j \<and>
       gen_queue_size_i (ps ! k) ! j < int QUEUE_SIZE))"
  using assms(1,2)
proof (induction ps arbitrary: g)
  case (Cons p ps)
  obtain g1 where g1: "gen_stepped m p g g1"
    using gen_step [OF Cons.prems(2), of p] Cons.prems(1) assms(3) by (auto simp: gen_layer_ports_def)
  obtain t where t: "clock_run gen_generate ps g1 = Inr t" "gen_fine m (last (g1 # t))"
    "gen_handed t = map int [gen_made m g1..<gen_made m (last (g1 # t))]" "gen_made m g1 \<le> gen_made m (last (g1 # t))"
    "\<forall>k < length ps. gen_w_o (t ! k) \<longrightarrow> (\<exists>j < length (gen_queue_size_i (ps ! k)). gen_address_o (t ! k) = int j \<and>
       gen_queue_size_i (ps ! k) ! j < int QUEUE_SIZE)"
    using Cons.IH [of g1] Cons.prems(1) g1 by (auto simp: gen_stepped_def)
  have run: "clock_run gen_generate (p # ps) g = Inr (g1 # t)"
    by (rule clock_run_Cons [OF _ t(1)]) (use g1 in \<open>simp add: gen_stepped_def\<close>)
  have h: "gen_handed (g1 # t) = (if gen_w_o g1 then [gen_data_o g1] else []) @ gen_handed t" by (simp add: gen_handed_def)
  have "gen_handed (g1 # t) = map int [gen_made m g..<gen_made m (last (g1 # t))] \<and> gen_made m g \<le> gen_made m (last (g1 # t))"
  proof (cases "gen_w_o g1")
    case True
    then have "gen_made m g1 = Suc (gen_made m g)" "gen_data_o g1 = int (gen_made m g)" using g1 by (auto simp: gen_stepped_def)
    then show ?thesis using h t(3,4) True by (simp add: upt_conv_Cons del: last.simps)
  next
    case False
    then have "gen_made m g1 = gen_made m g" using g1 by (auto simp: gen_stepped_def)
    then show ?thesis using h t(3,4) False by (simp del: last.simps)
  qed
  moreover have "\<exists>j < length (gen_queue_size_i ((p # ps) ! k)). gen_address_o ((g1 # t) ! k) = int j \<and>
       gen_queue_size_i ((p # ps) ! k) ! j < int QUEUE_SIZE" if "k < length (p # ps)" "gen_w_o ((g1 # t) ! k)" for k
    using that t(5) g1 by (cases k) (auto simp: gen_stepped_def split: if_splits)
  ultimately show ?case using run t(2) by (intro exI [of _ "g1 # t"]) simp
qed (simp add: gen_handed_def)

text \<open>With room in some queue at every decision, every second edge hands a neuron out.\<close>

definition gen_room :: "gen_ports \<Rightarrow> bool" where
  "gen_room p \<longleftrightarrow> (\<exists>j < length (gen_queue_size_i p). gen_queue_size_i p ! j < int QUEUE_SIZE)"

definition gen_left :: "nat \<Rightarrow> generator \<Rightarrow> nat" where
  "gen_left m g = 2 * (m - gen_made m g) + (if gen_pc g = GEN_Wait2 then 1 else 0)"

lemma gen_step_room:
  assumes "gen_stepped m p g g'" and "gen_room p" and "gen_fine m g"
  shows "gen_left m g' \<le> gen_left m g - 1"
proof (cases "gen_pc g")
  case GEN_Wait1
  have "gen_w_o g'"
  proof (rule ccontr)
    assume "\<not> gen_w_o g'"
    with assms(1) GEN_Wait1 have "\<forall>k < length (gen_queue_size_i p). int QUEUE_SIZE \<le> gen_queue_size_i p ! k"
      by (simp add: gen_stepped_def)
    with assms(2) show False by (auto simp: gen_room_def)
  qed
  then show ?thesis using assms(1) GEN_Wait1 by (auto simp: gen_stepped_def gen_left_def)
next
  case GEN_Wait2
  then have "gen_pc g' \<noteq> GEN_Wait2" "gen_made m g' = gen_made m g"
    using assms(1) by (auto simp: gen_stepped_def gen_phase_def split: if_splits)
  then show ?thesis using GEN_Wait2 by (simp add: gen_left_def)
next
  case GEN_Idle
  then show ?thesis using assms(1,3) by (auto simp: gen_stepped_def gen_left_def gen_made_def split: if_splits)
next
  case GEN_Start
  then show ?thesis using assms(3) by (auto simp: gen_fine_def split: if_splits)
qed

lemma gen_run_room:
  assumes "\<forall>p \<in> set ps. gen_layer_ports m p \<and> gen_room p" and "gen_fine m g" and "int m < INT_MAX"
    and "clock_run gen_generate ps g = Inr t"
  shows "gen_left m (last (g # t)) \<le> gen_left m g - length ps"
  using assms(1,2,4)
proof (induction ps arbitrary: g t)
  case (Cons p ps)
  obtain g1 where g1: "gen_stepped m p g g1"
    using gen_step [OF Cons.prems(2), of p] Cons.prems(1) assms(3) by (auto simp: gen_layer_ports_def)
  then obtain u where u: "clock_run gen_generate ps g1 = Inr u" "t = g1 # u"
    using Cons.prems(3) by (auto simp: gen_stepped_def rbind_eq_Inr)
  have "gen_left m g1 \<le> gen_left m g - 1" using gen_step_room [OF g1 _ Cons.prems(2)] Cons.prems(1) by simp
  moreover have "gen_left m (last (g1 # u)) \<le> gen_left m g1 - length ps"
    using Cons.IH [OF _ _ u(1)] Cons.prems(1) g1 by (simp add: gen_stepped_def)
  ultimately show ?case unfolding u(2) by simp
qed simp

text \<open>C8: started on a layer of \<open>m\<close> neurons, the generator hands out neuron numbers in increasing
  order from 0, none twice and none left out, each to a queue that had room at that edge,
  whatever the processors do; and if at every edge some queue has room, then \<open>2 m + 1\<close> edges
  after the start all \<open>m\<close> have been handed out.\<close>

theorem generator_hands_out_layer:
  assumes "gen_state g = GEN_GENERATE" and "gen_pc g = GEN_Wait1" and "gen_counter g = 0" and "\<not> gen_w_o g"
    and "\<not> gen_end_generate_o g" and "0 < m" and "int m < INT_MAX" and "\<forall>p \<in> set ps. gen_layer_ports m p"
  shows "\<exists>t n. clock_run gen_generate ps g = Inr t \<and> n \<le> m \<and> gen_handed t = map int [0..<n] \<and>
    (\<forall>k < length ps. gen_w_o (t ! k) \<longrightarrow> (\<exists>j < length (gen_queue_size_i (ps ! k)). gen_address_o (t ! k) = int j \<and>
       gen_queue_size_i (ps ! k) ! j < int QUEUE_SIZE)) \<and>
    (2 * m + 1 \<le> length ps \<longrightarrow> (\<forall>p \<in> set ps. gen_room p) \<longrightarrow> n = m)"
proof -
  have fine: "gen_fine m g" using assms(1-6) by (simp add: gen_fine_def)
  have zero: "gen_made m g = 0" using assms(2,3) by (simp add: gen_made_def)
  obtain t where t: "clock_run gen_generate ps g = Inr t" "gen_fine m (last (g # t))"
    "gen_handed t = map int [0..<gen_made m (last (g # t))]"
    "\<forall>k < length ps. gen_w_o (t ! k) \<longrightarrow> (\<exists>j < length (gen_queue_size_i (ps ! k)). gen_address_o (t ! k) = int j \<and>
       gen_queue_size_i (ps ! k) ! j < int QUEUE_SIZE)"
    using gen_run_made [OF assms(8) fine assms(7)] zero by auto
  have le: "gen_made m (last (g # t)) \<le> m" using t(2) unfolding gen_fine_def gen_made_def by (auto split: if_splits)
  moreover have "gen_made m (last (g # t)) = m" if "2 * m + 1 \<le> length ps" "\<forall>p \<in> set ps. gen_room p"
  proof -
    have "gen_left m (last (g # t)) \<le> gen_left m g - length ps"
      by (rule gen_run_room [OF _ fine assms(7) t(1)]) (use assms(8) that(2) in blast)
    also have "\<dots> = 0" using that(1) zero assms(2) by (simp add: gen_left_def)
    finally show ?thesis using le unfolding gen_left_def by simp
  qed
  ultimately show ?thesis using t by blast
qed

definition gen_example_port :: gen_ports where
  "gen_example_port = \<lparr>gen_layer_size_i = 3, gen_generate_i = False, gen_queue_size_i = [5, 2, 1, 1, 5, 5, 5]\<rparr>"

theorem generator_hands_out_layer_witness:
  "\<exists>t. clock_run gen_generate (replicate 7 gen_example_port)
      (generator_new\<lparr>gen_state := GEN_GENERATE, gen_pc := GEN_Wait1, gen_end_generate_o := False\<rparr>) = Inr t \<and>
    gen_handed t = [0, 1, 2]"
proof -
  let ?g = "generator_new\<lparr>gen_state := GEN_GENERATE, gen_pc := GEN_Wait1, gen_end_generate_o := False\<rparr>"
  have "gen_state ?g = GEN_GENERATE" "gen_pc ?g = GEN_Wait1" "gen_counter ?g = 0" "\<not> gen_w_o ?g" "\<not> gen_end_generate_o ?g"
    "(0::nat) < 3" "int 3 < INT_MAX" "\<forall>p \<in> set (replicate 7 gen_example_port). gen_layer_ports 3 p"
    by (simp_all add: generator_new_def INT_MAX_def gen_layer_ports_def gen_example_port_def)
  from generator_hands_out_layer [OF this] obtain t n where "clock_run gen_generate (replicate 7 gen_example_port) ?g = Inr t"
    "gen_handed t = map int [0..<n]" "(\<forall>p \<in> set (replicate 7 gen_example_port). gen_room p) \<longrightarrow> n = 3" by auto
  moreover have "\<forall>p \<in> set (replicate 7 gen_example_port). gen_room p"
    by (auto simp: gen_room_def gen_example_port_def QUEUE_SIZE_def intro: exI [of _ 2])
  ultimately show ?thesis by (auto simp: upt_rec)
qed

text \<open>\<open>find_min_index\<close> returns the first index of a least queue size, so among equally short
  queues the processor with the lowest number gets the neuron.\<close>

theorem find_min_index_first_least:
  assumes "qs \<noteq> []"
  shows "\<exists>m. find_min_index qs = Inr (int m) \<and> m < length qs \<and> (\<forall>j < length qs. qs ! m \<le> qs ! j) \<and> (\<forall>j < m. qs ! m < qs ! j)"
  using find_min_index_spec [OF assms] by blast

theorem find_min_index_first_least_witness:
  "\<exists>m. find_min_index [3, 1, 2, 1] = Inr (int m) \<and> m < 4"
proof -
  have "[3, 1, 2, 1 :: int] \<noteq> []" by simp
  from find_min_index_first_least [OF this] show ?thesis by auto
qed

end
