(* ===== verification/Processor.thy ===== *)
theory Processor
  imports Float32
begin

text \<open>
  \<open>PROCESSOR\<close> (\<open>inc/processor.h\<close>, \<open>src/processor.cpp\<close>): takes neuron numbers from its
  queue, fetches the weights and the inputs one pair every two clocks, accumulates, applies
  the activation function, and writes the result.  \<open>std::exp\<close> on \<open>float\<close> is a parameter
  \<open>expf\<close>: the C++ standard does not fix its rounding.
\<close>

section \<open>Module\<close>

record proc_ports =
  proc_queue_address_i :: int
  proc_queue_data_i :: int
  proc_queue_w_i :: bool
  proc_start_weight_i :: int
  proc_prevmem_data_i :: float32
  proc_weight_data_i :: float32
  proc_prevmem_size_i :: int

text \<open>The waits of \<open>process\<close>: before the first activation, while the queue is empty, the
  two waits after an address, the two waits after the address of the bias, and the wait
  after the result.\<close>

datatype proc_pc = PROC_Start | PROC_Empty | PROC_Fetch1 | PROC_Fetch2 | PROC_Bias1 | PROC_Bias2 | PROC_Write

record processor =
  proc_address :: int
  proc_is_working :: bool
  proc_queue :: "int list"
  proc_count_neurons_calc :: int
  proc_pc :: proc_pc
  proc_sum_reg :: float32
  proc_number_of_nn :: int
  proc_i :: int
  proc_queue_size_o :: int
  proc_contr_empty_o :: bool
  proc_resmem_addr_o :: int
  proc_resmem_data_o :: float32
  proc_resmem_w_o :: bool
  proc_prevmem_addr_o :: int
  proc_weight_addr_o :: int

definition processor_new :: "int \<Rightarrow> processor" where
  "processor_new a =
     \<lparr>proc_address = a, proc_is_working = False, proc_queue = [], proc_count_neurons_calc = 0,
      proc_pc = PROC_Start, proc_sum_reg = float_zero, proc_number_of_nn = 0, proc_i = 0,
      proc_queue_size_o = 0, proc_contr_empty_o = False, proc_resmem_addr_o = 0,
      proc_resmem_data_o = float_zero, proc_resmem_w_o = False, proc_prevmem_addr_o = 0,
      proc_weight_addr_o = 0\<rparr>"

definition pop_front :: "'a list \<Rightarrow> ('a \<times> 'a list) res" where
  "pop_front v = (case v of [] \<Rightarrow> Inl OutOfRange | x # xs \<Rightarrow> Inr (x, xs))"

definition sigmoid :: "(float32 \<Rightarrow> float32) \<Rightarrow> float32 \<Rightarrow> float32" where
  "sigmoid expf x =
     (if float_ge x float_zero
      then let z = expf (float_neg x) in float_div float_one (float_add float_one z)
      else let z = expf x in float_div z (float_add float_one z))"

definition proc_add_to_queue :: "proc_ports \<Rightarrow> processor \<Rightarrow> processor res" where
  "proc_add_to_queue p s =
     (let s1 = (if proc_queue_address_i p = proc_address s \<and> proc_queue_w_i p
                   \<and> length (proc_queue s) < QUEUE_SIZE
                then s\<lparr>proc_queue := proc_queue s @ [proc_queue_data_i p], proc_contr_empty_o := False\<rparr>
                else s);
          s2 = s1\<lparr>proc_queue_size_o := int (length (proc_queue s1))\<rparr>
      in Inr (if length (proc_queue s2) = 0 then s2\<lparr>proc_contr_empty_o := \<not> proc_is_working s2\<rparr> else s2))"

definition proc_methods :: "proc_ports \<Rightarrow> (processor \<Rightarrow> processor res) list" where
  "proc_methods p = [proc_add_to_queue p]"

text \<open>The address of weight \<open>i\<close> of the current neuron, with every intermediate result an
  \<open>int\<close>.\<close>

definition weight_address :: "proc_ports \<Rightarrow> int \<Rightarrow> int \<Rightarrow> int res" where
  "weight_address p n i =
     rbind (check_int (proc_prevmem_size_i p + 1)) (\<lambda>a.
     rbind (check_int (a * n)) (\<lambda>b.
     rbind (check_int (proc_start_weight_i p + b)) (\<lambda>c.
     check_int (c + i))))"

text \<open>The head of the loop over the inputs, up to the next wait.\<close>

definition proc_for_head :: "proc_ports \<Rightarrow> processor \<Rightarrow> processor res" where
  "proc_for_head p s =
     (if proc_i s < proc_prevmem_size_i p
      then rbind (weight_address p (proc_number_of_nn s) (proc_i s)) (\<lambda>a.
        Inr (s\<lparr>proc_weight_addr_o := a, proc_prevmem_addr_o := proc_i s, proc_pc := PROC_Fetch1\<rparr>))
      else rbind (weight_address p (proc_number_of_nn s) (proc_prevmem_size_i p)) (\<lambda>a.
        Inr (s\<lparr>proc_weight_addr_o := a, proc_pc := PROC_Bias1\<rparr>)))"

text \<open>The head of the endless loop: wait for a neuron, or start the first one queued.\<close>

definition proc_head :: "proc_ports \<Rightarrow> processor \<Rightarrow> processor res" where
  "proc_head p s =
     (if length (proc_queue s) = 0 then Inr (s\<lparr>proc_pc := PROC_Empty\<rparr>)
      else rbind (pop_front (proc_queue s)) (\<lambda>(n, q).
        proc_for_head p (s\<lparr>proc_is_working := True, proc_sum_reg := float_zero,
                           proc_number_of_nn := n, proc_queue := q, proc_i := 0\<rparr>)))"

definition proc_process :: "(float32 \<Rightarrow> float32) \<Rightarrow> proc_ports \<Rightarrow> processor \<Rightarrow> processor res" where
  "proc_process expf p s =
     (case proc_pc s of
        PROC_Start \<Rightarrow> proc_head p s
      | PROC_Empty \<Rightarrow> proc_head p s
      | PROC_Fetch1 \<Rightarrow> Inr (s\<lparr>proc_pc := PROC_Fetch2\<rparr>)
      | PROC_Fetch2 \<Rightarrow>
          rbind (check_int (proc_i s + 1)) (\<lambda>i.
            proc_for_head p (s\<lparr>proc_sum_reg := float_add (proc_sum_reg s)
                                  (float_mul (proc_prevmem_data_i p) (proc_weight_data_i p)),
                               proc_i := i\<rparr>))
      | PROC_Bias1 \<Rightarrow> Inr (s\<lparr>proc_pc := PROC_Bias2\<rparr>)
      | PROC_Bias2 \<Rightarrow>
          (let sum = float_add (proc_sum_reg s) (proc_weight_data_i p)
           in Inr (s\<lparr>proc_sum_reg := sum, proc_resmem_addr_o := proc_number_of_nn s,
                     proc_resmem_data_o := sigmoid expf sum, proc_resmem_w_o := True,
                     proc_pc := PROC_Write\<rparr>))
      | PROC_Write \<Rightarrow>
          rbind (check_int (proc_count_neurons_calc s + 1)) (\<lambda>c.
            proc_head p (s\<lparr>proc_resmem_w_o := False, proc_is_working := False,
                           proc_count_neurons_calc := c\<rparr>)))"

definition proc_posedge :: "(float32 \<Rightarrow> float32) \<Rightarrow> proc_ports \<Rightarrow> processor \<Rightarrow> processor res" where
  "proc_posedge expf p s = rbind (run_methods (rev (proc_methods p)) s) (proc_process expf p)"

section \<open>The activation function\<close>

text \<open>What the code relies on of \<open>std::exp\<close>: on arguments that are not positive it returns
  a float between 0 and 1, and NaN on NaN.\<close>

definition expf_contract :: "(float32 \<Rightarrow> float32) \<Rightarrow> bool" where
  "expf_contract expf \<longleftrightarrow> expf FNaN = FNaN \<and>
     (\<forall>x. wf_float x \<and> float_ge float_zero x \<longrightarrow>
        (\<exists>n. expf x = FNum False n \<and> n \<le> FLOAT_ONE \<and> representable n))"

lemma float_ge_zero_neg: "float_ge x float_zero \<Longrightarrow> float_ge float_zero (float_neg x)"
  by (cases x) (auto simp: float_zero_def signed_def)

lemma float_not_ge_zero: "\<not> float_ge x float_zero \<Longrightarrow> x \<noteq> FNaN \<Longrightarrow> float_ge float_zero x"
  by (cases x) (auto simp: float_zero_def signed_def)

text \<open>The activation function maps every number, infinities included, into the unit
  interval.\<close>

lemma sigmoid_unit_range:
  assumes "expf_contract expf" and "wf_float x" and "x \<noteq> FNaN"
  shows "unit_float (sigmoid expf x)"
proof (cases "float_ge x float_zero")
  case True
  with assms obtain z where z: "expf (float_neg x) = FNum False z" "z \<le> FLOAT_ONE" "representable z"
    unfolding expf_contract_def using float_ge_zero_neg wf_float_neg by blast
  obtain n where n: "float_add float_one (FNum False z) = FNum False n" "FLOAT_ONE \<le> n"
    using float_one_plus_unit [OF z(2,3)] by blast
  have pos: "0 < n" using n(2) FLOAT_ONE_pos by linarith
  show ?thesis
    using True z(1) n(1) unit_float_div [OF n(2) pos]
    by (simp add: sigmoid_def float_one_def del: float_add.simps float_div.simps)
next
  case False
  with assms obtain z where z: "expf x = FNum False z" "z \<le> FLOAT_ONE" "representable z"
    unfolding expf_contract_def using float_not_ge_zero by blast
  obtain n where n: "float_add float_one (FNum False z) = FNum False n" "FLOAT_ONE \<le> n" "z \<le> n"
    using float_one_plus_unit [OF z(2,3)] by blast
  have pos: "0 < n" using n(2) FLOAT_ONE_pos by linarith
  show ?thesis
    using False z(1) n(1) unit_float_div [OF n(3) pos]
    by (simp add: sigmoid_def del: float_add.simps float_div.simps)
qed

section \<open>The value of a neuron\<close>

text \<open>The reference: the weighted sum of the first \<open>k\<close> inputs in the order of the code, and
  the neuron over \<open>n\<close> inputs whose last weight is the bias.\<close>

definition partial_sum :: "(nat \<Rightarrow> float32) \<Rightarrow> (nat \<Rightarrow> float32) \<Rightarrow> nat \<Rightarrow> float32" where
  "partial_sum x w k = fold (\<lambda>i acc. float_add acc (float_mul (x i) (w i))) [0..<k] float_zero"

definition neuron :: "(float32 \<Rightarrow> float32) \<Rightarrow> nat \<Rightarrow> (nat \<Rightarrow> float32) \<Rightarrow> (nat \<Rightarrow> float32) \<Rightarrow> float32" where
  "neuron expf n x w = sigmoid expf (float_add (partial_sum x w n) (w n))"

lemma partial_sum_0 [simp]: "partial_sum x w 0 = float_zero"
  by (simp add: partial_sum_def)

lemma partial_sum_Suc: "partial_sum x w (Suc k) = float_add (partial_sum x w k) (float_mul (x k) (w k))"
  by (simp add: partial_sum_def)

lemma not_neg_zero_partial: "not_neg_zero (partial_sum x w k)"
  by (induction k) (simp_all add: partial_sum_Suc not_neg_zero_add, simp add: not_neg_zero_def float_zero_def)

text \<open>Inputs and weights matter up to the sign of a zero only.\<close>

lemma partial_sum_zeq:
  assumes "\<And>i. i < k \<Longrightarrow> zeq (x i) (x' i)" and "\<And>i. i < k \<Longrightarrow> zeq (w i) (w' i)"
  shows "partial_sum x w k = partial_sum x' w' k"
  using assms
proof (induction k)
  case (Suc k)
  have "float_add (partial_sum x w k) (float_mul (x k) (w k)) = float_add (partial_sum x w k) (float_mul (x' k) (w' k))"
    by (rule zeq_add [OF not_neg_zero_partial]) (rule zeq_mul, use Suc.prems in auto)
  then show ?case using Suc by (simp add: partial_sum_Suc)
qed simp

lemma neuron_zeq:
  assumes "\<And>i. i < n \<Longrightarrow> zeq (x i) (x' i)" and "\<And>i. i \<le> n \<Longrightarrow> zeq (w i) (w' i)"
  shows "neuron expf n x w = neuron expf n x' w'"
  using partial_sum_zeq [of n x x' w w'] zeq_add [OF not_neg_zero_partial, of "w n" "w' n"] assms
  by (simp add: neuron_def)

section \<open>One clock edge\<close>

definition proc_accepts :: "proc_ports \<Rightarrow> processor \<Rightarrow> bool" where
  "proc_accepts p s \<longleftrightarrow> proc_queue_address_i p = proc_address s \<and> proc_queue_w_i p"

lemma proc_methods_full:
  assumes "proc_accepts p s" and "length (proc_queue s) < QUEUE_SIZE"
  shows "run_methods (rev (proc_methods p)) s = Inr (s\<lparr>proc_queue := proc_queue s @ [proc_queue_data_i p],
    proc_contr_empty_o := False, proc_queue_size_o := int (length (proc_queue s) + 1)\<rparr>)"
  using assms by (simp add: proc_methods_def proc_add_to_queue_def proc_accepts_def Let_def)

lemma proc_methods_quiet:
  assumes "\<not> proc_accepts p s"
  shows "run_methods (rev (proc_methods p)) s = Inr (s\<lparr>proc_queue_size_o := int (length (proc_queue s)),
    proc_contr_empty_o := (if proc_queue s = [] then \<not> proc_is_working s else proc_contr_empty_o s)\<rparr>)"
  using assms by (auto simp: proc_methods_def proc_add_to_queue_def proc_accepts_def Let_def)

text \<open>The address arithmetic stays in range when the weights of the layer do.\<close>

lemma weight_address_ok:
  assumes "proc_prevmem_size_i p = int n" and "proc_start_weight_i p = int off"
    and "j < m" and "i \<le> n" and "int (off + (n + 1) * m) \<le> INT_MAX"
  shows "weight_address p (int j) (int i) = Inr (int (off + (n + 1) * j + i))"
proof -
  have "(n + 1) * j + (n + 1) \<le> (n + 1) * m"
    using assms(3) by (metis Suc_leI add.commute mult_Suc_right mult_le_mono2)
  then have b: "off + (n + 1) * j + i < off + (n + 1) * m" using assms(4) by linarith
  have "n + 1 \<le> (n + 1) * m" using assms(3) by (cases m) simp_all
  then have "is_cint (int (n + 1))" by (intro is_cint_nat [OF _ assms(5)]) linarith
  moreover have "is_cint (int ((n + 1) * j))" "is_cint (int (off + (n + 1) * j))"
    "is_cint (int (off + (n + 1) * j + i))"
    using b by (rule_tac [!] is_cint_nat [OF _ assms(5)]) linarith+
  ultimately show ?thesis by (simp add: weight_address_def assms(1,2) algebra_simps)
qed

end
