(* ===== verification/Next_Layer.thy ===== *)
theory Next_Layer
  imports Float32
begin

text \<open>
  \<open>NEXT_LAYER\<close> (\<open>inc/next_layer.h\<close>, \<open>src/next_layer.cpp\<close>): the result memory of the
  layer being computed.  Every processor has its own write port; the contents are read back
  in order with the strobe \<open>next_i\<close>.

  The vector \<open>memory\<close> is only reserved, never resized, so its size stays 0 and the code
  addresses the \<open>MEM_SIZE\<close> reserved cells with \<open>operator[]\<close>.  The model is that storage:
  a cell is \<open>None\<close> until it is written, an address outside it is \<open>OutOfBounds\<close>, and the
  read of a cell never written is \<open>Uninitialised\<close>.
\<close>

section \<open>Module\<close>

record nl_ports =
  nl_addr_i :: "int list"
  nl_data_i :: "float32 list"
  nl_w_i :: "bool list"
  nl_next_i :: bool

record next_layer_mem =
  nl_memory :: "float32 option list"
  nl_index :: int
  nl_data_o :: float32

definition next_layer_new :: next_layer_mem where
  "next_layer_new = \<lparr>nl_memory = replicate MEM_SIZE None, nl_index = 0, nl_data_o = float_zero\<rparr>"

definition nl_store :: "float32 option list \<Rightarrow> int \<Rightarrow> float32 \<Rightarrow> float32 option list res" where
  "nl_store mem a v =
     (if 0 \<le> a \<and> nat a < length mem then Inr (mem[nat a := Some v]) else Inl OutOfBounds)"

text \<open>The body of the loop of \<open>add_to_memory\<close> for port \<open>i\<close>, and the loop.\<close>

definition nl_write_port :: "nl_ports \<Rightarrow> nat \<Rightarrow> next_layer_mem \<Rightarrow> next_layer_mem res" where
  "nl_write_port p i s =
     (if nl_w_i p ! i
      then rbind (nl_store (nl_memory s) (nl_addr_i p ! i) (nl_data_i p ! i))
             (\<lambda>m. Inr (s\<lparr>nl_memory := m, nl_index := 0\<rparr>))
      else Inr s)"

definition nl_add_to_memory :: "nl_ports \<Rightarrow> next_layer_mem \<Rightarrow> next_layer_mem res" where
  "nl_add_to_memory p s = run_methods (map (nl_write_port p) [0..<COUNT_PC_UNIT]) s"

definition nl_load :: "float32 option list \<Rightarrow> int \<Rightarrow> float32 res" where
  "nl_load mem a =
     (if 0 \<le> a \<and> nat a < length mem
      then case mem ! nat a of None \<Rightarrow> Inl Uninitialised | Some v \<Rightarrow> Inr v
      else Inl OutOfBounds)"

definition nl_issue_element :: "nl_ports \<Rightarrow> next_layer_mem \<Rightarrow> next_layer_mem res" where
  "nl_issue_element p s =
     (if nl_next_i p
      then rbind (nl_load (nl_memory s) (nl_index s)) (\<lambda>v.
           rbind (check_int (nl_index s + 1)) (\<lambda>i.
           Inr (s\<lparr>nl_data_o := v, nl_index := i\<rparr>)))
      else Inr s)"

definition nl_methods :: "nl_ports \<Rightarrow> (next_layer_mem \<Rightarrow> next_layer_mem res) list" where
  "nl_methods p = [nl_issue_element p, nl_add_to_memory p]"

definition nl_posedge :: "nl_ports \<Rightarrow> next_layer_mem \<Rightarrow> next_layer_mem res" where
  "nl_posedge p s = run_methods (rev (nl_methods p)) s"

section \<open>Properties\<close>

definition nl_quiet :: "nl_ports \<Rightarrow> bool" where
  "nl_quiet p \<longleftrightarrow> (\<forall>i < COUNT_PC_UNIT. \<not> nl_w_i p ! i)"

lemma nl_add_quiet:
  assumes "nl_quiet p"
  shows "nl_add_to_memory p s = Inr s"
proof -
  have "run_methods (map (nl_write_port p) is) s = Inr s" if "set is \<subseteq> {..<COUNT_PC_UNIT}" for "is"
    using that by (induction "is") (use assms in \<open>auto simp: nl_quiet_def nl_write_port_def\<close>)
  then show ?thesis by (simp add: nl_add_to_memory_def atLeast0LessThan)
qed

lemma nl_posedge_idle: "nl_quiet p \<Longrightarrow> \<not> nl_next_i p \<Longrightarrow> nl_posedge p s = Inr s"
  by (simp add: nl_posedge_def nl_methods_def nl_add_quiet nl_issue_element_def)

lemma nl_posedge_next:
  assumes "nl_quiet p" and "nl_next_i p" and "nl_index s = int k" and "k < length (nl_memory s)"
    and "length (nl_memory s) = MEM_SIZE" and "nl_memory s ! k = Some v"
  shows "nl_posedge p s = Inr (s\<lparr>nl_data_o := v, nl_index := int k + 1\<rparr>)"
proof -
  have "is_cint (int k + 1)"
    using assms(4,5) by (auto simp: is_cint_def INT_MIN_def INT_MAX_def MEM_SIZE_def)
  then show ?thesis
    using assms(2-4,6)
    by (simp add: nl_posedge_def nl_methods_def nl_add_quiet [OF assms(1)] nl_issue_element_def nl_load_def)
qed

text \<open>Writes through all the ports: \<open>good j v\<close> says that \<open>v\<close> is a right value for cell
  \<open>j\<close>, and \<open>D\<close> is the set of cells that hold one.\<close>

definition nl_holds :: "(nat \<Rightarrow> float32 \<Rightarrow> bool) \<Rightarrow> nat set \<Rightarrow> next_layer_mem \<Rightarrow> bool" where
  "nl_holds good D s \<longleftrightarrow> length (nl_memory s) = MEM_SIZE \<and> (D \<noteq> {} \<longrightarrow> nl_index s = 0) \<and>
     (\<forall>j \<in> D. j < MEM_SIZE \<and> (\<exists>v. nl_memory s ! j = Some v \<and> good j v))"

definition nl_good_ports :: "(nat \<Rightarrow> float32 \<Rightarrow> bool) \<Rightarrow> nl_ports \<Rightarrow> bool" where
  "nl_good_ports good p \<longleftrightarrow> (\<forall>k < COUNT_PC_UNIT. nl_w_i p ! k \<longrightarrow>
     (\<exists>j < MEM_SIZE. nl_addr_i p ! k = int j \<and> good j (nl_data_i p ! k)))"

definition nl_written :: "nl_ports \<Rightarrow> nat set" where
  "nl_written p = {nat (nl_addr_i p ! k) |k. k < COUNT_PC_UNIT \<and> nl_w_i p ! k}"

lemma nl_write_ports:
  assumes "\<forall>k \<in> set ks. nl_w_i p ! k \<longrightarrow> (\<exists>j < MEM_SIZE. nl_addr_i p ! k = int j \<and> good j (nl_data_i p ! k))"
    and "nl_holds good D s"
  shows "\<exists>s'. run_methods (map (nl_write_port p) ks) s = Inr s' \<and> nl_data_o s' = nl_data_o s \<and>
    nl_holds good (D \<union> {nat (nl_addr_i p ! k) |k. k \<in> set ks \<and> nl_w_i p ! k}) s'"
  using assms
proof (induction ks arbitrary: s D)
  case (Cons k ks)
  show ?case
  proof (cases "nl_w_i p ! k")
    case True
    then obtain j where j: "j < MEM_SIZE" "nl_addr_i p ! k = int j" "good j (nl_data_i p ! k)"
      using Cons.prems(1) by auto
    then have jk: "j = nat (nl_addr_i p ! k)" by simp
    let ?s1 = "s\<lparr>nl_memory := (nl_memory s)[j := Some (nl_data_i p ! k)], nl_index := 0\<rparr>"
    have w: "nl_write_port p k s = Inr ?s1"
      using True j Cons.prems(2) by (simp add: nl_write_port_def nl_store_def nl_holds_def)
    have h: "nl_holds good (insert j D) ?s1"
      using Cons.prems(2) j by (auto simp: nl_holds_def nth_list_update)
    obtain s' where s': "run_methods (map (nl_write_port p) ks) ?s1 = Inr s'" "nl_data_o s' = nl_data_o ?s1"
      "nl_holds good (insert j D \<union> {nat (nl_addr_i p ! k) |k. k \<in> set ks \<and> nl_w_i p ! k}) s'"
      using Cons.IH [OF _ h] Cons.prems(1) by auto
    moreover have "insert j D \<union> {nat (nl_addr_i p ! k) |k. k \<in> set ks \<and> nl_w_i p ! k} =
        D \<union> {nat (nl_addr_i p ! x) |x. x \<in> set (k # ks) \<and> nl_w_i p ! x}"
      using True jk by auto
    ultimately show ?thesis using w by auto
  next
    case False
    then have "nl_write_port p k s = Inr s" by (simp add: nl_write_port_def)
    moreover have "{nat (nl_addr_i p ! x) |x. x \<in> set (k # ks) \<and> nl_w_i p ! x} = {nat (nl_addr_i p ! x) |x. x \<in> set ks \<and> nl_w_i p ! x}"
      using False by auto
    ultimately show ?thesis using Cons.IH [OF _ Cons.prems(2)] Cons.prems(1) by simp
  qed
qed simp

lemma nl_posedge_write:
  assumes "\<not> nl_next_i p" and "nl_good_ports good p" and "nl_holds good D s"
  shows "\<exists>s'. nl_posedge p s = Inr s' \<and> nl_holds good (D \<union> nl_written p) s'"
  using nl_write_ports [of "[0..<COUNT_PC_UNIT]" p good D s] assms
  by (auto simp: nl_posedge_def nl_methods_def nl_add_to_memory_def nl_issue_element_def nl_good_ports_def nl_written_def)

section \<open>The ports\<close>

definition nl_value :: "nl_ports \<Rightarrow> nat list \<Rightarrow> nat \<Rightarrow> float32 option \<Rightarrow> float32 option" where
  "nl_value p ks j old = fold (\<lambda>k v. if nl_w_i p ! k \<and> nat (nl_addr_i p ! k) = j then Some (nl_data_i p ! k) else v) ks old"

lemma nl_write_ports_value:
  assumes "\<forall>k \<in> set ks. nl_w_i p ! k \<longrightarrow> 0 \<le> nl_addr_i p ! k \<and> nat (nl_addr_i p ! k) < length (nl_memory s)"
  shows "\<exists>s'. run_methods (map (nl_write_port p) ks) s = Inr s' \<and> length (nl_memory s') = length (nl_memory s) \<and>
    (\<forall>j < length (nl_memory s). nl_memory s' ! j = nl_value p ks j (nl_memory s ! j))"
  using assms
proof (induction ks arbitrary: s)
  case (Cons k ks)
  show ?case
  proof (cases "nl_w_i p ! k")
    case True
    let ?s1 = "s\<lparr>nl_memory := (nl_memory s)[nat (nl_addr_i p ! k) := Some (nl_data_i p ! k)], nl_index := 0\<rparr>"
    have w: "nl_write_port p k s = Inr ?s1" using True Cons.prems by (simp add: nl_write_port_def nl_store_def)
    obtain s' where "run_methods (map (nl_write_port p) ks) ?s1 = Inr s'" "length (nl_memory s') = length (nl_memory ?s1)"
      "\<forall>j < length (nl_memory ?s1). nl_memory s' ! j = nl_value p ks j (nl_memory ?s1 ! j)"
      using Cons.IH [of ?s1] Cons.prems by auto
    then show ?thesis using w True by (auto simp: nl_value_def nth_list_update)
  next
    case False
    then have "nl_write_port p k s = Inr s" by (simp add: nl_write_port_def)
    then show ?thesis using Cons.IH [of s] Cons.prems False by (simp add: nl_value_def)
  qed
qed (simp add: nl_value_def)

lemma nl_value_last:
  assumes "k \<in> set ks" and "nl_w_i p ! k" and "nl_addr_i p ! k = int j" and "sorted ks"
    and "\<forall>k' \<in> set ks. k < k' \<longrightarrow> \<not> (nl_w_i p ! k' \<and> nat (nl_addr_i p ! k') = j)"
  shows "nl_value p ks j old = Some (nl_data_i p ! k)"
proof -
  obtain xs ys where ks: "ks = xs @ k # ys" "k \<notin> set ys" using split_list_last [OF assms(1)] by blast
  have "\<forall>k' \<in> set ys. k \<le> k'" using assms(4) ks by (auto simp: sorted_append)
  then have "\<forall>k' \<in> set ys. \<not> (nl_w_i p ! k' \<and> nat (nl_addr_i p ! k') = j)"
    using assms(5) ks by (auto simp: le_less)
  then have "fold (\<lambda>k v. if nl_w_i p ! k \<and> nat (nl_addr_i p ! k) = j then Some (nl_data_i p ! k) else v) ys v = v" for v
    by (induction ys arbitrary: v) auto
  then show ?thesis using assms(2,3) ks(1) by (simp add: nl_value_def)
qed

lemma nl_value_none:
  "\<forall>k \<in> set ks. \<not> (nl_w_i p ! k \<and> nat (nl_addr_i p ! k) = j) \<Longrightarrow> nl_value p ks j old = old"
  unfolding nl_value_def by (induction ks arbitrary: old) auto

text \<open>All the processors can write in one edge.  If every address written is below
  \<open>MEM_SIZE\<close>, the edge does not fault, a cell written through several ports holds the value of
  the port with the highest number, and a cell nobody writes keeps its value.\<close>

theorem result_memory_write_conflict:
  assumes "\<forall>k < COUNT_PC_UNIT. nl_w_i p ! k \<longrightarrow> 0 \<le> nl_addr_i p ! k \<and> nat (nl_addr_i p ! k) < MEM_SIZE"
    and "\<not> nl_next_i p" and "length (nl_memory s) = MEM_SIZE"
  shows "\<exists>s'. nl_posedge p s = Inr s' \<and> (\<forall>j < MEM_SIZE.
    (\<forall>k < COUNT_PC_UNIT. nl_w_i p ! k \<longrightarrow> nl_addr_i p ! k = int j \<longrightarrow>
       (\<forall>k' < COUNT_PC_UNIT. k < k' \<longrightarrow> nl_w_i p ! k' \<longrightarrow> nl_addr_i p ! k' \<noteq> int j) \<longrightarrow>
       nl_memory s' ! j = Some (nl_data_i p ! k)) \<and>
    ((\<forall>k < COUNT_PC_UNIT. nl_w_i p ! k \<longrightarrow> nl_addr_i p ! k \<noteq> int j) \<longrightarrow> nl_memory s' ! j = nl_memory s ! j))"
proof -
  let ?ks = "[0..<COUNT_PC_UNIT]"
  have inj: "nat (nl_addr_i p ! k) = j \<longleftrightarrow> nl_addr_i p ! k = int j" if "k < COUNT_PC_UNIT" "nl_w_i p ! k" for k j
    using assms(1) that by auto
  obtain s' where s': "run_methods (map (nl_write_port p) ?ks) s = Inr s'"
    "\<forall>j < MEM_SIZE. nl_memory s' ! j = nl_value p ?ks j (nl_memory s ! j)"
    using nl_write_ports_value [of ?ks p s] assms(1,3) by auto
  have "nl_posedge p s = Inr s'"
    using s'(1) assms(2) by (simp add: nl_posedge_def nl_methods_def nl_add_to_memory_def nl_issue_element_def)
  moreover have "nl_memory s' ! j = Some (nl_data_i p ! k)"
    if "j < MEM_SIZE" "k < COUNT_PC_UNIT" "nl_w_i p ! k" "nl_addr_i p ! k = int j"
      "\<forall>k' < COUNT_PC_UNIT. k < k' \<longrightarrow> nl_w_i p ! k' \<longrightarrow> nl_addr_i p ! k' \<noteq> int j" for j k
    using s'(2) that inj nl_value_last [of k ?ks p j] by auto
  moreover have "nl_memory s' ! j = nl_memory s ! j"
    if "j < MEM_SIZE" "\<forall>k < COUNT_PC_UNIT. nl_w_i p ! k \<longrightarrow> nl_addr_i p ! k \<noteq> int j" for j
    using s'(2) that inj nl_value_none [of ?ks p j] by auto
  ultimately show ?thesis by blast
qed

definition nl_write_all :: "int \<Rightarrow> nl_ports" where
  "nl_write_all a = \<lparr>nl_addr_i = replicate COUNT_PC_UNIT a, nl_data_i = map (\<lambda>k. float_of_int (int k)) [0..<COUNT_PC_UNIT],
     nl_w_i = replicate COUNT_PC_UNIT True, nl_next_i = False\<rparr>"

theorem result_memory_write_conflict_witness:
  "\<exists>s'. nl_posedge (nl_write_all 5) next_layer_new = Inr s' \<and> nl_memory s' ! 5 = Some (float_of_int 6)"
proof -
  let ?p = "nl_write_all 5"
  have "\<forall>k < COUNT_PC_UNIT. nl_w_i ?p ! k \<longrightarrow> 0 \<le> nl_addr_i ?p ! k \<and> nat (nl_addr_i ?p ! k) < MEM_SIZE"
    "\<not> nl_next_i ?p" "length (nl_memory next_layer_new) = MEM_SIZE"
    by (simp_all add: nl_write_all_def MEM_SIZE_def next_layer_new_def)
  from result_memory_write_conflict [OF this] obtain s' where s': "nl_posedge ?p next_layer_new = Inr s'"
    "\<forall>j < MEM_SIZE. (\<forall>k < COUNT_PC_UNIT. nl_w_i ?p ! k \<longrightarrow> nl_addr_i ?p ! k = int j \<longrightarrow>
       (\<forall>k' < COUNT_PC_UNIT. k < k' \<longrightarrow> nl_w_i ?p ! k' \<longrightarrow> nl_addr_i ?p ! k' \<noteq> int j) \<longrightarrow>
       nl_memory s' ! j = Some (nl_data_i ?p ! k))" by blast
  then have "nl_memory s' ! 5 = Some (nl_data_i ?p ! 6)"
    by (rule_tac s'(2) [rule_format, of 5 6]) (simp_all add: MEM_SIZE_def COUNT_PC_UNIT_def nl_write_all_def)
  with s'(1) show ?thesis by (simp add: nl_write_all_def COUNT_PC_UNIT_def)
qed

text \<open>The vector of the result memory is reserved and never resized, so nothing guards the
  reserved \<open>MEM_SIZE\<close> cells: an edge that writes an address outside them is outside the storage,
  and reading back a cell that no processor has written reads storage without a value.\<close>

theorem result_memory_unguarded:
  assumes "length (nl_memory s) = MEM_SIZE"
  shows "(k < COUNT_PC_UNIT \<longrightarrow> nl_w_i p ! k \<longrightarrow> (\<forall>k' < k. \<not> nl_w_i p ! k') \<longrightarrow>
      (nl_addr_i p ! k < 0 \<or> int MEM_SIZE \<le> nl_addr_i p ! k) \<longrightarrow> nl_posedge p s = Inl OutOfBounds) \<and>
    (nl_quiet p \<longrightarrow> nl_next_i p \<longrightarrow> nl_index s = int j \<longrightarrow> j < MEM_SIZE \<longrightarrow> nl_memory s ! j = None \<longrightarrow>
      nl_posedge p s = Inl Uninitialised)"
proof (intro conjI impI)
  assume k: "k < COUNT_PC_UNIT" "nl_w_i p ! k" "\<forall>k' < k. \<not> nl_w_i p ! k'"
    and a: "nl_addr_i p ! k < 0 \<or> int MEM_SIZE \<le> nl_addr_i p ! k"
  have "[0..<COUNT_PC_UNIT] = [0..<k] @ k # [Suc k..<COUNT_PC_UNIT]"
    using k(1) by (metis le_add1 less_imp_le upt_add_eq_append upt_conv_Cons le_add_diff_inverse add_0)
  moreover have "run_methods (map (nl_write_port p) ks) s = Inr s" if "set ks \<subseteq> {..<k}" for ks
    using that k(3) by (induction ks) (auto simp: nl_write_port_def)
  then have "run_methods (map (nl_write_port p) [0..<k]) s = Inr s" by (simp add: atLeast0LessThan)
  moreover have "nl_write_port p k s = Inl OutOfBounds"
    using k(2) a assms by (auto simp: nl_write_port_def nl_store_def MEM_SIZE_def)
  ultimately have "nl_add_to_memory p s = Inl OutOfBounds"
    unfolding nl_add_to_memory_def by (simp add: run_methods_append)
  then show "nl_posedge p s = Inl OutOfBounds" by (simp add: nl_posedge_def nl_methods_def)
next
  assume "nl_quiet p" "nl_next_i p" "nl_index s = int j" "j < MEM_SIZE" "nl_memory s ! j = None"
  then show "nl_posedge p s = Inl Uninitialised"
    using assms by (simp add: nl_posedge_def nl_methods_def nl_add_quiet nl_issue_element_def nl_load_def)
qed

theorem result_memory_unguarded_witness:
  "nl_posedge (nl_write_all 1024) next_layer_new = Inl OutOfBounds \<and>
   nl_posedge ((nl_write_all 0)\<lparr>nl_w_i := replicate COUNT_PC_UNIT False, nl_next_i := True\<rparr>) next_layer_new = Inl Uninitialised"
proof
  have len: "length (nl_memory next_layer_new) = MEM_SIZE" by (simp add: next_layer_new_def)
  show "nl_posedge (nl_write_all 1024) next_layer_new = Inl OutOfBounds"
    using result_memory_unguarded [OF len, of 0 "nl_write_all 1024" 0]
    by (simp add: nl_write_all_def COUNT_PC_UNIT_def MEM_SIZE_def)
  show "nl_posedge ((nl_write_all 0)\<lparr>nl_w_i := replicate COUNT_PC_UNIT False, nl_next_i := True\<rparr>) next_layer_new = Inl Uninitialised"
    using result_memory_unguarded [OF len, of 0 "(nl_write_all 0)\<lparr>nl_w_i := replicate COUNT_PC_UNIT False, nl_next_i := True\<rparr>" 0]
    by (simp add: nl_quiet_def next_layer_new_def MEM_SIZE_def)
qed

end
