(* ===== verification/End_Reducer.thy ===== *)
theory End_Reducer
  imports Prelude
begin

text \<open>
  \<open>END_REDUCER\<close> (\<open>inc/end_reducer.h\<close>, \<open>src/end_reducer.cpp\<close>): combinational; the layer
  is done when the generator has ended and every processor reports an empty queue.
\<close>

record er_ports =
  er_gen_end_i :: bool
  er_contr_empty_i :: "bool list"

text \<open>The loop of \<open>reduce\<close>, from index \<open>i\<close> of the port vector.\<close>

definition er_reduce :: "er_ports \<Rightarrow> bool" where
  "er_reduce p =
     fold (\<lambda>i all_ok. all_ok \<and> er_contr_empty_i p ! i) [0..<length (er_contr_empty_i p)] (er_gen_end_i p)"

text \<open>The method is sensitive to a change of any of its inputs, not to the clock.\<close>

definition er_triggered :: "er_ports \<Rightarrow> er_ports \<Rightarrow> bool" where
  "er_triggered old new \<longleftrightarrow> er_gen_end_i old \<noteq> er_gen_end_i new \<or> er_contr_empty_i old \<noteq> er_contr_empty_i new"

lemma fold_conj: "fold (\<lambda>i b. b \<and> f i) is b \<longleftrightarrow> b \<and> (\<forall>i \<in> set is. f i)"
  by (induction "is" arbitrary: b) auto

lemma er_reduce_iff: "er_reduce p \<longleftrightarrow> er_gen_end_i p \<and> (\<forall>b \<in> set (er_contr_empty_i p). b)"
  by (auto simp: er_reduce_def fold_conj all_set_conv_all_nth)

lemma er_reduce_cong: "\<not> er_triggered old new \<Longrightarrow> er_reduce new = er_reduce old"
  by (simp add: er_triggered_def er_reduce_def)

end
