(* ===== verification/System.thy ===== *)
theory System
  imports Io_Module Controller Layers_Storage Weight_Storage Previous_Layer
    Previous_Layer_Controller Previous_Layer_Size Generator Processor Next_Layer End_Reducer
begin

text \<open>
  \<open>src/main.cpp\<close>: the signals, the modules, and the netlist that binds them; and the
  simulation of the whole system, one clock edge at a time.

  An edge is one evaluation of every process that is sensitive to the clock, all reading the
  values the signals had before, followed by the update of the signals (\<open>sc_signal\<close>).  If
  an input of \<open>END_REDUCER\<close> changed, its method runs in the delta cycle after that.  The
  modules share nothing but signals, so each module's methods and thread are run together;
  inside a module the methods run before the thread and in the reverse order of their
  registration, as the kernel triggers them.
\<close>

section \<open>Signals\<close>

text \<open>The values the signals of \<open>sc_main\<close> have at a delta cycle, under the names of the
  source.\<close>

record signals =
  addr_io_bus :: int
  data_io_bus :: float32
  wr_io_bus :: bool
  next_layer :: bool
  data_layer :: int
  addr_weight_bus :: "int list"
  data_weight_bus :: "float32 list"
  addr_prev_layer_bus :: "int list"
  data_prev_layer_bus :: "float32 list"
  wr_to_mem_from_mem_ctrl_mem_bus :: bool
  wr_to_io_ctrl_mem_bus :: bool
  clr_prev_layer_ctrl_mem_bus :: bool
  data_from_now_layer_to_next_layer :: float32
  next_memory_transmit :: bool
  clr_prev_layer_controller_bus :: bool
  start_clone_controller_bus :: bool
  end_clone_controller_bus :: bool
  write_out_controller_bus :: bool
  save_prev_layer_size :: bool
  start_generator :: bool
  cycle_ended :: bool
  start_weight_adderess :: int
  previous_data_layer :: int
  gen_address :: int
  gen_data :: int
  gen_write :: bool
  gen_end :: bool
  gen_size :: "int list"
  resmem_addr_bus :: "int list"
  resmem_data_bus :: "float32 list"
  resmem_w_bus :: "bool list"
  contr_empty_bus :: "bool list"

text \<open>The signals before the simulation: default values, and the values the constructors
  passed to \<open>initialize\<close>.\<close>

definition signals_new :: signals where
  "signals_new =
     \<lparr>addr_io_bus = 0, data_io_bus = float_zero, wr_io_bus = False, next_layer = False, data_layer = 0,
      addr_weight_bus = replicate COUNT_PC_UNIT 0, data_weight_bus = replicate COUNT_PC_UNIT float_zero,
      addr_prev_layer_bus = replicate COUNT_PC_UNIT 0, data_prev_layer_bus = replicate COUNT_PC_UNIT float_zero,
      wr_to_mem_from_mem_ctrl_mem_bus = False, wr_to_io_ctrl_mem_bus = False,
      clr_prev_layer_ctrl_mem_bus = False, data_from_now_layer_to_next_layer = float_zero,
      next_memory_transmit = False, clr_prev_layer_controller_bus = False,
      start_clone_controller_bus = False, end_clone_controller_bus = False,
      write_out_controller_bus = False, save_prev_layer_size = False, start_generator = False,
      cycle_ended = False, start_weight_adderess = 0, previous_data_layer = 0,
      gen_address = 0, gen_data = 0, gen_write = False, gen_end = True,
      gen_size = replicate COUNT_PC_UNIT 0, resmem_addr_bus = replicate COUNT_PC_UNIT 0,
      resmem_data_bus = replicate COUNT_PC_UNIT float_zero, resmem_w_bus = replicate COUNT_PC_UNIT False,
      contr_empty_bus = replicate COUNT_PC_UNIT False\<rparr>"

section \<open>Modules and netlist\<close>

record sys =
  sy_time :: nat
  sy_sig :: signals
  sy_io :: io_module
  sy_ct :: controller
  sy_ls :: layers_storage
  sy_ws :: weight_storage
  sy_pl :: previous_layer
  sy_plc :: previous_layer_controller
  sy_pls :: previous_layer_size
  sy_gen :: generator
  sy_proc :: "processor list"
  sy_nl :: next_layer_mem
  sy_cycle_ended_o :: bool
  sy_er_pending :: bool

definition sys_new :: "string option \<Rightarrow> string option \<Rightarrow> sys" where
  "sys_new cfg pic =
     \<lparr>sy_time = 0, sy_sig = signals_new, sy_io = io_module_new cfg pic, sy_ct = controller_new,
      sy_ls = layers_storage_new, sy_ws = weight_storage_new, sy_pl = previous_layer_new,
      sy_plc = previous_layer_controller_new, sy_pls = previous_layer_size_new, sy_gen = generator_new,
      sy_proc = map (\<lambda>i. processor_new (int i)) [0..<COUNT_PC_UNIT], sy_nl = next_layer_new,
      sy_cycle_ended_o = False, sy_er_pending = False\<rparr>"

text \<open>The input ports of every module, read from the signals they are bound to.\<close>

definition io_bind :: "nat \<Rightarrow> signals \<Rightarrow> io_ports" where
  "io_bind t g = \<lparr>io_now = t, io_data_io = data_io_bus g, io_wr_io = wr_io_bus g\<rparr>"

definition ct_bind :: "signals \<Rightarrow> ct_ports" where
  "ct_bind g =
     \<lparr>ct_addr_i = addr_io_bus g, ct_data_i = data_io_bus g, ct_wr_i = wr_io_bus g,
      ct_size_of_layer_i = data_layer g, ct_end_clone_i = end_clone_controller_bus g,
      ct_cycle_ended_i = cycle_ended g, ct_start_weight_cur = start_weight_adderess g\<rparr>"

definition ls_bind :: "signals \<Rightarrow> ls_ports" where
  "ls_bind g =
     \<lparr>ls_addr_i = addr_io_bus g, ls_data_i = data_io_bus g, ls_wr_i = wr_io_bus g, ls_next = next_layer g\<rparr>"

definition ws_bind :: "signals \<Rightarrow> ws_ports" where
  "ws_bind g =
     \<lparr>ws_addr_io_bus_i = addr_io_bus g, ws_data_io_bus_i = data_io_bus g, ws_wr_io_bus_i = wr_io_bus g,
      ws_addr_out_bus_i = addr_weight_bus g\<rparr>"

definition pl_bind :: "signals \<Rightarrow> pl_ports" where
  "pl_bind g =
     \<lparr>pl_addr_io_bus_i = addr_io_bus g, pl_data_io_bus_io = data_io_bus g, pl_wr_io_bus_io = wr_io_bus g,
      pl_wr_to_memory_from_mem_i = wr_to_mem_from_mem_ctrl_mem_bus g, pl_wr_to_out_i = wr_to_io_ctrl_mem_bus g,
      pl_clr_i = clr_prev_layer_ctrl_mem_bus g, pl_addr_PC_bus_i = addr_prev_layer_bus g,
      pl_data_mem_bus_i = data_from_now_layer_to_next_layer g\<rparr>"

definition plc_bind :: "signals \<Rightarrow> plc_ports" where
  "plc_bind g =
     \<lparr>plc_clr_i = clr_prev_layer_controller_bus g, plc_start_clone_i = start_clone_controller_bus g,
      plc_write_out_i = write_out_controller_bus g, plc_layer_size_i = data_layer g\<rparr>"

definition pls_bind :: "signals \<Rightarrow> pls_ports" where
  "pls_bind g = \<lparr>pls_save_i = save_prev_layer_size g, pls_data_i = data_layer g\<rparr>"

definition gen_bind :: "signals \<Rightarrow> gen_ports" where
  "gen_bind g =
     \<lparr>gen_layer_size_i = data_layer g, gen_generate_i = start_generator g, gen_queue_size_i = gen_size g\<rparr>"

definition proc_bind :: "signals \<Rightarrow> nat \<Rightarrow> proc_ports" where
  "proc_bind g i =
     \<lparr>proc_queue_address_i = gen_address g, proc_queue_data_i = gen_data g, proc_queue_w_i = gen_write g,
      proc_start_weight_i = start_weight_adderess g, proc_prevmem_data_i = data_prev_layer_bus g ! i,
      proc_weight_data_i = data_weight_bus g ! i, proc_prevmem_size_i = previous_data_layer g\<rparr>"

definition nl_bind :: "signals \<Rightarrow> nl_ports" where
  "nl_bind g =
     \<lparr>nl_addr_i = resmem_addr_bus g, nl_data_i = resmem_data_bus g, nl_w_i = resmem_w_bus g,
      nl_next_i = next_memory_transmit g\<rparr>"

definition er_bind :: "signals \<Rightarrow> er_ports" where
  "er_bind g = \<lparr>er_gen_end_i = gen_end g, er_contr_empty_i = contr_empty_bus g\<rparr>"

section \<open>Update of the signals\<close>

text \<open>A signal of type \<open>float\<close> keeps its value when the new one compares equal, so a zero
  does not change its sign.\<close>

definition commit_float :: "float32 \<Rightarrow> float32 \<Rightarrow> float32" where
  "commit_float cur new = (if float_eq new cur then cur else new)"

text \<open>A signal with many writers: two processes writing it in one evaluation is an error.\<close>

definition shared_write :: "'a option \<Rightarrow> 'a option \<Rightarrow> 'a \<Rightarrow> 'a res" where
  "shared_write a b cur =
     (case (a, b) of
        (None, None) \<Rightarrow> Inr cur
      | (Some x, None) \<Rightarrow> Inr x
      | (None, Some y) \<Rightarrow> Inr y
      | (Some x, Some y) \<Rightarrow> Inl MultipleDrivers)"

text \<open>The values written to the output ports become the values of the bound signals.\<close>

definition update_signals :: "sys \<Rightarrow> signals res" where
  "update_signals s =
     (let g = sy_sig s in
      rbind (shared_write (pl_data_io_write (sy_pl s)) (io_data_write (sy_io s)) (data_io_bus g)) (\<lambda>d.
      rbind (shared_write (pl_wr_io_write (sy_pl s)) (io_wr_write (sy_io s)) (wr_io_bus g)) (\<lambda>w.
      Inr \<lparr>addr_io_bus = io_addr_o (sy_io s),
           data_io_bus = commit_float (data_io_bus g) d,
           wr_io_bus = w,
           next_layer = ct_next_layer_o (sy_ct s),
           data_layer = ls_data_o (sy_ls s),
           addr_weight_bus = map proc_weight_addr_o (sy_proc s),
           data_weight_bus = map2 commit_float (data_weight_bus g) (ws_data_out_bus_o (sy_ws s)),
           addr_prev_layer_bus = map proc_prevmem_addr_o (sy_proc s),
           data_prev_layer_bus = map2 commit_float (data_prev_layer_bus g) (pl_data_PC_bus_o (sy_pl s)),
           wr_to_mem_from_mem_ctrl_mem_bus = plc_wr_to_memory_from_mem_o (sy_plc s),
           wr_to_io_ctrl_mem_bus = plc_wr_to_out_o (sy_plc s),
           clr_prev_layer_ctrl_mem_bus = plc_clr_o (sy_plc s),
           data_from_now_layer_to_next_layer =
             commit_float (data_from_now_layer_to_next_layer g) (nl_data_o (sy_nl s)),
           next_memory_transmit = plc_next_o (sy_plc s),
           clr_prev_layer_controller_bus = ct_clr_o (sy_ct s),
           start_clone_controller_bus = ct_start_clone_o (sy_ct s),
           end_clone_controller_bus = plc_end_clone_o (sy_plc s),
           write_out_controller_bus = ct_write_out_o (sy_ct s),
           save_prev_layer_size = ct_save_prev_o (sy_ct s),
           start_generator = ct_start_generator_o (sy_ct s),
           cycle_ended = sy_cycle_ended_o s,
           start_weight_adderess = ct_start_weight_o (sy_ct s),
           previous_data_layer = pls_data_o (sy_pls s),
           gen_address = gen_address_o (sy_gen s),
           gen_data = gen_data_o (sy_gen s),
           gen_write = gen_w_o (sy_gen s),
           gen_end = gen_end_generate_o (sy_gen s),
           gen_size = map proc_queue_size_o (sy_proc s),
           resmem_addr_bus = map proc_resmem_addr_o (sy_proc s),
           resmem_data_bus = map2 commit_float (resmem_data_bus g) (map proc_resmem_data_o (sy_proc s)),
           resmem_w_bus = map proc_resmem_w_o (sy_proc s),
           contr_empty_bus = map proc_contr_empty_o (sy_proc s)\<rparr>)))"

text \<open>The update phase, which also triggers \<open>END_REDUCER\<close> when one of its inputs changed.\<close>

definition sys_update :: "sys \<Rightarrow> sys res" where
  "sys_update s =
     rbind (update_signals s) (\<lambda>g.
       Inr (s\<lparr>sy_sig := g, sy_er_pending := er_triggered (er_bind (sy_sig s)) (er_bind g)\<rparr>))"

section \<open>Simulation\<close>

text \<open>Initialization: every method runs once, in the order of registration; the clocked
  threads do not.\<close>

definition sys_initialize :: "sys \<Rightarrow> sys res" where
  "sys_initialize s =
     (let g = sy_sig s in
      rbind (run_methods (io_methods (io_bind (sy_time s) g)) (sy_io s)) (\<lambda>io.
      rbind (run_methods (ct_methods (ct_bind g)) (sy_ct s)) (\<lambda>ct.
      rbind (run_methods (ls_methods (ls_bind g)) (sy_ls s)) (\<lambda>ls.
      rbind (run_methods (ws_methods (ws_bind g)) (sy_ws s)) (\<lambda>ws.
      rbind (run_methods (pl_methods (pl_bind g)) (sy_pl s)) (\<lambda>pl.
      rbind (run_methods (plc_methods (plc_bind g)) (sy_plc s)) (\<lambda>plc.
      rbind (run_methods (pls_methods (pls_bind g)) (sy_pls s)) (\<lambda>pls.
      rbind (rmap (\<lambda>i. run_methods (proc_methods (proc_bind g i)) (sy_proc s ! i)) [0..<length (sy_proc s)]) (\<lambda>pr.
      rbind (run_methods (nl_methods (nl_bind g)) (sy_nl s)) (\<lambda>nl.
      sys_update (s\<lparr>sy_io := io, sy_ct := ct, sy_ls := ls, sy_ws := ws, sy_pl := pl, sy_plc := plc,
                    sy_pls := pls, sy_proc := pr, sy_nl := nl,
                    sy_cycle_ended_o := er_reduce (er_bind g)\<rparr>)))))))))))"

text \<open>The evaluation at a rising clock edge.\<close>

definition sys_evaluate :: "(float32 \<Rightarrow> float32) \<Rightarrow> sys \<Rightarrow> sys res" where
  "sys_evaluate expf s =
     (let g = sy_sig s in
      rbind (nl_posedge (nl_bind g) (sy_nl s)) (\<lambda>nl.
      rbind (rmap (\<lambda>i. proc_posedge expf (proc_bind g i) (sy_proc s ! i)) [0..<length (sy_proc s)]) (\<lambda>pr.
      rbind (pls_posedge (pls_bind g) (sy_pls s)) (\<lambda>pls.
      rbind (plc_posedge (plc_bind g) (sy_plc s)) (\<lambda>plc.
      rbind (pl_posedge (pl_bind g) (sy_pl s)) (\<lambda>pl.
      rbind (ws_posedge (ws_bind g) (sy_ws s)) (\<lambda>ws.
      rbind (ls_posedge (ls_bind g) (sy_ls s)) (\<lambda>ls.
      rbind (ct_posedge (ct_bind g) (sy_ct s)) (\<lambda>ct.
      rbind (io_posedge (io_bind (sy_time s) g) (sy_io s)) (\<lambda>io.
      rbind (gen_generate (gen_bind g) (sy_gen s)) (\<lambda>gen.
      Inr (s\<lparr>sy_io := io, sy_ct := ct, sy_ls := ls, sy_ws := ws, sy_pl := pl, sy_plc := plc,
             sy_pls := pls, sy_gen := gen, sy_proc := pr, sy_nl := nl,
             sy_cycle_ended_o := (if sy_er_pending s then er_reduce (er_bind g) else sy_cycle_ended_o s)\<rparr>))))))))))))"

text \<open>The delta cycle after the edge, in which only \<open>END_REDUCER\<close> can run.\<close>

definition sys_settle :: "sys \<Rightarrow> sys" where
  "sys_settle s =
     (if sy_er_pending s
      then let c = er_reduce (er_bind (sy_sig s)) in
        s\<lparr>sy_cycle_ended_o := c, sy_sig := (sy_sig s)\<lparr>cycle_ended := c\<rparr>, sy_er_pending := False\<rparr>
      else s)"

definition CLOCK_PERIOD :: nat where
  "CLOCK_PERIOD = 10"

text \<open>One clock period.  \<open>sc_stop\<close> lets the delta cycle finish and nothing after it.\<close>

definition sys_edge :: "(float32 \<Rightarrow> float32) \<Rightarrow> sys \<Rightarrow> sys res" where
  "sys_edge expf s =
     rbind (sys_evaluate expf s) (\<lambda>s1.
     rbind (sys_update s1) (\<lambda>s2.
       if pl_stop (sy_pl s2) then Inr s2
       else Inr ((sys_settle s2)\<lparr>sy_time := sy_time s2 + CLOCK_PERIOD\<rparr>)))"

text \<open>\<open>sc_start\<close>, for at most the given number of clock periods.\<close>

fun sys_run :: "(float32 \<Rightarrow> float32) \<Rightarrow> nat \<Rightarrow> sys \<Rightarrow> sys res" where
  "sys_run expf 0 s = Inr s"
| "sys_run expf (Suc n) s = (if pl_stop (sy_pl s) then Inr s else rbind (sys_edge expf s) (sys_run expf n))"

text \<open>\<open>sc_main\<close>: \<open>fs\<close> gives the contents of the files; \<open>None\<close> when the simulation has
  not stopped within the given number of periods, and otherwise the reported values and the
  neurons each processor has calculated.\<close>

definition sc_main ::
  "(float32 \<Rightarrow> float32) \<Rightarrow> (string \<Rightarrow> string option) \<Rightarrow> string list \<Rightarrow> nat \<Rightarrow>
     ((nat \<times> int \<times> float32) list \<times> int list) option res" where
  "sc_main expf fs args fuel =
     (let g = parse_args default_options args in
      rbind (sys_initialize (sys_new (fs (g_configFile g)) (fs (g_pictureFile g)))) (\<lambda>s0.
      rbind (sys_run expf fuel s0) (\<lambda>s.
        if pl_stop (sy_pl s)
        then Inr (Some (io_report (sy_io s), map proc_count_neurons_calc (sy_proc s)))
        else Inr None)))"

end
