(* ===== verification/Processor_Job.thy ===== *)
theory Processor_Job
  imports Processor
begin

text \<open>
  A processor at work on a layer: the invariant that ties its program point, its registers
  and its address ports to the neuron it computes, the neurons it still owes, and a measure
  of the clock edges it still needs.  \<open>proc_step\<close> is the one fact the system needs: every
  edge keeps the invariant, computes the right values, loses no neuron, and makes progress.
\<close>

section \<open>The job\<close>

text \<open>A layer as a processor sees it: the number of inputs, the address of the first weight,
  the number of neurons, and what the two memories answer to an address.\<close>

record job =
  jb_n :: nat
  jb_off :: nat
  jb_m :: nat
  jb_x :: "int \<Rightarrow> float32"
  jb_w :: "int \<Rightarrow> float32"

definition jb_addr :: "job \<Rightarrow> nat \<Rightarrow> nat \<Rightarrow> nat" where
  "jb_addr J j i = jb_off J + (jb_n J + 1) * j + i"

definition jb_sum :: "job \<Rightarrow> nat \<Rightarrow> nat \<Rightarrow> float32" where
  "jb_sum J j k = partial_sum (\<lambda>i. jb_x J (int i)) (\<lambda>i. jb_w J (int (jb_addr J j i))) k"

definition jb_value :: "(float32 \<Rightarrow> float32) \<Rightarrow> job \<Rightarrow> nat \<Rightarrow> float32" where
  "jb_value expf J j = neuron expf (jb_n J) (\<lambda>i. jb_x J (int i)) (\<lambda>i. jb_w J (int (jb_addr J j i)))"

definition jb_ok :: "job \<Rightarrow> bool" where
  "jb_ok J \<longleftrightarrow> int (jb_off J + (jb_n J + 1) * jb_m J) \<le> INT_MAX \<and> 0 < jb_m J"

lemma jb_sum_0 [simp]: "jb_sum J j 0 = float_zero"
  by (simp add: jb_sum_def)

lemma jb_sum_Suc:
  "jb_sum J j (Suc k) = float_add (jb_sum J j k) (float_mul (jb_x J (int k)) (jb_w J (int (jb_addr J j k))))"
  by (simp add: jb_sum_def partial_sum_Suc)

lemma jb_value_eq:
  "jb_value expf J j = sigmoid expf (float_add (jb_sum J j (jb_n J)) (jb_w J (int (jb_addr J j (jb_n J)))))"
  by (simp add: jb_value_def neuron_def jb_sum_def)

lemma not_neg_zero_jb_sum: "not_neg_zero (jb_sum J j k)"
  by (simp add: jb_sum_def not_neg_zero_partial)

section \<open>Invariant\<close>

text \<open>The processor is busy with neuron \<open>j\<close>.\<close>

definition proc_busy :: "(float32 \<Rightarrow> float32) \<Rightarrow> job \<Rightarrow> nat \<Rightarrow> processor \<Rightarrow> bool" where
  "proc_busy expf J j s \<longleftrightarrow>
     proc_is_working s \<and> proc_number_of_nn s = int j \<and> j < jb_m J \<and>
     (case proc_pc s of
        PROC_Start \<Rightarrow> False
      | PROC_Empty \<Rightarrow> False
      | PROC_Write \<Rightarrow> proc_resmem_addr_o s = int j \<and> proc_resmem_data_o s = jb_value expf J j
      | pc \<Rightarrow> if pc \<in> {PROC_Bias1, PROC_Bias2}
          then proc_weight_addr_o s = int (jb_addr J j (jb_n J)) \<and> proc_sum_reg s = jb_sum J j (jb_n J)
          else \<exists>i < jb_n J. proc_i s = int i \<and> proc_weight_addr_o s = int (jb_addr J j i) \<and>
            proc_prevmem_addr_o s = int i \<and> proc_sum_reg s = jb_sum J j i)"

definition proc_inv :: "(float32 \<Rightarrow> float32) \<Rightarrow> job \<Rightarrow> processor \<Rightarrow> bool" where
  "proc_inv expf J s \<longleftrightarrow>
     (\<forall>q \<in> set (proc_queue s). 0 \<le> q \<and> q < int (jb_m J)) \<and>
     length (proc_queue s) \<le> QUEUE_SIZE \<and> int (length (proc_queue s)) \<le> proc_queue_size_o s \<and>
     proc_queue_size_o s \<le> int (length (proc_queue s)) + 1 \<and>
     0 \<le> proc_weight_addr_o s \<and> 0 \<le> proc_prevmem_addr_o s \<and>
     (proc_resmem_w_o s \<longleftrightarrow> proc_pc s = PROC_Write) \<and>
     (proc_contr_empty_o s \<longrightarrow> proc_pc s = PROC_Empty) \<and>
     (if proc_pc s = PROC_Empty then proc_queue s = [] \<and> \<not> proc_is_working s
      else \<exists>j. proc_busy expf J j s)"

text \<open>The neurons the processor owes, their number, and the edges it still needs.\<close>

definition proc_owes :: "processor \<Rightarrow> nat set" where
  "proc_owes s = nat ` set (proc_queue s) \<union> (if proc_pc s = PROC_Empty then {} else {nat (proc_number_of_nn s)})"

definition proc_load :: "processor \<Rightarrow> nat" where
  "proc_load s = length (proc_queue s) + (if proc_pc s = PROC_Empty then 0 else 1)"

definition proc_todo :: "job \<Rightarrow> processor \<Rightarrow> nat" where
  "proc_todo J s =
     (case proc_pc s of
        PROC_Fetch1 \<Rightarrow> 2 * (jb_n J - nat (proc_i s)) + 3
      | PROC_Fetch2 \<Rightarrow> 2 * (jb_n J - nat (proc_i s)) + 2
      | PROC_Bias1 \<Rightarrow> 3 | PROC_Bias2 \<Rightarrow> 2 | PROC_Write \<Rightarrow> 1 | _ \<Rightarrow> 0)
     + (2 * jb_n J + 4) * length (proc_queue s) + (if proc_contr_empty_o s then 0 else 1)"

text \<open>What the processor relies on at an edge: the layer's parameters on its ports, room in
  the queue for a neuron that is offered, and, after an address has been answered, the data
  that belongs to it.\<close>

definition proc_env :: "job \<Rightarrow> proc_ports \<Rightarrow> processor \<Rightarrow> bool" where
  "proc_env J p s \<longleftrightarrow>
     proc_prevmem_size_i p = int (jb_n J) \<and> proc_start_weight_i p = int (jb_off J) \<and>
     (proc_accepts p s \<longrightarrow> length (proc_queue s) < QUEUE_SIZE \<and>
        0 \<le> proc_queue_data_i p \<and> proc_queue_data_i p < int (jb_m J)) \<and>
     (proc_pc s = PROC_Fetch2 \<longrightarrow> zeq (proc_prevmem_data_i p) (jb_x J (proc_prevmem_addr_o s))) \<and>
     (proc_pc s \<in> {PROC_Fetch2, PROC_Bias2} \<longrightarrow> zeq (proc_weight_data_i p) (jb_w J (proc_weight_addr_o s)))"

section \<open>One edge\<close>

text \<open>The head of the loop over the inputs, at input \<open>i\<close> of neuron \<open>j\<close>.\<close>

definition proc_at :: "job \<Rightarrow> nat \<Rightarrow> nat \<Rightarrow> processor \<Rightarrow> processor" where
  "proc_at J j i s =
     (if i < jb_n J
      then s\<lparr>proc_weight_addr_o := int (jb_addr J j i), proc_prevmem_addr_o := int i, proc_pc := PROC_Fetch1\<rparr>
      else s\<lparr>proc_weight_addr_o := int (jb_addr J j (jb_n J)), proc_pc := PROC_Bias1\<rparr>)"

lemma proc_for_head_at:
  assumes "jb_ok J" and "proc_prevmem_size_i p = int (jb_n J)" and "proc_start_weight_i p = int (jb_off J)"
    and "proc_number_of_nn s = int j" and "j < jb_m J" and "proc_i s = int i" and "i \<le> jb_n J"
  shows "proc_for_head p s = Inr (proc_at J j i s)"
proof -
  have a: "weight_address p (int j) (int k) = Inr (int (jb_addr J j k))" if "k \<le> jb_n J" for k
    unfolding jb_addr_def
    by (rule weight_address_ok [OF assms(2,3,5) that]) (use assms(1) in \<open>simp add: jb_ok_def\<close>)
  show ?thesis
    using assms(2,4,6) a [of i] a [of "jb_n J"] assms(7) by (simp add: proc_for_head_def proc_at_def)
qed

text \<open>The head of the endless loop, with the queue as the methods left it.\<close>

lemma proc_head_at:
  assumes "jb_ok J" and "proc_prevmem_size_i p = int (jb_n J)" and "proc_start_weight_i p = int (jb_off J)"
    and "proc_queue s = int j # q" and "j < jb_m J"
  shows "proc_head p s = Inr (proc_at J j 0 (s\<lparr>proc_is_working := True, proc_sum_reg := float_zero,
    proc_number_of_nn := int j, proc_queue := q, proc_i := 0\<rparr>))"
  using proc_for_head_at [OF assms(1-3), of "s\<lparr>proc_is_working := True, proc_sum_reg := float_zero,
    proc_number_of_nn := int j, proc_queue := q, proc_i := 0\<rparr>" j 0] assms(4,5)
  by (simp add: proc_head_def pop_front_def)

lemma proc_head_empty: "proc_queue s = [] \<Longrightarrow> proc_head p s = Inr (s\<lparr>proc_pc := PROC_Empty\<rparr>)"
  by (simp add: proc_head_def)

lemma proc_at_busy:
  assumes "proc_is_working s" and "proc_number_of_nn s = int j" and "j < jb_m J"
    and "proc_i s = int i" and "i \<le> jb_n J" and "proc_sum_reg s = jb_sum J j i"
  shows "proc_busy expf J j (proc_at J j i s)"
  using assms by (auto simp: proc_busy_def proc_at_def)

text \<open>The method does not touch what the thread works on.\<close>

lemma proc_busy_method [simp]:
  "proc_busy expf J j (proc_queue_update f s) = proc_busy expf J j s"
  "proc_busy expf J j (proc_contr_empty_o_update g s) = proc_busy expf J j s"
  "proc_busy expf J j (proc_queue_size_o_update h s) = proc_busy expf J j s"
  by (cases "proc_pc s"; simp add: proc_busy_def)+

text \<open>Between the method and the thread.\<close>

definition proc_mid :: "(float32 \<Rightarrow> float32) \<Rightarrow> job \<Rightarrow> processor \<Rightarrow> bool" where
  "proc_mid expf J s \<longleftrightarrow>
     (\<forall>q \<in> set (proc_queue s). 0 \<le> q \<and> q < int (jb_m J)) \<and>
     length (proc_queue s) \<le> QUEUE_SIZE \<and> proc_queue_size_o s = int (length (proc_queue s)) \<and>
     0 \<le> proc_weight_addr_o s \<and> 0 \<le> proc_prevmem_addr_o s \<and>
     (proc_resmem_w_o s \<longleftrightarrow> proc_pc s = PROC_Write) \<and>
     (proc_contr_empty_o s \<longleftrightarrow> proc_pc s = PROC_Empty \<and> proc_queue s = []) \<and>
     (if proc_pc s = PROC_Empty then \<not> proc_is_working s else \<exists>j. proc_busy expf J j s)"

text \<open>What an edge does to the debts and to the statistics.\<close>

definition proc_effect :: "job \<Rightarrow> processor \<Rightarrow> processor \<Rightarrow> bool" where
  "proc_effect J s s' \<longleftrightarrow>
     proc_address s' = proc_address s \<and>
     proc_owes s \<subseteq> proc_owes s' \<union> (if proc_pc s = PROC_Write then {nat (proc_number_of_nn s)} else {}) \<and>
     proc_load s = proc_load s' + (if proc_pc s = PROC_Write then 1 else 0) \<and>
     proc_count_neurons_calc s' = proc_count_neurons_calc s + (if proc_pc s = PROC_Write then 1 else 0) \<and>
     (proc_pc s' = PROC_Fetch2 \<longrightarrow> proc_weight_addr_o s' = proc_weight_addr_o s \<and> proc_prevmem_addr_o s' = proc_prevmem_addr_o s) \<and>
     (proc_pc s' = PROC_Bias2 \<longrightarrow> proc_weight_addr_o s' = proc_weight_addr_o s)"

lemma jb_nonneg: "proc_busy expf J j s \<Longrightarrow> proc_number_of_nn s = int j \<and> j < jb_m J"
  by (simp add: proc_busy_def)

lemma proc_inv_at:
  assumes "proc_is_working s" and "proc_number_of_nn s = int j" and "j < jb_m J"
    and "proc_i s = int i" and "i \<le> jb_n J" and "proc_sum_reg s = jb_sum J j i"
    and "\<forall>q \<in> set (proc_queue s). 0 \<le> q \<and> q < int (jb_m J)"
    and "length (proc_queue s) \<le> QUEUE_SIZE" and "int (length (proc_queue s)) \<le> proc_queue_size_o s"
    and "proc_queue_size_o s \<le> int (length (proc_queue s)) + 1"
    and "0 \<le> proc_prevmem_addr_o s" and "\<not> proc_resmem_w_o s" and "\<not> proc_contr_empty_o s"
  shows "proc_inv expf J (proc_at J j i s)"
proof -
  have "proc_busy expf J j (proc_at J j i s)" by (rule proc_at_busy) fact+
  then show ?thesis
    using assms(7-13) unfolding proc_inv_def by (auto simp: proc_at_def split: if_splits)
qed

text \<open>The thread starts the first queued neuron: from a state that owes it and is not busy.\<close>

lemma proc_start_next:
  assumes J: "jb_ok J" and ports: "proc_prevmem_size_i p = int (jb_n J)" "proc_start_weight_i p = int (jb_off J)"
    and q: "proc_queue s = q # qs" and inv: "\<forall>q \<in> set (proc_queue s). 0 \<le> q \<and> q < int (jb_m J)"
    "length (proc_queue s) \<le> QUEUE_SIZE" "proc_queue_size_o s = int (length (proc_queue s))"
    "0 \<le> proc_prevmem_addr_o s" "\<not> proc_resmem_w_o s" "\<not> proc_contr_empty_o s"
  obtains s' where "proc_head p s = Inr s'" and "proc_inv expf J s'"
    and "proc_address s' = proc_address s" and "proc_pc s' \<in> {PROC_Fetch1, PROC_Bias1}"
    and "proc_queue s' = qs" and "proc_number_of_nn s' = q"
    and "proc_count_neurons_calc s' = proc_count_neurons_calc s"
    and "proc_todo J s' = 2 * jb_n J + 4 + (2 * jb_n J + 4) * length qs"
proof -
  obtain j where j: "q = int j" "j < jb_m J"
    using inv(1) q by (metis list.set_intros(1) nonneg_int_cases of_nat_less_iff)
  let ?t = "s\<lparr>proc_is_working := True, proc_sum_reg := float_zero, proc_number_of_nn := int j,
    proc_queue := qs, proc_i := 0\<rparr>"
  have "proc_head p s = Inr (proc_at J j 0 ?t)"
    using proc_head_at [OF J ports, of s j qs] q j by simp
  moreover have "proc_inv expf J (proc_at J j 0 ?t)"
    by (rule proc_inv_at) (use j inv q in auto)
  moreover have "proc_todo J (proc_at J j 0 ?t) = 2 * jb_n J + 4 + (2 * jb_n J + 4) * length qs"
    using inv(6) by (simp add: proc_at_def proc_todo_def)
  ultimately show ?thesis using that j by (simp add: proc_at_def split: if_splits)
qed

definition proc_goes :: "(float32 \<Rightarrow> float32) \<Rightarrow> job \<Rightarrow> proc_ports \<Rightarrow> processor \<Rightarrow> processor \<Rightarrow> bool" where
  "proc_goes expf J p s s' \<longleftrightarrow>
     proc_process expf p s = Inr s' \<and> proc_inv expf J s' \<and> proc_effect J s s' \<and>
     (if proc_contr_empty_o s then proc_contr_empty_o s' \<and> proc_todo J s' = 0 else proc_todo J s' < proc_todo J s)"

lemma proc_mid_busy: "proc_mid expf J s \<Longrightarrow> proc_pc s \<noteq> PROC_Empty \<Longrightarrow> \<exists>j. proc_busy expf J j s"
  by (simp add: proc_mid_def)

lemma jb_ok_n: "jb_ok J \<Longrightarrow> int (jb_n J) < INT_MAX"
proof -
  assume J: "jb_ok J"
  then have "jb_n J + 1 \<le> (jb_n J + 1) * jb_m J" by (cases "jb_m J") (auto simp: jb_ok_def)
  moreover have "int (jb_off J + (jb_n J + 1) * jb_m J) \<le> INT_MAX" using J by (simp only: jb_ok_def)
  ultimately show ?thesis by linarith
qed

lemma proc_goes_head:
  assumes J: "jb_ok J" and ports: "proc_prevmem_size_i p = int (jb_n J)" "proc_start_weight_i p = int (jb_off J)"
    and mid: "proc_mid expf J s" and pc: "proc_pc s = PROC_Empty"
  shows "\<exists>s'. proc_goes expf J p s s'"
proof (cases "proc_queue s")
  case Nil
  with mid pc have "proc_inv expf J s" "proc_contr_empty_o s" by (auto simp: proc_mid_def proc_inv_def)
  moreover have "proc_process expf p s = Inr s" using pc Nil by (simp add: proc_process_def proc_head_empty)
  ultimately show ?thesis
    using pc Nil by (intro exI [of _ s]) (simp add: proc_goes_def proc_effect_def proc_todo_def)
next
  case (Cons q qs)
  have *: "\<forall>q \<in> set (proc_queue s). 0 \<le> q \<and> q < int (jb_m J)" "length (proc_queue s) \<le> QUEUE_SIZE"
    "proc_queue_size_o s = int (length (proc_queue s))" "0 \<le> proc_prevmem_addr_o s" "\<not> proc_resmem_w_o s"
    "\<not> proc_contr_empty_o s"
    using mid pc Cons by (auto simp: proc_mid_def)
  obtain s' where s': "proc_head p s = Inr s'" "proc_inv expf J s'" "proc_address s' = proc_address s"
    "proc_pc s' \<in> {PROC_Fetch1, PROC_Bias1}" "proc_queue s' = qs" "proc_number_of_nn s' = q"
    "proc_count_neurons_calc s' = proc_count_neurons_calc s"
    "proc_todo J s' = 2 * jb_n J + 4 + (2 * jb_n J + 4) * length qs"
    by (rule proc_start_next [OF J ports Cons *])
  then show ?thesis
    using pc Cons *(6)
    by (intro exI [of _ s']) (auto simp: proc_goes_def proc_process_def proc_effect_def proc_owes_def proc_load_def proc_todo_def)
qed

lemma proc_goes_fetch1:
  assumes mid: "proc_mid expf J s" and pc: "proc_pc s \<in> {PROC_Fetch1, PROC_Bias1}"
  shows "\<exists>s'. proc_goes expf J p s s'"
proof -
  let ?s' = "s\<lparr>proc_pc := if proc_pc s = PROC_Fetch1 then PROC_Fetch2 else PROC_Bias2\<rparr>"
  have "proc_pc s \<noteq> PROC_Empty" using pc by auto
  with mid obtain j where "proc_busy expf J j s" by (auto dest: proc_mid_busy)
  then have "proc_busy expf J j ?s'" using pc by (auto simp: proc_busy_def)
  then have "proc_inv expf J ?s'" using mid pc by (auto simp: proc_mid_def proc_inv_def)
  moreover have "proc_process expf p s = Inr ?s'" using pc by (auto simp: proc_process_def)
  moreover have "\<not> proc_contr_empty_o s" using mid pc by (auto simp: proc_mid_def)
  ultimately show ?thesis
    using pc by (intro exI [of _ ?s'])
      (auto simp: proc_goes_def proc_effect_def proc_owes_def proc_load_def proc_todo_def)
qed

lemma proc_goes_fetch2:
  assumes J: "jb_ok J" and ports: "proc_prevmem_size_i p = int (jb_n J)" "proc_start_weight_i p = int (jb_off J)"
    and mid: "proc_mid expf J s" and pc: "proc_pc s = PROC_Fetch2"
    and data: "zeq (proc_prevmem_data_i p) (jb_x J (proc_prevmem_addr_o s))"
    "zeq (proc_weight_data_i p) (jb_w J (proc_weight_addr_o s))"
  shows "\<exists>s'. proc_goes expf J p s s'"
proof -
  obtain j i where j: "proc_is_working s" "proc_number_of_nn s = int j" "j < jb_m J" "i < jb_n J" "proc_i s = int i"
    "proc_weight_addr_o s = int (jb_addr J j i)" "proc_prevmem_addr_o s = int i" "proc_sum_reg s = jb_sum J j i"
    using mid pc by (auto simp: proc_mid_def proc_busy_def)
  have sum: "float_add (proc_sum_reg s) (float_mul (proc_prevmem_data_i p) (proc_weight_data_i p)) = jb_sum J j (Suc i)"
    using zeq_add [OF not_neg_zero_jb_sum zeq_mul [OF data]] j(6-8) by (simp add: jb_sum_Suc)
  have "is_cint (int i + 1)" using j(4) jb_ok_n [OF J] by (auto simp: is_cint_def INT_MIN_def)
  let ?t = "s\<lparr>proc_sum_reg := jb_sum J j (Suc i), proc_i := int (Suc i)\<rparr>"
  let ?s' = "proc_at J j (Suc i) ?t"
  have "proc_for_head p ?t = Inr ?s'"
    by (rule proc_for_head_at [OF J ports]) (use j in auto)
  then have "proc_process expf p s = Inr ?s'"
    using pc j(5) sum \<open>is_cint (int i + 1)\<close> by (simp add: proc_process_def add.commute)
  moreover have ne: "\<not> proc_contr_empty_o s" using mid pc by (auto simp: proc_mid_def)
  moreover have "proc_inv expf J ?s'"
    by (rule proc_inv_at) (use j mid pc ne in \<open>auto simp: proc_mid_def\<close>)
  ultimately show ?thesis
    using pc j(2,4,5) by (intro exI [of _ ?s'])
      (auto simp: proc_goes_def proc_effect_def proc_owes_def proc_load_def proc_todo_def proc_at_def)
qed

lemma proc_goes_bias2:
  assumes mid: "proc_mid expf J s" and pc: "proc_pc s = PROC_Bias2"
    and data: "zeq (proc_weight_data_i p) (jb_w J (proc_weight_addr_o s))"
  shows "\<exists>s'. proc_goes expf J p s s'"
proof -
  obtain j where j: "proc_is_working s" "proc_number_of_nn s = int j" "j < jb_m J"
    "proc_weight_addr_o s = int (jb_addr J j (jb_n J))" "proc_sum_reg s = jb_sum J j (jb_n J)"
    using mid pc by (auto simp: proc_mid_def proc_busy_def)
  have sum: "float_add (proc_sum_reg s) (proc_weight_data_i p) = float_add (jb_sum J j (jb_n J)) (jb_w J (int (jb_addr J j (jb_n J))))"
    using zeq_add [OF not_neg_zero_jb_sum data] j(4,5) by simp
  let ?s' = "s\<lparr>proc_sum_reg := float_add (jb_sum J j (jb_n J)) (jb_w J (int (jb_addr J j (jb_n J)))),
    proc_resmem_addr_o := int j, proc_resmem_data_o := jb_value expf J j, proc_resmem_w_o := True,
    proc_pc := PROC_Write\<rparr>"
  have "proc_busy expf J j ?s'" using j by (simp add: proc_busy_def)
  then have "proc_inv expf J ?s'" using mid pc by (auto simp: proc_mid_def proc_inv_def)
  moreover have "proc_process expf p s = Inr ?s'"
    using pc sum j(2) by (simp add: proc_process_def jb_value_eq Let_def)
  moreover have "\<not> proc_contr_empty_o s" using mid pc by (auto simp: proc_mid_def)
  ultimately show ?thesis
    using pc by (intro exI [of _ ?s'])
      (auto simp: proc_goes_def proc_effect_def proc_owes_def proc_load_def proc_todo_def)
qed

lemma proc_goes_write:
  assumes J: "jb_ok J" and ports: "proc_prevmem_size_i p = int (jb_n J)" "proc_start_weight_i p = int (jb_off J)"
    and mid: "proc_mid expf J s" and pc: "proc_pc s = PROC_Write"
    and count: "is_cint (proc_count_neurons_calc s + 1)"
  shows "\<exists>s'. proc_goes expf J p s s'"
proof -
  let ?t = "s\<lparr>proc_resmem_w_o := False, proc_is_working := False,
    proc_count_neurons_calc := proc_count_neurons_calc s + 1\<rparr>"
  have step: "proc_process expf p s = proc_head p ?t"
    using pc count by (simp add: proc_process_def)
  have ne: "\<not> proc_contr_empty_o s" using mid pc by (auto simp: proc_mid_def)
  show ?thesis
  proof (cases "proc_queue s")
    case Nil
    let ?s' = "?t\<lparr>proc_pc := PROC_Empty\<rparr>"
    have "proc_process expf p s = Inr ?s'" using step Nil by (simp add: proc_head_empty)
    moreover have "proc_inv expf J ?s'" using mid ne Nil by (auto simp: proc_mid_def proc_inv_def)
    ultimately show ?thesis
      using pc Nil ne by (intro exI [of _ ?s'])
        (auto simp: proc_goes_def proc_effect_def proc_owes_def proc_load_def proc_todo_def)
  next
    case (Cons q qs)
    have q: "proc_queue ?t = q # qs" using Cons by simp
    have *: "\<forall>q \<in> set (proc_queue ?t). 0 \<le> q \<and> q < int (jb_m J)" "length (proc_queue ?t) \<le> QUEUE_SIZE"
      "proc_queue_size_o ?t = int (length (proc_queue ?t))" "0 \<le> proc_prevmem_addr_o ?t" "\<not> proc_resmem_w_o ?t"
      "\<not> proc_contr_empty_o ?t"
      using mid ne Cons by (auto simp: proc_mid_def)
    obtain s' where s': "proc_head p ?t = Inr s'" "proc_inv expf J s'" "proc_address s' = proc_address ?t"
      "proc_pc s' \<in> {PROC_Fetch1, PROC_Bias1}" "proc_queue s' = qs" "proc_number_of_nn s' = q"
      "proc_count_neurons_calc s' = proc_count_neurons_calc ?t"
      "proc_todo J s' = 2 * jb_n J + 4 + (2 * jb_n J + 4) * length qs"
      by (rule proc_start_next [OF J ports q *])
    show ?thesis
      using pc Cons ne step s'
      by (intro exI [of _ s']) (auto simp: proc_goes_def proc_effect_def proc_owes_def proc_load_def proc_todo_def)
  qed
qed

text \<open>The thread, from whatever wait it is suspended in.\<close>

lemma proc_thread:
  assumes "jb_ok J" and "proc_prevmem_size_i p = int (jb_n J)" and "proc_start_weight_i p = int (jb_off J)"
    and "proc_mid expf J s" and "is_cint (proc_count_neurons_calc s + 1)"
    and "proc_pc s = PROC_Fetch2 \<Longrightarrow> zeq (proc_prevmem_data_i p) (jb_x J (proc_prevmem_addr_o s))"
    and "proc_pc s \<in> {PROC_Fetch2, PROC_Bias2} \<Longrightarrow> zeq (proc_weight_data_i p) (jb_w J (proc_weight_addr_o s))"
  shows "\<exists>s'. proc_goes expf J p s s'"
proof (cases "proc_pc s")
  case PROC_Start
  then show ?thesis using assms(4) by (auto simp: proc_mid_def proc_busy_def)
qed (use assms in \<open>auto intro: proc_goes_head proc_goes_fetch1 proc_goes_fetch2 proc_goes_bias2 proc_goes_write\<close>)

text \<open>The whole edge.  \<open>proc_step\<close> lists what changes: \<open>Write\<close> is the edge at which the
  result memory takes the value the processor has on its bus.\<close>

definition proc_stepped :: "(float32 \<Rightarrow> float32) \<Rightarrow> job \<Rightarrow> proc_ports \<Rightarrow> processor \<Rightarrow> processor \<Rightarrow> bool" where
  "proc_stepped expf J p s s' \<longleftrightarrow>
     proc_posedge expf p s = Inr s' \<and> proc_inv expf J s' \<and> proc_address s' = proc_address s \<and>
     proc_owes s \<union> (if proc_accepts p s then {nat (proc_queue_data_i p)} else {})
       \<subseteq> proc_owes s' \<union> (if proc_pc s = PROC_Write then {nat (proc_number_of_nn s)} else {}) \<and>
     proc_load s + (if proc_accepts p s then 1 else 0) = proc_load s' + (if proc_pc s = PROC_Write then 1 else 0) \<and>
     proc_count_neurons_calc s' = proc_count_neurons_calc s + (if proc_pc s = PROC_Write then 1 else 0) \<and>
     (proc_pc s' = PROC_Fetch2 \<longrightarrow> proc_weight_addr_o s' = proc_weight_addr_o s \<and> proc_prevmem_addr_o s' = proc_prevmem_addr_o s) \<and>
     (proc_pc s' = PROC_Bias2 \<longrightarrow> proc_weight_addr_o s' = proc_weight_addr_o s) \<and>
     (if proc_accepts p s then proc_todo J s' \<le> proc_todo J s + 2 * jb_n J + 4 \<and> \<not> proc_contr_empty_o s'
      else proc_todo J s' \<le> proc_todo J s - 1 \<and> (proc_contr_empty_o s \<longrightarrow> proc_contr_empty_o s'))"

lemma proc_step_quiet:
  assumes J: "jb_ok J" and inv: "proc_inv expf J s" and env: "proc_env J p s"
    and count: "is_cint (proc_count_neurons_calc s + 1)" and acc: "\<not> proc_accepts p s"
  shows "\<exists>s'. proc_stepped expf J p s s'"
proof -
  let ?e = "if proc_queue s = [] then \<not> proc_is_working s else proc_contr_empty_o s"
  let ?t = "s\<lparr>proc_queue_size_o := int (length (proc_queue s)), proc_contr_empty_o := ?e\<rparr>"
  have e: "?e \<longleftrightarrow> proc_pc s = PROC_Empty"
  proof (cases "proc_pc s = PROC_Empty")
    case False
    with inv obtain j where "proc_busy expf J j s" by (auto simp: proc_inv_def)
    then show ?thesis using inv False by (simp add: proc_inv_def proc_busy_def)
  next
    case True
    then show ?thesis using inv by (simp add: proc_inv_def)
  qed
  have mid: "proc_mid expf J ?t"
    using inv e unfolding proc_inv_def proc_mid_def by simp
  have todo: "proc_todo J ?t \<le> proc_todo J s" "?e \<Longrightarrow> proc_todo J s \<le> 1"
    using inv e by (cases "proc_pc s"; simp add: proc_todo_def proc_inv_def)+
  obtain s' where s': "proc_goes expf J p ?t s'"
    using proc_thread [OF J _ _ mid, of p] env count by (auto simp: proc_env_def)
  have "proc_posedge expf p s = Inr s'"
    using s' by (simp add: proc_posedge_def proc_methods_quiet [OF acc] proc_goes_def)
  moreover have "proc_todo J s' \<le> proc_todo J s - 1"
    using s' todo by (auto simp: proc_goes_def split: if_splits)
  moreover have "proc_contr_empty_o s \<longrightarrow> proc_contr_empty_o s'"
    using s' inv e by (auto simp: proc_goes_def proc_inv_def split: if_splits)
  moreover have "proc_owes ?t = proc_owes s" "proc_load ?t = proc_load s"
    by (simp_all add: proc_owes_def proc_load_def)
  moreover have "proc_inv expf J s'" "proc_effect J ?t s'" using s' by (simp_all add: proc_goes_def)
  ultimately show ?thesis
    using acc by (intro exI [of _ s'], cases "proc_pc s = PROC_Write") (simp_all add: proc_stepped_def proc_effect_def)
qed

lemma proc_step_accept:
  assumes J: "jb_ok J" and inv: "proc_inv expf J s" and env: "proc_env J p s"
    and count: "is_cint (proc_count_neurons_calc s + 1)" and acc: "proc_accepts p s"
  shows "\<exists>s'. proc_stepped expf J p s s'"
proof -
  have room: "length (proc_queue s) < QUEUE_SIZE" "0 \<le> proc_queue_data_i p" "proc_queue_data_i p < int (jb_m J)"
    using env acc by (auto simp: proc_env_def)
  let ?t = "s\<lparr>proc_queue := proc_queue s @ [proc_queue_data_i p],
    proc_contr_empty_o := False, proc_queue_size_o := int (length (proc_queue s) + 1)\<rparr>"
  have mid: "proc_mid expf J ?t"
    using inv room unfolding proc_inv_def proc_mid_def by auto
  have todo: "proc_todo J ?t \<le> proc_todo J s + 2 * jb_n J + 5"
    by (cases "proc_pc s") (simp_all add: proc_todo_def)
  obtain s' where s': "proc_goes expf J p ?t s'"
    using proc_thread [OF J _ _ mid, of p] env count by (auto simp: proc_env_def)
  have "proc_posedge expf p s = Inr s'"
    using s' by (simp add: proc_posedge_def proc_methods_full [OF acc room(1)] proc_goes_def)
  moreover have "proc_todo J s' \<le> proc_todo J s + 2 * jb_n J + 4"
    using s' todo by (auto simp: proc_goes_def)
  moreover have "\<not> proc_contr_empty_o s'"
  proof
    assume "proc_contr_empty_o s'"
    with s' have "proc_load s' = 0" by (auto simp: proc_goes_def proc_inv_def proc_load_def split: if_splits)
    then show False using s' by (auto simp: proc_goes_def proc_effect_def proc_load_def split: if_splits)
  qed
  moreover have "proc_owes ?t = proc_owes s \<union> {nat (proc_queue_data_i p)}" "proc_load ?t = proc_load s + 1"
    by (simp_all add: proc_owes_def proc_load_def)
  moreover have "proc_inv expf J s'" "proc_effect J ?t s'" using s' by (simp_all add: proc_goes_def)
  ultimately show ?thesis
    using acc by (intro exI [of _ s'], cases "proc_pc s = PROC_Write") (simp_all add: proc_stepped_def proc_effect_def)
qed

lemma proc_step:
  assumes "jb_ok J" and "proc_inv expf J s" and "proc_env J p s" and "is_cint (proc_count_neurons_calc s + 1)"
  shows "\<exists>s'. proc_stepped expf J p s s'"
  using assms proc_step_quiet proc_step_accept by blast

end
