(* ===== verification/System_Edge.thy ===== *)
theory System_Edge
  imports System Processor_Job
begin

text \<open>
  One clock edge of the whole system, seen from the modules: between two edges every signal
  repeats the port it is bound to (\<open>linked\<close>; a float signal up to the sign of a zero), and
  \<open>END_REDUCER\<close> has settled (\<open>er_ok\<close>).  \<open>sys_edgeI\<close> then composes the edges of the modules
  into the edge of the system, and the other files never look at the kernel's phases again.
\<close>

section \<open>Signals repeat ports\<close>

definition linked :: "sys \<Rightarrow> bool" where
  "linked s \<longleftrightarrow>
     length (sy_proc s) = COUNT_PC_UNIT \<and>
     addr_io_bus (sy_sig s) = io_addr_o (sy_io s) \<and>
     next_layer (sy_sig s) = ct_next_layer_o (sy_ct s) \<and>
     data_layer (sy_sig s) = ls_data_o (sy_ls s) \<and>
     addr_weight_bus (sy_sig s) = map proc_weight_addr_o (sy_proc s) \<and>
     list_all2 zeq (data_weight_bus (sy_sig s)) (ws_data_out_bus_o (sy_ws s)) \<and>
     addr_prev_layer_bus (sy_sig s) = map proc_prevmem_addr_o (sy_proc s) \<and>
     list_all2 zeq (data_prev_layer_bus (sy_sig s)) (pl_data_PC_bus_o (sy_pl s)) \<and>
     wr_to_mem_from_mem_ctrl_mem_bus (sy_sig s) = plc_wr_to_memory_from_mem_o (sy_plc s) \<and>
     wr_to_io_ctrl_mem_bus (sy_sig s) = plc_wr_to_out_o (sy_plc s) \<and>
     clr_prev_layer_ctrl_mem_bus (sy_sig s) = plc_clr_o (sy_plc s) \<and>
     zeq (data_from_now_layer_to_next_layer (sy_sig s)) (nl_data_o (sy_nl s)) \<and>
     next_memory_transmit (sy_sig s) = plc_next_o (sy_plc s) \<and>
     clr_prev_layer_controller_bus (sy_sig s) = ct_clr_o (sy_ct s) \<and>
     start_clone_controller_bus (sy_sig s) = ct_start_clone_o (sy_ct s) \<and>
     end_clone_controller_bus (sy_sig s) = plc_end_clone_o (sy_plc s) \<and>
     write_out_controller_bus (sy_sig s) = ct_write_out_o (sy_ct s) \<and>
     save_prev_layer_size (sy_sig s) = ct_save_prev_o (sy_ct s) \<and>
     start_generator (sy_sig s) = ct_start_generator_o (sy_ct s) \<and>
     start_weight_adderess (sy_sig s) = ct_start_weight_o (sy_ct s) \<and>
     previous_data_layer (sy_sig s) = pls_data_o (sy_pls s) \<and>
     gen_address (sy_sig s) = gen_address_o (sy_gen s) \<and>
     gen_data (sy_sig s) = gen_data_o (sy_gen s) \<and>
     gen_write (sy_sig s) = gen_w_o (sy_gen s) \<and>
     gen_end (sy_sig s) = gen_end_generate_o (sy_gen s) \<and>
     gen_size (sy_sig s) = map proc_queue_size_o (sy_proc s) \<and>
     resmem_addr_bus (sy_sig s) = map proc_resmem_addr_o (sy_proc s) \<and>
     list_all2 zeq (resmem_data_bus (sy_sig s)) (map proc_resmem_data_o (sy_proc s)) \<and>
     resmem_w_bus (sy_sig s) = map proc_resmem_w_o (sy_proc s) \<and>
     contr_empty_bus (sy_sig s) = map proc_contr_empty_o (sy_proc s)"

definition er_ok :: "sys \<Rightarrow> bool" where
  "er_ok s \<longleftrightarrow> sy_er_pending s \<or>
     (sy_cycle_ended_o s = er_reduce (er_bind (sy_sig s)) \<and> cycle_ended (sy_sig s) = sy_cycle_ended_o s)"

lemma commit_float_zeq: "zeq (commit_float cur new) new"
proof (cases "float_eq new cur")
  case True
  then have "zeq new cur" by (simp add: zeq_iff)
  with True show ?thesis by (simp add: commit_float_def zeq_sym)
qed (simp add: commit_float_def)

lemma commit_floats_zeq:
  "length cs = length ns \<Longrightarrow> list_all2 zeq (map2 commit_float cs ns) ns"
  by (auto simp: list_all2_conv_all_nth commit_float_zeq)

section \<open>The edge\<close>

text \<open>The signals after an edge, given what the modules left on their ports.\<close>

lemma update_signals_linked:
  assumes "length (sy_proc s) = COUNT_PC_UNIT" and "length (data_weight_bus (sy_sig s)) = length (ws_data_out_bus_o (sy_ws s))"
    and "length (data_prev_layer_bus (sy_sig s)) = length (pl_data_PC_bus_o (sy_pl s))"
    and "length (resmem_data_bus (sy_sig s)) = COUNT_PC_UNIT"
    and "shared_write (pl_data_io_write (sy_pl s)) (io_data_write (sy_io s)) (data_io_bus (sy_sig s)) = Inr d"
    and "shared_write (pl_wr_io_write (sy_pl s)) (io_wr_write (sy_io s)) (wr_io_bus (sy_sig s)) = Inr w"
  shows "\<exists>g. update_signals s = Inr g \<and> (\<forall>p. linked (s\<lparr>sy_sig := g, sy_er_pending := p\<rparr>)) \<and>
    data_io_bus g = commit_float (data_io_bus (sy_sig s)) d \<and> wr_io_bus g = w \<and> cycle_ended g = sy_cycle_ended_o s"
  unfolding update_signals_def assms(5,6) Let_def rbind_Inr linked_def
  using assms(1-4) by (auto intro!: commit_floats_zeq commit_float_zeq)

lemma linked_cycle_ended: "linked (s\<lparr>sy_sig := g, sy_er_pending := p\<rparr>) \<Longrightarrow>
    linked (s\<lparr>sy_cycle_ended_o := c, sy_sig := g\<lparr>cycle_ended := e\<rparr>, sy_er_pending := q, sy_time := t\<rparr>)"
  by (simp add: linked_def)

text \<open>The state after an edge in terms of the states of the modules.\<close>

definition sys_became :: "sys \<Rightarrow> sys \<Rightarrow> next_layer_mem \<Rightarrow> (nat \<Rightarrow> processor) \<Rightarrow> previous_layer_size \<Rightarrow>
    previous_layer_controller \<Rightarrow> previous_layer \<Rightarrow> weight_storage \<Rightarrow> layers_storage \<Rightarrow> controller \<Rightarrow>
    io_module \<Rightarrow> generator \<Rightarrow> float32 \<Rightarrow> bool \<Rightarrow> bool" where
  "sys_became s s' nl pr pls plc pl ws ls ct io gen d w \<longleftrightarrow>
     sy_nl s' = nl \<and> sy_proc s' = map pr [0..<COUNT_PC_UNIT] \<and> sy_pls s' = pls \<and> sy_plc s' = plc \<and>
     sy_pl s' = pl \<and> sy_ws s' = ws \<and> sy_ls s' = ls \<and> sy_ct s' = ct \<and> sy_io s' = io \<and> sy_gen s' = gen \<and>
     data_io_bus (sy_sig s') = commit_float (data_io_bus (sy_sig s)) d \<and> wr_io_bus (sy_sig s') = w \<and>
     (pl_stop pl \<or> linked s' \<and> er_ok s' \<and> \<not> sy_er_pending s' \<and> sy_time s' = sy_time s + CLOCK_PERIOD)"

lemma er_ok_settle:
  assumes upd: "sys_update s1 = Inr s2" and er: "er_ok s"
    and s1: "sy_sig s1 = sy_sig s" "sy_er_pending s1 = sy_er_pending s"
    "sy_cycle_ended_o s1 = (if sy_er_pending s then er_reduce (er_bind (sy_sig s)) else sy_cycle_ended_o s)"
  shows "er_ok (sys_settle s2)" and "\<not> sy_er_pending (sys_settle s2)"
proof -
  show np: "\<not> sy_er_pending (sys_settle s2)" by (simp add: sys_settle_def Let_def)
  obtain g where g: "update_signals s1 = Inr g"
    "s2 = s1\<lparr>sy_sig := g, sy_er_pending := er_triggered (er_bind (sy_sig s1)) (er_bind g)\<rparr>"
    using upd by (auto simp: sys_update_def)
  have ce: "cycle_ended g = sy_cycle_ended_o s1"
    using g(1) by (auto simp: update_signals_def Let_def rbind_eq_Inr)
  have red: "sy_cycle_ended_o s1 = er_reduce (er_bind (sy_sig s))"
    using er s1(3) by (auto simp: er_ok_def)
  show "er_ok (sys_settle s2)"
  proof (cases "er_triggered (er_bind (sy_sig s)) (er_bind g)")
    case True
    then show ?thesis using g(2) s1(1) by (simp add: sys_settle_def er_ok_def Let_def er_bind_def)
  next
    case False
    from er_reduce_cong [OF this] show ?thesis
      using False g(2) s1(1) ce red by (simp add: sys_settle_def er_ok_def)
  qed
qed

lemma linked_settle: "linked s \<Longrightarrow> linked ((sys_settle s)\<lparr>sy_time := t\<rparr>)"
  by (auto simp: sys_settle_def linked_def Let_def)

lemma er_ok_time: "er_ok (s\<lparr>sy_time := t\<rparr>) = er_ok s"
  by (simp add: er_ok_def)

lemma linked_lengths:
  assumes "linked s"
  shows "length (data_weight_bus (sy_sig s)) = length (ws_data_out_bus_o (sy_ws s))"
    and "length (data_prev_layer_bus (sy_sig s)) = length (pl_data_PC_bus_o (sy_pl s))"
    and "length (resmem_data_bus (sy_sig s)) = COUNT_PC_UNIT"
proof -
  have "list_all2 zeq (data_weight_bus (sy_sig s)) (ws_data_out_bus_o (sy_ws s))"
    and "list_all2 zeq (data_prev_layer_bus (sy_sig s)) (pl_data_PC_bus_o (sy_pl s))"
    and r: "list_all2 zeq (resmem_data_bus (sy_sig s)) (map proc_resmem_data_o (sy_proc s))"
    and n: "length (sy_proc s) = COUNT_PC_UNIT"
    using assms unfolding linked_def by blast+
  then show "length (data_weight_bus (sy_sig s)) = length (ws_data_out_bus_o (sy_ws s))"
    and "length (data_prev_layer_bus (sy_sig s)) = length (pl_data_PC_bus_o (sy_pl s))"
    by (auto dest: list_all2_lengthD)
  show "length (resmem_data_bus (sy_sig s)) = COUNT_PC_UNIT"
    using list_all2_lengthD [OF r] n by simp
qed

lemma sys_edgeI:
  assumes L: "linked s" "er_ok s"
    and nl: "nl_posedge (nl_bind (sy_sig s)) (sy_nl s) = Inr nl"
    and pr: "\<And>i. i < COUNT_PC_UNIT \<Longrightarrow> proc_posedge expf (proc_bind (sy_sig s) i) (sy_proc s ! i) = Inr (pr i)"
    and pls: "pls_posedge (pls_bind (sy_sig s)) (sy_pls s) = Inr pls"
    and plc: "plc_posedge (plc_bind (sy_sig s)) (sy_plc s) = Inr plc"
    and pl: "pl_posedge (pl_bind (sy_sig s)) (sy_pl s) = Inr pl"
    and ws: "ws_posedge (ws_bind (sy_sig s)) (sy_ws s) = Inr ws"
    and ls: "ls_posedge (ls_bind (sy_sig s)) (sy_ls s) = Inr ls"
    and ct: "ct_posedge (ct_bind (sy_sig s)) (sy_ct s) = Inr ct"
    and io: "io_posedge (io_bind (sy_time s) (sy_sig s)) (sy_io s) = Inr io"
    and gen: "gen_generate (gen_bind (sy_sig s)) (sy_gen s) = Inr gen"
    and d: "shared_write (pl_data_io_write pl) (io_data_write io) (data_io_bus (sy_sig s)) = Inr d"
    and w: "shared_write (pl_wr_io_write pl) (io_wr_write io) (wr_io_bus (sy_sig s)) = Inr w"
    and len: "length (ws_data_out_bus_o ws) = length (ws_data_out_bus_o (sy_ws s))"
      "length (pl_data_PC_bus_o pl) = length (pl_data_PC_bus_o (sy_pl s))"
  shows "\<exists>s'. sys_edge expf s = Inr s' \<and> sys_became s s' nl pr pls plc pl ws ls ct io gen d w"
proof -
  have n: "length (sy_proc s) = COUNT_PC_UNIT" using L(1) by (simp add: linked_def)
  let ?s1 = "s\<lparr>sy_io := io, sy_ct := ct, sy_ls := ls, sy_ws := ws, sy_pl := pl, sy_plc := plc,
    sy_pls := pls, sy_gen := gen, sy_proc := map pr [0..<COUNT_PC_UNIT], sy_nl := nl,
    sy_cycle_ended_o := (if sy_er_pending s then er_reduce (er_bind (sy_sig s)) else sy_cycle_ended_o s)\<rparr>"
  have "rmap (\<lambda>i. proc_posedge expf (proc_bind (sy_sig s) i) (sy_proc s ! i)) [0..<length (sy_proc s)]
      = Inr (map pr [0..<COUNT_PC_UNIT])"
    unfolding n by (rule rmap_total) (simp add: pr)
  then have ev: "sys_evaluate expf s = Inr ?s1"
    by (simp add: sys_evaluate_def Let_def nl pls plc pl ws ls ct io gen)
  note lens = linked_lengths [OF L(1)]
  have "length (sy_proc ?s1) = COUNT_PC_UNIT"
    and "length (data_weight_bus (sy_sig ?s1)) = length (ws_data_out_bus_o (sy_ws ?s1))"
    and "length (data_prev_layer_bus (sy_sig ?s1)) = length (pl_data_PC_bus_o (sy_pl ?s1))"
    and "length (resmem_data_bus (sy_sig ?s1)) = COUNT_PC_UNIT"
    and "shared_write (pl_data_io_write (sy_pl ?s1)) (io_data_write (sy_io ?s1)) (data_io_bus (sy_sig ?s1)) = Inr d"
    and "shared_write (pl_wr_io_write (sy_pl ?s1)) (io_wr_write (sy_io ?s1)) (wr_io_bus (sy_sig ?s1)) = Inr w"
    by (simp_all add: lens len d w)
  note upd = update_signals_linked [OF this]
  obtain g where g: "update_signals ?s1 = Inr g" "\<forall>p. linked (?s1\<lparr>sy_sig := g, sy_er_pending := p\<rparr>)"
    "data_io_bus g = commit_float (data_io_bus (sy_sig ?s1)) d" "wr_io_bus g = w"
    using upd by blast
  let ?s2 = "?s1\<lparr>sy_sig := g, sy_er_pending := er_triggered (er_bind (sy_sig s)) (er_bind g)\<rparr>"
  have up: "sys_update ?s1 = Inr ?s2" by (simp add: sys_update_def g(1))
  show ?thesis
  proof (cases "pl_stop pl")
    case True
    then have "sys_edge expf s = Inr ?s2" by (simp add: sys_edge_def ev up)
    with True g(3,4) show ?thesis by (intro exI [of _ ?s2]) (simp add: sys_became_def)
  next
    case False
    let ?s3 = "(sys_settle ?s2)\<lparr>sy_time := sy_time s + CLOCK_PERIOD\<rparr>"
    have "sys_edge expf s = Inr ?s3" using False by (simp add: sys_edge_def ev up)
    moreover have "linked ?s3" by (rule linked_settle) (use g(2) in blast)
    moreover have "er_ok ?s3" "\<not> sy_er_pending ?s3"
      using er_ok_settle [OF up L(2)] by (simp_all add: er_ok_time)
    ultimately show ?thesis using g(3,4)
      by (intro exI [of _ ?s3]) (simp add: sys_became_def sys_settle_def Let_def)
  qed
qed

section \<open>Many edges\<close>

text \<open>The simulation loop repeats this step: a stopped system stays as it is.\<close>

definition sys_tick :: "(float32 \<Rightarrow> float32) \<Rightarrow> sys \<Rightarrow> sys res" where
  "sys_tick expf s = (if pl_stop (sy_pl s) then Inr s else sys_edge expf s)"

lemma sys_run_tick: "sys_run expf (Suc n) s = rbind (sys_tick expf s) (sys_run expf n)"
proof -
  have "pl_stop (sy_pl s) \<Longrightarrow> sys_run expf n s = Inr s" by (cases n) simp_all
  then show ?thesis by (simp add: sys_tick_def)
qed

lemma reaches_run:
  assumes "reaches (sys_tick expf) Q s"
  shows "\<exists>n s'. sys_run expf n s = Inr s' \<and> Q s'"
  using assms
proof induction
  case (reaches_now s)
  then show ?case by (intro exI [of _ 0]) simp
next
  case (reaches_later s s')
  then obtain n t where "sys_run expf n s' = Inr t" "Q t" by blast
  with reaches_later(1) have "sys_run expf (Suc n) s = Inr t \<and> Q t" by (simp add: sys_run_tick del: sys_run.simps)
  then show ?case by blast
qed

lemma sys_run_stopped: "pl_stop (sy_pl s) \<Longrightarrow> sys_run expf n s = Inr s"
  by (cases n) simp_all

lemma sys_run_add: "sys_run expf (m + n) s = rbind (sys_run expf m s) (sys_run expf n)"
  by (induction m arbitrary: s) (simp_all add: sys_run_stopped rbind_def split: sum.splits)

text \<open>Once the simulation has stopped, more periods do not change the result.\<close>

lemma sys_run_enough:
  assumes "sys_run expf n s = Inr s'" and "pl_stop (sy_pl s')" and "n \<le> m"
  shows "sys_run expf m s = Inr s'"
  using sys_run_add [of expf n "m - n" s] assms by (simp add: sys_run_stopped)

end
