(* ===== verification/Run_Base.thy ===== *)
theory Run_Base
  imports System_Edge
begin

text \<open>
  Edges at which the processors and the generator rest: everything outside the calculation
  of a layer.  \<open>calm_edge\<close> advances the rest of the system over such an edge.
\<close>

section \<open>Resting components\<close>

definition gen_calm :: "generator \<Rightarrow> bool" where
  "gen_calm g \<longleftrightarrow> gen_state g = GEN_IDLE \<and> gen_pc g \<in> {GEN_Start, GEN_Idle} \<and> gen_end_generate_o g \<and>
     gen_address_o g = 0 \<and> gen_data_o g = 0 \<and> \<not> gen_w_o g \<and> gen_counter g = 0"

lemma gen_generate_calm:
  assumes "gen_calm g" and "\<not> gen_generate_i p"
  shows "gen_generate p g = Inr (g\<lparr>gen_pc := GEN_Idle\<rparr>)"
  using assms by (cases g) (auto simp: gen_calm_def gen_generate_def gen_switch_def Let_def)

definition proc_calm :: "processor \<Rightarrow> bool" where
  "proc_calm s \<longleftrightarrow> proc_queue s = [] \<and> \<not> proc_is_working s \<and> proc_pc s \<in> {PROC_Start, PROC_Empty} \<and>
     \<not> proc_resmem_w_o s \<and> 0 \<le> proc_weight_addr_o s \<and> 0 \<le> proc_prevmem_addr_o s"

definition proc_calmed :: "processor \<Rightarrow> processor" where
  "proc_calmed s = s\<lparr>proc_contr_empty_o := True, proc_queue_size_o := 0, proc_pc := PROC_Empty\<rparr>"

lemma proc_calmed [simp]:
  "proc_calm s \<Longrightarrow> proc_calm (proc_calmed s)" "proc_address (proc_calmed s) = proc_address s"
  "proc_count_neurons_calc (proc_calmed s) = proc_count_neurons_calc s"
  "proc_pc (proc_calmed s) = PROC_Empty" "proc_contr_empty_o (proc_calmed s)"
  "proc_queue_size_o (proc_calmed s) = 0" "proc_weight_addr_o (proc_calmed s) = proc_weight_addr_o s"
  "proc_prevmem_addr_o (proc_calmed s) = proc_prevmem_addr_o s"
  by (simp_all add: proc_calmed_def proc_calm_def)

lemma proc_posedge_calm:
  assumes "proc_calm s" and "\<not> proc_accepts p s"
  shows "proc_posedge expf p s = Inr (proc_calmed s)"
  using assms
  by (cases s) (auto simp: proc_posedge_def proc_methods_quiet proc_calm_def proc_process_def proc_head_empty proc_calmed_def)

section \<open>A calm system\<close>

definition resting :: "sys \<Rightarrow> bool" where
  "resting s \<longleftrightarrow> linked s \<and> er_ok s \<and> \<not> gen_w_o (sy_gen s) \<and>
     (\<forall>k < COUNT_PC_UNIT. proc_calm (sy_proc s ! k) \<and> proc_address (sy_proc s ! k) = int k) \<and>
     length (nl_memory (sy_nl s)) = MEM_SIZE \<and>
     length (ws_data_out_bus_o (sy_ws s)) = COUNT_PC_UNIT \<and> length (pl_data_PC_bus_o (sy_pl s)) = COUNT_PC_UNIT"

definition calm :: "sys \<Rightarrow> bool" where
  "calm s \<longleftrightarrow> resting s \<and> gen_calm (sy_gen s)"

lemma calm_resting: "calm s \<Longrightarrow> resting s"
  by (simp add: calm_def)

lemma resting_linked: "resting s \<Longrightarrow> linked s"
  by (simp add: resting_def)

lemma calm_linked: "calm s \<Longrightarrow> linked s"
  by (simp add: calm_def resting_def)

text \<open>The signals a bound port shows, one lemma per consumer.\<close>

lemma linked_ct:
  "linked s \<Longrightarrow> ct_bind (sy_sig s) =
     \<lparr>ct_addr_i = io_addr_o (sy_io s), ct_data_i = data_io_bus (sy_sig s), ct_wr_i = wr_io_bus (sy_sig s),
      ct_size_of_layer_i = ls_data_o (sy_ls s), ct_end_clone_i = plc_end_clone_o (sy_plc s),
      ct_cycle_ended_i = cycle_ended (sy_sig s), ct_start_weight_cur = ct_start_weight_o (sy_ct s)\<rparr>"
  unfolding linked_def ct_bind_def by simp

lemma linked_ls:
  "linked s \<Longrightarrow> ls_bind (sy_sig s) =
     \<lparr>ls_addr_i = io_addr_o (sy_io s), ls_data_i = data_io_bus (sy_sig s), ls_wr_i = wr_io_bus (sy_sig s),
      ls_next = ct_next_layer_o (sy_ct s)\<rparr>"
  unfolding linked_def ls_bind_def by simp

lemma linked_ws:
  "linked s \<Longrightarrow> ws_bind (sy_sig s) =
     \<lparr>ws_addr_io_bus_i = io_addr_o (sy_io s), ws_data_io_bus_i = data_io_bus (sy_sig s),
      ws_wr_io_bus_i = wr_io_bus (sy_sig s), ws_addr_out_bus_i = map proc_weight_addr_o (sy_proc s)\<rparr>"
  unfolding linked_def ws_bind_def by simp

lemma linked_pl:
  "linked s \<Longrightarrow> pl_bind (sy_sig s) =
     \<lparr>pl_addr_io_bus_i = io_addr_o (sy_io s), pl_data_io_bus_io = data_io_bus (sy_sig s),
      pl_wr_io_bus_io = wr_io_bus (sy_sig s),
      pl_wr_to_memory_from_mem_i = plc_wr_to_memory_from_mem_o (sy_plc s), pl_wr_to_out_i = plc_wr_to_out_o (sy_plc s),
      pl_clr_i = plc_clr_o (sy_plc s), pl_addr_PC_bus_i = map proc_prevmem_addr_o (sy_proc s),
      pl_data_mem_bus_i = data_from_now_layer_to_next_layer (sy_sig s)\<rparr>"
  unfolding linked_def pl_bind_def by simp

lemma linked_plc:
  "linked s \<Longrightarrow> plc_bind (sy_sig s) =
     \<lparr>plc_clr_i = ct_clr_o (sy_ct s), plc_start_clone_i = ct_start_clone_o (sy_ct s),
      plc_write_out_i = ct_write_out_o (sy_ct s), plc_layer_size_i = ls_data_o (sy_ls s)\<rparr>"
  unfolding linked_def plc_bind_def by simp

lemma linked_pls:
  "linked s \<Longrightarrow> pls_bind (sy_sig s) = \<lparr>pls_save_i = ct_save_prev_o (sy_ct s), pls_data_i = ls_data_o (sy_ls s)\<rparr>"
  unfolding linked_def pls_bind_def by simp

lemma linked_gen:
  "linked s \<Longrightarrow> gen_bind (sy_sig s) =
     \<lparr>gen_layer_size_i = ls_data_o (sy_ls s), gen_generate_i = ct_start_generator_o (sy_ct s),
      gen_queue_size_i = map proc_queue_size_o (sy_proc s)\<rparr>"
  unfolding linked_def gen_bind_def by simp

lemma linked_proc:
  "linked s \<Longrightarrow> proc_bind (sy_sig s) k =
     \<lparr>proc_queue_address_i = gen_address_o (sy_gen s), proc_queue_data_i = gen_data_o (sy_gen s),
      proc_queue_w_i = gen_w_o (sy_gen s), proc_start_weight_i = ct_start_weight_o (sy_ct s),
      proc_prevmem_data_i = data_prev_layer_bus (sy_sig s) ! k, proc_weight_data_i = data_weight_bus (sy_sig s) ! k,
      proc_prevmem_size_i = pls_data_o (sy_pls s)\<rparr>"
  unfolding linked_def proc_bind_def by simp

lemma linked_nl:
  "linked s \<Longrightarrow> nl_bind (sy_sig s) =
     \<lparr>nl_addr_i = map proc_resmem_addr_o (sy_proc s), nl_data_i = resmem_data_bus (sy_sig s),
      nl_w_i = map proc_resmem_w_o (sy_proc s), nl_next_i = plc_next_o (sy_plc s)\<rparr>"
  unfolding linked_def nl_bind_def by simp

text \<open>The float signals.\<close>

lemma linked_floats:
  assumes "linked s"
  shows "list_all2 zeq (data_weight_bus (sy_sig s)) (ws_data_out_bus_o (sy_ws s))"
    and "list_all2 zeq (data_prev_layer_bus (sy_sig s)) (pl_data_PC_bus_o (sy_pl s))"
    and "zeq (data_from_now_layer_to_next_layer (sy_sig s)) (nl_data_o (sy_nl s))"
    and "list_all2 zeq (resmem_data_bus (sy_sig s)) (map proc_resmem_data_o (sy_proc s))"
  using assms unfolding linked_def by blast+

lemma linked_nproc: "linked s \<Longrightarrow> length (sy_proc s) = COUNT_PC_UNIT"
  by (simp add: linked_def)

lemmas linked_binds = linked_ct linked_ls linked_ws linked_pl linked_plc linked_pls linked_gen linked_proc linked_nl

lemma resting_addrs:
  assumes "resting s"
  shows "addrs_ok (map proc_weight_addr_o (sy_proc s))" and "addrs_ok (map proc_prevmem_addr_o (sy_proc s))"
    and "nl_quiet (nl_bind (sy_sig s))"
  using assms by (auto simp: resting_def addrs_ok_def nl_quiet_def linked_nl linked_nproc proc_calm_def)

lemmas calm_addrs = resting_addrs [OF calm_resting]

text \<open>The register of the layer size follows from the edge before.\<close>

abbreviation pls_next :: "sys \<Rightarrow> previous_layer_size" where
  "pls_next s \<equiv>
     \<lparr>pls_layer_size = (if ct_save_prev_o (sy_ct s) then ls_data_o (sy_ls s) else pls_layer_size (sy_pls s)),
      pls_data_o = pls_layer_size (sy_pls s)\<rparr>"

lemma pls_next: "linked s \<Longrightarrow> pls_posedge (pls_bind (sy_sig s)) (sy_pls s) = Inr (pls_next s)"
  by (simp add: pls_posedge_eq linked_pls)

lemma resting_edge:
  assumes R: "resting s" and gen: "gen_generate (gen_bind (sy_sig s)) (sy_gen s) = Inr gen"
    and nl: "nl_posedge (nl_bind (sy_sig s)) (sy_nl s) = Inr nl" "length (nl_memory nl) = MEM_SIZE"
    and plc: "plc_posedge (plc_bind (sy_sig s)) (sy_plc s) = Inr plc"
    and pl: "pl_posedge (pl_bind (sy_sig s)) (sy_pl s) = Inr pl"
    and ws: "ws_posedge (ws_bind (sy_sig s)) (sy_ws s) = Inr ws"
    and ls: "ls_posedge (ls_bind (sy_sig s)) (sy_ls s) = Inr ls"
    and ct: "ct_posedge (ct_bind (sy_sig s)) (sy_ct s) = Inr ct"
    and io: "io_posedge (io_bind (sy_time s) (sy_sig s)) (sy_io s) = Inr io"
    and d: "shared_write (pl_data_io_write pl) (io_data_write io) (data_io_bus (sy_sig s)) = Inr d"
    and w: "shared_write (pl_wr_io_write pl) (io_wr_write io) (wr_io_bus (sy_sig s)) = Inr w"
    and len: "length (ws_data_out_bus_o ws) = COUNT_PC_UNIT" "length (pl_data_PC_bus_o pl) = COUNT_PC_UNIT"
  shows "\<exists>s'. sys_edge expf s = Inr s' \<and>
    sys_became s s' nl (\<lambda>k. proc_calmed (sy_proc s ! k)) (pls_next s) plc pl ws ls ct io gen d w \<and>
    (\<not> pl_stop pl \<longrightarrow> \<not> gen_w_o gen \<longrightarrow> resting s')"
proof -
  note L = resting_linked [OF R]
  have er: "er_ok s" using R by (simp add: resting_def)
  have p: "proc_posedge expf (proc_bind (sy_sig s) k) (sy_proc s ! k) = Inr (proc_calmed (sy_proc s ! k))"
    if "k < COUNT_PC_UNIT" for k
    by (rule proc_posedge_calm) (use that R in \<open>simp_all add: resting_def proc_accepts_def linked_proc [OF L]\<close>)
  have l: "length (ws_data_out_bus_o ws) = length (ws_data_out_bus_o (sy_ws s))"
    "length (pl_data_PC_bus_o pl) = length (pl_data_PC_bus_o (sy_pl s))"
    using R len by (simp_all add: resting_def)
  obtain s' where s': "sys_edge expf s = Inr s'"
    "sys_became s s' nl (\<lambda>k. proc_calmed (sy_proc s ! k)) (pls_next s) plc pl ws ls ct io gen d w"
    using sys_edgeI [OF L er nl(1) p pls_next [OF L] plc pl ws ls ct io gen d w l] by blast
  have "resting s'" if "\<not> pl_stop pl" "\<not> gen_w_o gen"
    using R s'(2) that nl(2) len by (auto simp: resting_def sys_became_def)
  with s' show ?thesis by blast
qed

lemma calm_gen:
  assumes "calm s" and "\<not> ct_start_generator_o (sy_ct s)"
  shows "gen_generate (gen_bind (sy_sig s)) (sy_gen s) = Inr (sy_gen s\<lparr>gen_pc := GEN_Idle\<rparr>)"
  by (rule gen_generate_calm) (use assms in \<open>simp_all add: calm_def resting_def linked_gen\<close>)

text \<open>The same for an edge that does not stop the simulation, in the form the phases use.\<close>

lemma calm_step:
  assumes C: "calm s" and g: "\<not> ct_start_generator_o (sy_ct s)"
    and "nl_posedge (nl_bind (sy_sig s)) (sy_nl s) = Inr nl" "length (nl_memory nl) = MEM_SIZE"
    and "plc_posedge (plc_bind (sy_sig s)) (sy_plc s) = Inr plc"
    and "pl_posedge (pl_bind (sy_sig s)) (sy_pl s) = Inr pl"
    and "ws_posedge (ws_bind (sy_sig s)) (sy_ws s) = Inr ws"
    and "ls_posedge (ls_bind (sy_sig s)) (sy_ls s) = Inr ls"
    and "ct_posedge (ct_bind (sy_sig s)) (sy_ct s) = Inr ct"
    and "io_posedge (io_bind (sy_time s) (sy_sig s)) (sy_io s) = Inr io"
    and "shared_write (pl_data_io_write pl) (io_data_write io) (data_io_bus (sy_sig s)) = Inr d"
    and "shared_write (pl_wr_io_write pl) (io_wr_write io) (wr_io_bus (sy_sig s)) = Inr w"
    and "length (ws_data_out_bus_o ws) = COUNT_PC_UNIT" "length (pl_data_PC_bus_o pl) = COUNT_PC_UNIT"
    and np: "\<not> pl_stop pl"
  obtains s' where "sys_edge expf s = Inr s'" and "calm s'"
    and "sys_became s s' nl (\<lambda>k. proc_calmed (sy_proc s ! k)) (pls_next s)
      plc pl ws ls ct io (sy_gen s\<lparr>gen_pc := GEN_Idle\<rparr>) d w"
proof -
  obtain s' where s': "sys_edge expf s = Inr s'"
    "sys_became s s' nl (\<lambda>k. proc_calmed (sy_proc s ! k)) (pls_next s)
      plc pl ws ls ct io (sy_gen s\<lparr>gen_pc := GEN_Idle\<rparr>) d w"
    "\<not> gen_w_o (sy_gen s\<lparr>gen_pc := GEN_Idle\<rparr>) \<longrightarrow> resting s'"
    using resting_edge [OF calm_resting [OF C] calm_gen [OF C g] assms(3-14), of expf] np by blast
  moreover have "calm s'"
    using C s'(2,3) by (auto simp: calm_def gen_calm_def sys_became_def)
  ultimately show ?thesis using that by blast
qed

section \<open>States between the phases\<close>

definition ct_silent :: "controller \<Rightarrow> bool" where
  "ct_silent c \<longleftrightarrow> \<not> ct_next_layer_o c \<and> \<not> ct_clr_o c \<and> \<not> ct_write_out_o c \<and> \<not> ct_start_clone_o c \<and>
     \<not> ct_save_prev_o c \<and> \<not> ct_start_generator_o c"

definition plc_calm :: "previous_layer_controller \<Rightarrow> bool" where
  "plc_calm c \<longleftrightarrow> plc_pc c \<in> {PLC_Start, PLC_Idle, PLC_Done} \<and> \<not> plc_wr_to_memory_from_mem_o c \<and>
     \<not> plc_wr_to_out_o c \<and> \<not> plc_clr_o c \<and> \<not> plc_next_o c"

text \<open>The number of neurons calculated so far.\<close>

definition counts :: "sys \<Rightarrow> nat \<Rightarrow> bool" where
  "counts s t \<longleftrightarrow> (\<forall>k < COUNT_PC_UNIT. 0 \<le> proc_count_neurons_calc (sy_proc s ! k)) \<and>
     (\<Sum>k < COUNT_PC_UNIT. proc_count_neurons_calc (sy_proc s ! k)) = int t"

lemma counts_calmed:
  assumes "sy_proc s' = map (\<lambda>k. proc_calmed (sy_proc s ! k)) [0..<COUNT_PC_UNIT]"
  shows "counts s' t = counts s t"
  by (simp add: counts_def assms)

text \<open>The bus after the last command: released by \<open>IO\<close>, nothing reported yet.\<close>

definition io_idle :: "sys \<Rightarrow> bool" where
  "io_idle s \<longleftrightarrow> io_pc (sy_io s) = IO_Done \<and> \<not> io_transmit (sy_io s) \<and> \<not> wr_io_bus (sy_sig s) \<and>
     io_counter (sy_io s) = 0 \<and> io_report (sy_io s) = [] \<and> io_addr_o (sy_io s) = 0"

text \<open>The memories: the layer sizes, the weights, and the values of the layer the processors
  read.\<close>

record net =
  nt_sizes :: "nat list"
  nt_weights :: "float32 list"
  nt_values :: "float32 list"

definition mems :: "net \<Rightarrow> sys \<Rightarrow> bool" where
  "mems N s \<longleftrightarrow> ls_memory (sy_ls s) = map int (nt_sizes N) \<and> ws_memory (sy_ws s) = nt_weights N \<and>
     pl_memory (sy_pl s) = nt_values N \<and> pl_index_to_out (sy_pl s) = 0 \<and> \<not> pl_stop (sy_pl s)"

text \<open>The edge before layer \<open>i + 1\<close> is computed from layer \<open>i\<close>: the controller has raised
  \<open>save_prev_layer_size_o\<close>.  After the last layer it has raised
  \<open>write_out_controller_layer_o\<close> instead.\<close>

definition layer_start :: "net \<Rightarrow> nat \<Rightarrow> nat \<Rightarrow> nat \<Rightarrow> sys \<Rightarrow> bool" where
  "layer_start N t off i s \<longleftrightarrow>
     calm s \<and> io_idle s \<and> mems N s \<and> counts s t \<and> plc_calm (sy_plc s) \<and>
     ls_index (sy_ls s) = int i \<and> ls_data_o (sy_ls s) = int (nt_sizes N ! i) \<and>
     ct_state (sy_ct s) = CT_START_CONV \<and> ct_pc (sy_ct s) = CT_Save \<and> ct_i (sy_ct s) = int i \<and>
     ct_layers (sy_ct s) = int (length (nt_sizes N)) \<and> ct_start_weight_o (sy_ct s) = int off \<and>
     ct_save_prev_o (sy_ct s) \<and> ct_silent (sy_ct s\<lparr>ct_save_prev_o := False\<rparr>)"

definition out_start :: "net \<Rightarrow> nat \<Rightarrow> sys \<Rightarrow> bool" where
  "out_start N t s \<longleftrightarrow>
     calm s \<and> io_idle s \<and> mems N s \<and> counts s t \<and> plc_calm (sy_plc s) \<and> 0 \<le> ls_index (sy_ls s) \<and>
     ct_state (sy_ct s) = CT_IDLE \<and> ct_pc (sy_ct s) = CT_Idle \<and>
     ct_write_out_o (sy_ct s) \<and> ct_silent (sy_ct s\<lparr>ct_write_out_o := False\<rparr>)"

text \<open>Where the controller is after layer \<open>i\<close>.\<close>

definition layer_next :: "net \<Rightarrow> nat \<Rightarrow> nat \<Rightarrow> nat \<Rightarrow> sys \<Rightarrow> bool" where
  "layer_next N t off i s \<longleftrightarrow> (if Suc i < length (nt_sizes N) then layer_start N t off i s else out_start N t s)"

text \<open>The head of the controller's loop leads there.\<close>

lemma layer_nextI:
  assumes "calm s" and "io_idle s" and "mems N s" and "counts s t" and "plc_calm (sy_plc s)"
    and "ls_index (sy_ls s) = int i" and "ls_data_o (sy_ls s) = int (nt_sizes N ! i)"
    and "sy_ct s = ct_at_head c" and "ct_state c = CT_START_CONV" and "ct_i c = int i"
    and "ct_layers c = int (length (nt_sizes N))" and "ct_start_weight_o c = int off" and "ct_silent c"
  shows "layer_next N t off i s"
proof (cases "Suc i < length (nt_sizes N)")
  case True
  then have "sy_ct s = c\<lparr>ct_save_prev_o := True, ct_pc := CT_Save\<rparr>"
    using assms(8,10,11) by (simp add: ct_at_head_def)
  with True assms(1-7,9-13) show ?thesis by (simp add: layer_next_def layer_start_def ct_silent_def)
next
  case False
  then have "sy_ct s = c\<lparr>ct_write_out_o := True, ct_state := CT_IDLE, ct_start_weight_o := 0, ct_pc := CT_Idle\<rparr>"
    using assms(8,10,11) by (simp add: ct_at_head_def)
  with False assms(1-7,9-13) show ?thesis by (simp add: layer_next_def out_start_def ct_silent_def)
qed

text \<open>The sequencer of the previous layer passes the requests of the controller on.\<close>

lemma plc_calm_edge:
  assumes "linked s" and "plc_calm (sy_plc s)" and "\<not> ct_start_clone_o (sy_ct s)"
  shows "plc_posedge (plc_bind (sy_sig s)) (sy_plc s) = Inr (sy_plc s\<lparr>plc_clr_o := ct_clr_o (sy_ct s),
    plc_wr_to_out_o := ct_write_out_o (sy_ct s), plc_end_clone_o := False, plc_pc := PLC_Idle\<rparr>)"
  using assms plc_posedge_idle [of "sy_plc s"] by (simp add: linked_plc plc_calm_def)

lemma nl_calm_edge:
  assumes "calm s" and "\<not> plc_next_o (sy_plc s)"
  shows "nl_posedge (nl_bind (sy_sig s)) (sy_nl s) = Inr (sy_nl s)"
  by (rule nl_posedge_idle [OF calm_addrs(3)]) (use assms in \<open>simp_all add: linked_nl [OF calm_linked]\<close>)

section \<open>Edges with a silent bus\<close>

lemma quiet_ws:
  assumes "resting s" and "\<not> wr_io_bus (sy_sig s)"
  shows "ws_posedge (ws_bind (sy_sig s)) (sy_ws s) = Inr (sy_ws s\<lparr>ws_data_out_bus_o :=
    mem_answers float_zero (ws_memory (sy_ws s)) (map proc_weight_addr_o (sy_proc s))\<rparr>)"
  using ws_posedge_idle [of "ws_bind (sy_sig s)" "sy_ws s"] assms resting_addrs(1) [OF assms(1)]
  by (simp add: linked_ws [OF resting_linked])

lemma quiet_ls:
  assumes "linked s" and "\<not> wr_io_bus (sy_sig s)" and "ls_ok (sy_ls s)"
  shows "ls_posedge (ls_bind (sy_sig s)) (sy_ls s) = Inr (sy_ls s\<lparr>ls_index :=
    ls_index (sy_ls s) + (if ct_next_layer_o (sy_ct s) then 1 else 0), ls_data_o := ls_current (sy_ls s)\<rparr>)"
  using ls_posedge_idle [of "sy_ls s" "ls_bind (sy_sig s)"] ls_posedge_next [of "sy_ls s" "ls_bind (sy_sig s)"] assms
  by (simp add: linked_ls ls_ok_def)

lemma quiet_pl:
  assumes "linked s" and "addrs_ok (map proc_prevmem_addr_o (sy_proc s))" and "\<not> wr_io_bus (sy_sig s)" and "plc_calm (sy_plc s)"
  shows "pl_posedge (pl_bind (sy_sig s)) (sy_pl s) = Inr (sy_pl s\<lparr>pl_data_io_write := None, pl_wr_io_write := None,
    pl_data_PC_bus_o := mem_answers pl_default (pl_memory (sy_pl s)) (map proc_prevmem_addr_o (sy_proc s))\<rparr>)"
  using pl_posedge_idle [of "pl_bind (sy_sig s)" "sy_pl s"] assms
  by (simp add: linked_pl plc_calm_def)

lemma quiet_io:
  assumes "io_idle s"
  shows "io_posedge (io_bind (sy_time s) (sy_sig s)) (sy_io s) = Inr (sy_io s\<lparr>io_data_write := None, io_wr_write := None\<rparr>)"
  using assms by (intro io_posedge_quiet) (simp_all add: io_idle_def io_bind_def)

text \<open>What such an edge leaves behind, in the terms of the phases.\<close>

definition quiet_became :: "sys \<Rightarrow> sys \<Rightarrow> next_layer_mem \<Rightarrow> previous_layer_controller \<Rightarrow> previous_layer \<Rightarrow>
    controller \<Rightarrow> generator \<Rightarrow> bool" where
  "quiet_became s s' nl plc pl ct gen \<longleftrightarrow>
     io_idle s' \<and> \<not> sy_er_pending s' \<and> sy_nl s' = nl \<and> sy_plc s' = plc \<and> sy_pl s' = pl \<and> sy_ct s' = ct \<and> sy_gen s' = gen \<and>
     sy_pls s' = pls_next s \<and> ws_memory (sy_ws s') = ws_memory (sy_ws s) \<and> (\<forall>t. counts s' t = counts s t) \<and>
     ls_memory (sy_ls s') = ls_memory (sy_ls s) \<and> ls_data_o (sy_ls s') = ls_current (sy_ls s) \<and>
     ls_index (sy_ls s') = ls_index (sy_ls s) + (if ct_next_layer_o (sy_ct s) then 1 else 0) \<and>
     (\<forall>k < COUNT_PC_UNIT. proc_pc (sy_proc s' ! k) = PROC_Empty \<and> proc_queue_size_o (sy_proc s' ! k) = 0)"

lemma quiet_edge:
  assumes R: "resting s" and I: "io_idle s" and ls: "ls_ok (sy_ls s)" and gen: "gen_generate (gen_bind (sy_sig s)) (sy_gen s) = Inr gen"
    and nl: "nl_posedge (nl_bind (sy_sig s)) (sy_nl s) = Inr nl" "length (nl_memory nl) = MEM_SIZE"
    and plc: "plc_posedge (plc_bind (sy_sig s)) (sy_plc s) = Inr plc"
    and pl: "pl_posedge (pl_bind (sy_sig s)) (sy_pl s) = Inr pl" "length (pl_data_PC_bus_o pl) = COUNT_PC_UNIT"
      "pl_data_io_write pl = None" "pl_wr_io_write pl = None" "\<not> pl_stop pl"
    and ct: "ct_posedge (ct_bind (sy_sig s)) (sy_ct s) = Inr ct"
    and gw: "\<not> gen_w_o gen"
  obtains s' where "sys_edge expf s = Inr s'" and "resting s'" and "quiet_became s s' nl plc pl ct gen"
proof -
  note K = resting_linked [OF R]
  have w0: "\<not> wr_io_bus (sy_sig s)" using I by (simp add: io_idle_def)
  let ?io = "sy_io s\<lparr>io_data_write := None, io_wr_write := None\<rparr>"
  have d: "shared_write (pl_data_io_write pl) (io_data_write ?io) (data_io_bus (sy_sig s)) = Inr (data_io_bus (sy_sig s))"
    and w: "shared_write (pl_wr_io_write pl) (io_wr_write ?io) (wr_io_bus (sy_sig s)) = Inr (wr_io_bus (sy_sig s))"
    by (simp_all add: shared_write_def pl)
  obtain ws where ws: "ws_posedge (ws_bind (sy_sig s)) (sy_ws s) = Inr ws" "ws_memory ws = ws_memory (sy_ws s)"
    "length (ws_data_out_bus_o ws) = COUNT_PC_UNIT"
    using quiet_ws [OF R w0] by auto
  obtain s' where s': "sys_edge expf s = Inr s'" "resting s'"
    "sys_became s s' nl (\<lambda>k. proc_calmed (sy_proc s ! k)) (pls_next s) plc pl ws
      (sy_ls s\<lparr>ls_index := ls_index (sy_ls s) + (if ct_next_layer_o (sy_ct s) then 1 else 0), ls_data_o := ls_current (sy_ls s)\<rparr>)
      ct ?io gen (data_io_bus (sy_sig s)) (wr_io_bus (sy_sig s))"
    using resting_edge [OF R gen nl plc pl(1) ws(1) quiet_ls [OF K w0 ls] ct quiet_io [OF I] d w ws(3) pl(2), of expf] pl(5) gw
    by blast
  moreover have "quiet_became s s' nl plc pl ct gen"
    using s'(3) I ws(2) counts_calmed pl(5) by (auto simp: quiet_became_def sys_became_def io_idle_def)
  ultimately show ?thesis using that by blast
qed

end
