(* ===== verification/Run_Load.thy ===== *)
theory Run_Load
  imports Run_Base
begin

text \<open>
  The load: \<open>IO\<close> puts the schedule on the bus, one item per edge, and every item is consumed
  one edge later by the module it is addressed to.  At the end the memories hold the
  configuration and the controller stands at the head of its loop.
\<close>

section \<open>What the items leave in the memories\<close>

definition vals :: "int \<Rightarrow> (int \<times> float32) list \<Rightarrow> float32 list" where
  "vals a its = map snd (filter (\<lambda>it. fst it = a) its)"

lemma vals_append [simp]: "vals a (xs @ ys) = vals a xs @ vals a ys"
  by (simp add: vals_def)

lemma vals_Cons: "vals a (it # its) = (if fst it = a then [snd it] else []) @ vals a its"
  by (simp add: vals_def)

lemma vals_Nil [simp]: "vals a [] = []"
  by (simp add: vals_def)

lemma vals_map [simp]: "vals a (map (Pair b) xs) = (if a = b then xs else [])"
  "vals a (map (\<lambda>l. (b, f l)) zs) = (if a = b then map f zs else [])"
  by (auto simp: vals_def filter_map o_def intro: map_idI)

lemma vals_schedule:
  "vals 1 (io_schedule d) = map float_of_int (ld_layers d)" "vals 2 (io_schedule d) = ld_picture d"
  "vals 3 (io_schedule d) = ld_weights d"
  by (simp_all add: io_schedule_def vals_Cons io_go_def)

text \<open>A layer size keeps its value through the bus.\<close>

definition small_sizes :: "load_result \<Rightarrow> bool" where
  "small_sizes d \<longleftrightarrow> ld_layersCount d = int (length (ld_layers d)) \<and> ld_layersCount d \<le> 2 ^ 24 \<and>
     ld_layers d \<noteq> [] \<and> (\<forall>z \<in> set (ld_layers d). 1 \<le> z \<and> z \<le> 2 ^ 24) \<and> ld_picture d \<noteq> []"

lemma int_of_float_zeq: "zeq x y \<Longrightarrow> int_of_float x = int_of_float y"
  by (erule zeq_cases) (auto simp: signed_def)

lemma zeq_size:
  assumes "zeq x (float_of_int z)" and "\<bar>z\<bar> \<le> 2 ^ 24"
  shows "int_of_float x = Inr z"
  using int_of_float_zeq [OF assms(1)] int_of_float_of_int [OF assms(2)] by simp

section \<open>The state while loading\<close>

text \<open>The controller, by the number of items consumed.\<close>

definition ct_loaded :: "load_result \<Rightarrow> nat \<Rightarrow> controller \<Rightarrow> bool" where
  "ct_loaded d n c \<longleftrightarrow> ct_silent c \<and> ct_start_weight_o c = 0 \<and>
     (if n = 0 then ct_state c = CT_IDLE \<and> ct_pc c = CT_Idle
      else if n = 1 then ct_state c = CT_READ_DATA \<and> ct_pc c = CT_Read
      else ct_state c = CT_IDLE \<and> ct_pc c = CT_Idle \<and> ct_layers c = ld_layersCount d)"

definition loading :: "load_result \<Rightarrow> (int \<times> float32) list \<Rightarrow> int \<times> float32 \<Rightarrow> (int \<times> float32) list \<Rightarrow> sys \<Rightarrow> bool" where
  "loading d done cur rest s \<longleftrightarrow>
     done @ cur # rest = io_schedule d \<and>
     calm s \<and> counts s 0 \<and> plc_calm (sy_plc s) \<and> ct_loaded d (length done) (sy_ct s) \<and>
     io_sending (sy_io s) \<and> io_rest (sy_io s) = rest \<and> io_addr_o (sy_io s) = fst cur \<and>
     zeq (data_io_bus (sy_sig s)) (snd cur) \<and> wr_io_bus (sy_sig s) \<and>
     io_counter (sy_io s) = 0 \<and> io_report (sy_io s) = [] \<and>
     ls_index (sy_ls s) = 0 \<and> map float_of_int (ls_memory (sy_ls s)) = vals 1 done \<and>
     (\<forall>z \<in> set (ls_memory (sy_ls s)). \<bar>z\<bar> \<le> 2 ^ 24) \<and>
     list_all2 zeq (pl_memory (sy_pl s)) (vals 2 done) \<and> list_all2 zeq (ws_memory (sy_ws s)) (vals 3 done) \<and>
     pl_index_to_out (sy_pl s) = 0 \<and> \<not> pl_stop (sy_pl s)"

lemma schedule_item:
  assumes "done @ (a, x) # rest = io_schedule d" and "rest \<noteq> []"
  shows "(done = [] \<and> a = 0 \<and> x = float_INFINITY) \<or>
    (length done = 1 \<and> a = 0 \<and> x = float_of_int (ld_layersCount d)) \<or>
    (2 \<le> length done \<and> a = 1 \<and> x \<in> float_of_int ` set (ld_layers d)) \<or> (2 \<le> length done \<and> a \<in> {2, 3})"
proof (cases "done")
  case Nil
  then show ?thesis using assms by (auto simp: io_schedule_def)
next
  case (Cons i1 d1)
  show ?thesis
  proof (cases d1)
    case Nil
    then show ?thesis using assms Cons by (auto simp: io_schedule_def)
  next
    case c2: (Cons i2 d2)
    let ?b = "map (\<lambda>l. (1, float_of_int l)) (ld_layers d) @ map (Pair 2) (ld_picture d) @ map (Pair 3) (ld_weights d)"
    have e: "d2 @ (a, x) # rest = ?b @ [io_go]" using assms(1) Cons c2 by (simp add: io_schedule_def)
    then have "butlast (d2 @ (a, x) # rest) = ?b" by (simp add: butlast_append)
    then have "d2 @ (a, x) # butlast rest = ?b" using assms(2) by (simp add: butlast_append)
    then have "(a, x) \<in> set ?b" by (metis in_set_conv_decomp)
    then show ?thesis using Cons c2 by auto
  qed
qed

section \<open>One item\<close>

text \<open>The three memories, at an edge with the item \<open>(a, x)\<close> on the bus.\<close>

lemma ls_consume:
  assumes "ls_addr_i p = a" and "ls_wr_i p" and "zeq (ls_data_i p) x" and "\<not> ls_next p" and "ls_index s = 0"
    and "a = 1 \<Longrightarrow> x = float_of_int z \<and> \<bar>z\<bar> \<le> 2 ^ 24"
  shows "\<exists>s'. ls_posedge p s = Inr s' \<and> ls_index s' = 0 \<and> ls_data_o s' = ls_current s \<and>
    ls_memory s' = ls_memory s @ (if a = 1 then [z] else [])"
proof (cases "a = 1")
  case True
  then have "int_of_float (ls_data_i p) = Inr z" using assms(3,6) zeq_size by auto
  then show ?thesis using ls_posedge_push [of s p z] True assms by simp
next
  case False
  then show ?thesis using ls_posedge_idle [of s p] assms by simp
qed

lemma ws_consume:
  assumes "ws_addr_io_bus_i p = a" and "ws_wr_io_bus_i p" and "zeq (ws_data_io_bus_i p) x" and "addrs_ok (ws_addr_out_bus_i p)"
  shows "\<exists>s'. ws_posedge p s = Inr s' \<and> length (ws_data_out_bus_o s') = COUNT_PC_UNIT \<and>
    (\<exists>y. zeq y x \<and> ws_memory s' = ws_memory s @ (if a = 3 then [y] else []))"
proof (cases "a = 3")
  case True
  then show ?thesis using ws_posedge_push [of p s] assms by auto
next
  case False
  then show ?thesis using ws_posedge_idle [of p s] assms by auto
qed

lemma pl_consume:
  assumes "pl_addr_io_bus_i p = a" and "pl_wr_io_bus_io p" and "zeq (pl_data_io_bus_io p) x" and "addrs_ok (pl_addr_PC_bus_i p)"
    and "\<not> pl_clr_i p" and "\<not> pl_wr_to_out_i p" and "\<not> pl_wr_to_memory_from_mem_i p"
  shows "\<exists>s'. pl_posedge p s = Inr s' \<and> length (pl_data_PC_bus_o s') = COUNT_PC_UNIT \<and>
    pl_index_to_out s' = pl_index_to_out s \<and> pl_stop s' = pl_stop s \<and>
    pl_data_io_write s' = None \<and> pl_wr_io_write s' = None \<and>
    (\<exists>y. zeq y x \<and> pl_memory s' = pl_memory s @ (if a = 2 then [y] else []))"
proof (cases "a = 2")
  case True
  then show ?thesis using pl_posedge_store_io [of p s] assms by auto
next
  case False
  then show ?thesis using pl_posedge_idle [of p s] assms by auto
qed

text \<open>The controller accepts the first two items and ignores the rest.\<close>

lemma ct_consume:
  assumes "small_sizes d" and "done @ (a, x) # rest = io_schedule d" and "rest \<noteq> []"
    and "ct_loaded d (length done) s" and "ct_addr_i p = a" and "ct_wr_i p" and "zeq (ct_data_i p) x"
  shows "\<exists>s'. ct_posedge p s = Inr s' \<and> ct_loaded d (Suc (length done)) s'"
proof -
  consider "length done = 0" "a = 0" "x = float_INFINITY" | "length done = 1" "a = 0" "x = float_of_int (ld_layersCount d)"
    | "2 \<le> length done" "a \<noteq> 0"
    using schedule_item [OF assms(2,3)] by auto
  then show ?thesis
  proof cases
    case 1
    then have "ct_command p (FInf False)" using assms(5-7) by (simp add: ct_command_def float_INFINITY_def)
    then show ?thesis using ct_posedge_read [of s p] 1 assms(4) by (simp add: ct_loaded_def ct_silent_def)
  next
    case 2
    have "0 \<le> ld_layersCount d" using assms(1) by (simp add: small_sizes_def)
    then have "int_of_float (ct_data_i p) = Inr (ld_layersCount d)"
      using zeq_size assms(1,7) 2(3) by (simp add: small_sizes_def)
    then show ?thesis using ct_posedge_count [of s p] 2 assms(4-6) by (simp add: ct_loaded_def ct_silent_def)
  next
    case 3
    then have "done \<noteq> []" "length done \<noteq> 1" by auto
    with 3 have "ct_posedge p s = Inr (s\<lparr>ct_start_weight_o := 0, ct_pc := CT_Idle\<rparr>)"
      using assms(4,5) by (intro ct_posedge_idle) (auto simp: ct_loaded_def ct_command_def)
    then show ?thesis using 3 assms(4) by (auto simp: ct_loaded_def ct_silent_def)
  qed
qed

lemma loading_step:
  assumes small: "small_sizes d" and L: "loading d done cur (nxt # rest) s"
  shows "\<exists>s'. sys_edge expf s = Inr s' \<and> loading d (done @ [cur]) nxt rest s'"
proof -
  obtain a x where cur: "cur = (a, x)" by (cases cur)
  obtain b y where nxt: "nxt = (b, y)" by (cases nxt)
  have sch: "done @ (a, x) # nxt # rest = io_schedule d" and C: "calm s" and ctl: "ct_loaded d (length done) (sy_ct s)"
    and plcc: "plc_calm (sy_plc s)" and bus: "io_addr_o (sy_io s) = a" "zeq (data_io_bus (sy_sig s)) x" "wr_io_bus (sy_sig s)"
    and ioq: "io_sending (sy_io s)" "io_rest (sy_io s) = (b, y) # rest"
    using L by (auto simp: loading_def cur nxt)
  note K = calm_linked [OF C]
  have sil: "ct_silent (sy_ct s)" using ctl by (simp add: ct_loaded_def)
  obtain z where z: "a = 1 \<Longrightarrow> x = float_of_int z \<and> \<bar>z\<bar> \<le> 2 ^ 24"
  proof (cases "a = 1")
    case True
    then obtain z where "z \<in> set (ld_layers d)" "x = float_of_int z"
      using schedule_item [OF sch] by auto
    then show ?thesis using that [of z] small by (auto simp: small_sizes_def)
  qed (use that in blast)
  obtain ls where ls: "ls_posedge (ls_bind (sy_sig s)) (sy_ls s) = Inr ls" "ls_index ls = 0"
    "ls_memory ls = ls_memory (sy_ls s) @ (if a = 1 then [z] else [])"
    using ls_consume [of "ls_bind (sy_sig s)" a x "sy_ls s" z] bus sil L z
    by (auto simp: linked_ls [OF K] ct_silent_def loading_def)
  obtain ws y3 where ws: "ws_posedge (ws_bind (sy_sig s)) (sy_ws s) = Inr ws" "length (ws_data_out_bus_o ws) = COUNT_PC_UNIT"
    "zeq y3 x" "ws_memory ws = ws_memory (sy_ws s) @ (if a = 3 then [y3] else [])"
    using ws_consume [of "ws_bind (sy_sig s)" a x "sy_ws s"] bus calm_addrs [OF C] by (auto simp: linked_ws [OF K])
  obtain pl y2 where pl: "pl_posedge (pl_bind (sy_sig s)) (sy_pl s) = Inr pl" "length (pl_data_PC_bus_o pl) = COUNT_PC_UNIT"
    "pl_index_to_out pl = pl_index_to_out (sy_pl s)" "pl_stop pl = pl_stop (sy_pl s)" "pl_data_io_write pl = None"
    "pl_wr_io_write pl = None" "zeq y2 x" "pl_memory pl = pl_memory (sy_pl s) @ (if a = 2 then [y2] else [])"
    using pl_consume [of "pl_bind (sy_sig s)" a x "sy_pl s"] bus calm_addrs [OF C] plcc
    by (auto simp: linked_pl [OF K] plc_calm_def)
  obtain ct where ct: "ct_posedge (ct_bind (sy_sig s)) (sy_ct s) = Inr ct" "ct_loaded d (Suc (length done)) ct"
    using ct_consume [OF small sch _ ctl, of "ct_bind (sy_sig s)"] bus by (auto simp: linked_ct [OF K])
  obtain io where io: "io_posedge (io_bind (sy_time s) (sy_sig s)) (sy_io s) = Inr io" "io_sent io b y rest"
    "io_counter io = io_counter (sy_io s)" "io_report io = io_report (sy_io s)"
    using io_posedge_send [OF ioq] by blast
  have d: "shared_write (pl_data_io_write pl) (io_data_write io) (data_io_bus (sy_sig s)) = Inr y"
    and w: "shared_write (pl_wr_io_write pl) (io_wr_write io) (wr_io_bus (sy_sig s)) = Inr True"
    using io(2) pl(5,6) bus(3) by (auto simp: io_sent_def shared_write_def)
  have ng: "\<not> ct_start_generator_o (sy_ct s)" and nn: "\<not> plc_next_o (sy_plc s)" and nc: "\<not> ct_start_clone_o (sy_ct s)"
    using sil plcc by (simp_all add: ct_silent_def plc_calm_def)
  have nlm: "length (nl_memory (sy_nl s)) = MEM_SIZE" using C by (simp add: calm_def resting_def)
  have np: "\<not> pl_stop pl" using L pl(4) by (simp add: loading_def)
  obtain s' where s': "sys_edge expf s = Inr s'" "calm s'"
    and became: "sys_became s s' (sy_nl s) (\<lambda>k. proc_calmed (sy_proc s ! k)) (pls_next s)
      (sy_plc s\<lparr>plc_clr_o := ct_clr_o (sy_ct s), plc_wr_to_out_o := ct_write_out_o (sy_ct s), plc_end_clone_o := False,
        plc_pc := PLC_Idle\<rparr>) pl ws ls ct io (sy_gen s\<lparr>gen_pc := GEN_Idle\<rparr>) y True"
    by (rule calm_step [OF C ng nl_calm_edge [OF C nn] nlm plc_calm_edge [OF K plcc nc] pl(1) ws(1) ls(1) ct(1) io(1) d w ws(2) pl(2) np])
  have "loading d (done @ [cur]) nxt rest s'"
    unfolding loading_def
  proof (intro conjI)
    show "counts s' 0" using L became counts_calmed by (auto simp: loading_def sys_became_def)
    show "map float_of_int (ls_memory (sy_ls s')) = vals 1 (done @ [cur])"
      using L became ls(3) z by (auto simp: loading_def sys_became_def cur vals_Cons)
    show "\<forall>z \<in> set (ls_memory (sy_ls s')). \<bar>z\<bar> \<le> 2 ^ 24"
      using L became ls(3) z by (auto simp: loading_def sys_became_def)
    show "list_all2 zeq (pl_memory (sy_pl s')) (vals 2 (done @ [cur]))"
      using L became pl(7,8) by (auto simp: loading_def sys_became_def cur vals_Cons intro: list_all2_appendI)
    show "list_all2 zeq (ws_memory (sy_ws s')) (vals 3 (done @ [cur]))"
      using L became ws(3,4) by (auto simp: loading_def sys_became_def cur vals_Cons intro: list_all2_appendI)
    show "zeq (data_io_bus (sy_sig s')) (snd nxt)"
      using became commit_float_zeq by (auto simp: sys_became_def nxt)
    show "plc_calm (sy_plc s')" using plcc sil became by (auto simp: plc_calm_def ct_silent_def sys_became_def)
  qed (use L became s'(2) ls ct pl io sch in \<open>auto simp: loading_def sys_became_def cur nxt io_sent_def\<close>)
  with s'(1) show ?thesis by blast
qed

section \<open>The first edges\<close>

text \<open>The state after initialization: every method has run once, no thread has.\<close>

definition fresh :: "string option \<Rightarrow> string option \<Rightarrow> sys \<Rightarrow> bool" where
  "fresh cfg pic s \<longleftrightarrow>
     calm s \<and> counts s 0 \<and> plc_calm (sy_plc s) \<and> ct_silent (sy_ct s) \<and> ct_state (sy_ct s) = CT_IDLE \<and>
     ct_pc (sy_ct s) = CT_Start \<and> ct_prev_layer (sy_ct s) = 0 \<and> ct_start_weight_o (sy_ct s) = 0 \<and>
     sy_io s = io_module_new cfg pic \<and> \<not> wr_io_bus (sy_sig s) \<and>
     ls_memory (sy_ls s) = [] \<and> ls_index (sy_ls s) = 0 \<and> ws_memory (sy_ws s) = [] \<and>
     pl_memory (sy_pl s) = [] \<and> pl_index_to_out (sy_pl s) = 0 \<and> \<not> pl_stop (sy_pl s)"

text \<open>The modules after their methods have run once on the initial signals.\<close>

definition proc_initialized :: "nat \<Rightarrow> processor" where
  "proc_initialized i = (processor_new (int i))\<lparr>proc_contr_empty_o := True\<rparr>"

lemma init_io: "run_methods (io_methods (io_bind t signals_new)) (io_module_new cfg pic) = Inr (io_module_new cfg pic)"
  by (simp add: io_methods_def io_read_data_from_system_def io_bind_def signals_new_def)

lemma init_ct: "run_methods (ct_methods (ct_bind signals_new)) controller_new = Inr controller_new"
  by (simp add: ct_methods_def ct_state_read_data_def ct_state_start_conv_def ct_bind_def signals_new_def)

lemma init_ls: "run_methods (ls_methods (ls_bind signals_new)) layers_storage_new = Inr layers_storage_new"
  by (simp add: ls_methods_def ls_method_defs ls_bind_def signals_new_def layers_storage_new_def)

lemma init_ws: "run_methods (ws_methods (ws_bind signals_new)) weight_storage_new = Inr weight_storage_new"
proof -
  have "rmap (\<lambda>i. ws_read [] (replicate COUNT_PC_UNIT 0 ! i)) [0..<COUNT_PC_UNIT] = Inr (map (\<lambda>i. float_zero) [0..<COUNT_PC_UNIT])"
    by (rule rmap_total) (simp add: ws_read_def)
  then show ?thesis
    by (simp add: ws_methods_def ws_issue_element_def ws_add_to_memory_def ws_bind_def signals_new_def
        weight_storage_new_def map_replicate_trivial [symmetric])
qed

lemma init_pl: "run_methods (pl_methods (pl_bind signals_new)) previous_layer_new =
  Inr (previous_layer_new\<lparr>pl_data_PC_bus_o := replicate COUNT_PC_UNIT pl_default\<rparr>)"
proof -
  have "rmap (\<lambda>i. pl_read [] (replicate COUNT_PC_UNIT 0 ! i)) [0..<COUNT_PC_UNIT] = Inr (map (\<lambda>i. pl_default) [0..<COUNT_PC_UNIT])"
    by (rule rmap_total) (simp add: pl_read_def)
  then show ?thesis
    by (simp add: pl_methods_def pl_add_to_mem_def pl_issue_element_IO_def pl_issue_element_PC_def pl_clear_def
        pl_bind_def signals_new_def previous_layer_new_def map_replicate_trivial [symmetric])
qed

lemma init_plc: "run_methods (plc_methods (plc_bind signals_new)) previous_layer_controller_new = Inr previous_layer_controller_new"
  by (simp add: plc_methods_def plc_clear_def plc_write_out_to_IO_def plc_bind_def signals_new_def previous_layer_controller_new_def)

lemma init_pls: "run_methods (pls_methods (pls_bind signals_new)) previous_layer_size_new = Inr previous_layer_size_new"
  by (simp add: pls_methods_def pls_save_new_element_def pls_pass_new_element_def pls_bind_def signals_new_def previous_layer_size_new_def)

lemma init_proc: "run_methods (proc_methods (proc_bind signals_new i)) (processor_new (int i)) = Inr (proc_initialized i)"
  by (simp add: proc_methods_def proc_add_to_queue_def proc_bind_def signals_new_def processor_new_def proc_initialized_def)

lemma init_nl: "run_methods (nl_methods (nl_bind signals_new)) next_layer_new = Inr next_layer_new"
  by (simp add: nl_methods_def nl_add_quiet nl_quiet_def nl_issue_element_def nl_bind_def signals_new_def)

lemma initialize_fresh:
  "\<exists>s. sys_initialize (sys_new cfg pic) = Inr s \<and> fresh cfg pic s \<and> sy_proc s = map proc_initialized [0..<COUNT_PC_UNIT]"
proof -
  let ?s1 = "(sys_new cfg pic)\<lparr>sy_pl := previous_layer_new\<lparr>pl_data_PC_bus_o := replicate COUNT_PC_UNIT pl_default\<rparr>,
    sy_proc := map proc_initialized [0..<COUNT_PC_UNIT], sy_cycle_ended_o := er_reduce (er_bind signals_new)\<rparr>"
  have pr: "rmap (\<lambda>i. run_methods (proc_methods (proc_bind signals_new i)) (map (\<lambda>i. processor_new (int i)) [0..<COUNT_PC_UNIT] ! i))
      [0..<COUNT_PC_UNIT] = Inr (map proc_initialized [0..<COUNT_PC_UNIT])"
    by (rule rmap_total) (simp add: init_proc)
  have init: "sys_initialize (sys_new cfg pic) = sys_update ?s1"
    by (simp add: sys_initialize_def sys_new_def Let_def init_io init_ct init_ls init_ws init_pl init_plc init_pls init_nl pr)
  have "length (sy_proc ?s1) = COUNT_PC_UNIT"
    and "length (data_weight_bus (sy_sig ?s1)) = length (ws_data_out_bus_o (sy_ws ?s1))"
    and "length (data_prev_layer_bus (sy_sig ?s1)) = length (pl_data_PC_bus_o (sy_pl ?s1))"
    and "length (resmem_data_bus (sy_sig ?s1)) = COUNT_PC_UNIT"
    and "shared_write (pl_data_io_write (sy_pl ?s1)) (io_data_write (sy_io ?s1)) (data_io_bus (sy_sig ?s1)) = Inr float_zero"
    and "shared_write (pl_wr_io_write (sy_pl ?s1)) (io_wr_write (sy_io ?s1)) (wr_io_bus (sy_sig ?s1)) = Inr False"
    by (simp_all add: sys_new_def signals_new_def weight_storage_new_def previous_layer_new_def io_module_new_def shared_write_def)
  from update_signals_linked [OF this] obtain g where g: "update_signals ?s1 = Inr g"
    "\<forall>p. linked (?s1\<lparr>sy_sig := g, sy_er_pending := p\<rparr>)" "\<not> wr_io_bus g"
    by blast
  let ?s2 = "?s1\<lparr>sy_sig := g, sy_er_pending := er_triggered (er_bind signals_new) (er_bind g)\<rparr>"
  have sig: "sy_sig ?s1 = signals_new" by (simp add: sys_new_def)
  have up: "sys_update ?s1 = Inr ?s2" by (simp add: sys_update_def g(1) sig)
  have K: "linked ?s2" using g(2) by blast
  have "contr_empty_bus g = map proc_contr_empty_o (sy_proc ?s2)" using K by (simp add: linked_def)
  then have "contr_empty_bus g ! 0" by (simp add: proc_initialized_def COUNT_PC_UNIT_def)
  moreover have "\<not> contr_empty_bus signals_new ! 0" by (simp add: signals_new_def COUNT_PC_UNIT_def)
  ultimately have "er_triggered (er_bind signals_new) (er_bind g)"
    by (auto simp: er_triggered_def er_bind_def)
  then have er: "er_ok ?s2" by (simp add: er_ok_def)
  have gc: "gen_calm (sy_gen ?s2)" by (simp add: sys_new_def generator_new_def gen_calm_def)
  have pc: "\<forall>k < COUNT_PC_UNIT. proc_calm (sy_proc ?s2 ! k) \<and> proc_address (sy_proc ?s2 ! k) = int k"
    by (simp add: proc_initialized_def processor_new_def proc_calm_def)
  have "calm ?s2"
    unfolding calm_def resting_def using K er gc pc
    by (simp add: sys_new_def next_layer_new_def weight_storage_new_def previous_layer_new_def generator_new_def)
  moreover have "counts ?s2 0" by (simp add: counts_def proc_initialized_def processor_new_def)
  ultimately have "fresh cfg pic ?s2"
    using g(3) by (simp add: fresh_def sys_new_def controller_new_def layers_storage_new_def weight_storage_new_def
        previous_layer_new_def previous_layer_controller_new_def plc_calm_def ct_silent_def)
  moreover have "sy_proc ?s2 = map proc_initialized [0..<COUNT_PC_UNIT]" by simp
  ultimately show ?thesis using init up by (intro exI [of _ ?s2]) simp
qed

text \<open>The first edge of the modules other than \<open>IO\<close>.\<close>

lemma fresh_modules:
  assumes F: "fresh cfg pic s"
  shows "ls_posedge (ls_bind (sy_sig s)) (sy_ls s) = Inr (sy_ls s\<lparr>ls_data_o := ls_current (sy_ls s)\<rparr>)"
    and "ws_posedge (ws_bind (sy_sig s)) (sy_ws s) = Inr (sy_ws s\<lparr>ws_data_out_bus_o :=
      mem_answers float_zero (ws_memory (sy_ws s)) (ws_addr_out_bus_i (ws_bind (sy_sig s)))\<rparr>)"
    and "pl_posedge (pl_bind (sy_sig s)) (sy_pl s) = Inr (sy_pl s\<lparr>pl_data_io_write := None, pl_wr_io_write := None,
      pl_data_PC_bus_o := mem_answers pl_default (pl_memory (sy_pl s)) (pl_addr_PC_bus_i (pl_bind (sy_sig s)))\<rparr>)"
    and "ct_posedge (ct_bind (sy_sig s)) (sy_ct s) = Inr (sy_ct s\<lparr>ct_start_weight_o := 0, ct_pc := CT_Idle\<rparr>)"
proof -
  have C: "calm s" and plcc: "plc_calm (sy_plc s)" and sil: "ct_silent (sy_ct s)" and io0: "\<not> wr_io_bus (sy_sig s)"
    using F by (auto simp: fresh_def)
  note K = calm_linked [OF C]
  show "ls_posedge (ls_bind (sy_sig s)) (sy_ls s) = Inr (sy_ls s\<lparr>ls_data_o := ls_current (sy_ls s)\<rparr>)"
    by (rule ls_posedge_idle) (use F sil io0 in \<open>simp_all add: fresh_def linked_ls [OF K] ct_silent_def\<close>)
  show "ws_posedge (ws_bind (sy_sig s)) (sy_ws s) = Inr (sy_ws s\<lparr>ws_data_out_bus_o :=
      mem_answers float_zero (ws_memory (sy_ws s)) (ws_addr_out_bus_i (ws_bind (sy_sig s)))\<rparr>)"
    by (rule ws_posedge_idle) (use calm_addrs [OF C] io0 in \<open>simp_all add: linked_ws [OF K]\<close>)
  show "pl_posedge (pl_bind (sy_sig s)) (sy_pl s) = Inr (sy_pl s\<lparr>pl_data_io_write := None, pl_wr_io_write := None,
      pl_data_PC_bus_o := mem_answers pl_default (pl_memory (sy_pl s)) (pl_addr_PC_bus_i (pl_bind (sy_sig s)))\<rparr>)"
    by (rule pl_posedge_idle) (use calm_addrs [OF C] io0 plcc in \<open>simp_all add: linked_pl [OF K] plc_calm_def\<close>)
  show "ct_posedge (ct_bind (sy_sig s)) (sy_ct s) = Inr (sy_ct s\<lparr>ct_start_weight_o := 0, ct_pc := CT_Idle\<rparr>)"
    by (rule ct_posedge_idle) (use F io0 in \<open>simp_all add: fresh_def linked_ct [OF K] ct_command_def\<close>)
qed

text \<open>The first edge loads the files and puts the first command on the bus.\<close>

lemma fresh_step:
  assumes F: "fresh cfg pic s" and load: "loadData cfg pic = Inr (Some d)"
  shows "\<exists>s'. sys_edge expf s = Inr s' \<and> loading d [] (0, float_INFINITY) (tl (io_schedule d)) s'"
proof -
  have C: "calm s" and plcc: "plc_calm (sy_plc s)" and sil: "ct_silent (sy_ct s)"
    and io0: "sy_io s = io_module_new cfg pic" "\<not> wr_io_bus (sy_sig s)"
    using F by (auto simp: fresh_def)
  note K = calm_linked [OF C]
  note ls = fresh_modules(1) [OF F] and ws = fresh_modules(2) [OF F] and pl = fresh_modules(3) [OF F] and ct = fresh_modules(4) [OF F]
  have "io_pc (sy_io s) = IO_Start" "\<not> io_wr_io (io_bind (sy_time s) (sy_sig s))" "\<not> io_transmit (sy_io s)"
    "loadData (io_cfg (sy_io s)) (io_pic (sy_io s)) = Inr (Some d)"
    using io0 load by (simp_all add: io_module_new_def io_bind_def)
  from io_posedge_start [OF this] obtain io where
    io: "io_posedge (io_bind (sy_time s) (sy_sig s)) (sy_io s) = Inr io" "io_sent io 0 float_INFINITY (tl (io_schedule d))"
    "io_counter io = io_counter (sy_io s)" "io_report io = io_report (sy_io s)" "io_wr_write io = Some True"
    by blast
  let ?pl = "sy_pl s\<lparr>pl_data_io_write := None, pl_wr_io_write := None,
    pl_data_PC_bus_o := mem_answers pl_default (pl_memory (sy_pl s)) (pl_addr_PC_bus_i (pl_bind (sy_sig s)))\<rparr>"
  have d: "shared_write (pl_data_io_write ?pl) (io_data_write io) (data_io_bus (sy_sig s)) = Inr float_INFINITY"
    and w: "shared_write (pl_wr_io_write ?pl) (io_wr_write io) (wr_io_bus (sy_sig s)) = Inr True"
    using io(2,5) by (auto simp: io_sent_def shared_write_def)
  have ng: "\<not> ct_start_generator_o (sy_ct s)" and nn: "\<not> plc_next_o (sy_plc s)" and nc: "\<not> ct_start_clone_o (sy_ct s)"
    using sil plcc by (simp_all add: ct_silent_def plc_calm_def)
  have nlm: "length (nl_memory (sy_nl s)) = MEM_SIZE" using C by (simp add: calm_def resting_def)
  have np: "\<not> pl_stop (sy_pl s)" using F by (simp add: fresh_def)
  obtain s' where s': "sys_edge expf s = Inr s'" "calm s'"
    and became: "sys_became s s' (sy_nl s) (\<lambda>k. proc_calmed (sy_proc s ! k)) (pls_next s)
      (sy_plc s\<lparr>plc_clr_o := ct_clr_o (sy_ct s), plc_wr_to_out_o := ct_write_out_o (sy_ct s), plc_end_clone_o := False,
        plc_pc := PLC_Idle\<rparr>) ?pl
      (sy_ws s\<lparr>ws_data_out_bus_o := mem_answers float_zero (ws_memory (sy_ws s)) (ws_addr_out_bus_i (ws_bind (sy_sig s)))\<rparr>)
      (sy_ls s\<lparr>ls_data_o := ls_current (sy_ls s)\<rparr>) (sy_ct s\<lparr>ct_start_weight_o := 0, ct_pc := CT_Idle\<rparr>)
      io (sy_gen s\<lparr>gen_pc := GEN_Idle\<rparr>) float_INFINITY True"
    by (rule calm_step [OF C ng nl_calm_edge [OF C nn] nlm plc_calm_edge [OF K plcc nc] pl ws ls ct io(1) d w]) (use np in simp_all)
  have "zeq (data_io_bus (sy_sig s')) float_INFINITY"
    using became commit_float_zeq by (auto simp: sys_became_def)
  moreover have "counts s' 0" using F became counts_calmed by (auto simp: fresh_def sys_became_def)
  moreover have "plc_calm (sy_plc s')" using plcc sil became by (auto simp: plc_calm_def ct_silent_def sys_became_def)
  moreover have "ct_loaded d 0 (sy_ct s')"
    using F became by (auto simp: ct_loaded_def ct_silent_def fresh_def sys_became_def)
  ultimately have "loading d [] (0, float_INFINITY) (tl (io_schedule d)) s'"
    using F became s'(2) io unfolding loading_def
    by (auto simp: fresh_def sys_became_def io_sent_def io_schedule_def io_module_new_def)
  with s'(1) show ?thesis by blast
qed

section \<open>The last edge\<close>

text \<open>The network as it arrived in the memories.\<close>

definition net_of :: "load_result \<Rightarrow> net \<Rightarrow> bool" where
  "net_of d N \<longleftrightarrow> nt_sizes N = map nat (ld_layers d) \<and> list_all2 zeq (nt_weights N) (ld_weights d) \<and>
     list_all2 zeq (nt_values N) (ld_picture d)"

lemma sizes_from_floats:
  assumes "map float_of_int ys = map float_of_int zs" and "\<forall>y \<in> set ys. \<bar>y\<bar> \<le> 2 ^ 24" and "\<forall>z \<in> set zs. \<bar>z\<bar> \<le> 2 ^ 24"
  shows "ys = zs"
  using assms
proof (induction ys arbitrary: zs)
  case (Cons y ys)
  then obtain z zs' where zs: "zs = z # zs'" by (cases zs) auto
  have "float_of_int y = float_of_int z" using Cons.prems(1) zs by simp
  moreover have "int_of_float (float_of_int y) = Inr y" by (rule int_of_float_of_int) (use Cons.prems(2) in simp)
  moreover have "int_of_float (float_of_int z) = Inr z" by (rule int_of_float_of_int) (use Cons.prems(3) zs in simp)
  ultimately have "y = z" by (metis sum.inject(2))
  moreover have "ys = zs'" by (rule Cons.IH) (use Cons.prems zs in auto)
  ultimately show ?case using zs by simp
qed simp

lemma small_sizes_nat:
  assumes "small_sizes d"
  shows "map int (map nat (ld_layers d)) = ld_layers d" and "\<forall>z \<in> set (ld_layers d). \<bar>z\<bar> \<le> 2 ^ 24"
    and "is_cint (ld_layersCount d - 1)" and "ld_layers d \<noteq> []"
proof -
  show "map int (map nat (ld_layers d)) = ld_layers d"
    using assms by (auto simp: small_sizes_def intro!: map_idI)
  have "0 < length (ld_layers d)" using assms by (simp add: small_sizes_def)
  then show "is_cint (ld_layersCount d - 1)"
    using assms by (auto simp: small_sizes_def is_cint_def INT_MIN_def INT_MAX_def)
qed (use assms in \<open>auto simp: small_sizes_def\<close>)

lemma go_item:
  assumes "done @ [cur] = io_schedule d"
  shows "cur = io_go" and "vals a done = vals a (io_schedule d) \<or> a = 0" and "2 \<le> length done"
proof -
  show c: "cur = io_go" using arg_cong [OF assms, of last] by (simp add: io_schedule_def)
  show "vals a done = vals a (io_schedule d) \<or> a = 0"
    using arg_cong [OF assms, of "vals a"] c by (auto simp: vals_Cons io_go_def)
  show "2 \<le> length done" using arg_cong [OF assms, of length] by (simp add: io_schedule_def)
qed

lemma loading_last:
  assumes small: "small_sizes d" and L: "loading d done cur [] s"
  shows "\<exists>s' N. sys_edge expf s = Inr s' \<and> net_of d N \<and> layer_next N 0 0 0 s'"
proof -
  have sch: "done @ [cur] = io_schedule d" and C: "calm s" and ctl: "ct_loaded d (length done) (sy_ct s)"
    and plcc: "plc_calm (sy_plc s)" and bus: "io_addr_o (sy_io s) = fst cur" "zeq (data_io_bus (sy_sig s)) (snd cur)" "wr_io_bus (sy_sig s)"
    and ioq: "io_sending (sy_io s)" "io_rest (sy_io s) = []" and l0: "ls_index (sy_ls s) = 0"
    using L by (auto simp: loading_def)
  note K = calm_linked [OF C]
  have cur: "fst cur = 0" "snd cur = FInf True" using go_item(1) [OF sch] by (simp_all add: io_go_def float_INFINITY_def)
  have ctl: "ct_silent (sy_ct s)" "ct_state (sy_ct s) = CT_IDLE" "ct_pc (sy_ct s) = CT_Idle" "ct_layers (sy_ct s) = ld_layersCount d"
    "ct_start_weight_o (sy_ct s) = 0"
    using ctl go_item(3) [OF sch] by (auto simp: ct_loaded_def split: if_splits)
  have mem: "ls_memory (sy_ls s) = ld_layers d" "list_all2 zeq (pl_memory (sy_pl s)) (ld_picture d)"
    "list_all2 zeq (ws_memory (sy_ws s)) (ld_weights d)"
    using L go_item(2) [OF sch, of 1] go_item(2) [OF sch, of 2] go_item(2) [OF sch, of 3] sizes_from_floats small_sizes_nat(2) [OF small]
    by (auto simp: loading_def vals_schedule)
  let ?N = "\<lparr>nt_sizes = map nat (ld_layers d), nt_weights = ws_memory (sy_ws s), nt_values = pl_memory (sy_pl s)\<rparr>"
  let ?ws = "sy_ws s\<lparr>ws_data_out_bus_o := mem_answers float_zero (ws_memory (sy_ws s)) (ws_addr_out_bus_i (ws_bind (sy_sig s)))\<rparr>"
  let ?pl = "sy_pl s\<lparr>pl_data_io_write := None, pl_wr_io_write := None,
    pl_data_PC_bus_o := mem_answers pl_default (pl_memory (sy_pl s)) (pl_addr_PC_bus_i (pl_bind (sy_sig s)))\<rparr>"
  let ?ct = "ct_at_head (sy_ct s\<lparr>ct_state := CT_START_CONV, ct_i := 0\<rparr>)"
  let ?io = "sy_io s\<lparr>io_data_write := None, io_wr_write := Some False, io_transmit := False, io_pc := IO_Done\<rparr>"
  have ls: "ls_posedge (ls_bind (sy_sig s)) (sy_ls s) = Inr (sy_ls s\<lparr>ls_data_o := ls_current (sy_ls s)\<rparr>)"
    by (rule ls_posedge_idle) (use l0 ctl bus cur in \<open>simp_all add: linked_ls [OF K] ct_silent_def\<close>)
  have ws: "ws_posedge (ws_bind (sy_sig s)) (sy_ws s) = Inr ?ws"
    by (rule ws_posedge_idle) (use calm_addrs [OF C] bus cur in \<open>simp_all add: linked_ws [OF K]\<close>)
  have pl: "pl_posedge (pl_bind (sy_sig s)) (sy_pl s) = Inr ?pl"
    by (rule pl_posedge_idle) (use calm_addrs [OF C] bus cur plcc in \<open>simp_all add: linked_pl [OF K] plc_calm_def\<close>)
  have ct: "ct_posedge (ct_bind (sy_sig s)) (sy_ct s) = Inr ?ct"
    by (rule ct_posedge_go)
      (use ctl bus cur small_sizes_nat(3) [OF small] in \<open>simp_all add: linked_ct [OF K] ct_command_def\<close>)
  have "io_pc (sy_io s) = IO_Go" using io_rest_Go [OF ioq(1)] ioq(2) by simp
  moreover have "io_transmit (sy_io s)" using ioq(1) by (simp add: io_sending_def)
  ultimately have io: "io_posedge (io_bind (sy_time s) (sy_sig s)) (sy_io s) = Inr ?io" by (rule io_posedge_end)
  have d: "shared_write (pl_data_io_write ?pl) (io_data_write ?io) (data_io_bus (sy_sig s)) = Inr (data_io_bus (sy_sig s))"
    and w: "shared_write (pl_wr_io_write ?pl) (io_wr_write ?io) (wr_io_bus (sy_sig s)) = Inr False"
    by (simp_all add: shared_write_def)
  have ng: "\<not> ct_start_generator_o (sy_ct s)" and nn: "\<not> plc_next_o (sy_plc s)" and nc: "\<not> ct_start_clone_o (sy_ct s)"
    using ctl plcc by (simp_all add: ct_silent_def plc_calm_def)
  have nlm: "length (nl_memory (sy_nl s)) = MEM_SIZE" using C by (simp add: calm_def resting_def)
  have np: "\<not> pl_stop (sy_pl s)" using L by (simp add: loading_def)
  obtain s' where s': "sys_edge expf s = Inr s'" "calm s'"
    and became: "sys_became s s' (sy_nl s) (\<lambda>k. proc_calmed (sy_proc s ! k)) (pls_next s)
      (sy_plc s\<lparr>plc_clr_o := ct_clr_o (sy_ct s), plc_wr_to_out_o := ct_write_out_o (sy_ct s), plc_end_clone_o := False,
        plc_pc := PLC_Idle\<rparr>) ?pl ?ws (sy_ls s\<lparr>ls_data_o := ls_current (sy_ls s)\<rparr>) ?ct ?io
      (sy_gen s\<lparr>gen_pc := GEN_Idle\<rparr>) (data_io_bus (sy_sig s)) False"
    by (rule calm_step [OF C ng nl_calm_edge [OF C nn] nlm plc_calm_edge [OF K plcc nc] pl ws ls ct io d w]) (use np in simp_all)
  have ne: "ld_layers d \<noteq> []" by (rule small_sizes_nat(4) [OF small])
  have "\<forall>z \<in> set (ld_layers d). 1 \<le> z" using small by (simp add: small_sizes_def)
  with ne have "1 \<le> ld_layers d ! 0" by (metis length_greater_0_conv nth_mem)
  then have ge: "int (nat (ld_layers d ! 0)) = ld_layers d ! 0" by simp
  have "layer_next ?N 0 0 0 s'"
  proof (rule layer_nextI)
    show "counts s' 0" using L became counts_calmed by (auto simp: loading_def sys_became_def)
    show "plc_calm (sy_plc s')" using plcc ctl became by (auto simp: plc_calm_def ct_silent_def sys_became_def)
    show "io_idle s'" using L became cur by (auto simp: io_idle_def loading_def sys_became_def)
    show "mems ?N s'" using L became mem small_sizes_nat(1) [OF small] by (auto simp: mems_def loading_def sys_became_def)
    show "ls_data_o (sy_ls s') = int (nt_sizes ?N ! 0)"
      using became l0 mem(1) ne ge by (auto simp: sys_became_def ls_current_def)
    show "sy_ct s' = ?ct" using became by (simp add: sys_became_def)
    show "ct_layers (sy_ct s\<lparr>ct_state := CT_START_CONV, ct_i := 0\<rparr>) = int (length (nt_sizes ?N))"
      using ctl(4) small by (simp add: small_sizes_def)
    show "ct_start_weight_o (sy_ct s\<lparr>ct_state := CT_START_CONV, ct_i := 0\<rparr>) = int 0"
      using ctl(5) by simp
  qed (use s'(2) became l0 ctl in \<open>auto simp: sys_became_def ct_silent_def\<close>)
  moreover have "net_of d ?N" using mem by (simp add: net_of_def)
  ultimately show ?thesis using s'(1) by blast
qed

section \<open>The load phase\<close>

lemma loading_not_stopped: "loading d done cur rest s \<Longrightarrow> \<not> pl_stop (sy_pl s)"
  by (simp add: loading_def)

lemma loading_reaches:
  assumes "small_sizes d" and "loading d done cur rest s"
  shows "reaches (sys_tick expf) (\<lambda>s. \<exists>N. net_of d N \<and> layer_next N 0 0 0 s) s"
  using assms(2)
proof (induction rest arbitrary: s "done" cur)
  case Nil
  obtain s' N where "sys_edge expf s = Inr s'" "net_of d N" "layer_next N 0 0 0 s'"
    using loading_last [OF assms(1) Nil] by blast
  then show ?case using loading_not_stopped [OF Nil]
    by (intro reaches_step [of _ _ s']) (auto simp: sys_tick_def)
next
  case (Cons nxt rest)
  obtain s' where s': "sys_edge expf s = Inr s'" "loading d (done @ [cur]) nxt rest s'"
    using loading_step [OF assms(1) Cons.prems] by blast
  have "sys_tick expf s = Inr s'" using s'(1) loading_not_stopped [OF Cons.prems] by (simp add: sys_tick_def)
  then show ?case by (rule reaches_later) (rule Cons.IH [OF s'(2)])
qed

lemma load_phase:
  assumes "small_sizes d" and "loadData cfg pic = Inr (Some d)" and "fresh cfg pic s"
  shows "reaches (sys_tick expf) (\<lambda>s. \<exists>N. net_of d N \<and> layer_next N 0 0 0 s) s"
proof -
  obtain s' where s': "sys_edge expf s = Inr s'" "loading d [] (0, float_INFINITY) (tl (io_schedule d)) s'"
    using fresh_step [OF assms(3,2)] by blast
  have "sys_tick expf s = Inr s'" using s'(1) assms(3) by (simp add: sys_tick_def fresh_def)
  then show ?thesis by (rule reaches_later) (rule loading_reaches [OF assms(1) s'(2)])
qed

end
