(* ===== verification/Run_Start.thy ===== *)
theory Run_Start
  imports Run_Base
begin

text \<open>
  The start of a layer: the four edges from \<open>save_prev_layer_size_o\<close> to the generator at
  work.  The controller strobes one unit after the other; at the end the size registers hold
  the sizes of both layers.
\<close>

definition net_ok :: "net \<Rightarrow> bool" where
  "net_ok N \<longleftrightarrow> int (length (nt_sizes N)) < INT_MAX"

text \<open>The controller inside a layer, everything else at rest.\<close>

definition ct_layer :: "net \<Rightarrow> nat \<Rightarrow> nat \<Rightarrow> controller \<Rightarrow> bool" where
  "ct_layer N off i c \<longleftrightarrow> ct_state c = CT_START_CONV \<and> ct_i c = int i \<and> ct_layers c = int (length (nt_sizes N)) \<and>
     ct_start_weight_o c = int off \<and> \<not> ct_clr_o c \<and> \<not> ct_write_out_o c \<and> \<not> ct_start_clone_o c"

definition layer_mid :: "net \<Rightarrow> nat \<Rightarrow> nat \<Rightarrow> nat \<Rightarrow> sys \<Rightarrow> bool" where
  "layer_mid N t off i s \<longleftrightarrow> resting s \<and> io_idle s \<and> mems N s \<and> counts s t \<and> plc_calm (sy_plc s) \<and>
     ct_layer N off i (sy_ct s)"

lemma quiet_pl_resting:
  assumes "resting s" and "io_idle s" and "plc_calm (sy_plc s)"
  shows "\<exists>pl. pl_posedge (pl_bind (sy_sig s)) (sy_pl s) = Inr pl \<and> length (pl_data_PC_bus_o pl) = COUNT_PC_UNIT \<and>
    pl_data_io_write pl = None \<and> pl_wr_io_write pl = None \<and> pl_stop pl = pl_stop (sy_pl s) \<and>
    pl_memory pl = pl_memory (sy_pl s) \<and> pl_index_to_out pl = pl_index_to_out (sy_pl s)"
  using quiet_pl [OF resting_linked [OF assms(1)] resting_addrs(2) [OF assms(1)] _ assms(3)] assms(2)
  by (simp add: io_idle_def)

lemma mid_edge:
  assumes M: "layer_mid N t off i s" and ls: "ls_ok (sy_ls s)"
    and gen: "gen_generate (gen_bind (sy_sig s)) (sy_gen s) = Inr gen" "\<not> gen_w_o gen"
    and ct: "ct_posedge (ct_bind (sy_sig s)) (sy_ct s) = Inr ct" "ct_layer N off i ct"
  obtains s' where "sys_tick expf s = Inr s'" and "layer_mid N t off i s'" and "sy_ct s' = ct" and "sy_gen s' = gen"
    and "sy_pls s' = pls_next s" and "ls_data_o (sy_ls s') = ls_current (sy_ls s)" and "\<not> plc_end_clone_o (sy_plc s')"
    and "\<not> sy_er_pending s'"
    and "ls_index (sy_ls s') = ls_index (sy_ls s) + (if ct_next_layer_o (sy_ct s) then 1 else 0)"
    and "\<forall>k < COUNT_PC_UNIT. proc_pc (sy_proc s' ! k) = PROC_Empty \<and> proc_queue_size_o (sy_proc s' ! k) = 0"
proof -
  have R: "resting s" and I: "io_idle s" and plcc: "plc_calm (sy_plc s)" and ctl: "ct_layer N off i (sy_ct s)"
    and np: "\<not> pl_stop (sy_pl s)"
    using M by (auto simp: layer_mid_def mems_def)
  note K = resting_linked [OF R]
  have nl: "nl_posedge (nl_bind (sy_sig s)) (sy_nl s) = Inr (sy_nl s)" "length (nl_memory (sy_nl s)) = MEM_SIZE"
    using nl_posedge_idle [OF resting_addrs(3) [OF R]] plcc R by (simp_all add: linked_nl [OF K] plc_calm_def resting_def)
  have plc: "plc_posedge (plc_bind (sy_sig s)) (sy_plc s) = Inr (sy_plc s\<lparr>plc_clr_o := ct_clr_o (sy_ct s),
    plc_wr_to_out_o := ct_write_out_o (sy_ct s), plc_end_clone_o := False, plc_pc := PLC_Idle\<rparr>)"
    by (rule plc_calm_edge [OF K plcc]) (use ctl in \<open>simp add: ct_layer_def\<close>)
  obtain pl where pl: "pl_posedge (pl_bind (sy_sig s)) (sy_pl s) = Inr pl" "length (pl_data_PC_bus_o pl) = COUNT_PC_UNIT"
    "pl_data_io_write pl = None" "pl_wr_io_write pl = None" "pl_stop pl = pl_stop (sy_pl s)"
    "pl_memory pl = pl_memory (sy_pl s)" "pl_index_to_out pl = pl_index_to_out (sy_pl s)"
    using quiet_pl_resting [OF R I plcc] by blast
  have npl: "\<not> pl_stop pl" using np pl(5) by simp
  obtain s' where s': "sys_edge expf s = Inr s'" "resting s'"
    "quiet_became s s' (sy_nl s) (sy_plc s\<lparr>plc_clr_o := ct_clr_o (sy_ct s),
      plc_wr_to_out_o := ct_write_out_o (sy_ct s), plc_end_clone_o := False, plc_pc := PLC_Idle\<rparr>) pl ct gen"
    by (rule quiet_edge [OF R I ls gen(1) nl plc pl(1-4) npl ct(1) gen(2)])
  have "layer_mid N t off i s'"
    using s' M pl ct(2) ctl by (auto simp: layer_mid_def quiet_became_def mems_def plc_calm_def ct_layer_def)
  then show ?thesis using that [of s'] s' np by (simp add: quiet_became_def sys_tick_def)
qed

text \<open>The state in which the calculation starts.\<close>

definition calc_start :: "net \<Rightarrow> nat \<Rightarrow> nat \<Rightarrow> nat \<Rightarrow> sys \<Rightarrow> bool" where
  "calc_start N t off i s \<longleftrightarrow> layer_mid N t off i s \<and>
     ls_index (sy_ls s) = int (Suc i) \<and> ls_data_o (sy_ls s) = int (nt_sizes N ! Suc i) \<and>
     sy_pls s = \<lparr>pls_layer_size = int (nt_sizes N ! i), pls_data_o = int (nt_sizes N ! i)\<rparr> \<and>
     ct_pc (sy_ct s) = CT_WaitCycle \<and> ct_prev_layer (sy_ct s) = int (nt_sizes N ! i) \<and> ct_silent (sy_ct s) \<and>
     gen_state (sy_gen s) = GEN_GENERATE \<and> gen_pc (sy_gen s) = GEN_Wait1 \<and> gen_counter (sy_gen s) = 0 \<and>
     \<not> gen_end_generate_o (sy_gen s) \<and> \<not> gen_w_o (sy_gen s) \<and> \<not> plc_end_clone_o (sy_plc s) \<and> \<not> sy_er_pending s \<and>
     (\<forall>k < COUNT_PC_UNIT. proc_pc (sy_proc s ! k) = PROC_Empty \<and> proc_queue_size_o (sy_proc s ! k) = 0)"

lemma ls_current_sizes:
  assumes "ls_memory l = map int ns" and "ls_index l = int i" and "i < length ns"
  shows "ls_current l = int (ns ! i)"
  using assms by (simp add: ls_current_def)

lemma start_phase:
  assumes ok: "net_ok N" and i: "Suc i < length (nt_sizes N)" and S: "layer_start N t off i s"
  shows "reaches (sys_tick expf) (calc_start N t off i) s"
proof -
  have C: "calm s" and M0: "layer_mid N t off i s" and ls0: "ls_memory (sy_ls s) = map int (nt_sizes N)" "ls_index (sy_ls s) = int i"
    "ls_data_o (sy_ls s) = int (nt_sizes N ! i)"
    and ct0: "ct_pc (sy_ct s) = CT_Save" "ct_save_prev_o (sy_ct s)" "ct_silent (sy_ct s\<lparr>ct_save_prev_o := False\<rparr>)"
    using S by (auto simp: layer_start_def layer_mid_def mems_def ct_layer_def ct_silent_def calm_resting)
  have len: "int i < INT_MAX" "int (Suc i) < INT_MAX" using ok i by (auto simp: net_ok_def)
  have cur: "ls_current l = int (nt_sizes N ! i)" if "ls_memory l = map int (nt_sizes N)" "ls_index l = int i" for l
    using ls_current_sizes [OF that] i by simp
  have st: "ct_state (sy_ct s) = CT_START_CONV" using M0 by (simp add: layer_mid_def ct_layer_def)
  let ?c1 = "sy_ct s\<lparr>ct_save_prev_o := False, ct_prev_layer := int (nt_sizes N ! i), ct_next_layer_o := True, ct_pc := CT_Next\<rparr>"
  have K: "linked s" by (rule calm_linked [OF C])
  have e1: "ct_posedge (ct_bind (sy_sig s)) (sy_ct s) = Inr ?c1"
    using ct_posedge_layer(1) [OF st ct0(1)] ls0(3) by (simp add: linked_ct [OF K])
  have g1: "gen_generate (gen_bind (sy_sig s)) (sy_gen s) = Inr (sy_gen s\<lparr>gen_pc := GEN_Idle\<rparr>)"
    by (rule calm_gen [OF C]) (use ct0 in \<open>simp add: ct_silent_def\<close>)
  have gc: "gen_calm (sy_gen s)" using C by (simp add: calm_def)
  have l0: "ls_ok (sy_ls s)" using ls0 len by (simp add: ls_ok_def)
  have gw1: "\<not> gen_w_o (sy_gen s\<lparr>gen_pc := GEN_Idle\<rparr>)" using gc by (simp add: gen_calm_def)
  have cl1: "ct_layer N off i ?c1" using M0 by (simp add: layer_mid_def ct_layer_def)
  obtain s1 where s1: "sys_tick expf s = Inr s1" "layer_mid N t off i s1" "sy_ct s1 = ?c1"
    "sy_gen s1 = sy_gen s\<lparr>gen_pc := GEN_Idle\<rparr>" "sy_pls s1 = pls_next s" "ls_data_o (sy_ls s1) = ls_current (sy_ls s)"
    "ls_index (sy_ls s1) = ls_index (sy_ls s) + (if ct_next_layer_o (sy_ct s) then 1 else 0)"
    by (rule mid_edge [OF M0 l0 g1 gw1 e1 cl1])
  have m1: "ls_memory (sy_ls s1) = map int (nt_sizes N)" "ls_index (sy_ls s1) = int i" "resting s1"
    "ls_data_o (sy_ls s1) = int (nt_sizes N ! i)"
    using s1 ls0 ct0 cur by (auto simp: layer_mid_def mems_def ct_silent_def)
  let ?c2 = "?c1\<lparr>ct_next_layer_o := False, ct_start_generator_o := True, ct_pc := CT_Gen\<rparr>"
  have e2: "ct_posedge (ct_bind (sy_sig s1)) (sy_ct s1) = Inr ?c2"
    using ct_posedge_layer(2) [of "sy_ct s1"] st unfolding s1(3) by simp
  have g2: "gen_generate (gen_bind (sy_sig s1)) (sy_gen s1) = Inr (sy_gen s\<lparr>gen_pc := GEN_Idle\<rparr>)"
    using calm_gen [of s1] gc m1(3) ct0 unfolding calm_def s1(3,4) by (simp add: gen_calm_def ct_silent_def)
  have l1: "ls_ok (sy_ls s1)" using m1 len by (simp add: ls_ok_def)
  have cl2: "ct_layer N off i ?c2" using cl1 by (simp add: ct_layer_def)
  obtain s2 where s2: "sys_tick expf s1 = Inr s2" "layer_mid N t off i s2" "sy_ct s2 = ?c2"
    "sy_gen s2 = sy_gen s\<lparr>gen_pc := GEN_Idle\<rparr>" "sy_pls s2 = pls_next s1" "ls_data_o (sy_ls s2) = ls_current (sy_ls s1)"
    "ls_index (sy_ls s2) = ls_index (sy_ls s1) + (if ct_next_layer_o (sy_ct s1) then 1 else 0)"
    by (rule mid_edge [OF s1(2) l1 g2 gw1 e2 cl2])
  have m2: "ls_memory (sy_ls s2) = map int (nt_sizes N)" "ls_index (sy_ls s2) = int (Suc i)" "resting s2"
    "sy_pls s2 = \<lparr>pls_layer_size = int (nt_sizes N ! i), pls_data_o = int (nt_sizes N ! i)\<rparr>"
    using s2 m1 s1(3,5) ct0 ls0 by (auto simp: layer_mid_def mems_def)
  let ?c3 = "?c2\<lparr>ct_start_generator_o := False, ct_pc := CT_Gap\<rparr>"
  have e3: "ct_posedge (ct_bind (sy_sig s2)) (sy_ct s2) = Inr ?c3"
    using ct_posedge_layer(3) [of "sy_ct s2"] st unfolding s2(3) by simp
  let ?g3 = "sy_gen s\<lparr>gen_end_generate_o := False, gen_state := GEN_GENERATE, gen_pc := GEN_Idle\<rparr>"
  have g3: "gen_generate (gen_bind (sy_sig s2)) (sy_gen s2) = Inr ?g3"
    using gc s2(3,4) by (simp add: linked_gen [OF resting_linked [OF m2(3)]] gen_generate_def gen_switch_def Let_def gen_calm_def)
  have l2: "ls_ok (sy_ls s2)" using m2 len by (simp add: ls_ok_def)
  have gw3: "\<not> gen_w_o ?g3" using gc by (simp add: gen_calm_def)
  have cl3: "ct_layer N off i ?c3" using cl2 by (simp add: ct_layer_def)
  obtain s3 where s3: "sys_tick expf s2 = Inr s3" "layer_mid N t off i s3" "sy_ct s3 = ?c3"
    "sy_gen s3 = ?g3" "sy_pls s3 = pls_next s2" "ls_data_o (sy_ls s3) = ls_current (sy_ls s2)"
    "ls_index (sy_ls s3) = ls_index (sy_ls s2) + (if ct_next_layer_o (sy_ct s2) then 1 else 0)"
    by (rule mid_edge [OF s2(2) l2 g3 gw3 e3 cl3])
  have m3: "ls_memory (sy_ls s3) = map int (nt_sizes N)" "ls_index (sy_ls s3) = int (Suc i)"
    "sy_pls s3 = \<lparr>pls_layer_size = int (nt_sizes N ! i), pls_data_o = int (nt_sizes N ! i)\<rparr>"
    using s3 m2 s2(3) ct0 by (auto simp: layer_mid_def mems_def ct_silent_def)
  let ?c4 = "?c3\<lparr>ct_pc := CT_WaitCycle\<rparr>" and ?g4 = "?g3\<lparr>gen_pc := GEN_Wait1\<rparr>"
  have e4: "ct_posedge (ct_bind (sy_sig s3)) (sy_ct s3) = Inr ?c4"
    using ct_posedge_layer(4) [of "sy_ct s3"] st unfolding s3(3) by simp
  have g4: "gen_generate (gen_bind (sy_sig s3)) (sy_gen s3) = Inr ?g4"
    using s3(4) by (simp add: gen_generate_def gen_switch_def)
  have l3: "ls_ok (sy_ls s3)" using m3 len by (simp add: ls_ok_def)
  have gw4: "\<not> gen_w_o ?g4" using gc by (simp add: gen_calm_def)
  have cl4: "ct_layer N off i ?c4" using cl3 by (simp add: ct_layer_def)
  obtain s4 where s4: "sys_tick expf s3 = Inr s4" "layer_mid N t off i s4" "sy_ct s4 = ?c4"
    "sy_gen s4 = ?g4" "sy_pls s4 = pls_next s3" "ls_data_o (sy_ls s4) = ls_current (sy_ls s3)" "\<not> plc_end_clone_o (sy_plc s4)" "\<not> sy_er_pending s4"
    "ls_index (sy_ls s4) = ls_index (sy_ls s3) + (if ct_next_layer_o (sy_ct s3) then 1 else 0)"
    "\<forall>k < COUNT_PC_UNIT. proc_pc (sy_proc s4 ! k) = PROC_Empty \<and> proc_queue_size_o (sy_proc s4 ! k) = 0"
    by (rule mid_edge [OF s3(2) l3 g4 gw4 e4 cl4])
  have "calc_start N t off i s4"
    using s4 m3 s3(3) ct0 gc ls_current_sizes [OF m3(1,2) i]
    by (auto simp: calc_start_def ct_silent_def gen_calm_def)
  with s1(1) s2(1) s3(1) s4(1) show ?thesis by (blast intro: reaches.intros)
qed

end
