(* ===== verification/Run_Calc.thy ===== *)
theory Run_Calc
  imports Run_Start
begin

text \<open>
  The calculation of a layer.  The generator hands out the neuron numbers, the processors
  compute, the result memory collects.  The invariant \<open>calc\<close> says that every value in the
  result memory is the right one, that every neuron is in the memory, still to be handed
  out, on the generator's bus, or owed by a processor, and that the processors' counters
  account for all of them; \<open>calc_todo\<close> is the measure that every edge decreases until
  \<open>cycle_ended\<close>.
\<close>

section \<open>Invariant\<close>

definition job_of :: "net \<Rightarrow> nat \<Rightarrow> nat \<Rightarrow> job" where
  "job_of N off i =
     \<lparr>jb_n = nt_sizes N ! i, jb_off = off, jb_m = nt_sizes N ! Suc i,
      jb_x = mem_at pl_default (nt_values N), jb_w = mem_at float_zero (nt_weights N)\<rparr>"

lemma job_of_simps [simp]:
  "jb_n (job_of N off i) = nt_sizes N ! i" "jb_off (job_of N off i) = off" "jb_m (job_of N off i) = nt_sizes N ! Suc i"
  "jb_x (job_of N off i) = mem_at pl_default (nt_values N)" "jb_w (job_of N off i) = mem_at float_zero (nt_weights N)"
  by (simp_all add: job_of_def)

text \<open>The data a processor is about to read is on its port.\<close>

definition latched :: "job \<Rightarrow> sys \<Rightarrow> nat \<Rightarrow> bool" where
  "latched J s k \<longleftrightarrow>
     (proc_pc (sy_proc s ! k) = PROC_Fetch2 \<longrightarrow>
        pl_data_PC_bus_o (sy_pl s) ! k = jb_x J (proc_prevmem_addr_o (sy_proc s ! k))) \<and>
     (proc_pc (sy_proc s ! k) \<in> {PROC_Fetch2, PROC_Bias2} \<longrightarrow>
        ws_data_out_bus_o (sy_ws s) ! k = jb_w J (proc_weight_addr_o (sy_proc s ! k)))"

definition procs_ok :: "(float32 \<Rightarrow> float32) \<Rightarrow> job \<Rightarrow> sys \<Rightarrow> bool" where
  "procs_ok expf J s \<longleftrightarrow> (\<forall>k < COUNT_PC_UNIT.
     proc_address (sy_proc s ! k) = int k \<and> proc_inv expf J (sy_proc s ! k) \<and> latched J s k \<and>
     0 \<le> proc_count_neurons_calc (sy_proc s ! k))"

text \<open>A neuron on the generator's bus has a processor with room for it.\<close>

definition wire_ok :: "sys \<Rightarrow> bool" where
  "wire_ok s \<longleftrightarrow> (gen_w_o (sy_gen s) \<longrightarrow>
     (\<exists>k < COUNT_PC_UNIT. gen_address_o (sy_gen s) = int k \<and> length (proc_queue (sy_proc s ! k)) < QUEUE_SIZE))"

definition good_value :: "(float32 \<Rightarrow> float32) \<Rightarrow> job \<Rightarrow> nat \<Rightarrow> float32 \<Rightarrow> bool" where
  "good_value expf J j v \<longleftrightarrow> j < jb_m J \<and> zeq v (jb_value expf J j)"

definition covered :: "job \<Rightarrow> nat set \<Rightarrow> sys \<Rightarrow> bool" where
  "covered J D s \<longleftrightarrow> (\<forall>j < jb_m J. j \<in> D \<or> gen_made (jb_m J) (sy_gen s) \<le> j \<or>
     (gen_w_o (sy_gen s) \<and> nat (gen_data_o (sy_gen s)) = j) \<or>
     (\<exists>k < COUNT_PC_UNIT. j \<in> proc_owes (sy_proc s ! k)))"

definition in_flight :: "sys \<Rightarrow> int" where
  "in_flight s = (\<Sum>k < COUNT_PC_UNIT. proc_count_neurons_calc (sy_proc s ! k) + int (proc_load (sy_proc s ! k)))
     + (if gen_w_o (sy_gen s) then 1 else 0)"

definition ct_calc :: "net \<Rightarrow> nat \<Rightarrow> nat \<Rightarrow> controller \<Rightarrow> bool" where
  "ct_calc N off i c \<longleftrightarrow> ct_layer N off i c \<and> ct_prev_layer c = int (nt_sizes N ! i) \<and>
     \<not> ct_next_layer_o c \<and> \<not> ct_save_prev_o c \<and> \<not> ct_start_generator_o c"

definition calc_base :: "net \<Rightarrow> nat \<Rightarrow> sys \<Rightarrow> bool" where
  "calc_base N i s \<longleftrightarrow>
     linked s \<and> er_ok s \<and> \<not> sy_er_pending s \<and> io_idle s \<and> mems N s \<and> plc_calm (sy_plc s) \<and> \<not> plc_end_clone_o (sy_plc s) \<and>
     ls_index (sy_ls s) = int (Suc i) \<and> ls_data_o (sy_ls s) = int (nt_sizes N ! Suc i) \<and>
     sy_pls s = \<lparr>pls_layer_size = int (nt_sizes N ! i), pls_data_o = int (nt_sizes N ! i)\<rparr> \<and>
     length (ws_data_out_bus_o (sy_ws s)) = COUNT_PC_UNIT \<and> length (pl_data_PC_bus_o (sy_pl s)) = COUNT_PC_UNIT"

definition calc :: "(float32 \<Rightarrow> float32) \<Rightarrow> net \<Rightarrow> nat \<Rightarrow> nat \<Rightarrow> nat \<Rightarrow> nat set \<Rightarrow> sys \<Rightarrow> bool" where
  "calc expf N t off i D s \<longleftrightarrow>
     (let J = job_of N off i in
      calc_base N i s \<and> ct_calc N off i (sy_ct s) \<and> ct_pc (sy_ct s) = CT_WaitCycle \<and> gen_fine (jb_m J) (sy_gen s) \<and> wire_ok s \<and>
      procs_ok expf J s \<and> nl_holds (good_value expf J) D (sy_nl s) \<and> covered J D s \<and>
      in_flight s = int (t + gen_made (jb_m J) (sy_gen s)))"

text \<open>The measure.\<close>

definition calc_todo :: "net \<Rightarrow> nat \<Rightarrow> nat \<Rightarrow> sys \<Rightarrow> nat" where
  "calc_todo N off i s =
     (let J = job_of N off i in
      (\<Sum>k < COUNT_PC_UNIT. proc_todo J (sy_proc s ! k)) +
      (if gen_w_o (sy_gen s) then 2 * jb_n J + 6 else 0) +
      (2 * jb_n J + 9) * (jb_m J - gen_made (jb_m J) (sy_gen s)) + gen_phase (sy_gen s))"

text \<open>The bounds a layer needs.\<close>

definition layer_ok :: "net \<Rightarrow> nat \<Rightarrow> nat \<Rightarrow> nat \<Rightarrow> bool" where
  "layer_ok N t off i \<longleftrightarrow> net_ok N \<and> Suc i < length (nt_sizes N) \<and> jb_ok (job_of N off i) \<and>
     nt_sizes N ! Suc i \<le> MEM_SIZE \<and> int (t + nt_sizes N ! Suc i) < INT_MAX"

section \<open>The processors\<close>

lemma calc_proc_env:
  assumes "calc expf N t off i D s" and "k < COUNT_PC_UNIT"
  shows "proc_env (job_of N off i) (proc_bind (sy_sig s) k) (sy_proc s ! k)"
proof -
  have K: "linked s" and p: "procs_ok expf (job_of N off i) s" and g: "gen_fine (nt_sizes N ! Suc i) (sy_gen s)"
    and w: "wire_ok s" and c: "sy_pls s = \<lparr>pls_layer_size = int (nt_sizes N ! i), pls_data_o = int (nt_sizes N ! i)\<rparr>"
    "ct_start_weight_o (sy_ct s) = int off"
    "length (ws_data_out_bus_o (sy_ws s)) = COUNT_PC_UNIT" "length (pl_data_PC_bus_o (sy_pl s)) = COUNT_PC_UNIT"
    using assms(1) by (auto simp: calc_def calc_base_def ct_calc_def ct_layer_def Let_def)
  have z: "zeq (data_prev_layer_bus (sy_sig s) ! k) (pl_data_PC_bus_o (sy_pl s) ! k)"
    "zeq (data_weight_bus (sy_sig s) ! k) (ws_data_out_bus_o (sy_ws s) ! k)"
    using linked_floats(1,2) [OF K] assms(2) c(3,4) by (auto dest: list_all2_nthD2)
  have room: "length (proc_queue (sy_proc s ! k)) < QUEUE_SIZE" if "proc_accepts (proc_bind (sy_sig s) k) (sy_proc s ! k)"
    using that w p assms(2) by (auto simp: proc_accepts_def linked_proc [OF K] wire_ok_def procs_ok_def)
  have data: "0 \<le> gen_data_o (sy_gen s) \<and> gen_data_o (sy_gen s) < int (nt_sizes N ! Suc i)"
    if "proc_accepts (proc_bind (sy_sig s) k) (sy_proc s ! k)"
    using that g by (simp add: proc_accepts_def linked_proc [OF K] gen_fine_def)
  have "latched (job_of N off i) s k" using p assms(2) by (simp add: procs_ok_def)
  with z have "proc_pc (sy_proc s ! k) = PROC_Fetch2 \<Longrightarrow>
      zeq (data_prev_layer_bus (sy_sig s) ! k) (jb_x (job_of N off i) (proc_prevmem_addr_o (sy_proc s ! k)))"
    and "proc_pc (sy_proc s ! k) \<in> {PROC_Fetch2, PROC_Bias2} \<Longrightarrow>
      zeq (data_weight_bus (sy_sig s) ! k) (jb_w (job_of N off i) (proc_weight_addr_o (sy_proc s ! k)))"
    by (auto simp: latched_def)
  then show ?thesis using c room data by (simp add: proc_env_def linked_proc [OF K])
qed

lemma accepts_iff:
  assumes "linked s" and "procs_ok expf J s" and "k < COUNT_PC_UNIT"
  shows "proc_accepts (proc_bind (sy_sig s) k) (sy_proc s ! k) \<longleftrightarrow> gen_w_o (sy_gen s) \<and> gen_address_o (sy_gen s) = int k"
  using assms by (auto simp: proc_accepts_def linked_proc procs_ok_def)

lemma calc_count_bound:
  assumes "layer_ok N t off i" and "calc expf N t off i D s" and "k < COUNT_PC_UNIT"
  shows "is_cint (proc_count_neurons_calc (sy_proc s ! k) + 1)"
proof -
  let ?f = "\<lambda>k. proc_count_neurons_calc (sy_proc s ! k) + int (proc_load (sy_proc s ! k))"
  have p: "\<forall>k < COUNT_PC_UNIT. 0 \<le> proc_count_neurons_calc (sy_proc s ! k)"
    and tot: "in_flight s = int (t + gen_made (nt_sizes N ! Suc i) (sy_gen s))"
    and g: "gen_fine (nt_sizes N ! Suc i) (sy_gen s)"
    using assms(2) by (auto simp: calc_def procs_ok_def Let_def)
  have "?f k \<le> (\<Sum>k < COUNT_PC_UNIT. ?f k)"
    by (rule member_le_sum) (use p assms(3) in auto)
  then have "?f k \<le> in_flight s" by (simp add: in_flight_def)
  moreover have "gen_made (nt_sizes N ! Suc i) (sy_gen s) \<le> nt_sizes N ! Suc i"
    using g by (auto simp: gen_fine_def gen_made_def split: if_splits)
  ultimately have "proc_count_neurons_calc (sy_proc s ! k) < INT_MAX"
    using tot assms(1) by (simp add: layer_ok_def)
  then show ?thesis using p assms(3) by (auto simp: is_cint_def INT_MIN_def)
qed

section \<open>The edge\<close>

text \<open>The result memory takes the values of the processors at \<open>PROC_Write\<close>.\<close>

lemma calc_write_port:
  assumes "calc expf N t off i D s" and "k < COUNT_PC_UNIT" and "proc_resmem_w_o (sy_proc s ! k)"
  shows "\<exists>j < nt_sizes N ! Suc i. proc_resmem_addr_o (sy_proc s ! k) = int j \<and> proc_number_of_nn (sy_proc s ! k) = int j \<and>
    zeq (resmem_data_bus (sy_sig s) ! k) (jb_value expf (job_of N off i) j) \<and> proc_pc (sy_proc s ! k) = PROC_Write"
proof -
  have K: "linked s" and inv: "proc_inv expf (job_of N off i) (sy_proc s ! k)"
    using assms(1,2) by (auto simp: calc_def calc_base_def ct_calc_def procs_ok_def Let_def)
  have pc: "proc_pc (sy_proc s ! k) = PROC_Write" using inv assms(3) by (simp add: proc_inv_def)
  then obtain j where j: "proc_busy expf (job_of N off i) j (sy_proc s ! k)" using inv by (auto simp: proc_inv_def)
  have "zeq (resmem_data_bus (sy_sig s) ! k) (proc_resmem_data_o (sy_proc s ! k))"
    using list_all2_nthD2 [OF linked_floats(4) [OF K], of k] assms(2) linked_nproc [OF K] by simp
  then show ?thesis using j pc by (intro exI [of _ j]) (simp add: proc_busy_def)
qed

lemma calc_nl:
  assumes "layer_ok N t off i" and "calc expf N t off i D s"
  shows "nl_good_ports (good_value expf (job_of N off i)) (nl_bind (sy_sig s))"
    and "nl_written (nl_bind (sy_sig s)) = {nat (proc_number_of_nn (sy_proc s ! k)) |k. k < COUNT_PC_UNIT \<and> proc_pc (sy_proc s ! k) = PROC_Write}"
proof -
  have K: "linked s" and inv: "procs_ok expf (job_of N off i) s"
    using assms(2) by (auto simp: calc_def calc_base_def ct_calc_def Let_def)
  have w: "proc_resmem_w_o (sy_proc s ! k) \<longleftrightarrow> proc_pc (sy_proc s ! k) = PROC_Write" if "k < COUNT_PC_UNIT" for k
    using inv that by (simp add: procs_ok_def proc_inv_def)
  have bind: "nl_addr_i (nl_bind (sy_sig s)) ! k = proc_resmem_addr_o (sy_proc s ! k)"
    "nl_w_i (nl_bind (sy_sig s)) ! k = proc_resmem_w_o (sy_proc s ! k)"
    "nl_data_i (nl_bind (sy_sig s)) ! k = resmem_data_bus (sy_sig s) ! k" if "k < COUNT_PC_UNIT" for k
    using that linked_nproc [OF K] by (simp_all add: linked_nl [OF K])
  show "nl_good_ports (good_value expf (job_of N off i)) (nl_bind (sy_sig s))"
    unfolding nl_good_ports_def
  proof (intro allI impI)
    fix k assume k: "k < COUNT_PC_UNIT" "nl_w_i (nl_bind (sy_sig s)) ! k"
    then obtain j where "j < nt_sizes N ! Suc i" "proc_resmem_addr_o (sy_proc s ! k) = int j"
      "zeq (resmem_data_bus (sy_sig s) ! k) (jb_value expf (job_of N off i) j)"
      using calc_write_port [OF assms(2), of k] bind by auto
    then show "\<exists>j < MEM_SIZE. nl_addr_i (nl_bind (sy_sig s)) ! k = int j \<and>
        good_value expf (job_of N off i) j (nl_data_i (nl_bind (sy_sig s)) ! k)"
      using assms(1) bind [OF k(1)] by (intro exI [of _ j]) (auto simp: layer_ok_def good_value_def)
  qed
  have "nat (nl_addr_i (nl_bind (sy_sig s)) ! k) = nat (proc_number_of_nn (sy_proc s ! k))"
    if "k < COUNT_PC_UNIT" "proc_pc (sy_proc s ! k) = PROC_Write" for k
    using calc_write_port [OF assms(2) that(1)] w that bind [OF that(1)] by auto
  then show "nl_written (nl_bind (sy_sig s)) = {nat (proc_number_of_nn (sy_proc s ! k)) |k. k < COUNT_PC_UNIT \<and> proc_pc (sy_proc s ! k) = PROC_Write}"
    using w bind unfolding nl_written_def by (intro Collect_cong) (metis (lifting))
qed

text \<open>Everything that moves at an edge of the calculation.\<close>

definition calc_moved :: "(float32 \<Rightarrow> float32) \<Rightarrow> net \<Rightarrow> nat \<Rightarrow> nat \<Rightarrow> nat \<Rightarrow> nat set \<Rightarrow> sys \<Rightarrow> sys \<Rightarrow> bool" where
  "calc_moved expf N t off i D s s' \<longleftrightarrow>
     (let J = job_of N off i in
      gen_stepped (jb_m J) (gen_bind (sy_sig s)) (sy_gen s) (sy_gen s') \<and>
      (\<forall>k < COUNT_PC_UNIT. proc_stepped expf J (proc_bind (sy_sig s) k) (sy_proc s ! k) (sy_proc s' ! k) \<and>
         pl_data_PC_bus_o (sy_pl s') ! k = jb_x J (proc_prevmem_addr_o (sy_proc s ! k)) \<and>
         ws_data_out_bus_o (sy_ws s') ! k = jb_w J (proc_weight_addr_o (sy_proc s ! k))) \<and>
      nl_holds (good_value expf J) (D \<union> {nat (proc_number_of_nn (sy_proc s ! k)) |k. k < COUNT_PC_UNIT \<and> proc_pc (sy_proc s ! k) = PROC_Write}) (sy_nl s'))"

lemma calc_edge:
  assumes ok: "layer_ok N t off i" and C: "calc expf N t off i D s"
  shows "\<exists>s'. sys_tick expf s = Inr s' \<and> calc_moved expf N t off i D s s' \<and>
    calc_base N i s' \<and>
    sy_ct s' = (if cycle_ended (sy_sig s) then sy_ct s\<lparr>ct_clr_o := True, ct_pc := CT_Clear\<rparr> else sy_ct s)"
proof -
  let ?J = "job_of N off i"
  have K: "linked s" and er: "er_ok s" and I: "io_idle s" and M: "mems N s" and plcc: "plc_calm (sy_plc s)" and
    ctl: "ct_layer N off i (sy_ct s)" and sil: "\<not> ct_next_layer_o (sy_ct s)" "\<not> ct_save_prev_o (sy_ct s)" "\<not> ct_start_generator_o (sy_ct s)"
    and ls: "ls_index (sy_ls s) = int (Suc i)" "ls_data_o (sy_ls s) = int (nt_sizes N ! Suc i)"
    and pls: "sy_pls s = \<lparr>pls_layer_size = int (nt_sizes N ! i), pls_data_o = int (nt_sizes N ! i)\<rparr>"
    and len: "length (ws_data_out_bus_o (sy_ws s)) = COUNT_PC_UNIT" "length (pl_data_PC_bus_o (sy_pl s)) = COUNT_PC_UNIT"
    and pc: "ct_pc (sy_ct s) = CT_WaitCycle" and g: "gen_fine (nt_sizes N ! Suc i) (sy_gen s)"
    and pr: "procs_ok expf ?J s" and nlh: "nl_holds (good_value expf ?J) D (sy_nl s)"
    and prev: "ct_prev_layer (sy_ct s) = int (nt_sizes N ! i)"
    using C by (auto simp: calc_def calc_base_def ct_calc_def Let_def)
  have J: "jb_ok ?J" and i: "Suc i < length (nt_sizes N)" and bnd: "int (nt_sizes N ! Suc i) < INT_MAX" "int (Suc i) < INT_MAX"
    using ok by (auto simp: layer_ok_def net_ok_def)
  have w0: "\<not> wr_io_bus (sy_sig s)" using I by (simp add: io_idle_def)
  have addrs: "addrs_ok (map proc_weight_addr_o (sy_proc s))" "addrs_ok (map proc_prevmem_addr_o (sy_proc s))"
    using pr linked_nproc [OF K] by (auto simp: addrs_ok_def procs_ok_def proc_inv_def)
  obtain nl where nl: "nl_posedge (nl_bind (sy_sig s)) (sy_nl s) = Inr nl"
    "nl_holds (good_value expf ?J) (D \<union> nl_written (nl_bind (sy_sig s))) nl"
    using nl_posedge_write [OF _ calc_nl(1) [OF ok C] nlh] plcc by (auto simp: linked_nl [OF K] plc_calm_def)
  have "\<exists>p. \<forall>k < COUNT_PC_UNIT. proc_stepped expf ?J (proc_bind (sy_sig s) k) (sy_proc s ! k) (p k)"
  proof (intro choice allI)
    fix k
    show "\<exists>q. k < COUNT_PC_UNIT \<longrightarrow> proc_stepped expf ?J (proc_bind (sy_sig s) k) (sy_proc s ! k) q"
      using proc_step [OF J _ calc_proc_env [OF C] calc_count_bound [OF ok C]] pr by (auto simp: procs_ok_def)
  qed
  then obtain p where p: "\<And>k. k < COUNT_PC_UNIT \<Longrightarrow> proc_stepped expf ?J (proc_bind (sy_sig s) k) (sy_proc s ! k) (p k)"
    by blast
  then have pp: "\<And>k. k < COUNT_PC_UNIT \<Longrightarrow> proc_posedge expf (proc_bind (sy_sig s) k) (sy_proc s ! k) = Inr (p k)"
    by (simp add: proc_stepped_def)
  have ne: "sy_proc s \<noteq> []" using linked_nproc [OF K] by (auto simp: COUNT_PC_UNIT_def)
  obtain gen where gen: "gen_stepped (nt_sizes N ! Suc i) (gen_bind (sy_sig s)) (sy_gen s) gen"
    using gen_step [OF g, of "gen_bind (sy_sig s)"] ls(2) sil(3) bnd ne by (auto simp: linked_gen [OF K])
  have gg: "gen_generate (gen_bind (sy_sig s)) (sy_gen s) = Inr gen" using gen by (simp add: gen_stepped_def)
  let ?plc = "sy_plc s\<lparr>plc_clr_o := ct_clr_o (sy_ct s), plc_wr_to_out_o := ct_write_out_o (sy_ct s), plc_end_clone_o := False, plc_pc := PLC_Idle\<rparr>"
  have plc: "plc_posedge (plc_bind (sy_sig s)) (sy_plc s) = Inr ?plc"
    by (rule plc_calm_edge [OF K plcc]) (use ctl in \<open>simp add: ct_layer_def\<close>)
  let ?pl = "sy_pl s\<lparr>pl_data_io_write := None, pl_wr_io_write := None,
    pl_data_PC_bus_o := mem_answers pl_default (pl_memory (sy_pl s)) (map proc_prevmem_addr_o (sy_proc s))\<rparr>"
  have pl: "pl_posedge (pl_bind (sy_sig s)) (sy_pl s) = Inr ?pl" by (rule quiet_pl [OF K addrs(2) w0 plcc])
  let ?ws = "sy_ws s\<lparr>ws_data_out_bus_o := mem_answers float_zero (ws_memory (sy_ws s)) (map proc_weight_addr_o (sy_proc s))\<rparr>"
  have ws: "ws_posedge (ws_bind (sy_sig s)) (sy_ws s) = Inr ?ws"
    using ws_posedge_idle [of "ws_bind (sy_sig s)" "sy_ws s"] addrs w0 by (simp add: linked_ws [OF K])
  let ?ls = "sy_ls s\<lparr>ls_index := ls_index (sy_ls s) + (if ct_next_layer_o (sy_ct s) then 1 else 0), ls_data_o := ls_current (sy_ls s)\<rparr>"
  have "ls_ok (sy_ls s)" using ls(1) bnd(2) by (simp add: ls_ok_def)
  then have lse: "ls_posedge (ls_bind (sy_sig s)) (sy_ls s) = Inr ?ls" by (rule quiet_ls [OF K w0])
  let ?ct = "if cycle_ended (sy_sig s) then sy_ct s\<lparr>ct_clr_o := True, ct_pc := CT_Clear\<rparr> else sy_ct s"
  have ct: "ct_posedge (ct_bind (sy_sig s)) (sy_ct s) = Inr ?ct"
    using ct_posedge_layer(5) [of "sy_ct s"] ctl pc by (simp add: linked_ct [OF K] ct_layer_def)
  let ?io = "sy_io s\<lparr>io_data_write := None, io_wr_write := None\<rparr>"
  have d: "shared_write (pl_data_io_write ?pl) (io_data_write ?io) (data_io_bus (sy_sig s)) = Inr (data_io_bus (sy_sig s))"
    and w: "shared_write (pl_wr_io_write ?pl) (io_wr_write ?io) (wr_io_bus (sy_sig s)) = Inr (wr_io_bus (sy_sig s))"
    by (simp_all add: shared_write_def)
  have l: "length (ws_data_out_bus_o ?ws) = length (ws_data_out_bus_o (sy_ws s))"
    "length (pl_data_PC_bus_o ?pl) = length (pl_data_PC_bus_o (sy_pl s))" using len by simp_all
  obtain s' where s': "sys_edge expf s = Inr s'"
    "sys_became s s' nl p (pls_next s) ?plc ?pl ?ws ?ls ?ct ?io gen (data_io_bus (sy_sig s)) (wr_io_bus (sy_sig s))"
    using sys_edgeI [OF K er nl(1) pp pls_next [OF K] plc pl ws lse ct quiet_io [OF I] gg d w l] by blast
  have np: "\<not> pl_stop (sy_pl s)" using M by (simp add: mems_def)
  then have tick: "sys_tick expf s = Inr s'" using s'(1) by (simp add: sys_tick_def)
  have moved: "calc_moved expf N t off i D s s'"
    using s'(2) gen p nl(2) calc_nl(2) [OF ok C] M linked_nproc [OF K]
    by (simp add: calc_moved_def Let_def sys_became_def mems_def)
  have cur: "ls_current (sy_ls s) = int (nt_sizes N ! Suc i)"
    using ls_current_sizes [of "sy_ls s" "nt_sizes N" "Suc i"] M ls(1) i by (simp add: mems_def)
  have "calc_base N i s'"
    using s'(2) np I M plcc ls pls sil ctl cur
    by (auto simp: calc_base_def sys_became_def io_idle_def mems_def plc_calm_def ct_layer_def)
  moreover have "sy_ct s' = ?ct" using s'(2) by (simp add: sys_became_def)
  ultimately show ?thesis using tick moved by blast
qed

section \<open>The invariant is kept\<close>

definition calc_data :: "(float32 \<Rightarrow> float32) \<Rightarrow> net \<Rightarrow> nat \<Rightarrow> nat \<Rightarrow> nat \<Rightarrow> nat set \<Rightarrow> sys \<Rightarrow> bool" where
  "calc_data expf N t off i D s \<longleftrightarrow>
     (let J = job_of N off i in
      gen_fine (jb_m J) (sy_gen s) \<and> wire_ok s \<and> procs_ok expf J s \<and> nl_holds (good_value expf J) D (sy_nl s) \<and>
      covered J D s \<and> in_flight s = int (t + gen_made (jb_m J) (sy_gen s)))"

lemma calc_split:
  "calc expf N t off i D s \<longleftrightarrow> calc_base N i s \<and> ct_calc N off i (sy_ct s) \<and> ct_pc (sy_ct s) = CT_WaitCycle \<and>
     calc_data expf N t off i D s"
  by (auto simp: calc_def calc_data_def Let_def)

abbreviation written_now :: "sys \<Rightarrow> nat set" where
  "written_now s \<equiv> {nat (proc_number_of_nn (sy_proc s ! k)) |k. k < COUNT_PC_UNIT \<and> proc_pc (sy_proc s ! k) = PROC_Write}"

lemma queue_shrinks:
  assumes "proc_stepped expf J p s s'" and "\<not> proc_accepts p s" and "proc_inv expf J s"
  shows "length (proc_queue s') \<le> length (proc_queue s)"
proof -
  have "proc_inv expf J s'" and "proc_load s' \<le> proc_load s"
    using assms(1,2) by (auto simp: proc_stepped_def split: if_splits)
  then show ?thesis by (auto simp: proc_load_def proc_inv_def split: if_splits)
qed

lemma moved_procs_ok:
  assumes "calc_data expf N t off i D s" and "calc_moved expf N t off i D s s'"
  shows "procs_ok expf (job_of N off i) s'"
  unfolding procs_ok_def
proof (intro allI impI)
  let ?J = "job_of N off i"
  fix k assume k: "k < COUNT_PC_UNIT"
  have st: "proc_stepped expf ?J (proc_bind (sy_sig s) k) (sy_proc s ! k) (sy_proc s' ! k)"
    and ans: "pl_data_PC_bus_o (sy_pl s') ! k = jb_x ?J (proc_prevmem_addr_o (sy_proc s ! k))"
    "ws_data_out_bus_o (sy_ws s') ! k = jb_w ?J (proc_weight_addr_o (sy_proc s ! k))"
    using assms(2) k by (auto simp: calc_moved_def Let_def)
  have "proc_address (sy_proc s ! k) = int k" "0 \<le> proc_count_neurons_calc (sy_proc s ! k)"
    using assms(1) k by (auto simp: calc_data_def procs_ok_def Let_def)
  moreover have "latched ?J s' k"
    using st ans unfolding latched_def proc_stepped_def by auto
  ultimately show "proc_address (sy_proc s' ! k) = int k \<and> proc_inv expf ?J (sy_proc s' ! k) \<and> latched ?J s' k \<and>
      0 \<le> proc_count_neurons_calc (sy_proc s' ! k)"
    using st by (simp add: proc_stepped_def)
qed

lemma moved_wire_ok:
  assumes K: "linked s" and "calc_data expf N t off i D s" and "calc_moved expf N t off i D s s'"
  shows "wire_ok s'"
  unfolding wire_ok_def
proof
  let ?J = "job_of N off i" and ?p = "gen_bind (sy_sig s)"
  assume w: "gen_w_o (sy_gen s')"
  have g: "gen_stepped (nt_sizes N ! Suc i) ?p (sy_gen s) (sy_gen s')" and f: "gen_fine (nt_sizes N ! Suc i) (sy_gen s)"
    and pr: "procs_ok expf ?J s"
    using assms(2,3) by (auto simp: calc_moved_def calc_data_def Let_def)
  have qs: "gen_queue_size_i ?p = map proc_queue_size_o (sy_proc s)" by (simp add: linked_gen [OF K])
  obtain k where k: "k < COUNT_PC_UNIT" "gen_address_o (sy_gen s') = int k" "proc_queue_size_o (sy_proc s ! k) < int QUEUE_SIZE"
    and w1: "gen_pc (sy_gen s) = GEN_Wait1"
    using g w linked_nproc [OF K] unfolding gen_stepped_def qs by auto
  have "\<not> gen_w_o (sy_gen s)" using f w1 by (simp add: gen_fine_def)
  then have na: "\<not> proc_accepts (proc_bind (sy_sig s) k) (sy_proc s ! k)"
    using accepts_iff [OF K pr k(1)] by simp
  have inv: "proc_inv expf ?J (sy_proc s ! k)" using pr k(1) by (simp add: procs_ok_def)
  have "length (proc_queue (sy_proc s' ! k)) \<le> length (proc_queue (sy_proc s ! k))"
    using queue_shrinks [OF _ na inv] assms(3) k(1) by (simp add: calc_moved_def Let_def)
  moreover have "int (length (proc_queue (sy_proc s ! k))) \<le> proc_queue_size_o (sy_proc s ! k)"
    using inv by (simp add: proc_inv_def)
  ultimately show "\<exists>k < COUNT_PC_UNIT. gen_address_o (sy_gen s') = int k \<and> length (proc_queue (sy_proc s' ! k)) < QUEUE_SIZE"
    using k by (intro exI [of _ k]) linarith
qed

lemma moved_covered:
  assumes K: "linked s" and dat: "calc_data expf N t off i D s" and mv: "calc_moved expf N t off i D s s'"
  shows "covered (job_of N off i) (D \<union> written_now s) s'"
  unfolding covered_def
proof (intro allI impI)
  let ?J = "job_of N off i"
  fix j assume j: "j < jb_m ?J"
  have g: "gen_stepped (jb_m ?J) (gen_bind (sy_sig s)) (sy_gen s) (sy_gen s')" and pr: "procs_ok expf ?J s" and wo: "wire_ok s"
    and st: "\<And>k. k < COUNT_PC_UNIT \<Longrightarrow> proc_stepped expf ?J (proc_bind (sy_sig s) k) (sy_proc s ! k) (sy_proc s' ! k)"
    and dataw: "gen_w_o (sy_gen s) \<Longrightarrow> 0 \<le> gen_data_o (sy_gen s)"
    using dat mv by (auto simp: calc_moved_def calc_data_def Let_def gen_fine_def)
  let ?goal = "j \<in> D \<union> written_now s \<or> gen_made (jb_m ?J) (sy_gen s') \<le> j \<or> gen_w_o (sy_gen s') \<and> nat (gen_data_o (sy_gen s')) = j \<or>
    (\<exists>k < COUNT_PC_UNIT. j \<in> proc_owes (sy_proc s' ! k))"
  have owes: ?goal if k: "k < COUNT_PC_UNIT" and "j \<in> proc_owes (sy_proc s ! k) \<union>
      (if proc_accepts (proc_bind (sy_sig s) k) (sy_proc s ! k) then {nat (gen_data_o (sy_gen s))} else {})" for k
  proof -
    have "j \<in> proc_owes (sy_proc s' ! k) \<union> (if proc_pc (sy_proc s ! k) = PROC_Write then {nat (proc_number_of_nn (sy_proc s ! k))} else {})"
      using that(2) st [OF k] by (auto simp: proc_stepped_def linked_proc [OF K] split: if_splits)
    then show ?thesis using k by (auto split: if_splits)
  qed
  consider "j \<in> D" | "gen_made (jb_m ?J) (sy_gen s) \<le> j" | "gen_w_o (sy_gen s)" "nat (gen_data_o (sy_gen s)) = j"
    | k where "k < COUNT_PC_UNIT" "j \<in> proc_owes (sy_proc s ! k)"
    using dat j by (auto simp: calc_data_def covered_def Let_def)
  then show ?goal
  proof cases
    case 2
    then show ?thesis using g by (cases "gen_made (jb_m ?J) (sy_gen s) = j") (auto simp: gen_stepped_def split: if_splits)
  next
    case 3
    then obtain k where k: "k < COUNT_PC_UNIT" "gen_address_o (sy_gen s) = int k" using wo by (auto simp: wire_ok_def)
    then show ?thesis using owes [OF k(1)] accepts_iff [OF K pr k(1)] 3 by simp
  next
    case 4
    then show ?thesis using owes [of k] by simp
  qed simp
qed

text \<open>Exactly one processor accepts what is on the generator's bus.\<close>

lemma accept_sum:
  fixes c :: "'a :: comm_monoid_add"
  assumes "linked s" and "procs_ok expf J s" and "wire_ok s"
  shows "(\<Sum>k < COUNT_PC_UNIT. if proc_accepts (proc_bind (sy_sig s) k) (sy_proc s ! k) then c else 0) = (if gen_w_o (sy_gen s) then c else 0)"
proof (cases "gen_w_o (sy_gen s)")
  case True
  then obtain k where k: "k < COUNT_PC_UNIT" "gen_address_o (sy_gen s) = int k" using assms(3) by (auto simp: wire_ok_def)
  have "(\<Sum>x < COUNT_PC_UNIT. if proc_accepts (proc_bind (sy_sig s) x) (sy_proc s ! x) then c else 0) =
      (\<Sum>x < COUNT_PC_UNIT. if x = k then c else 0)"
    by (rule sum.cong) (use accepts_iff [OF assms(1,2)] True k in auto)
  then show ?thesis using True k(1) by simp
next
  case False
  then show ?thesis using accepts_iff [OF assms(1,2)] by simp
qed

lemma moved_in_flight:
  assumes K: "linked s" and dat: "calc_data expf N t off i D s" and mv: "calc_moved expf N t off i D s s'"
  shows "in_flight s' = int (t + gen_made (jb_m (job_of N off i)) (sy_gen s'))"
proof -
  let ?J = "job_of N off i"
  let ?f = "\<lambda>s k. proc_count_neurons_calc (sy_proc s ! k) + int (proc_load (sy_proc s ! k))"
  have g: "gen_stepped (jb_m ?J) (gen_bind (sy_sig s)) (sy_gen s) (sy_gen s')" and pr: "procs_ok expf ?J s" and wo: "wire_ok s"
    and st: "\<And>k. k < COUNT_PC_UNIT \<Longrightarrow> proc_stepped expf ?J (proc_bind (sy_sig s) k) (sy_proc s ! k) (sy_proc s' ! k)"
    and tot: "in_flight s = int (t + gen_made (jb_m ?J) (sy_gen s))"
    using dat mv by (auto simp: calc_moved_def calc_data_def Let_def)
  have each: "?f s' k = ?f s k + (if proc_accepts (proc_bind (sy_sig s) k) (sy_proc s ! k) then 1 else 0)"
    if "k < COUNT_PC_UNIT" for k
    using st [OF that] unfolding proc_stepped_def by (cases "proc_pc (sy_proc s ! k) = PROC_Write") (auto split: if_splits)
  have "(\<Sum>k < COUNT_PC_UNIT. ?f s' k) = (\<Sum>k < COUNT_PC_UNIT. ?f s k) + (if gen_w_o (sy_gen s) then 1 else 0)"
    unfolding accept_sum [OF K pr wo, symmetric] sum.distrib [symmetric] by (rule sum.cong) (use each in auto)
  then have "in_flight s' = in_flight s + (if gen_w_o (sy_gen s') then 1 else 0)"
    by (simp add: in_flight_def)
  then show ?thesis using tot g by (auto simp: gen_stepped_def split: if_splits)
qed

lemma moved_data:
  assumes K: "linked s" and dat: "calc_data expf N t off i D s" and mv: "calc_moved expf N t off i D s s'"
  shows "calc_data expf N t off i (D \<union> written_now s) s'"
  using moved_procs_ok [OF dat mv] moved_wire_ok [OF K dat mv] moved_covered [OF K dat mv] moved_in_flight [OF K dat mv] mv
  by (simp add: calc_data_def calc_moved_def gen_stepped_def Let_def)

section \<open>Progress\<close>

text \<open>The measure over the processors drops by their number of busy members, up to the cost of an
  accepted neuron.\<close>

lemma todo_sum:
  assumes K: "linked s" and dat: "calc_data expf N t off i D s" and mv: "calc_moved expf N t off i D s s'"
  shows "(\<Sum>k < COUNT_PC_UNIT. proc_todo (job_of N off i) (sy_proc s' ! k)) \<le>
    (\<Sum>k < COUNT_PC_UNIT. proc_todo (job_of N off i) (sy_proc s ! k) - (if gen_w_o (sy_gen s) then 0 else 1)) +
    (if gen_w_o (sy_gen s) then 2 * nt_sizes N ! i + 4 else 0)"
proof -
  let ?J = "job_of N off i" and ?c = "2 * nt_sizes N ! i + 4"
  have pr: "procs_ok expf ?J s" and wo: "wire_ok s"
    and st: "\<And>k. k < COUNT_PC_UNIT \<Longrightarrow> proc_stepped expf ?J (proc_bind (sy_sig s) k) (sy_proc s ! k) (sy_proc s' ! k)"
    using dat mv by (auto simp: calc_moved_def calc_data_def Let_def)
  have each: "proc_todo ?J (sy_proc s' ! k) \<le> (proc_todo ?J (sy_proc s ! k) - (if gen_w_o (sy_gen s) then 0 else 1)) +
      (if proc_accepts (proc_bind (sy_sig s) k) (sy_proc s ! k) then ?c else 0)" if "k < COUNT_PC_UNIT" for k
    using st [OF that] accepts_iff [OF K pr that] by (auto simp: proc_stepped_def)
  show ?thesis
    unfolding accept_sum [OF K pr wo, symmetric] sum.distrib [symmetric] by (rule sum_mono) (use each in auto)
qed

lemma sum_less_of_pos:
  fixes f :: "nat \<Rightarrow> nat"
  assumes "k < n" and "0 < f k"
  shows "(\<Sum>j < n. f j - 1) < (\<Sum>j < n. f j)"
  by (rule sum_strict_mono_ex1) (use assms in \<open>auto intro!: bexI [of _ k]\<close>)

lemma sum_minus_one: "(\<Sum>j < n. f j - (1::nat)) \<le> (\<Sum>j < n. f j)"
  by (rule sum_mono) simp

lemma sum_all_pos:
  fixes f :: "nat \<Rightarrow> nat"
  assumes "\<forall>j < n. 0 < f j"
  shows "(\<Sum>j < n. f j - 1) + n = (\<Sum>j < n. f j)"
  using assms by (induction n) auto

text \<open>When no queue has room, every processor has work.\<close>

lemma full_queue_todo:
  assumes "proc_inv expf J p" and "int QUEUE_SIZE \<le> proc_queue_size_o p"
  shows "0 < proc_todo J p"
proof -
  have "proc_queue p \<noteq> []" using assms by (auto simp: proc_inv_def QUEUE_SIZE_def)
  then show ?thesis by (simp add: proc_todo_def)
qed

lemma not_empty_todo: "\<not> proc_contr_empty_o p \<Longrightarrow> 0 < proc_todo J p"
  by (simp add: proc_todo_def)

lemma cycle_ended_iff:
  assumes "linked s" and "er_ok s" and "\<not> sy_er_pending s"
  shows "cycle_ended (sy_sig s) \<longleftrightarrow> gen_end_generate_o (sy_gen s) \<and> (\<forall>k < COUNT_PC_UNIT. proc_contr_empty_o (sy_proc s ! k))"
proof -
  have "er_bind (sy_sig s) = \<lparr>er_gen_end_i = gen_end_generate_o (sy_gen s), er_contr_empty_i = map proc_contr_empty_o (sy_proc s)\<rparr>"
    using assms(1) unfolding linked_def er_bind_def by simp
  moreover have "cycle_ended (sy_sig s) = er_reduce (er_bind (sy_sig s))" using assms(2,3) by (simp add: er_ok_def)
  ultimately show ?thesis using linked_nproc [OF assms(1)] by (auto simp: er_reduce_iff all_set_conv_all_nth)
qed

lemma calc_progress:
  assumes C: "calc expf N t off i D s" and mv: "calc_moved expf N t off i D s s'" and ne: "\<not> cycle_ended (sy_sig s)"
  shows "calc_todo N off i s' < calc_todo N off i s"
proof -
  let ?J = "job_of N off i" and ?g = "sy_gen s" and ?g' = "sy_gen s'"
  let ?T = "\<Sum>k < COUNT_PC_UNIT. proc_todo (job_of N off i) (sy_proc s ! k)"
  let ?T' = "\<Sum>k < COUNT_PC_UNIT. proc_todo (job_of N off i) (sy_proc s' ! k)"
  let ?U = "\<Sum>k < COUNT_PC_UNIT. proc_todo (job_of N off i) (sy_proc s ! k) - 1"
  have K: "linked s" "er_ok s" "\<not> sy_er_pending s" and dat: "calc_data expf N t off i D s"
    using C by (auto simp: calc_split calc_base_def)
  have g: "gen_stepped (jb_m ?J) (gen_bind (sy_sig s)) ?g ?g'" and f: "gen_fine (jb_m ?J) ?g" and pr: "procs_ok expf ?J s"
    using dat mv by (auto simp: calc_moved_def calc_data_def Let_def)
  note T = todo_sum [OF K(1) dat mv]
  note U = sum_minus_one [of "\<lambda>k. proc_todo (job_of N off i) (sy_proc s ! k)" COUNT_PC_UNIT]
  show ?thesis
  proof (cases "gen_w_o ?g")
    case True
    then have "gen_pc ?g = GEN_Wait2" using f by (simp add: gen_fine_def)
    then have "\<not> gen_w_o ?g'" "gen_phase ?g' \<le> 1" "gen_phase ?g = 2" "gen_made (jb_m ?J) ?g' = gen_made (jb_m ?J) ?g"
      using g by (auto simp: gen_stepped_def gen_phase_def split: if_splits)
    then show ?thesis using T True by (simp add: calc_todo_def Let_def)
  next
    case w: False
    then have T': "?T' \<le> ?U" using T by simp
    show ?thesis
    proof (cases "gen_w_o ?g'")
      case True
      then have "gen_pc ?g = GEN_Wait1" "gen_made (jb_m ?J) ?g < jb_m ?J" "gen_made (jb_m ?J) ?g' = Suc (gen_made (jb_m ?J) ?g)" "gen_phase ?g' = 2"
        using g by (auto simp: gen_stepped_def)
      moreover from this(2,3) have "jb_m ?J - gen_made (jb_m ?J) ?g = Suc (jb_m ?J - gen_made (jb_m ?J) ?g')" by simp
      ultimately show ?thesis using T' U w True by (simp add: calc_todo_def Let_def)
    next
      case w': False
      then have made: "gen_made (jb_m ?J) ?g' = gen_made (jb_m ?J) ?g" using g by (simp add: gen_stepped_def)
      have "?T' + gen_phase ?g' < ?T + gen_phase ?g"
      proof (cases "gen_pc ?g")
        case GEN_Start
        then show ?thesis using f by (simp add: gen_fine_def)
      next
        case GEN_Wait1
        have "\<forall>k < COUNT_PC_UNIT. int QUEUE_SIZE \<le> proc_queue_size_o (sy_proc s ! k)"
          using g w' GEN_Wait1 linked_nproc [OF K(1)] by (simp add: gen_stepped_def linked_gen [OF K(1)])
        then have "\<forall>k < COUNT_PC_UNIT. 0 < proc_todo ?J (sy_proc s ! k)"
          using pr full_queue_todo by (auto simp: procs_ok_def)
        from sum_all_pos [OF this] have "?U + 7 = ?T" by (simp add: COUNT_PC_UNIT_def)
        moreover have "gen_phase ?g = 1" "gen_phase ?g' = 2" using g GEN_Wait1 by (auto simp: gen_stepped_def gen_phase_def)
        ultimately show ?thesis using T' by simp
      next
        case GEN_Wait2
        then have "gen_phase ?g' \<le> 1" "gen_phase ?g = 2" using g by (auto simp: gen_stepped_def gen_phase_def)
        then show ?thesis using T' U by simp
      next
        case GEN_Idle
        then have "gen_end_generate_o ?g" using f by (simp add: gen_fine_def)
        then obtain k where "k < COUNT_PC_UNIT" "\<not> proc_contr_empty_o (sy_proc s ! k)"
          using ne cycle_ended_iff [OF K] by auto
        then have "?U < ?T" by (intro sum_less_of_pos [of k] not_empty_todo)
        moreover have "gen_phase ?g' = 0" using g GEN_Idle by (simp add: gen_stepped_def gen_phase_def)
        ultimately show ?thesis using T' by simp
      qed
      then show ?thesis using w w' made by (simp add: calc_todo_def Let_def)
    qed
  qed
qed

section \<open>The calculation ends\<close>

text \<open>What holds when the controller leaves its wait: all values are in the result memory.\<close>

definition calc_done :: "(float32 \<Rightarrow> float32) \<Rightarrow> net \<Rightarrow> nat \<Rightarrow> nat \<Rightarrow> nat \<Rightarrow> sys \<Rightarrow> bool" where
  "calc_done expf N t off i s \<longleftrightarrow>
     (let J = job_of N off i in
      calc_base N i s \<and> calm s \<and> counts s (t + jb_m J) \<and>
      nl_holds (good_value expf J) {..<jb_m J} (sy_nl s) \<and>
      (\<exists>c. ct_calc N off i c \<and> sy_ct s = c\<lparr>ct_clr_o := True, ct_pc := CT_Clear\<rparr>))"

lemma nl_holds_mono: "nl_holds good D s \<Longrightarrow> E \<subseteq> D \<Longrightarrow> nl_holds good E s"
  by (auto simp: nl_holds_def)

lemma calc_last:
  assumes ok: "layer_ok N t off i" and C: "calc expf N t off i D s" and ce: "cycle_ended (sy_sig s)"
  shows "\<exists>s'. sys_tick expf s = Inr s' \<and> calc_done expf N t off i s'"
proof -
  let ?J = "job_of N off i"
  obtain s' where s': "sys_tick expf s = Inr s'" "calc_moved expf N t off i D s s'" "calc_base N i s'"
    "sy_ct s' = sy_ct s\<lparr>ct_clr_o := True, ct_pc := CT_Clear\<rparr>"
    using calc_edge [OF ok C] ce by auto
  have K: "linked s" "er_ok s" "\<not> sy_er_pending s" and dat: "calc_data expf N t off i D s"
    using C by (auto simp: calc_split calc_base_def)
  have f: "gen_fine (jb_m ?J) (sy_gen s)" and pr: "procs_ok expf ?J s"
    using dat by (auto simp: calc_data_def Let_def)
  have ends: "gen_end_generate_o (sy_gen s)" "\<forall>k < COUNT_PC_UNIT. proc_contr_empty_o (sy_proc s ! k)"
    using ce cycle_ended_iff [OF K] by auto
  then have gi: "gen_pc (sy_gen s) = GEN_Idle" "\<not> gen_w_o (sy_gen s)" using f by (auto simp: gen_fine_def)
  have g: "gen_stepped (jb_m ?J) (gen_bind (sy_sig s)) (sy_gen s) (sy_gen s')"
    and st: "\<And>k. k < COUNT_PC_UNIT \<Longrightarrow> proc_stepped expf ?J (proc_bind (sy_sig s) k) (sy_proc s ! k) (sy_proc s' ! k)"
    using s'(2) by (auto simp: calc_moved_def Let_def)
  have gi': "gen_pc (sy_gen s') = GEN_Idle" "gen_fine (jb_m ?J) (sy_gen s')" "\<not> gen_w_o (sy_gen s')"
    using g gi by (auto simp: gen_stepped_def split: if_splits)
  note dat' = moved_data [OF K(1) dat s'(2)]
  have pr': "procs_ok expf ?J s'" using dat' by (simp add: calc_data_def Let_def)
  have ce': "proc_contr_empty_o (sy_proc s' ! k)" if "k < COUNT_PC_UNIT" for k
    using st [OF that] ends(2) that accepts_iff [OF K(1) pr that] gi(2) by (simp add: proc_stepped_def)
  have idle: "proc_pc (sy_proc s' ! k) = PROC_Empty" "proc_calm (sy_proc s' ! k)" "proc_load (sy_proc s' ! k) = 0"
    "proc_owes (sy_proc s' ! k) = {}" if "k < COUNT_PC_UNIT" for k
    using pr' ce' that by (auto simp: procs_ok_def proc_inv_def proc_calm_def proc_load_def proc_owes_def)
  have made: "gen_made (jb_m ?J) (sy_gen s') = jb_m ?J" using gi'(1) by (simp add: gen_made_def)
  have "covered ?J (D \<union> written_now s) s'" "nl_holds (good_value expf ?J) (D \<union> written_now s) (sy_nl s')"
    "in_flight s' = int (t + jb_m ?J)"
    using dat' made by (auto simp: calc_data_def Let_def)
  then have "{..<jb_m ?J} \<subseteq> D \<union> written_now s" and nlh: "nl_holds (good_value expf ?J) (D \<union> written_now s) (sy_nl s')"
    and fl: "in_flight s' = int (t + jb_m ?J)"
    using gi' made idle(4) by (auto simp: covered_def)
  then have "nl_holds (good_value expf ?J) {..<jb_m ?J} (sy_nl s')" by (blast intro: nl_holds_mono)
  moreover have "counts s' (t + jb_m ?J)"
    using fl gi'(3) pr' idle(3) by (simp add: counts_def in_flight_def procs_ok_def)
  moreover have "gen_calm (sy_gen s')" using gi' by (simp add: gen_fine_def gen_calm_def)
  then have "calm s'"
    using s'(3) idle(2) pr' gi'(3) nlh by (simp add: calm_def resting_def calc_base_def procs_ok_def nl_holds_def)
  ultimately show ?thesis
    using s' C unfolding calc_done_def Let_def calc_split by blast
qed

lemma calc_step:
  assumes ok: "layer_ok N t off i" and C: "calc expf N t off i D s" and ne: "\<not> cycle_ended (sy_sig s)"
  shows "\<exists>s' D'. sys_tick expf s = Inr s' \<and> calc expf N t off i D' s' \<and> calc_todo N off i s' < calc_todo N off i s"
proof -
  obtain s' where s': "sys_tick expf s = Inr s'" "calc_moved expf N t off i D s s'" "calc_base N i s'" "sy_ct s' = sy_ct s"
    using calc_edge [OF ok C] ne by auto
  have "calc_data expf N t off i (D \<union> written_now s) s'"
    using moved_data [OF _ _ s'(2)] C by (simp add: calc_split calc_base_def)
  with s' C have "calc expf N t off i (D \<union> written_now s) s'" by (simp add: calc_split)
  with s'(1) calc_progress [OF C s'(2) ne] show ?thesis by blast
qed

lemma calc_phase:
  assumes ok: "layer_ok N t off i" and C: "calc expf N t off i D s"
  shows "reaches (sys_tick expf) (calc_done expf N t off i) s"
proof -
  have "reaches (sys_tick expf) (\<lambda>s. \<exists>D. calc expf N t off i D s \<and> cycle_ended (sy_sig s)) s"
  proof (rule reaches_measure [where P = "\<lambda>s. \<exists>D. calc expf N t off i D s" and f = "calc_todo N off i"])
    show "\<exists>D. calc expf N t off i D s" using C by blast
  qed (use calc_step [OF ok] in blast)
  then show ?thesis
  proof (rule reaches_trans)
    fix s assume "\<exists>D. calc expf N t off i D s \<and> cycle_ended (sy_sig s)"
    then show "reaches (sys_tick expf) (calc_done expf N t off i) s"
      using calc_last [OF ok] by (blast intro: reaches_step)
  qed
qed

text \<open>The start of the layer leads into the calculation.\<close>

lemma calc_start_calc:
  assumes ok: "layer_ok N t off i" and S: "calc_start N t off i s"
  shows "calc expf N t off i {} s"
proof -
  let ?J = "job_of N off i"
  have M: "layer_mid N t off i s" using S by (simp add: calc_start_def)
  then have R: "resting s" by (simp add: layer_mid_def)
  have idle: "proc_pc (sy_proc s ! k) = PROC_Empty" "proc_queue_size_o (sy_proc s ! k) = 0"
    "proc_calm (sy_proc s ! k)" "proc_address (sy_proc s ! k) = int k" if "k < COUNT_PC_UNIT" for k
    using S R that by (auto simp: calc_start_def resting_def)
  have "procs_ok expf ?J s"
    unfolding procs_ok_def
  proof (intro allI impI)
    fix k assume k: "k < COUNT_PC_UNIT"
    have "0 \<le> proc_count_neurons_calc (sy_proc s ! k)" using M k by (simp add: layer_mid_def counts_def)
    then show "proc_address (sy_proc s ! k) = int k \<and> proc_inv expf ?J (sy_proc s ! k) \<and> latched ?J s k \<and>
        0 \<le> proc_count_neurons_calc (sy_proc s ! k)"
      using idle [OF k] by (auto simp: proc_inv_def proc_calm_def latched_def QUEUE_SIZE_def)
  qed
  moreover have "proc_load (sy_proc s ! k) = 0" if "k < COUNT_PC_UNIT" for k
    using idle [OF that] by (simp add: proc_load_def proc_calm_def)
  then have "in_flight s = int t"
    using M S by (simp add: in_flight_def layer_mid_def counts_def calc_start_def)
  moreover have "0 < jb_m ?J" using ok by (simp add: layer_ok_def jb_ok_def)
  then have "gen_fine (jb_m ?J) (sy_gen s)" "gen_made (jb_m ?J) (sy_gen s) = 0"
    using S by (simp_all add: calc_start_def gen_fine_def gen_made_def)
  moreover have "nl_holds (good_value expf ?J) {} (sy_nl s)" using R by (simp add: nl_holds_def resting_def)
  moreover have "wire_ok s" "covered ?J {} s" using S \<open>gen_made (jb_m ?J) (sy_gen s) = 0\<close> by (simp_all add: wire_ok_def covered_def calc_start_def)
  ultimately have "calc_data expf N t off i {} s" by (simp add: calc_data_def Let_def)
  moreover have "calc_base N i s" using S M R by (simp add: calc_base_def calc_start_def layer_mid_def resting_def)
  moreover have "ct_calc N off i (sy_ct s)" using S M by (simp add: ct_calc_def calc_start_def layer_mid_def ct_silent_def)
  ultimately show ?thesis using S by (simp add: calc_split calc_start_def)
qed

end
