(* ===== verification/Run_Clone.thy ===== *)
theory Run_Clone
  imports Run_Calc
begin

text \<open>
  The copy of the result memory into the memory of the previous layer: clear, strobe the
  result memory, and store what it shows, one value per edge and one edge behind.
\<close>

section \<open>Edges\<close>

lemma calm_quiet_edge:
  assumes C: "calm s" and I: "io_idle s" and ls: "ls_ok (sy_ls s)" and g: "\<not> ct_start_generator_o (sy_ct s)"
    and nl: "nl_posedge (nl_bind (sy_sig s)) (sy_nl s) = Inr nl" "length (nl_memory nl) = MEM_SIZE"
    and plc: "plc_posedge (plc_bind (sy_sig s)) (sy_plc s) = Inr plc"
    and pl: "pl_posedge (pl_bind (sy_sig s)) (sy_pl s) = Inr pl" "length (pl_data_PC_bus_o pl) = COUNT_PC_UNIT"
      "pl_data_io_write pl = None" "pl_wr_io_write pl = None" "\<not> pl_stop pl" "\<not> pl_stop (sy_pl s)"
    and ct: "ct_posedge (ct_bind (sy_sig s)) (sy_ct s) = Inr ct"
  obtains s' where "sys_tick expf s = Inr s'" and "calm s'"
    and "quiet_became s s' nl plc pl ct (sy_gen s\<lparr>gen_pc := GEN_Idle\<rparr>)"
proof -
  have gw: "\<not> gen_w_o (sy_gen s\<lparr>gen_pc := GEN_Idle\<rparr>)" using C by (simp add: calm_def resting_def)
  obtain s' where s': "sys_edge expf s = Inr s'" "resting s'" "quiet_became s s' nl plc pl ct (sy_gen s\<lparr>gen_pc := GEN_Idle\<rparr>)"
    by (rule quiet_edge [OF calm_resting [OF C] I ls calm_gen [OF C g] nl plc pl(1-5) ct gw])
  moreover have "calm s'" using s'(2,3) C by (simp add: calm_def quiet_became_def gen_calm_def)
  ultimately show ?thesis using that pl(6) by (simp add: sys_tick_def)
qed

text \<open>Between the strobes of the copy: \<open>zs\<close> is what has been copied so far.\<close>

definition clone_base :: "net \<Rightarrow> nat \<Rightarrow> nat \<Rightarrow> nat \<Rightarrow> float32 list \<Rightarrow> sys \<Rightarrow> bool" where
  "clone_base N t off i zs s \<longleftrightarrow>
     calm s \<and> io_idle s \<and> mems (N\<lparr>nt_values := zs\<rparr>) s \<and> counts s (t + nt_sizes N ! Suc i) \<and>
     ls_index (sy_ls s) = int (Suc i) \<and> ls_data_o (sy_ls s) = int (nt_sizes N ! Suc i) \<and>
     ct_state (sy_ct s) = CT_START_CONV \<and> ct_i (sy_ct s) = int i \<and> ct_layers (sy_ct s) = int (length (nt_sizes N)) \<and>
     ct_start_weight_o (sy_ct s) = int off \<and> ct_prev_layer (sy_ct s) = int (nt_sizes N ! i) \<and>
     \<not> ct_next_layer_o (sy_ct s) \<and> \<not> ct_write_out_o (sy_ct s) \<and> \<not> ct_save_prev_o (sy_ct s) \<and> \<not> ct_start_generator_o (sy_ct s)"

definition nl_values :: "(nat \<Rightarrow> float32 \<Rightarrow> bool) \<Rightarrow> nat \<Rightarrow> next_layer_mem \<Rightarrow> bool" where
  "nl_values good m s \<longleftrightarrow> length (nl_memory s) = MEM_SIZE \<and> m \<le> MEM_SIZE \<and> (\<forall>j < m. \<exists>v. nl_memory s ! j = Some v \<and> good j v)"

lemma clone_base_edge:
  assumes ok: "layer_ok N t off i" and B: "clone_base N t off i zs s"
    and nl: "nl_posedge (nl_bind (sy_sig s)) (sy_nl s) = Inr nl" "length (nl_memory nl) = MEM_SIZE"
    and plc: "plc_posedge (plc_bind (sy_sig s)) (sy_plc s) = Inr plc"
    and pl: "pl_posedge (pl_bind (sy_sig s)) (sy_pl s) = Inr pl" "length (pl_data_PC_bus_o pl) = COUNT_PC_UNIT"
      "pl_data_io_write pl = None" "pl_wr_io_write pl = None" "\<not> pl_stop pl" "pl_index_to_out pl = 0" "pl_memory pl = zs'"
    and ct: "ct_posedge (ct_bind (sy_sig s)) (sy_ct s) = Inr (sy_ct s\<lparr>ct_clr_o := a, ct_start_clone_o := b, ct_pc := pc\<rparr>)"
  obtains s' where "sys_tick expf s = Inr s'" and "clone_base N t off i zs' s'" and "sy_nl s' = nl" and "sy_plc s' = plc"
    and "sy_ct s' = sy_ct s\<lparr>ct_clr_o := a, ct_start_clone_o := b, ct_pc := pc\<rparr>" and "ls_current (sy_ls s) = int (nt_sizes N ! Suc i)"
proof -
  have C: "calm s" and I: "io_idle s" and g: "\<not> ct_start_generator_o (sy_ct s)" and np: "\<not> pl_stop (sy_pl s)"
    and li: "ls_memory (sy_ls s) = map int (nt_sizes N)" "ls_index (sy_ls s) = int (Suc i)"
    using B by (auto simp: clone_base_def mems_def)
  have i: "Suc i < length (nt_sizes N)" "int (Suc i) < INT_MAX" using ok by (auto simp: layer_ok_def net_ok_def)
  have ls: "ls_ok (sy_ls s)" using li i by (simp add: ls_ok_def)
  obtain s' where s': "sys_tick expf s = Inr s'" "calm s'"
    "quiet_became s s' nl plc pl (sy_ct s\<lparr>ct_clr_o := a, ct_start_clone_o := b, ct_pc := pc\<rparr>) (sy_gen s\<lparr>gen_pc := GEN_Idle\<rparr>)"
    by (rule calm_quiet_edge [OF C I ls g nl plc pl(1-5) np ct])
  have cur: "ls_current (sy_ls s) = int (nt_sizes N ! Suc i)" by (rule ls_current_sizes [OF li i(1)])
  have "clone_base N t off i zs' s'"
    using B s'(2,3) pl(5-7) cur by (auto simp: clone_base_def quiet_became_def mems_def)
  with s' cur that show ?thesis by (simp add: quiet_became_def)
qed

lemma quiet_pl_mem:
  assumes C: "calm s" and I: "io_idle s" and p: "\<not> plc_wr_to_out_o (sy_plc s)" "\<not> plc_wr_to_memory_from_mem_o (sy_plc s)"
    and B: "\<not> pl_stop (sy_pl s)" "pl_index_to_out (sy_pl s) = 0"
  obtains pl where "pl_posedge (pl_bind (sy_sig s)) (sy_pl s) = Inr pl" and "length (pl_data_PC_bus_o pl) = COUNT_PC_UNIT"
    and "pl_data_io_write pl = None" and "pl_wr_io_write pl = None" and "\<not> pl_stop pl" and "pl_index_to_out pl = 0"
    and "pl_memory pl = (if plc_clr_o (sy_plc s) then [] else pl_memory (sy_pl s))"
proof -
  note K = calm_linked [OF C]
  have w0: "\<not> wr_io_bus (sy_sig s)" using I by (simp add: io_idle_def)
  show thesis
  proof (cases "plc_clr_o (sy_plc s)")
    case True
    then show ?thesis using pl_posedge_clear [of "pl_bind (sy_sig s)" "sy_pl s"] calm_addrs(2) [OF C] w0 p B that
      by (auto simp: linked_pl [OF K])
  next
    case False
    then show ?thesis using pl_posedge_idle [of "pl_bind (sy_sig s)" "sy_pl s"] calm_addrs(2) [OF C] w0 p B that
      by (auto simp: linked_pl [OF K])
  qed
qed

section \<open>The copy loop\<close>

text \<open>The sequencer is in the iteration for element \<open>k\<close>, which the result memory shows.\<close>

definition copying :: "(float32 \<Rightarrow> float32) \<Rightarrow> net \<Rightarrow> nat \<Rightarrow> nat \<Rightarrow> nat \<Rightarrow> nat \<Rightarrow> sys \<Rightarrow> bool" where
  "copying expf N t off i k s \<longleftrightarrow>
     (let J = job_of N off i in \<exists>zs.
      clone_base N t off i zs s \<and> length zs = k \<and> k < jb_m J \<and> (\<forall>j < k. zeq (zs ! j) (jb_value expf J j)) \<and>
      nl_values (good_value expf J) (jb_m J) (sy_nl s) \<and> nl_index (sy_nl s) = int (Suc k) \<and> zeq (nl_data_o (sy_nl s)) (jb_value expf J k) \<and>
      ct_pc (sy_ct s) = CT_WaitClone \<and> \<not> ct_clr_o (sy_ct s) \<and> \<not> ct_start_clone_o (sy_ct s) \<and>
      plc_pc (sy_plc s) = PLC_Copy \<and> plc_i (sy_plc s) = int k \<and> plc_next_o (sy_plc s) = (k \<noteq> jb_m J - 1) \<and>
      plc_wr_to_memory_from_mem_o (sy_plc s) \<and> \<not> plc_wr_to_out_o (sy_plc s) \<and> \<not> plc_clr_o (sy_plc s) \<and> \<not> plc_end_clone_o (sy_plc s))"

text \<open>The copy is complete and the controller is told.\<close>

definition copied :: "(float32 \<Rightarrow> float32) \<Rightarrow> net \<Rightarrow> nat \<Rightarrow> nat \<Rightarrow> nat \<Rightarrow> sys \<Rightarrow> bool" where
  "copied expf N t off i s \<longleftrightarrow>
     (let J = job_of N off i in \<exists>zs.
      clone_base N t off i zs s \<and> length zs = jb_m J \<and> (\<forall>j < jb_m J. zeq (zs ! j) (jb_value expf J j)) \<and>
      ct_pc (sy_ct s) = CT_WaitClone \<and> \<not> ct_clr_o (sy_ct s) \<and> \<not> ct_start_clone_o (sy_ct s) \<and>
      plc_pc (sy_plc s) = PLC_Done \<and> plc_calm (sy_plc s) \<and> plc_end_clone_o (sy_plc s))"

lemma store_edge:
  assumes C: "calm s" and I: "io_idle s" and p: "plc_wr_to_memory_from_mem_o (sy_plc s)" "\<not> plc_wr_to_out_o (sy_plc s)" "\<not> plc_clr_o (sy_plc s)"
    and B: "\<not> pl_stop (sy_pl s)" "pl_index_to_out (sy_pl s) = 0"
  obtains pl where "pl_posedge (pl_bind (sy_sig s)) (sy_pl s) = Inr pl" and "length (pl_data_PC_bus_o pl) = COUNT_PC_UNIT"
    and "pl_data_io_write pl = None" and "pl_wr_io_write pl = None" and "\<not> pl_stop pl" and "pl_index_to_out pl = 0"
    and "pl_memory pl = pl_memory (sy_pl s) @ [data_from_now_layer_to_next_layer (sy_sig s)]"
  using pl_posedge_store_mem [of "pl_bind (sy_sig s)" "sy_pl s"] calm_addrs(2) [OF C] I p B that
  by (auto simp: linked_pl [OF calm_linked [OF C]] io_idle_def)

lemma nl_strobe:
  assumes C: "calm s" and n: "plc_next_o (sy_plc s)" and v: "nl_values (good_value expf J) m (sy_nl s)"
    and k: "nl_index (sy_nl s) = int k" "k < m"
  obtains nl where "nl_posedge (nl_bind (sy_sig s)) (sy_nl s) = Inr nl" and "length (nl_memory nl) = MEM_SIZE"
    and "nl_values (good_value expf J) m nl" and "nl_index nl = int (Suc k)" and "zeq (nl_data_o nl) (jb_value expf J k)"
proof -
  obtain x where x: "nl_memory (sy_nl s) ! k = Some x" "good_value expf J k x" using v k(2) by (auto simp: nl_values_def)
  have "nl_next_i (nl_bind (sy_sig s))" using n by (simp add: linked_nl [OF calm_linked [OF C]])
  then have "nl_posedge (nl_bind (sy_sig s)) (sy_nl s) = Inr (sy_nl s\<lparr>nl_data_o := x, nl_index := int k + 1\<rparr>)"
    using nl_posedge_next [OF calm_addrs(3) [OF C] _ k(1) _ _ x(1)] v k(2) by (simp add: nl_values_def)
  then show ?thesis using that v x(2) by (auto simp: nl_values_def good_value_def)
qed

lemma ct_same: "ct_pc c = pc \<Longrightarrow> ct_clr_o c = a \<Longrightarrow> ct_start_clone_o c = b \<Longrightarrow>
    c\<lparr>ct_clr_o := a, ct_start_clone_o := b, ct_pc := pc\<rparr> = c"
  by (cases c) simp

lemma ct_waits:
  assumes "linked s" and "ct_state (sy_ct s) = CT_START_CONV" and "ct_pc (sy_ct s) = CT_WaitClone"
    and "\<not> ct_clr_o (sy_ct s)" and "\<not> ct_start_clone_o (sy_ct s)" and "\<not> plc_end_clone_o (sy_plc s)"
  shows "ct_posedge (ct_bind (sy_sig s)) (sy_ct s) =
    Inr (sy_ct s\<lparr>ct_clr_o := False, ct_start_clone_o := False, ct_pc := CT_WaitClone\<rparr>)"
  using ct_posedge_layer(8) [of "sy_ct s"] assms by (simp add: ct_same linked_ct)

text \<open>One iteration: the memory of the previous layer stores what the result memory showed.\<close>

lemma copying_edge:
  assumes ok: "layer_ok N t off i" and C: "copying expf N t off i k s"
  shows "\<exists>s'. sys_tick expf s = Inr s' \<and>
    (if Suc k < nt_sizes N ! Suc i then copying expf N t off i (Suc k) s' else copied expf N t off i s')"
proof -
  let ?J = "job_of N off i" and ?m = "nt_sizes N ! Suc i"
  obtain zs where B: "clone_base N t off i zs s" and zs: "length zs = k" "k < ?m" "\<forall>j < k. zeq (zs ! j) (jb_value expf ?J j)"
    and nlv: "nl_values (good_value expf ?J) ?m (sy_nl s)" "nl_index (sy_nl s) = int (Suc k)" "zeq (nl_data_o (sy_nl s)) (jb_value expf ?J k)"
    and ct: "ct_pc (sy_ct s) = CT_WaitClone" "\<not> ct_clr_o (sy_ct s)" "\<not> ct_start_clone_o (sy_ct s)"
    and plc: "plc_pc (sy_plc s) = PLC_Copy" "plc_i (sy_plc s) = int k" "plc_next_o (sy_plc s) = (k \<noteq> ?m - 1)"
      "plc_wr_to_memory_from_mem_o (sy_plc s)" "\<not> plc_wr_to_out_o (sy_plc s)" "\<not> plc_clr_o (sy_plc s)" "\<not> plc_end_clone_o (sy_plc s)"
    using C by (auto simp: copying_def Let_def)
  have Cs: "calm s" and I: "io_idle s" and st: "ct_state (sy_ct s) = CT_START_CONV" and wo: "\<not> ct_write_out_o (sy_ct s)"
    and size: "ls_data_o (sy_ls s) = int ?m" and np: "\<not> pl_stop (sy_pl s)" "pl_index_to_out (sy_pl s) = 0" "pl_memory (sy_pl s) = zs"
    using B by (auto simp: clone_base_def mems_def)
  note K = calm_linked [OF Cs]
  let ?x = "data_from_now_layer_to_next_layer (sy_sig s)"
  obtain pl where pl: "pl_posedge (pl_bind (sy_sig s)) (sy_pl s) = Inr pl" "length (pl_data_PC_bus_o pl) = COUNT_PC_UNIT"
    "pl_data_io_write pl = None" "pl_wr_io_write pl = None" "\<not> pl_stop pl" "pl_index_to_out pl = 0"
    "pl_memory pl = zs @ [?x]"
    by (rule store_edge [OF Cs I plc(4-6) np(1,2)]) (use np(3) in auto)
  have x: "zeq ?x (jb_value expf ?J k)" by (rule zeq_trans [OF linked_floats(3) [OF K] nlv(3)])
  have zs': "\<forall>j < Suc k. zeq ((zs @ [?x]) ! j) (jb_value expf ?J j)"
    using zs x by (auto simp: nth_append less_Suc_eq)
  note e = ct_waits [OF K st ct plc(7)]
  have bnd: "is_cint (int ?m)" "is_cint (int (Suc k))"
    using ok zs(2) by (auto simp: layer_ok_def is_cint_def INT_MIN_def)
  have ports: "plc_layer_size_i (plc_bind (sy_sig s)) = int ?m" "plc_clr_i (plc_bind (sy_sig s)) = False"
    "plc_write_out_i (plc_bind (sy_sig s)) = False"
    using size ct(2) wo by (simp_all add: linked_plc [OF K])
  show ?thesis
  proof (cases "Suc k < ?m")
    case True
    let ?plc = "sy_plc s\<lparr>plc_clr_o := False, plc_wr_to_out_o := False, plc_i := int (Suc k),
      plc_next_o := (int (Suc k) \<noteq> int ?m - 1), plc_wr_to_memory_from_mem_o := True, plc_pc := PLC_Copy\<rparr>"
    have pe: "plc_posedge (plc_bind (sy_sig s)) (sy_plc s) = Inr ?plc"
      using plc_posedge_copy [of "sy_plc s" "int (Suc k)" "plc_bind (sy_sig s)"] plc(1,2) True bnd by (simp add: ports)
    have nx: "plc_next_o (sy_plc s)" using plc(3) True by simp
    obtain nl where nl: "nl_posedge (nl_bind (sy_sig s)) (sy_nl s) = Inr nl" "length (nl_memory nl) = MEM_SIZE"
      "nl_values (good_value expf ?J) ?m nl" "nl_index nl = int (Suc (Suc k))" "zeq (nl_data_o nl) (jb_value expf ?J (Suc k))"
      by (rule nl_strobe [OF Cs nx nlv(1,2) True])
    obtain s' where "sys_tick expf s = Inr s'" "clone_base N t off i (zs @ [?x]) s'" "sy_nl s' = nl" "sy_plc s' = ?plc"
      "sy_ct s' = sy_ct s\<lparr>ct_clr_o := False, ct_start_clone_o := False, ct_pc := CT_WaitClone\<rparr>"
      by (rule clone_base_edge [OF ok B nl(1,2) pe pl e])
    moreover have "int (Suc k) \<noteq> int ?m - 1 \<longleftrightarrow> Suc k \<noteq> ?m - 1" using True by linarith
    ultimately show ?thesis
      using True zs(1) zs' nl(3-5) plc(7) by (intro exI [of _ s']) (auto simp: copying_def Let_def intro!: exI [of _ "zs @ [?x]"])
  next
    case False
    then have k: "k = ?m - 1" "Suc k = ?m" using zs(2) by auto
    let ?plc = "sy_plc s\<lparr>plc_clr_o := False, plc_wr_to_out_o := False, plc_i := int (Suc k), plc_next_o := False,
      plc_wr_to_memory_from_mem_o := False, plc_end_clone_o := True, plc_pc := PLC_Done\<rparr>"
    have pe: "plc_posedge (plc_bind (sy_sig s)) (sy_plc s) = Inr ?plc"
      using plc_posedge_end [of "sy_plc s" "int (Suc k)" "plc_bind (sy_sig s)"] plc(1,2) k bnd by (simp add: ports)
    have nn: "\<not> plc_next_o (sy_plc s)" using plc(3) k(1) by simp
    have nlm: "length (nl_memory (sy_nl s)) = MEM_SIZE" using nlv(1) by (simp add: nl_values_def)
    obtain s' where "sys_tick expf s = Inr s'" "clone_base N t off i (zs @ [?x]) s'" "sy_nl s' = sy_nl s" "sy_plc s' = ?plc"
      "sy_ct s' = sy_ct s\<lparr>ct_clr_o := False, ct_start_clone_o := False, ct_pc := CT_WaitClone\<rparr>"
      by (rule clone_base_edge [OF ok B nl_calm_edge [OF Cs nn] nlm pe pl e])
    then show ?thesis
      using False zs(1) zs' k(2) by (intro exI [of _ s']) (auto simp: copied_def Let_def plc_calm_def intro!: exI [of _ "zs @ [?x]"])
  qed
qed

lemma copying_reaches:
  assumes ok: "layer_ok N t off i" and "copying expf N t off i k s"
  shows "reaches (sys_tick expf) (copied expf N t off i) s"
  using assms(2)
proof (induction "nt_sizes N ! Suc i - k" arbitrary: k s rule: less_induct)
  case less
  have k: "k < nt_sizes N ! Suc i" using less.prems by (auto simp: copying_def Let_def)
  obtain s' where s': "sys_tick expf s = Inr s'"
    "if Suc k < nt_sizes N ! Suc i then copying expf N t off i (Suc k) s' else copied expf N t off i s'"
    using copying_edge [OF ok less.prems] by blast
  show ?case
  proof (cases "Suc k < nt_sizes N ! Suc i")
    case True
    then have "reaches (sys_tick expf) (copied expf N t off i) s'"
      using s'(2) by (intro less.hyps [of "Suc k"]) auto
    with s'(1) show ?thesis by (rule reaches_later)
  next
    case False
    then show ?thesis using s' by (auto intro: reaches_step)
  qed
qed

section \<open>The start of the copy\<close>

text \<open>Clear the memory, strobe the first value, enter the loop.\<close>

lemma clone_start:
  assumes ok: "layer_ok N t off i" and D: "calc_done expf N t off i s"
  shows "reaches (sys_tick expf) (copying expf N t off i 0) s"
proof -
  let ?J = "job_of N off i" and ?m = "nt_sizes N ! Suc i"
  have C0: "calm s" and I0: "io_idle s" and M0: "mems N s" and base: "calc_base N i s"
    and nlh: "nl_holds (good_value expf ?J) {..<?m} (sy_nl s)" and cnt: "counts s (t + ?m)"
    using D by (auto simp: calc_done_def calc_base_def Let_def)
  obtain c where c: "ct_calc N off i c" "sy_ct s = c\<lparr>ct_clr_o := True, ct_pc := CT_Clear\<rparr>"
    using D by (auto simp: calc_done_def Let_def)
  have plcc: "plc_calm (sy_plc s)" "\<not> plc_end_clone_o (sy_plc s)" using base by (auto simp: calc_base_def)
  have m: "0 < ?m" "?m \<le> MEM_SIZE" "is_cint (int ?m)"
    using ok by (auto simp: layer_ok_def jb_ok_def is_cint_def INT_MIN_def)
  have nlv: "nl_values (good_value expf ?J) ?m (sy_nl s)" "nl_index (sy_nl s) = int 0"
    using nlh m by (auto simp: nl_holds_def nl_values_def)
  have B0: "clone_base N t off i (nt_values N) s"
    using C0 I0 M0 base c cnt by (simp add: clone_base_def calc_base_def ct_calc_def ct_layer_def)
  have nlm: "length (nl_memory (sy_nl s)) = MEM_SIZE" using nlv(1) by (simp add: nl_values_def)
  \<comment> \<open>first edge\<close>
  note K0 = calm_linked [OF C0]
  have st0: "ct_state (sy_ct s) = CT_START_CONV" "ct_pc (sy_ct s) = CT_Clear" "\<not> ct_start_clone_o (sy_ct s)" "ct_clr_o (sy_ct s)"
    "\<not> ct_write_out_o (sy_ct s)"
    using c by (simp_all add: ct_calc_def ct_layer_def)
  have e0: "ct_posedge (ct_bind (sy_sig s)) (sy_ct s) =
      Inr (sy_ct s\<lparr>ct_clr_o := False, ct_start_clone_o := True, ct_pc := CT_Clone\<rparr>)"
    by (rule ct_posedge_layer(6) [OF st0(1,2)])
  have pe0: "plc_posedge (plc_bind (sy_sig s)) (sy_plc s) = Inr (sy_plc s\<lparr>plc_clr_o := True, plc_wr_to_out_o := False,
      plc_end_clone_o := False, plc_pc := PLC_Idle\<rparr>)"
    using plc_calm_edge [OF K0 plcc(1) st0(3)] st0 by simp
  have nn0: "\<not> plc_next_o (sy_plc s)" using plcc by (simp add: plc_calm_def)
  obtain pl0 where pl0: "pl_posedge (pl_bind (sy_sig s)) (sy_pl s) = Inr pl0" "length (pl_data_PC_bus_o pl0) = COUNT_PC_UNIT"
    "pl_data_io_write pl0 = None" "pl_wr_io_write pl0 = None" "\<not> pl_stop pl0" "pl_index_to_out pl0 = 0"
    "pl_memory pl0 = (if plc_clr_o (sy_plc s) then [] else pl_memory (sy_pl s))"
    by (rule quiet_pl_mem [OF C0 I0]) (use plcc M0 in \<open>auto simp: plc_calm_def mems_def\<close>)
  obtain s1 where s1: "sys_tick expf s = Inr s1"
    "clone_base N t off i (if plc_clr_o (sy_plc s) then [] else pl_memory (sy_pl s)) s1" "sy_nl s1 = sy_nl s"
    "sy_plc s1 = sy_plc s\<lparr>plc_clr_o := True, plc_wr_to_out_o := False, plc_end_clone_o := False, plc_pc := PLC_Idle\<rparr>"
    "sy_ct s1 = sy_ct s\<lparr>ct_clr_o := False, ct_start_clone_o := True, ct_pc := CT_Clone\<rparr>"
    by (rule clone_base_edge [OF ok B0 nl_calm_edge [OF C0 nn0] nlm pe0 pl0 e0])
  \<comment> \<open>second edge: the memory is cleared\<close>
  have C1: "calm s1" and I1: "io_idle s1" and np1: "\<not> pl_stop (sy_pl s1)" "pl_index_to_out (sy_pl s1) = 0"
    using s1(2) by (auto simp: clone_base_def mems_def)
  note K1 = calm_linked [OF C1]
  have e1: "ct_posedge (ct_bind (sy_sig s1)) (sy_ct s1) =
      Inr (sy_ct s1\<lparr>ct_clr_o := False, ct_start_clone_o := False, ct_pc := CT_WaitClone\<rparr>)"
    using ct_posedge_layer(7) [of "sy_ct s1" "ct_bind (sy_sig s1)"] st0 s1(4,5) by (simp add: linked_ct [OF K1] ct_same)
  let ?plc1 = "sy_plc s1\<lparr>plc_clr_o := False, plc_wr_to_out_o := False, plc_next_o := True, plc_pc := PLC_Next\<rparr>"
  have pe1: "plc_posedge (plc_bind (sy_sig s1)) (sy_plc s1) = Inr ?plc1"
    using plc_posedge_start [of "sy_plc s1" "plc_bind (sy_sig s1)"] s1(4,5) st0 by (simp add: linked_plc [OF K1])
  have nn1: "\<not> plc_next_o (sy_plc s1)" using s1(4) nn0 by simp
  have nlm1: "length (nl_memory (sy_nl s1)) = MEM_SIZE" using s1(3) nlm by simp
  obtain pl1 where pl1: "pl_posedge (pl_bind (sy_sig s1)) (sy_pl s1) = Inr pl1" "length (pl_data_PC_bus_o pl1) = COUNT_PC_UNIT"
    "pl_data_io_write pl1 = None" "pl_wr_io_write pl1 = None" "\<not> pl_stop pl1" "pl_index_to_out pl1 = 0" "pl_memory pl1 = []"
    by (rule quiet_pl_mem [OF C1 I1]) (use plcc s1(4) np1 in \<open>auto simp: plc_calm_def\<close>)
  obtain s2 where s2: "sys_tick expf s1 = Inr s2" "clone_base N t off i [] s2" "sy_nl s2 = sy_nl s1" "sy_plc s2 = ?plc1"
    "sy_ct s2 = sy_ct s1\<lparr>ct_clr_o := False, ct_start_clone_o := False, ct_pc := CT_WaitClone\<rparr>"
    by (rule clone_base_edge [OF ok s1(2) nl_calm_edge [OF C1 nn1] nlm1 pe1 pl1 e1])
  \<comment> \<open>third edge: the first value\<close>
  have C2: "calm s2" and I2: "io_idle s2" and np2: "\<not> pl_stop (sy_pl s2)" "pl_index_to_out (sy_pl s2) = 0" "pl_memory (sy_pl s2) = []"
    and size: "ls_data_o (sy_ls s2) = int ?m" and st2: "ct_state (sy_ct s2) = CT_START_CONV" and wo2: "\<not> ct_write_out_o (sy_ct s2)"
    using s2(2) by (auto simp: clone_base_def mems_def)
  note K2 = calm_linked [OF C2]
  have ct2: "ct_pc (sy_ct s2) = CT_WaitClone" "\<not> ct_clr_o (sy_ct s2)" "\<not> ct_start_clone_o (sy_ct s2)" using s2(5) by simp_all
  have ne2: "\<not> plc_end_clone_o (sy_plc s2)" using s2(4) s1(4) by simp
  note e2 = ct_waits [OF K2 st2 ct2 ne2]
  let ?plc2 = "sy_plc s2\<lparr>plc_clr_o := False, plc_wr_to_out_o := False, plc_i := 0, plc_next_o := (0 \<noteq> int ?m - 1),
    plc_wr_to_memory_from_mem_o := True, plc_pc := PLC_Copy\<rparr>"
  have pe2: "plc_posedge (plc_bind (sy_sig s2)) (sy_plc s2) = Inr ?plc2"
    using plc_posedge_copy [of "sy_plc s2" 0 "plc_bind (sy_sig s2)"] s2(4) m size ct2 wo2 by (simp add: linked_plc [OF K2])
  have nx: "plc_next_o (sy_plc s2)" using s2(4) by simp
  have nlv2: "nl_values (good_value expf ?J) ?m (sy_nl s2)" "nl_index (sy_nl s2) = int 0" using nlv s1(3) s2(3) by simp_all
  obtain nl where nl: "nl_posedge (nl_bind (sy_sig s2)) (sy_nl s2) = Inr nl" "length (nl_memory nl) = MEM_SIZE"
    "nl_values (good_value expf ?J) ?m nl" "nl_index nl = int (Suc 0)" "zeq (nl_data_o nl) (jb_value expf ?J 0)"
    by (rule nl_strobe [OF C2 nx nlv2 m(1)])
  obtain pl2 where pl2: "pl_posedge (pl_bind (sy_sig s2)) (sy_pl s2) = Inr pl2" "length (pl_data_PC_bus_o pl2) = COUNT_PC_UNIT"
    "pl_data_io_write pl2 = None" "pl_wr_io_write pl2 = None" "\<not> pl_stop pl2" "pl_index_to_out pl2 = 0" "pl_memory pl2 = []"
    by (rule quiet_pl_mem [OF C2 I2]) (use plcc s1(4) s2(4) np2 in \<open>auto simp: plc_calm_def\<close>)
  obtain s3 where s3: "sys_tick expf s2 = Inr s3" "clone_base N t off i [] s3" "sy_nl s3 = nl" "sy_plc s3 = ?plc2"
    "sy_ct s3 = sy_ct s2\<lparr>ct_clr_o := False, ct_start_clone_o := False, ct_pc := CT_WaitClone\<rparr>"
    by (rule clone_base_edge [OF ok s2(2) nl(1,2) pe2 pl2 e2])
  have nx3: "0 \<noteq> int ?m - 1 \<longleftrightarrow> 0 \<noteq> ?m - Suc 0" using m(1) by linarith
  have "copying expf N t off i 0 s3"
    unfolding copying_def Let_def using s3 nl(3-5) m(1) ne2 nx3 by (intro exI [of _ "[]"]) simp
  with s1(1) s2(1) s3(1) show ?thesis by (blast intro: reaches.intros)
qed

section \<open>The end of the layer\<close>

text \<open>The values of the next layer, in the reference.\<close>

definition layer_values :: "(float32 \<Rightarrow> float32) \<Rightarrow> net \<Rightarrow> nat \<Rightarrow> nat \<Rightarrow> float32 list" where
  "layer_values expf N off i = map (jb_value expf (job_of N off i)) [0..<nt_sizes N ! Suc i]"

lemma clone_end:
  assumes ok: "layer_ok N t off i" and C: "copied expf N t off i s"
  shows "\<exists>s' zs. sys_tick expf s = Inr s' \<and> list_all2 zeq zs (layer_values expf N off i) \<and>
    layer_next (N\<lparr>nt_values := zs\<rparr>) (t + nt_sizes N ! Suc i) (off + (nt_sizes N ! i + 1) * nt_sizes N ! Suc i) (Suc i) s'"
proof -
  let ?J = "job_of N off i" and ?m = "nt_sizes N ! Suc i" and ?n = "nt_sizes N ! i"
  obtain zs where B: "clone_base N t off i zs s" and zs: "length zs = ?m" "\<forall>j < ?m. zeq (zs ! j) (jb_value expf ?J j)"
    and ct: "ct_pc (sy_ct s) = CT_WaitClone" "\<not> ct_clr_o (sy_ct s)" "\<not> ct_start_clone_o (sy_ct s)"
    and plc: "plc_pc (sy_plc s) = PLC_Done" "plc_calm (sy_plc s)" "plc_end_clone_o (sy_plc s)"
    using C by (auto simp: copied_def Let_def)
  have Cs: "calm s" and I: "io_idle s" and M: "mems (N\<lparr>nt_values := zs\<rparr>) s"
    and cnt: "counts s (t + ?m)" and li: "ls_index (sy_ls s) = int (Suc i)" and size: "ls_data_o (sy_ls s) = int ?m"
    and st: "ct_state (sy_ct s) = CT_START_CONV" "ct_i (sy_ct s) = int i" "ct_layers (sy_ct s) = int (length (nt_sizes N))"
      "ct_start_weight_o (sy_ct s) = int off" "ct_prev_layer (sy_ct s) = int ?n"
    and outs: "\<not> ct_next_layer_o (sy_ct s)" "\<not> ct_write_out_o (sy_ct s)" "\<not> ct_save_prev_o (sy_ct s)" "\<not> ct_start_generator_o (sy_ct s)"
    using B by (auto simp: clone_base_def)
  note K = calm_linked [OF Cs]
  have i: "Suc i < length (nt_sizes N)" "int (Suc i) < INT_MAX" "int (length (nt_sizes N)) < INT_MAX"
    and J: "int (off + (?n + 1) * ?m) \<le> INT_MAX" "0 < ?m"
    using ok by (auto simp: layer_ok_def net_ok_def jb_ok_def)
  let ?c = "sy_ct s\<lparr>ct_start_weight_o := int (off + (?n + 1) * ?m), ct_i := int (i + 1)\<rparr>"
  have e: "ct_posedge (ct_bind (sy_sig s)) (sy_ct s) = Inr (ct_at_head ?c)"
    by (rule ct_posedge_finish [OF st(1) ct(1) _ st(5) _ _ st(2)])
      (use plc(3) size st i J in \<open>auto simp: linked_ct [OF K] is_cint_def INT_MIN_def\<close>)
  have nn: "\<not> plc_next_o (sy_plc s)" using plc by (simp add: plc_calm_def)
  have nlm: "length (nl_memory (sy_nl s)) = MEM_SIZE" using Cs by (simp add: calm_def resting_def)
  let ?plc = "sy_plc s\<lparr>plc_clr_o := ct_clr_o (sy_ct s), plc_wr_to_out_o := ct_write_out_o (sy_ct s), plc_end_clone_o := False, plc_pc := PLC_Idle\<rparr>"
  have np: "\<not> pl_stop (sy_pl s)" "pl_index_to_out (sy_pl s) = 0" using M by (auto simp: mems_def)
  obtain pl where pl: "pl_posedge (pl_bind (sy_sig s)) (sy_pl s) = Inr pl" "length (pl_data_PC_bus_o pl) = COUNT_PC_UNIT"
    "pl_data_io_write pl = None" "pl_wr_io_write pl = None" "\<not> pl_stop pl" "pl_index_to_out pl = 0"
    "pl_memory pl = pl_memory (sy_pl s)"
    by (rule quiet_pl_mem [OF Cs I]) (use plc np in \<open>auto simp: plc_calm_def\<close>)
  have ls: "ls_ok (sy_ls s)" using li i by (simp add: ls_ok_def)
  obtain s' where s': "sys_tick expf s = Inr s'" "calm s'"
    "quiet_became s s' (sy_nl s) ?plc pl (ct_at_head ?c) (sy_gen s\<lparr>gen_pc := GEN_Idle\<rparr>)"
    by (rule calm_quiet_edge [OF Cs I ls outs(4) nl_calm_edge [OF Cs nn] nlm plc_calm_edge [OF K plc(2) ct(3)] pl(1-5) np(1) e])
  have cur: "ls_current (sy_ls s) = int ?m"
    using ls_current_sizes [of "sy_ls s" "nt_sizes N" "Suc i"] M li i by (simp add: mems_def)
  have "layer_next (N\<lparr>nt_values := zs\<rparr>) (t + ?m) (off + (?n + 1) * ?m) (Suc i) s'"
  proof (rule layer_nextI)
    show "sy_ct s' = ct_at_head ?c" using s'(3) by (simp add: quiet_became_def)
    show "mems (N\<lparr>nt_values := zs\<rparr>) s'" using s'(3) M pl by (simp add: quiet_became_def mems_def)
  qed (use s'(2,3) cnt plc ct outs li cur st in \<open>auto simp: quiet_became_def plc_calm_def ct_silent_def\<close>)
  moreover have "list_all2 zeq zs (layer_values expf N off i)"
    using zs by (simp add: layer_values_def list_all2_conv_all_nth)
  ultimately show ?thesis using s'(1) by blast
qed

text \<open>A whole layer.\<close>

lemma layer_phase:
  assumes ok: "layer_ok N t off i" and S: "layer_start N t off i s"
  shows "reaches (sys_tick expf) (\<lambda>s. \<exists>zs. list_all2 zeq zs (layer_values expf N off i) \<and>
    layer_next (N\<lparr>nt_values := zs\<rparr>) (t + nt_sizes N ! Suc i) (off + (nt_sizes N ! i + 1) * nt_sizes N ! Suc i) (Suc i) s) s"
proof -
  have N: "net_ok N" "Suc i < length (nt_sizes N)" using ok by (auto simp: layer_ok_def)
  have "reaches (sys_tick expf) (copied expf N t off i) s"
    by (rule reaches_trans [OF start_phase [OF N S]], rule reaches_trans [OF calc_phase [OF ok calc_start_calc [OF ok]]], assumption,
        rule reaches_trans [OF clone_start [OF ok]], assumption, rule copying_reaches [OF ok])
  then show ?thesis
    by (rule reaches_trans) (use clone_end [OF ok] in \<open>blast intro: reaches_step\<close>)
qed

end
