(* ===== verification/Run_Output.thy ===== *)
theory Run_Output
  imports Run_Base
begin

text \<open>
  The output: the memory of the previous layer puts one value per edge on the bus, \<open>IO\<close>
  reports each of them one edge later, and after the last one the simulation stops.
\<close>

section \<open>Reports\<close>

text \<open>The report of the values \<open>xs\<close>, one clock period apart, the first at time \<open>T\<close>.\<close>

definition reported :: "nat \<Rightarrow> float32 list \<Rightarrow> (nat \<times> int \<times> float32) list \<Rightarrow> bool" where
  "reported T xs rep \<longleftrightarrow> length rep = length xs \<and>
     (\<forall>j < length xs. \<exists>v. rep ! j = (T + CLOCK_PERIOD * j, int j, v) \<and> zeq v (xs ! j))"

lemma reported_Nil [simp]: "reported T [] []"
  by (simp add: reported_def)

lemma reported_snoc:
  assumes "reported T xs rep" and "zeq v x"
  shows "reported T (xs @ [x]) (rep @ [(T + CLOCK_PERIOD * length xs, int (length xs), v)])"
  using assms by (auto simp: reported_def nth_append less_Suc_eq)

definition no_infinity :: "float32 \<Rightarrow> bool" where
  "no_infinity x \<longleftrightarrow> (\<forall>b. x \<noteq> FInf b)"

section \<open>The states of the output\<close>

definition ct_out :: "controller \<Rightarrow> bool" where
  "ct_out c \<longleftrightarrow> ct_state c = CT_IDLE \<and> ct_pc c = CT_Idle \<and> ct_write_out_o c \<and> ct_silent (c\<lparr>ct_write_out_o := False\<rparr>)"

definition plc_out :: "previous_layer_controller \<Rightarrow> bool" where
  "plc_out c \<longleftrightarrow> plc_pc c \<in> {PLC_Start, PLC_Idle, PLC_Done} \<and> \<not> plc_wr_to_memory_from_mem_o c \<and> plc_wr_to_out_o c \<and>
     \<not> plc_clr_o c \<and> \<not> plc_next_o c"

text \<open>\<open>k\<close> values have been put on the bus, the last of them is there now.\<close>

definition outputting :: "net \<Rightarrow> nat \<Rightarrow> nat \<Rightarrow> nat \<Rightarrow> sys \<Rightarrow> bool" where
  "outputting N t T k s \<longleftrightarrow>
     calm s \<and> counts s t \<and> ct_out (sy_ct s) \<and> plc_out (sy_plc s) \<and> 0 \<le> ls_index (sy_ls s) \<and>
     pl_memory (sy_pl s) = nt_values N \<and> pl_index_to_out (sy_pl s) = int k \<and> \<not> pl_stop (sy_pl s) \<and>
     io_pc (sy_io s) = IO_Done \<and> \<not> io_transmit (sy_io s) \<and> io_addr_o (sy_io s) = 0 \<and>
     0 < k \<and> k \<le> length (nt_values N) \<and> wr_io_bus (sy_sig s) \<and> zeq (data_io_bus (sy_sig s)) (nt_values N ! (k - 1)) \<and>
     io_counter (sy_io s) = int (k - 1) \<and> reported T (take (k - 1) (nt_values N)) (io_report (sy_io s)) \<and>
     sy_time s = T + CLOCK_PERIOD * (k - 1)"

definition stopped :: "net \<Rightarrow> nat \<Rightarrow> sys \<Rightarrow> bool" where
  "stopped N t s \<longleftrightarrow> pl_stop (sy_pl s) \<and> counts s t \<and> length (sy_proc s) = COUNT_PC_UNIT \<and>
     (\<exists>T. reported T (nt_values N) (io_report (sy_io s)))"

text \<open>The parts that rest during the output.\<close>

lemma out_ct:
  assumes "linked s" and "ct_out (sy_ct s)" and "\<not> wr_io_bus (sy_sig s) \<or> no_infinity (data_io_bus (sy_sig s))"
  shows "ct_posedge (ct_bind (sy_sig s)) (sy_ct s) = Inr (sy_ct s\<lparr>ct_start_weight_o := 0, ct_pc := CT_Idle\<rparr>)"
  by (rule ct_posedge_idle) (use assms in \<open>auto simp: ct_out_def ct_command_def linked_ct no_infinity_def\<close>)

lemma out_ls:
  assumes "linked s" and "ct_out (sy_ct s)" and "0 \<le> ls_index (sy_ls s)" and "io_addr_o (sy_io s) = 0"
  shows "ls_posedge (ls_bind (sy_sig s)) (sy_ls s) = Inr (sy_ls s\<lparr>ls_data_o := ls_current (sy_ls s)\<rparr>)"
  by (rule ls_posedge_idle) (use assms in \<open>auto simp: linked_ls ct_out_def ct_silent_def\<close>)

lemma out_ws:
  assumes "calm s" and "io_addr_o (sy_io s) = 0"
  obtains ws where "ws_posedge (ws_bind (sy_sig s)) (sy_ws s) = Inr ws" and "length (ws_data_out_bus_o ws) = COUNT_PC_UNIT"
  using ws_posedge_idle [of "ws_bind (sy_sig s)" "sy_ws s"] calm_addrs(1) [OF assms(1)] assms(2) that
  by (simp add: linked_ws [OF calm_linked [OF assms(1)]])

lemma zeq_no_infinity: "zeq x y \<Longrightarrow> no_infinity y \<Longrightarrow> no_infinity x"
  by (cases x; cases y) (auto simp: no_infinity_def)

text \<open>What every edge of the output has in common, whether it stops the simulation or not.\<close>

lemma out_edge:
  assumes C: "calm s" and ct: "ct_out (sy_ct s)" and plc: "plc_posedge (plc_bind (sy_sig s)) (sy_plc s) = Inr plc"
    and nn: "\<not> plc_next_o (sy_plc s)" and li: "0 \<le> ls_index (sy_ls s)" and addr: "io_addr_o (sy_io s) = 0"
    and bus: "\<not> wr_io_bus (sy_sig s) \<or> no_infinity (data_io_bus (sy_sig s))"
    and pl: "pl_posedge (pl_bind (sy_sig s)) (sy_pl s) = Inr pl" "length (pl_data_PC_bus_o pl) = COUNT_PC_UNIT"
    and io: "io_posedge (io_bind (sy_time s) (sy_sig s)) (sy_io s) = Inr io" "io_data_write io = None" "io_wr_write io = None"
    and np: "\<not> pl_stop (sy_pl s)"
  shows "\<exists>s'. sys_tick expf s = Inr s' \<and> (\<forall>t. counts s' t = counts s t) \<and> length (sy_proc s') = COUNT_PC_UNIT \<and>
    sy_pl s' = pl \<and> sy_io s' = io \<and>
    (\<not> pl_stop pl \<longrightarrow> calm s' \<and> ct_out (sy_ct s') \<and> sy_plc s' = plc \<and> 0 \<le> ls_index (sy_ls s') \<and>
       zeq (data_io_bus (sy_sig s')) (case pl_data_io_write pl of None \<Rightarrow> data_io_bus (sy_sig s) | Some x \<Rightarrow> x) \<and>
       wr_io_bus (sy_sig s') = (case pl_wr_io_write pl of None \<Rightarrow> wr_io_bus (sy_sig s) | Some w \<Rightarrow> w) \<and>
       sy_time s' = sy_time s + CLOCK_PERIOD)"
proof -
  note K = calm_linked [OF C]
  obtain ws where ws: "ws_posedge (ws_bind (sy_sig s)) (sy_ws s) = Inr ws" "length (ws_data_out_bus_o ws) = COUNT_PC_UNIT"
    by (rule out_ws [OF C addr])
  have nlm: "length (nl_memory (sy_nl s)) = MEM_SIZE" using C by (simp add: calm_def resting_def)
  have g: "\<not> ct_start_generator_o (sy_ct s)" using ct by (simp add: ct_out_def ct_silent_def)
  have d: "shared_write (pl_data_io_write pl) (io_data_write io) (data_io_bus (sy_sig s)) =
      Inr (case pl_data_io_write pl of None \<Rightarrow> data_io_bus (sy_sig s) | Some x \<Rightarrow> x)"
    and w: "shared_write (pl_wr_io_write pl) (io_wr_write io) (wr_io_bus (sy_sig s)) =
      Inr (case pl_wr_io_write pl of None \<Rightarrow> wr_io_bus (sy_sig s) | Some w \<Rightarrow> w)"
    using io by (auto simp: shared_write_def split: option.splits)
  obtain s' where s': "sys_edge expf s = Inr s'"
    "sys_became s s' (sy_nl s) (\<lambda>k. proc_calmed (sy_proc s ! k)) (pls_next s) plc pl ws
      (sy_ls s\<lparr>ls_data_o := ls_current (sy_ls s)\<rparr>) (sy_ct s\<lparr>ct_start_weight_o := 0, ct_pc := CT_Idle\<rparr>) io
      (sy_gen s\<lparr>gen_pc := GEN_Idle\<rparr>) (case pl_data_io_write pl of None \<Rightarrow> data_io_bus (sy_sig s) | Some x \<Rightarrow> x)
      (case pl_wr_io_write pl of None \<Rightarrow> wr_io_bus (sy_sig s) | Some w \<Rightarrow> w)"
    "\<not> pl_stop pl \<longrightarrow> \<not> gen_w_o (sy_gen s\<lparr>gen_pc := GEN_Idle\<rparr>) \<longrightarrow> resting s'"
    using resting_edge [OF calm_resting [OF C] calm_gen [OF C g] nl_calm_edge [OF C nn] nlm plc pl(1) ws(1)
      out_ls [OF K ct li addr] out_ct [OF K ct bus] io(1) d w ws(2) pl(2), of expf] by blast
  have "sy_proc s' = map (\<lambda>k. proc_calmed (sy_proc s ! k)) [0..<COUNT_PC_UNIT]" using s'(2) by (simp add: sys_became_def)
  then have cnt: "\<forall>t. counts s' t = counts s t" "length (sy_proc s') = COUNT_PC_UNIT" using counts_calmed by auto
  have gc: "gen_calm (sy_gen s\<lparr>gen_pc := GEN_Idle\<rparr>)" using C by (simp add: calm_def gen_calm_def)
  then have "\<not> pl_stop pl \<longrightarrow> calm s'"
    using s'(2,3) by (simp add: calm_def sys_became_def gen_calm_def)
  moreover have "ct_out (sy_ct s')" using s'(2) ct by (simp add: sys_became_def ct_out_def ct_silent_def)
  moreover have "zeq (data_io_bus (sy_sig s')) (case pl_data_io_write pl of None \<Rightarrow> data_io_bus (sy_sig s) | Some x \<Rightarrow> x)"
    using s'(2) commit_float_zeq by (simp add: sys_became_def)
  ultimately show ?thesis
    using s'(1,2) cnt np li by (intro exI [of _ s']) (cases "pl_stop pl"; simp add: sys_tick_def sys_became_def)
qed

section \<open>The phase\<close>

lemma out_plc:
  assumes "linked s" and "plc_out (sy_plc s) \<or> plc_calm (sy_plc s)" and "ct_out (sy_ct s)"
  shows "plc_posedge (plc_bind (sy_sig s)) (sy_plc s) = Inr (sy_plc s\<lparr>plc_clr_o := False, plc_wr_to_out_o := True,
    plc_end_clone_o := False, plc_pc := PLC_Idle\<rparr>)"
  using assms plc_posedge_idle [of "sy_plc s" "plc_bind (sy_sig s)"]
  by (auto simp: linked_plc plc_calm_def plc_out_def ct_out_def ct_silent_def)

lemma plc_out_step: "plc_out c \<or> plc_calm c \<Longrightarrow> plc_out (c\<lparr>plc_clr_o := False, plc_wr_to_out_o := True,
    plc_end_clone_o := False, plc_pc := PLC_Idle\<rparr>)"
  by (auto simp: plc_out_def plc_calm_def)

text \<open>The ports of the memory during the output.\<close>

lemma out_pl_ports:
  assumes "calm s" and "plc_out (sy_plc s)" and "io_addr_o (sy_io s) = 0"
  shows "addrs_ok (pl_addr_PC_bus_i (pl_bind (sy_sig s)))" and "\<not> pl_clr_i (pl_bind (sy_sig s))"
    and "pl_wr_to_out_i (pl_bind (sy_sig s))"
    and "\<not> (pl_wr_io_bus_io (pl_bind (sy_sig s)) \<and> pl_addr_io_bus_i (pl_bind (sy_sig s)) = 2)"
    and "\<not> pl_wr_to_memory_from_mem_i (pl_bind (sy_sig s))"
  using assms calm_addrs(2) [OF assms(1)] by (simp_all add: linked_pl [OF calm_linked] plc_out_def)

definition out_ready :: "net \<Rightarrow> nat \<Rightarrow> sys \<Rightarrow> bool" where
  "out_ready N t s \<longleftrightarrow>
     calm s \<and> counts s t \<and> ct_out (sy_ct s) \<and> plc_out (sy_plc s) \<and> 0 \<le> ls_index (sy_ls s) \<and>
     pl_memory (sy_pl s) = nt_values N \<and> pl_index_to_out (sy_pl s) = 0 \<and> \<not> pl_stop (sy_pl s) \<and> io_idle s"

lemma out_first:
  assumes "out_start N t s"
  shows "\<exists>s'. sys_tick expf s = Inr s' \<and> out_ready N t s'"
proof -
  have C: "calm s" and I: "io_idle s" and M: "mems N s" and plcc: "plc_calm (sy_plc s)" and ct: "ct_out (sy_ct s)"
    and li: "0 \<le> ls_index (sy_ls s)"
    using assms by (auto simp: out_start_def ct_out_def)
  note K = calm_linked [OF C]
  have np: "\<not> pl_stop (sy_pl s)" and addr: "io_addr_o (sy_io s) = 0" and w0: "\<not> wr_io_bus (sy_sig s)"
    using M I by (auto simp: mems_def io_idle_def)
  obtain pl where pl: "pl_posedge (pl_bind (sy_sig s)) (sy_pl s) = Inr pl" "length (pl_data_PC_bus_o pl) = COUNT_PC_UNIT"
    "pl_data_io_write pl = None" "pl_wr_io_write pl = None" "\<not> pl_stop pl" "pl_index_to_out pl = pl_index_to_out (sy_pl s)"
    "pl_memory pl = pl_memory (sy_pl s)"
    using quiet_pl [OF K calm_addrs(2) [OF C] w0 plcc] np by auto
  have plc: "plc_posedge (plc_bind (sy_sig s)) (sy_plc s) = Inr (sy_plc s\<lparr>plc_clr_o := False, plc_wr_to_out_o := True,
      plc_end_clone_o := False, plc_pc := PLC_Idle\<rparr>)"
    by (rule out_plc [OF K _ ct]) (use plcc in simp)
  have nn: "\<not> plc_next_o (sy_plc s)" using plcc by (simp add: plc_calm_def)
  have bus: "\<not> wr_io_bus (sy_sig s) \<or> no_infinity (data_io_bus (sy_sig s))" using w0 by simp
  have io: "io_data_write (sy_io s\<lparr>io_data_write := None, io_wr_write := None\<rparr>) = None"
    "io_wr_write (sy_io s\<lparr>io_data_write := None, io_wr_write := None\<rparr>) = None" by simp_all
  obtain s' where s': "sys_tick expf s = Inr s'" "\<forall>t. counts s' t = counts s t" "sy_pl s' = pl"
    "sy_io s' = sy_io s\<lparr>io_data_write := None, io_wr_write := None\<rparr>" "calm s'" "ct_out (sy_ct s')" "0 \<le> ls_index (sy_ls s')"
    "sy_plc s' = sy_plc s\<lparr>plc_clr_o := False, plc_wr_to_out_o := True, plc_end_clone_o := False, plc_pc := PLC_Idle\<rparr>"
    "wr_io_bus (sy_sig s') = (case pl_wr_io_write pl of None \<Rightarrow> wr_io_bus (sy_sig s) | Some w \<Rightarrow> w)"
    using out_edge [OF C ct plc nn li addr bus pl(1,2) quiet_io [OF I] io np, of expf] pl(5) by blast
  have cnt: "counts s t" using assms by (simp add: out_start_def)
  have "out_ready N t s'"
    using s' pl I M plcc cnt plc_out_step [of "sy_plc s"] by (auto simp: out_ready_def io_idle_def mems_def)
  with s'(1) show ?thesis by blast
qed

text \<open>The first value goes out; nothing is reported yet.\<close>

lemma out_second:
  assumes R: "out_ready N t s" and ne: "nt_values N \<noteq> []"
  shows "\<exists>s' T. sys_tick expf s = Inr s' \<and> outputting N t T 1 s'"
proof -
  have C: "calm s" and I: "io_idle s" and plco: "plc_out (sy_plc s)" and ct: "ct_out (sy_ct s)" and cnt: "counts s t"
    and li: "0 \<le> ls_index (sy_ls s)" and mem: "pl_memory (sy_pl s) = nt_values N" and idx: "pl_index_to_out (sy_pl s) = int 0"
    and np: "\<not> pl_stop (sy_pl s)"
    using R by (auto simp: out_ready_def)
  note K = calm_linked [OF C]
  have addr: "io_addr_o (sy_io s) = 0" and w0: "\<not> wr_io_bus (sy_sig s)" using I by (auto simp: io_idle_def)
  have l: "0 < length (pl_memory (sy_pl s))" "int 0 < INT_MAX" using ne mem by (simp_all add: INT_MAX_def)
  note pl = pl_posedge_out [OF out_pl_ports [OF C plco addr] idx l]
  have plc: "plc_posedge (plc_bind (sy_sig s)) (sy_plc s) = Inr (sy_plc s\<lparr>plc_clr_o := False, plc_wr_to_out_o := True,
      plc_end_clone_o := False, plc_pc := PLC_Idle\<rparr>)"
    by (rule out_plc [OF K _ ct]) (use plco in simp)
  have nn: "\<not> plc_next_o (sy_plc s)" using plco by (simp add: plc_out_def)
  have bus: "\<not> wr_io_bus (sy_sig s) \<or> no_infinity (data_io_bus (sy_sig s))" using w0 by simp
  have io: "io_data_write (sy_io s\<lparr>io_data_write := None, io_wr_write := None\<rparr>) = None"
    "io_wr_write (sy_io s\<lparr>io_data_write := None, io_wr_write := None\<rparr>) = None" by simp_all
  obtain s' where s': "sys_tick expf s = Inr s'" "\<forall>t. counts s' t = counts s t"
    "pl_memory (sy_pl s') = pl_memory (sy_pl s)" "pl_index_to_out (sy_pl s') = 1" "\<not> pl_stop (sy_pl s')"
    "sy_io s' = sy_io s\<lparr>io_data_write := None, io_wr_write := None\<rparr>" "calm s'" "ct_out (sy_ct s')" "0 \<le> ls_index (sy_ls s')"
    "sy_plc s' = sy_plc s\<lparr>plc_clr_o := False, plc_wr_to_out_o := True, plc_end_clone_o := False, plc_pc := PLC_Idle\<rparr>"
    "wr_io_bus (sy_sig s')" "zeq (data_io_bus (sy_sig s')) (pl_memory (sy_pl s) ! 0)"
    using out_edge [OF C ct plc nn li addr bus pl _ quiet_io [OF I] io np, of expf] np by auto
  have "outputting N t (sy_time s') 1 s'"
    using s' I cnt plco mem ne plc_out_step [of "sy_plc s"]
    by (auto simp: outputting_def io_idle_def Suc_le_eq)
  with s'(1) show ?thesis by blast
qed

lemma out_next:
  assumes O: "outputting N t T k s" and fin: "\<forall>x \<in> set (nt_values N). no_infinity x" and len: "int (length (nt_values N)) < INT_MAX"
  shows "\<exists>s'. sys_tick expf s = Inr s' \<and>
    (if k < length (nt_values N) then outputting N t T (Suc k) s' else stopped N t s')"
proof -
  let ?X = "nt_values N"
  have C: "calm s" and plco: "plc_out (sy_plc s)" and ct: "ct_out (sy_ct s)" and cnt: "counts s t"
    and li: "0 \<le> ls_index (sy_ls s)" and mem: "pl_memory (sy_pl s) = ?X" and idx: "pl_index_to_out (sy_pl s) = int k"
    and np: "\<not> pl_stop (sy_pl s)" and ios: "io_pc (sy_io s) = IO_Done" "\<not> io_transmit (sy_io s)" "io_addr_o (sy_io s) = 0"
    and k: "0 < k" "k \<le> length ?X" and bus: "wr_io_bus (sy_sig s)" "zeq (data_io_bus (sy_sig s)) (?X ! (k - 1))"
    and cn: "io_counter (sy_io s) = int (k - 1)" and rep: "reported T (take (k - 1) ?X) (io_report (sy_io s))"
    and time: "sy_time s = T + CLOCK_PERIOD * (k - 1)"
    using O by (auto simp: outputting_def)
  note K = calm_linked [OF C]
  have plc: "plc_posedge (plc_bind (sy_sig s)) (sy_plc s) = Inr (sy_plc s\<lparr>plc_clr_o := False, plc_wr_to_out_o := True,
      plc_end_clone_o := False, plc_pc := PLC_Idle\<rparr>)"
    by (rule out_plc [OF K _ ct]) (use plco in simp)
  have nn: "\<not> plc_next_o (sy_plc s)" using plco by (simp add: plc_out_def)
  have "no_infinity (?X ! (k - 1))" using fin k by simp
  then have nb: "\<not> wr_io_bus (sy_sig s) \<or> no_infinity (data_io_bus (sy_sig s))" using zeq_no_infinity [OF bus(2)] by simp
  let ?io = "sy_io s\<lparr>io_data_write := None, io_wr_write := None,
    io_report := io_report (sy_io s) @ [(sy_time s, io_counter (sy_io s), data_io_bus (sy_sig s))], io_counter := io_counter (sy_io s) + 1\<rparr>"
  have ioe: "io_posedge (io_bind (sy_time s) (sy_sig s)) (sy_io s) = Inr ?io"
    using io_posedge_report [of "sy_io s" "io_bind (sy_time s) (sy_sig s)"] ios bus(1) cn k len
    by (simp add: io_bind_def is_cint_def INT_MIN_def)
  have iow: "io_data_write ?io = None" "io_wr_write ?io = None" by simp_all
  have take: "take k ?X = take (k - 1) ?X @ [?X ! (k - 1)]"
    using take_Suc_conv_app_nth [of "k - 1" ?X] k by simp
  have lt: "length (take (k - 1) ?X) = k - 1" using k by simp
  have rep': "reported T (take k ?X) (io_report ?io)"
    using reported_snoc [OF rep bus(2)] unfolding take lt using time cn by simp
  show ?thesis
  proof (cases "k < length ?X")
    case True
    then have l: "k < length (pl_memory (sy_pl s))" "int k < INT_MAX" using mem len by simp_all
    note pl = pl_posedge_out [OF out_pl_ports [OF C plco ios(3)] idx l]
    obtain s' where s': "sys_tick expf s = Inr s'" "\<forall>t. counts s' t = counts s t"
      "pl_memory (sy_pl s') = pl_memory (sy_pl s)" "pl_index_to_out (sy_pl s') = int k + 1" "\<not> pl_stop (sy_pl s')"
      "sy_io s' = ?io" "calm s'" "ct_out (sy_ct s')" "0 \<le> ls_index (sy_ls s')"
      "sy_plc s' = sy_plc s\<lparr>plc_clr_o := False, plc_wr_to_out_o := True, plc_end_clone_o := False, plc_pc := PLC_Idle\<rparr>"
      "wr_io_bus (sy_sig s')" "zeq (data_io_bus (sy_sig s')) (pl_memory (sy_pl s) ! k)" "sy_time s' = sy_time s + CLOCK_PERIOD"
      using out_edge [OF C ct plc nn li ios(3) nb pl _ ioe iow np, of expf] np by auto
    have t2: "T + CLOCK_PERIOD * (k - 1) + CLOCK_PERIOD = T + CLOCK_PERIOD * k" using k by (cases k) simp_all
    have po: "plc_out (sy_plc s')" using s'(10) plco plc_out_step by simp
    have "outputting N t T (Suc k) s'"
      unfolding outputting_def using s' po cnt mem True k ios cn rep' time t2 by simp
    with True s'(1) show ?thesis by auto
  next
    case False
    then have l: "int (length (pl_memory (sy_pl s))) \<le> pl_index_to_out (sy_pl s)" using mem idx by simp
    note pl = pl_posedge_stop [OF out_pl_ports [OF C plco ios(3)] l]
    obtain s' where s': "sys_tick expf s = Inr s'" "\<forall>t. counts s' t = counts s t" "length (sy_proc s') = COUNT_PC_UNIT"
      "pl_stop (sy_pl s')" "sy_io s' = ?io"
      using out_edge [OF C ct plc nn li ios(3) nb pl _ ioe iow np, of expf] by auto
    have "take k ?X = ?X" using False by simp
    with rep' s' cnt have "stopped N t s'" unfolding stopped_def by (metis)
    with False s'(1) show ?thesis by auto
  qed
qed

lemma outputting_reaches:
  assumes "outputting N t T k s" and "\<forall>x \<in> set (nt_values N). no_infinity x" and "int (length (nt_values N)) < INT_MAX"
  shows "reaches (sys_tick expf) (stopped N t) s"
  using assms(1)
proof (induction "length (nt_values N) - k" arbitrary: k s rule: less_induct)
  case less
  obtain s' where s': "sys_tick expf s = Inr s'"
    "if k < length (nt_values N) then outputting N t T (Suc k) s' else stopped N t s'"
    using out_next [OF less.prems assms(2,3)] by blast
  show ?case
  proof (cases "k < length (nt_values N)")
    case True
    then have "reaches (sys_tick expf) (stopped N t) s'" using s'(2) by (intro less.hyps [of "Suc k"]) auto
    with s'(1) show ?thesis by (rule reaches_later)
  next
    case False
    then show ?thesis using s' by (auto intro: reaches_step)
  qed
qed

lemma output_phase:
  assumes "out_start N t s" and "nt_values N \<noteq> []" and "\<forall>x \<in> set (nt_values N). no_infinity x"
    and "int (length (nt_values N)) < INT_MAX"
  shows "reaches (sys_tick expf) (stopped N t) s"
proof -
  obtain s1 where s1: "sys_tick expf s = Inr s1" "out_ready N t s1" using out_first [OF assms(1)] by blast
  obtain s2 T where s2: "sys_tick expf s1 = Inr s2" "outputting N t T 1 s2" using out_second [OF s1(2) assms(2)] by blast
  have "reaches (sys_tick expf) (stopped N t) s2" by (rule outputting_reaches [OF s2(2) assms(3,4)])
  with s1(1) s2(1) show ?thesis by (blast intro: reaches_later)
qed

end
