(* ===== verification/Network.thy ===== *)
theory Network
  imports Run_Load Run_Clone Run_Output
begin

text \<open>
  The reference: a fully connected feed-forward network in the arithmetic of the code; and
  the theorem that the simulated processor computes it, stops, and reports the result.
\<close>

section \<open>Reference\<close>

text \<open>Weights beyond the end of the memory count as 0.  The weights of a neuron are followed by
  its bias, the neurons of a layer follow each other, and the layers too.\<close>

definition weight_at :: "float32 list \<Rightarrow> nat \<Rightarrow> float32" where
  "weight_at W a = (if a < length W then W ! a else float_zero)"

definition dense_layer :: "(float32 \<Rightarrow> float32) \<Rightarrow> float32 list \<Rightarrow> nat \<Rightarrow> float32 list \<Rightarrow> nat \<Rightarrow> float32 list" where
  "dense_layer expf W off xs m =
     map (\<lambda>j. neuron expf (length xs) ((!) xs) (\<lambda>i. weight_at W (off + (length xs + 1) * j + i))) [0..<m]"

fun feed_forward :: "(float32 \<Rightarrow> float32) \<Rightarrow> float32 list \<Rightarrow> nat \<Rightarrow> float32 list \<Rightarrow> nat list \<Rightarrow> float32 list" where
  "feed_forward expf W off xs [] = xs"
| "feed_forward expf W off xs (m # ms) =
     feed_forward expf W (off + (length xs + 1) * m) (dense_layer expf W off xs m) ms"

text \<open>The weights of the layers after the one with \<open>n\<close> neurons.\<close>

fun weight_count :: "nat \<Rightarrow> nat list \<Rightarrow> nat" where
  "weight_count n [] = 0"
| "weight_count n (m # ms) = (n + 1) * m + weight_count m ms"

lemma length_dense_layer [simp]: "length (dense_layer expf W off xs m) = m"
  by (simp add: dense_layer_def)

section \<open>The values of the machine are the values of the reference\<close>

lemma mem_at_zeq_weight:
  assumes "list_all2 zeq ws W"
  shows "zeq (mem_at float_zero ws (int a)) (weight_at W a)"
  using assms list_all2_nthD [OF assms] by (simp add: mem_at_def weight_at_def list_all2_lengthD)

lemma layer_values_dense:
  assumes "list_all2 zeq (nt_weights N) W" and "list_all2 zeq (nt_values N) xs" and "length xs = nt_sizes N ! i"
  shows "layer_values expf N off i = dense_layer expf W off xs (nt_sizes N ! Suc i)"
proof -
  have len: "length (nt_values N) = nt_sizes N ! i" using assms(2,3) by (simp add: list_all2_lengthD)
  have "jb_value expf (job_of N off i) j =
      neuron expf (length xs) ((!) xs) (\<lambda>i. weight_at W (off + (length xs + 1) * j + i))" for j
    unfolding jb_value_def job_of_simps assms(3)
  proof (rule neuron_zeq)
    fix k assume "k < nt_sizes N ! i"
    then show "zeq (mem_at pl_default (nt_values N) (int k)) (xs ! k)"
      using list_all2_nthD [OF assms(2), of k] len by (simp add: mem_at_nth)
  next
    fix k
    show "zeq (mem_at float_zero (nt_weights N) (int (jb_addr (job_of N off i) j k)))
        (weight_at W (off + (nt_sizes N ! i + 1) * j + k))"
      unfolding jb_addr_def job_of_simps by (rule mem_at_zeq_weight [OF assms(1)])
  qed
  then show ?thesis by (simp add: layer_values_def dense_layer_def)
qed

text \<open>No result is infinite, so the controller never takes one for a command.\<close>

lemma unit_float_no_infinity: "unit_float x \<Longrightarrow> no_infinity x"
  by (cases x) (auto simp: no_infinity_def)

lemma sigmoid_no_infinity:
  assumes "expf_contract expf" and "wf_float x"
  shows "no_infinity (sigmoid expf x)"
proof (cases "x = FNaN")
  case True
  with assms(1) show ?thesis by (simp add: sigmoid_def expf_contract_def no_infinity_def)
next
  case False
  then show ?thesis using sigmoid_unit_range [OF assms] unit_float_no_infinity by blast
qed

lemma wf_partial_sum: "wf_float (partial_sum x w k)"
  by (induction k) (simp_all add: partial_sum_Suc wf_float_add wf_float_mul, simp add: float_zero_def)

lemma weight_at_wf: "\<forall>w \<in> set W. wf_float w \<Longrightarrow> wf_float (weight_at W a)"
  by (simp add: weight_at_def float_zero_def)

lemma dense_layer_no_infinity:
  assumes "expf_contract expf" and "\<forall>w \<in> set W. wf_float w"
  shows "\<forall>x \<in> set (dense_layer expf W off xs m). no_infinity x"
  using assms by (auto simp: dense_layer_def neuron_def intro!: sigmoid_no_infinity wf_float_add wf_partial_sum weight_at_wf)

lemma feed_forward_no_infinity:
  assumes "expf_contract expf" and "\<forall>w \<in> set W. wf_float w" and "\<forall>x \<in> set xs. no_infinity x"
  shows "\<forall>x \<in> set (feed_forward expf W off xs ms). no_infinity x"
  using assms(3)
proof (induction ms arbitrary: off xs)
  case (Cons m ms)
  show ?case unfolding feed_forward.simps
    by (rule Cons.IH) (rule dense_layer_no_infinity [OF assms(1,2)])
qed simp

lemma length_feed_forward: "length (feed_forward expf W off xs ms) = (if ms = [] then length xs else last ms)"
  by (induction ms arbitrary: off xs) auto

section \<open>All the layers\<close>

text \<open>What the remaining layers need: room in the result memory and in the range of \<open>int\<close>.\<close>

definition layers_fit :: "nat \<Rightarrow> nat \<Rightarrow> nat \<Rightarrow> nat list \<Rightarrow> bool" where
  "layers_fit t off n ms \<longleftrightarrow> (\<forall>m \<in> set ms. 0 < m \<and> m \<le> MEM_SIZE) \<and>
     int (off + weight_count n ms) \<le> INT_MAX \<and> int (t + sum_list ms) < INT_MAX"

lemma layers_fit_Cons:
  assumes "layers_fit t off n (m # ms)"
  shows "layers_fit (t + m) (off + (n + 1) * m) m ms" and "0 < m" and "m \<le> MEM_SIZE"
    and "int (off + (n + 1) * m) \<le> INT_MAX" and "int (t + m) < INT_MAX"
  using assms by (simp_all add: layers_fit_def)

lemma stopped_values: "stopped N t s \<Longrightarrow> \<exists>T. reported T (nt_values N) (io_report (sy_io s))"
  by (simp add: stopped_def)

lemma reported_zeq:
  assumes "reported T xs rep" and "list_all2 zeq xs ys"
  shows "reported T ys rep"
  unfolding reported_def
proof (intro conjI allI impI)
  show "length rep = length ys" using assms by (simp add: reported_def list_all2_lengthD)
  fix j assume "j < length ys"
  then have j: "j < length xs" using assms(2) by (simp add: list_all2_lengthD)
  then obtain v where v: "rep ! j = (T + CLOCK_PERIOD * j, int j, v)" "zeq v (xs ! j)"
    using assms(1) by (auto simp: reported_def)
  then show "\<exists>v. rep ! j = (T + CLOCK_PERIOD * j, int j, v) \<and> zeq v (ys ! j)"
    using list_all2_nthD [OF assms(2) j] zeq_trans by blast
qed

definition finished :: "float32 list \<Rightarrow> nat \<Rightarrow> sys \<Rightarrow> bool" where
  "finished ys t s \<longleftrightarrow> pl_stop (sy_pl s) \<and> counts s t \<and> length (sy_proc s) = COUNT_PC_UNIT \<and>
     (\<exists>T. reported T ys (io_report (sy_io s)))"

lemma zeq_list_no_infinity:
  assumes "list_all2 zeq xs ys" and "\<forall>y \<in> set ys. no_infinity y"
  shows "\<forall>x \<in> set xs. no_infinity x"
  using assms by (induction rule: list_all2_induct) (auto intro: zeq_no_infinity)

text \<open>From any point between two layers the rest of the network is computed.\<close>

lemma network_phase:
  assumes "expf_contract expf" and "\<forall>w \<in> set W. wf_float w"
    and "layer_next N t off i s" and "net_ok N" and "drop (Suc i) (nt_sizes N) = ms" and "i < length (nt_sizes N)"
    and "layers_fit t off (nt_sizes N ! i) ms" and "length xs = nt_sizes N ! i"
    and "list_all2 zeq (nt_weights N) W" and "list_all2 zeq (nt_values N) xs"
    and "\<forall>x \<in> set xs. no_infinity x" and "0 < nt_sizes N ! i" and "int (nt_sizes N ! i) < INT_MAX"
  shows "reaches (sys_tick expf) (finished (feed_forward expf W off xs ms) (t + sum_list ms)) s"
  using assms(3-)
proof (induction ms arbitrary: N t off i s xs)
  case Nil
  then have "\<not> Suc i < length (nt_sizes N)" by simp
  then have out: "out_start N t s" using Nil.prems(1) by (simp add: layer_next_def)
  have len: "length (nt_values N) = length xs" using Nil.prems(8) by (simp add: list_all2_lengthD)
  have ninf: "\<forall>x \<in> set (nt_values N). no_infinity x"
    using zeq_list_no_infinity [OF Nil.prems(8,9)] .
  have ne: "nt_values N \<noteq> []" and lt: "int (length (nt_values N)) < INT_MAX"
    using len Nil.prems(6,10,11) by auto
  have "reaches (sys_tick expf) (stopped N t) s" by (rule output_phase [OF out ne ninf lt])
  then show ?case
    by (rule reaches_mono) (use reported_zeq [OF _ Nil.prems(8)] in \<open>auto simp: stopped_def finished_def\<close>)
next
  case (Cons m ms)
  have i: "Suc i < length (nt_sizes N)" using Cons.prems(3) by (metis drop_eq_Nil list.discI not_le)
  have m: "nt_sizes N ! Suc i = m" "drop (Suc (Suc i)) (nt_sizes N) = ms"
    using Cons.prems(3) i by (metis Cons_nth_drop_Suc list.inject)+
  note fit = layers_fit_Cons [OF Cons.prems(5)]
  have ok: "layer_ok N t off i"
    using Cons.prems(2) i m fit by (simp add: layer_ok_def jb_ok_def)
  have start: "layer_start N t off i s" using Cons.prems(1) i by (simp add: layer_next_def)
  have vals: "layer_values expf N off i = dense_layer expf W off xs m"
    using layer_values_dense [OF Cons.prems(7,8,6)] m by simp
  show ?case
  proof (rule reaches_trans [OF layer_phase [OF ok start]], elim exE conjE)
    fix s' zs
    assume zs: "list_all2 zeq zs (layer_values expf N off i)"
      and nxt: "layer_next (N\<lparr>nt_values := zs\<rparr>) (t + nt_sizes N ! Suc i) (off + (nt_sizes N ! i + 1) * nt_sizes N ! Suc i) (Suc i) s'"
    have "reaches (sys_tick expf) (finished (feed_forward expf W (off + (nt_sizes N ! i + 1) * m) (dense_layer expf W off xs m) ms) (t + m + sum_list ms)) s'"
    proof (rule Cons.IH)
      show "layer_next (N\<lparr>nt_values := zs\<rparr>) (t + m) (off + (nt_sizes N ! i + 1) * m) (Suc i) s'" using nxt m by simp
      show "\<forall>x \<in> set (dense_layer expf W off xs m). no_infinity x" by (rule dense_layer_no_infinity [OF assms(1,2)])
      show "int (nt_sizes (N\<lparr>nt_values := zs\<rparr>) ! Suc i) < INT_MAX" using m(1) fit(5) by simp
    qed (use Cons.prems(2,7) i m fit zs vals in \<open>simp_all add: net_ok_def\<close>)
    then show "reaches (sys_tick expf) (finished (feed_forward expf W off xs (m # ms)) (t + sum_list (m # ms))) s'"
      using Cons.prems(6) by (simp add: add.assoc)
  qed
qed

section \<open>The whole program\<close>

text \<open>A configuration the processor can run: the number of layers and their sizes are right, the
  picture fills the first layer, every other layer fits the result memory, and the weight
  addresses and the neuron count fit \<open>int\<close>.\<close>

definition fits :: "load_result \<Rightarrow> bool" where
  "fits d \<longleftrightarrow> ld_layersCount d = int (length (ld_layers d)) \<and> ld_layersCount d \<le> 2 ^ 24 \<and> ld_layers d \<noteq> [] \<and>
     (\<forall>z \<in> set (ld_layers d). 1 \<le> z \<and> z \<le> 2 ^ 24) \<and> int (length (ld_picture d)) = hd (ld_layers d) \<and>
     layers_fit 0 0 (nat (hd (ld_layers d))) (map nat (tl (ld_layers d)))"

definition network_output :: "(float32 \<Rightarrow> float32) \<Rightarrow> load_result \<Rightarrow> float32 list" where
  "network_output expf d = feed_forward expf (ld_weights d) 0 (ld_picture d) (map nat (tl (ld_layers d)))"

lemma fits_small: "fits d \<Longrightarrow> small_sizes d"
proof -
  assume f: "fits d"
  then have "hd (ld_layers d) \<in> set (ld_layers d)" by (simp add: fits_def)
  moreover have "\<forall>z \<in> set (ld_layers d). 1 \<le> z" using f by (simp add: fits_def)
  ultimately have "1 \<le> hd (ld_layers d)" by blast
  moreover have "int (length (ld_picture d)) = hd (ld_layers d)" using f by (simp add: fits_def)
  ultimately have "ld_picture d \<noteq> []" by auto
  then show ?thesis using f by (simp add: fits_def small_sizes_def)
qed

lemma run_finishes:
  assumes expf: "expf_contract expf" and load: "loadData cfg pic = Inr (Some d)" and f: "fits d" and fr: "fresh cfg pic s"
  shows "reaches (sys_tick expf) (finished (network_output expf d) (sum_list (map nat (tl (ld_layers d))))) s"
proof (rule reaches_trans [OF load_phase [OF fits_small [OF f] load fr]], elim exE conjE)
  fix s' N
  assume N: "net_of d N" and nxt: "layer_next N 0 0 0 s'"
  note fin = loadData_finite [OF load]
  obtain z zs where zs: "ld_layers d = z # zs" using f by (cases "ld_layers d") (auto simp: fits_def)
  have sizes: "nt_sizes N = nat z # map nat zs" using N zs by (simp add: net_of_def)
  have z: "1 \<le> z" "z \<le> 2 ^ 24" "int (length (ld_picture d)) = z" using f zs by (auto simp: fits_def)
  have wf: "\<forall>w \<in> set (ld_weights d). wf_float w" using fin(1) by (auto simp: finite_float_def)
  have ninf: "\<forall>x \<in> set (ld_picture d). no_infinity x" using fin(2) by (auto simp: finite_float_def no_infinity_def)
  have len: "int (length (nt_sizes N)) < INT_MAX" using f zs sizes by (simp add: fits_def INT_MAX_def)
  have "reaches (sys_tick expf) (finished (feed_forward expf (ld_weights d) 0 (ld_picture d) (map nat zs)) (0 + sum_list (map nat zs))) s'"
    by (rule network_phase [OF expf wf nxt, where xs = "ld_picture d" and ms = "map nat zs"])
      (use N sizes z zs f ninf len in \<open>auto simp: net_ok_def net_of_def fits_def INT_MAX_def\<close>)
  then show "reaches (sys_tick expf) (finished (network_output expf d) (sum_list (map nat (tl (ld_layers d))))) s'"
    by (simp add: network_output_def zs)
qed

lemma counts_sum_list:
  assumes "counts s t" and "length (sy_proc s) = COUNT_PC_UNIT"
  shows "sum_list (map proc_count_neurons_calc (sy_proc s)) = int t"
  using assms by (simp add: counts_def sum_list_sum_nth atLeast0LessThan)

lemma fits_sum:
  assumes "fits d"
  shows "int (sum_list (map nat (tl (ld_layers d)))) = sum_list (tl (ld_layers d))"
proof -
  have "\<forall>z \<in> set (tl (ld_layers d)). 0 \<le> z"
    using assms by (cases "ld_layers d") (auto simp: fits_def)
  moreover have "\<forall>z \<in> set zs. 0 \<le> z \<Longrightarrow> int (sum_list (map nat zs)) = sum_list zs" for zs :: "int list"
    by (induction zs) auto
  ultimately show ?thesis by blast
qed

end
