(* ===== verification/Processor_Run.thy ===== *)
theory Processor_Run
  imports Processor_Job
begin

text \<open>
  A single processor on its own: a neuron from the edge it enters the queue to the edge its
  result is written, and what holds of a processor under any inputs.
\<close>

section \<open>A neuron from the queue to the result\<close>

text \<open>Suspended at the first wait of input \<open>i\<close> of neuron \<open>j\<close>, with an empty queue.\<close>

definition proc_fetching :: "(nat \<Rightarrow> float32) \<Rightarrow> (nat \<Rightarrow> float32) \<Rightarrow> nat \<Rightarrow> nat \<Rightarrow> nat \<Rightarrow> nat \<Rightarrow> processor \<Rightarrow> bool" where
  "proc_fetching x w n off j i s \<longleftrightarrow> proc_queue s = [] \<and> proc_is_working s \<and> proc_number_of_nn s = int j \<and>
     (if i < n
      then proc_pc s = PROC_Fetch1 \<and> proc_i s = int i \<and> proc_sum_reg s = partial_sum x w i \<and>
        proc_prevmem_addr_o s = int i \<and> proc_weight_addr_o s = int (off + (n + 1) * j + i)
      else proc_pc s = PROC_Bias1 \<and> proc_sum_reg s = partial_sum x w n \<and>
        proc_weight_addr_o s = int (off + (n + 1) * j + n))"

text \<open>The inputs of the run, by the number of the edge: the layer's parameters, no further
  neuron, and the data two edges after its address.\<close>

definition proc_feed :: "(nat \<Rightarrow> proc_ports) \<Rightarrow> (nat \<Rightarrow> float32) \<Rightarrow> (nat \<Rightarrow> float32) \<Rightarrow> nat \<Rightarrow> nat \<Rightarrow> bool" where
  "proc_feed P x w n off \<longleftrightarrow>
     (\<forall>k. proc_prevmem_size_i (P k) = int n \<and> proc_start_weight_i (P k) = int off) \<and>
     (\<forall>k. \<not> proc_queue_w_i (P (Suc k))) \<and>
     (\<forall>i < n. proc_prevmem_data_i (P (2 * i + 2)) = x i) \<and> (\<forall>i \<le> n. proc_weight_data_i (P (2 * i + 2)) = w i)"

lemma proc_feed_head:
  assumes "proc_feed P x w n off" and "int (off + (n + 1) * m) \<le> INT_MAX" and "j < m" and "i \<le> n"
    and "proc_number_of_nn s = int j" and "proc_i s = int i" and "proc_sum_reg s = partial_sum x w i"
    and "proc_queue s = []" and "proc_is_working s"
  shows "\<exists>s'. proc_for_head (P k) s = Inr s' \<and> proc_fetching x w n off j i s'"
proof -
  let ?J = "\<lparr>jb_n = n, jb_off = off, jb_m = m, jb_x = (\<lambda>_. float_zero), jb_w = (\<lambda>_. float_zero)\<rparr>"
  have J: "jb_ok ?J" using assms(2,3) by (simp add: jb_ok_def)
  have "proc_for_head (P k) s = Inr (proc_at ?J j i s)"
    by (rule proc_for_head_at [OF J]) (use assms in \<open>simp_all add: proc_feed_def\<close>)
  moreover have "proc_fetching x w n off j i (proc_at ?J j i s)"
    using assms by (auto simp: proc_fetching_def proc_at_def jb_addr_def)
  ultimately show ?thesis by blast
qed

lemma proc_feed_two:
  assumes feed: "proc_feed P x w n off" and bnd: "int (off + (n + 1) * m) \<le> INT_MAX" and j: "j < m" and i: "i < n"
    and f: "proc_fetching x w n off j i s"
  shows "\<exists>s1 s2. proc_posedge expf (P (2 * i + 1)) s = Inr s1 \<and> proc_posedge expf (P (2 * i + 2)) s1 = Inr s2 \<and>
    proc_fetching x w n off j (Suc i) s2"
proof -
  have na: "\<not> proc_accepts (P (Suc k)) t" for k t using feed by (simp add: proc_feed_def proc_accepts_def)
  let ?t1 = "s\<lparr>proc_queue_size_o := 0, proc_contr_empty_o := False\<rparr>"
  have e1: "proc_posedge expf (P (2 * i + 1)) s = Inr (?t1\<lparr>proc_pc := PROC_Fetch2\<rparr>)"
    using f i na [of "2 * i" s] by (simp add: proc_posedge_def proc_methods_quiet proc_fetching_def proc_process_def)
  let ?s1 = "?t1\<lparr>proc_pc := PROC_Fetch2\<rparr>"
  have d: "proc_prevmem_data_i (P (2 * i + 2)) = x i" "proc_weight_data_i (P (2 * i + 2)) = w i"
    using feed i by (simp_all add: proc_feed_def)
  have "n + 1 \<le> (n + 1) * m" using j by (cases m) simp_all
  then have "int n < INT_MAX" using bnd by linarith
  then have ci: "is_cint (1 + int i)" using i by (simp add: is_cint_def INT_MIN_def)
  let ?t2 = "?s1\<lparr>proc_sum_reg := partial_sum x w (Suc i), proc_i := int (Suc i)\<rparr>"
  obtain s2 where s2: "proc_for_head (P (2 * i + 2)) ?t2 = Inr s2" "proc_fetching x w n off j (Suc i) s2"
    using proc_feed_head [OF feed bnd j, of "Suc i" ?t2] f i by (auto simp: proc_fetching_def)
  have "run_methods (rev (proc_methods (P (2 * i + 2)))) ?s1 = Inr ?s1"
    using proc_methods_quiet [OF na [of "2 * i + 1" ?s1]] f by (simp add: proc_fetching_def)
  then have "proc_posedge expf (P (2 * i + 2)) ?s1 = proc_for_head (P (2 * i + 2)) ?t2"
    using f i d ci by (simp add: proc_posedge_def proc_process_def proc_fetching_def partial_sum_Suc add.commute)
  then show ?thesis using e1 s2 by auto
qed

lemma proc_feed_end:
  assumes feed: "proc_feed P x w n off" and f: "proc_fetching x w n off j n s"
  shows "\<exists>s1 s2. proc_posedge expf (P (2 * n + 1)) s = Inr s1 \<and> proc_posedge expf (P (2 * n + 2)) s1 = Inr s2 \<and>
    proc_resmem_w_o s2 \<and> proc_resmem_addr_o s2 = int j \<and> proc_resmem_data_o s2 = neuron expf n x w"
proof -
  have na: "\<not> proc_accepts (P (Suc k)) t" for k t using feed by (simp add: proc_feed_def proc_accepts_def)
  let ?t1 = "s\<lparr>proc_queue_size_o := 0, proc_contr_empty_o := False\<rparr>"
  let ?s1 = "?t1\<lparr>proc_pc := PROC_Bias2\<rparr>"
  have e1: "proc_posedge expf (P (2 * n + 1)) s = Inr ?s1"
    using f na [of "2 * n" s] by (simp add: proc_posedge_def proc_methods_quiet proc_fetching_def proc_process_def)
  have d: "proc_weight_data_i (P (2 * n + 2)) = w n" using feed by (simp add: proc_feed_def)
  have "run_methods (rev (proc_methods (P (2 * n + 2)))) ?s1 = Inr ?s1"
    using proc_methods_quiet [OF na [of "2 * n + 1" ?s1]] f by (simp add: proc_fetching_def)
  then have "\<exists>s2. proc_posedge expf (P (2 * n + 2)) ?s1 = Inr s2 \<and>
      proc_resmem_w_o s2 \<and> proc_resmem_addr_o s2 = int j \<and> proc_resmem_data_o s2 = neuron expf n x w"
    using f d by (simp add: proc_posedge_def proc_process_def proc_fetching_def neuron_def Let_def)
  with e1 show ?thesis by blast
qed

lemma proc_feed_loop:
  assumes feed: "proc_feed P x w n off" and bnd: "int (off + (n + 1) * m) \<le> INT_MAX" and j: "j < m"
    and "i \<le> n" and "proc_fetching x w n off j i s"
  shows "\<exists>t u. clock_run (proc_posedge expf) (map P [2 * i + 1..<2 * n + 3]) s = Inr (t @ [u]) \<and>
    (\<forall>k. i < k \<longrightarrow> k \<le> n \<longrightarrow> proc_fetching x w n off j k (t ! (2 * (k - i) - 1))) \<and>
    proc_resmem_w_o u \<and> proc_resmem_addr_o u = int j \<and> proc_resmem_data_o u = neuron expf n x w"
  using assms(4,5)
proof (induction "n - i" arbitrary: i s)
  case 0
  then have i: "i = n" by simp
  obtain s1 s2 where "proc_posedge expf (P (2 * n + 1)) s = Inr s1" "proc_posedge expf (P (2 * n + 2)) s1 = Inr s2"
    "proc_resmem_w_o s2 \<and> proc_resmem_addr_o s2 = int j \<and> proc_resmem_data_o s2 = neuron expf n x w"
    using proc_feed_end [OF feed] 0 i by blast
  moreover have "[2 * n + 1..<2 * n + 3] = [2 * n + 1, 2 * n + 2]" by (simp add: upt_rec)
  ultimately show ?case unfolding i by (intro exI [of _ "[s1]"] exI [of _ s2]) simp
next
  case (Suc d)
  then have i: "i < n" by simp
  obtain s1 s2 where s12: "proc_posedge expf (P (2 * i + 1)) s = Inr s1" "proc_posedge expf (P (2 * i + 2)) s1 = Inr s2"
    "proc_fetching x w n off j (Suc i) s2"
    using proc_feed_two [OF feed bnd j i Suc.prems(2)] by blast
  have d: "d = n - Suc i" and le: "Suc i \<le> n" using Suc.hyps(2) by simp_all
  from Suc.hyps(1) [OF d le s12(3)] obtain t u
    where t: "clock_run (proc_posedge expf) (map P [2 * Suc i + 1..<2 * n + 3]) s2 = Inr (t @ [u])"
    "\<forall>k. Suc i < k \<longrightarrow> k \<le> n \<longrightarrow> proc_fetching x w n off j k (t ! (2 * (k - Suc i) - 1))"
    "proc_resmem_w_o u \<and> proc_resmem_addr_o u = int j \<and> proc_resmem_data_o u = neuron expf n x w"
    by blast
  have "[2 * i + 1..<2 * n + 3] = (2 * i + 1) # (2 * i + 2) # [2 * Suc i + 1..<2 * n + 3]"
    using i by (simp add: upt_rec [of "Suc (2 * i)"] upt_rec [of "Suc (Suc (2 * i))"])
  then have "clock_run (proc_posedge expf) (map P [2 * i + 1..<2 * n + 3]) s = Inr ((s1 # s2 # t) @ [u])"
    using s12 t(1) by simp
  moreover have "proc_fetching x w n off j k ((s1 # s2 # t) ! (2 * (k - i) - 1))" if "i < k" "k \<le> n" for k
  proof (cases "k = Suc i")
    case True
    then show ?thesis using s12(3) by simp
  next
    case False
    then have "2 * (k - i) - 1 = Suc (Suc (2 * (k - Suc i) - 1))" using that by simp
    then show ?thesis using t(2) that False by simp
  qed
  ultimately show ?case using t(3) by blast
qed

text \<open>C7: an idle processor that is handed neuron \<open>j\<close> on its queue port puts the addresses of the
  inputs and of the weights on its buses in order, one pair every two edges, the bias last,
  and after exactly \<open>2 n + 3\<close> edges writes the value of the neuron to cell \<open>j\<close> of the
  result memory.\<close>

theorem processor_computes_neuron:
  assumes "proc_pc s = PROC_Empty" and "proc_queue s = []"
    and "proc_accepts (P 0) s" and "proc_queue_data_i (P 0) = int j"
    and "proc_feed P x w n off" and "j < m" and "int (off + (n + 1) * m) \<le> INT_MAX"
  shows "\<exists>t. clock_run (proc_posedge expf) (map P [0..<2 * n + 3]) s = Inr t \<and>
    (\<forall>i \<le> n. proc_weight_addr_o (t ! (2 * i)) = int (off + (n + 1) * j + i) \<and>
       (i < n \<longrightarrow> proc_prevmem_addr_o (t ! (2 * i)) = int i)) \<and>
    proc_resmem_w_o (last t) \<and> proc_resmem_addr_o (last t) = int j \<and> proc_resmem_data_o (last t) = neuron expf n x w"
proof -
  let ?t = "s\<lparr>proc_contr_empty_o := False, proc_queue_size_o := 1, proc_is_working := True,
    proc_sum_reg := float_zero, proc_number_of_nn := int j, proc_queue := [], proc_i := 0\<rparr>"
  obtain s0 where s0: "proc_for_head (P 0) ?t = Inr s0" "proc_fetching x w n off j 0 s0"
    using proc_feed_head [OF assms(5,7,6), of 0 ?t 0] by auto
  have first: "proc_posedge expf (P 0) s = Inr s0"
    using assms(1-4) s0(1) proc_methods_full [OF assms(3)]
    by (simp add: QUEUE_SIZE_def proc_posedge_def proc_process_def proc_head_def pop_front_def)
  obtain t u where t: "clock_run (proc_posedge expf) (map P [1..<2 * n + 3]) s0 = Inr (t @ [u])"
    "\<forall>k. 0 < k \<longrightarrow> k \<le> n \<longrightarrow> proc_fetching x w n off j k (t ! (2 * k - 1))"
    "proc_resmem_w_o u" "proc_resmem_addr_o u = int j" "proc_resmem_data_o u = neuron expf n x w"
    using proc_feed_loop [OF assms(5,7,6) _ s0(2), of expf] by auto
  have "[0..<2 * n + 3] = 0 # [1..<2 * n + 3]" by (simp add: upt_rec)
  then have run: "clock_run (proc_posedge expf) (map P [0..<2 * n + 3]) s = Inr (s0 # t @ [u])"
    using first t(1) by simp
  have len: "length t = 2 * n + 1" using length_clock_run [OF run] by simp
  have at: "proc_fetching x w n off j i ((s0 # t @ [u]) ! (2 * i))" if "i \<le> n" for i
  proof (cases i)
    case 0
    then show ?thesis using s0(2) by simp
  next
    case (Suc i')
    then show ?thesis using t(2) that len by (auto simp: nth_append dest: spec [of _ i])
  qed
  have "proc_weight_addr_o ((s0 # t @ [u]) ! (2 * i)) = int (off + (n + 1) * j + i) \<and>
      (i < n \<longrightarrow> proc_prevmem_addr_o ((s0 # t @ [u]) ! (2 * i)) = int i)" if "i \<le> n" for i
    using at [OF that] that by (cases "i < n") (simp_all add: proc_fetching_def)
  with run t(3-5) show ?thesis by (intro exI [of _ "s0 # t @ [u]"]) simp
qed

definition example_ports :: "nat \<Rightarrow> proc_ports" where
  "example_ports k = \<lparr>proc_queue_address_i = 0, proc_queue_data_i = 4, proc_queue_w_i = (k = 0), proc_start_weight_i = 10,
     proc_prevmem_data_i = float_one, proc_weight_data_i = float_one, proc_prevmem_size_i = 3\<rparr>"

theorem processor_computes_neuron_witness:
  "\<exists>t. clock_run (proc_posedge (\<lambda>_. float_zero)) (map example_ports [0..<9]) ((processor_new 0)\<lparr>proc_pc := PROC_Empty\<rparr>) = Inr t \<and>
    proc_resmem_w_o (last t) \<and> proc_resmem_addr_o (last t) = 4 \<and>
    proc_resmem_data_o (last t) = neuron (\<lambda>_. float_zero) 3 (\<lambda>_. float_one) (\<lambda>_. float_one)"
proof -
  let ?s = "(processor_new 0)\<lparr>proc_pc := PROC_Empty\<rparr>"
  have "proc_pc ?s = PROC_Empty" "proc_queue ?s = []" "proc_accepts (example_ports 0) ?s"
    "proc_queue_data_i (example_ports 0) = int 4" "proc_feed example_ports (\<lambda>_. float_one) (\<lambda>_. float_one) 3 10"
    "(4::nat) < 5" "int (10 + (3 + 1) * 5) \<le> INT_MAX"
    by (simp_all add: processor_new_def proc_accepts_def example_ports_def proc_feed_def INT_MAX_def)
  from processor_computes_neuron [OF this, of "\<lambda>_. float_zero"] show ?thesis by auto
qed

section \<open>Any inputs\<close>

text \<open>The states a processor can reach, whatever its ports show.\<close>

inductive proc_reach :: "(float32 \<Rightarrow> float32) \<Rightarrow> processor \<Rightarrow> bool" for expf where
  proc_reach_new: "proc_reach expf (processor_new a)"
| proc_reach_step: "proc_reach expf s \<Longrightarrow> proc_posedge expf p s = Inr s' \<Longrightarrow> proc_reach expf s'"

definition proc_bounded :: "processor \<Rightarrow> bool" where
  "proc_bounded s \<longleftrightarrow> length (proc_queue s) \<le> QUEUE_SIZE \<and> 0 \<le> proc_queue_size_o s \<and> proc_queue_size_o s \<le> int QUEUE_SIZE \<and>
     (proc_pc s \<in> {PROC_Start, PROC_Empty} \<longleftrightarrow> \<not> proc_is_working s) \<and>
     (proc_contr_empty_o s \<longrightarrow> proc_queue s = [] \<and> \<not> proc_is_working s)"

text \<open>What holds between the queue method and the process.\<close>

definition proc_mid_bounded :: "processor \<Rightarrow> bool" where
  "proc_mid_bounded s \<longleftrightarrow> length (proc_queue s) \<le> QUEUE_SIZE \<and> 0 \<le> proc_queue_size_o s \<and>
     proc_queue_size_o s \<le> int QUEUE_SIZE \<and> (proc_contr_empty_o s \<longrightarrow> proc_queue s = [])"

lemma proc_for_head_bounded:
  assumes "proc_for_head p s = Inr s'" and "proc_mid_bounded s" and "proc_is_working s" and "\<not> proc_contr_empty_o s"
  shows "proc_bounded s'"
  using assms by (auto simp: proc_for_head_def proc_bounded_def proc_mid_bounded_def rbind_eq_Inr split: if_splits)

lemma proc_head_bounded:
  assumes "proc_head p s = Inr s'" and "proc_mid_bounded s" and "\<not> proc_is_working s"
  shows "proc_bounded s'"
proof (cases "proc_queue s")
  case Nil
  with assms show ?thesis by (auto simp: proc_head_def proc_bounded_def proc_mid_bounded_def)
next
  case (Cons n q)
  let ?t = "s\<lparr>proc_is_working := True, proc_sum_reg := float_zero, proc_number_of_nn := n, proc_queue := q, proc_i := 0\<rparr>"
  have "proc_for_head p ?t = Inr s'" using assms(1) Cons by (simp add: proc_head_def pop_front_def)
  then show ?thesis
    by (rule proc_for_head_bounded) (use assms(2) Cons in \<open>auto simp: proc_mid_bounded_def\<close>)
qed

lemma proc_process_bounded:
  assumes "proc_process expf p s = Inr s'" and mid: "proc_mid_bounded s"
    and w: "proc_pc s \<in> {PROC_Start, PROC_Empty} \<longleftrightarrow> \<not> proc_is_working s"
    and e: "proc_contr_empty_o s \<longrightarrow> \<not> proc_is_working s"
  shows "proc_bounded s'"
proof (cases "proc_pc s")
  case PROC_Start
  with assms(1) have "proc_head p s = Inr s'" by (simp add: proc_process_def)
  then show ?thesis by (rule proc_head_bounded) (use mid w PROC_Start in simp_all)
next
  case PROC_Empty
  with assms(1) have "proc_head p s = Inr s'" by (simp add: proc_process_def)
  then show ?thesis by (rule proc_head_bounded) (use mid w PROC_Empty in simp_all)
next
  case PROC_Fetch1
  with assms show ?thesis by (auto simp: proc_process_def proc_bounded_def proc_mid_bounded_def)
next
  case PROC_Fetch2
  with assms(1) obtain i where "proc_for_head p (s\<lparr>proc_sum_reg := float_add (proc_sum_reg s)
      (float_mul (proc_prevmem_data_i p) (proc_weight_data_i p)), proc_i := i\<rparr>) = Inr s'"
    by (auto simp: proc_process_def rbind_eq_Inr)
  then show ?thesis by (rule proc_for_head_bounded) (use mid w e PROC_Fetch2 in \<open>auto simp: proc_mid_bounded_def\<close>)
next
  case PROC_Bias1
  with assms show ?thesis by (auto simp: proc_process_def proc_bounded_def proc_mid_bounded_def)
next
  case PROC_Bias2
  with assms show ?thesis by (auto simp: proc_process_def proc_bounded_def proc_mid_bounded_def Let_def)
next
  case PROC_Write
  with assms(1) obtain c where "proc_head p (s\<lparr>proc_resmem_w_o := False, proc_is_working := False, proc_count_neurons_calc := c\<rparr>) = Inr s'"
    by (auto simp: proc_process_def rbind_eq_Inr)
  then show ?thesis by (rule proc_head_bounded) (use mid in \<open>auto simp: proc_mid_bounded_def\<close>)
qed

lemma proc_posedge_bounded:
  assumes "proc_bounded s" and "proc_posedge expf p s = Inr s'"
  shows "proc_bounded s'"
proof -
  obtain t where t: "proc_add_to_queue p s = Inr t" "proc_process expf p t = Inr s'"
    using assms(2) by (auto simp: proc_posedge_def proc_methods_def rbind_eq_Inr)
  have t': "proc_pc t = proc_pc s" "proc_is_working t = proc_is_working s" "proc_mid_bounded t"
    "proc_contr_empty_o t \<longrightarrow> \<not> proc_is_working t"
    using t(1) assms(1)
    by (auto simp: proc_add_to_queue_def proc_bounded_def proc_mid_bounded_def Let_def split: if_splits)
  show ?thesis
    by (rule proc_process_bounded [OF t(2)]) (use t' assms(1) in \<open>simp_all add: proc_bounded_def\<close>)
qed

text \<open>C36: whatever the generator and the memories do, the queue of a processor never holds more
  than \<open>QUEUE_SIZE\<close> neurons, the size it reports is in that range, and it reports itself empty
  only with no neuron queued and none in work.\<close>

theorem processor_queue_bounded:
  assumes "proc_reach expf s"
  shows "length (proc_queue s) \<le> QUEUE_SIZE \<and> 0 \<le> proc_queue_size_o s \<and> proc_queue_size_o s \<le> int QUEUE_SIZE \<and>
    (proc_contr_empty_o s \<longrightarrow> proc_queue s = [] \<and> \<not> proc_is_working s)"
proof -
  from assms have "proc_bounded s"
  proof induction
    case (proc_reach_new a)
    then show ?case by (simp add: proc_bounded_def processor_new_def)
  next
    case (proc_reach_step s p s')
    then show ?case by (blast intro: proc_posedge_bounded)
  qed
  then show ?thesis by (simp add: proc_bounded_def)
qed

theorem processor_queue_bounded_witness:
  "\<exists>s. proc_posedge (\<lambda>_. float_zero) (example_ports 0) (processor_new 0) = Inr s \<and> length (proc_queue s) \<le> QUEUE_SIZE"
proof -
  have "\<exists>s. proc_posedge (\<lambda>_. float_zero) (example_ports 0) (processor_new 0) = Inr s"
    by (simp add: proc_posedge_def proc_methods_def proc_add_to_queue_def example_ports_def processor_new_def QUEUE_SIZE_def
        proc_process_def proc_head_def pop_front_def proc_for_head_def weight_address_def check_int_def is_cint_def INT_MIN_def INT_MAX_def)
  then obtain s where s: "proc_posedge (\<lambda>_. float_zero) (example_ports 0) (processor_new 0) = Inr s" by blast
  then have "proc_reach (\<lambda>_. float_zero) s" by (blast intro: proc_reach.intros)
  from processor_queue_bounded [OF this] s show ?thesis by blast
qed

section \<open>The activation\<close>

text \<open>Whatever \<open>std::exp\<close> returns for the rest, as long as it maps the numbers that are not
  positive into the unit interval and NaN to NaN, the value a processor writes is a number of the
  unit interval for every weighted sum other than NaN, the infinities included.\<close>

theorem sigmoid_in_unit_interval:
  assumes "expf_contract expf" and "wf_float x" and "x \<noteq> FNaN"
  shows "unit_float (sigmoid expf x)"
  by (rule sigmoid_unit_range [OF assms])

definition expf_zero :: "float32 \<Rightarrow> float32" where
  "expf_zero x = (if x = FNaN then FNaN else float_zero)"

lemma expf_contract_zero: "expf_contract expf_zero"
  by (auto simp: expf_contract_def expf_zero_def float_zero_def)

theorem sigmoid_in_unit_interval_witness:
  "unit_float (sigmoid expf_zero (FInf True))"
proof -
  have "wf_float (FInf True)" "FInf True \<noteq> FNaN" by simp_all
  from sigmoid_in_unit_interval [OF expf_contract_zero this] show ?thesis .
qed

end
