(* ===== verification/Run_Invariant.thy ===== *)
theory Run_Invariant
  imports Run_Load Processor_Run
begin

text \<open>
  What holds of every state of the simulation, whatever the files contain: the signals repeat
  the ports, \<open>END_REDUCER\<close> is up to date, and the processors' queues are bounded; and what the
  first edge does when a file is missing or the number of layers is negative.
\<close>

section \<open>Reachable states\<close>

inductive sys_reach :: "(float32 \<Rightarrow> float32) \<Rightarrow> string option \<Rightarrow> string option \<Rightarrow> sys \<Rightarrow> bool" for expf cfg pic where
  sys_reach_init: "sys_initialize (sys_new cfg pic) = Inr s \<Longrightarrow> sys_reach expf cfg pic s"
| sys_reach_edge: "sys_reach expf cfg pic s \<Longrightarrow> \<not> pl_stop (sy_pl s) \<Longrightarrow> sys_edge expf s = Inr s' \<Longrightarrow> sys_reach expf cfg pic s'"

definition sys_inv :: "sys \<Rightarrow> bool" where
  "sys_inv s \<longleftrightarrow> (\<not> pl_stop (sy_pl s) \<longrightarrow> linked s \<and> er_ok s) \<and>
     length (sy_proc s) = COUNT_PC_UNIT \<and> (\<forall>k < COUNT_PC_UNIT. proc_bounded (sy_proc s ! k)) \<and>
     length (ws_data_out_bus_o (sy_ws s)) = COUNT_PC_UNIT \<and> length (pl_data_PC_bus_o (sy_pl s)) = COUNT_PC_UNIT"

lemma rmap_length: "rmap f xs = Inr ys \<Longrightarrow> length ys = length xs"
  by (auto simp: rmap_eq_Inr dest: list_all2_lengthD)

lemma ws_posedge_length: "ws_posedge p s = Inr s' \<Longrightarrow> length (ws_data_out_bus_o s') = COUNT_PC_UNIT"
  by (auto simp: ws_posedge_def ws_methods_def ws_issue_element_def rbind_eq_Inr dest!: rmap_length)

lemma pl_posedge_length:
  assumes "pl_posedge p s = Inr s'"
  shows "length (pl_data_PC_bus_o s') = COUNT_PC_UNIT"
proof -
  obtain s1 ds s2 where "rmap (\<lambda>i. pl_read (pl_memory s1) (pl_addr_PC_bus_i p ! i)) [0..<COUNT_PC_UNIT] = Inr ds"
    and s2: "pl_issue_element_IO p (s1\<lparr>pl_data_PC_bus_o := ds\<rparr>) = Inr s2" "pl_add_to_mem p s2 = Inr s'"
    using assms by (auto simp: pl_posedge_def pl_methods_def pl_issue_element_PC_def rbind_eq_Inr)
  then have "length ds = COUNT_PC_UNIT" using rmap_length by fastforce
  moreover have "pl_data_PC_bus_o s2 = ds"
    using s2(1) by (auto simp: pl_issue_element_IO_def rbind_eq_Inr split: if_splits)
  ultimately show ?thesis using s2(2) by (auto simp: pl_add_to_mem_def Let_def)
qed

text \<open>An edge that does not fault is an edge of every module.\<close>

lemma sys_edge_modules:
  assumes edge: "sys_edge expf s = Inr s'" and I: "sys_inv s" and np: "\<not> pl_stop (sy_pl s)"
  shows "\<exists>nl pr pls plc pl ws ls ct io gen d w. sys_became s s' nl pr pls plc pl ws ls ct io gen d w \<and>
    (\<forall>k < COUNT_PC_UNIT. proc_posedge expf (proc_bind (sy_sig s) k) (sy_proc s ! k) = Inr (pr k)) \<and>
    length (ws_data_out_bus_o ws) = COUNT_PC_UNIT \<and> length (pl_data_PC_bus_o pl) = COUNT_PC_UNIT"
proof -
  have L: "linked s" "er_ok s" using I np by (simp_all add: sys_inv_def)
  have n: "length (sy_proc s) = COUNT_PC_UNIT" using I by (simp add: sys_inv_def)
  obtain s1 s2 where ev: "sys_evaluate expf s = Inr s1" and up: "sys_update s1 = Inr s2"
    using edge by (auto simp: sys_edge_def rbind_eq_Inr)
  from ev obtain nl prs pls plc pl ws ls ct io gen where
    m: "nl_posedge (nl_bind (sy_sig s)) (sy_nl s) = Inr nl"
      "rmap (\<lambda>i. proc_posedge expf (proc_bind (sy_sig s) i) (sy_proc s ! i)) [0..<length (sy_proc s)] = Inr prs"
      "pls_posedge (pls_bind (sy_sig s)) (sy_pls s) = Inr pls" "plc_posedge (plc_bind (sy_sig s)) (sy_plc s) = Inr plc"
      "pl_posedge (pl_bind (sy_sig s)) (sy_pl s) = Inr pl" "ws_posedge (ws_bind (sy_sig s)) (sy_ws s) = Inr ws"
      "ls_posedge (ls_bind (sy_sig s)) (sy_ls s) = Inr ls" "ct_posedge (ct_bind (sy_sig s)) (sy_ct s) = Inr ct"
      "io_posedge (io_bind (sy_time s) (sy_sig s)) (sy_io s) = Inr io" "gen_generate (gen_bind (sy_sig s)) (sy_gen s) = Inr gen"
    and s1: "s1 = s\<lparr>sy_io := io, sy_ct := ct, sy_ls := ls, sy_ws := ws, sy_pl := pl, sy_plc := plc,
             sy_pls := pls, sy_gen := gen, sy_proc := prs, sy_nl := nl,
             sy_cycle_ended_o := (if sy_er_pending s then er_reduce (er_bind (sy_sig s)) else sy_cycle_ended_o s)\<rparr>"
    unfolding sys_evaluate_def Let_def rbind_eq_Inr by (elim exE conjE) simp
  from up obtain d w where dw: "shared_write (pl_data_io_write pl) (io_data_write io) (data_io_bus (sy_sig s)) = Inr d"
    "shared_write (pl_wr_io_write pl) (io_wr_write io) (wr_io_bus (sy_sig s)) = Inr w"
    unfolding sys_update_def update_signals_def Let_def rbind_eq_Inr s1 by (elim exE conjE) simp
  have pr: "proc_posedge expf (proc_bind (sy_sig s) i) (sy_proc s ! i) = Inr (prs ! i)" if "i < COUNT_PC_UNIT" for i
    using m(2) that unfolding rmap_eq_Inr n list_all2_conv_all_nth by auto
  have len: "length (ws_data_out_bus_o ws) = COUNT_PC_UNIT" "length (pl_data_PC_bus_o pl) = COUNT_PC_UNIT"
    by (rule ws_posedge_length [OF m(6)], rule pl_posedge_length [OF m(5)])
  have len': "length (ws_data_out_bus_o ws) = length (ws_data_out_bus_o (sy_ws s))"
    "length (pl_data_PC_bus_o pl) = length (pl_data_PC_bus_o (sy_pl s))"
    using len I by (simp_all add: sys_inv_def)
  obtain s'' where "sys_edge expf s = Inr s''" "sys_became s s'' nl (\<lambda>i. prs ! i) pls plc pl ws ls ct io gen d w"
    using sys_edgeI [OF L m(1) pr m(3-10) dw len'] by blast
  with edge pr len show ?thesis by (intro exI conjI) auto
qed

lemma sys_edge_inv:
  assumes edge: "sys_edge expf s = Inr s'" and I: "sys_inv s" and np: "\<not> pl_stop (sy_pl s)"
  shows "sys_inv s'"
proof -
  obtain nl pr pls plc pl ws ls ct io gen d w where
    b: "sys_became s s' nl pr pls plc pl ws ls ct io gen d w"
    and pr: "\<forall>k < COUNT_PC_UNIT. proc_posedge expf (proc_bind (sy_sig s) k) (sy_proc s ! k) = Inr (pr k)"
    and len: "length (ws_data_out_bus_o ws) = COUNT_PC_UNIT" "length (pl_data_PC_bus_o pl) = COUNT_PC_UNIT"
    using sys_edge_modules [OF assms] by blast
  have "proc_bounded (pr k)" if "k < COUNT_PC_UNIT" for k
    using proc_posedge_bounded pr that I unfolding sys_inv_def by blast
  then show ?thesis using b len unfolding sys_inv_def sys_became_def by auto
qed

lemma proc_initialized_bounded: "proc_bounded (proc_initialized k)"
  by (simp add: proc_bounded_def proc_initialized_def processor_new_def)

lemma sys_reach_inv:
  assumes "sys_reach expf cfg pic s"
  shows "sys_inv s"
  using assms
proof induction
  case (sys_reach_init s)
  then have "fresh cfg pic s" "sy_proc s = map proc_initialized [0..<COUNT_PC_UNIT]"
    using initialize_fresh [of cfg pic] by auto
  then show ?case
    by (simp add: sys_inv_def fresh_def calm_def resting_def proc_initialized_bounded)
next
  case (sys_reach_edge s s')
  then show ?case by (blast intro: sys_edge_inv)
qed

lemma cycle_ended_after_edge:
  assumes "sys_reach expf cfg pic s" and "\<not> pl_stop (sy_pl s)" and "sys_edge expf s = Inr s'" and "\<not> pl_stop (sy_pl s')"
  shows "cycle_ended (sy_sig s') \<longleftrightarrow> gen_end_generate_o (sy_gen s') \<and> (\<forall>k < COUNT_PC_UNIT. proc_contr_empty_o (sy_proc s' ! k))"
proof -
  note I = sys_reach_inv [OF assms(1)]
  have I': "sys_inv s'" by (rule sys_edge_inv [OF assms(3) I assms(2)])
  have "\<not> sy_er_pending s'" using sys_edge_modules [OF assms(3) I assms(2)] assms(4) by (auto simp: sys_became_def)
  then have "cycle_ended (sy_sig s') = er_reduce (er_bind (sy_sig s'))" and L: "linked s'"
    using I' assms(4) by (auto simp: sys_inv_def er_ok_def)
  moreover have "er_bind (sy_sig s') = \<lparr>er_gen_end_i = gen_end_generate_o (sy_gen s'), er_contr_empty_i = map proc_contr_empty_o (sy_proc s')\<rparr>"
    using L by (simp add: er_bind_def linked_def)
  ultimately show ?thesis
    using I' by (simp add: er_reduce_iff sys_inv_def) (metis in_set_conv_nth)
qed

text \<open>\<open>END_REDUCER\<close> ran in the initialization on the initial signals, which show no empty processor.\<close>

lemma initial_cycle_ended:
  assumes "sys_initialize (sys_new cfg pic) = Inr s"
  shows "\<not> cycle_ended (sy_sig s)"
proof -
  have "\<not> er_reduce (er_bind (sy_sig (sys_new cfg pic)))"
    by (auto simp: er_reduce_iff er_bind_def sys_new_def signals_new_def COUNT_PC_UNIT_def)
  then show ?thesis using assms
    by (auto simp: sys_initialize_def sys_update_def update_signals_def Let_def rbind_eq_Inr)
qed

text \<open>C3: the signal the controller waits for is right.  In every state the simulation reaches and in
  which it was not stopped, whatever the two files contain: if \<open>cycle_ended\<close> is up, the generator shows its end, every
  processor shows that it is empty, and no processor holds a neuron in its queue or in work; and if the
  generator and all processors show that, \<open>cycle_ended\<close> is up, except in the state before the first
  edge, in which it is still down.\<close>

theorem cycle_ended_means_idle:
  assumes "sys_reach expf cfg pic s" and "\<not> pl_stop (sy_pl s)"
  shows "(cycle_ended (sy_sig s) \<longrightarrow> gen_end_generate_o (sy_gen s) \<and>
      (\<forall>k < COUNT_PC_UNIT. proc_contr_empty_o (sy_proc s ! k) \<and> proc_queue (sy_proc s ! k) = [] \<and> \<not> proc_is_working (sy_proc s ! k))) \<and>
    (gen_end_generate_o (sy_gen s) \<and> (\<forall>k < COUNT_PC_UNIT. proc_contr_empty_o (sy_proc s ! k)) \<longrightarrow>
      (cycle_ended (sy_sig s) \<longleftrightarrow> sys_initialize (sys_new cfg pic) \<noteq> Inr s))"
  using assms(1)
proof cases
  case sys_reach_init
  with initial_cycle_ended show ?thesis by blast
next
  case (sys_reach_edge s0)
  have eq: "cycle_ended (sy_sig s) \<longleftrightarrow> gen_end_generate_o (sy_gen s) \<and> (\<forall>k < COUNT_PC_UNIT. proc_contr_empty_o (sy_proc s ! k))"
    by (rule cycle_ended_after_edge [OF sys_reach_edge assms(2)])
  have "proc_bounded (sy_proc s ! k)" if "k < COUNT_PC_UNIT" for k
    using sys_reach_inv [OF assms(1)] that by (simp add: sys_inv_def)
  moreover have "\<not> cycle_ended (sy_sig s)" if "sys_initialize (sys_new cfg pic) = Inr s"
    using that by (rule initial_cycle_ended)
  ultimately show ?thesis using eq by (auto simp: proc_bounded_def)
qed

lemma first_edge_empty:
  assumes F: "fresh cfg pic s" and R: "sys_reach expf cfg pic s" and edge: "sys_edge expf s = Inr s'" and k: "k < COUNT_PC_UNIT"
  shows "proc_contr_empty_o (sy_proc s' ! k)"
proof -
  have C: "calm s" and np: "\<not> pl_stop (sy_pl s)" using F by (auto simp: fresh_def)
  have p: "proc_posedge expf (proc_bind (sy_sig s) k) (sy_proc s ! k) = Inr (proc_calmed (sy_proc s ! k))"
    by (rule proc_posedge_calm) (use k C in \<open>simp_all add: calm_def resting_def proc_accepts_def linked_proc [OF calm_linked [OF C]]\<close>)
  obtain pr where "\<forall>k < COUNT_PC_UNIT. proc_posedge expf (proc_bind (sy_sig s) k) (sy_proc s ! k) = Inr (pr k)"
    "sy_proc s' = map pr [0..<COUNT_PC_UNIT]"
    using sys_edge_modules [OF edge sys_reach_inv [OF R] np] by (auto simp: sys_became_def)
  with p k show ?thesis by auto
qed

theorem cycle_ended_means_idle_witness:
  "\<exists>s0 s1. sys_initialize (sys_new (Some (print_config [1] ''1'')) (Some ''1'')) = Inr s0 \<and> sys_edge expf_zero s0 = Inr s1 \<and>
    cycle_ended (sy_sig s1) \<and> list_all (\<lambda>k. proc_queue (sy_proc s1 ! k) = []) [0..<COUNT_PC_UNIT]"
proof -
  let ?cfg = "Some (print_config [1] ''1'')" and ?pic = "Some ''1''"
  let ?d = "\<lparr>ld_layersCount = 1, ld_layers = [1], ld_weights = [float_one], ld_picture = [float_one]\<rparr>"
  obtain s0 where s0: "sys_initialize (sys_new ?cfg ?pic) = Inr s0" "fresh ?cfg ?pic s0" using initialize_fresh by blast
  have "loadData ?cfg ?pic = Inr (Some ?d)"
    using loadData_print [of "[1]" "''1''" "''1''"] by (simp add: is_cint_def INT_MIN_def INT_MAX_def read_floats_1)
  then obtain s1 where s1: "sys_edge expf_zero s0 = Inr s1" "loading ?d [] (0, float_INFINITY) (tl (io_schedule ?d)) s1"
    using fresh_step [OF s0(2)] by blast
  have R0: "sys_reach expf_zero ?cfg ?pic s0" by (rule sys_reach_init [OF s0(1)])
  moreover have "\<not> pl_stop (sy_pl s0)" using s0(2) by (simp add: fresh_def)
  ultimately have R: "sys_reach expf_zero ?cfg ?pic s1" by (rule sys_reach_edge [OF _ _ s1(1)])
  have N: "\<not> pl_stop (sy_pl s1)" using s1(2) by (rule loading_not_stopped)
  have "s1 \<noteq> s0" using s0(2) s1(2) by (auto simp: fresh_def loading_def)
  moreover have "gen_end_generate_o (sy_gen s1)" using s1(2) by (simp add: loading_def calm_def gen_calm_def)
  moreover have "\<forall>k < COUNT_PC_UNIT. proc_contr_empty_o (sy_proc s1 ! k)" using first_edge_empty [OF s0(2) R0 s1(1)] by simp
  ultimately have c: "cycle_ended (sy_sig s1)" using cycle_ended_means_idle [OF R N] s0(1) by (metis sum.inject(2))
  have "list_all (\<lambda>k. proc_queue (sy_proc s1 ! k) = []) [0..<COUNT_PC_UNIT]"
    using cycle_ended_means_idle [OF R N] c by (simp add: list_all_iff)
  with c s0(1) s1(1) show ?thesis by blast
qed

section \<open>Files that cannot be loaded\<close>

lemma fresh_edge_fault:
  assumes F: "fresh cfg pic s" and io: "io_posedge (io_bind (sy_time s) (sy_sig s)) (sy_io s) = Inl e"
  shows "sys_edge expf s = Inl e"
proof -
  have C: "calm s" and plcc: "plc_calm (sy_plc s)" and sil: "ct_silent (sy_ct s)" using F by (auto simp: fresh_def)
  note K = calm_linked [OF C]
  have nn: "\<not> plc_next_o (sy_plc s)" and nc: "\<not> ct_start_clone_o (sy_ct s)"
    using sil plcc by (simp_all add: ct_silent_def plc_calm_def)
  have p: "proc_posedge expf (proc_bind (sy_sig s) k) (sy_proc s ! k) = Inr (proc_calmed (sy_proc s ! k))"
    if "k < COUNT_PC_UNIT" for k
    by (rule proc_posedge_calm) (use that C in \<open>simp_all add: calm_def resting_def proc_accepts_def linked_proc [OF K]\<close>)
  then have "rmap (\<lambda>i. proc_posedge expf (proc_bind (sy_sig s) i) (sy_proc s ! i)) [0..<length (sy_proc s)] =
      Inr (map (\<lambda>k. proc_calmed (sy_proc s ! k)) [0..<length (sy_proc s)])"
    by (intro rmap_total) (simp add: linked_nproc [OF K])
  then show ?thesis
    using io fresh_modules [OF F] nl_calm_edge [OF C nn] plc_calm_edge [OF K plcc nc] pls_next [OF K]
    by (simp add: sys_edge_def sys_evaluate_def Let_def)
qed

lemma sc_main_first_fault:
  assumes "io_write_data_to_system (io_module_new (fs (g_configFile (parse_args default_options args)))
    (fs (g_pictureFile (parse_args default_options args)))) = Inl e"
  shows "sc_main expf fs args (Suc n) = Inl e"
proof -
  let ?cfg = "fs (g_configFile (parse_args default_options args))" and ?pic = "fs (g_pictureFile (parse_args default_options args))"
  obtain s where s: "sys_initialize (sys_new ?cfg ?pic) = Inr s" "fresh ?cfg ?pic s" using initialize_fresh by blast
  have "(io_module_new ?cfg ?pic)\<lparr>io_data_write := None, io_wr_write := None\<rparr> = io_module_new ?cfg ?pic"
    by (simp add: io_module_new_def)
  then have "io_posedge (io_bind (sy_time s) (sy_sig s)) (sy_io s) = Inl e"
    using assms s(2) by (simp add: fresh_def io_posedge_def io_methods_def io_read_data_from_system_def io_bind_def)
  then have "sys_edge expf s = Inl e" by (rule fresh_edge_fault [OF s(2)])
  moreover have "\<not> pl_stop (sy_pl s)" using s(2) by (simp add: fresh_def)
  ultimately show ?thesis using s(1) by (simp add: sc_main_def Let_def)
qed

text \<open>C40: the error paths of \<open>loadData\<close> reach the caller.  Whatever else is on the command line and
  in the files, the first clock period ends with the \<open>sc_abort\<close> of the code when the
  configuration cannot be opened, or when it can, its number of layers is not negative, and the
  picture cannot be opened; and with the exception of \<open>resize\<close> when the number is negative.\<close>

theorem unloadable_files_abort:
  assumes "g = parse_args default_options args"
  shows "(fs (g_configFile g) = None \<longrightarrow> sc_main expf fs args (Suc n) = Inl Aborted) \<and>
    (\<forall>c. fs (g_configFile g) = Some c \<longrightarrow>
       (if fst (get_int 0 (open_stream c)) < 0 then sc_main expf fs args (Suc n) = Inl LengthError
        else fs (g_pictureFile g) = None \<longrightarrow> sc_main expf fs args (Suc n) = Inl Aborted))"
proof -
  let ?cfg = "fs (g_configFile g)" and ?pic = "fs (g_pictureFile g)"
  have new: "io_pc (io_module_new cfg pic) = IO_Start" "io_cfg (io_module_new cfg pic) = cfg" "io_pic (io_module_new cfg pic) = pic"
    for cfg pic by (simp_all add: io_module_new_def)
  have fault: "sc_main expf fs args (Suc n) = Inl e" if "loadData ?cfg ?pic = Inl e" for e
    by (rule sc_main_first_fault) (use that assms new in \<open>simp add: io_write_data_to_system_def\<close>)
  have none: "sc_main expf fs args (Suc n) = Inl Aborted" if "loadData ?cfg ?pic = Inr None"
    by (rule sc_main_first_fault) (use that assms new in \<open>simp add: io_write_data_to_system_def\<close>)
  show ?thesis
    by (auto intro!: fault none simp: loadData_def split: prod.splits)
qed

theorem unloadable_files_abort_witness:
  "sc_main expf_zero (\<lambda>f. if f = ''cfg'' then Some (print_config [1, 1] []) else None) [''-c'', ''cfg''] 100 = Inl Aborted \<and>
   sc_main expf_zero (\<lambda>f. if f = ''cfg'' then Some (print_config [1, 1] []) else None) [] 100 = Inl Aborted"
proof -
  let ?fs = "\<lambda>f. if f = ''cfg'' then Some (print_config [1, 1] []) else None"
  have "get_int 0 (open_stream (print_config [1, 1] [])) = (2, open_stream (CHR 0x0A # print_sizes [1, 1] []))"
    using get_int_show_sep [of 2 "CHR 0x0A" "[]" 0 "print_sizes [1, 1] []"] is_space_sep
    by (simp add: print_config_def is_cint_def INT_MIN_def INT_MAX_def)
  then have "\<not> fst (get_int 0 (open_stream (print_config [1, 1] []))) < 0" by simp
  moreover have "(100 :: nat) = Suc 99" by simp
  ultimately show ?thesis
    using unloadable_files_abort [OF refl, where fs = ?fs and args = "[''-c'', ''cfg'']" and n = 99 and expf = expf_zero]
      unloadable_files_abort [OF refl, where fs = ?fs and args = "[]" and n = 99 and expf = expf_zero]
    by (simp add: default_options_def)
qed

end
