(* ===== verification/Sc_Pq.thy ===== *)
theory Sc_Pq
  imports Prelude "HOL-Library.Multiset"
begin

text \<open>
  \<open>sysc/utils/sc_pq.h\<close> and \<open>sysc/utils/sc_pq.cpp\<close>: the priority queue of the timed
  notifications, a binary heap in an array that starts at index 1 and grows by half its size.
  The comparison function is an argument, as in the source; the locale \<open>pq_order\<close> states what
  the heap needs of it, and the kernel interprets it on its own comparison.
\<close>

section \<open>The class\<close>

text \<open>The elements are pointers: \<open>null\<close> is the value a new array is filled with.\<close>

record 'a sc_ppq =
  m_heap :: "'a list"
  m_size_alloc :: nat
  m_heap_size :: nat

definition sc_ppq_new :: "'a \<Rightarrow> int \<Rightarrow> 'a sc_ppq" where
  "sc_ppq_new null sz =
     (let a = nat (if sz < 2 then 2 else sz)
      in \<lparr>m_heap = replicate (a + 1) null, m_size_alloc = a, m_heap_size = 0\<rparr>)"

definition pq_parent :: "nat \<Rightarrow> nat" where
  "pq_parent i = i div 2"

definition pq_left :: "nat \<Rightarrow> nat" where
  "pq_left i = 2 * i"

definition pq_right :: "nat \<Rightarrow> nat" where
  "pq_right i = 2 * i + 1"

definition pq_top :: "'a sc_ppq \<Rightarrow> 'a" where
  "pq_top q = m_heap q ! 1"

definition pq_empty :: "'a sc_ppq \<Rightarrow> bool" where
  "pq_empty q \<longleftrightarrow> m_heap_size q = 0"

text \<open>The loop of \<open>heapify\<close>; \<open>n\<close> is the number of elements.\<close>

definition pq_largest :: "('a \<Rightarrow> 'a \<Rightarrow> int) \<Rightarrow> nat \<Rightarrow> 'a list \<Rightarrow> nat \<Rightarrow> nat" where
  "pq_largest cmp n h i =
     (let largest = (if cmp (h ! pq_left i) (h ! i) > 0 then pq_left i else i)
      in if pq_right i \<le> n \<and> cmp (h ! pq_right i) (h ! largest) > 0 then pq_right i else largest)"

lemma pq_largest_cases: "pq_largest cmp n h i \<in> {i, pq_left i, pq_right i}"
  by (auto simp: pq_largest_def Let_def)

lemma pq_largest_le: "pq_left i \<le> n \<Longrightarrow> i \<le> n \<Longrightarrow> pq_largest cmp n h i \<le> n"
  by (auto simp: pq_largest_def Let_def)

lemma pq_largest_gt: "pq_largest cmp n h i \<noteq> i \<Longrightarrow> i < pq_largest cmp n h i"
  using pq_largest_cases [of cmp n h i] by (auto simp: pq_left_def pq_right_def)

function pq_heapify :: "('a \<Rightarrow> 'a \<Rightarrow> int) \<Rightarrow> nat \<Rightarrow> 'a list \<Rightarrow> nat \<Rightarrow> 'a list" where
  "pq_heapify cmp n h i =
     (if pq_left i \<le> n
      then let largest = pq_largest cmp n h i
           in if largest \<noteq> i then pq_heapify cmp n (h[i := h ! largest, largest := h ! i]) largest else h
      else h)"
  by pat_completeness auto
termination
proof (relation "measure (\<lambda>(cmp, n, h, i). Suc n - i)", goal_cases)
  case (2 cmp n h i x)
  then have "i \<le> n" by (simp add: pq_left_def)
  with 2 show ?case using pq_largest_gt [of cmp n h i] by simp
qed simp

declare pq_heapify.simps [simp del]

text \<open>The loop of \<open>insert\<close>.\<close>

function pq_sift_up :: "('a \<Rightarrow> 'a \<Rightarrow> int) \<Rightarrow> 'a list \<Rightarrow> nat \<Rightarrow> 'a \<Rightarrow> 'a list" where
  "pq_sift_up cmp h i elem =
     (if 1 < i \<and> cmp (h ! pq_parent i) elem < 0
      then pq_sift_up cmp (h[i := h ! pq_parent i]) (pq_parent i) elem
      else h[i := elem])"
  by pat_completeness auto
termination
  by (relation "measure (\<lambda>(cmp, h, i, elem). i)") (auto simp: pq_parent_def)

declare pq_sift_up.simps [simp del]

definition pq_extract_top :: "('a \<Rightarrow> 'a \<Rightarrow> int) \<Rightarrow> 'a sc_ppq \<Rightarrow> ('a \<times> 'a sc_ppq) res" where
  "pq_extract_top cmp q =
     (if m_heap_size q > 0
      then let n = m_heap_size q - 1
           in Inr (m_heap q ! 1, q\<lparr>m_heap := pq_heapify cmp n ((m_heap q)[1 := m_heap q ! m_heap_size q]) 1, m_heap_size := n\<rparr>)
      else Inl AssertFailed)"

text \<open>The new array of a resize holds the elements \<open>1\<close> to \<open>m_heap_size - 1\<close>; the rest is filled
  with \<open>null\<close> here and is not initialised in the source.\<close>

definition pq_resize :: "'a \<Rightarrow> 'a sc_ppq \<Rightarrow> 'a sc_ppq" where
  "pq_resize null q =
     (let a = m_size_alloc q + m_size_alloc q div 2
      in q\<lparr>m_size_alloc := a,
           m_heap := map (\<lambda>j. if 1 \<le> j \<and> j < m_heap_size q then m_heap q ! j else null) [0..<a + 1]\<rparr>)"

definition pq_insert :: "'a \<Rightarrow> ('a \<Rightarrow> 'a \<Rightarrow> int) \<Rightarrow> 'a \<Rightarrow> 'a sc_ppq \<Rightarrow> 'a sc_ppq" where
  "pq_insert null cmp elem q =
     (let q1 = q\<lparr>m_heap_size := m_heap_size q + 1\<rparr>;
          q2 = (if m_heap_size q1 > m_size_alloc q1 then pq_resize null q1 else q1)
      in q2\<lparr>m_heap := pq_sift_up cmp (m_heap q2) (m_heap_size q2) elem\<rparr>)"

section \<open>Invariant and abstraction\<close>

text \<open>The array is large enough for its elements, so that every index used lies inside it.\<close>

definition pq_space :: "'a sc_ppq \<Rightarrow> bool" where
  "pq_space q \<longleftrightarrow> length (m_heap q) = Suc (m_size_alloc q) \<and> m_heap_size q \<le> m_size_alloc q \<and> 2 \<le> m_size_alloc q"

definition heap_elems :: "'a list \<Rightarrow> nat \<Rightarrow> 'a list" where
  "heap_elems h n = drop 1 (take (Suc n) h)"

definition pq_elems :: "'a sc_ppq \<Rightarrow> 'a multiset" where
  "pq_elems q = mset (heap_elems (m_heap q) (m_heap_size q))"

lemma length_heap_elems [simp]: "n < length h \<Longrightarrow> length (heap_elems h n) = n"
  by (simp add: heap_elems_def)

lemma nth_heap_elems: "k < n \<Longrightarrow> n < length h \<Longrightarrow> heap_elems h n ! k = h ! Suc k"
  by (simp add: heap_elems_def)

lemma heap_elems_update: "1 \<le> i \<Longrightarrow> i \<le> n \<Longrightarrow> heap_elems (h[i := x]) n = (heap_elems h n)[i - 1 := x]"
  by (simp add: heap_elems_def take_update_swap drop_update_swap)

lemma mset_heap_swap:
  assumes "1 \<le> i" and "i \<le> n" and "1 \<le> j" and "j \<le> n" and "n < length h"
  shows "mset (heap_elems (h[i := h ! j, j := h ! i]) n) = mset (heap_elems h n)"
proof -
  have "h ! j = heap_elems h n ! (j - 1)" "h ! i = heap_elems h n ! (i - 1)"
    using assms by (simp_all add: nth_heap_elems)
  then show ?thesis
    using assms by (simp add: heap_elems_update mset_swap)
qed

lemma pq_heapify_mset:
  "1 \<le> i \<Longrightarrow> n < length h \<Longrightarrow>
     length (pq_heapify cmp n h i) = length h \<and> mset (heap_elems (pq_heapify cmp n h i) n) = mset (heap_elems h n)"
proof (induction cmp n h i rule: pq_heapify.induct)
  case (1 cmp n h i)
  show ?case
  proof (cases "pq_left i \<le> n \<and> pq_largest cmp n h i \<noteq> i")
    case True
    let ?l = "pq_largest cmp n h i"
    have i: "i \<le> n" using True by (simp add: pq_left_def)
    have l: "1 \<le> ?l" "?l \<le> n" using pq_largest_le [of i n] True i pq_largest_gt [of cmp n h i] by auto
    have "length (pq_heapify cmp n (h[i := h ! ?l, ?l := h ! i]) ?l) = length h \<and>
        mset (heap_elems (pq_heapify cmp n (h[i := h ! ?l, ?l := h ! i]) ?l) n) = mset (heap_elems (h[i := h ! ?l, ?l := h ! i]) n)"
      using "1.IH" [OF _ refl] True l "1.prems" by simp
    then show ?thesis using True mset_heap_swap [OF "1.prems"(1) i l "1.prems"(2)]
      by (simp add: pq_heapify.simps [of cmp n h i] Let_def)
  next
    case False
    then show ?thesis by (auto simp: pq_heapify.simps [of cmp n h i] Let_def)
  qed
qed

lemma pq_sift_up_mset:
  "1 \<le> i \<Longrightarrow> i \<le> n \<Longrightarrow> n < length h \<Longrightarrow>
     length (pq_sift_up cmp h i elem) = length h \<and>
     mset (heap_elems (pq_sift_up cmp h i elem) n) = mset (heap_elems (h[i := elem]) n)"
proof (induction cmp h i elem rule: pq_sift_up.induct)
  case (1 cmp h i elem)
  show ?case
  proof (cases "1 < i \<and> cmp (h ! pq_parent i) elem < 0")
    case True
    let ?p = "pq_parent i" and ?g = "h[i := elem]"
    have p: "1 \<le> ?p" "?p \<le> n" "?p \<noteq> i" using True "1.prems"(2) by (auto simp: pq_parent_def)
    have sw: "?g[i := ?g ! ?p, ?p := ?g ! i] = h[i := h ! ?p, ?p := elem]"
      using p "1.prems" by simp
    have "mset (heap_elems (h[i := h ! ?p, ?p := elem]) n) = mset (heap_elems ?g n)"
      using mset_heap_swap [of i n ?p ?g] p "1.prems" unfolding sw by simp
    then show ?thesis using "1.IH" [OF True p(1,2)] "1.prems"(3) True
      by (simp add: pq_sift_up.simps [of cmp h i elem])
  qed (auto simp: pq_sift_up.simps [of cmp h i elem])
qed

section \<open>The heap order\<close>

text \<open>What a comparison has to satisfy: the two directions agree, and the order is transitive.\<close>

locale pq_order =
  fixes cmp :: "'a \<Rightarrow> 'a \<Rightarrow> int"
  assumes cmp_sym: "cmp a b > 0 \<longleftrightarrow> cmp b a < 0"
    and cmp_trans: "cmp a b \<le> 0 \<Longrightarrow> cmp b c \<le> 0 \<Longrightarrow> cmp a c \<le> 0"
begin

lemma cmp_refl: "cmp a a \<le> 0"
  using cmp_sym [of a a] by linarith

lemma cmp_total: "\<not> cmp a b > 0 \<Longrightarrow> cmp a b \<le> 0" "cmp a b < 0 \<Longrightarrow> cmp b a > 0" "cmp a b > 0 \<Longrightarrow> cmp b a \<le> 0"
  using cmp_sym [of a b] cmp_sym [of b a] by linarith+

text \<open>Element \<open>j\<close> is not before its parent.\<close>

definition below :: "'a list \<Rightarrow> nat \<Rightarrow> bool" where
  "below h j \<longleftrightarrow> cmp (h ! j) (h ! pq_parent j) \<le> 0"

definition is_heap :: "'a list \<Rightarrow> nat \<Rightarrow> bool" where
  "is_heap h n \<longleftrightarrow> (\<forall>j. 2 \<le> j \<longrightarrow> j \<le> n \<longrightarrow> below h j)"

text \<open>Everything is in order but the children of \<open>i\<close>, which are in order with its parent.\<close>

definition heap_but_children :: "'a list \<Rightarrow> nat \<Rightarrow> nat \<Rightarrow> bool" where
  "heap_but_children h n i \<longleftrightarrow> (\<forall>j. 2 \<le> j \<longrightarrow> j \<le> n \<longrightarrow>
     (if pq_parent j = i then 2 \<le> i \<longrightarrow> cmp (h ! j) (h ! pq_parent i) \<le> 0 else below h j))"

lemma parent_children: "1 \<le> i \<Longrightarrow> pq_parent j = i \<longleftrightarrow> j = pq_left i \<or> j = pq_right i"
  by (auto simp: pq_parent_def pq_left_def pq_right_def)

lemma largest_top:
  assumes "j = pq_left i \<or> (j = pq_right i \<and> j \<le> n) \<or> j = i"
  shows "cmp (h ! j) (h ! pq_largest cmp n h i) \<le> 0"
proof -
  let ?m = "if cmp (h ! pq_left i) (h ! i) > 0 then pq_left i else i"
  have m: "cmp (h ! pq_left i) (h ! ?m) \<le> 0" "cmp (h ! i) (h ! ?m) \<le> 0"
    using cmp_refl cmp_total by (auto simp: not_less)
  show ?thesis
  proof (cases "pq_right i \<le> n \<and> cmp (h ! pq_right i) (h ! ?m) > 0")
    case True
    then have "pq_largest cmp n h i = pq_right i" by (simp add: pq_largest_def Let_def)
    moreover have "cmp (h ! ?m) (h ! pq_right i) \<le> 0" using True cmp_total(3) by blast
    ultimately show ?thesis using assms m cmp_trans cmp_refl by metis
  next
    case False
    then have "pq_largest cmp n h i = ?m" unfolding pq_largest_def Let_def by (rule if_not_P)
    then show ?thesis using assms m False by (elim disjE conjE) (simp_all only: not_less simp_thms)
  qed
qed

lemma heapify_heap:
  "1 \<le> i \<Longrightarrow> n < length h \<Longrightarrow> heap_but_children h n i \<Longrightarrow> is_heap (pq_heapify cmp n h i) n"
proof (induction "Suc n - i" arbitrary: h i rule: less_induct)
  case less
  let ?l = "pq_largest cmp n h i"
  show ?case
  proof (cases "pq_left i \<le> n")
    case False
    then have "\<not> (2 \<le> j \<and> j \<le> n \<and> pq_parent j = i)" for j
      using parent_children [OF less.prems(1)] by (auto simp: pq_left_def pq_right_def)
    then have "is_heap h n" using less.prems(3) by (auto simp: is_heap_def heap_but_children_def)
    then show ?thesis using False by (simp add: pq_heapify.simps [of cmp n h i])
  next
    case True
    note left = True
    then have i: "i \<le> n" by (simp add: pq_left_def)
    show ?thesis
    proof (cases "?l = i")
      case True
      have "below h j" if "2 \<le> j" "j \<le> n" for j
      proof (cases "pq_parent j = i")
        case c: True
        then have "cmp (h ! j) (h ! ?l) \<le> 0"
          using parent_children [OF less.prems(1)] that by (intro largest_top) auto
        then show ?thesis using c True by (simp add: below_def)
      next
        case False
        then show ?thesis using less.prems(3) that by (auto simp: heap_but_children_def)
      qed
      then show ?thesis using True by (simp add: pq_heapify.simps [of cmp n h i] is_heap_def)
    next
      case False
      have l: "i < ?l" "?l \<le> n" "pq_parent ?l = i"
        using pq_largest_gt [OF False] pq_largest_le [OF left i] pq_largest_cases [of cmp n h i] False
        by (auto simp: pq_parent_def pq_left_def pq_right_def)
      let ?g = "h[i := h ! ?l, ?l := h ! i]"
      have at: "?g ! i = h ! ?l" "?g ! ?l = h ! i" "\<And>j. j \<noteq> i \<Longrightarrow> j \<noteq> ?l \<Longrightarrow> ?g ! j = h ! j"
        using l less.prems(2) i by (auto simp: nth_list_update)
      have "heap_but_children ?g n ?l"
        unfolding heap_but_children_def
      proof (intro allI impI)
        fix j assume j: "2 \<le> j" "j \<le> n"
        consider (below_l) "pq_parent j = ?l" | (child) "pq_parent j = i" | (self) "j = i" | (other) "pq_parent j \<noteq> ?l" "pq_parent j \<noteq> i" "j \<noteq> i"
          by blast
        then show "if pq_parent j = ?l then 2 \<le> ?l \<longrightarrow> cmp (?g ! j) (?g ! pq_parent ?l) \<le> 0 else below ?g j"
        proof cases
          case below_l
          then have "j \<noteq> i" "j \<noteq> ?l" "pq_parent j \<noteq> i" using l j by (auto simp: pq_parent_def)
          then have "below h j" using less.prems(3) j by (auto simp: heap_but_children_def)
          then show ?thesis using below_l l(3) at \<open>j \<noteq> i\<close> \<open>j \<noteq> ?l\<close> by (simp add: below_def)
        next
          case child
          then have "j \<noteq> i" "pq_parent j \<noteq> ?l" using j l(1) less.prems(1) by (auto simp: pq_parent_def)
          moreover have "cmp (h ! j) (h ! ?l) \<le> 0"
            using parent_children [OF less.prems(1)] child j by (intro largest_top) auto
          moreover have "cmp (h ! i) (h ! ?l) \<le> 0" by (rule largest_top) simp
          ultimately show ?thesis using child at by (cases "j = ?l") (simp_all add: below_def)
        next
          case self
          then have "pq_parent i \<noteq> i" "pq_parent i \<noteq> ?l" "2 \<le> i" using l(1) j less.prems(1) by (auto simp: pq_parent_def)
          moreover have "cmp (h ! ?l) (h ! pq_parent i) \<le> 0"
            using less.prems(3) l \<open>2 \<le> i\<close> by (auto simp: heap_but_children_def dest: spec [of _ ?l])
          ultimately show ?thesis using self at by (simp add: below_def)
        next
          case other
          then have "j \<noteq> ?l" using l(3) by auto
          moreover have "below h j" using less.prems(3) j other by (auto simp: heap_but_children_def)
          ultimately show ?thesis using other at by (simp add: below_def)
        qed
      qed
      moreover have "1 \<le> ?l" "n < length ?g" using l less.prems by auto
      ultimately have "is_heap (pq_heapify cmp n ?g ?l) n" using less.hyps [of ?l ?g] l i by simp
      then show ?thesis using left False by (simp add: pq_heapify.simps [of cmp n h i] Let_def)
    qed
  qed
qed

text \<open>Everything is in order but \<open>i\<close> itself, whose children are in order with its parent.\<close>

definition heap_but :: "'a list \<Rightarrow> nat \<Rightarrow> nat \<Rightarrow> bool" where
  "heap_but h n i \<longleftrightarrow> (\<forall>j. 2 \<le> j \<longrightarrow> j \<le> n \<longrightarrow> j \<noteq> i \<longrightarrow>
     below h j \<and> (pq_parent j = i \<longrightarrow> 2 \<le> i \<longrightarrow> cmp (h ! j) (h ! pq_parent i) \<le> 0))"

lemma sift_up_heap:
  "1 \<le> i \<Longrightarrow> i \<le> n \<Longrightarrow> n < length h \<Longrightarrow> heap_but (h[i := elem]) n i \<Longrightarrow> is_heap (pq_sift_up cmp h i elem) n"
proof (induction i arbitrary: h rule: less_induct)
  case (less i)
  let ?p = "pq_parent i" and ?h = "h[i := elem]"
  have hi: "?h ! i = elem" "\<And>j. j \<noteq> i \<Longrightarrow> ?h ! j = h ! j" using less.prems by simp_all
  show ?case
  proof (cases "1 < i \<and> cmp (h ! ?p) elem < 0")
    case True
    have p: "1 \<le> ?p" "?p < i" "?p \<le> n" using True less.prems(2) by (auto simp: pq_parent_def)
    let ?h1 = "h[i := h ! ?p]" and ?g = "h[i := h ! ?p, ?p := elem]"
    have at: "?g ! ?p = elem" "?g ! i = h ! ?p" "\<And>j. j \<noteq> i \<Longrightarrow> j \<noteq> ?p \<Longrightarrow> ?g ! j = h ! j"
      using p less.prems by (auto simp: nth_list_update)
    have lt: "cmp (h ! ?p) elem \<le> 0" using True by simp
    have "heap_but ?g n ?p"
      unfolding heap_but_def
    proof (intro allI impI)
      fix j assume j: "2 \<le> j" "j \<le> n" "j \<noteq> ?p"
      have old: "j \<noteq> i \<Longrightarrow> below ?h j" using less.prems(4) j by (simp add: heap_but_def)
      have pp: "2 \<le> ?p \<Longrightarrow> cmp (h ! ?p) (h ! pq_parent ?p) \<le> 0"
      proof -
        assume "2 \<le> ?p"
        then have "below ?h ?p" using less.prems(4) p by (simp add: heap_but_def)
        moreover have "pq_parent ?p \<noteq> i" "?p \<noteq> i" using p(2) by (auto simp: pq_parent_def)
        ultimately show ?thesis using hi by (simp add: below_def)
      qed
      show "below ?g j \<and> (pq_parent j = ?p \<longrightarrow> 2 \<le> ?p \<longrightarrow> cmp (?g ! j) (?g ! pq_parent ?p) \<le> 0)"
      proof (cases "j = i")
        case True
        have "?p \<noteq> i" using p(2) by simp
        have "2 \<le> ?p \<Longrightarrow> ?g ! pq_parent ?p = h ! pq_parent ?p"
          using p(2) by (intro at(3)) (auto simp: pq_parent_def)
        with pp lt True at(1,2) show ?thesis by (simp add: below_def)
      next
        case False
        note ji = False
        have gj: "?g ! j = h ! j" using j ji at(3) by blast
        show ?thesis
        proof (cases "pq_parent j = i")
          case True
          then have "cmp (h ! j) (h ! ?p) \<le> 0"
            using less.prems(4) j ji True p hi \<open>1 < i \<and> cmp (h ! ?p) elem < 0\<close> by (auto simp: heap_but_def)
          then show ?thesis using True gj at(2) p(2) by (simp add: below_def)
        next
          case False
          then have bj: "cmp (h ! j) (h ! pq_parent j) \<le> 0" using old [OF ji] hi ji by (simp add: below_def)
          have "below ?g j"
          proof (cases "pq_parent j = ?p")
            case True
            then show ?thesis using bj lt gj at(1) cmp_trans by (auto simp: below_def)
          next
            case c: False
            then show ?thesis using bj gj at(3) [OF False c] by (simp add: below_def)
          qed
          moreover have "cmp (?g ! j) (?g ! pq_parent ?p) \<le> 0" if "pq_parent j = ?p" "2 \<le> ?p"
          proof -
            have "?g ! pq_parent ?p = h ! pq_parent ?p"
              using p(2) that(2) by (intro at(3)) (auto simp: pq_parent_def)
            then show ?thesis using bj pp [OF that(2)] that(1) gj cmp_trans by simp
          qed
          ultimately show ?thesis by blast
        qed
      qed
    qed
    then have "is_heap (pq_sift_up cmp ?h1 ?p elem) n"
      using less.IH [OF p(2) p(1) p(3), of ?h1] less.prems(3) by simp
    then show ?thesis using True by (simp add: pq_sift_up.simps [of cmp h i])
  next
    case False
    have "below ?h j" if "2 \<le> j" "j \<le> n" for j
    proof (cases "j = i")
      case True
      then have "\<not> cmp (h ! ?p) elem < 0" "?p \<noteq> i" using False that by (auto simp: pq_parent_def)
      then have "cmp elem (h ! ?p) \<le> 0" using cmp_sym [of elem "h ! ?p"] by linarith
      then show ?thesis using True hi \<open>?p \<noteq> i\<close> by (simp add: below_def)
    next
      case j: False
      then show ?thesis using less.prems(4) that by (simp add: heap_but_def)
    qed
    moreover have "pq_sift_up cmp h i elem = ?h" using False by (auto simp: pq_sift_up.simps [of cmp h i])
    ultimately show ?thesis by (simp add: is_heap_def)
  qed
qed

lemma heap_top_max:
  assumes "is_heap h n" and "1 \<le> j" and "j \<le> n"
  shows "cmp (h ! j) (h ! 1) \<le> 0"
  using assms(2,3)
proof (induction j rule: less_induct)
  case (less j)
  show ?case
  proof (cases "j = 1")
    case False
    then have "2 \<le> j" using less.prems by simp
    then have "below h j" using assms(1) less.prems by (simp add: is_heap_def)
    moreover have "cmp (h ! pq_parent j) (h ! 1) \<le> 0"
      using less.IH [of "pq_parent j"] less.prems \<open>2 \<le> j\<close> by (simp add: pq_parent_def)
    ultimately show ?thesis using cmp_trans by (simp add: below_def)
  qed (simp add: cmp_refl)
qed

text \<open>The invariant of the queue.\<close>

definition pq_inv :: "'a sc_ppq \<Rightarrow> bool" where
  "pq_inv q \<longleftrightarrow> pq_space q \<and> is_heap (m_heap q) (m_heap_size q)"

lemma new_inv: "pq_inv (sc_ppq_new null sz) \<and> pq_elems (sc_ppq_new null sz) = {#}"
  by (auto simp: pq_inv_def pq_space_def sc_ppq_new_def Let_def is_heap_def pq_elems_def heap_elems_def)

lemma resize_heap:
  assumes "pq_space q" and "q1 = q\<lparr>m_heap_size := m_heap_size q + 1\<rparr>"
    and "q2 = (if m_heap_size q1 > m_size_alloc q1 then pq_resize null q1 else q1)"
  shows "pq_space q2 \<and> m_heap_size q2 = Suc (m_heap_size q) \<and>
    (\<forall>j. 1 \<le> j \<longrightarrow> j \<le> m_heap_size q \<longrightarrow> m_heap q2 ! j = m_heap q ! j)"
  using assms(1) by (auto simp: assms(2,3) pq_space_def pq_resize_def Let_def simp del: upt_Suc)

lemma insert_inv:
  assumes "pq_inv q"
  shows "pq_inv (pq_insert null cmp x q) \<and> pq_elems (pq_insert null cmp x q) = add_mset x (pq_elems q)"
proof -
  let ?q1 = "q\<lparr>m_heap_size := m_heap_size q + 1\<rparr>" and ?n = "Suc (m_heap_size q)"
  let ?q2 = "if m_heap_size ?q1 > m_size_alloc ?q1 then pq_resize null ?q1 else ?q1"
  let ?r = "pq_sift_up cmp (m_heap ?q2) ?n x"
  have q2: "pq_space ?q2" "m_heap_size ?q2 = ?n" "\<And>j. 1 \<le> j \<Longrightarrow> j \<le> m_heap_size q \<Longrightarrow> m_heap ?q2 ! j = m_heap q ! j"
    using resize_heap [of q ?q1 ?q2 null, OF _ refl refl] assms by (simp_all add: pq_inv_def)
  have len: "?n < length (m_heap ?q2)" using q2(1,2) by (simp add: pq_space_def)
  have sp: "m_heap_size q < length (m_heap q)" using assms by (simp add: pq_inv_def pq_space_def)
  have ins: "pq_insert null cmp x q = ?q2\<lparr>m_heap := ?r\<rparr>"
    unfolding pq_insert_def Let_def q2(2) by (rule refl)
  have "heap_but ((m_heap ?q2)[?n := x]) ?n ?n"
    unfolding heap_but_def
  proof (intro allI impI)
    fix j assume j: "2 \<le> j" "j \<le> ?n" "j \<noteq> ?n"
    then have "below (m_heap q) j" using assms by (simp add: pq_inv_def is_heap_def)
    moreover have "pq_parent j < ?n" "1 \<le> pq_parent j" "pq_parent j \<le> m_heap_size q" using j by (auto simp: pq_parent_def)
    ultimately show "below ((m_heap ?q2)[?n := x]) j \<and>
        (pq_parent j = ?n \<longrightarrow> 2 \<le> ?n \<longrightarrow> cmp ((m_heap ?q2)[?n := x] ! j) ((m_heap ?q2)[?n := x] ! pq_parent ?n) \<le> 0)"
      using q2(3) [of j] q2(3) [of "pq_parent j"] j by (simp add: below_def)
  qed
  then have heap: "is_heap ?r ?n" by (intro sift_up_heap) (use len in simp_all)
  have ms: "length ?r = length (m_heap ?q2)" "mset (heap_elems ?r ?n) = mset (heap_elems ((m_heap ?q2)[?n := x]) ?n)"
    using pq_sift_up_mset [of ?n ?n "m_heap ?q2" cmp x] len by simp_all
  have "heap_elems ((m_heap ?q2)[?n := x]) ?n = heap_elems (m_heap q) (m_heap_size q) @ [x]"
  proof (rule nth_equalityI)
    show "length (heap_elems ((m_heap ?q2)[?n := x]) ?n) = length (heap_elems (m_heap q) (m_heap_size q) @ [x])"
      using len sp by simp
    fix k assume "k < length (heap_elems ((m_heap ?q2)[?n := x]) ?n)"
    then have k: "k < ?n" using len by simp
    show "heap_elems ((m_heap ?q2)[?n := x]) ?n ! k = (heap_elems (m_heap q) (m_heap_size q) @ [x]) ! k"
      using k len sp q2(3) [of "Suc k"] by (cases "k = m_heap_size q") (auto simp: nth_heap_elems nth_append)
  qed
  then have "pq_elems (?q2\<lparr>m_heap := ?r\<rparr>) = add_mset x (pq_elems q)"
    using ms(2) q2(2) by (simp add: pq_elems_def)
  moreover have "pq_inv (?q2\<lparr>m_heap := ?r\<rparr>)"
    using q2(1,2) heap ms(1) by (simp add: pq_inv_def pq_space_def)
  ultimately show ?thesis unfolding ins by blast
qed

lemma extract_inv:
  assumes "pq_inv q" and "m_heap_size q > 0"
  shows "\<exists>q'. pq_extract_top cmp q = Inr (pq_top q, q') \<and> pq_inv q' \<and> pq_elems q = add_mset (pq_top q) (pq_elems q') \<and>
    (\<forall>x \<in># pq_elems q. cmp x (pq_top q) \<le> 0)"
proof -
  let ?h = "m_heap q" and ?n = "m_heap_size q - 1"
  let ?g = "?h[1 := ?h ! m_heap_size q]"
  let ?q' = "q\<lparr>m_heap := pq_heapify cmp ?n ?g 1, m_heap_size := ?n\<rparr>"
  have n: "m_heap_size q = Suc ?n" using assms(2) by simp
  have len: "m_heap_size q < length ?h" using assms(1) by (simp add: pq_inv_def pq_space_def)
  have "heap_but_children ?g ?n 1"
    unfolding heap_but_children_def
  proof (intro allI impI)
    fix j assume j: "2 \<le> j" "j \<le> ?n"
    then have "below ?h j" using assms(1) by (simp add: pq_inv_def is_heap_def)
    then show "if pq_parent j = 1 then 2 \<le> (1 :: nat) \<longrightarrow> cmp (?g ! j) (?g ! pq_parent 1) \<le> 0 else below ?g j"
      using j by (auto simp: below_def pq_parent_def)
  qed
  then have heap: "is_heap (pq_heapify cmp ?n ?g 1) ?n" by (intro heapify_heap) (use len in simp_all)
  have ms: "length (pq_heapify cmp ?n ?g 1) = length ?h" "mset (heap_elems (pq_heapify cmp ?n ?g 1) ?n) = mset (heap_elems ?g ?n)"
    using pq_heapify_mset [of 1 ?n ?g cmp] len by simp_all
  have inv: "pq_inv ?q'" using assms(1) heap ms(1) by (auto simp: pq_inv_def pq_space_def)
  have "mset (heap_elems ?h (Suc ?n)) = add_mset (?h ! 1) (mset (heap_elems ?g ?n))"
  proof (cases "?n = 0")
    case True
    then show ?thesis using len assms(2) by (cases ?h; cases "tl ?h") (auto simp: heap_elems_def)
  next
    case False
    have "heap_elems ?h (Suc ?n) = heap_elems ?h ?n @ [?h ! Suc ?n]"
      using len n by (simp add: heap_elems_def take_Suc_conv_app_nth)
    moreover have "heap_elems ?g ?n = (heap_elems ?h ?n)[0 := ?h ! Suc ?n]"
      using heap_elems_update [of 1 ?n ?h "?h ! m_heap_size q"] False n by simp
    moreover have "heap_elems ?h ?n ! 0 = ?h ! 1" using nth_heap_elems [of 0 ?n ?h] False len by simp
    moreover have "0 < length (heap_elems ?h ?n)" using False len by simp
    moreover from this have "heap_elems ?h ?n ! 0 \<in># mset (heap_elems ?h ?n)" using nth_mem by fastforce
    ultimately show ?thesis by (simp add: mset_update)
  qed
  then have "pq_elems q = add_mset (pq_top q) (pq_elems ?q')"
    using n ms(2) by (simp add: pq_elems_def pq_top_def)
  moreover have "cmp x (pq_top q) \<le> 0" if "x \<in># pq_elems q" for x
  proof -
    from that obtain k where "k < m_heap_size q" "x = heap_elems ?h (m_heap_size q) ! k"
      using len by (auto simp: pq_elems_def in_set_conv_nth)
    then show ?thesis
      using heap_top_max [of ?h "m_heap_size q" "Suc k"] assms(1) len by (simp add: nth_heap_elems pq_top_def pq_inv_def)
  qed
  moreover have "pq_extract_top cmp q = Inr (pq_top q, ?q')" using assms(2) by (simp add: pq_extract_top_def pq_top_def Let_def)
  ultimately show ?thesis using inv by blast
qed

end

end
