(* ===== verification/Sc_Runnable.thy ===== *)
theory Sc_Runnable
  imports Prelude
begin

text \<open>
  \<open>sysc/kernel/sc_runnable.h\<close> and \<open>sc_runnable_int.h\<close>: the queues of the processes that are
  ready to run.  The source chains the process objects through their member \<open>m_runnable_p\<close>; a
  process that is in no queue has the null pointer there, the last one of a queue the address
  \<open>0xdb\<close>.  The methods and the threads have a push queue (what is made ready for the next
  evaluation) and a pop queue (what is being evaluated) each.  The model keeps the pointers;
  the second part refines them to two lists.
\<close>

section \<open>The pointers\<close>

text \<open>A value of the type \<open>sc_method_handle\<close> or \<open>sc_thread_handle\<close>: the null pointer, the mark
  \<open>SC_NO_METHODS\<close> (\<open>SC_NO_THREADS\<close>), or a process object.\<close>

datatype handle = Null | No_Procs | At nat

definition deref :: "handle \<Rightarrow> nat res" where
  "deref h = (case h of At p \<Rightarrow> Inr p | _ \<Rightarrow> Inl NullPointer)"

lemma deref_At [simp]: "deref (At p) = Inr p"
  by (simp add: deref_def)

text \<open>One pair of queues and the member \<open>m_runnable_p\<close> of every process object.\<close>

record run_queue =
  push_head :: handle
  push_tail :: handle
  pop_head :: handle
  next_runnable :: "nat \<Rightarrow> handle"

definition set_next_runnable :: "handle \<Rightarrow> handle \<Rightarrow> run_queue \<Rightarrow> run_queue res" where
  "set_next_runnable h n q = rbind (deref h) (\<lambda>p. Inr (q\<lparr>next_runnable := (next_runnable q)(p := n)\<rparr>))"

definition get_next_runnable :: "handle \<Rightarrow> run_queue \<Rightarrow> handle res" where
  "get_next_runnable h q = rbind (deref h) (\<lambda>p. Inr (next_runnable q p))"

lemma next_At [simp]:
  "set_next_runnable (At p) n q = Inr (q\<lparr>next_runnable := (next_runnable q)(p := n)\<rparr>)"
  "get_next_runnable (At p) q = Inr (next_runnable q p)"
  by (simp_all add: set_next_runnable_def get_next_runnable_def)

section \<open>The operations\<close>

text \<open>The constructor, and \<open>init\<close>, which is given the object it allocates for the head.\<close>

definition run_queue_new :: run_queue where
  "run_queue_new = \<lparr>push_head = Null, push_tail = Null, pop_head = No_Procs, next_runnable = (\<lambda>_. Null)\<rparr>"

definition rq_init :: "nat \<Rightarrow> run_queue \<Rightarrow> run_queue res" where
  "rq_init new q =
     (let h = (if push_head q = Null then At new else push_head q)
      in set_next_runnable h No_Procs (q\<lparr>push_head := h, push_tail := h, pop_head := No_Procs\<rparr>))"

definition rq_execute_next :: "nat \<Rightarrow> run_queue \<Rightarrow> run_queue" where
  "rq_execute_next p q = q\<lparr>next_runnable := (next_runnable q)(p := pop_head q), pop_head := At p\<rparr>"

definition rq_is_empty :: "run_queue \<Rightarrow> bool res" where
  "rq_is_empty q = rbind (get_next_runnable (push_head q) q) (\<lambda>n. Inr (n = No_Procs \<and> pop_head q = No_Procs))"

definition rq_push_back :: "nat \<Rightarrow> run_queue \<Rightarrow> run_queue res" where
  "rq_push_back p q =
     rbind (set_next_runnable (push_tail q) (At p) (q\<lparr>next_runnable := (next_runnable q)(p := No_Procs)\<rparr>))
       (\<lambda>q. Inr (q\<lparr>push_tail := At p\<rparr>))"

definition rq_push_front :: "nat \<Rightarrow> run_queue \<Rightarrow> run_queue res" where
  "rq_push_front p q =
     rbind (get_next_runnable (push_head q) q) (\<lambda>n.
       let q1 = q\<lparr>next_runnable := (next_runnable q)(p := n)\<rparr>
       in if push_tail q1 = push_head q1
          then rbind (set_next_runnable (push_tail q1) (At p) q1) (\<lambda>q2. Inr (q2\<lparr>push_tail := At p\<rparr>))
          else set_next_runnable (push_head q1) (At p) q1)"

definition rq_pop :: "run_queue \<Rightarrow> (nat option \<times> run_queue) res" where
  "rq_pop q =
     (if pop_head q \<noteq> No_Procs
      then rbind (deref (pop_head q)) (\<lambda>p.
        Inr (Some p, q\<lparr>pop_head := next_runnable q p, next_runnable := (next_runnable q)(p := Null)\<rparr>))
      else Inr (None, q))"

definition rq_toggle :: "run_queue \<Rightarrow> run_queue res" where
  "rq_toggle q =
     (if pop_head q = No_Procs
      then rbind (get_next_runnable (push_head q) q) (\<lambda>n.
        rbind (set_next_runnable (push_head q) No_Procs (q\<lparr>pop_head := n\<rparr>)) (\<lambda>q1.
          Inr (q1\<lparr>push_tail := push_head q1\<rparr>)))
      else Inr q)"

text \<open>The two searches of \<open>remove_method\<close> and \<open>remove_thread\<close>.  A chain of pointers can be a
  cycle, so the loops have fuel; the bound is the number of process objects, and a chain that is
  longer visits one twice.\<close>

fun rq_search :: "nat \<Rightarrow> nat \<Rightarrow> handle \<Rightarrow> handle \<Rightarrow> run_queue \<Rightarrow> (handle option) option res" where
  "rq_search fuel p prior now q =
     (if now = No_Procs then Inr (Some None)
      else if now = At p then Inr (Some (Some prior))
      else case fuel of 0 \<Rightarrow> Inr None
        | Suc k \<Rightarrow> rbind (get_next_runnable now q) (\<lambda>n. rq_search k p now n q))"

declare rq_search.simps [simp del]

definition rq_remove :: "nat \<Rightarrow> nat \<Rightarrow> run_queue \<Rightarrow> run_queue option res" where
  "rq_remove fuel p q =
     (if push_head q = Null then Inr (Some q)
      else rbind (rq_search fuel p (push_head q) (push_head q) q) (\<lambda>found. case found of
        None \<Rightarrow> Inr None
      | Some (Some prior) \<Rightarrow>
          rbind (set_next_runnable prior (next_runnable q p) q) (\<lambda>q1.
            let q2 = (if At p = push_tail q1 then q1\<lparr>push_tail := prior\<rparr> else q1)
            in Inr (Some (q2\<lparr>next_runnable := (next_runnable q2)(p := Null)\<rparr>)))
      | Some None \<Rightarrow>
          rbind (rq_search fuel p Null (pop_head q) q) (\<lambda>found. case found of
            None \<Rightarrow> Inr None
          | Some None \<Rightarrow> Inr (Some q)
          | Some (Some prior) \<Rightarrow>
              rbind (if prior \<noteq> Null then set_next_runnable prior (next_runnable q p) q
                     else Inr (q\<lparr>pop_head := next_runnable q p\<rparr>)) (\<lambda>q1.
                Inr (Some (q1\<lparr>next_runnable := (next_runnable q1)(p := Null)\<rparr>))))))"

section \<open>The class\<close>

record sc_runnable =
  m_methods :: run_queue
  m_threads :: run_queue

definition sc_runnable_new :: sc_runnable where
  "sc_runnable_new = \<lparr>m_methods = run_queue_new, m_threads = run_queue_new\<rparr>"

definition on_methods :: "(run_queue \<Rightarrow> run_queue res) \<Rightarrow> sc_runnable \<Rightarrow> sc_runnable res" where
  "on_methods f r = rbind (f (m_methods r)) (\<lambda>q. Inr (r\<lparr>m_methods := q\<rparr>))"

definition on_threads :: "(run_queue \<Rightarrow> run_queue res) \<Rightarrow> sc_runnable \<Rightarrow> sc_runnable res" where
  "on_threads f r = rbind (f (m_threads r)) (\<lambda>q. Inr (r\<lparr>m_threads := q\<rparr>))"

definition runnable_init :: "nat \<Rightarrow> nat \<Rightarrow> sc_runnable \<Rightarrow> sc_runnable res" where
  "runnable_init new_m new_t r = rbind (on_methods (rq_init new_m) r) (on_threads (rq_init new_t))"

definition runnable_is_empty :: "sc_runnable \<Rightarrow> bool res" where
  "runnable_is_empty r =
     rbind (rq_is_empty (m_methods r)) (\<lambda>a. if \<not> a then Inr False else rq_is_empty (m_threads r))"

definition runnable_is_initialized :: "sc_runnable \<Rightarrow> bool" where
  "runnable_is_initialized r \<longleftrightarrow> push_head (m_methods r) \<noteq> Null \<and> push_head (m_threads r) \<noteq> Null"

definition execute_method_next :: "nat \<Rightarrow> sc_runnable \<Rightarrow> sc_runnable" where
  "execute_method_next p r = r\<lparr>m_methods := rq_execute_next p (m_methods r)\<rparr>"

definition execute_thread_next :: "nat \<Rightarrow> sc_runnable \<Rightarrow> sc_runnable" where
  "execute_thread_next p r = r\<lparr>m_threads := rq_execute_next p (m_threads r)\<rparr>"

definition push_back_method :: "nat \<Rightarrow> sc_runnable \<Rightarrow> sc_runnable res" where
  "push_back_method p = on_methods (rq_push_back p)"

definition push_back_thread :: "nat \<Rightarrow> sc_runnable \<Rightarrow> sc_runnable res" where
  "push_back_thread p = on_threads (rq_push_back p)"

definition push_front_method :: "nat \<Rightarrow> sc_runnable \<Rightarrow> sc_runnable res" where
  "push_front_method p = on_methods (rq_push_front p)"

definition push_front_thread :: "nat \<Rightarrow> sc_runnable \<Rightarrow> sc_runnable res" where
  "push_front_thread p = on_threads (rq_push_front p)"

definition pop_method :: "sc_runnable \<Rightarrow> (nat option \<times> sc_runnable) res" where
  "pop_method r = rbind (rq_pop (m_methods r)) (\<lambda>(p, q). Inr (p, r\<lparr>m_methods := q\<rparr>))"

definition pop_thread :: "sc_runnable \<Rightarrow> (nat option \<times> sc_runnable) res" where
  "pop_thread r = rbind (rq_pop (m_threads r)) (\<lambda>(p, q). Inr (p, r\<lparr>m_threads := q\<rparr>))"

definition toggle_methods :: "sc_runnable \<Rightarrow> sc_runnable res" where
  "toggle_methods = on_methods rq_toggle"

definition toggle_threads :: "sc_runnable \<Rightarrow> sc_runnable res" where
  "toggle_threads = on_threads rq_toggle"

definition remove_method :: "nat \<Rightarrow> nat \<Rightarrow> sc_runnable \<Rightarrow> sc_runnable option res" where
  "remove_method fuel p r =
     (if \<not> runnable_is_initialized r then Inr (Some r)
      else rbind (rq_remove fuel p (m_methods r)) (\<lambda>q. Inr (map_option (\<lambda>q. r\<lparr>m_methods := q\<rparr>) q)))"

definition remove_thread :: "nat \<Rightarrow> nat \<Rightarrow> sc_runnable \<Rightarrow> sc_runnable option res" where
  "remove_thread fuel p r =
     (if \<not> runnable_is_initialized r then Inr (Some r)
      else rbind (rq_remove fuel p (m_threads r)) (\<lambda>q. Inr (map_option (\<lambda>q. r\<lparr>m_threads := q\<rparr>) q)))"

section \<open>Refinement to lists\<close>

text \<open>The objects on the way from the pointer \<open>h\<close> to the pointer \<open>k\<close>.\<close>

fun lseg :: "(nat \<Rightarrow> handle) \<Rightarrow> handle \<Rightarrow> nat list \<Rightarrow> handle \<Rightarrow> bool" where
  "lseg nx h [] k \<longleftrightarrow> h = k"
| "lseg nx h (p # ps) k \<longleftrightarrow> h = At p \<and> lseg nx (nx p) ps k"

lemma lseg_upd [simp]: "p \<notin> set ps \<Longrightarrow> lseg (nx(p := n)) h ps k = lseg nx h ps k"
  by (induction ps arbitrary: h) auto

lemma lseg_append [simp]: "lseg nx h (ps @ qs) k \<longleftrightarrow> (\<exists>m. lseg nx h ps m \<and> lseg nx m qs k)"
  by (induction ps arbitrary: h) auto

lemma lseg_snoc_upd:
  "lseg nx h ps k \<Longrightarrow> distinct ps \<Longrightarrow> ps \<noteq> [] \<Longrightarrow> lseg (nx(last ps := n)) h ps n"
proof (induction ps arbitrary: h)
  case (Cons p ps)
  then show ?case by (cases "ps = []") auto
qed simp

text \<open>The queue with the head object \<open>h\<close> holds \<open>push\<close> and \<open>pop\<close>: no object is chained twice, and
  exactly the objects that are in no queue have the null pointer.\<close>

definition rq_lists :: "run_queue \<Rightarrow> nat \<Rightarrow> nat list \<Rightarrow> nat list \<Rightarrow> bool" where
  "rq_lists q h push pop \<longleftrightarrow> push_head q = At h \<and> push_tail q = At (last (h # push)) \<and>
     lseg (next_runnable q) (At h) (h # push) No_Procs \<and> lseg (next_runnable q) (pop_head q) pop No_Procs \<and>
     distinct (h # push @ pop) \<and> (\<forall>p. next_runnable q p = Null \<longleftrightarrow> p \<notin> set (h # push @ pop))"

lemma rq_queued: "rq_lists q h push pop \<Longrightarrow> next_runnable q p = Null \<longleftrightarrow> p \<notin> set (h # push @ pop)"
  by (simp add: rq_lists_def)

lemma lseg_upd2: "p \<notin> set ps \<Longrightarrow> r \<notin> set ps \<Longrightarrow> lseg nx h ps k \<Longrightarrow> lseg (nx(r := m, p := n)) h ps k"
  by simp

lemma rq_null_upd:
  assumes "\<forall>x. nx x = Null \<longleftrightarrow> x \<notin> A" and "l \<in> A" and "l \<noteq> p" and "n \<noteq> Null" and "p \<in> A"
  shows "\<forall>x. (nx(l := n, p := Null)) x = Null \<longleftrightarrow> x \<notin> A - {p}"
  using assms by auto

lemma rq_init_lists: "\<exists>q. rq_init new run_queue_new = Inr q \<and> rq_lists q new [] []"
  by (auto simp: rq_init_def run_queue_new_def Let_def rq_lists_def)

lemma rq_push_back_lists:
  assumes "rq_lists q h push pop" and "p \<notin> set (h # push @ pop)"
  shows "\<exists>q'. rq_push_back p q = Inr q' \<and> rq_lists q' h (push @ [p]) pop"
proof -
  let ?l = "last (h # push)"
  have l: "?l \<in> set (h # push)" "?l \<noteq> p" "?l \<notin> set pop"
    using assms last_in_set [of "h # push"] by (auto simp: rq_lists_def simp del: last.simps)
  let ?nx = "(next_runnable q)(p := No_Procs)"
  have "lseg ?nx (At h) (h # push) No_Procs" using assms by (simp add: rq_lists_def)
  then have "lseg (?nx(?l := At p)) (At h) (h # push) (At p)"
    using assms(1) by (intro lseg_snoc_upd) (auto simp: rq_lists_def)
  then have "lseg (?nx(?l := At p)) (At h) ((h # push) @ [p]) No_Procs"
    unfolding lseg_append using l(2) by auto
  then show ?thesis
    using assms l by (simp add: rq_push_back_def rq_lists_def del: last.simps) (use l(1) in auto)
qed

lemma rq_push_front_lists:
  assumes "rq_lists q h push pop" and "p \<notin> set (h # push @ pop)"
  shows "\<exists>q'. rq_push_front p q = Inr q' \<and> rq_lists q' h (p # push) pop"
proof (cases "push = []")
  case True
  then show ?thesis using assms by (auto simp: rq_push_front_def rq_lists_def Let_def)
next
  case False
  then have "last push \<noteq> h" using assms(1) last_in_set [OF False] by (auto simp: rq_lists_def)
  then show ?thesis using assms False by (auto simp: rq_push_front_def rq_lists_def Let_def)
qed

lemma rq_execute_next_lists:
  assumes "rq_lists q h push pop" and "p \<notin> set (h # push @ pop)"
  shows "rq_lists (rq_execute_next p q) h push (p # pop)"
proof -
  have "pop_head q \<noteq> Null" using assms(1) by (cases pop) (auto simp: rq_lists_def)
  then show ?thesis using assms by (auto simp: rq_execute_next_def rq_lists_def)
qed

lemma rq_pop_lists:
  assumes "rq_lists q h push pop"
  shows "\<exists>q'. rq_pop q = Inr (case pop of [] \<Rightarrow> None | p # _ \<Rightarrow> Some p, q') \<and> rq_lists q' h push (tl pop)"
  using assms by (cases pop) (auto simp: rq_pop_def rq_lists_def)

lemma rq_toggle_lists:
  assumes "rq_lists q h push pop"
  shows "\<exists>q'. rq_toggle q = Inr q' \<and> (if pop = [] then rq_lists q' h [] push else rq_lists q' h push pop)"
proof (cases pop)
  case Nil
  then show ?thesis using assms by (auto simp: rq_toggle_def rq_lists_def)
next
  case (Cons p ps)
  then have "pop_head q \<noteq> No_Procs" using assms by (simp add: rq_lists_def)
  then show ?thesis using assms Cons by (simp add: rq_toggle_def)
qed

lemma rq_is_empty_lists:
  assumes "rq_lists q h push pop"
  shows "rq_is_empty q = Inr (push = [] \<and> pop = [])"
  using assms by (cases push; cases pop) (auto simp: rq_is_empty_def rq_lists_def)

lemma rq_search_simps [simp]:
  "rq_search fuel p prior No_Procs q = Inr (Some None)"
  "rq_search fuel p prior (At p) q = Inr (Some (Some prior))"
  "x \<noteq> p \<Longrightarrow> rq_search (Suc k) p prior (At x) q = rq_search k p (At x) (next_runnable q x) q"
  by (simp_all add: rq_search.simps)

lemma rq_search_found:
  "lseg (next_runnable q) now (us @ p # vs) No_Procs \<Longrightarrow> p \<notin> set us \<Longrightarrow> length us \<le> fuel \<Longrightarrow>
     rq_search fuel p prior now q = Inr (Some (Some (if us = [] then prior else At (last us))))"
proof (induction us arbitrary: prior now fuel)
  case (Cons u us)
  then show ?case by (cases fuel) auto
qed simp

lemma rq_search_none:
  "lseg (next_runnable q) now xs No_Procs \<Longrightarrow> p \<notin> set xs \<Longrightarrow> length xs \<le> fuel \<Longrightarrow>
     rq_search fuel p prior now q = Inr (Some None)"
proof (induction xs arbitrary: prior now fuel)
  case (Cons x xs)
  then show ?case by (cases fuel) auto
qed simp

lemma lseg_unlink:
  assumes "lseg nx h (us @ p # vs) k" and "distinct (us @ p # vs)" and "us \<noteq> []"
  shows "lseg (nx(last us := nx p, p := Null)) h (us @ vs) k"
proof -
  obtain m where m: "lseg nx h us m" "m = At p" "lseg nx (nx p) vs k" using assms(1) by auto
  have "lseg (nx(last us := nx p)) h us (nx p)"
    using m(1) assms(2,3) by (intro lseg_snoc_upd) auto
  moreover have "last us \<noteq> p" "last us \<notin> set vs" "p \<notin> set us" "p \<notin> set vs"
    using assms(2) last_in_set [OF assms(3)] by auto
  ultimately show ?thesis using m(3) by auto
qed

lemma rq_remove_push:
  assumes "rq_lists q h push pop" and "p \<in> set push" and "length push \<le> fuel"
  shows "\<exists>q'. rq_remove fuel p q = Inr (Some q') \<and> rq_lists q' h (remove1 p push) pop"
proof -
  obtain us vs where push: "push = us @ p # vs" "p \<notin> set us" using split_list_first [OF assms(2)] by blast
  have dist: "distinct (h # push @ pop)" using assms(1) by (simp add: rq_lists_def)
  have seg: "lseg (next_runnable q) (At h) ((h # us) @ p # vs) No_Procs"
    using assms(1) by (auto simp: rq_lists_def push(1))
  have se: "rq_search fuel p (At h) (At h) q = Inr (Some (Some (At (last (h # us)))))"
    using rq_search_found [OF seg] push(2) assms(2,3) dist by (auto simp: push(1))
  let ?l = "last (h # us)"
  let ?nx = "(next_runnable q)(?l := next_runnable q p, p := Null)"
  have un: "lseg ?nx (At h) ((h # us) @ vs) No_Procs"
    using dist by (intro lseg_unlink [OF seg]) (auto simp: push(1))
  have l: "?l \<in> set (h # us)" by (rule last_in_set) simp
  then have l2: "?l \<noteq> p" "?l \<notin> set pop" "p \<noteq> h" "p \<notin> set pop" "p \<notin> set vs" using dist push by auto
  have tail: "At p = push_tail q \<longleftrightarrow> vs = []"
    using assms(1) dist last_in_set [of vs] by (auto simp: rq_lists_def push(1))
  have nn: "next_runnable q p \<noteq> Null" using assms(1,2) by (simp add: rq_lists_def)
  have rm: "remove1 p push = us @ vs" using push by (simp add: remove1_append)
  let ?q = "q\<lparr>push_tail := (if vs = [] then At ?l else push_tail q), next_runnable := ?nx\<rparr>"
  have head: "push_head q = At h" using assms(1) by (simp add: rq_lists_def)
  have "rq_remove fuel p q = Inr (Some ?q)"
    unfolding rq_remove_def head using se tail by (simp add: Let_def del: last.simps)
  moreover have sel: "next_runnable ?q = ?nx" by simp
  have "rq_lists ?q h (us @ vs) pop"
    unfolding rq_lists_def
  proof (intro conjI)
    show "lseg (next_runnable ?q) (At h) (h # us @ vs) No_Procs" using un by simp
    have "lseg (next_runnable q) (pop_head q) pop No_Procs" using assms(1) by (simp add: rq_lists_def)
    from lseg_upd2 [OF l2(4,2) this] show "lseg (next_runnable ?q) (pop_head ?q) pop No_Procs" by simp
    have "\<forall>x. ?nx x = Null \<longleftrightarrow> x \<notin> set (h # push @ pop) - {p}"
      by (rule rq_null_upd) (use rq_queued [OF assms(1)] nn l l2(1) assms(2) push(1) in \<open>auto simp del: last.simps\<close>)
    moreover have "set (h # push @ pop) - {p} = set (h # (us @ vs) @ pop)" using dist by (auto simp: push(1))
    ultimately show "\<forall>x. next_runnable ?q x = Null \<longleftrightarrow> x \<notin> set (h # (us @ vs) @ pop)"
      unfolding sel by (simp only: simp_thms)
    show "distinct (h # (us @ vs) @ pop)" using dist by (simp add: push(1))
    show "push_tail ?q = At (last (h # us @ vs))"
      using assms(1) by (cases "vs = []") (auto simp: rq_lists_def push(1))
  qed (simp add: head)
  ultimately show ?thesis by (simp add: rm)
qed

lemma rq_remove_pop:
  assumes "rq_lists q h push pop" and "p \<in> set pop" and "length push < fuel" and "length pop \<le> fuel"
  shows "\<exists>q'. rq_remove fuel p q = Inr (Some q') \<and> rq_lists q' h push (remove1 p pop)"
proof -
  obtain us vs where pop: "pop = us @ p # vs" "p \<notin> set us" using split_list_first [OF assms(2)] by blast
  have dist: "distinct (h # push @ pop)" and head: "push_head q = At h"
    and segs: "lseg (next_runnable q) (At h) (h # push) No_Procs" "lseg (next_runnable q) (pop_head q) (us @ p # vs) No_Procs"
    using assms(1) by (simp_all add: rq_lists_def pop(1))
  have se: "rq_search fuel p (At h) (At h) q = Inr (Some None)"
    using dist assms(2,3) by (intro rq_search_none [OF segs(1)]) auto
  have sp: "rq_search fuel p Null (pop_head q) q = Inr (Some (Some (if us = [] then Null else At (last us))))"
    using assms(4) by (intro rq_search_found [OF segs(2) pop(2)]) (simp add: pop(1))
  have nn: "next_runnable q p \<noteq> Null" using assms(1,2) by (simp add: rq_lists_def)
  have rm: "remove1 p pop = us @ vs" using pop by (simp add: remove1_append)
  show ?thesis
  proof (cases "us = []")
    case True
    let ?q = "q\<lparr>pop_head := next_runnable q p, next_runnable := (next_runnable q)(p := Null)\<rparr>"
    have "rq_remove fuel p q = Inr (Some ?q)"
      unfolding rq_remove_def head using se sp True by simp
    moreover have "rq_lists ?q h push (us @ vs)"
      using assms(1) dist True unfolding rq_lists_def pop(1) by auto
    ultimately show ?thesis by (simp add: rm)
  next
    case False
    let ?nx = "(next_runnable q)(last us := next_runnable q p, p := Null)"
    let ?q = "q\<lparr>next_runnable := ?nx\<rparr>"
    have un: "lseg ?nx (pop_head q) (us @ vs) No_Procs"
      using dist False by (intro lseg_unlink [OF segs(2)]) (auto simp: pop(1))
    have l: "last us \<in> set us" using False by (rule last_in_set)
    then have l2: "last us \<noteq> p" "last us \<notin> set (h # push)" "p \<notin> set (h # push)" "p \<notin> set vs" using dist pop by auto
    have "rq_remove fuel p q = Inr (Some ?q)"
      unfolding rq_remove_def head using se sp False by simp
    moreover have sel: "next_runnable ?q = ?nx" by simp
    have "rq_lists ?q h push (us @ vs)"
      unfolding rq_lists_def
    proof (intro conjI)
      from lseg_upd2 [OF l2(3,2) segs(1)] show "lseg (next_runnable ?q) (At h) (h # push) No_Procs"
        unfolding sel .
      have "\<forall>x. ?nx x = Null \<longleftrightarrow> x \<notin> set (h # push @ pop) - {p}"
        by (rule rq_null_upd) (use rq_queued [OF assms(1)] nn l l2(1) assms(2) pop(1) in auto)
      moreover have "set (h # push @ pop) - {p} = set (h # push @ us @ vs)" using dist by (auto simp: pop(1))
      ultimately show "\<forall>x. next_runnable ?q x = Null \<longleftrightarrow> x \<notin> set (h # push @ us @ vs)"
        unfolding sel by (simp only: simp_thms)
      show "distinct (h # push @ us @ vs)" using dist by (simp add: pop(1))
      show "push_tail ?q = At (last (h # push))" using assms(1) by (simp add: rq_lists_def)
    qed (use head un in simp_all)
    ultimately show ?thesis by (simp add: rm)
  qed
qed

lemma rq_remove_absent:
  assumes "rq_lists q h push pop" and "p \<notin> set (h # push @ pop)" and "length push < fuel" and "length pop \<le> fuel"
  shows "rq_remove fuel p q = Inr (Some q)"
proof -
  have "rq_search fuel p (At h) (At h) q = Inr (Some None)"
    by (rule rq_search_none [of _ _ "h # push"]) (use assms in \<open>simp_all add: rq_lists_def\<close>)
  moreover have "rq_search fuel p Null (pop_head q) q = Inr (Some None)"
    by (rule rq_search_none [of _ _ pop]) (use assms in \<open>simp_all add: rq_lists_def\<close>)
  moreover have "push_head q = At h" using assms(1) by (simp add: rq_lists_def)
  ultimately show ?thesis by (simp add: rq_remove_def)
qed

section \<open>The class refines four lists\<close>

definition runnable_lists :: "sc_runnable \<Rightarrow> nat \<Rightarrow> nat \<Rightarrow> nat list \<Rightarrow> nat list \<Rightarrow> nat list \<Rightarrow> nat list \<Rightarrow> bool" where
  "runnable_lists r hm ht ms mp ts tp \<longleftrightarrow> rq_lists (m_methods r) hm ms mp \<and> rq_lists (m_threads r) ht ts tp"

lemma on_methods_lists:
  assumes "runnable_lists r hm ht ms mp ts tp" and "\<exists>q'. f (m_methods r) = Inr q' \<and> rq_lists q' hm ms' mp'"
  shows "\<exists>r'. on_methods f r = Inr r' \<and> runnable_lists r' hm ht ms' mp' ts tp"
  using assms by (auto simp: on_methods_def runnable_lists_def)

lemma on_threads_lists:
  assumes "runnable_lists r hm ht ms mp ts tp" and "\<exists>q'. f (m_threads r) = Inr q' \<and> rq_lists q' ht ts' tp'"
  shows "\<exists>r'. on_threads f r = Inr r' \<and> runnable_lists r' hm ht ms mp ts' tp'"
  using assms by (auto simp: on_threads_def runnable_lists_def)

lemma runnable_init_lists: "\<exists>r. runnable_init hm ht sc_runnable_new = Inr r \<and> runnable_lists r hm ht [] [] [] []"
  using rq_init_lists [of hm] rq_init_lists [of ht]
  by (auto simp: runnable_init_def on_methods_def on_threads_def sc_runnable_new_def runnable_lists_def)

lemma runnable_initialized: "runnable_lists r hm ht ms mp ts tp \<Longrightarrow> runnable_is_initialized r"
  by (simp add: runnable_lists_def rq_lists_def runnable_is_initialized_def)

lemma push_back_method_lists:
  "runnable_lists r hm ht ms mp ts tp \<Longrightarrow> p \<notin> set (hm # ms @ mp) \<Longrightarrow>
     \<exists>r'. push_back_method p r = Inr r' \<and> runnable_lists r' hm ht (ms @ [p]) mp ts tp"
  unfolding push_back_method_def by (rule on_methods_lists, assumption, rule rq_push_back_lists) (simp_all add: runnable_lists_def)

lemma push_back_thread_lists:
  "runnable_lists r hm ht ms mp ts tp \<Longrightarrow> p \<notin> set (ht # ts @ tp) \<Longrightarrow>
     \<exists>r'. push_back_thread p r = Inr r' \<and> runnable_lists r' hm ht ms mp (ts @ [p]) tp"
  unfolding push_back_thread_def by (rule on_threads_lists, assumption, rule rq_push_back_lists) (simp_all add: runnable_lists_def)

lemma push_front_method_lists:
  "runnable_lists r hm ht ms mp ts tp \<Longrightarrow> p \<notin> set (hm # ms @ mp) \<Longrightarrow>
     \<exists>r'. push_front_method p r = Inr r' \<and> runnable_lists r' hm ht (p # ms) mp ts tp"
  unfolding push_front_method_def by (rule on_methods_lists, assumption, rule rq_push_front_lists) (simp_all add: runnable_lists_def)

lemma push_front_thread_lists:
  "runnable_lists r hm ht ms mp ts tp \<Longrightarrow> p \<notin> set (ht # ts @ tp) \<Longrightarrow>
     \<exists>r'. push_front_thread p r = Inr r' \<and> runnable_lists r' hm ht ms mp (p # ts) tp"
  unfolding push_front_thread_def by (rule on_threads_lists, assumption, rule rq_push_front_lists) (simp_all add: runnable_lists_def)

lemma execute_next_lists:
  "runnable_lists r hm ht ms mp ts tp \<Longrightarrow> p \<notin> set (hm # ms @ mp) \<Longrightarrow>
     runnable_lists (execute_method_next p r) hm ht ms (p # mp) ts tp"
  "runnable_lists r hm ht ms mp ts tp \<Longrightarrow> p \<notin> set (ht # ts @ tp) \<Longrightarrow>
     runnable_lists (execute_thread_next p r) hm ht ms mp ts (p # tp)"
  by (simp_all add: runnable_lists_def execute_method_next_def execute_thread_next_def rq_execute_next_lists)

lemma pop_method_lists:
  assumes "runnable_lists r hm ht ms mp ts tp"
  shows "\<exists>r'. pop_method r = Inr (case mp of [] \<Rightarrow> None | p # _ \<Rightarrow> Some p, r') \<and> runnable_lists r' hm ht ms (tl mp) ts tp"
  using rq_pop_lists [of "m_methods r" hm ms mp] assms by (auto simp: pop_method_def runnable_lists_def)

lemma pop_thread_lists:
  assumes "runnable_lists r hm ht ms mp ts tp"
  shows "\<exists>r'. pop_thread r = Inr (case tp of [] \<Rightarrow> None | p # _ \<Rightarrow> Some p, r') \<and> runnable_lists r' hm ht ms mp ts (tl tp)"
  using rq_pop_lists [of "m_threads r" ht ts tp] assms by (auto simp: pop_thread_def runnable_lists_def)

lemma toggle_methods_lists:
  "runnable_lists r hm ht ms [] ts tp \<Longrightarrow> \<exists>r'. toggle_methods r = Inr r' \<and> runnable_lists r' hm ht [] ms ts tp"
  unfolding toggle_methods_def
  by (rule on_methods_lists, assumption) (use rq_toggle_lists [of "m_methods r" hm ms "[]"] in \<open>simp add: runnable_lists_def\<close>)

lemma toggle_threads_lists:
  "runnable_lists r hm ht ms mp ts [] \<Longrightarrow> \<exists>r'. toggle_threads r = Inr r' \<and> runnable_lists r' hm ht ms mp [] ts"
  unfolding toggle_threads_def
  by (rule on_threads_lists, assumption) (use rq_toggle_lists [of "m_threads r" ht ts "[]"] in \<open>simp add: runnable_lists_def\<close>)

lemma is_empty_lists:
  "runnable_lists r hm ht ms mp ts tp \<Longrightarrow> runnable_is_empty r = Inr (ms = [] \<and> mp = [] \<and> ts = [] \<and> tp = [])"
  by (auto simp: runnable_lists_def runnable_is_empty_def rq_is_empty_lists)

lemma rq_remove_lists:
  assumes "rq_lists q h push pop" and "p \<noteq> h" and "length push < fuel" and "length pop \<le> fuel"
  shows "\<exists>q'. rq_remove fuel p q = Inr (Some q') \<and> rq_lists q' h (remove1 p push) (remove1 p pop)"
proof -
  consider "p \<in> set push" | "p \<in> set pop" | "p \<notin> set (h # push @ pop)" using assms(2) by auto
  then show ?thesis
  proof cases
    case 1
    then have "p \<notin> set pop" using assms(1) by (auto simp: rq_lists_def)
    then show ?thesis using rq_remove_push [OF assms(1) 1] assms(3) by (simp add: remove1_idem)
  next
    case 2
    then have "p \<notin> set push" using assms(1) by (auto simp: rq_lists_def)
    then show ?thesis using rq_remove_pop [OF assms(1) 2 assms(3,4)] by (simp add: remove1_idem)
  next
    case 3
    then show ?thesis using rq_remove_absent [OF assms(1) 3 assms(3,4)] assms(1) by (simp add: remove1_idem)
  qed
qed

text \<open>Removing a process keeps the order of the others and leaves the process with the null pointer, so
  that it can be queued again.\<close>

lemma removed_unqueued:
  assumes "rq_lists q h push pop" and "p \<noteq> h" and "rq_lists q' h (remove1 p push) (remove1 p pop)"
  shows "next_runnable q' p = Null"
proof -
  have "distinct (push @ pop)" using assms(1) by (simp add: rq_lists_def)
  then have "p \<notin> set (h # remove1 p push @ remove1 p pop)" using assms(2) by simp
  then show ?thesis using rq_queued [OF assms(3)] by blast
qed

lemma remove_method_lists:
  assumes "runnable_lists r hm ht ms mp ts tp" and "p \<noteq> hm" and "length ms < fuel" and "length mp \<le> fuel"
  shows "\<exists>r'. remove_method fuel p r = Inr (Some r') \<and> runnable_lists r' hm ht (remove1 p ms) (remove1 p mp) ts tp \<and>
    next_runnable (m_methods r') p = Null"
proof -
  have q: "rq_lists (m_methods r) hm ms mp" using assms(1) by (simp add: runnable_lists_def)
  from rq_remove_lists [OF q assms(2-4)]
  obtain q' where q': "rq_remove fuel p (m_methods r) = Inr (Some q')" "rq_lists q' hm (remove1 p ms) (remove1 p mp)"
    by blast
  then show ?thesis using removed_unqueued [OF q assms(2)] assms(1) runnable_initialized [OF assms(1)]
    by (simp add: remove_method_def runnable_lists_def)
qed

lemma remove_thread_lists:
  assumes "runnable_lists r hm ht ms mp ts tp" and "p \<noteq> ht" and "length ts < fuel" and "length tp \<le> fuel"
  shows "\<exists>r'. remove_thread fuel p r = Inr (Some r') \<and> runnable_lists r' hm ht ms mp (remove1 p ts) (remove1 p tp) \<and>
    next_runnable (m_threads r') p = Null"
proof -
  have q: "rq_lists (m_threads r) ht ts tp" using assms(1) by (simp add: runnable_lists_def)
  from rq_remove_lists [OF q assms(2-4)]
  obtain q' where q': "rq_remove fuel p (m_threads r) = Inr (Some q')" "rq_lists q' ht (remove1 p ts) (remove1 p tp)"
    by blast
  then show ?thesis using removed_unqueued [OF q assms(2)] assms(1) runnable_initialized [OF assms(1)]
    by (simp add: remove_thread_def runnable_lists_def)
qed

lemma toggle_methods_any:
  assumes "runnable_lists r hm ht ms mp ts tp"
  shows "\<exists>r'. toggle_methods r = Inr r' \<and> runnable_lists r' hm ht (if mp = [] then [] else ms) (if mp = [] then ms else mp) ts tp"
proof -
  have "\<exists>q'. rq_toggle (m_methods r) = Inr q' \<and> rq_lists q' hm (if mp = [] then [] else ms) (if mp = [] then ms else mp)"
    using rq_toggle_lists [of "m_methods r" hm ms mp] assms by (auto simp: runnable_lists_def)
  from on_methods_lists [OF assms, of rq_toggle, OF this] show ?thesis by (simp add: toggle_methods_def)
qed

lemma toggle_threads_any:
  assumes "runnable_lists r hm ht ms mp ts tp"
  shows "\<exists>r'. toggle_threads r = Inr r' \<and> runnable_lists r' hm ht ms mp (if tp = [] then [] else ts) (if tp = [] then ts else tp)"
proof -
  have "\<exists>q'. rq_toggle (m_threads r) = Inr q' \<and> rq_lists q' ht (if tp = [] then [] else ts) (if tp = [] then ts else tp)"
    using rq_toggle_lists [of "m_threads r" ht ts tp] assms by (auto simp: runnable_lists_def)
  from on_threads_lists [OF assms, of rq_toggle, OF this] show ?thesis by (simp add: toggle_threads_def)
qed

text \<open>C6: the chained run queues are lists.  As long as nothing is queued twice, for methods and for threads alike:
  pushing a process at the back or the front adds it to the push queue of its kind and to nothing else, popping takes the first process of
  the pop queue and returns null exactly when that is empty, executing next puts a process in
  front of the pop queue, toggling moves the whole push queue over in order when the pop queue is
  empty and does nothing otherwise, removing a process takes it out of whichever queue of its kind holds it, within as many
  steps as there are queued processes; no pointer is followed that points to no process, and
  \<open>is_empty\<close> sees all four queues.\<close>

theorem run_queues_are_lists:
  assumes "runnable_lists r hm ht ms mp ts tp" and "m \<notin> set (hm # ms @ mp)" and "t \<notin> set (ht # ts @ tp)"
    and "x \<noteq> hm" and "y \<noteq> ht" and "length ms < fuel" and "length mp \<le> fuel" and "length ts < fuel" and "length tp \<le> fuel"
  shows "(\<exists>r'. push_back_method m r = Inr r' \<and> runnable_lists r' hm ht (ms @ [m]) mp ts tp) \<and>
    (\<exists>r'. push_back_thread t r = Inr r' \<and> runnable_lists r' hm ht ms mp (ts @ [t]) tp) \<and>
    (\<exists>r'. push_front_method m r = Inr r' \<and> runnable_lists r' hm ht (m # ms) mp ts tp) \<and>
    (\<exists>r'. push_front_thread t r = Inr r' \<and> runnable_lists r' hm ht ms mp (t # ts) tp) \<and>
    runnable_lists (execute_method_next m r) hm ht ms (m # mp) ts tp \<and>
    runnable_lists (execute_thread_next t r) hm ht ms mp ts (t # tp) \<and>
    (\<exists>r'. pop_method r = Inr (case mp of [] \<Rightarrow> None | p # _ \<Rightarrow> Some p, r') \<and> runnable_lists r' hm ht ms (tl mp) ts tp) \<and>
    (\<exists>r'. pop_thread r = Inr (case tp of [] \<Rightarrow> None | p # _ \<Rightarrow> Some p, r') \<and> runnable_lists r' hm ht ms mp ts (tl tp)) \<and>
    (\<exists>r'. toggle_methods r = Inr r' \<and>
       runnable_lists r' hm ht (if mp = [] then [] else ms) (if mp = [] then ms else mp) ts tp) \<and>
    (\<exists>r'. toggle_threads r = Inr r' \<and>
       runnable_lists r' hm ht ms mp (if tp = [] then [] else ts) (if tp = [] then ts else tp)) \<and>
    (\<exists>r'. remove_method fuel x r = Inr (Some r') \<and> runnable_lists r' hm ht (remove1 x ms) (remove1 x mp) ts tp) \<and>
    (\<exists>r'. remove_thread fuel y r = Inr (Some r') \<and> runnable_lists r' hm ht ms mp (remove1 y ts) (remove1 y tp)) \<and>
    runnable_is_empty r = Inr (ms = [] \<and> mp = [] \<and> ts = [] \<and> tp = [])"
  using push_back_method_lists [OF assms(1,2)] push_back_thread_lists [OF assms(1,3)]
    push_front_method_lists [OF assms(1,2)] push_front_thread_lists [OF assms(1,3)]
    execute_next_lists(1) [OF assms(1,2)] execute_next_lists(2) [OF assms(1,3)]
    pop_method_lists [OF assms(1)] pop_thread_lists [OF assms(1)] toggle_methods_any [OF assms(1)] toggle_threads_any [OF assms(1)]
    remove_method_lists [OF assms(1,4,6,7)] remove_thread_lists [OF assms(1,5,8,9)] is_empty_lists [OF assms(1)]
  by (intro conjI) blast+

definition two_queued :: sc_runnable where
  "two_queued = \<lparr>m_methods = \<lparr>push_head = At 0, push_tail = At 2, pop_head = No_Procs,
       next_runnable = (\<lambda>_. Null)(0 := At 1, 1 := At 2, 2 := No_Procs)\<rparr>,
     m_threads = \<lparr>push_head = At 0, push_tail = At 0, pop_head = No_Procs, next_runnable = (\<lambda>_. Null)(0 := No_Procs)\<rparr>\<rparr>"

lemma two_queued_lists: "runnable_lists two_queued 0 0 [1, 2] [] [] []"
  by (simp add: two_queued_def runnable_lists_def rq_lists_def)

theorem run_queues_are_lists_witness:
  "(\<exists>r'. toggle_methods two_queued = Inr r' \<and> runnable_lists r' 0 0 [] [1, 2] [] []) \<and>
   (\<exists>r'. push_back_thread 4 two_queued = Inr r' \<and> runnable_lists r' 0 0 [1, 2] [] [4] []) \<and>
   (\<exists>r'. remove_method 3 1 two_queued = Inr (Some r') \<and> runnable_lists r' 0 0 [2] [] [] [])"
  using run_queues_are_lists [OF two_queued_lists, of 3 4 1 1 3] by simp

end
