(* ===== verification/Sc_State.thy ===== *)
theory Sc_State
  imports Sc_Pq Sc_Runnable "HOL-Library.Word"
begin

text \<open>
  The state of the simulation kernel, \<open>sysc/kernel\<close>: the objects of the classes \<open>sc_event\<close>,
  \<open>sc_event_timed\<close>, \<open>sc_process_b\<close> (with \<open>sc_method_process\<close> and \<open>sc_thread_process\<close>) and
  \<open>sc_simcontext\<close>.  Objects that the source reaches by pointers are numbered, and the kernel holds
  a map from the numbers to the objects; method and thread processes are numbered separately.
  The kernel is an extensible record, so that the state of the channels and of the user's modules
  can be added to it, and every operation leaves that part alone unless it is a callback.
\<close>

section \<open>Time\<close>

text \<open>\<open>sc_time\<close> is an unsigned 64-bit number of time resolutions: \<open>+\<close> wraps, the comparisons are
  those of unsigned numbers.\<close>

type_synonym sc_time = "64 word"

definition SC_ZERO_TIME :: sc_time where
  "SC_ZERO_TIME = 0"

definition sc_time_add :: "sc_time \<Rightarrow> sc_time \<Rightarrow> sc_time" where
  "sc_time_add t1 t2 = t1 + t2"

definition sc_time_sub :: "sc_time \<Rightarrow> sc_time \<Rightarrow> sc_time" where
  "sc_time_sub t1 t2 = t1 - t2"

section \<open>Objects\<close>

datatype notify_t = NONE | DELTA | TIMED

record sc_event =
  m_trigger_stamp :: "64 word"
  m_notify_type :: notify_t
  m_delta_event_index :: int
  m_timed :: "nat option"
  m_methods_static :: "nat list"
  m_methods_dynamic :: "nat list"
  m_threads_static :: "nat list"
  m_threads_dynamic :: "nat list"

definition sc_event_new :: sc_event where
  "sc_event_new = \<lparr>m_trigger_stamp = - 1, m_notify_type = NONE, m_delta_event_index = -1, m_timed = None,
     m_methods_static = [], m_methods_dynamic = [], m_threads_static = [], m_threads_dynamic = []\<rparr>"

record sc_event_timed =
  m_event :: "nat option"
  m_notify_time :: sc_time

datatype trigger_t = STATIC | EVENT | OR_LIST | AND_LIST | TIMEOUT | EVENT_TIMEOUT | OR_LIST_TIMEOUT | AND_LIST_TIMEOUT

datatype throw_t = THROW_NONE | THROW_KILL | THROW_USER | THROW_ASYNC_RESET | THROW_SYNC_RESET

text \<open>The bits of \<open>m_state\<close>.\<close>

record process_state =
  ps_bit_disabled :: bool
  ps_bit_ready_to_run :: bool
  ps_bit_suspended :: bool
  ps_bit_zombie :: bool

definition ps_normal :: process_state where
  "ps_normal = \<lparr>ps_bit_disabled = False, ps_bit_ready_to_run = False, ps_bit_suspended = False, ps_bit_zombie = False\<rparr>"

text \<open>The list of events of \<open>m_event_list_p\<close> is kept by value; its reference count is memory
  management of the host language.  \<open>m_cor_p\<close> is whether a thread has its coroutine.\<close>

record sc_process =
  m_dont_init :: bool
  m_event_p :: "nat option"
  m_event_count :: int
  m_event_list_p :: "nat list option"
  m_has_reset_signal :: bool
  m_state :: process_state
  m_static_events :: "nat list"
  m_sticky_reset :: bool
  m_throw_status :: throw_t
  m_timed_out :: bool
  m_timeout_event_p :: nat
  m_trigger_type :: trigger_t
  m_wait_cycle_n :: int
  m_cor_p :: bool

definition sc_process_new :: "nat \<Rightarrow> sc_process" where
  "sc_process_new timeout = \<lparr>m_dont_init = False, m_event_p = None, m_event_count = 0, m_event_list_p = None,
     m_has_reset_signal = False, m_state = ps_normal, m_static_events = [], m_sticky_reset = False,
     m_throw_status = THROW_NONE, m_timed_out = False, m_timeout_event_p = timeout, m_trigger_type = STATIC,
     m_wait_cycle_n = 0, m_cor_p = False\<rparr>"

text \<open>A process handle: methods and threads are objects of different classes.\<close>

datatype process = Method nat | Thread nat

section \<open>The simulation context\<close>

datatype execution_phases = phase_initialize | phase_evaluate | phase_update | phase_notify

datatype sc_status = SC_ELABORATION | SC_BEFORE_END_OF_ELABORATION | SC_END_OF_ELABORATION | SC_START_OF_SIMULATION
  | SC_RUNNING | SC_PAUSED | SC_STOPPED | SC_END_OF_SIMULATION

datatype write_check = SC_SIGNAL_WRITE_CHECK_DEFAULT | SC_SIGNAL_WRITE_CHECK_DISABLE | SC_SIGNAL_WRITE_CHECK_CONFLICT

datatype stop_mode = SC_STOP_FINISH_DELTA | SC_STOP_IMMEDIATE

text \<open>An uncaught exception of a process ends the simulation, and is a fault of the model, so \<open>m_error\<close>
  has no field.  The list of the channels that asked for an update is chained through their member
  \<open>m_update_next_p\<close>; the model has the list and whether the member of a channel is null.  The
  vector \<open>m_delta_events\<close> is read through a pointer to its storage while elements are
  removed from it, so the model keeps the storage and the size.\<close>

record kernel =
  k_event :: "nat \<Rightarrow> sc_event"
  k_timed :: "nat \<Rightarrow> sc_event_timed"
  k_next_timed :: nat
  k_method :: "nat \<Rightarrow> sc_process"
  k_thread :: "nat \<Rightarrow> sc_process"
  k_processes :: nat
  k_method_head :: nat
  k_thread_head :: nat
  m_method_table :: "nat list"
  m_thread_table :: "nat list"
  m_curr_proc :: "process option"
  m_current_writer :: "process option"
  m_write_check :: write_check
  m_delta_storage :: "nat list"
  m_delta_size :: nat
  m_timed_events :: "nat sc_ppq"
  m_runnable :: sc_runnable
  m_curr_time :: sc_time
  m_max_time :: sc_time
  m_change_stamp :: "64 word"
  m_delta_count :: "64 word"
  m_initial_delta_count :: "64 word"
  m_forced_stop :: bool
  m_paused :: bool
  m_ready_to_simulate :: bool
  m_elaboration_done :: bool
  m_execution_phase :: execution_phases
  m_in_simulator_control :: bool
  m_start_of_simulation_called :: bool
  m_end_of_simulation_called :: bool
  m_simulation_status :: sc_status
  m_update_list :: "nat list"
  k_update_next :: "nat \<Rightarrow> bool"
  k_stop_mode :: stop_mode
  k_allow_corners :: bool

text \<open>\<open>init\<close>, given the value of the environment variable \<open>SC_SIGNAL_WRITE_CHECK\<close> and the two
  globals \<open>stop_mode\<close> and \<open>sc_allow_process_control_corners\<close>.  No process object exists yet; the
  two heads of the run queues are the objects 0.\<close>

definition simcontext_init :: "string option \<Rightarrow> stop_mode \<Rightarrow> bool \<Rightarrow> kernel" where
  "simcontext_init write_check stop corners =
     \<lparr>k_event = (\<lambda>_. sc_event_new), k_timed = (\<lambda>_. \<lparr>m_event = None, m_notify_time = SC_ZERO_TIME\<rparr>), k_next_timed = 0,
      k_method = sc_process_new, k_thread = sc_process_new, k_processes = 1, k_method_head = 0, k_thread_head = 0,
      m_method_table = [], m_thread_table = [], m_curr_proc = None, m_current_writer = None,
      m_write_check =
        (if write_check = Some ''DISABLE'' then SC_SIGNAL_WRITE_CHECK_DISABLE
         else if write_check = Some ''CONFLICT'' then SC_SIGNAL_WRITE_CHECK_CONFLICT
         else SC_SIGNAL_WRITE_CHECK_DEFAULT),
      m_delta_storage = [], m_delta_size = 0, m_timed_events = sc_ppq_new 0 128, m_runnable = sc_runnable_new,
      m_curr_time = SC_ZERO_TIME, m_max_time = SC_ZERO_TIME, m_change_stamp = 0, m_delta_count = 0,
      m_initial_delta_count = 0, m_forced_stop = False, m_paused = False, m_ready_to_simulate = False,
      m_elaboration_done = False, m_execution_phase = phase_initialize,
      m_in_simulator_control = False, m_start_of_simulation_called = False, m_end_of_simulation_called = False,
      m_simulation_status = SC_ELABORATION, m_update_list = [], k_update_next = (\<lambda>_. False),
      k_stop_mode = stop, k_allow_corners = corners\<rparr>"

text \<open>Updating one object.\<close>

definition upd_event :: "nat \<Rightarrow> (sc_event \<Rightarrow> sc_event) \<Rightarrow> 'a kernel_scheme \<Rightarrow> 'a kernel_scheme" where
  "upd_event e f k = k\<lparr>k_event := (k_event k)(e := f (k_event k e))\<rparr>"

definition upd_timed :: "nat \<Rightarrow> (sc_event_timed \<Rightarrow> sc_event_timed) \<Rightarrow> 'a kernel_scheme \<Rightarrow> 'a kernel_scheme" where
  "upd_timed t f k = k\<lparr>k_timed := (k_timed k)(t := f (k_timed k t))\<rparr>"

definition proc_of :: "process \<Rightarrow> 'a kernel_scheme \<Rightarrow> sc_process" where
  "proc_of p k = (case p of Method m \<Rightarrow> k_method k m | Thread t \<Rightarrow> k_thread k t)"

definition upd_proc :: "process \<Rightarrow> (sc_process \<Rightarrow> sc_process) \<Rightarrow> 'a kernel_scheme \<Rightarrow> 'a kernel_scheme" where
  "upd_proc p f k = (case p of
     Method m \<Rightarrow> k\<lparr>k_method := (k_method k)(m := f (k_method k m))\<rparr>
   | Thread t \<Rightarrow> k\<lparr>k_thread := (k_thread k)(t := f (k_thread k t))\<rparr>)"

definition event_vector :: "'a kernel_scheme \<Rightarrow> nat list" where
  "event_vector k = take (m_delta_size k) (m_delta_storage k)"

section \<open>Operations of the context on its own data\<close>

definition evaluation_phase :: "'a kernel_scheme \<Rightarrow> bool" where
  "evaluation_phase k \<longleftrightarrow> m_execution_phase k = phase_evaluate \<and> m_ready_to_simulate k"

definition max_time :: "'a kernel_scheme \<Rightarrow> sc_time \<times> 'a kernel_scheme" where
  "max_time k = (let k = (if m_max_time k = SC_ZERO_TIME then k\<lparr>m_max_time := - 1\<rparr> else k) in (m_max_time k, k))"

definition event_occurred :: "64 word \<Rightarrow> 'a kernel_scheme \<Rightarrow> bool" where
  "event_occurred stamp k \<longleftrightarrow> m_change_stamp k = stamp"

text \<open>\<open>push_back\<close> on the vector: what is stored behind its end is overwritten or left behind in the
  old storage.\<close>

definition add_delta_event :: "nat \<Rightarrow> 'a kernel_scheme \<Rightarrow> int \<times> 'a kernel_scheme" where
  "add_delta_event e k =
     (int (m_delta_size k),
      k\<lparr>m_delta_storage := event_vector k @ [e], m_delta_size := m_delta_size k + 1\<rparr>)"

definition remove_delta_event :: "nat \<Rightarrow> 'a kernel_scheme \<Rightarrow> 'a kernel_scheme res" where
  "remove_delta_event e k =
     (let i = m_delta_event_index (k_event k e); j = int (m_delta_size k) - 1
      in if 0 \<le> i \<and> i \<le> j then
           let k1 = (if i \<noteq> j then
               let last = m_delta_storage k ! nat j
               in upd_event last (\<lambda>ev. ev\<lparr>m_delta_event_index := i\<rparr>)
                    (k\<lparr>m_delta_storage := (m_delta_storage k)[nat i := last]\<rparr>)
             else k)
           in Inr (upd_event e (\<lambda>ev. ev\<lparr>m_delta_event_index := -1\<rparr>) (k1\<lparr>m_delta_size := m_delta_size k1 - 1\<rparr>))
         else Inl AssertFailed)"

text \<open>The comparison of the heap of timed notifications: the earlier one is in front.\<close>

definition sc_notify_time_compare :: "(nat \<Rightarrow> sc_event_timed) \<Rightarrow> nat \<Rightarrow> nat \<Rightarrow> int" where
  "sc_notify_time_compare tm p1 p2 =
     (let t1 = m_notify_time (tm p1); t2 = m_notify_time (tm p2)
      in if t1 < t2 then 1 else if t1 > t2 then -1 else 0)"

interpretation timed: pq_order "sc_notify_time_compare tm" for tm
  by unfold_locales (auto simp: sc_notify_time_compare_def Let_def split: if_splits)

definition add_timed_event :: "nat \<Rightarrow> 'a kernel_scheme \<Rightarrow> 'a kernel_scheme" where
  "add_timed_event et k =
     k\<lparr>m_timed_events := pq_insert 0 (sc_notify_time_compare (k_timed k)) et (m_timed_events k)\<rparr>"

text \<open>The constructor and the destructor of \<open>sc_event_timed\<close>.\<close>

definition new_timed :: "nat \<Rightarrow> sc_time \<Rightarrow> 'a kernel_scheme \<Rightarrow> nat \<times> 'a kernel_scheme" where
  "new_timed e t k =
     (k_next_timed k,
      k\<lparr>k_timed := (k_timed k)(k_next_timed k := \<lparr>m_event = Some e, m_notify_time = t\<rparr>), k_next_timed := k_next_timed k + 1\<rparr>)"

definition delete_timed :: "nat \<Rightarrow> 'a kernel_scheme \<Rightarrow> 'a kernel_scheme" where
  "delete_timed et k = (case m_event (k_timed k et) of None \<Rightarrow> k | Some e \<Rightarrow> upd_event e (\<lambda>ev. ev\<lparr>m_timed := None\<rparr>) k)"

subsection \<open>The current process and the run queues\<close>

definition set_curr_proc :: "process \<Rightarrow> 'a kernel_scheme \<Rightarrow> 'a kernel_scheme" where
  "set_curr_proc p k = k\<lparr>m_curr_proc := Some p, m_current_writer := (if m_write_check k \<noteq> SC_SIGNAL_WRITE_CHECK_DISABLE then Some p else None)\<rparr>"

definition reset_curr_proc :: "'a kernel_scheme \<Rightarrow> 'a kernel_scheme" where
  "reset_curr_proc k = k\<lparr>m_curr_proc := None, m_current_writer := None\<rparr>"

definition on_runnable :: "(sc_runnable \<Rightarrow> sc_runnable res) \<Rightarrow> 'a kernel_scheme \<Rightarrow> 'a kernel_scheme res" where
  "on_runnable f k = rbind (f (m_runnable k)) (\<lambda>r. Inr (k\<lparr>m_runnable := r\<rparr>))"

definition push_runnable_method :: "nat \<Rightarrow> 'a kernel_scheme \<Rightarrow> 'a kernel_scheme res" where
  "push_runnable_method m = on_runnable (push_back_method m)"

definition push_runnable_method_front :: "nat \<Rightarrow> 'a kernel_scheme \<Rightarrow> 'a kernel_scheme res" where
  "push_runnable_method_front m = on_runnable (push_front_method m)"

definition push_runnable_thread :: "nat \<Rightarrow> 'a kernel_scheme \<Rightarrow> 'a kernel_scheme res" where
  "push_runnable_thread t = on_runnable (push_back_thread t)"

definition push_runnable_thread_front :: "nat \<Rightarrow> 'a kernel_scheme \<Rightarrow> 'a kernel_scheme res" where
  "push_runnable_thread_front t = on_runnable (push_front_thread t)"

definition push_runnable :: "process \<Rightarrow> 'a kernel_scheme \<Rightarrow> 'a kernel_scheme res" where
  "push_runnable p = (case p of Method m \<Rightarrow> push_runnable_method m | Thread t \<Rightarrow> push_runnable_thread t)"

definition pop_runnable_method :: "'a kernel_scheme \<Rightarrow> (nat option \<times> 'a kernel_scheme) res" where
  "pop_runnable_method k = rbind (pop_method (m_runnable k)) (\<lambda>(m, r).
     let k = k\<lparr>m_runnable := r\<rparr>
     in Inr (m, case m of None \<Rightarrow> reset_curr_proc k | Some m \<Rightarrow> set_curr_proc (Method m) k))"

definition pop_runnable_thread :: "'a kernel_scheme \<Rightarrow> (nat option \<times> 'a kernel_scheme) res" where
  "pop_runnable_thread k = rbind (pop_thread (m_runnable k)) (\<lambda>(t, r).
     let k = k\<lparr>m_runnable := r\<rparr>
     in Inr (t, case t of None \<Rightarrow> reset_curr_proc k | Some t \<Rightarrow> set_curr_proc (Thread t) k))"

text \<open>A search that would not end is a fault of the model; it needs a chain that is longer than
  there are processes.\<close>

definition remove_runnable_method :: "nat \<Rightarrow> 'a kernel_scheme \<Rightarrow> 'a kernel_scheme option res" where
  "remove_runnable_method m k =
     rbind (remove_method (k_processes k) m (m_runnable k)) (\<lambda>r. Inr (map_option (\<lambda>r. k\<lparr>m_runnable := r\<rparr>) r))"

definition remove_runnable_thread :: "nat \<Rightarrow> 'a kernel_scheme \<Rightarrow> 'a kernel_scheme option res" where
  "remove_runnable_thread t k =
     rbind (remove_thread (k_processes k) t (m_runnable k)) (\<lambda>r. Inr (map_option (\<lambda>r. k\<lparr>m_runnable := r\<rparr>) r))"

definition is_runnable :: "process \<Rightarrow> 'a kernel_scheme \<Rightarrow> bool" where
  "is_runnable p k = (case p of
     Method m \<Rightarrow> next_runnable (m_methods (m_runnable k)) m \<noteq> Null
   | Thread t \<Rightarrow> next_runnable (m_threads (m_runnable k)) t \<noteq> Null)"

end
