(* ===== verification/Sc_Event.thy ===== *)
theory Sc_Event
  imports Sc_State
begin

text \<open>
  \<open>sysc/kernel/sc_event.cpp\<close> and \<open>sc_event.h\<close>: the notification of events and the lists of the
  processes that are sensitive to them.  An event has at most one pending notification; the
  definitions are followed by the invariant that ties the event objects to the vector of delta
  notifications and to the heap of timed ones, and by what each operation makes pending.
  Waking the processes of an event (\<open>trigger\<close>) is in the theory \<open>Sc_Trigger\<close>, behind the processes.
\<close>

section \<open>Notification\<close>

text \<open>Forgetting a timed notification: its object stays in the heap, without an event.\<close>

definition drop_timed :: "nat \<Rightarrow> 'a kernel_scheme \<Rightarrow> 'a kernel_scheme res" where
  "drop_timed e k = (case m_timed (k_event k e) of
     None \<Rightarrow> Inl AssertFailed
   | Some et \<Rightarrow> Inr (upd_event e (\<lambda>ev. ev\<lparr>m_timed := None\<rparr>) (upd_timed et (\<lambda>t. t\<lparr>m_event := None\<rparr>) k)))"

definition cancel :: "nat \<Rightarrow> 'a kernel_scheme \<Rightarrow> 'a kernel_scheme res" where
  "cancel e k = (case m_notify_type (k_event k e) of
     DELTA \<Rightarrow> rbind (remove_delta_event e k) (\<lambda>k. Inr (upd_event e (\<lambda>ev. ev\<lparr>m_notify_type := NONE\<rparr>) k))
   | TIMED \<Rightarrow> rbind (drop_timed e k) (\<lambda>k. Inr (upd_event e (\<lambda>ev. ev\<lparr>m_notify_type := NONE\<rparr>) k))
   | NONE \<Rightarrow> Inr k)"

definition make_delta :: "nat \<Rightarrow> 'a kernel_scheme \<Rightarrow> 'a kernel_scheme" where
  "make_delta e k =
     (let (i, k) = add_delta_event e k
      in upd_event e (\<lambda>ev. ev\<lparr>m_delta_event_index := i, m_notify_type := DELTA\<rparr>) k)"

definition make_timed :: "nat \<Rightarrow> sc_time \<Rightarrow> 'a kernel_scheme \<Rightarrow> 'a kernel_scheme" where
  "make_timed e t k =
     (let (et, k) = new_timed e (sc_time_add (m_curr_time k) t) k
      in upd_event e (\<lambda>ev. ev\<lparr>m_timed := Some et, m_notify_type := TIMED\<rparr>) (add_timed_event et k))"

definition notify_at :: "nat \<Rightarrow> sc_time \<Rightarrow> 'a kernel_scheme \<Rightarrow> 'a kernel_scheme res" where
  "notify_at e t k =
     (let ev = k_event k e in
      if m_notify_type ev = DELTA then Inr k
      else if t = SC_ZERO_TIME then
        rbind (if m_notify_type ev = TIMED then drop_timed e k else Inr k) (\<lambda>k. Inr (make_delta e k))
      else if m_notify_type ev = TIMED then
        (case m_timed ev of
           None \<Rightarrow> Inl AssertFailed
         | Some et \<Rightarrow>
             if m_notify_time (k_timed k et) \<le> sc_time_add (m_curr_time k) t then Inr k
             else rbind (drop_timed e k) (\<lambda>k. Inr (make_timed e t k)))
      else Inr (make_timed e t k))"

definition notify_delayed :: "nat \<Rightarrow> 'a kernel_scheme \<Rightarrow> 'a kernel_scheme res" where
  "notify_delayed e k =
     (if m_notify_type (k_event k e) \<noteq> NONE then Inl NotifyDelayed else Inr (make_delta e k))"

definition notify_internal :: "nat \<Rightarrow> sc_time \<Rightarrow> 'a kernel_scheme \<Rightarrow> 'a kernel_scheme" where
  "notify_internal e t k = (if t = SC_ZERO_TIME then make_delta e k else make_timed e t k)"

definition notify_delayed_at :: "nat \<Rightarrow> sc_time \<Rightarrow> 'a kernel_scheme \<Rightarrow> 'a kernel_scheme res" where
  "notify_delayed_at e t k =
     (if m_notify_type (k_event k e) \<noteq> NONE then Inl NotifyDelayed
      else Inr (if t = SC_ZERO_TIME then make_delta e k else make_timed e t k))"

definition notify_next_delta :: "nat \<Rightarrow> 'a kernel_scheme \<Rightarrow> 'a kernel_scheme res" where
  "notify_next_delta e k =
     (if m_notify_type (k_event k e) \<noteq> NONE then Inl NotifyDelayed else Inr (make_delta e k))"

definition triggered :: "nat \<Rightarrow> 'a kernel_scheme \<Rightarrow> bool" where
  "triggered e k \<longleftrightarrow> m_trigger_stamp (k_event k e) = m_change_stamp k"

definition event_reset :: "nat \<Rightarrow> 'a kernel_scheme \<Rightarrow> 'a kernel_scheme" where
  "event_reset e = upd_event e (\<lambda>ev. ev\<lparr>m_notify_type := NONE, m_delta_event_index := -1, m_timed := None,
     m_methods_dynamic := [], m_threads_dynamic := []\<rparr>)"

section \<open>The lists of sensitive processes\<close>

definition add_static :: "process \<Rightarrow> sc_event \<Rightarrow> sc_event" where
  "add_static p ev = (case p of
     Method m \<Rightarrow> ev\<lparr>m_methods_static := m_methods_static ev @ [m]\<rparr>
   | Thread t \<Rightarrow> ev\<lparr>m_threads_static := m_threads_static ev @ [t]\<rparr>)"

definition add_dynamic :: "process \<Rightarrow> sc_event \<Rightarrow> sc_event" where
  "add_dynamic p ev = (case p of
     Method m \<Rightarrow> ev\<lparr>m_methods_dynamic := m_methods_dynamic ev @ [m]\<rparr>
   | Thread t \<Rightarrow> ev\<lparr>m_threads_dynamic := m_threads_dynamic ev @ [t]\<rparr>)"

text \<open>The loop of the four \<open>remove_\<close> functions: from the back, the first match is overwritten by
  the last element and the vector is shortened; \<open>n\<close> is the number of elements not yet looked at.\<close>

fun remove_swap :: "nat \<Rightarrow> nat \<Rightarrow> nat list \<Rightarrow> (bool \<times> nat list)" where
  "remove_swap x 0 xs = (False, xs)"
| "remove_swap x (Suc i) xs =
     (if xs ! i = x then (True, butlast (xs[i := last xs])) else remove_swap x i xs)"

definition remove_static :: "process \<Rightarrow> sc_event \<Rightarrow> bool \<times> sc_event" where
  "remove_static p ev = (case p of
     Method m \<Rightarrow> (let (b, ms) = remove_swap m (length (m_methods_static ev)) (m_methods_static ev)
       in (b, ev\<lparr>m_methods_static := ms\<rparr>))
   | Thread t \<Rightarrow> (let (b, ts) = remove_swap t (length (m_threads_static ev)) (m_threads_static ev)
       in (b, ev\<lparr>m_threads_static := ts\<rparr>)))"

definition remove_dynamic :: "process \<Rightarrow> sc_event \<Rightarrow> bool \<times> sc_event" where
  "remove_dynamic p ev = (case p of
     Method m \<Rightarrow> (let (b, ms) = remove_swap m (length (m_methods_dynamic ev)) (m_methods_dynamic ev)
       in (b, ev\<lparr>m_methods_dynamic := ms\<rparr>))
   | Thread t \<Rightarrow> (let (b, ts) = remove_swap t (length (m_threads_dynamic ev)) (m_threads_dynamic ev)
       in (b, ev\<lparr>m_threads_dynamic := ts\<rparr>)))"

text \<open>The destructor takes the event out of the notifications and away from the processes that
  wait for it.\<close>

definition clear_waiting :: "nat \<Rightarrow> process \<Rightarrow> 'a kernel_scheme \<Rightarrow> 'a kernel_scheme" where
  "clear_waiting e p k = (if m_event_p (proc_of p k) = Some e then upd_proc p (\<lambda>q. q\<lparr>m_event_p := None\<rparr>) k else k)"

definition event_destroy :: "nat \<Rightarrow> 'a kernel_scheme \<Rightarrow> 'a kernel_scheme res" where
  "event_destroy e k = rbind (cancel e k) (\<lambda>k.
     let ev = k_event k e
     in Inr (fold (\<lambda>m. clear_waiting e (Method m)) (m_methods_dynamic ev)
          (fold (\<lambda>t. clear_waiting e (Thread t)) (m_threads_dynamic ev) k)))"

section \<open>Event lists\<close>

text \<open>\<open>sc_event_list\<close>: the vector of events; an event is put in once.\<close>

definition el_push :: "nat \<Rightarrow> nat list \<Rightarrow> nat list" where
  "el_push e el = (if e \<in> set el then el else el @ [e])"

definition el_push_list :: "nat list \<Rightarrow> nat list \<Rightarrow> nat list" where
  "el_push_list xs el = fold el_push (rev xs) el"

definition el_add_dynamic :: "process \<Rightarrow> nat list \<Rightarrow> 'a kernel_scheme \<Rightarrow> 'a kernel_scheme" where
  "el_add_dynamic p el k = fold (\<lambda>e. upd_event e (add_dynamic p)) (rev el) k"

definition el_remove_dynamic :: "process \<Rightarrow> nat option \<Rightarrow> nat list \<Rightarrow> 'a kernel_scheme \<Rightarrow> 'a kernel_scheme" where
  "el_remove_dynamic p e_not el k =
     fold (\<lambda>e. if Some e \<noteq> e_not then upd_event e (\<lambda>ev. snd (remove_dynamic p ev)) else (\<lambda>k. k)) (rev el) k"

end
