(* ===== verification/Sc_Notify.thy ===== *)
theory Sc_Notify
  imports Sc_Event
begin

text \<open>
  What the notifications of \<open>Sc_Event\<close> guarantee: the vector of delta notifications and the heap
  of timed notifications agree with the event objects, and an event has at most one pending
  notification, the earliest that was asked for.
\<close>

section \<open>The invariant\<close>

definition delta_ok :: "'a kernel_scheme \<Rightarrow> bool" where
  "delta_ok k \<longleftrightarrow> m_delta_size k \<le> length (m_delta_storage k) \<and> distinct (event_vector k) \<and>
     (\<forall>j < m_delta_size k. m_delta_event_index (k_event k (event_vector k ! j)) = int j) \<and>
     (\<forall>e. m_notify_type (k_event k e) = DELTA \<longleftrightarrow> e \<in> set (event_vector k))"

definition timed_ok :: "'a kernel_scheme \<Rightarrow> bool" where
  "timed_ok k \<longleftrightarrow> timed.pq_inv (k_timed k) (m_timed_events k) \<and>
     (\<forall>et \<in># pq_elems (m_timed_events k). et < k_next_timed k) \<and>
     (\<forall>et. count (pq_elems (m_timed_events k)) et \<le> 1) \<and>
     (\<forall>e et. m_notify_type (k_event k e) = TIMED \<and> m_timed (k_event k e) = Some et \<longleftrightarrow>
        et \<in># pq_elems (m_timed_events k) \<and> m_event (k_timed k et) = Some e) \<and>
     (\<forall>e. m_notify_type (k_event k e) = TIMED \<longrightarrow> m_timed (k_event k e) \<noteq> None)"

definition notify_inv :: "'a kernel_scheme \<Rightarrow> bool" where
  "notify_inv k \<longleftrightarrow> delta_ok k \<and> timed_ok k"

text \<open>The abstract state of an event: what is pending, the earlier the smaller, nothing last.\<close>

datatype pending = Next_Delta | At_Time sc_time | Nothing

instantiation pending :: linorder
begin

definition less_eq_pending :: "pending \<Rightarrow> pending \<Rightarrow> bool" where
  "less_eq_pending p q \<longleftrightarrow> (case p of
     Next_Delta \<Rightarrow> True
   | At_Time t \<Rightarrow> (case q of Next_Delta \<Rightarrow> False | At_Time u \<Rightarrow> t \<le> u | Nothing \<Rightarrow> True)
   | Nothing \<Rightarrow> q = Nothing)"

definition less_pending :: "pending \<Rightarrow> pending \<Rightarrow> bool" where
  "less_pending p q \<longleftrightarrow> p \<le> q \<and> \<not> q \<le> (p :: pending)"

instance
  by standard (auto simp: less_eq_pending_def less_pending_def split: pending.splits)

end

definition pending :: "'a kernel_scheme \<Rightarrow> nat \<Rightarrow> pending" where
  "pending k e = (case m_notify_type (k_event k e) of
     NONE \<Rightarrow> Nothing
   | DELTA \<Rightarrow> Next_Delta
   | TIMED \<Rightarrow> At_Time (m_notify_time (k_timed k (the (m_timed (k_event k e))))))"

text \<open>The rule of the language: of what is pending and what is asked for, the earlier one stays.\<close>

definition notify_rule :: "sc_time \<Rightarrow> sc_time \<Rightarrow> pending \<Rightarrow> pending" where
  "notify_rule now t p = min p (if t = 0 then Next_Delta else At_Time (now + t))"

lemma notify_rule_cases:
  "notify_rule now t p = (case p of
     Next_Delta \<Rightarrow> Next_Delta
   | Nothing \<Rightarrow> (if t = 0 then Next_Delta else At_Time (now + t))
   | At_Time u \<Rightarrow> (if t = 0 then Next_Delta else if u \<le> now + t then p else At_Time (now + t)))"
  by (cases p) (auto simp: notify_rule_def min_def less_eq_pending_def)

lemma upd_event_twice: "upd_event e f (upd_event e g k) = upd_event e (\<lambda>ev. f (g ev)) k"
  by (simp add: upd_event_def)

section \<open>Delta notifications\<close>

lemma swap_remove:
  assumes "distinct xs" and "i < length xs"
  shows "distinct (butlast (xs[i := last xs])) \<and> set (butlast (xs[i := last xs])) = set xs - {xs ! i}"
proof (cases xs rule: rev_cases)
  case (snoc ys l)
  show ?thesis
  proof (cases "i = length ys")
    case True
    then show ?thesis using assms snoc by auto
  next
    case False
    then have i: "i < length ys" using assms(2) snoc by simp
    have b: "butlast (xs[i := last xs]) = ys[i := l]" using i snoc by (simp add: list_update_append butlast_append)
    have "distinct (ys[i := l])" using assms(1) snoc i by (intro distinct_list_update) auto
    moreover have "set (ys[i := l]) = insert l (set ys - {ys ! i})"
      using assms(1) snoc i by (intro set_update_distinct) auto
    moreover have "ys ! i \<noteq> l" using assms(1) snoc i nth_mem [OF i] by auto
    ultimately show ?thesis using snoc i b assms(1) by (auto simp: nth_append)
  qed
qed (use assms in simp)

lemma length_event_vector: "m_delta_size k \<le> length (m_delta_storage k) \<Longrightarrow> length (event_vector k) = m_delta_size k"
  by (simp add: event_vector_def)

definition only_deltas :: "'a kernel_scheme \<Rightarrow> 'a kernel_scheme \<Rightarrow> bool" where
  "only_deltas k k' \<longleftrightarrow>
     k' = k\<lparr>m_delta_storage := m_delta_storage k', m_delta_size := m_delta_size k', k_event := k_event k'\<rparr>"

lemma only_deltas_frame:
  assumes "only_deltas k k'"
  shows "m_timed_events k' = m_timed_events k" "k_timed k' = k_timed k" "k_next_timed k' = k_next_timed k"
proof -
  obtain st n ev where "k' = k\<lparr>m_delta_storage := st, m_delta_size := n, k_event := ev\<rparr>"
    using assms unfolding only_deltas_def by blast
  then show "m_timed_events k' = m_timed_events k" "k_timed k' = k_timed k" "k_next_timed k' = k_next_timed k"
    by simp_all
qed

lemma remove_delta_event_ok:
  assumes ok: "delta_ok k" and e: "m_notify_type (k_event k e) = DELTA"
  obtains k' i where "remove_delta_event e k = Inr k'"
    and "event_vector k' = butlast ((event_vector k)[i := last (event_vector k)])" and "i < m_delta_size k"
    and "event_vector k ! i = e"
    and "only_deltas k k'" and "m_delta_size k' = m_delta_size k - 1"
    and "m_delta_size k' \<le> length (m_delta_storage k')"
    and "\<forall>x. k_event k' x = (k_event k x)\<lparr>m_delta_event_index :=
      if x = e then -1 else if x = last (event_vector k) then int i else m_delta_event_index (k_event k x)\<rparr>"
proof -
  let ?v = "event_vector k" and ?n = "m_delta_size k"
  have len: "?n \<le> length (m_delta_storage k)" "length ?v = ?n"
    using ok by (auto simp: delta_ok_def event_vector_def)
  have "e \<in> set ?v" using ok e by (auto simp: delta_ok_def)
  then obtain i where i: "i < ?n" "?v ! i = e" using len by (auto simp: in_set_conv_nth)
  then have idx: "m_delta_event_index (k_event k e) = int i" using ok by (auto simp: delta_ok_def)
  have last: "m_delta_storage k ! (?n - 1) = last ?v"
    using i len by (subst last_conv_nth) (auto simp: event_vector_def)
  have nj: "nat (int ?n - 1) = ?n - 1" by simp
  have dist: "distinct ?v" using ok by (simp add: delta_ok_def)
  let ?k1 = "if i \<noteq> ?n - 1 then upd_event (last ?v) (\<lambda>ev. ev\<lparr>m_delta_event_index := int i\<rparr>)
      (k\<lparr>m_delta_storage := (m_delta_storage k)[i := last ?v]\<rparr>) else k"
  let ?k' = "upd_event e (\<lambda>ev. ev\<lparr>m_delta_event_index := -1\<rparr>) (?k1\<lparr>m_delta_size := m_delta_size ?k1 - 1\<rparr>)"
  have eq: "remove_delta_event e k = Inr ?k'"
    using i idx last nj by (auto simp: remove_delta_event_def Let_def)
  have sz: "m_delta_size ?k1 = ?n" by (simp add: upd_event_def)
  have vec: "event_vector ?k' = butlast (?v[i := last ?v])"
  proof (cases "i = ?n - 1")
    case True
    then have "last ?v = ?v ! i" using i len by (metis last_conv_nth length_0_conv less_zeroE)
    then have "?v[i := last ?v] = ?v" by (simp only: list_update_id)
    then show ?thesis using True i len by (simp add: event_vector_def upd_event_def butlast_take)
  next
    case False
    have "take ?n ((m_delta_storage k)[i := last ?v]) = ?v[i := last ?v]"
      by (simp add: event_vector_def take_update_swap)
    moreover have "butlast (take ?n ((m_delta_storage k)[i := last ?v])) = take (?n - 1) ((m_delta_storage k)[i := last ?v])"
      using len by (intro butlast_take) simp
    ultimately show ?thesis using False by (simp add: event_vector_def upd_event_def)
  qed
  have el: "i = ?n - 1 \<Longrightarrow> last ?v = e" using i len by (metis last_conv_nth length_0_conv less_zeroE)
  have frame: "only_deltas k ?k'" "m_delta_size ?k' = ?n - 1"
    by (simp_all add: upd_event_def only_deltas_def)
  have evs: "k_event ?k' x = (k_event k x)\<lparr>m_delta_event_index :=
      if x = e then -1 else if x = last ?v then int i else m_delta_event_index (k_event k x)\<rparr>" for x
    using el by (auto simp: upd_event_def)
  have "m_delta_size ?k' \<le> length (m_delta_storage ?k')" using len by (auto simp: upd_event_def)
  with that [OF eq vec i frame] evs show ?thesis by blast
qed


lemma delta_ok_removed:
  assumes "delta_ok k" and "m_notify_type (k_event k e) = DELTA" and "remove_delta_event e k = Inr k'"
  shows "delta_ok (upd_event e (\<lambda>ev. ev\<lparr>m_notify_type := NONE\<rparr>) k')"
proof -
  let ?v = "event_vector k"
  obtain k1 i where rem: "remove_delta_event e k = Inr k1" and v: "event_vector k1 = butlast (?v[i := last ?v])" "i < m_delta_size k" "?v ! i = e"
    and sz': "m_delta_size k1 = m_delta_size k - 1"
    and sz: "m_delta_size k1 \<le> length (m_delta_storage k1)"
    and ev: "\<forall>x. k_event k1 x = (k_event k x)\<lparr>m_delta_event_index :=
      if x = e then -1 else if x = last ?v then int i else m_delta_event_index (k_event k x)\<rparr>"
    using remove_delta_event_ok [OF assms(1,2)] by blast
  have eq: "k' = k1" using rem assms(3) by simp
  let ?k = "upd_event e (\<lambda>ev. ev\<lparr>m_notify_type := NONE\<rparr>) k1"
  have dist: "distinct ?v" and len: "length ?v = m_delta_size k"
    using assms(1) by (auto simp: delta_ok_def event_vector_def)
  have sr: "distinct (event_vector k1)" "set (event_vector k1) = set ?v - {e}"
    using swap_remove [OF dist, of i] v len by auto
  have vk: "event_vector ?k = event_vector k1" "m_delta_size ?k = m_delta_size k1" "m_delta_storage ?k = m_delta_storage k1"
    by (simp_all add: event_vector_def upd_event_def)
  have idx: "m_delta_event_index (k_event ?k (event_vector k1 ! j)) = int j" if j: "j < m_delta_size k1" for j
  proof -
    have jn: "j < m_delta_size k - 1" using j sz' by simp
    have mem: "event_vector k1 ! j \<in> set (event_vector k1)" using j sz by (intro nth_mem) (simp add: event_vector_def)
    then have ne: "event_vector k1 ! j \<noteq> e" using sr(2) by blast
    have old: "m_delta_event_index (k_event k (?v ! j)) = int j" using assms(1) jn by (simp add: delta_ok_def)
    show ?thesis
    proof (cases "j = i")
      case True
      then have "event_vector k1 ! j = last ?v" using v(1) jn len by (simp add: nth_butlast)
      then show ?thesis using ne ev True by (simp add: upd_event_def)
    next
      case False
      then have at: "event_vector k1 ! j = ?v ! j" using v(1) jn len by (simp add: nth_butlast)
      have "?v ! j \<noteq> ?v ! (m_delta_size k - 1)" using dist jn len by (simp add: nth_eq_iff_index_eq)
      then have "?v ! j \<noteq> last ?v" using jn len by (metis last_conv_nth length_0_conv less_zeroE diff_0_eq_0)
      then show ?thesis using ne ev at old by (simp add: upd_event_def)
    qed
  qed
  have "m_notify_type (k_event ?k x) = DELTA \<longleftrightarrow> x \<in> set ?v - {e}" for x
    using assms(1) ev by (auto simp: upd_event_def delta_ok_def)
  then show ?thesis using sr sz idx unfolding eq by (simp add: delta_ok_def vk)
qed

lemma delta_ok_make:
  assumes "delta_ok k" and "m_notify_type (k_event k e) \<noteq> DELTA"
  shows "delta_ok (make_delta e k)"
proof -
  let ?v = "event_vector k" and ?k = "make_delta e k"
  have len: "length ?v = m_delta_size k" and e: "e \<notin> set ?v" using assms by (auto simp: delta_ok_def event_vector_def)
  have k: "m_delta_storage ?k = ?v @ [e]" "m_delta_size ?k = Suc (m_delta_size k)" "event_vector ?k = ?v @ [e]"
    using len by (simp_all add: make_delta_def add_delta_event_def upd_event_def Let_def event_vector_def)
  have ev: "k_event ?k = (k_event k)(e := (k_event k e)\<lparr>m_delta_event_index := int (m_delta_size k), m_notify_type := DELTA\<rparr>)"
    by (simp add: make_delta_def add_delta_event_def upd_event_def Let_def)
  have "m_delta_event_index (k_event ?k ((?v @ [e]) ! j)) = int j" if "j < Suc (m_delta_size k)" for j
  proof (cases "j = m_delta_size k")
    case False
    then have "j < m_delta_size k" using that by simp
    then have "?v ! j \<in> set ?v" using len by simp
    then have "?v ! j \<noteq> e" using e by blast
    then show ?thesis using \<open>j < m_delta_size k\<close> len assms(1) ev by (simp add: nth_append delta_ok_def)
  qed (simp add: ev len [symmetric])
  moreover have "m_notify_type (k_event ?k x) = DELTA \<longleftrightarrow> x = e \<or> x \<in> set ?v" for x
    using assms(1) ev by (simp add: delta_ok_def)
  ultimately show ?thesis using assms(1) e k len by (simp add: delta_ok_def)
qed


section \<open>Timed notifications\<close>

lemma pq_nth_elem:
  assumes "pq_space q" and "1 \<le> j" and "j \<le> m_heap_size q"
  shows "m_heap q ! j \<in># pq_elems q"
proof -
  have len: "m_heap_size q < length (m_heap q)" using assms(1) by (simp add: pq_space_def)
  have "heap_elems (m_heap q) (m_heap_size q) ! (j - 1) \<in> set (heap_elems (m_heap q) (m_heap_size q))"
    using assms len by (intro nth_mem) simp
  then show ?thesis using assms len by (simp add: nth_heap_elems pq_elems_def)
qed

lemma timed_pq_cong:
  assumes "timed.pq_inv tm q" and "\<And>x. x \<in># pq_elems q \<Longrightarrow> m_notify_time (tm' x) = m_notify_time (tm x)"
  shows "timed.pq_inv tm' q"
proof -
  have sp: "pq_space q" using assms(1) by (simp add: timed.pq_inv_def)
  have "timed.below tm' (m_heap q) j" if j: "2 \<le> j" "j \<le> m_heap_size q" for j
  proof -
    have "m_heap q ! j \<in># pq_elems q" "m_heap q ! pq_parent j \<in># pq_elems q"
      using j by (auto intro!: pq_nth_elem [OF sp] simp: pq_parent_def)
    moreover have "timed.below tm (m_heap q) j"
      using assms(1) j by (simp add: timed.pq_inv_def timed.is_heap_def)
    ultimately show ?thesis
      using assms(2) by (simp add: timed.below_def sc_notify_time_compare_def)
  qed
  then show ?thesis using sp by (simp add: timed.pq_inv_def timed.is_heap_def)
qed

text \<open>Forgetting the timed notification of an event, and adding one.\<close>

lemma drop_timed_ok:
  assumes "timed_ok k" and "m_notify_type (k_event k e) = TIMED"
  obtains et where "m_timed (k_event k e) = Some et"
    and "drop_timed e k = Inr (upd_event e (\<lambda>ev. ev\<lparr>m_timed := None\<rparr>) (upd_timed et (\<lambda>t. t\<lparr>m_event := None\<rparr>) k))"
  using assms by (auto simp: timed_ok_def drop_timed_def)

lemma timed_ok_dropped:
  assumes ok: "timed_ok k" and e: "m_notify_type (k_event k e) = TIMED" and et: "m_timed (k_event k e) = Some et"
  shows "timed_ok (upd_event e (\<lambda>ev. ev\<lparr>m_timed := None, m_notify_type := NONE\<rparr>) (upd_timed et (\<lambda>t. t\<lparr>m_event := None\<rparr>) k))"
    (is "timed_ok ?k")
proof -
  have q: "m_timed_events ?k = m_timed_events k" "k_next_timed ?k = k_next_timed k"
    by (simp_all add: upd_event_def upd_timed_def)
  have tm: "k_timed ?k = (k_timed k)(et := (k_timed k et)\<lparr>m_event := None\<rparr>)"
    and ev: "k_event ?k = (k_event k)(e := (k_event k e)\<lparr>m_timed := None, m_notify_type := NONE\<rparr>)"
    by (simp_all add: upd_event_def upd_timed_def)
  have "timed.pq_inv (k_timed ?k) (m_timed_events ?k)"
    unfolding q tm by (rule timed_pq_cong [of "k_timed k"]) (use ok in \<open>simp_all add: timed_ok_def\<close>)
  moreover have own: "et' \<in># pq_elems (m_timed_events k) \<Longrightarrow> m_event (k_timed k et') = Some e \<Longrightarrow> et' = et" for et'
    using ok et unfolding timed_ok_def by force
  moreover have "m_event (k_timed k et) = Some e"
    using ok e et unfolding timed_ok_def by blast
  moreover have "\<forall>e' x. m_notify_type (k_event ?k e') = TIMED \<and> m_timed (k_event ?k e') = Some x \<longleftrightarrow>
      x \<in># pq_elems (m_timed_events k) \<and> m_event (k_timed ?k x) = Some e'"
  proof (intro allI)
    fix e' x
    have old: "m_notify_type (k_event k e') = TIMED \<and> m_timed (k_event k e') = Some x \<longleftrightarrow>
        x \<in># pq_elems (m_timed_events k) \<and> m_event (k_timed k x) = Some e'"
      using ok by (simp add: timed_ok_def)
    show "m_notify_type (k_event ?k e') = TIMED \<and> m_timed (k_event ?k e') = Some x \<longleftrightarrow>
        x \<in># pq_elems (m_timed_events k) \<and> m_event (k_timed ?k x) = Some e'"
    proof (cases "x = et")
      case True
      then show ?thesis using old e et \<open>m_event (k_timed k et) = Some e\<close> unfolding tm ev by auto
    next
      case False
      then show ?thesis using old own [of x] unfolding tm ev by auto
    qed
  qed
  moreover have "\<forall>e'. m_notify_type (k_event ?k e') = TIMED \<longrightarrow> m_timed (k_event ?k e') \<noteq> None"
    using ok by (simp add: ev timed_ok_def)
  ultimately show ?thesis using ok by (simp add: timed_ok_def q)
qed

lemma timed_ok_make:
  assumes ok: "timed_ok k" and e: "m_notify_type (k_event k e) \<noteq> TIMED"
  shows "timed_ok (make_timed e t k)"
proof -
  let ?n = "k_next_timed k" and ?k = "make_timed e t k"
  let ?q = "m_timed_events k" and ?tm = "(k_timed k)(?n := \<lparr>m_event = Some e, m_notify_time = sc_time_add (m_curr_time k) t\<rparr>)"
  have k: "k_timed ?k = ?tm" "k_next_timed ?k = Suc ?n"
    "m_timed_events ?k = pq_insert 0 (sc_notify_time_compare ?tm) ?n ?q"
    "k_event ?k = (k_event k)(e := (k_event k e)\<lparr>m_timed := Some ?n, m_notify_type := TIMED\<rparr>)"
    by (simp_all add: make_timed_def new_timed_def upd_event_def add_timed_event_def Let_def)
  have new: "et \<in># pq_elems ?q \<Longrightarrow> et \<noteq> ?n" for et using ok by (auto simp: timed_ok_def)
  have "timed.pq_inv ?tm ?q"
    by (rule timed_pq_cong [of "k_timed k"]) (use ok new in \<open>auto simp: timed_ok_def\<close>)
  then have q: "timed.pq_inv ?tm (m_timed_events ?k)" "pq_elems (m_timed_events ?k) = add_mset ?n (pq_elems ?q)"
    using timed.insert_inv [of ?tm ?q 0 ?n] k(3) by simp_all
  have c: "count (pq_elems ?q) ?n = 0" using new by (metis not_in_iff)
  have un: "et \<in># pq_elems ?q \<Longrightarrow> m_event (k_timed k et) \<noteq> Some e" for et
    using ok e unfolding timed_ok_def by blast
  show ?thesis
    unfolding timed_ok_def k(1,2,4)
  proof (intro conjI)
    show "\<forall>x. count (pq_elems (m_timed_events ?k)) x \<le> 1" using ok c q(2) by (auto simp: timed_ok_def)
    show "\<forall>x\<in>#pq_elems (m_timed_events ?k). x < Suc ?n" using ok q(2) by (auto simp: timed_ok_def)
    show "\<forall>e' x. m_notify_type (((k_event k)(e := (k_event k e)\<lparr>m_timed := Some ?n, m_notify_type := TIMED\<rparr>)) e') = TIMED \<and>
        m_timed (((k_event k)(e := (k_event k e)\<lparr>m_timed := Some ?n, m_notify_type := TIMED\<rparr>)) e') = Some x \<longleftrightarrow>
        x \<in># pq_elems (m_timed_events ?k) \<and> m_event (?tm x) = Some e'"
    proof (intro allI)
      fix e' x
      have old: "m_notify_type (k_event k e') = TIMED \<and> m_timed (k_event k e') = Some x \<longleftrightarrow>
          x \<in># pq_elems ?q \<and> m_event (k_timed k x) = Some e'"
        using ok by (simp add: timed_ok_def)
      show "m_notify_type (((k_event k)(e := (k_event k e)\<lparr>m_timed := Some ?n, m_notify_type := TIMED\<rparr>)) e') = TIMED \<and>
        m_timed (((k_event k)(e := (k_event k e)\<lparr>m_timed := Some ?n, m_notify_type := TIMED\<rparr>)) e') = Some x \<longleftrightarrow>
        x \<in># pq_elems (m_timed_events ?k) \<and> m_event (?tm x) = Some e'"
        using old un [of x] new [of x] q(2) by (cases "x = ?n"; cases "e' = e") auto
    qed
    show "\<forall>e'. m_notify_type (((k_event k)(e := (k_event k e)\<lparr>m_timed := Some ?n, m_notify_type := TIMED\<rparr>)) e') = TIMED \<longrightarrow>
        m_timed (((k_event k)(e := (k_event k e)\<lparr>m_timed := Some ?n, m_notify_type := TIMED\<rparr>)) e') \<noteq> None"
      using ok by (simp add: timed_ok_def)
  qed (use q in simp)
qed

section \<open>The operations refine the rule\<close>

lemma delta_ok_frame:
  "delta_ok k \<Longrightarrow> m_delta_size k' = m_delta_size k \<Longrightarrow> m_delta_storage k' = m_delta_storage k \<Longrightarrow>
     (\<And>e. m_delta_event_index (k_event k' e) = m_delta_event_index (k_event k e) \<and>
       (m_notify_type (k_event k' e) = DELTA \<longleftrightarrow> m_notify_type (k_event k e) = DELTA)) \<Longrightarrow> delta_ok k'"
  by (simp add: delta_ok_def event_vector_def)

lemma timed_ok_frame:
  "timed_ok k \<Longrightarrow> m_timed_events k' = m_timed_events k \<Longrightarrow> k_timed k' = k_timed k \<Longrightarrow> k_next_timed k' = k_next_timed k \<Longrightarrow>
     (\<And>e. (m_notify_type (k_event k' e) = TIMED \<longleftrightarrow> m_notify_type (k_event k e) = TIMED) \<and>
       m_timed (k_event k' e) = m_timed (k_event k e)) \<Longrightarrow> timed_ok k'"
  by (simp add: timed_ok_def)

text \<open>What the operations leave alone.\<close>

definition same_rest :: "'a kernel_scheme \<Rightarrow> 'a kernel_scheme \<Rightarrow> bool" where
  "same_rest k k' \<longleftrightarrow> k' = k\<lparr>k_event := k_event k', k_timed := k_timed k', k_next_timed := k_next_timed k',
     m_delta_storage := m_delta_storage k', m_delta_size := m_delta_size k', m_timed_events := m_timed_events k'\<rparr> \<and>
     (\<forall>e. m_trigger_stamp (k_event k' e) = m_trigger_stamp (k_event k e) \<and>
        m_methods_static (k_event k' e) = m_methods_static (k_event k e) \<and>
        m_methods_dynamic (k_event k' e) = m_methods_dynamic (k_event k e) \<and>
        m_threads_static (k_event k' e) = m_threads_static (k_event k e) \<and>
        m_threads_dynamic (k_event k' e) = m_threads_dynamic (k_event k e))"

definition refines_to :: "'a kernel_scheme \<Rightarrow> 'a kernel_scheme \<Rightarrow> (nat \<Rightarrow> pending) \<Rightarrow> bool" where
  "refines_to k k' p \<longleftrightarrow> notify_inv k' \<and> pending k' = p \<and> same_rest k k'"

lemma only_deltas_same_rest:
  assumes "only_deltas k k1" and "\<forall>x. \<exists>i. k_event k1 x = (k_event k x)\<lparr>m_delta_event_index := i\<rparr>"
  shows "same_rest k (upd_event e (\<lambda>ev. ev\<lparr>m_notify_type := t\<rparr>) k1)"
proof -
  let ?k = "upd_event e (\<lambda>ev. ev\<lparr>m_notify_type := t\<rparr>) k1"
  obtain st n ev where k1: "k1 = k\<lparr>m_delta_storage := st, m_delta_size := n, k_event := ev\<rparr>"
    using assms(1) unfolding only_deltas_def by blast
  have "\<forall>x. \<exists>i. ev x = (k_event k x)\<lparr>m_delta_event_index := i\<rparr>" using assms(2) by (simp add: k1)
  then have "\<exists>ix. \<forall>x. ev x = (k_event k x)\<lparr>m_delta_event_index := ix x\<rparr>" by (rule choice)
  then obtain ix where "\<And>x. ev x = (k_event k x)\<lparr>m_delta_event_index := ix x\<rparr>" by (elim exE) simp
  then show ?thesis by (simp add: same_rest_def upd_event_def k1)
qed

lemma cancel_refines:
  assumes "notify_inv k"
  shows "\<exists>k'. cancel e k = Inr k' \<and> refines_to k k' ((pending k)(e := Nothing))"
proof (cases "m_notify_type (k_event k e)")
  case NONE
  then have "pending k e = Nothing" by (simp add: pending_def)
  then show ?thesis using assms NONE by (auto simp: cancel_def refines_to_def same_rest_def)
next
  case DELTA
  have d: "delta_ok k" and t: "timed_ok k" using assms by (simp_all add: notify_inv_def)
  obtain k1 i where rem: "remove_delta_event e k = Inr k1"
    and k1: "only_deltas k k1"
    and ev: "\<forall>x. k_event k1 x = (k_event k x)\<lparr>m_delta_event_index :=
      if x = e then -1 else if x = last (event_vector k) then int i else m_delta_event_index (k_event k x)\<rparr>"
    using remove_delta_event_ok [OF d DELTA] by blast
  let ?k = "upd_event e (\<lambda>ev. ev\<lparr>m_notify_type := NONE\<rparr>) k1"
  note q = only_deltas_frame [OF k1]
  have "timed_ok ?k"
    by (rule timed_ok_frame [OF t]) (use q ev DELTA in \<open>auto simp: upd_event_def\<close>)
  moreover have "delta_ok ?k" by (rule delta_ok_removed [OF d DELTA rem])
  moreover have "pending ?k = (pending k)(e := Nothing)"
    using ev q by (auto simp: pending_def upd_event_def fun_eq_iff split: notify_t.splits)
  moreover have "same_rest k ?k"
    by (rule only_deltas_same_rest [OF k1]) (use ev in blast)
  moreover have "cancel e k = Inr ?k" using DELTA rem by (simp add: cancel_def)
  ultimately show ?thesis unfolding refines_to_def notify_inv_def by blast
next
  case TIMED
  have d: "delta_ok k" and t: "timed_ok k" using assms by (simp_all add: notify_inv_def)
  obtain et where et: "m_timed (k_event k e) = Some et"
    and dr: "drop_timed e k = Inr (upd_event e (\<lambda>ev. ev\<lparr>m_timed := None\<rparr>) (upd_timed et (\<lambda>t. t\<lparr>m_event := None\<rparr>) k))"
    using drop_timed_ok [OF t TIMED] by blast
  let ?k = "upd_event e (\<lambda>ev. ev\<lparr>m_timed := None, m_notify_type := NONE\<rparr>) (upd_timed et (\<lambda>t. t\<lparr>m_event := None\<rparr>) k)"
  have "timed_ok ?k" by (rule timed_ok_dropped [OF t TIMED et])
  moreover have "delta_ok ?k"
    by (rule delta_ok_frame [OF d]) (use TIMED in \<open>auto simp: upd_event_def upd_timed_def\<close>)
  moreover have "pending ?k = (pending k)(e := Nothing)"
    by (auto simp: pending_def upd_event_def upd_timed_def fun_eq_iff split: notify_t.splits)
  moreover have "same_rest k ?k" by (simp add: same_rest_def upd_event_def upd_timed_def)
  moreover have "cancel e k = Inr ?k" using TIMED dr by (simp add: cancel_def upd_event_twice)
  ultimately show ?thesis unfolding refines_to_def notify_inv_def by blast
qed


lemma cancel_ignores_type:
  "m_notify_type (k_event k e) = TIMED \<Longrightarrow> drop_timed e k = Inr k1 \<Longrightarrow> cancel e k = Inr k2 \<Longrightarrow>
     make_delta e k1 = make_delta e k2 \<and> make_timed e t k1 = make_timed e t k2"
  by (auto simp: cancel_def make_delta_def make_timed_def add_delta_event_def new_timed_def upd_event_def add_timed_event_def
      Let_def event_vector_def)

lemma make_delta_refines:
  assumes "notify_inv k" and "m_notify_type (k_event k e) = NONE"
  shows "refines_to k (make_delta e k) ((pending k)(e := Next_Delta))"
proof -
  let ?k = "make_delta e k"
  have "delta_ok ?k" using assms by (intro delta_ok_make) (simp_all add: notify_inv_def)
  moreover have "timed_ok ?k"
    by (rule timed_ok_frame [of k]) (use assms in \<open>auto simp: notify_inv_def make_delta_def add_delta_event_def upd_event_def\<close>)
  moreover have "pending ?k = (pending k)(e := Next_Delta)"
    by (auto simp: pending_def fun_eq_iff make_delta_def add_delta_event_def upd_event_def split: notify_t.splits)
  moreover have "same_rest k ?k"
    by (simp add: same_rest_def make_delta_def add_delta_event_def upd_event_def)
  ultimately show ?thesis unfolding refines_to_def notify_inv_def by blast
qed

lemma make_timed_refines:
  assumes "notify_inv k" and "m_notify_type (k_event k e) = NONE"
  shows "refines_to k (make_timed e t k) ((pending k)(e := At_Time (m_curr_time k + t)))"
proof -
  let ?k = "make_timed e t k"
  have t: "timed_ok k" using assms(1) by (simp add: notify_inv_def)
  have "timed_ok ?k" by (rule timed_ok_make [OF t]) (simp add: assms(2))
  moreover have "delta_ok ?k"
    by (rule delta_ok_frame [of k])
      (use assms in \<open>auto simp: notify_inv_def make_timed_def new_timed_def add_timed_event_def upd_event_def\<close>)
  moreover have "pending ?k = (pending k)(e := At_Time (m_curr_time k + t))"
  proof
    fix x
    have "m_notify_type (k_event k x) = TIMED \<Longrightarrow> \<exists>et. m_timed (k_event k x) = Some et \<and> et \<noteq> k_next_timed k"
      using t unfolding timed_ok_def by (metis less_irrefl not_None_eq)
    then show "pending ?k x = ((pending k)(e := At_Time (m_curr_time k + t))) x"
      by (auto simp: pending_def make_timed_def new_timed_def add_timed_event_def upd_event_def sc_time_add_def
          split: notify_t.splits)
  qed
  moreover have "same_rest k ?k"
    by (simp add: same_rest_def make_timed_def new_timed_def add_timed_event_def upd_event_def)
  ultimately show ?thesis unfolding refines_to_def notify_inv_def by blast
qed

lemma same_rest_trans: "same_rest k1 k2 \<Longrightarrow> same_rest k2 k3 \<Longrightarrow> same_rest k1 k3"
proof -
  assume a: "same_rest k1 k2" "same_rest k2 k3"
  obtain e2 t2 n2 s2 z2 q2 where k2: "k2 = k1\<lparr>k_event := e2, k_timed := t2, k_next_timed := n2,
     m_delta_storage := s2, m_delta_size := z2, m_timed_events := q2\<rparr>" using a(1) unfolding same_rest_def by blast
  obtain e3 t3 n3 s3 z3 q3 where k3: "k3 = k2\<lparr>k_event := e3, k_timed := t3, k_next_timed := n3,
     m_delta_storage := s3, m_delta_size := z3, m_timed_events := q3\<rparr>" using a(2) unfolding same_rest_def by blast
  show "same_rest k1 k3" using a by (simp add: same_rest_def k2 k3)
qed

lemma refines_after:
  assumes "refines_to k k1 ((pending k)(e := Nothing))" and "refines_to k1 k2 ((pending k1)(e := p))"
  shows "refines_to k k2 ((pending k)(e := p))"
  using assms same_rest_trans [of k k1 k2] by (auto simp: refines_to_def)

lemma refines_none: "refines_to k k' ((pending k)(e := Nothing)) \<Longrightarrow> m_notify_type (k_event k' e) = NONE"
proof -
  assume "refines_to k k' ((pending k)(e := Nothing))"
  then have "pending k' e = Nothing" by (simp add: refines_to_def)
  then show ?thesis by (cases "m_notify_type (k_event k' e)") (simp_all add: pending_def)
qed

lemma same_rest_time: "same_rest k k' \<Longrightarrow> m_curr_time k' = m_curr_time k"
proof -
  assume "same_rest k k'"
  then obtain e2 t2 n2 s2 z2 q2 where "k' = k\<lparr>k_event := e2, k_timed := t2, k_next_timed := n2,
     m_delta_storage := s2, m_delta_size := z2, m_timed_events := q2\<rparr>" unfolding same_rest_def by blast
  then show ?thesis by simp
qed


lemma drop_timed_total:
  "notify_inv k \<Longrightarrow> m_notify_type (k_event k e) = TIMED \<Longrightarrow> \<exists>k1. drop_timed e k = Inr k1"
  by (auto simp: notify_inv_def timed_ok_def drop_timed_def split: option.split)

lemma notify_at_refines:
  assumes inv: "notify_inv k"
  shows "\<exists>k'. notify_at e t k = Inr k' \<and>
    refines_to k k' ((pending k)(e := notify_rule (m_curr_time k) t (pending k e)))"
proof (cases "m_notify_type (k_event k e)")
  case NONE
  then have "pending k e = Nothing" by (simp add: pending_def)
  then show ?thesis using make_delta_refines [OF inv NONE] make_timed_refines [OF inv NONE, of t] NONE
    by (auto simp: notify_at_def notify_rule_cases SC_ZERO_TIME_def)
next
  case DELTA
  then have "pending k e = Next_Delta" by (simp add: pending_def)
  then have "(pending k)(e := Next_Delta) = pending k" by auto
  then show ?thesis using DELTA inv \<open>pending k e = Next_Delta\<close>
    by (auto simp: notify_at_def notify_rule_cases refines_to_def same_rest_def)
next
  case TIMED
  obtain et where et: "m_timed (k_event k e) = Some et" using inv TIMED by (auto simp: notify_inv_def timed_ok_def)
  obtain k1 where k1: "drop_timed e k = Inr k1" using drop_timed_total [OF inv TIMED] by blast
  obtain k2 where k2: "cancel e k = Inr k2" "refines_to k k2 ((pending k)(e := Nothing))"
    using cancel_refines [OF inv] by blast
  have inv2: "notify_inv k2" and none: "m_notify_type (k_event k2 e) = NONE" and now: "m_curr_time k2 = m_curr_time k"
    using k2(2) refines_none [OF k2(2)] same_rest_time by (auto simp: refines_to_def)
  note same = cancel_ignores_type [OF TIMED k1 k2(1), of t]
  have d: "refines_to k (make_delta e k1) ((pending k)(e := Next_Delta))"
    using refines_after [OF k2(2) make_delta_refines [OF inv2 none]] same by simp
  have m: "refines_to k (make_timed e t k1) ((pending k)(e := At_Time (m_curr_time k + t)))"
    using refines_after [OF k2(2) make_timed_refines [OF inv2 none, of t]] same now by simp
  have p: "pending k e = At_Time (m_notify_time (k_timed k et))" using TIMED et by (simp add: pending_def)
  then have "(pending k)(e := At_Time (m_notify_time (k_timed k et))) = pending k" by auto
  then have "refines_to k k ((pending k)(e := At_Time (m_notify_time (k_timed k et))))"
    using inv by (simp add: refines_to_def same_rest_def)
  then show ?thesis using d m p TIMED et k1
    by (auto simp: notify_at_def notify_rule_cases SC_ZERO_TIME_def sc_time_add_def)
qed

text \<open>C5: notifications.  As long as the event objects, the vector of delta notifications and the
  heap of timed notifications agree, cancelling an event and notifying it for a time never fail, keep them in
  agreement, change the pending notification of that event only, and what is pending afterwards
  is what the rule of the language says, the earlier of the two: a delta notification stays, an earlier notification
  overrides a later one, a later one is ignored.  The other forms (\<open>notify_delayed\<close> with and without
  a time, \<open>notify_internal\<close>, \<open>notify_next_delta\<close>) do the same for an event with nothing pending;
  for any other event all of them but \<open>notify_internal\<close>, which does not look, are refused.\<close>

theorem notifications_follow_rule:
  assumes "notify_inv k"
  shows "(\<exists>k'. cancel e k = Inr k' \<and> refines_to k k' ((pending k)(e := Nothing))) \<and>
    (\<exists>k'. notify_at e t k = Inr k' \<and>
       refines_to k k' ((pending k)(e := notify_rule (m_curr_time k) t (pending k e)))) \<and>
    (if pending k e = Nothing
     then (\<exists>k'. notify_delayed_at e t k = Inr k' \<and>
         refines_to k k' ((pending k)(e := notify_rule (m_curr_time k) t Nothing))) \<and>
       refines_to k (notify_internal e t k) ((pending k)(e := notify_rule (m_curr_time k) t Nothing)) \<and>
       (\<exists>k'. notify_delayed e k = Inr k' \<and> refines_to k k' ((pending k)(e := Next_Delta))) \<and>
       (\<exists>k'. notify_next_delta e k = Inr k' \<and> refines_to k k' ((pending k)(e := Next_Delta)))
     else notify_delayed_at e t k = Inl NotifyDelayed \<and> notify_delayed e k = Inl NotifyDelayed \<and>
       notify_next_delta e k = Inl NotifyDelayed)"
proof -
  have n: "pending k e = Nothing \<longleftrightarrow> m_notify_type (k_event k e) = NONE"
    by (simp add: pending_def split: notify_t.split)
  have same: "m_notify_type (k_event k e) = NONE \<Longrightarrow> notify_delayed_at e t k = notify_at e t k"
    "m_notify_type (k_event k e) = NONE \<Longrightarrow> notify_at e t k = Inr (notify_internal e t k)"
    by (simp_all add: notify_delayed_at_def notify_at_def notify_internal_def)
  then show ?thesis using cancel_refines [OF assms, of e] notify_at_refines [OF assms, of e t] make_delta_refines [OF assms, of e] n
    by (auto simp: notify_delayed_at_def notify_delayed_def notify_next_delta_def)
qed

lemma simcontext_init_inv: "notify_inv (simcontext_init wc st co)"
  using timed.new_inv [of "k_timed (simcontext_init wc st co)" 0 128]
  by (simp add: notify_inv_def delta_ok_def timed_ok_def simcontext_init_def event_vector_def sc_event_new_def)

theorem notifications_follow_rule_witness:
  "\<exists>k'. notify_at 3 (5 :: sc_time) (simcontext_init None SC_STOP_FINISH_DELTA False) = Inr k' \<and>
     pending k' = (\<lambda>_. Nothing)(3 := At_Time 5) \<and> notify_inv k' \<and>
     pending (notify_internal 3 0 (simcontext_init None SC_STOP_FINISH_DELTA False)) = (\<lambda>_. Nothing)(3 := Next_Delta)"
proof -
  let ?k = "simcontext_init None SC_STOP_FINISH_DELTA False"
  have "pending ?k = (\<lambda>_. Nothing)" by (simp add: pending_def simcontext_init_def sc_event_new_def fun_eq_iff)
  moreover have "m_curr_time ?k = 0" by (simp add: simcontext_init_def SC_ZERO_TIME_def)
  ultimately show ?thesis
    using notifications_follow_rule [OF simcontext_init_inv [of None SC_STOP_FINISH_DELTA False], of 3 "5 :: sc_time"]
      notifications_follow_rule [OF simcontext_init_inv [of None SC_STOP_FINISH_DELTA False], of 3 "0 :: sc_time"]
    by (auto simp: refines_to_def notify_rule_cases)
qed

end
