(* ===== verification/Sc_Process.thy ===== *)
theory Sc_Process
  imports Sc_Notify
begin

text \<open>
  \<open>sysc/kernel/sc_process.cpp\<close>, \<open>sc_method_process\<close> and \<open>sc_thread_process\<close>: what a process is
  sensitive to, and what an event does to a process that is sensitive to it.  The source has two
  copies of most functions, for methods and for threads; the model has one, over the handle of the
  process, where the copies agree.  Killing and resetting a process, which unwind its stack by
  exceptions, are not modelled.
\<close>

section \<open>Sensitivity\<close>

definition add_static_event :: "process \<Rightarrow> nat \<Rightarrow> 'a kernel_scheme \<Rightarrow> 'a kernel_scheme" where
  "add_static_event p e k =
     (if e \<in> set (m_static_events (proc_of p k)) then k
      else upd_event e (add_static p) (upd_proc p (\<lambda>q. q\<lparr>m_static_events := m_static_events q @ [e]\<rparr>) k))"

definition remove_static_events :: "process \<Rightarrow> 'a kernel_scheme \<Rightarrow> 'a kernel_scheme" where
  "remove_static_events p k =
     upd_proc p (\<lambda>q. q\<lparr>m_static_events := []\<rparr>)
       (fold (\<lambda>e. upd_event e (\<lambda>ev. snd (remove_static p ev))) (rev (m_static_events (proc_of p k))) k)"

text \<open>The pointers \<open>m_event_p\<close> and \<open>m_event_list_p\<close>, where the source follows them unchecked.\<close>

definition event_remove_dynamic :: "process \<Rightarrow> 'a kernel_scheme \<Rightarrow> 'a kernel_scheme res" where
  "event_remove_dynamic p k = (case m_event_p (proc_of p k) of
     None \<Rightarrow> Inl NullPointer
   | Some e \<Rightarrow> Inr (upd_event e (\<lambda>ev. snd (remove_dynamic p ev)) k))"

definition list_remove_dynamic :: "process \<Rightarrow> nat option \<Rightarrow> 'a kernel_scheme \<Rightarrow> 'a kernel_scheme res" where
  "list_remove_dynamic p e_not k = (case m_event_list_p (proc_of p k) of
     None \<Rightarrow> Inl NullPointer
   | Some el \<Rightarrow> Inr (el_remove_dynamic p e_not el k))"

definition timeout_off :: "process \<Rightarrow> 'a kernel_scheme \<Rightarrow> 'a kernel_scheme res" where
  "timeout_off p k =
     (let e = m_timeout_event_p (proc_of p k) in rbind (cancel e k) (\<lambda>k. Inr (event_reset e k)))"

definition forget_event :: "process \<Rightarrow> 'a kernel_scheme \<Rightarrow> 'a kernel_scheme" where
  "forget_event p = upd_proc p (\<lambda>q. q\<lparr>m_event_p := None\<rparr>)"

definition forget_list :: "process \<Rightarrow> 'a kernel_scheme \<Rightarrow> 'a kernel_scheme" where
  "forget_list p = upd_proc p (\<lambda>q. q\<lparr>m_event_list_p := None\<rparr>)"

definition set_trigger :: "process \<Rightarrow> trigger_t \<Rightarrow> 'a kernel_scheme \<Rightarrow> 'a kernel_scheme" where
  "set_trigger p t = upd_proc p (\<lambda>q. q\<lparr>m_trigger_type := t\<rparr>)"

definition remove_dynamic_events :: "bool \<Rightarrow> process \<Rightarrow> 'a kernel_scheme \<Rightarrow> 'a kernel_scheme res" where
  "remove_dynamic_events skip_timeout p k =
     (let k = set_trigger p STATIC k; q = proc_of p k; e = m_timeout_event_p q in
      rbind (if skip_timeout then Inr k else cancel e (upd_event e (\<lambda>ev. snd (remove_dynamic p ev)) k)) (\<lambda>k.
      let k = (case m_event_p q of None \<Rightarrow> k
        | Some e \<Rightarrow> forget_event p (upd_event e (\<lambda>ev. snd (remove_dynamic p ev)) k))
      in Inr (case m_event_list_p q of None \<Rightarrow> k
        | Some el \<Rightarrow> forget_list p (el_remove_dynamic p None el k))))"

text \<open>A part of the kernel that none of the updates above touches: leaving events keeps it.\<close>

locale process_frame =
  fixes part :: "'a kernel_scheme \<Rightarrow> 'p"
  assumes part_event: "part (upd_event e f k) = part k"
    and part_forget_event: "part (forget_event p k) = part k"
    and part_forget_list: "part (forget_list p k) = part k"
    and part_set_trigger: "part (set_trigger p t k) = part k"
begin

lemma part_el_remove: "part (el_remove_dynamic p e_not el k) = part k"
proof -
  have "part (fold (\<lambda>e. if Some e \<noteq> e_not then upd_event e (\<lambda>ev. snd (remove_dynamic p ev)) else (\<lambda>k. k)) es k) = part k"
    for es by (induction es arbitrary: k) (simp_all add: part_event)
  then show ?thesis by (simp add: el_remove_dynamic_def)
qed

lemma part_dynamic_events:
  assumes "remove_dynamic_events skip p k = Inr k'" and "\<And>e k k'. cancel e k = Inr k' \<Longrightarrow> part k' = part k"
  shows "part k' = part k"
  using assms(1)
  by (auto simp: remove_dynamic_events_def Let_def part_event part_forget_event part_forget_list part_set_trigger part_el_remove
      dest!: assms(2) split: option.splits if_splits)

end

section \<open>Waiting\<close>

text \<open>\<open>clear_trigger\<close> of a method, by its kind of trigger.\<close>

definition clear_trigger :: "process \<Rightarrow> 'a kernel_scheme \<Rightarrow> 'a kernel_scheme res" where
  "clear_trigger p k =
     (let no_event = (\<lambda>k. rbind (event_remove_dynamic p k) (\<lambda>k. Inr (forget_event p k)));
          no_list = (\<lambda>k. rbind (list_remove_dynamic p None k) (\<lambda>k. Inr (forget_list p k)));
          no_count = upd_proc p (\<lambda>q. q\<lparr>m_event_count := 0\<rparr>)
      in case m_trigger_type (proc_of p k) of
        STATIC \<Rightarrow> Inr k
      | EVENT \<Rightarrow> rbind (no_event k) (\<lambda>k. Inr (set_trigger p STATIC k))
      | OR_LIST \<Rightarrow> rbind (no_list k) (\<lambda>k. Inr (set_trigger p STATIC k))
      | AND_LIST \<Rightarrow> rbind (no_list k) (\<lambda>k. Inr (set_trigger p STATIC (no_count k)))
      | TIMEOUT \<Rightarrow> rbind (timeout_off p k) (\<lambda>k. Inr (set_trigger p STATIC k))
      | EVENT_TIMEOUT \<Rightarrow> rbind (timeout_off p k) (\<lambda>k. rbind (no_event k) (\<lambda>k. Inr (set_trigger p STATIC k)))
      | OR_LIST_TIMEOUT \<Rightarrow> rbind (timeout_off p k) (\<lambda>k. rbind (no_list k) (\<lambda>k. Inr (set_trigger p STATIC k)))
      | AND_LIST_TIMEOUT \<Rightarrow>
          rbind (timeout_off p k) (\<lambda>k. rbind (no_list k) (\<lambda>k. Inr (set_trigger p STATIC (no_count k)))))"

text \<open>What a process waits for, and how \<open>wait\<close> of a thread, up to the switch to the next
  coroutine, and \<open>next_trigger\<close> of a method register it.\<close>

datatype wait_for = For_Event nat | For_Any "nat list" | For_All "nat list" | For_Time sc_time
  | For_Time_Event sc_time nat | For_Time_Any sc_time "nat list" | For_Time_All sc_time "nat list"

definition arm_timeout :: "process \<Rightarrow> sc_time \<Rightarrow> 'a kernel_scheme \<Rightarrow> 'a kernel_scheme" where
  "arm_timeout p t k =
     (let e = m_timeout_event_p (proc_of p k) in upd_event e (add_dynamic p) (notify_internal e t k))"

definition wait_on :: "process \<Rightarrow> wait_for \<Rightarrow> 'a kernel_scheme \<Rightarrow> 'a kernel_scheme" where
  "wait_on p w k = (case w of
     For_Event e \<Rightarrow>
       set_trigger p EVENT (upd_event e (add_dynamic p) (upd_proc p (\<lambda>q. q\<lparr>m_event_p := Some e\<rparr>) k))
   | For_Any el \<Rightarrow>
       set_trigger p OR_LIST (upd_proc p (\<lambda>q. q\<lparr>m_event_list_p := Some el\<rparr>) (el_add_dynamic p el k))
   | For_All el \<Rightarrow>
       set_trigger p AND_LIST (upd_proc p (\<lambda>q. q\<lparr>m_event_list_p := Some el, m_event_count := int (length el)\<rparr>)
         (el_add_dynamic p el k))
   | For_Time t \<Rightarrow> set_trigger p TIMEOUT (arm_timeout p t k)
   | For_Time_Event t e \<Rightarrow>
       set_trigger p EVENT_TIMEOUT (upd_proc p (\<lambda>q. q\<lparr>m_event_p := Some e\<rparr>)
         (upd_event e (add_dynamic p) (arm_timeout p t k)))
   | For_Time_Any t el \<Rightarrow>
       set_trigger p OR_LIST_TIMEOUT (upd_proc p (\<lambda>q. q\<lparr>m_event_list_p := Some el\<rparr>)
         (el_add_dynamic p el (arm_timeout p t k)))
   | For_Time_All t el \<Rightarrow>
       set_trigger p AND_LIST_TIMEOUT (upd_proc p (\<lambda>q. q\<lparr>m_event_list_p := Some el, m_event_count := int (length el)\<rparr>)
         (el_add_dynamic p el (arm_timeout p t k))))"

definition thread_wait :: "nat \<Rightarrow> wait_for \<Rightarrow> 'a kernel_scheme \<Rightarrow> 'a kernel_scheme" where
  "thread_wait t = wait_on (Thread t)"

definition next_trigger :: "nat \<Rightarrow> wait_for \<Rightarrow> 'a kernel_scheme \<Rightarrow> 'a kernel_scheme res" where
  "next_trigger m w k = rbind (clear_trigger (Method m) k) (\<lambda>k. Inr (wait_on (Method m) w k))"

definition wait_cycles :: "nat \<Rightarrow> int \<Rightarrow> 'a kernel_scheme \<Rightarrow> 'a kernel_scheme res" where
  "wait_cycles t n k =
     (if n \<le> 0 then Inl ProcessControlCorner else Inr (upd_proc (Thread t) (\<lambda>q. q\<lparr>m_wait_cycle_n := n - 1\<rparr>) k))"

section \<open>Triggers\<close>

definition make_ready :: "process \<Rightarrow> 'a kernel_scheme \<Rightarrow> 'a kernel_scheme res" where
  "make_ready p k =
     (if ps_bit_suspended (m_state (proc_of p k))
      then Inr (upd_proc p (\<lambda>q. q\<lparr>m_state := (m_state q)\<lparr>ps_bit_ready_to_run := True\<rparr>\<rparr>) k)
      else push_runnable p k)"

definition method_trigger_static :: "nat \<Rightarrow> 'a kernel_scheme \<Rightarrow> 'a kernel_scheme res" where
  "method_trigger_static m k =
     (let p = Method m; q = proc_of p k in
      if ps_bit_disabled (m_state q) \<or> is_runnable p k \<or> m_trigger_type q \<noteq> STATIC then Inr k
      else if m_curr_proc k = Some p then Inr k
      else make_ready p k)"

definition thread_trigger_static :: "nat \<Rightarrow> 'a kernel_scheme \<Rightarrow> 'a kernel_scheme res" where
  "thread_trigger_static t k =
     (let p = Thread t; q = proc_of p k in
      if ps_bit_disabled (m_state q) \<or> is_runnable p k \<or> m_trigger_type q \<noteq> STATIC then Inr k
      else if m_curr_proc k = Some p then Inr k
      else if m_wait_cycle_n q > 0 \<and> m_throw_status q = THROW_NONE
        then Inr (upd_proc p (\<lambda>q. q\<lparr>m_wait_cycle_n := m_wait_cycle_n q - 1\<rparr>) k)
      else make_ready p k)"

text \<open>The switch of \<open>trigger_dynamic\<close>: \<open>None\<close> in the result where it returns without making the
  process ready.\<close>

definition dynamic_switch :: "process \<Rightarrow> nat \<Rightarrow> 'a kernel_scheme \<Rightarrow> ('a kernel_scheme \<times> bool) res" where
  "dynamic_switch p e k =
     (let q = proc_of p k; timeout = (e = m_timeout_event_p q);
          static = (\<lambda>k. Inr (set_trigger p STATIC k, True));
          timed_out = upd_proc p (\<lambda>q. q\<lparr>m_timed_out := True\<rparr>);
          no_list = (\<lambda>k. rbind (list_remove_dynamic p (Some e) k) (\<lambda>k. Inr (forget_list p k)));
          count = upd_proc p (\<lambda>q. q\<lparr>m_event_count := m_event_count q - 1\<rparr>)
      in case m_trigger_type q of
        EVENT \<Rightarrow> static (forget_event p k)
      | AND_LIST \<Rightarrow>
          (if m_event_count q - 1 = 0 then static (forget_list p (count k)) else Inr (count k, False))
      | OR_LIST \<Rightarrow> rbind (no_list k) static
      | TIMEOUT \<Rightarrow> static k
      | EVENT_TIMEOUT \<Rightarrow>
          (if timeout then rbind (event_remove_dynamic p (timed_out k)) (\<lambda>k. static (forget_event p k))
           else rbind (timeout_off p k) (\<lambda>k. static (forget_event p k)))
      | OR_LIST_TIMEOUT \<Rightarrow>
          (if timeout then rbind (no_list (timed_out k)) static
           else rbind (timeout_off p k) (\<lambda>k. rbind (no_list k) static))
      | AND_LIST_TIMEOUT \<Rightarrow>
          (if timeout then rbind (no_list (timed_out k)) static
           else if m_event_count q - 1 = 0 then rbind (timeout_off p (count k)) (\<lambda>k. static (forget_list p k))
           else Inr (count k, False))
      | STATIC \<Rightarrow> Inr (k, False))"

text \<open>\<open>trigger_dynamic\<close>: the first test is in the copy for methods only.\<close>

definition trigger_dynamic :: "process \<Rightarrow> nat \<Rightarrow> 'a kernel_scheme \<Rightarrow> (bool \<times> 'a kernel_scheme) res" where
  "trigger_dynamic p e k =
     (let k = upd_proc p (\<lambda>q. q\<lparr>m_timed_out := False\<rparr>) k; q = proc_of p k in
      if (case p of Method _ \<Rightarrow> m_curr_proc k = Some p | Thread _ \<Rightarrow> False) then Inr (False, k)
      else if is_runnable p k then Inr (True, k)
      else if ps_bit_disabled (m_state q) then
        (if e = m_timeout_event_p q then rbind (remove_dynamic_events True p k) (\<lambda>k. Inr (True, k)) else Inr (False, k))
      else rbind (dynamic_switch p e k) (\<lambda>(k, ready).
        if ready then rbind (make_ready p k) (\<lambda>k. Inr (True, k)) else Inr (True, k)))"

section \<open>Process control\<close>

text \<open>The processes below a process in the object hierarchy, in the order of its children.\<close>

datatype process_tree = Process process "process_tree list"

fun res_fold :: "('b \<Rightarrow> 'a \<Rightarrow> 'a res) \<Rightarrow> 'b list \<Rightarrow> 'a \<Rightarrow> 'a res" where
  "res_fold f [] s = Inr s"
| "res_fold f (x # xs) s = rbind (f x s) (res_fold f xs)"

lemma res_fold_cong [fundef_cong]:
  "xs = ys \<Longrightarrow> s = t \<Longrightarrow> (\<And>x s. x \<in> set ys \<Longrightarrow> f x s = g x s) \<Longrightarrow> res_fold f xs s = res_fold g ys t"
proof (induction xs arbitrary: ys s t)
  case (Cons x xs)
  have "res_fold f xs = res_fold g xs" using Cons.IH [of xs _ _] Cons.prems by (auto simp: fun_eq_iff)
  then show ?case using Cons.prems by auto
qed auto

definition upd_state :: "process \<Rightarrow> (process_state \<Rightarrow> process_state) \<Rightarrow> 'a kernel_scheme \<Rightarrow> 'a kernel_scheme" where
  "upd_state p f = upd_proc p (\<lambda>q. q\<lparr>m_state := f (m_state q)\<rparr>)"

definition remove_runnable :: "process \<Rightarrow> 'a kernel_scheme \<Rightarrow> 'a kernel_scheme res" where
  "remove_runnable p k =
     rbind (case p of Method m \<Rightarrow> remove_runnable_method m k | Thread t \<Rightarrow> remove_runnable_thread t k)
       (\<lambda>r. case r of None \<Rightarrow> Inl AssertFailed | Some k \<Rightarrow> Inr k)"

definition timeout_wait :: "trigger_t \<Rightarrow> bool" where
  "timeout_wait t \<longleftrightarrow> t \<in> {AND_LIST_TIMEOUT, EVENT_TIMEOUT, OR_LIST_TIMEOUT, TIMEOUT}"

definition disable_one :: "process \<Rightarrow> 'a kernel_scheme \<Rightarrow> 'a kernel_scheme res" where
  "disable_one p k =
     (if \<not> k_allow_corners k \<and> timeout_wait (m_trigger_type (proc_of p k)) then Inl ProcessControlCorner
      else let k = upd_state p (\<lambda>s. s\<lparr>ps_bit_disabled := True\<rparr>) k in
        if m_ready_to_simulate k then Inr k
        else remove_runnable p (case p of Method _ \<Rightarrow> k
          | Thread _ \<Rightarrow> upd_state p (\<lambda>s. s\<lparr>ps_bit_ready_to_run := True\<rparr>) k))"

definition enable_one :: "process \<Rightarrow> 'a kernel_scheme \<Rightarrow> 'a kernel_scheme res" where
  "enable_one p k =
     (let k = upd_state p (\<lambda>s. s\<lparr>ps_bit_disabled := False\<rparr>) k in
      if m_state (proc_of p k) = ps_normal\<lparr>ps_bit_ready_to_run := True\<rparr> \<and>
         (case p of Method _ \<Rightarrow> True | Thread _ \<Rightarrow> k_allow_corners k)
      then let k = upd_state p (\<lambda>_. ps_normal) k in if is_runnable p k then Inr k else push_runnable p k
      else Inr k)"

definition suspend_one :: "process \<Rightarrow> 'a kernel_scheme \<Rightarrow> 'a kernel_scheme res" where
  "suspend_one p k =
     (let q = proc_of p k in
      if \<not> k_allow_corners k \<and> (m_has_reset_signal q \<or> m_sticky_reset q) then Inl ProcessControlCorner
      else let k = upd_state p (\<lambda>s. s\<lparr>ps_bit_suspended := True\<rparr>) k in
        rbind (if is_runnable p k
               then remove_runnable p (upd_state p (\<lambda>s. s\<lparr>ps_bit_ready_to_run := True\<rparr>) k)
               else Inr k) (\<lambda>k.
        Inr (if m_curr_proc k = Some p then upd_state p (\<lambda>s. s\<lparr>ps_bit_ready_to_run := True\<rparr>) k else k)))"

definition resume_one :: "process \<Rightarrow> 'a kernel_scheme \<Rightarrow> 'a kernel_scheme res" where
  "resume_one p k =
     (let s = m_state (proc_of p k) in
      if \<not> k_allow_corners k \<and> ps_bit_disabled s \<and> ps_bit_suspended s then Inl ProcessControlCorner
      else let k = upd_state p (\<lambda>s. s\<lparr>ps_bit_suspended := False\<rparr>) k in
        if ps_bit_ready_to_run s then
          let k = upd_state p (\<lambda>s. s\<lparr>ps_bit_ready_to_run := False\<rparr>) k in
          case p of
            Method _ \<Rightarrow>
              (if \<not> is_runnable p k \<and> m_curr_proc k \<noteq> Some p
               then rbind (push_runnable p k) (remove_dynamic_events False p) else Inr k)
          | Thread _ \<Rightarrow>
              rbind (if is_runnable p k then Inr k else push_runnable p k) (remove_dynamic_events False p)
        else Inr k)"

text \<open>The four requests with their argument \<open>descendants\<close>: the children first.\<close>

fun control_process :: "(process \<Rightarrow> 'k \<Rightarrow> 'k res) \<Rightarrow> bool \<Rightarrow> process_tree \<Rightarrow> 'k \<Rightarrow> 'k res" where
  "control_process act descendants (Process p children) k =
     rbind (if descendants then res_fold (control_process act True) children k else Inr k) (act p)"

definition disable_process :: "bool \<Rightarrow> process_tree \<Rightarrow> 'a kernel_scheme \<Rightarrow> 'a kernel_scheme res" where
  "disable_process = control_process disable_one"

definition enable_process :: "bool \<Rightarrow> process_tree \<Rightarrow> 'a kernel_scheme \<Rightarrow> 'a kernel_scheme res" where
  "enable_process = control_process enable_one"

definition suspend_process :: "bool \<Rightarrow> process_tree \<Rightarrow> 'a kernel_scheme \<Rightarrow> 'a kernel_scheme res" where
  "suspend_process = control_process suspend_one"

definition resume_process :: "bool \<Rightarrow> process_tree \<Rightarrow> 'a kernel_scheme \<Rightarrow> 'a kernel_scheme res" where
  "resume_process = control_process resume_one"

end
