(* ===== verification/Sc_Trigger.thy ===== *)
theory Sc_Trigger
  imports Sc_Process
begin

text \<open>
  \<open>sc_event::trigger\<close> and the immediate notification: an event makes the processes that are
  sensitive to it ready, its static methods first, from the last one registered to the first, then
  the methods that wait for it, then its static threads and the threads that wait for it.  The
  loops over the waiting processes work inside the vectors of the event.
\<close>

section \<open>Triggering\<close>

text \<open>The vector of the methods (\<open>th\<close> false) or threads (\<open>th\<close> true) that wait for an event.\<close>

definition proc_handle :: "bool \<Rightarrow> nat \<Rightarrow> process" where
  "proc_handle th i = (if th then Thread i else Method i)"

definition dynamic_list :: "bool \<Rightarrow> sc_event \<Rightarrow> nat list" where
  "dynamic_list th ev = (if th then m_threads_dynamic ev else m_methods_dynamic ev)"

definition set_dynamic_list :: "bool \<Rightarrow> (nat list \<Rightarrow> nat list) \<Rightarrow> sc_event \<Rightarrow> sc_event" where
  "set_dynamic_list th f ev =
     (if th then ev\<lparr>m_threads_dynamic := f (m_threads_dynamic ev)\<rparr> else ev\<lparr>m_methods_dynamic := f (m_methods_dynamic ev)\<rparr>)"

text \<open>The loop: \<open>n\<close> is \<open>last_i + 1\<close>.  A process that is done with the event is overwritten by the
  last one.  The result is the number of processes that stay.\<close>

function trigger_waiting :: "bool \<Rightarrow> nat \<Rightarrow> nat \<Rightarrow> nat \<Rightarrow> 'a kernel_scheme \<Rightarrow> (nat \<times> 'a kernel_scheme) res" where
  "trigger_waiting th e i n k =
     (if i < n then
        if n \<le> length (dynamic_list th (k_event k e)) then
          rbind (trigger_dynamic (proc_handle th (dynamic_list th (k_event k e) ! i)) e k) (\<lambda>(gone, k).
            if gone
            then trigger_waiting th e i (n - 1) (upd_event e (set_dynamic_list th (\<lambda>ps. ps[i := ps ! (n - 1)])) k)
            else trigger_waiting th e (i + 1) n k)
        else Inl OutOfBounds
      else Inr (n, k))"
  by pat_completeness auto
termination
  by (relation "measure (\<lambda>(th, e, i, n, k). n - i)") auto

declare trigger_waiting.simps [simp del]

definition trigger_dynamics :: "bool \<Rightarrow> nat \<Rightarrow> 'a kernel_scheme \<Rightarrow> 'a kernel_scheme res" where
  "trigger_dynamics th e k =
     (if dynamic_list th (k_event k e) = [] then Inr k
      else rbind (trigger_waiting th e 0 (length (dynamic_list th (k_event k e))) k) (\<lambda>(n, k).
        Inr (upd_event e (set_dynamic_list th (take n)) k)))"

definition trigger :: "nat \<Rightarrow> 'a kernel_scheme \<Rightarrow> 'a kernel_scheme res" where
  "trigger e k =
     (let k = upd_event e (\<lambda>ev. ev\<lparr>m_trigger_stamp := m_change_stamp k, m_notify_type := NONE,
        m_delta_event_index := -1, m_timed := None\<rparr>) k in
      rbind (res_fold method_trigger_static (rev (m_methods_static (k_event k e))) k) (\<lambda>k.
      rbind (trigger_dynamics False e k) (\<lambda>k.
      rbind (res_fold thread_trigger_static (rev (m_threads_static (k_event k e))) k) (\<lambda>k.
      trigger_dynamics True e k))))"

definition notify_now :: "nat \<Rightarrow> 'a kernel_scheme \<Rightarrow> 'a kernel_scheme res" where
  "notify_now e k =
     (if \<not> evaluation_phase k then Inl ImmediateNotification
      else rbind (cancel e k) (trigger e))"

text \<open>The notification phase: the delta events from the last to the first, read from the storage of
  the vector, which triggering can change.\<close>

fun trigger_deltas :: "nat \<Rightarrow> 'a kernel_scheme \<Rightarrow> 'a kernel_scheme res" where
  "trigger_deltas 0 k = Inr k"
| "trigger_deltas (Suc i) k = rbind (trigger (m_delta_storage k ! i) k) (trigger_deltas i)"

definition notify_deltas :: "'a kernel_scheme \<Rightarrow> 'a kernel_scheme res" where
  "notify_deltas k =
     (if m_delta_size k = 0 then Inr k
      else rbind (trigger_deltas (m_delta_size k) k) (\<lambda>k. Inr (k\<lparr>m_delta_size := 0\<rparr>)))"

end
