(* ===== verification/Sc_Wakeup.thy ===== *)
theory Sc_Wakeup
  imports Sc_Trigger
begin

text \<open>
  Which processes an event makes ready, and in which order; and what triggering the delta events
  while their vector changes can do.
\<close>

section \<open>Static sensitivity\<close>

text \<open>A process that a trigger of an event it is statically sensitive to puts into the run queue.\<close>

definition statically_ready :: "'a kernel_scheme \<Rightarrow> process \<Rightarrow> bool" where
  "statically_ready k p \<longleftrightarrow>
     (let q = proc_of p k in \<not> ps_bit_disabled (m_state q) \<and> \<not> ps_bit_suspended (m_state q) \<and>
        m_trigger_type q = STATIC \<and> m_curr_proc k \<noteq> Some p \<and> \<not> is_runnable p k \<and>
        (case p of Method _ \<Rightarrow> True | Thread _ \<Rightarrow> \<not> (m_wait_cycle_n q > 0 \<and> m_throw_status q = THROW_NONE)))"

lemma is_runnable_lists:
  assumes "runnable_lists (m_runnable k) hm ht ms mp ts tp"
  shows "is_runnable (Method m) k \<longleftrightarrow> m \<in> set (hm # ms @ mp)" "is_runnable (Thread t) k \<longleftrightarrow> t \<in> set (ht # ts @ tp)"
  using assms rq_queued [of "m_methods (m_runnable k)" hm ms mp m] rq_queued [of "m_threads (m_runnable k)" ht ts tp t]
  by (simp_all add: is_runnable_def runnable_lists_def)

lemma method_trigger_static_lists:
  assumes "runnable_lists (m_runnable k) hm ht ms mp ts tp"
  shows "\<exists>r q. method_trigger_static m k = Inr (k\<lparr>m_runnable := r, k_method := (k_method k)(m := q)\<rparr>) \<and>
    runnable_lists r hm ht (if statically_ready k (Method m) then ms @ [m] else ms) mp ts tp"
proof -
  let ?q = "k_method k m"
  have same: "k\<lparr>m_runnable := m_runnable k, k_method := (k_method k)(m := ?q)\<rparr> = k" by simp
  consider (no) "ps_bit_disabled (m_state ?q) \<or> is_runnable (Method m) k \<or> m_trigger_type ?q \<noteq> STATIC \<or> m_curr_proc k = Some (Method m)"
    | (suspended) "\<not> ps_bit_disabled (m_state ?q)" "\<not> is_runnable (Method m) k" "m_trigger_type ?q = STATIC"
        "m_curr_proc k \<noteq> Some (Method m)" "ps_bit_suspended (m_state ?q)"
    | (ready) "\<not> ps_bit_disabled (m_state ?q)" "\<not> is_runnable (Method m) k" "m_trigger_type ?q = STATIC"
        "m_curr_proc k \<noteq> Some (Method m)" "\<not> ps_bit_suspended (m_state ?q)" by blast
  then show ?thesis
  proof cases
    case no
    then have "method_trigger_static m k = Inr (k\<lparr>m_runnable := m_runnable k, k_method := (k_method k)(m := ?q)\<rparr>)"
      "\<not> statically_ready k (Method m)"
      unfolding same by (auto simp: method_trigger_static_def Let_def proc_of_def statically_ready_def)
    then show ?thesis using assms by (intro exI [of _ "m_runnable k"] exI [of _ ?q]) simp
  next
    case suspended
    then have "\<not> statically_ready k (Method m)" by (simp add: statically_ready_def proc_of_def)
    moreover have "method_trigger_static m k =
        Inr (k\<lparr>m_runnable := m_runnable k, k_method := (k_method k)(m := ?q\<lparr>m_state := (m_state ?q)\<lparr>ps_bit_ready_to_run := True\<rparr>\<rparr>)\<rparr>)"
      using suspended by (simp add: method_trigger_static_def proc_of_def make_ready_def upd_proc_def Let_def)
    ultimately show ?thesis using assms by (intro exI conjI) auto
  next
    case ready
    have "m \<notin> set (hm # ms @ mp)" using ready(2) is_runnable_lists(1) [OF assms] by blast
    then obtain r where r: "push_back_method m (m_runnable k) = Inr r" "runnable_lists r hm ht (ms @ [m]) mp ts tp"
      using push_back_method_lists [OF assms] by blast
    have "method_trigger_static m k = Inr (k\<lparr>m_runnable := r, k_method := (k_method k)(m := ?q)\<rparr>)"
      using ready r(1)
      by (simp add: method_trigger_static_def proc_of_def make_ready_def push_runnable_def push_runnable_method_def on_runnable_def)
    moreover have "statically_ready k (Method m)" using ready by (simp add: statically_ready_def proc_of_def)
    ultimately show ?thesis using r(2) by (intro exI [of _ r] exI [of _ ?q]) simp
  qed
qed

lemma thread_trigger_static_lists:
  assumes "runnable_lists (m_runnable k) hm ht ms mp ts tp"
  shows "\<exists>r q. thread_trigger_static t k = Inr (k\<lparr>m_runnable := r, k_thread := (k_thread k)(t := q)\<rparr>) \<and>
    runnable_lists r hm ht ms mp (if statically_ready k (Thread t) then ts @ [t] else ts) tp"
proof -
  let ?q = "k_thread k t"
  let ?count = "m_wait_cycle_n ?q > 0 \<and> m_throw_status ?q = THROW_NONE"
  have same: "k\<lparr>m_runnable := m_runnable k, k_thread := (k_thread k)(t := ?q)\<rparr> = k" by simp
  consider (no) "ps_bit_disabled (m_state ?q) \<or> is_runnable (Thread t) k \<or> m_trigger_type ?q \<noteq> STATIC \<or> m_curr_proc k = Some (Thread t)"
    | (count) "\<not> ps_bit_disabled (m_state ?q)" "\<not> is_runnable (Thread t) k" "m_trigger_type ?q = STATIC"
        "m_curr_proc k \<noteq> Some (Thread t)" "?count"
    | (suspended) "\<not> ps_bit_disabled (m_state ?q)" "\<not> is_runnable (Thread t) k" "m_trigger_type ?q = STATIC"
        "m_curr_proc k \<noteq> Some (Thread t)" "\<not> ?count" "ps_bit_suspended (m_state ?q)"
    | (ready) "\<not> ps_bit_disabled (m_state ?q)" "\<not> is_runnable (Thread t) k" "m_trigger_type ?q = STATIC"
        "m_curr_proc k \<noteq> Some (Thread t)" "\<not> ?count" "\<not> ps_bit_suspended (m_state ?q)" by blast
  then show ?thesis
  proof cases
    case no
    then have "thread_trigger_static t k = Inr (k\<lparr>m_runnable := m_runnable k, k_thread := (k_thread k)(t := ?q)\<rparr>)"
      "\<not> statically_ready k (Thread t)"
      unfolding same by (auto simp: thread_trigger_static_def Let_def proc_of_def statically_ready_def)
    then show ?thesis using assms by (intro exI [of _ "m_runnable k"] exI [of _ ?q]) simp
  next
    case count
    then have "\<not> statically_ready k (Thread t)" by (simp add: statically_ready_def proc_of_def)
    moreover have "thread_trigger_static t k =
        Inr (k\<lparr>m_runnable := m_runnable k, k_thread := (k_thread k)(t := ?q\<lparr>m_wait_cycle_n := m_wait_cycle_n ?q - 1\<rparr>)\<rparr>)"
      using count by (simp add: thread_trigger_static_def proc_of_def upd_proc_def Let_def)
    ultimately show ?thesis using assms by (intro exI conjI) auto
  next
    case suspended
    then have "\<not> statically_ready k (Thread t)" by (simp add: statically_ready_def proc_of_def)
    moreover have "thread_trigger_static t k =
        Inr (k\<lparr>m_runnable := m_runnable k, k_thread := (k_thread k)(t := ?q\<lparr>m_state := (m_state ?q)\<lparr>ps_bit_ready_to_run := True\<rparr>\<rparr>)\<rparr>)"
      using suspended by (auto simp: thread_trigger_static_def proc_of_def make_ready_def upd_proc_def Let_def)
    ultimately show ?thesis using assms by (intro exI conjI) auto
  next
    case ready
    have "t \<notin> set (ht # ts @ tp)" using ready(2) is_runnable_lists(2) [OF assms] by blast
    then obtain r where r: "push_back_thread t (m_runnable k) = Inr r" "runnable_lists r hm ht ms mp (ts @ [t]) tp"
      using push_back_thread_lists [OF assms] by blast
    have "thread_trigger_static t k = Inr (k\<lparr>m_runnable := r, k_thread := (k_thread k)(t := ?q)\<rparr>)"
      using ready r(1)
      by (auto simp: thread_trigger_static_def proc_of_def make_ready_def push_runnable_def push_runnable_thread_def on_runnable_def)
    moreover have "statically_ready k (Thread t)" using ready by (simp add: statically_ready_def proc_of_def)
    ultimately show ?thesis using r(2) by (intro exI [of _ r] exI [of _ ?q]) simp
  qed
qed

lemma static_methods_lists:
  assumes "runnable_lists (m_runnable k) hm ht ms mp ts tp" and "distinct xs"
  shows "\<exists>r f. res_fold method_trigger_static xs k = Inr (k\<lparr>m_runnable := r, k_method := f\<rparr>) \<and>
    runnable_lists r hm ht (ms @ filter (\<lambda>m. statically_ready k (Method m)) xs) mp ts tp"
  using assms
proof (induction xs arbitrary: k ms)
  case Nil
  have "res_fold method_trigger_static [] k = Inr (k\<lparr>m_runnable := m_runnable k, k_method := k_method k\<rparr>)" by simp
  with Nil show ?case by (intro exI [of _ "m_runnable k"] exI [of _ "k_method k"]) simp
next
  case (Cons m xs)
  let ?ms = "if statically_ready k (Method m) then ms @ [m] else ms"
  obtain r q where 1: "method_trigger_static m k = Inr (k\<lparr>m_runnable := r, k_method := (k_method k)(m := q)\<rparr>)"
    "runnable_lists r hm ht ?ms mp ts tp" using method_trigger_static_lists [OF Cons.prems(1), of m] by blast
  let ?k = "k\<lparr>m_runnable := r, k_method := (k_method k)(m := q)\<rparr>"
  have k: "runnable_lists (m_runnable ?k) hm ht ?ms mp ts tp" using 1(2) by simp
  obtain r' f where 2: "res_fold method_trigger_static xs ?k = Inr (?k\<lparr>m_runnable := r', k_method := f\<rparr>)"
    "runnable_lists r' hm ht (?ms @ filter (\<lambda>m. statically_ready ?k (Method m)) xs) mp ts tp"
    using Cons.IH [OF k] Cons.prems(2) by auto
  have "statically_ready ?k (Method x) = statically_ready k (Method x)" if "x \<in> set xs" for x
  proof -
    have "x \<noteq> m" using Cons.prems(2) that by auto
    then have "is_runnable (Method x) ?k = is_runnable (Method x) k"
      unfolding is_runnable_lists(1) [OF k] is_runnable_lists(1) [OF Cons.prems(1)] by auto
    then show ?thesis using \<open>x \<noteq> m\<close> by (simp add: statically_ready_def proc_of_def)
  qed
  then have "filter (\<lambda>m. statically_ready ?k (Method m)) xs = filter (\<lambda>m. statically_ready k (Method m)) xs"
    by (intro filter_cong) auto
  then show ?case using 1 2 by auto
qed

lemma static_threads_lists:
  assumes "runnable_lists (m_runnable k) hm ht ms mp ts tp" and "distinct xs"
  shows "\<exists>r f. res_fold thread_trigger_static xs k = Inr (k\<lparr>m_runnable := r, k_thread := f\<rparr>) \<and>
    runnable_lists r hm ht ms mp (ts @ filter (\<lambda>t. statically_ready k (Thread t)) xs) tp"
  using assms
proof (induction xs arbitrary: k ts)
  case Nil
  have "res_fold thread_trigger_static [] k = Inr (k\<lparr>m_runnable := m_runnable k, k_thread := k_thread k\<rparr>)" by simp
  with Nil show ?case by (intro exI [of _ "m_runnable k"] exI [of _ "k_thread k"]) simp
next
  case (Cons t xs)
  let ?ts = "if statically_ready k (Thread t) then ts @ [t] else ts"
  obtain r q where 1: "thread_trigger_static t k = Inr (k\<lparr>m_runnable := r, k_thread := (k_thread k)(t := q)\<rparr>)"
    "runnable_lists r hm ht ms mp ?ts tp" using thread_trigger_static_lists [OF Cons.prems(1), of t] by blast
  let ?k = "k\<lparr>m_runnable := r, k_thread := (k_thread k)(t := q)\<rparr>"
  have k: "runnable_lists (m_runnable ?k) hm ht ms mp ?ts tp" using 1(2) by simp
  obtain r' f where 2: "res_fold thread_trigger_static xs ?k = Inr (?k\<lparr>m_runnable := r', k_thread := f\<rparr>)"
    "runnable_lists r' hm ht ms mp (?ts @ filter (\<lambda>t. statically_ready ?k (Thread t)) xs) tp"
    using Cons.IH [OF k] Cons.prems(2) by auto
  have "statically_ready ?k (Thread x) = statically_ready k (Thread x)" if "x \<in> set xs" for x
  proof -
    have "x \<noteq> t" using Cons.prems(2) that by auto
    then have "is_runnable (Thread x) ?k = is_runnable (Thread x) k"
      unfolding is_runnable_lists(2) [OF k] is_runnable_lists(2) [OF Cons.prems(1)] by auto
    then show ?thesis using \<open>x \<noteq> t\<close> by (simp add: statically_ready_def proc_of_def)
  qed
  then have "filter (\<lambda>t. statically_ready ?k (Thread t)) xs = filter (\<lambda>t. statically_ready k (Thread t)) xs"
    by (intro filter_cong) auto
  then show ?case using 1 2 by auto
qed

text \<open>Triggering an event that no process waits for dynamically.  Every ready method that is
  statically sensitive to it is appended to the push queue of the methods, every ready thread to
  that of the threads, each once and from the last one registered to the first; a process that is
  queued already, disabled, suspended, waiting for something else or the running process is not
  queued; nothing else is queued or taken from a queue, and the event is marked as triggered.\<close>

theorem trigger_queues_static:
  assumes "runnable_lists (m_runnable k) hm ht ms mp ts tp"
    and "distinct (m_methods_static (k_event k e))" and "distinct (m_threads_static (k_event k e))"
    and "m_methods_dynamic (k_event k e) = []" and "m_threads_dynamic (k_event k e) = []"
  shows "\<exists>k'. trigger e k = Inr k' \<and>
    runnable_lists (m_runnable k') hm ht
      (ms @ filter (\<lambda>m. statically_ready k (Method m)) (rev (m_methods_static (k_event k e)))) mp
      (ts @ filter (\<lambda>t. statically_ready k (Thread t)) (rev (m_threads_static (k_event k e)))) tp \<and>
    triggered e k' \<and> m_notify_type (k_event k' e) = NONE"
proof -
  let ?ev = "(k_event k e)\<lparr>m_trigger_stamp := m_change_stamp k, m_notify_type := NONE, m_delta_event_index := -1, m_timed := None\<rparr>"
  let ?k = "k\<lparr>k_event := (k_event k)(e := ?ev)\<rparr>"
  have k: "runnable_lists (m_runnable ?k) hm ht ms mp ts tp" using assms(1) by simp
  have sr: "statically_ready (k\<lparr>k_event := ef\<rparr>) p = statically_ready k p" for ef p
    by (cases p) (simp_all add: statically_ready_def proc_of_def is_runnable_def)
  obtain r f where m: "res_fold method_trigger_static (rev (m_methods_static (k_event k e))) ?k = Inr (?k\<lparr>m_runnable := r, k_method := f\<rparr>)"
    and rl: "runnable_lists r hm ht (ms @ filter (\<lambda>m. statically_ready k (Method m)) (rev (m_methods_static (k_event k e)))) mp ts tp"
    using static_methods_lists [OF k, of "rev (m_methods_static (k_event k e))"] assms(2) by (auto simp: sr)
  let ?k2 = "?k\<lparr>m_runnable := r, k_method := f\<rparr>"
  have k2: "runnable_lists (m_runnable ?k2) hm ht (ms @ filter (\<lambda>m. statically_ready k (Method m)) (rev (m_methods_static (k_event k e)))) mp ts tp"
    using rl by simp
  obtain r' g where t: "res_fold thread_trigger_static (rev (m_threads_static (k_event k e))) ?k2 = Inr (?k2\<lparr>m_runnable := r', k_thread := g\<rparr>)"
    and rl': "runnable_lists r' hm ht (ms @ filter (\<lambda>m. statically_ready k (Method m)) (rev (m_methods_static (k_event k e)))) mp
      (ts @ filter (\<lambda>t. statically_ready ?k2 (Thread t)) (rev (m_threads_static (k_event k e)))) tp"
    using static_threads_lists [OF k2, of "rev (m_threads_static (k_event k e))"] assms(3) by auto
  have "is_runnable (Thread x) ?k2 = is_runnable (Thread x) k" for x
    unfolding is_runnable_lists(2) [OF k2] is_runnable_lists(2) [OF assms(1)] by simp
  then have "statically_ready ?k2 (Thread x) = statically_ready k (Thread x)" for x
    by (simp add: statically_ready_def proc_of_def)
  note rl' = rl' [unfolded this]
  let ?k3 = "?k2\<lparr>m_runnable := r', k_thread := g\<rparr>"
  have "trigger e k = Inr ?k3"
    using m t assms(4,5) by (simp add: trigger_def Let_def upd_event_def trigger_dynamics_def dynamic_list_def)
  moreover have "triggered e ?k3" "m_notify_type (k_event ?k3 e) = NONE" by (simp_all add: triggered_def)
  ultimately show ?thesis using rl' by (intro exI [of _ ?k3]) simp
qed


text \<open>A kernel with the methods 1 and 2 in the push queue; the methods 3, 2 and 4 are registered
  with the event 12, in that order, and so is the thread 5.\<close>

definition registered :: kernel where
  "registered =
     (let k = (simcontext_init None SC_STOP_FINISH_DELTA False)\<lparr>m_runnable := two_queued\<rparr>
      in add_static_event (Thread 5) 12 (add_static_event (Method 4) 12
           (add_static_event (Method 2) 12 (add_static_event (Method 3) 12 k))))"

lemma add_static_runnable: "m_runnable (add_static_event p e k) = m_runnable k"
  by (cases p) (simp_all add: add_static_event_def upd_event_def upd_proc_def Let_def)

lemma registered_facts:
  "m_methods_static (k_event registered 12) = [3, 2, 4]" "m_threads_static (k_event registered 12) = [5]"
  "m_methods_dynamic (k_event registered 12) = []" "m_threads_dynamic (k_event registered 12) = []"
  "statically_ready registered (Method 4)" "\<not> statically_ready registered (Method 2)"
  "statically_ready registered (Method 3)" "statically_ready registered (Thread 5)"
  by code_simp+

theorem trigger_queues_static_witness:
  "\<exists>k'. trigger 12 registered = Inr k' \<and> runnable_lists (m_runnable k') 0 0 [1, 2, 4, 3] [] [5] [] \<and>
     triggered 12 k' \<and> m_notify_type (k_event k' 12) = NONE"
proof -
  have "m_runnable registered = two_queued" by (simp add: registered_def add_static_runnable)
  then have r: "runnable_lists (m_runnable registered) 0 0 [1, 2] [] [] []" using two_queued_lists by simp
  show ?thesis using trigger_queues_static [OF r, of 12] by (simp add: registered_facts)
qed

section \<open>The notification phase\<close>

text \<open>A kernel in the notification phase: the thread 1 waits for the event 11 with a time-out of no
  duration, whose event is 10; the thread 2 is statically sensitive to the event 12, and asked to
  sleep for three of its notifications.  The events 10, 11 and 12 are delta notifications, in that order.\<close>

definition sleepers :: kernel where
  "sleepers =
     (let k = (simcontext_init None SC_STOP_FINISH_DELTA False)\<lparr>m_execution_phase := phase_notify\<rparr>;
          k = upd_proc (Thread 1) (\<lambda>q. q\<lparr>m_timeout_event_p := 10\<rparr>) k;
          k = add_static_event (Thread 2) 12 k;
          k = upd_proc (Thread 2) (\<lambda>q. q\<lparr>m_wait_cycle_n := 3 - 1\<rparr>) k;
          k = thread_wait 1 (For_Time_Event 0 11) k;
          k = make_delta 11 k;
          k = make_delta 12 k
      in case runnable_init 0 0 (m_runnable k) of Inr r \<Rightarrow> k\<lparr>m_runnable := r\<rparr>)"

text \<open>The same without the thread 1.\<close>

definition one_sleeper :: kernel where
  "one_sleeper =
     (let k = (simcontext_init None SC_STOP_FINISH_DELTA False)\<lparr>m_execution_phase := phase_notify\<rparr>;
          k = add_static_event (Thread 2) 12 k;
          k = upd_proc (Thread 2) (\<lambda>q. q\<lparr>m_wait_cycle_n := 3 - 1\<rparr>) k;
          k = make_delta 11 k;
          k = make_delta 12 k
      in case runnable_init 0 0 (m_runnable k) of Inr r \<Rightarrow> k\<lparr>m_runnable := r\<rparr>)"

definition cycles_left :: "'a kernel_scheme res \<Rightarrow> nat \<Rightarrow> int option" where
  "cycles_left r t = (case r of Inl _ \<Rightarrow> None | Inr k \<Rightarrow> Some (m_wait_cycle_n (k_thread k t)))"

text \<open>A delta notification can be triggered twice.  When waking a process cancels the delta
  notification of its time-out, the vector that is being read is compacted: its last element, which
  was triggered already, takes the place of the cancelled one, and is triggered again when the loop
  comes there.  So the one notification of the event 12 counts twice for the thread 2, which
  asked to sleep for three and is left with none instead of one; without the time-out of the
  thread 1 it counts once.\<close>

theorem delta_event_triggered_twice:
  "event_vector sleepers = [10, 11, 12] \<and> cycles_left (Inr sleepers) 2 = Some 2 \<and>
   cycles_left (notify_deltas sleepers) 2 = Some 0 \<and>
   event_vector one_sleeper = [11, 12] \<and> cycles_left (Inr one_sleeper) 2 = Some 2 \<and>
   cycles_left (notify_deltas one_sleeper) 2 = Some 1"
  by code_simp

text \<open>The thread 1 waits for the event 11, with a time-out in the next delta cycle.\<close>

definition orphan :: kernel where
  "orphan =
     (let k = (simcontext_init None SC_STOP_FINISH_DELTA False)\<lparr>m_ready_to_simulate := True\<rparr>;
          k = upd_proc (Thread 1) (\<lambda>q. q\<lparr>m_timeout_event_p := 10\<rparr>) k
      in case runnable_init 0 0 (m_runnable k) of Inr r \<Rightarrow> thread_wait 1 (For_Time_Event 0 11) (k\<lparr>m_runnable := r\<rparr>))"

definition is_fault :: "'a res \<Rightarrow> fault option" where
  "is_fault r = (case r of Inl e \<Rightarrow> Some e | Inr _ \<Rightarrow> None)"

text \<open>Destroying an event clears the pointers of the processes that wait for it, but not their
  kind of trigger: when the time-out of such a process comes, the null pointer is followed.  Without
  the destruction the time-out wakes the process.\<close>

theorem timeout_after_destruction:
  "is_fault (rbind (event_destroy 11 orphan) (trigger 10)) = Some NullPointer \<and> is_fault (event_destroy 11 orphan) = None \<and>
   is_fault (trigger 10 orphan) = None"
  by code_simp

end
