(* ===== verification/Sc_Simcontext.thy ===== *)
theory Sc_Simcontext
  imports Sc_Wakeup
begin

text \<open>
  \<open>sysc/kernel/sc_simcontext.cpp\<close>: the creation of processes, the delta cycle and the simulation
  loop, and \<open>sysc/communication/sc_prim_channel\<close>: the channels that ask for an update.  The bodies of
  the processes and the updates of the channels are parameters, functions of the whole state; a
  thread is run from one \<open>wait\<close> to the next.  The loops that need not end are partial functions
  whose value is \<open>None\<close> when they do not.
\<close>

section \<open>Loops that need not end\<close>

definition obind :: "'a res option \<Rightarrow> ('a \<Rightarrow> 'b res option) \<Rightarrow> 'b res option" where
  "obind m f = Option.bind m (\<lambda>r. if isl r then Some (Inl (projl r)) else f (projr r))"

lemma obind_simps [simp]:
  "obind None f = None" "obind (Some (Inl e)) f = Some (Inl e)" "obind (Some (Inr x)) f = f x"
  by (simp_all add: obind_def)

lemma obind_mono [partial_function_mono]:
  assumes "mono_option B" and "\<And>y. mono_option (\<lambda>f. C y f)"
  shows "mono_option (\<lambda>f. obind (B f) (\<lambda>y. C y f))"
  unfolding obind_def by (intro bind_mono assms if_mono option.const_mono)

section \<open>Creating processes\<close>

text \<open>\<open>sc_process_table\<close>: the existing processes of each kind, the last one created first.\<close>

definition table_remove :: "nat \<Rightarrow> nat list \<Rightarrow> nat list" where
  "table_remove p tab = remove1 p tab"

definition remove_process :: "process \<Rightarrow> 'a kernel_scheme \<Rightarrow> 'a kernel_scheme" where
  "remove_process p k = (case p of
     Method m \<Rightarrow> k\<lparr>m_method_table := table_remove m (m_method_table k)\<rparr>
   | Thread t \<Rightarrow> k\<lparr>m_thread_table := table_remove t (m_thread_table k)\<rparr>)"

text \<open>The options of a process, and the constructor: \<open>timeout\<close> is the event object it allocates.\<close>

record spawn_options =
  o_dont_initialize :: bool
  o_sensitive_events :: "nat list"

definition construct_process :: "process \<Rightarrow> nat \<Rightarrow> spawn_options \<Rightarrow> 'a kernel_scheme \<Rightarrow> 'a kernel_scheme" where
  "construct_process p timeout opt k =
     fold (add_static_event p) (o_sensitive_events opt)
       (upd_proc p (\<lambda>_. (sc_process_new timeout)\<lparr>m_dont_init := o_dont_initialize opt\<rparr>)
         (k\<lparr>k_processes := k_processes k + 1\<rparr>))"

definition prepare_for_simulation :: "nat \<Rightarrow> 'a kernel_scheme \<Rightarrow> 'a kernel_scheme" where
  "prepare_for_simulation t = upd_proc (Thread t) (\<lambda>q. q\<lparr>m_cor_p := True\<rparr>)"

definition create_method_process :: "nat \<Rightarrow> nat \<Rightarrow> spawn_options \<Rightarrow> 'a kernel_scheme \<Rightarrow> 'a kernel_scheme res" where
  "create_method_process m timeout opt k =
     (let k = construct_process (Method m) timeout opt k in
      if m_ready_to_simulate k then
        (if \<not> m_dont_init (k_method k m) then push_runnable_method m k else Inr k)
      else Inr (k\<lparr>m_method_table := m # m_method_table k\<rparr>))"

definition create_thread_process :: "nat \<Rightarrow> nat \<Rightarrow> spawn_options \<Rightarrow> 'a kernel_scheme \<Rightarrow> 'a kernel_scheme res" where
  "create_thread_process t timeout opt k =
     (let k = construct_process (Thread t) timeout opt k in
      if m_ready_to_simulate k then
        (let k = prepare_for_simulation t k in
         if \<not> m_dont_init (k_thread k t) then push_runnable_thread t k else Inr k)
      else Inr (k\<lparr>m_thread_table := t # m_thread_table k\<rparr>))"

definition create_cthread_process :: "nat \<Rightarrow> nat \<Rightarrow> spawn_options \<Rightarrow> 'a kernel_scheme \<Rightarrow> 'a kernel_scheme" where
  "create_cthread_process t timeout opt k =
     (let k = construct_process (Thread t) timeout opt k in
      if m_ready_to_simulate k then prepare_for_simulation t k
      else k\<lparr>m_thread_table := t # m_thread_table k\<rparr>)"

section \<open>The update phase\<close>

definition request_update :: "nat \<Rightarrow> 'a kernel_scheme \<Rightarrow> 'a kernel_scheme" where
  "request_update c k =
     (if k_update_next k c then k
      else k\<lparr>m_update_list := c # m_update_list k, k_update_next := (k_update_next k)(c := True)\<rparr>)"

definition channel_update :: "(nat \<Rightarrow> 'a kernel_scheme \<Rightarrow> 'a kernel_scheme res) \<Rightarrow> nat \<Rightarrow> 'a kernel_scheme \<Rightarrow> 'a kernel_scheme res" where
  "channel_update update c k = rbind (update c k) (\<lambda>k. Inr (k\<lparr>k_update_next := (k_update_next k)(c := False)\<rparr>))"

definition perform_update :: "(nat \<Rightarrow> 'a kernel_scheme \<Rightarrow> 'a kernel_scheme res) \<Rightarrow> 'a kernel_scheme \<Rightarrow> 'a kernel_scheme res" where
  "perform_update update k = res_fold (channel_update update) (m_update_list k) (k\<lparr>m_update_list := []\<rparr>)"

section \<open>The evaluation phase\<close>

text \<open>The loop over the runnable methods; the flag is whether one was run.\<close>

partial_function (option) run_methods_loop ::
  "(process \<Rightarrow> 'a kernel_scheme \<Rightarrow> 'a kernel_scheme res) \<Rightarrow> bool \<Rightarrow> 'a kernel_scheme \<Rightarrow> (bool \<times> 'a kernel_scheme) res option" where
  "run_methods_loop body act k =
     obind (Some (pop_runnable_method k)) (\<lambda>r. case r of (m, k) \<Rightarrow>
       if m = None then Some (Inr (act, k))
       else obind (Some (body (Method (the m)) k)) (run_methods_loop body True))"

text \<open>The loop over the runnable threads: the kernel switches to the first one, and each of them, when it
  waits, to the next one (\<open>next_cor\<close>), the last one back to the kernel.\<close>

partial_function (option) run_threads_loop ::
  "(process \<Rightarrow> 'a kernel_scheme \<Rightarrow> 'a kernel_scheme res) \<Rightarrow> bool \<Rightarrow> 'a kernel_scheme \<Rightarrow> (bool \<times> 'a kernel_scheme) res option" where
  "run_threads_loop body act k =
     obind (Some (pop_runnable_thread k)) (\<lambda>r. case r of (t, k) \<Rightarrow>
       if t = None then Some (Inr (act, k))
       else if m_cor_p (k_thread k (the t)) then obind (Some (body (Thread (the t)) k)) (run_threads_loop body True)
       else run_threads_loop body act k)"

text \<open>The evaluation phase: until nothing is runnable.  The result has whether a process was run, and
  whether the phase was left because of an immediate stop.\<close>

partial_function (option) evaluate ::
  "(process \<Rightarrow> 'a kernel_scheme \<Rightarrow> 'a kernel_scheme res) \<Rightarrow> bool \<Rightarrow> 'a kernel_scheme \<Rightarrow> ((bool \<times> bool) \<times> 'a kernel_scheme) res option" where
  "evaluate body act k =
     obind (Some (on_runnable toggle_methods k)) (\<lambda>k.
     obind (run_methods_loop body act k) (\<lambda>r. case r of (act, k) \<Rightarrow>
     obind (Some (on_runnable toggle_threads k)) (\<lambda>k.
     obind (run_threads_loop body act k) (\<lambda>r. case r of (act, k) \<Rightarrow>
     if m_forced_stop k \<and> k_stop_mode k = SC_STOP_IMMEDIATE then Some (Inr ((act, True), k))
     else obind (Some (runnable_is_empty (m_runnable k))) (\<lambda>empty.
       if empty then Some (Inr ((act, False), k)) else evaluate body act k)))))"

section \<open>The delta cycle\<close>

partial_function (option) crunch ::
  "(process \<Rightarrow> 'a kernel_scheme \<Rightarrow> 'a kernel_scheme res) \<Rightarrow> (nat \<Rightarrow> 'a kernel_scheme \<Rightarrow> 'a kernel_scheme res) \<Rightarrow> bool \<Rightarrow>
   'a kernel_scheme \<Rightarrow> 'a kernel_scheme res option" where
  "crunch body update once k =
     obind (evaluate body False (k\<lparr>m_execution_phase := phase_evaluate\<rparr>)) (\<lambda>r. case r of ((act, out), k) \<Rightarrow>
     if out then Some (Inr (reset_curr_proc k))
     else
       obind (Some (perform_update update
         (k\<lparr>m_execution_phase := phase_update, m_change_stamp := (if act then m_change_stamp k + 1 else m_change_stamp k)\<rparr>)))
         (\<lambda>k. let k = k\<lparr>m_execution_phase := phase_notify\<rparr> in
       if m_forced_stop k then Some (Inr (reset_curr_proc k))
       else obind (Some (notify_deltas k)) (\<lambda>k.
         let k = k\<lparr>m_delta_count := (if act then m_delta_count k + 1 else m_delta_count k)\<rparr> in
         obind (Some (runnable_is_empty (m_runnable k))) (\<lambda>empty.
         if empty \<or> m_paused k \<or> once then Some (Inr (reset_curr_proc k))
         else crunch body update once k))))"

end
