(* ===== verification/Sc_Simulate.thy ===== *)
theory Sc_Simulate
  imports Sc_Simcontext
begin

text \<open>
  The phases of a simulation in \<open>sc_simcontext.cpp\<close>: elaboration, the start, the loop that advances
  the time to the next timed notification, and the stop.  The channels and modules called back in
  these phases are parameters, as the bodies of the processes and the updates of the channels are.
\<close>

section \<open>Parameters\<close>

text \<open>\<open>construction_done\<close> tells whether all four registries found nothing new.\<close>

record 'k program =
  process_body :: "process \<Rightarrow> 'k \<Rightarrow> 'k res"
  channel_update_body :: "nat \<Rightarrow> 'k \<Rightarrow> 'k res"
  construction_done :: "'k \<Rightarrow> (bool \<times> 'k) res"
  elaboration_done :: "'k \<Rightarrow> 'k res"
  start_simulation :: "'k \<Rightarrow> 'k res"
  simulation_done :: "'k \<Rightarrow> 'k res"

section \<open>Stopping\<close>

definition sim_end :: "('a kernel_scheme) program \<Rightarrow> 'a kernel_scheme \<Rightarrow> 'a kernel_scheme res" where
  "sim_end pr k =
     rbind (simulation_done pr (k\<lparr>m_simulation_status := SC_END_OF_SIMULATION, m_ready_to_simulate := False\<rparr>))
       (\<lambda>k. Inr (k\<lparr>m_end_of_simulation_called := True\<rparr>))"

definition do_sc_stop_action :: "('a kernel_scheme) program \<Rightarrow> 'a kernel_scheme \<Rightarrow> 'a kernel_scheme res" where
  "do_sc_stop_action pr k =
     rbind (if m_start_of_simulation_called k
            then rbind (sim_end pr k) (\<lambda>k. Inr (k\<lparr>m_in_simulator_control := False\<rparr>)) else Inr k)
       (\<lambda>k. Inr (k\<lparr>m_simulation_status := SC_STOPPED\<rparr>))"

definition sim_stop :: "('a kernel_scheme) program \<Rightarrow> 'a kernel_scheme \<Rightarrow> 'a kernel_scheme res" where
  "sim_stop pr k =
     (if m_forced_stop k then Inr k
      else rbind (if k_stop_mode k = SC_STOP_IMMEDIATE
                  then on_runnable (runnable_init (k_method_head k) (k_thread_head k)) k else Inr k) (\<lambda>k.
        let k = k\<lparr>m_forced_stop := True\<rparr> in
        if \<not> m_in_simulator_control k then do_sc_stop_action pr k else Inr k))"

definition sim_ok :: "'a kernel_scheme \<Rightarrow> bool" where
  "sim_ok k \<longleftrightarrow> \<not> m_forced_stop k"

definition get_status :: "'a kernel_scheme \<Rightarrow> sc_status" where
  "get_status k =
     (if m_simulation_status k \<noteq> SC_RUNNING then m_simulation_status k
      else if m_in_simulator_control k then SC_RUNNING else SC_PAUSED)"

section \<open>Elaboration and start\<close>

text \<open>The loop over the callbacks: it is left with \<open>False\<close> when a callback stopped the simulation.\<close>

partial_function (option) construction_loop ::
  "('a kernel_scheme) program \<Rightarrow> 'a kernel_scheme \<Rightarrow> (bool \<times> 'a kernel_scheme) res option" where
  "construction_loop pr k =
     obind (Some (construction_done pr k)) (\<lambda>r. case r of (fin, k) \<Rightarrow>
       if m_forced_stop k then obind (Some (do_sc_stop_action pr k)) (\<lambda>k. Some (Inr (False, k)))
       else if fin then Some (Inr (True, k)) else construction_loop pr k)"

definition elaborate :: "('a kernel_scheme) program \<Rightarrow> 'a kernel_scheme \<Rightarrow> 'a kernel_scheme res option" where
  "elaborate pr k =
     (if m_elaboration_done k \<or> \<not> sim_ok k then Some (Inr k)
      else obind (construction_loop pr (k\<lparr>m_simulation_status := SC_BEFORE_END_OF_ELABORATION\<rparr>)) (\<lambda>(go, k).
        if \<not> go then Some (Inr k)
        else obind (Some (elaboration_done pr
               (k\<lparr>m_elaboration_done := True, m_simulation_status := SC_END_OF_ELABORATION\<rparr>))) (\<lambda>k.
          Some (if m_forced_stop k then do_sc_stop_action pr k else Inr k))))"

text \<open>A process is made ready at the start unless it is disabled or asked not to be initialised.\<close>

definition initialize_method :: "nat \<Rightarrow> 'a kernel_scheme \<Rightarrow> 'a kernel_scheme res" where
  "initialize_method m k =
     (let q = k_method k m in
      if ps_bit_disabled (m_state q) \<or> m_dont_init q then Inr k
      else if \<not> ps_bit_suspended (m_state q) then
        (if \<not> is_runnable (Method m) k then push_runnable_method_front m k else Inr k)
      else Inr (upd_state (Method m) (\<lambda>s. s\<lparr>ps_bit_ready_to_run := True\<rparr>) k))"

definition initialize_thread :: "nat \<Rightarrow> 'a kernel_scheme \<Rightarrow> 'a kernel_scheme res" where
  "initialize_thread t k =
     (let q = k_thread k t in
      if ps_bit_disabled (m_state q) \<or> m_dont_init q then Inr k
      else if \<not> ps_bit_suspended (m_state q) then
        (if \<not> is_runnable (Thread t) k then push_runnable_thread_front t k else Inr k)
      else Inr (upd_state (Thread t) (\<lambda>s. s\<lparr>ps_bit_ready_to_run := True\<rparr>) k))"

definition prepare_to_simulate :: "('a kernel_scheme) program \<Rightarrow> 'a kernel_scheme \<Rightarrow> 'a kernel_scheme res" where
  "prepare_to_simulate pr k =
     (if m_ready_to_simulate k \<or> \<not> sim_ok k then Inr k
      else rbind (start_simulation pr (k\<lparr>m_simulation_status := SC_START_OF_SIMULATION\<rparr>)) (\<lambda>k.
        let k = k\<lparr>m_start_of_simulation_called := True\<rparr> in
        if m_forced_stop k then do_sc_stop_action pr k
        else
          let k = fold prepare_for_simulation (m_thread_table k) k;
              k = k\<lparr>m_simulation_status := SC_RUNNING, m_ready_to_simulate := True\<rparr> in
          rbind (on_runnable (runnable_init (k_method_head k) (k_thread_head k)) k) (\<lambda>k.
          rbind (perform_update (channel_update_body pr) (k\<lparr>m_execution_phase := phase_update\<rparr>)) (\<lambda>k.
          let k = k\<lparr>m_execution_phase := phase_notify\<rparr> in
          rbind (res_fold initialize_method (m_method_table k) k) (\<lambda>k.
          rbind (res_fold initialize_thread (m_thread_table k) k) notify_deltas)))))"

abbreviation run_crunch :: "('a kernel_scheme) program \<Rightarrow> bool \<Rightarrow> 'a kernel_scheme \<Rightarrow> 'a kernel_scheme res option" where
  "run_crunch pr \<equiv> crunch (process_body pr) (channel_update_body pr)"

definition initial_crunch :: "('a kernel_scheme) program \<Rightarrow> bool \<Rightarrow> 'a kernel_scheme \<Rightarrow> 'a kernel_scheme res option" where
  "initial_crunch pr no_crunch k =
     (if no_crunch then Some (Inr k)
      else obind (Some (runnable_is_empty (m_runnable k))) (\<lambda>empty.
        if empty then Some (Inr k)
        else obind (run_crunch pr False k) (\<lambda>k.
          Some (if m_forced_stop k then do_sc_stop_action pr k else Inr k))))"

definition initialize :: "('a kernel_scheme) program \<Rightarrow> bool \<Rightarrow> 'a kernel_scheme \<Rightarrow> 'a kernel_scheme res option" where
  "initialize pr no_crunch k =
     obind (elaborate pr (k\<lparr>m_in_simulator_control := True\<rparr>)) (\<lambda>k.
     obind (Some (prepare_to_simulate pr k)) (\<lambda>k.
     obind (initial_crunch pr no_crunch k) (\<lambda>k.
     Some (Inr (k\<lparr>m_in_simulator_control := False\<rparr>)))))"

section \<open>Time\<close>

definition do_timestep :: "sc_time \<Rightarrow> 'a kernel_scheme \<Rightarrow> 'a kernel_scheme res" where
  "do_timestep t k =
     (if m_curr_time k < t then
        Inr (k\<lparr>m_curr_time := t, m_change_stamp := m_change_stamp k + 1, m_initial_delta_count := m_delta_count k\<rparr>)
      else Inl AssertFailed)"

text \<open>\<open>extract_top\<close> of the timed notifications, and its object deleted.\<close>

definition extract_timed :: "'a kernel_scheme \<Rightarrow> (nat \<times> 'a kernel_scheme) res" where
  "extract_timed k =
     rbind (pq_extract_top (sc_notify_time_compare (k_timed k)) (m_timed_events k)) (\<lambda>(et, q).
       Inr (et, k\<lparr>m_timed_events := q\<rparr>))"

lemma extract_timed_size:
  "extract_timed k = Inr (et, k') \<Longrightarrow> m_heap_size (m_timed_events k') < m_heap_size (m_timed_events k)"
  by (auto simp: extract_timed_def pq_extract_top_def Let_def split: if_splits)

text \<open>The time of the next notification that was not cancelled; the cancelled ones before it are
  taken out.\<close>

function next_time :: "'a kernel_scheme \<Rightarrow> (sc_time option \<times> 'a kernel_scheme) res" where
  "next_time k =
     (if pq_empty (m_timed_events k) then Inr (None, k)
      else let et = pq_top (m_timed_events k) in
        if m_event (k_timed k et) \<noteq> None then Inr (Some (m_notify_time (k_timed k et)), k)
        else case extract_timed k of
          Inl e \<Rightarrow> Inl e
        | Inr (et, k') \<Rightarrow> next_time (delete_timed et k'))"
  by pat_completeness auto
termination
  by (relation "measure (\<lambda>k. m_heap_size (m_timed_events k))")
    (auto dest: extract_timed_size simp: delete_timed_def upd_event_def split: option.splits)

declare next_time.simps [simp del]

text \<open>The timed notifications at the time \<open>t\<close>.\<close>

partial_function (option) trigger_timed :: "sc_time \<Rightarrow> 'a kernel_scheme \<Rightarrow> 'a kernel_scheme res option" where
  "trigger_timed t k =
     obind (Some (extract_timed k)) (\<lambda>r. case r of (et, k) \<Rightarrow>
       let e = m_event (k_timed k et); k = delete_timed et k in
       obind (Some (if e = None then Inr k else trigger (the e) k)) (\<lambda>k.
       if \<not> pq_empty (m_timed_events k) \<and> m_notify_time (k_timed k (pq_top (m_timed_events k))) = t
       then trigger_timed t k else Some (Inr k)))"

text \<open>The inner loop of \<open>simulate\<close>: from the time \<open>t\<close>, on to the first time at which a process
  becomes runnable.  \<open>False\<close> in the result is the exit because there is nothing left to do.\<close>

partial_function (option) advance ::
  "sc_time \<Rightarrow> sc_time \<Rightarrow> 'a kernel_scheme \<Rightarrow> ((bool \<times> sc_time) \<times> 'a kernel_scheme) res option" where
  "advance until t k =
     obind (Some (next_time k)) (\<lambda>r. case r of (nt, k) \<Rightarrow>
       let t = (case nt of None \<Rightarrow> t | Some t' \<Rightarrow> t') in
       if nt = None \<or> t > until then Some (Inr ((False, t), k))
       else obind (Some (if t > m_curr_time k then do_timestep t k else Inr k)) (\<lambda>k.
         obind (trigger_timed t k) (\<lambda>k.
         obind (Some (runnable_is_empty (m_runnable k))) (\<lambda>empty.
         if empty then advance until t k else Some (Inr ((True, t), k))))))"

text \<open>How the loop of \<open>simulate\<close> is left.\<close>

datatype sim_exit = Exit_Stop | Exit_Pause | Exit_Time sc_time

partial_function (option) simulate_loop ::
  "('a kernel_scheme) program \<Rightarrow> sc_time \<Rightarrow> 'a kernel_scheme \<Rightarrow> (sim_exit \<times> 'a kernel_scheme) res option" where
  "simulate_loop pr until k =
     obind (run_crunch pr False k) (\<lambda>k.
     if m_forced_stop k then obind (Some (do_sc_stop_action pr k)) (\<lambda>k. Some (Inr (Exit_Stop, k)))
     else if m_paused k then Some (Inr (Exit_Pause, k))
     else obind (advance until (m_curr_time k) k) (\<lambda>r. case r of ((go, t), k) \<Rightarrow>
       if go \<and> t < until then simulate_loop pr until k else Some (Inr (Exit_Time t, k))))"

definition exit_pause :: "'a kernel_scheme \<Rightarrow> 'a kernel_scheme" where
  "exit_pause k = k\<lparr>m_execution_phase := phase_evaluate, m_in_simulator_control := False\<rparr>"

definition simulate_exit :: "sc_time \<Rightarrow> sim_exit \<Rightarrow> 'a kernel_scheme \<Rightarrow> 'a kernel_scheme res" where
  "simulate_exit until x k = (case x of
     Exit_Stop \<Rightarrow> Inr k
   | Exit_Pause \<Rightarrow> Inr (exit_pause k)
   | Exit_Time t \<Rightarrow>
       rbind (if t > m_curr_time k \<and> t \<le> until then do_timestep t k else Inr k) (\<lambda>k. Inr (exit_pause k)))"

definition simulate :: "('a kernel_scheme) program \<Rightarrow> sc_time \<Rightarrow> 'a kernel_scheme \<Rightarrow> 'a kernel_scheme res option" where
  "simulate pr duration k =
     obind (initialize pr True k) (\<lambda>k.
     if \<not> sim_ok k then Some (Inr k)
     else let (mx, k) = max_time k in
       if duration > sc_time_sub mx (m_curr_time k) then Some (Inl TimeOverflow)
       else let k = k\<lparr>m_in_simulator_control := True, m_paused := False\<rparr>;
                until = sc_time_add (m_curr_time k) duration in
         if duration = SC_ZERO_TIME then
           obind (run_crunch pr True k) (\<lambda>k.
             Some (if m_forced_stop k then do_sc_stop_action pr k else Inr (exit_pause k)))
         else obind (simulate_loop pr until k) (\<lambda>(x, k). Some (simulate_exit until x k)))"

section \<open>The functions of the user\<close>

datatype starvation_policy = SC_EXIT_ON_STARVATION | SC_RUN_TO_TIME

definition sc_start :: "('a kernel_scheme) program \<Rightarrow> sc_time \<Rightarrow> starvation_policy \<Rightarrow> 'a kernel_scheme \<Rightarrow> 'a kernel_scheme res option" where
  "sc_start pr duration p k =
     (let exit_time = sc_time_add (m_curr_time k) duration in
      if \<not> sim_ok k then Some (Inl SimulationStatus)
      else if get_status k \<notin> {SC_PAUSED, SC_ELABORATION} then Some (Inl SimulationStatus)
      else obind (simulate pr duration k) (\<lambda>k.
        Some (if p = SC_RUN_TO_TIME \<and> \<not> m_paused k \<and> sim_ok k \<and> m_curr_time k < exit_time
              then do_timestep exit_time k else Inr k)))"

text \<open>\<open>sc_start\<close> without an argument, as \<open>main.cpp\<close> calls it.\<close>

definition sc_start_all :: "('a kernel_scheme) program \<Rightarrow> 'a kernel_scheme \<Rightarrow> 'a kernel_scheme res option" where
  "sc_start_all pr k =
     (let (mx, k) = max_time k in sc_start pr (sc_time_sub mx (m_curr_time k)) SC_EXIT_ON_STARVATION k)"

definition pending_activity_at_current_time :: "'a kernel_scheme \<Rightarrow> bool res" where
  "pending_activity_at_current_time k =
     (if m_delta_size k \<noteq> 0 then Inr True
      else rbind (if runnable_is_initialized (m_runnable k) then rbind (runnable_is_empty (m_runnable k)) (\<lambda>b. Inr (\<not> b))
                  else Inr False) (\<lambda>b. Inr (b \<or> m_update_list k \<noteq> [])))"

definition sc_time_to_pending_activity :: "'a kernel_scheme \<Rightarrow> (sc_time \<times> 'a kernel_scheme) res" where
  "sc_time_to_pending_activity k =
     rbind (pending_activity_at_current_time k) (\<lambda>now.
       if now then Inr (SC_ZERO_TIME, k)
       else let (mx, k) = max_time k in
         rbind (next_time k) (\<lambda>(nt, k). Inr (sc_time_sub (case nt of None \<Rightarrow> mx | Some t \<Rightarrow> t) (m_curr_time k), k)))"

definition cycle :: "('a kernel_scheme) program \<Rightarrow> sc_time \<Rightarrow> 'a kernel_scheme \<Rightarrow> 'a kernel_scheme res option" where
  "cycle pr t k =
     obind (run_crunch pr False (k\<lparr>m_in_simulator_control := True\<rparr>)) (\<lambda>k.
     Some (rbind (do_timestep (sc_time_add (m_curr_time k) t) k) (\<lambda>k.
       rbind (next_time k) (\<lambda>(_, k). Inr (k\<lparr>m_in_simulator_control := False\<rparr>)))))"

end
