(* ===== verification/Sc_Start.thy ===== *)
theory Sc_Start
  imports Sc_Simulate
begin

text \<open>
  The order in which processes are made ready at the start of a simulation, and what suspending
  and resuming a process does to a wake-up.
\<close>

section \<open>Initialisation\<close>

text \<open>A process that is made ready at the start.\<close>

definition initialized :: "'a kernel_scheme \<Rightarrow> process \<Rightarrow> bool" where
  "initialized k p =
     (let q = proc_of p k in \<not> ps_bit_disabled (m_state q) \<and> \<not> m_dont_init q \<and> \<not> ps_bit_suspended (m_state q))"

lemma initialize_methods_lists:
  assumes "runnable_lists (m_runnable k) hm ht ms mp ts tp" and "distinct xs" and "set xs \<inter> set (hm # ms @ mp) = {}"
  shows "\<exists>r f. res_fold initialize_method xs k = Inr (k\<lparr>m_runnable := r, k_method := f\<rparr>) \<and>
    runnable_lists r hm ht (rev (filter (\<lambda>m. initialized k (Method m)) xs) @ ms) mp ts tp"
  using assms
proof (induction xs arbitrary: k ms)
  case Nil
  have "res_fold initialize_method [] k = Inr (k\<lparr>m_runnable := m_runnable k, k_method := k_method k\<rparr>)" by simp
  with Nil show ?case by (intro exI [of _ "m_runnable k"] exI [of _ "k_method k"]) simp
next
  case (Cons m xs)
  let ?ok = "initialized k (Method m)"
  have m: "m \<notin> set (hm # ms @ mp)" using Cons.prems(3) by auto
  have nr: "\<not> is_runnable (Method m) k" using is_runnable_lists(1) [OF Cons.prems(1)] m by blast
  have "\<exists>r q. initialize_method m k = Inr (k\<lparr>m_runnable := r, k_method := (k_method k)(m := q)\<rparr>) \<and>
    runnable_lists r hm ht (if ?ok then m # ms else ms) mp ts tp"
  proof (cases ?ok)
    case True
    obtain r where r: "push_front_method m (m_runnable k) = Inr r" "runnable_lists r hm ht (m # ms) mp ts tp"
      using push_front_method_lists [OF Cons.prems(1) m] by blast
    have "initialize_method m k = Inr (k\<lparr>m_runnable := r, k_method := (k_method k)(m := k_method k m)\<rparr>)"
      using True nr r(1) by (simp add: initialize_method_def initialized_def proc_of_def Let_def
          push_runnable_method_front_def on_runnable_def)
    then show ?thesis using r(2) True by (intro exI [of _ r] exI [of _ "k_method k m"] conjI) simp_all
  next
    case False
    show ?thesis
    proof (cases "ps_bit_disabled (m_state (k_method k m)) \<or> m_dont_init (k_method k m)")
      case True
      then have "initialize_method m k = Inr (k\<lparr>m_runnable := m_runnable k, k_method := (k_method k)(m := k_method k m)\<rparr>)"
        by (simp add: initialize_method_def Let_def)
      then show ?thesis using False Cons.prems(1)
        by (intro exI [of _ "m_runnable k"] exI [of _ "k_method k m"] conjI) simp_all
    next
      case 2: False
      let ?q = "(k_method k m)\<lparr>m_state := (m_state (k_method k m))\<lparr>ps_bit_ready_to_run := True\<rparr>\<rparr>"
      have "initialize_method m k = Inr (k\<lparr>m_runnable := m_runnable k, k_method := (k_method k)(m := ?q)\<rparr>)"
        using False 2 by (simp add: initialize_method_def initialized_def proc_of_def Let_def upd_state_def upd_proc_def)
      then show ?thesis using False Cons.prems(1) by (intro exI [of _ "m_runnable k"] exI [of _ ?q] conjI) simp_all
    qed
  qed
  then obtain r q where 1: "initialize_method m k = Inr (k\<lparr>m_runnable := r, k_method := (k_method k)(m := q)\<rparr>)"
    "runnable_lists r hm ht (if ?ok then m # ms else ms) mp ts tp" by blast
  let ?k = "k\<lparr>m_runnable := r, k_method := (k_method k)(m := q)\<rparr>"
  have k: "runnable_lists (m_runnable ?k) hm ht (if ?ok then m # ms else ms) mp ts tp" using 1(2) by simp
  have d: "set xs \<inter> set (hm # (if ?ok then m # ms else ms) @ mp) = {}" "distinct xs" using Cons.prems(2,3) by auto
  obtain r' f where 2: "res_fold initialize_method xs ?k = Inr (?k\<lparr>m_runnable := r', k_method := f\<rparr>)"
    "runnable_lists r' hm ht (rev (filter (\<lambda>m. initialized ?k (Method m)) xs) @ (if ?ok then m # ms else ms)) mp ts tp"
    using Cons.IH [OF k d(2,1)] by blast
  have "filter (\<lambda>m. initialized ?k (Method m)) xs = filter (\<lambda>m. initialized k (Method m)) xs"
    using Cons.prems(2) by (intro filter_cong) (auto simp: initialized_def proc_of_def)
  then show ?case using 1(1) 2 by (intro exI [of _ r'] exI [of _ f]) (simp split: if_splits)
qed

lemma initialize_threads_lists:
  assumes "runnable_lists (m_runnable k) hm ht ms mp ts tp" and "distinct xs" and "set xs \<inter> set (ht # ts @ tp) = {}"
  shows "\<exists>r f. res_fold initialize_thread xs k = Inr (k\<lparr>m_runnable := r, k_thread := f\<rparr>) \<and>
    runnable_lists r hm ht ms mp (rev (filter (\<lambda>t. initialized k (Thread t)) xs) @ ts) tp \<and>
    (\<forall>x. m_cor_p (f x) = m_cor_p (k_thread k x))"
  using assms
proof (induction xs arbitrary: k ts)
  case Nil
  have "res_fold initialize_thread [] k = Inr (k\<lparr>m_runnable := m_runnable k, k_thread := k_thread k\<rparr>)" by simp
  with Nil show ?case by (intro exI [of _ "m_runnable k"] exI [of _ "k_thread k"]) simp
next
  case (Cons t xs)
  let ?ok = "initialized k (Thread t)"
  have t: "t \<notin> set (ht # ts @ tp)" using Cons.prems(3) by auto
  have nr: "\<not> is_runnable (Thread t) k" using is_runnable_lists(2) [OF Cons.prems(1)] t by blast
  have "\<exists>r q. initialize_thread t k = Inr (k\<lparr>m_runnable := r, k_thread := (k_thread k)(t := q)\<rparr>) \<and>
    runnable_lists r hm ht ms mp (if ?ok then t # ts else ts) tp \<and> m_cor_p q = m_cor_p (k_thread k t)"
  proof (cases ?ok)
    case True
    obtain r where r: "push_front_thread t (m_runnable k) = Inr r" "runnable_lists r hm ht ms mp (t # ts) tp"
      using push_front_thread_lists [OF Cons.prems(1) t] by blast
    have "initialize_thread t k = Inr (k\<lparr>m_runnable := r, k_thread := (k_thread k)(t := k_thread k t)\<rparr>)"
      using True nr r(1) by (simp add: initialize_thread_def initialized_def proc_of_def Let_def
          push_runnable_thread_front_def on_runnable_def)
    then show ?thesis using r(2) True by (intro exI [of _ r] exI [of _ "k_thread k t"] conjI) simp_all
  next
    case False
    show ?thesis
    proof (cases "ps_bit_disabled (m_state (k_thread k t)) \<or> m_dont_init (k_thread k t)")
      case True
      then have "initialize_thread t k = Inr (k\<lparr>m_runnable := m_runnable k, k_thread := (k_thread k)(t := k_thread k t)\<rparr>)"
        by (simp add: initialize_thread_def Let_def)
      then show ?thesis using False Cons.prems(1)
        by (intro exI [of _ "m_runnable k"] exI [of _ "k_thread k t"] conjI) simp_all
    next
      case 2: False
      let ?q = "(k_thread k t)\<lparr>m_state := (m_state (k_thread k t))\<lparr>ps_bit_ready_to_run := True\<rparr>\<rparr>"
      have "initialize_thread t k = Inr (k\<lparr>m_runnable := m_runnable k, k_thread := (k_thread k)(t := ?q)\<rparr>)"
        using False 2 by (simp add: initialize_thread_def initialized_def proc_of_def Let_def upd_state_def upd_proc_def)
      then show ?thesis using False Cons.prems(1) by (intro exI [of _ "m_runnable k"] exI [of _ ?q] conjI) simp_all
    qed
  qed
  then obtain r q where 1: "initialize_thread t k = Inr (k\<lparr>m_runnable := r, k_thread := (k_thread k)(t := q)\<rparr>)"
    "runnable_lists r hm ht ms mp (if ?ok then t # ts else ts) tp" "m_cor_p q = m_cor_p (k_thread k t)" by blast
  let ?k = "k\<lparr>m_runnable := r, k_thread := (k_thread k)(t := q)\<rparr>"
  have k: "runnable_lists (m_runnable ?k) hm ht ms mp (if ?ok then t # ts else ts) tp" using 1(2) by simp
  have d: "set xs \<inter> set (ht # (if ?ok then t # ts else ts) @ tp) = {}" "distinct xs" using Cons.prems(2,3) by auto
  obtain r' f where 2: "res_fold initialize_thread xs ?k = Inr (?k\<lparr>m_runnable := r', k_thread := f\<rparr>)"
    "runnable_lists r' hm ht ms mp (rev (filter (\<lambda>t. initialized ?k (Thread t)) xs) @ (if ?ok then t # ts else ts)) tp"
    "\<forall>x. m_cor_p (f x) = m_cor_p (k_thread ?k x)"
    using Cons.IH [OF k d(2,1)] by blast
  have "filter (\<lambda>t. initialized ?k (Thread t)) xs = filter (\<lambda>t. initialized k (Thread t)) xs"
    using Cons.prems(2) by (intro filter_cong) (auto simp: initialized_def proc_of_def)
  moreover have "m_cor_p (f x) = m_cor_p (k_thread k x)" for x using 2(3) 1(3) by simp
  ultimately show ?case using 1(1) 2(1,2) by (intro exI [of _ r'] exI [of _ f]) (simp split: if_splits)
qed

lemma prepare_threads:
  "fold prepare_for_simulation ts k =
     k\<lparr>k_thread := (\<lambda>t. if t \<in> set ts then (k_thread k t)\<lparr>m_cor_p := True\<rparr> else k_thread k t)\<rparr>"
proof (induction ts arbitrary: k)
  case (Cons t ts)
  have "prepare_for_simulation t k = k\<lparr>k_thread := (k_thread k)(t := (k_thread k t)\<lparr>m_cor_p := True\<rparr>)\<rparr>"
    by (simp add: prepare_for_simulation_def upd_proc_def)
  then show ?case using Cons.IH [of "prepare_for_simulation t k"] by (simp add: fun_eq_iff)
qed simp

text \<open>The order of the start.  With nothing notified or to be updated yet, the preparation
  succeeds, every thread has its coroutine, and the run queues hold exactly the processes that are
  enabled, not suspended and to be initialised, in the order of their creation, which is the
  reverse of that of the tables: methods and threads apart.\<close>

theorem processes_start_in_creation_order:
  assumes "start_simulation pr = Inr" and "sim_ok k" and "\<not> m_ready_to_simulate k"
    and "m_runnable k = sc_runnable_new" and "m_update_list k = []" and "m_delta_size k = 0"
    and "distinct (k_method_head k # m_method_table k)" and "distinct (k_thread_head k # m_thread_table k)"
  shows "\<exists>k'. prepare_to_simulate pr k = Inr k' \<and>
    runnable_lists (m_runnable k') (k_method_head k) (k_thread_head k)
      (filter (\<lambda>m. initialized k (Method m)) (rev (m_method_table k))) []
      (filter (\<lambda>t. initialized k (Thread t)) (rev (m_thread_table k))) [] \<and>
    (\<forall>t \<in> set (m_thread_table k). m_cor_p (k_thread k' t)) \<and>
    m_ready_to_simulate k' \<and> m_simulation_status k' = SC_RUNNING"
proof -
  let ?hm = "k_method_head k" and ?ht = "k_thread_head k" and ?ms = "m_method_table k" and ?ts = "m_thread_table k"
  obtain r where r: "runnable_init ?hm ?ht sc_runnable_new = Inr r" "runnable_lists r ?hm ?ht [] [] [] []"
    using runnable_init_lists by blast
  let ?th = "\<lambda>t. if t \<in> set ?ts then (k_thread k t)\<lparr>m_cor_p := True\<rparr> else k_thread k t"
  let ?k = "k\<lparr>m_simulation_status := SC_START_OF_SIMULATION, m_start_of_simulation_called := True, k_thread := ?th,
    m_simulation_status := SC_RUNNING, m_ready_to_simulate := True, m_runnable := r, m_execution_phase := phase_update,
    m_update_list := [], m_execution_phase := phase_notify\<rparr>"
  have i: "initialized ?k p = initialized k p" for p by (cases p) (simp_all add: initialized_def proc_of_def Let_def)
  have d: "distinct ?ms" "set ?ms \<inter> set (?hm # [] @ []) = {}" "distinct ?ts" "set ?ts \<inter> set (?ht # [] @ []) = {}"
    using assms(7,8) by auto
  have 0: "runnable_lists (m_runnable ?k) ?hm ?ht [] [] [] []" using r(2) by simp
  obtain r1 f where 1: "res_fold initialize_method ?ms ?k = Inr (?k\<lparr>m_runnable := r1, k_method := f\<rparr>)"
    "runnable_lists r1 ?hm ?ht (rev (filter (\<lambda>m. initialized k (Method m)) ?ms)) [] [] []"
    using initialize_methods_lists [OF 0 d(1,2)] unfolding i by auto
  let ?k1 = "?k\<lparr>m_runnable := r1, k_method := f\<rparr>"
  have i1: "initialized ?k1 (Thread t) = initialized k (Thread t)" for t by (simp add: initialized_def proc_of_def Let_def)
  have k1: "runnable_lists (m_runnable ?k1) ?hm ?ht (rev (filter (\<lambda>m. initialized k (Method m)) ?ms)) [] [] []" using 1(2) by simp
  obtain r2 g where 2: "res_fold initialize_thread ?ts ?k1 = Inr (?k1\<lparr>m_runnable := r2, k_thread := g\<rparr>)"
    "runnable_lists r2 ?hm ?ht (rev (filter (\<lambda>m. initialized k (Method m)) ?ms)) []
      (rev (filter (\<lambda>t. initialized k (Thread t)) ?ts)) []" "\<forall>t. m_cor_p (g t) = m_cor_p (?th t)"
    using initialize_threads_lists [OF k1 d(3,4)] unfolding i1 by auto
  have "prepare_to_simulate pr k = rbind (res_fold initialize_method ?ms ?k)
      (\<lambda>k. rbind (res_fold initialize_thread (m_thread_table k) k) notify_deltas)"
    using assms(1-6) r(1) by (simp add: prepare_to_simulate_def sim_ok_def Let_def on_runnable_def prepare_threads perform_update_def
        cong: if_cong)
  then have "prepare_to_simulate pr k = Inr (?k1\<lparr>m_runnable := r2, k_thread := g\<rparr>)"
    unfolding 1(1) using 2(1) assms(6) by (simp add: notify_deltas_def)
  then show ?thesis using 2(2,3) by (intro exI [of _ "?k1\<lparr>m_runnable := r2, k_thread := g\<rparr>"]) (simp add: rev_filter)
qed

text \<open>A program without bodies, and three methods and two threads of it; the second method is
  created with \<open>dont_initialize\<close>.\<close>

definition idle_program :: "kernel program" where
  "idle_program = \<lparr>process_body = (\<lambda>_. Inr), channel_update_body = (\<lambda>_. Inr), construction_done = (\<lambda>k. Inr (True, k)),
     elaboration_done = Inr, start_simulation = Inr, simulation_done = Inr\<rparr>"

definition five_processes :: kernel where
  "five_processes =
     (let opt = \<lparr>o_dont_initialize = False, o_sensitive_events = []\<rparr> in
      case res_fold (\<lambda>f k. f k)
        [create_method_process 1 11 opt, create_thread_process 1 21 opt, create_method_process 2 12 (opt\<lparr>o_dont_initialize := True\<rparr>),
         create_thread_process 2 22 opt, create_method_process 3 13 opt] (simcontext_init None SC_STOP_FINISH_DELTA False)
      of Inr k \<Rightarrow> k)"

theorem processes_start_in_creation_order_witness:
  "\<exists>k'. prepare_to_simulate idle_program five_processes = Inr k' \<and>
     runnable_lists (m_runnable k') 0 0 [1, 3] [] [1, 2] [] \<and> m_ready_to_simulate k'"
proof -
  have "start_simulation idle_program = Inr" "sim_ok five_processes" "\<not> m_ready_to_simulate five_processes"
    "m_runnable five_processes = sc_runnable_new" "m_update_list five_processes = []" "m_delta_size five_processes = 0"
    "distinct (k_method_head five_processes # m_method_table five_processes)"
    "distinct (k_thread_head five_processes # m_thread_table five_processes)"
    "m_method_table five_processes = [3, 2, 1]" "m_thread_table five_processes = [2, 1]"
    "k_method_head five_processes = 0" "k_thread_head five_processes = 0"
    "initialized five_processes (Method 1)" "\<not> initialized five_processes (Method 2)" "initialized five_processes (Method 3)"
    "initialized five_processes (Thread 1)" "initialized five_processes (Thread 2)"
    by (simp_all add: idle_program_def five_processes_def create_method_process_def create_thread_process_def
        construct_process_def upd_proc_def simcontext_init_def Let_def sim_ok_def initialized_def proc_of_def
        sc_process_new_def ps_normal_def)
  then show ?thesis using processes_start_in_creation_order [of idle_program five_processes] by auto
qed

section \<open>Suspending and resuming\<close>

text \<open>A method that waits for its static events only: not queued, not running, enabled, not suspended,
  without a wake-up kept for it, without a reset, and with nothing pending for its time-out.\<close>

definition waits_statically :: "nat \<Rightarrow> 'a kernel_scheme \<Rightarrow> bool" where
  "waits_statically m k \<longleftrightarrow> m_state (k_method k m) = ps_normal \<and> m_trigger_type (k_method k m) = STATIC \<and>
     \<not> m_has_reset_signal (k_method k m) \<and> \<not> m_sticky_reset (k_method k m) \<and>
     \<not> is_runnable (Method m) k \<and> m_curr_proc k \<noteq> Some (Method m) \<and>
     m_notify_type (k_event k (m_timeout_event_p (k_method k m))) = NONE"

definition method_state :: "nat \<Rightarrow> bool \<Rightarrow> bool \<Rightarrow> 'a kernel_scheme \<Rightarrow> 'a kernel_scheme" where
  "method_state m suspended ready k =
     k\<lparr>k_method := (k_method k)(m := (k_method k m)\<lparr>m_state := ps_normal\<lparr>ps_bit_suspended := suspended, ps_bit_ready_to_run := ready\<rparr>\<rparr>)\<rparr>"

lemma suspend_waiting:
  "waits_statically m k \<Longrightarrow> suspend_process False (Process (Method m) []) k = Inr (method_state m True False k)"
  by (simp add: suspend_process_def suspend_one_def waits_statically_def method_state_def proc_of_def upd_state_def upd_proc_def
      is_runnable_def ps_normal_def)

lemma trigger_suspended:
  "waits_statically m k \<Longrightarrow>
     res_fold (\<lambda>_. method_trigger_static m) us (method_state m True b k) = Inr (method_state m True (b \<or> us \<noteq> []) k)"
proof (induction us arbitrary: b)
  case (Cons u us)
  have "method_trigger_static m (method_state m True b k) = Inr (method_state m True True k)"
    using Cons.prems by (simp add: method_trigger_static_def make_ready_def waits_statically_def method_state_def proc_of_def
        upd_proc_def is_runnable_def ps_normal_def Let_def)
  then show ?case using Cons by simp
qed simp

text \<open>What leaving the events keeps.\<close>

definition ready_part :: "nat \<Rightarrow> 'a kernel_scheme \<Rightarrow> sc_runnable \<times> process_state" where
  "ready_part m k = (m_runnable k, m_state (k_method k m))"

lemma ready_part_updates [simp]:
  "ready_part m (upd_event e f k) = ready_part m k" "ready_part m (forget_event p k) = ready_part m k"
  "ready_part m (forget_list p k) = ready_part m k" "ready_part m (set_trigger p t k) = ready_part m k"
  by (simp_all add: ready_part_def upd_event_def forget_event_def forget_list_def set_trigger_def upd_proc_def split: process.split)

interpretation ready: process_frame "ready_part m" for m
  by unfold_locales simp_all

lemma remove_dynamic_type: "m_notify_type (snd (remove_dynamic p ev)) = m_notify_type ev"
  by (cases p) (simp_all add: remove_dynamic_def Let_def split: prod.split)

lemma remove_dynamic_events_ready:
  assumes "m_notify_type (k_event k (m_timeout_event_p (proc_of p k))) = NONE"
  shows "\<exists>k'. remove_dynamic_events False p k = Inr k' \<and> ready_part m k' = ready_part m k"
proof -
  let ?k = "set_trigger p STATIC k"
  let ?e = "m_timeout_event_p (proc_of p ?k)" and ?k1 = "upd_event (m_timeout_event_p (proc_of p ?k)) (\<lambda>ev. snd (remove_dynamic p ev)) ?k"
  have "?e = m_timeout_event_p (proc_of p k)" "k_event ?k = k_event k"
    by (cases p; simp add: set_trigger_def upd_proc_def proc_of_def)+
  then have "m_notify_type (k_event ?k1 ?e) = NONE" using assms by (simp add: upd_event_def remove_dynamic_type)
  then have "cancel ?e ?k1 = Inr ?k1" by (simp add: cancel_def)
  then show ?thesis by (simp add: remove_dynamic_events_def Let_def ready.part_el_remove split: option.split)
qed

lemma resume_suspended:
  assumes "waits_statically m k" and "runnable_lists (m_runnable k) hm ht ms mp ts tp"
  shows "\<exists>k'. resume_process False (Process (Method m) []) (method_state m True ready k) = Inr k' \<and>
    runnable_lists (m_runnable k') hm ht (if ready then ms @ [m] else ms) mp ts tp \<and> m_state (k_method k' m) = ps_normal"
proof -
  let ?k = "method_state m False False k"
  have st: "m_state (proc_of (Method m) (method_state m True ready k)) = ps_normal\<lparr>ps_bit_suspended := True, ps_bit_ready_to_run := ready\<rparr>"
    "upd_state (Method m) (\<lambda>s. s\<lparr>ps_bit_suspended := False\<rparr>) (method_state m True ready k) = method_state m False ready k"
    "upd_state (Method m) (\<lambda>s. s\<lparr>ps_bit_ready_to_run := False\<rparr>) (method_state m False ready k) = ?k"
    by (simp_all add: method_state_def proc_of_def upd_state_def upd_proc_def ps_normal_def)
  have w: "\<not> is_runnable (Method m) ?k" "m_curr_proc ?k \<noteq> Some (Method m)"
    using assms(1) by (simp_all add: waits_statically_def method_state_def is_runnable_def)
  show ?thesis
  proof (cases ready)
    case False
    then have "resume_process False (Process (Method m) []) (method_state m True ready k) = Inr ?k"
      using st by (simp add: resume_process_def resume_one_def Let_def ps_normal_def)
    then show ?thesis using assms(2) False by (simp add: method_state_def ps_normal_def)
  next
    case True
    have "m \<notin> set (hm # ms @ mp)"
      using assms is_runnable_lists(1) [OF assms(2)] unfolding waits_statically_def by blast
    then obtain r where r: "push_back_method m (m_runnable k) = Inr r" "runnable_lists r hm ht (ms @ [m]) mp ts tp"
      using push_back_method_lists [OF assms(2)] by blast
    let ?k1 = "?k\<lparr>m_runnable := r\<rparr>"
    have p: "push_runnable (Method m) ?k = Inr ?k1"
      using r(1) by (simp add: push_runnable_def push_runnable_method_def on_runnable_def method_state_def)
    have "m_notify_type (k_event ?k1 (m_timeout_event_p (proc_of (Method m) ?k1))) = NONE"
      using assms(1) by (simp add: waits_statically_def method_state_def proc_of_def)
    then obtain k' where k': "remove_dynamic_events False (Method m) ?k1 = Inr k'" "ready_part m k' = ready_part m ?k1"
      using remove_dynamic_events_ready by blast
    then have k'2: "m_runnable k' = r" "m_state (k_method k' m) = ps_normal"
      by (simp_all add: ready_part_def method_state_def ps_normal_def)
    have "resume_process False (Process (Method m) []) (method_state m True ready k) = Inr k'"
      using True st w p k'(1) by (simp add: resume_process_def resume_one_def Let_def ps_normal_def)
    then show ?thesis using r(2) True k'2 by simp
  qed
qed

text \<open>A suspended process keeps its wake-up.  While a waiting method is suspended its events do
  not queue it, however often they come; when it is resumed it is queued once, behind the methods
  queued in between, if at least one came, and goes on waiting if none did.\<close>

theorem suspended_wakeup_is_kept:
  assumes "waits_statically m k" and "runnable_lists (m_runnable k) hm ht ms mp ts tp"
  shows "\<exists>k1 k2 k3. suspend_process False (Process (Method m) []) k = Inr k1 \<and>
    res_fold (\<lambda>_. method_trigger_static m) us k1 = Inr k2 \<and> m_runnable k2 = m_runnable k \<and>
    resume_process False (Process (Method m) []) k2 = Inr k3 \<and>
    runnable_lists (m_runnable k3) hm ht (if us \<noteq> [] then ms @ [m] else ms) mp ts tp \<and> m_state (k_method k3 m) = ps_normal"
proof -
  have "res_fold (\<lambda>_. method_trigger_static m) us (method_state m True False k) = Inr (method_state m True (us \<noteq> []) k)"
    using trigger_suspended [OF assms(1), of us False] by simp
  moreover have "m_runnable (method_state m True (us \<noteq> []) k) = m_runnable k" by (simp add: method_state_def)
  ultimately show ?thesis using suspend_waiting [OF assms(1)] resume_suspended [OF assms, of "us \<noteq> []"] by blast
qed

theorem suspended_wakeup_is_kept_witness:
  "\<exists>k1 k2 k3. suspend_process False (Process (Method 4) []) registered = Inr k1 \<and>
     res_fold (\<lambda>_. method_trigger_static 4) [(), ()] k1 = Inr k2 \<and> m_runnable k2 = two_queued \<and>
     resume_process False (Process (Method 4) []) k2 = Inr k3 \<and> runnable_lists (m_runnable k3) 0 0 [1, 2, 4] [] [] []"
proof -
  have r: "m_runnable registered = two_queued" by (simp add: registered_def add_static_runnable)
  have "waits_statically 4 registered" by code_simp
  from suspended_wakeup_is_kept [OF this, of 0 0 "[1, 2]" "[]" "[]" "[]" "[(), ()]"] show ?thesis
    using two_queued_lists by (auto simp: r)
qed

end
