(* ===== verification/Float64.thy ===== *)
theory Float64
  imports Rounding "HOL-Library.Word"
begin

text \<open>
  The C++ type \<open>double\<close> (IEEE 754 binary64, round to nearest even), as far as the kernel
  computes times with it (\<open>sysc/kernel/sc_time.h\<close>): comparison, addition, multiplication, and the
  conversions from \<open>uint64\<close> and to \<open>int64\<close>.  Every operation is rounded to a \<open>double\<close>, as
  on a machine without extended precision and without fused multiplication and addition.

  As for \<open>float\<close>, a finite number is a sign (\<open>True\<close> for negative) and its magnitude counted in
  units of the smallest subnormal number, here \<open>2\<^sup>-\<^sup>1\<^sup>0\<^sup>7\<^sup>4\<close>: \<open>1.0\<close> is
  \<open>DNum False DOUBLE_ONE\<close>.
\<close>

section \<open>Values\<close>

datatype float64 = DNaN | DInf bool | DNum bool nat

definition DOUBLE_ONE :: nat where
  "DOUBLE_ONE = 2 ^ 1074"

definition DOUBLE_LIMIT :: nat where
  "DOUBLE_LIMIT = 2 ^ 2098"

text \<open>The constants \<open>0.5\<close>, \<open>0.0\<close> and \<open>1.0\<close>.\<close>

definition double_half :: float64 where
  "double_half = DNum False (2 ^ 1073)"

definition double_zero :: float64 where
  "double_zero = DNum False 0"

definition double_one :: float64 where
  "double_one = DNum False DOUBLE_ONE"

section \<open>Operations\<close>

definition round_double :: "bool \<Rightarrow> nat \<Rightarrow> nat \<Rightarrow> float64" where
  "round_double s num den =
     (let n = round_bits 53 num den in if n < DOUBLE_LIMIT then DNum s n else DInf s)"

definition dsigned :: "bool \<Rightarrow> nat \<Rightarrow> int" where
  "dsigned s n = (if s then - int n else int n)"

fun double_le :: "float64 \<Rightarrow> float64 \<Rightarrow> bool" where
  "double_le (DNum s m) (DNum t n) = (dsigned s m \<le> dsigned t n)"
| "double_le (DInf s) (DNum t n) = s"
| "double_le (DNum s m) (DInf t) = (\<not> t)"
| "double_le (DInf s) (DInf t) = (s = t \<or> s)"
| "double_le _ _ = False"

fun double_mul :: "float64 \<Rightarrow> float64 \<Rightarrow> float64" where
  "double_mul (DNum s m) (DNum t n) = round_double (s \<noteq> t) (m * n) DOUBLE_ONE"
| "double_mul (DInf s) (DInf t) = DInf (s \<noteq> t)"
| "double_mul (DInf s) (DNum t n) = (if n = 0 then DNaN else DInf (s \<noteq> t))"
| "double_mul (DNum s m) (DInf t) = (if m = 0 then DNaN else DInf (s \<noteq> t))"
| "double_mul DNaN _ = DNaN"
| "double_mul _ DNaN = DNaN"

fun double_add :: "float64 \<Rightarrow> float64 \<Rightarrow> float64" where
  "double_add (DNum s m) (DNum t n) =
     (let z = dsigned s m + dsigned t n
      in if z = 0 then DNum (s \<and> t) 0 else round_double (z < 0) (nat \<bar>z\<bar>) 1)"
| "double_add (DInf s) (DInf t) = (if s = t then DInf s else DNaN)"
| "double_add (DInf s) (DNum t n) = DInf s"
| "double_add (DNum s m) (DInf t) = DInf t"
| "double_add DNaN _ = DNaN"
| "double_add _ DNaN = DNaN"

text \<open>\<open>uint64\<close> to \<open>double\<close> rounds (\<open>uint64_to_double\<close> of \<open>scfx_ieee.h\<close> is the plain cast, but for two
  compilers that it goes through \<open>int64\<close> for); \<open>double\<close> to \<open>int64\<close> truncates towards zero and is
  undefined behaviour when the truncated value does not fit.\<close>

definition uint64_to_double :: "64 word \<Rightarrow> float64" where
  "uint64_to_double v = round_double False (unat v * DOUBLE_ONE) 1"

fun int64_of_double :: "float64 \<Rightarrow> int res" where
  "int64_of_double (DNum s n) =
     (let z = dsigned s (n div DOUBLE_ONE) in if - (2 ^ 63) \<le> z \<and> z < 2 ^ 63 then Inr z else Inl FloatToInt)"
| "int64_of_double _ = Inl FloatToInt"

lemma double_NaN [simp]:
  "double_mul DNaN x = DNaN" "double_mul x DNaN = DNaN" "double_add DNaN x = DNaN" "double_add x DNaN = DNaN"
  by (cases x; simp)+

section \<open>Numbers of half units\<close>

text \<open>The multiples of one half below \<open>2\<^sup>5\<^sup>2\<close> are exact.\<close>

lemma DOUBLE_ONE_pos [simp]: "0 < DOUBLE_ONE"
  by (simp add: DOUBLE_ONE_def)

lemma half_unit: "2 * 2 ^ 1073 = DOUBLE_ONE"
  by (simp add: DOUBLE_ONE_def)

lemma rep_bits_halves: "n \<le> 2 ^ 53 \<Longrightarrow> rep_bits 53 (n * 2 ^ 1073)"
  by (rule rep_bits_mult_pow2) simp_all

lemma halves_below_limit:
  assumes "n \<le> 2 ^ 54"
  shows "n * 2 ^ 1073 < DOUBLE_LIMIT"
proof -
  have "n * 2 ^ 1073 \<le> 2 ^ 54 * (2 ^ 1073 :: nat)" using assms by (rule mult_right_mono) simp
  also have "\<dots> = 2 ^ 1127" by (simp flip: power_add)
  also have "\<dots> < DOUBLE_LIMIT" unfolding DOUBLE_LIMIT_def by (rule power_strict_increasing) simp_all
  finally show ?thesis .
qed

lemma uint64_to_double_exact:
  assumes "unat v \<le> 2 ^ 53"
  shows "uint64_to_double v = DNum False (unat v * DOUBLE_ONE)"
proof -
  have "rep_bits 53 (unat v * 2 ^ 1074)" by (rule rep_bits_mult_pow2) (use assms in simp_all)
  then have "round_bits 53 (unat v * DOUBLE_ONE) 1 = unat v * DOUBLE_ONE"
    using round_bits_exact [of 1 53] by (simp add: DOUBLE_ONE_def)
  moreover have "unat v * DOUBLE_ONE = (2 * unat v) * 2 ^ 1073" unfolding half_unit [symmetric] by simp
  then have "unat v * DOUBLE_ONE < DOUBLE_LIMIT" 
    by (simp only:) (rule halves_below_limit, use assms in simp)
  ultimately show ?thesis by (simp add: uint64_to_double_def round_double_def)
qed

text \<open>A value between two multiples of one half stays between them when it is rounded.\<close>

lemma round_double_between:
  assumes "0 < den" and "h * 2 ^ 1073 * den \<le> num" and "num \<le> h' * 2 ^ 1073 * den" and "h' \<le> 2 ^ 53"
  obtains n where "round_double s num den = DNum s n" and "h * 2 ^ 1073 \<le> n" and "n \<le> h' * 2 ^ 1073"
proof -
  let ?n = "round_bits 53 num den"
  have "h * 2 ^ 1073 * den \<le> h' * 2 ^ 1073 * den" using assms(2,3) by (rule le_trans)
  then have "h \<le> h'" using assms(1) by simp
  then have "rep_bits 53 (h * 2 ^ 1073)" "rep_bits 53 (h' * 2 ^ 1073)" using assms(4) by (simp_all only: rep_bits_halves le_trans)
  then have "h * 2 ^ 1073 \<le> ?n" "?n \<le> h' * 2 ^ 1073"
    using round_bits_ge [OF assms(1) _ assms(2), of 53] round_bits_le [OF assms(1) _ assms(3), of 53] by simp_all
  moreover have "h' * 2 ^ 1073 < DOUBLE_LIMIT" using halves_below_limit [of h'] assms(4) by simp
  ultimately show ?thesis using that [of ?n] by (simp add: round_double_def)
qed

section \<open>Scaling a whole number\<close>

text \<open>A whole number below \<open>2\<^sup>5\<^sup>2\<close> times a factor below one, plus one half, truncated: the
  exact product is rounded to one of the two neighbouring whole numbers.\<close>

lemma scale_near:
  assumes "v < 2 ^ 52" and "D < DOUBLE_ONE"
  obtains m where "double_add (double_mul (DNum False (v * DOUBLE_ONE)) (DNum False D)) double_half = DNum False m"
    and "v * D div DOUBLE_ONE \<le> m div DOUBLE_ONE" and "m div DOUBLE_ONE \<le> v * D div DOUBLE_ONE + 1"
    and "m div DOUBLE_ONE \<le> v"
proof -
  let ?F = "v * D div DOUBLE_ONE"
  have le: "v * D \<le> v * DOUBLE_ONE" using assms(2) by simp
  have F: "?F \<le> v" using div_le_mono [OF le, of DOUBLE_ONE] by simp
  have Fv: "?F + 1 \<le> v" if "0 < v"
  proof -
    have "v * D < v * DOUBLE_ONE" using assms(2) that by simp
    then have "?F < v" using that by (simp add: div_less_iff_less_mult)
    then show ?thesis by simp
  qed
  have lo: "?F * DOUBLE_ONE \<le> v * D" by simp
  have hi: "v * D \<le> (?F + 1) * DOUBLE_ONE" if "0 < v"
    by (metis DOUBLE_ONE_pos add.commute dividend_less_div_times less_imp_le mult.commute mult_Suc plus_1_eq_Suc)
  let ?U = "if v = 0 then 0 else ?F + 1"
  have hiU: "v * D \<le> ?U * DOUBLE_ONE" using hi by (cases "v = 0") simp_all
  have U: "?U \<le> v" "?U \<le> ?F + 1" "?F \<le> ?U" using Fv F by (simp_all split: if_splits)
  have 1: "(2 * x) * 2 ^ 1073 = x * DOUBLE_ONE" for x unfolding half_unit [symmetric] by simp
  have "(2 * ?F) * 2 ^ 1073 * DOUBLE_ONE \<le> v * DOUBLE_ONE * D"
    unfolding 1 using mult_right_mono [OF lo, of DOUBLE_ONE] by (simp add: ac_simps)
  moreover have "v * DOUBLE_ONE * D \<le> (2 * ?U) * 2 ^ 1073 * DOUBLE_ONE"
    unfolding 1 using mult_right_mono [OF hiU, of DOUBLE_ONE] by (simp only: ac_simps) 
  moreover have "2 * ?U \<le> 2 ^ 53" using U(1) assms(1) by simp
  ultimately obtain x where x: "round_double False (v * DOUBLE_ONE * D) DOUBLE_ONE = DNum False x"
    "2 * ?F * 2 ^ 1073 \<le> x" "x \<le> 2 * ?U * 2 ^ 1073"
    by (rule round_double_between [OF DOUBLE_ONE_pos])
  have pos: "dsigned False x + dsigned False (2 ^ 1073) = int (x + 2 ^ 1073)" by (simp add: dsigned_def)
  have "(2 * ?F + 1) * 2 ^ 1073 * 1 \<le> x + 2 ^ 1073" using x(2) by (simp only: add_mult_distrib mult_1 mult_1_right add_le_mono1)
  moreover have "x + 2 ^ 1073 \<le> (2 * ?U + 1) * 2 ^ 1073 * 1" using x(3) by (simp only: add_mult_distrib mult_1 mult_1_right add_le_mono1)
  moreover have "2 * ?U + 1 \<le> 2 ^ 53" using U(1) assms(1) by simp
  ultimately obtain m where m: "round_double False (x + 2 ^ 1073) 1 = DNum False m"
    "(2 * ?F + 1) * 2 ^ 1073 \<le> m" "m \<le> (2 * ?U + 1) * 2 ^ 1073"
    by (rule round_double_between [OF zero_less_one])
  have "double_mul (DNum False (v * DOUBLE_ONE)) (DNum False D) = DNum False x" using x(1) by simp
  then have 2: "double_add (double_mul (DNum False (v * DOUBLE_ONE)) (DNum False D)) double_half = DNum False m"
    using m(1) pos by (simp add: double_half_def Let_def del: of_nat_add)
  have "?F * DOUBLE_ONE \<le> m" using m(2) 1 [of ?F] by (simp only: add_mult_distrib)
  then have "?F \<le> m div DOUBLE_ONE" by (simp add: less_eq_div_iff_mult_less_eq)
  moreover have "m < (?U + 1) * DOUBLE_ONE"
  proof -
    have "(2 * ?U + 1) * 2 ^ 1073 < (2 * (?U + 1)) * (2 ^ 1073 :: nat)" by simp
    then show ?thesis using m(3) unfolding 1 by (rule le_less_trans [rotated])
  qed
  then have "m div DOUBLE_ONE \<le> ?U" by (simp add: div_less_iff_less_mult flip: less_Suc_eq_le)
  ultimately show ?thesis using that [OF 2] U by linarith
qed

text \<open>Half of a whole number, rounded up.\<close>

lemma scale_half:
  assumes "v < 2 ^ 52"
  shows "double_add (double_mul (DNum False (v * DOUBLE_ONE)) double_half) double_half = DNum False ((v + 1) * 2 ^ 1073)"
proof -
  have "v * DOUBLE_ONE * 2 ^ 1073 = v * 2 ^ 1073 * DOUBLE_ONE" by simp
  then have "v * 2 ^ 1073 * DOUBLE_ONE \<le> v * DOUBLE_ONE * 2 ^ 1073" "v * DOUBLE_ONE * 2 ^ 1073 \<le> v * 2 ^ 1073 * DOUBLE_ONE"
    by (simp_all only: le_refl)
  then obtain x where x: "round_double False (v * DOUBLE_ONE * 2 ^ 1073) DOUBLE_ONE = DNum False x" "v * 2 ^ 1073 \<le> x" "x \<le> v * 2 ^ 1073"
    by (rule round_double_between [OF DOUBLE_ONE_pos]) (use assms in simp)
  then have mul: "double_mul (DNum False (v * DOUBLE_ONE)) double_half = DNum False (v * 2 ^ 1073)"
    by (simp add: double_half_def)
  have "(v + 1) * 2 ^ 1073 * 1 \<le> v * 2 ^ 1073 + 2 ^ 1073" "v * 2 ^ 1073 + 2 ^ 1073 \<le> (v + 1) * (2 ^ 1073 :: nat) * 1"
    by (simp_all only: add_mult_distrib mult_1 mult_1_right le_refl)
  then obtain m where m: "round_double False (v * 2 ^ 1073 + 2 ^ 1073) 1 = DNum False m"
    "(v + 1) * 2 ^ 1073 \<le> m" "m \<le> (v + 1) * 2 ^ 1073"
    by (rule round_double_between [OF zero_less_one]) (use assms in simp)
  have "dsigned False (v * 2 ^ 1073) + dsigned False (2 ^ 1073) = int (v * 2 ^ 1073 + 2 ^ 1073)" by (simp add: dsigned_def)
  then show ?thesis unfolding mul using m by (simp add: double_half_def Let_def del: of_nat_add of_nat_mult of_nat_power)
qed

end
