(* ===== verification/Sc_Signal.thy ===== *)
theory Sc_Signal
  imports Sc_Simulate Float64
begin

text \<open>
  \<open>sysc/communication/sc_signal\<close>, \<open>sc_writer_policy.h\<close> and \<open>sc_clock\<close>: the channels the simulator
  is built of.  The state of the signals is added to the kernel; all signals of a model hold
  values of one type (a sum, where a program has signals of several types), compared by a
  parameter, the \<open>operator ==\<close> of the value type, which need not be equality.  The link to the resets of a
  Boolean signal is not modelled.
\<close>

section \<open>State\<close>

datatype writer_policy = SC_ONE_WRITER | SC_MANY_WRITERS | SC_UNCHECKED_WRITERS

record 'v sc_signal =
  s_policy :: writer_policy
  s_delta_only :: bool
  s_writer :: "process option"
  s_change_event :: "nat option"
  s_posedge_event :: "nat option"
  s_negedge_event :: "nat option"
  s_change_stamp :: "64 word"
  s_cur_val :: 'v
  s_new_val :: 'v

record 'v signals_kernel = kernel +
  k_signal :: "nat \<Rightarrow> 'v sc_signal"

definition sc_signal_new :: "writer_policy \<Rightarrow> 'v \<Rightarrow> 'a kernel_scheme \<Rightarrow> 'v sc_signal" where
  "sc_signal_new pol v k =
     \<lparr>s_policy = pol,
      s_delta_only = (case pol of SC_ONE_WRITER \<Rightarrow> m_write_check k = SC_SIGNAL_WRITE_CHECK_CONFLICT
        | SC_MANY_WRITERS \<Rightarrow> True | SC_UNCHECKED_WRITERS \<Rightarrow> False),
      s_writer = None, s_change_event = None, s_posedge_event = None, s_negedge_event = None,
      s_change_stamp = -2, s_cur_val = v, s_new_val = v\<rparr>"

definition upd_signal :: "nat \<Rightarrow> ('v sc_signal \<Rightarrow> 'v sc_signal) \<Rightarrow> ('v, 'a) signals_kernel_scheme \<Rightarrow> ('v, 'a) signals_kernel_scheme" where
  "upd_signal c f k = k\<lparr>k_signal := (k_signal k)(c := f (k_signal k c))\<rparr>"

section \<open>The writer policy\<close>

definition check_write :: "nat \<Rightarrow> ('v, 'a) signals_kernel_scheme \<Rightarrow> ('v, 'a) signals_kernel_scheme res" where
  "check_write c k =
     (let s = k_signal k c in
      if s_policy s = SC_UNCHECKED_WRITERS then Inr k
      else case s_writer s of
        None \<Rightarrow> Inr (upd_signal c (\<lambda>s. s\<lparr>s_writer := m_current_writer k\<rparr>) k)
      | Some w \<Rightarrow>
          if m_current_writer k \<noteq> Some w \<and> m_current_writer k \<noteq> None then Inl MultipleDrivers else Inr k)"

definition needs_update :: "'v sc_signal \<Rightarrow> bool" where
  "needs_update s = (case s_policy s of
     SC_ONE_WRITER \<Rightarrow> s_delta_only s | SC_MANY_WRITERS \<Rightarrow> True | SC_UNCHECKED_WRITERS \<Rightarrow> False)"

definition policy_update :: "'v sc_signal \<Rightarrow> 'v sc_signal" where
  "policy_update s = (case s_policy s of
     SC_ONE_WRITER \<Rightarrow> (if s_delta_only s then s\<lparr>s_writer := None\<rparr> else s)
   | SC_MANY_WRITERS \<Rightarrow> s\<lparr>s_writer := None\<rparr>
   | SC_UNCHECKED_WRITERS \<Rightarrow> s)"

section \<open>Reading, writing, updating\<close>

definition sig_read :: "nat \<Rightarrow> ('v, 'a) signals_kernel_scheme \<Rightarrow> 'v" where
  "sig_read c k = s_cur_val (k_signal k c)"

definition sig_event :: "nat \<Rightarrow> ('v, 'a) signals_kernel_scheme \<Rightarrow> bool" where
  "sig_event c k = event_occurred (s_change_stamp (k_signal k c)) k"

definition sig_write :: "('v \<Rightarrow> 'v \<Rightarrow> bool) \<Rightarrow> nat \<Rightarrow> 'v \<Rightarrow> ('v, 'a) signals_kernel_scheme \<Rightarrow> ('v, 'a) signals_kernel_scheme res" where
  "sig_write eq c v k =
     (let changed = \<not> eq (s_new_val (k_signal k c)) v in
      rbind (check_write c k) (\<lambda>k.
        let k = upd_signal c (\<lambda>s. s\<lparr>s_new_val := v\<rparr>) k in
        Inr (if changed \<or> needs_update (k_signal k c) then request_update c k else k)))"

definition notify_if :: "nat option \<Rightarrow> 'a kernel_scheme \<Rightarrow> 'a kernel_scheme res" where
  "notify_if e k = (case e of None \<Rightarrow> Inr k | Some e \<Rightarrow> notify_next_delta e k)"

definition channel_do_update :: "nat \<Rightarrow> ('v, 'a) signals_kernel_scheme \<Rightarrow> ('v, 'a) signals_kernel_scheme res" where
  "channel_do_update c k =
     rbind (notify_if (s_change_event (k_signal k c)) k)
       (\<lambda>k. Inr (upd_signal c (\<lambda>s. s\<lparr>s_change_stamp := m_change_stamp k\<rparr>) k))"

definition sig_do_update :: "nat \<Rightarrow> ('v, 'a) signals_kernel_scheme \<Rightarrow> ('v, 'a) signals_kernel_scheme res" where
  "sig_do_update c k =
     rbind (channel_do_update c k) (\<lambda>k. Inr (upd_signal c (\<lambda>s. s\<lparr>s_cur_val := s_new_val s\<rparr>) k))"

definition sig_update :: "('v \<Rightarrow> 'v \<Rightarrow> bool) \<Rightarrow> nat \<Rightarrow> ('v, 'a) signals_kernel_scheme \<Rightarrow> ('v, 'a) signals_kernel_scheme res" where
  "sig_update eq c k =
     (let k = upd_signal c policy_update k; s = k_signal k c in
      if \<not> eq (s_new_val s) (s_cur_val s) then sig_do_update c k else Inr k)"

text \<open>The specialisation for \<open>bool\<close>, with the events of the edges.\<close>

definition bool_do_update :: "nat \<Rightarrow> (bool, 'a) signals_kernel_scheme \<Rightarrow> (bool, 'a) signals_kernel_scheme res" where
  "bool_do_update c k =
     rbind (sig_do_update c k) (\<lambda>k.
       let s = k_signal k c in notify_if (if s_cur_val s then s_posedge_event s else s_negedge_event s) k)"

definition bool_update :: "nat \<Rightarrow> (bool, 'a) signals_kernel_scheme \<Rightarrow> (bool, 'a) signals_kernel_scheme res" where
  "bool_update c k =
     (let k = upd_signal c policy_update k; s = k_signal k c in
      if s_new_val s \<noteq> s_cur_val s then bool_do_update c k else Inr k)"

text \<open>The events of a signal are created when they are first asked for; \<open>new\<close> is the object that
  is then allocated.\<close>

definition value_changed_event :: "nat \<Rightarrow> nat \<Rightarrow> ('v, 'a) signals_kernel_scheme \<Rightarrow> nat \<times> ('v, 'a) signals_kernel_scheme" where
  "value_changed_event new c k = (case s_change_event (k_signal k c) of
     Some e \<Rightarrow> (e, k) | None \<Rightarrow> (new, upd_signal c (\<lambda>s. s\<lparr>s_change_event := Some new\<rparr>) k))"

definition posedge_event :: "nat \<Rightarrow> nat \<Rightarrow> ('v, 'a) signals_kernel_scheme \<Rightarrow> nat \<times> ('v, 'a) signals_kernel_scheme" where
  "posedge_event new c k = (case s_posedge_event (k_signal k c) of
     Some e \<Rightarrow> (e, k) | None \<Rightarrow> (new, upd_signal c (\<lambda>s. s\<lparr>s_posedge_event := Some new\<rparr>) k))"

definition negedge_event :: "nat \<Rightarrow> nat \<Rightarrow> ('v, 'a) signals_kernel_scheme \<Rightarrow> nat \<times> ('v, 'a) signals_kernel_scheme" where
  "negedge_event new c k = (case s_negedge_event (k_signal k c) of
     Some e \<Rightarrow> (e, k) | None \<Rightarrow> (new, upd_signal c (\<lambda>s. s\<lparr>s_negedge_event := Some new\<rparr>) k))"

section \<open>The clock\<close>

record sc_clock =
  cl_signal :: nat
  cl_period :: sc_time
  cl_duty_cycle :: float64
  cl_start_time :: sc_time
  cl_posedge_first :: bool
  cl_posedge_time :: sc_time
  cl_negedge_time :: sc_time
  cl_next_posedge_event :: nat
  cl_next_negedge_event :: nat

text \<open>A time times a \<open>double\<close>, through \<open>double\<close>: one half is added and the result truncated to
  \<open>int64\<close>.\<close>

definition sc_time_mul :: "sc_time \<Rightarrow> float64 \<Rightarrow> sc_time res" where
  "sc_time_mul t d = rbind (int64_of_double (double_add (double_mul (uint64_to_double t) d) double_half)) (\<lambda>z. Inr (word_of_int z))"

text \<open>A duty cycle that is not between zero and one is replaced by one half; a NaN is not.\<close>

definition clock_duty_cycle :: "float64 \<Rightarrow> float64" where
  "clock_duty_cycle d = (if double_le d double_zero \<or> double_le double_one d then double_half else d)"

definition clock_init :: "nat \<Rightarrow> nat \<Rightarrow> nat \<Rightarrow> sc_time \<Rightarrow> float64 \<Rightarrow> sc_time \<Rightarrow> bool \<Rightarrow> (bool, 'a) signals_kernel_scheme \<Rightarrow>
    (sc_clock \<times> (bool, 'a) signals_kernel_scheme) res" where
  "clock_init c pos neg period duty start first k =
     (if period = SC_ZERO_TIME then Inl ClockPeriod
      else rbind (sc_time_mul period (clock_duty_cycle duty)) (\<lambda>negedge_time.
        let posedge_time = sc_time_sub period negedge_time in
        if negedge_time = SC_ZERO_TIME \<or> posedge_time = SC_ZERO_TIME then Inl ClockPeriod
        else Inr (\<lparr>cl_signal = c, cl_period = period, cl_duty_cycle = clock_duty_cycle duty, cl_start_time = start,
               cl_posedge_first = first, cl_posedge_time = posedge_time, cl_negedge_time = negedge_time,
               cl_next_posedge_event = pos, cl_next_negedge_event = neg\<rparr>,
             upd_signal c (\<lambda>s. s\<lparr>s_cur_val := \<not> first, s_new_val := \<not> first\<rparr>) k)))"

text \<open>The constructor with a period, a duty cycle, a start time and the first edge.\<close>

definition clock_new :: "nat \<Rightarrow> nat \<Rightarrow> nat \<Rightarrow> sc_time \<Rightarrow> float64 \<Rightarrow> sc_time \<Rightarrow> bool \<Rightarrow> (bool, 'a) signals_kernel_scheme \<Rightarrow>
    (sc_clock \<times> (bool, 'a) signals_kernel_scheme) res" where
  "clock_new c pos neg period duty start first k =
     rbind (clock_init c pos neg period duty start first (upd_signal c (\<lambda>_. sc_signal_new SC_ONE_WRITER False k) k)) (\<lambda>(cl, k).
       Inr (cl, notify_internal (if first then pos else neg) start k))"

text \<open>The two processes of a clock, sensitive to its own events, spawned before the end of the
  elaboration.\<close>

definition clock_before_end_of_elaboration :: "nat \<Rightarrow> nat \<Rightarrow> nat \<Rightarrow> nat \<Rightarrow> sc_clock \<Rightarrow> 'a kernel_scheme \<Rightarrow> 'a kernel_scheme res" where
  "clock_before_end_of_elaboration m1 e1 m2 e2 cl k =
     rbind (create_method_process m1 e1 \<lparr>o_dont_initialize = True, o_sensitive_events = [cl_next_posedge_event cl]\<rparr> k)
       (create_method_process m2 e2 \<lparr>o_dont_initialize = True, o_sensitive_events = [cl_next_negedge_event cl]\<rparr>)"

definition posedge_action :: "sc_clock \<Rightarrow> (bool, 'a) signals_kernel_scheme \<Rightarrow> (bool, 'a) signals_kernel_scheme" where
  "posedge_action cl k =
     request_update (cl_signal cl)
       (upd_signal (cl_signal cl) (\<lambda>s. s\<lparr>s_new_val := True\<rparr>)
         (notify_internal (cl_next_negedge_event cl) (cl_negedge_time cl) k))"

definition negedge_action :: "sc_clock \<Rightarrow> (bool, 'a) signals_kernel_scheme \<Rightarrow> (bool, 'a) signals_kernel_scheme" where
  "negedge_action cl k =
     request_update (cl_signal cl)
       (upd_signal (cl_signal cl) (\<lambda>s. s\<lparr>s_new_val := False\<rparr>)
         (notify_internal (cl_next_posedge_event cl) (cl_posedge_time cl) k))"

end
