(* ===== verification/Sc_Delta.thy ===== *)
theory Sc_Delta
  imports Sc_Signal
begin

text \<open>
  What a delta cycle does to the signals and to the members of modules: modules that communicate
  through signals only compute from the old values and change them together, in whatever order
  their processes are run.
\<close>

section \<open>Modules\<close>

text \<open>The members of the modules, added to the state of the kernel and the signals.\<close>

record ('v, 'm, 'u) modules_kernel = "'v signals_kernel" +
  k_local :: "'m \<Rightarrow> 'u"

text \<open>A process of the module \<open>home p\<close> reads signals and the members of its module; \<open>out\<close> is what
  it writes, one signal after the other, and what it leaves in the members.  Then the last of a list of writes
  to a signal.\<close>

type_synonym ('v, 'u) process_body = "process \<Rightarrow> (nat \<Rightarrow> 'v) \<Rightarrow> 'u \<Rightarrow> (nat \<times> 'v) list \<times> 'u"

definition drives :: "('v, 'u) process_body \<Rightarrow> (process \<Rightarrow> 'm) \<Rightarrow> process \<Rightarrow>
    ('v, 'm, 'u, 'a) modules_kernel_scheme \<Rightarrow> ('v, 'm, 'u, 'a) modules_kernel_scheme res" where
  "drives out home p k =
     (let (ws, u) = out p (\<lambda>c. sig_read c k) (k_local k (home p)) in
      rbind (res_fold (\<lambda>(c, v). sig_write (=) c v) ws k) (\<lambda>k. Inr (k\<lparr>k_local := (k_local k)(home p := u)\<rparr>)))"

definition last_write :: "(nat \<times> 'v) list \<Rightarrow> nat \<Rightarrow> 'v \<Rightarrow> 'v" where
  "last_write ws c v = (case map_of (rev ws) c of None \<Rightarrow> v | Some v' \<Rightarrow> v')"

lemma last_write_Nil [simp]: "last_write [] c v = v"
  by (simp add: last_write_def)

lemma last_write_Cons: "last_write ((d, w) # ws) c v = last_write ws c (if d = c then w else v)"
  by (simp add: last_write_def map_add_def split: option.splits)

lemma last_write_append: "last_write (ws @ ws') c v = last_write ws' c (last_write ws c v)"
  by (simp add: last_write_def map_add_def split: option.splits)

text \<open>Between the phases nothing is requested and the next value of every signal is its value; no
  process is sensitive to the signals, and only its owner has written a signal.\<close>

definition settled :: "(nat \<Rightarrow> process) \<Rightarrow> ('v, 'a) signals_kernel_scheme \<Rightarrow> bool" where
  "settled owner k \<longleftrightarrow> m_update_list k = [] \<and>
     (\<forall>c. s_new_val (k_signal k c) = s_cur_val (k_signal k c) \<and> \<not> k_update_next k c \<and>
       s_change_event (k_signal k c) = None \<and> s_writer (k_signal k c) \<in> {None, Some (owner c)})"

text \<open>During the evaluation: \<open>old\<close> are the values the processes see, \<open>new\<close> those written so far.\<close>

definition evaluating :: "(nat \<Rightarrow> process) \<Rightarrow> (nat \<Rightarrow> 'v) \<Rightarrow> (nat \<Rightarrow> 'v) \<Rightarrow> ('v, 'a) signals_kernel_scheme \<Rightarrow> bool" where
  "evaluating owner old new k \<longleftrightarrow>
     (\<forall>c. s_cur_val (k_signal k c) = old c \<and> s_new_val (k_signal k c) = new c \<and>
       (k_update_next k c \<longleftrightarrow> c \<in> set (m_update_list k)) \<and> (new c \<noteq> old c \<longrightarrow> c \<in> set (m_update_list k)) \<and>
       s_change_event (k_signal k c) = None \<and> s_writer (k_signal k c) \<in> {None, Some (owner c)})"

text \<open>The part of the kernel that a process leaves alone, and the part that writing leaves alone.\<close>

definition rest :: "('v, 'm, 'u, 'a) modules_kernel_scheme \<Rightarrow> _" where
  "rest k = (m_forced_stop k, m_paused k, m_delta_size k, k_thread k, m_change_stamp k, m_delta_count k)"

definition apart :: "('v, 'm, 'u, 'a) modules_kernel_scheme \<Rightarrow> _" where
  "apart k = (m_runnable k, k_local k, rest k)"

lemma apart_parts:
  assumes "apart k' = apart k"
  shows "m_runnable k' = m_runnable k" "k_local k' = k_local k" "rest k' = rest k"
  using assms by (simp_all add: apart_def rest_def)

lemma rest_parts:
  assumes "rest k' = rest k"
  shows "m_forced_stop k' = m_forced_stop k" "m_paused k' = m_paused k" "m_delta_size k' = m_delta_size k" "k_thread k' = k_thread k"
    "m_change_stamp k' = m_change_stamp k" "m_delta_count k' = m_delta_count k"
  using assms by (simp_all add: rest_def)

lemma settled_evaluating: "settled owner k \<Longrightarrow> evaluating owner (\<lambda>c. sig_read c k) (\<lambda>c. sig_read c k) k"
  by (simp add: settled_def evaluating_def sig_read_def)

section \<open>Writing\<close>

lemma sig_write_evaluating:
  fixes k :: "('v, 'm, 'u, 'a) modules_kernel_scheme"
  assumes "evaluating owner old new k" and "m_current_writer k \<in> {None, Some (owner c)}"
  shows "\<exists>k'. sig_write (=) c v k = Inr k' \<and> evaluating owner old (new(c := v)) k' \<and> apart k' = apart k \<and>
    m_current_writer k' = m_current_writer k"
proof -
  let ?w = "if s_policy (k_signal k c) \<noteq> SC_UNCHECKED_WRITERS \<and> s_writer (k_signal k c) = None
    then m_current_writer k else s_writer (k_signal k c)"
  let ?k = "upd_signal c (\<lambda>s. s\<lparr>s_writer := ?w, s_new_val := v\<rparr>) k"
  have w: "s_writer (k_signal k c) \<in> {None, Some (owner c)}" using assms(1) by (simp add: evaluating_def)
  then have "rbind (check_write c k) (\<lambda>k. Inr (upd_signal c (\<lambda>s. s\<lparr>s_new_val := v\<rparr>) k)) = Inr ?k"
    using assms(2) by (auto simp: check_write_def upd_signal_def Let_def)
  then have 1: "sig_write (=) c v k =
      Inr (if s_new_val (k_signal k c) \<noteq> v \<or> needs_update (k_signal ?k c) then request_update c ?k else ?k)"
    unfolding sig_write_def Let_def by (auto simp: rbind_eq_Inr)
  have 2: "evaluating owner old (new(c := v)) (request_update c ?k)"
    using assms w by (auto simp: evaluating_def request_update_def upd_signal_def)
  have 3: "evaluating owner old (new(c := v)) ?k" if "s_new_val (k_signal k c) = v"
    using assms w that by (auto simp: evaluating_def upd_signal_def)
  have "apart (request_update c ?k) = apart k" "apart ?k = apart k"
    "m_current_writer (request_update c ?k) = m_current_writer k" "m_current_writer ?k = m_current_writer k"
    by (simp_all add: apart_def rest_def request_update_def upd_signal_def)
  with 1 2 3 show ?thesis by auto
qed

lemma writes_evaluating:
  assumes "evaluating owner old new k" and "m_current_writer k \<in> {None, Some p}" and "\<And>c v. (c, v) \<in> set ws \<Longrightarrow> owner c = p"
  shows "\<exists>k'. res_fold (\<lambda>(c, v). sig_write (=) c v) ws k = Inr k' \<and>
    evaluating owner old (\<lambda>c. last_write ws c (new c)) k' \<and> apart k' = apart k"
  using assms
proof (induction ws arbitrary: k new)
  case Nil
  then show ?case by simp
next
  case (Cons cv ws)
  obtain c v where cv: "cv = (c, v)" by (cases cv)
  have "owner c = p" using Cons.prems(3) [of c v] by (simp add: cv)
  then obtain k1 where 1: "sig_write (=) c v k = Inr k1" "evaluating owner old (new(c := v)) k1" "apart k1 = apart k"
    "m_current_writer k1 = m_current_writer k"
    using sig_write_evaluating [OF Cons.prems(1), of c v] Cons.prems(2) by auto
  obtain k2 where 2: "res_fold (\<lambda>(c, v). sig_write (=) c v) ws k1 = Inr k2"
    "evaluating owner old (\<lambda>d. last_write ws d ((new(c := v)) d)) k2" "apart k2 = apart k1"
    using Cons.IH [OF 1(2)] 1(4) Cons.prems(2,3) by auto
  have "(\<lambda>d. last_write ws d ((new(c := v)) d)) = (\<lambda>d. last_write (cv # ws) d (new d))"
    by (auto simp: cv last_write_Cons)
  then show ?case using 1 2 by (simp add: cv)
qed

text \<open>The processes \<open>ps\<close> of one module, one after the other: what they write, and what they leave in its
  members.\<close>

definition module_run :: "('v, 'u) process_body \<Rightarrow> (nat \<Rightarrow> 'v) \<Rightarrow> process list \<Rightarrow> 'u \<Rightarrow> (nat \<times> 'v) list \<times> 'u" where
  "module_run out old ps u = fold (\<lambda>p (ws, u). let (w, u') = out p old u in (ws @ w, u')) ps ([], u)"

text \<open>The values of the signals, and the members of a module, after the processes \<open>ps\<close>: those of the
  other modules do not matter.\<close>

definition of_module :: "(process \<Rightarrow> 'm) \<Rightarrow> 'm \<Rightarrow> process list \<Rightarrow> process list" where
  "of_module home m ps = filter (\<lambda>p. home p = m) ps"

definition driven :: "('v, 'u) process_body \<Rightarrow> (process \<Rightarrow> 'm) \<Rightarrow> (nat \<Rightarrow> process) \<Rightarrow> (nat \<Rightarrow> 'v) \<Rightarrow> ('m \<Rightarrow> 'u) \<Rightarrow>
    process list \<Rightarrow> nat \<Rightarrow> 'v" where
  "driven out home owner old loc ps c =
     (let m = home (owner c) in last_write (fst (module_run out old (of_module home m ps) (loc m))) c (old c))"

definition locals :: "('v, 'u) process_body \<Rightarrow> (process \<Rightarrow> 'm) \<Rightarrow> (nat \<Rightarrow> 'v) \<Rightarrow> ('m \<Rightarrow> 'u) \<Rightarrow> process list \<Rightarrow> 'm \<Rightarrow> 'u" where
  "locals out home old loc ps m = snd (module_run out old (of_module home m ps) (loc m))"

definition after :: "('v, 'u) process_body \<Rightarrow> (process \<Rightarrow> 'm) \<Rightarrow> (nat \<Rightarrow> process) \<Rightarrow> (nat \<Rightarrow> 'v) \<Rightarrow> ('m \<Rightarrow> 'u) \<Rightarrow> process list \<Rightarrow>
    ('v, 'm, 'u, 'a) modules_kernel_scheme \<Rightarrow> bool" where
  "after out home owner old loc ps k \<longleftrightarrow>
     evaluating owner old (driven out home owner old loc ps) k \<and> k_local k = locals out home old loc ps"

text \<open>A process writes its own signals only.\<close>

definition writes_own :: "('v, 'u) process_body \<Rightarrow> (nat \<Rightarrow> process) \<Rightarrow> process \<Rightarrow> (nat \<Rightarrow> 'v) \<Rightarrow> bool" where
  "writes_own out owner p old \<longleftrightarrow> (\<forall>u c. c \<in> fst ` set (fst (out p old u)) \<longrightarrow> owner c = p)"

lemma module_run_snoc:
  "module_run out old (ps @ [p]) u =
     (let (ws, u1) = module_run out old ps u in (ws @ fst (out p old u1), snd (out p old u1)))"
  by (simp add: module_run_def case_prod_beta)

lemma of_module_snoc [simp]:
  "of_module home (home p) (ps @ [p]) = of_module home (home p) ps @ [p]"
  "m \<noteq> home p \<Longrightarrow> of_module home m (ps @ [p]) = of_module home m ps"
  by (simp_all add: of_module_def)

lemma last_write_other: "c \<notin> fst ` set ws \<Longrightarrow> last_write ws c v = v"
  by (simp add: last_write_def map_of_eq_None_iff [THEN iffD2])

lemma after_none: "evaluating owner old old k \<Longrightarrow> after out home owner old (k_local k) [] k"
proof -
  have "driven out home owner old (k_local k) [] = old" "locals out home old (k_local k) [] = k_local k"
    by (simp_all add: driven_def locals_def of_module_def module_run_def fun_eq_iff Let_def)
  then show "evaluating owner old old k \<Longrightarrow> ?thesis" by (simp add: after_def)
qed

lemma drives_after:
  assumes "after out home owner old loc ps k" and "m_current_writer k \<in> {None, Some p}" and "writes_own out owner p old"
  shows "\<exists>k'. drives out home p k = Inr k' \<and> after out home owner old loc (ps @ [p]) k' \<and>
    m_runnable k' = m_runnable k \<and> rest k' = rest k"
proof -
  let ?m = "home p" and ?u = "locals out home old loc ps (home p)"
  obtain ws u' where o: "out p old ?u = (ws, u')" by (cases "out p old ?u")
  have e: "evaluating owner old (driven out home owner old loc ps) k" and l: "k_local k = locals out home old loc ps"
    using assms(1) by (simp_all add: after_def)
  have own: "owner c = p" if "(c, v) \<in> set ws" for c v
    using assms(3) o that unfolding writes_own_def by (metis fst_conv image_eqI)
  obtain k1 where k1: "res_fold (\<lambda>(c, v). sig_write (=) c v) ws k = Inr k1"
    "evaluating owner old (\<lambda>c. last_write ws c (driven out home owner old loc ps c)) k1" "apart k1 = apart k"
    using writes_evaluating [OF e assms(2), of ws] own by auto
  let ?k = "k1\<lparr>k_local := (k_local k1)(?m := u')\<rparr>"
  have run: "module_run out old (of_module home ?m (ps @ [p])) (loc ?m) =
      (fst (module_run out old (of_module home ?m ps) (loc ?m)) @ ws, u')"
    using o by (simp add: module_run_snoc locals_def case_prod_beta)
  have "last_write ws c (driven out home owner old loc ps c) = driven out home owner old loc (ps @ [p]) c" for c
  proof (cases "home (owner c) = ?m")
    case True
    then show ?thesis using run by (simp add: driven_def Let_def last_write_append)
  next
    case False
    then have "c \<notin> fst ` set ws" using own by auto
    then show ?thesis using False by (simp add: driven_def Let_def last_write_other)
  qed
  then have "(\<lambda>c. last_write ws c (driven out home owner old loc ps c)) = driven out home owner old loc (ps @ [p])" by blast
  with k1(2) have "evaluating owner old (driven out home owner old loc (ps @ [p])) ?k" by (simp add: evaluating_def)
  moreover have "k_local ?k = locals out home old loc (ps @ [p])"
  proof
    fix m show "k_local ?k m = locals out home old loc (ps @ [p]) m"
      using run l apart_parts(2) [OF k1(3)] by (cases "m = ?m") (simp_all add: locals_def)
  qed
  moreover have "(\<lambda>c. sig_read c k) = old" using e by (simp add: evaluating_def sig_read_def fun_eq_iff)
  then have "drives out home p k = Inr ?k" using o k1(1) l by (simp add: drives_def)
  moreover have "m_runnable ?k = m_runnable k" "rest ?k = rest k" using apart_parts [OF k1(3)] by (simp_all add: rest_def)
  ultimately show ?thesis unfolding after_def by blast
qed

section \<open>The evaluation phase\<close>

lemma evaluating_same:
  assumes "evaluating owner old new k" and "k_signal k' = k_signal k" and "m_update_list k' = m_update_list k"
    and "k_update_next k' = k_update_next k"
  shows "evaluating owner old new k'"
  using assms by (simp add: evaluating_def)

lemma after_same:
  assumes "after out home owner old loc ps k" and "k_signal k' = k_signal k" and "m_update_list k' = m_update_list k"
    and "k_update_next k' = k_update_next k" and "k_local k' = k_local k"
  shows "after out home owner old loc ps k'"
  using assms evaluating_same [OF _ assms(2-4)] by (simp add: after_def)

lemma pop_method_after:
  assumes "after out home owner old loc ps k" and "runnable_lists (m_runnable k) hm ht ms mp ts tp"
  shows "\<exists>k'. pop_runnable_method k = Inr (case mp of [] \<Rightarrow> None | p # _ \<Rightarrow> Some p, k') \<and> after out home owner old loc ps k' \<and>
    runnable_lists (m_runnable k') hm ht ms (tl mp) ts tp \<and> rest k' = rest k \<and>
    m_current_writer k' \<in> {None, (case mp of [] \<Rightarrow> None | p # _ \<Rightarrow> Some (Method p))}"
proof -
  obtain r where r: "pop_method (m_runnable k) = Inr (case mp of [] \<Rightarrow> None | p # _ \<Rightarrow> Some p, r)"
    "runnable_lists r hm ht ms (tl mp) ts tp" using pop_method_lists [OF assms(2)] by blast
  let ?k = "case mp of [] \<Rightarrow> reset_curr_proc (k\<lparr>m_runnable := r\<rparr>) | p # _ \<Rightarrow> set_curr_proc (Method p) (k\<lparr>m_runnable := r\<rparr>)"
  have "after out home owner old loc ps ?k"
    by (rule after_same [OF assms(1)]) (simp_all add: reset_curr_proc_def set_curr_proc_def split: list.split)
  then show ?thesis using r
    by (cases mp) (simp_all add: pop_runnable_method_def Let_def reset_curr_proc_def set_curr_proc_def rest_def)
qed

lemma pop_thread_after:
  assumes "after out home owner old loc ps k" and "runnable_lists (m_runnable k) hm ht ms mp ts tp"
  shows "\<exists>k'. pop_runnable_thread k = Inr (case tp of [] \<Rightarrow> None | p # _ \<Rightarrow> Some p, k') \<and> after out home owner old loc ps k' \<and>
    runnable_lists (m_runnable k') hm ht ms mp ts (tl tp) \<and> rest k' = rest k \<and>
    m_current_writer k' \<in> {None, (case tp of [] \<Rightarrow> None | p # _ \<Rightarrow> Some (Thread p))}"
proof -
  obtain r where r: "pop_thread (m_runnable k) = Inr (case tp of [] \<Rightarrow> None | p # _ \<Rightarrow> Some p, r)"
    "runnable_lists r hm ht ms mp ts (tl tp)" using pop_thread_lists [OF assms(2)] by blast
  let ?k = "case tp of [] \<Rightarrow> reset_curr_proc (k\<lparr>m_runnable := r\<rparr>) | p # _ \<Rightarrow> set_curr_proc (Thread p) (k\<lparr>m_runnable := r\<rparr>)"
  have "after out home owner old loc ps ?k"
    by (rule after_same [OF assms(1)]) (simp_all add: reset_curr_proc_def set_curr_proc_def split: list.split)
  then show ?thesis using r
    by (cases tp) (simp_all add: pop_runnable_thread_def Let_def reset_curr_proc_def set_curr_proc_def rest_def)
qed

lemma methods_loop_after:
  assumes "after out home owner old loc ps k" and "runnable_lists (m_runnable k) hm ht [] mp ts tp"
    and "\<forall>m \<in> set mp. writes_own out owner (Method m) old"
  shows "\<exists>k'. run_methods_loop (drives out home) act k = Some (Inr (act \<or> mp \<noteq> [], k')) \<and>
    after out home owner old loc (ps @ map Method mp) k' \<and> runnable_lists (m_runnable k') hm ht [] [] ts tp \<and> rest k' = rest k"
  using assms
proof (induction mp arbitrary: k ps act)
  case Nil
  then show ?case using pop_method_after [OF Nil.prems(1,2)] by (subst run_methods_loop.simps) auto
next
  case (Cons m mp)
  obtain k1 where 1: "pop_runnable_method k = Inr (Some m, k1)" "after out home owner old loc ps k1"
    "runnable_lists (m_runnable k1) hm ht [] mp ts tp" "rest k1 = rest k" "m_current_writer k1 \<in> {None, Some (Method m)}"
    using pop_method_after [OF Cons.prems(1,2)] by auto
  obtain k2 where 2: "drives out home (Method m) k1 = Inr k2" "after out home owner old loc (ps @ [Method m]) k2"
    "m_runnable k2 = m_runnable k1" "rest k2 = rest k1"
    using drives_after [OF 1(2,5)] Cons.prems(3) by auto
  have "runnable_lists (m_runnable k2) hm ht [] mp ts tp" using 1(3) 2(3) by simp
  then obtain k3 where "run_methods_loop (drives out home) True k2 = Some (Inr (True, k3))"
    "after out home owner old loc ((ps @ [Method m]) @ map Method mp) k3"
    "runnable_lists (m_runnable k3) hm ht [] [] ts tp" "rest k3 = rest k2"
    using Cons.IH [OF 2(2), of True] Cons.prems(3) by auto
  then show ?case using 1 2 by (subst run_methods_loop.simps) simp
qed

lemma threads_loop_after:
  assumes "after out home owner old loc ps k" and "runnable_lists (m_runnable k) hm ht ms mp [] tp"
    and "\<forall>t \<in> set tp. m_cor_p (k_thread k t)" and "\<forall>t \<in> set tp. writes_own out owner (Thread t) old"
  shows "\<exists>k'. run_threads_loop (drives out home) act k = Some (Inr (act \<or> tp \<noteq> [], k')) \<and>
    after out home owner old loc (ps @ map Thread tp) k' \<and> runnable_lists (m_runnable k') hm ht ms mp [] [] \<and> rest k' = rest k"
  using assms
proof (induction tp arbitrary: k ps act)
  case Nil
  then show ?case using pop_thread_after [OF Nil.prems(1,2)] by (subst run_threads_loop.simps) auto
next
  case (Cons t tp)
  obtain k1 where 1: "pop_runnable_thread k = Inr (Some t, k1)" "after out home owner old loc ps k1"
    "runnable_lists (m_runnable k1) hm ht ms mp [] tp" "rest k1 = rest k" "m_current_writer k1 \<in> {None, Some (Thread t)}"
    using pop_thread_after [OF Cons.prems(1,2)] by auto
  obtain k2 where 2: "drives out home (Thread t) k1 = Inr k2" "after out home owner old loc (ps @ [Thread t]) k2"
    "m_runnable k2 = m_runnable k1" "rest k2 = rest k1"
    using drives_after [OF 1(2,5)] Cons.prems(4) by auto
  have cor: "k_thread k1 = k_thread k" "k_thread k2 = k_thread k" using rest_parts(4) 1(4) 2(4) by metis+
  have "runnable_lists (m_runnable k2) hm ht ms mp [] tp" using 1(3) 2(3) by simp
  then obtain k3 where "run_threads_loop (drives out home) True k2 = Some (Inr (True, k3))"
    "after out home owner old loc ((ps @ [Thread t]) @ map Thread tp) k3"
    "runnable_lists (m_runnable k3) hm ht ms mp [] []" "rest k3 = rest k2"
    using Cons.IH [OF 2(2), of True] Cons.prems(3,4) cor by auto
  then show ?case using 1 2 cor Cons.prems(3) by (subst run_threads_loop.simps) simp
qed

lemma evaluate_after:
  assumes "evaluating owner old old k" and "runnable_lists (m_runnable k) hm ht ms [] ts []" and "\<not> m_forced_stop k"
    and "\<forall>t \<in> set ts. m_cor_p (k_thread k t)" and "ps = map Method ms @ map Thread ts"
    and "\<forall>p \<in> set ps. writes_own out owner p old"
  shows "\<exists>k'. evaluate (drives out home) act k = Some (Inr ((act \<or> ps \<noteq> [], False), k')) \<and>
    after out home owner old (k_local k) ps k' \<and> runnable_lists (m_runnable k') hm ht [] [] [] [] \<and> rest k' = rest k"
proof -
  obtain r where r: "toggle_methods (m_runnable k) = Inr r" "runnable_lists r hm ht [] ms ts []"
    using toggle_methods_lists [OF assms(2)] by blast
  let ?k = "k\<lparr>m_runnable := r\<rparr>"
  have 0: "after out home owner old (k_local k) [] ?k" "runnable_lists (m_runnable ?k) hm ht [] ms ts []"
    using after_same [OF after_none [OF assms(1)], of ?k] r(2) by simp_all
  obtain k1 where 1: "run_methods_loop (drives out home) act ?k = Some (Inr (act \<or> ms \<noteq> [], k1))"
    "after out home owner old (k_local k) (map Method ms) k1" "runnable_lists (m_runnable k1) hm ht [] [] ts []" "rest k1 = rest ?k"
    using methods_loop_after [OF 0, of act] assms(5,6) by auto
  obtain r' where r': "toggle_threads (m_runnable k1) = Inr r'" "runnable_lists r' hm ht [] [] [] ts"
    using toggle_threads_lists [OF 1(3)] by blast
  let ?k1 = "k1\<lparr>m_runnable := r'\<rparr>"
  have 2: "after out home owner old (k_local k) (map Method ms) ?k1" "runnable_lists (m_runnable ?k1) hm ht [] [] [] ts"
    using after_same [OF 1(2), of ?k1] r'(2) by simp_all
  have s1: "rest ?k1 = rest k" using 1(4) by (simp add: rest_def)
  then have "\<forall>t \<in> set ts. m_cor_p (k_thread ?k1 t)" using assms(4) rest_parts(4) by metis
  then obtain k2 where 3: "run_threads_loop (drives out home) (act \<or> ms \<noteq> []) ?k1 = Some (Inr ((act \<or> ms \<noteq> []) \<or> ts \<noteq> [], k2))"
    "after out home owner old (k_local k) ps k2" "runnable_lists (m_runnable k2) hm ht [] [] [] []" "rest k2 = rest ?k1"
    using threads_loop_after [OF 2, of "act \<or> ms \<noteq> []"] assms(5,6) by auto
  have same: "rest k2 = rest k" using s1 3(4) by simp
  then have "\<not> m_forced_stop k2" using assms(3) rest_parts(1) by metis
  moreover have "runnable_is_empty (m_runnable k2) = Inr True" using is_empty_lists [OF 3(3)] by simp
  moreover have "(act \<or> ms \<noteq> []) \<or> ts \<noteq> [] \<longleftrightarrow> act \<or> ps \<noteq> []" using assms(5) by auto
  ultimately have "evaluate (drives out home) act k = Some (Inr ((act \<or> ps \<noteq> [], False), k2))"
    using r(1) 1(1) r'(1) 3(1) by (subst evaluate.simps) (simp add: on_runnable_def)
  then show ?thesis using 3(2,3) same by blast
qed

section \<open>The update phase\<close>

text \<open>One signal after the updates of the signals \<open>cs\<close>.\<close>

definition updated :: "nat list \<Rightarrow> ('v, 'a) signals_kernel_scheme \<Rightarrow> ('v, 'a) signals_kernel_scheme \<Rightarrow> nat \<Rightarrow> bool" where
  "updated cs k k' c \<longleftrightarrow>
     s_cur_val (k_signal k' c) = (if c \<in> set cs then s_new_val (k_signal k c) else s_cur_val (k_signal k c)) \<and>
     s_new_val (k_signal k' c) = s_new_val (k_signal k c) \<and> s_change_event (k_signal k' c) = None \<and>
     s_writer (k_signal k' c) \<in> {None, s_writer (k_signal k c)} \<and> (k_update_next k' c \<longleftrightarrow> k_update_next k c \<and> c \<notin> set cs)"

lemma updates_updated:
  assumes "\<And>c. s_change_event (k_signal k c) = None"
  shows "\<exists>k'. res_fold (channel_update (sig_update (=))) cs k = Inr k' \<and> apart k' = apart k \<and> m_update_list k' = m_update_list k \<and>
    (\<forall>c. updated cs k k' c)"
  using assms
proof (induction cs arbitrary: k)
  case Nil
  then show ?case by (simp add: updated_def)
next
  case (Cons c cs)
  let ?s = "policy_update (k_signal k c)"
  have s: "s_change_event ?s = None" "s_cur_val ?s = s_cur_val (k_signal k c)" "s_new_val ?s = s_new_val (k_signal k c)"
    "s_writer ?s \<in> {None, s_writer (k_signal k c)}"
    using Cons.prems [of c] by (simp_all add: policy_update_def split: writer_policy.split)
  let ?s1 = "if s_new_val ?s \<noteq> s_cur_val ?s then ?s\<lparr>s_change_stamp := m_change_stamp k, s_cur_val := s_new_val ?s\<rparr> else ?s"
  let ?k1 = "k\<lparr>k_update_next := (k_update_next k)(c := False), k_signal := (k_signal k)(c := ?s1)\<rparr>"
  have 1: "channel_update (sig_update (=)) c k = Inr ?k1"
    using s(1) by (simp add: channel_update_def sig_update_def sig_do_update_def channel_do_update_def notify_if_def
      upd_signal_def Let_def)
  have a: "apart ?k1 = apart k" "m_update_list ?k1 = m_update_list k" by (simp_all add: apart_def rest_def)
  have "s_change_event (k_signal ?k1 d) = None" for d using Cons.prems [of d] s(1) by simp
  then obtain k2 where 2: "res_fold (channel_update (sig_update (=))) cs ?k1 = Inr k2" "apart k2 = apart ?k1"
    "m_update_list k2 = m_update_list ?k1"
    "\<And>d. updated cs ?k1 k2 d"
    using Cons.IH [of ?k1] by blast
  have "updated (c # cs) k k2 d" for d
    using 2(4) [of d] s by (auto simp: updated_def split: if_splits)
  then have "\<forall>d. updated (c # cs) k k2 d" by blast
  then show ?case using 1 2(1,2,3) a by simp
qed

lemma perform_update_settles:
  assumes "evaluating owner old new k"
  shows "\<exists>k'. perform_update (sig_update (=)) k = Inr k' \<and> settled owner k' \<and> apart k' = apart k \<and> (\<forall>c. sig_read c k' = new c)"
proof -
  let ?k = "k\<lparr>m_update_list := []\<rparr>"
  have e: "s_change_event (k_signal ?k c) = None" for c using assms by (simp add: evaluating_def)
  obtain k' where r: "res_fold (channel_update (sig_update (=))) (m_update_list k) ?k = Inr k'"
    and k': "apart k' = apart ?k" "m_update_list k' = m_update_list ?k" "\<forall>c. updated (m_update_list k) ?k k' c"
    by (rule exE [OF updates_updated [of ?k "m_update_list k", OF e]]) (elim conjE, rule that)
  have "s_cur_val (k_signal k' c) = new c \<and> s_new_val (k_signal k' c) = new c \<and> \<not> k_update_next k' c \<and>
      s_change_event (k_signal k' c) = None \<and> s_writer (k_signal k' c) \<in> {None, Some (owner c)}" for c
    using spec [OF k'(3), of c] spec [OF assms [unfolded evaluating_def], of c]
    by (auto simp: updated_def split: if_splits)
  then have "settled owner k'" "\<forall>c. sig_read c k' = new c" using k'(2) by (simp_all add: settled_def sig_read_def)
  moreover have "apart k' = apart k" using k'(1) by (simp add: apart_def rest_def)
  moreover have "perform_update (sig_update (=)) k = Inr k'" using r by (simp add: perform_update_def)
  ultimately show ?thesis by blast
qed

section \<open>The delta cycle\<close>

text \<open>C4: modules that communicate through signals are synchronous.  If every signal has one process
  that writes it, nothing is requested yet and no process is sensitive to a signal, the runnable processes all see the values of the signals from before the delta cycle,
  and the cycle changes the signals together.  The processes of one module, which share its members, take effect
  one after the other in the order of the queues, methods first; how they are mixed
  with those of other modules does not matter.  Every signal has the last value its module's processes
  wrote to it, every other one is unchanged.  No write is refused, the cycle is counted if a process was
  run, and nothing is left to run.\<close>

theorem crunch_is_synchronous:
  assumes "settled owner k" and "runnable_lists (m_runnable k) hm ht ms [] ts []"
    and "ps = map Method ms @ map Thread ts" and "\<forall>t \<in> set ts. m_cor_p (k_thread k t)"
    and "\<forall>p \<in> set ps. writes_own out owner p (\<lambda>c. sig_read c k)"
    and "m_delta_size k = 0" and "\<not> m_forced_stop k"
    and "run = (\<lambda>m. module_run out (\<lambda>c. sig_read c k) (filter (\<lambda>p. home p = m) ps) (k_local k m))"
  shows "\<exists>k'. crunch (drives out home) (sig_update (=)) once k = Some (Inr k') \<and>
    (\<forall>c. sig_read c k' = last_write (fst (run (home (owner c)))) c (sig_read c k)) \<and> (\<forall>m. k_local k' m = snd (run m)) \<and>
    settled owner k' \<and> runnable_lists (m_runnable k') hm ht [] [] [] [] \<and>
    m_delta_count k' = (if ps \<noteq> [] then m_delta_count k + 1 else m_delta_count k) \<and> m_curr_proc k' = None"
proof -
  let ?old = "\<lambda>c. sig_read c k" and ?k = "k\<lparr>m_execution_phase := phase_evaluate\<rparr>"
  let ?new = "driven out home owner ?old (k_local k) ps"
  have 0: "evaluating owner ?old ?old ?k" "runnable_lists (m_runnable ?k) hm ht ms [] ts []" "\<not> m_forced_stop ?k"
    "\<forall>t \<in> set ts. m_cor_p (k_thread ?k t)" "k_local ?k = k_local k"
    using evaluating_same [OF settled_evaluating [OF assms(1)], of ?k] assms(2,4,7) by simp_all
  obtain k1 where 1: "evaluate (drives out home) False ?k = Some (Inr ((ps \<noteq> [], False), k1))"
    "after out home owner ?old (k_local k) ps k1" "runnable_lists (m_runnable k1) hm ht [] [] [] []" "rest k1 = rest ?k"
    using evaluate_after [OF 0(1-4) assms(3,5), of home False] unfolding 0(5) by auto
  let ?k1 = "k1\<lparr>m_execution_phase := phase_update,
    m_change_stamp := (if ps \<noteq> [] then m_change_stamp k1 + 1 else m_change_stamp k1)\<rparr>"
  have e: "evaluating owner ?old ?new k1" and l: "k_local k1 = locals out home ?old (k_local k) ps"
    using 1(2) by (simp_all add: after_def)
  have "evaluating owner ?old ?new ?k1" by (rule evaluating_same [OF e]) simp_all
  then obtain k2 where 2: "perform_update (sig_update (=)) ?k1 = Inr k2" "settled owner k2" "apart k2 = apart ?k1"
    "\<And>c. sig_read c k2 = ?new c" using perform_update_settles by blast
  let ?k2 = "k2\<lparr>m_execution_phase := phase_notify\<rparr>"
  have f: "\<not> m_forced_stop ?k2" "m_delta_size ?k2 = 0" "m_delta_count ?k2 = m_delta_count k" "m_runnable ?k2 = m_runnable k1"
    "k_local ?k2 = k_local k1"
    using 1(4) 2(3) assms(6,7) by (simp_all add: apart_def rest_def)
  then have n: "notify_deltas ?k2 = Inr ?k2" by (simp add: notify_deltas_def)
  let ?k3 = "reset_curr_proc (?k2\<lparr>m_delta_count := (if ps \<noteq> [] then m_delta_count ?k2 + 1 else m_delta_count ?k2)\<rparr>)"
  have "runnable_is_empty (m_runnable k1) = Inr True" using is_empty_lists [OF 1(3)] by simp
  then have "crunch (drives out home) (sig_update (=)) once k = Some (Inr ?k3)"
    using 1(1) 2(1) f(1,4) n by (subst crunch.simps) (simp add: Let_def)
  moreover have "settled owner ?k3" "sig_read c ?k3 = last_write (fst (run (home (owner c)))) c (sig_read c k)" for c
    using 2(2,4) by (simp_all add: settled_def sig_read_def reset_curr_proc_def driven_def assms(8) of_module_def Let_def)
  moreover have "k_local ?k3 m = snd (run m)" for m
    using l f(5) by (simp add: reset_curr_proc_def locals_def assms(8) of_module_def)
  moreover have "runnable_lists (m_runnable ?k3) hm ht [] [] [] []" "m_curr_proc ?k3 = None"
    "m_delta_count ?k3 = (if ps \<noteq> [] then m_delta_count k + 1 else m_delta_count k)"
    using 1(3) f(3,4) by (simp_all add: reset_curr_proc_def)
  ultimately show ?thesis by blast
qed

text \<open>Two methods of different modules exchange the values of two signals; each counts its runs.\<close>

definition exchange :: "(nat, nat) process_body" where
  "exchange p read n =
     (if p = Method 1 then ([(1, read 2)], n + 1) else if p = Method 2 then ([(2, read 1)], n + 1) else ([], n))"

definition exchange_home :: "process \<Rightarrow> nat" where
  "exchange_home p = (if p = Method 1 then 1 else 2)"

definition exchange_kernel :: "(nat, nat, nat) modules_kernel" where
  "exchange_kernel = signals_kernel.extend (kernel.extend
     ((simcontext_init None SC_STOP_FINISH_DELTA False)\<lparr>m_runnable := two_queued\<rparr>)
     (signals_kernel.fields (\<lambda>c. sc_signal_new SC_ONE_WRITER (10 * c) (simcontext_init None SC_STOP_FINISH_DELTA False))))
     (modules_kernel.fields (\<lambda>_. 5))"

lemma exchange_kernel_facts:
  "settled Method exchange_kernel" "m_runnable exchange_kernel = two_queued" "m_delta_size exchange_kernel = 0"
  "\<not> m_forced_stop exchange_kernel" "sig_read c exchange_kernel = 10 * c" "k_local exchange_kernel m = 5"
  by (simp_all add: exchange_kernel_def settled_def sc_signal_new_def sig_read_def kernel.defs signals_kernel.defs
      modules_kernel.defs simcontext_init_def)

theorem crunch_is_synchronous_witness:
  "\<exists>k'. crunch (drives exchange exchange_home) (sig_update (=)) False exchange_kernel = Some (Inr k') \<and>
     sig_read 1 k' = 20 \<and> sig_read 2 k' = 10 \<and> sig_read 3 k' = 30 \<and> k_local k' 1 = 6 \<and> k_local k' 2 = 6"
proof -
  let ?ps = "map Method [1, 2] @ map Thread []"
  have r: "runnable_lists (m_runnable exchange_kernel) 0 0 [1, 2] [] [] []"
    using two_queued_lists by (simp add: exchange_kernel_facts)
  have o: "\<forall>p \<in> set ?ps. writes_own exchange Method p (\<lambda>c. sig_read c exchange_kernel)"
    by (auto simp: writes_own_def exchange_def)
  have t: "\<forall>t \<in> set []. m_cor_p (k_thread exchange_kernel t)" by simp
  from crunch_is_synchronous [where owner = Method and out = exchange and home = exchange_home and once = False,
      OF exchange_kernel_facts(1) r refl t o exchange_kernel_facts(3,4) refl]
  obtain k' where k': "crunch (drives exchange exchange_home) (sig_update (=)) False exchange_kernel = Some (Inr k')"
    "\<forall>c. sig_read c k' = last_write (fst (module_run exchange (\<lambda>c. sig_read c exchange_kernel)
       (filter (\<lambda>p. exchange_home p = exchange_home (Method c)) ?ps) (k_local exchange_kernel (exchange_home (Method c))))) c
       (sig_read c exchange_kernel)"
    "\<forall>m. k_local k' m = snd (module_run exchange (\<lambda>c. sig_read c exchange_kernel) (filter (\<lambda>p. exchange_home p = m) ?ps)
       (k_local exchange_kernel m))" by blast
  have "sig_read 1 k' = 20" "sig_read 2 k' = 10" "sig_read 3 k' = 30" "k_local k' 1 = 6" "k_local k' 2 = 6"
    by (simp_all add: spec [OF k'(2)] spec [OF k'(3)] module_run_def exchange_def exchange_home_def last_write_def
        exchange_kernel_facts(5,6))
  with k'(1) show ?thesis by blast
qed

end
