(* ===== verification/Sc_Frame.thy ===== *)
theory Sc_Frame
  imports Sc_Trigger
begin

text \<open>
  What triggering an event leaves alone.  The locale \<open>trigger_keeps\<close>: every predicate that survives
  the single updates a trigger is made of (of the event objects, as long as they keep the trigger stamp and only
  ever cancel a notification, of the processes, the run queues and the delta vector, and taking the
  event off a timed notification) survives the trigger, whichever processes it wakes.  The locale
  \<open>trigger_frame\<close>: so every part of the kernel that all these updates keep is kept by a trigger.
\<close>

section \<open>Predicates that survive a trigger\<close>

text \<open>An update of an event that neither stamps it nor notifies it.\<close>

definition calms :: "(sc_event \<Rightarrow> sc_event) \<Rightarrow> bool" where
  "calms f \<longleftrightarrow> (\<forall>ev. m_trigger_stamp (f ev) = m_trigger_stamp ev \<and> m_notify_type (f ev) \<in> {NONE, m_notify_type ev})"

text \<open>The first update of a trigger.\<close>

definition stamp_event :: "nat \<Rightarrow> 'a kernel_scheme \<Rightarrow> 'a kernel_scheme" where
  "stamp_event e k = upd_event e (\<lambda>ev. ev\<lparr>m_trigger_stamp := m_change_stamp k, m_notify_type := NONE,
     m_delta_event_index := -1, m_timed := None\<rparr>) k"

lemma calms_remove_dynamic [simp]: "calms (\<lambda>ev. snd (remove_dynamic p ev))"
  by (simp add: calms_def remove_dynamic_def split: process.split prod.split)

lemma calms_updates [simp]:
  "calms (\<lambda>ev. ev\<lparr>m_delta_event_index := i\<rparr>)" "calms (\<lambda>ev. ev\<lparr>m_notify_type := NONE\<rparr>)" "calms (\<lambda>ev. ev\<lparr>m_timed := et\<rparr>)"
  "calms (\<lambda>ev. ev\<lparr>m_notify_type := NONE, m_delta_event_index := -1, m_timed := None, m_methods_dynamic := [], m_threads_dynamic := []\<rparr>)"
  "calms (set_dynamic_list th g)"
  by (simp_all add: calms_def set_dynamic_list_def)

locale trigger_keeps =
  fixes Q :: "'a kernel_scheme \<Rightarrow> bool"
  assumes Q_event: "Q k \<Longrightarrow> calms f \<Longrightarrow> Q (upd_event e f k)"
    and Q_stamp: "Q k \<Longrightarrow> Q (stamp_event e k)"
    and Q_proc: "Q k \<Longrightarrow> Q (upd_proc p g k)"
    and Q_runnable: "Q k \<Longrightarrow> Q (k\<lparr>m_runnable := r\<rparr>)"
    and Q_delta_storage: "Q k \<Longrightarrow> Q (k\<lparr>m_delta_storage := ds\<rparr>)"
    and Q_delta_size: "Q k \<Longrightarrow> Q (k\<lparr>m_delta_size := n\<rparr>)"
    and Q_timed: "Q k \<Longrightarrow> Q (upd_timed et (\<lambda>t. t\<lparr>m_event := None\<rparr>) k)"
begin

lemmas Q_updates = Q_event Q_proc Q_runnable Q_delta_storage Q_delta_size Q_timed

lemma Q_res_fold:
  "res_fold f xs k = Inr k' \<Longrightarrow> Q k \<Longrightarrow> (\<And>x k k'. f x k = Inr k' \<Longrightarrow> Q k \<Longrightarrow> Q k') \<Longrightarrow> Q k'"
proof (induction xs arbitrary: k)
  case (Cons x xs)
  then obtain k1 where "f x k = Inr k1" "res_fold f xs k1 = Inr k'" by auto
  then show ?case using Cons.IH [of k1] Cons.prems(2,3) by blast
qed simp

lemma Q_el_remove: "Q k \<Longrightarrow> Q (el_remove_dynamic p e_not el k)"
proof -
  have "Q k \<Longrightarrow> Q (fold (\<lambda>e. if Some e \<noteq> e_not then upd_event e (\<lambda>ev. snd (remove_dynamic p ev)) else (\<lambda>k. k)) es k)"
    for es by (induction es arbitrary: k) (simp_all add: Q_event)
  then show "Q k \<Longrightarrow> Q (el_remove_dynamic p e_not el k)" by (simp add: el_remove_dynamic_def)
qed

lemma Q_forget: "Q k \<Longrightarrow> Q (forget_event p k)" "Q k \<Longrightarrow> Q (forget_list p k)" "Q k \<Longrightarrow> Q (set_trigger p t k)"
  by (simp_all add: forget_event_def forget_list_def set_trigger_def Q_proc)

lemma Q_remove_delta: "remove_delta_event e k = Inr k' \<Longrightarrow> Q k \<Longrightarrow> Q k'"
  by (auto simp: remove_delta_event_def Let_def Q_updates split: if_splits)

lemma Q_drop_timed: "drop_timed e k = Inr k' \<Longrightarrow> Q k \<Longrightarrow> Q k'"
  by (auto simp: drop_timed_def Q_updates split: option.splits)

lemma Q_cancel: "cancel e k = Inr k' \<Longrightarrow> Q k \<Longrightarrow> Q k'"
  by (auto simp: cancel_def rbind_eq_Inr Q_updates dest: Q_remove_delta Q_drop_timed split: notify_t.splits)

lemma Q_event_remove: "event_remove_dynamic p k = Inr k' \<Longrightarrow> Q k \<Longrightarrow> Q k'"
  by (auto simp: event_remove_dynamic_def Q_updates split: option.splits)

lemma Q_list_remove: "list_remove_dynamic p en k = Inr k' \<Longrightarrow> Q k \<Longrightarrow> Q k'"
  by (auto simp: list_remove_dynamic_def Q_el_remove split: option.splits)

lemma Q_timeout_off: "timeout_off p k = Inr k' \<Longrightarrow> Q k \<Longrightarrow> Q k'"
  by (auto simp: timeout_off_def Let_def rbind_eq_Inr event_reset_def Q_updates dest: Q_cancel)

lemma Q_dynamic_events:
  assumes "remove_dynamic_events skip p k = Inr k'" and "Q k"
  shows "Q k'"
proof -
  let ?k = "set_trigger p STATIC k"
  let ?q = "proc_of p ?k"
  obtain k1 where k1: "(if skip then Inr ?k
      else cancel (m_timeout_event_p ?q) (upd_event (m_timeout_event_p ?q) (\<lambda>ev. snd (remove_dynamic p ev)) ?k)) = Inr k1"
    and k': "k' = (let k = (case m_event_p ?q of None \<Rightarrow> k1
        | Some e \<Rightarrow> forget_event p (upd_event e (\<lambda>ev. snd (remove_dynamic p ev)) k1))
      in case m_event_list_p ?q of None \<Rightarrow> k | Some el \<Rightarrow> forget_list p (el_remove_dynamic p None el k))"
    using assms(1) unfolding remove_dynamic_events_def Let_def rbind_eq_Inr by auto
  have "Q k1" using k1 assms(2) by (auto simp: Q_forget Q_updates dest: Q_cancel split: if_splits)
  then show ?thesis unfolding k' Let_def by (auto simp: Q_forget Q_updates Q_el_remove split: option.split)
qed

lemmas Q_leave = Q_event_remove Q_list_remove Q_timeout_off Q_dynamic_events

lemma Q_make_ready: "make_ready p k = Inr k' \<Longrightarrow> Q k \<Longrightarrow> Q k'"
  by (auto simp: make_ready_def push_runnable_def push_runnable_method_def push_runnable_thread_def on_runnable_def rbind_eq_Inr Q_updates
      split: if_splits process.splits)

lemma Q_static:
  "method_trigger_static m k = Inr k' \<Longrightarrow> Q k \<Longrightarrow> Q k'"
  "thread_trigger_static t k = Inr k' \<Longrightarrow> Q k \<Longrightarrow> Q k'"
  by (auto simp: method_trigger_static_def thread_trigger_static_def Let_def Q_updates dest: Q_make_ready split: if_splits)

lemma Q_dynamic_switch: "dynamic_switch p e k = Inr (k', b) \<Longrightarrow> Q k \<Longrightarrow> Q k'"
  by (auto simp: dynamic_switch_def Let_def rbind_eq_Inr Q_forget Q_updates dest!: Q_leave
      split: trigger_t.splits if_splits)

lemma Q_trigger_dynamic: "trigger_dynamic p e k = Inr (b, k') \<Longrightarrow> Q k \<Longrightarrow> Q k'"
  by (auto simp: trigger_dynamic_def Let_def rbind_eq_Inr Q_updates
      dest!: Q_leave Q_dynamic_switch Q_make_ready split: if_splits)

lemma Q_trigger_waiting: "trigger_waiting th e i n k = Inr (n', k') \<Longrightarrow> Q k \<Longrightarrow> Q k'"
proof (induction th e i n k rule: trigger_waiting.induct)
  case (1 th e i n k)
  show ?case
  proof (cases "i < n \<and> n \<le> length (dynamic_list th (k_event k e))")
    case True
    then obtain b k1 where b: "trigger_dynamic (proc_handle th (dynamic_list th (k_event k e) ! i)) e k = Inr (b, k1)"
      "(if b then trigger_waiting th e i (n - 1) (upd_event e (set_dynamic_list th (\<lambda>ps. ps[i := ps ! (n - 1)])) k1)
        else trigger_waiting th e (i + 1) n k1) = Inr (n', k')"
      using 1(3) by (subst (asm) trigger_waiting.simps) auto
    then show ?thesis using 1(1) [of b k1] 1(2) [of b k1] True Q_trigger_dynamic [OF b(1) 1(4)] by (cases b) (auto simp: Q_event)
  next
    case False
    then show ?thesis using 1(3,4) by (subst (asm) trigger_waiting.simps) (auto split: if_splits)
  qed
qed

lemma Q_trigger_dynamics: "trigger_dynamics th e k = Inr k' \<Longrightarrow> Q k \<Longrightarrow> Q k'"
  by (auto simp: trigger_dynamics_def rbind_eq_Inr Q_updates dest!: Q_trigger_waiting split: if_splits)

text \<open>It is enough that the predicate holds once the event is stamped.\<close>

lemma Q_trigger_stamped:
  assumes "trigger e k = Inr k'" and Q: "Q (stamp_event e k)"
  shows "Q k'"
proof -
  obtain k1 k2 k3 where "res_fold method_trigger_static (rev (m_methods_static (k_event (stamp_event e k) e))) (stamp_event e k) = Inr k1"
    "trigger_dynamics False e k1 = Inr k2"
    "res_fold thread_trigger_static (rev (m_threads_static (k_event k2 e))) k2 = Inr k3" "trigger_dynamics True e k3 = Inr k'"
    using assms(1) unfolding trigger_def Let_def stamp_event_def by (elim rbind_InrE)
  then show ?thesis using Q Q_res_fold Q_static Q_trigger_dynamics by metis
qed

lemma Q_trigger: "trigger e k = Inr k' \<Longrightarrow> Q k \<Longrightarrow> Q k'"
  by (blast intro: Q_trigger_stamped Q_stamp)

lemma Q_notify_now: "notify_now e k = Inr k' \<Longrightarrow> Q k \<Longrightarrow> Q k'"
  by (auto simp: notify_now_def rbind_eq_Inr split: if_splits dest: Q_cancel Q_trigger)

end

section \<open>Parts that no trigger touches\<close>

locale trigger_frame = process_frame part for part :: "'a kernel_scheme \<Rightarrow> 'p" +
  assumes part_proc: "part (upd_proc p g k) = part k"
    and part_runnable: "part (k\<lparr>m_runnable := r\<rparr>) = part k"
    and part_delta_storage: "part (k\<lparr>m_delta_storage := ds\<rparr>) = part k"
    and part_delta_size: "part (k\<lparr>m_delta_size := n\<rparr>) = part k"
    and part_timed: "part (upd_timed et (\<lambda>t. t\<lparr>m_event := None\<rparr>) k) = part k"

sublocale trigger_frame \<subseteq> keeps: trigger_keeps "\<lambda>k. part k = c" for c
  by unfold_locales (simp_all add: stamp_event_def part_event part_proc part_runnable part_delta_storage part_delta_size part_timed)

context trigger_frame begin

lemma part_trigger: "trigger e k = Inr k' \<Longrightarrow> part k' = part k"
  by (rule keeps.Q_trigger) (auto intro: refl)

lemma part_notify_now: "notify_now e k = Inr k' \<Longrightarrow> part k' = part k"
  by (rule keeps.Q_notify_now) (auto intro: refl)

end

end
