(* ===== verification/Sc_Time.thy ===== *)
theory Sc_Time
  imports Sc_Simulate Sc_Frame
begin

text \<open>
  How the time advances: the heap of timed notifications gives the earliest one that was not
  cancelled.
\<close>

section \<open>The next notification\<close>

lemma pending_Nothing: "pending k e = Nothing \<longleftrightarrow> m_notify_type (k_event k e) = NONE"
  by (simp add: pending_def split: notify_t.split)

lemma timed_event_pending:
  assumes "timed_ok k" and "et \<in># pq_elems (m_timed_events k)" and "m_event (k_timed k et) = Some e"
  shows "pending k e = At_Time (m_notify_time (k_timed k et))"
proof -
  have "m_notify_type (k_event k e) = TIMED \<and> m_timed (k_event k e) = Some et"
    using assms unfolding timed_ok_def by blast
  then show ?thesis by (simp add: pending_def)
qed

lemma pending_timed_event:
  assumes "timed_ok k" and "pending k e = At_Time u"
  obtains et where "et \<in># pq_elems (m_timed_events k)" and "m_event (k_timed k et) = Some e"
    and "m_notify_time (k_timed k et) = u"
proof -
  have T: "m_notify_type (k_event k e) = TIMED" using assms(2) by (simp add: pending_def split: notify_t.splits)
  then obtain et where et: "m_timed (k_event k e) = Some et" using assms(1) unfolding timed_ok_def by blast
  then have "et \<in># pq_elems (m_timed_events k) \<and> m_event (k_timed k et) = Some e"
    using assms(1) T unfolding timed_ok_def by blast
  moreover have "m_notify_time (k_timed k et) = u" using assms(2) T et by (simp add: pending_def)
  ultimately show ?thesis using that by blast
qed

text \<open>Taking a cancelled notification out of the heap.\<close>

lemma extract_cancelled:
  assumes "notify_inv k" and "\<not> pq_empty (m_timed_events k)" and "m_event (k_timed k (pq_top (m_timed_events k))) = None"
  obtains k' where "extract_timed k = Inr (pq_top (m_timed_events k), k')"
    and "refines_to k (delete_timed (pq_top (m_timed_events k)) k') (pending k)"
proof -
  let ?q = "m_timed_events k" and ?et = "pq_top (m_timed_events k)"
  have inv: "delta_ok k" "timed_ok k" using assms(1) by (simp_all add: notify_inv_def)
  then have "timed.pq_inv (k_timed k) ?q" by (simp add: timed_ok_def)
  moreover have "m_heap_size ?q > 0" using assms(2) by (simp add: pq_empty_def)
  ultimately obtain q' where q': "pq_extract_top (sc_notify_time_compare (k_timed k)) ?q = Inr (?et, q')"
    "timed.pq_inv (k_timed k) q'" "pq_elems ?q = add_mset ?et (pq_elems q')"
    using timed.extract_inv by blast
  let ?k = "k\<lparr>m_timed_events := q'\<rparr>"
  have "delta_ok ?k" using inv(1) by (simp add: delta_ok_def event_vector_def)
  moreover have "count (pq_elems q') et \<le> 1" for et
  proof -
    have "count (pq_elems q') et \<le> count (pq_elems ?q) et" using q'(3) by simp
    then show ?thesis using inv(2) le_trans unfolding timed_ok_def by blast
  qed
  then have "timed_ok ?k" using inv(2) q'(2,3) assms(3) by (simp add: timed_ok_def) (metis option.distinct(1))
  moreover have "pending ?k = pending k" by (simp add: pending_def fun_eq_iff split: notify_t.split)
  moreover have "same_rest k ?k" by (simp add: same_rest_def)
  ultimately have "refines_to k ?k (pending k)" by (simp add: refines_to_def notify_inv_def)
  moreover have "delete_timed ?et ?k = ?k" using assms(3) by (simp add: delete_timed_def)
  ultimately show ?thesis using that q'(1) by (simp add: extract_timed_def)
qed

lemma next_time_refines:
  assumes "notify_inv k"
  shows "\<exists>nt k'. next_time k = Inr (nt, k') \<and> refines_to k k' (pending k) \<and>
    (case nt of None \<Rightarrow> \<forall>e u. pending k e \<noteq> At_Time u
     | Some t \<Rightarrow> (\<exists>e. pending k e = At_Time t) \<and> (\<forall>e u. pending k e = At_Time u \<longrightarrow> t \<le> u))"
  using assms
proof (induction k rule: next_time.induct)
  case (1 k)
  let ?q = "m_timed_events k" and ?et = "pq_top (m_timed_events k)"
  have ok: "timed_ok k" using 1(2) by (simp add: notify_inv_def)
  have self: "refines_to k k (pending k)" using 1(2) by (simp add: refines_to_def same_rest_def)
  consider (empty) "pq_empty ?q" | (live) e where "\<not> pq_empty ?q" "m_event (k_timed k ?et) = Some e"
    | (cancelled) "\<not> pq_empty ?q" "m_event (k_timed k ?et) = None" by (cases "m_event (k_timed k ?et)") auto
  then show ?case
  proof cases
    case empty
    then have "pq_elems ?q = {#}" by (simp add: pq_empty_def pq_elems_def heap_elems_def)
    then have "pending k e \<noteq> At_Time u" for e u using pending_timed_event [OF ok, of e u] by auto
    then show ?thesis using empty self by (subst next_time.simps) simp
  next
    case live
    have pq: "timed.pq_inv (k_timed k) ?q" "m_heap_size ?q > 0" using ok live(1) by (simp_all add: timed_ok_def pq_empty_def)
    then have least: "\<forall>x \<in># pq_elems ?q. sc_notify_time_compare (k_timed k) x ?et \<le> 0" "?et \<in># pq_elems ?q"
      using timed.extract_inv [OF pq] by auto
    have "m_notify_time (k_timed k ?et) \<le> u" if "pending k e' = At_Time u" for e' u
    proof (rule pending_timed_event [OF ok that])
      fix et assume "et \<in># pq_elems ?q" "m_notify_time (k_timed k et) = u"
      then show ?thesis using bspec [OF least(1), of et] by (simp add: sc_notify_time_compare_def Let_def split: if_splits)
    qed
    then show ?thesis using live self timed_event_pending [OF ok least(2) live(2)] by (subst next_time.simps) auto
  next
    case cancelled
    obtain k1 where k1: "extract_timed k = Inr (?et, k1)" "refines_to k (delete_timed ?et k1) (pending k)"
      using extract_cancelled [OF 1(2) cancelled] by blast
    let ?k = "delete_timed ?et k1"
    have k: "notify_inv ?k" "pending ?k = pending k" "same_rest k ?k" using k1(2) by (simp_all add: refines_to_def)
    have "\<not> m_event (k_timed k ?et) \<noteq> None" using cancelled(2) by simp
    from 1(1) [OF cancelled(1) refl this k1(1) refl k(1), unfolded k(2)]
    obtain nt k' where n: "next_time ?k = Inr (nt, k')" "refines_to ?k k' (pending k)"
      "case nt of None \<Rightarrow> \<forall>e u. pending k e \<noteq> At_Time u
       | Some t \<Rightarrow> (\<exists>e. pending k e = At_Time t) \<and> (\<forall>e u. pending k e = At_Time u \<longrightarrow> t \<le> u)" by blast
    have "next_time k = next_time ?k" using cancelled k1(1) by (subst next_time.simps) simp
    then have "next_time k = Inr (nt, k')" using n(1) by simp
    moreover have "refines_to k k' (pending k)" using n(2) same_rest_trans [OF k(3)] by (simp add: refines_to_def)
    ultimately show ?thesis using n(3) by (intro exI [of _ nt] exI [of _ k'] conjI) simp_all
  qed
qed

text \<open>The next notification.  As long as events and heap agree, \<open>next_time\<close> ends, keeps them in
  agreement and what is pending as it is, and returns the earliest time at which an event is
  pending, or nothing when no event is; the notifications that were cancelled before it
  are dropped.\<close>

theorem next_time_is_earliest:
  assumes "notify_inv k"
  shows "\<exists>nt k'. next_time k = Inr (nt, k') \<and> refines_to k k' (pending k) \<and>
    (case nt of None \<Rightarrow> \<forall>e u. pending k e \<noteq> At_Time u
     | Some t \<Rightarrow> (\<exists>e. pending k e = At_Time t) \<and> (\<forall>e u. pending k e = At_Time u \<longrightarrow> t \<le> u))"
  by (rule next_time_refines [OF assms])

text \<open>The event 3 is notified for the time 9, and cancelled again, the event 4 for the time 12.\<close>

definition two_timed :: kernel where
  "two_timed =
     (case rbind (rbind (notify_at 3 9 (simcontext_init None SC_STOP_FINISH_DELTA False)) (notify_at 4 12)) (cancel 3) of
        Inr k \<Rightarrow> k)"

lemma two_timed_inv:
  "notify_inv two_timed" "pending two_timed = (\<lambda>_. Nothing)(4 := At_Time 12)" "m_curr_time two_timed = 0"
proof -
  let ?k0 = "simcontext_init None SC_STOP_FINISH_DELTA False"
  have p0: "pending ?k0 = (\<lambda>_. Nothing)" by (simp add: pending_def simcontext_init_def sc_event_new_def fun_eq_iff)
  have t0: "m_curr_time ?k0 = 0" by (simp add: simcontext_init_def SC_ZERO_TIME_def)
  obtain k1 where 1: "notify_at 3 9 ?k0 = Inr k1" "refines_to ?k0 k1 ((\<lambda>_. Nothing)(3 := At_Time 9))"
    using notify_at_refines [OF simcontext_init_inv, of 3 9 None SC_STOP_FINISH_DELTA False] by (auto simp: p0 t0 notify_rule_cases)
  have p1: "notify_inv k1" "pending k1 = (\<lambda>_. Nothing)(3 := At_Time 9)" "m_curr_time k1 = 0"
    using 1(2) same_rest_time [of ?k0 k1] by (simp_all add: refines_to_def t0)
  obtain k2 where 2: "notify_at 4 12 k1 = Inr k2" "refines_to k1 k2 ((\<lambda>_. Nothing)(3 := At_Time 9, 4 := At_Time 12))"
    using notify_at_refines [OF p1(1), of 4 12] by (auto simp: p1 notify_rule_cases)
  have p2: "notify_inv k2" "pending k2 = (\<lambda>_. Nothing)(3 := At_Time 9, 4 := At_Time 12)"
    using 2(2) by (simp_all add: refines_to_def)
  obtain k3 where 3: "cancel 3 k2 = Inr k3" "refines_to k2 k3 ((\<lambda>_. Nothing)(3 := Nothing, 4 := At_Time 12))"
    using cancel_refines [OF p2(1), of 3] by (auto simp: p2 fun_upd_twist)
  have "m_curr_time k3 = 0" using 2(2) 3(2) p1(3) same_rest_time [of k1 k2] same_rest_time [of k2 k3] by (simp add: refines_to_def)
  moreover have "two_timed = k3" using 1(1) 2(1) 3(1) by (simp add: two_timed_def)
  ultimately show "notify_inv two_timed" "pending two_timed = (\<lambda>_. Nothing)(4 := At_Time 12)" "m_curr_time two_timed = 0"
    using 3(2) by (auto simp: refines_to_def)
qed

theorem next_time_is_earliest_witness:
  "\<exists>k'. next_time two_timed = Inr (Some 12, k') \<and> pending k' = (\<lambda>_. Nothing)(4 := At_Time 12)"
proof -
  obtain nt k' where n: "next_time two_timed = Inr (nt, k')" "refines_to two_timed k' (pending two_timed)"
    "case nt of None \<Rightarrow> \<forall>e u. pending two_timed e \<noteq> At_Time u
     | Some t \<Rightarrow> (\<exists>e. pending two_timed e = At_Time t) \<and> (\<forall>e u. pending two_timed e = At_Time u \<longrightarrow> t \<le> u)"
    using next_time_is_earliest [OF two_timed_inv(1)] by blast
  have "nt = Some 12" using n(3) by (auto simp: two_timed_inv(2) split: option.splits if_splits)
  with n(1,2) show ?thesis by (simp add: refines_to_def two_timed_inv(2))
qed

section \<open>Triggering an event takes no time\<close>

definition clock_of :: "'a kernel_scheme \<Rightarrow> nat sc_ppq \<times> sc_time \<times> (nat \<Rightarrow> sc_time)" where
  "clock_of k = (m_timed_events k, m_curr_time k, \<lambda>et. m_notify_time (k_timed k et))"

lemma clock_of_updates [simp]:
  "clock_of (upd_event e f k) = clock_of k" "clock_of (upd_proc p g k) = clock_of k"
  "clock_of (k\<lparr>m_runnable := r\<rparr>) = clock_of k" "clock_of (k\<lparr>m_delta_storage := ds\<rparr>) = clock_of k"
  "clock_of (k\<lparr>m_delta_size := n\<rparr>) = clock_of k"
  by (simp_all add: clock_of_def upd_event_def upd_proc_def split: process.split)

interpretation clock: trigger_frame clock_of
  by unfold_locales
    (auto simp: clock_of_def upd_timed_def upd_event_def upd_proc_def forget_event_def forget_list_def set_trigger_def
      split: process.split)

section \<open>What a trigger cannot do\<close>

text \<open>From \<open>k\<close> to \<open>k'\<close> no event was notified and no timed notification was given an event: both can
  only be cancelled.\<close>

definition only_cancelled :: "'a kernel_scheme \<Rightarrow> 'a kernel_scheme \<Rightarrow> bool" where
  "only_cancelled k k' \<longleftrightarrow> (\<forall>et. m_event (k_timed k' et) \<in> {None, m_event (k_timed k et)}) \<and>
     (\<forall>e. m_notify_type (k_event k' e) \<in> {NONE, m_notify_type (k_event k e)})"

text \<open>Within one step of the time, the stamps of the events changed only to the present one.\<close>

definition only_stamped :: "'a kernel_scheme \<Rightarrow> 'a kernel_scheme \<Rightarrow> bool" where
  "only_stamped k k' \<longleftrightarrow> m_change_stamp k' = m_change_stamp k \<and>
     (\<forall>e. triggered e k' \<or> m_trigger_stamp (k_event k' e) = m_trigger_stamp (k_event k e))"

lemma only_refl [simp]: "only_cancelled k k" "only_stamped k k"
  by (simp_all add: only_cancelled_def only_stamped_def)

lemma only_cancelled_trans: "only_cancelled k1 k2 \<Longrightarrow> only_cancelled k2 k3 \<Longrightarrow> only_cancelled k1 k3"
  unfolding only_cancelled_def by (metis insert_iff singletonD)

lemma only_stamped_trans: "only_stamped k1 k2 \<Longrightarrow> only_stamped k2 k3 \<Longrightarrow> only_stamped k1 k3"
  unfolding only_stamped_def triggered_def by metis

lemma only_updates:
  "calms f \<Longrightarrow> only_cancelled k (upd_event e f k)" "calms f \<Longrightarrow> only_stamped k (upd_event e f k)"
  "only_cancelled k (stamp_event e k)" "only_stamped k (stamp_event e k)"
  "only_cancelled k (upd_proc p g k)" "only_stamped k (upd_proc p g k)"
  "only_cancelled k (upd_timed et (\<lambda>t. t\<lparr>m_event := None\<rparr>) k)" "only_stamped k (upd_timed et (\<lambda>t. t\<lparr>m_event := None\<rparr>) k)"
  by (auto simp: only_cancelled_def only_stamped_def triggered_def calms_def upd_event_def stamp_event_def upd_proc_def upd_timed_def
      split: process.split)

lemma only_parts:
  "only_cancelled k (k'\<lparr>m_runnable := r\<rparr>) = only_cancelled k k'" "only_stamped k (k'\<lparr>m_runnable := r\<rparr>) = only_stamped k k'"
  "only_cancelled k (k'\<lparr>m_delta_storage := ds\<rparr>) = only_cancelled k k'" "only_stamped k (k'\<lparr>m_delta_storage := ds\<rparr>) = only_stamped k k'"
  "only_cancelled k (k'\<lparr>m_delta_size := n\<rparr>) = only_cancelled k k'" "only_stamped k (k'\<lparr>m_delta_size := n\<rparr>) = only_stamped k k'"
  by (simp_all add: only_cancelled_def only_stamped_def triggered_def)

interpretation marks: trigger_keeps "\<lambda>k'. only_cancelled k k' \<and> only_stamped k k'" for k
  by unfold_locales (auto simp: only_parts intro: only_updates only_cancelled_trans only_stamped_trans)

text \<open>A timed notification that is over: if its event was not cancelled, the event is not pending.\<close>

definition spent :: "'a kernel_scheme \<Rightarrow> nat \<Rightarrow> bool" where
  "spent k et \<longleftrightarrow> (\<forall>e. m_event (k_timed k et) = Some e \<longrightarrow> pending k e = Nothing)"

text \<open>One of the present time step: its event was triggered, with the present stamp.\<close>

definition fired :: "'a kernel_scheme \<Rightarrow> nat \<Rightarrow> bool" where
  "fired k et \<longleftrightarrow> (\<forall>e. m_event (k_timed k et) = Some e \<longrightarrow> triggered e k)"

lemma spent_kept: "spent k et \<Longrightarrow> only_cancelled k k' \<Longrightarrow> spent k' et"
  unfolding spent_def pending_Nothing only_cancelled_def by (metis insert_iff option.distinct(1) singletonD)

lemma fired_kept: "fired k et \<Longrightarrow> only_cancelled k k' \<Longrightarrow> only_stamped k k' \<Longrightarrow> fired k' et"
  unfolding fired_def only_cancelled_def only_stamped_def triggered_def by (metis insert_iff option.distinct(1) singletonD)

lemma trigger_fires:
  assumes "trigger e k = Inr k'"
  shows "only_cancelled k k'" "only_stamped k k'" "m_event (k_timed k et) \<in> {None, Some e} \<Longrightarrow> spent k' et \<and> fired k' et"
proof -
  show k: "only_cancelled k k'" "only_stamped k k'"
    using marks.Q_trigger [OF assms, of k] by simp_all
  have "only_cancelled (stamp_event e k) k' \<and> only_stamped (stamp_event e k) k'"
    by (rule marks.Q_trigger_stamped [OF assms]) simp
  then have "m_notify_type (k_event k' e) = NONE" "triggered e k'"
    unfolding only_cancelled_def only_stamped_def triggered_def
    by (auto simp: stamp_event_def upd_event_def dest: spec [of _ e])
  moreover assume "m_event (k_timed k et) \<in> {None, Some e}"
  moreover have "m_event (k_timed k' et) \<in> {None, m_event (k_timed k et)}" using k(1) by (simp add: only_cancelled_def)
  ultimately show "spent k' et \<and> fired k' et" by (auto simp: spent_def fired_def pending_Nothing)
qed

lemma only_delete [simp]: "only_cancelled k (delete_timed et k)" "only_stamped k (delete_timed et k)"
  by (auto simp: only_cancelled_def only_stamped_def triggered_def delete_timed_def upd_event_def split: option.split)

section \<open>The advance of the time\<close>

definition heap_ok :: "'a kernel_scheme \<Rightarrow> bool" where
  "heap_ok k \<longleftrightarrow> timed.pq_inv (k_timed k) (m_timed_events k)"

definition entries :: "'a kernel_scheme \<Rightarrow> nat multiset" where
  "entries k = pq_elems (m_timed_events k)"

definition due :: "'a kernel_scheme \<Rightarrow> nat \<Rightarrow> sc_time" where
  "due k et = m_notify_time (k_timed k et)"

text \<open>No entry of the heap is earlier than \<open>t\<close>.\<close>

definition not_before :: "sc_time \<Rightarrow> 'a kernel_scheme \<Rightarrow> bool" where
  "not_before t k \<longleftrightarrow> (\<forall>et \<in># entries k. t \<le> due k et)"

lemma clock_of_heap:
  assumes "clock_of k' = clock_of k"
  shows "entries k' = entries k" "due k' = due k" "m_curr_time k' = m_curr_time k" "pq_empty (m_timed_events k') = pq_empty (m_timed_events k)"
    "heap_ok k \<Longrightarrow> heap_ok k'"
  using assms by (auto simp: clock_of_def entries_def due_def heap_ok_def fun_eq_iff intro: timed_pq_cong [of "k_timed k"])

lemma pq_empty_entries: "heap_ok k \<Longrightarrow> pq_empty (m_timed_events k) \<longleftrightarrow> entries k = {#}"
  by (auto simp: heap_ok_def timed.pq_inv_def pq_space_def pq_empty_def entries_def pq_elems_def heap_elems_def)

lemma top_first:
  assumes "heap_ok k" and "\<not> pq_empty (m_timed_events k)"
  obtains k' where "extract_timed k = Inr (pq_top (m_timed_events k), k')" and "heap_ok k'" and "due k' = due k"
    and "m_curr_time k' = m_curr_time k" and "entries k = add_mset (pq_top (m_timed_events k)) (entries k')"
    and "not_before (due k (pq_top (m_timed_events k))) k"
proof -
  let ?q = "m_timed_events k"
  have "timed.pq_inv (k_timed k) ?q" "m_heap_size ?q > 0" using assms by (simp_all add: heap_ok_def pq_empty_def)
  then obtain q' where q': "pq_extract_top (sc_notify_time_compare (k_timed k)) ?q = Inr (pq_top ?q, q')"
    "timed.pq_inv (k_timed k) q'" "pq_elems ?q = add_mset (pq_top ?q) (pq_elems q')"
    "\<forall>x \<in># pq_elems ?q. sc_notify_time_compare (k_timed k) x (pq_top ?q) \<le> 0" using timed.extract_inv by blast
  have "due k (pq_top ?q) \<le> due k et" if "et \<in># entries k" for et
    using bspec [OF q'(4), of et] that by (simp add: entries_def due_def sc_notify_time_compare_def Let_def split: if_splits)
  then have "not_before (due k (pq_top ?q)) k" by (simp add: not_before_def)
  then show ?thesis using q'(1,2,3)
    by (intro that [of "k\<lparr>m_timed_events := q'\<rparr>"]) (simp_all add: extract_timed_def heap_ok_def due_def fun_eq_iff entries_def)
qed

lemma clock_of_delete [simp]: "clock_of (delete_timed et k) = clock_of k"
  by (simp add: delete_timed_def split: option.split)

lemma next_time_heap:
  assumes "heap_ok k"
  shows "\<exists>nt k'. next_time k = Inr (nt, k') \<and> heap_ok k' \<and> due k' = due k \<and> m_curr_time k' = m_curr_time k \<and>
    entries k' \<subseteq># entries k \<and> only_cancelled k k' \<and> only_stamped k k' \<and>
    (\<forall>et \<in># entries k. et \<in># entries k' \<or> m_event (k_timed k' et) = None) \<and>
    (case nt of None \<Rightarrow> entries k' = {#} | Some t \<Rightarrow> (\<exists>et \<in># entries k'. due k' et = t) \<and> not_before t k')"
  using assms
proof (induction k rule: next_time.induct)
  case (1 k)
  let ?q = "m_timed_events k" and ?et = "pq_top (m_timed_events k)"
  consider (empty) "pq_empty ?q" | (live) e where "\<not> pq_empty ?q" "m_event (k_timed k ?et) = Some e"
    | (cancelled) "\<not> pq_empty ?q" "m_event (k_timed k ?et) = None" by (cases "m_event (k_timed k ?et)") auto
  then show ?case
  proof cases
    case empty
    then show ?thesis using 1(2) pq_empty_entries [OF 1(2)] by (subst next_time.simps) simp
  next
    case live
    obtain k' where "extract_timed k = Inr (?et, k')" "entries k = add_mset ?et (entries k')" "not_before (due k ?et) k" by (rule top_first [OF 1(2) live(1)]) blast
    then show ?thesis using 1(2) live by (subst next_time.simps) (auto simp: due_def)
  next
    case cancelled
    obtain k1 where k1: "extract_timed k = Inr (?et, k1)" "heap_ok k1" "due k1 = due k" "m_curr_time k1 = m_curr_time k"
      "entries k = add_mset ?et (entries k1)" by (rule top_first [OF 1(2) cancelled(1)])
    let ?k = "delete_timed ?et k1"
    have k: "heap_ok ?k" "due ?k = due k" "m_curr_time ?k = m_curr_time k" "entries ?k \<subseteq># entries k"
      using k1 clock_of_heap [of ?k k1] by simp_all
    have gone: "k_timed k1 = k_timed k" "k_event k1 = k_event k" "m_change_stamp k1 = m_change_stamp k"
      using k1(1) by (auto simp: extract_timed_def rbind_eq_Inr)
    have "delete_timed ?et k1 = k1" using cancelled(2) gone(1) by (simp add: delete_timed_def)
    then have only: "only_cancelled k ?k" "only_stamped k ?k"
      using gone by (simp_all add: only_cancelled_def only_stamped_def triggered_def)
    have "\<not> m_event (k_timed k ?et) \<noteq> None" using cancelled(2) by simp
    from 1(1) [OF cancelled(1) refl this k1(1) refl k(1)]
    obtain nt k' where n: "next_time ?k = Inr (nt, k')" "heap_ok k'" "due k' = due ?k" "m_curr_time k' = m_curr_time ?k"
      "entries k' \<subseteq># entries ?k" "only_cancelled ?k k'" "only_stamped ?k k'"
      "\<forall>et \<in># entries ?k. et \<in># entries k' \<or> m_event (k_timed k' et) = None" "case nt of None \<Rightarrow> entries k' = {#}
       | Some t \<Rightarrow> (\<exists>et \<in># entries k'. due k' et = t) \<and> not_before t k'" by blast
    have "next_time k = next_time ?k" using cancelled k1(1) by (subst next_time.simps) simp
    have o: "only_cancelled k k'" "only_stamped k k'"
      using only n(6,7) by (blast intro: only_cancelled_trans only_stamped_trans)+
    moreover have "m_event (k_timed k' ?et) = None" using o(1) cancelled(2) unfolding only_cancelled_def by (metis empty_iff insert_iff)
    then have "\<forall>et \<in># entries k. et \<in># entries k' \<or> m_event (k_timed k' et) = None"
      using n(8) k1(5) clock_of_heap(1) [of ?k k1] by auto
    ultimately show ?thesis using \<open>next_time k = next_time ?k\<close> n k(2,3) subset_mset.order_trans [OF n(5) k(4)]
      by (intro exI [of _ nt] exI [of _ k'] conjI) simp_all
  qed
qed

text \<open>All the entries of a time are triggered, in a loop that ends.\<close>

lemma trigger_timed_heap:
  assumes "heap_ok k" and "\<exists>et \<in># entries k. due k et = t" and "not_before t k"
  shows "\<exists>r. trigger_timed t k = Some r \<and> (\<forall>k'. r = Inr k' \<longrightarrow> heap_ok k' \<and> due k' = due k \<and>
    m_curr_time k' = m_curr_time k \<and> entries k' \<subset># entries k \<and> (\<forall>et \<in># entries k'. t < due k' et) \<and>
    only_cancelled k k' \<and> only_stamped k k' \<and> (\<forall>et \<in># entries k. et \<in># entries k' \<or> due k et = t \<and> spent k' et \<and> fired k' et))"
  using assms
proof (induction "size (entries k)" arbitrary: k rule: less_induct)
  case less
  have ne: "\<not> pq_empty (m_timed_events k)" using less(2,3) pq_empty_entries [OF less(2)] by auto
  let ?et = "pq_top (m_timed_events k)"
  obtain k1 where k1: "extract_timed k = Inr (?et, k1)" "heap_ok k1" "due k1 = due k" "m_curr_time k1 = m_curr_time k"
      "entries k = add_mset ?et (entries k1)" "not_before (due k ?et) k" by (rule top_first [OF less(2) ne])
  have top: "due k ?et = t" using less(3,4) k1(5,6) by (force simp: not_before_def)
  let ?e = "m_event (k_timed k1 ?et)" and ?k = "delete_timed ?et k1"
  let ?next = "\<lambda>k. if \<not> pq_empty (m_timed_events k) \<and> m_notify_time (k_timed k (pq_top (m_timed_events k))) = t
    then trigger_timed t k else Some (Inr k)"
  have step: "trigger_timed t k = obind (Some (if ?e = None then Inr ?k else trigger (the ?e) ?k)) ?next"
    by (subst trigger_timed.simps) (simp add: k1(1) Let_def)
  show ?case
  proof (cases "if ?e = None then Inr ?k else trigger (the ?e) ?k")
    case (Inl f)
    then show ?thesis by (simp add: step)
  next
    case (Inr k2)
    then have "clock_of k2 = clock_of ?k" by (cases ?e) (auto dest: clock.part_trigger)
    note c = clock_of_heap [OF this]
    have k2: "heap_ok k2" "due k2 = due k" "m_curr_time k2 = m_curr_time k" "entries k = add_mset ?et (entries k2)"
      using c k1 clock_of_heap [of ?k k1] by simp_all
    have nb: "not_before t k2" using less(4) k2(2,4) by (simp add: not_before_def)
    have sub: "entries k2 \<subset># entries k" using k2(4) by simp
    have gone: "k_timed k1 = k_timed k" "k_event k1 = k_event k" "m_change_stamp k1 = m_change_stamp k"
      using k1(1) by (auto simp: extract_timed_def rbind_eq_Inr)
    then have o1: "only_cancelled k ?k" "only_stamped k ?k"
      by (auto simp: only_cancelled_def only_stamped_def triggered_def delete_timed_def upd_event_def split: option.split)
    have o12: "only_cancelled ?k k2 \<and> only_stamped ?k k2 \<and> spent k2 ?et \<and> fired k2 ?et"
    proof (cases ?e)
      case None
      then have "k2 = ?k" "m_event (k_timed ?k ?et) = None" using Inr by (simp_all add: delete_timed_def)
      then show ?thesis by (simp add: spent_def fired_def)
    next
      case (Some e)
      then have tr: "trigger e ?k = Inr k2" using Inr by simp
      have "m_event (k_timed ?k ?et) \<in> {None, Some e}" using Some by (simp add: delete_timed_def upd_event_def)
      then show ?thesis using trigger_fires [OF tr] by blast
    qed
    then have o2: "only_cancelled k k2" "only_stamped k k2" "spent k2 ?et" "fired k2 ?et"
      using o1 by (blast intro: only_cancelled_trans only_stamped_trans)+
    show ?thesis
    proof (cases "\<not> pq_empty (m_timed_events k2) \<and> due k2 (pq_top (m_timed_events k2)) = t")
      case True
      then have "entries k2 \<noteq> {#}" using pq_empty_entries [OF k2(1)] by simp
      have "\<exists>et \<in># entries k2. due k2 et = t"
      proof -
        obtain k3 where "extract_timed k2 = Inr (pq_top (m_timed_events k2), k3)"
          "entries k2 = add_mset (pq_top (m_timed_events k2)) (entries k3)" by (rule top_first [OF k2(1) conjunct1 [OF True]])
        then show ?thesis using True by auto
      qed
      moreover have "size (entries k2) < size (entries k)" using k2(4) by simp
      ultimately obtain r where r: "trigger_timed t k2 = Some r" "\<forall>k'. r = Inr k' \<longrightarrow> heap_ok k' \<and> due k' = due k2 \<and>
        m_curr_time k' = m_curr_time k2 \<and> entries k' \<subset># entries k2 \<and> (\<forall>et \<in># entries k'. t < due k' et) \<and>
        only_cancelled k2 k' \<and> only_stamped k2 k' \<and> (\<forall>et \<in># entries k2. et \<in># entries k' \<or> due k2 et = t \<and> spent k' et \<and> fired k' et)"
        using less(1) [OF _ k2(1) _ nb] by blast
      have "trigger_timed t k = Some r" using step Inr True r(1) by (simp add: due_def)
      moreover have "only_cancelled k k' \<and> only_stamped k k' \<and> (\<forall>et \<in># entries k. et \<in># entries k' \<or> due k et = t \<and> spent k' et \<and> fired k' et)"
        if "r = Inr k'" for k'
      proof -
        have o3: "only_cancelled k2 k'" "only_stamped k2 k'" "\<forall>et \<in># entries k2. et \<in># entries k' \<or> due k2 et = t \<and> spent k' et \<and> fired k' et"
          using r(2) that by blast+
        then have "spent k' ?et \<and> fired k' ?et" using o2(3,4) by (blast intro: spent_kept fired_kept)
        then show ?thesis using o2(1,2) o3 k2(2,4) top by (auto intro: only_cancelled_trans only_stamped_trans)
      qed
      ultimately show ?thesis using r(2) k2(2,3) sub by (auto intro: subset_mset.less_trans)
    next
      case False
      have "t < due k2 et" if "et \<in># entries k2" for et
      proof -
        have ne2: "\<not> pq_empty (m_timed_events k2)" using that pq_empty_entries [OF k2(1)] by auto
        obtain k3 where "extract_timed k2 = Inr (pq_top (m_timed_events k2), k3)" "entries k2 = add_mset (pq_top (m_timed_events k2)) (entries k3)"
          "not_before (due k2 (pq_top (m_timed_events k2))) k2" by (rule top_first [OF k2(1) ne2]) blast
        then have "t \<le> due k2 (pq_top (m_timed_events k2))" "due k2 (pq_top (m_timed_events k2)) \<le> due k2 et"
          using nb that by (auto simp: not_before_def)
        then show ?thesis using False ne2 by (simp add: order.not_eq_order_implies_strict)
      qed
      moreover have "trigger_timed t k = Some (Inr k2)" using step Inr False by (auto simp: due_def)
      moreover have "\<forall>et \<in># entries k. et \<in># entries k2 \<or> due k et = t \<and> spent k2 et \<and> fired k2 et"
        using o2(3,4) k2(4) top by auto
      ultimately show ?thesis using k2(1,2,3) sub o2(1,2) by simp
    qed
  qed
qed

text \<open>Where the advance of the time from \<open>k\<close> leads.\<close>

definition advanced :: "sc_time \<Rightarrow> 'a kernel_scheme \<Rightarrow> bool \<Rightarrow> sc_time \<Rightarrow> 'a kernel_scheme \<Rightarrow> bool" where
  "advanced until k go t k' \<longleftrightarrow>
    heap_ok k' \<and> due k' = due k \<and> m_curr_time k \<le> m_curr_time k' \<and> m_curr_time k' \<le> until \<and> not_before (m_curr_time k') k' \<and>
    only_cancelled k k' \<and> (\<forall>et \<in># entries k. due k et \<le> m_curr_time k' \<longrightarrow> spent k' et) \<and>
    (if go then runnable_is_empty (m_runnable k') = Inr False \<and> t = m_curr_time k' \<and> (\<forall>et \<in># entries k'. t < due k' et) \<and>
        (\<exists>et \<in># entries k. due k et = t) \<and> (\<forall>et \<in># entries k. due k et = t \<longrightarrow> fired k' et)
     else entries k' = {#} \<or> until < t \<and> not_before t k')"

text \<open>One more round in front.\<close>

lemma advanced_after:
  assumes "advanced until k2 go t k'" and "due k2 = due k" and "m_curr_time k \<le> m_curr_time k2" and "only_cancelled k k2"
    and "\<forall>et \<in># entries k. et \<in># entries k2 \<or> spent k2 et" and "\<forall>et \<in># entries k. et \<in># entries k2 \<or> due k et \<le> m_curr_time k2 \<or> m_event (k_timed k2 et) = None"
    and "\<forall>et \<in># entries k2. m_curr_time k2 < due k2 et" and "entries k2 \<subseteq># entries k"
  shows "advanced until k go t k'"
proof -
  have o: "only_cancelled k2 k'" using assms(1) by (simp add: advanced_def)
  have "spent k' et" if "et \<in># entries k" "due k et \<le> m_curr_time k'" for et
    using that assms(1,2,5) spent_kept [OF _ o] by (auto simp: advanced_def)
  moreover have "fired k' et" if "go" "et \<in># entries k" "due k et = t" for et
  proof (cases "et \<in># entries k2")
    case True
    then show ?thesis using assms(1,2) that by (simp add: advanced_def)
  next
    case False
    have "t = m_curr_time k'" "m_curr_time k2 < t" using assms(1,7) that(1) by (auto simp: advanced_def)
    then have "m_event (k_timed k2 et) = None" using assms(6) that False by auto
    then have "m_event (k_timed k' et) = None" using o unfolding only_cancelled_def by (metis empty_iff insert_iff)
    then show ?thesis by (simp add: fired_def)
  qed
  moreover have "\<exists>et \<in># entries k. due k et = t" if "go" using assms(1,2,8) that by (auto simp: advanced_def dest: mset_subset_eqD)
  ultimately show ?thesis using assms(1-4) o by (auto simp: advanced_def intro: only_cancelled_trans order_trans split: if_splits)
qed

lemma advance_advanced:
  assumes "heap_ok k" and "not_before (m_curr_time k) k" and "m_curr_time k \<le> until"
  shows "\<exists>r. advance until (m_curr_time k) k = Some r \<and> (\<forall>go t k'. r = Inr ((go, t), k') \<longrightarrow> advanced until k go t k')"
  using assms
proof (induction "size (entries k)" arbitrary: k rule: less_induct)
  case less
  obtain nt k1 where n: "next_time k = Inr (nt, k1)" "heap_ok k1" "due k1 = due k" "m_curr_time k1 = m_curr_time k"
    "entries k1 \<subseteq># entries k" "only_cancelled k k1" "only_stamped k k1" "\<forall>et \<in># entries k. et \<in># entries k1 \<or> m_event (k_timed k1 et) = None"
    "case nt of None \<Rightarrow> entries k1 = {#}
      | Some t \<Rightarrow> (\<exists>et \<in># entries k1. due k1 et = t) \<and> not_before t k1" using next_time_heap [OF less(2)] by blast
  have nb: "not_before (m_curr_time k1) k1" using less(3) n(3,4,5) by (auto simp: not_before_def dest: mset_subset_eqD)
  have gone: "et \<in># entries k1 \<or> spent k1 et" if "et \<in># entries k" for et using n(8) that by (auto simp: spent_def)
  show ?case
  proof (cases nt)
    case None
    then have "advance until (m_curr_time k) k = Some (Inr ((False, m_curr_time k), k1))"
      by (subst advance.simps) (simp add: n(1))
    then show ?thesis using n(2-6,9) nb less(4) None gone by (auto simp: advanced_def)
  next
    case (Some t)
    with n(9) have t: "not_before t k1" "\<exists>et \<in># entries k1. due k1 et = t" by simp_all
    then have le: "m_curr_time k1 \<le> t" using nb by (auto simp: not_before_def)
    show ?thesis
    proof (cases "t > until")
      case True
      then have "advance until (m_curr_time k) k = Some (Inr ((False, t), k1))"
        by (subst advance.simps) (simp add: n(1) Some)
      moreover have "spent k1 et" if "et \<in># entries k" "due k et \<le> m_curr_time k1" for et
        using gone [OF that(1)] that(2) t(1) n(3,4) less(4) True by (auto simp: not_before_def)
      ultimately show ?thesis using n(2-6) nb less(4) True t(1) by (auto simp: advanced_def)
    next
      case False
      let ?k = "if t > m_curr_time k1 then k1\<lparr>m_curr_time := t, m_change_stamp := m_change_stamp k1 + 1,
        m_initial_delta_count := m_delta_count k1\<rparr> else k1"
      have s: "(if t > m_curr_time k1 then do_timestep t k1 else Inr k1) = Inr ?k" by (simp add: do_timestep_def)
      have k: "heap_ok ?k" "due ?k = due k1" "m_curr_time ?k = t" "entries ?k = entries k1" "not_before t ?k"
        "only_cancelled k1 ?k"
        using n(2) le t(1) by (auto simp: heap_ok_def due_def entries_def not_before_def fun_eq_iff only_cancelled_def)
      have "\<exists>et \<in># entries ?k. due ?k et = t" using t(2) k(2,4) by simp
      from trigger_timed_heap [OF k(1) this k(5)] obtain r where r: "trigger_timed t ?k = Some r" "\<forall>k'. r = Inr k' \<longrightarrow> heap_ok k' \<and> due k' = due ?k \<and>
        m_curr_time k' = m_curr_time ?k \<and> entries k' \<subset># entries ?k \<and> (\<forall>et \<in># entries k'. t < due k' et) \<and>
        only_cancelled ?k k' \<and> only_stamped ?k k' \<and> (\<forall>et \<in># entries ?k. et \<in># entries k' \<or> due ?k et = t \<and> spent k' et \<and> fired k' et)"
        by blast
      have step: "advance until (m_curr_time k) k = obind (Some r) (\<lambda>k. obind (Some (runnable_is_empty (m_runnable k)))
          (\<lambda>empty. if empty then advance until t k else Some (Inr ((True, t), k))))"
        using False s r(1) by (subst advance.simps) (simp add: n(1) Some)
      show ?thesis
      proof (cases r)
        case (Inl f)
        then show ?thesis by (simp add: step)
      next
        case (Inr k2)
        then have k2: "heap_ok k2" "due k2 = due k1" "m_curr_time k2 = t" "entries k2 \<subset># entries k1" "\<forall>et \<in># entries k2. t < due k2 et"
          "only_cancelled ?k k2" "\<forall>et \<in># entries k1. et \<in># entries k2 \<or> due k1 et = t \<and> spent k2 et \<and> fired k2 et"
          using r(2) [rule_format, OF Inr] unfolding k(2-4) by blast+
        have o: "only_cancelled k1 k2" "only_cancelled k k2" using k(6) k2(6) n(6) by (blast intro: only_cancelled_trans)+
        have nb2: "not_before (m_curr_time k2) k2" "m_curr_time k2 \<le> until" "m_curr_time k \<le> m_curr_time k2"
          using k2(3,5) False le n(4) by (auto simp: not_before_def)
        have none: "m_event (k_timed k2 et) = None" if "m_event (k_timed k1 et) = None" for et
          using o(1) that unfolding only_cancelled_def by (metis empty_iff insert_iff)
        have popped: "et \<in># entries k2 \<or> spent k2 et \<and> fired k2 et \<and> (due k et = t \<or> m_event (k_timed k2 et) = None)"
          if "et \<in># entries k" for et
          using k2(7) n(3,8) none that by (fastforce simp: spent_def fired_def)
        have sub: "entries k2 \<subset># entries k" using subset_mset.less_le_trans [OF k2(4) n(5)] .
        have round: "advanced until k True t k2" if "runnable_is_empty (m_runnable k2) = Inr False"
        proof -
          have "\<exists>et \<in># entries k. due k et = t" using t(2) n(3,5) by (auto dest: mset_subset_eqD)
          moreover have "spent k2 et" if "et \<in># entries k" "due k et \<le> t" for et
            using popped [OF that(1)] k2(2,5) n(3) that(2) by (auto dest: leD)
          moreover have "fired k2 et" if "et \<in># entries k" "due k et = t" for et
            using popped [OF that(1)] k2(2,5) n(3) that(2) by auto
          ultimately show ?thesis using that k2(1,2,3,5) n(3) nb2 o(2) by (simp add: advanced_def)
        qed
        have "size (entries k2) < size (entries k)" using mset_subset_size [OF sub] .
        then obtain r' where r': "advance until (m_curr_time k2) k2 = Some r'" "\<forall>go t k'. r' = Inr ((go, t), k') \<longrightarrow> advanced until k2 go t k'"
          using less(1) [OF _ k2(1) nb2(1,2)] by blast
        have later: "advanced until k go t' k'" if "r' = Inr ((go, t'), k')" for go t' k'
        proof (rule advanced_after [OF _ _ nb2(3) o(2)])
          show "advanced until k2 go t' k'" using r'(2) that by blast
          show "due k2 = due k" using k2(2) n(3) by simp
          show "\<forall>et \<in># entries k. et \<in># entries k2 \<or> spent k2 et" using popped by blast
          show "\<forall>et \<in># entries k. et \<in># entries k2 \<or> due k et \<le> m_curr_time k2 \<or> m_event (k_timed k2 et) = None"
            using popped k2(3) by fastforce
          show "\<forall>et \<in># entries k2. m_curr_time k2 < due k2 et" using k2(3,5) by simp
          show "entries k2 \<subseteq># entries k" using sub by (simp add: subset_mset.less_imp_le)
        qed
        show ?thesis
        proof (cases "runnable_is_empty (m_runnable k2)")
          case (Inl f)
          then show ?thesis by (simp add: step \<open>r = Inr k2\<close>)
        next
          case (Inr empty)
          show ?thesis
          proof (cases empty)
            case True
            then have "advance until (m_curr_time k) k = Some r'" using Inr r'(1) k2(3) by (simp add: step \<open>r = Inr k2\<close>)
            then show ?thesis using later by blast
          next
            case False
            then have "advance until (m_curr_time k) k = Some (Inr ((True, t), k2))"
              using Inr by (simp add: step \<open>r = Inr k2\<close>)
            then show ?thesis using round Inr False by simp
          qed
        qed
      qed
    qed
  qed
qed

text \<open>C12: the advance of the time ends, whatever the triggered processes do to their time-outs.  If
  it does not fail, the time has not gone back and is not beyond \<open>until\<close>, nothing was notified, and no
  notification of a time that has been reached is pending any more.  It was left because processes are runnable, and then all
  notifications that remain are later, and the event of every notification for the new time was triggered in
  this very time step, unless its notification was cancelled; or because nothing is left or
  only notifications beyond \<open>until\<close>.\<close>

theorem time_advances:
  assumes "heap_ok k" and "not_before (m_curr_time k) k" and "m_curr_time k \<le> until"
  shows "\<exists>r. advance until (m_curr_time k) k = Some r \<and> (\<forall>go t k'. r = Inr ((go, t), k') \<longrightarrow>
    heap_ok k' \<and> m_curr_time k \<le> m_curr_time k' \<and> m_curr_time k' \<le> until \<and> not_before (m_curr_time k') k' \<and>
    (\<forall>e. pending k' e \<noteq> Nothing \<longrightarrow> pending k e \<noteq> Nothing) \<and>
    (\<forall>et e. et \<in># entries k \<and> due k et \<le> m_curr_time k' \<and> m_event (k_timed k' et) = Some e \<longrightarrow> pending k' e = Nothing) \<and>
    (if go then runnable_is_empty (m_runnable k') = Inr False \<and> t = m_curr_time k' \<and> (\<forall>et \<in># entries k'. t < due k' et) \<and>
       (\<forall>et e. et \<in># entries k \<and> due k et = t \<and> m_event (k_timed k et) = Some e \<longrightarrow>
          m_event (k_timed k' et) = None \<or> triggered e k')
     else entries k' = {#} \<or> until < t \<and> not_before t k'))"
proof -
  obtain r where r: "advance until (m_curr_time k) k = Some r" "\<forall>go t k'. r = Inr ((go, t), k') \<longrightarrow> advanced until k go t k'"
    using advance_advanced [OF assms] by blast
  show ?thesis
  proof (intro exI [of _ r] conjI [OF r(1)] allI impI)
    fix go t k'
    assume "r = Inr ((go, t), k')"
    then have a: "advanced until k go t k'" using r(2) by blast
    then have o: "m_notify_type (k_event k' e) \<in> {NONE, m_notify_type (k_event k e)}"
      "m_event (k_timed k' et) \<in> {None, m_event (k_timed k et)}" for e et
      by (simp_all add: advanced_def only_cancelled_def)
    have 1: "pending k' e \<noteq> Nothing \<longrightarrow> pending k e \<noteq> Nothing" for e using o(1) [of e] by (auto simp: pending_Nothing)
    have 2: "et \<in># entries k \<and> due k et \<le> m_curr_time k' \<and> m_event (k_timed k' et) = Some e \<longrightarrow> pending k' e = Nothing" for et e
      using a unfolding advanced_def spent_def by blast
    have 3: "et \<in># entries k \<and> due k et = t \<and> m_event (k_timed k et) = Some e \<longrightarrow> m_event (k_timed k' et) = None \<or> triggered e k'"
      if "go" for et e
      using a o(2) [of et] that by (auto simp: advanced_def fired_def)
    have 4: "if go then runnable_is_empty (m_runnable k') = Inr False \<and> t = m_curr_time k' \<and> (\<forall>et \<in># entries k'. t < due k' et) \<and>
         (\<forall>et e. et \<in># entries k \<and> due k et = t \<and> m_event (k_timed k et) = Some e \<longrightarrow>
            m_event (k_timed k' et) = None \<or> triggered e k')
       else entries k' = {#} \<or> until < t \<and> not_before t k'"
      using a 3 by (cases go) (auto simp: advanced_def)
    show "heap_ok k' \<and> m_curr_time k \<le> m_curr_time k' \<and> m_curr_time k' \<le> until \<and> not_before (m_curr_time k') k' \<and>
      (\<forall>e. pending k' e \<noteq> Nothing \<longrightarrow> pending k e \<noteq> Nothing) \<and>
      (\<forall>et e. et \<in># entries k \<and> due k et \<le> m_curr_time k' \<and> m_event (k_timed k' et) = Some e \<longrightarrow> pending k' e = Nothing) \<and>
      (if go then runnable_is_empty (m_runnable k') = Inr False \<and> t = m_curr_time k' \<and> (\<forall>et \<in># entries k'. t < due k' et) \<and>
         (\<forall>et e. et \<in># entries k \<and> due k et = t \<and> m_event (k_timed k et) = Some e \<longrightarrow>
            m_event (k_timed k' et) = None \<or> triggered e k')
       else entries k' = {#} \<or> until < t \<and> not_before t k')"
      using a 1 2 4 unfolding advanced_def by blast
  qed
qed

text \<open>A method that is sensitive to the event 4, which is notified for the time 12.\<close>

definition waiting_method :: kernel where
  "waiting_method = (simcontext_init None SC_STOP_FINISH_DELTA False)
     \<lparr>k_event := (\<lambda>_. sc_event_new)(4 := sc_event_new\<lparr>m_notify_type := TIMED, m_timed := Some 1, m_methods_static := [1]\<rparr>),
      k_timed := (\<lambda>_. \<lparr>m_event = None, m_notify_time = SC_ZERO_TIME\<rparr>)(1 := \<lparr>m_event = Some 4, m_notify_time = 12\<rparr>), k_next_timed := 2,
      m_timed_events := \<lparr>m_heap = [0, 1, 0], m_size_alloc = 2, m_heap_size = 1\<rparr>,
      m_runnable := \<lparr>m_methods = \<lparr>push_head = At 0, push_tail = At 0, pop_head = No_Procs, next_runnable = (\<lambda>_. Null)(0 := No_Procs)\<rparr>,
        m_threads = \<lparr>push_head = At 0, push_tail = At 0, pop_head = No_Procs, next_runnable = (\<lambda>_. Null)(0 := No_Procs)\<rparr>\<rparr>\<rparr>"

definition first_round :: "kernel \<Rightarrow> (sc_time option \<times> kernel \<times> kernel \<times> nat \<times> kernel \<times> kernel) res" where
  "first_round k =
     rbind (next_time k) (\<lambda>(nt, k1). rbind (do_timestep (the nt) k1) (\<lambda>k2. rbind (extract_timed k2) (\<lambda>(et, k3).
       rbind (trigger (the (m_event (k_timed k3 et))) (delete_timed et k3)) (\<lambda>k4. Inr (nt, k1, k2, et, k3, k4)))))"

lemma waiting_method_round:
  "case first_round waiting_method of Inl f \<Rightarrow> False
   | Inr (nt, k1, k2, et, k3, k4) \<Rightarrow> nt = Some 12 \<and> m_curr_time k1 = 0 \<and> m_event (k_timed k3 et) = Some 4 \<and>
       pq_empty (m_timed_events k4) \<and> runnable_is_empty (m_runnable k4) = Inr False \<and> m_event (k_timed k4 1) = Some 4"
  by code_simp

lemma waiting_method_runs:
  obtains k where "advance 20 0 waiting_method = Some (Inr ((True, 12), k))" and "m_event (k_timed k 1) = Some 4"
proof -
  obtain nt k1 k2 et k3 k4 where r: "next_time waiting_method = Inr (nt, k1)" "do_timestep (the nt) k1 = Inr k2"
    "extract_timed k2 = Inr (et, k3)" "trigger (the (m_event (k_timed k3 et))) (delete_timed et k3) = Inr k4"
    and f: "nt = Some 12" "m_curr_time k1 = 0" "m_event (k_timed k3 et) = Some 4" "pq_empty (m_timed_events k4)"
      "runnable_is_empty (m_runnable k4) = Inr False" "m_event (k_timed k4 1) = Some 4"
    using waiting_method_round by (auto simp: first_round_def rbind_eq_Inr split: sum.splits)
  have "trigger_timed 12 k2 = Some (Inr k4)"
    by (subst trigger_timed.simps) (use r(3,4) f(3,4) in \<open>simp add: Let_def\<close>)
  then have "advance 20 0 waiting_method = Some (Inr ((True, 12), k4))"
    by (subst advance.simps) (use r(1,2) f(1,2,5) in \<open>simp add: Let_def\<close>)
  then show ?thesis using that f(6) by blast
qed

lemma waiting_method_clock:
  "heap_ok waiting_method" "m_curr_time waiting_method = 0" "not_before (m_curr_time waiting_method) waiting_method"
  "entries waiting_method = {#1#}" "due waiting_method 1 = 12" "m_event (k_timed waiting_method 1) = Some 4"
proof -
  show e: "entries waiting_method = {#1#}" by (simp add: entries_def waiting_method_def pq_elems_def heap_elems_def)
  show "m_curr_time waiting_method = 0" by (simp add: waiting_method_def simcontext_init_def SC_ZERO_TIME_def)
  then show "not_before (m_curr_time waiting_method) waiting_method" by (simp add: not_before_def)
  show "due waiting_method 1 = 12" "m_event (k_timed waiting_method 1) = Some 4" by (simp_all add: due_def waiting_method_def)
  show "heap_ok waiting_method"
    by (simp add: heap_ok_def timed.pq_inv_def pq_space_def timed.is_heap_def waiting_method_def)
qed

theorem time_advances_witness:
  "\<exists>k'. advance 20 0 waiting_method = Some (Inr ((True, 12), k')) \<and> m_curr_time k' = 12 \<and> triggered 4 k' \<and> pending k' 4 = Nothing"
proof -
  obtain k' where k': "advance 20 0 waiting_method = Some (Inr ((True, 12), k'))" "m_event (k_timed k' 1) = Some 4"
    by (rule waiting_method_runs)
  have "m_curr_time waiting_method \<le> 20" by (simp add: waiting_method_clock(2))
  from time_advances [OF waiting_method_clock(1,3) this] k' waiting_method_clock(2,4-6) show ?thesis
    by (intro exI [of _ k']) auto
qed

end
