(* ===== verification/Sc_Channels.thy ===== *)
theory Sc_Channels
  imports Sc_Delta Sc_Time
begin

text \<open>
  The contracts of the channels: what writing a signal does and when it shows, which writers it
  refuses, and the edges of a clock.
\<close>

section \<open>Signals\<close>

text \<open>What is pending depends on the events and the timed notifications only.\<close>

lemma notify_frame:
  assumes "k_event k' = k_event k" and "k_timed k' = k_timed k" and "k_next_timed k' = k_next_timed k"
    and "m_timed_events k' = m_timed_events k" and "m_delta_storage k' = m_delta_storage k" and "m_delta_size k' = m_delta_size k"
  shows "pending k' = pending k" "notify_inv k \<Longrightarrow> notify_inv k'"
proof -
  show "pending k' = pending k" by (rule ext) (simp add: pending_def assms(1,2) split: notify_t.split)
  assume "notify_inv k"
  then show "notify_inv k'" using assms by (simp add: notify_inv_def delta_ok_def timed_ok_def event_vector_def)
qed

text \<open>The writes of one process to a signal, one after the other.\<close>

definition sig_writes :: "('v \<Rightarrow> 'v \<Rightarrow> bool) \<Rightarrow> nat \<Rightarrow> 'v list \<Rightarrow> ('v, 'a) signals_kernel_scheme \<Rightarrow> ('v, 'a) signals_kernel_scheme res" where
  "sig_writes eq c vs k = res_fold (sig_write eq c) vs k"

text \<open>A process that may write a signal.\<close>

definition may_write :: "nat \<Rightarrow> ('v, 'a) signals_kernel_scheme \<Rightarrow> bool" where
  "may_write c k \<longleftrightarrow> s_policy (k_signal k c) = SC_UNCHECKED_WRITERS \<or> m_current_writer k = None \<or>
     s_writer (k_signal k c) \<in> {None, m_current_writer k}"

text \<open>What writing leaves as it is.\<close>

definition only_written :: "nat \<Rightarrow> ('v, 'a) signals_kernel_scheme \<Rightarrow> ('v, 'a) signals_kernel_scheme \<Rightarrow> bool" where
  "only_written c k k' \<longleftrightarrow>
     k_event k' = k_event k \<and> k_timed k' = k_timed k \<and> k_next_timed k' = k_next_timed k \<and> m_timed_events k' = m_timed_events k \<and>
     m_delta_storage k' = m_delta_storage k \<and> m_delta_size k' = m_delta_size k \<and> m_change_stamp k' = m_change_stamp k \<and>
     m_current_writer k' = m_current_writer k \<and> (\<forall>d. d \<noteq> c \<longrightarrow> k_signal k' d = k_signal k d) \<and>
     s_cur_val (k_signal k' c) = s_cur_val (k_signal k c) \<and> s_change_event (k_signal k' c) = s_change_event (k_signal k c) \<and>
     s_change_stamp (k_signal k' c) = s_change_stamp (k_signal k c) \<and> s_policy (k_signal k' c) = s_policy (k_signal k c)"

definition requested :: "nat \<Rightarrow> ('v, 'a) signals_kernel_scheme \<Rightarrow> bool" where
  "requested c k \<longleftrightarrow> k_update_next k c \<and> c \<in> set (m_update_list k)"

lemma sig_write_spec:
  assumes "may_write c k" and "k_update_next k c \<longleftrightarrow> c \<in> set (m_update_list k)"
  shows "\<exists>k'. sig_write eq c v k = Inr k' \<and> only_written c k k' \<and> may_write c k' \<and> s_new_val (k_signal k' c) = v \<and>
    (requested c k \<or> \<not> eq (s_new_val (k_signal k c)) v \<longrightarrow> requested c k') \<and>
    (k_update_next k' c \<longleftrightarrow> c \<in> set (m_update_list k'))"
proof -
  let ?w = "if s_policy (k_signal k c) \<noteq> SC_UNCHECKED_WRITERS \<and> s_writer (k_signal k c) = None
    then m_current_writer k else s_writer (k_signal k c)"
  let ?k = "upd_signal c (\<lambda>s. s\<lparr>s_writer := ?w, s_new_val := v\<rparr>) k"
  have "rbind (check_write c k) (\<lambda>k. Inr (upd_signal c (\<lambda>s. s\<lparr>s_new_val := v\<rparr>) k)) = Inr ?k"
    using assms(1) by (auto simp: check_write_def upd_signal_def Let_def may_write_def split: option.split)
  then have "sig_write eq c v k =
      Inr (if \<not> eq (s_new_val (k_signal k c)) v \<or> needs_update (k_signal ?k c) then request_update c ?k else ?k)"
    unfolding sig_write_def Let_def by (auto simp: rbind_eq_Inr)
  moreover have "only_written c k (request_update c ?k)" "only_written c k ?k"
    by (simp_all add: only_written_def request_update_def upd_signal_def)
  moreover have "may_write c (request_update c ?k)" "may_write c ?k"
    using assms(1) by (auto simp: may_write_def request_update_def upd_signal_def)
  moreover have "requested c (request_update c ?k)" "requested c k \<Longrightarrow> requested c ?k"
    "s_new_val (k_signal (request_update c ?k) c) = v" "s_new_val (k_signal ?k c) = v"
    "k_update_next (request_update c ?k) c" "c \<in> set (m_update_list (request_update c ?k))"
    "k_update_next ?k c \<longleftrightarrow> c \<in> set (m_update_list ?k)"
    using assms(2) by (simp_all add: requested_def request_update_def upd_signal_def)
  ultimately show ?thesis by auto
qed

lemma only_written_trans: "only_written c k1 k2 \<Longrightarrow> only_written c k2 k3 \<Longrightarrow> only_written c k1 k3"
  by (simp add: only_written_def)

lemma sig_writes_spec:
  assumes "may_write c k" and "k_update_next k c \<longleftrightarrow> c \<in> set (m_update_list k)"
    and "s_new_val (k_signal k c) \<noteq> s_cur_val (k_signal k c) \<Longrightarrow> requested c k"
  shows "\<exists>k'. sig_writes (=) c vs k = Inr k' \<and> only_written c k k' \<and> may_write c k' \<and>
    s_new_val (k_signal k' c) = last (s_new_val (k_signal k c) # vs) \<and>
    (s_new_val (k_signal k' c) \<noteq> s_cur_val (k_signal k' c) \<longrightarrow> requested c k')"
  using assms
proof (induction vs arbitrary: k)
  case Nil
  then show ?case by (simp add: sig_writes_def only_written_def)
next
  case (Cons v vs)
  obtain k1 where 1: "sig_write (=) c v k = Inr k1" "only_written c k k1" "may_write c k1" "s_new_val (k_signal k1 c) = v"
    "requested c k \<or> s_new_val (k_signal k c) \<noteq> v \<longrightarrow> requested c k1" "k_update_next k1 c \<longleftrightarrow> c \<in> set (m_update_list k1)"
    using sig_write_spec [OF Cons.prems(1,2), of "(=)" v] by blast
  have "requested c k1" if "s_new_val (k_signal k1 c) \<noteq> s_cur_val (k_signal k1 c)"
  proof (cases "s_new_val (k_signal k c) = v")
    case True
    then show ?thesis using that 1(2,4,5) Cons.prems(3) by (simp add: only_written_def)
  qed (use 1(5) in blast)
  then obtain k2 where 2: "sig_writes (=) c vs k1 = Inr k2" "only_written c k1 k2" "may_write c k2"
    "s_new_val (k_signal k2 c) = last (s_new_val (k_signal k1 c) # vs)"
    "s_new_val (k_signal k2 c) \<noteq> s_cur_val (k_signal k2 c) \<longrightarrow> requested c k2"
    using Cons.IH [OF 1(3,6)] by blast
  have "sig_writes (=) c (v # vs) k = Inr k2" using 1(1) 2(1) by (simp add: sig_writes_def)
  moreover have "s_new_val (k_signal k2 c) = last (s_new_val (k_signal k c) # v # vs)" using 2(4) 1(4) by simp
  ultimately show ?case using only_written_trans [OF 1(2) 2(2)] 2(3,5) by blast
qed

text \<open>The update of a signal whose change event has nothing pending.\<close>

lemma sig_update_spec:
  assumes "notify_inv k" and "s_change_event (k_signal k c) = Some e" and "pending k e = Nothing"
    and "s_change_stamp (k_signal k c) \<noteq> m_change_stamp k"
  shows "\<exists>k'. sig_update (=) c k = Inr k' \<and> notify_inv k' \<and> sig_read c k' = s_new_val (k_signal k c) \<and>
    pending k' = (if s_new_val (k_signal k c) \<noteq> sig_read c k then (pending k)(e := Next_Delta) else pending k) \<and>
    (sig_event c k' \<longleftrightarrow> s_new_val (k_signal k c) \<noteq> sig_read c k) \<and> (\<forall>d. d \<noteq> c \<longrightarrow> sig_read d k' = sig_read d k)"
proof -
  let ?s = "policy_update (k_signal k c)"
  have s: "s_change_event ?s = Some e" "s_cur_val ?s = s_cur_val (k_signal k c)" "s_new_val ?s = s_new_val (k_signal k c)"
    "s_change_stamp ?s = s_change_stamp (k_signal k c)"
    using assms(2) by (simp_all add: policy_update_def split: writer_policy.split)
  let ?k = "upd_signal c policy_update k"
  have k: "notify_inv ?k" "pending ?k = pending k"
    using notify_frame [of ?k k] assms(1) by (simp_all add: upd_signal_def)
  show ?thesis
  proof (cases "s_new_val (k_signal k c) = s_cur_val (k_signal k c)")
    case True
    then have "sig_update (=) c k = Inr ?k" using s by (simp add: sig_update_def upd_signal_def)
    then show ?thesis using True k s assms(4)
      by (intro exI [of _ ?k]) (simp add: sig_read_def upd_signal_def sig_event_def event_occurred_def)
  next
    case False
    have n: "m_notify_type (k_event ?k e) = NONE" using k(2) assms(3) pending_Nothing [of ?k e] by simp
    let ?k1 = "make_delta e ?k"
    let ?k2 = "upd_signal c (\<lambda>s. s\<lparr>s_change_stamp := m_change_stamp ?k1, s_cur_val := s_new_val s\<rparr>) ?k1"
    have sig: "k_signal ?k1 = k_signal ?k" "m_change_stamp ?k1 = m_change_stamp k"
      by (simp_all add: make_delta_def add_delta_event_def upd_event_def upd_signal_def)
    have "notify_next_delta e ?k = Inr ?k1" using n by (simp add: notify_next_delta_def)
    then have "sig_do_update c ?k = Inr ?k2"
      using s(1) by (simp add: sig_do_update_def channel_do_update_def notify_if_def) (simp add: upd_signal_def)
    moreover have "k_signal ?k c = ?s" by (simp add: upd_signal_def)
    then have "sig_update (=) c k = sig_do_update c ?k" using False s(2,3) unfolding sig_update_def Let_def by simp
    ultimately have "sig_update (=) c k = Inr ?k2" by simp
    moreover have "notify_inv ?k1" "pending ?k1 = (pending k)(e := Next_Delta)"
      using make_delta_refines [OF k(1) n] k(2) by (simp_all add: refines_to_def)
    then have "notify_inv ?k2" "pending ?k2 = (pending k)(e := Next_Delta)"
      using notify_frame [of ?k2 ?k1] by (simp_all add: upd_signal_def)
    moreover have "sig_read c ?k2 = s_new_val (k_signal k c)" "sig_event c ?k2" "\<And>d. d \<noteq> c \<Longrightarrow> sig_read d ?k2 = sig_read d k"
      using s(3) sig by (simp_all add: sig_read_def upd_signal_def sig_event_def event_occurred_def)
    ultimately show ?thesis using False by (intro exI [of _ ?k2]) (simp add: sig_read_def)
  qed
qed

text \<open>C13: a signal changes in the update phase only.  However often a process writes it, readers
  see the old value and nothing is notified; if the last value differs from the old one an update is
  requested.  The update makes that value visible, and notifies the change event, and lets \<open>event\<close>
  be true, exactly if it differs: a glitch that ends at the old value is not seen.  No other signal
  and no other event is touched.\<close>

theorem signal_changes_at_update:
  assumes "notify_inv k" and "may_write c k" and "s_new_val (k_signal k c) = sig_read c k"
    and "k_update_next k c \<longleftrightarrow> c \<in> set (m_update_list k)"
    and "s_change_event (k_signal k c) = Some e" and "pending k e = Nothing" and "s_change_stamp (k_signal k c) \<noteq> m_change_stamp k"
    and "v = last (sig_read c k # vs)"
  shows "\<exists>k1 k2. sig_writes (=) c vs k = Inr k1 \<and> sig_read c k1 = sig_read c k \<and> pending k1 = pending k \<and>
    (v \<noteq> sig_read c k \<longrightarrow> requested c k1) \<and>
    sig_update (=) c k1 = Inr k2 \<and> notify_inv k2 \<and> sig_read c k2 = v \<and>
    pending k2 = (if v \<noteq> sig_read c k then (pending k)(e := Next_Delta) else pending k) \<and>
    (sig_event c k2 \<longleftrightarrow> v \<noteq> sig_read c k) \<and> (\<forall>d. d \<noteq> c \<longrightarrow> sig_read d k2 = sig_read d k)"
proof -
  have new: "s_new_val (k_signal k c) \<noteq> s_cur_val (k_signal k c) \<Longrightarrow> requested c k" using assms(3) by (simp add: sig_read_def)
  obtain k1 where 1: "sig_writes (=) c vs k = Inr k1" "only_written c k k1" "s_new_val (k_signal k1 c) = v"
    "s_new_val (k_signal k1 c) \<noteq> s_cur_val (k_signal k1 c) \<longrightarrow> requested c k1"
    using sig_writes_spec [OF assms(2,4) new, of vs] assms(3,8) by auto
  have p: "pending k1 = pending k" "notify_inv k1" using 1(2) notify_frame [of k1 k] assms(1) by (simp_all add: only_written_def)
  have r: "sig_read d k1 = sig_read d k" for d using 1(2) by (cases "d = c") (simp_all add: only_written_def sig_read_def)
  have e: "s_change_event (k_signal k1 c) = Some e" "s_change_stamp (k_signal k1 c) \<noteq> m_change_stamp k1"
    using 1(2) assms(5,7) by (simp_all add: only_written_def)
  have "pending k1 e = Nothing" using p(1) assms(6) by simp
  from sig_update_spec [OF p(2) e(1) this e(2)]
  obtain k2 where 2: "sig_update (=) c k1 = Inr k2" "notify_inv k2" "sig_read c k2 = v"
    "pending k2 = (if v \<noteq> sig_read c k then (pending k)(e := Next_Delta) else pending k)"
    "sig_event c k2 \<longleftrightarrow> v \<noteq> sig_read c k" "\<forall>d. d \<noteq> c \<longrightarrow> sig_read d k2 = sig_read d k"
    unfolding 1(3) p(1) r by blast
  have "v \<noteq> sig_read c k \<longrightarrow> requested c k1" using 1(3,4) r [of c] by (simp add: sig_read_def)
  with 1(1) p(1) r [of c] 2 show ?thesis by blast
qed

text \<open>A kernel with signals, in the state after \<open>init\<close>; the change event of the signal 2 is 5.\<close>

definition quiet_signals :: "nat signals_kernel" where
  "quiet_signals = upd_signal 2 (\<lambda>s. s\<lparr>s_change_event := Some 5\<rparr>)
     (kernel.extend (simcontext_init None SC_STOP_FINISH_DELTA False)
       (signals_kernel.fields (\<lambda>c. sc_signal_new SC_ONE_WRITER (10 * c) (simcontext_init None SC_STOP_FINISH_DELTA False))))"

lemma extend_inv: "notify_inv (kernel.extend k m) \<longleftrightarrow> notify_inv k" "pending (kernel.extend k m) = pending k"
proof -
  show "notify_inv (kernel.extend k m) \<longleftrightarrow> notify_inv k"
    by (simp add: notify_inv_def delta_ok_def timed_ok_def event_vector_def kernel.extend_def)
  show "pending (kernel.extend k m) = pending k"
    by (rule ext) (simp add: pending_def kernel.extend_def split: notify_t.split)
qed

lemma quiet_signals_facts:
  "notify_inv quiet_signals" "pending quiet_signals = (\<lambda>_. Nothing)" "may_write 2 quiet_signals"
  "k_update_next quiet_signals 2 \<longleftrightarrow> 2 \<in> set (m_update_list quiet_signals)"
  "s_change_event (k_signal quiet_signals 2) = Some 5" "s_change_stamp (k_signal quiet_signals 2) \<noteq> m_change_stamp quiet_signals"
  "sig_read 2 quiet_signals = 20" "s_new_val (k_signal quiet_signals 2) = sig_read 2 quiet_signals"
proof -
  let ?k = "kernel.extend (simcontext_init None SC_STOP_FINISH_DELTA False)
    (signals_kernel.fields (\<lambda>c. sc_signal_new SC_ONE_WRITER (10 * c) (simcontext_init None SC_STOP_FINISH_DELTA False)))"
  have q: "quiet_signals = upd_signal 2 (\<lambda>s. s\<lparr>s_change_event := Some 5\<rparr>) ?k" by (simp add: quiet_signals_def)
  have "notify_inv ?k" by (simp only: extend_inv simcontext_init_inv)
  moreover have "pending ?k = (\<lambda>_. Nothing)"
    unfolding extend_inv by (simp add: fun_eq_iff pending_Nothing simcontext_init_def sc_event_new_def)
  ultimately show "notify_inv quiet_signals" "pending quiet_signals = (\<lambda>_. Nothing)"
    using notify_frame [of quiet_signals ?k] by (simp_all add: q upd_signal_def)
  show "may_write 2 quiet_signals" "k_update_next quiet_signals 2 \<longleftrightarrow> 2 \<in> set (m_update_list quiet_signals)"
    "s_change_event (k_signal quiet_signals 2) = Some 5" "s_change_stamp (k_signal quiet_signals 2) \<noteq> m_change_stamp quiet_signals"
    "sig_read 2 quiet_signals = 20" "s_new_val (k_signal quiet_signals 2) = sig_read 2 quiet_signals"
    by (simp_all add: quiet_signals_def upd_signal_def may_write_def sig_read_def sc_signal_new_def simcontext_init_def
        kernel.extend_def signals_kernel.fields_def)
qed

theorem signal_changes_at_update_witness:
  "\<exists>k1 k2. sig_writes (=) 2 [7, 8] quiet_signals = Inr k1 \<and> sig_read 2 k1 = 20 \<and> requested 2 k1 \<and>
     sig_update (=) 2 k1 = Inr k2 \<and> sig_read 2 k2 = 8 \<and> pending k2 5 = Next_Delta"
proof -
  note q = quiet_signals_facts
  have "pending quiet_signals 5 = Nothing" by (simp add: q(2))
  from signal_changes_at_update [OF q(1,3,8,4,5) this q(6) refl, of "[7, 8]"]
  show ?thesis by (auto simp: q(2,7))
qed

text \<open>The writer check.  Once a process has written a signal with a checking policy, the write of
  any other process of the same delta cycle is refused with an error and no write of the first one is;
  the update forgets the writer of a signal for many writers, and of one for one writer only if the
  conflict check of a delta cycle was asked for, so that otherwise the second writer is refused for
  ever.  Without checks nothing is refused.\<close>

theorem second_writer_is_refused:
  assumes "s_writer (k_signal k c) = Some w" and "m_current_writer k = Some w'"
  shows "(sig_write eq c v k = Inl MultipleDrivers \<longleftrightarrow> w' \<noteq> w \<and> s_policy (k_signal k c) \<noteq> SC_UNCHECKED_WRITERS) \<and>
    (w' = w \<or> s_policy (k_signal k c) = SC_UNCHECKED_WRITERS \<longrightarrow> (\<exists>k'. sig_write eq c v k = Inr k')) \<and>
    s_writer (policy_update (k_signal k c)) =
      (if s_policy (k_signal k c) = SC_MANY_WRITERS \<or>
          s_policy (k_signal k c) = SC_ONE_WRITER \<and> s_delta_only (k_signal k c) then None else Some w)"
  using assms by (auto simp: sig_write_def check_write_def Let_def policy_update_def split: writer_policy.split)

definition driven_signal :: "nat signals_kernel" where
  "driven_signal = upd_signal 2 (\<lambda>s. s\<lparr>s_writer := Some (Method 1)\<rparr>) (set_curr_proc (Thread 1) quiet_signals)"

theorem second_writer_is_refused_witness:
  "sig_write (=) 2 5 driven_signal = Inl MultipleDrivers \<and> s_writer (policy_update (k_signal driven_signal 2)) = Some (Method 1)"
proof -
  have "s_writer (k_signal driven_signal 2) = Some (Method 1)" "m_current_writer driven_signal = Some (Thread 1)"
    "s_policy (k_signal driven_signal 2) = SC_ONE_WRITER" "\<not> s_delta_only (k_signal driven_signal 2)"
    by (simp_all add: driven_signal_def upd_signal_def set_curr_proc_def quiet_signals_def sc_signal_new_def simcontext_init_def
        kernel.extend_def signals_kernel.fields_def)
  then show ?thesis using second_writer_is_refused [of driven_signal 2 "Method 1" "Thread 1" "(=)" 5] by simp
qed

section \<open>The clock\<close>

lemma notify_internal_refines:
  assumes "notify_inv k" and "pending k e = Nothing"
  shows "refines_to k (notify_internal e t k)
    ((pending k)(e := (if t = 0 then Next_Delta else At_Time (m_curr_time k + t))))"
  using make_delta_refines [OF assms(1)] make_timed_refines [OF assms(1)] assms(2)
  by (simp add: notify_internal_def SC_ZERO_TIME_def pending_Nothing)

lemma notify_internal_rest [simp]:
  "m_update_list (notify_internal e t k) = m_update_list k" "k_update_next (notify_internal e t k) = k_update_next k"
  by (simp_all add: notify_internal_def make_delta_def add_delta_event_def make_timed_def new_timed_def add_timed_event_def
      upd_event_def)

text \<open>The high phase: the duty cycle's share of the period, to one of the two neighbouring units of
  time.\<close>

lemma sc_time_mul_share:
  assumes "unat t < 2 ^ 52" and "D < DOUBLE_ONE"
  obtains r where "sc_time_mul t (DNum False D) = Inr r" and "unat t * D div DOUBLE_ONE \<le> unat r"
    and "unat r \<le> unat t * D div DOUBLE_ONE + 1" and "unat r \<le> unat t"
proof -
  obtain m where m: "double_add (double_mul (DNum False (unat t * DOUBLE_ONE)) (DNum False D)) double_half = DNum False m"
    "unat t * D div DOUBLE_ONE \<le> m div DOUBLE_ONE" "m div DOUBLE_ONE \<le> unat t * D div DOUBLE_ONE + 1" "m div DOUBLE_ONE \<le> unat t"
    using scale_near [OF assms] by metis
  have t: "uint64_to_double t = DNum False (unat t * DOUBLE_ONE)" by (rule uint64_to_double_exact) (use assms(1) in simp)
  have b: "m div DOUBLE_ONE < 2 ^ 52" using m(4) assms(1) by linarith
  then have "sc_time_mul t (DNum False D) = Inr (word_of_int (int (m div DOUBLE_ONE)))"
    unfolding sc_time_mul_def t m(1) by (simp add: dsigned_def Let_def)
  moreover have "unat (word_of_int (int (m div DOUBLE_ONE)) :: 64 word) = m div DOUBLE_ONE"
    using b by (simp add: unsigned_of_nat take_bit_nat_eq_self)
  ultimately show ?thesis using that [of "word_of_int (int (m div DOUBLE_ONE))"] m(2,3,4) by simp
qed

lemma sc_time_mul_half:
  assumes "unat t < 2 ^ 52"
  obtains r where "sc_time_mul t double_half = Inr r" and "unat r = (unat t + 1) div 2"
proof -
  have t: "uint64_to_double t = DNum False (unat t * DOUBLE_ONE)" by (rule uint64_to_double_exact) (use assms in simp)
  have d: "(unat t + 1) * 2 ^ 1073 div DOUBLE_ONE = (unat t + 1) div 2"
    unfolding half_unit [symmetric] by (subst mult.commute, subst mult.commute [of 2]) (rule div_mult_mult1, simp)
  then have "sc_time_mul t double_half = Inr (word_of_int (int ((unat t + 1) div 2)))"
    unfolding sc_time_mul_def t scale_half [OF assms] int64_of_double.simps d using assms by (simp add: dsigned_def Let_def)
  moreover have "unat (word_of_int (int ((unat t + 1) div 2)) :: 64 word) = (unat t + 1) div 2"
    using assms by (simp add: unsigned_of_nat take_bit_nat_eq_self)
  ultimately show ?thesis using that by blast
qed

lemma clock_duty_cycle_cases:
  obtains "clock_duty_cycle d = DNaN" | D where "clock_duty_cycle d = DNum False D" and "0 < D" and "D < DOUBLE_ONE"
proof (cases "double_le d double_zero \<or> double_le double_one d")
  case True
  have "(2::nat) ^ 1073 < 2 ^ 1074" by (rule power_strict_increasing) simp_all
  with True show ?thesis by (intro that(2) [of "2 ^ 1073"]) (simp_all add: clock_duty_cycle_def double_half_def DOUBLE_ONE_def)
next
  case False
  show ?thesis
  proof (cases d)
    case DNaN
    then show ?thesis using False by (intro that(1)) (simp add: clock_duty_cycle_def)
  next
    case (DInf s)
    then show ?thesis using False by (cases s) (simp_all add: double_zero_def double_one_def)
  next
    case (DNum s n)
    then have "\<not> s" "0 < n" "n < DOUBLE_ONE"
      using False by (cases s; simp add: double_zero_def double_one_def dsigned_def)+
    then show ?thesis using False DNum by (intro that(2) [of n]) (simp_all add: clock_duty_cycle_def)
  qed
qed

text \<open>An action of the clock: the next edge is notified, and the update of the signal requested.\<close>

lemma edge_action:
  assumes "notify_inv k" and "pending k e = Nothing" and "t \<noteq> 0" and "k_update_next k c \<longleftrightarrow> c \<in> set (m_update_list k)"
    and "k' = request_update c (upd_signal c (\<lambda>s. s\<lparr>s_new_val := b\<rparr>) (notify_internal e t k))"
  shows "notify_inv k' \<and> pending k' = (pending k)(e := At_Time (m_curr_time k + t)) \<and> requested c k' \<and> s_new_val (k_signal k' c) = b"
proof -
  have "notify_inv (notify_internal e t k)" "pending (notify_internal e t k) = (pending k)(e := At_Time (m_curr_time k + t))"
    using notify_internal_refines [OF assms(1,2), of t] assms(3) by (simp_all add: refines_to_def)
  then show ?thesis using notify_frame [of k' "notify_internal e t k"] assms(4)
    by (simp add: assms(5) request_update_def upd_signal_def requested_def)
qed

text \<open>C14: the clock.  A clock of any duty cycle whose period is below \<open>2\<^sup>5\<^sup>2\<close> units of time and that is accepted splits its
  period into a high phase and a low phase of at least one unit each.  The high phase is the share of
  the period the duty cycle asks for, rounded to one of the two neighbouring units (one half, rounded up, where the
  duty cycle given is not between zero and one); the clock starts at the level opposite to its first edge,
  with only that edge notified, for its start time.  Whenever neither edge is notified, each
  action raises or lowers the signal with the next update and notifies the opposite edge one
  phase later, so the edges alternate and rising edges are one period apart.\<close>

theorem clock_edges_alternate:
  assumes "clock_new c pos neg period duty start first k0 = Inr (cl, k1)" and "unat period < 2 ^ 52" and "notify_inv k0"
    and "pending k0 pos = Nothing" and "pending k0 neg = Nothing"
    and "notify_inv k" and "pending k pos = Nothing" and "pending k neg = Nothing" and "k_update_next k c \<longleftrightarrow> c \<in> set (m_update_list k)"
  shows "(\<exists>D. cl_duty_cycle cl = DNum False D \<and> 0 < D \<and> D < DOUBLE_ONE \<and> (duty = DNum False D \<or> cl_duty_cycle cl = double_half) \<and>
      unat period * D div DOUBLE_ONE \<le> unat (cl_negedge_time cl) \<and> unat (cl_negedge_time cl) \<le> unat period * D div DOUBLE_ONE + 1) \<and>
    (cl_duty_cycle cl = double_half \<longrightarrow> unat (cl_negedge_time cl) = (unat period + 1) div 2) \<and>
    unat (cl_negedge_time cl) + unat (cl_posedge_time cl) = unat period \<and>
    0 < cl_negedge_time cl \<and> 0 < cl_posedge_time cl \<and>
    sig_read c k1 = (\<not> first) \<and> notify_inv k1 \<and>
    pending k1 = (pending k0)((if first then pos else neg) := (if start = 0 then Next_Delta else At_Time (m_curr_time k0 + start))) \<and>
    notify_inv (posedge_action cl k) \<and> pending (posedge_action cl k) = (pending k)(neg := At_Time (m_curr_time k + cl_negedge_time cl)) \<and>
    requested c (posedge_action cl k) \<and> s_new_val (k_signal (posedge_action cl k) c) \<and>
    notify_inv (negedge_action cl k) \<and> pending (negedge_action cl k) = (pending k)(pos := At_Time (m_curr_time k + cl_posedge_time cl)) \<and>
    requested c (negedge_action cl k) \<and> \<not> s_new_val (k_signal (negedge_action cl k) c)"
proof -
  let ?first = "if first then pos else neg" and ?d = "clock_duty_cycle duty"
  let ?k = "upd_signal c (\<lambda>s. s\<lparr>s_cur_val := \<not> first, s_new_val := \<not> first\<rparr>) (upd_signal c (\<lambda>_. sc_signal_new SC_ONE_WRITER False k0) k0)"
  obtain n where mul: "sc_time_mul period ?d = Inr n" and n: "n \<noteq> 0" "period - n \<noteq> 0"
    and cl: "cl = \<lparr>cl_signal = c, cl_period = period, cl_duty_cycle = ?d, cl_start_time = start, cl_posedge_first = first,
      cl_posedge_time = period - n, cl_negedge_time = n, cl_next_posedge_event = pos, cl_next_negedge_event = neg\<rparr>"
    and k1: "k1 = notify_internal ?first start ?k"
    using assms(1) by (auto simp: clock_new_def clock_init_def rbind_eq_Inr Let_def SC_ZERO_TIME_def sc_time_sub_def split: if_splits)
  have k: "notify_inv ?k" "pending ?k = pending k0" "m_curr_time ?k = m_curr_time k0"
    using notify_frame [of ?k k0] assms(3) by (simp_all add: upd_signal_def)
  have "pending ?k ?first = Nothing" using assms(4,5) k(2) by simp
  then have 1: "notify_inv k1" "pending k1 = (pending k0)(?first := (if start = 0 then Next_Delta else At_Time (m_curr_time k0 + start)))"
    using notify_internal_refines [OF k(1), of ?first start] unfolding k1 refines_to_def k(2,3) by blast+
  have "k_signal k1 = k_signal ?k" unfolding k1
    by (simp add: notify_internal_def make_delta_def add_delta_event_def make_timed_def new_timed_def add_timed_event_def upd_event_def)
  then have sr: "sig_read c k1 = (\<not> first)" by (simp add: sig_read_def upd_signal_def)
  have "posedge_action cl k = request_update c (upd_signal c (\<lambda>s. s\<lparr>s_new_val := True\<rparr>) (notify_internal neg (cl_negedge_time cl) k))"
    "negedge_action cl k = request_update c (upd_signal c (\<lambda>s. s\<lparr>s_new_val := False\<rparr>) (notify_internal pos (cl_posedge_time cl) k))"
    by (simp_all add: cl posedge_action_def negedge_action_def)
  note pa = edge_action [OF assms(6,8) _ assms(9) this(1)] and na = edge_action [OF assms(6,7) _ assms(9) this(2)]
  have t: "cl_negedge_time cl \<noteq> 0" "cl_posedge_time cl \<noteq> 0" using n by (simp_all add: cl)
  obtain D where D: "?d = DNum False D" "0 < D" "D < DOUBLE_ONE"
    using mul by (cases rule: clock_duty_cycle_cases [of duty]) (auto simp: sc_time_mul_def double_half_def)
  have share: "unat period * D div DOUBLE_ONE \<le> unat n" "unat n \<le> unat period * D div DOUBLE_ONE + 1" "unat n \<le> unat period"
    using sc_time_mul_share [OF assms(2) D(3)] mul D(1) by (metis sum.inject(2))+
  have half: "?d = double_half \<Longrightarrow> unat n = (unat period + 1) div 2"
    using sc_time_mul_half [OF assms(2)] mul by (metis sum.inject(2))
  have "unat n + unat (period - n) = unat period" using share(3) by (simp add: unat_sub word_le_nat_alt)
  moreover have "duty = DNum False D \<or> ?d = double_half" using D(1) by (auto simp: clock_duty_cycle_def split: if_splits)
  ultimately have "(\<exists>D. cl_duty_cycle cl = DNum False D \<and> 0 < D \<and> D < DOUBLE_ONE \<and> (duty = DNum False D \<or> cl_duty_cycle cl = double_half) \<and>
      unat period * D div DOUBLE_ONE \<le> unat (cl_negedge_time cl) \<and> unat (cl_negedge_time cl) \<le> unat period * D div DOUBLE_ONE + 1)"
    "cl_duty_cycle cl = double_half \<longrightarrow> unat (cl_negedge_time cl) = (unat period + 1) div 2"
    "unat (cl_negedge_time cl) + unat (cl_posedge_time cl) = unat period"
    using D share half by (simp_all add: cl)
  moreover have "0 < cl_negedge_time cl" "0 < cl_posedge_time cl" using t by (simp_all add: word_gt_0)
  ultimately show ?thesis using pa [OF t(1)] na [OF t(2)] 1 sr by blast
qed

definition clock_kernel :: "bool signals_kernel" where
  "clock_kernel = kernel.extend (simcontext_init None SC_STOP_FINISH_DELTA False)
     (signals_kernel.fields (\<lambda>c. sc_signal_new SC_ONE_WRITER False (simcontext_init None SC_STOP_FINISH_DELTA False)))"

theorem clock_edges_alternate_witness:
  "\<exists>cl k1. clock_new 0 10 11 7 double_one 0 True clock_kernel = Inr (cl, k1) \<and> unat (cl_negedge_time cl) = 4 \<and> unat (cl_posedge_time cl) = 3 \<and>
     \<not> sig_read 0 k1 \<and> pending k1 = (\<lambda>_. Nothing)(10 := Next_Delta) \<and>
     pending (posedge_action cl clock_kernel) = (\<lambda>_. Nothing)(11 := At_Time 4)"
proof -
  have inv: "notify_inv clock_kernel" by (simp only: clock_kernel_def extend_inv simcontext_init_inv)
  have p: "pending clock_kernel = (\<lambda>_. Nothing)"
    unfolding clock_kernel_def extend_inv by (simp add: fun_eq_iff pending_Nothing simcontext_init_def sc_event_new_def)
  have u: "k_update_next clock_kernel 0 \<longleftrightarrow> 0 \<in> set (m_update_list clock_kernel)" "m_curr_time clock_kernel = 0"
    by (simp_all add: clock_kernel_def kernel.extend_def simcontext_init_def SC_ZERO_TIME_def)
  have duty: "clock_duty_cycle double_one = double_half" by (simp add: clock_duty_cycle_def double_one_def double_zero_def)
  obtain r where r: "sc_time_mul 7 double_half = Inr r" "unat r = 4" using sc_time_mul_half [of 7] by auto
  then have "r = 4" by (simp add: word_unat_eq_iff)
  then obtain cl k1 where c: "clock_new 0 10 11 7 double_one 0 True clock_kernel = Inr (cl, k1)" "cl_negedge_time cl = 4"
    using r(1) by (auto simp: clock_new_def clock_init_def duty Let_def SC_ZERO_TIME_def sc_time_sub_def)
  have "pending clock_kernel 10 = Nothing" "pending clock_kernel 11 = Nothing" by (simp_all add: p)
  from clock_edges_alternate [OF c(1) _ inv this inv this u(1)] c show ?thesis
    by (intro exI [of _ cl] exI [of _ k1]) (simp add: p u(2))
qed

end
