(* ===== verification/Sc_Ids.thy ===== *)
theory Sc_Ids
  imports Prelude
begin

text \<open>
  The message identifiers of \<open>sc_communication_ids.h\<close>, \<open>sc_kernel_ids.h\<close> and \<open>sc_int_ids.h\<close> that the modelled
  channels, ports, registries and numbers report: an identifier is the text of its message.
\<close>

definition SC_ID_PORT_OUTSIDE_MODULE :: string where
  "SC_ID_PORT_OUTSIDE_MODULE = ''port specified outside of module''"

definition SC_ID_MORE_THAN_ONE_FIFO_READER :: string where
  "SC_ID_MORE_THAN_ONE_FIFO_READER = ''sc_fifo<T> cannot have more than one reader''"

definition SC_ID_MORE_THAN_ONE_FIFO_WRITER :: string where
  "SC_ID_MORE_THAN_ONE_FIFO_WRITER = ''sc_fifo<T> cannot have more than one writer''"

definition SC_ID_INVALID_FIFO_SIZE :: string where
  "SC_ID_INVALID_FIFO_SIZE = ''sc_fifo<T> must have a size of at least 1''"

definition SC_ID_BIND_IF_TO_PORT :: string where
  "SC_ID_BIND_IF_TO_PORT = ''bind interface to port failed''"

definition SC_ID_BIND_PORT_TO_PORT :: string where
  "SC_ID_BIND_PORT_TO_PORT = ''bind parent port to port failed''"

definition SC_ID_COMPLETE_BINDING :: string where
  "SC_ID_COMPLETE_BINDING = ''complete binding failed''"

definition SC_ID_INSERT_PORT :: string where
  "SC_ID_INSERT_PORT = ''insert port failed''"

definition SC_ID_REMOVE_PORT :: string where
  "SC_ID_REMOVE_PORT = ''remove port failed''"

definition SC_ID_GET_IF :: string where
  "SC_ID_GET_IF = ''get interface failed''"

definition SC_ID_INVALID_SEMAPHORE_VALUE :: string where
  "SC_ID_INVALID_SEMAPHORE_VALUE = ''sc_semaphore requires an initial value >= 0''"

definition SC_ID_WAIT_NOT_ALLOWED :: string where
  "SC_ID_WAIT_NOT_ALLOWED = ''wait() is only allowed in SC_THREADs and SC_CTHREADs''"

definition SC_ID_NEXT_TRIGGER_NOT_ALLOWED :: string where
  "SC_ID_NEXT_TRIGGER_NOT_ALLOWED = ''next_trigger() is only allowed in SC_METHODs''"

definition SC_ID_EVENT_LIST_FAILED :: string where
  "SC_ID_EVENT_LIST_FAILED = ''invalid use of sc_(and|or)_event_list''"

definition SC_ID_CONVERSION_FAILED :: string where
  "SC_ID_CONVERSION_FAILED = ''conversion failed''"

definition SC_ID_INIT_FAILED :: string where
  "SC_ID_INIT_FAILED = ''initialization failed''"

definition SC_ID_OPERATION_FAILED :: string where
  "SC_ID_OPERATION_FAILED = ''operation failed''"

definition SC_ID_GEN_UNIQUE_NAME :: string where
  "SC_ID_GEN_UNIQUE_NAME = ''cannot generate unique name from null string''"

definition SC_ID_MODULE_NAME_STACK_EMPTY :: string where
  "SC_ID_MODULE_NAME_STACK_EMPTY = ''module name stack is empty: did you forget to add a sc_module_name parameter to your module constructor?''"

definition SC_ID_SC_MODULE_NAME_REQUIRED :: string where
  "SC_ID_SC_MODULE_NAME_REQUIRED = ''an sc_module_name parameter for your constructor is required''"

definition SC_ID_SC_MODULE_NAME_USE :: string where
  "SC_ID_SC_MODULE_NAME_USE = ''incorrect use of sc_module_name''"

definition SC_ID_INSERT_MODULE :: string where
  "SC_ID_INSERT_MODULE = ''insert module failed''"

definition SC_ID_REMOVE_MODULE :: string where
  "SC_ID_REMOVE_MODULE = ''remove module failed''"

end
