(* ===== verification/Sc_Wait.thy ===== *)
theory Sc_Wait
  imports Sc_Trigger Sc_Ids
begin

text \<open>
  \<open>sysc/kernel/sc_wait.cpp\<close>: the functions \<open>wait\<close> and \<open>next_trigger\<close> that a process body and a channel call.
  They act on the process that runs, and refuse the wrong kind of process and the
  empty list of events.  The forms that are deprecated for clocked threads (a wait followed by a wait for
  the clock) are not modelled.
\<close>

definition wait_list :: "wait_for \<Rightarrow> nat list option" where
  "wait_list w = (case w of
     For_Any el \<Rightarrow> Some el | For_All el \<Rightarrow> Some el | For_Time_Any _ el \<Rightarrow> Some el | For_Time_All _ el \<Rightarrow> Some el
   | _ \<Rightarrow> None)"

definition sc_wait_static :: "'a kernel_scheme \<Rightarrow> 'a kernel_scheme res" where
  "sc_wait_static k = (case m_curr_proc k of
     Some (Thread t) \<Rightarrow> wait_cycles t 1 k | _ \<Rightarrow> Inl (ReportError SC_ID_WAIT_NOT_ALLOWED))"

definition sc_wait :: "wait_for \<Rightarrow> 'a kernel_scheme \<Rightarrow> 'a kernel_scheme res" where
  "sc_wait w k =
     (if wait_list w = Some [] then Inl (ReportError SC_ID_EVENT_LIST_FAILED)
      else case m_curr_proc k of
        Some (Thread t) \<Rightarrow> Inr (thread_wait t w k) | _ \<Rightarrow> Inl (ReportError SC_ID_WAIT_NOT_ALLOWED))"

definition sc_next_trigger_static :: "'a kernel_scheme \<Rightarrow> 'a kernel_scheme res" where
  "sc_next_trigger_static k = (case m_curr_proc k of
     Some (Method m) \<Rightarrow> clear_trigger (Method m) k | _ \<Rightarrow> Inl (ReportError SC_ID_NEXT_TRIGGER_NOT_ALLOWED))"

definition sc_next_trigger :: "wait_for \<Rightarrow> 'a kernel_scheme \<Rightarrow> 'a kernel_scheme res" where
  "sc_next_trigger w k =
     (if wait_list w = Some [] then Inl (ReportError SC_ID_EVENT_LIST_FAILED)
      else case m_curr_proc k of
        Some (Method m) \<Rightarrow> next_trigger m w k | _ \<Rightarrow> Inl (ReportError SC_ID_NEXT_TRIGGER_NOT_ALLOWED))"

lemma sc_wait_event: "m_curr_proc k = Some (Thread t) \<Longrightarrow> sc_wait (For_Event e) k = Inr (thread_wait t (For_Event e) k)"
  by (simp add: sc_wait_def wait_list_def)

end
