(* ===== verification/Sc_Fifo.thy ===== *)
theory Sc_Fifo
  imports Sc_Channels Sc_Wait
begin

text \<open>
  \<open>sysc/communication/sc_fifo.h\<close>: the bounded channel.  The state of the fifos is added to the
  kernel; \<open>dflt\<close> is the value \<open>T()\<close> of the element type.  The blocking forms are one pass of
  their loop: the result \<open>None\<close> is the suspension in \<open>wait\<close>, after which the thread makes the next pass.
  The operations are followed by the abstract queue they implement.
\<close>

section \<open>State\<close>

record 'v sc_fifo =
  f_size :: int
  f_buf :: "'v list"
  f_free :: int
  f_ri :: int
  f_wi :: int
  f_reader :: "nat option"
  f_writer :: "nat option"
  f_num_readable :: int
  f_num_read :: int
  f_num_written :: int
  f_read_event :: nat
  f_written_event :: nat

record 'v fifo_kernel = kernel +
  k_fifo :: "nat \<Rightarrow> 'v sc_fifo"

definition upd_fifo :: "nat \<Rightarrow> ('v sc_fifo \<Rightarrow> 'v sc_fifo) \<Rightarrow> ('v, 'a) fifo_kernel_scheme \<Rightarrow> ('v, 'a) fifo_kernel_scheme" where
  "upd_fifo c f k = k\<lparr>k_fifo := (k_fifo k)(c := f (k_fifo k c))\<rparr>"

section \<open>The buffer\<close>

definition fifo_init :: "'v \<Rightarrow> nat \<Rightarrow> nat \<Rightarrow> int \<Rightarrow> 'v sc_fifo res" where
  "fifo_init dflt re we sz =
     (if sz \<le> 0 then Inl (ReportError SC_ID_INVALID_FIFO_SIZE)
      else Inr \<lparr>f_size = sz, f_buf = replicate (nat sz) dflt, f_free = sz, f_ri = 0, f_wi = 0, f_reader = None, f_writer = None,
        f_num_readable = 0, f_num_read = 0, f_num_written = 0, f_read_event = re, f_written_event = we\<rparr>)"

definition buf_write :: "'v \<Rightarrow> 'v sc_fifo \<Rightarrow> (bool \<times> 'v sc_fifo) res" where
  "buf_write v f =
     (if f_free f = 0 then Inr (False, f)
      else if 0 \<le> f_wi f \<and> f_wi f < int (length (f_buf f)) then
        Inr (True, f\<lparr>f_buf := (f_buf f)[nat (f_wi f) := v], f_wi := (f_wi f + 1) mod f_size f, f_free := f_free f - 1\<rparr>)
      else Inl OutOfBounds)"

definition buf_read :: "'v \<Rightarrow> 'v sc_fifo \<Rightarrow> ('v option \<times> 'v sc_fifo) res" where
  "buf_read dflt f =
     (if f_free f = f_size f then Inr (None, f)
      else if 0 \<le> f_ri f \<and> f_ri f < int (length (f_buf f)) then
        Inr (Some (f_buf f ! nat (f_ri f)),
          f\<lparr>f_buf := (f_buf f)[nat (f_ri f) := dflt], f_ri := (f_ri f + 1) mod f_size f, f_free := f_free f + 1\<rparr>)
      else Inl OutOfBounds)"

text \<open>The loop of \<open>print\<close> and \<open>dump\<close>, from the index \<open>i\<close>.\<close>

partial_function (option) print_loop :: "'v sc_fifo \<Rightarrow> int \<Rightarrow> 'v list option" where
  "print_loop f i =
     (let j = (i + 1) mod f_size f in
      if j \<noteq> f_wi f then Option.bind (print_loop f j) (\<lambda>vs. Some (f_buf f ! nat i # vs))
      else Some [f_buf f ! nat i])"

definition fifo_print :: "'v sc_fifo \<Rightarrow> 'v list option" where
  "fifo_print f = (if f_free f \<noteq> f_size f then print_loop f (f_ri f) else Some [])"

section \<open>Ports\<close>

text \<open>The type name of the interface of a port that is bound to the channel.\<close>

datatype fifo_if = Fifo_In_If | Fifo_Blocking_In_If | Fifo_Out_If | Fifo_Blocking_Out_If | Other_If

definition fifo_register_port :: "nat \<Rightarrow> nat \<Rightarrow> fifo_if \<Rightarrow> ('v, 'a) fifo_kernel_scheme \<Rightarrow> ('v, 'a) fifo_kernel_scheme res" where
  "fifo_register_port c p nm k =
     (if nm = Fifo_In_If \<or> nm = Fifo_Blocking_In_If then
        if f_reader (k_fifo k c) \<noteq> None then Inl (ReportError SC_ID_MORE_THAN_ONE_FIFO_READER)
        else Inr (upd_fifo c (\<lambda>f. f\<lparr>f_reader := Some p\<rparr>) k)
      else if nm = Fifo_Out_If \<or> nm = Fifo_Blocking_Out_If then
        if f_writer (k_fifo k c) \<noteq> None then Inl (ReportError SC_ID_MORE_THAN_ONE_FIFO_WRITER)
        else Inr (upd_fifo c (\<lambda>f. f\<lparr>f_writer := Some p\<rparr>) k)
      else Inl (ReportError SC_ID_BIND_IF_TO_PORT))"

section \<open>Reading and writing\<close>

definition num_available :: "'v sc_fifo \<Rightarrow> int" where
  "num_available f = f_num_readable f - f_num_read f"

definition num_free :: "'v sc_fifo \<Rightarrow> int" where
  "num_free f = f_size f - f_num_readable f - f_num_written f"

definition nb_read :: "'v \<Rightarrow> nat \<Rightarrow> ('v, 'a) fifo_kernel_scheme \<Rightarrow> ('v option \<times> ('v, 'a) fifo_kernel_scheme) res" where
  "nb_read dflt c k =
     (if num_available (k_fifo k c) = 0 then Inr (None, k)
      else rbind (buf_read dflt (k_fifo k c)) (\<lambda>(r, f). case r of
          None \<Rightarrow> Inr (None, upd_fifo c (\<lambda>_. f) k)
        | Some v \<Rightarrow> Inr (Some v, request_update c (upd_fifo c (\<lambda>_. f\<lparr>f_num_read := f_num_read f + 1\<rparr>) k))))"

definition nb_write :: "nat \<Rightarrow> 'v \<Rightarrow> ('v, 'a) fifo_kernel_scheme \<Rightarrow> (bool \<times> ('v, 'a) fifo_kernel_scheme) res" where
  "nb_write c v k =
     (if num_free (k_fifo k c) = 0 then Inr (False, k)
      else rbind (buf_write v (k_fifo k c)) (\<lambda>(b, f).
        if b then Inr (True, request_update c (upd_fifo c (\<lambda>_. f\<lparr>f_num_written := f_num_written f + 1\<rparr>) k))
        else Inr (False, upd_fifo c (\<lambda>_. f) k)))"

definition fifo_read :: "'v \<Rightarrow> nat \<Rightarrow> ('v, 'a) fifo_kernel_scheme \<Rightarrow> ('v option \<times> ('v, 'a) fifo_kernel_scheme) res" where
  "fifo_read dflt c k =
     (if num_available (k_fifo k c) = 0 then rbind (sc_wait (For_Event (f_written_event (k_fifo k c))) k) (\<lambda>k. Inr (None, k))
      else rbind (nb_read dflt c k) (\<lambda>(r, k). case r of None \<Rightarrow> Inl AssertFailed | Some v \<Rightarrow> Inr (Some v, k)))"

definition fifo_write :: "nat \<Rightarrow> 'v \<Rightarrow> ('v, 'a) fifo_kernel_scheme \<Rightarrow> (bool \<times> ('v, 'a) fifo_kernel_scheme) res" where
  "fifo_write c v k =
     (if num_free (k_fifo k c) = 0 then rbind (sc_wait (For_Event (f_read_event (k_fifo k c))) k) (\<lambda>k. Inr (False, k))
      else rbind (nb_write c v k) (\<lambda>(b, k). if b then Inr (True, k) else Inl AssertFailed))"

definition fifo_update :: "nat \<Rightarrow> ('v, 'a) fifo_kernel_scheme \<Rightarrow> ('v, 'a) fifo_kernel_scheme res" where
  "fifo_update c k =
     rbind (if f_num_read (k_fifo k c) > 0 then notify_at (f_read_event (k_fifo k c)) SC_ZERO_TIME k else Inr k) (\<lambda>k.
     rbind (if f_num_written (k_fifo k c) > 0 then notify_at (f_written_event (k_fifo k c)) SC_ZERO_TIME k else Inr k) (\<lambda>k.
     Inr (upd_fifo c (\<lambda>f. f\<lparr>f_num_readable := f_size f - f_free f, f_num_read := 0, f_num_written := 0\<rparr>) k)))"

section \<open>The abstract queue\<close>

text \<open>The buffer holds the list \<open>xs\<close>.\<close>

definition buf_holds :: "'v sc_fifo \<Rightarrow> 'v list \<Rightarrow> bool" where
  "buf_holds f xs \<longleftrightarrow> 0 < f_size f \<and> int (length (f_buf f)) = f_size f \<and> 0 \<le> f_ri f \<and> f_ri f < f_size f \<and>
     f_free f = f_size f - int (length xs) \<and> int (length xs) \<le> f_size f \<and>
     f_wi f = (f_ri f + int (length xs)) mod f_size f \<and>
     (\<forall>i < length xs. f_buf f ! nat ((f_ri f + int i) mod f_size f) = xs ! i)"

lemma mod_offset_inj:
  fixes a :: int
  assumes "0 \<le> i" and "i < n" and "0 \<le> j" and "j < n" and "(a + i) mod n = (a + j) mod n"
  shows "i = j"
proof -
  have "i mod n = j mod n" using assms(5) by (metis add_left_cancel mod_add_cong minus_add_cancel)
  then show ?thesis using assms(1-4) by simp
qed

lemma buf_write_holds:
  assumes "buf_holds f xs" and "int (length xs) < f_size f"
  shows "\<exists>f'. buf_write v f = Inr (True, f') \<and> buf_holds f' (xs @ [v]) \<and>
    f' = f\<lparr>f_buf := f_buf f', f_wi := f_wi f', f_free := f_free f'\<rparr>"
proof -
  let ?n = "f_size f" and ?w = "nat (f_wi f)"
  let ?f = "f\<lparr>f_buf := (f_buf f)[?w := v], f_wi := (f_wi f + 1) mod ?n, f_free := f_free f - 1\<rparr>"
  have n: "0 < ?n" "f_wi f = (f_ri f + int (length xs)) mod ?n" using assms(1) by (simp_all add: buf_holds_def)
  then have w: "0 \<le> f_wi f" "f_wi f < ?n" by simp_all
  then have cell: "?w < length (f_buf f)" using assms(1) by (simp add: buf_holds_def nat_less_iff)
  have "f_buf ?f ! nat ((f_ri f + int i) mod ?n) = (xs @ [v]) ! i" if "i < length (xs @ [v])" for i
  proof (cases "i = length xs")
    case True
    then show ?thesis using cell by (simp flip: n(2))
  next
    case False
    then have "i < length xs" using that by simp
    moreover have "(f_ri f + int i) mod ?n \<noteq> f_wi f"
    proof
      assume "(f_ri f + int i) mod ?n = f_wi f"
      then have "(f_ri f + int i) mod ?n = (f_ri f + int (length xs)) mod ?n" by (simp only: n(2))
      then have "int i = int (length xs)" by (rule mod_offset_inj [rotated 4]) (use that assms(2) in simp_all)
      then show False using False by simp
    qed
    then have "nat ((f_ri f + int i) mod ?n) \<noteq> ?w" using w n(1) by (simp add: nat_eq_iff2)
    ultimately show ?thesis using assms(1) by (simp add: buf_holds_def nth_append)
  qed
  moreover have "(f_wi f + 1) mod ?n = (f_ri f + int (length (xs @ [v]))) mod ?n" unfolding n(2) by (simp add: mod_simps ac_simps)
  ultimately have "buf_holds ?f (xs @ [v])" using assms by (simp add: buf_holds_def)
  moreover have "buf_write v f = Inr (True, ?f)" using assms w by (simp add: buf_write_def buf_holds_def)
  ultimately show ?thesis by (intro exI [of _ ?f]) simp
qed

lemma buf_read_holds:
  assumes "buf_holds f (x # xs)"
  shows "\<exists>f'. buf_read dflt f = Inr (Some x, f') \<and> buf_holds f' xs \<and>
    f' = f\<lparr>f_buf := f_buf f', f_ri := f_ri f', f_free := f_free f'\<rparr>"
proof -
  let ?n = "f_size f" and ?r = "nat (f_ri f)"
  let ?f = "f\<lparr>f_buf := (f_buf f)[?r := dflt], f_ri := (f_ri f + 1) mod ?n, f_free := f_free f + 1\<rparr>"
  have n: "0 < ?n" "0 \<le> f_ri f" "f_ri f < ?n" "int (length xs) + 1 \<le> ?n" using assms by (simp_all add: buf_holds_def)
  have cells: "f_buf f ! nat ((f_ri f + int i) mod ?n) = (x # xs) ! i" if "i < length (x # xs)" for i
    using assms that unfolding buf_holds_def by blast
  have "f_buf f ! ?r = x" using cells [of 0] n by simp
  moreover have "f_buf ?f ! nat (((f_ri f + 1) mod ?n + int i) mod ?n) = xs ! i" if "i < length xs" for i
  proof -
    have "((f_ri f + 1) mod ?n + int i) mod ?n = (f_ri f + int (Suc i)) mod ?n" by (simp add: mod_simps ac_simps)
    moreover have "(f_ri f + int (Suc i)) mod ?n \<noteq> f_ri f"
    proof
      assume "(f_ri f + int (Suc i)) mod ?n = f_ri f"
      then have "(f_ri f + int (Suc i)) mod ?n = (f_ri f + 0) mod ?n" using n(2,3) by simp
      then have "int (Suc i) = 0" by (rule mod_offset_inj [rotated 4]) (use that n in simp_all)
      then show False by simp
    qed
    then have "nat ((f_ri f + int (Suc i)) mod ?n) \<noteq> ?r" using n by (simp add: nat_eq_iff2)
    ultimately show ?thesis using cells [of "Suc i"] that by simp
  qed
  moreover have "f_wi f = ((f_ri f + 1) mod ?n + int (length xs)) mod ?n"
    using assms by (simp add: buf_holds_def mod_simps add.assoc)
  ultimately have "buf_holds ?f xs" "buf_read dflt f = Inr (Some x, ?f)"
    using assms by (auto simp: buf_holds_def buf_read_def)
  then show ?thesis by (intro exI [of _ ?f]) simp
qed

text \<open>\<open>print\<close> ends and shows the values from the oldest to the newest one.\<close>

lemma print_loop_holds:
  assumes "buf_holds f xs" and "i < length xs"
  shows "print_loop f ((f_ri f + int i) mod f_size f) = Some (drop i xs)"
  using assms(2)
proof (induction "length xs - i" arbitrary: i)
  case (Suc n)
  let ?n = "f_size f" and ?i = "(f_ri f + int i) mod f_size f"
  have f: "0 < ?n" "f_wi f = (f_ri f + int (length xs)) mod ?n" "int (length xs) \<le> ?n"
    using assms(1) by (simp_all add: buf_holds_def)
  have at: "f_buf f ! nat ?i = xs ! i" using assms(1) Suc.prems by (simp add: buf_holds_def)
  have j: "(?i + 1) mod ?n = (f_ri f + int (Suc i)) mod ?n" by (simp add: mod_simps ac_simps)
  show ?case
  proof (cases "Suc i = length xs")
    case True
    then have "drop i xs = [xs ! i]" by (metis Cons_nth_drop_Suc Suc.prems drop_all order_refl)
    then show ?thesis using f(2) True by (subst print_loop.simps) (simp add: Let_def at j del: of_nat_Suc)
  next
    case False
    have "(f_ri f + int (Suc i)) mod ?n \<noteq> f_wi f"
    proof
      assume "(f_ri f + int (Suc i)) mod ?n = f_wi f"
      then have "(f_ri f + int (Suc i)) mod ?n = (f_ri f + int (length xs)) mod ?n" by (simp only: f(2))
      moreover have "\<bar>int (Suc i) - int (length xs)\<bar> < ?n" using Suc.prems f(3) by simp
      ultimately have "int (Suc i) - int (length xs) = 0"
        using f(1) by (metis add_diff_cancel_left abs_of_pos dvd_imp_le_int mod_eq_dvd_iff not_less)
      then show False using False by simp
    qed
    moreover have "print_loop f ((f_ri f + int (Suc i)) mod ?n) = Some (drop (Suc i) xs)"
      by (rule Suc.hyps(1)) (use Suc False in simp_all)
    ultimately show ?thesis using Suc.prems
      by (subst print_loop.simps) (simp add: Let_def at j Cons_nth_drop_Suc del: of_nat_Suc)
  qed
qed simp

lemma fifo_print_holds:
  assumes "buf_holds f xs"
  shows "fifo_print f = Some xs"
proof (cases xs)
  case (Cons x ys)
  then have "f_free f \<noteq> f_size f" using assms by (simp add: buf_holds_def)
  moreover have "(f_ri f + int 0) mod f_size f = f_ri f" using assms by (simp add: buf_holds_def)
  ultimately show ?thesis using print_loop_holds [OF assms, of 0] Cons by (simp add: fifo_print_def)
qed (use assms in \<open>simp add: buf_holds_def fifo_print_def\<close>)

section \<open>The specification: a bounded queue\<close>

text \<open>The accesses of the processes and the update of the channel, as a sequence of operations.\<close>

datatype 'v fifo_op = Fifo_Write 'v | Fifo_Read | Fifo_Update

datatype 'v fifo_answer = Written bool | Got "'v option" | Updated

definition fifo_step :: "'v \<Rightarrow> nat \<Rightarrow> 'v fifo_op \<Rightarrow> ('v, 'a) fifo_kernel_scheme \<Rightarrow> ('v fifo_answer \<times> ('v, 'a) fifo_kernel_scheme) res" where
  "fifo_step dflt c op k = (case op of
     Fifo_Write v \<Rightarrow> rbind (nb_write c v k) (\<lambda>(b, k). Inr (Written b, k))
   | Fifo_Read \<Rightarrow> rbind (nb_read dflt c k) (\<lambda>(r, k). Inr (Got r, k))
   | Fifo_Update \<Rightarrow> rbind (fifo_update c k) (\<lambda>k. Inr (Updated, k)))"

fun fifo_run :: "'v \<Rightarrow> nat \<Rightarrow> 'v fifo_op list \<Rightarrow> ('v, 'a) fifo_kernel_scheme \<Rightarrow> ('v fifo_answer list \<times> ('v, 'a) fifo_kernel_scheme) res" where
  "fifo_run dflt c [] k = Inr ([], k)"
| "fifo_run dflt c (op # ops) k = rbind (fifo_step dflt c op k) (\<lambda>(a, k).
     rbind (fifo_run dflt c ops k) (\<lambda>(as, k). Inr (a # as, k)))"

text \<open>The abstract state: the values that can be read, the values written since the last update, and
  how many places were given up since then.\<close>

record 'v fifo_queue =
  q_visible :: "'v list"
  q_fresh :: "'v list"
  q_used :: nat

definition queue_room :: "int \<Rightarrow> 'v fifo_queue \<Rightarrow> bool" where
  "queue_room n q \<longleftrightarrow> int (length (q_visible q) + length (q_fresh q) + q_used q) < n"

definition queue_step :: "int \<Rightarrow> 'v fifo_op \<Rightarrow> 'v fifo_queue \<Rightarrow> 'v fifo_answer \<times> 'v fifo_queue" where
  "queue_step n op q = (case op of
     Fifo_Write v \<Rightarrow> (if queue_room n q then (Written True, q\<lparr>q_fresh := q_fresh q @ [v]\<rparr>) else (Written False, q))
   | Fifo_Read \<Rightarrow> (case q_visible q of
        [] \<Rightarrow> (Got None, q)
      | v # vs \<Rightarrow> (Got (Some v), q\<lparr>q_visible := vs, q_used := q_used q + 1\<rparr>))
   | Fifo_Update \<Rightarrow> (Updated, \<lparr>q_visible = q_visible q @ q_fresh q, q_fresh = [], q_used = 0\<rparr>))"

fun queue_run :: "int \<Rightarrow> 'v fifo_op list \<Rightarrow> 'v fifo_queue \<Rightarrow> 'v fifo_answer list \<times> 'v fifo_queue" where
  "queue_run n [] q = ([], q)"
| "queue_run n (op # ops) q = (let (a, q) = queue_step n op q; (as, q) = queue_run n ops q in (a # as, q))"

definition implements :: "'v sc_fifo \<Rightarrow> 'v fifo_queue \<Rightarrow> bool" where
  "implements f q \<longleftrightarrow> buf_holds f (q_visible q @ q_fresh q) \<and>
     f_num_readable f = int (length (q_visible q) + q_used q) \<and> f_num_read f = int (q_used q) \<and>
     f_num_written f = int (length (q_fresh q)) \<and> int (length (q_visible q) + length (q_fresh q) + q_used q) \<le> f_size f"

lemma fifo_init_implements:
  "0 < n \<Longrightarrow> \<exists>f. fifo_init dflt re we n = Inr f \<and> f_size f = n \<and> f_read_event f = re \<and> f_written_event f = we \<and>
     implements f \<lparr>q_visible = [], q_fresh = [], q_used = 0\<rparr>"
  by (auto simp: fifo_init_def implements_def buf_holds_def)

text \<open>A kernel in which the fifo \<open>c\<close> implements a queue.\<close>

definition fifo_ok :: "nat \<Rightarrow> 'v fifo_queue \<Rightarrow> ('v, 'a) fifo_kernel_scheme \<Rightarrow> bool" where
  "fifo_ok c q k \<longleftrightarrow> notify_inv k \<and> implements (k_fifo k c) q"

lemma fifo_ok_accessed:
  assumes "fifo_ok c q k" and "implements f q'"
  shows "fifo_ok c q' (request_update c (upd_fifo c (\<lambda>_. f) k))"
  using assms notify_frame [of "request_update c (upd_fifo c (\<lambda>_. f) k)" k]
  by (simp add: fifo_ok_def request_update_def upd_fifo_def)

lemma nb_write_step:
  assumes "fifo_ok c q k"
  shows "\<exists>k'. fifo_step dflt c (Fifo_Write v) k = Inr (fst (queue_step (f_size (k_fifo k c)) (Fifo_Write v) q), k') \<and>
    fifo_ok c (snd (queue_step (f_size (k_fifo k c)) (Fifo_Write v) q)) k' \<and> f_size (k_fifo k' c) = f_size (k_fifo k c)"
proof -
  let ?f = "k_fifo k c"
  have i: "implements ?f q" using assms by (simp add: fifo_ok_def)
  have free: "num_free ?f \<noteq> 0 \<longleftrightarrow> queue_room (f_size ?f) q"
    using i by (auto simp: implements_def num_free_def queue_room_def)
  show ?thesis
  proof (cases "queue_room (f_size ?f) q")
    case True
    have "int (length (q_visible q @ q_fresh q)) < f_size ?f" using True by (simp add: queue_room_def)
    then obtain f where f: "buf_write v ?f = Inr (True, f)" "buf_holds f ((q_visible q @ q_fresh q) @ [v])"
      "f = ?f\<lparr>f_buf := f_buf f, f_wi := f_wi f, f_free := f_free f\<rparr>"
      using buf_write_holds [of ?f "q_visible q @ q_fresh q" v] i by (auto simp: implements_def)
    let ?g = "f\<lparr>f_num_written := f_num_written f + 1\<rparr>"
    have s: "f_size f = f_size ?f" "f_num_readable f = f_num_readable ?f" "f_num_read f = f_num_read ?f"
      "f_num_written f = f_num_written ?f" by (subst f(3), simp)+
    then have "implements ?g (q\<lparr>q_fresh := q_fresh q @ [v]\<rparr>)"
      using i True f(2) by (simp add: implements_def queue_room_def buf_holds_def)
    from fifo_ok_accessed [OF assms this] show ?thesis
      using True free f(1) s(1) by (simp add: fifo_step_def nb_write_def queue_step_def upd_fifo_def request_update_def)
  qed (use assms free in \<open>simp add: fifo_step_def nb_write_def queue_step_def\<close>)
qed

lemma nb_read_step:
  assumes "fifo_ok c q k"
  shows "\<exists>k'. fifo_step dflt c Fifo_Read k = Inr (fst (queue_step (f_size (k_fifo k c)) Fifo_Read q), k') \<and>
    fifo_ok c (snd (queue_step (f_size (k_fifo k c)) Fifo_Read q)) k' \<and> f_size (k_fifo k' c) = f_size (k_fifo k c)"
proof -
  let ?f = "k_fifo k c"
  have i: "implements ?f q" using assms by (simp add: fifo_ok_def)
  have av: "num_available ?f = int (length (q_visible q))" using i by (simp add: implements_def num_available_def)
  show ?thesis
  proof (cases "q_visible q")
    case (Cons x xs)
    obtain f where f: "buf_read dflt ?f = Inr (Some x, f)" "buf_holds f (xs @ q_fresh q)"
      "f = ?f\<lparr>f_buf := f_buf f, f_ri := f_ri f, f_free := f_free f\<rparr>"
      using buf_read_holds [of ?f x "xs @ q_fresh q" dflt] i Cons by (auto simp: implements_def)
    let ?g = "f\<lparr>f_num_read := f_num_read f + 1\<rparr>"
    have s: "f_size f = f_size ?f" "f_num_readable f = f_num_readable ?f" "f_num_read f = f_num_read ?f"
      "f_num_written f = f_num_written ?f" by (subst f(3), simp)+
    then have "implements ?g (q\<lparr>q_visible := xs, q_used := q_used q + 1\<rparr>)"
      using i Cons f(2) by (simp add: implements_def buf_holds_def)
    from fifo_ok_accessed [OF assms this] show ?thesis
      using Cons av f(1) s(1) by (simp add: fifo_step_def nb_read_def queue_step_def upd_fifo_def request_update_def)
  qed (use assms av in \<open>simp add: fifo_step_def nb_read_def queue_step_def\<close>)
qed

text \<open>The notifications of an update leave the fifos alone.\<close>

lemma notify_zero_if:
  assumes "notify_inv k"
  shows "\<exists>k'. (if b then notify_at e SC_ZERO_TIME k else Inr k) = Inr k' \<and> notify_inv k' \<and> k_fifo k' = k_fifo k \<and>
    pending k' = (if b then (pending k)(e := Next_Delta) else pending k)"
proof (cases b)
  case True
  obtain k' where k': "notify_at e SC_ZERO_TIME k = Inr k'"
    "refines_to k k' ((pending k)(e := notify_rule (m_curr_time k) SC_ZERO_TIME (pending k e)))"
    using notify_at_refines [OF assms] by blast
  have "notify_rule (m_curr_time k) SC_ZERO_TIME (pending k e) = Next_Delta"
    by (simp add: notify_rule_cases SC_ZERO_TIME_def split: pending.split)
  moreover have "same_rest k k'" using k'(2) by (simp add: refines_to_def)
  then obtain ev tm n st sz q where "k' = k\<lparr>k_event := ev, k_timed := tm, k_next_timed := n,
     m_delta_storage := st, m_delta_size := sz, m_timed_events := q\<rparr>" unfolding same_rest_def by blast
  then have "k_fifo k' = k_fifo k" by simp
  ultimately show ?thesis using True k' by (simp add: refines_to_def)
qed (use assms in simp)

definition update_wakes :: "'v sc_fifo \<Rightarrow> 'v fifo_queue \<Rightarrow> (nat \<Rightarrow> pending) \<Rightarrow> nat \<Rightarrow> pending" where
  "update_wakes f q p e =
     (if e = f_read_event f \<and> 0 < q_used q \<or> e = f_written_event f \<and> q_fresh q \<noteq> [] then Next_Delta else p e)"

lemma fifo_update_spec:
  assumes "fifo_ok c q k"
  shows "\<exists>k'. fifo_update c k = Inr k' \<and> fifo_ok c (snd (queue_step (f_size (k_fifo k c)) Fifo_Update q)) k' \<and>
    f_size (k_fifo k' c) = f_size (k_fifo k c) \<and> pending k' = update_wakes (k_fifo k c) q (pending k)"
proof -
  let ?f = "k_fifo k c"
  have i: "implements ?f q" and inv: "notify_inv k" using assms by (simp_all add: fifo_ok_def)
  have n: "f_num_read ?f > 0 \<longleftrightarrow> 0 < q_used q" "f_num_written ?f > 0 \<longleftrightarrow> q_fresh q \<noteq> []"
    using i by (simp_all add: implements_def)
  obtain k1 where 1: "(if f_num_read ?f > 0 then notify_at (f_read_event ?f) SC_ZERO_TIME k else Inr k) = Inr k1"
    "notify_inv k1" "k_fifo k1 = k_fifo k"
    "pending k1 = (if 0 < q_used q then (pending k)(f_read_event ?f := Next_Delta) else pending k)"
    using notify_zero_if [OF inv, of "f_num_read ?f > 0" "f_read_event ?f"] unfolding n by blast
  obtain k2 where 2: "(if f_num_written ?f > 0 then notify_at (f_written_event ?f) SC_ZERO_TIME k1 else Inr k1) = Inr k2"
    "notify_inv k2" "k_fifo k2 = k_fifo k"
    "pending k2 = (if q_fresh q \<noteq> [] then (pending k1)(f_written_event ?f := Next_Delta) else pending k1)"
    using notify_zero_if [OF 1(2), of "f_num_written ?f > 0" "f_written_event ?f"] unfolding n 1(3) by blast
  let ?k = "upd_fifo c (\<lambda>f. f\<lparr>f_num_readable := f_size f - f_free f, f_num_read := 0, f_num_written := 0\<rparr>) k2"
  have "fifo_update c k = Inr ?k" unfolding fifo_update_def 1(1) rbind_Inr 1(3) 2(1) ..
  moreover have "notify_inv ?k" "pending ?k = pending k2" using notify_frame [of ?k k2] 2(2) by (simp_all add: upd_fifo_def)
  moreover have "implements (k_fifo ?k c) (snd (queue_step (f_size ?f) Fifo_Update q))"
    using i 2(3) by (simp add: implements_def buf_holds_def upd_fifo_def queue_step_def)
  moreover have "pending k2 = update_wakes ?f q (pending k)" by (rule ext) (simp add: 1(4) 2(4) update_wakes_def)
  ultimately show ?thesis using 2(3) by (intro exI [of _ ?k]) (simp add: fifo_ok_def upd_fifo_def)
qed

lemma fifo_step_refines:
  assumes "fifo_ok c q k"
  shows "\<exists>k'. fifo_step dflt c op k = Inr (fst (queue_step (f_size (k_fifo k c)) op q), k') \<and>
    fifo_ok c (snd (queue_step (f_size (k_fifo k c)) op q)) k' \<and> f_size (k_fifo k' c) = f_size (k_fifo k c)"
proof (cases op)
  case Fifo_Update
  then show ?thesis using fifo_update_spec [OF assms] by (auto simp: fifo_step_def queue_step_def)
qed (use nb_write_step [OF assms] nb_read_step [OF assms] in simp_all)

lemma fifo_run_refines:
  assumes "fifo_ok c q k"
  shows "\<exists>k'. fifo_run dflt c ops k = Inr (fst (queue_run (f_size (k_fifo k c)) ops q), k') \<and>
    fifo_ok c (snd (queue_run (f_size (k_fifo k c)) ops q)) k'"
  using assms
proof (induction ops arbitrary: q k)
  case (Cons op ops)
  let ?n = "f_size (k_fifo k c)"
  obtain k1 where 1: "fifo_step dflt c op k = Inr (fst (queue_step ?n op q), k1)" "fifo_ok c (snd (queue_step ?n op q)) k1"
    "f_size (k_fifo k1 c) = ?n" using fifo_step_refines [OF Cons.prems] by blast
  then show ?case using Cons.IH [OF 1(2)] by (auto simp: split_beta)
qed simp

lemma fifo_ok_print: "fifo_ok c q k \<Longrightarrow> fifo_print (k_fifo k c) = Some (q_visible q @ q_fresh q)"
  by (auto simp: fifo_ok_def implements_def intro: fifo_print_holds)

text \<open>C15: a fifo is a bounded queue.  Whatever non-blocking reads, writes and updates come in whatever
  order, none of them fails, and the answers are those of the queue: a write is accepted as long as the
  values in the buffer and the places given up since the last update leave room, a read gets the oldest
  value of those that were written before the last update.  The buffer holds the
  visible values followed by the fresh ones.\<close>

theorem fifo_refines_bounded_queue:
  assumes "fifo_ok c q k" and "queue_run (f_size (k_fifo k c)) ops q = (as, q')"
  shows "\<exists>k'. fifo_run dflt c ops k = Inr (as, k') \<and> fifo_ok c q' k' \<and>
    fifo_print (k_fifo k' c) = Some (q_visible q' @ q_fresh q')"
  using fifo_run_refines [OF assms(1), of dflt ops] fifo_ok_print unfolding assms(2) by fastforce

text \<open>A fifo of two places in the kernel after \<open>init\<close>.\<close>

definition two_places :: "nat fifo_kernel" where
  "two_places = kernel.extend (simcontext_init None SC_STOP_FINISH_DELTA False)
     (fifo_kernel.fields (\<lambda>_. projr (fifo_init 0 10 11 2)))"

definition empty_queue :: "'v fifo_queue" where
  "empty_queue = \<lparr>q_visible = [], q_fresh = [], q_used = 0\<rparr>"

lemma two_places_ok: "fifo_ok 1 empty_queue two_places" "f_size (k_fifo two_places 1) = 2"
proof -
  have f: "k_fifo two_places 1 = projr (fifo_init 0 10 11 2)" by (simp add: two_places_def kernel.extend_def fifo_kernel.fields_def)
  have "notify_inv two_places" by (simp only: two_places_def extend_inv simcontext_init_inv)
  then show "fifo_ok 1 empty_queue two_places" "f_size (k_fifo two_places 1) = 2"
    using fifo_init_implements [of 2 "0 :: nat" 10 11] f by (auto simp: fifo_ok_def empty_queue_def)
qed

theorem fifo_refines_bounded_queue_witness:
  "\<exists>k'. fifo_run 0 1 [Fifo_Write 7, Fifo_Read, Fifo_Write 8, Fifo_Write 9, Fifo_Update, Fifo_Read, Fifo_Write 5] two_places =
       Inr ([Written True, Got None, Written True, Written False, Updated, Got (Some 7), Written False], k') \<and>
     fifo_print (k_fifo k' 1) = Some [8 :: nat]"
proof -
  let ?ops = "[Fifo_Write 7, Fifo_Read, Fifo_Write 8, Fifo_Write 9, Fifo_Update, Fifo_Read, Fifo_Write (5 :: nat)]"
  have "queue_run (f_size (k_fifo two_places 1)) ?ops empty_queue =
      ([Written True, Got None, Written True, Written False, Updated, Got (Some 7), Written False],
       \<lparr>q_visible = [8], q_fresh = [], q_used = 1\<rparr>)"
    unfolding two_places_ok(2) by (simp add: queue_step_def queue_room_def empty_queue_def)
  from fifo_refines_bounded_queue [OF two_places_ok(1) this] show ?thesis by auto
qed

section \<open>Order\<close>

text \<open>The values that were accepted and those that were delivered, by the answers to the operations.\<close>

fun accepted :: "'v fifo_op list \<Rightarrow> 'v fifo_answer list \<Rightarrow> 'v list" where
  "accepted (Fifo_Write v # ops) (Written True # as) = v # accepted ops as"
| "accepted (_ # ops) (_ # as) = accepted ops as"
| "accepted _ _ = []"

fun delivered :: "'v fifo_answer list \<Rightarrow> 'v list" where
  "delivered (Got (Some v) # as) = v # delivered as"
| "delivered (_ # as) = delivered as"
| "delivered [] = []"

lemma queue_run_order:
  assumes "queue_run n ops q = (as, q')"
  shows "delivered as @ q_visible q' @ q_fresh q' = q_visible q @ q_fresh q @ accepted ops as"
  using assms
proof (induction ops arbitrary: q as)
  case (Cons op ops)
  obtain a q1 where 1: "queue_step n op q = (a, q1)" by fastforce
  obtain as1 where 2: "queue_run n ops q1 = (as1, q')" "as = a # as1" using Cons.prems 1 by (auto split: prod.splits)
  note ih = Cons.IH [OF 2(1)]
  show ?case
  proof (cases op)
    case (Fifo_Write v)
    then show ?thesis using 1 2(2) ih by (auto simp: queue_step_def split: if_splits)
  next
    case Fifo_Read
    then show ?thesis using 1 2(2) ih by (auto simp: queue_step_def split: list.splits)
  next
    case Fifo_Update
    then show ?thesis using 1 2(2) ih by (auto simp: queue_step_def)
  qed
qed simp

text \<open>A fifo loses, repeats and reorders nothing.  What was in the buffer followed by the values
  accepted since, is what was delivered followed by what is in the buffer.\<close>

theorem fifo_keeps_order:
  assumes "fifo_ok c q k" and "fifo_run dflt c ops k = Inr (as, k')"
  shows "\<exists>xs ys. fifo_print (k_fifo k c) = Some xs \<and> fifo_print (k_fifo k' c) = Some ys \<and>
    delivered as @ ys = xs @ accepted ops as \<and> int (length ys) \<le> f_size (k_fifo k' c)"
proof -
  let ?r = "queue_run (f_size (k_fifo k c)) ops q"
  have r: "as = fst ?r" "fifo_ok c (snd ?r) k'" using fifo_run_refines [OF assms(1), of dflt ops] assms(2) by auto
  have "?r = (as, snd ?r)" by (simp add: r(1))
  from queue_run_order [OF this] show ?thesis
    using fifo_ok_print [OF assms(1)] fifo_ok_print [OF r(2)] r(2) by (auto simp: fifo_ok_def implements_def)
qed

theorem fifo_keeps_order_witness:
  "\<exists>as k'. fifo_run 0 1 [Fifo_Write 7, Fifo_Update, Fifo_Write 8, Fifo_Read] two_places = Inr (as, k') \<and>
     delivered as = [7 :: nat] \<and> accepted [Fifo_Write 7, Fifo_Update, Fifo_Write 8, Fifo_Read] as = [7, 8] \<and>
     fifo_print (k_fifo k' 1) = Some [8]"
proof -
  let ?ops = "[Fifo_Write 7, Fifo_Update, Fifo_Write 8, Fifo_Read :: nat fifo_op]" and ?as = "[Written True, Updated, Written True, Got (Some (7 :: nat))]"
  have "fst (queue_run 2 ?ops empty_queue) = ?as" by (simp add: queue_step_def queue_room_def empty_queue_def)
  then obtain k' where k': "fifo_run 0 1 ?ops two_places = Inr (?as, k')"
    using fifo_run_refines [OF two_places_ok(1), of 0 ?ops] unfolding two_places_ok(2) by auto
  from fifo_keeps_order [OF two_places_ok(1) k'] show ?thesis
    using k' fifo_ok_print [OF two_places_ok(1)] by (auto simp: empty_queue_def)
qed

section \<open>Blocking access\<close>

text \<open>The blocking forms.  A pass of the loop of a blocking read or write returns exactly when the
  non-blocking one would succeed, with the same result; otherwise it changes nothing but to put the thread to sleep until
  the next update after a write, or a read.\<close>

theorem fifo_blocks_when_it_must:
  assumes "fifo_ok c q k" and "m_curr_proc k = Some (Thread t)"
  shows "fifo_read dflt c k = (case q_visible q of
      [] \<Rightarrow> Inr (None, thread_wait t (For_Event (f_written_event (k_fifo k c))) k)
    | v # vs \<Rightarrow> nb_read dflt c k) \<and>
    fifo_write c v k = (if queue_room (f_size (k_fifo k c)) q then nb_write c v k
      else Inr (False, thread_wait t (For_Event (f_read_event (k_fifo k c))) k)) \<and>
    (\<forall>w ws. q_visible q = w # ws \<longrightarrow> (\<exists>k'. nb_read dflt c k = Inr (Some w, k'))) \<and>
    (queue_room (f_size (k_fifo k c)) q \<longrightarrow> (\<exists>k'. nb_write c v k = Inr (True, k'))) \<and>
    (\<exists>k'. fifo_update c k = Inr k' \<and> pending k' = update_wakes (k_fifo k c) q (pending k))"
proof -
  let ?f = "k_fifo k c"
  have i: "implements ?f q" using assms(1) by (simp add: fifo_ok_def)
  then have av: "num_available ?f = int (length (q_visible q))" and fr: "num_free ?f \<noteq> 0 \<longleftrightarrow> queue_room (f_size ?f) q"
    by (auto simp: implements_def num_available_def num_free_def queue_room_def)
  have r: "\<exists>k'. nb_read dflt c k = Inr (Some w, k')" if "q_visible q = w # ws" for w ws
    using nb_read_step [OF assms(1), of dflt] that by (auto simp: fifo_step_def queue_step_def rbind_eq_Inr)
  have w: "\<exists>k'. nb_write c v k = Inr (True, k')" if "queue_room (f_size ?f) q"
    using nb_write_step [OF assms(1), of dflt v] that by (auto simp: fifo_step_def queue_step_def rbind_eq_Inr)
  have "fifo_read dflt c k = (case q_visible q of
      [] \<Rightarrow> Inr (None, thread_wait t (For_Event (f_written_event ?f)) k) | v # vs \<Rightarrow> nb_read dflt c k)"
    using av r by (cases "q_visible q") (auto simp: fifo_read_def sc_wait_event [OF assms(2)])
  moreover have "fifo_write c v k = (if queue_room (f_size ?f) q then nb_write c v k
      else Inr (False, thread_wait t (For_Event (f_read_event ?f)) k))"
    using fr w by (auto simp: fifo_write_def sc_wait_event [OF assms(2)])
  ultimately show ?thesis using r w fifo_update_spec [OF assms(1)] by blast
qed

definition two_places_run :: "nat fifo_kernel" where
  "two_places_run = set_curr_proc (Thread 5) two_places"

theorem fifo_blocks_when_it_must_witness:
  "fifo_read 0 1 two_places_run = Inr (None, thread_wait 5 (For_Event 11) two_places_run) \<and>
   (\<exists>k'. fifo_write 1 3 two_places_run = Inr (True, k'))"
proof -
  have ok: "fifo_ok 1 empty_queue two_places_run" "k_fifo two_places_run = k_fifo two_places"
    using two_places_ok(1) notify_frame [of two_places_run two_places]
    by (simp_all add: fifo_ok_def two_places_run_def set_curr_proc_def)
  have "f_written_event (k_fifo two_places_run 1) = 11"
    by (simp add: ok(2) two_places_def kernel.extend_def fifo_kernel.fields_def fifo_init_def)
  moreover have "queue_room 2 empty_queue" by (simp add: queue_room_def empty_queue_def)
  moreover have "m_curr_proc two_places_run = Some (Thread 5)" by (simp add: two_places_run_def set_curr_proc_def)
  ultimately show ?thesis
    using fifo_blocks_when_it_must [OF ok(1), of 5 0 3] unfolding ok(2) two_places_ok(2) by (auto simp: empty_queue_def)
qed

end
