(* ===== verification/Sc_Locks.thy ===== *)
theory Sc_Locks
  imports Sc_Frame Sc_Wait
begin

text \<open>
  \<open>sysc/communication/sc_mutex.cpp\<close> and \<open>sc_semaphore.cpp\<close>: the two locks.  Their state is added to the
  kernel; a blocking call is one pass of its loop, whose answer \<open>None\<close> is the suspension in \<open>wait\<close>.
  The operations are followed by what the locks promise to the processes that use them.
\<close>

section \<open>State\<close>

record sc_mutex =
  mx_owner :: "process option"
  mx_free :: nat

record sc_semaphore =
  sem_free :: nat
  sem_value :: int

record locks_kernel = kernel +
  k_mutex :: "nat \<Rightarrow> sc_mutex"
  k_semaphore :: "nat \<Rightarrow> sc_semaphore"

definition upd_mutex :: "nat \<Rightarrow> (sc_mutex \<Rightarrow> sc_mutex) \<Rightarrow> 'a locks_kernel_scheme \<Rightarrow> 'a locks_kernel_scheme" where
  "upd_mutex c f k = k\<lparr>k_mutex := (k_mutex k)(c := f (k_mutex k c))\<rparr>"

definition upd_semaphore :: "nat \<Rightarrow> (sc_semaphore \<Rightarrow> sc_semaphore) \<Rightarrow> 'a locks_kernel_scheme \<Rightarrow> 'a locks_kernel_scheme" where
  "upd_semaphore c f k = k\<lparr>k_semaphore := (k_semaphore k)(c := f (k_semaphore k c))\<rparr>"

lemma upd_lock [simp]:
  "k_mutex (upd_mutex c f k) = (k_mutex k)(c := f (k_mutex k c))"
  "k_semaphore (upd_semaphore c g k) = (k_semaphore k)(c := g (k_semaphore k c))"
  by (simp_all add: upd_mutex_def upd_semaphore_def)

interpretation locks: trigger_frame "\<lambda>k. (k_mutex k, k_semaphore k)"
  by unfold_locales
    (simp_all add: upd_event_def upd_proc_def upd_timed_def forget_event_def forget_list_def set_trigger_def split: process.split)

section \<open>The mutex\<close>

definition mutex_new :: "nat \<Rightarrow> sc_mutex" where
  "mutex_new free = \<lparr>mx_owner = None, mx_free = free\<rparr>"

definition mutex_in_use :: "sc_mutex \<Rightarrow> bool" where
  "mutex_in_use m \<longleftrightarrow> mx_owner m \<noteq> None"

text \<open>A pass of the loop of \<open>lock\<close>, and the call up to the end of its first pass.\<close>

definition mutex_lock_pass :: "nat \<Rightarrow> 'a locks_kernel_scheme \<Rightarrow> (int option \<times> 'a locks_kernel_scheme) res" where
  "mutex_lock_pass c k =
     (if mutex_in_use (k_mutex k c) then rbind (sc_wait (For_Event (mx_free (k_mutex k c))) k) (\<lambda>k. Inr (None, k))
      else Inr (Some 0, upd_mutex c (\<lambda>m. m\<lparr>mx_owner := m_curr_proc k\<rparr>) k))"

definition mutex_lock :: "nat \<Rightarrow> 'a locks_kernel_scheme \<Rightarrow> (int option \<times> 'a locks_kernel_scheme) res" where
  "mutex_lock c k =
     (if mx_owner (k_mutex k c) = m_curr_proc k then Inr (Some 0, k) else mutex_lock_pass c k)"

definition mutex_trylock :: "nat \<Rightarrow> 'a locks_kernel_scheme \<Rightarrow> int \<times> 'a locks_kernel_scheme" where
  "mutex_trylock c k =
     (if mx_owner (k_mutex k c) = m_curr_proc k then (0, k)
      else if mutex_in_use (k_mutex k c) then (-1, k)
      else (0, upd_mutex c (\<lambda>m. m\<lparr>mx_owner := m_curr_proc k\<rparr>) k))"

definition mutex_unlock :: "nat \<Rightarrow> 'a locks_kernel_scheme \<Rightarrow> (int \<times> 'a locks_kernel_scheme) res" where
  "mutex_unlock c k =
     (if mx_owner (k_mutex k c) \<noteq> m_curr_proc k then Inr (-1, k)
      else rbind (notify_now (mx_free (k_mutex k c)) (upd_mutex c (\<lambda>m. m\<lparr>mx_owner := None\<rparr>) k)) (\<lambda>k. Inr (0, k)))"

section \<open>The semaphore\<close>

definition semaphore_new :: "nat \<Rightarrow> int \<Rightarrow> sc_semaphore res" where
  "semaphore_new free n =
     (if n < 0 then Inl (ReportError SC_ID_INVALID_SEMAPHORE_VALUE) else Inr \<lparr>sem_free = free, sem_value = n\<rparr>)"

definition semaphore_in_use :: "sc_semaphore \<Rightarrow> bool" where
  "semaphore_in_use s \<longleftrightarrow> sem_value s \<le> 0"

definition semaphore_wait :: "nat \<Rightarrow> 'a locks_kernel_scheme \<Rightarrow> (int option \<times> 'a locks_kernel_scheme) res" where
  "semaphore_wait c k =
     (if semaphore_in_use (k_semaphore k c) then rbind (sc_wait (For_Event (sem_free (k_semaphore k c))) k) (\<lambda>k. Inr (None, k))
      else Inr (Some 0, upd_semaphore c (\<lambda>s. s\<lparr>sem_value := sem_value s - 1\<rparr>) k))"

definition semaphore_trywait :: "nat \<Rightarrow> 'a locks_kernel_scheme \<Rightarrow> int \<times> 'a locks_kernel_scheme" where
  "semaphore_trywait c k =
     (if semaphore_in_use (k_semaphore k c) then (-1, k)
      else (0, upd_semaphore c (\<lambda>s. s\<lparr>sem_value := sem_value s - 1\<rparr>) k))"

definition semaphore_post :: "nat \<Rightarrow> 'a locks_kernel_scheme \<Rightarrow> (int \<times> 'a locks_kernel_scheme) res" where
  "semaphore_post c k =
     rbind (check_int (sem_value (k_semaphore k c) + 1)) (\<lambda>n.
     rbind (notify_now (sem_free (k_semaphore k c)) (upd_semaphore c (\<lambda>s. s\<lparr>sem_value := n\<rparr>) k)) (\<lambda>k. Inr (0, k)))"

section \<open>Waiting leaves the locks alone\<close>

lemma sc_wait_locks: "sc_wait (For_Event e) k = Inr k' \<Longrightarrow> k_mutex k' = k_mutex k \<and> k_semaphore k' = k_semaphore k"
  by (auto simp: sc_wait_def thread_wait_def wait_on_def upd_event_def upd_proc_def set_trigger_def
      split: option.splits process.splits if_splits)

lemma notify_now_locks: "notify_now e k = Inr k' \<Longrightarrow> k_mutex k' = k_mutex k \<and> k_semaphore k' = k_semaphore k"
  using locks.part_notify_now by fastforce

section \<open>Mutual exclusion\<close>

text \<open>Processes that call the mutex \<open>c\<close> one after the other; \<open>Retry\<close> is the next pass of a waiting \<open>lock\<close>.\<close>

datatype mutex_op = Lock | Retry | Trylock | Unlock

definition mutex_step :: "nat \<Rightarrow> mutex_op \<Rightarrow> 'a locks_kernel_scheme \<Rightarrow> (int option \<times> 'a locks_kernel_scheme) res" where
  "mutex_step c op k = (case op of
     Lock \<Rightarrow> mutex_lock c k
   | Retry \<Rightarrow> mutex_lock_pass c k
   | Trylock \<Rightarrow> Inr (map_prod Some id (mutex_trylock c k))
   | Unlock \<Rightarrow> rbind (mutex_unlock c k) (\<lambda>(r, k). Inr (Some r, k)))"

fun mutex_run :: "nat \<Rightarrow> (process \<times> mutex_op) list \<Rightarrow> 'a locks_kernel_scheme \<Rightarrow> (int option list \<times> 'a locks_kernel_scheme) res" where
  "mutex_run c [] k = Inr ([], k)"
| "mutex_run c ((p, op) # ops) k = rbind (mutex_step c op (set_curr_proc p k)) (\<lambda>(a, k).
     rbind (mutex_run c ops k) (\<lambda>(as, k). Inr (a # as, k)))"

text \<open>The processes that were told they hold the lock: an answer 0 to \<open>lock\<close> or \<open>trylock\<close> gives it,
  an answer 0 to \<open>unlock\<close> gives it up.\<close>

definition told :: "process \<times> mutex_op \<Rightarrow> int option \<Rightarrow> process set \<Rightarrow> process set" where
  "told call a ps = (if a \<noteq> Some 0 then ps else if snd call = Unlock then ps - {fst call} else insert (fst call) ps)"

fun holders :: "(process \<times> mutex_op) list \<Rightarrow> int option list \<Rightarrow> process set \<Rightarrow> process set" where
  "holders (call # calls) (a # as) ps = holders calls as (told call a ps)"
| "holders _ _ ps = ps"

lemma mutex_step_holders:
  assumes "mutex_step c op (set_curr_proc p k) = Inr (a, k')"
  shows "told (p, op) a (set_option (mx_owner (k_mutex k c))) = set_option (mx_owner (k_mutex k' c))"
proof -
  let ?k = "set_curr_proc p k"
  have c: "m_curr_proc ?k = Some p" "k_mutex ?k = k_mutex k" by (simp_all add: set_curr_proc_def)
  have w: "sc_wait (For_Event (mx_free (k_mutex k c))) ?k = Inr k1 \<Longrightarrow> k_mutex k1 = k_mutex k" for k1
    using sc_wait_locks c(2) by fastforce
  have n: "notify_now (mx_free (k_mutex k c)) (upd_mutex c f ?k) = Inr k1 \<Longrightarrow> k_mutex k1 = (k_mutex k)(c := f (k_mutex k c))" for f k1
    using notify_now_locks [of "mx_free (k_mutex k c)" "upd_mutex c f ?k" k1] c(2) by simp
  show ?thesis
    using assms c
    by (cases op)
      (auto simp: mutex_step_def mutex_lock_def mutex_lock_pass_def mutex_trylock_def mutex_unlock_def mutex_in_use_def told_def
        rbind_eq_Inr split: if_splits dest!: w n)
qed

text \<open>C16: the mutex excludes.  Whatever processes lock, retry, try to lock and unlock in whatever
  order, after every call the processes that have been told that they hold the mutex are exactly its owner: never
  two, and none when it is free.  Only the owner can free it.\<close>

theorem mutex_excludes:
  assumes "mutex_run c calls k = Inr (as, k')"
  shows "holders calls as (set_option (mx_owner (k_mutex k c))) = set_option (mx_owner (k_mutex k' c)) \<and>
    length as = length calls \<and> card (holders calls as (set_option (mx_owner (k_mutex k c)))) \<le> 1"
proof -
  have "holders calls as (set_option (mx_owner (k_mutex k c))) = set_option (mx_owner (k_mutex k' c)) \<and> length as = length calls"
    using assms
  proof (induction calls arbitrary: k as)
    case (Cons call calls)
    obtain p op where call: "call = (p, op)" by fastforce
    obtain a k1 bs where 1: "mutex_step c op (set_curr_proc p k) = Inr (a, k1)" "mutex_run c calls k1 = Inr (bs, k')" "as = a # bs"
      using Cons.prems by (auto simp: call rbind_eq_Inr)
    show ?case using Cons.IH [OF 1(2)] mutex_step_holders [OF 1(1)] by (simp add: call 1(3))
  qed simp
  moreover have "card (set_option x) \<le> 1" for x :: "process option" by (cases x) simp_all
  ultimately show ?thesis by simp
qed

definition free_mutex :: locks_kernel where
  "free_mutex = kernel.extend ((simcontext_init None SC_STOP_FINISH_DELTA False)\<lparr>m_execution_phase := phase_evaluate, m_ready_to_simulate := True\<rparr>)
     (locks_kernel.fields (\<lambda>_. mutex_new 10) (\<lambda>_. \<lparr>sem_free = 11, sem_value = 2\<rparr>))"

lemma free_mutex_facts:
  "m_ready_to_simulate free_mutex" "m_execution_phase free_mutex = phase_evaluate" "k_mutex free_mutex c = mutex_new 10"
  "k_semaphore free_mutex c = \<lparr>sem_free = 11, sem_value = 2\<rparr>" "k_event free_mutex = (\<lambda>_. sc_event_new)"
  by (simp_all add: free_mutex_def simcontext_init_def kernel.extend_def locks_kernel.fields_def)

text \<open>An immediate notification of an event without waiting processes.\<close>

lemma notify_now_nobody:
  assumes "m_ready_to_simulate k" and "m_execution_phase k = phase_evaluate" and "k_event k e = sc_event_new"
  shows "notify_now e k = Inr (upd_event e (\<lambda>ev. ev\<lparr>m_trigger_stamp := m_change_stamp k\<rparr>) k)"
  using assms
  by (simp add: notify_now_def evaluation_phase_def cancel_def trigger_def Let_def upd_event_def sc_event_new_def
      trigger_dynamics_def dynamic_list_def)

theorem mutex_excludes_witness:
  "\<exists>k'. mutex_run 0 [(Thread 1, Lock), (Thread 2, Trylock), (Thread 2, Unlock), (Thread 1, Unlock), (Thread 2, Lock)] free_mutex =
       Inr ([Some 0, Some (-1), Some (-1), Some 0, Some 0], k') \<and> mx_owner (k_mutex k' 0) = Some (Thread 2)"
proof -
  let ?calls = "[(Thread 1, Lock), (Thread 2, Trylock), (Thread 2, Unlock), (Thread 1, Unlock), (Thread 2, Lock)]"
  obtain k' where k': "mutex_run 0 ?calls free_mutex = Inr ([Some 0, Some (-1), Some (-1), Some 0, Some 0], k')"
    by (simp add: mutex_step_def mutex_lock_def mutex_lock_pass_def mutex_trylock_def mutex_unlock_def mutex_in_use_def
        set_curr_proc_def upd_mutex_def free_mutex_facts mutex_new_def notify_now_nobody upd_event_def map_prod_def)
  from mutex_excludes [OF k'] have "set_option (mx_owner (k_mutex k' 0)) = {Thread 2}"
    by (simp add: told_def free_mutex_facts mutex_new_def)
  with k' show ?thesis by (cases "mx_owner (k_mutex k' 0)") simp_all
qed

section \<open>Counting\<close>

datatype semaphore_op = Wait | Trywait | Post

definition semaphore_step :: "nat \<Rightarrow> semaphore_op \<Rightarrow> 'a locks_kernel_scheme \<Rightarrow> (int option \<times> 'a locks_kernel_scheme) res" where
  "semaphore_step c op k = (case op of
     Wait \<Rightarrow> semaphore_wait c k
   | Trywait \<Rightarrow> Inr (map_prod Some id (semaphore_trywait c k))
   | Post \<Rightarrow> rbind (semaphore_post c k) (\<lambda>(r, k). Inr (Some r, k)))"

fun semaphore_run :: "nat \<Rightarrow> (process \<times> semaphore_op) list \<Rightarrow> 'a locks_kernel_scheme \<Rightarrow> (int option list \<times> 'a locks_kernel_scheme) res" where
  "semaphore_run c [] k = Inr ([], k)"
| "semaphore_run c ((p, op) # ops) k = rbind (semaphore_step c op (set_curr_proc p k)) (\<lambda>(a, k).
     rbind (semaphore_run c ops k) (\<lambda>(as, k). Inr (a # as, k)))"

text \<open>How many units were taken and given.\<close>

definition taken :: "((process \<times> semaphore_op) \<times> int option) list \<Rightarrow> nat" where
  "taken tr = length (filter (\<lambda>(call, a). snd call \<noteq> Post \<and> a = Some 0) tr)"

definition given :: "((process \<times> semaphore_op) \<times> int option) list \<Rightarrow> nat" where
  "given tr = length (filter (\<lambda>(call, a). snd call = Post) tr)"

lemma semaphore_step_value:
  assumes "semaphore_step c op (set_curr_proc p k) = Inr (a, k')" and "0 \<le> sem_value (k_semaphore k c)"
  shows "sem_value (k_semaphore k' c) = sem_value (k_semaphore k c) +
      (if op = Post then 1 else if a = Some 0 then -1 else 0) \<and> 0 \<le> sem_value (k_semaphore k' c) \<and>
    (op \<noteq> Post \<longrightarrow> (a = Some 0 \<longleftrightarrow> 0 < sem_value (k_semaphore k c)))"
proof -
  let ?k = "set_curr_proc p k"
  have c: "k_semaphore ?k = k_semaphore k" by (simp add: set_curr_proc_def)
  have w: "sc_wait (For_Event (sem_free (k_semaphore k c))) ?k = Inr k1 \<Longrightarrow> k_semaphore k1 = k_semaphore k" for k1
    using sc_wait_locks c by fastforce
  have n: "notify_now (sem_free (k_semaphore k c)) (upd_semaphore c f ?k) = Inr k1 \<Longrightarrow>
      k_semaphore k1 = (k_semaphore k)(c := f (k_semaphore k c))" for f k1
    using notify_now_locks [of "sem_free (k_semaphore k c)" "upd_semaphore c f ?k" k1] c by simp
  show ?thesis
    using assms c
    by (cases op)
      (auto simp: semaphore_step_def semaphore_wait_def semaphore_trywait_def semaphore_post_def semaphore_in_use_def
        rbind_eq_Inr check_int_Inr split: if_splits dest!: w n)
qed

text \<open>The semaphore counts.  Whatever processes wait, try and post in whatever order, the value
  is never negative, and is what it was, more by the number of posts and less by the number of successful waits: at most
  as many waits succeed as there were units and posts.\<close>

theorem semaphore_counts:
  assumes "semaphore_run c calls k = Inr (as, k')" and "0 \<le> sem_value (k_semaphore k c)"
  shows "sem_value (k_semaphore k' c) = sem_value (k_semaphore k c) + int (given (zip calls as)) - int (taken (zip calls as)) \<and>
    0 \<le> sem_value (k_semaphore k' c) \<and> int (taken (zip calls as)) \<le> sem_value (k_semaphore k c) + int (given (zip calls as))"
proof -
  have "sem_value (k_semaphore k' c) = sem_value (k_semaphore k c) + int (given (zip calls as)) - int (taken (zip calls as)) \<and>
      0 \<le> sem_value (k_semaphore k' c)"
    using assms
  proof (induction calls arbitrary: k as)
    case Nil
    then show ?case by (auto simp: given_def taken_def)
  next
    case (Cons call calls)
    obtain p op where call: "call = (p, op)" by fastforce
    obtain a k1 bs where 1: "semaphore_step c op (set_curr_proc p k) = Inr (a, k1)" "semaphore_run c calls k1 = Inr (bs, k')" "as = a # bs"
      using Cons.prems by (auto simp: call rbind_eq_Inr)
    note s = semaphore_step_value [OF 1(1) Cons.prems(2)]
    then show ?case using Cons.IH [OF 1(2)] by (auto simp: call 1(3) given_def taken_def)
  qed
  then show ?thesis by simp
qed

theorem semaphore_counts_witness:
  "\<exists>k'. semaphore_run 0 [(Thread 1, Wait), (Thread 2, Trywait), (Thread 3, Trywait), (Thread 1, Post), (Thread 3, Wait)] free_mutex =
       Inr ([Some 0, Some 0, Some (-1), Some 0, Some 0], k') \<and> sem_value (k_semaphore k' 0) = 0"
proof -
  let ?calls = "[(Thread 1, Wait), (Thread 2, Trywait), (Thread 3, Trywait), (Thread 1, Post), (Thread 3, Wait)]"
  obtain k' where k': "semaphore_run 0 ?calls free_mutex = Inr ([Some 0, Some 0, Some (-1), Some 0, Some 0], k')"
    by (simp add: semaphore_step_def semaphore_wait_def semaphore_trywait_def semaphore_post_def semaphore_in_use_def
        set_curr_proc_def upd_semaphore_def free_mutex_facts notify_now_nobody upd_event_def map_prod_def check_int_def is_cint_def
        INT_MIN_def INT_MAX_def)
  from semaphore_counts [OF k'] show ?thesis using k' by (simp add: free_mutex_facts given_def taken_def)
qed

end
