(* ===== verification/Sc_Event_Queue.thy ===== *)
theory Sc_Event_Queue
  imports Sc_Channels
begin

text \<open>
  \<open>sysc/communication/sc_event_queue\<close>: a channel that remembers every notification, where an event keeps
  only the earliest.  The times are held in the heap of \<open>Sc_Pq\<close>, by value; the event \<open>m_e\<close> is
  notified for the earliest of them, and the method \<open>fire_event\<close> is sensitive to it.
\<close>

section \<open>The channel\<close>

record event_queue =
  eq_ppq :: "sc_time sc_ppq"
  eq_e :: nat
  eq_change_stamp :: "64 word"
  eq_pending_delta :: int

record event_queues_kernel = kernel +
  k_event_queue :: "nat \<Rightarrow> event_queue"

definition upd_event_queue ::
  "nat \<Rightarrow> (event_queue \<Rightarrow> event_queue) \<Rightarrow> 'a event_queues_kernel_scheme \<Rightarrow> 'a event_queues_kernel_scheme" where
  "upd_event_queue c f k = k\<lparr>k_event_queue := (k_event_queue k)(c := f (k_event_queue k c))\<rparr>"

definition event_queue_new :: "nat \<Rightarrow> event_queue" where
  "event_queue_new e = \<lparr>eq_ppq = sc_ppq_new 0 128, eq_e = e, eq_change_stamp = 0, eq_pending_delta = 0\<rparr>"

definition sc_time_compare :: "sc_time \<Rightarrow> sc_time \<Rightarrow> int" where
  "sc_time_compare t1 t2 = (if t1 < t2 then 1 else if t1 > t2 then -1 else 0)"

interpretation times: pq_order sc_time_compare
  by unfold_locales (auto simp: sc_time_compare_def split: if_splits)

lemma rbind_cong [fundef_cong]: "r = r' \<Longrightarrow> (\<And>x. r' = Inr x \<Longrightarrow> f x = g x) \<Longrightarrow> rbind r f = rbind r' g"
  by (cases r') simp_all

text \<open>The loop of \<open>cancel_all\<close> and of the destructor.\<close>

function drain :: "sc_time sc_ppq \<Rightarrow> sc_time sc_ppq res" where
  "drain q = (if m_heap_size q > 0 then rbind (pq_extract_top sc_time_compare q) (\<lambda>(t, q). drain q) else Inr q)"
  by pat_completeness auto
termination
  by (relation "measure m_heap_size") (auto simp: pq_extract_top_def Let_def split: if_splits)

declare drain.simps [simp del]

definition eq_cancel_all :: "nat \<Rightarrow> 'a event_queues_kernel_scheme \<Rightarrow> 'a event_queues_kernel_scheme res" where
  "eq_cancel_all c k =
     rbind (drain (eq_ppq (k_event_queue k c))) (\<lambda>q.
       cancel (eq_e (k_event_queue k c)) (upd_event_queue c (\<lambda>eq. eq\<lparr>eq_pending_delta := 0, eq_ppq := q\<rparr>) k))"

definition eq_notify :: "nat \<Rightarrow> sc_time \<Rightarrow> 'a event_queues_kernel_scheme \<Rightarrow> 'a event_queues_kernel_scheme res" where
  "eq_notify c when k =
     (let k = upd_event_queue c (\<lambda>eq. eq\<lparr>eq_change_stamp := m_change_stamp k\<rparr>) k;
          t = sc_time_add when (m_curr_time k);
          q = eq_ppq (k_event_queue k c)
      in rbind (if m_heap_size q = 0 \<or> t < pq_top q then notify_at (eq_e (k_event_queue k c)) when k else Inr k)
           (\<lambda>k. Inr (upd_event_queue c (\<lambda>eq. eq\<lparr>eq_ppq := pq_insert 0 sc_time_compare t (eq_ppq eq)\<rparr>) k)))"

definition eq_fire_event :: "nat \<Rightarrow> 'a event_queues_kernel_scheme \<Rightarrow> 'a event_queues_kernel_scheme res" where
  "eq_fire_event c k =
     (if pq_empty (eq_ppq (k_event_queue k c)) then Inr k
      else rbind (pq_extract_top sc_time_compare (eq_ppq (k_event_queue k c))) (\<lambda>(t, q).
        let k = upd_event_queue c (\<lambda>eq. eq\<lparr>eq_ppq := q\<rparr>) k in
        if t \<noteq> m_curr_time k then Inl AssertFailed
        else if m_heap_size q > 0
        then notify_at (eq_e (k_event_queue k c)) (sc_time_sub (pq_top q) (m_curr_time k)) k else Inr k))"

section \<open>The specification: a multiset of times\<close>

definition eq_times :: "nat \<Rightarrow> 'a event_queues_kernel_scheme \<Rightarrow> sc_time multiset" where
  "eq_times c k = pq_elems (eq_ppq (k_event_queue k c))"

definition eq_ok :: "nat \<Rightarrow> 'a event_queues_kernel_scheme \<Rightarrow> bool" where
  "eq_ok c k \<longleftrightarrow> notify_inv k \<and> times.pq_inv (eq_ppq (k_event_queue k c)) \<and> (\<forall>t \<in># eq_times c k. m_curr_time k \<le> t)"

text \<open>The event is notified for the earliest time; or that time has come and \<open>fire_event\<close> is to run.\<close>

definition eq_armed :: "nat \<Rightarrow> 'a event_queues_kernel_scheme \<Rightarrow> bool" where
  "eq_armed c k \<longleftrightarrow> eq_ok c k \<and> pending k (eq_e (k_event_queue k c)) =
     (if eq_times c k = {#} then Nothing
      else if Min_mset (eq_times c k) = m_curr_time k then Next_Delta else At_Time (Min_mset (eq_times c k)))"

definition eq_due :: "nat \<Rightarrow> 'a event_queues_kernel_scheme \<Rightarrow> bool" where
  "eq_due c k \<longleftrightarrow> eq_ok c k \<and> pending k (eq_e (k_event_queue k c)) = Nothing \<and> m_curr_time k \<in># eq_times c k"

lemma top_is_min:
  assumes "times.pq_inv q" and "m_heap_size q > 0"
  obtains q' where "pq_extract_top sc_time_compare q = Inr (pq_top q, q')" and "times.pq_inv q'"
    and "pq_elems q = add_mset (pq_top q) (pq_elems q')" and "pq_top q = Min_mset (pq_elems q)"
proof -
  obtain q' where q': "pq_extract_top sc_time_compare q = Inr (pq_top q, q')" "times.pq_inv q'"
    "pq_elems q = add_mset (pq_top q) (pq_elems q')" "\<forall>x \<in># pq_elems q. sc_time_compare x (pq_top q) \<le> 0"
    using times.extract_inv [OF assms] by blast
  have "pq_top q \<le> x" if "x \<in># pq_elems q" for x
    using bspec [OF q'(4) that] by (auto simp: sc_time_compare_def split: if_splits)
  then have "pq_top q = Min_mset (pq_elems q)" using q'(3) by (intro Min_eqI [symmetric]) auto
  then show ?thesis using that q' by blast
qed

lemma top_min: "times.pq_inv q \<Longrightarrow> m_heap_size q > 0 \<Longrightarrow> pq_top q = Min_mset (pq_elems q)"
  by (rule top_is_min)

lemma size_elems: "times.pq_inv q \<Longrightarrow> m_heap_size q = 0 \<longleftrightarrow> pq_elems q = {#}"
  by (auto simp: times.pq_inv_def pq_space_def pq_elems_def heap_elems_def)

lemma drain_all:
  "times.pq_inv q \<Longrightarrow> \<exists>q'. drain q = Inr q' \<and> times.pq_inv q' \<and> pq_elems q' = {#}"
proof (induction q rule: drain.induct)
  case (1 q)
  show ?case
  proof (cases "m_heap_size q > 0")
    case True
    obtain q1 where q1: "pq_extract_top sc_time_compare q = Inr (pq_top q, q1)" "times.pq_inv q1"
      by (rule top_is_min [OF 1(2) True])
    then have "drain q = drain q1" using True by (subst drain.simps) simp
    then show ?thesis using 1(1) [OF True q1(1) refl q1(2)] by simp
  next
    case False
    then show ?thesis using 1(2) size_elems [OF 1(2)] by (subst drain.simps) simp
  qed
qed

section \<open>The operations\<close>

text \<open>The notifications of the event leave the queues and the time alone.\<close>

lemma refines_queues:
  assumes "refines_to k k' p"
  shows "k_event_queue k' = k_event_queue k" "m_curr_time k' = m_curr_time k" "notify_inv k'" "pending k' = p"
proof -
  obtain ev tm n st sz q where "k' = k\<lparr>k_event := ev, k_timed := tm, k_next_timed := n,
     m_delta_storage := st, m_delta_size := sz, m_timed_events := q\<rparr>"
    using assms unfolding refines_to_def same_rest_def by blast
  then show "k_event_queue k' = k_event_queue k" "m_curr_time k' = m_curr_time k" by simp_all
  show "notify_inv k'" "pending k' = p" using assms by (simp_all add: refines_to_def)
qed

lemma upd_queue_frame:
  "pending (upd_event_queue c f k) = pending k" "m_curr_time (upd_event_queue c f k) = m_curr_time k"
  "notify_inv k \<Longrightarrow> notify_inv (upd_event_queue c f k)"
  "k_event_queue (upd_event_queue c f k) = (k_event_queue k)(c := f (k_event_queue k c))"
  using notify_frame [of "upd_event_queue c f k" k] by (simp_all add: upd_event_queue_def)

lemma eq_cancel_all_spec:
  assumes "eq_ok c k"
  shows "\<exists>k'. eq_cancel_all c k = Inr k' \<and> eq_armed c k' \<and> eq_times c k' = {#} \<and> m_curr_time k' = m_curr_time k \<and>
    eq_e (k_event_queue k' c) = eq_e (k_event_queue k c)"
proof -
  let ?e = "eq_e (k_event_queue k c)"
  obtain q where q: "drain (eq_ppq (k_event_queue k c)) = Inr q" "times.pq_inv q" "pq_elems q = {#}"
    using drain_all assms by (auto simp: eq_ok_def)
  let ?k = "upd_event_queue c (\<lambda>eq. eq\<lparr>eq_pending_delta := 0, eq_ppq := q\<rparr>) k"
  have "notify_inv ?k" using assms by (simp add: eq_ok_def upd_queue_frame(3))
  then obtain k' where k': "cancel ?e ?k = Inr k'" "refines_to ?k k' ((pending ?k)(?e := Nothing))"
    using cancel_refines by blast
  note r = refines_queues [OF k'(2)]
  have "eq_cancel_all c k = Inr k'" using q(1) k'(1) by (simp add: eq_cancel_all_def)
  then show ?thesis using r q(2,3) by (simp add: eq_armed_def eq_ok_def eq_times_def upd_queue_frame)
qed

lemma Min_add: "Min_mset (add_mset t M) = (if M = {#} then t else min t (Min_mset M))" for t :: "'a :: linorder"
  by (simp add: Min_insert2 min_def)

lemma eq_notify_spec:
  assumes "eq_ok c k" and "m_curr_time k \<le> when + m_curr_time k"
    and "eq_armed c k \<or> eq_due c k"
  shows "\<exists>k'. eq_notify c when k = Inr k' \<and> eq_times c k' = add_mset (when + m_curr_time k) (eq_times c k) \<and>
    (eq_armed c k \<longrightarrow> eq_armed c k') \<and> (eq_due c k \<longrightarrow> eq_due c k') \<and> m_curr_time k' = m_curr_time k \<and>
    eq_e (k_event_queue k' c) = eq_e (k_event_queue k c)"
proof -
  let ?e = "eq_e (k_event_queue k c)" and ?q = "eq_ppq (k_event_queue k c)" and ?t = "when + m_curr_time k"
  let ?k = "upd_event_queue c (\<lambda>eq. eq\<lparr>eq_change_stamp := m_change_stamp k\<rparr>) k"
  have q: "times.pq_inv ?q" and inv: "notify_inv ?k" using assms(1) by (simp_all add: eq_ok_def upd_queue_frame(3))
  let ?first = "m_heap_size ?q = 0 \<or> ?t < pq_top ?q"
  have top: "pq_top ?q = Min_mset (eq_times c k)" if "m_heap_size ?q \<noteq> 0"
    using top_min [OF q] that by (simp add: eq_times_def)
  have first: "?first \<longleftrightarrow> eq_times c k = {#} \<or> ?t < Min_mset (eq_times c k)"
    using top size_elems [OF q] by (auto simp: eq_times_def)
  obtain k1 where 1: "(if ?first then notify_at ?e when ?k else Inr ?k) = Inr k1"
    "refines_to ?k k1 (if ?first then (pending k)(?e := notify_rule (m_curr_time k) when (pending k ?e)) else pending k)"
  proof (cases ?first)
    case True
    then show ?thesis using notify_at_refines [OF inv, of ?e "when"] that by (auto simp: upd_queue_frame)
  next
    case False
    moreover have "refines_to ?k ?k (pending k)" using inv by (simp add: refines_to_def same_rest_def upd_queue_frame)
    ultimately show ?thesis using that by simp
  qed
  note r = refines_queues [OF 1(2)]
  let ?k' = "upd_event_queue c (\<lambda>eq. eq\<lparr>eq_ppq := pq_insert 0 sc_time_compare ?t (eq_ppq eq)\<rparr>) k1"
  have "eq_notify c when k = rbind (if ?first then notify_at ?e when ?k else Inr ?k)
      (\<lambda>k. Inr (upd_event_queue c (\<lambda>eq. eq\<lparr>eq_ppq := pq_insert 0 sc_time_compare ?t (eq_ppq eq)\<rparr>) k))"
    by (simp add: eq_notify_def Let_def upd_queue_frame sc_time_add_def)
  then have "eq_notify c when k = Inr ?k'" by (simp only: 1(1) rbind_Inr)
  moreover have times: "eq_times c ?k' = add_mset ?t (eq_times c k)" "times.pq_inv (eq_ppq (k_event_queue ?k' c))"
    using times.insert_inv [OF q, of 0 ?t] r(1) by (simp_all add: eq_times_def upd_queue_frame)
  moreover have time: "m_curr_time ?k' = m_curr_time k" "k_event_queue ?k' c = (k_event_queue k c)\<lparr>eq_change_stamp := m_change_stamp k,
      eq_ppq := pq_insert 0 sc_time_compare ?t ?q\<rparr>"
    using r(1,2) by (simp_all add: upd_queue_frame)
  moreover have ok: "eq_ok c ?k'"
    using assms(1,2) times time(1) upd_queue_frame(3) [OF r(3)] by (auto simp: eq_ok_def)
  moreover have p: "pending ?k' ?e = (if ?first then notify_rule (m_curr_time k) when (pending k ?e) else pending k ?e)"
    using r(4) by (simp add: upd_queue_frame)
  moreover have "eq_due c ?k'" if "eq_due c k"
  proof -
    have "Min_mset (eq_times c k) \<le> m_curr_time k" using that by (auto simp: eq_due_def)
    then have "Min_mset (eq_times c k) \<le> ?t" using assms(2) by (rule order_trans)
    then have "\<not> ?first" unfolding first using that by (auto simp: eq_due_def)
    then show ?thesis using that ok p times(1) time by (simp add: eq_due_def)
  qed
  moreover have "eq_armed c ?k'" if "eq_armed c k"
  proof -
    let ?n = "m_curr_time k"
    have t: "?t = ?n \<longleftrightarrow> when = 0" "?n + when = ?t" by (simp_all add: add.commute)
    have p0: "pending k ?e = (if eq_times c k = {#} then Nothing
        else if Min_mset (eq_times c k) = ?n then Next_Delta else At_Time (Min_mset (eq_times c k)))"
      using that by (simp add: eq_armed_def)
    have e: "eq_e (k_event_queue ?k' c) = ?e" using time by simp
    show ?thesis
    proof (cases "eq_times c k = {#}")
      case True
      then have "pending ?k' ?e = (if when = 0 then Next_Delta else At_Time ?t)"
        using p p0 first t(2) by (simp add: notify_rule_cases)
      then show ?thesis unfolding eq_armed_def times(1) time(1) e Min_add using ok True t(1) by simp
    next
      case False
      define m where "m = Min_mset (eq_times c k)"
      have "m \<in># eq_times c k" using False by (simp add: m_def)
      then have m: "?n \<le> m" using assms(1) by (simp add: eq_ok_def)
      have "pending ?k' ?e = (if ?t < m then notify_rule ?n when (pending k ?e) else pending k ?e)"
        using p first False by (simp add: m_def)
      moreover have "pending k ?e = (if m = ?n then Next_Delta else At_Time m)" using p0 False by (simp add: m_def)
      ultimately have "pending ?k' ?e = (if min ?t m = ?n then Next_Delta else At_Time (min ?t m))"
        using m assms(2) t(1) unfolding notify_rule_cases t(2) by (auto simp: min_def)
      then show ?thesis unfolding eq_armed_def times(1) time(1) e Min_add using ok False by (simp add: m_def)
    qed
  qed
  ultimately show ?thesis by (intro exI [of _ ?k']) simp
qed

lemma eq_fire_event_spec:
  assumes "eq_due c k"
  shows "\<exists>k'. eq_fire_event c k = Inr k' \<and> eq_armed c k' \<and> eq_times c k = add_mset (m_curr_time k) (eq_times c k') \<and>
    m_curr_time k' = m_curr_time k \<and> eq_e (k_event_queue k' c) = eq_e (k_event_queue k c)"
proof -
  let ?e = "eq_e (k_event_queue k c)" and ?q = "eq_ppq (k_event_queue k c)"
  have q: "times.pq_inv ?q" "notify_inv k" and now: "m_curr_time k \<in># pq_elems ?q" "\<forall>t \<in># pq_elems ?q. m_curr_time k \<le> t"
    and idle: "pending k ?e = Nothing"
    using assms by (simp_all add: eq_due_def eq_ok_def eq_times_def)
  have ne: "m_heap_size ?q > 0" using size_elems [OF q(1)] now(1) by auto
  obtain q1 where q1: "pq_extract_top sc_time_compare ?q = Inr (pq_top ?q, q1)" "times.pq_inv q1"
    "pq_elems ?q = add_mset (pq_top ?q) (pq_elems q1)" "pq_top ?q = Min_mset (pq_elems ?q)" by (rule top_is_min [OF q(1) ne])
  have top: "pq_top ?q = m_curr_time k" unfolding q1(4) using now by (intro Min_eqI) auto
  let ?k = "upd_event_queue c (\<lambda>eq. eq\<lparr>eq_ppq := q1\<rparr>) k"
  have inv: "notify_inv ?k" by (rule upd_queue_frame(3) [OF q(2)])
  have ge: "\<forall>t \<in># pq_elems q1. m_curr_time k \<le> t" using now(2) q1(3) by simp
  show ?thesis
  proof (cases "pq_elems q1 = {#}")
    case True
    then have "eq_fire_event c k = Inr ?k"
      using ne q1(1) top size_elems [OF q1(2)] by (simp add: eq_fire_event_def pq_empty_def upd_queue_frame Let_def)
    moreover have "eq_armed c ?k" using True q1(2) inv idle by (simp add: eq_armed_def eq_ok_def eq_times_def upd_queue_frame)
    ultimately show ?thesis using q1(3) top by (simp add: eq_times_def upd_queue_frame)
  next
    case False
    then have pos: "m_heap_size q1 > 0" using size_elems [OF q1(2)] by simp
    have nxt: "pq_top q1 = Min_mset (pq_elems q1)" by (rule top_min [OF q1(2) pos])
    have "Min_mset (pq_elems q1) \<in># pq_elems q1" using False by simp
    then have le: "m_curr_time k \<le> Min_mset (pq_elems q1)" using ge by blast
    let ?d = "Min_mset (pq_elems q1) - m_curr_time k"
    obtain k' where k': "notify_at ?e ?d ?k = Inr k'"
      "refines_to ?k k' ((pending ?k)(?e := notify_rule (m_curr_time ?k) ?d (pending ?k ?e)))"
      using notify_at_refines [OF inv] by blast
    note r = refines_queues [OF k'(2)]
    have "eq_fire_event c k = Inr k'"
      using ne q1(1) top pos nxt k'(1) by (simp add: eq_fire_event_def pq_empty_def upd_queue_frame Let_def sc_time_sub_def)
    moreover have "eq_ok c k'" using r q1(2) ge by (simp add: eq_ok_def eq_times_def upd_queue_frame)
    then have "eq_armed c k'"
      using r False idle by (simp add: eq_armed_def eq_times_def upd_queue_frame notify_rule_cases)
    ultimately show ?thesis using r q1(3) top by (simp add: eq_times_def upd_queue_frame)
  qed
qed

text \<open>C17: an event queue loses no notification.  As long as the event is notified for the earliest
  time of the queue, and also between the moment that time has come and the run of \<open>fire_event\<close>, a notification adds
  its time, cancelling empties the queue, and when the method runs it takes out the present time once and
  notifies the event for the next one, which may be the same; nothing of this fails, as long as the times do not wrap at 64 bits.\<close>

theorem event_queue_keeps_all:
  assumes "eq_armed c k \<or> eq_due c k" and "m_curr_time k \<le> when + m_curr_time k"
  shows "(\<exists>k'. eq_notify c when k = Inr k' \<and> eq_times c k' = add_mset (when + m_curr_time k) (eq_times c k) \<and>
      (if eq_due c k then eq_due c k' else eq_armed c k')) \<and>
    (\<exists>k'. eq_cancel_all c k = Inr k' \<and> eq_times c k' = {#} \<and> eq_armed c k') \<and>
    (if eq_due c k
     then \<exists>k'. eq_fire_event c k = Inr k' \<and> eq_times c k = add_mset (m_curr_time k) (eq_times c k') \<and> eq_armed c k'
     else True)"
proof -
  have ok: "eq_ok c k" using assms(1) by (auto simp: eq_armed_def eq_due_def)
  have "eq_armed c k" if "\<not> eq_due c k" using assms(1) that by blast
  with eq_notify_spec [OF ok assms(2,1)] eq_cancel_all_spec [OF ok] show ?thesis
    by (auto dest: eq_fire_event_spec)
qed

text \<open>A queue in the kernel after \<open>init\<close>.\<close>

definition empty_event_queue :: event_queues_kernel where
  "empty_event_queue = kernel.extend (simcontext_init None SC_STOP_FINISH_DELTA False)
     (event_queues_kernel.fields (\<lambda>_. event_queue_new 10))"

lemma empty_event_queue_armed: "eq_armed 1 empty_event_queue" "eq_times 1 empty_event_queue = {#}" "m_curr_time empty_event_queue = 0"
proof -
  have q: "k_event_queue empty_event_queue 1 = event_queue_new 10"
    by (simp add: empty_event_queue_def kernel.extend_def event_queues_kernel.fields_def)
  have "notify_inv empty_event_queue" by (simp only: empty_event_queue_def extend_inv simcontext_init_inv)
  moreover have "pending empty_event_queue e = Nothing" for e
    unfolding empty_event_queue_def extend_inv by (simp add: pending_Nothing simcontext_init_def sc_event_new_def)
  ultimately show "eq_armed 1 empty_event_queue" "eq_times 1 empty_event_queue = {#}"
    using times.new_inv [of 0 128] q by (simp_all add: eq_armed_def eq_ok_def eq_times_def event_queue_new_def)
  show "m_curr_time empty_event_queue = 0"
    by (simp add: empty_event_queue_def kernel.extend_def simcontext_init_def SC_ZERO_TIME_def)
qed

theorem event_queue_keeps_all_witness:
  "\<exists>k'. eq_notify 1 7 empty_event_queue = Inr k' \<and> eq_times 1 k' = {#7#}"
proof -
  have "eq_armed 1 empty_event_queue \<or> eq_due 1 empty_event_queue" using empty_event_queue_armed(1) by blast
  from event_queue_keeps_all [OF this, of 7] show ?thesis unfolding empty_event_queue_armed(2,3) by auto
qed

section \<open>A cancelled queue that is notified again\<close>

text \<open>If the time of the queue has come and, before \<open>fire_event\<close> runs, another process cancels the
  queue and notifies it for a later time, then \<open>fire_event\<close> takes that later time for the one that fired and its assertion fails.\<close>

theorem cancel_before_fire_aborts:
  assumes "eq_due c k" and "when \<noteq> 0" and "m_curr_time k \<le> when + m_curr_time k"
  shows "\<exists>k1 k2. eq_cancel_all c k = Inr k1 \<and> eq_notify c when k1 = Inr k2 \<and> eq_fire_event c k2 = Inl AssertFailed"
proof -
  have "eq_ok c k" using assms(1) by (simp add: eq_due_def)
  then obtain k1 where 1: "eq_cancel_all c k = Inr k1" "eq_armed c k1" "eq_times c k1 = {#}" "m_curr_time k1 = m_curr_time k"
    using eq_cancel_all_spec by blast
  have "eq_ok c k1" "m_curr_time k1 \<le> when + m_curr_time k1" "eq_armed c k1 \<or> eq_due c k1"
    using 1(2,4) assms(3) by (simp_all add: eq_armed_def)
  from eq_notify_spec [OF this] obtain k2 where 2: "eq_notify c when k1 = Inr k2" "eq_times c k2 = {#when + m_curr_time k#}"
    "eq_armed c k2" "m_curr_time k2 = m_curr_time k" using 1(2,3,4) by auto
  let ?q = "eq_ppq (k_event_queue k2 c)"
  have q: "times.pq_inv ?q" "pq_elems ?q = {#when + m_curr_time k#}" using 2(2,3) by (simp_all add: eq_armed_def eq_ok_def eq_times_def)
  then have pos: "m_heap_size ?q > 0" using size_elems [OF q(1)] by simp
  obtain q' where q': "pq_extract_top sc_time_compare ?q = Inr (pq_top ?q, q')" "pq_top ?q = Min_mset (pq_elems ?q)"
    by (rule top_is_min [OF q(1) pos])
  have "pq_top ?q \<noteq> m_curr_time k2" using q'(2) q(2) 2(4) assms(2) by simp
  then have "eq_fire_event c k2 = Inl AssertFailed"
    using pos q'(1) by (simp add: eq_fire_event_def pq_empty_def upd_queue_frame Let_def)
  with 1(1) 2(1) show ?thesis by blast
qed

definition due_event_queue :: event_queues_kernel where
  "due_event_queue = upd_event_queue 1 (\<lambda>eq. eq\<lparr>eq_ppq := pq_insert 0 sc_time_compare 0 (eq_ppq eq)\<rparr>) empty_event_queue"

theorem cancel_before_fire_aborts_witness:
  "\<exists>k1 k2. eq_cancel_all 1 due_event_queue = Inr k1 \<and> eq_notify 1 7 k1 = Inr k2 \<and> eq_fire_event 1 k2 = Inl AssertFailed"
proof -
  have e: "eq_ok 1 empty_event_queue" "pending empty_event_queue (eq_e (k_event_queue empty_event_queue 1)) = Nothing"
    using empty_event_queue_armed by (simp_all add: eq_armed_def)
  have q: "times.pq_inv (eq_ppq (k_event_queue empty_event_queue 1))" "notify_inv empty_event_queue"
    "pq_elems (eq_ppq (k_event_queue empty_event_queue 1)) = {#}"
    using e(1) empty_event_queue_armed(2) by (simp_all add: eq_ok_def eq_times_def)
  have "eq_due 1 due_event_queue"
    unfolding eq_due_def eq_ok_def eq_times_def due_event_queue_def upd_queue_frame
    using times.insert_inv [OF q(1), of 0 0] q(2,3) e(2) upd_queue_frame(3) [OF q(2)] empty_event_queue_armed(3) by simp
  moreover have "m_curr_time due_event_queue = 0" by (simp add: due_event_queue_def upd_queue_frame empty_event_queue_armed(3))
  ultimately show ?thesis using cancel_before_fire_aborts [of 1 due_event_queue 7] by simp
qed

end
