(* ===== verification/Sc_Port.thy ===== *)
theory Sc_Port
  imports Sc_Channels Sc_Ids
begin

text \<open>
  \<open>sysc/communication/sc_port\<close>: ports, how they are bound to channels and to the ports of the enclosing
  module, and how the binding is completed when the elaboration ends.  Ports and interfaces are
  numbered; the state of the ports is added to the kernel with its signals.  What an interface
  does when a port is registered with it, and which events it has, is called through the record
  \<open>iface_ops\<close>; the dynamic casts to the type of the interface always succeed in a program that compiles.
\<close>

section \<open>State\<close>

datatype port_policy = SC_ONE_OR_MORE_BOUND | SC_ZERO_OR_MORE_BOUND | SC_ALL_BOUND

record bind_elem =
  be_iface :: "nat option"
  be_parent :: "nat option"

text \<open>A process that is sensitive to the port, and the event finder, a number of an event method, if it
  was made sensitive through one.\<close>

record bind_ef =
  ef_handle :: process
  ef_finder :: "nat option"

record bind_info =
  bi_max_size :: int
  bi_policy :: port_policy
  bi_vec :: "bind_elem list"
  bi_has_parent :: bool
  bi_last_add :: int
  bi_is_leaf :: bool
  bi_complete :: bool
  bi_thread_vec :: "bind_ef list"
  bi_method_vec :: "bind_ef list"

definition bind_info_new :: "int \<Rightarrow> port_policy \<Rightarrow> bind_info" where
  "bind_info_new n pol = \<lparr>bi_max_size = n, bi_policy = pol, bi_vec = [], bi_has_parent = False, bi_last_add = -1,
     bi_is_leaf = True, bi_complete = False, bi_thread_vec = [], bi_method_vec = []\<rparr>"

definition bind_max_size :: "bind_info \<Rightarrow> int" where
  "bind_max_size bi = (if bi_max_size bi \<noteq> 0 then bi_max_size bi else int (length (bi_vec bi)))"

text \<open>\<open>m_interface\<close> is the first element of \<open>m_interface_vec\<close>, or null.\<close>

record sc_port =
  m_bind_info :: "bind_info option"
  m_interface_vec :: "nat list"

record 'v ports_kernel = "'v signals_kernel" +
  k_port :: "nat \<Rightarrow> sc_port"
  k_output :: "nat \<Rightarrow> nat option"
  m_port_vec :: "nat list"
  m_construction_done :: int
  k_curr_module :: "nat option"
  k_module_ports :: "nat \<Rightarrow> nat list"

definition upd_port :: "nat \<Rightarrow> (sc_port \<Rightarrow> sc_port) \<Rightarrow> ('v, 'a) ports_kernel_scheme \<Rightarrow> ('v, 'a) ports_kernel_scheme" where
  "upd_port p f k = k\<lparr>k_port := (k_port k)(p := f (k_port k p))\<rparr>"

definition upd_info :: "nat \<Rightarrow> (bind_info \<Rightarrow> bind_info) \<Rightarrow> ('v, 'a) ports_kernel_scheme \<Rightarrow> ('v, 'a) ports_kernel_scheme" where
  "upd_info p f = upd_port p (\<lambda>po. po\<lparr>m_bind_info := map_option f (m_bind_info po)\<rparr>)"

text \<open>The calls to an interface.\<close>

record 'k iface_ops =
  if_default_event :: "nat \<Rightarrow> 'k \<Rightarrow> (nat \<times> 'k) res"
  if_find_event :: "nat \<Rightarrow> nat \<Rightarrow> 'k \<Rightarrow> (nat \<times> 'k) res"
  if_register_port :: "nat \<Rightarrow> nat \<Rightarrow> 'k \<Rightarrow> 'k res"

section \<open>Binding\<close>

definition add_interface :: "nat \<Rightarrow> nat \<Rightarrow> ('v, 'a) ports_kernel_scheme \<Rightarrow> ('v, 'a) ports_kernel_scheme res" where
  "add_interface p i k =
     (if i \<in> set (m_interface_vec (k_port k p)) then Inl (ReportError SC_ID_BIND_IF_TO_PORT)
      else Inr (upd_port p (\<lambda>po. po\<lparr>m_interface_vec := m_interface_vec po @ [i]\<rparr>) k))"

definition bind_count :: "nat \<Rightarrow> ('v, 'a) ports_kernel_scheme \<Rightarrow> int" where
  "bind_count p k = (case m_bind_info (k_port k p) of
     Some bi \<Rightarrow> int (length (bi_vec bi)) | None \<Rightarrow> int (length (m_interface_vec (k_port k p))))"

definition bind_interface :: "nat \<Rightarrow> nat \<Rightarrow> ('v, 'a) ports_kernel_scheme \<Rightarrow> ('v, 'a) ports_kernel_scheme res" where
  "bind_interface p i k = (case m_bind_info (k_port k p) of
     None \<Rightarrow> Inl (ReportError SC_ID_BIND_IF_TO_PORT)
   | Some bi \<Rightarrow>
       let k = upd_info p (\<lambda>bi. bi\<lparr>bi_vec := bi_vec bi @ [\<lparr>be_iface = Some i, be_parent = None\<rparr>]\<rparr>) k in
       if \<not> bi_has_parent bi
       then rbind (add_interface p i k) (\<lambda>k. Inr (upd_info p (\<lambda>bi. bi\<lparr>bi_last_add := bi_last_add bi + 1\<rparr>) k))
       else Inr k)"

definition bind_parent :: "nat \<Rightarrow> nat \<Rightarrow> ('v, 'a) ports_kernel_scheme \<Rightarrow> ('v, 'a) ports_kernel_scheme res" where
  "bind_parent p q k =
     (if m_bind_info (k_port k p) = None \<or> q = p then Inl (ReportError SC_ID_BIND_PORT_TO_PORT)
      else if m_bind_info (k_port k q) = None then Inl NullPointer
      else Inr (upd_info q (\<lambda>bi. bi\<lparr>bi_is_leaf := False\<rparr>)
        (upd_info p (\<lambda>bi. bi\<lparr>bi_vec := bi_vec bi @ [\<lparr>be_iface = None, be_parent = Some q\<rparr>], bi_has_parent := True\<rparr>) k)))"

definition pbind_interface :: "nat \<Rightarrow> nat \<Rightarrow> ('v, 'a) ports_kernel_scheme \<Rightarrow> (int \<times> ('v, 'a) ports_kernel_scheme) res" where
  "pbind_interface p i k = (case m_bind_info (k_port k p) of
     None \<Rightarrow> Inl (ReportError SC_ID_BIND_IF_TO_PORT)
   | Some bi \<Rightarrow> if bi_vec bi \<noteq> [] then Inr (1, k) else rbind (bind_interface p i k) (\<lambda>k. Inr (0, k)))"

definition pbind_parent :: "nat \<Rightarrow> nat \<Rightarrow> ('v, 'a) ports_kernel_scheme \<Rightarrow> (int \<times> ('v, 'a) ports_kernel_scheme) res" where
  "pbind_parent p q k = (case m_bind_info (k_port k p) of
     None \<Rightarrow> Inl (ReportError SC_ID_BIND_PORT_TO_PORT)
   | Some bi \<Rightarrow> if bi_vec bi \<noteq> [] then Inr (1, k) else rbind (bind_parent p q k) (\<lambda>k. Inr (0, k)))"

text \<open>Before the end of the elaboration the sensitivity is only noted.\<close>

definition make_sensitive :: "('v, 'a) ports_kernel_scheme iface_ops \<Rightarrow> nat \<Rightarrow> process \<Rightarrow> nat option \<Rightarrow>
    ('v, 'a) ports_kernel_scheme \<Rightarrow> ('v, 'a) ports_kernel_scheme res" where
  "make_sensitive ops p h finder k = (case m_bind_info (k_port k p) of
     None \<Rightarrow> res_fold (\<lambda>i k. rbind (if_default_event ops i k) (\<lambda>(e, k). Inr (add_static_event h e k)))
       (m_interface_vec (k_port k p)) k
   | Some bi \<Rightarrow>
       let ef = \<lparr>ef_handle = h, ef_finder = finder\<rparr> in
       Inr (upd_info p (\<lambda>bi. case h of
         Thread _ \<Rightarrow> bi\<lparr>bi_thread_vec := bi_thread_vec bi @ [ef]\<rparr>
       | Method _ \<Rightarrow> bi\<lparr>bi_method_vec := bi_method_vec bi @ [ef]\<rparr>) k))"

section \<open>Completing the binding\<close>

fun first_parent_from :: "nat \<Rightarrow> bind_elem list \<Rightarrow> nat option" where
  "first_parent_from i [] = None"
| "first_parent_from i (e # es) = (if be_parent e \<noteq> None then Some i else first_parent_from (i + 1) es)"

definition first_parent :: "bind_info \<Rightarrow> nat option" where
  "first_parent bi = first_parent_from 0 (bi_vec bi)"

text \<open>The three loops that put the interfaces \<open>pv\<close> of the parent in the place \<open>i\<close>: new elements at the end, the
  elements behind \<open>i\<close> moved, from the last one, and the interfaces copied.\<close>

definition splice_loops :: "bind_elem list \<Rightarrow> nat \<Rightarrow> bind_elem list \<Rightarrow> bind_elem list" where
  "splice_loops vec i pv =
     (let n = length pv - 1;
          vec = vec[i := \<lparr>be_iface = be_iface (pv ! 0), be_parent = None\<rparr>];
          sz = length vec;
          vec = vec @ replicate n \<lparr>be_iface = None, be_parent = None\<rparr>;
          vec = fold (\<lambda>k v. v[k + n := v ! k]) (rev [i + 1..<sz]) vec
      in fold (\<lambda>k v. v[k := \<lparr>be_iface = be_iface (pv ! (k - i)), be_parent = None\<rparr>]) [i + 1..<i + n + 1] vec)"

definition insert_parent :: "nat \<Rightarrow> nat \<Rightarrow> ('v, 'a) ports_kernel_scheme \<Rightarrow> ('v, 'a) ports_kernel_scheme res" where
  "insert_parent p i k = (case m_bind_info (k_port k p) of
     None \<Rightarrow> Inl NullPointer
   | Some bi \<Rightarrow> (case be_parent (bi_vec bi ! i) of
       None \<Rightarrow> Inl NullPointer
     | Some q \<Rightarrow> (case m_bind_info (k_port k q) of
         None \<Rightarrow> Inl NullPointer
       | Some pbi \<Rightarrow>
           if bi_vec pbi = [] then Inr (upd_info p (\<lambda>bi. bi\<lparr>bi_vec := (bi_vec bi)[i := (bi_vec bi ! i)\<lparr>be_parent := None\<rparr>]\<rparr>) k)
           else Inr (upd_info p (\<lambda>bi. bi\<lparr>bi_vec := splice_loops (bi_vec bi) i (bi_vec pbi)\<rparr>) k))))"

definition complete_sensitivity :: "('v, 'a) ports_kernel_scheme iface_ops \<Rightarrow> nat \<Rightarrow> bind_ef list \<Rightarrow>
    ('v, 'a) ports_kernel_scheme \<Rightarrow> ('v, 'a) ports_kernel_scheme res" where
  "complete_sensitivity ops i = res_fold (\<lambda>ef k.
     rbind (case ef_finder ef of Some f \<Rightarrow> if_find_event ops f i k | None \<Rightarrow> if_default_event ops i k)
       (\<lambda>(e, k). Inr (add_static_event (ef_handle ef) e k)))"

definition complete_interface :: "('v, 'a) ports_kernel_scheme iface_ops \<Rightarrow> nat \<Rightarrow> nat \<Rightarrow>
    ('v, 'a) ports_kernel_scheme \<Rightarrow> ('v, 'a) ports_kernel_scheme res" where
  "complete_interface ops p j k = (case m_bind_info (k_port k p) of
     None \<Rightarrow> Inl NullPointer
   | Some bi \<Rightarrow> (case be_iface (bi_vec bi ! j) of
       None \<Rightarrow> Inr k
     | Some i \<Rightarrow>
         rbind (if int j > bi_last_add bi then add_interface p i k else Inr k) (\<lambda>k.
         rbind (if bi_is_leaf bi then if_register_port ops i p k else Inr k) (\<lambda>k.
         rbind (complete_sensitivity ops i (bi_method_vec bi) k)
           (complete_sensitivity ops i (bi_thread_vec bi))))))"

definition check_binds :: "nat \<Rightarrow> ('v, 'a) ports_kernel_scheme \<Rightarrow> ('v, 'a) ports_kernel_scheme res" where
  "check_binds p k = (case m_bind_info (k_port k p) of
     None \<Rightarrow> Inl NullPointer
   | Some bi \<Rightarrow>
       let n = int (length (m_interface_vec (k_port k p))) in
       if n > bind_max_size bi then Inl (ReportError SC_ID_COMPLETE_BINDING)
       else if bi_policy bi = SC_ONE_OR_MORE_BOUND \<and> n < 1 then Inl (ReportError SC_ID_COMPLETE_BINDING)
       else if bi_policy bi = SC_ALL_BOUND \<and> (n < bind_max_size bi \<or> n < 1) then Inl (ReportError SC_ID_COMPLETE_BINDING)
       else Inr k)"

definition free_binding :: "bind_info \<Rightarrow> bind_info" where
  "free_binding bi = bi\<lparr>bi_method_vec := [], bi_thread_vec := []\<rparr>"

definition finish_binding :: "('v, 'a) ports_kernel_scheme iface_ops \<Rightarrow> nat \<Rightarrow>
    ('v, 'a) ports_kernel_scheme \<Rightarrow> ('v, 'a) ports_kernel_scheme res" where
  "finish_binding ops p k = (case m_bind_info (k_port k p) of
     None \<Rightarrow> Inl NullPointer
   | Some bi \<Rightarrow>
       rbind (res_fold (complete_interface ops p) [0..<length (bi_vec bi)] k) (\<lambda>k.
       rbind (check_binds p k) (\<lambda>k.
       Inr (upd_info p (\<lambda>bi. (free_binding bi)\<lparr>bi_complete := True\<rparr>) k))))"

text \<open>\<open>complete_binding\<close> calls itself for the parents; \<open>entry\<close> tells the call from the
  next pass of its loop over the parents.\<close>

partial_function (option) complete_at :: "('v, 'a) ports_kernel_scheme iface_ops \<Rightarrow> bool \<Rightarrow> nat \<Rightarrow>
    ('v, 'a) ports_kernel_scheme \<Rightarrow> ('v, 'a) ports_kernel_scheme res option" where
  "complete_at ops entry p k = (case m_bind_info (k_port k p) of
     None \<Rightarrow> Some (Inl AssertFailed)
   | Some bi \<Rightarrow>
       if entry \<and> bi_complete bi then Some (Inr k)
       else (case first_parent bi of
         None \<Rightarrow> Some (finish_binding ops p k)
       | Some i \<Rightarrow>
           obind (complete_at ops True (the (be_parent (bi_vec bi ! i))) k) (\<lambda>k.
           obind (Some (insert_parent p i k)) (complete_at ops False p))))"

definition complete_binding :: "('v, 'a) ports_kernel_scheme iface_ops \<Rightarrow> nat \<Rightarrow>
    ('v, 'a) ports_kernel_scheme \<Rightarrow> ('v, 'a) ports_kernel_scheme res option" where
  "complete_binding ops = complete_at ops True"

definition port_elaboration_done :: "nat \<Rightarrow> ('v, 'a) ports_kernel_scheme \<Rightarrow> ('v, 'a) ports_kernel_scheme res" where
  "port_elaboration_done p k = (case m_bind_info (k_port k p) of
     None \<Rightarrow> Inl AssertFailed
   | Some bi \<Rightarrow> if bi_complete bi then Inr (upd_port p (\<lambda>po. po\<lparr>m_bind_info := None\<rparr>) k) else Inl AssertFailed)"

section \<open>Access\<close>

definition port_arrow :: "nat \<Rightarrow> ('v, 'a) ports_kernel_scheme \<Rightarrow> nat res" where
  "port_arrow p k = (case m_interface_vec (k_port k p) of
     [] \<Rightarrow> Inl (ReportError SC_ID_GET_IF) | i # _ \<Rightarrow> Inr i)"

definition get_interface :: "nat \<Rightarrow> int \<Rightarrow> ('v, 'a) ports_kernel_scheme \<Rightarrow> nat option res" where
  "get_interface p ix k =
     (let v = m_interface_vec (k_port k p) in
      if ix = 0 then Inr (case v of [] \<Rightarrow> None | i # _ \<Rightarrow> Some i)
      else if ix < 0 \<or> ix \<ge> int (length v) then Inl (ReportError SC_ID_GET_IF)
      else Inr (Some (v ! nat ix)))"

section \<open>The registry\<close>

definition registry_insert :: "nat \<Rightarrow> ('v, 'a) ports_kernel_scheme \<Rightarrow> ('v, 'a) ports_kernel_scheme res" where
  "registry_insert p k =
     (if m_ready_to_simulate k \<or> m_elaboration_done k then Inl (ReportError SC_ID_INSERT_PORT)
      else case k_curr_module k of
        None \<Rightarrow> Inl (ReportError SC_ID_PORT_OUTSIDE_MODULE)
      | Some c \<Rightarrow> Inr (k\<lparr>k_module_ports := (k_module_ports k)(c := k_module_ports k c @ [p]), m_port_vec := m_port_vec k @ [p]\<rparr>))"

definition port_new :: "nat \<Rightarrow> int \<Rightarrow> port_policy \<Rightarrow> ('v, 'a) ports_kernel_scheme \<Rightarrow> ('v, 'a) ports_kernel_scheme res" where
  "port_new p n pol k =
     rbind (registry_insert p (upd_port p (\<lambda>_. \<lparr>m_bind_info = None, m_interface_vec = []\<rparr>) k)) (\<lambda>k.
       Inr (upd_port p (\<lambda>po. po\<lparr>m_bind_info := Some (bind_info_new n pol)\<rparr>) k))"

text \<open>The search from the back; the found element is overwritten by the last one.\<close>

definition registry_remove :: "nat \<Rightarrow> ('v, 'a) ports_kernel_scheme \<Rightarrow> ('v, 'a) ports_kernel_scheme res" where
  "registry_remove p k = (case remove_swap p (length (m_port_vec k)) (m_port_vec k) of
     (found, ps) \<Rightarrow> if found then Inr (k\<lparr>m_port_vec := ps\<rparr>) else Inl (ReportError SC_ID_REMOVE_PORT))"

definition registry_construction_done :: "(nat \<Rightarrow> ('v, 'a) ports_kernel_scheme \<Rightarrow> ('v, 'a) ports_kernel_scheme res) \<Rightarrow>
    ('v, 'a) ports_kernel_scheme \<Rightarrow> (bool \<times> ('v, 'a) ports_kernel_scheme) res" where
  "registry_construction_done callback k =
     (if int (length (m_port_vec k)) = m_construction_done k then Inr (True, k)
      else rbind (res_fold callback (rev (drop (nat (m_construction_done k)) (m_port_vec k))) k) (\<lambda>k.
        Inr (False, k\<lparr>m_construction_done := int (length (m_port_vec k))\<rparr>)))"

fun complete_all :: "('v, 'a) ports_kernel_scheme iface_ops \<Rightarrow> nat list \<Rightarrow>
    ('v, 'a) ports_kernel_scheme \<Rightarrow> ('v, 'a) ports_kernel_scheme res option" where
  "complete_all ops [] k = Some (Inr k)"
| "complete_all ops (p # ps) k = obind (complete_binding ops p k) (complete_all ops ps)"

definition registry_elaboration_done :: "('v, 'a) ports_kernel_scheme iface_ops \<Rightarrow>
    ('v, 'a) ports_kernel_scheme \<Rightarrow> ('v, 'a) ports_kernel_scheme res option" where
  "registry_elaboration_done ops k =
     obind (complete_all ops (rev (m_port_vec k)) k) (\<lambda>k. Some (res_fold port_elaboration_done (rev (m_port_vec k)) k))"

section \<open>Signals as interfaces\<close>

text \<open>\<open>sc_signal::register_port\<close> with the check of its policy: with \<open>SC_ONE_WRITER\<close> only one output port.
  \<open>ev\<close> numbers the event objects that the event methods of a signal allocate.\<close>

definition signal_register_port :: "(nat \<Rightarrow> bool) \<Rightarrow> nat \<Rightarrow> nat \<Rightarrow> ('v, 'a) ports_kernel_scheme \<Rightarrow> ('v, 'a) ports_kernel_scheme res" where
  "signal_register_port is_output i p k =
     (if s_policy (k_signal k i) = SC_ONE_WRITER \<and> is_output p \<and> m_write_check k \<noteq> SC_SIGNAL_WRITE_CHECK_DISABLE \<and>
        m_write_check k \<noteq> SC_SIGNAL_WRITE_CHECK_CONFLICT
      then if k_output k i \<noteq> None then Inl MultipleDrivers else Inr (k\<lparr>k_output := (k_output k)(i := Some p)\<rparr>)
      else Inr k)"

definition signal_find_event :: "(nat \<Rightarrow> nat \<Rightarrow> nat) \<Rightarrow> nat \<Rightarrow> nat \<Rightarrow> ('v, 'a) ports_kernel_scheme \<Rightarrow> nat \<times> ('v, 'a) ports_kernel_scheme" where
  "signal_find_event ev f i k =
     (if f = 1 then posedge_event (ev f i) i k else if f = 2 then negedge_event (ev f i) i k else value_changed_event (ev 0 i) i k)"

definition signal_ops :: "(nat \<Rightarrow> bool) \<Rightarrow> (nat \<Rightarrow> nat \<Rightarrow> nat) \<Rightarrow> ('v, 'a) ports_kernel_scheme iface_ops" where
  "signal_ops is_output ev = \<lparr>if_default_event = \<lambda>i k. Inr (signal_find_event ev 0 i k),
     if_find_event = \<lambda>f i k. Inr (signal_find_event ev f i k), if_register_port = signal_register_port is_output\<rparr>"

section \<open>The loops of \<open>insert_parent\<close>\<close>

lemma shift_loop:
  assumes "sz + n \<le> length v"
  shows "length (fold (\<lambda>k v. v[k + n := v ! k]) (rev [a..<sz]) v) = length v \<and>
    (\<forall>j < length v. fold (\<lambda>k v. v[k + n := v ! k]) (rev [a..<sz]) v ! j =
      (if a + n \<le> j \<and> j < sz + n then v ! (j - n) else v ! j))"
  using assms
proof (induction sz arbitrary: v)
  case (Suc s)
  show ?case
  proof (cases "a \<le> s")
    case True
    let ?v = "v[s + n := v ! s]"
    have f: "fold (\<lambda>k v. v[k + n := v ! k]) (rev [a..<Suc s]) v = fold (\<lambda>k v. v[k + n := v ! k]) (rev [a..<s]) ?v"
      using True by simp
    have "s + n \<le> length ?v" using Suc.prems by simp
    note ih = Suc.IH [OF this]
    show ?thesis unfolding f
    proof (intro conjI allI impI)
      show "length (fold (\<lambda>k v. v[k + n := v ! k]) (rev [a..<s]) ?v) = length v" using ih by simp
      fix j assume j: "j < length v"
      then show "fold (\<lambda>k v. v[k + n := v ! k]) (rev [a..<s]) ?v ! j =
          (if a + n \<le> j \<and> j < Suc s + n then v ! (j - n) else v ! j)"
        using ih True by (cases "n = 0") (auto simp: nth_list_update less_Suc_eq)
    qed
  qed auto
qed auto

lemma copy_loop:
  "length (fold (\<lambda>k v. v[k := g k]) [a..<b] v) = length v \<and>
    (\<forall>j < length v. fold (\<lambda>k v. v[k := g k]) [a..<b] v ! j = (if a \<le> j \<and> j < b then g j else v ! j))"
proof (induction b)
  case (Suc b)
  then show ?case by (cases "a \<le> b") (auto simp: nth_list_update less_Suc_eq)
qed simp

definition el :: "nat option \<Rightarrow> bind_elem" where
  "el x = \<lparr>be_iface = x, be_parent = None\<rparr>"

lemma splice_loops_eq:
  assumes "i < length vec" and "pv \<noteq> []"
  shows "splice_loops vec i pv = take i vec @ map (\<lambda>e. el (be_iface e)) pv @ drop (i + 1) vec"
proof -
  obtain x xs where pv: "pv = x # xs" using assms(2) by (cases pv) simp_all
  let ?n = "length xs" and ?v = "vec[i := \<lparr>be_iface = be_iface (pv ! 0), be_parent = None\<rparr>]"
  let ?w = "?v @ replicate ?n \<lparr>be_iface = None, be_parent = None\<rparr>"
  let ?s = "fold (\<lambda>k v. v[k + ?n := v ! k]) (rev [i + 1..<length vec]) ?w"
  let ?r = "splice_loops vec i pv"
  have s: "length ?s = length vec + ?n" "\<And>j. j < length vec + ?n \<Longrightarrow> ?s ! j =
      (if i + 1 + ?n \<le> j \<and> j < length vec + ?n then ?w ! (j - ?n) else ?w ! j)"
    using shift_loop [of "length vec" ?n ?w "i + 1"] by simp_all
  have r: "?r = fold (\<lambda>k v. v[k := \<lparr>be_iface = be_iface (pv ! (k - i)), be_parent = None\<rparr>]) [i + 1..<i + ?n + 1] ?s"
    by (simp add: splice_loops_def Let_def pv)
  have len: "length ?r = length vec + ?n"
    and at: "\<And>j. j < length vec + ?n \<Longrightarrow> ?r ! j =
      (if i + 1 \<le> j \<and> j < i + ?n + 1 then \<lparr>be_iface = be_iface (pv ! (j - i)), be_parent = None\<rparr> else ?s ! j)"
    unfolding r using copy_loop [of "\<lambda>k. \<lparr>be_iface = be_iface (pv ! (k - i)), be_parent = None\<rparr>" "i + 1" "i + ?n + 1" ?s] s(1) by simp_all
  show ?thesis
  proof (rule nth_equalityI)
    show "length ?r = length (take i vec @ map (\<lambda>e. el (be_iface e)) pv @ drop (i + 1) vec)" using len pv assms(1) by simp
    fix j assume "j < length ?r"
    then have j: "j < length vec + ?n" using len by simp
    consider "j < i" | "j = i" | "i < j" "j < i + ?n + 1" | "i + ?n + 1 \<le> j" by linarith
    then show "?r ! j = (take i vec @ map (\<lambda>e. el (be_iface e)) pv @ drop (i + 1) vec) ! j"
    proof cases
      case 1
      then show ?thesis using at [OF j] s(2) [OF j] assms(1) by (simp add: nth_append pv)
    next
      case 2
      then show ?thesis using at [OF j] s(2) [OF j] assms by (simp add: nth_append el_def pv)
    next
      case 3
      then show ?thesis using at [OF j] assms by (simp add: nth_append el_def pv)
    next
      case 4
      then have "j - ?n < length vec" "j - ?n \<noteq> i" "\<not> j - i < Suc ?n" "Suc i + (j - i - Suc ?n) = j - ?n" using j by simp_all
      then show ?thesis using at [OF j] s(2) [OF j] assms 4 by (simp add: nth_append pv)
    qed
  qed
qed

end
