(* ===== verification/Sc_Binding.thy ===== *)
theory Sc_Binding
  imports Sc_Port
begin

text \<open>
  What binding the ports comes to.  During the elaboration the bindings of every port stay well formed, whatever is
  bound in which order.  When the elaboration ends, and no port is its own ancestor, \<open>complete_binding\<close> returns and
  leaves in every port the channels its bindings stand for: a parent port is replaced, in its place, by what it
  is bound to itself.  Between ports that are each other's ancestors it never returns.
\<close>

section \<open>The updates of a port\<close>

lemma k_port_upd_port [simp]: "k_port (upd_port p f k) = (k_port k)(p := f (k_port k p))"
  by (simp add: upd_port_def)

lemma k_port_upd_info [simp]:
  "k_port (upd_info p f k) = (k_port k)(p := (k_port k p)\<lparr>m_bind_info := map_option f (m_bind_info (k_port k p))\<rparr>)"
  by (simp add: upd_info_def)

lemma k_port_add_static [simp]: "k_port (add_static_event h e k) = k_port k"
  by (cases h) (simp_all add: add_static_event_def upd_event_def upd_proc_def)

lemma m_port_vec_upd [simp]: "m_port_vec (upd_port p f k) = m_port_vec k" "m_port_vec (upd_info p g k) = m_port_vec k"
  by (simp_all add: upd_port_def upd_info_def)

lemma k_output_upd [simp]: "k_output (upd_port p f k) = k_output k" "k_output (upd_info p g k) = k_output k"
  by (simp_all add: upd_port_def upd_info_def)

lemma k_output_add_static [simp]: "k_output (add_static_event h e k) = k_output k"
  by (cases h) (simp_all add: add_static_event_def upd_event_def upd_proc_def)

lemma m_port_vec_add_static [simp]: "m_port_vec (add_static_event h e k) = m_port_vec k"
  by (cases h) (simp_all add: add_static_event_def upd_event_def upd_proc_def)

lemma k_port_add_interface:
  "add_interface p i k = Inr k' \<longleftrightarrow> i \<notin> set (m_interface_vec (k_port k p)) \<and>
    k' = upd_port p (\<lambda>po. po\<lparr>m_interface_vec := m_interface_vec po @ [i]\<rparr>) k"
  by (auto simp: add_interface_def)

lemma el_simps [simp]: "be_iface (el x) = x" "be_parent (el x) = None"
  by (simp_all add: el_def)

lemma el_be_iface [simp]: "be_parent e = None \<Longrightarrow> el (be_iface e) = e"
  by (simp add: el_def)

section \<open>The bindings during the elaboration\<close>

text \<open>A binding is to an interface or to a parent.  As long as there is no parent the interfaces are cached
  in the port, in their order and each once; from the first parent on they are left for later.\<close>

definition info_ok :: "bind_info \<Rightarrow> nat list \<Rightarrow> bool" where
  "info_ok bi v \<longleftrightarrow> \<not> bi_complete bi \<and> distinct v \<and> bi_last_add bi = int (length v) - 1 \<and> length v \<le> length (bi_vec bi) \<and>
     take (length v) (bi_vec bi) = map (\<lambda>i. el (Some i)) v \<and> (bi_has_parent bi \<or> length v = length (bi_vec bi)) \<and>
     list_all (\<lambda>e. (be_parent e = None) = (be_iface e \<noteq> None)) (bi_vec bi)"

definition binds_ok :: "('v, 'a) ports_kernel_scheme \<Rightarrow> bool" where
  "binds_ok k \<longleftrightarrow> (\<forall>p bi. m_bind_info (k_port k p) = Some bi \<longrightarrow> info_ok bi (m_interface_vec (k_port k p)))"

definition ports_registered :: "('v, 'a) ports_kernel_scheme \<Rightarrow> bool" where
  "ports_registered k \<longleftrightarrow> distinct (m_port_vec k) \<and> (\<forall>p. p \<in> set (m_port_vec k) \<longleftrightarrow> m_bind_info (k_port k p) \<noteq> None)"

text \<open>The parents exist, and rank above: a port is bound to the ports of the enclosing module.\<close>

definition ranked :: "(nat \<Rightarrow> nat) \<Rightarrow> ('v, 'a) ports_kernel_scheme \<Rightarrow> bool" where
  "ranked rk k \<longleftrightarrow> (\<forall>p bi e q. m_bind_info (k_port k p) = Some bi \<longrightarrow> e \<in> set (bi_vec bi) \<longrightarrow> be_parent e = Some q \<longrightarrow>
     m_bind_info (k_port k q) \<noteq> None \<and> rk q < rk p)"

inductive elab_step :: "('v, 'a) ports_kernel_scheme iface_ops \<Rightarrow> (nat \<Rightarrow> nat) \<Rightarrow> ('v, 'a) ports_kernel_scheme \<Rightarrow>
    ('v, 'a) ports_kernel_scheme \<Rightarrow> bool" for ops rk where
  step_new: "port_new p n pol k = Inr k' \<Longrightarrow> p \<notin> set (m_port_vec k) \<Longrightarrow> elab_step ops rk k k'"
| step_bind: "bind_interface p i k = Inr k' \<Longrightarrow> elab_step ops rk k k'"
| step_bind_parent: "bind_parent p q k = Inr k' \<Longrightarrow> rk q < rk p \<Longrightarrow> elab_step ops rk k k'"
| step_pbind: "pbind_interface p i k = Inr (n, k') \<Longrightarrow> elab_step ops rk k k'"
| step_pbind_parent: "pbind_parent p q k = Inr (n, k') \<Longrightarrow> rk q < rk p \<Longrightarrow> elab_step ops rk k k'"
| step_sensitive: "make_sensitive ops p h f k = Inr k' \<Longrightarrow> m_bind_info (k_port k p) \<noteq> None \<Longrightarrow> elab_step ops rk k k'"

lemma binds_okI:
  assumes "binds_ok k" and "\<And>q. q \<noteq> p \<Longrightarrow> k_port k' q = k_port k q"
    and "\<And>bi. m_bind_info (k_port k' p) = Some bi \<Longrightarrow> info_ok bi (m_interface_vec (k_port k' p))"
  shows "binds_ok k'"
  using assms unfolding binds_ok_def by metis

lemma registry_insert_keeps: "registry_insert p k = Inr k' \<Longrightarrow> k_port k' = k_port k"
  by (auto simp: registry_insert_def split: if_splits option.splits)

lemma port_new_ports:
  "port_new p n pol k = Inr k' \<Longrightarrow> k_port k' = (k_port k)(p := \<lparr>m_bind_info = Some (bind_info_new n pol), m_interface_vec = []\<rparr>)"
  by (auto simp: port_new_def dest!: registry_insert_keeps)

lemma bind_interface_cases:
  assumes "bind_interface p i k = Inr k'"
  obtains bi where "m_bind_info (k_port k p) = Some bi" and
    "k_port k' = (k_port k)(p := (if bi_has_parent bi
       then (k_port k p)\<lparr>m_bind_info := Some (bi\<lparr>bi_vec := bi_vec bi @ [el (Some i)]\<rparr>)\<rparr>
       else \<lparr>m_bind_info = Some (bi\<lparr>bi_vec := bi_vec bi @ [el (Some i)], bi_last_add := bi_last_add bi + 1\<rparr>),
         m_interface_vec = m_interface_vec (k_port k p) @ [i]\<rparr>))" and
    "bi_has_parent bi \<or> i \<notin> set (m_interface_vec (k_port k p))"
proof -
  obtain bi where bi: "m_bind_info (k_port k p) = Some bi" using assms by (auto simp: bind_interface_def split: option.splits)
  show ?thesis
    by (rule that [OF bi])
      (use assms bi in \<open>auto simp: bind_interface_def Let_def el_def rbind_eq_Inr k_port_add_interface fun_eq_iff split: if_splits\<close>)
qed

lemma bind_parent_cases:
  assumes "bind_parent p q k = Inr k'"
  obtains bi qbi where "q \<noteq> p" and "m_bind_info (k_port k p) = Some bi" and "m_bind_info (k_port k q) = Some qbi" and
    "k_port k' = (k_port k)(
       p := (k_port k p)\<lparr>m_bind_info := Some (bi\<lparr>bi_vec := bi_vec bi @ [\<lparr>be_iface = None, be_parent = Some q\<rparr>], bi_has_parent := True\<rparr>)\<rparr>,
       q := (k_port k q)\<lparr>m_bind_info := Some (qbi\<lparr>bi_is_leaf := False\<rparr>)\<rparr>)"
  using assms by (auto simp: bind_parent_def split: if_splits)

lemma binds_ok_new: "port_new p n pol k = Inr k' \<Longrightarrow> binds_ok k \<Longrightarrow> binds_ok k'"
  by (rule binds_okI [of k p k']) (auto dest!: port_new_ports simp: info_ok_def bind_info_new_def)

lemma info_ok_bind:
  assumes "info_ok bi v"
  shows "bi_has_parent bi \<Longrightarrow> info_ok (bi\<lparr>bi_vec := bi_vec bi @ [el (Some i)]\<rparr>) v"
    and "\<not> bi_has_parent bi \<Longrightarrow> i \<notin> set v \<Longrightarrow> info_ok (bi\<lparr>bi_vec := bi_vec bi @ [el (Some i)], bi_last_add := bi_last_add bi + 1\<rparr>) (v @ [i])"
  using assms by (auto simp: info_ok_def)

lemma info_ok_parent:
  "info_ok bi v \<Longrightarrow> info_ok (bi\<lparr>bi_vec := bi_vec bi @ [\<lparr>be_iface = None, be_parent = Some q\<rparr>], bi_has_parent := True\<rparr>) v"
  "info_ok bi v \<Longrightarrow> info_ok (bi\<lparr>bi_is_leaf := b\<rparr>) v"
  by (auto simp: info_ok_def)

lemma binds_ok_bind:
  assumes "bind_interface p i k = Inr k'" and "binds_ok k"
  shows "binds_ok k'"
proof -
  from assms(1) obtain bi where bi: "m_bind_info (k_port k p) = Some bi" and k': "k_port k' = (k_port k)(p := (if bi_has_parent bi
       then (k_port k p)\<lparr>m_bind_info := Some (bi\<lparr>bi_vec := bi_vec bi @ [el (Some i)]\<rparr>)\<rparr>
       else \<lparr>m_bind_info = Some (bi\<lparr>bi_vec := bi_vec bi @ [el (Some i)], bi_last_add := bi_last_add bi + 1\<rparr>),
         m_interface_vec = m_interface_vec (k_port k p) @ [i]\<rparr>))" and n: "bi_has_parent bi \<or> i \<notin> set (m_interface_vec (k_port k p))"
    by (rule bind_interface_cases)
  have "info_ok bi (m_interface_vec (k_port k p))" using assms(2) bi by (simp add: binds_ok_def)
  from info_ok_bind [OF this] show ?thesis
    by (intro binds_okI [OF assms(2), where p = p]) (use n in \<open>auto simp: k' split: if_splits\<close>)
qed

lemma binds_ok_bind_parent:
  assumes "bind_parent p q k = Inr k'" and "binds_ok k"
  shows "binds_ok k'"
proof -
  from assms(1) obtain bi qbi where "q \<noteq> p" and bi: "m_bind_info (k_port k p) = Some bi" "m_bind_info (k_port k q) = Some qbi"
    and k': "k_port k' = (k_port k)(
       p := (k_port k p)\<lparr>m_bind_info := Some (bi\<lparr>bi_vec := bi_vec bi @ [\<lparr>be_iface = None, be_parent = Some q\<rparr>], bi_has_parent := True\<rparr>)\<rparr>,
       q := (k_port k q)\<lparr>m_bind_info := Some (qbi\<lparr>bi_is_leaf := False\<rparr>)\<rparr>)"
    by (rule bind_parent_cases)
  with assms(2) show ?thesis by (auto simp: binds_ok_def info_ok_parent)
qed

lemma binds_ok_pbind:
  "pbind_interface p i k = Inr (n, k') \<Longrightarrow> binds_ok k \<Longrightarrow> binds_ok k'"
  "pbind_parent p q k = Inr (n, k') \<Longrightarrow> binds_ok k \<Longrightarrow> binds_ok k'"
  by (auto simp: pbind_interface_def pbind_parent_def rbind_eq_Inr dest: binds_ok_bind binds_ok_bind_parent split: option.splits if_splits)

lemma make_sensitive_cases:
  assumes "make_sensitive ops p h f k = Inr k'" and "m_bind_info (k_port k p) \<noteq> None"
  obtains bi t m where "m_bind_info (k_port k p) = Some bi" and
    "k_port k' = (k_port k)(p := (k_port k p)\<lparr>m_bind_info := Some (bi\<lparr>bi_thread_vec := t, bi_method_vec := m\<rparr>)\<rparr>)"
proof (cases h)
  case (Method x)
  obtain bi where bi: "m_bind_info (k_port k p) = Some bi" using assms(2) by auto
  show ?thesis by (rule that [OF bi, where t = "bi_thread_vec bi" and m = "bi_method_vec bi @ [\<lparr>ef_handle = h, ef_finder = f\<rparr>]"]) (use assms(1) bi Method in \<open>auto simp: make_sensitive_def\<close>)
next
  case (Thread x)
  obtain bi where bi: "m_bind_info (k_port k p) = Some bi" using assms(2) by auto
  show ?thesis by (rule that [OF bi, where m = "bi_method_vec bi" and t = "bi_thread_vec bi @ [\<lparr>ef_handle = h, ef_finder = f\<rparr>]"]) (use assms(1) bi Thread in \<open>auto simp: make_sensitive_def\<close>)
qed

lemma binds_ok_sensitive:
  assumes "make_sensitive ops p h f k = Inr k'" and "m_bind_info (k_port k p) \<noteq> None" and "binds_ok k"
  shows "binds_ok k'"
  by (rule make_sensitive_cases [OF assms(1,2)]) (use assms(3) in \<open>auto simp: binds_ok_def info_ok_def\<close>)

lemma rankedI:
  assumes "ranked rk k" and "\<And>q. m_bind_info (k_port k q) \<noteq> None \<Longrightarrow> m_bind_info (k_port k' q) \<noteq> None"
    and "\<And>p bi e q. m_bind_info (k_port k' p) = Some bi \<Longrightarrow> e \<in> set (bi_vec bi) \<Longrightarrow> be_parent e = Some q \<Longrightarrow>
      (m_bind_info (k_port k q) \<noteq> None \<and> rk q < rk p) \<or> (\<exists>b. m_bind_info (k_port k p) = Some b \<and> e \<in> set (bi_vec b))"
  shows "ranked rk k'"
  using assms unfolding ranked_def by blast

lemma ranked_bind: "bind_interface p i k = Inr k' \<Longrightarrow> ranked rk k \<Longrightarrow> ranked rk k'"
  by (erule bind_interface_cases, rule rankedI [of rk k k']) (auto split: if_splits)

lemma ranked_bind_parent: "bind_parent p q k = Inr k' \<Longrightarrow> rk q < rk p \<Longrightarrow> ranked rk k \<Longrightarrow> ranked rk k'"
  by (erule bind_parent_cases, rule rankedI [of rk k k']) (auto split: if_splits)

lemma ranked_sensitive:
  assumes "make_sensitive ops p h f k = Inr k'" and "m_bind_info (k_port k p) \<noteq> None" and "ranked rk k"
  shows "ranked rk k'"
  by (rule make_sensitive_cases [OF assms(1,2)], rule rankedI [OF assms(3)]) (auto split: if_splits)

lemma ranked_new: "port_new p n pol k = Inr k' \<Longrightarrow> ranked rk k \<Longrightarrow> ranked rk k'"
  by (rule rankedI [of rk k k']) (auto dest!: port_new_ports simp: bind_info_new_def split: if_splits)

lemma ranked_pbind:
  "pbind_interface p i k = Inr (n, k') \<Longrightarrow> ranked rk k \<Longrightarrow> ranked rk k'"
  "pbind_parent p q k = Inr (n, k') \<Longrightarrow> rk q < rk p \<Longrightarrow> ranked rk k \<Longrightarrow> ranked rk k'"
  by (auto simp: pbind_interface_def pbind_parent_def rbind_eq_Inr dest: ranked_bind ranked_bind_parent split: option.splits if_splits)

lemma registeredI:
  assumes "ports_registered k" and "m_port_vec k' = m_port_vec k" and "\<And>q. m_bind_info (k_port k' q) \<noteq> None \<longleftrightarrow> m_bind_info (k_port k q) \<noteq> None"
  shows "ports_registered k'"
  using assms by (auto simp: ports_registered_def)

lemma registered_new:
  assumes "port_new p n pol k = Inr k'" and "p \<notin> set (m_port_vec k)" and "ports_registered k"
  shows "ports_registered k'"
proof -
  have "m_port_vec k' = m_port_vec k @ [p]" using assms(1)
    by (auto simp: port_new_def registry_insert_def rbind_eq_Inr split: if_splits option.splits)
  with port_new_ports [OF assms(1)] assms(2,3) show ?thesis by (auto simp: ports_registered_def)
qed

lemma bind_interface_registry: "bind_interface p i k = Inr k' \<Longrightarrow> m_port_vec k' = m_port_vec k"
  by (auto simp: bind_interface_def Let_def rbind_eq_Inr add_interface_def split: option.splits if_splits)

lemma registered_bind:
  assumes "bind_interface p i k = Inr k'" and "ports_registered k"
  shows "ports_registered k'"
  by (rule registeredI [OF assms(2) bind_interface_registry [OF assms(1)]])
    (rule bind_interface_cases [OF assms(1)], auto split: if_splits)

lemma registered_bind_parent: "bind_parent p q k = Inr k' \<Longrightarrow> ports_registered k \<Longrightarrow> ports_registered k'"
  by (rule registeredI [of k k']) (auto simp: bind_parent_def split: if_splits)

lemma registered_pbind:
  "pbind_interface p i k = Inr (n, k') \<Longrightarrow> ports_registered k \<Longrightarrow> ports_registered k'"
  "pbind_parent p q k = Inr (n, k') \<Longrightarrow> ports_registered k \<Longrightarrow> ports_registered k'"
  by (auto simp: pbind_interface_def pbind_parent_def rbind_eq_Inr dest: registered_bind registered_bind_parent split: option.splits if_splits)

lemma registered_sensitive:
  assumes "make_sensitive ops p h f k = Inr k'" and "m_bind_info (k_port k p) \<noteq> None" and "ports_registered k"
  shows "ports_registered k'"
  using assms by (intro registeredI [OF assms(3)]) (auto simp: make_sensitive_def Let_def split: if_splits)

lemma elab_step_keeps:
  "elab_step ops rk k k' \<Longrightarrow> binds_ok k \<and> ranked rk k \<and> ports_registered k \<Longrightarrow> binds_ok k' \<and> ranked rk k' \<and> ports_registered k'"
  by (induction rule: elab_step.induct)
    (blast intro: binds_ok_new binds_ok_bind binds_ok_bind_parent binds_ok_pbind binds_ok_sensitive
      ranked_new ranked_bind ranked_bind_parent ranked_pbind ranked_sensitive
      registered_new registered_bind registered_bind_parent registered_pbind registered_sensitive)+

lemma bind_interface_output: "bind_interface p i k = Inr k' \<Longrightarrow> k_output k' = k_output k"
  by (auto simp: bind_interface_def Let_def rbind_eq_Inr add_interface_def split: option.splits if_splits)

lemma bind_parent_output: "bind_parent p q k = Inr k' \<Longrightarrow> k_output k' = k_output k"
  by (auto simp: bind_parent_def split: option.splits if_splits)

lemma elab_step_output: "elab_step ops rk k k' \<Longrightarrow> k_output k' = k_output k"
  by (induction rule: elab_step.induct)
    (auto simp: port_new_def registry_insert_def rbind_eq_Inr pbind_interface_def pbind_parent_def make_sensitive_def Let_def
      dest!: bind_interface_output bind_parent_output split: option.splits if_splits)

lemma elaborated_output: "(elab_step ops rk)\<^sup>*\<^sup>* k k' \<Longrightarrow> k_output k' = k_output k"
  by (induction rule: rtranclp_induct) (auto dest: elab_step_output)

lemma elaborated_ok:
  assumes "(elab_step ops rk)\<^sup>*\<^sup>* k k'" and "\<And>p. m_bind_info (k_port k p) = None" and "m_port_vec k = []"
  shows "binds_ok k' \<and> ranked rk k' \<and> ports_registered k'"
  using assms(1)
proof induction
  case base
  then show ?case using assms(2,3) by (simp add: binds_ok_def ranked_def ports_registered_def)
next
  case (step k1 k2)
  then show ?case using elab_step_keeps by blast
qed

section \<open>What a port stands for\<close>

text \<open>The channels a port is bound to, through its parents; a parent without any binding leaves a null
  pointer.  The fuel bounds the depth of the hierarchy.\<close>

fun resolve :: "nat \<Rightarrow> ('v, 'a) ports_kernel_scheme \<Rightarrow> nat \<Rightarrow> nat option list" where
  "resolve 0 k p = []"
| "resolve (Suc n) k p = (case m_bind_info (k_port k p) of None \<Rightarrow> []
   | Some bi \<Rightarrow> concat (map (\<lambda>e. case be_parent e of None \<Rightarrow> [be_iface e]
       | Some q \<Rightarrow> if resolve n k q = [] then [None] else resolve n k q) (bi_vec bi)))"

fun somes :: "'b option list \<Rightarrow> 'b list" where
  "somes [] = []"
| "somes (None # xs) = somes xs"
| "somes (Some x # xs) = x # somes xs"

lemma somes_append [simp]: "somes (xs @ ys) = somes xs @ somes ys"
  by (induction xs rule: somes.induct) simp_all

lemma somes_set: "i \<in> set (somes xs) \<longleftrightarrow> Some i \<in> set xs"
  by (induction xs rule: somes.induct) auto

lemma somes_map_Some [simp]: "somes (map Some xs) = xs"
  by (induction xs) simp_all

definition stands_for :: "(nat \<Rightarrow> nat) \<Rightarrow> ('v, 'a) ports_kernel_scheme \<Rightarrow> nat \<Rightarrow> nat option list" where
  "stands_for rk k p = resolve (Suc (rk p)) k p"

text \<open>The number of bindings that the policy of a port allows.\<close>

definition binds_within :: "int \<Rightarrow> port_policy \<Rightarrow> nat option list \<Rightarrow> bool" where
  "binds_within n pol xs \<longleftrightarrow>
     (let c = int (length (somes xs)); m = (if n \<noteq> 0 then n else int (length xs)) in
      c \<le> m \<and> (pol = SC_ONE_OR_MORE_BOUND \<longrightarrow> 1 \<le> c) \<and> (pol = SC_ALL_BOUND \<longrightarrow> m \<le> c \<and> 1 \<le> c))"

definition admissible :: "(nat \<Rightarrow> nat) \<Rightarrow> ('v, 'a) ports_kernel_scheme \<Rightarrow> nat \<Rightarrow> bool" where
  "admissible rk k p = (case m_bind_info (k_port k p) of None \<Rightarrow> True
     | Some bi \<Rightarrow> distinct (somes (stands_for rk k p)) \<and> binds_within (bi_max_size bi) (bi_policy bi) (stands_for rk k p))"

text \<open>What one binding contributes.\<close>

definition contrib :: "(nat \<Rightarrow> nat) \<Rightarrow> ('v, 'a) ports_kernel_scheme \<Rightarrow> bind_elem \<Rightarrow> nat option list" where
  "contrib rk k e = (case be_parent e of None \<Rightarrow> [be_iface e]
     | Some q \<Rightarrow> if stands_for rk k q = [] then [None] else stands_for rk k q)"

lemma resolve_fuel:
  assumes "ranked rk k"
  shows "rk p < n \<Longrightarrow> resolve n k p = stands_for rk k p"
proof (induction "rk p" arbitrary: p n rule: less_induct)
  case less
  then obtain m where n: "n = Suc m" by (cases n) simp_all
  show ?case
  proof (cases "m_bind_info (k_port k p)")
    case (Some bi)
    have "resolve m k q = resolve (rk p) k q" if "e \<in> set (bi_vec bi)" "be_parent e = Some q" for e q
    proof -
      have q: "rk q < rk p" using assms Some that by (auto simp: ranked_def)
      then have "rk q < m" using less.prems n by simp
      with q less.hyps [OF q, of m] less.hyps [OF q, of "rk p"] show ?thesis by simp
    qed
    then have "concat (map (\<lambda>e. case be_parent e of None \<Rightarrow> [be_iface e]
        | Some q \<Rightarrow> if resolve m k q = [] then [None] else resolve m k q) (bi_vec bi)) =
      concat (map (\<lambda>e. case be_parent e of None \<Rightarrow> [be_iface e]
        | Some q \<Rightarrow> if resolve (rk p) k q = [] then [None] else resolve (rk p) k q) (bi_vec bi))"
      by (intro arg_cong [where f = concat] map_cong refl) (simp split: option.split)
    then show ?thesis by (simp add: n stands_for_def Some)
  qed (simp add: n stands_for_def)
qed

lemma stands_for_eq:
  assumes "ranked rk k" and "m_bind_info (k_port k p) = Some bi"
  shows "stands_for rk k p = concat (map (contrib rk k) (bi_vec bi))"
proof -
  have "resolve (rk p) k q = stands_for rk k q" if "e \<in> set (bi_vec bi)" "be_parent e = Some q" for e q
    using assms that by (intro resolve_fuel) (auto simp: ranked_def)
  then show ?thesis using assms(2) unfolding stands_for_def [of rk k p]
    by (auto simp: contrib_def intro!: arg_cong [where f = concat] split: option.split)
qed

lemma contrib_iface [simp]: "be_parent e = None \<Longrightarrow> contrib rk k e = [be_iface e]"
  by (simp add: contrib_def)

lemma contrib_ifaces: "list_all (\<lambda>e. be_parent e = None) es \<Longrightarrow> map el (concat (map (contrib rk k) es)) = es"
  by (induction es) simp_all

section \<open>Completing one port\<close>

lemma first_parent_from_None: "first_parent_from i es = None \<longleftrightarrow> list_all (\<lambda>e. be_parent e = None) es"
  by (induction es arbitrary: i) auto

lemma first_parent_from_Some:
  "first_parent_from i es = Some j \<longleftrightarrow> (\<exists>as e bs. es = as @ e # bs \<and> list_all (\<lambda>e. be_parent e = None) as \<and>
     be_parent e \<noteq> None \<and> j = i + length as)"
proof (induction es arbitrary: i)
  case (Cons e es)
  show ?case
  proof (cases "be_parent e = None")
    case True
    then have "first_parent_from i (e # es) = Some j \<longleftrightarrow> (\<exists>as x bs. es = as @ x # bs \<and>
        list_all (\<lambda>e. be_parent e = None) as \<and> be_parent x \<noteq> None \<and> j = i + 1 + length as)"
      using Cons.IH [of "i + 1"] by simp
    also have "\<dots> \<longleftrightarrow> (\<exists>as x bs. e # es = as @ x # bs \<and> list_all (\<lambda>e. be_parent e = None) as \<and>
        be_parent x \<noteq> None \<and> j = i + length as)" (is "?l \<longleftrightarrow> ?r")
    proof
      assume ?l
      then obtain as x bs where "es = as @ x # bs" "list_all (\<lambda>e. be_parent e = None) as" "be_parent x \<noteq> None" "j = i + 1 + length as"
        by auto
      then show ?r using True by (intro exI [of _ "e # as"] exI [of _ x] exI [of _ bs]) simp
    next
      assume ?r
      then obtain as x bs where r: "e # es = as @ x # bs" "list_all (\<lambda>e. be_parent e = None) as" "be_parent x \<noteq> None" "j = i + length as"
        by auto
      with True show ?l by (cases as) auto
    qed
    finally show ?thesis .
  next
    case False
    then show ?thesis by (auto simp: Cons_eq_append_conv)
  qed
qed simp

lemma first_parent_from_append:
  "list_all (\<lambda>e. be_parent e = None) es \<Longrightarrow> first_parent_from i (es @ fs) = first_parent_from (i + length es) fs"
  by (induction es arbitrary: i) simp_all

lemma no_parent_el [simp]: "list_all (\<lambda>e. be_parent e = None) (map el xs)"
  by (induction xs) simp_all

lemma res_fold_snoc: "res_fold f (xs @ [x]) s = rbind (res_fold f xs s) (f x)"
proof (induction xs arbitrary: s)
  case Nil
  show ?case by (cases "f x s") simp_all
next
  case (Cons y xs)
  then show ?case by (cases "f y s") simp_all
qed

text \<open>A port whose binding is complete: it has the channels that its bindings stand for, each once, as many as
  its policy allows.\<close>

definition completed :: "(nat \<Rightarrow> nat) \<Rightarrow> ('v, 'a) ports_kernel_scheme \<Rightarrow> nat \<Rightarrow> ('v, 'a) ports_kernel_scheme \<Rightarrow> bool" where
  "completed rk k0 p k \<longleftrightarrow> (\<exists>bi. m_bind_info (k_port k p) = Some bi \<and> bi_complete bi \<and>
     bi_vec bi = map el (stands_for rk k0 p) \<and> m_interface_vec (k_port k p) = somes (stands_for rk k0 p) \<and> admissible rk k0 p)"

lemma completed_cong: "k_port k' p = k_port k p \<Longrightarrow> completed rk k0 p k' \<longleftrightarrow> completed rk k0 p k"
  by (simp add: completed_def)

text \<open>While the bindings are completed every port below a rank is as it was at the start or completed; a call
  for a port \<open>p\<close> completes it, and leaves the ports that do not rank above it alone.\<close>

definition settled_below :: "(nat \<Rightarrow> nat) \<Rightarrow> ('v, 'a) ports_kernel_scheme \<Rightarrow> nat \<Rightarrow> ('v, 'a) ports_kernel_scheme \<Rightarrow> bool" where
  "settled_below rk k0 n k \<longleftrightarrow> (\<forall>q. rk q < n \<longrightarrow> k_port k q = k_port k0 q \<or> completed rk k0 q k)"

definition completes :: "(('v, 'a) ports_kernel_scheme \<Rightarrow> bool) \<Rightarrow> (nat \<Rightarrow> nat) \<Rightarrow> ('v, 'a) ports_kernel_scheme \<Rightarrow> nat \<Rightarrow>
    ('v, 'a) ports_kernel_scheme \<Rightarrow> ('v, 'a) ports_kernel_scheme res \<Rightarrow> bool" where
  "completes G rk k0 p k r \<longleftrightarrow> (\<forall>k'. r = Inr k' \<longrightarrow> G k' \<and> completed rk k0 p k' \<and> settled_below rk k0 (rk p) k' \<and>
     (\<forall>q. q \<noteq> p \<longrightarrow> \<not> rk q < rk p \<longrightarrow> k_port k' q = k_port k q) \<and>
     (\<forall>q. q \<noteq> p \<longrightarrow> completed rk k0 q k \<longrightarrow> completed rk k0 q k'))"

lemma settled_below_mono: "settled_below rk k0 n k \<Longrightarrow> m \<le> n \<Longrightarrow> settled_below rk k0 m k"
  by (auto simp: settled_below_def)

lemma settled_below_after:
  assumes "settled_below rk k0 n k" and "completes G rk k0 q k (Inr k')" and "rk q < n"
  shows "settled_below rk k0 n k'"
  unfolding settled_below_def
proof (intro allI impI)
  fix u assume u: "rk u < n"
  show "k_port k' u = k_port k0 u \<or> completed rk k0 u k'"
  proof (cases "u = q \<or> rk u < rk q")
    case True
    then show ?thesis using assms(2) by (auto simp: completes_def settled_below_def)
  next
    case False
    then show ?thesis using assms(1,2) u by (auto simp: completes_def settled_below_def)
  qed
qed

lemma completes_trans:
  assumes "completes G rk k0 q k (Inr k1)" and "rk q < rk p" and "\<And>u. u \<noteq> p \<Longrightarrow> k_port k2 u = k_port k1 u"
    and "completes G rk k0 p k2 r"
  shows "completes G rk k0 p k r"
  unfolding completes_def
proof (intro allI impI)
  fix k' assume r: "r = Inr k'"
  have k': "G k' \<and> completed rk k0 p k'" "settled_below rk k0 (rk p) k'"
    "\<And>u. u \<noteq> p \<Longrightarrow> \<not> rk u < rk p \<Longrightarrow> k_port k' u = k_port k2 u"
    "\<And>u. u \<noteq> p \<Longrightarrow> completed rk k0 u k2 \<Longrightarrow> completed rk k0 u k'"
    using assms(4) r unfolding completes_def by blast+
  have "k_port k' u = k_port k u" if "u \<noteq> p" "\<not> rk u < rk p" for u
  proof -
    have "u \<noteq> q" "\<not> rk u < rk q" using that assms(2) by auto
    then have "k_port k1 u = k_port k u" using assms(1) unfolding completes_def by blast
    then show ?thesis using k'(3) assms(3) that by simp
  qed
  moreover have "completed rk k0 u k'" if "u \<noteq> p" "completed rk k0 u k" for u
  proof -
    have "completed rk k0 u k1" using assms(1) that(2) unfolding completes_def by (cases "u = q") blast+
    then have "completed rk k0 u k2" using completed_cong [OF assms(3)] that(1) by blast
    then show ?thesis using k'(4) that(1) by blast
  qed
  ultimately show "G k' \<and> completed rk k0 p k' \<and> settled_below rk k0 (rk p) k' \<and>
     (\<forall>q. q \<noteq> p \<longrightarrow> \<not> rk q < rk p \<longrightarrow> k_port k' q = k_port k q) \<and>
     (\<forall>q. q \<noteq> p \<longrightarrow> completed rk k0 q k \<longrightarrow> completed rk k0 q k')"
    using k'(1,2) by blast
qed

text \<open>The innermost ports register with their channels.  \<open>dr p i\<close> says that port \<open>p\<close> is one that the channel
  \<open>i\<close> takes for its driver; what is noted as the driver of a channel is a completed port that has it.\<close>

definition claims_signal :: "(nat \<Rightarrow> nat \<Rightarrow> bool) \<Rightarrow> (nat \<Rightarrow> nat) \<Rightarrow> ('v, 'a) ports_kernel_scheme \<Rightarrow> nat \<Rightarrow> nat \<Rightarrow> bool" where
  "claims_signal dr rk k0 p i \<longleftrightarrow> dr p i \<and> (\<exists>bi. m_bind_info (k_port k0 p) = Some bi \<and> bi_is_leaf bi) \<and> i \<in> set (somes (stands_for rk k0 p))"

definition two_drivers :: "(nat \<Rightarrow> nat \<Rightarrow> bool) \<Rightarrow> (nat \<Rightarrow> nat) \<Rightarrow> ('v, 'a) ports_kernel_scheme \<Rightarrow> bool" where
  "two_drivers dr rk k0 \<longleftrightarrow> (\<exists>i p q. p \<noteq> q \<and> claims_signal dr rk k0 p i \<and> claims_signal dr rk k0 q i)"

definition bind_good :: "(nat \<Rightarrow> nat \<Rightarrow> bool) \<Rightarrow> (('v, 'a) ports_kernel_scheme \<Rightarrow> bool) \<Rightarrow> (nat \<Rightarrow> nat) \<Rightarrow> ('v, 'a) ports_kernel_scheme \<Rightarrow>
    ('v, 'a) ports_kernel_scheme \<Rightarrow> bool" where
  "bind_good dr iok rk k0 k \<longleftrightarrow> iok k \<and> (\<forall>i p. k_output k i = Some p \<longleftrightarrow> claims_signal dr rk k0 p i \<and> completed rk k0 p k)"

text \<open>A fault is a channel with two drivers, or there is a port whose bindings are not admissible.\<close>

definition binding_fault :: "bool \<Rightarrow> bool \<Rightarrow> fault \<Rightarrow> bool" where
  "binding_fault two bad e \<longleftrightarrow> e = MultipleDrivers \<and> two \<or>
     e \<in> {ReportError SC_ID_BIND_IF_TO_PORT, ReportError SC_ID_COMPLETE_BINDING} \<and> bad"

definition fails_only :: "(nat \<Rightarrow> nat \<Rightarrow> bool) \<Rightarrow> (nat \<Rightarrow> nat) \<Rightarrow> ('v, 'a) ports_kernel_scheme \<Rightarrow> ('v, 'a) ports_kernel_scheme res \<Rightarrow> bool" where
  "fails_only dr rk k0 r \<longleftrightarrow> (\<forall>e. r = Inl e \<longrightarrow> binding_fault (two_drivers dr rk k0) (\<exists>q. \<not> admissible rk k0 q) e)"

lemma fails_only_simps [simp]:
  "fails_only dr rk k0 (Inr k)" "fails_only dr rk k0 (Inl e) \<longleftrightarrow> binding_fault (two_drivers dr rk k0) (\<exists>q. \<not> admissible rk k0 q) e"
  by (simp_all add: fails_only_def)

text \<open>One pass of the loop over the parents: the first parent is replaced by what it contributes.\<close>

lemma insert_parent_splices:
  assumes "m_bind_info (k_port k p) = Some bi" and "bi_vec bi = es @ e # fs" and "be_parent e = Some q" and "be_iface e = None"
    and "completed rk k0 q k"
  shows "insert_parent p (length es) k =
    Inr (upd_info p (\<lambda>bi. bi\<lparr>bi_vec := es @ map el (contrib rk k0 e) @ fs\<rparr>) k)"
proof -
  obtain pbi where q: "m_bind_info (k_port k q) = Some pbi" "bi_vec pbi = map el (stands_for rk k0 q)"
    using assms(5) by (auto simp: completed_def)
  have upd: "upd_info p f k = upd_info p g k" if "f bi = g bi" for f g
    using that assms(1) by (simp add: upd_info_def upd_port_def fun_eq_iff)
  show ?thesis
  proof (cases "stands_for rk k0 q = []")
    case True
    then show ?thesis using assms q
      by (simp add: insert_parent_def contrib_def nth_append el_def cong: upd)
        (rule upd, simp add: list_update_append nth_append)
  next
    case False
    then show ?thesis using assms q
      by (simp add: insert_parent_def contrib_def nth_append)
        (rule upd, simp add: splice_loops_eq comp_def)
  qed
qed

text \<open>The interface that a port is bound to must not change the ports when it is called.\<close>

locale binding_calls =
  fixes ops :: "('v, 'a) ports_kernel_scheme iface_ops" and dr :: "nat \<Rightarrow> nat \<Rightarrow> bool"
    and iok :: "('v, 'a) ports_kernel_scheme \<Rightarrow> bool"
  assumes default_ports: "if_default_event ops i k = Inr (e, k') \<Longrightarrow> k_port k' = k_port k \<and> k_output k' = k_output k \<and> (iok k \<longrightarrow> iok k')"
    and find_ports: "if_find_event ops f i k = Inr (e, k') \<Longrightarrow> k_port k' = k_port k \<and> k_output k' = k_output k \<and> (iok k \<longrightarrow> iok k')"
    and register_ports: "if_register_port ops i p k = Inr k' \<Longrightarrow> k_port k' = k_port k"
    and register_output: "if_register_port ops i p k = Inr k' \<Longrightarrow> iok k \<Longrightarrow>
      iok k' \<and> (if dr p i then k_output k i = None \<and> k_output k' = (k_output k)(i := Some p) else k_output k' = k_output k)"
    and default_fault: "if_default_event ops i k \<noteq> Inl flt"
    and find_fault: "if_find_event ops f i k \<noteq> Inl flt"
    and register_fault: "if_register_port ops i p k = Inl flt \<Longrightarrow> iok k \<Longrightarrow> flt = MultipleDrivers \<and> dr p i \<and> k_output k i \<noteq> None"
    and inv_port: "iok k \<Longrightarrow> iok (upd_port p u k)"
    and inv_static: "iok k \<Longrightarrow> iok (add_static_event h e k)"
begin

lemma inv_info: "iok k \<Longrightarrow> iok (upd_info p u k)"
  unfolding upd_info_def by (rule inv_port)

lemma sensitivity_fault: "complete_sensitivity ops i efs k \<noteq> Inl flt"
proof (induction efs arbitrary: k)
  case (Cons ef efs)
  obtain e k1 where "(case ef_finder ef of Some f \<Rightarrow> if_find_event ops f i k | None \<Rightarrow> if_default_event ops i k) = Inr (e, k1)"
    using default_fault find_fault by (cases "case ef_finder ef of Some f \<Rightarrow> if_find_event ops f i k | None \<Rightarrow> if_default_event ops i k")
      (auto split: option.splits)
  then show ?case using Cons.IH [of "add_static_event (ef_handle ef) e k1"] by (simp add: complete_sensitivity_def)
qed (simp add: complete_sensitivity_def)

lemma sensitivity_keeps:
  "complete_sensitivity ops i efs k = Inr k' \<Longrightarrow> k_port k' = k_port k \<and> k_output k' = k_output k \<and> (iok k \<longrightarrow> iok k')"
proof (induction efs arbitrary: k)
  case (Cons ef efs)
  then obtain e k1 where k1: "(case ef_finder ef of Some f \<Rightarrow> if_find_event ops f i k | None \<Rightarrow> if_default_event ops i k) = Inr (e, k1)"
    "complete_sensitivity ops i efs (add_static_event (ef_handle ef) e k1) = Inr k'"
    by (auto simp: complete_sensitivity_def rbind_eq_Inr)
  from k1(1) have "k_port k1 = k_port k \<and> k_output k1 = k_output k \<and> (iok k \<longrightarrow> iok k1)"
    by (auto dest: default_ports find_ports split: option.splits)
  with Cons.IH [OF k1(2)] show ?case using inv_static by auto
qed (simp add: complete_sensitivity_def)

lemma complete_interface_fault:
  assumes "m_bind_info (k_port k p) = Some bi" and "iok k" and "complete_interface ops p j k = Inl flt"
  obtains (again) i where "flt = ReportError SC_ID_BIND_IF_TO_PORT" and "be_iface (bi_vec bi ! j) = Some i" and "int j > bi_last_add bi"
      and "i \<in> set (m_interface_vec (k_port k p))"
    | (driver) i where "flt = MultipleDrivers" and "be_iface (bi_vec bi ! j) = Some i" and "bi_is_leaf bi" and "dr p i" and "k_output k i \<noteq> None"
      and "int j > bi_last_add bi \<longrightarrow> i \<notin> set (m_interface_vec (k_port k p))"
proof (cases "be_iface (bi_vec bi ! j)")
  case None
  then show ?thesis using assms by (simp add: complete_interface_def)
next
  case (Some i)
  show ?thesis
  proof (cases "int j > bi_last_add bi \<and> i \<in> set (m_interface_vec (k_port k p))")
    case True
    then show ?thesis using assms Some again by (auto simp: complete_interface_def add_interface_def)
  next
    case False
    then obtain k1 where k1: "(if int j > bi_last_add bi then add_interface p i k else Inr k) = Inr k1" "iok k1" "k_output k1 = k_output k"
      using Some assms(2) inv_port by (cases "int j > bi_last_add bi") (auto simp: add_interface_def)
    show ?thesis
    proof (cases "if bi_is_leaf bi then if_register_port ops i p k1 else Inr k1")
      case (Inl e)
      then have "flt = e" using assms Some k1(1) by (simp add: complete_interface_def)
      then show ?thesis using Inl register_fault [of i p k1 e] k1(2,3) driver Some False by (auto split: if_splits)
    next
      case (Inr k2)
      then show ?thesis
        using assms Some k1(1) sensitivity_fault by (cases "complete_sensitivity ops i (bi_method_vec bi) k2") (auto simp: complete_interface_def)
    qed
  qed
qed

lemma complete_interface_output:
  assumes "m_bind_info (k_port k p) = Some bi" and "iok k" and "complete_interface ops p j k = Inr k'"
  shows "iok k' \<and> (case be_iface (bi_vec bi ! j) of None \<Rightarrow> k_output k' = k_output k
    | Some i \<Rightarrow> if bi_is_leaf bi \<and> dr p i then k_output k i = None \<and> k_output k' = (k_output k)(i := Some p) else k_output k' = k_output k)"
proof (cases "be_iface (bi_vec bi ! j)")
  case None
  then show ?thesis using assms by (simp add: complete_interface_def)
next
  case (Some c)
  with assms obtain k1 k2 k3 where k: "(if int j > bi_last_add bi then add_interface p c k else Inr k) = Inr k1"
    "(if bi_is_leaf bi then if_register_port ops c p k1 else Inr k1) = Inr k2"
    "complete_sensitivity ops c (bi_method_vec bi) k2 = Inr k3" "complete_sensitivity ops c (bi_thread_vec bi) k3 = Inr k'"
    by (auto simp: complete_interface_def rbind_eq_Inr)
  have k1: "iok k1" "k_output k1 = k_output k" using k(1) assms(2) inv_port by (auto simp: add_interface_def split: if_splits)
  have "iok k2 \<and> (if bi_is_leaf bi \<and> dr p c then k_output k c = None \<and> k_output k2 = (k_output k)(c := Some p) else k_output k2 = k_output k)"
    using k(2) k1 register_output [of c p k1 k2] by (auto split: if_splits)
  moreover have "k_output k' = k_output k2" "iok k2 \<longrightarrow> iok k'" using sensitivity_keeps [OF k(3)] sensitivity_keeps [OF k(4)] by simp_all
  ultimately show ?thesis using Some by auto
qed

lemma complete_interface_ports:
  assumes "m_bind_info (k_port k p) = Some bi" and "complete_interface ops p j k = Inr k'"
  shows "k_port k' = (case be_iface (bi_vec bi ! j) of
      Some i \<Rightarrow> if int j > bi_last_add bi then (k_port k)(p := (k_port k p)\<lparr>m_interface_vec := m_interface_vec (k_port k p) @ [i]\<rparr>)
        else k_port k
    | None \<Rightarrow> k_port k)" (is ?ports)
    and "be_iface (bi_vec bi ! j) = Some i \<Longrightarrow> int j > bi_last_add bi \<Longrightarrow> i \<notin> set (m_interface_vec (k_port k p))"
proof -
  have "?ports \<and> (be_iface (bi_vec bi ! j) = Some i \<longrightarrow> int j > bi_last_add bi \<longrightarrow> i \<notin> set (m_interface_vec (k_port k p)))"
  proof (cases "be_iface (bi_vec bi ! j)")
    case None
    then show ?thesis using assms by (simp add: complete_interface_def)
  next
    case (Some c)
    with assms obtain k1 k2 k3 where k: "(if int j > bi_last_add bi then add_interface p c k else Inr k) = Inr k1"
      "(if bi_is_leaf bi then if_register_port ops c p k1 else Inr k1) = Inr k2"
      "complete_sensitivity ops c (bi_method_vec bi) k2 = Inr k3" "complete_sensitivity ops c (bi_thread_vec bi) k3 = Inr k'"
      by (auto simp: complete_interface_def rbind_eq_Inr)
    have "k_port k2 = k_port k1" using k(2) by (auto dest: register_ports split: if_splits)
    then have "k_port k' = k_port k1" using sensitivity_keeps [OF k(3)] sensitivity_keeps [OF k(4)] by simp
    then show ?thesis using k(1) Some by (auto simp: k_port_add_interface split: if_splits)
  qed
  then show ?ports "be_iface (bi_vec bi ! j) = Some i \<Longrightarrow> int j > bi_last_add bi \<Longrightarrow> i \<notin> set (m_interface_vec (k_port k p))"
    by simp_all
qed

lemma interfaces_loop:
  assumes "m_bind_info (k_port k p) = Some bi" and "bi_vec bi = map el xs" and "bi_last_add bi = int (length v) - 1"
    and "take (length v) xs = map Some v" and "length v \<le> length xs" and "m_interface_vec (k_port k p) = v" and "distinct v"
  shows "j \<le> length xs \<Longrightarrow> res_fold (complete_interface ops p) [0..<j] k = Inr k' \<Longrightarrow>
    k_port k' = (k_port k)(p := (k_port k p)\<lparr>m_interface_vec := somes (take (max j (length v)) xs)\<rparr>) \<and>
    distinct (somes (take (max j (length v)) xs))"
proof (induction j arbitrary: k')
  case 0
  then show ?case using assms by (auto simp: fun_eq_iff)
next
  case (Suc j)
  obtain k1 where k1: "res_fold (complete_interface ops p) [0..<j] k = Inr k1" "complete_interface ops p j k1 = Inr k'"
    using Suc.prems(2) by (auto simp: res_fold_snoc rbind_eq_Inr)
  have "j \<le> length xs" using Suc.prems(1) by simp
  note ih = Suc.IH [OF this k1(1), THEN conjunct1] Suc.IH [OF this k1(1), THEN conjunct2]
  have bi: "m_bind_info (k_port k1 p) = Some bi" using ih assms(1) by simp
  note step = complete_interface_ports [OF bi k1(2)]
  have j: "bi_vec bi ! j = el (xs ! j)" "j < length xs" using Suc.prems(1) assms(2) by simp_all
  show ?case
  proof (cases "length v \<le> j")
    case True
    then have m: "max j (length v) = j" "max (Suc j) (length v) = Suc j" by simp_all
    show ?thesis
    proof (cases "xs ! j")
      case None
      then show ?thesis using step ih j m by (simp add: take_Suc_snoc)
    next
      case (Some i)
      then show ?thesis using step(1) step(2) [of i] ih j m True assms(3) by (simp add: take_Suc_snoc fun_eq_iff)
    qed
  next
    case False
    then have "max j (length v) = length v" "max (Suc j) (length v) = length v" "\<not> int j > bi_last_add bi" using assms(3) by simp_all
    then show ?thesis using step(1) ih by (simp split: option.splits)
  qed
qed

lemma interfaces_loop_output:
  assumes "m_bind_info (k_port k p) = Some bi" and "bi_vec bi = map el xs" and "bi_last_add bi = int (length v) - 1"
    and "take (length v) xs = map Some v" and "length v \<le> length xs" and "m_interface_vec (k_port k p) = v" and "distinct v"
    and "iok k"
  shows "j \<le> length xs \<Longrightarrow> res_fold (complete_interface ops p) [0..<j] k = Inr k' \<Longrightarrow>
    iok k' \<and> (\<forall>i. if bi_is_leaf bi \<and> dr p i \<and> Some i \<in> set (take j xs) then k_output k i = None \<and> k_output k' i = Some p
      else k_output k' i = k_output k i)"
proof (induction j arbitrary: k')
  case 0
  then show ?case using assms(8) by simp
next
  case (Suc j)
  obtain k1 where k1: "res_fold (complete_interface ops p) [0..<j] k = Inr k1" "complete_interface ops p j k1 = Inr k'"
    using Suc.prems(2) by (auto simp: res_fold_snoc rbind_eq_Inr)
  have j: "j \<le> length xs" "j < length xs" using Suc.prems(1) by simp_all
  note ih = Suc.IH [OF j(1) k1(1)]
  have bi: "m_bind_info (k_port k1 p) = Some bi" using interfaces_loop [OF assms(1-7) j(1) k1(1)] assms(1) by simp
  have "be_iface (bi_vec bi ! j) = xs ! j" using j(2) assms(2) by simp
  moreover have "set (take (Suc j) xs) = insert (xs ! j) (set (take j xs))" using j(2) by (simp add: take_Suc_conv_app_nth)
  ultimately show ?case using complete_interface_output [OF bi _ k1(2)] ih by (cases "xs ! j") (auto split: if_splits)
qed

lemma interfaces_loop_fault:
  assumes "m_bind_info (k_port k p) = Some bi" and "bi_vec bi = map el xs" and "bi_last_add bi = int (length v) - 1"
    and "take (length v) xs = map Some v" and "length v \<le> length xs" and "m_interface_vec (k_port k p) = v" and "distinct v"
    and "iok k"
  shows "j \<le> length xs \<Longrightarrow> res_fold (complete_interface ops p) [0..<j] k = Inl flt \<Longrightarrow>
    flt = MultipleDrivers \<and> bi_is_leaf bi \<and> (\<exists>i q. dr p i \<and> Some i \<in> set xs \<and> k_output k i = Some q) \<or>
    flt = ReportError SC_ID_BIND_IF_TO_PORT \<and> \<not> distinct (somes xs)"
proof (induction j)
  case (Suc j)
  have j: "j \<le> length xs" "j < length xs" using Suc.prems(1) by simp_all
  show ?case
  proof (cases "res_fold (complete_interface ops p) [0..<j] k")
    case (Inl e)
    then show ?thesis using Suc by (simp add: res_fold_snoc)
  next
    case (Inr k1)
    note loop = interfaces_loop [OF assms(1-7) j(1) Inr, THEN conjunct1]
    note out = interfaces_loop_output [OF assms j(1) Inr]
    have bi: "m_bind_info (k_port k1 p) = Some bi" using loop assms(1) by simp
    have at: "be_iface (bi_vec bi ! j) = xs ! j" using j(2) assms(2) by simp
    have vec: "m_interface_vec (k_port k1 p) = somes (take (max j (length v)) xs)" using loop by simp
    have "complete_interface ops p j k1 = Inl flt" using Suc.prems(2) Inr by (simp add: res_fold_snoc)
    with bi conjunct1 [OF out] show ?thesis
    proof (cases rule: complete_interface_fault)
      case (again i)
      have "max j (length v) = j" using again(3) assms(3) by simp
      then have "i \<in> set (somes (take j xs))" using again(4) vec by simp
      moreover have "somes xs = somes (take j xs) @ i # somes (drop (Suc j) xs)"
        using id_take_nth_drop [OF j(2)] again(2) at by (metis somes.simps(3) somes_append)
      ultimately show ?thesis using again(1) by simp
    next
      case (driver i)
      obtain q where q: "k_output k1 i = Some q" using driver(5) by auto
      have i: "xs ! j = Some i" using driver(2) at by simp
      have "Some i \<notin> set (take j xs)"
      proof
        assume a: "Some i \<in> set (take j xs)"
        show False
        proof (cases "length v \<le> j")
          case True
          then have "i \<notin> set (somes (take j xs))" using driver(6) assms(3) vec by simp
          then show False using a by (simp add: somes_set)
        next
          case False
          then have "take j xs = take j (take (length v) xs)" by (simp add: min_def)
          then have "take j xs = map Some (take j v)" using assms(4) by (simp add: take_map)
          moreover have "v ! j = i" using i assms(4) False nth_take [of j "length v" xs] by simp
          ultimately have "i \<in> set (take j v)" using a by auto
          then obtain l where "l < j" "v ! l = i" using False by (auto simp: in_set_conv_nth)
          then show False using \<open>v ! j = i\<close> assms(7) False by (auto simp: nth_eq_iff_index_eq)
        qed
      qed
      then have "k_output k i = Some q" using spec [OF conjunct2 [OF out], of i] q by simp
      moreover have "Some i \<in> set xs" using i j(2) nth_mem by metis
      ultimately show ?thesis using driver(1,3,4) by blast
    qed
  qed
qed simp

lemma bind_good_upd_info:
  assumes "bind_good dr iok rk k0 k" and "\<not> completed rk k0 p k" and "\<not> completed rk k0 p (upd_info p u k)"
  shows "bind_good dr iok rk k0 (upd_info p u k)"
proof -
  have "completed rk k0 q (upd_info p u k) \<longleftrightarrow> completed rk k0 q k" for q
    using assms(2,3) by (cases "q = p") (simp, simp add: completed_def)
  then show ?thesis using assms(1) inv_info by (simp add: bind_good_def)
qed

lemma finish_binding_completes:
  assumes "m_bind_info (k_port k0 p) = Some bi0" and "info_ok bi0 (m_interface_vec (k_port k0 p))" and "ranked rk k0"
    and "k_port k p = (k_port k0 p)\<lparr>m_bind_info := Some (bi0\<lparr>bi_vec := map el (stands_for rk k0 p)\<rparr>)\<rparr>"
    and "bind_good dr iok rk k0 k"
  shows "finish_binding ops p k = Inr k' \<Longrightarrow> bind_good dr iok rk k0 k' \<and> completed rk k0 p k' \<and> (\<forall>q. q \<noteq> p \<longrightarrow> k_port k' q = k_port k q)"
    and "fails_only dr rk k0 (finish_binding ops p k)"
proof -
  let ?xs = "stands_for rk k0 p" and ?v = "m_interface_vec (k_port k0 p)"
  let ?bi = "bi0\<lparr>bi_vec := map el ?xs\<rparr>"
  obtain rest where vec: "bi_vec bi0 = map (\<lambda>i. el (Some i)) ?v @ rest"
    using assms(2) append_take_drop_id [of "length ?v" "bi_vec bi0"] unfolding info_ok_def by metis
  have xs: "?xs = map Some ?v @ concat (map (contrib rk k0) rest)"
    unfolding stands_for_eq [OF assms(3,1)] vec by (simp add: comp_def)
  have bi: "m_bind_info (k_port k p) = Some ?bi" using assms(4) by simp
  have t: "take (length ?v) ?xs = map Some ?v" "length ?v \<le> length ?xs" unfolding xs by simp_all
  have m: "max (length ?xs) (length ?v) = length ?xs" using t(2) by simp
  have v: "bi_vec ?bi = map el ?xs" "bi_last_add ?bi = int (length ?v) - 1" "m_interface_vec (k_port k p) = ?v" "distinct ?v"
    using assms(2,4) by (simp_all add: info_ok_def)
  have open_p: "\<not> completed rk k0 p k" using assms(2,4) by (auto simp: completed_def info_ok_def)
  have iok: "iok k" using assms(5) by (simp add: bind_good_def)
  let ?fold = "res_fold (complete_interface ops p) [0..<length ?xs] k"
  have finish: "finish_binding ops p k = rbind ?fold (\<lambda>k. rbind (check_binds p k) (\<lambda>k.
      Inr (upd_info p (\<lambda>bi. (free_binding bi)\<lparr>bi_complete := True\<rparr>) k)))"
    using bi by (simp add: finish_binding_def)
  have loop: "k_port k1 = (k_port k)(p := (k_port k p)\<lparr>m_interface_vec := somes ?xs\<rparr>) \<and> distinct (somes ?xs)" if "?fold = Inr k1" for k1
    using interfaces_loop [OF bi v(1,2) t v(3,4) _ that] m by simp
  have check: "check_binds p k1 = (if binds_within (bi_max_size bi0) (bi_policy bi0) ?xs then Inr k1
      else Inl (ReportError SC_ID_COMPLETE_BINDING))" if "?fold = Inr k1" for k1
    using loop [OF that] bi
    by (auto simp: check_binds_def Let_def bind_max_size_def binds_within_def Suc_le_eq split: if_splits)
  show "fails_only dr rk k0 (finish_binding ops p k)"
  proof (cases ?fold)
    case (Inl e)
    from interfaces_loop_fault [OF bi v(1,2) t v(3,4) iok order_refl Inl] show ?thesis
    proof (elim disjE conjE exE)
      fix i q assume e: "e = MultipleDrivers" "bi_is_leaf ?bi" "dr p i" "Some i \<in> set ?xs" "k_output k i = Some q"
      have "claims_signal dr rk k0 q i" "completed rk k0 q k" using assms(5) e(5) by (auto simp: bind_good_def)
      moreover have "claims_signal dr rk k0 p i" using e(2-4) assms(1) by (simp add: claims_signal_def somes_set)
      ultimately have "two_drivers dr rk k0" using open_p unfolding two_drivers_def by metis
      then show ?thesis using Inl e(1) unfolding finish by (simp add: binding_fault_def)
    next
      assume e: "e = ReportError SC_ID_BIND_IF_TO_PORT" "\<not> distinct (somes ?xs)"
      then have "\<not> admissible rk k0 p" using assms(1) by (simp add: admissible_def)
      then show ?thesis using Inl e(1) unfolding finish by (auto simp: binding_fault_def)
    qed
  next
    case (Inr k1)
    show ?thesis unfolding finish by (auto simp: Inr check [OF Inr] admissible_def assms(1) binding_fault_def intro: exI [of _ p])
  qed
  assume "finish_binding ops p k = Inr k'"
  then obtain k1 where k1: "?fold = Inr k1" "binds_within (bi_max_size bi0) (bi_policy bi0) ?xs"
    "k' = upd_info p (\<lambda>bi. (free_binding bi)\<lparr>bi_complete := True\<rparr>) k1"
    unfolding finish by (auto simp: rbind_eq_Inr check split: if_splits)
  have "completed rk k0 p k'"
    using loop [OF k1(1)] bi assms(1) k1(2) unfolding completed_def by (simp add: k1(3) free_binding_def admissible_def)
  moreover have same: "k_port k' q = k_port k q" if "q \<noteq> p" for q using loop [OF k1(1)] k1(3) that by simp
  moreover have "bind_good dr iok rk k0 k'"
    unfolding bind_good_def
  proof (intro conjI allI)
    note out = interfaces_loop_output [OF bi v(1,2) t v(3,4) iok order_refl k1(1)]
    show "iok k'" using out k1(3) inv_info by simp
    fix i q
    have mine: "claims_signal dr rk k0 p i \<longleftrightarrow> bi_is_leaf ?bi \<and> dr p i \<and> Some i \<in> set (take (length ?xs) ?xs)"
      using assms(1) by (auto simp: claims_signal_def somes_set)
    have k'_out: "if claims_signal dr rk k0 p i then k_output k i = None \<and> k_output k' i = Some p else k_output k' i = k_output k i"
      using spec [OF conjunct2 [OF out], of i] k1(3) unfolding mine [symmetric] by simp
    have old: "k_output k i = Some q \<longleftrightarrow> claims_signal dr rk k0 q i \<and> completed rk k0 q k" using assms(5) by (simp add: bind_good_def)
    show "k_output k' i = Some q \<longleftrightarrow> claims_signal dr rk k0 q i \<and> completed rk k0 q k'"
    proof (cases "q = p")
      case True
      then show ?thesis using k'_out old open_p \<open>completed rk k0 p k'\<close> by (auto split: if_splits)
    next
      case False
      then show ?thesis using k'_out old completed_cong [OF same [OF False]] by (auto split: if_splits)
    qed
  qed
  ultimately show "bind_good dr iok rk k0 k' \<and> completed rk k0 p k' \<and> (\<forall>q. q \<noteq> p \<longrightarrow> k_port k' q = k_port k q)" by blast
qed

lemma complete_at_loop:
  assumes wf: "ranked rk k0" "binds_ok k0" and p: "m_bind_info (k_port k0 p) = Some bi0"
    and IH: "\<And>q k. rk q < rk p \<Longrightarrow> m_bind_info (k_port k0 q) \<noteq> None \<Longrightarrow> settled_below rk k0 (Suc (rk q)) k \<Longrightarrow> bind_good dr iok rk k0 k \<Longrightarrow>
      \<exists>r. complete_at ops True q k = Some r \<and> completes (bind_good dr iok rk k0) rk k0 q k r \<and> fails_only dr rk k0 r"
  shows "bi_vec bi0 = pre @ post \<Longrightarrow>
    k_port k p = (k_port k0 p)\<lparr>m_bind_info := Some (bi0\<lparr>bi_vec := map el (concat (map (contrib rk k0) pre)) @ post\<rparr>)\<rparr> \<Longrightarrow>
    settled_below rk k0 (rk p) k \<Longrightarrow> bind_good dr iok rk k0 k \<Longrightarrow>
    \<exists>r. complete_at ops False p k = Some r \<and> completes (bind_good dr iok rk k0) rk k0 p k r \<and> fails_only dr rk k0 r"
proof (induction "length post" arbitrary: pre post k rule: less_induct)
  case less
  let ?c = "concat (map (contrib rk k0) pre)"
  let ?bi = "bi0\<lparr>bi_vec := map el ?c @ post\<rparr>"
  have bi: "m_bind_info (k_port k p) = Some ?bi" using less.prems(2) by simp
  have ok: "info_ok bi0 (m_interface_vec (k_port k0 p))" using wf(2) p by (simp add: binds_ok_def)
  have first: "first_parent ?bi = first_parent_from (length ?c) post"
    by (simp add: first_parent_def first_parent_from_append)
  show ?case
  proof (cases "first_parent ?bi")
    case None
    then have "list_all (\<lambda>e. be_parent e = None) post" using first by (simp add: first_parent_from_None)
    then have "post = map el (concat (map (contrib rk k0) post))" by (simp add: contrib_ifaces)
    then have "map el ?c @ post = map el (stands_for rk k0 p)"
      unfolding stands_for_eq [OF wf(1) p] less.prems(1) by simp
    with less.prems(2) have port: "k_port k p = (k_port k0 p)\<lparr>m_bind_info := Some (bi0\<lparr>bi_vec := map el (stands_for rk k0 p)\<rparr>)\<rparr>"
      by simp
    have run: "complete_at ops False p k = Some (finish_binding ops p k)"
      using None bi by (simp add: complete_at.simps)
    have "completes (bind_good dr iok rk k0) rk k0 p k (finish_binding ops p k)"
      unfolding completes_def
    proof (intro allI impI)
      fix k' assume "finish_binding ops p k = Inr k'"
      note fin = finish_binding_completes(1) [OF p ok wf(1) port less.prems(4) this]
      have same: "k_port k' q = k_port k q" if "q \<noteq> p" for q using fin that by blast
      have comp: "completed rk k0 q k' \<longleftrightarrow> completed rk k0 q k" if "q \<noteq> p" for q
        using completed_cong [OF same [OF that]] .
      have "settled_below rk k0 (rk p) k'"
        using less.prems(3) same comp unfolding settled_below_def by (metis less_irrefl)
      with fin same comp show "bind_good dr iok rk k0 k' \<and> completed rk k0 p k' \<and> settled_below rk k0 (rk p) k' \<and>
          (\<forall>q. q \<noteq> p \<longrightarrow> \<not> rk q < rk p \<longrightarrow> k_port k' q = k_port k q) \<and>
          (\<forall>q. q \<noteq> p \<longrightarrow> completed rk k0 q k \<longrightarrow> completed rk k0 q k')"
        by blast
    qed
    with run finish_binding_completes(2) [OF p ok wf(1) port less.prems(4)] show ?thesis by blast
  next
    case (Some i)
    then obtain as e bs where split: "post = as @ e # bs" "list_all (\<lambda>e. be_parent e = None) as" "be_parent e \<noteq> None"
      "i = length ?c + length as" using first by (auto simp: first_parent_from_Some)
    then obtain q where q: "be_parent e = Some q" by auto
    have e: "e \<in> set (bi_vec bi0)" using less.prems(1) split(1) by simp
    have rank: "m_bind_info (k_port k0 q) \<noteq> None" "rk q < rk p" using wf(1) p e q by (auto simp: ranked_def)
    have null: "be_iface e = None" using ok e q by (auto simp: info_ok_def list_all_iff)
    obtain r1 where r1: "complete_at ops True q k = Some r1" "completes (bind_good dr iok rk k0) rk k0 q k r1" "fails_only dr rk k0 r1"
      using IH [OF rank(2,1) settled_below_mono [OF less.prems(3)] less.prems(4)] rank(2) by auto
    have at: "bi_vec ?bi ! i = e" using split(1,4) by (simp add: nth_append)
    have run: "complete_at ops False p k = obind (Some r1) (\<lambda>k. obind (Some (insert_parent p i k)) (complete_at ops False p))"
      using bi Some r1(1) at q by (subst complete_at.simps) simp
    show ?thesis
    proof (cases r1)
      case (Inl err)
      then show ?thesis using run r1(3) by (simp add: completes_def)
    next
      case (Inr k1)
      have done1: "completed rk k0 q k1" "k_port k1 p = k_port k p"
        using r1(2) Inr rank(2) unfolding completes_def by (blast, metis less_asym less_irrefl)
      let ?es = "map el ?c @ as"
      let ?k2 = "upd_info p (\<lambda>bi. bi\<lparr>bi_vec := ?es @ map el (contrib rk k0 e) @ bs\<rparr>) k1"
      have ins: "insert_parent p i k1 = Inr ?k2"
      proof -
        have "m_bind_info (k_port k1 p) = Some ?bi" "bi_vec ?bi = ?es @ e # bs" "i = length ?es"
          using done1(2) bi split(1,4) by simp_all
        then show ?thesis using insert_parent_splices [OF _ _ q null done1(1)] by blast
      qed
      have as: "map el (concat (map (contrib rk k0) as)) = as" using split(2) by (rule contrib_ifaces)
      have "bi_vec bi0 = (pre @ as @ [e]) @ bs" using less.prems(1) split(1) by simp
      moreover have "k_port ?k2 p = (k_port k0 p)\<lparr>m_bind_info := Some (bi0\<lparr>bi_vec :=
          map el (concat (map (contrib rk k0) (pre @ as @ [e]))) @ bs\<rparr>)\<rparr>"
        using done1(2) less.prems(2) as by simp
      moreover have "settled_below rk k0 (rk p) k1"
        using less.prems(3) r1(2) Inr rank(2) by (blast intro: settled_below_after)
      then have "settled_below rk k0 (rk p) ?k2"
        by (auto simp: settled_below_def completed_def)
      moreover have "bind_good dr iok rk k0 k1" using r1(2) Inr unfolding completes_def by blast
      then have "bind_good dr iok rk k0 ?k2"
        by (rule bind_good_upd_info) (use ok less.prems(2) done1(2) in \<open>auto simp: completed_def info_ok_def\<close>)
      moreover have "length bs < length post" using split(1) by simp
      ultimately obtain r where r: "complete_at ops False p ?k2 = Some r" "completes (bind_good dr iok rk k0) rk k0 p ?k2 r" "fails_only dr rk k0 r"
        using less.hyps by blast
      have "completes (bind_good dr iok rk k0) rk k0 p k r"
        by (rule completes_trans [OF _ rank(2) _ r(2)]) (use r1(2) Inr in auto)
      with r(1,3) run Inr ins show ?thesis by simp
    qed
  qed
qed

lemma complete_binding_returns:
  assumes wf: "ranked rk k0" "binds_ok k0"
  shows "m_bind_info (k_port k0 p) \<noteq> None \<Longrightarrow> settled_below rk k0 (Suc (rk p)) k \<Longrightarrow> bind_good dr iok rk k0 k \<Longrightarrow>
    \<exists>r. complete_at ops True p k = Some r \<and> completes (bind_good dr iok rk k0) rk k0 p k r \<and> fails_only dr rk k0 r"
proof (induction "rk p" arbitrary: p k rule: less_induct)
  case less
  then obtain bi0 where bi0: "m_bind_info (k_port k0 p) = Some bi0" by auto
  have below: "settled_below rk k0 (rk p) k" using less.prems(2) by (rule settled_below_mono) simp
  consider "k_port k p = k_port k0 p" | "completed rk k0 p k" using less.prems(2) by (auto simp: settled_below_def)
  then show ?case
  proof cases
    case 1
    have "\<not> bi_complete bi0" using wf(2) bi0 by (auto simp: binds_ok_def info_ok_def)
    then have "complete_at ops True p k = complete_at ops False p k"
      using 1 bi0 by (simp add: complete_at.simps)
    moreover have "\<exists>r. complete_at ops False p k = Some r \<and> completes (bind_good dr iok rk k0) rk k0 p k r \<and> fails_only dr rk k0 r"
      by (rule complete_at_loop [OF wf bi0, of "[]" "bi_vec bi0"])
        (use less.hyps less.prems(3) 1 bi0 below in auto)
    ultimately show ?thesis by simp
  next
    case 2
    then have "complete_at ops True p k = Some (Inr k)" by (auto simp: completed_def complete_at.simps)
    with 2 below less.prems(3) show ?thesis by (auto simp: completes_def)
  qed
qed

end

section \<open>The end of the elaboration\<close>

text \<open>The registry goes over its ports, so the interfaces must leave its list alone.\<close>

lemma obind_eq_Inr: "obind m f = Some (Inr y) \<longleftrightarrow> (\<exists>x. m = Some (Inr x) \<and> f x = Some (Inr y))"
  by (cases m; cases "the m") auto

lemma insert_parent_registry: "insert_parent p i k = Inr k' \<Longrightarrow> m_port_vec k' = m_port_vec k"
  by (auto simp: insert_parent_def split: option.splits if_splits)

locale registry_calls = binding_calls +
  assumes default_registry: "if_default_event ops i k = Inr (e, k') \<Longrightarrow> m_port_vec k' = m_port_vec k"
    and find_registry: "if_find_event ops f i k = Inr (e, k') \<Longrightarrow> m_port_vec k' = m_port_vec k"
    and register_registry: "if_register_port ops i p k = Inr k' \<Longrightarrow> m_port_vec k' = m_port_vec k"
begin

lemma sensitivity_registry: "complete_sensitivity ops i efs k = Inr k' \<Longrightarrow> m_port_vec k' = m_port_vec k"
proof (induction efs arbitrary: k)
  case (Cons ef efs)
  then obtain e k1 where k1: "(case ef_finder ef of Some f \<Rightarrow> if_find_event ops f i k | None \<Rightarrow> if_default_event ops i k) = Inr (e, k1)"
    "complete_sensitivity ops i efs (add_static_event (ef_handle ef) e k1) = Inr k'"
    by (auto simp: complete_sensitivity_def rbind_eq_Inr)
  from k1(1) have "m_port_vec k1 = m_port_vec k" by (auto dest: default_registry find_registry split: option.splits)
  with Cons.IH [OF k1(2)] show ?case by simp
qed (simp add: complete_sensitivity_def)

lemma complete_interface_registry: "complete_interface ops p j k = Inr k' \<Longrightarrow> m_port_vec k' = m_port_vec k"
  by (auto simp: complete_interface_def rbind_eq_Inr add_interface_def dest!: sensitivity_registry register_registry
      split: option.splits if_splits)

lemma finish_binding_registry:
  assumes "finish_binding ops p k = Inr k'"
  shows "m_port_vec k' = m_port_vec k"
proof -
  have fold: "res_fold (complete_interface ops p) js k = Inr k1 \<Longrightarrow> m_port_vec k1 = m_port_vec k" for js k k1
    by (induction js arbitrary: k) (auto simp: rbind_eq_Inr dest: complete_interface_registry)
  from assms show ?thesis
    by (auto simp: finish_binding_def rbind_eq_Inr check_binds_def Let_def dest!: fold split: option.splits if_splits)
qed

lemma complete_at_registry:
  assumes "complete_at ops entry p k = Some r"
  shows "case r of Inl _ \<Rightarrow> True | Inr k' \<Rightarrow> m_port_vec k' = m_port_vec k"
proof -
  have "ops' = ops \<longrightarrow> (case r of Inl _ \<Rightarrow> True | Inr k' \<Rightarrow> m_port_vec k' = m_port_vec k)"
    if "complete_at ops' entry p k = Some r" for ops' entry p k r
  proof (rule complete_at.raw_induct [of "\<lambda>ops' entry p k r. ops' = ops \<longrightarrow>
      (case r of Inl _ \<Rightarrow> True | Inr k' \<Rightarrow> m_port_vec k' = m_port_vec k)", OF _ that], goal_cases)
    case (1 f ops' entry p k r)
    show ?case
    proof (cases r)
      case (Inr k')
      then show ?thesis using 1(2)
        by (auto simp: obind_eq_Inr dest!: finish_binding_registry insert_parent_registry 1(1) split: option.splits if_splits)
    qed simp
  qed
  with assms show ?thesis by blast
qed

lemma complete_all_returns:
  assumes wf: "ranked rk k0" "binds_ok k0"
  shows "\<forall>p \<in> set ps. m_bind_info (k_port k0 p) \<noteq> None \<Longrightarrow> \<forall>n. settled_below rk k0 n k \<Longrightarrow> bind_good dr iok rk k0 k \<Longrightarrow>
    \<exists>r. complete_all ops ps k = Some r \<and> fails_only dr rk k0 r \<and> (case r of Inl _ \<Rightarrow> True | Inr k' \<Rightarrow>
      bind_good dr iok rk k0 k' \<and> (\<forall>p \<in> set ps. completed rk k0 p k') \<and> (\<forall>q. completed rk k0 q k \<longrightarrow> completed rk k0 q k') \<and> m_port_vec k' = m_port_vec k)"
proof (induction ps arbitrary: k)
  case (Cons p ps)
  obtain r where r: "complete_at ops True p k = Some r" "completes (bind_good dr iok rk k0) rk k0 p k r" "fails_only dr rk k0 r"
    using complete_binding_returns [OF wf, of p k] Cons.prems by auto
  show ?case
  proof (cases r)
    case (Inl e)
    then show ?thesis using r by (simp add: complete_binding_def)
  next
    case (Inr k1)
    have "settled_below rk k0 n k1" for n
    proof -
      have "settled_below rk k0 (max n (Suc (rk p))) k1"
        by (rule settled_below_after [where k = k and q = p]) (use Cons.prems(2) r(2) Inr in auto)
      then show ?thesis by (rule settled_below_mono) simp
    qed
    moreover have "bind_good dr iok rk k0 k1" using r(2) Inr unfolding completes_def by blast
    ultimately obtain r' where r': "complete_all ops ps k1 = Some r'" "fails_only dr rk k0 r'"
      "case r' of Inl _ \<Rightarrow> True | Inr k' \<Rightarrow> bind_good dr iok rk k0 k' \<and> (\<forall>p \<in> set ps. completed rk k0 p k') \<and>
        (\<forall>q. completed rk k0 q k1 \<longrightarrow> completed rk k0 q k') \<and> m_port_vec k' = m_port_vec k1"
      using Cons.IH [of k1] Cons.prems(1) by auto
    have all: "complete_all ops (p # ps) k = Some r'" using r(1) r'(1) Inr by (simp add: complete_binding_def)
    have p: "completed rk k0 p k1" using r(2) Inr unfolding completes_def by blast
    have keep: "completed rk k0 q k \<Longrightarrow> completed rk k0 q k1" for q
      using r(2) Inr p unfolding completes_def by (cases "q = p") blast+
    have vec: "m_port_vec k1 = m_port_vec k" using complete_at_registry [OF r(1)] Inr by simp
    show ?thesis using all r'(2,3) p keep vec by (cases r') auto
  qed
qed simp

lemma elaboration_done_fold:
  assumes "distinct ps" and "\<forall>p \<in> set ps. completed rk k0 p k"
  shows "\<exists>k'. res_fold port_elaboration_done ps k = Inr k' \<and> (\<forall>p \<in> set ps. m_bind_info (k_port k' p) = None) \<and>
    (\<forall>q. q \<notin> set ps \<longrightarrow> k_port k' q = k_port k q) \<and> (\<forall>q. m_interface_vec (k_port k' q) = m_interface_vec (k_port k q))"
  using assms
proof (induction ps arbitrary: k)
  case (Cons p ps)
  let ?k = "upd_port p (\<lambda>po. po\<lparr>m_bind_info := None\<rparr>) k"
  have step: "port_elaboration_done p k = Inr ?k"
    using Cons.prems(2) by (auto simp: port_elaboration_done_def completed_def)
  have "\<forall>q \<in> set ps. completed rk k0 q ?k" using Cons.prems by (auto simp: completed_def)
  then obtain k' where k': "res_fold port_elaboration_done ps ?k = Inr k'" "\<forall>p \<in> set ps. m_bind_info (k_port k' p) = None"
    "\<forall>q. q \<notin> set ps \<longrightarrow> k_port k' q = k_port ?k q" "\<forall>q. m_interface_vec (k_port k' q) = m_interface_vec (k_port ?k q)"
    using Cons.IH [of ?k] Cons.prems(1) by auto
  then show ?case using step Cons.prems(1) by (intro exI [of _ k']) auto
qed simp

lemma registry_elaboration_done_returns:
  assumes wf: "ranked rk k" "binds_ok k" "ports_registered k"
    and "iok k" and "\<And>i. k_output k i = None"
  shows "\<exists>r. registry_elaboration_done ops k = Some r \<and> (case r of
      Inl e \<Rightarrow> binding_fault (two_drivers dr rk k) (\<exists>p. \<not> admissible rk k p) e
    | Inr k' \<Rightarrow> \<not> two_drivers dr rk k \<and> (\<forall>p \<in> set (m_port_vec k). m_bind_info (k_port k' p) = None \<and>
        m_interface_vec (k_port k' p) = somes (stands_for rk k p) \<and> admissible rk k p))"
proof -
  have "\<not> completed rk k p k" for p using wf(2) by (auto simp: completed_def binds_ok_def info_ok_def)
  then have start: "bind_good dr iok rk k k" using assms(4,5) by (simp add: bind_good_def)
  obtain r where r: "complete_all ops (rev (m_port_vec k)) k = Some r" "fails_only dr rk k r"
    "case r of Inl _ \<Rightarrow> True | Inr k' \<Rightarrow> bind_good dr iok rk k k' \<and> (\<forall>p \<in> set (rev (m_port_vec k)). completed rk k p k') \<and>
      (\<forall>q. completed rk k q k \<longrightarrow> completed rk k q k') \<and> m_port_vec k' = m_port_vec k"
    using complete_all_returns [OF wf(1,2), of "rev (m_port_vec k)" k] wf(3) start
    by (auto simp: ports_registered_def settled_below_def)
  show ?thesis
  proof (cases r)
    case (Inl e)
    then show ?thesis using r by (simp add: registry_elaboration_done_def)
  next
    case (Inr k1)
    have k1: "\<forall>p \<in> set (rev (m_port_vec k)). completed rk k p k1" "m_port_vec k1 = m_port_vec k" using r(3) Inr by simp_all
    then obtain k' where k': "res_fold port_elaboration_done (rev (m_port_vec k)) k1 = Inr k'"
      "\<forall>p \<in> set (m_port_vec k). m_bind_info (k_port k' p) = None" "\<forall>q. m_interface_vec (k_port k' q) = m_interface_vec (k_port k1 q)"
      using elaboration_done_fold [of "rev (m_port_vec k)" rk k k1] wf(3) by (auto simp: ports_registered_def)
    have "registry_elaboration_done ops k = Some (Inr k')"
      using r(1) Inr k1(2) k'(1) by (simp add: registry_elaboration_done_def)
    moreover have "m_interface_vec (k_port k' p) = somes (stands_for rk k p) \<and> admissible rk k p" if "p \<in> set (m_port_vec k)" for p
      using k1(1) k'(3) that by (auto simp: completed_def)
    moreover have "\<not> two_drivers dr rk k"
    proof
      assume "two_drivers dr rk k"
      then obtain i p q where c: "p \<noteq> q" "claims_signal dr rk k p i" "claims_signal dr rk k q i" by (auto simp: two_drivers_def)
      have done1: "completed rk k u k1" if "claims_signal dr rk k u i" for u
        using that k1(1) wf(3) by (auto simp: claims_signal_def ports_registered_def)
      have "bind_good dr iok rk k k1" using r(3) Inr by simp
      then have "k_output k1 i = Some p" "k_output k1 i = Some q" using c done1 by (auto simp: bind_good_def)
      then show False using c(1) by simp
    qed
    ultimately show ?thesis using k'(2) by auto
  qed
qed

end

section \<open>Ports bound to signals\<close>

lemma signal_find_event_ports:
  "signal_find_event ev f i k = (e, k') \<Longrightarrow> k_port k' = k_port k \<and> m_port_vec k' = m_port_vec k \<and> k_output k' = k_output k \<and>
     m_write_check k' = m_write_check k \<and> (\<forall>i. s_policy (k_signal k' i) = s_policy (k_signal k i))"
  by (auto simp: signal_find_event_def posedge_event_def negedge_event_def value_changed_event_def upd_signal_def
      split: if_splits option.splits)

text \<open>An output port is the driver of a signal for one writer, unless the write check is off or only asks for conflicts.\<close>

definition is_driver :: "(nat \<Rightarrow> bool) \<Rightarrow> ('v, 'a) ports_kernel_scheme \<Rightarrow> nat \<Rightarrow> nat \<Rightarrow> bool" where
  "is_driver is_output k p i \<longleftrightarrow> is_output p \<and> s_policy (k_signal k i) = SC_ONE_WRITER \<and>
     m_write_check k \<notin> {SC_SIGNAL_WRITE_CHECK_DISABLE, SC_SIGNAL_WRITE_CHECK_CONFLICT}"

lemma signals_add_static [simp]:
  "m_write_check (add_static_event h e k) = m_write_check k" "k_signal (add_static_event h e k) = k_signal k"
  by (cases h; simp add: add_static_event_def upd_event_def upd_proc_def)+

lemma signals_upd_port [simp]: "m_write_check (upd_port p u k) = m_write_check k" "k_signal (upd_port p u k) = k_signal k"
  by (simp_all add: upd_port_def)

interpretation signals: registry_calls "signal_ops is_output ev" "is_driver is_output k0"
    "\<lambda>k. m_write_check k = m_write_check k0 \<and> (\<forall>i. s_policy (k_signal k i) = s_policy (k_signal k0 i))" for is_output ev k0
  by unfold_locales (auto simp: signal_ops_def signal_register_port_def is_driver_def dest: signal_find_event_ports split: if_splits)

text \<open>C24: the end of the elaboration.  However ports were created, bound and made sensitive, as long as every
  binding of a port to another goes to one that ranks above it (a port of the enclosing module), completing their bindings ends.
  Either no signal for one writer has two innermost output ports, every port has exactly the
  channels its bindings stand for, in order, each once and as many as its policy allows, and has
  dropped its binding record; or the error is one for two drivers and some one-writer signal has two innermost output ports,
  or it is one for bad bindings and some port has inadmissible ones.\<close>

theorem elaboration_binds_ports:
  assumes "(elab_step (signal_ops is_output ev) rk)\<^sup>*\<^sup>* k0 k" and "\<And>p. m_bind_info (k_port k0 p) = None" and "m_port_vec k0 = []"
    and "\<And>i. k_output k0 i = None"
  shows "\<exists>r. registry_elaboration_done (signal_ops is_output ev) k = Some r \<and> (case r of
      Inl e \<Rightarrow> e = MultipleDrivers \<and> two_drivers (is_driver is_output k) rk k \<or>
        e \<in> {ReportError SC_ID_BIND_IF_TO_PORT, ReportError SC_ID_COMPLETE_BINDING} \<and> (\<exists>p. \<not> admissible rk k p)
    | Inr k' \<Rightarrow> \<not> two_drivers (is_driver is_output k) rk k \<and> (\<forall>p \<in> set (m_port_vec k). m_bind_info (k_port k' p) = None \<and>
        m_interface_vec (k_port k' p) = somes (stands_for rk k p) \<and> admissible rk k p))"
proof -
  have "k_output k = k_output k0" using assms(1) by (rule elaborated_output)
  then have "\<And>i. k_output k i = None" using assms(4) by simp
  then show ?thesis
    using signals.registry_elaboration_done_returns [of rk k k is_output ev] elaborated_ok [OF assms(1-3)]
    unfolding binding_fault_def by blast
qed

text \<open>Port 1 is bound to the signals 5 and 6; port 2, of a module inside, to signal 4 and to port 1.\<close>

definition no_ports :: "bool ports_kernel" where
  "no_ports = signals_kernel.extend
     (kernel.extend (simcontext_init None SC_STOP_FINISH_DELTA False)
       (signals_kernel.fields (\<lambda>c. sc_signal_new SC_ONE_WRITER False (simcontext_init None SC_STOP_FINISH_DELTA False))))
     (ports_kernel.fields (\<lambda>_. \<lparr>m_bind_info = None, m_interface_vec = []\<rparr>) (\<lambda>_. None) [] 0 (Some 0) (\<lambda>_. []))"

definition nested_ports :: "bool ports_kernel res" where
  "nested_ports =
     rbind (port_new 1 2 SC_ALL_BOUND no_ports) (\<lambda>k. rbind (port_new 2 0 SC_ONE_OR_MORE_BOUND k) (\<lambda>k.
     rbind (bind_interface 2 4 k) (\<lambda>k. rbind (bind_parent 2 1 k) (\<lambda>k.
     rbind (bind_interface 1 5 k) (\<lambda>k. bind_interface 1 6 k)))))"

lemmas ports_defs = kernel.defs signals_kernel.defs ports_kernel.defs simcontext_init_def no_ports_def port_new_def
  registry_insert_def bind_interface_def bind_parent_def add_interface_def upd_info_def upd_port_def bind_info_new_def

lemma no_ports_ok: "m_bind_info (k_port no_ports p) = None" "m_port_vec no_ports = []" "k_output no_ports i = None"
  by (simp_all add: ports_defs)

lemma nested_ports_built: "\<exists>k. nested_ports = Inr k \<and> m_port_vec k = [1, 2] \<and>
    stands_for (\<lambda>p. p) k 2 = [Some 4, Some 5, Some 6] \<and>
    (\<exists>r. registry_elaboration_done (signal_ops (\<lambda>p. p = 2) (\<lambda>f i. i)) k = Some (Inr r))"
  by (simp add: nested_ports_def ports_defs stands_for_def numeral_3_eq_3 numeral_2_eq_2)
    (simp add: registry_elaboration_done_def complete_binding_def complete_at.simps first_parent_def finish_binding_def
      complete_interface_def ports_defs insert_parent_def splice_loops_def Let_def check_binds_def bind_max_size_def free_binding_def
      port_elaboration_done_def complete_sensitivity_def signal_ops_def signal_register_port_def sc_signal_new_def)

lemma nested_ports_steps:
  assumes "nested_ports = Inr k"
  shows "(elab_step ops (\<lambda>p. p))\<^sup>*\<^sup>* no_ports k"
proof -
  obtain k1 k2 k3 k4 k5 where k: "port_new 1 2 SC_ALL_BOUND no_ports = Inr k1" "port_new 2 0 SC_ONE_OR_MORE_BOUND k1 = Inr k2"
    "bind_interface 2 4 k2 = Inr k3" "bind_parent 2 1 k3 = Inr k4" "bind_interface 1 5 k4 = Inr k5" "bind_interface 1 6 k5 = Inr k"
    using assms unfolding nested_ports_def by (elim rbind_InrE)
  have "m_port_vec k1 = [1]" using k(1) by (auto simp: port_new_def registry_insert_def rbind_eq_Inr no_ports_ok split: if_splits option.splits)
  then have "elab_step ops (\<lambda>p. p) no_ports k1" "elab_step ops (\<lambda>p. p) k1 k2" "elab_step ops (\<lambda>p. p) k2 k3" "elab_step ops (\<lambda>p. p) k3 k4"
    "elab_step ops (\<lambda>p. p) k4 k5" "elab_step ops (\<lambda>p. p) k5 k"
    using k by (simp_all add: step_new [OF k(1)] step_new [OF k(2)] step_bind [OF k(3)] step_bind_parent [OF k(4)] step_bind [OF k(5)]
        step_bind [OF k(6)] no_ports_ok)
  then show ?thesis by (meson rtranclp.rtrancl_into_rtrancl rtranclp.rtrancl_refl)
qed

theorem elaboration_binds_ports_witness:
  "\<exists>k k'. nested_ports = Inr k \<and> registry_elaboration_done (signal_ops (\<lambda>p. p = 2) (\<lambda>f i. i)) k = Some (Inr k') \<and>
     m_interface_vec (k_port k' 2) = [4, 5, 6]"
proof -
  obtain k r where k: "nested_ports = Inr k" "m_port_vec k = [1, 2]" "stands_for (\<lambda>p. p) k 2 = [Some 4, Some 5, Some 6]"
    "registry_elaboration_done (signal_ops (\<lambda>p. p = 2) (\<lambda>f i. i)) k = Some (Inr r)" using nested_ports_built by blast
  show ?thesis
    using elaboration_binds_ports [OF nested_ports_steps [OF k(1)] no_ports_ok, of "\<lambda>p. p = 2" "\<lambda>f i. i"] k by auto
qed

section \<open>Ports bound in a circle\<close>

text \<open>C25: nothing checks that the parents of a port are above it.  If no port of a set is complete yet
  and the first parent of each is again in the set, \<open>complete_binding\<close> of its ports never returns.\<close>

theorem circular_binding_never_returns:
  assumes "p \<in> C" and "\<And>p. p \<in> C \<Longrightarrow> \<exists>bi i q. m_bind_info (k_port k p) = Some bi \<and> \<not> bi_complete bi \<and>
      first_parent bi = Some i \<and> be_parent (bi_vec bi ! i) = Some q \<and> q \<in> C"
  shows "complete_binding ops p k = None"
proof (rule ccontr)
  assume "complete_binding ops p k \<noteq> None"
  then obtain r where r: "complete_at ops True p k = Some r" by (auto simp: complete_binding_def)
  have "\<not> (p \<in> C \<and> l = k)" if "complete_at ops entry p l = Some r" for ops :: "('a, 'b) ports_kernel_scheme iface_ops" and entry p l r
  proof (rule complete_at.raw_induct [of "\<lambda>_ _ p l _. \<not> (p \<in> C \<and> l = k)", OF _ that], goal_cases)
    case (1 f ops entry p l r)
    show ?case
    proof
      assume p: "p \<in> C \<and> l = k"
      then obtain bi i q where bi: "m_bind_info (k_port k p) = Some bi" "\<not> bi_complete bi" "first_parent bi = Some i"
        "be_parent (bi_vec bi ! i) = Some q" "q \<in> C" using assms(2) by blast
      then obtain y where "f ops True q k = Some y" using 1(2) p by (cases "f ops True q k") auto
      with 1(1) bi(5) show False by blast
    qed
  qed
  with r assms(1) show False by blast
qed

text \<open>Two ports, each bound to the other.\<close>

definition circular_ports :: "bool ports_kernel res" where
  "circular_ports =
     rbind (port_new 1 1 SC_ONE_OR_MORE_BOUND no_ports) (\<lambda>k. rbind (port_new 2 1 SC_ONE_OR_MORE_BOUND k) (\<lambda>k.
     rbind (bind_parent 1 2 k) (bind_parent 2 1)))"

theorem circular_binding_never_returns_witness:
  "\<exists>k. circular_ports = Inr k \<and> complete_binding (signal_ops (\<lambda>_. False) (\<lambda>f i. i)) 1 k = None"
proof -
  let ?next = "\<lambda>k p q. \<exists>bi i. m_bind_info (k_port k p) = Some bi \<and> \<not> bi_complete bi \<and>
      first_parent bi = Some i \<and> be_parent (bi_vec bi ! i) = Some q"
  have "\<exists>k. circular_ports = Inr k \<and> ?next k 1 2 \<and> ?next k 2 1"
    by (simp add: circular_ports_def ports_defs first_parent_def)
  then obtain k where k: "circular_ports = Inr k" "?next k 1 2" "?next k 2 1" by blast
  show ?thesis
  proof (intro exI conjI)
    show "complete_binding (signal_ops (\<lambda>_. False) (\<lambda>f i. i)) 1 k = None"
      by (rule circular_binding_never_returns [of 1 "{1, 2}"]) (use k(2,3) in \<open>simp, elim insertE emptyE, blast, blast\<close>)
  qed (rule k(1))
qed

end
