(* ===== verification/Nb_Digits.thy ===== *)
theory Nb_Digits
  imports Prelude Sc_Ids "HOL-Library.Word"
begin

text \<open>
  \<open>sysc/datatypes/int/sc_nbutils\<close>: the arithmetic of the numbers of any width, over vectors of digits, the least
  significant digit first.  A digit is a 32-bit \<open>unsigned int\<close> of which 30 bits are used; a vector is the list of the
  digits that the length argument of the code counts.  A function that fills a vector \<open>w\<close> takes its old contents,
  because the code leaves the places behind the result alone.  Pointers that run along a vector are recursions.
\<close>

unbundle bit_operations_syntax

type_synonym sc_digit = "32 word"
type_synonym uchar = "8 word"

definition BITS_PER_DIGIT :: nat where
  "BITS_PER_DIGIT = 30"

definition DIGIT_RADIX :: sc_digit where
  "DIGIT_RADIX = 0x40000000"

definition DIGIT_MASK :: sc_digit where
  "DIGIT_MASK = 0x3FFFFFFF"

definition HALF_DIGIT_MASK :: sc_digit where
  "HALF_DIGIT_MASK = 0x7FFF"

definition DIV_CEIL :: "int \<Rightarrow> int" where
  "DIV_CEIL x = (x - 1) div int BITS_PER_DIGIT + 1"

definition SC_NEG :: int where "SC_NEG = -1"

definition SC_ZERO :: int where "SC_ZERO = 0"

definition SC_POS :: int where "SC_POS = 1"

section \<open>Parts of a digit\<close>

definition low_half :: "sc_digit \<Rightarrow> sc_digit" where
  "low_half d = d AND HALF_DIGIT_MASK"

definition high_half :: "sc_digit \<Rightarrow> sc_digit" where
  "high_half d = drop_bit 15 d"

definition concat_halves :: "sc_digit \<Rightarrow> sc_digit \<Rightarrow> sc_digit" where
  "concat_halves h l = push_bit 15 h OR l"

definition one_and_ones :: "nat \<Rightarrow> sc_digit" where
  "one_and_ones n = push_bit n 1 - 1"

definition one_and_zeros :: "nat \<Rightarrow> sc_digit" where
  "one_and_zeros n = push_bit n 1"

definition digit_ord :: "nat \<Rightarrow> nat" where
  "digit_ord i = i div BITS_PER_DIGIT"

definition bit_ord :: "nat \<Rightarrow> nat" where
  "bit_ord i = i mod BITS_PER_DIGIT"

section \<open>Comparing, clearing, copying\<close>

fun find_nonzero :: "nat \<Rightarrow> sc_digit list \<Rightarrow> int" where
  "find_nonzero 0 u = -1"
| "find_nonzero (Suc n) u = (if u ! n = 0 then find_nonzero n u else int n)"

definition vec_find_first_nonzero :: "sc_digit list \<Rightarrow> int" where
  "vec_find_first_nonzero u = find_nonzero (length u) u"

definition vec_skip_leading_zeros :: "sc_digit list \<Rightarrow> nat" where
  "vec_skip_leading_zeros u = nat (1 + vec_find_first_nonzero u)"

fun cmp_from :: "nat \<Rightarrow> sc_digit list \<Rightarrow> sc_digit list \<Rightarrow> int" where
  "cmp_from 0 u v = 0"
| "cmp_from (Suc n) u v = (if u ! n = v ! n then cmp_from n u v else sint (u ! n - v ! n))"

definition vec_cmp :: "nat \<Rightarrow> sc_digit list \<Rightarrow> nat \<Rightarrow> sc_digit list \<Rightarrow> int" where
  "vec_cmp ulen u vlen v = (if ulen \<noteq> vlen then int ulen - int vlen else cmp_from ulen u v)"

definition vec_skip_and_cmp :: "sc_digit list \<Rightarrow> sc_digit list \<Rightarrow> int" where
  "vec_skip_and_cmp u v = vec_cmp (vec_skip_leading_zeros u) u (vec_skip_leading_zeros v) v"

definition vec_zero :: "nat \<Rightarrow> nat \<Rightarrow> sc_digit list \<Rightarrow> sc_digit list" where
  "vec_zero from ulen = fold (\<lambda>i u. u[i := 0]) [from..<ulen]"

definition vec_copy :: "nat \<Rightarrow> sc_digit list \<Rightarrow> sc_digit list \<Rightarrow> sc_digit list" where
  "vec_copy n u v = fold (\<lambda>i u. u[i := v ! i]) [0..<n] u"

definition vec_copy_and_zero :: "sc_digit list \<Rightarrow> sc_digit list \<Rightarrow> sc_digit list" where
  "vec_copy_and_zero u v = vec_zero (length v) (length u) (vec_copy (length v) u v)"

fun complement_loop :: "sc_digit \<Rightarrow> sc_digit list \<Rightarrow> sc_digit list" where
  "complement_loop carry [] = []"
| "complement_loop carry (u # us) =
     (let carry = carry + (NOT u AND DIGIT_MASK) in (carry AND DIGIT_MASK) # complement_loop (drop_bit BITS_PER_DIGIT carry) us)"

definition vec_complement :: "sc_digit list \<Rightarrow> sc_digit list" where
  "vec_complement = complement_loop 1"

section \<open>Addition and subtraction\<close>

text \<open>Along both vectors; the digits written, the carry, and what is left of the first vector.\<close>

fun add_along :: "sc_digit \<Rightarrow> sc_digit list \<Rightarrow> sc_digit list \<Rightarrow> sc_digit list \<times> sc_digit \<times> sc_digit list" where
  "add_along carry (u # us) (v # vs) =
     (let carry = carry + (u + v); (w, c, us) = add_along (drop_bit BITS_PER_DIGIT carry) us vs in ((carry AND DIGIT_MASK) # w, c, us))"
| "add_along carry us vs = ([], carry, us)"

fun add_carry :: "sc_digit \<Rightarrow> sc_digit list \<Rightarrow> sc_digit list \<times> sc_digit" where
  "add_carry carry [] = ([], carry)"
| "add_carry carry (u # us) =
     (if carry \<noteq> 0
      then let carry = u + 1; (w, c) = add_carry (drop_bit BITS_PER_DIGIT carry) us in ((carry AND DIGIT_MASK) # w, c)
      else (u # us, carry))"

definition store :: "sc_digit list \<Rightarrow> sc_digit \<Rightarrow> sc_digit list \<Rightarrow> sc_digit list" where
  "store ds carry w = (if carry \<noteq> 0 then ds @ [1] @ drop (length ds + 1) w else ds @ drop (length ds) w)"

definition vec_add :: "sc_digit list \<Rightarrow> sc_digit list \<Rightarrow> sc_digit list \<Rightarrow> sc_digit list" where
  "vec_add u v w = (let (ds, c, us) = add_along 0 u v; (es, c) = add_carry c us in store (ds @ es) c w)"

definition vec_add_on :: "sc_digit list \<Rightarrow> sc_digit list \<Rightarrow> sc_digit list" where
  "vec_add_on u v = (let (ds, c, us) = add_along 0 u v; (es, c) = add_carry c us in ds @ es)"

definition vec_add_on2 :: "sc_digit list \<Rightarrow> sc_digit list \<Rightarrow> sc_digit list" where
  "vec_add_on2 u v = fst (add_along 0 u v)"

definition vec_add_small :: "sc_digit list \<Rightarrow> sc_digit \<Rightarrow> sc_digit list \<Rightarrow> sc_digit list" where
  "vec_add_small u v w =
     (let carry = hd u + v; (es, c) = add_carry (drop_bit BITS_PER_DIGIT carry) (tl u) in store ((carry AND DIGIT_MASK) # es) c w)"

fun vec_add_small_on :: "sc_digit list \<Rightarrow> sc_digit \<Rightarrow> sc_digit list" where
  "vec_add_small_on [] v = []"
| "vec_add_small_on (u # us) v =
     (if v \<noteq> 0 then let v = v + u in (v AND DIGIT_MASK) # vec_add_small_on us (drop_bit BITS_PER_DIGIT v) else u # us)"

fun sub_along :: "sc_digit \<Rightarrow> sc_digit list \<Rightarrow> sc_digit list \<Rightarrow> sc_digit list \<times> sc_digit \<times> sc_digit list" where
  "sub_along borrow (u # us) (v # vs) =
     (let borrow = (u + DIGIT_RADIX) - v - borrow; (w, b, us) = sub_along (1 - drop_bit BITS_PER_DIGIT borrow) us vs
      in ((borrow AND DIGIT_MASK) # w, b, us))"
| "sub_along borrow us vs = ([], borrow, us)"

fun sub_borrow :: "sc_digit \<Rightarrow> sc_digit list \<Rightarrow> sc_digit list" where
  "sub_borrow borrow [] = []"
| "sub_borrow borrow (u # us) =
     (if borrow \<noteq> 0
      then let borrow = (u + DIGIT_RADIX) - 1 in (borrow AND DIGIT_MASK) # sub_borrow (1 - drop_bit BITS_PER_DIGIT borrow) us
      else u # us)"

definition vec_sub :: "sc_digit list \<Rightarrow> sc_digit list \<Rightarrow> sc_digit list \<Rightarrow> sc_digit list" where
  "vec_sub u v w = (let (ds, b, us) = sub_along 0 u v; r = ds @ sub_borrow b us in r @ drop (length r) w)"

definition vec_sub_on :: "sc_digit list \<Rightarrow> sc_digit list \<Rightarrow> sc_digit list" where
  "vec_sub_on u v = (let (ds, b, us) = sub_along 0 u v in ds @ sub_borrow b us)"

definition vec_sub_on2 :: "sc_digit list \<Rightarrow> sc_digit list \<Rightarrow> sc_digit list" where
  "vec_sub_on2 u v = (let n = min (length u) (length v); (ds, b, us) = sub_along 0 (take n v) (take n u) in ds @ drop n u)"

definition vec_sub_small :: "sc_digit list \<Rightarrow> sc_digit \<Rightarrow> sc_digit list \<Rightarrow> sc_digit list" where
  "vec_sub_small u v w =
     (let borrow = (hd u + DIGIT_RADIX) - v; r = (borrow AND DIGIT_MASK) # sub_borrow (1 - drop_bit BITS_PER_DIGIT borrow) (tl u)
      in r @ drop (length r) w)"

fun vec_sub_small_on :: "sc_digit list \<Rightarrow> sc_digit \<Rightarrow> sc_digit list" where
  "vec_sub_small_on [] v = []"
| "vec_sub_small_on (u # us) v =
     (let v = (u + DIGIT_RADIX) - v in (v AND DIGIT_MASK) # vec_sub_small_on us (1 - drop_bit BITS_PER_DIGIT v))"

section \<open>The number of a vector\<close>

fun nval :: "nat \<Rightarrow> nat list \<Rightarrow> nat" where
  "nval B [] = 0"
| "nval B (d # ds) = d + B * nval B ds"

text \<open>The radix, as a number.\<close>

definition RADIX :: nat where
  "RADIX = 2 ^ 30"

lemma RADIX_pos [simp]: "0 < RADIX"
  by (simp add: RADIX_def)

lemma RADIX_nat: "RADIX = 1073741824"
  by (simp add: RADIX_def)

definition dval :: "sc_digit list \<Rightarrow> nat" where
  "dval ds = nval RADIX (map unat ds)"

text \<open>Every digit of a vector is below the radix: the two bits above are clear.\<close>

definition digits_ok :: "sc_digit list \<Rightarrow> bool" where
  "digits_ok ds \<longleftrightarrow> list_all (\<lambda>d. unat d < RADIX) ds"

lemma nval_append: "nval B (xs @ ys) = nval B xs + B ^ length xs * nval B ys"
  by (induction xs) (simp_all add: algebra_simps)

lemma nval_less: "list_all (\<lambda>d. d < B) ds \<Longrightarrow> nval B ds < B ^ length ds"
proof (induction ds)
  case (Cons d ds)
  then have d: "d < B" "nval B ds + 1 \<le> B ^ length ds" by simp_all
  have "B * (nval B ds + 1) \<le> B * B ^ length ds" by (rule mult_left_mono [OF d(2)]) simp
  with d(1) show ?case by (simp add: algebra_simps)
qed simp

lemma dval_simps [simp]: "dval [] = 0" "dval (d # ds) = unat d + RADIX * dval ds"
  by (simp_all add: dval_def)

lemma dval_append: "dval (xs @ ys) = dval xs + RADIX ^ length xs * dval ys"
  by (simp add: dval_def nval_append)

lemma digits_ok_simps [simp]:
  "digits_ok []" "digits_ok (d # ds) \<longleftrightarrow> unat d < RADIX \<and> digits_ok ds" "digits_ok (xs @ ys) \<longleftrightarrow> digits_ok xs \<and> digits_ok ys"
  by (simp_all add: digits_ok_def)

lemma dval_less: "digits_ok ds \<Longrightarrow> dval ds < RADIX ^ length ds"
  using nval_less [of RADIX "map unat ds"] by (simp add: dval_def digits_ok_def list_all_iff del: power_mult)

text \<open>Words as natural numbers.\<close>

lemma unat_drop: "unat (drop_bit n (x :: 'a :: len word)) = unat x div 2 ^ n"
  by (rule trans [OF unat_drop_bit_eq drop_bit_eq_div])

lemma unat_take: "unat (take_bit n (x :: 'a :: len word)) = unat x mod 2 ^ n"
  by (rule trans [OF unsigned_take_bit_eq take_bit_eq_mod])

lemma digit_mask: "x AND DIGIT_MASK = take_bit 30 x"
proof -
  have "DIGIT_MASK = mask 30" by (simp add: DIGIT_MASK_def mask_eq_exp_minus_1)
  then show ?thesis by (simp only: take_bit_eq_mask)
qed

lemma unat_digit_mask [simp]: "unat (x AND DIGIT_MASK) = unat x mod RADIX"
  by (simp only: digit_mask unat_take RADIX_def)

lemma unat_carry [simp]: "unat (drop_bit BITS_PER_DIGIT (x :: sc_digit)) = unat x div RADIX"
  by (simp only: BITS_PER_DIGIT_def unat_drop RADIX_def)

lemma unat_plus: "unat (a :: 'a :: len word) + unat b < 2 ^ LENGTH('a) \<Longrightarrow> unat (a + b) = unat a + unat b"
  by (simp add: unat_add_lem)

lemma unat_minus: "unat b \<le> unat (a :: 'a :: len word) \<Longrightarrow> unat (a - b) = unat a - unat b"
  by (simp add: unat_sub word_le_nat_alt)

lemma carry_le_1: "n < 2 * RADIX \<Longrightarrow> n div RADIX \<le> 1"
  by (simp add: less_mult_imp_div_less flip: less_Suc_eq_le)

lemma digit_step:
  assumes "w + p * c = x + s div r"
  shows "s mod r + r * (w :: nat) + r * (p * c) = r * x + s"
proof -
  have "r * (w + p * c) + s mod r = r * x + (r * (s div r) + s mod r)" unfolding assms by (simp add: distrib_left)
  then show ?thesis by (simp add: distrib_left)
qed

section \<open>Addition\<close>

lemma add_along_value:
  "digits_ok u \<Longrightarrow> digits_ok v \<Longrightarrow> unat c \<le> 1 \<Longrightarrow> add_along c u v = (w, c', u') \<Longrightarrow>
    digits_ok w \<and> unat c' \<le> 1 \<and> length w = min (length u) (length v) \<and> u' = drop (length v) u \<and>
    dval w + RADIX ^ length w * unat c' = dval (take (length v) u) + dval (take (length u) v) + unat c"
proof (induction c u v arbitrary: w c' u' rule: add_along.induct)
  case (1 c u us v vs)
  let ?s = "c + (u + v)"
  obtain w1 c1 u1 where rec: "add_along (drop_bit BITS_PER_DIGIT ?s) us vs = (w1, c1, u1)" by (cases "add_along (drop_bit BITS_PER_DIGIT ?s) us vs")
  have b: "unat u < RADIX" "unat v < RADIX" "unat c \<le> 1" using 1(2-4) by simp_all
  have "unat (u + v) = unat u + unat v" using b by (intro unat_plus) (simp add: RADIX_nat)
  then have s: "unat ?s = unat c + (unat u + unat v)" using b by (subst unat_plus) (simp_all add: RADIX_nat)
  have "unat (drop_bit BITS_PER_DIGIT ?s) \<le> 1" unfolding unat_carry s using b by (intro carry_le_1) simp
  from 1(1) [OF refl _ _ this rec] 1(2,3)
  have ih: "digits_ok w1" "unat c1 \<le> 1" "length w1 = min (length us) (length vs)" "u1 = drop (length vs) us"
    "dval w1 + RADIX ^ length w1 * unat c1 = dval (take (length vs) us) + dval (take (length us) vs) + unat ?s div RADIX"
    by auto
  have r: "w = (?s AND DIGIT_MASK) # w1" "c' = c1" "u' = u1" using 1(5) rec by (simp_all add: Let_def)
  have "dval w + RADIX ^ length w * unat c' = dval (take (length (v # vs)) (u # us)) + dval (take (length (u # us)) (v # vs)) + unat c"
    using digit_step [OF ih(5)] unfolding r by (simp add: distrib_left s)
  then show ?case using ih r by simp
qed auto

lemma add_carry_value:
  "digits_ok u \<Longrightarrow> unat c \<le> 1 \<Longrightarrow> add_carry c u = (w, c') \<Longrightarrow>
    digits_ok w \<and> unat c' \<le> 1 \<and> length w = length u \<and> dval w + RADIX ^ length w * unat c' = dval u + unat c"
proof (induction c u arbitrary: w c' rule: add_carry.induct)
  case (2 c u us)
  show ?case
  proof (cases "c = 0")
    case False
    then have c: "unat c = 1" using 2(3) unat_gt_0 [of c] by linarith
    have s: "unat (u + 1) = unat u + 1" using 2(2) by (subst unat_plus) (simp_all add: RADIX_nat)
    obtain w1 c1 where rec: "add_carry (drop_bit BITS_PER_DIGIT (u + 1)) us = (w1, c1)" by fastforce
    have "unat (drop_bit BITS_PER_DIGIT (u + 1)) \<le> 1" unfolding unat_carry s using 2(2) by (intro carry_le_1) simp
    from 2(1) [OF False refl _ this rec] 2(2)
    have ih: "digits_ok w1" "unat c1 \<le> 1" "length w1 = length us"
      "dval w1 + RADIX ^ length w1 * unat c1 = dval us + unat (u + 1) div RADIX" by auto
    have r: "w = (u + 1 AND DIGIT_MASK) # w1" "c' = c1" using 2(4) rec False by (simp_all add: Let_def)
    have "dval w + RADIX ^ length w * unat c' = dval (u # us) + unat c"
      using digit_step [OF ih(4)] unfolding r c by (simp add: distrib_left s)
    then show ?thesis using ih r by simp
  qed (use 2 in auto)
qed auto

lemma dval_take_drop: "length u = m \<Longrightarrow> n \<le> m \<Longrightarrow> dval u = dval (take n u) + RADIX ^ n * dval (drop n u)"
  using dval_append [of "take n u" "drop n u"] by simp

lemma dval_mod: "digits_ok w \<Longrightarrow> dval w + RADIX ^ length w * c = n \<Longrightarrow> dval w = n mod RADIX ^ length w"
  using dval_less [of w] by auto

lemma digits_ok_parts: "digits_ok u \<Longrightarrow> digits_ok (take n u)" "digits_ok u \<Longrightarrow> digits_ok (drop n u)"
  by (simp_all add: digits_ok_def list_all_length)

lemma digits_ok_take: "digits_ok (take n u) \<Longrightarrow> digits_ok (drop n u) \<Longrightarrow> digits_ok u"
  using digits_ok_simps(3) [of "take n u" "drop n u"] by simp

text \<open>Both loops of an addition: the digits, and the carry out of the last one.\<close>

lemma add_loops:
  assumes "digits_ok u" and "digits_ok v" and "length v \<le> length u" and "add_along 0 u v = (ds, c, us)" and "add_carry c us = (es, c')"
  shows "digits_ok (ds @ es)" "length (ds @ es) = length u" "unat c' \<le> 1"
    "dval (ds @ es) + RADIX ^ length u * unat c' = dval u + dval v"
proof -
  have a: "digits_ok ds" "unat c \<le> 1" "length ds = length v" "us = drop (length v) u"
    "dval ds + RADIX ^ length v * unat c = dval (take (length v) u) + dval v"
    using add_along_value [OF assms(1,2) _ assms(4)] assms(3) by auto
  have b: "digits_ok es" "unat c' \<le> 1" "length es = length us" "dval es + RADIX ^ length us * unat c' = dval us + unat c"
    using add_carry_value [OF _ a(2) assms(5)] digits_ok_parts(2) [OF assms(1)] a(4) by auto
  show "digits_ok (ds @ es)" "unat c' \<le> 1" using a b by simp_all
  show "length (ds @ es) = length u" using a b assms(3) by simp
  have "RADIX ^ length u = RADIX ^ length v * RADIX ^ length us" using assms(3) a(4) by (simp flip: power_add)
  then have "dval (ds @ es) + RADIX ^ length u * unat c' = dval ds + RADIX ^ length v * (dval es + RADIX ^ length us * unat c')"
    using a(3) by (simp add: dval_append distrib_left)
  also have "\<dots> = (dval ds + RADIX ^ length v * unat c) + RADIX ^ length v * dval us" unfolding b(4) by (simp add: distrib_left)
  also have "\<dots> = dval u + dval v" unfolding a(5) using dval_take_drop [OF refl assms(3)] a(4) by simp
  finally show "dval (ds @ es) + RADIX ^ length u * unat c' = dval u + dval v" .
qed

lemma unat_le_1: "unat c \<le> 1 \<Longrightarrow> c \<noteq> 0 \<Longrightarrow> unat c = 1"
  using unat_gt_0 [of c] by linarith

lemma store_value:
  assumes "length ds < length w" and "w ! length ds = 0" and "unat c \<le> 1" and "digits_ok ds"
  shows "dval (take (length ds + 1) (store ds c w)) = dval ds + RADIX ^ length ds * unat c"
    and "digits_ok (take (length ds + 1) (store ds c w))" and "length (store ds c w) = length w"
    and "drop (length ds + 1) (store ds c w) = drop (length ds + 1) w"
proof -
  have "drop (length ds) w = 0 # drop (length ds + 1) w" using assms(1,2) Cons_nth_drop_Suc [of "length ds" w] by simp
  then show "dval (take (length ds + 1) (store ds c w)) = dval ds + RADIX ^ length ds * unat c"
    "digits_ok (take (length ds + 1) (store ds c w))" "drop (length ds + 1) (store ds c w) = drop (length ds + 1) w"
    using assms(3,4) unat_le_1 [of c] by (auto simp: store_def dval_append RADIX_nat)
  show "length (store ds c w) = length w" using assms(1) by (auto simp: store_def)
qed

lemma vec_add_value:
  assumes "digits_ok u" and "digits_ok v" and "length v \<le> length u" and "length u < length w" and "w ! length u = 0"
  shows "dval (take (length u + 1) (vec_add u v w)) = dval u + dval v" and "digits_ok (take (length u + 1) (vec_add u v w))"
    and "length (vec_add u v w) = length w" and "drop (length u + 1) (vec_add u v w) = drop (length u + 1) w"
proof -
  obtain ds c us es c' where l: "add_along 0 u v = (ds, c, us)" "add_carry c us = (es, c')" by (metis prod_cases3 prod.exhaust)
  note loops = add_loops [OF assms(1-3) l]
  have r: "vec_add u v w = store (ds @ es) c' w" using l by (simp add: vec_add_def)
  note st = store_value [of "ds @ es" w c', unfolded loops(2), OF assms(4,5) loops(3,1)]
  show "dval (take (length u + 1) (vec_add u v w)) = dval u + dval v" unfolding r st(1) by (rule loops(4))
  show "digits_ok (take (length u + 1) (vec_add u v w))" "length (vec_add u v w) = length w"
    "drop (length u + 1) (vec_add u v w) = drop (length u + 1) w" unfolding r by (rule st)+
qed

lemma vec_add_on_value:
  assumes "digits_ok u" and "digits_ok v" and "length v \<le> length u"
  shows "dval (vec_add_on u v) = (dval u + dval v) mod RADIX ^ length u" and "digits_ok (vec_add_on u v)" and "length (vec_add_on u v) = length u"
proof -
  obtain ds c us es c' where l: "add_along 0 u v = (ds, c, us)" "add_carry c us = (es, c')" by (metis prod_cases3 prod.exhaust)
  note loops = add_loops [OF assms l]
  have r: "vec_add_on u v = ds @ es" using l by (simp add: vec_add_on_def)
  show "digits_ok (vec_add_on u v)" "length (vec_add_on u v) = length u" unfolding r by (rule loops)+
  show "dval (vec_add_on u v) = (dval u + dval v) mod RADIX ^ length u"
    unfolding r by (rule dval_mod [OF loops(1), unfolded loops(2), OF loops(4)])
qed

lemma vec_add_on2_value:
  assumes "digits_ok u" and "digits_ok v" and "length u \<le> length v"
  shows "dval (vec_add_on2 u v) = (dval u + dval v) mod RADIX ^ length u" and "digits_ok (vec_add_on2 u v)" and "length (vec_add_on2 u v) = length u"
proof -
  obtain ds c us where l: "add_along 0 u v = (ds, c, us)" by (metis prod_cases3)
  have a: "digits_ok ds" "length ds = length u" "dval ds + RADIX ^ length u * unat c = dval u + dval (take (length u) v)"
    using add_along_value [OF assms(1,2) _ l] assms(3) by auto
  have r: "vec_add_on2 u v = ds" using l by (simp add: vec_add_on2_def)
  show "digits_ok (vec_add_on2 u v)" "length (vec_add_on2 u v) = length u" unfolding r by (rule a)+
  have "dval ds = (dval u + dval (take (length u) v)) mod RADIX ^ length u" by (rule dval_mod [OF a(1), unfolded a(2), OF a(3)])
  also have "\<dots> = (dval u + dval v) mod RADIX ^ length u"
    unfolding dval_take_drop [OF refl assms(3)] by (simp add: add.assoc [symmetric])
  finally show "dval (vec_add_on2 u v) = (dval u + dval v) mod RADIX ^ length u" unfolding r .
qed

section \<open>Subtraction\<close>

lemma digit_step_sub:
  assumes "w + v + (1 - (a + r - b) div r) = u + p * c" and "b \<le> a + r" and "(a + r - b) div r \<le> 1"
  shows "(a + r - b) mod r + r * w + (b + r * v) = a + r * u + r * (p * (c :: nat))"
proof -
  have q: "(a + r - b) mod r + r * ((a + r - b) div r) + b = a + r" using assms(2) by simp
  have "(a + r - b) div r = 0 \<or> (a + r - b) div r = 1" using assms(3) by linarith
  then show ?thesis
  proof
    assume 0: "(a + r - b) div r = 0"
    then have "r * (w + v + 1) = r * (u + p * c)" using assms(1) by simp
    with q 0 show ?thesis by (simp add: distrib_left)
  next
    assume 1: "(a + r - b) div r = 1"
    then have "r * (w + v) = r * (u + p * c)" using assms(1) by simp
    with q 1 show ?thesis by (simp add: distrib_left)
  qed
qed

lemma unat_borrow: "unat (d :: sc_digit) div RADIX \<le> 1 \<Longrightarrow> unat (1 - drop_bit BITS_PER_DIGIT d) = 1 - unat d div RADIX"
  by (subst unat_minus) simp_all

lemma unat_sub_digit:
  assumes "unat u < RADIX" and "unat v < RADIX" and "unat b \<le> 1"
  shows "unat (u + DIGIT_RADIX - v - b) = unat u + RADIX - (unat v + unat b)"
    and "(unat u + RADIX - (unat v + unat b)) div RADIX \<le> 1" and "unat v + unat b \<le> unat u + RADIX"
proof -
  have "unat (u + DIGIT_RADIX) = unat u + RADIX" using assms(1) by (subst unat_plus) (simp_all add: DIGIT_RADIX_def RADIX_nat)
  moreover from this have "unat (u + DIGIT_RADIX - v) = unat u + RADIX - unat v" using assms(2) by (subst unat_minus) simp_all
  ultimately show "unat (u + DIGIT_RADIX - v - b) = unat u + RADIX - (unat v + unat b)"
    using assms(2,3) by (subst unat_minus) simp_all
  show "(unat u + RADIX - (unat v + unat b)) div RADIX \<le> 1" using assms by (intro carry_le_1) simp
  show "unat v + unat b \<le> unat u + RADIX" using assms by simp
qed

lemma sub_along_value:
  "digits_ok u \<Longrightarrow> digits_ok v \<Longrightarrow> unat b \<le> 1 \<Longrightarrow> sub_along b u v = (w, b', u') \<Longrightarrow>
    digits_ok w \<and> unat b' \<le> 1 \<and> length w = min (length u) (length v) \<and> u' = drop (length v) u \<and>
    dval w + dval (take (length u) v) + unat b = dval (take (length v) u) + RADIX ^ length w * unat b'"
proof (induction b u v arbitrary: w b' u' rule: sub_along.induct)
  case (1 b u us v vs)
  let ?d = "u + DIGIT_RADIX - v - b"
  have o: "unat u < RADIX" "unat v < RADIX" "unat b \<le> 1" using 1(2-4) by simp_all
  note d = unat_sub_digit [OF o]
  have q: "unat (1 - drop_bit BITS_PER_DIGIT ?d) = 1 - unat ?d div RADIX" using d(1,2) by (intro unat_borrow) simp
  obtain w1 b1 u1 where rec: "sub_along (1 - drop_bit BITS_PER_DIGIT ?d) us vs = (w1, b1, u1)" by (metis prod_cases3)
  from 1(1) [OF refl _ _ _ rec] 1(2,3)
  have ih: "digits_ok w1" "unat b1 \<le> 1" "length w1 = min (length us) (length vs)" "u1 = drop (length vs) us"
    "dval w1 + dval (take (length us) vs) + (1 - unat ?d div RADIX) = dval (take (length vs) us) + RADIX ^ length w1 * unat b1"
    unfolding q by auto
  have r: "w = (?d AND DIGIT_MASK) # w1" "b' = b1" "u' = u1" using 1(5) rec by (simp_all add: Let_def)
  have "dval w + dval (take (length (u # us)) (v # vs)) + unat b =
      dval (take (length (v # vs)) (u # us)) + RADIX ^ length w * unat b'"
    using digit_step_sub [OF ih(5) [unfolded d(1)] d(3,2)] unfolding r by (simp add: d(1))
  then show ?case using ih r by simp
qed auto

lemma sub_borrow_value:
  "digits_ok u \<Longrightarrow> unat b \<le> 1 \<Longrightarrow>
    digits_ok (sub_borrow b u) \<and> length (sub_borrow b u) = length u \<and>
    (\<exists>b'. b' \<le> 1 \<and> dval (sub_borrow b u) + unat b = dval u + RADIX ^ length u * b')"
proof (induction b u rule: sub_borrow.induct)
  case (2 b u us)
  show ?case
  proof (cases "b = 0")
    case False
    then have b: "unat b = 1" using 2(3) by (simp add: unat_le_1)
    let ?d = "u + DIGIT_RADIX - 1"
    have o: "unat u < RADIX" "unat (0 :: sc_digit) < RADIX" "unat (1 :: sc_digit) \<le> 1" using 2(2) by simp_all
    note d = unat_sub_digit [OF o, simplified]
    have q: "unat (1 - drop_bit BITS_PER_DIGIT ?d) = 1 - unat ?d div RADIX" using d(1,2) by (intro unat_borrow) simp
    from 2(1) [OF False refl] 2(2)
    obtain b' where ih: "digits_ok (sub_borrow (1 - drop_bit BITS_PER_DIGIT ?d) us)"
      "length (sub_borrow (1 - drop_bit BITS_PER_DIGIT ?d) us) = length us" "b' \<le> 1"
      "dval (sub_borrow (1 - drop_bit BITS_PER_DIGIT ?d) us) + 0 + (1 - (unat u + RADIX - 1) div RADIX) = dval us + RADIX ^ length us * b'"
      unfolding q d(1) by auto
    have "(unat u + RADIX - 1) mod RADIX + RADIX * dval (sub_borrow (1 - drop_bit BITS_PER_DIGIT ?d) us) + (1 + RADIX * 0) =
        unat u + RADIX * dval us + RADIX * (RADIX ^ length us * b')"
      by (rule digit_step_sub [OF ih(4)]) (use d in simp_all)
    then have "dval (sub_borrow b (u # us)) + unat b = dval (u # us) + RADIX ^ length (u # us) * b'"
      using False b d(1) by (simp add: Let_def)
    then show ?thesis using ih(1-3) False by (auto simp: Let_def)
  qed (use 2 in auto)
qed auto

lemma sub_mod:
  assumes "(r :: nat) + v = u + p * b" and "r < p"
  shows "int r = (int u - int v) mod int p"
proof -
  have "int r = int u - int v + int p * int b" using assms(1) by (simp flip: of_nat_add of_nat_mult)
  then have "(int u - int v) mod int p = int r mod int p" by (metis mod_mult_self2)
  then show ?thesis using assms(2) by simp
qed

lemma sub_loops:
  assumes "digits_ok u" and "digits_ok v" and "length v \<le> length u" and "sub_along 0 u v = (ds, b, us)"
  shows "digits_ok (ds @ sub_borrow b us)" "length (ds @ sub_borrow b us) = length u"
    "int (dval (ds @ sub_borrow b us)) = (int (dval u) - int (dval v)) mod int RADIX ^ length u"
proof -
  have a: "digits_ok ds" "unat b \<le> 1" "length ds = length v" "us = drop (length v) u"
    "dval ds + dval v = dval (take (length v) u) + RADIX ^ length v * unat b"
    using sub_along_value [OF assms(1,2) _ assms(4)] assms(3) by auto
  obtain b' where c: "digits_ok (sub_borrow b us)" "length (sub_borrow b us) = length us"
    "dval (sub_borrow b us) + unat b = dval us + RADIX ^ length us * b'"
    using sub_borrow_value [OF _ a(2)] digits_ok_parts(2) [OF assms(1)] a(4) by blast
  show ok: "digits_ok (ds @ sub_borrow b us)" using a c by simp
  show len: "length (ds @ sub_borrow b us) = length u" using a c assms(3) by simp
  have p: "RADIX ^ length u = RADIX ^ length v * RADIX ^ length us" using assms(3) a(4) by (simp flip: power_add)
  have "dval (ds @ sub_borrow b us) + dval v + RADIX ^ length v * unat b =
      dval (take (length v) u) + RADIX ^ length v * unat b + RADIX ^ length v * (dval (sub_borrow b us) + unat b)"
    using a(3,5) by (simp add: dval_append distrib_left)
  also have "\<dots> = dval u + RADIX ^ length v * unat b + RADIX ^ length u * b'"
    unfolding c(3) p dval_take_drop [OF refl assms(3)] by (simp add: a(4) distrib_left)
  finally have "dval (ds @ sub_borrow b us) + dval v = dval u + RADIX ^ length u * b'" by simp
  from sub_mod [OF this] dval_less [OF ok] len
  show "int (dval (ds @ sub_borrow b us)) = (int (dval u) - int (dval v)) mod int RADIX ^ length u" by simp
qed

lemma vec_sub_value:
  assumes "digits_ok u" and "digits_ok v" and "length v \<le> length u"
  shows "int (dval (take (length u) (vec_sub u v w))) = (int (dval u) - int (dval v)) mod int RADIX ^ length u"
    and "digits_ok (take (length u) (vec_sub u v w))" and "drop (length u) (vec_sub u v w) = drop (length u) w"
    and "length u \<le> length w \<Longrightarrow> length (vec_sub u v w) = length w"
    and "int (dval (vec_sub_on u v)) = (int (dval u) - int (dval v)) mod int RADIX ^ length u"
    and "digits_ok (vec_sub_on u v)" and "length (vec_sub_on u v) = length u"
proof -
  obtain ds b us where l: "sub_along 0 u v = (ds, b, us)" by (metis prod_cases3)
  note loops = sub_loops [OF assms l]
  have r: "vec_sub u v w = (ds @ sub_borrow b us) @ drop (length u) w" "vec_sub_on u v = ds @ sub_borrow b us"
    using l loops(2) by (simp_all add: vec_sub_def vec_sub_on_def Let_def)
  show "int (dval (take (length u) (vec_sub u v w))) = (int (dval u) - int (dval v)) mod int RADIX ^ length u"
    "digits_ok (take (length u) (vec_sub u v w))" "drop (length u) (vec_sub u v w) = drop (length u) w"
    "length u \<le> length w \<Longrightarrow> length (vec_sub u v w) = length w"
    "int (dval (vec_sub_on u v)) = (int (dval u) - int (dval v)) mod int RADIX ^ length u"
    "digits_ok (vec_sub_on u v)" "length (vec_sub_on u v) = length u"
    unfolding r using loops by simp_all
qed

lemma vec_sub_on2_value:
  assumes "digits_ok u" and "digits_ok v" and "length u \<le> length v"
  shows "int (dval (vec_sub_on2 u v)) = (int (dval v) - int (dval u)) mod int RADIX ^ length u" and "digits_ok (vec_sub_on2 u v)"
    and "length (vec_sub_on2 u v) = length u"
proof -
  obtain ds b us where l: "sub_along 0 (take (length u) v) u = (ds, b, us)" by (metis prod_cases3)
  have r: "vec_sub_on2 u v = ds" using l assms(3) by (simp add: vec_sub_on2_def Let_def min_def)
  have a: "digits_ok ds" "length ds = length u" "dval ds + dval u = dval (take (length u) v) + RADIX ^ length u * unat b"
    using sub_along_value [OF digits_ok_parts(1) [OF assms(2)] assms(1) _ l] assms(3) by auto
  show "digits_ok (vec_sub_on2 u v)" "length (vec_sub_on2 u v) = length u" unfolding r by (rule a)+
  have "int (dval ds) = (int (dval (take (length u) v)) - int (dval u)) mod int (RADIX ^ length u)"
    using sub_mod [OF a(3)] dval_less [OF a(1)] a(2) by simp
  also have "\<dots> = (int (dval (take (length u) v)) - int (dval u) + int (RADIX ^ length u) * int (dval (drop (length u) v))) mod int (RADIX ^ length u)"
    by simp
  also have "int (dval (take (length u) v)) - int (dval u) + int (RADIX ^ length u) * int (dval (drop (length u) v)) = int (dval v) - int (dval u)"
    unfolding dval_take_drop [OF refl assms(3)] by simp
  finally show "int (dval (vec_sub_on2 u v)) = (int (dval v) - int (dval u)) mod int RADIX ^ length u" unfolding r by simp
qed

section \<open>A single digit\<close>

lemma small_is_vec:
  assumes "u \<noteq> []"
  shows "vec_add_small u v w = vec_add u [v] w" and "vec_sub_small u v w = vec_sub u [v] w"
proof -
  obtain d ds where "u = d # ds" using assms by (cases u) simp_all
  then show "vec_add_small u v w = vec_add u [v] w" "vec_sub_small u v w = vec_sub u [v] w"
    by (simp_all add: vec_add_small_def vec_add_def vec_sub_small_def vec_sub_def Let_def split: prod.split)
qed

lemma vec_add_small_on_value:
  "digits_ok u \<Longrightarrow> unat v < RADIX \<Longrightarrow> digits_ok (vec_add_small_on u v) \<and> length (vec_add_small_on u v) = length u \<and>
    (\<exists>c. dval (vec_add_small_on u v) + RADIX ^ length u * c = dval u + unat v)"
proof (induction u v rule: vec_add_small_on.induct)
  case (1 v)
  then show ?case by simp
next
  case (2 u us v)
  show ?case
  proof (cases "v = 0")
    case False
    have s: "unat (v + u) = unat v + unat u" using 2(2,3) by (subst unat_plus) (simp_all add: RADIX_nat)
    have q: "unat (v + u) div RADIX \<le> 1" unfolding s using 2(2,3) by (intro carry_le_1) simp
    have "unat (drop_bit BITS_PER_DIGIT (v + u)) < RADIX" using q by (simp add: RADIX_nat)
    from 2(1) [OF False refl _ this] 2(2)
    obtain c where ih: "digits_ok (vec_add_small_on us (drop_bit BITS_PER_DIGIT (v + u)))"
      "length (vec_add_small_on us (drop_bit BITS_PER_DIGIT (v + u))) = length us"
      "dval (vec_add_small_on us (drop_bit BITS_PER_DIGIT (v + u))) + RADIX ^ length us * c = dval us + unat (v + u) div RADIX" by auto
    have "dval (vec_add_small_on (u # us) v) + RADIX ^ length (u # us) * c = dval (u # us) + unat v"
      using digit_step [OF ih(3)] False by (simp add: Let_def s)
    then show ?thesis using ih(1,2) False by (auto simp: Let_def)
  qed (use 2 in \<open>auto intro: exI [of _ 0]\<close>)
qed

lemma vec_sub_small_on_value:
  "digits_ok u \<Longrightarrow> unat v < RADIX \<Longrightarrow> digits_ok (vec_sub_small_on u v) \<and> length (vec_sub_small_on u v) = length u \<and>
    (u \<noteq> [] \<longrightarrow> int (dval (vec_sub_small_on u v)) = (int (dval u) - int (unat v)) mod int RADIX ^ length u)"
proof -
  have "digits_ok (vec_sub_small_on u v) \<and> length (vec_sub_small_on u v) = length u \<and>
      (u \<noteq> [] \<longrightarrow> (\<exists>b. dval (vec_sub_small_on u v) + unat v = dval u + RADIX ^ length u * b))"
    if "digits_ok u" "unat v < RADIX" for u v using that
  proof (induction u v rule: vec_sub_small_on.induct)
    case (1 v)
    then show ?case by simp
  next
    case (2 u us v)
    let ?d = "u + DIGIT_RADIX - v"
    have o: "unat u < RADIX" "unat v < RADIX" "unat (0 :: sc_digit) \<le> 1" using 2(2,3) by simp_all
    note d = unat_sub_digit [OF o, simplified]
    have q: "unat (1 - drop_bit BITS_PER_DIGIT ?d) = 1 - unat ?d div RADIX" using d(1,2) by (intro unat_borrow) simp
    have "unat (1 - drop_bit BITS_PER_DIGIT ?d) < RADIX" unfolding q by (simp add: RADIX_nat)
    from 2(1) [OF refl _ this] 2(2)
    have ih: "digits_ok (vec_sub_small_on us (1 - drop_bit BITS_PER_DIGIT ?d))"
      "length (vec_sub_small_on us (1 - drop_bit BITS_PER_DIGIT ?d)) = length us"
      "us \<noteq> [] \<longrightarrow> (\<exists>b. dval (vec_sub_small_on us (1 - drop_bit BITS_PER_DIGIT ?d)) + (1 - unat ?d div RADIX) = dval us + RADIX ^ length us * b)"
      unfolding q by auto
    have "\<exists>b. dval (vec_sub_small_on us (1 - drop_bit BITS_PER_DIGIT ?d)) + 0 + (1 - (unat u + RADIX - unat v) div RADIX) =
        dval us + RADIX ^ length us * b"
    proof (cases us)
      case (Cons x xs)
      then show ?thesis using ih(3) unfolding d(1) by simp
    qed (use d(2) in auto)
    then obtain b where b: "dval (vec_sub_small_on us (1 - drop_bit BITS_PER_DIGIT ?d)) + 0 + (1 - (unat u + RADIX - unat v) div RADIX) =
        dval us + RADIX ^ length us * b" by blast
    have "(unat u + RADIX - unat v) mod RADIX + RADIX * dval (vec_sub_small_on us (1 - drop_bit BITS_PER_DIGIT ?d)) + (unat v + RADIX * 0) =
        unat u + RADIX * dval us + RADIX * (RADIX ^ length us * b)"
      by (rule digit_step_sub [OF b]) (use d in simp_all)
    then have "dval (vec_sub_small_on (u # us) v) + unat v = dval (u # us) + RADIX ^ length (u # us) * b"
      by (simp add: Let_def d(1))
    then show ?case using ih(1,2) by (auto simp: Let_def)
  qed
  moreover assume "digits_ok u" "unat v < RADIX"
  ultimately have ok: "digits_ok (vec_sub_small_on u v)" "length (vec_sub_small_on u v) = length u"
    and val: "u \<noteq> [] \<longrightarrow> (\<exists>b. dval (vec_sub_small_on u v) + unat v = dval u + RADIX ^ length u * b)" by blast+
  have "int (dval (vec_sub_small_on u v)) = (int (dval u) - int (unat v)) mod int RADIX ^ length u" if ne: "u \<noteq> []"
  proof -
    obtain b where "dval (vec_sub_small_on u v) + unat v = dval u + RADIX ^ length u * b" using val ne by blast
    from sub_mod [OF this] dval_less [OF ok(1)] ok(2) show ?thesis by simp
  qed
  with ok show ?thesis by blast
qed

section \<open>Complement\<close>

lemma unat_not_digit:
  assumes "unat u < RADIX"
  shows "unat (NOT u AND DIGIT_MASK) = RADIX - 1 - unat u"
proof -
  have m: "unat (-1 :: sc_digit) = 2 ^ 32 - 1" by (simp add: unsigned_minus_1_eq_mask mask_eq_exp_minus_1)
  have "NOT u = -1 - u" by (simp add: not_eq_complement algebra_simps)
  then have "unat (NOT u) = unat (-1 - u)" by (rule arg_cong)
  also have "\<dots> = 2 ^ 32 - 1 - unat u" using assms by (subst unat_minus) (simp_all only: m, simp_all add: RADIX_nat)
  also have "\<dots> = (RADIX - 1 - unat u) + RADIX * 3" using assms by (simp add: RADIX_nat)
  finally have "unat (NOT u) mod RADIX = (RADIX - 1 - unat u) mod RADIX" by (simp only: mod_mult_self2)
  then show ?thesis unfolding unat_digit_mask using RADIX_pos by simp
qed

lemma complement_loop_value:
  "digits_ok u \<Longrightarrow> unat c \<le> 1 \<Longrightarrow> digits_ok (complement_loop c u) \<and> length (complement_loop c u) = length u \<and>
    (\<exists>c'. dval (complement_loop c u) + dval u + 1 + RADIX ^ length u * c' = RADIX ^ length u + unat c)"
proof (induction c u rule: complement_loop.induct)
  case (2 c u us)
  let ?s = "c + (NOT u AND DIGIT_MASK)"
  have u: "unat u < RADIX" using 2(2) by simp
  have s: "unat ?s = unat c + (RADIX - 1 - unat u)"
    using u 2(3) by (subst unat_plus) (simp_all only: unat_not_digit, simp_all add: RADIX_nat)
  have q: "unat ?s div RADIX \<le> 1" unfolding s using 2(3) by (intro carry_le_1) (simp add: RADIX_nat)
  from 2(1) [OF refl] 2(2) q
  obtain c' where ih: "digits_ok (complement_loop (drop_bit BITS_PER_DIGIT ?s) us)"
    "length (complement_loop (drop_bit BITS_PER_DIGIT ?s) us) = length us"
    "dval (complement_loop (drop_bit BITS_PER_DIGIT ?s) us) + dval us + 1 + RADIX ^ length us * c' = RADIX ^ length us + unat ?s div RADIX" by auto
  have "unat ?s mod RADIX + RADIX * (dval (complement_loop (drop_bit BITS_PER_DIGIT ?s) us) + dval us + 1) + RADIX * (RADIX ^ length us * c') =
      RADIX * RADIX ^ length us + unat ?s" by (rule digit_step [OF ih(3)])
  then have "dval (complement_loop c (u # us)) + dval (u # us) + 1 + RADIX ^ length (u # us) * c' = RADIX ^ length (u # us) + unat c"
    using s u by (simp add: Let_def distrib_left)
  then show ?case using ih(1,2) by (auto simp: Let_def)
qed auto

lemma vec_complement_value:
  assumes "digits_ok u"
  shows "int (dval (vec_complement u)) = (- int (dval u)) mod int RADIX ^ length u" and "digits_ok (vec_complement u)"
    and "length (vec_complement u) = length u"
proof -
  obtain c where c: "digits_ok (vec_complement u)" "length (vec_complement u) = length u"
    "dval (vec_complement u) + dval u + 1 + RADIX ^ length u * c = RADIX ^ length u + 1"
    using complement_loop_value [OF assms, of 1] by (auto simp: vec_complement_def)
  show "digits_ok (vec_complement u)" "length (vec_complement u) = length u" by (rule c)+
  have "int (dval (vec_complement u)) + int (dval u) + int (RADIX ^ length u) * int c = int (RADIX ^ length u)"
    using arg_cong [OF c(3), of int] by simp
  then have "- int (dval u) = int (dval (vec_complement u)) + int (RADIX ^ length u) * (int c - 1)" by (simp add: algebra_simps)
  then have "(- int (dval u)) mod int (RADIX ^ length u) = int (dval (vec_complement u)) mod int (RADIX ^ length u)" by simp
  then show "int (dval (vec_complement u)) = (- int (dval u)) mod int RADIX ^ length u"
    using dval_less [OF c(1)] c(2) by simp
qed

section \<open>Comparison\<close>

lemma dval_take_Suc: "n < length u \<Longrightarrow> dval (take (Suc n) u) = dval (take n u) + RADIX ^ n * unat (u ! n)"
  by (simp add: take_Suc_snoc dval_append)

lemma find_nonzero_skips:
  "n \<le> length u \<Longrightarrow> nat (1 + find_nonzero n u) \<le> n \<and> dval (take (nat (1 + find_nonzero n u)) u) = dval (take n u) \<and>
    (0 < nat (1 + find_nonzero n u) \<longrightarrow> u ! (nat (1 + find_nonzero n u) - 1) \<noteq> 0)"
  by (induction n) (auto simp: dval_take_Suc nat_add_distrib)

lemma skip_leading_zeros:
  "vec_skip_leading_zeros u \<le> length u" "dval (take (vec_skip_leading_zeros u) u) = dval u"
  "0 < vec_skip_leading_zeros u \<Longrightarrow> u ! (vec_skip_leading_zeros u - 1) \<noteq> 0"
  using find_nonzero_skips [of "length u" u] by (simp_all add: vec_skip_leading_zeros_def vec_find_first_nonzero_def)

lemma sint_diff:
  assumes "unat a < RADIX" and "unat b < RADIX"
  shows "sint (a - b :: sc_digit) = int (unat a) - int (unat b)"
proof -
  define x where "x = int (unat a) - int (unat b)"
  have "a - b = word_of_int x" by (simp add: x_def)
  then have "sint (a - b) = signed_take_bit 31 x" by (simp only: sint_sbintrunc') simp
  moreover have "- 2147483648 \<le> x" "x < 2147483648" using assms unfolding x_def RADIX_nat by linarith+
  then have "signed_take_bit 31 x = x" by (intro signed_take_bit_int_eq_self) simp_all
  ultimately show ?thesis by (simp only: x_def)
qed

lemma digit_at: "digits_ok u \<Longrightarrow> n < length u \<Longrightarrow> unat (u ! n) < RADIX"
  by (simp add: digits_ok_def list_all_length)

lemma dval_take_less: "digits_ok u \<Longrightarrow> n \<le> length u \<Longrightarrow> dval (take n u) < RADIX ^ n"
  using dval_less [OF digits_ok_parts(1), of u n] by simp

lemma cmp_from_sign:
  assumes "digits_ok u" and "digits_ok v"
  shows "n \<le> length u \<Longrightarrow> n \<le> length v \<Longrightarrow> sgn (cmp_from n u v) = sgn (int (dval (take n u)) - int (dval (take n v)))"
proof (induction n)
  case (Suc n)
  note s = dval_take_Suc [of n u] dval_take_Suc [of n v]
  show ?case
  proof (cases "u ! n = v ! n")
    case True
    then show ?thesis using Suc s by simp
  next
    case False
    let ?a = "unat (u ! n)" and ?b = "unat (v ! n)"
    have ab: "?a < RADIX" "?b < RADIX" using Suc.prems digit_at assms by auto
    have d: "sint (u ! n - v ! n) = int ?a - int ?b" by (rule sint_diff [OF ab])
    have l: "dval (take n u) < RADIX ^ n" "dval (take n v) < RADIX ^ n" using dval_take_less assms Suc.prems by auto
    have "?a \<noteq> ?b" using False word_unat_eq_iff by blast
    then consider "?a < ?b" | "?b < ?a" by linarith
    then show ?thesis
    proof cases
      case 1
      then have "RADIX ^ n * (?a + 1) \<le> RADIX ^ n * ?b" by (intro mult_left_mono) simp_all
      then have "dval (take (Suc n) u) < dval (take (Suc n) v)" using s l Suc.prems by simp
      moreover have "sgn (sint (u ! n - v ! n)) = -1" unfolding d using 1 by (intro sgn_neg) linarith
      ultimately show ?thesis using False by simp
    next
      case 2
      then have "RADIX ^ n * (?b + 1) \<le> RADIX ^ n * ?a" by (intro mult_left_mono) simp_all
      then have "dval (take (Suc n) v) < dval (take (Suc n) u)" using s l Suc.prems by simp
      moreover have "sgn (sint (u ! n - v ! n)) = 1" unfolding d using 2 by (intro sgn_pos) linarith
      ultimately show ?thesis using False by simp
    qed
  qed
qed simp

lemma longer_is_larger:
  assumes "digits_ok v" and "n < m" and "m \<le> length u" and "n \<le> length v" and "u ! (m - 1) \<noteq> 0"
  shows "dval (take n v) < dval (take m u)"
proof -
  have "1 \<le> unat (u ! (m - 1))" using assms(5) unat_0_iff [of "u ! (m - 1)"] by linarith
  then have "RADIX ^ (m - 1) \<le> RADIX ^ (m - 1) * unat (u ! (m - 1))" by simp
  also have "\<dots> \<le> dval (take m u)" using assms(2,3) dval_take_Suc [of "m - 1" u] by simp
  finally have "RADIX ^ (m - 1) \<le> dval (take m u)" .
  moreover have "dval (take n v) < RADIX ^ n" by (rule dval_take_less [OF assms(1,4)])
  moreover have "RADIX ^ n \<le> RADIX ^ (m - 1)" using assms(2) by (intro power_increasing) (simp_all add: RADIX_nat)
  ultimately show ?thesis by simp
qed

lemma vec_skip_and_cmp_sign:
  assumes "digits_ok u" and "digits_ok v"
  shows "sgn (vec_skip_and_cmp u v) = sgn (int (dval u) - int (dval v))"
proof -
  let ?m = "vec_skip_leading_zeros u" and ?n = "vec_skip_leading_zeros v"
  note s = skip_leading_zeros [of u] skip_leading_zeros [of v]
  consider "?m = ?n" | "?m < ?n" | "?n < ?m" by linarith
  then show ?thesis
  proof cases
    case 1
    then show ?thesis using cmp_from_sign [OF assms, of ?m] s by (simp add: vec_skip_and_cmp_def vec_cmp_def)
  next
    case 2
    then have "dval u < dval v" using longer_is_larger [OF assms(1) 2, of v] s by simp
    with 2 show ?thesis by (simp add: vec_skip_and_cmp_def vec_cmp_def)
  next
    case 3
    then have "dval v < dval u" using longer_is_larger [OF assms(2) 3, of u] s by simp
    with 3 show ?thesis by (simp add: vec_skip_and_cmp_def vec_cmp_def)
  qed
qed

end
