(* ===== verification/Nb_Mul.thy ===== *)
theory Nb_Mul
  imports Nb_Digits
begin

text \<open>
  \<open>sc_nbutils\<close>: multiplication of vectors, and multiplication and division by a number below half a digit.  A digit is
  split into two halves of 15 bits, so that every intermediate sum fits into the 32 bits of a digit.
\<close>

section \<open>Multiplication\<close>

text \<open>One row of the multiplication: a digit, in halves, times the vector \<open>v\<close>, added to \<open>w\<close>; the carry goes into the
  place behind.\<close>

fun mul_row :: "sc_digit \<Rightarrow> sc_digit \<Rightarrow> sc_digit \<Rightarrow> sc_digit list \<Rightarrow> sc_digit list \<Rightarrow> sc_digit list" where
  "mul_row u_h u_l carry (v # vs) (w # ws) =
     (let v_l = low_half v; v_h = high_half v;
          prod_l = w + u_l * v_l + low_half carry;
          prod_h = u_h * v_l + u_l * v_h + high_half prod_l + high_half carry
      in concat_halves (low_half prod_h) (low_half prod_l) # mul_row u_h u_l (u_h * v_h + high_half prod_h) vs ws)"
| "mul_row u_h u_l carry [] (w # ws) = carry # ws"
| "mul_row u_h u_l carry vs [] = []"

fun vec_mul :: "sc_digit list \<Rightarrow> sc_digit list \<Rightarrow> sc_digit list \<Rightarrow> sc_digit list" where
  "vec_mul [] v w = w"
| "vec_mul (u # us) v w = (case mul_row (high_half u) (low_half u) 0 v w of [] \<Rightarrow> [] | x # xs \<Rightarrow> x # vec_mul us v xs)"

fun mul_small_loop :: "sc_digit \<Rightarrow> sc_digit \<Rightarrow> sc_digit list \<Rightarrow> sc_digit list \<times> sc_digit" where
  "mul_small_loop v carry [] = ([], carry)"
| "mul_small_loop v carry (u # us) =
     (let prod_l = v * low_half u + low_half carry;
          prod_h = v * high_half u + high_half prod_l + high_half carry;
          (ws, c) = mul_small_loop v (high_half prod_h) us
      in (concat_halves (low_half prod_h) (low_half prod_l) # ws, c))"

definition vec_mul_small :: "sc_digit list \<Rightarrow> sc_digit \<Rightarrow> sc_digit list \<Rightarrow> sc_digit list" where
  "vec_mul_small u v w = (let (ds, c) = mul_small_loop v 0 u in ds @ [c] @ drop (length u + 1) w)"

definition vec_mul_small_on :: "sc_digit list \<Rightarrow> sc_digit \<Rightarrow> sc_digit list" where
  "vec_mul_small_on u v = fst (mul_small_loop v 0 u)"

section \<open>Division by half a digit\<close>

text \<open>From the most significant digit, which comes first here; the quotients and the remainder.\<close>

fun div_small_loop :: "sc_digit \<Rightarrow> sc_digit \<Rightarrow> sc_digit list \<Rightarrow> sc_digit list \<times> sc_digit" where
  "div_small_loop v r [] = ([], r)"
| "div_small_loop v r (u # us) =
     (let num = concat_halves r (high_half u); q_h = num div v;
          num = concat_halves (num mod v) (low_half u);
          (qs, r) = div_small_loop v (num mod v) us
      in (concat_halves q_h (num div v) # qs, r))"

definition vec_div_small :: "sc_digit list \<Rightarrow> sc_digit \<Rightarrow> sc_digit list \<Rightarrow> sc_digit list" where
  "vec_div_small u v q = rev (fst (div_small_loop v 0 (rev u))) @ drop (length u) q"

fun rem_small_loop :: "sc_digit \<Rightarrow> sc_digit \<Rightarrow> sc_digit list \<Rightarrow> sc_digit" where
  "rem_small_loop v r [] = r"
| "rem_small_loop v r (u # us) = rem_small_loop v (concat_halves (concat_halves r (high_half u) mod v) (low_half u) mod v) us"

definition vec_rem_small :: "sc_digit list \<Rightarrow> sc_digit \<Rightarrow> sc_digit" where
  "vec_rem_small u v = rem_small_loop v 0 (rev u)"

definition vec_rem_on_small :: "sc_digit list \<Rightarrow> sc_digit \<Rightarrow> sc_digit list \<times> sc_digit" where
  "vec_rem_on_small u v = (let (qs, r) = div_small_loop v 0 (rev u) in (rev qs, r))"

section \<open>Halves\<close>

definition HALF :: nat where
  "HALF = 2 ^ 15"

lemma HALF_nat: "HALF = 32768" "RADIX = HALF * HALF" "0 < HALF"
  by (simp_all add: HALF_def RADIX_def)

lemma unat_halves [simp]: "unat (low_half d) = unat d mod HALF" "unat (high_half d) = unat d div HALF"
proof -
  have "HALF_DIGIT_MASK = mask 15" by (simp add: HALF_DIGIT_MASK_def mask_eq_exp_minus_1)
  then have "low_half d = take_bit 15 d" by (simp only: low_half_def take_bit_eq_mask)
  then show "unat (low_half d) = unat d mod HALF" by (simp only: unat_take HALF_def)
  show "unat (high_half d) = unat d div HALF" by (simp only: high_half_def unat_drop HALF_def)
qed

lemma nat_or_disjoint: "b < 2 ^ n \<Longrightarrow> a * 2 ^ n OR b = a * 2 ^ n + (b :: nat)"
proof -
  assume "b < 2 ^ n"
  moreover have "push_bit n a OR take_bit n b = push_bit n a + take_bit n b"
    by (rule disjunctive_add [symmetric]) (auto simp: bit_simps)
  ultimately show ?thesis by (simp add: push_bit_eq_mult take_bit_nat_eq_self)
qed

lemma unat_push:
  assumes "unat (a :: 'a :: len word) * 2 ^ n < 2 ^ LENGTH('a)"
  shows "unat (push_bit n a) = unat a * 2 ^ n"
proof -
  have "unat (push_bit n a) = take_bit LENGTH('a) (push_bit n (unat a))" by (simp only: unsigned_push_bit_eq)
  then show ?thesis using assms by (simp add: push_bit_eq_mult take_bit_nat_eq_self del: take_bit_push_bit)
qed

lemma unat_concat:
  assumes "unat h \<le> HALF" and "unat l < HALF"
  shows "unat (concat_halves h l) = unat h * HALF + unat l"
proof -
  have "unat h * 2 ^ 15 \<le> HALF * 2 ^ 15" using assms(1) by (intro mult_right_mono) simp_all
  then have "unat (push_bit 15 h) = unat h * 2 ^ 15" by (intro unat_push) (simp add: HALF_nat)
  then have "unat (concat_halves h l) = unat h * 2 ^ 15 OR unat l" by (simp only: concat_halves_def unsigned_or_eq)
  then show ?thesis using nat_or_disjoint [of "unat l" 15 "unat h"] assms(2) by (simp only: HALF_def)
qed

lemma unat_times: "unat (a :: 'a :: len word) * unat b < 2 ^ LENGTH('a) \<Longrightarrow> unat (a * b) = unat a * unat b"
  by (simp add: unat_mult_lem)

lemma half_less: "d < RADIX \<Longrightarrow> d div HALF < HALF" "d mod HALF < HALF"
  by (simp_all add: HALF_nat(2,3) less_mult_imp_div_less)

text \<open>One digit of a row, over the natural numbers, and that nothing overflows.\<close>

lemma mul_digit_nat:
  fixes w u v c :: nat
  assumes "pl = w + (u mod h) * (v mod h) + c mod h"
    and "ph = (u div h) * (v mod h) + (u mod h) * (v div h) + pl div h + c div h"
  shows "(ph mod h) * h + pl mod h + h * h * ((u div h) * (v div h) + ph div h) = w + u * v + c"
proof -
  let ?a = "u div h" and ?b = "u mod h" and ?x = "v div h" and ?y = "v mod h"
  have "(ph mod h) * h + pl mod h + h * h * (?a * ?x + ph div h) = pl mod h + h * (ph mod h + h * (ph div h)) + h * h * (?a * ?x)"
    by (simp only: distrib_left ac_simps)
  also have "\<dots> = pl mod h + h * ph + h * h * (?a * ?x)" by (simp only: mod_mult_div_eq)
  also have "\<dots> = (pl mod h + h * (pl div h)) + h * (c div h) + h * (?a * ?y + ?b * ?x) + h * h * (?a * ?x)"
    unfolding assms(2) by (simp only: distrib_left ac_simps)
  also have "\<dots> = pl + h * (c div h) + h * (?a * ?y + ?b * ?x) + h * h * (?a * ?x)" by (simp only: mod_mult_div_eq)
  also have "\<dots> = w + (c mod h + h * (c div h)) + (?b + h * ?a) * (?y + h * ?x)"
    unfolding assms(1) by (simp only: distrib_left distrib_right ac_simps)
  also have "\<dots> = w + c + u * v" by (simp only: mod_mult_div_eq)
  finally show ?thesis by simp
qed

lemma half_products:
  assumes "(a :: nat) < HALF" and "b < HALF"
  shows "a * b \<le> 1073676289"
proof -
  have "a * b \<le> 32767 * 32767" using assms by (intro mult_mono) (simp_all add: HALF_nat)
  then show ?thesis by simp
qed

lemma mul_digit:
  assumes "unat u < RADIX" and "unat v < RADIX" and "unat w < RADIX" and "unat c < RADIX"
    and "prod_l = w + low_half u * low_half v + low_half c"
    and "prod_h = high_half u * low_half v + low_half u * high_half v + high_half prod_l + high_half c"
    and "c' = high_half u * high_half v + high_half prod_h"
    and "d = concat_halves (low_half prod_h) (low_half prod_l)"
  shows "unat d < RADIX" and "unat d + RADIX * unat c' = unat w + unat u * unat v + unat c" and "unat c' < RADIX"
proof -
  let ?uh = "unat u div HALF" and ?ul = "unat u mod HALF" and ?vh = "unat v div HALF" and ?vl = "unat v mod HALF"
  have h: "?uh < HALF" "?ul < HALF" "?vh < HALF" "?vl < HALF" "unat c div HALF < HALF" "unat c mod HALF < HALF"
    using half_less assms(1,2,4) by blast+
  note p = half_products [OF h(2,4)] half_products [OF h(1,4)] half_products [OF h(2,3)] half_products [OF h(1,3)]
  have m: "unat (low_half u * low_half v) = ?ul * ?vl" "unat (high_half u * low_half v) = ?uh * ?vl"
    "unat (low_half u * high_half v) = ?ul * ?vh" "unat (high_half u * high_half v) = ?uh * ?vh"
    by (subst unat_times; use p in simp)+
  have w: "unat w < 1073741824" using assms(3) by (simp add: RADIX_nat)
  have "unat (w + low_half u * low_half v) = unat w + ?ul * ?vl" using w p(1) by (subst unat_plus) (simp_all add: m)
  then have pl: "unat prod_l = unat w + ?ul * ?vl + unat c mod HALF"
    using w p(1) h(6) unfolding assms(5) by (subst unat_plus) (simp_all add: HALF_nat)
  then have plb: "unat prod_l < 2147483648" using w p(1) h(6) by (simp add: HALF_nat)
  then have hpl: "unat prod_l div HALF < 65536" by (simp add: HALF_nat less_mult_imp_div_less)
  have "unat (high_half u * low_half v + low_half u * high_half v) = ?uh * ?vl + ?ul * ?vh" using p by (subst unat_plus) (simp_all add: m)
  then have "unat (high_half u * low_half v + low_half u * high_half v + high_half prod_l) = ?uh * ?vl + ?ul * ?vh + unat prod_l div HALF"
    using p hpl by (subst unat_plus) simp_all
  then have ph: "unat prod_h = ?uh * ?vl + ?ul * ?vh + unat prod_l div HALF + unat c div HALF"
    using p hpl h(5) unfolding assms(6) by (subst unat_plus) (simp_all add: HALF_nat)
  have phb: "unat prod_h < 4294967296" using ph p hpl h(5) by (simp add: HALF_nat)
  have "unat prod_h div HALF < 131072" using phb by (simp add: HALF_nat less_mult_imp_div_less)
  then have c': "unat c' = ?uh * ?vh + unat prod_h div HALF" using p unfolding assms(7) by (subst unat_plus) (simp_all add: m)
  have d: "unat d = (unat prod_h mod HALF) * HALF + unat prod_l mod HALF"
    unfolding assms(8) using half_less(2) [of "unat prod_h"] half_less(2) [of "unat prod_l"] by (subst unat_concat) simp_all
  show sum: "unat d + RADIX * unat c' = unat w + unat u * unat v + unat c"
    unfolding d c' HALF_nat(2) by (rule mul_digit_nat [OF pl ph])
  have "unat prod_h mod HALF * HALF + unat prod_l mod HALF < (unat prod_h mod HALF + 1) * HALF" using half_less(2) [of "unat prod_l"] by simp
  also have "\<dots> \<le> HALF * HALF" using half_less(2) [of "unat prod_h"] by (intro mult_right_mono) simp_all
  finally show "unat d < RADIX" unfolding d HALF_nat(2) .
  have "unat u * unat v \<le> (RADIX - 1) * (RADIX - 1)" using assms(1,2) by (intro mult_mono) simp_all
  then have "RADIX * unat c' < RADIX * RADIX" using sum assms(3,4) by (simp add: RADIX_nat)
  then show "unat c' < RADIX" by simp
qed

section \<open>The products\<close>

lemma mul_row_value:
  "unat u < RADIX \<Longrightarrow> digits_ok v \<Longrightarrow> digits_ok (take (length v) w) \<Longrightarrow> length v < length w \<Longrightarrow> unat c < RADIX \<Longrightarrow>
    r = mul_row (high_half u) (low_half u) c v w \<Longrightarrow>
    digits_ok (take (length v + 1) r) \<and> length r = length w \<and> drop (length v + 1) r = drop (length v + 1) w \<and>
    dval (take (length v + 1) r) = dval (take (length v) w) + unat u * dval v + unat c"
proof (induction v arbitrary: w c r)
  case Nil
  then obtain x xs where "w = x # xs" by (cases w) auto
  with Nil show ?case by simp
next
  case (Cons x xs)
  then obtain y ys where w: "w = y # ys" by (cases w) auto
  define prod_l where "prod_l = y + low_half u * low_half x + low_half c"
  define prod_h where "prod_h = high_half u * low_half x + low_half u * high_half x + high_half prod_l + high_half c"
  define c' where "c' = high_half u * high_half x + high_half prod_h"
  define d where "d = concat_halves (low_half prod_h) (low_half prod_l)"
  have o: "unat u < RADIX" "unat x < RADIX" "unat y < RADIX" "unat c < RADIX" using Cons.prems w by simp_all
  note step = mul_digit [OF o prod_l_def prod_h_def c'_def d_def]
  let ?r = "mul_row (high_half u) (low_half u) c' xs ys"
  have r: "r = d # ?r" using Cons.prems(6) w by (simp add: Let_def prod_l_def prod_h_def c'_def d_def)
  have ih: "digits_ok (take (length xs + 1) ?r)" "length ?r = length ys" "drop (length xs + 1) ?r = drop (length xs + 1) ys"
    "dval (take (length xs + 1) ?r) = dval (take (length xs) ys) + unat u * dval xs + unat c'"
    using Cons.IH [OF o(1) _ _ _ step(3) refl, of ys] Cons.prems w by simp_all
  have "dval (take (length (x # xs) + 1) r) = unat d + RADIX * unat c' + RADIX * dval (take (length xs) ys) + RADIX * (unat u * dval xs)"
    unfolding r using ih(4) by (simp add: distrib_left)
  also have "\<dots> = dval (take (length (x # xs)) w) + unat u * dval (x # xs) + unat c"
    unfolding step(2) w by (simp add: distrib_left)
  finally show ?case using ih r w step(1) by simp
qed

lemma vec_mul_value:
  "digits_ok u \<Longrightarrow> digits_ok v \<Longrightarrow> digits_ok (take (length v) w) \<Longrightarrow> length u + length v \<le> length w \<Longrightarrow>
    digits_ok (take (length u + length v) (vec_mul u v w)) \<and> length (vec_mul u v w) = length w \<and>
    drop (length u + length v) (vec_mul u v w) = drop (length u + length v) w \<and>
    dval (take (length u + length v) (vec_mul u v w)) = dval (take (length v) w) + dval u * dval v"
proof (induction u arbitrary: w)
  case (Cons x us)
  let ?r = "mul_row (high_half x) (low_half x) 0 v w"
  have "length v < length w" using Cons.prems(4) by simp
  note row = mul_row_value [OF _ Cons.prems(2,3) this _ refl, of x 0]
  have row: "digits_ok (take (length v + 1) ?r)" "length ?r = length w" "drop (length v + 1) ?r = drop (length v + 1) w"
    "dval (take (length v + 1) ?r) = dval (take (length v) w) + unat x * dval v"
    using row Cons.prems(1) by simp_all
  then obtain y ys where r: "?r = y # ys" using Cons.prems(4) by (cases ?r) auto
  have ys: "digits_ok (take (length v) ys)" "unat y < RADIX" "length ys + 1 = length w" "drop (length v) ys = drop (length v + 1) w"
    "unat y + RADIX * dval (take (length v) ys) = dval (take (length v) w) + unat x * dval v"
    using row unfolding r by simp_all
  have ih: "digits_ok (take (length us + length v) (vec_mul us v ys))" "length (vec_mul us v ys) = length ys"
    "drop (length us + length v) (vec_mul us v ys) = drop (length us + length v) ys"
    "dval (take (length us + length v) (vec_mul us v ys)) = dval (take (length v) ys) + dval us * dval v"
    using Cons.IH [of ys] Cons.prems ys by simp_all
  have m: "vec_mul (x # us) v w = y # vec_mul us v ys" using r by simp
  have "drop (length us + length v) ys = drop (length us + length v + 1) w"
    using arg_cong [OF ys(4), of "drop (length us)"] by (simp add: add.commute)
  moreover have "dval (take (length (x # us) + length v) (vec_mul (x # us) v w)) =
      unat y + RADIX * dval (take (length v) ys) + RADIX * (dval us * dval v)" unfolding m by (simp add: ih(4) distrib_left)
  moreover have "\<dots> = dval (take (length v) w) + dval (x # us) * dval v" unfolding ys(5) by (simp add: distrib_right mult.assoc)
  ultimately show ?case using ih ys(2,3) m by simp
qed simp

text \<open>A multiplication by less than half a digit is a row of the other, with the high half zero.\<close>

lemma mul_small_loop_row:
  assumes "unat v < HALF"
  shows "mul_small_loop v c us = (ds, c') \<Longrightarrow> mul_row 0 v c us (replicate (length us) 0 @ x # xs) = ds @ c' # xs"
  using assms
proof (induction us arbitrary: c ds c')
  case (Cons u us)
  obtain es e where r: "mul_small_loop v (high_half (v * high_half u + high_half (v * low_half u + low_half c) + high_half c)) us = (es, e)"
    by fastforce
  with Cons show ?case by (simp add: Let_def)
qed simp

lemma unat_half_id: "unat v < HALF \<Longrightarrow> low_half v = v" "unat v < HALF \<Longrightarrow> high_half v = 0"
  by (simp_all add: word_unat_eq_iff)

lemma mul_small_value:
  assumes "digits_ok u" and "unat v < HALF" and "mul_small_loop v 0 u = (ds, c)"
  shows "digits_ok (ds @ [c])" "length ds = length u" "dval (ds @ [c]) = dval u * unat v"
proof -
  have v: "unat v < RADIX" using assms(2) by (simp add: HALF_nat)
  have row: "mul_row (high_half v) (low_half v) 0 u (replicate (length u) 0 @ [0]) = ds @ [c]"
    using mul_small_loop_row [OF assms(2,3), of 0 "[]"] unat_half_id [OF assms(2)] by simp
  have z: "dval (replicate n 0) = 0" "digits_ok (replicate n 0)" for n by (induction n) simp_all
  note val = mul_row_value [OF v assms(1) _ _ _ row [symmetric], simplified]
  have len: "length ds = length u" using val z by simp
  then show "length ds = length u" .
  show "digits_ok (ds @ [c])" "dval (ds @ [c]) = dval u * unat v" using val z len by (simp_all add: mult.commute)
qed

lemma vec_mul_small_value:
  assumes "digits_ok u" and "unat v < HALF" and "length u < length w"
  shows "dval (take (length u + 1) (vec_mul_small u v w)) = dval u * unat v" and "digits_ok (take (length u + 1) (vec_mul_small u v w))"
    and "length (vec_mul_small u v w) = length w" and "drop (length u + 1) (vec_mul_small u v w) = drop (length u + 1) w"
    and "dval (vec_mul_small_on u v) = dval u * unat v mod RADIX ^ length u" and "digits_ok (vec_mul_small_on u v)"
proof -
  obtain ds c where l: "mul_small_loop v 0 u = (ds, c)" by fastforce
  note val = mul_small_value [OF assms(1,2) l]
  have r: "vec_mul_small u v w = (ds @ [c]) @ drop (length u + 1) w" "vec_mul_small_on u v = ds"
    using l by (simp_all add: vec_mul_small_def vec_mul_small_on_def)
  show "dval (take (length u + 1) (vec_mul_small u v w)) = dval u * unat v" "digits_ok (take (length u + 1) (vec_mul_small u v w))"
    "length (vec_mul_small u v w) = length w" "drop (length u + 1) (vec_mul_small u v w) = drop (length u + 1) w"
    unfolding r using val assms(3) by (simp_all del: append_assoc)
  show "digits_ok (vec_mul_small_on u v)" unfolding r using val(1) by simp
  then show "dval (vec_mul_small_on u v) = dval u * unat v mod RADIX ^ length u"
    unfolding r using val(2,3) dval_mod [of ds "unat c"] by (simp add: dval_append)
qed

section \<open>The quotient and the remainder by half a digit\<close>

lemma div_digit_nat:
  fixes r v a :: nat
  assumes "n1 = r * h + a div h" and "n2 = (n1 mod v) * h + a mod h"
  shows "((n1 div v) * h + n2 div v) * v + n2 mod v = r * (h * h) + a"
proof -
  have "((n1 div v) * h + n2 div v) * v + n2 mod v = (n1 div v * v) * h + (n2 div v * v + n2 mod v)" by (simp only: distrib_right distrib_left ac_simps)
  also have "\<dots> = (n1 div v * v) * h + n2" by (simp only: div_mult_mod_eq)
  also have "\<dots> = (n1 div v * v + n1 mod v) * h + a mod h" unfolding assms(2) by (simp only: distrib_right distrib_left ac_simps)
  also have "\<dots> = (r * h + a div h) * h + a mod h" by (simp only: div_mult_mod_eq assms(1))
  also have "\<dots> = r * (h * h) + (a div h * h + a mod h)" by (simp only: distrib_right distrib_left ac_simps)
  finally show ?thesis by (simp only: div_mult_mod_eq)
qed

lemma div_digit:
  assumes "unat v < HALF" and "0 < unat v" and "unat r < unat v" and "unat a < RADIX"
    and "n1 = concat_halves r (high_half a)" and "n2 = concat_halves (n1 mod v) (low_half a)"
    and "q = concat_halves (n1 div v) (n2 div v)"
  shows "unat q < RADIX" and "unat (n2 mod v) < unat v" and "unat q * unat v + unat (n2 mod v) = unat r * RADIX + unat a"
proof -
  have n1: "unat n1 = unat r * HALF + unat a div HALF"
    unfolding assms(5) using assms(1,3) half_less(1) [OF assms(4)] by (subst unat_concat) simp_all
  have "unat n1 < (unat r + 1) * HALF" using n1 half_less(1) [OF assms(4)] by simp
  also have "\<dots> \<le> unat v * HALF" using assms(3) by (intro mult_right_mono) simp_all
  finally have q1: "unat n1 div unat v < HALF" by (simp add: less_mult_imp_div_less mult.commute)
  have m1: "unat n1 mod unat v < unat v" using assms(2) by simp
  have n2: "unat n2 = (unat n1 mod unat v) * HALF + unat a mod HALF"
    unfolding assms(6) using m1 assms(1) half_less(2) [of "unat a"] by (subst unat_concat) (simp_all add: unat_mod_distrib)
  have "unat n2 < (unat n1 mod unat v + 1) * HALF" using n2 half_less(2) [of "unat a"] by simp
  also have "\<dots> \<le> unat v * HALF" using m1 by (intro mult_right_mono) simp_all
  finally have q2: "unat n2 div unat v < HALF" by (simp add: less_mult_imp_div_less mult.commute)
  have q: "unat q = (unat n1 div unat v) * HALF + unat n2 div unat v"
    unfolding assms(7) using q1 q2 by (subst unat_concat) (simp_all add: unat_div_distrib)
  have "unat q < (unat n1 div unat v + 1) * HALF" using q q2 by simp
  also have "\<dots> \<le> HALF * HALF" using q1 by (intro mult_right_mono) simp_all
  finally show "unat q < RADIX" by (simp add: HALF_nat(2))
  show "unat (n2 mod v) < unat v" using assms(2) by (simp add: unat_mod_distrib)
  show "unat q * unat v + unat (n2 mod v) = unat r * RADIX + unat a"
    unfolding q unat_mod_distrib HALF_nat(2) by (rule div_digit_nat [OF n1 n2])
qed

lemma div_small_loop_value:
  "unat v < HALF \<Longrightarrow> 0 < unat v \<Longrightarrow> unat r < unat v \<Longrightarrow> digits_ok (rev us) \<Longrightarrow> div_small_loop v r us = (qs, r') \<Longrightarrow>
    digits_ok (rev qs) \<and> length qs = length us \<and> unat r' < unat v \<and> rem_small_loop v r us = r' \<and>
    dval (rev qs) * unat v + unat r' = unat r * RADIX ^ length us + dval (rev us)"
proof (induction us arbitrary: r qs r')
  case (Cons u us)
  define n1 where "n1 = concat_halves r (high_half u)"
  define n2 where "n2 = concat_halves (n1 mod v) (low_half u)"
  define q where "q = concat_halves (n1 div v) (n2 div v)"
  have u: "unat u < RADIX" using Cons.prems(4) by simp
  note step = div_digit [OF Cons.prems(1-3) u n1_def n2_def q_def]
  obtain es where rec: "div_small_loop v (n2 mod v) us = (es, r')" and qs: "qs = q # es"
    using Cons.prems(5) by (auto simp: Let_def n1_def n2_def q_def split: prod.splits)
  have ih: "digits_ok (rev es)" "length es = length us" "unat r' < unat v" "rem_small_loop v (n2 mod v) us = r'"
    "dval (rev es) * unat v + unat r' = unat (n2 mod v) * RADIX ^ length us + dval (rev us)"
    using Cons.IH [OF Cons.prems(1,2) step(2) _ rec] Cons.prems(4) by simp_all
  have "dval (rev qs) * unat v + unat r' = (unat q * unat v + unat (n2 mod v)) * RADIX ^ length us + dval (rev us)"
    using ih(2,5) unfolding qs by (simp add: dval_append algebra_simps)
  also have "\<dots> = unat r * RADIX ^ length (u # us) + dval (rev (u # us))"
    unfolding step(3) by (simp add: dval_append algebra_simps)
  finally show ?case using ih step(1) qs by (simp add: n1_def n2_def)
qed simp

lemma small_division:
  assumes "digits_ok u" and "unat v < HALF" and "0 < unat v" and "length u \<le> length q"
  shows "dval (take (length u) (vec_div_small u v q)) = dval u div unat v" and "digits_ok (take (length u) (vec_div_small u v q))"
    and "length (vec_div_small u v q) = length q"
    and "unat (vec_rem_small u v) = dval u mod unat v" and "vec_rem_on_small u v = (take (length u) (vec_div_small u v q), vec_rem_small u v)"
proof -
  obtain qs r where l: "div_small_loop v 0 (rev u) = (qs, r)" by fastforce
  have val: "digits_ok (rev qs)" "length qs = length u" "unat r < unat v" "rem_small_loop v 0 (rev u) = r"
    "dval (rev qs) * unat v + unat r = dval u"
    using div_small_loop_value [OF assms(2,3) _ _ l] assms(1,3) by simp_all
  have r: "vec_div_small u v q = rev qs @ drop (length u) q" "vec_rem_small u v = r" "vec_rem_on_small u v = (rev qs, r)"
    using l val by (simp_all add: vec_div_small_def vec_rem_small_def vec_rem_on_small_def)
  have "dval u div unat v = dval (rev qs)" "dval u mod unat v = unat r" using val(3,5) by (metis div_mult_self3 mod_mult_self3 div_less mod_less add_0_right less_nat_zero_code)+
  then show "dval (take (length u) (vec_div_small u v q)) = dval u div unat v" "unat (vec_rem_small u v) = dval u mod unat v"
    unfolding r using val(2) by simp_all
  show "digits_ok (take (length u) (vec_div_small u v q))" "length (vec_div_small u v q) = length q"
    "vec_rem_on_small u v = (take (length u) (vec_div_small u v q), vec_rem_small u v)" unfolding r using val assms(4) by simp_all
qed

end
