(* ===== verification/Nb_Shift.thy ===== *)
theory Nb_Shift
  imports Nb_Mul
begin

text \<open>
  \<open>sc_nbutils\<close>: shifting vectors by any number of bits, and mirroring a range of bits.
\<close>

section \<open>Shifts\<close>

fun shift_left_bits :: "nat \<Rightarrow> sc_digit \<Rightarrow> sc_digit list \<Rightarrow> sc_digit list" where
  "shift_left_bits nsl carry [] = []"
| "shift_left_bits nsl carry (u # us) =
     (push_bit nsl (u AND one_and_ones (BITS_PER_DIGIT - nsl)) OR carry) # shift_left_bits nsl (drop_bit (BITS_PER_DIGIT - nsl) u) us"

definition whole_digits :: "int \<Rightarrow> int \<times> int" where
  "whole_digits n = (if n mod int BITS_PER_DIGIT = 0 then (n div int BITS_PER_DIGIT, 0)
     else (DIV_CEIL n - 1, n - (DIV_CEIL n - 1) * int BITS_PER_DIGIT))"

definition shift_left_digits :: "nat \<Rightarrow> sc_digit list \<Rightarrow> sc_digit list" where
  "shift_left_digits nd u =
     vec_zero 0 (min nd (length u)) (fold (\<lambda>j u. u[j := u ! (j - nd)]) (rev [nd..<length u]) u)"

definition vec_shift_left :: "sc_digit list \<Rightarrow> int \<Rightarrow> sc_digit list" where
  "vec_shift_left u nsl =
     (if nsl \<le> 0 then u
      else let (u, nsl) = (if nsl \<ge> int BITS_PER_DIGIT
             then let (nd, nsl) = whole_digits nsl in (if nd \<noteq> 0 then shift_left_digits (nat nd) u else u, nsl) else (u, nsl))
        in if nsl = 0 then u else shift_left_bits (nat nsl) 0 u)"

text \<open>From the most significant digit, which comes first here.\<close>

fun shift_right_bits :: "nat \<Rightarrow> sc_digit \<Rightarrow> sc_digit list \<Rightarrow> sc_digit list" where
  "shift_right_bits nsr carry [] = []"
| "shift_right_bits nsr carry (u # us) =
     (drop_bit nsr u OR carry) # shift_right_bits nsr (push_bit (BITS_PER_DIGIT - nsr) (u AND one_and_ones nsr)) us"

definition shift_right_digits :: "nat \<Rightarrow> sc_digit \<Rightarrow> sc_digit list \<Rightarrow> sc_digit list" where
  "shift_right_digits nd fill u =
     (let n = length u; u = fold (\<lambda>j u. u[j := u ! (j + nd)]) [0..<n - nd] u in
      if fill \<noteq> 0 then fold (\<lambda>j u. u[j := fill]) [n - min nd n..<n] u else vec_zero (n - min nd n) n u)"

definition vec_shift_right :: "sc_digit list \<Rightarrow> int \<Rightarrow> sc_digit \<Rightarrow> sc_digit list" where
  "vec_shift_right u nsr fill =
     (if nsr \<le> 0 then u
      else let (u, nsr) = (if nsr \<ge> int BITS_PER_DIGIT
             then let (nd, nsr) = whole_digits nsr in (if nd \<noteq> 0 then shift_right_digits (nat nd) fill u else u, nsr) else (u, nsr))
        in if nsr = 0 then u
           else rev (shift_right_bits (nat nsr) (push_bit (BITS_PER_DIGIT - nat nsr) (fill AND one_and_ones (nat nsr))) (rev u)))"

definition vec_reverse :: "nat \<Rightarrow> sc_digit list \<Rightarrow> int \<Rightarrow> int \<Rightarrow> sc_digit list res" where
  "vec_reverse unb ud l r =
     (if l < r then Inl (ReportError SC_ID_CONVERSION_FAILED)
      else let r = nat (max r 0); l = nat (min l (int unb - 1)); d = ud in
        Inr (fold (\<lambda>(i, j) ud.
          if d ! digit_ord i AND one_and_zeros (bit_ord i) \<noteq> 0
          then ud[digit_ord j := ud ! digit_ord j OR one_and_zeros (bit_ord j)]
          else ud[digit_ord j := ud ! digit_ord j AND NOT (one_and_zeros (bit_ord j))])
          (zip (rev [r..<l + 1]) [r..<l + 1]) ud))"

section \<open>Masks\<close>

lemma one_and_ones_mask: "one_and_ones n = mask n"
  by (simp add: one_and_ones_def mask_eq_exp_minus_1 push_bit_eq_mult)

lemma unat_and_ones [simp]: "unat (u AND one_and_ones n) = unat u mod 2 ^ n"
  unfolding one_and_ones_mask by (simp only: take_bit_eq_mask [symmetric] unat_take)

lemma RADIX_split: "n \<le> 30 \<Longrightarrow> RADIX = 2 ^ n * 2 ^ (30 - n)"
  by (simp add: RADIX_def flip: power_add)

lemma unat_or_above:
  assumes "unat (a :: 'a :: len word) * 2 ^ n < 2 ^ LENGTH('a)" and "unat c < 2 ^ n"
  shows "unat (push_bit n a OR c) = unat a * 2 ^ n + unat c"
  using unat_push [OF assms(1)] nat_or_disjoint [OF assms(2), of "unat a"] by (simp add: unsigned_or_eq)

lemma shift_left_bits_value:
  "digits_ok u \<Longrightarrow> 0 < n \<Longrightarrow> n < 30 \<Longrightarrow> unat c < 2 ^ n \<Longrightarrow>
    digits_ok (shift_left_bits n c u) \<and> length (shift_left_bits n c u) = length u \<and>
    (\<exists>c'. dval (shift_left_bits n c u) + RADIX ^ length u * c' = dval u * 2 ^ n + unat c)"
proof (induction n c u rule: shift_left_bits.induct)
  case (1 n c)
  then show ?case by simp
next
  case (2 n c u us)
  let ?a = "u AND one_and_ones (BITS_PER_DIGIT - n)" and ?c = "drop_bit (BITS_PER_DIGIT - n) u"
  have R: "RADIX = 2 ^ n * 2 ^ (30 - n)" using 2(4) by (intro RADIX_split) simp
  have a: "unat ?a = unat u mod 2 ^ (30 - n)" by (simp add: BITS_PER_DIGIT_def)
  have "(unat ?a + 1) * 2 ^ n \<le> 2 ^ (30 - n) * 2 ^ n" unfolding a by (intro mult_right_mono) (simp_all add: Suc_le_eq)
  then have al: "unat ?a * 2 ^ n + 2 ^ n \<le> RADIX" unfolding R by (simp add: ac_simps)
  have d: "unat (push_bit n ?a OR c) = unat ?a * 2 ^ n + unat c"
    by (rule unat_or_above) (use al 2(5) in \<open>simp_all add: RADIX_nat\<close>)
  have c: "unat ?c = unat u div 2 ^ (30 - n)" by (simp add: BITS_PER_DIGIT_def unat_drop)
  have "unat ?c < 2 ^ n" unfolding c using 2(2) by (intro less_mult_imp_div_less) (simp add: R [symmetric])
  from 2(1) [OF _ 2(3,4) this] 2(2)
  obtain c' where ih: "digits_ok (shift_left_bits n ?c us)" "length (shift_left_bits n ?c us) = length us"
    "dval (shift_left_bits n ?c us) + RADIX ^ length us * c' = dval us * 2 ^ n + unat ?c" by auto
  have "dval (shift_left_bits n c (u # us)) + RADIX ^ length (u # us) * c' =
      unat ?a * 2 ^ n + unat c + RADIX * (dval (shift_left_bits n ?c us) + RADIX ^ length us * c')"
    by (simp add: d distrib_left del: push_bit_and)
  also have "\<dots> = (unat ?a + 2 ^ (30 - n) * unat ?c) * 2 ^ n + unat c + RADIX * (dval us * 2 ^ n)"
    unfolding ih(3) by (simp add: R distrib_left distrib_right ac_simps del: push_bit_and)
  also have "\<dots> = dval (u # us) * 2 ^ n + unat c" unfolding a c by (simp add: distrib_right)
  finally have "\<exists>c'. dval (shift_left_bits n c (u # us)) + RADIX ^ length (u # us) * c' = dval (u # us) * 2 ^ n + unat c" by blast
  moreover have "unat (push_bit n ?a OR c) < RADIX" unfolding d using al 2(5) by simp
  ultimately show ?case using ih(1,2) by (simp del: push_bit_and)
qed

text \<open>From the most significant digit: what comes in from above is \<open>f\<close>.\<close>

lemma shift_right_bits_value:
  "digits_ok (rev u) \<Longrightarrow> 0 < n \<Longrightarrow> n < 30 \<Longrightarrow> f < 2 ^ n \<Longrightarrow> unat c = f * 2 ^ (30 - n) \<Longrightarrow>
    digits_ok (rev (shift_right_bits n c u)) \<and> length (shift_right_bits n c u) = length u \<and>
    dval (rev (shift_right_bits n c u)) = (f * RADIX ^ length u + dval (rev u)) div 2 ^ n"
proof (induction u arbitrary: c f)
  case (Cons u us)
  let ?c = "push_bit (BITS_PER_DIGIT - n) (u AND one_and_ones n)" and ?m = "unat u mod 2 ^ n"
  have R: "RADIX = 2 ^ n * 2 ^ (30 - n)" using Cons.prems(3) by (intro RADIX_split) simp
  have u: "unat u < RADIX" using Cons.prems(1) by simp
  have m: "?m < 2 ^ n" by simp
  have "?m * 2 ^ (30 - n) < 2 ^ n * 2 ^ (30 - n)" using m by (intro mult_strict_right_mono) simp_all
  then have "unat (u AND one_and_ones n) * 2 ^ (BITS_PER_DIGIT - n) < 2 ^ LENGTH(32)"
    unfolding R [symmetric] by (simp add: BITS_PER_DIGIT_def RADIX_nat)
  from unat_push [OF this] have c: "unat ?c = ?m * 2 ^ (30 - n)" by (simp add: BITS_PER_DIGIT_def del: push_bit_and)
  have top: "unat u div 2 ^ n < 2 ^ (30 - n)" using u unfolding R by (intro less_mult_imp_div_less) (simp add: mult.commute)
  have d: "unat (drop_bit n u OR c) = unat u div 2 ^ n + f * 2 ^ (30 - n)"
    unfolding unsigned_or_eq unat_drop Cons.prems(5) using nat_or_disjoint [OF top, of f] by (simp add: or.commute)
  have ih: "digits_ok (rev (shift_right_bits n ?c us))" "length (shift_right_bits n ?c us) = length us"
    "dval (rev (shift_right_bits n ?c us)) = (?m * RADIX ^ length us + dval (rev us)) div 2 ^ n"
    using Cons.IH [OF _ Cons.prems(2,3) m c] Cons.prems(1) by simp_all
  have "f * 2 ^ (30 - n) + unat u div 2 ^ n < (f + 1) * 2 ^ (30 - n)" using top by simp
  also have "\<dots> \<le> 2 ^ n * 2 ^ (30 - n)" using Cons.prems(4) by (intro mult_right_mono) simp_all
  finally have ok: "unat (drop_bit n u OR c) < RADIX" unfolding d R by simp
  have e: "f * RADIX + unat u = 2 ^ n * (f * 2 ^ (30 - n) + unat u div 2 ^ n) + ?m"
    unfolding distrib_left R by (simp add: ac_simps)
  have "f * RADIX ^ length (u # us) + dval (rev (u # us)) = (f * RADIX + unat u) * RADIX ^ length us + dval (rev us)"
    by (simp add: dval_append algebra_simps)
  also have "\<dots> = (2 ^ n * (f * 2 ^ (30 - n) + unat u div 2 ^ n) + ?m) * RADIX ^ length us + dval (rev us)"
    unfolding e ..
  also have "\<dots> = 2 ^ n * ((f * 2 ^ (30 - n) + unat u div 2 ^ n) * RADIX ^ length us) + (?m * RADIX ^ length us + dval (rev us))"
    by (simp only: distrib_right distrib_left ac_simps)
  finally have "(f * RADIX ^ length (u # us) + dval (rev (u # us))) div 2 ^ n =
      (f * 2 ^ (30 - n) + unat u div 2 ^ n) * RADIX ^ length us + (?m * RADIX ^ length us + dval (rev us)) div 2 ^ n"
    by (simp only:) simp
  also have "\<dots> = dval (rev (shift_right_bits n c (u # us)))"
    by (simp add: dval_append ih(2,3) d mult.commute add.commute del: push_bit_and)
  finally show ?case using ih(1,2) ok by (simp del: push_bit_and)
qed simp

section \<open>Whole digits\<close>

lemma fold_set:
  "length (fold (\<lambda>k v. v[k := g k]) [a..<b] v) = length v \<and>
    (\<forall>j < length v. fold (\<lambda>k v. v[k := g k]) [a..<b] v ! j = (if a \<le> j \<and> j < b then g j else v ! j))"
proof (induction b)
  case (Suc b)
  then show ?case by (cases "a \<le> b") (auto simp: nth_list_update less_Suc_eq)
qed simp

lemma fold_up:
  "n \<le> length v \<Longrightarrow> length (fold (\<lambda>j v. v[j := v ! (j - a)]) (rev [a..<n]) v) = length v \<and>
    (\<forall>j < length v. fold (\<lambda>j v. v[j := v ! (j - a)]) (rev [a..<n]) v ! j = (if a \<le> j \<and> j < n then v ! (j - a) else v ! j))"
proof (induction n arbitrary: v)
  case (Suc n)
  show ?case
  proof (cases "a \<le> n")
    case True
    let ?v = "v[n := v ! (n - a)]"
    have f: "fold (\<lambda>j v. v[j := v ! (j - a)]) (rev [a..<Suc n]) v = fold (\<lambda>j v. v[j := v ! (j - a)]) (rev [a..<n]) ?v"
      using True by simp
    have "n \<le> length ?v" using Suc.prems by simp
    note ih = Suc.IH [OF this]
    show ?thesis unfolding f
    proof (intro conjI allI impI)
      show "length (fold (\<lambda>j v. v[j := v ! (j - a)]) (rev [a..<n]) ?v) = length v" using ih by simp
      fix j assume "j < length v"
      then show "fold (\<lambda>j v. v[j := v ! (j - a)]) (rev [a..<n]) ?v ! j = (if a \<le> j \<and> j < Suc n then v ! (j - a) else v ! j)"
        using ih True by (cases "a = 0") (auto simp: nth_list_update less_Suc_eq)
    qed
  qed auto
qed auto

lemma fold_down:
  "n + a \<le> length v \<Longrightarrow> length (fold (\<lambda>j v. v[j := v ! (j + a)]) [0..<n] v) = length v \<and>
    (\<forall>j < length v. fold (\<lambda>j v. v[j := v ! (j + a)]) [0..<n] v ! j = (if j < n then v ! (j + a) else v ! j))"
proof (induction n)
  case (Suc n)
  then show ?case by (auto simp: nth_list_update less_Suc_eq)
qed simp

lemma shift_left_digits_eq: "shift_left_digits nd u = replicate (min nd (length u)) 0 @ take (length u - nd) u"
proof (rule nth_equalityI)
  let ?f = "fold (\<lambda>j u. u[j := u ! (j - nd)]) (rev [nd..<length u]) u"
  have f: "length ?f = length u" "\<And>j. j < length u \<Longrightarrow> ?f ! j = (if nd \<le> j then u ! (j - nd) else u ! j)"
    using fold_up [of "length u" u nd] by simp_all
  have z: "length (shift_left_digits nd u) = length u"
    "\<And>j. j < length u \<Longrightarrow> shift_left_digits nd u ! j = (if j < min nd (length u) then 0 else ?f ! j)"
    using fold_set [of "\<lambda>_. 0" 0 "min nd (length u)" ?f] f(1) by (simp_all add: shift_left_digits_def vec_zero_def)
  show "length (shift_left_digits nd u) = length (replicate (min nd (length u)) 0 @ take (length u - nd) u)" using z(1) by simp
  fix j assume "j < length (shift_left_digits nd u)"
  then show "shift_left_digits nd u ! j = (replicate (min nd (length u)) 0 @ take (length u - nd) u) ! j"
    using z f by (auto simp: nth_append min_def)
qed

lemma shift_right_digits_eq: "shift_right_digits nd fill u = drop nd u @ replicate (min nd (length u)) fill"
proof (rule nth_equalityI)
  let ?n = "length u"
  let ?f = "fold (\<lambda>j u. u[j := u ! (j + nd)]) [0..<?n - nd] u"
  have f: "length ?f = ?n" "\<And>j. j < ?n \<Longrightarrow> ?f ! j = (if j < ?n - nd then u ! (j + nd) else u ! j)"
  proof -
    consider "nd \<le> ?n" | "?n - nd = 0" by linarith
    then have "length ?f = ?n \<and> (\<forall>j < ?n. ?f ! j = (if j < ?n - nd then u ! (j + nd) else u ! j))"
      by cases (use fold_down [of "?n - nd" nd u] in auto)
    then show "length ?f = ?n" "\<And>j. j < ?n \<Longrightarrow> ?f ! j = (if j < ?n - nd then u ! (j + nd) else u ! j)" by blast+
  qed
  have r: "shift_right_digits nd fill u = fold (\<lambda>j u. u[j := fill]) [?n - min nd ?n..<?n] ?f"
    by (auto simp: shift_right_digits_def Let_def vec_zero_def)
  have z: "length (shift_right_digits nd fill u) = ?n"
    "\<And>j. j < ?n \<Longrightarrow> shift_right_digits nd fill u ! j = (if ?n - min nd ?n \<le> j then fill else ?f ! j)"
    unfolding r using fold_set [of "\<lambda>_. fill" "?n - min nd ?n" ?n ?f] f(1) by simp_all
  show "length (shift_right_digits nd fill u) = length (drop nd u @ replicate (min nd (length u)) fill)" using z(1) by simp
  fix j assume "j < length (shift_right_digits nd fill u)"
  then show "shift_right_digits nd fill u ! j = (drop nd u @ replicate (min nd (length u)) fill) ! j"
    using z f by (auto simp: nth_append min_def add.commute)
qed

text \<open>A shift by \<open>n\<close> bits is one by whole digits and one by less than a digit.\<close>

lemma whole_digits_split:
  assumes "30 \<le> n"
  obtains nd r where "whole_digits n = (int nd, int r)" and "n = 30 * int nd + int r" and "r < 30" and "0 < nd"
proof (rule that [of "nat (n div 30)" "nat (n mod 30)"])
  have d: "30 * (n div 30) + n mod 30 = n" by simp
  have pos: "0 < n div 30" "0 \<le> n mod 30" "n mod 30 < 30" using assms by (simp_all add: pos_imp_zdiv_pos_iff)
  show "n = 30 * int (nat (n div 30)) + int (nat (n mod 30))" using d pos by simp
  show "nat (n mod 30) < 30" "0 < nat (n div 30)" using pos by simp_all
  show "whole_digits n = (int (nat (n div 30)), int (nat (n mod 30)))"
  proof (cases "n mod 30 = 0")
    case True
    then show ?thesis using pos by (simp add: whole_digits_def BITS_PER_DIGIT_def)
  next
    case False
    then have m: "0 \<le> n mod 30 - 1" "n mod 30 - 1 < 30" using pos by simp_all
    have "n - 1 = (n mod 30 - 1) + 30 * (n div 30)" using d by linarith
    then have "(n - 1) div 30 = ((n mod 30 - 1) + 30 * (n div 30)) div 30" by (rule arg_cong)
    also have "\<dots> = n div 30" using m by (subst div_mult_self2) simp_all
    finally have "(n - 1) div 30 = n div 30" .
    then show ?thesis using False pos d by (simp add: whole_digits_def DIV_CEIL_def BITS_PER_DIGIT_def algebra_simps)
  qed
qed

lemma RADIX_power: "RADIX ^ k = 2 ^ (30 * k)"
  by (simp add: RADIX_def power_mult)

lemma shift_left_digits_value:
  assumes "digits_ok u"
  shows "dval (shift_left_digits nd u) = dval u * 2 ^ (30 * nd) mod RADIX ^ length u"
    and "digits_ok (shift_left_digits nd u)" and "length (shift_left_digits nd u) = length u"
proof -
  have z: "dval (replicate n 0) = 0" "digits_ok (replicate n 0)" for n by (induction n) simp_all
  show ok: "digits_ok (shift_left_digits nd u)" using z assms digits_ok_parts by (simp add: shift_left_digits_eq)
  show len: "length (shift_left_digits nd u) = length u" by (auto simp: shift_left_digits_eq min_def)
  show "dval (shift_left_digits nd u) = dval u * 2 ^ (30 * nd) mod RADIX ^ length u"
  proof (cases "nd \<le> length u")
    case True
    then have v: "dval (shift_left_digits nd u) = RADIX ^ nd * dval (take (length u - nd) u)"
      by (simp add: shift_left_digits_eq dval_append z min_def)
    have "dval u * 2 ^ (30 * nd) = RADIX ^ nd * dval (take (length u - nd) u) + RADIX ^ length u * dval (drop (length u - nd) u)"
    proof -
      have "RADIX ^ nd * RADIX ^ (length u - nd) = RADIX ^ length u" using True by (simp flip: power_add)
      then show ?thesis
        unfolding RADIX_power [symmetric] using dval_take_drop [of u "length u" "length u - nd"]
        by (simp add: distrib_left mult.assoc [symmetric] mult.commute [of _ "RADIX ^ nd"])
    qed
    then show ?thesis using dval_less [OF ok] len v by simp
  next
    case False
    then have "RADIX ^ length u dvd RADIX ^ nd" by (intro le_imp_power_dvd) simp
    then have "RADIX ^ length u dvd dval u * 2 ^ (30 * nd)" unfolding RADIX_power by simp
    with False show ?thesis by (simp add: shift_left_digits_eq z dvd_eq_mod_eq_0)
  qed
qed

lemma vec_shift_left_value:
  assumes "digits_ok u"
  shows "dval (vec_shift_left u n) = dval u * 2 ^ nat n mod RADIX ^ length u \<and> digits_ok (vec_shift_left u n) \<and>
    length (vec_shift_left u n) = length u"
proof -
  have bits: "dval (if r = 0 then w else shift_left_bits r 0 w) = dval w * 2 ^ r mod RADIX ^ length w \<and>
      digits_ok (if r = 0 then w else shift_left_bits r 0 w) \<and> length (if r = 0 then w else shift_left_bits r 0 w) = length w"
    if ok: "digits_ok w" and r: "r < 30" for w r
  proof (cases "r = 0")
    case True
    then show ?thesis using ok dval_less [OF ok] by simp
  next
    case False
    then show ?thesis using shift_left_bits_value [OF ok, of r 0] r dval_mod by fastforce
  qed
  consider "n \<le> 0" | "0 < n" "n < 30" | "30 \<le> n" by linarith
  then show ?thesis
  proof cases
    case 1
    then show ?thesis using assms dval_less [OF assms] by (simp add: vec_shift_left_def)
  next
    case 2
    then show ?thesis using bits [OF assms, of "nat n"] by (simp add: vec_shift_left_def BITS_PER_DIGIT_def)
  next
    case 3
    then obtain nd r where w: "whole_digits n = (int nd, int r)" "n = 30 * int nd + int r" "r < 30" "0 < nd"
      by (rule whole_digits_split)
    let ?v = "shift_left_digits nd u"
    note v = shift_left_digits_value [OF assms, of nd]
    have e: "vec_shift_left u n = (if r = 0 then ?v else shift_left_bits r 0 ?v)"
      using 3 w(1,4) by (simp add: vec_shift_left_def BITS_PER_DIGIT_def)
    have "nat n = 30 * nd + r" using w(2) by simp
    then have p: "dval u * 2 ^ nat n = dval u * 2 ^ (30 * nd) * 2 ^ r" by (simp only: power_add mult.assoc)
    show ?thesis using bits [OF v(2) w(3)] v(1,3) unfolding e p by (simp add: mod_mult_left_eq)
  qed
qed

lemma dval_replicate_mask: "dval (replicate n DIGIT_MASK) = RADIX ^ n - 1"
proof (induction n)
  case (Suc n)
  have "1 \<le> RADIX ^ n" by (simp add: RADIX_nat)
  then have "RADIX * (RADIX ^ n - 1) = RADIX * RADIX ^ n - RADIX" "RADIX \<le> RADIX * RADIX ^ n" by (simp_all add: diff_mult_distrib2)
  with Suc show ?case by (simp add: DIGIT_MASK_def RADIX_nat)
qed simp

lemma pred_mult: "0 < a \<Longrightarrow> (a - 1) * b + b = a * (b :: nat)"
  by (cases a) simp_all

lemma ones_mult: "0 < a \<Longrightarrow> 0 < b \<Longrightarrow> (b - 1) * a + (a - 1) = a * b - (1 :: nat)"
  by (cases b) (simp_all add: ac_simps)

text \<open>What is shifted in from above: zeros or ones.\<close>

definition fill_bits :: "sc_digit \<Rightarrow> nat \<Rightarrow> nat" where
  "fill_bits fill n = (if fill = 0 then 0 else 2 ^ n - 1)"

lemma fill_bits_add: "fill_bits fill (m + n) = fill_bits fill n * 2 ^ m + fill_bits fill m"
proof (cases "fill = 0")
  case False
  have "(2 ^ n - 1) * 2 ^ m + (2 ^ m - 1) = (2 ^ m * 2 ^ n - 1 :: nat)" by (rule ones_mult) simp_all
  with False show ?thesis by (simp add: fill_bits_def power_add)
qed (simp add: fill_bits_def)

lemma shift_right_digits_value:
  assumes "digits_ok u" and "fill = 0 \<or> fill = DIGIT_MASK"
  shows "dval (shift_right_digits nd fill u) = (fill_bits fill (30 * nd) * RADIX ^ length u + dval u) div 2 ^ (30 * nd)"
    and "digits_ok (shift_right_digits nd fill u)" and "length (shift_right_digits nd fill u) = length u"
proof -
  have z: "dval (replicate n 0) = 0" "digits_ok (replicate n 0)" "digits_ok (replicate n DIGIT_MASK)" for n
    by (induction n) (simp_all add: DIGIT_MASK_def RADIX_nat)
  show "digits_ok (shift_right_digits nd fill u)" using z assms digits_ok_parts by (auto simp: shift_right_digits_eq)
  show "length (shift_right_digits nd fill u) = length u" by (auto simp: shift_right_digits_eq min_def)
  have f: "fill_bits fill (30 * nd) = (if fill = 0 then 0 else RADIX ^ nd - 1)" by (simp add: fill_bits_def RADIX_power)
  have r: "dval (replicate n fill) = (if fill = 0 then 0 else RADIX ^ n - 1)" for n
    using assms(2) z(1) dval_replicate_mask by auto
  let ?L = "RADIX ^ length u"
  have less: "dval u < ?L" by (rule dval_less [OF assms(1)])
  have pos: "0 < RADIX ^ nd" by simp
  show "dval (shift_right_digits nd fill u) = (fill_bits fill (30 * nd) * ?L + dval u) div 2 ^ (30 * nd)"
  proof (cases "nd \<le> length u")
    case True
    have p: "?L = RADIX ^ nd * RADIX ^ (length u - nd)" using True by (simp flip: power_add)
    have "dval (shift_right_digits nd fill u) = dval (drop nd u) + RADIX ^ (length u - nd) * fill_bits fill (30 * nd)"
      using True by (simp add: shift_right_digits_eq dval_append r f min_def)
    moreover have "fill_bits fill (30 * nd) * ?L + dval u =
        RADIX ^ nd * (RADIX ^ (length u - nd) * fill_bits fill (30 * nd) + dval (drop nd u)) + dval (take nd u)"
      unfolding p dval_take_drop [OF refl True] by (simp add: distrib_left ac_simps)
    moreover have "dval (take nd u) < RADIX ^ nd" by (rule dval_take_less [OF assms(1) True])
    ultimately show ?thesis unfolding RADIX_power [symmetric] using pos by simp
  next
    case False
    then have v: "dval (shift_right_digits nd fill u) = (if fill = 0 then 0 else ?L - 1)" by (simp add: shift_right_digits_eq r)
    have le: "?L \<le> RADIX ^ nd" using False by (intro power_increasing) (simp_all add: RADIX_nat)
    show ?thesis
    proof (cases "fill = 0")
      case True
      then show ?thesis using v f less le unfolding RADIX_power [symmetric] by simp
    next
      case nz: False
      have e: "(RADIX ^ nd - 1) * ?L + dval u = (?L - 1) * RADIX ^ nd + (RADIX ^ nd - ?L + dval u)"
      proof -
        have "(RADIX ^ nd - 1) * ?L + ?L = RADIX ^ nd * ?L" by (rule pred_mult) simp
        moreover have "(?L - 1) * RADIX ^ nd + RADIX ^ nd = ?L * RADIX ^ nd" by (rule pred_mult) simp
        ultimately show ?thesis using le by (simp only: mult.commute)
      qed
      have "RADIX ^ nd - ?L + dval u < RADIX ^ nd" using less le by simp
      then have "((RADIX ^ nd - 1) * ?L + dval u) div RADIX ^ nd = ?L - 1" unfolding e by (subst div_mult_self3) simp_all
      then show ?thesis unfolding v f RADIX_power [symmetric] using nz by simp
    qed
  qed
qed

lemma vec_shift_right_value:
  assumes "digits_ok u" and "fill = 0 \<or> fill = DIGIT_MASK"
  shows "dval (vec_shift_right u n fill) = (fill_bits fill (nat n) * RADIX ^ length u + dval u) div 2 ^ nat n \<and>
    digits_ok (vec_shift_right u n fill) \<and> length (vec_shift_right u n fill) = length u"
proof -
  let ?b = "\<lambda>r w. if r = 0 then w
    else rev (shift_right_bits r (push_bit (BITS_PER_DIGIT - r) (fill AND one_and_ones r)) (rev w))"
  have bits: "dval (?b r w) = (fill_bits fill r * RADIX ^ length w + dval w) div 2 ^ r \<and> digits_ok (?b r w) \<and> length (?b r w) = length w"
    if ok: "digits_ok w" and r: "r < 30" for w r
  proof (cases "r = 0")
    case True
    then show ?thesis using ok by (simp add: fill_bits_def)
  next
    case False
    have f: "unat (fill AND one_and_ones r) = fill_bits fill r"
    proof (cases "fill = 0")
      case nz: False
      then have "unat fill = 2 ^ 30 - 1" using assms(2) by (auto simp: DIGIT_MASK_def)
      moreover have "(2 ^ 30 - 1) mod 2 ^ r = (2 ^ r - 1 :: nat)"
      proof -
        have "(2 ^ 30 :: nat) = 2 ^ r * 2 ^ (30 - r)" using r by (simp flip: power_add)
        then have "2 ^ 30 - 1 = (2 ^ r - 1) + 2 ^ r * (2 ^ (30 - r) - 1 :: nat)"
          using ones_mult [of "2 ^ r" "2 ^ (30 - r)"] by (simp only: mult.commute add.commute) simp
        then have "(2 ^ 30 - 1 :: nat) mod 2 ^ r = (2 ^ r - 1) mod 2 ^ r" by (simp only: mod_mult_self2)
        then show ?thesis by simp
      qed
      ultimately show ?thesis using nz by (simp add: fill_bits_def)
    qed (simp add: fill_bits_def)
    have fl: "fill_bits fill r < 2 ^ r" by (simp add: fill_bits_def)
    have "fill_bits fill r * 2 ^ (30 - r) < 2 ^ r * 2 ^ (30 - r)" using fl by (intro mult_strict_right_mono) simp_all
    also have "\<dots> = RADIX" using r by (intro RADIX_split [symmetric]) simp
    finally have "unat (fill AND one_and_ones r) * 2 ^ (30 - r) < 2 ^ LENGTH(32)" unfolding f by (simp add: RADIX_nat)
    from unat_push [OF this]
    have c: "unat (push_bit (BITS_PER_DIGIT - r) (fill AND one_and_ones r)) = fill_bits fill r * 2 ^ (30 - r)"
      by (simp add: BITS_PER_DIGIT_def f del: push_bit_and unat_and_ones)
    show ?thesis using shift_right_bits_value [of "rev w", OF _ _ r fl c] ok False by (simp del: push_bit_and)
  qed
  consider "n \<le> 0" | "0 < n" "n < 30" | "30 \<le> n" by linarith
  then show ?thesis
  proof cases
    case 1
    then show ?thesis using assms by (simp add: vec_shift_right_def fill_bits_def)
  next
    case 2
    then show ?thesis using bits [OF assms(1), of "nat n"] by (simp add: vec_shift_right_def BITS_PER_DIGIT_def del: push_bit_and)
  next
    case 3
    then obtain nd r where w: "whole_digits n = (int nd, int r)" "n = 30 * int nd + int r" "r < 30" "0 < nd"
      by (rule whole_digits_split)
    let ?v = "shift_right_digits nd fill u"
    note v = shift_right_digits_value [OF assms, of nd]
    have e: "vec_shift_right u n fill = ?b r ?v"
      using 3 w(1,4) by (simp add: vec_shift_right_def BITS_PER_DIGIT_def del: push_bit_and)
    have n: "nat n = 30 * nd + r" using w(2) by simp
    let ?X = "fill_bits fill (30 * nd) * RADIX ^ length u + dval u"
    have "fill_bits fill r * RADIX ^ length u + ?X div 2 ^ (30 * nd) = (?X + 2 ^ (30 * nd) * (fill_bits fill r * RADIX ^ length u)) div 2 ^ (30 * nd)"
      by simp
    also have "?X + 2 ^ (30 * nd) * (fill_bits fill r * RADIX ^ length u) = fill_bits fill (nat n) * RADIX ^ length u + dval u"
      unfolding n fill_bits_add by (simp only: distrib_right distrib_left ac_simps)
    finally have "(fill_bits fill r * RADIX ^ length u + ?X div 2 ^ (30 * nd)) div 2 ^ r =
        (fill_bits fill (nat n) * RADIX ^ length u + dval u) div 2 ^ nat n"
      by (simp only: n power_add div_mult2_eq)
    then show ?thesis using bits [OF v(2) w(3)] v unfolding e by simp
  qed
qed

end
