(* ===== verification/Nb_Div.thy ===== *)
theory Nb_Div
  imports Nb_Shift
begin

text \<open>
  \<open>sc_nbutils\<close>: the division of a vector by a vector.  Both are converted into vectors of bytes, and the quotient is
  found byte by byte from a guess that may be one too large.
\<close>

section \<open>Bytes\<close>

function to_char_loop :: "sc_digit list \<Rightarrow> int \<Rightarrow> nat \<Rightarrow> uchar list" where
  "to_char_loop u nbits vlen =
     (if nbits > 0
      then let right = 8 * vlen; left = right + 7; nsr = right mod BITS_PER_DIGIT;
               left_digit = left div BITS_PER_DIGIT; right_digit = right div BITS_PER_DIGIT;
               d = drop_bit nsr (u ! right_digit);
               d = (if left_digit \<noteq> right_digit \<and> left_digit < length u
                    then d OR push_bit (BITS_PER_DIGIT - nsr) (u ! left_digit) else d)
           in ucast (d AND 0xFF) # to_char_loop u (nbits - 8) (Suc vlen)
      else [])"
  by pat_completeness auto
termination by (relation "measure (\<lambda>(u, nbits, vlen). nat nbits)") auto

declare to_char_loop.simps [simp del]

definition vec_to_char :: "sc_digit list \<Rightarrow> uchar list" where
  "vec_to_char u = to_char_loop u (int (length u * BITS_PER_DIGIT)) 0"

definition vec_from_char :: "uchar list \<Rightarrow> sc_digit list \<Rightarrow> sc_digit list" where
  "vec_from_char u v = fold (\<lambda>b v. let v = shift_left_bits 8 0 v in v[0 := v ! 0 OR ucast b]) (rev (butlast u))
     (v[0 := ucast (last u)])"

fun skip_bytes :: "nat \<Rightarrow> uchar list \<Rightarrow> nat" where
  "skip_bytes 0 x = 0"
| "skip_bytes (Suc n) x = (if x ! n = 0 then skip_bytes n x else Suc n)"

section \<open>The division\<close>

text \<open>The loop that subtracts \<open>y * qk\<close>, and the one that adds \<open>y\<close> back: the bytes written and the carry.\<close>

fun sub_mul :: "sc_digit \<Rightarrow> sc_digit \<Rightarrow> uchar list \<Rightarrow> uchar list \<Rightarrow> uchar list \<times> sc_digit" where
  "sub_mul qk carry (b # y) (a # x) =
     (let carry = carry + ucast b * qk; diff = (ucast a + 256) - (carry AND 0xFF);
          (x, c) = sub_mul qk (drop_bit 8 carry + (1 - drop_bit 8 diff)) y x
      in (ucast (diff AND 0xFF) # x, c))"
| "sub_mul qk carry y x = ([], carry)"

fun add_back :: "sc_digit \<Rightarrow> uchar list \<Rightarrow> uchar list \<Rightarrow> uchar list \<times> sc_digit" where
  "add_back carry (b # y) (a # x) =
     (let carry = carry + (ucast a + ucast b); (x, c) = add_back (drop_bit 8 carry) y x in (ucast (carry AND 0xFF) # x, c))"
| "add_back carry y x = ([], carry)"

text \<open>A guess from three bytes of \<open>x\<close> and two of \<open>y\<close>.\<close>

definition guess :: "uchar list \<Rightarrow> uchar list \<Rightarrow> nat \<Rightarrow> sc_digit" where
  "guess y x k =
     (let ylen = length y; k2 = k + ylen; y2 = push_bit 8 (ucast (y ! (ylen - 1))) + ucast (y ! (ylen - 2));
          qk = (push_bit 16 (ucast (x ! k2)) + push_bit 8 (ucast (x ! (k2 - 1))) + ucast (x ! (k2 - 2))) div y2
      in if qk \<ge> 256 then 255 else qk)"

text \<open>One pass for \<open>q[k]\<close>: the byte of the quotient and what is left of \<open>x\<close>.\<close>

definition div_byte :: "uchar list \<Rightarrow> uchar list \<Rightarrow> nat \<Rightarrow> sc_digit \<times> uchar list" where
  "div_byte y x k =
     (let ylen = length y; qk = guess y x k in
      if qk = 0 then (qk, x)
      else let (w, carry) = sub_mul qk 0 y (take ylen (drop k x)); x = take k x @ w @ drop (k + ylen) x in
        if carry = 0 then (qk, x)
        else let carry = (ucast (x ! (k + ylen)) + 256) - carry; x = x[k + ylen := ucast (carry AND 0xFF)] in
          if 1 - drop_bit 8 carry = 0 then (qk, x)
          else let (w, carry) = add_back 0 y (take ylen (drop k x)); x = take k x @ w @ drop (k + ylen) x in
            (qk - 1, if carry \<noteq> 0 then x[k + ylen := ucast ((ucast (x ! (k + ylen)) + 1) AND (0xFF :: sc_digit))] else x))"

text \<open>All the bytes of the quotient, the most significant one first, and the remainder.\<close>

fun div_bytes :: "nat \<Rightarrow> uchar list \<Rightarrow> uchar list \<Rightarrow> uchar list \<times> uchar list" where
  "div_bytes 0 y x = ([], x)"
| "div_bytes (Suc k) y x = (let (qk, x) = div_byte y x k; (q, x) = div_bytes k y x in (ucast qk # q, x))"

definition div_large :: "sc_digit list \<Rightarrow> sc_digit list \<Rightarrow> uchar list \<times> uchar list \<times> nat" where
  "div_large u v =
     (let x = vec_to_char u; xlen = skip_bytes (length x) x; y = vec_to_char v; ylen = skip_bytes (length y) y;
          x = (x @ [0])[xlen := 0]; (q, r) = div_bytes (xlen + 1 - ylen) (take ylen y) x
      in (rev q, r, ylen))"

definition vec_div_large :: "sc_digit list \<Rightarrow> sc_digit list \<Rightarrow> sc_digit list \<Rightarrow> sc_digit list" where
  "vec_div_large u v w = (let (q, r, ylen) = div_large u v in vec_from_char q (take (length u) w) @ drop (length u) w)"

definition vec_rem_large :: "sc_digit list \<Rightarrow> sc_digit list \<Rightarrow> sc_digit list \<Rightarrow> sc_digit list" where
  "vec_rem_large u v w = (let (q, r, ylen) = div_large u v in vec_from_char (take ylen r) (take (length u) w) @ drop (length u) w)"

section \<open>The number of a vector of bytes\<close>

definition bval :: "uchar list \<Rightarrow> nat" where
  "bval bs = nval 256 (map unat bs)"

lemma bval_simps [simp]: "bval [] = 0" "bval (b # bs) = unat b + 256 * bval bs"
  by (simp_all add: bval_def)

lemma bval_append: "bval (xs @ ys) = bval xs + 256 ^ length xs * bval ys"
  by (simp add: bval_def nval_append)

lemma unat_byte [simp]: "unat (b :: uchar) < 256"
  using unsigned_less [of b] by simp

lemma bval_less: "bval bs < 256 ^ length bs"
  using nval_less [of 256 "map unat bs"] by (simp add: bval_def list_all_iff)

lemma unat_ucast_byte [simp]: "unat (ucast (b :: uchar) :: sc_digit) = unat b"
proof -
  have "unat b < 256" by simp
  also have "(256 :: nat) < 2 ^ 32" by simp
  finally have "unat b < 2 ^ 32" .
  then show ?thesis by (simp add: unsigned_ucast_eq take_bit_nat_eq_self)
qed

lemma byte_mask: "(d :: sc_digit) AND 0xFF = take_bit 8 d"
proof -
  have "(0xFF :: sc_digit) = mask 8" by (simp add: mask_eq_exp_minus_1)
  then show ?thesis by (simp only: take_bit_eq_mask)
qed

lemma unat_byte_mask: "unat ((d :: sc_digit) AND 0xFF) = unat d mod 256"
  using unat_take [of 8 d] by (simp only: byte_mask) simp

lemma unat_byte_of [simp]: "unat (ucast ((d :: sc_digit) AND 0xFF) :: uchar) = unat d mod 256"
  by (simp only: unsigned_ucast_eq unat_byte_mask take_bit_eq_mod) simp

lemma unat_drop_8 [simp]: "unat (drop_bit 8 (d :: sc_digit)) = unat d div 256"
  using unat_drop [of 8 d] by simp

section \<open>Digits to bytes\<close>

lemma dval_drop_Cons: "n < length u \<Longrightarrow> dval (drop n u) = unat (u ! n) + RADIX * dval (drop (Suc n) u)"
  using Cons_nth_drop_Suc [of n u] dval_simps(2) by metis

lemma dval_div_power: "digits_ok u \<Longrightarrow> n \<le> length u \<Longrightarrow> dval u div RADIX ^ n = dval (drop n u)"
  using dval_take_drop [of u "length u" n] dval_take_less [of u n] by simp

lemma byte_value:
  assumes "digits_ok u" and "right < 30 * length u" and "nsr = right mod 30" and "r = right div 30" and "even right"
    and "d = (if (right + 7) div 30 \<noteq> r \<and> (right + 7) div 30 < length u
      then drop_bit nsr (u ! r) OR push_bit (30 - nsr) (u ! ((right + 7) div 30)) else drop_bit nsr (u ! r))"
  shows "unat d mod 256 = dval u div 2 ^ right mod 256"
proof -
  have right: "right = 30 * r + nsr" "nsr < 30" using assms(3,4) by simp_all
  have r: "r < length u" using assms(2,4) by (simp add: less_mult_imp_div_less)
  let ?B = "dval (drop (Suc r) u)" and ?a = "unat (u ! r) div 2 ^ nsr"
  have ur: "unat (u ! r) < RADIX" by (rule digit_at [OF assms(1) r])
  have R: "RADIX = 2 ^ nsr * 2 ^ (30 - nsr)" using right(2) by (intro RADIX_split) simp
  have "dval u div 2 ^ right = (unat (u ! r) + RADIX * ?B) div 2 ^ nsr"
    using dval_div_power [OF assms(1), of r] r unfolding right(1) power_add div_mult2_eq RADIX_power by (simp add: dval_drop_Cons)
  also have "\<dots> = ?a + 2 ^ (30 - nsr) * ?B" unfolding R by (simp add: mult.assoc)
  finally have val: "dval u div 2 ^ right = ?a + 2 ^ (30 - nsr) * ?B" .
  have d0: "unat (drop_bit nsr (u ! r)) = ?a" by (rule unat_drop)
  show ?thesis
  proof (cases "nsr \<le> 22")
    case True
    have "(30 * r + nsr + 7) div 30 = r" using True by simp
    then have "unat d = ?a" using assms(6) d0 unfolding right(1) by simp
    moreover have "(2 :: nat) ^ (30 - nsr) = 256 * 2 ^ (22 - nsr)"
    proof -
      have "(2 :: nat) ^ (30 - nsr) = 2 ^ (8 + (22 - nsr))" using True by (intro arg_cong [where f = "power 2"]) simp
      then show ?thesis by (simp add: power_add)
    qed
    ultimately show ?thesis unfolding val by (simp add: mult.assoc)
  next
    case False
    then have l: "(right + 7) div 30 = Suc r" unfolding right(1) using right(2) by simp
    show ?thesis
    proof (cases "Suc r < length u")
      case True
      let ?b = "u ! Suc r" and ?s = "30 - nsr"
      have s: "?s \<le> 7" "?s \<le> 32" using False by simp_all
      have a: "?a < 2 ^ ?s" using ur unfolding R by (intro less_mult_imp_div_less) (simp add: mult.commute)
      have p: "push_bit ?s ?b = push_bit ?s (take_bit (32 - ?s) ?b)"
        by (rule bit_word_eqI) (auto simp: bit_simps)
      have t: "unat (take_bit (32 - ?s) ?b) = unat ?b mod 2 ^ (32 - ?s)" by (rule unat_take)
      have "unat ?b mod 2 ^ (32 - ?s) * 2 ^ ?s < 2 ^ (32 - ?s) * 2 ^ ?s" by (intro mult_strict_right_mono) simp_all
      also have "\<dots> = (2 :: nat) ^ 32" using s(2) by (simp flip: power_add)
      finally have "unat (take_bit (32 - ?s) ?b) * 2 ^ ?s < 2 ^ LENGTH(32)" unfolding t by simp
      from unat_or_above [OF this, of "drop_bit nsr (u ! r)"] a
      have d: "unat d = unat ?b mod 2 ^ (32 - ?s) * 2 ^ ?s + ?a"
        using assms(6) l True by (simp add: p t d0 or.commute unat_drop)
      have "unat ?b * 2 ^ ?s mod 2 ^ 32 = unat ?b mod 2 ^ (32 - ?s) * 2 ^ ?s"
      proof -
        have "(2 :: nat) ^ 32 = 2 ^ (32 - ?s) * 2 ^ ?s" using s(2) by (simp flip: power_add)
        then show ?thesis by (simp only: mult_mod_left)
      qed
      moreover have "(unat ?b * 2 ^ ?s mod 2 ^ 32) mod 256 = unat ?b * 2 ^ ?s mod (256 :: nat)"
        by (rule mod_mod_cancel) simp
      ultimately have "unat d mod 256 = (unat ?b * 2 ^ ?s + ?a) mod 256" unfolding d by (metis mod_add_left_eq)
      moreover have "?a + 2 ^ ?s * ?B = (unat ?b * 2 ^ ?s + ?a) + 256 * (2 ^ ?s * (2 ^ 22 * dval (drop (Suc (Suc r)) u)))"
      proof -
        have "2 ^ ?s * (unat ?b + RADIX * n) = unat ?b * 2 ^ ?s + 256 * (2 ^ ?s * (2 ^ 22 * n))" for n
        proof -
          have R: "RADIX = 256 * 2 ^ 22" by (simp add: RADIX_nat)
          show ?thesis unfolding R by (simp only: distrib_left ac_simps)
        qed
        then show ?thesis unfolding dval_drop_Cons [OF True] by simp
      qed
      ultimately show ?thesis unfolding val by (simp only: mod_mult_self2)
    next
      case no: False
      then have "?B = 0" by simp
      moreover have "unat d = ?a" using assms(6) d0 l no by simp
      ultimately show ?thesis unfolding val by simp
    qed
  qed
qed

lemma to_char_loop_value:
  "digits_ok u \<Longrightarrow> nbits + 8 * int vlen = 30 * int (length u) \<Longrightarrow>
    bval (to_char_loop u nbits vlen) = dval u div 2 ^ (8 * vlen) \<and> length (to_char_loop u nbits vlen) = nat ((nbits + 7) div 8)"
proof (induction u nbits vlen rule: to_char_loop.induct)
  case (1 u nbits vlen)
  show ?case
  proof (cases "nbits > 0")
    case True
    define d where "d = (if (8 * vlen + 7) div 30 \<noteq> 8 * vlen div 30 \<and> (8 * vlen + 7) div 30 < length u
      then drop_bit (8 * vlen mod 30) (u ! (8 * vlen div 30)) OR push_bit (30 - 8 * vlen mod 30) (u ! ((8 * vlen + 7) div 30))
      else drop_bit (8 * vlen mod 30) (u ! (8 * vlen div 30)))"
    have step: "to_char_loop u nbits vlen = ucast (d AND 0xFF) # to_char_loop u (nbits - 8) (Suc vlen)"
      using True by (subst to_char_loop.simps) (simp only: Let_def d_def BITS_PER_DIGIT_def if_True)
    have lt: "8 * vlen < 30 * length u" using True 1(3) by linarith
    have byte: "unat d mod 256 = dval u div 2 ^ (8 * vlen) mod 256"
      by (rule byte_value [OF 1(2) lt refl refl _ d_def]) simp
    have ih: "bval (to_char_loop u (nbits - 8) (Suc vlen)) = dval u div 2 ^ (8 * Suc vlen)"
      "length (to_char_loop u (nbits - 8) (Suc vlen)) = nat ((nbits - 8 + 7) div 8)"
      using 1(1) [OF True refl refl refl refl refl refl refl 1(2)] 1(3) by simp_all
    have "bval (to_char_loop u nbits vlen) = dval u div 2 ^ (8 * vlen) mod 256 + 256 * (dval u div 2 ^ (8 * vlen) div 256)"
    proof -
      have "(2 :: nat) ^ (8 * Suc vlen) = 2 ^ (8 * vlen) * 256" by (simp add: power_add)
      then show ?thesis unfolding step bval_simps unat_byte_of byte ih(1) by (simp only: div_mult2_eq)
    qed
    then have "bval (to_char_loop u nbits vlen) = dval u div 2 ^ (8 * vlen)" by (simp only: mod_mult_div_eq)
    moreover have "nat ((nbits + 7) div 8) = Suc (nat ((nbits - 8 + 7) div 8))" using True by simp
    ultimately show ?thesis using ih(2) step by simp
  next
    case False
    then have "30 * length u \<le> 8 * vlen" using 1(3) by linarith
    then have "RADIX ^ length u \<le> 2 ^ (8 * vlen)" unfolding RADIX_power by (intro power_increasing) simp_all
    then have "dval u < 2 ^ (8 * vlen)" using dval_less [OF 1(2)] by simp
    moreover have "nat ((nbits + 7) div 8) = 0" using False by simp
    ultimately show ?thesis using False by (simp add: to_char_loop.simps)
  qed
qed

lemma vec_to_char_value: "digits_ok u \<Longrightarrow> bval (vec_to_char u) = dval u"
  using to_char_loop_value [of u "int (length u * BITS_PER_DIGIT)" 0] by (simp add: vec_to_char_def BITS_PER_DIGIT_def)

section \<open>Bytes to digits\<close>

lemma or_low_byte:
  assumes "unat d mod 256 = 0"
  shows "unat (d OR ucast (b :: uchar)) = unat (d :: sc_digit) + unat b"
proof -
  have "unat d = unat d div 256 * 256" using assms by (metis add.right_neutral div_mult_mod_eq)
  then have "unat d = push_bit 8 (unat d div 256)" by (simp add: push_bit_eq_mult)
  moreover have "unat d div 256 * 2 ^ 8 OR unat b = unat d div 256 * 2 ^ 8 + unat b"
    by (rule nat_or_disjoint) simp
  ultimately show ?thesis by (simp add: unsigned_or_eq push_bit_eq_mult)
qed

lemma from_byte_step:
  assumes "digits_ok v" and "v \<noteq> []"
  defines "v' \<equiv> shift_left_bits 8 0 v"
  shows "dval (v'[0 := v' ! 0 OR ucast (b :: uchar)]) = (256 * dval v + unat b) mod RADIX ^ length v"
    and "digits_ok (v'[0 := v' ! 0 OR ucast b])" and "length (v'[0 := v' ! 0 OR ucast b]) = length v"
proof -
  obtain u us where v: "v = u # us" using assms(2) by (cases v) auto
  obtain c where s: "digits_ok v'" "length v' = length v" "dval v' + RADIX ^ length v * c = dval v * 256"
    using shift_left_bits_value [OF assms(1), of 8 0] unfolding v'_def by auto
  obtain d ds where v': "v' = d # ds" using s(2) v by (cases v') auto
  have "unat (u AND one_and_ones 22) * 2 ^ 8 < 2 ^ LENGTH(32)"
    unfolding unat_and_ones using mod_less_divisor [of "2 ^ 22" "unat u"] by simp
  then have "unat (push_bit 8 (u AND one_and_ones 22)) = unat u mod 2 ^ 22 * 2 ^ 8"
    by (simp only: unat_push unat_and_ones)
  then have d: "unat d = unat u mod 2 ^ 22 * 256"
    using v' unfolding v'_def v by (simp add: BITS_PER_DIGIT_def del: push_bit_and)
  have o: "unat (d OR ucast b) = unat d + unat b" by (rule or_low_byte) (simp add: d)
  show "length (v'[0 := v' ! 0 OR ucast b]) = length v" using s(2) by simp
  have "unat u mod 2 ^ 22 + 1 \<le> 2 ^ 22" by (simp add: Suc_le_eq)
  then have "(unat u mod 2 ^ 22 + 1) * 256 \<le> 2 ^ 22 * 256" by (rule mult_right_mono) simp
  then have "unat d + unat b < RADIX" using unat_byte [of b] unfolding d RADIX_nat by (simp del: unat_byte)
  then show ok: "digits_ok (v'[0 := v' ! 0 OR ucast b])" using s(1) o v' by simp
  have "dval (v'[0 := v' ! 0 OR ucast b]) + RADIX ^ length (v'[0 := v' ! 0 OR ucast b]) * c = 256 * dval v + unat b"
    using o v' s(2,3) by simp
  from dval_mod [OF ok this]
  show "dval (v'[0 := v' ! 0 OR ucast b]) = (256 * dval v + unat b) mod RADIX ^ length v" using s(2) by simp
qed

lemma from_bytes:
  "digits_ok v \<Longrightarrow> v \<noteq> [] \<Longrightarrow> r = fold (\<lambda>b v. let v = shift_left_bits 8 0 v in v[0 := v ! 0 OR ucast b]) bs v \<Longrightarrow>
    dval r = (256 ^ length bs * dval v + bval (rev bs)) mod RADIX ^ length v \<and> digits_ok r \<and> length r = length v"
proof (induction bs arbitrary: v)
  case Nil
  then show ?case using dval_less [of v] by simp
next
  case (Cons b bs)
  let ?v = "(shift_left_bits 8 0 v)[0 := shift_left_bits 8 0 v ! 0 OR ucast b]" and ?m = "RADIX ^ length v"
  note v1 = from_byte_step [OF Cons.prems(1,2), of b]
  have "?v \<noteq> []" using v1(3) Cons.prems(2) by fastforce
  from Cons.IH [OF v1(2) this] Cons.prems(3) v1
  have r: "dval r = (256 ^ length bs * ((256 * dval v + unat b) mod ?m) + bval (rev bs)) mod ?m" "digits_ok r" "length r = length v"
    by (simp_all add: Let_def)
  have "dval r = (256 ^ length bs * (256 * dval v + unat b) + bval (rev bs)) mod ?m"
    unfolding r(1) by (metis mod_add_left_eq mod_mult_right_eq)
  also have "256 ^ length bs * (256 * dval v + unat b) + bval (rev bs) = 256 ^ length (b # bs) * dval v + bval (rev (b # bs))"
    by (simp add: bval_append distrib_left)
  finally show ?case using r by simp
qed

lemma dval_zeros [simp]: "dval (replicate n 0) = 0" "digits_ok (replicate n 0)"
  by (induction n) simp_all

lemma vec_from_char_value:
  assumes "u \<noteq> []" and "0 < n"
  shows "dval (vec_from_char u (replicate n 0)) = bval u mod RADIX ^ n \<and> digits_ok (vec_from_char u (replicate n 0)) \<and>
    length (vec_from_char u (replicate n 0)) = n"
proof -
  obtain m where n: "n = Suc m" using assms(2) by (cases n) auto
  let ?v = "(replicate n 0)[0 := ucast (last u)] :: sc_digit list"
  have "unat (last u) < RADIX" using unat_byte [of "last u"] unfolding RADIX_nat by linarith
  then have v: "digits_ok ?v" "?v \<noteq> []" "dval ?v = unat (last u)" "length ?v = n" by (simp_all add: n)
  have u: "bval u = 256 ^ length (butlast u) * unat (last u) + bval (butlast u)"
    using bval_append [of "butlast u" "[last u]"] assms(1) by simp
  show ?thesis
    using from_bytes [OF v(1,2) refl, of "rev (butlast u)"] unfolding u v(3,4) by (simp add: vec_from_char_def)
qed

section \<open>The steps of the division\<close>

lemma sub_mul_value:
  "length x = length y \<Longrightarrow> unat qk \<le> 255 \<Longrightarrow> unat c \<le> 255 \<Longrightarrow> sub_mul qk c y x = (w, c') \<Longrightarrow>
    length w = length y \<and> unat c' \<le> 255 \<and> bval w + unat qk * bval y + unat c = bval x + 256 ^ length y * unat c'"
proof (induction qk c y x arbitrary: w c' rule: sub_mul.induct)
  case (1 qk c b y a x)
  let ?p = "ucast b * qk" and ?k = "c + ucast b * qk"
  let ?d = "(ucast a + 256) - (?k AND 0xFF)"
  let ?c = "drop_bit 8 ?k + (1 - drop_bit 8 ?d)"
  have "unat b \<le> 255" using unat_byte [of b] by linarith
  then have "unat b * unat qk \<le> 255 * 255" using 1(3) by (rule mult_le_mono)
  then have p: "unat b * unat qk \<le> 65025" by simp
  then have "unat ?p = unat b * unat qk" using unat_times [of "ucast b" qk] by simp
  then have k: "unat ?k = unat c + unat b * unat qk" using p 1(4) by (subst unat_plus) simp_all
  define q l where "q = unat ?k div 256" and "l = unat ?k mod 256"
  have ql: "unat ?k = 256 * q + l" "l < 256" unfolding q_def l_def by simp_all
  have kb: "unat ?k \<le> 65280" using k p 1(4) by linarith
  have "unat (ucast a + 256 :: sc_digit) = unat a + 256" using unat_byte [of a] by (subst unat_plus) (simp_all del: unat_byte)
  then have d: "unat ?d = unat a + 256 - l" using ql(2) by (subst unat_minus) (simp_all add: unat_byte_mask l_def)
  define t where "t = unat ?d div 256"
  have t: "t = (if unat a < l then 0 else 1)" unfolding t_def d using ql(2) unat_byte [of a] by (auto simp del: unat_byte)
  have u1: "unat (1 - drop_bit 8 ?d :: sc_digit) = 1 - t"
    using t by (subst unat_minus) (simp_all add: t_def)
  have c: "unat ?c = q + (1 - t)" using kb ql by (subst unat_plus) (simp_all add: u1 q_def [symmetric] del: unat_byte)
  have c255: "unat ?c \<le> 255"
  proof (cases "q = 255")
    case True
    then have "l = 0" using kb ql by linarith
    then show ?thesis unfolding c t True by simp
  next
    case False
    then show ?thesis unfolding c using kb ql by linarith
  qed
  obtain w1 c1 where rec: "sub_mul qk ?c y x = (w1, c1)" by fastforce
  from 1(1) [OF refl refl _ 1(3) c255 this] 1(2)
  have ih: "length w1 = length y" "unat c1 \<le> 255" "bval w1 + unat qk * bval y + unat ?c = bval x + 256 ^ length y * unat c1" by simp_all
  have r: "w = ucast (?d AND 0xFF) # w1" "c' = c1" using 1(5) rec by (simp_all add: Let_def)
  have "unat ?d mod 256 + 256 * t = unat a + 256 - l" using d unfolding t_def by simp
  then have byte: "unat ?d mod 256 + unat qk * unat b + unat c = unat a + 256 * unat ?c"
    using t k ql unat_byte [of a] unfolding c by (simp add: mult.commute split: if_splits)
  have "bval w + unat qk * bval (b # y) + unat c = unat ?d mod 256 + unat qk * unat b + unat c + 256 * (bval w1 + unat qk * bval y)"
    unfolding r by (simp add: distrib_left)
  also have "\<dots> = unat a + 256 * (bval w1 + unat qk * bval y + unat ?c)" unfolding byte by (simp add: distrib_left)
  also have "\<dots> = bval (a # x) + 256 ^ length (b # y) * unat c'" unfolding ih(3) r by (simp add: distrib_left)
  finally show ?case using ih(1,2) r by simp
qed auto

lemma add_back_value:
  "length x = length y \<Longrightarrow> unat c \<le> 1 \<Longrightarrow> add_back c y x = (w, c') \<Longrightarrow>
    length w = length y \<and> unat c' \<le> 1 \<and> bval w + 256 ^ length y * unat c' = bval x + bval y + unat c"
proof (induction c y x arbitrary: w c' rule: add_back.induct)
  case (1 c b y a x)
  let ?k = "c + (ucast a + ucast b) :: sc_digit"
  have "unat (ucast a + ucast b :: sc_digit) = unat a + unat b"
    using unat_byte [of a] unat_byte [of b] by (subst unat_plus) (simp_all del: unat_byte)
  then have k: "unat ?k = unat c + (unat a + unat b)"
    using unat_byte [of a] unat_byte [of b] 1(3) by (subst unat_plus) (simp_all del: unat_byte)
  have "unat ?k < 512" unfolding k using unat_byte [of a] unat_byte [of b] 1(3) by linarith
  then have c1: "unat (drop_bit 8 ?k) \<le> 1" by simp
  obtain w1 c1 where rec: "add_back (drop_bit 8 ?k) y x = (w1, c1)" by fastforce
  from 1(1) [OF refl _ c1 this] 1(2)
  have ih: "length w1 = length y" "unat c1 \<le> 1" "bval w1 + 256 ^ length y * unat c1 = bval x + bval y + unat ?k div 256" by simp_all
  have r: "w = ucast (?k AND 0xFF) # w1" "c' = c1" using 1(4) rec by (simp_all add: Let_def)
  have "bval w + 256 ^ length (b # y) * unat c' = bval (a # x) + bval (b # y) + unat c"
    using digit_step [OF ih(3)] unfolding r by (simp add: distrib_left k)
  then show ?case using ih r by simp
qed auto

text \<open>The arithmetic of the guess: from the two leading bytes of the divisor, at most one too large.\<close>

lemma guess_bounds:
  fixes W3 Y2 B Wl Yl :: nat
  assumes "Wl < B" and "Yl < B" and "256 \<le> Y2" and "W3 * B + Wl < 256 * (Y2 * B + Yl)"
  defines "q \<equiv> (W3 * B + Wl) div (Y2 * B + Yl)"
  shows "q \<le> min 255 (W3 div Y2)" and "min 255 (W3 div Y2) \<le> q + 1"
proof -
  let ?Y = "Y2 * B + Yl" and ?W = "W3 * B + Wl"
  have B: "0 < B" and Y: "0 < ?Y" using assms(1,3) by simp_all
  have "q < 256" unfolding q_def using assms(4) by (intro less_mult_imp_div_less) (simp add: mult.commute)
  have "q * Y2 * B \<le> q * ?Y" by (simp add: distrib_left mult.assoc)
  also have "\<dots> \<le> ?W" unfolding q_def by (rule div_times_less_eq_dividend)
  also have "\<dots> < (W3 + 1) * B" using assms(1) by (simp add: distrib_right)
  finally have "q * Y2 < W3 + 1" by (simp only: mult_less_cancel2)
  then have "q \<le> W3 div Y2" using assms(3) by (simp add: less_eq_div_iff_mult_less_eq)
  with \<open>q < 256\<close> show "q \<le> min 255 (W3 div Y2)" by simp
  show "min 255 (W3 div Y2) \<le> q + 1"
  proof (rule ccontr)
    assume "\<not> ?thesis"
    then have "q + 2 \<le> W3 div Y2" "q + 2 \<le> 255" by simp_all
    then have "(q + 2) * Y2 \<le> W3" using assms(3) by (simp add: less_eq_div_iff_mult_less_eq)
    then have "(q + 2) * Y2 * B \<le> W3 * B" by (rule mult_right_mono) simp
    also have "\<dots> \<le> ?W" by simp
    also have "\<dots> < (q + 1) * ?Y"
      using dividend_less_div_times [OF Y, of ?W] unfolding q_def by (simp only: distrib_right mult_1 add.commute)
    also have "\<dots> \<le> (q + 1) * ((Y2 + 1) * B)" using assms(2) by (intro mult_left_mono) simp_all
    finally have "(q + 2) * Y2 < (q + 1) * (Y2 + 1)" unfolding mult.assoc [symmetric] by (simp only: mult_less_cancel2)
    then have "Y2 < q + 1" by (simp add: algebra_simps)
    then show False using assms(3) \<open>q + 2 \<le> 255\<close> by simp
  qed
qed

text \<open>The window of the pass for \<open>q[k]\<close>: the bytes of \<open>x\<close> that the divisor faces, and the one above.\<close>

lemma unat_word3:
  "unat (push_bit 16 (ucast (a :: uchar)) + push_bit 8 (ucast (b :: uchar)) + ucast (c :: uchar) :: sc_digit) =
    unat a * 65536 + unat b * 256 + unat c"
proof -
  note bytes = unat_byte [of a] unat_byte [of b] unat_byte [of c]
  have a: "unat (push_bit 16 (ucast a) :: sc_digit) = unat a * 65536"
    using bytes unat_push [of "ucast a :: sc_digit" 16] by (simp del: unat_byte)
  have b: "unat (push_bit 8 (ucast b) :: sc_digit) = unat b * 256"
    using bytes unat_push [of "ucast b :: sc_digit" 8] by (simp del: unat_byte)
  have "unat (push_bit 16 (ucast a) + push_bit 8 (ucast b) :: sc_digit) = unat a * 65536 + unat b * 256"
    using bytes a b by (subst unat_plus) (simp_all del: unat_byte)
  then show ?thesis using bytes by (subst unat_plus) (simp_all del: unat_byte)
qed

lemma unat_word2:
  "unat (push_bit 8 (ucast (b :: uchar)) + ucast (c :: uchar) :: sc_digit) = unat b * 256 + unat c"
  using unat_word3 [of 0 b c] by simp

lemma guess_value:
  assumes "length lo = length y" and "2 \<le> length y" and "last y \<noteq> 0" and "bval (lo @ [t]) < 256 * bval y"
  shows "bval (lo @ [t]) div bval y \<le> unat (guess y (pre @ lo @ t # rest) (length pre))"
    and "unat (guess y (pre @ lo @ t # rest) (length pre)) \<le> bval (lo @ [t]) div bval y + 1"
    and "unat (guess y (pre @ lo @ t # rest) (length pre)) \<le> 255"
proof -
  obtain y0 b1 b0 where y: "y = y0 @ [b1, b0]"
  proof -
    obtain y1 b0 where 1: "y = y1 @ [b0]" using assms(2) by (cases y rule: rev_exhaust) auto
    obtain y0 b1 where "y1 = y0 @ [b1]" using assms(2) 1 by (cases y1 rule: rev_exhaust) auto
    with 1 show ?thesis using that by simp
  qed
  obtain x0 a1 a0 where x: "lo = x0 @ [a1, a0]" "length x0 = length y0"
  proof -
    have "lo = take (length y0) lo @ [lo ! length y0, lo ! Suc (length y0)]"
      using assms(1) y by (intro nth_equalityI) (auto simp: nth_append less_Suc_eq)
    then show ?thesis using that assms(1) y by (metis length_take length_append min.absorb2 le_add1)
  qed
  let ?W3 = "unat t * 65536 + unat a0 * 256 + unat a1" and ?Y2 = "unat b0 * 256 + unat b1" and ?B = "256 ^ length y0"
  have yv: "bval y = ?Y2 * ?B + bval y0" by (simp add: y bval_append algebra_simps)
  have wv: "bval (lo @ [t]) = ?W3 * ?B + bval x0" by (simp add: x bval_append algebra_simps)
  have b0: "0 < unat b0" using assms(3) y by (simp add: unat_gt_0)
  have "?Y2 \<ge> 256" using b0 by linarith
  note bnd = guess_bounds [OF bval_less [of x0, unfolded x(2)] bval_less [of y0] this assms(4) [unfolded wv yv], folded wv yv]
  let ?x = "pre @ lo @ t # rest" and ?k = "length pre"
  have at: "?x ! (?k + length y) = t" "?x ! (?k + length y - 1) = a0" "?x ! (?k + length y - 2) = a1"
    "y ! (length y - 1) = b0" "y ! (length y - 2) = b1"
    using x(2) by (simp_all add: x(1) y nth_append)
  let ?q = "(push_bit 16 (ucast t) + push_bit 8 (ucast a0) + ucast a1 :: sc_digit) div (push_bit 8 (ucast b0) + ucast b1)"
  have q: "unat ?q = ?W3 div ?Y2" by (simp only: unat_div unat_word2 unat_word3)
  have "guess y ?x ?k = (if ?q \<ge> 256 then 255 else ?q)" by (simp only: guess_def Let_def at)
  then have "unat (guess y ?x ?k) = min 255 (?W3 div ?Y2)" using q by (auto simp: word_le_nat_alt min_def)
  with bnd show "bval (lo @ [t]) div bval y \<le> unat (guess y ?x ?k)" "unat (guess y ?x ?k) \<le> bval (lo @ [t]) div bval y + 1"
    "unat (guess y ?x ?k) \<le> 255" by simp_all
qed

text \<open>The pass for one byte of the quotient leaves the remainder of its window.\<close>

lemma div_mod_unique:
  "q * Y + r = W \<Longrightarrow> r < (Y :: nat) \<Longrightarrow> W div Y = q \<and> W mod Y = r"
  by auto

lemma div_byte_value:
  assumes "length lo = length y" and "2 \<le> length y" and "last y \<noteq> 0" and "bval (lo @ [t]) < 256 * bval y"
  obtains lo' qk where "div_byte y (pre @ lo @ t # rest) (length pre) = (qk, pre @ lo' @ 0 # rest)" and "length lo' = length y"
    and "unat qk = bval (lo @ [t]) div bval y" and "bval lo' = bval (lo @ [t]) mod bval y"
proof -
  let ?x = "pre @ lo @ t # rest" and ?k = "length pre" and ?n = "length y" and ?B = "256 ^ length y"
  define g W Y where "g = guess y ?x ?k" and "W = bval (lo @ [t])" and "Y = bval y"
  note g = guess_value [OF assms, of pre rest, folded g_def W_def Y_def]
  have YB: "Y < ?B" unfolding Y_def by (rule bval_less)
  have Y0: "0 < Y"
  proof -
    have "y = butlast y @ [last y]" using assms(2) by (simp flip: length_greater_0_conv)
    then have "Y = bval (butlast y) + 256 ^ length (butlast y) * unat (last y)" unfolding Y_def by (metis bval_append bval_simps add.right_neutral mult_0_right)
    then show ?thesis using assms(3) by (simp add: unat_gt_0)
  qed
  have W: "W = bval lo + ?B * unat t" by (simp add: W_def bval_append assms(1))
  have win: "take ?n (drop ?k ?x) = lo" "take ?k ?x = pre" "drop (?k + ?n) ?x = t # rest" using assms(1) by simp_all
  have at: "(pre @ w @ t # rest) ! (?k + ?n) = t" "(pre @ w @ t # rest)[?k + ?n := z] = pre @ w @ z # rest" if "length w = ?n" for w z t
    using that by (simp_all add: nth_append list_update_append)
  note goal = that [folded W_def Y_def]
  show ?thesis
  proof (cases "g = 0")
    case True
    then have "W div Y = 0" using g(1) by simp
    then have WY: "W < Y" using Y0 by (simp add: div_eq_0_iff)
    then have "?B * unat t < ?B * 1" using W YB by linarith
    then have "t = 0" by (simp add: unat_eq_zero)
    then have b: "div_byte y ?x ?k = (0, pre @ lo @ 0 # rest)" unfolding div_byte_def Let_def g_def [symmetric] using True by simp
    have "bval lo = W mod Y" using W WY \<open>t = 0\<close> by simp
    with b \<open>W div Y = 0\<close> show ?thesis using goal [of 0 lo] assms(1) by (simp del: mod_less div_less)
  next
    case False
    obtain w c where sub: "sub_mul g 0 y lo = (w, c)" by fastforce
    from sub_mul_value [OF assms(1) g(3) _ this]
    have s: "length w = ?n" "unat c \<le> 255" "bval w + unat g * Y = bval lo + ?B * unat c" unfolding Y_def by simp_all
    have wB: "bval w < ?B" using bval_less [of w] s(1) by simp
    have eq: "W + ?B * unat c = unat g * Y + bval w + ?B * unat t" using s(3) W by simp
    show ?thesis
    proof (cases "unat t < unat c")
      case False
      then obtain e where e: "unat t = unat c + e" using le_Suc_ex by fastforce
      have "unat g * Y \<le> W" using eq unfolding e by (simp add: distrib_left)
      then have "unat g \<le> W div Y" using Y0 by (simp add: less_eq_div_iff_mult_less_eq)
      then have q: "unat g = W div Y" using g(1) by simp
      then have r: "W mod Y = bval w + ?B * e"
        using eq div_mult_mod_eq [of W Y] unfolding e q distrib_left by linarith
      have "W mod Y < ?B" using mod_less_divisor [OF Y0] YB by (rule less_trans)
      then have "?B * e < ?B * 1" unfolding r by linarith
      then have "e = 0" by simp
      then have tc: "unat t = unat c" and r: "bval w = W mod Y" using e r by simp_all
      have "div_byte y ?x ?k = (g, pre @ w @ 0 # rest)"
      proof (cases "c = 0")
        case True
        then have "t = 0" using tc by (simp add: unat_eq_zero)
        then show ?thesis using \<open>g \<noteq> 0\<close> True unfolding div_byte_def Let_def g_def [symmetric] win sub by simp
      next
        case False
        have "ucast t = c" using tc by (simp add: word_unat_eq_iff)
        then have d: "(ucast t + 256 :: sc_digit) - c = 256" by simp
        have m: "(256 :: sc_digit) AND 0xFF = 0" "1 - drop_bit 8 (256 :: sc_digit) = 0" by simp_all
        show ?thesis using \<open>g \<noteq> 0\<close> False
          unfolding div_byte_def Let_def g_def [symmetric] win sub prod.case at [OF s(1)] d m by simp
      qed
      then show ?thesis by (rule goal [OF _ s(1) q r])
    next
      case True
      then have "W < unat g * Y"
      proof -
        have "?B * unat t + ?B \<le> ?B * unat c" using mult_le_mono2 [of "unat t + 1" "unat c" ?B] True by simp
        then show ?thesis using eq wB by linarith
      qed
      then have "W div Y < unat g" using Y0 by (simp add: less_mult_imp_div_less)
      then have q: "unat g = W div Y + 1" using g(2) by simp
      obtain w2 c2 where add: "add_back 0 y w = (w2, c2)" by fastforce
      from add_back_value [OF s(1) _ this]
      have a: "length w2 = ?n" "unat c2 \<le> 1" "bval w2 + ?B * unat c2 = bval w + Y" unfolding Y_def by simp_all
      have w2B: "bval w2 < ?B" using bval_less [of w2] a(1) by simp
      have "W mod Y + ?B * unat c = bval w2 + ?B * unat c2 + ?B * unat t"
        using eq a(3) div_mult_mod_eq [of W Y] unfolding q distrib_right by linarith
      moreover obtain e where e: "unat c = unat t + 1 + e" using True less_imp_Suc_add by fastforce
      ultimately have r: "W mod Y + ?B * (1 + e) = bval w2 + ?B * unat c2" by (simp add: distrib_left)
      have "W mod Y < ?B" using mod_less_divisor [OF Y0] YB by (rule less_trans)
      have "unat c2 = 1" "e = 0"
      proof -
        have "?B * (1 + e) < ?B * (unat c2 + 1)" using r w2B by (simp only: distrib_left)
        then have "1 + e < unat c2 + 1" by (simp only: mult_less_cancel1)
        then show "unat c2 = 1" "e = 0" using a(2) by simp_all
      qed
      then have r: "W mod Y = bval w2" and c2: "c2 \<noteq> 0" and tc: "unat c = unat t + 1" using r e by auto
      let ?d = "(ucast t + 256) - c"
      have "unat (ucast t + 256 :: sc_digit) = unat t + 256" using unat_byte [of t] by (subst unat_plus) (simp_all del: unat_byte)
      then have d: "unat ?d = 255" using tc s(2) by (subst unat_minus) simp_all
      then have d: "?d = 255" by (simp add: word_unat_eq_iff)
      have m: "(ucast (?d AND 0xFF) :: uchar) = 255" "1 - drop_bit 8 ?d = 1" unfolding d by simp_all
      have "c \<noteq> 0" using tc by auto
      then have "div_byte y ?x ?k = (g - 1, pre @ w2 @ 0 # rest)"
        using \<open>g \<noteq> 0\<close> c2 s(1) a(1)
        unfolding div_byte_def Let_def g_def [symmetric] win sub prod.case at [OF s(1)] m
        by (simp add: add at [OF a(1)] nth_append)
      moreover have "unat (g - 1) = W div Y" using q by (subst unat_minus) simp_all
      ultimately show ?thesis by (rule goal [OF _ a(1) _ r [symmetric]])
    qed
  qed
qed

section \<open>The quotient and the remainder by a vector\<close>

lemma div_bytes_value:
  assumes "2 \<le> length y" and "last y \<noteq> 0"
  shows "K + length y \<le> length x \<Longrightarrow> bval (take (K + length y) x) < bval y * 256 ^ K \<Longrightarrow> div_bytes K y x = (q, x') \<Longrightarrow>
    length q = K \<and> length x' = length x \<and> bval (rev q) = bval (take (K + length y) x) div bval y \<and> bval (take (length y) x') = bval (take (K + length y) x) mod bval y"
proof (induction K arbitrary: x q x')
  case 0
  then show ?case by simp
next
  case (Suc K)
  let ?n = "length y" and ?Y = "bval y" and ?Z = "bval (take (Suc K + length y) x)"
  define pre lo t rest where "pre = take K x" and "lo = take ?n (drop K x)" and "t = x ! (K + ?n)" and "rest = drop (Suc (K + ?n)) x"
  have len: "length pre = K" "length lo = ?n" using Suc.prems(1) by (simp_all add: pre_def lo_def)
  have x: "x = pre @ lo @ t # rest"
    using Suc.prems(1) by (simp add: pre_def lo_def t_def rest_def Cons_nth_drop_Suc) (metis append_take_drop_id add.commute drop_drop)
  have "take (Suc K + ?n) x = pre @ lo @ [t]" unfolding x using len by simp
  then have Z: "?Z = bval pre + 256 ^ K * bval (lo @ [t])" using len(1) by (simp only: bval_append)
  have "bval pre + 256 ^ K * bval (lo @ [t]) < 256 ^ K * (256 * ?Y)" using Suc.prems(2) unfolding Z by (simp only: power_Suc ac_simps)
  then have "256 ^ K * bval (lo @ [t]) < 256 ^ K * (256 * ?Y)" by linarith
  then have W: "bval (lo @ [t]) < 256 * ?Y" by (simp only: mult_less_cancel1)
  obtain lo' qk where b: "div_byte y x K = (qk, pre @ lo' @ 0 # rest)" "length lo' = ?n"
    "unat qk = bval (lo @ [t]) div ?Y" "bval lo' = bval (lo @ [t]) mod ?Y"
    using div_byte_value [OF len(2) assms W, of pre rest] unfolding len(1) x [symmetric] by metis
  let ?x = "pre @ lo' @ 0 # rest" and ?Z1 = "bval pre + 256 ^ K * bval lo'"
  have Y0: "0 < ?Y" using W by (cases "?Y") simp_all
  have t1: "take (K + ?n) ?x = pre @ lo'" using len(1) b(2) by simp
  then have Z1: "bval (take (K + ?n) ?x) = ?Z1" using len(1) by (simp only: bval_append)
  have "bval lo' + 1 \<le> ?Y" using mod_less_divisor [OF Y0] unfolding b(4) by (simp add: Suc_le_eq)
  then have "256 ^ K * (bval lo' + 1) \<le> 256 ^ K * ?Y" by (rule mult_left_mono) simp
  then have l1: "?Z1 < ?Y * 256 ^ K" using bval_less [of pre] len(1) by (simp add: mult.commute)
  obtain q1 x1 where rec: "div_bytes K y ?x = (q1, x1)" by fastforce
  have ln: "K + ?n \<le> length ?x" using len(1) b(2) by simp
  from Suc.IH [OF ln _ rec, unfolded Z1, OF l1]
  have ih: "length q1 = K" "length x1 = length ?x" "bval (rev q1) = ?Z1 div ?Y" "bval (take ?n x1) = ?Z1 mod ?Y" by simp_all
  have lx: "length ?x = length x" unfolding x using len(2) b(2) by simp
  have r: "q = ucast qk # q1" "x' = x1" using Suc.prems(3) b(1) rec by simp_all
  have "unat qk < 256" unfolding b(3) using W by (intro less_mult_imp_div_less) (simp add: mult.commute)
  then have u: "unat (ucast qk :: uchar) = unat qk" by (simp add: unsigned_ucast_eq take_bit_nat_eq_self)
  have ZZ: "?Z = ?Z1 + 256 ^ K * unat qk * ?Y"
  proof -
    have e: "bval (lo @ [t]) = bval lo' + unat qk * ?Y" unfolding b(3,4) by simp
    show ?thesis unfolding Z e distrib_left by (simp only: ac_simps)
  qed
  have "bval (rev q) = bval (rev q1) + 256 ^ K * unat qk" using ih(1) u by (simp add: r bval_append)
  also have "\<dots> = ?Z div ?Y" unfolding ih(3) ZZ using Y0 by simp
  finally show ?case using ih(1,2,4) lx r ZZ by simp
qed

lemma skip_bytes_value:
  "n \<le> length x \<Longrightarrow> skip_bytes n x \<le> n \<and> bval (take (skip_bytes n x) x) = bval (take n x) \<and>
    (0 < skip_bytes n x \<longrightarrow> x ! (skip_bytes n x - 1) \<noteq> 0)"
proof (induction n)
  case (Suc n)
  then have "take (Suc n) x = take n x @ [x ! n]" by (simp add: take_Suc_conv_app_nth)
  then have "bval (take (Suc n) x) = bval (take n x) + 256 ^ n * unat (x ! n)" using Suc.prems by (simp add: bval_append)
  then show ?case using Suc by auto
qed simp

lemma div_large_value:
  assumes "digits_ok u" and "digits_ok v" and "256 \<le> dval v" and "dval v \<le> dval u" and "div_large u v = (q, r, n)"
  shows "bval q = dval u div dval v" and "bval (take n r) = dval u mod dval v" and "q \<noteq> []" and "take n r \<noteq> []"
proof -
  define x yv m where "x = vec_to_char u" and "yv = vec_to_char v" and "m = skip_bytes (length (vec_to_char v)) (vec_to_char v)"
  define y where "y = take m yv"
  define xlen where "xlen = skip_bytes (length x) x"
  define x1 where "x1 = (x @ [0])[xlen := 0]"
  have xs: "xlen \<le> length x" "bval (take xlen x) = dval u"
    using skip_bytes_value [of "length x" x] vec_to_char_value [OF assms(1)] unfolding xlen_def x_def by simp_all
  have m: "m \<le> length yv" "bval (take m yv) = dval v" "0 < m \<Longrightarrow> yv ! (m - 1) \<noteq> 0"
    using skip_bytes_value [of "length yv" yv] vec_to_char_value [OF assms(2)] unfolding m_def yv_def by simp_all
  have ys: "length y = m" "bval y = dval v" "0 < length y \<Longrightarrow> last y \<noteq> 0"
  proof -
    show l: "length y = m" "bval y = dval v" using m(1,2) by (simp_all add: y_def)
    show "last y \<noteq> 0" if "0 < length y" using that m(3) l(1) unfolding y_def by (simp add: last_conv_nth)
  qed
  have y2: "2 \<le> length y"
  proof (rule ccontr)
    assume "\<not> ?thesis"
    then have "bval y < 256 ^ 1" using bval_less [of y] power_increasing [of "length y" 1 "256 :: nat"] by simp
    then show False using ys(2) assms(3) by simp
  qed
  then have "0 < length y" by linarith
  then have last: "last y \<noteq> 0" and "y \<noteq> []" using ys(3) by blast+
  then have top: "256 ^ (length y - 1) \<le> bval y"
  proof -
    have "y = butlast y @ [last y]" using \<open>y \<noteq> []\<close> by simp
    then have "bval y = bval (butlast y) + 256 ^ (length y - 1) * unat (last y)"
      by (metis bval_append bval_simps add.right_neutral mult_0_right length_butlast)
    moreover have "1 \<le> unat (last y)" using last by (simp add: Suc_le_eq unat_gt_0)
    then have "256 ^ (length y - 1) * 1 \<le> 256 ^ (length y - 1) * unat (last y)" by (rule mult_le_mono2)
    ultimately show ?thesis by linarith
  qed
  have ux: "dval u < 256 ^ xlen" using bval_less [of "take xlen x"] xs by (simp add: min_absorb2)
  have "256 ^ (length y - 1) < (256 :: nat) ^ xlen" using top ys(2) assms(4) ux by linarith
  then have "length y - 1 < xlen" by (rule power_less_imp_less_exp [rotated]) simp
  then have K: "xlen + 1 - length y + length y = xlen + 1" "length y - 1 + (xlen + 1 - length y) = xlen"
    "0 < xlen + 1 - length y" using y2 by simp_all
  have x1: "take (xlen + 1) x1 = take xlen x @ [0]" "xlen + 1 \<le> length x1"
    using xs(1) by (simp_all add: x1_def take_Suc_conv_app_nth)
  then have z: "bval (take (xlen + 1) x1) = dval u" using xs(2) by (simp add: bval_append)
  have "256 ^ xlen = 256 ^ (length y - 1) * (256 :: nat) ^ (xlen + 1 - length y)" unfolding power_add [symmetric] K(2) ..
  also have "\<dots> \<le> bval y * 256 ^ (xlen + 1 - length y)" using top by (rule mult_right_mono) simp
  finally have b: "dval u < bval y * 256 ^ (xlen + 1 - length y)" using ux by simp
  obtain q1 r1 where d: "div_bytes (xlen + 1 - length y) y x1 = (q1, r1)" by fastforce
  have e: "q = rev q1" "r = r1" "n = length y"
    using assms(5) d ys(1) by (simp_all add: div_large_def Let_def xlen_def x1_def x_def y_def m_def yv_def)
  note v = div_bytes_value [OF y2 last _ _ d, unfolded K(1) z, OF x1(2) b, unfolded ys(2)]
  show "bval q = dval u div dval v" "bval (take n r) = dval u mod dval v" "q \<noteq> []" using v K(3) by (auto simp: e)
  show "take n r \<noteq> []" using v x1(2) y2 by (auto simp: e)
qed

text \<open>The division of a vector by a vector, byte by byte with guesses, is the division of their numbers: for a divisor
  of two bytes or more and a dividend that is not smaller, \<open>vec_div_large\<close> fills a cleared result with the digits of the
  quotient and \<open>vec_rem_large\<close> with those of the remainder.\<close>

lemma large_division:
  assumes "digits_ok u" and "digits_ok v" and "256 \<le> dval v" and "dval v \<le> dval u"
  shows "dval (vec_div_large u v (replicate (length u) 0)) = dval u div dval v \<and>
    dval (vec_rem_large u v (replicate (length u) 0)) = dval u mod dval v \<and>
    digits_ok (vec_div_large u v (replicate (length u) 0)) \<and> digits_ok (vec_rem_large u v (replicate (length u) 0))"
proof -
  obtain q r n where d: "div_large u v = (q, r, n)" by (cases "div_large u v") auto
  note v = div_large_value [OF assms d]
  have "0 < length u" using assms(3,4) by (cases u) simp_all
  note f = vec_from_char_value [OF v(3) this] vec_from_char_value [OF v(4) this]
  have l: "dval u < RADIX ^ length u" by (rule dval_less [OF assms(1)])
  have "dval u div dval v < RADIX ^ length u" "dval u mod dval v < RADIX ^ length u"
    using l by (simp_all add: le_less_trans [OF div_le_dividend] le_less_trans [OF mod_less_eq_dividend])
  then show ?thesis using f v(1,2) by (simp add: vec_div_large_def vec_rem_large_def d)
qed

end
