(* ===== verification/Nb_Sign.thy ===== *)
theory Nb_Sign
  imports Nb_Div
begin

text \<open>
  \<open>sc_nbutils.h\<close>: numbers as a sign and a vector of digits.  A number of \<open>nb\<close> bits is brought back into range by way of
  two's complement.  \<open>num_fits nb d\<close> says that a vector has the digits that \<open>nb\<close> bits need.
\<close>

section \<open>Signs\<close>

definition get_sign :: "64 word \<Rightarrow> int \<times> 64 word" where
  "get_sign u = (if sint u > 0 then (SC_POS, u) else if u = 0 then (SC_ZERO, u)
     else (SC_NEG, if sint u > - (2 ^ 63) then - u else u))"

definition mul_signs :: "int \<Rightarrow> int \<Rightarrow> int" where
  "mul_signs us vs = (if us = SC_ZERO \<or> vs = SC_ZERO then SC_ZERO else if us = vs then SC_POS else SC_NEG)"

definition check_for_zero :: "int \<Rightarrow> sc_digit list \<Rightarrow> int" where
  "check_for_zero s u = (if vec_find_first_nonzero u < 0 then SC_ZERO else s)"

definition is_zero :: "sc_digit list \<Rightarrow> bool" where
  "is_zero u \<longleftrightarrow> vec_find_first_nonzero u < 0"

definition make_zero :: "sc_digit list \<Rightarrow> int \<times> sc_digit list" where
  "make_zero d = (SC_ZERO, vec_zero 0 (length d) d)"

fun from_uint :: "sc_digit list \<Rightarrow> 64 word \<Rightarrow> sc_digit list" where
  "from_uint [] v = []"
| "from_uint (u # us) v =
     (if v \<noteq> 0 then ucast (v AND ucast DIGIT_MASK) # from_uint us (drop_bit BITS_PER_DIGIT v)
      else vec_zero 0 (length (u # us)) (u # us))"

section \<open>Sign-magnitude and two's complement\<close>

definition trim :: "nat \<Rightarrow> nat \<Rightarrow> sc_digit list \<Rightarrow> sc_digit list" where
  "trim added nb d = d[length d - 1 := d ! (length d - 1) AND one_and_ones (bit_ord (nb - 1) + added)]"

definition convert_SM_to_2C_trimmed :: "nat \<Rightarrow> int \<Rightarrow> nat \<Rightarrow> sc_digit list \<Rightarrow> sc_digit list" where
  "convert_SM_to_2C_trimmed added s nb d = (if s = SC_NEG then trim added nb (vec_complement d) else d)"

definition convert_SM_to_2C :: "int \<Rightarrow> sc_digit list \<Rightarrow> sc_digit list" where
  "convert_SM_to_2C s d = (if s = SC_NEG then vec_complement d else d)"

definition convert_signed_2C_to_SM :: "nat \<Rightarrow> sc_digit list \<Rightarrow> int \<times> sc_digit list" where
  "convert_signed_2C_to_SM nb d =
     (let nd = length d; xnb = bit_ord (nb - 1) + 1;
          (s, d) = (if d ! (nd - 1) AND one_and_zeros (xnb - 1) \<noteq> 0 then (SC_NEG, vec_complement d) else (SC_POS, d));
          d = d[nd - 1 := d ! (nd - 1) AND one_and_ones xnb]
      in (if s = SC_POS then check_for_zero s d else s, d))"

definition convert_signed_SM_to_2C_to_SM :: "int \<Rightarrow> nat \<Rightarrow> sc_digit list \<Rightarrow> int \<times> sc_digit list" where
  "convert_signed_SM_to_2C_to_SM s nb d = convert_signed_2C_to_SM nb (convert_SM_to_2C s d)"

definition trim_unsigned :: "nat \<Rightarrow> sc_digit list \<Rightarrow> sc_digit list" where
  "trim_unsigned nb d = d[length d - 1 := d ! (length d - 1) AND one_and_ones (bit_ord (nb - 1))]"

definition convert_unsigned_2C_to_SM :: "nat \<Rightarrow> sc_digit list \<Rightarrow> int \<times> sc_digit list" where
  "convert_unsigned_2C_to_SM nb d = (let d = trim_unsigned nb d in (check_for_zero SC_POS d, d))"

definition convert_unsigned_SM_to_2C_to_SM :: "int \<Rightarrow> nat \<Rightarrow> sc_digit list \<Rightarrow> int \<times> sc_digit list" where
  "convert_unsigned_SM_to_2C_to_SM s nb d = convert_unsigned_2C_to_SM nb (convert_SM_to_2C s d)"

text \<open>Copying a number over another: the sign and the digits of \<open>u\<close>, and the digits of \<open>v\<close>.\<close>

definition copy_digits_signed :: "int \<Rightarrow> nat \<Rightarrow> sc_digit list \<Rightarrow> nat \<Rightarrow> sc_digit list \<Rightarrow> int \<times> sc_digit list" where
  "copy_digits_signed us unb u vnb v =
     (if length u \<le> length v
      then let u = vec_copy (length u) u v in if unb \<le> vnb then convert_signed_SM_to_2C_to_SM us unb u else (us, u)
      else (us, vec_copy_and_zero u v))"

definition copy_digits_unsigned :: "int \<Rightarrow> nat \<Rightarrow> sc_digit list \<Rightarrow> nat \<Rightarrow> sc_digit list \<Rightarrow> int \<times> sc_digit list" where
  "copy_digits_unsigned us unb u vnb v =
     (let u = (if length u \<le> length v then vec_copy (length u) u v else vec_copy_and_zero u v)
      in convert_unsigned_SM_to_2C_to_SM us unb u)"

section \<open>The number of a sign and a vector\<close>

definition num_fits :: "nat \<Rightarrow> sc_digit list \<Rightarrow> bool" where
  "num_fits nb d \<longleftrightarrow> 0 < nb \<and> length d = nat (DIV_CEIL (int nb))"

lemma fits_length: "num_fits nb d \<longleftrightarrow> 0 < nb \<and> length d = (nb - 1) div 30 + 1"
proof (cases nb)
  case (Suc n)
  have "nat (DIV_CEIL (int nb)) = n div 30 + 1" unfolding Suc DIV_CEIL_def BITS_PER_DIGIT_def
    by (simp add: nat_add_distrib div_int_pos_iff flip: zdiv_int) 
  then show ?thesis by (simp add: num_fits_def Suc)
qed (simp add: num_fits_def)

lemma fits_bits:
  assumes "num_fits nb d"
  shows "nb - 1 = 30 * (length d - 1) + bit_ord (nb - 1)" and "bit_ord (nb - 1) < 30" and "d \<noteq> []" and "0 < nb" and "nb \<le> 30 * length d"
proof -
  have l: "0 < nb" "length d = (nb - 1) div 30 + 1" using assms by (simp_all add: fits_length)
  then show "0 < nb" "d \<noteq> []" by auto
  show "nb - 1 = 30 * (length d - 1) + bit_ord (nb - 1)" "bit_ord (nb - 1) < 30"
    by (simp_all add: l(2) bit_ord_def BITS_PER_DIGIT_def)
  show "nb \<le> 30 * length d" using l by linarith
qed

definition sign_ok :: "int \<Rightarrow> sc_digit list \<Rightarrow> bool" where
  "sign_ok s d \<longleftrightarrow> (s = -1 \<or> s = 0 \<or> s = 1) \<and> (s = 0 \<longleftrightarrow> dval d = 0)"

definition sign_pre :: "int \<Rightarrow> sc_digit list \<Rightarrow> bool" where
  "sign_pre s d \<longleftrightarrow> s = -1 \<or> s = 1 \<or> s = 0 \<and> dval d = 0"

definition sm_ok :: "int \<times> sc_digit list \<Rightarrow> nat \<Rightarrow> bool" where
  "sm_ok r n \<longleftrightarrow> sign_ok (fst r) (snd r) \<and> digits_ok (snd r) \<and> length (snd r) = n"

definition sm_val :: "int \<times> sc_digit list \<Rightarrow> int" where
  "sm_val r = fst r * int (dval (snd r))"

lemma sign_cases: "sign_ok s d \<Longrightarrow> (s = -1 \<Longrightarrow> 0 < dval d \<Longrightarrow> P) \<Longrightarrow> (s = 0 \<Longrightarrow> dval d = 0 \<Longrightarrow> P) \<Longrightarrow> (s = 1 \<Longrightarrow> 0 < dval d \<Longrightarrow> P) \<Longrightarrow> P"
  unfolding sign_ok_def by (metis gr0I zero_neq_neg_one zero_neq_one)

lemma first_nonzero: "vec_find_first_nonzero u < 0 \<longleftrightarrow> dval u = 0"
proof
  assume "vec_find_first_nonzero u < 0"
  then have "vec_skip_leading_zeros u = 0" by (simp add: vec_skip_leading_zeros_def)
  then show "dval u = 0" using skip_leading_zeros(2) [of u] by simp
next
  assume z: "dval u = 0"
  show "vec_find_first_nonzero u < 0"
  proof (rule ccontr)
    assume "\<not> ?thesis"
    then have pos: "0 < vec_skip_leading_zeros u" by (simp add: vec_skip_leading_zeros_def)
    let ?n = "vec_skip_leading_zeros u"
    have "?n - 1 < length u" "Suc (?n - 1) = ?n" using pos skip_leading_zeros(1) [of u] by simp_all
    then have "dval (take ?n u) = dval (take (?n - 1) u) + RADIX ^ (?n - 1) * unat (u ! (?n - 1))"
      using dval_take_Suc [of "?n - 1" u] by simp
    moreover have "0 < unat (u ! (?n - 1))" using skip_leading_zeros(3) [OF pos] by (simp add: unat_gt_0)
    then have "0 < RADIX ^ (?n - 1) * unat (u ! (?n - 1))" by (intro mult_pos_pos) simp_all
    ultimately show False using z skip_leading_zeros(2) [of u] by linarith
  qed
qed

text \<open>Cutting off the leading bits of the last digit.\<close>

lemma trim_value:
  assumes "digits_ok d" and "d \<noteq> []" and "k \<le> 30"
  defines "r \<equiv> d[length d - 1 := d ! (length d - 1) AND one_and_ones k]"
  shows "dval r = dval d mod 2 ^ (30 * (length d - 1) + k)" and "digits_ok r" and "length r = length d"
proof -
  obtain b t where d: "d = b @ [t]" using assms(2) by (cases d rule: rev_exhaust) auto
  have r: "r = b @ [t AND one_and_ones k]" by (simp add: r_def d)
  have b: "dval b < RADIX ^ length b" "digits_ok b" "unat t < RADIX" using assms(1) dval_less [of b] by (simp_all add: d)
  have "unat t mod 2 ^ k < RADIX" using b(3) by (rule le_less_trans [OF mod_less_eq_dividend])
  then show "digits_ok r" "length r = length d" using b(2) by (simp_all add: r d)
  have "dval d mod (RADIX ^ length b * 2 ^ k) = RADIX ^ length b * (dval d div RADIX ^ length b mod 2 ^ k) + dval d mod RADIX ^ length b"
    by (rule mod_mult2_eq)
  also have "dval d div RADIX ^ length b = unat t" using b(1) by (simp add: d dval_append)
  also have "dval d mod RADIX ^ length b = dval b" using b(1) by (simp add: d dval_append)
  finally show "dval r = dval d mod 2 ^ (30 * (length d - 1) + k)" by (simp add: r d dval_append RADIX_power power_add)
qed

lemma bit_of_digit: "k < 32 \<Longrightarrow> (w :: sc_digit) AND one_and_zeros k \<noteq> 0 \<longleftrightarrow> bit w k"
  by (simp add: one_and_zeros_def push_bit_eq_mult and_exp_eq_0_iff_not_bit)

lemma bit_dval:
  assumes "digits_ok d" and "n < length d" and "k < 30"
  shows "bit (dval d) (30 * n + k) \<longleftrightarrow> bit (d ! n) k"
proof -
  have "dval d div RADIX ^ n = unat (d ! n) + RADIX * dval (drop (Suc n) d)"
    using dval_div_power [OF assms(1), of n] assms(2) dval_drop_Cons [of n d] by simp
  moreover have "RADIX = 2 ^ Suc k * 2 ^ (29 - k)" unfolding RADIX_def using assms(3) by (simp flip: power_add power_Suc)
  ultimately have "dval d div 2 ^ (30 * n + k) = unat (d ! n) div 2 ^ k + 2 * (2 ^ (29 - k) * dval (drop (Suc n) d))"
  proof -
    assume q: "dval d div RADIX ^ n = unat (d ! n) + RADIX * dval (drop (Suc n) d)" and R: "RADIX = 2 ^ Suc k * 2 ^ (29 - k)"
    let ?m = "dval (drop (Suc n) d)"
    have e: "RADIX * ?m = 2 ^ k * (2 * (2 ^ (29 - k) * ?m))" unfolding R by (simp only: power_Suc ac_simps)
    show ?thesis unfolding power_add div_mult2_eq RADIX_power [symmetric] q e by (subst div_mult_self2) simp_all
  qed
  then have "odd (dval d div 2 ^ (30 * n + k)) \<longleftrightarrow> odd (unat (d ! n) div 2 ^ k)" by simp
  then have "bit (dval d) (30 * n + k) \<longleftrightarrow> bit (unat (d ! n)) k" by (simp add: bit_iff_odd)
  then show ?thesis by (simp add: bit_unsigned_iff)
qed


section \<open>Bringing a number into range\<close>

text \<open>A signed number of \<open>nb\<close> bits keeps these bits, the highest being its sign; an unsigned one, of which \<open>nb\<close> counts one
  bit more, keeps \<open>nb - 1\<close>.\<close>

definition wrap_signed :: "nat \<Rightarrow> int \<Rightarrow> int" where
  "wrap_signed nb x = signed_take_bit (nb - 1) x"

definition wrap_unsigned :: "nat \<Rightarrow> int \<Rightarrow> int" where
  "wrap_unsigned nb x = take_bit (nb - 1) x"

lemma signed_cong: "x mod 2 ^ nb = y mod 2 ^ nb \<Longrightarrow> 0 < nb \<Longrightarrow> wrap_signed nb x = wrap_signed nb y"
  by (simp add: wrap_signed_def signed_take_bit_eq_iff_take_bit_eq take_bit_eq_mod)

lemma unsigned_cong: "x mod 2 ^ nb = y mod 2 ^ nb \<Longrightarrow> 0 < nb \<Longrightarrow> wrap_unsigned nb x = wrap_unsigned nb y"
proof -
  assume "x mod 2 ^ nb = y mod 2 ^ nb" and "0 < nb"
  then have "take_bit (nb - 1) (take_bit nb x) = take_bit (nb - 1) (take_bit nb y)" by (simp add: take_bit_eq_mod)
  then show ?thesis by (simp add: wrap_unsigned_def)
qed

lemma radix_bits: "nb \<le> 30 * n \<Longrightarrow> (2 ^ nb :: int) dvd int RADIX ^ n"
proof -
  assume "nb \<le> 30 * n"
  then have "(2 ^ nb :: int) dvd 2 ^ (30 * n)" by (rule le_imp_power_dvd)
  also have "(2 :: int) ^ (30 * n) = int RADIX ^ n" by (simp add: RADIX_power flip: of_nat_power)
  finally show ?thesis .
qed

lemma check_sign: "sign_ok (check_for_zero 1 d) d" "check_for_zero 1 d * int (dval d) = int (dval d)"
  by (auto simp: check_for_zero_def sign_ok_def first_nonzero SC_ZERO_def)

lemma convert_signed_2C_value:
  assumes "digits_ok d" and "num_fits nb d"
  shows "sm_val (convert_signed_2C_to_SM nb d) = wrap_signed nb (int (dval d)) \<and> sm_ok (convert_signed_2C_to_SM nb d) (length d)"
proof -
  note f = fits_bits [OF assms(2)]
  let ?x = "bit_ord (nb - 1)" and ?X = "dval d"
  have nb: "30 * (length d - 1) + (?x + 1) = nb" using f(1,4) by simp
  have sign: "d ! (length d - 1) AND one_and_zeros (?x + 1 - 1) \<noteq> 0 \<longleftrightarrow> bit ?X (nb - 1)"
    using bit_of_digit [of ?x "d ! (length d - 1)"] bit_dval [OF assms(1) _ f(2), of "length d - 1"] f(2,3) nb f(1) by simp
  have tb: "int ?X mod 2 ^ nb = int (?X mod 2 ^ nb)" by (simp add: zmod_int)
  show ?thesis
  proof (cases "bit ?X (nb - 1)")
    case True
    define c where "c = vec_complement d"
    define r where "r = c[length c - 1 := c ! (length c - 1) AND one_and_ones (?x + 1)]"
    have c: "int (dval c) = (- int ?X) mod int RADIX ^ length d" "digits_ok c" "length c = length d"
      using vec_complement_value [OF assms(1)] by (simp_all add: c_def)
    have "?x + 1 \<le> 30" "c \<noteq> []" using f(2,3) c(3) by auto
    note t = trim_value [OF c(2) this(2,1), folded r_def, unfolded c(3) nb]
    have e: "convert_signed_2C_to_SM nb d = (-1, r)"
      using sign True c(3) by (simp add: convert_signed_2C_to_SM_def Let_def r_def c_def SC_NEG_def SC_POS_def)
    have "int (dval r) = int (dval c) mod 2 ^ nb" using t(1) by (simp add: zmod_int)
    also have "\<dots> = (- int ?X) mod 2 ^ nb" unfolding c(1) by (rule mod_mod_cancel [OF radix_bits [OF f(5)]])
    finally have r: "int (dval r) = (- int ?X) mod 2 ^ nb" .
    have "bit (int ?X) (nb - 1)" using True by (simp add: bit_of_nat_iff_bit)
    then have w: "wrap_signed nb (int ?X) = int ?X mod 2 ^ nb - 2 ^ nb"
      using f(4) by (simp add: wrap_signed_def signed_take_bit_eq_take_bit_minus take_bit_eq_mod)
    have "int ?X mod 2 ^ nb \<noteq> 0"
    proof
      assume "int ?X mod 2 ^ nb = 0"
      then have "take_bit nb (int ?X) = 0" by (simp add: take_bit_eq_mod)
      then have "\<not> bit (take_bit nb (int ?X)) (nb - 1)" by simp
      then show False using \<open>bit (int ?X) (nb - 1)\<close> f(4) by (simp add: bit_take_bit_iff)
    qed
    then have "(- int ?X) mod 2 ^ nb = 2 ^ nb - int ?X mod 2 ^ nb" by (simp add: zmod_zminus1_eq_if)
    moreover have "int ?X mod 2 ^ nb < 2 ^ nb" by simp
    ultimately have "0 < int (dval r)" unfolding r by linarith
    then have "dval r \<noteq> 0" by simp
    with \<open>(- int ?X) mod 2 ^ nb = 2 ^ nb - int ?X mod 2 ^ nb\<close> show ?thesis using w r t(2,3) by (simp add: e sm_val_def sm_ok_def sign_ok_def)
  next
    case False
    define r where "r = d[length d - 1 := d ! (length d - 1) AND one_and_ones (?x + 1)]"
    have "?x + 1 \<le> 30" using f(2) by simp
    note t = trim_value [OF assms(1) f(3) this, folded r_def, unfolded nb]
    have e: "convert_signed_2C_to_SM nb d = (check_for_zero 1 r, r)"
      using sign False by (simp add: convert_signed_2C_to_SM_def Let_def r_def SC_POS_def)
    have "\<not> bit (int ?X) (nb - 1)" using False by (simp add: bit_of_nat_iff_bit)
    then have "wrap_signed nb (int ?X) = int ?X mod 2 ^ nb"
      using f(4) by (simp add: wrap_signed_def signed_take_bit_eq_take_bit_minus take_bit_eq_mod)
    then show ?thesis using t tb check_sign [of r] by (simp add: e sm_val_def sm_ok_def)
  qed
qed

lemma convert_unsigned_2C_value:
  assumes "digits_ok d" and "num_fits nb d"
  shows "sm_val (convert_unsigned_2C_to_SM nb d) = wrap_unsigned nb (int (dval d)) \<and> sm_ok (convert_unsigned_2C_to_SM nb d) (length d)"
proof -
  note f = fits_bits [OF assms(2)]
  note t = trim_value [OF assms(1) f(3), of "bit_ord (nb - 1)", folded trim_unsigned_def f(1)]
  show ?thesis
    using t f(2) check_sign [of "trim_unsigned nb d"]
    by (simp add: convert_unsigned_2C_to_SM_def Let_def sm_val_def sm_ok_def SC_POS_def wrap_unsigned_def take_bit_eq_mod zmod_int)
qed

lemma SM_to_2C_value:
  assumes "digits_ok d" and "sign_pre s d"
  shows "int (dval (convert_SM_to_2C s d)) = (s * int (dval d)) mod int RADIX ^ length d" and "digits_ok (convert_SM_to_2C s d)"
    and "length (convert_SM_to_2C s d) = length d"
proof -
  note c = vec_complement_value [OF assms(1)]
  have "dval d < RADIX ^ length d" by (rule dval_less [OF assms(1)])
  then have m: "int (dval d) mod int RADIX ^ length d = int (dval d)" by (simp flip: of_nat_power)
  show "int (dval (convert_SM_to_2C s d)) = (s * int (dval d)) mod int RADIX ^ length d"
    using assms(2) c(1) m by (auto simp: sign_pre_def convert_SM_to_2C_def SC_NEG_def)
  show "digits_ok (convert_SM_to_2C s d)" "length (convert_SM_to_2C s d) = length d"
    using c(2,3) assms(1) by (simp_all add: convert_SM_to_2C_def)
qed

lemma SM_mod: "num_fits nb d \<Longrightarrow> (x mod int RADIX ^ length d) mod 2 ^ nb = x mod (2 ^ nb :: int)"
  by (rule mod_mod_cancel [OF radix_bits]) (rule fits_bits(5))

lemma fits_same: "num_fits nb d \<Longrightarrow> length d' = length d \<Longrightarrow> num_fits nb d'"
  by (simp add: num_fits_def)

lemma convert_signed_SM_value:
  assumes "digits_ok d" and "num_fits nb d" and "sign_pre s d"
  shows "sm_val (convert_signed_SM_to_2C_to_SM s nb d) = wrap_signed nb (s * int (dval d)) \<and>
    sm_ok (convert_signed_SM_to_2C_to_SM s nb d) (length d)"
proof -
  note c = SM_to_2C_value [OF assms(1,3)]
  note v = convert_signed_2C_value [OF c(2) fits_same [OF assms(2) c(3)]]
  have "wrap_signed nb (int (dval (convert_SM_to_2C s d))) = wrap_signed nb (s * int (dval d))"
    unfolding c(1) by (rule signed_cong) (simp_all add: SM_mod [OF assms(2)] fits_bits(4) [OF assms(2)])
  then show ?thesis using v c(3) by (simp add: convert_signed_SM_to_2C_to_SM_def)
qed

lemma convert_unsigned_SM_value:
  assumes "digits_ok d" and "num_fits nb d" and "sign_pre s d"
  shows "sm_val (convert_unsigned_SM_to_2C_to_SM s nb d) = wrap_unsigned nb (s * int (dval d)) \<and>
    sm_ok (convert_unsigned_SM_to_2C_to_SM s nb d) (length d)"
proof -
  note c = SM_to_2C_value [OF assms(1,3)]
  note v = convert_unsigned_2C_value [OF c(2) fits_same [OF assms(2) c(3)]]
  have "wrap_unsigned nb (int (dval (convert_SM_to_2C s d))) = wrap_unsigned nb (s * int (dval d))"
    unfolding c(1) by (rule unsigned_cong) (simp_all add: SM_mod [OF assms(2)] fits_bits(4) [OF assms(2)])
  then show ?thesis using v c(3) by (simp add: convert_unsigned_SM_to_2C_to_SM_def)
qed


section \<open>Copying\<close>

lemma vec_zero_eq [simp]: "vec_zero 0 (length u) u = replicate (length u) 0"
  using fold_set [of "\<lambda>_. 0" 0 "length u" u] by (intro nth_equalityI) (simp_all add: vec_zero_def)

lemma vec_copy_eq:
  assumes "n \<le> length u"
  shows "vec_copy n u v = map ((!) v) [0..<n] @ drop n u"
  using fold_set [of "(!) v" 0 n u] assms by (intro nth_equalityI) (auto simp: vec_copy_def nth_append)

lemma vec_copy_take: "length u \<le> length v \<Longrightarrow> vec_copy (length u) u v = take (length u) v"
  by (rule nth_equalityI) (simp_all add: vec_copy_eq)

lemma vec_copy_and_zero_eq:
  assumes "length v \<le> length u"
  shows "vec_copy_and_zero u v = v @ replicate (length u - length v) 0"
proof -
  have c: "vec_copy (length v) u v = v @ drop (length v) u" using assms by (simp add: vec_copy_eq map_nth)
  have "\<forall>j < length u. vec_copy_and_zero u v ! j = (if length v \<le> j then 0 else v ! j)"
    using fold_set [of "\<lambda>_. 0" "length v" "length u" "v @ drop (length v) u"] assms
    by (auto simp: vec_copy_and_zero_def c vec_zero_def nth_append)
  moreover have "length (vec_copy_and_zero u v) = length u"
    using fold_set [of "\<lambda>_. 0" "length v" "length u" "v @ drop (length v) u"] assms
    by (simp add: vec_copy_and_zero_def c vec_zero_def)
  ultimately show ?thesis using assms by (intro nth_equalityI) (auto simp: nth_append)
qed

lemma dval_truncated:
  assumes "digits_ok v"
  shows "dval (take n v) = dval v mod RADIX ^ n"
proof (cases "n \<le> length v")
  case True
  have "dval v = dval (take n v) + RADIX ^ n * dval (drop n v)" by (rule dval_take_drop [OF refl True])
  then show ?thesis using dval_take_less [OF assms True] by simp
next
  case False
  have "dval v < RADIX ^ length v" by (rule dval_less [OF assms])
  also have "\<dots> \<le> RADIX ^ n" using False by (intro power_increasing) (simp_all add: RADIX_nat)
  finally show ?thesis using False by simp
qed

lemma copied:
  assumes "digits_ok v" and "c = (if length u \<le> length v then vec_copy (length u) u v else vec_copy_and_zero u v)"
  shows "dval c = dval v mod RADIX ^ length u" and "digits_ok c" and "length c = length u"
proof -
  have "dval c = dval v mod RADIX ^ length u \<and> digits_ok c \<and> length c = length u"
  proof (cases "length u \<le> length v")
    case True
    then show ?thesis using digits_ok_parts(1) [OF assms(1)] by (simp add: assms(2) vec_copy_take dval_truncated [OF assms(1)])
  next
    case False
    have "dval v < RADIX ^ length v" by (rule dval_less [OF assms(1)])
    also have "\<dots> \<le> RADIX ^ length u" using False by (intro power_increasing) (simp_all add: RADIX_nat)
    finally show ?thesis using False assms(1) by (simp add: assms(2) vec_copy_and_zero_eq dval_append)
  qed
  then show "dval c = dval v mod RADIX ^ length u" "digits_ok c" "length c = length u" by simp_all
qed

lemma mult_mod_radix: "num_fits nb u \<Longrightarrow> (s * int (n mod RADIX ^ length u)) mod 2 ^ nb = (s * int n) mod (2 ^ nb :: int)"
proof -
  assume f: "num_fits nb u"
  have "(s * int (n mod RADIX ^ length u)) mod 2 ^ nb = ((s * (int n mod int RADIX ^ length u)) mod int RADIX ^ length u) mod 2 ^ nb"
    by (simp add: SM_mod [OF f] zmod_int)
  also have "\<dots> = (s * int n) mod 2 ^ nb" by (simp only: mod_mult_right_eq SM_mod [OF f])
  finally show ?thesis .
qed

lemma wrap_signed_id: "0 < nb \<Longrightarrow> - (2 ^ (nb - 1)) \<le> x \<Longrightarrow> x < 2 ^ (nb - 1) \<Longrightarrow> wrap_signed nb x = x"
  by (simp add: wrap_signed_def signed_take_bit_int_eq_self)

lemma sign_small: "sign_pre s d \<Longrightarrow> dval d < n \<Longrightarrow> - int n < s * int (dval d) \<and> s * int (dval d) < int n"
  by (auto simp: sign_pre_def)

lemma fits_below: "num_fits nb d \<Longrightarrow> k < length d \<Longrightarrow> RADIX ^ k \<le> 2 ^ (nb - 1)"
  unfolding RADIX_power by (rule power_increasing) (use fits_bits(1) [of nb d] in simp_all)

lemma fits_above: "num_fits nb d \<Longrightarrow> 2 ^ (nb - 1) < RADIX ^ length d"
proof -
  assume f: "num_fits nb d"
  have "nb - 1 < 30 * length d" using fits_bits(4,5) [OF f] by linarith
  then show ?thesis unfolding RADIX_power by (rule power_strict_increasing) simp
qed

lemma sign_pre_copy: "sign_pre s v \<Longrightarrow> dval c = dval v mod m \<Longrightarrow> sign_pre s c"
  by (auto simp: sign_pre_def)

lemma copy_digits_signed_value:
  assumes "digits_ok v" and "num_fits unb u" and "sign_ok us v" and "vnb < unb \<Longrightarrow> dval v < 2 ^ (unb - 1)"
  shows "sm_val (copy_digits_signed us unb u vnb v) = wrap_signed unb (us * int (dval v)) \<and>
    sm_ok (copy_digits_signed us unb u vnb v) (length u)"
proof -
  define c where "c = (if length u \<le> length v then vec_copy (length u) u v else vec_copy_and_zero u v)"
  note c = copied [OF assms(1) c_def]
  have pre: "sign_pre us v" using assms(3) by (auto simp: sign_ok_def sign_pre_def)
  show ?thesis
  proof (cases "length u \<le> length v \<and> unb \<le> vnb")
    case True
    then have e: "copy_digits_signed us unb u vnb v = convert_signed_SM_to_2C_to_SM us unb c"
      by (simp add: copy_digits_signed_def c_def Let_def)
    have "wrap_signed unb (us * int (dval c)) = wrap_signed unb (us * int (dval v))"
      unfolding c(1) by (rule signed_cong) (simp_all add: mult_mod_radix [OF assms(2)] fits_bits(4) [OF assms(2)])
    then show ?thesis
      using convert_signed_SM_value [OF c(2) fits_same [OF assms(2) c(3)] sign_pre_copy [OF pre c(1)]] unfolding e c(3) by simp
  next
    case False
    then have e: "copy_digits_signed us unb u vnb v = (us, c)" by (auto simp: copy_digits_signed_def c_def Let_def)
    have small: "dval v < 2 ^ (unb - 1)"
    proof (cases "vnb < unb")
      case True
      then show ?thesis by (rule assms(4))
    next
      case False
      then have "length v < length u" using \<open>\<not> (length u \<le> length v \<and> unb \<le> vnb)\<close> by simp
      then show ?thesis using dval_less [OF assms(1)] fits_below [OF assms(2)] by (metis less_le_trans)
    qed
    then have "dval c = dval v" unfolding c(1) using fits_above [OF assms(2)] by simp
    moreover have "wrap_signed unb (us * int (dval v)) = us * int (dval v)"
      using sign_small [OF pre small] fits_bits(4) [OF assms(2)] by (intro wrap_signed_id) simp_all
    ultimately show ?thesis using c(2,3) assms(3) by (auto simp: e sm_val_def sm_ok_def sign_ok_def)
  qed
qed

lemma copy_digits_unsigned_value:
  assumes "digits_ok v" and "num_fits unb u" and "sign_ok us v"
  shows "sm_val (copy_digits_unsigned us unb u vnb v) = wrap_unsigned unb (us * int (dval v)) \<and>
    sm_ok (copy_digits_unsigned us unb u vnb v) (length u)"
proof -
  define c where "c = (if length u \<le> length v then vec_copy (length u) u v else vec_copy_and_zero u v)"
  note c = copied [OF assms(1) c_def]
  have pre: "sign_pre us c" using assms(3) by (intro sign_pre_copy [OF _ c(1)]) (auto simp: sign_ok_def sign_pre_def)
  have "wrap_unsigned unb (us * int (dval c)) = wrap_unsigned unb (us * int (dval v))"
    unfolding c(1) by (rule unsigned_cong) (simp_all add: mult_mod_radix [OF assms(2)] fits_bits(4) [OF assms(2)])
  then show ?thesis
    using convert_unsigned_SM_value [OF c(2) fits_same [OF assms(2) c(3)] pre] c(3)
    by (simp add: copy_digits_unsigned_def Let_def c_def)
qed

end
