(* ===== verification/Nb_Help.thy ===== *)
theory Nb_Help
  imports Nb_Sign
begin

text \<open>
  \<open>sc_nbexterns.cpp\<close>: the arithmetic of a number \<open>u\<close> and a number \<open>v\<close>, each a sign and a vector, whose result replaces
  \<open>u\<close>.  The functions for signed and for unsigned numbers have one body and differ in two macros, which are
  parameters of the definitions here.  The locale \<open>number_kind\<close> states what the macros promise; the functions are
  proved once for both.
\<close>

definition HALF_DIGIT_RADIX :: sc_digit where
  "HALF_DIGIT_RADIX = 0x8000"

definition add_on_help :: "int \<Rightarrow> sc_digit list \<Rightarrow> int \<Rightarrow> sc_digit list \<Rightarrow> int \<times> sc_digit list" where
  "add_on_help us ud vs vd =
     (let v = take (vec_skip_leading_zeros vd) vd in
      if us = vs then (us, if length ud \<ge> length v then vec_add_on ud v else vec_add_on2 ud v)
      else let cmp_res = vec_cmp (vec_skip_leading_zeros ud) ud (length v) v in
        if cmp_res = 0 then (SC_ZERO, vec_zero 0 (length ud) ud)
        else if cmp_res > 0 then (us, vec_sub_on ud v) else (- us, vec_sub_on2 ud v))"

type_synonym convert_macro = "int \<Rightarrow> nat \<Rightarrow> sc_digit list \<Rightarrow> int \<times> sc_digit list"
type_synonym copy_macro = "int \<Rightarrow> nat \<Rightarrow> sc_digit list \<Rightarrow> nat \<Rightarrow> sc_digit list \<Rightarrow> int \<times> sc_digit list"

text \<open>The product of two vectors without leading zeros, in a new vector.\<close>

definition mul_digits :: "sc_digit list \<Rightarrow> sc_digit list \<Rightarrow> sc_digit list" where
  "mul_digits u v =
     (let und = length u; vnd = length v; d = replicate (und + vnd) 0 in
      if und = 1 \<and> u ! 0 < HALF_DIGIT_RADIX then vec_mul_small v (u ! 0) d
      else if vnd = 1 \<and> v ! 0 < HALF_DIGIT_RADIX then vec_mul_small u (v ! 0) d
      else if vnd < und then vec_mul u v d else vec_mul v u d)"

definition mul_on_help :: "convert_macro \<Rightarrow> copy_macro \<Rightarrow> int \<Rightarrow> nat \<Rightarrow> sc_digit list \<Rightarrow> nat \<Rightarrow> sc_digit list \<Rightarrow> int \<times> sc_digit list" where
  "mul_on_help CONVERT_SM_to_2C_to_SM COPY_DIGITS us unb ud vnb vd =
     (let und = vec_skip_leading_zeros ud; vnd = vec_skip_leading_zeros vd; ud0 = ud ! 0; vd0 = vd ! 0 in
      if vnd = 1 \<and> vd0 = 1 then CONVERT_SM_to_2C_to_SM us unb ud
      else if und = 1 \<and> ud0 = 1 then COPY_DIGITS us unb ud vnb (take vnd vd)
      else if und = 1 \<and> vnd = 1 \<and> ud0 < HALF_DIGIT_RADIX \<and> vd0 < HALF_DIGIT_RADIX
      then COPY_DIGITS us unb ud (unb + vnb) [ud0 * vd0]
      else COPY_DIGITS us unb ud (unb + vnb) (mul_digits (take und ud) (take vnd vd)))"

text \<open>The quotient and the remainder of two vectors without leading zeros, of which the first is not smaller, in a new
  vector of one digit more than the longer one.\<close>

definition div_digits :: "int \<Rightarrow> sc_digit list \<Rightarrow> sc_digit list \<Rightarrow> sc_digit list" where
  "div_digits cmp_res u v =
     (let und = length u; vnd = length v; nd = max und vnd + 1; d = replicate nd 0 in
      if cmp_res = 0 then d[0 := 1]
      else if vnd = 1 \<and> und = 1 then d[0 := u ! 0 div v ! 0]
      else if vnd = 1 \<and> v ! 0 < HALF_DIGIT_RADIX then vec_div_small u (v ! 0) d
      else vec_div_large u v d)"

definition rem_digits :: "sc_digit list \<Rightarrow> sc_digit list \<Rightarrow> sc_digit list" where
  "rem_digits u v =
     (let und = length u; vnd = length v; nd = max und vnd + 1; d = replicate nd 0;
          d = (if vnd = 1 \<and> und = 1 then d[0 := u ! 0 mod v ! 0] else d)
      in if vnd = 1 \<and> v ! 0 < HALF_DIGIT_RADIX then d[0 := vec_rem_small u (v ! 0)] else vec_rem_large u v d)"

definition div_on_help :: "convert_macro \<Rightarrow> copy_macro \<Rightarrow> int \<Rightarrow> nat \<Rightarrow> sc_digit list \<Rightarrow> nat \<Rightarrow> sc_digit list \<Rightarrow> int \<times> sc_digit list" where
  "div_on_help CONVERT_SM_to_2C_to_SM COPY_DIGITS us unb ud vnb vd =
     (let und = vec_skip_leading_zeros ud; vnd = vec_skip_leading_zeros vd; cmp_res = vec_cmp und ud vnd vd; vd0 = vd ! 0 in
      if cmp_res < 0 then (SC_ZERO, vec_zero 0 (length ud) ud)
      else if cmp_res > 0 \<and> vnd = 1 \<and> vd0 = 1 then CONVERT_SM_to_2C_to_SM us unb ud
      else let d = div_digits cmp_res (take und ud) (take vnd vd) in COPY_DIGITS us unb ud (max unb vnb) (butlast d))"

definition mod_on_help :: "copy_macro \<Rightarrow> int \<Rightarrow> nat \<Rightarrow> sc_digit list \<Rightarrow> sc_digit list \<Rightarrow> int \<times> sc_digit list" where
  "mod_on_help COPY_DIGITS us unb ud vd =
     (let und = vec_skip_leading_zeros ud; vnd = vec_skip_leading_zeros vd; cmp_res = vec_cmp und ud vnd vd; vd0 = vd ! 0 in
      if cmp_res < 0 then (us, ud)
      else if cmp_res = 0 then (SC_ZERO, vec_zero 0 (length ud) ud)
      else if vnd = 1 \<and> vd0 = 1 then (SC_ZERO, vec_zero 0 (length ud) ud)
      else let d = rem_digits (take und ud) (take vnd vd); us = check_for_zero us (butlast d)
           in if us = SC_ZERO then (us, vec_zero 0 (length ud) ud) else COPY_DIGITS us unb ud (min unb vnd) (butlast d))"

definition mul_on_help_signed :: "int \<Rightarrow> nat \<Rightarrow> sc_digit list \<Rightarrow> nat \<Rightarrow> sc_digit list \<Rightarrow> int \<times> sc_digit list" where
  "mul_on_help_signed = mul_on_help convert_signed_SM_to_2C_to_SM copy_digits_signed"

definition mul_on_help_unsigned :: "int \<Rightarrow> nat \<Rightarrow> sc_digit list \<Rightarrow> nat \<Rightarrow> sc_digit list \<Rightarrow> int \<times> sc_digit list" where
  "mul_on_help_unsigned = mul_on_help convert_unsigned_SM_to_2C_to_SM copy_digits_unsigned"

definition div_on_help_signed :: "int \<Rightarrow> nat \<Rightarrow> sc_digit list \<Rightarrow> nat \<Rightarrow> sc_digit list \<Rightarrow> int \<times> sc_digit list" where
  "div_on_help_signed = div_on_help convert_signed_SM_to_2C_to_SM copy_digits_signed"

definition div_on_help_unsigned :: "int \<Rightarrow> nat \<Rightarrow> sc_digit list \<Rightarrow> nat \<Rightarrow> sc_digit list \<Rightarrow> int \<times> sc_digit list" where
  "div_on_help_unsigned = div_on_help convert_unsigned_SM_to_2C_to_SM copy_digits_unsigned"

definition mod_on_help_signed :: "int \<Rightarrow> nat \<Rightarrow> sc_digit list \<Rightarrow> sc_digit list \<Rightarrow> int \<times> sc_digit list" where
  "mod_on_help_signed = mod_on_help copy_digits_signed"

definition mod_on_help_unsigned :: "int \<Rightarrow> nat \<Rightarrow> sc_digit list \<Rightarrow> sc_digit list \<Rightarrow> int \<times> sc_digit list" where
  "mod_on_help_unsigned = mod_on_help copy_digits_unsigned"

section \<open>Leading zeros\<close>

lemma vec_cmp_sign:
  assumes "digits_ok u" and "digits_ok v"
  shows "vec_cmp (vec_skip_leading_zeros u) u (vec_skip_leading_zeros v) v > 0 \<longleftrightarrow> dval v < dval u"
    and "vec_cmp (vec_skip_leading_zeros u) u (vec_skip_leading_zeros v) v = 0 \<longleftrightarrow> dval u = dval v"
    and "vec_cmp (vec_skip_leading_zeros u) u (vec_skip_leading_zeros v) v < 0 \<longleftrightarrow> dval u < dval v"
  using vec_skip_and_cmp_sign [OF assms] unfolding vec_skip_and_cmp_def
  by (auto simp: sgn_if split: if_splits)

lemma skipped:
  assumes "digits_ok d" and "0 < dval d"
  defines "n \<equiv> vec_skip_leading_zeros d"
  shows "dval (take n d) = dval d" and "digits_ok (take n d)" and "0 < n" and "n \<le> length d" and "length (take n d) = n"
    and "take n d ! 0 = d ! 0" and "RADIX ^ (n - 1) \<le> dval d" and "n = 1 \<Longrightarrow> dval d = unat (d ! 0)"
proof -
  note s = skip_leading_zeros [of d, folded n_def]
  show v: "dval (take n d) = dval d" "n \<le> length d" by (rule s(2), rule s(1))
  show "digits_ok (take n d)" by (rule digits_ok_parts(1) [OF assms(1)])
  show pos: "0 < n" using v(1) assms(2) by (cases n) simp_all
  show l: "length (take n d) = n" using v(2) by simp
  show "take n d ! 0 = d ! 0" using pos by simp
  obtain m where m: "n = Suc m" using pos by (cases n) auto
  have t: "dval (take (Suc m) d) = dval (take m d) + RADIX ^ m * unat (d ! m)" using v(2) m by (intro dval_take_Suc) simp
  have "1 \<le> unat (d ! m)" using s(3) [OF pos] m by (simp add: Suc_le_eq unat_gt_0)
  then have "RADIX ^ m * 1 \<le> RADIX ^ m * unat (d ! m)" by (rule mult_le_mono2)
  then show "RADIX ^ (n - 1) \<le> dval d" using t v(1) unfolding m diff_Suc_1 by linarith
  show "dval d = unat (d ! 0)" if "n = 1" using t v(1) m that by simp
qed

lemma half_radix: "x < HALF_DIGIT_RADIX \<longleftrightarrow> unat x < HALF"
  by (simp add: HALF_DIGIT_RADIX_def word_less_nat_alt HALF_def)

lemma skip_one:
  assumes "digits_ok d" and "vec_skip_leading_zeros d \<noteq> 1 \<or> \<not> d ! 0 < HALF_DIGIT_RADIX" and "0 < dval d"
  shows "HALF \<le> dval d"
proof (cases "vec_skip_leading_zeros d = 1")
  case True
  then show ?thesis using assms skipped(8) [OF assms(1,3)] by (simp add: half_radix)
next
  case False
  then have "2 \<le> vec_skip_leading_zeros d" using skipped(3) [OF assms(1,3)] by simp
  then have "RADIX ^ 1 \<le> RADIX ^ (vec_skip_leading_zeros d - 1)" by (intro power_increasing) (simp_all add: RADIX_nat)
  then show ?thesis using skipped(7) [OF assms(1,3)] by (simp add: HALF_nat RADIX_nat)
qed

section \<open>Sums\<close>

lemma add_on_help_value:
  assumes "digits_ok ud" and "digits_ok vd" and "sign_ok us ud" and "sign_ok vs vd" and "us \<noteq> 0" and "vs \<noteq> 0"
    and "add_on_help us ud vs vd = (s, d)"
  shows "(s * int (dval d)) mod int RADIX ^ length ud = (us * int (dval ud) + vs * int (dval vd)) mod int RADIX ^ length ud"
    and "digits_ok d" and "length d = length ud" and "sign_pre s d"
proof -
  let ?M = "int RADIX ^ length ud"
  have pos: "0 < dval ud" "0 < dval vd" using assms(3-6) by (auto simp: sign_ok_def)
  define v where "v = take (vec_skip_leading_zeros vd) vd"
  note k = skipped [OF assms(2) pos(2), folded v_def]
  have cmp: "vec_cmp (vec_skip_leading_zeros ud) ud (length v) v = vec_cmp (vec_skip_leading_zeros ud) ud (vec_skip_leading_zeros vd) vd"
  proof -
    have "cmp_from n ud v = cmp_from n ud vd" if "n \<le> length v" for n
      using that by (induction n) (simp_all add: v_def)
    then show ?thesis using k(5) by (simp add: vec_cmp_def)
  qed
  note cs = vec_cmp_sign [OF assms(1,2), folded cmp]
  note def = assms(7) [symmetric, unfolded add_on_help_def Let_def, folded v_def]
  have unit: "us = 1 \<or> us = -1" "vs = 1 \<or> vs = -1" using assms(3-6) by (auto simp: sign_ok_def)
  have m: "(us * (n mod ?M)) mod ?M = (us * n) mod ?M" "(- us * (n mod ?M)) mod ?M = (- us * n) mod ?M" for n
    by (simp_all only: mod_mult_right_eq)
  have imod: "int (n mod RADIX ^ length ud) = int n mod ?M" for n by (simp add: zmod_int)
  have "(s * int (dval d)) mod ?M = (us * int (dval ud) + vs * int (dval vd)) mod ?M \<and> digits_ok d \<and> length d = length ud \<and> sign_pre s d"
  proof (cases "us = vs")
    case True
    then have r: "s = us" "d = (if length v \<le> length ud then vec_add_on ud v else vec_add_on2 ud v)"
      using def by simp_all
    have "dval d = (dval ud + dval v) mod RADIX ^ length ud \<and> digits_ok d \<and> length d = length ud"
      using vec_add_on_value [OF assms(1) k(2)] vec_add_on2_value [OF assms(1) k(2)] r(2) by simp
    then show ?thesis using unit True k(1) m(1) by (auto simp: r(1) imod distrib_left sign_pre_def)
  next
    case False
    then have vs: "vs = - us" using unit by auto
    let ?c = "vec_cmp (vec_skip_leading_zeros ud) ud (length v) v"
    have r: "(s, d) = (if ?c = 0 then (SC_ZERO, vec_zero 0 (length ud) ud) else if ?c > 0 then (us, vec_sub_on ud v) else (- us, vec_sub_on2 ud v))"
      using def False by simp
    consider "?c = 0" | "?c > 0" | "?c < 0" by linarith
    then show ?thesis
    proof cases
      case 1
      then have "s = 0" "d = replicate (length ud) 0" using r by (simp_all add: SC_ZERO_def)
      moreover have "dval ud = dval vd" using 1 cs(2) by simp
      ultimately show ?thesis by (simp add: vs sign_pre_def)
    next
      case 2
      then have "dval vd < dval ud" using cs(1) by simp
      then have "RADIX ^ (length v - 1) < RADIX ^ length ud" using k(7) dval_less [OF assms(1)] unfolding k(5) by linarith
      then have "length v - 1 < length ud" by (rule power_less_imp_less_exp [rotated]) (simp add: RADIX_nat)
      then have "length v \<le> length ud" by simp
      note sub = vec_sub_value(5-) [OF assms(1) k(2) this]
      have "s = us" "d = vec_sub_on ud v" using r 2 by simp_all
      then show ?thesis using sub unit m(1) k(1) by (auto simp: vs right_diff_distrib sign_pre_def)
    next
      case 3
      then have less: "dval ud < dval vd" using cs(3) by simp
      have r3: "s = - us" "d = vec_sub_on2 ud v" using r 3 by simp_all
      have "int (dval d) = (int (dval v) - int (dval ud)) mod ?M \<and> digits_ok d \<and> length d = length ud"
      proof (cases "length ud \<le> length v")
        case True
        then show ?thesis using vec_sub_on2_value [OF assms(1) k(2)] r3(2) by simp
      next
        case False
        then have n: "length v \<le> length ud" "min (length ud) (length v) = length v" by simp_all
        let ?u = "take (length v) ud"
        have split: "dval ud = dval ?u + RADIX ^ length v * dval (drop (length v) ud)" by (rule dval_take_drop [OF refl n(1)])
        have "dval (drop (length v) ud) = 0"
        proof (rule ccontr)
          assume "dval (drop (length v) ud) \<noteq> 0"
          then have "RADIX ^ length v * 1 \<le> RADIX ^ length v * dval (drop (length v) ud)" by (intro mult_le_mono2) simp
          then show False using split less dval_less [OF k(2)] k(1) by linarith
        qed
        with split have z: "dval ?u = dval ud" "dval (drop (length v) ud) = 0" by simp_all
        have lu: "length ?u = length v" using n(1) by simp
        note sub = vec_sub_on2_value [OF digits_ok_parts(1) [OF assms(1)] k(2), of "length v", unfolded lu, OF order_refl]
        have e: "d = vec_sub_on2 ?u v @ drop (length v) ud"
          using n by (simp add: r3(2) vec_sub_on2_def Let_def min_absorb2 split: prod.splits)
        have "int (dval d) = (int (dval v) - int (dval ud)) mod int RADIX ^ length v"
          using sub z by (simp add: e dval_append)
        moreover have "0 \<le> int (dval v) - int (dval ud)" "int (dval v) - int (dval ud) < int RADIX ^ length v"
          using less dval_less [OF k(2)] k(1) by (simp_all flip: of_nat_power) 
        moreover have "int RADIX ^ length v \<le> ?M" using n(1) by (intro power_increasing) (simp_all add: RADIX_nat)
        ultimately show ?thesis using sub(2,3) digits_ok_parts(2) [OF assms(1)] n(1) by (simp add: e)
      qed
      then show ?thesis using unit m(2) k(1) by (auto simp: r3(1) vs right_diff_distrib sign_pre_def)
    qed
  qed
  then show "(s * int (dval d)) mod ?M = (us * int (dval ud) + vs * int (dval vd)) mod ?M" "digits_ok d" "length d = length ud" "sign_pre s d"
    by simp_all
qed

section \<open>Products, quotients and remainders\<close>

lemma mul_digits_value:
  assumes "digits_ok u" and "digits_ok v" and "u \<noteq> []" and "v \<noteq> []"
  shows "dval (mul_digits u v) = dval u * dval v" and "digits_ok (mul_digits u v)"
proof -
  have one: "dval w = unat (w ! 0)" if "length w = 1" for w using that by (cases w) simp_all
  have l: "0 < length u" "0 < length v" using assms(3,4) by simp_all
  consider (u) "length u = 1" "unat (u ! 0) < HALF" | (v) "length v = 1" "unat (v ! 0) < HALF" "\<not> (length u = 1 \<and> unat (u ! 0) < HALF)"
    | (large) "\<not> (length u = 1 \<and> unat (u ! 0) < HALF)" "\<not> (length v = 1 \<and> unat (v ! 0) < HALF)" by blast
  then have "dval (mul_digits u v) = dval u * dval v \<and> digits_ok (mul_digits u v)"
  proof cases
    case u
    have "length v < length (replicate (length u + length v) (0 :: sc_digit))" using u(1) by simp
    note val = vec_mul_small_value [OF assms(2) u(2) this]
    have "mul_digits u v = vec_mul_small v (u ! 0) (replicate (length u + length v) 0)" using u by (simp add: mul_digits_def half_radix)
    then show ?thesis using val(1-3) u(1) one [OF u(1)] by (simp add: mult.commute)
  next
    case v
    have "length u < length (replicate (length u + length v) (0 :: sc_digit))" using v(1) by simp
    note val = vec_mul_small_value [OF assms(1) v(2) this]
    have "mul_digits u v = vec_mul_small u (v ! 0) (replicate (length u + length v) 0)" using v by (auto simp: mul_digits_def half_radix)
    then show ?thesis using val(1-3) v(1) one [OF v(1)] by simp
  next
    case large
    have p: "dval (vec_mul a b (replicate (length a + length b) 0)) = dval a * dval b \<and> digits_ok (vec_mul a b (replicate (length a + length b) 0))"
      if "digits_ok a" "digits_ok b" for a b
    proof -
      let ?w = "vec_mul a b (replicate (length a + length b) 0)"
      have "digits_ok (take (length b) (replicate (length a + length b) 0))" "length a + length b \<le> length (replicate (length a + length b) (0 :: sc_digit))"
        "dval (take (length b) (replicate (length a + length b) 0)) = 0" "length (replicate (length a + length b) (0 :: sc_digit)) = length a + length b"
        by simp_all
      note m0 = vec_mul_value [OF that this(1,2), unfolded this(3,4)]
      have m: "digits_ok (take (length a + length b) ?w)" "length ?w = length a + length b"
        "dval (take (length a + length b) ?w) = dval a * dval b"
        using m0 by (simp_all only: add_0 simp_thms)
      have "take (length a + length b) ?w = ?w" using m(2) by simp
      then show ?thesis using m(1,3) by simp
    qed
    have "mul_digits u v = (if length v < length u then vec_mul u v (replicate (length u + length v) 0) else vec_mul v u (replicate (length v + length u) 0))"
      using large unfolding mul_digits_def Let_def half_radix add.commute [of "length v" "length u"] by (simp only: if_False)
    then show ?thesis using p [OF assms(1,2)] p [OF assms(2,1)] by (simp add: mult.commute)
  qed
  then show "dval (mul_digits u v) = dval u * dval v" "digits_ok (mul_digits u v)" by simp_all
qed

lemma vec_from_char_first: "u \<noteq> [] \<Longrightarrow> vec_from_char u (w[0 := x]) = vec_from_char u w"
  by (simp add: vec_from_char_def)

lemma large_into:
  assumes "digits_ok u" and "digits_ok v" and "256 \<le> dval v" and "dval v \<le> dval u"
  shows "butlast (vec_div_large u v (replicate (length u + 1) 0)) = vec_div_large u v (replicate (length u) 0)"
    and "butlast (vec_rem_large u v (replicate (length u + 1) 0)) = vec_rem_large u v (replicate (length u) 0)"
    and "butlast (vec_rem_large u v ((replicate (length u + 1) 0)[0 := x])) = vec_rem_large u v (replicate (length u) 0)"
proof -
  obtain q r n where d: "div_large u v = (q, r, n)" by (cases "div_large u v") auto
  note v = div_large_value [OF assms(1-4) d]
  have n: "0 < length u" using assms(3,4) by (cases u) simp_all
  note l = vec_from_char_value [OF v(3) n] vec_from_char_value [OF v(4) n]
  have w: "take (length u) (replicate (length u + 1) 0) = replicate (length u) (0 :: sc_digit)"
    "drop (length u) (replicate (length u + 1) 0) = [0 :: sc_digit]"
    "take (length u) ((replicate (length u + 1) 0)[0 := x]) = (replicate (length u) 0)[0 := x]"
    "drop (length u) ((replicate (length u + 1) 0)[0 := x]) = [0]"
  proof -
    have r: "replicate (length u + 1) 0 = replicate (length u) (0 :: sc_digit) @ [0]" by (simp add: replicate_append_same)
    show "take (length u) (replicate (length u + 1) 0) = replicate (length u) (0 :: sc_digit)"
      "drop (length u) (replicate (length u + 1) 0) = [0 :: sc_digit]"
      "take (length u) ((replicate (length u + 1) 0)[0 := x]) = (replicate (length u) 0)[0 := x]"
      "drop (length u) ((replicate (length u + 1) 0)[0 := x]) = [0]"
      unfolding r using n by (simp_all add: list_update_append)
  qed
  show "butlast (vec_div_large u v (replicate (length u + 1) 0)) = vec_div_large u v (replicate (length u) 0)"
    "butlast (vec_rem_large u v (replicate (length u + 1) 0)) = vec_rem_large u v (replicate (length u) 0)"
    "butlast (vec_rem_large u v ((replicate (length u + 1) 0)[0 := x])) = vec_rem_large u v (replicate (length u) 0)"
    unfolding vec_div_large_def vec_rem_large_def d Let_def prod.case w vec_from_char_first [OF v(4)] by simp_all
qed

lemma one_digit: "0 < n \<Longrightarrow> dval ((replicate n 0)[0 := x]) = unat x \<and> (unat x < RADIX \<longrightarrow> digits_ok ((replicate n 0)[0 := x]))"
  by (cases n) simp_all

lemma butlast_update: "0 < n \<Longrightarrow> butlast ((replicate (n + 1) 0)[0 := x]) = (replicate n 0)[0 := x]"
  by (rule nth_equalityI) (simp_all add: nth_butlast nth_list_update)

text \<open>A vector without leading zeros and the digits it needs.\<close>

definition tight :: "sc_digit list \<Rightarrow> bool" where
  "tight d \<longleftrightarrow> d \<noteq> [] \<and> digits_ok d \<and> RADIX ^ (length d - 1) \<le> dval d"

lemma tight_skipped: "digits_ok d \<Longrightarrow> 0 < dval d \<Longrightarrow> tight (take (vec_skip_leading_zeros d) d)"
  using skipped [of d] unfolding tight_def by (metis less_irrefl list.size(3))

lemma tight_one: "tight d \<Longrightarrow> length d = 1 \<Longrightarrow> dval d = unat (d ! 0) \<and> unat (d ! 0) < RADIX"
  by (cases d) (simp_all add: tight_def)

lemma tight_pos: "tight d \<Longrightarrow> 0 < dval d"
  unfolding tight_def by (metis RADIX_pos less_le_trans zero_less_power)

lemma tight_length: "tight u \<Longrightarrow> tight v \<Longrightarrow> dval v \<le> dval u \<Longrightarrow> length v \<le> length u"
proof -
  assume t: "tight u" "tight v" "dval v \<le> dval u"
  then have "RADIX ^ (length v - 1) < RADIX ^ length u" using dval_less [of u] unfolding tight_def by linarith
  then have "length v - 1 < length u" by (rule power_less_imp_less_exp [rotated]) (simp add: RADIX_nat)
  then show ?thesis by simp
qed

lemma tight_large: "tight v \<Longrightarrow> \<not> (length v = 1 \<and> v ! 0 < HALF_DIGIT_RADIX) \<Longrightarrow> 256 \<le> dval v"
proof (cases "length v = 1")
  case True
  assume "tight v" "\<not> (length v = 1 \<and> v ! 0 < HALF_DIGIT_RADIX)"
  then show ?thesis using tight_one [of v] True by (simp add: half_radix HALF_nat)
next
  case False
  assume t: "tight v"
  then have "RADIX ^ 1 \<le> RADIX ^ (length v - 1)" using False by (intro power_increasing) (cases v, auto simp: tight_def RADIX_nat Suc_le_eq)
  then show ?thesis using t by (simp add: tight_def RADIX_nat)
qed

lemma div_digits_value:
  assumes "tight u" and "tight v" and "dval v \<le> dval u" and "cmp_res = 0 \<longleftrightarrow> dval u = dval v"
  shows "dval (butlast (div_digits cmp_res u v)) = dval u div dval v" and "digits_ok (butlast (div_digits cmp_res u v))"
proof -
  have len: "length v \<le> length u" "0 < length u" using tight_length [OF assms(1-3)] assms(1) by (simp_all add: tight_def)
  have ok: "digits_ok u" "digits_ok v" using assms(1,2) by (simp_all add: tight_def)
  let ?d = "replicate (length u + 1) 0 :: sc_digit list"
  have mx: "max (length u) (length v) = length u" using len(1) by simp
  have "dval (butlast (div_digits cmp_res u v)) = dval u div dval v \<and> digits_ok (butlast (div_digits cmp_res u v))"
  proof (cases "dval u = dval v")
    case True
    then have "div_digits cmp_res u v = ?d[0 := 1]" unfolding div_digits_def Let_def mx using assms(4) by (simp only: if_True simp_thms)
    then have "butlast (div_digits cmp_res u v) = (replicate (length u) 0)[0 := 1]" using butlast_update [OF len(2)] by (simp only:)
    then show ?thesis using one_digit [OF len(2), of 1] tight_pos [OF assms(2)] True by (simp add: RADIX_nat)
  next
    case False
    then have c: "cmp_res \<noteq> 0" using assms(4) by simp
    consider "length v = 1 \<and> length u = 1" | "\<not> (length v = 1 \<and> length u = 1)" "length v = 1 \<and> v ! 0 < HALF_DIGIT_RADIX"
      | "\<not> (length v = 1 \<and> length u = 1)" "\<not> (length v = 1 \<and> v ! 0 < HALF_DIGIT_RADIX)" by blast
    then show ?thesis
    proof cases
      case 1
      then have e: "div_digits cmp_res u v = ?d[0 := u ! 0 div v ! 0]" unfolding div_digits_def Let_def mx using c by (simp only: if_False if_True simp_thms)
      have q: "unat (u ! 0 div v ! 0) = dval u div dval v" using 1 tight_one [OF assms(1)] tight_one [OF assms(2)] by (simp add: unat_div)
      moreover have "unat (u ! 0 div v ! 0) < RADIX"
        unfolding q using tight_one [OF assms(1)] 1 by (simp add: le_less_trans [OF div_le_dividend])
      ultimately show ?thesis using one_digit [OF len(2), of "u ! 0 div v ! 0"] unfolding e butlast_update [OF len(2)] by simp
    next
      case 2
      then have e: "div_digits cmp_res u v = vec_div_small u (v ! 0) ?d" unfolding div_digits_def Let_def mx using c by (simp only: if_False if_True simp_thms)
      have v0: "unat (v ! 0) < HALF" "unat (v ! 0) = dval v" "0 < unat (v ! 0)"
        using 2 tight_one [OF assms(2)] tight_pos [OF assms(2)] by (simp_all add: half_radix)
      have "length u \<le> length ?d" by simp
      note d = small_division(1-3) [OF ok(1) v0(1,3) this]
      have "butlast (div_digits cmp_res u v) = take (length u) (vec_div_small u (v ! 0) ?d)" unfolding e using d(3) by (simp add: butlast_conv_take)
      then show ?thesis using d v0(2) by simp
    next
      case 3
      then have e: "div_digits cmp_res u v = vec_div_large u v ?d" unfolding div_digits_def Let_def mx using c by (simp only: if_False)
      note large = tight_large [OF assms(2) 3(2)]
      show ?thesis unfolding e large_into(1) [OF ok large assms(3)] using large_division [OF ok large assms(3)] by blast
    qed
  qed
  then show "dval (butlast (div_digits cmp_res u v)) = dval u div dval v" "digits_ok (butlast (div_digits cmp_res u v))" by simp_all
qed

lemma rem_digits_value:
  assumes "tight u" and "tight v" and "dval v \<le> dval u"
  shows "dval (butlast (rem_digits u v)) = dval u mod dval v" and "digits_ok (butlast (rem_digits u v))"
proof -
  have len: "length v \<le> length u" "0 < length u" using tight_length [OF assms(1-3)] assms(1) by (simp_all add: tight_def)
  have ok: "digits_ok u" "digits_ok v" using assms(1,2) by (simp_all add: tight_def)
  let ?d = "replicate (length u + 1) 0 :: sc_digit list"
  have mx: "max (length u) (length v) = length u" using len(1) by simp
  have "dval (butlast (rem_digits u v)) = dval u mod dval v \<and> digits_ok (butlast (rem_digits u v))"
  proof (cases "length v = 1 \<and> v ! 0 < HALF_DIGIT_RADIX")
    case True
    then have v0: "unat (v ! 0) < HALF" "unat (v ! 0) = dval v" "0 < unat (v ! 0)"
      using tight_one [OF assms(2)] tight_pos [OF assms(2)] by (simp_all add: half_radix)
    have r: "unat (vec_rem_small u (v ! 0)) = dval u mod dval v" using small_division(4) [OF ok(1) v0(1,3) order_refl] v0(2) by simp
    moreover have "dval u mod dval v < RADIX" using mod_less_divisor [OF tight_pos [OF assms(2)], of "dval u"] v0(1,2) by (simp add: HALF_nat RADIX_nat)
    moreover have "butlast (rem_digits u v) = (replicate (length u) 0)[0 := vec_rem_small u (v ! 0)]"
      using True butlast_update [OF len(2), of "vec_rem_small u (v ! 0)"] unfolding rem_digits_def Let_def mx
      by (simp only: if_True simp_thms list_update_overwrite split: if_split)
    ultimately show ?thesis using one_digit [OF len(2), of "vec_rem_small u (v ! 0)"] by simp
  next
    case False
    note large = tight_large [OF assms(2) False]
    have "butlast (rem_digits u v) = vec_rem_large u v (replicate (length u) 0)"
      using False large_into(2,3) [OF ok large assms(3)] unfolding rem_digits_def Let_def mx
      by (simp only: if_False simp_thms split: if_split)
    then show ?thesis using large_division [OF ok large assms(3)] by simp
  qed
  then show "dval (butlast (rem_digits u v)) = dval u mod dval v" "digits_ok (butlast (rem_digits u v))" by simp_all
qed

text \<open>What the two macros promise of the kind of number: the number of the result is the one given, wrapped into the width.\<close>

locale number_kind =
  fixes conv :: convert_macro and copy :: copy_macro and wrap :: "nat \<Rightarrow> int \<Rightarrow> int"
  assumes conv_value: "digits_ok d \<Longrightarrow> num_fits nb d \<Longrightarrow> sign_pre s d \<Longrightarrow>
      sm_val (conv s nb d) = wrap nb (s * int (dval d)) \<and> sm_ok (conv s nb d) (length d)"
    and copy_value: "digits_ok v \<Longrightarrow> num_fits nb u \<Longrightarrow> sign_ok s v \<Longrightarrow> (vnb < nb \<Longrightarrow> dval v < 2 ^ (nb - 1)) \<Longrightarrow>
      sm_val (copy s nb u vnb v) = wrap nb (s * int (dval v)) \<and> sm_ok (copy s nb u vnb v) (length u)"
    and wrap_zero: "wrap nb 0 = 0"
    and wrap_cong: "0 < nb \<Longrightarrow> x mod 2 ^ nb = y mod 2 ^ nb \<Longrightarrow> wrap nb x = wrap nb y"
    and wrap_bound: "wrap nb x = x \<Longrightarrow> \<bar>x\<bar> \<le> 2 ^ (nb - 1)"
begin

lemma zero_value: "sm_val (SC_ZERO, vec_zero 0 (length u) u) = wrap nb 0 \<and> sm_ok (SC_ZERO, vec_zero 0 (length u) u) (length u)"
  by (simp add: sm_val_def sm_ok_def sign_ok_def SC_ZERO_def wrap_zero)

lemma add_value:
  assumes "digits_ok ud" and "digits_ok vd" and "sign_ok us ud" and "sign_ok vs vd" and "us \<noteq> 0" and "vs \<noteq> 0" and "num_fits unb ud"
    and "add_on_help us ud vs vd = (s, d)"
  shows "sm_val (conv s unb d) = wrap unb (us * int (dval ud) + vs * int (dval vd)) \<and> sm_ok (conv s unb d) (length ud)"
proof -
  note a = add_on_help_value [OF assms(1-6,8)]
  have "(s * int (dval d)) mod 2 ^ unb = (us * int (dval ud) + vs * int (dval vd)) mod 2 ^ unb"
    using arg_cong [OF a(1), of "\<lambda>x. x mod 2 ^ unb"] unfolding SM_mod [OF assms(7)] .
  then have "wrap unb (s * int (dval d)) = wrap unb (us * int (dval ud) + vs * int (dval vd))"
    by (rule wrap_cong [OF fits_bits(4) [OF assms(7)]])
  then show ?thesis using conv_value [OF a(2) fits_same [OF assms(7) a(3)] a(4)] a(3) by simp
qed

lemma mul_value:
  assumes "digits_ok ud" and "digits_ok vd" and "0 < dval ud" and "0 < dval vd" and "s = 1 \<or> s = -1" and "num_fits unb ud"
    and "dval vd < 2 ^ vnb"
  shows "sm_val (mul_on_help conv copy s unb ud vnb vd) = wrap unb (s * (int (dval ud) * int (dval vd))) \<and>
    sm_ok (mul_on_help conv copy s unb ud vnb vd) (length ud)"
proof -
  note u = skipped [OF assms(1,3)] and v = skipped [OF assms(2,4)]
  let ?m = "vec_skip_leading_zeros ud" and ?n = "vec_skip_leading_zeros vd"
  have ok: "sign_ok s d" if "dval d = dval ud * dval vd" for d using that assms(3-5) by (auto simp: sign_ok_def)
  have wide: "unb + vnb < unb \<Longrightarrow> P" for P by simp
  consider (v1) "?n = 1 \<and> vd ! 0 = 1" | (u1) "?m = 1 \<and> ud ! 0 = 1" "\<not> (?n = 1 \<and> vd ! 0 = 1)"
    | (small) "?m = 1 \<and> ?n = 1 \<and> ud ! 0 < HALF_DIGIT_RADIX \<and> vd ! 0 < HALF_DIGIT_RADIX" "\<not> (?m = 1 \<and> ud ! 0 = 1)" "\<not> (?n = 1 \<and> vd ! 0 = 1)"
    | (large) "\<not> (?m = 1 \<and> ?n = 1 \<and> ud ! 0 < HALF_DIGIT_RADIX \<and> vd ! 0 < HALF_DIGIT_RADIX)" "\<not> (?m = 1 \<and> ud ! 0 = 1)" "\<not> (?n = 1 \<and> vd ! 0 = 1)"
    by blast
  then show ?thesis
  proof cases
    case v1
    then have "mul_on_help conv copy s unb ud vnb vd = conv s unb ud" by (simp add: mul_on_help_def Let_def)
    moreover have "dval vd = 1" using v(8) v1 by simp
    moreover have "sign_pre s ud" using assms(5) by (auto simp: sign_pre_def)
    ultimately show ?thesis using conv_value [OF assms(1,6)] by simp
  next
    case u1
    then have e: "mul_on_help conv copy s unb ud vnb vd = copy s unb ud vnb (take ?n vd)" unfolding mul_on_help_def Let_def by (simp only: if_False if_True simp_thms)
    have "dval ud = 1" using u(8) u1 by simp
    moreover have "dval (take ?n vd) < 2 ^ (unb - 1)" if "vnb < unb"
    proof -
      have "(2 :: nat) ^ vnb \<le> 2 ^ (unb - 1)" using that by (intro power_increasing) simp_all
      then show ?thesis using assms(7) unfolding v(1) by (rule less_le_trans [rotated])
    qed
    ultimately show ?thesis using copy_value [OF v(2) assms(6), of s vnb] ok [of "take ?n vd"] v(1) unfolding e by simp
  next
    case small
    then have e: "mul_on_help conv copy s unb ud vnb vd = copy s unb ud (unb + vnb) [ud ! 0 * vd ! 0]"
      unfolding mul_on_help_def Let_def by (simp only: if_False if_True simp_thms)
    have b: "unat (ud ! 0) * unat (vd ! 0) \<le> 1073676289" using small(1) by (intro half_products) (simp_all add: half_radix)
    then have "unat (ud ! 0 * vd ! 0) = unat (ud ! 0) * unat (vd ! 0)" by (intro unat_times) simp
    then have d: "dval [ud ! 0 * vd ! 0] = dval ud * dval vd" "digits_ok [ud ! 0 * vd ! 0]" using small(1) u(8) v(8) b by (simp_all add: RADIX_nat)
    show ?thesis unfolding e using copy_value [OF d(2) assms(6) ok [OF d(1)] wide, of "unb + vnb"] by (simp only: d(1)) simp
  next
    case large
    then have e: "mul_on_help conv copy s unb ud vnb vd = copy s unb ud (unb + vnb) (mul_digits (take ?m ud) (take ?n vd))"
      unfolding mul_on_help_def Let_def by (simp only: if_False)
    have ne: "take ?m ud \<noteq> []" "take ?n vd \<noteq> []" using u(3,5) v(3,5) by (metis less_irrefl list.size(3))+
    note d = mul_digits_value [OF u(2) v(2) ne, unfolded u(1) v(1)]
    show ?thesis unfolding e using copy_value [OF d(2) assms(6) ok [OF d(1)] wide, of "unb + vnb"] by (simp only: d(1)) simp
  qed
qed

lemma div_value:
  assumes "digits_ok ud" and "digits_ok vd" and "0 < dval ud" and "0 < dval vd" and "s = 1 \<or> s = -1" and "num_fits unb ud"
  shows "sm_val (div_on_help conv copy s unb ud vnb vd) = wrap unb (s * int (dval ud div dval vd)) \<and>
    sm_ok (div_on_help conv copy s unb ud vnb vd) (length ud)"
proof -
  let ?m = "vec_skip_leading_zeros ud" and ?n = "vec_skip_leading_zeros vd"
  let ?c = "vec_cmp ?m ud ?n vd"
  note c = vec_cmp_sign [OF assms(1,2)]
  note u = skipped [OF assms(1,3)] tight_skipped [OF assms(1,3)] and v = skipped [OF assms(2,4)] tight_skipped [OF assms(2,4)]
  consider (less) "?c < 0" | (one) "\<not> ?c < 0" "?c > 0 \<and> ?n = 1 \<and> vd ! 0 = 1" | (more) "\<not> ?c < 0" "\<not> (?c > 0 \<and> ?n = 1 \<and> vd ! 0 = 1)" by blast
  then show ?thesis
  proof cases
    case less
    then have e: "div_on_help conv copy s unb ud vnb vd = (SC_ZERO, vec_zero 0 (length ud) ud)" by (simp only: div_on_help_def Let_def if_True)
    have "dval ud div dval vd = 0" using less c(3) by simp
    then show ?thesis unfolding e using zero_value [of ud unb] by simp
  next
    case one
    then have e: "div_on_help conv copy s unb ud vnb vd = conv s unb ud"
      unfolding div_on_help_def Let_def by (rule trans [OF if_not_P if_P])
    have "dval vd = 1" using v(8) one by simp
    moreover have "sign_pre s ud" using assms(5) by (auto simp: sign_pre_def)
    ultimately show ?thesis using conv_value [OF assms(1,6)] unfolding e by simp
  next
    case more
    then have e: "div_on_help conv copy s unb ud vnb vd = copy s unb ud (max unb vnb) (butlast (div_digits ?c (take ?m ud) (take ?n vd)))"
      unfolding div_on_help_def Let_def by (simp only: if_False)
    have le: "dval vd \<le> dval ud" using more(1) c(3) by simp
    note d = div_digits_value [OF u(9) v(9), unfolded u(1) v(1), OF le c(2)]
    have "0 < dval ud div dval vd" using le assms(4) by (simp add: div_greater_zero_iff)
    then have s: "sign_ok s (butlast (div_digits ?c (take ?m ud) (take ?n vd)))" using assms(5) d(1) by (auto simp: sign_ok_def)
    show ?thesis unfolding e using copy_value [OF d(2) assms(6) s, of "max unb vnb"] by (simp add: d(1))
  qed
qed

lemma mod_value:
  assumes "digits_ok ud" and "digits_ok vd" and "0 < dval ud" and "0 < dval vd" and "s = 1 \<or> s = -1" and "num_fits unb ud"
    and "wrap unb (s * int (dval ud)) = s * int (dval ud)"
  shows "sm_val (mod_on_help copy s unb ud vd) = wrap unb (s * int (dval ud mod dval vd)) \<and>
    sm_ok (mod_on_help copy s unb ud vd) (length ud)"
proof -
  let ?m = "vec_skip_leading_zeros ud" and ?n = "vec_skip_leading_zeros vd"
  let ?c = "vec_cmp ?m ud ?n vd"
  note c = vec_cmp_sign [OF assms(1,2)]
  note u = skipped [OF assms(1,3)] tight_skipped [OF assms(1,3)] and v = skipped [OF assms(2,4)] tight_skipped [OF assms(2,4)]
  consider (less) "?c < 0" | (zero) "\<not> ?c < 0" "?c = 0 \<or> ?n = 1 \<and> vd ! 0 = 1" | (more) "\<not> ?c < 0" "\<not> ?c = 0" "\<not> (?n = 1 \<and> vd ! 0 = 1)" by blast
  then show ?thesis
  proof cases
    case less
    then have e: "mod_on_help copy s unb ud vd = (s, ud)" by (simp only: mod_on_help_def Let_def if_True)
    have "dval ud mod dval vd = dval ud" using less c(3) by simp
    moreover have "sign_ok s ud" using assms(3,5) by (auto simp: sign_ok_def)
    ultimately show ?thesis unfolding e using assms(1,7) by (simp add: sm_val_def sm_ok_def)
  next
    case zero
    then have e: "mod_on_help copy s unb ud vd = (SC_ZERO, vec_zero 0 (length ud) ud)" unfolding mod_on_help_def Let_def by (auto simp only: if_False if_True split: if_split)
    have "dval ud mod dval vd = 0" using zero(2) c(2) v(8) by auto
    then show ?thesis unfolding e using zero_value [of ud unb] by simp
  next
    case more
    define d where "d = butlast (rem_digits (take ?m ud) (take ?n vd))"
    have e: "mod_on_help copy s unb ud vd = (if check_for_zero s d = SC_ZERO then (check_for_zero s d, vec_zero 0 (length ud) ud)
        else copy (check_for_zero s d) unb ud (min unb ?n) d)"
      unfolding mod_on_help_def Let_def d_def using more by (simp only: if_False)
    have le: "dval vd \<le> dval ud" using more(1) c(3) by simp
    note d = rem_digits_value [OF u(9) v(9), unfolded u(1) v(1), OF le, folded d_def]
    show ?thesis
    proof (cases "dval d = 0")
      case True
      then have "mod_on_help copy s unb ud vd = (SC_ZERO, vec_zero 0 (length ud) ud)" unfolding e by (simp add: check_for_zero_def first_nonzero)
      then show ?thesis using zero_value [of ud unb] d(1) True by simp
    next
      case False
      then have k: "check_for_zero s d = s" "s \<noteq> SC_ZERO" using assms(5) by (auto simp: check_for_zero_def first_nonzero SC_ZERO_def)
      have s: "sign_ok s d" using assms(5) False by (auto simp: sign_ok_def)
      have "dval d < 2 ^ (unb - 1)"
      proof -
        have "\<bar>s * int (dval ud)\<bar> \<le> 2 ^ (unb - 1)" by (rule wrap_bound [OF assms(7)])
        then have "int (dval ud) \<le> int (2 ^ (unb - 1))" using assms(5) by auto
        then have "dval ud \<le> 2 ^ (unb - 1)" by (simp only: of_nat_le_iff)
        moreover have "dval d < dval ud" unfolding d(1) using mod_less_divisor [OF assms(4), of "dval ud"] le by linarith
        ultimately show ?thesis by simp
      qed
      then show ?thesis using copy_value [OF d(2) assms(6) s, of "min unb ?n"] unfolding e k(1) using k(2) d(1) by simp
    qed
  qed
qed

end

interpretation signed: number_kind convert_signed_SM_to_2C_to_SM copy_digits_signed wrap_signed
proof
  show "wrap_signed nb 0 = 0" for nb by (simp add: wrap_signed_def)
  show "wrap_signed nb x = x \<Longrightarrow> \<bar>x\<bar> \<le> 2 ^ (nb - 1)" for nb x
    using signed_take_bit_int_less_exp [of "nb - 1" x] signed_take_bit_int_greater_eq_minus_exp [of "nb - 1" x] by (simp add: wrap_signed_def)
qed (rule convert_signed_SM_value copy_digits_signed_value signed_cong; assumption)+

interpretation unsigned: number_kind convert_unsigned_SM_to_2C_to_SM copy_digits_unsigned wrap_unsigned
proof
  show "wrap_unsigned nb 0 = 0" for nb by (simp add: wrap_unsigned_def)
  show "wrap_unsigned nb x = x \<Longrightarrow> \<bar>x\<bar> \<le> 2 ^ (nb - 1)" for nb x
    using take_bit_int_less_exp [of "nb - 1" x] take_bit_nonnegative [of "nb - 1" x] by (simp add: wrap_unsigned_def)
qed (rule convert_unsigned_SM_value copy_digits_unsigned_value unsigned_cong; assumption)+

end
