(* ===== verification/Nb_Bits.thy ===== *)
theory Nb_Bits
  imports Nb_Help
begin

text \<open>
  \<open>sc_nbexterns.cpp\<close>: the bitwise operations on numbers of a sign and a vector.  The loops take the two's complement of
  a negative operand digit by digit, and leave the result in two's complement.  The three functions run the same loops
  with their operator; behind the digits of \<open>v\<close> its sign goes on.  The locale \<open>bitwise\<close> states what the operators share.
\<close>

section \<open>The loops\<close>

text \<open>Both positive, both negative, only \<open>v\<close> negative, only \<open>u\<close> negative; \<open>g\<close> is what is written behind \<open>v\<close>.\<close>

fun pp_loop :: "(sc_digit \<Rightarrow> sc_digit \<Rightarrow> sc_digit) \<Rightarrow> (sc_digit \<Rightarrow> sc_digit) \<Rightarrow> sc_digit list \<Rightarrow> sc_digit list \<Rightarrow> sc_digit list" where
  "pp_loop f g (x # xs) (y # ys) = f x y # pp_loop f g xs ys"
| "pp_loop f g (x # xs) [] = g x # pp_loop f g xs []"
| "pp_loop f g [] ys = []"

fun nn_loop :: "(sc_digit \<Rightarrow> sc_digit \<Rightarrow> sc_digit) \<Rightarrow> sc_digit \<Rightarrow> sc_digit \<Rightarrow> sc_digit list \<Rightarrow> sc_digit list \<Rightarrow> sc_digit list" where
  "nn_loop f xcarry ycarry (x # xs) (y # ys) =
     (let xcarry = xcarry + (NOT x AND DIGIT_MASK); ycarry = ycarry + (NOT y AND DIGIT_MASK)
      in (f xcarry ycarry AND DIGIT_MASK) # nn_loop f (drop_bit BITS_PER_DIGIT xcarry) (drop_bit BITS_PER_DIGIT ycarry) xs ys)"
| "nn_loop f xcarry ycarry (x # xs) [] =
     (let xcarry = xcarry + (NOT x AND DIGIT_MASK); ycarry = ycarry + DIGIT_MASK
      in (f xcarry ycarry AND DIGIT_MASK) # nn_loop f (drop_bit BITS_PER_DIGIT xcarry) (drop_bit BITS_PER_DIGIT ycarry) xs [])"
| "nn_loop f xcarry ycarry [] ys = []"

fun pn_loop :: "(sc_digit \<Rightarrow> sc_digit \<Rightarrow> sc_digit) \<Rightarrow> sc_digit \<Rightarrow> sc_digit list \<Rightarrow> sc_digit list \<Rightarrow> sc_digit list" where
  "pn_loop f ycarry (x # xs) (y # ys) =
     (let ycarry = ycarry + (NOT y AND DIGIT_MASK) in (f x ycarry AND DIGIT_MASK) # pn_loop f (drop_bit BITS_PER_DIGIT ycarry) xs ys)"
| "pn_loop f ycarry (x # xs) [] =
     (let ycarry = ycarry + DIGIT_MASK in (f x ycarry AND DIGIT_MASK) # pn_loop f (drop_bit BITS_PER_DIGIT ycarry) xs [])"
| "pn_loop f ycarry [] ys = []"

fun np_loop :: "(sc_digit \<Rightarrow> sc_digit \<Rightarrow> sc_digit) \<Rightarrow> (sc_digit \<Rightarrow> sc_digit) \<Rightarrow> sc_digit \<Rightarrow> sc_digit list \<Rightarrow> sc_digit list \<Rightarrow> sc_digit list" where
  "np_loop f g xcarry (x # xs) (y # ys) =
     (let xcarry = xcarry + (NOT x AND DIGIT_MASK) in (f xcarry y AND DIGIT_MASK) # np_loop f g (drop_bit BITS_PER_DIGIT xcarry) xs ys)"
| "np_loop f g xcarry (x # xs) [] =
     (let xcarry = xcarry + (NOT x AND DIGIT_MASK) in g xcarry # np_loop f g (drop_bit BITS_PER_DIGIT xcarry) xs [])"
| "np_loop f g xcarry [] ys = []"

definition and_on_help :: "int \<Rightarrow> sc_digit list \<Rightarrow> int \<Rightarrow> sc_digit list \<Rightarrow> sc_digit list" where
  "and_on_help us ud vs vd =
     (let y = take (length ud) vd in
      if mul_signs us vs > 0 then if us > 0 then pp_loop (AND) (\<lambda>x. 0) ud y else nn_loop (AND) 1 1 ud y
      else if us > 0 then pn_loop (AND) 1 ud y else np_loop (AND) (\<lambda>xcarry. 0) 1 ud y)"

definition or_on_help :: "int \<Rightarrow> sc_digit list \<Rightarrow> int \<Rightarrow> sc_digit list \<Rightarrow> sc_digit list" where
  "or_on_help us ud vs vd =
     (let y = take (length ud) vd in
      if mul_signs us vs > 0 then if us > 0 then pp_loop (OR) (\<lambda>x. x) ud y else nn_loop (OR) 1 1 ud y
      else if us > 0 then pn_loop (OR) 1 ud y else np_loop (OR) (\<lambda>xcarry. xcarry AND DIGIT_MASK) 1 ud y)"

definition xor_on_help :: "int \<Rightarrow> sc_digit list \<Rightarrow> int \<Rightarrow> sc_digit list \<Rightarrow> sc_digit list" where
  "xor_on_help us ud vs vd =
     (let y = take (length ud) vd in
      if mul_signs us vs > 0 then if us > 0 then pp_loop (\<lambda>x y. (x XOR y) AND DIGIT_MASK) (\<lambda>x. x) ud y else nn_loop (XOR) 1 1 ud y
      else if us > 0 then pn_loop (XOR) 1 ud y else np_loop (XOR) (\<lambda>xcarry. xcarry AND DIGIT_MASK) 1 ud y)"

section \<open>What the operators share\<close>

lemma mask_low: "bit DIGIT_MASK k \<longleftrightarrow> k < 30"
proof -
  have "DIGIT_MASK = mask 30" by (simp add: DIGIT_MASK_def mask_eq_exp_minus_1)
  then have "bit DIGIT_MASK k \<longleftrightarrow> bit (mask 30 :: sc_digit) k" by (rule arg_cong)
  then show ?thesis by (auto simp: bit_mask_iff simp del: mask_numeral)
qed

lemma digit_masked: "unat d < RADIX \<Longrightarrow> d AND DIGIT_MASK = d"
  by (simp add: word_unat_eq_iff)

lemma not_zero_digit: "(NOT (0 :: sc_digit)) AND DIGIT_MASK = DIGIT_MASK"
  by simp

definition pad :: "nat \<Rightarrow> sc_digit list \<Rightarrow> sc_digit list" where
  "pad n d = d @ replicate (n - length d) 0"

lemma pad_simps [simp]: "pad (Suc n) (y # ys) = y # pad n ys" "pad (Suc n) [] = 0 # pad n []" "pad 0 [] = []"
  by (simp_all add: pad_def)

lemma pad_ok: "digits_ok d \<Longrightarrow> digits_ok (pad n d)" "dval (pad n d) = dval d" "length d \<le> n \<Longrightarrow> length (pad n d) = n"
  by (simp_all add: pad_def dval_append)

locale bitwise =
  fixes h :: "bool \<Rightarrow> bool \<Rightarrow> bool" and f :: "sc_digit \<Rightarrow> sc_digit \<Rightarrow> sc_digit" and F :: "int \<Rightarrow> int \<Rightarrow> int"
  assumes bit_digit: "k < 32 \<Longrightarrow> bit (f a b) k \<longleftrightarrow> h (bit a k) (bit b k)"
    and bit_int: "bit (F x y) n \<longleftrightarrow> h (bit x n) (bit y n)"
begin

abbreviation masked :: "sc_digit \<Rightarrow> sc_digit \<Rightarrow> sc_digit" where
  "masked a b \<equiv> f a b AND DIGIT_MASK"

lemma masked_carry:
  "masked (a AND DIGIT_MASK) b = masked a b" "masked a (b AND DIGIT_MASK) = masked a b"
  by (rule bit_word_eqI; auto simp: bit_and_iff bit_digit mask_low)+

lemma nn_loop_map: "nn_loop f xc yc xs ys = map2 masked (complement_loop xc xs) (complement_loop yc (pad (length xs) ys))"
proof (induction xs arbitrary: xc yc ys)
  case (Cons x xs)
  then show ?case by (cases ys) (simp_all add: Let_def masked_carry not_zero_digit)
qed simp

lemma pn_loop_map: "pn_loop f yc xs ys = map2 masked xs (complement_loop yc (pad (length xs) ys))"
proof (induction xs arbitrary: yc ys)
  case (Cons x xs)
  then show ?case by (cases ys) (simp_all add: Let_def masked_carry not_zero_digit)
qed simp

lemma np_loop_map:
  assumes "\<And>a. g a = masked a 0"
  shows "np_loop f g xc xs ys = map2 masked (complement_loop xc xs) (pad (length xs) ys)"
proof (induction xs arbitrary: xc ys)
  case (Cons x xs)
  then show ?case by (cases ys) (simp_all add: Let_def masked_carry assms)
qed simp

lemma pp_loop_map:
  assumes "\<And>a b. unat a < RADIX \<Longrightarrow> unat b < RADIX \<Longrightarrow> e a b = masked a b" and "\<And>a. unat a < RADIX \<Longrightarrow> g a = masked a 0"
  shows "digits_ok xs \<Longrightarrow> digits_ok ys \<Longrightarrow> pp_loop e g xs ys = map2 masked xs (pad (length xs) ys)"
proof (induction xs arbitrary: ys)
  case (Cons x xs)
  then show ?case by (cases ys) (simp_all add: assms)
qed simp

lemma map_value:
  assumes "digits_ok a" and "digits_ok b" and "length b = length a" and "nb \<le> 30 * length a"
  shows "int (dval (map2 masked a b)) mod 2 ^ nb = F (int (dval a)) (int (dval b)) mod 2 ^ nb"
    and "digits_ok (map2 masked a b)" and "length (map2 masked a b) = length a"
proof -
  let ?r = "map2 masked a b"
  show l: "length ?r = length a" using assms(3) by simp
  show ok: "digits_ok ?r" by (auto simp: digits_ok_def list_all_length)
  have "take_bit nb (int (dval ?r)) = take_bit nb (F (int (dval a)) (int (dval b)))"
  proof (rule bit_eqI)
    fix m
    show "bit (take_bit nb (int (dval ?r))) m \<longleftrightarrow> bit (take_bit nb (F (int (dval a)) (int (dval b)))) m"
    proof (cases "m < nb")
      case True
      let ?n = "m div 30" and ?k = "m mod 30"
      have n: "?n < length a" "?k < 30" and m: "30 * ?n + ?k = m" using True assms(4) by (simp_all add: less_mult_imp_div_less mult.commute)
      have "bit (dval ?r) m \<longleftrightarrow> h (bit (dval a) m) (bit (dval b) m)"
        using bit_dval [OF ok _ n(2), of ?n] bit_dval [OF assms(1) n] bit_dval [OF assms(2) _ n(2), of ?n] n l assms(3)
        unfolding m by (simp add: bit_and_iff bit_digit mask_low)
      then show ?thesis using True by (simp add: bit_take_bit_iff bit_int bit_of_nat_iff_bit)
    qed (simp add: bit_take_bit_iff)
  qed
  then show "int (dval ?r) mod 2 ^ nb = F (int (dval a)) (int (dval b)) mod 2 ^ nb" by (simp only: take_bit_eq_mod)
qed

lemma F_cong:
  assumes "x mod 2 ^ nb = x' mod 2 ^ nb" and "y mod 2 ^ nb = y' mod 2 ^ nb"
  shows "F x y mod 2 ^ nb = F x' y' mod 2 ^ nb"
proof -
  have b: "bit x m = bit x' m" "bit y m = bit y' m" if "m < nb" for m
    using assms that by (metis bit_take_bit_iff take_bit_eq_mod)+
  have "take_bit nb (F x y) = take_bit nb (F x' y')"
    by (rule bit_eqI) (auto simp: bit_take_bit_iff bit_int b)
  then show ?thesis by (simp only: take_bit_eq_mod)
qed

text \<open>The loop that the signs choose, over the two's complements of the operands.\<close>

lemma chosen_value:
  assumes "digits_ok ud" and "digits_ok vd" and "us = 1 \<or> us = -1" and "vs = 1 \<or> vs = -1" and "num_fits nb ud"
    and "\<And>a b. unat a < RADIX \<Longrightarrow> unat b < RADIX \<Longrightarrow> e a b = masked a b" and "\<And>a. unat a < RADIX \<Longrightarrow> g a = masked a 0"
    and "\<And>a. g' a = masked a 0" and "y = take (length ud) vd"
    and "r = (if mul_signs us vs > 0 then if us > 0 then pp_loop e g ud y else nn_loop f 1 1 ud y
      else if us > 0 then pn_loop f 1 ud y else np_loop f g' 1 ud y)"
  shows "int (dval r) mod 2 ^ nb = F (us * int (dval ud)) (vs * int (dval vd)) mod 2 ^ nb" and "digits_ok r" and "length r = length ud"
proof -
  let ?p = "pad (length ud) y"
  have y: "digits_ok y" "length y \<le> length ud" using digits_ok_parts(1) [OF assms(2)] by (simp_all add: assms(9))
  have p: "digits_ok ?p" "length ?p = length ud" "dval ?p = dval y" using pad_ok y by simp_all
  define a where "a = convert_SM_to_2C us ud"
  define b where "b = convert_SM_to_2C vs ?p"
  have sg: "mul_signs us vs > 0 \<longleftrightarrow> us = vs" using assms(3,4) by (auto simp: mul_signs_def SC_ZERO_def SC_POS_def SC_NEG_def)
  note maps = nn_loop_map [of 1 1 ud y] pn_loop_map [of 1 ud y] np_loop_map [OF assms(8), of 1 ud y]
  have pp: "pp_loop e g ud y = map2 masked ud ?p"
    by (rule pp_loop_map) (simp_all add: assms(1,6,7) y(1))
  have r: "r = map2 masked a b"
    unfolding assms(10) sg a_def b_def convert_SM_to_2C_def SC_NEG_def vec_complement_def maps pp using assms(3,4) by auto
  have pre: "sign_pre us ud" "sign_pre vs ?p" using assms(3,4) by (auto simp: sign_pre_def)
  note ca = SM_to_2C_value [OF assms(1) pre(1), folded a_def] and cb = SM_to_2C_value [OF p(1) pre(2), folded b_def]
  note v = map_value [OF ca(2) cb(2), unfolded ca(3) cb(3) p(2), OF refl fits_bits(5) [OF assms(5)], folded r]
  have "int (dval a) mod 2 ^ nb = (us * int (dval ud)) mod 2 ^ nb" unfolding ca(1) by (rule SM_mod [OF assms(5)])
  moreover have "int (dval b) mod 2 ^ nb = (vs * int (dval vd)) mod 2 ^ nb"
  proof -
    have "dval y = dval vd mod RADIX ^ length ud" unfolding assms(9) by (rule dval_truncated [OF assms(2)])
    then show ?thesis unfolding cb(1) p(2,3) SM_mod [OF assms(5)] using mult_mod_radix [OF assms(5)] by simp
  qed
  ultimately show "int (dval r) mod 2 ^ nb = F (us * int (dval ud)) (vs * int (dval vd)) mod 2 ^ nb"
    by (rule trans [OF v(1) F_cong])
  show "digits_ok r" "length r = length ud" by (rule v(2), rule v(3))
qed

end

interpretation and_op: bitwise "(\<and>)" "(AND)" "(AND)"
  by unfold_locales (simp_all add: bit_and_iff)

interpretation or_op: bitwise "(\<or>)" "(OR)" "(OR)"
  by unfold_locales (simp_all add: bit_or_iff)

interpretation xor_op: bitwise "(\<noteq>)" "(XOR)" "(XOR)"
  by unfold_locales (simp_all add: bit_xor_iff)

text \<open>The result in two's complement, of as many bits as \<open>u\<close> has.\<close>

lemma bits_on_help_value:
  assumes "digits_ok ud" and "digits_ok vd" and "us = 1 \<or> us = -1" and "vs = 1 \<or> vs = -1" and "num_fits nb ud"
  shows "int (dval (and_on_help us ud vs vd)) mod 2 ^ nb = ((us * int (dval ud)) AND (vs * int (dval vd))) mod 2 ^ nb \<and>
      digits_ok (and_on_help us ud vs vd) \<and> length (and_on_help us ud vs vd) = length ud"
    and "int (dval (or_on_help us ud vs vd)) mod 2 ^ nb = ((us * int (dval ud)) OR (vs * int (dval vd))) mod 2 ^ nb \<and>
      digits_ok (or_on_help us ud vs vd) \<and> length (or_on_help us ud vs vd) = length ud"
    and "int (dval (xor_on_help us ud vs vd)) mod 2 ^ nb = ((us * int (dval ud)) XOR (vs * int (dval vd))) mod 2 ^ nb \<and>
      digits_ok (xor_on_help us ud vs vd) \<and> length (xor_on_help us ud vs vd) = length ud"
proof -
  have d: "unat a < RADIX \<Longrightarrow> a AND DIGIT_MASK = a" for a by (rule digit_masked)
  have ma: "a AND b = and_op.masked a b" if "unat a < RADIX" "unat b < RADIX" for a b using d [OF that(2)] by (simp only: and.assoc)
  have mo: "a OR b = or_op.masked a b" if "unat a < RADIX" "unat b < RADIX" for a b
    using d [OF that(1)] d [OF that(2)] by (simp only: bit.conj_disj_distrib2)
  have mx: "(a XOR b) AND DIGIT_MASK = xor_op.masked a b" for a b by (rule refl)
  have z: "(0 :: sc_digit) = and_op.masked a 0" "a AND DIGIT_MASK = or_op.masked a 0" "a AND DIGIT_MASK = xor_op.masked a 0" for a by simp_all
  have i: "a = or_op.masked a 0" "a = xor_op.masked a 0" if "unat a < RADIX" for a using d [OF that] by simp_all
  note na = and_op.chosen_value [OF assms ma z(1) z(1) refl refl]
  note no = or_op.chosen_value [OF assms mo i(1) z(2) refl refl]
  note nx = xor_op.chosen_value [OF assms mx i(2) z(3) refl refl]
  show "int (dval (and_on_help us ud vs vd)) mod 2 ^ nb = ((us * int (dval ud)) AND (vs * int (dval vd))) mod 2 ^ nb \<and>
      digits_ok (and_on_help us ud vs vd) \<and> length (and_on_help us ud vs vd) = length ud"
    unfolding and_on_help_def Let_def using na by blast
  show "int (dval (or_on_help us ud vs vd)) mod 2 ^ nb = ((us * int (dval ud)) OR (vs * int (dval vd))) mod 2 ^ nb \<and>
      digits_ok (or_on_help us ud vs vd) \<and> length (or_on_help us ud vs vd) = length ud"
    unfolding or_on_help_def Let_def using no by blast
  show "int (dval (xor_on_help us ud vs vd)) mod 2 ^ nb = ((us * int (dval ud)) XOR (vs * int (dval vd))) mod 2 ^ nb \<and>
      digits_ok (xor_on_help us ud vs vd) \<and> length (xor_on_help us ud vs vd) = length ud"
    unfolding xor_on_help_def Let_def using nx by blast
qed

end
