(* ===== verification/Sc_Number.thy ===== *)
theory Sc_Number
  imports Nb_Bits "HOL-Library.Signed_Division"
begin

text \<open>
  \<open>sc_signed\<close> and \<open>sc_unsigned\<close>: the members that both classes take from \<open>sc_nbcommon.inc\<close>, which either class includes
  with its own macros.  The class of a number is a field that no member changes.  A number is its sign and its digits;
  the width of an unsigned number counts one bit more than the user asked for.
\<close>

datatype class_type = SIGNED | UNSIGNED

record sc_number =
  cls :: class_type
  num_sgn :: int
  nbits :: nat
  digit :: "sc_digit list"

section \<open>Private members\<close>

definition num_bits :: "class_type \<Rightarrow> int \<Rightarrow> int" where
  "num_bits c nb = (case c of SIGNED \<Rightarrow> nb | UNSIGNED \<Rightarrow> nb + 1)"

definition CONVERT_SM_to_2C_to_SM :: "class_type \<Rightarrow> convert_macro" where
  "CONVERT_SM_to_2C_to_SM c = (case c of SIGNED \<Rightarrow> convert_signed_SM_to_2C_to_SM | UNSIGNED \<Rightarrow> convert_unsigned_SM_to_2C_to_SM)"

definition COPY_DIGITS :: "class_type \<Rightarrow> copy_macro" where
  "COPY_DIGITS c = (case c of SIGNED \<Rightarrow> copy_digits_signed | UNSIGNED \<Rightarrow> copy_digits_unsigned)"

text \<open>A member that computes the sign and the digits writes both.\<close>

definition put :: "sc_number \<Rightarrow> int \<times> sc_digit list \<Rightarrow> sc_number" where
  "put n r = n\<lparr>num_sgn := fst r, digit := snd r\<rparr>"

definition copy_digits :: "sc_number \<Rightarrow> nat \<Rightarrow> sc_digit list \<Rightarrow> sc_number" where
  "copy_digits n nb d = put n (COPY_DIGITS (cls n) (num_sgn n) (nbits n) (digit n) nb d)"

definition makezero :: "sc_number \<Rightarrow> sc_number" where
  "makezero n = put n (make_zero (digit n))"

definition convert_2C_to_SM :: "sc_number \<Rightarrow> sc_number" where
  "convert_2C_to_SM n = put n ((case cls n of SIGNED \<Rightarrow> convert_signed_2C_to_SM | UNSIGNED \<Rightarrow> convert_unsigned_2C_to_SM) (nbits n) (digit n))"

definition convert_SM_to_2C_to_SM :: "sc_number \<Rightarrow> sc_number" where
  "convert_SM_to_2C_to_SM n = put n (CONVERT_SM_to_2C_to_SM (cls n) (num_sgn n) (nbits n) (digit n))"

section \<open>Construction and assignment\<close>

text \<open>A new array holds anything; the constructors here fill it with the zeros of \<open>makezero\<close> or copy over all of it.\<close>

definition new_digits :: "nat \<Rightarrow> sc_digit list" where
  "new_digits nb = replicate (nat (DIV_CEIL (int nb))) 0"

definition number_new :: "class_type \<Rightarrow> int \<Rightarrow> sc_number res" where
  "number_new c nb =
     (if nb > 0 then let n = nat (num_bits c nb) in Inr (makezero \<lparr>cls = c, num_sgn = SC_POS, nbits = n, digit = new_digits n\<rparr>)
      else Inl (ReportError SC_ID_INIT_FAILED))"

definition assign :: "sc_number \<Rightarrow> sc_number \<Rightarrow> sc_number" where
  "assign u v =
     (let u = u\<lparr>num_sgn := num_sgn v\<rparr> in
      if num_sgn u = SC_ZERO then u\<lparr>digit := vec_zero 0 (length (digit u)) (digit u)\<rparr> else copy_digits u (nbits v) (digit v))"

text \<open>The conversion to the other class.\<close>

definition convert_class :: "sc_number \<Rightarrow> sc_number" where
  "convert_class v =
     (let c = (case cls v of SIGNED \<Rightarrow> UNSIGNED | UNSIGNED \<Rightarrow> SIGNED); n = nat (num_bits c (int (nbits v)));
          d = (case c of SIGNED \<Rightarrow> replicate (length (digit v)) 0 | UNSIGNED \<Rightarrow> new_digits n)
      in copy_digits \<lparr>cls = c, num_sgn = num_sgn v, nbits = n, digit = d\<rparr> (nbits v) (digit v))"

section \<open>Compound assignments\<close>

definition plus_assign :: "sc_number \<Rightarrow> sc_number \<Rightarrow> sc_number" where
  "plus_assign u v =
     (if num_sgn u = SC_ZERO then assign u v
      else if num_sgn v = SC_ZERO then u
      else convert_SM_to_2C_to_SM (put u (add_on_help (num_sgn u) (digit u) (num_sgn v) (digit v))))"

definition minus_assign :: "sc_number \<Rightarrow> sc_number \<Rightarrow> sc_number" where
  "minus_assign u v =
     (if num_sgn v = SC_ZERO then u
      else if num_sgn u = SC_ZERO then copy_digits (u\<lparr>num_sgn := - num_sgn v\<rparr>) (nbits v) (digit v)
      else convert_SM_to_2C_to_SM (put u (add_on_help (num_sgn u) (digit u) (- num_sgn v) (digit v))))"

definition times_assign :: "sc_number \<Rightarrow> sc_number \<Rightarrow> sc_number" where
  "times_assign u v =
     (let u = u\<lparr>num_sgn := mul_signs (num_sgn u) (num_sgn v)\<rparr> in
      if num_sgn u = SC_ZERO then u\<lparr>digit := vec_zero 0 (length (digit u)) (digit u)\<rparr>
      else put u ((case cls u of SIGNED \<Rightarrow> mul_on_help_signed | UNSIGNED \<Rightarrow> mul_on_help_unsigned)
        (num_sgn u) (nbits u) (digit u) (nbits v) (digit v)))"

text \<open>A division by zero reports an error, which is an exception; the number keeps what was written before.\<close>

definition div_assign :: "sc_number \<Rightarrow> sc_number \<Rightarrow> sc_number \<times> fault option" where
  "div_assign u v =
     (let u = u\<lparr>num_sgn := mul_signs (num_sgn u) (num_sgn v)\<rparr> in
      if num_sgn u = SC_ZERO
      then if num_sgn v = 0 then (u, Some (ReportError SC_ID_OPERATION_FAILED))
           else (u\<lparr>digit := vec_zero 0 (length (digit u)) (digit u)\<rparr>, None)
      else (put u ((case cls u of SIGNED \<Rightarrow> div_on_help_signed | UNSIGNED \<Rightarrow> div_on_help_unsigned)
        (num_sgn u) (nbits u) (digit u) (nbits v) (digit v)), None))"

definition mod_assign :: "sc_number \<Rightarrow> sc_number \<Rightarrow> sc_number \<times> fault option" where
  "mod_assign u v =
     (if num_sgn u = SC_ZERO \<or> num_sgn v = SC_ZERO
      then if num_sgn v = 0 then (u, Some (ReportError SC_ID_OPERATION_FAILED))
           else (u\<lparr>digit := vec_zero 0 (length (digit u)) (digit u)\<rparr>, None)
      else (put u ((case cls u of SIGNED \<Rightarrow> mod_on_help_signed | UNSIGNED \<Rightarrow> mod_on_help_unsigned)
        (num_sgn u) (nbits u) (digit u) (digit v)), None))"

definition and_assign :: "sc_number \<Rightarrow> sc_number \<Rightarrow> sc_number" where
  "and_assign u v =
     (if num_sgn u = SC_ZERO \<or> num_sgn v = SC_ZERO then makezero u
      else convert_2C_to_SM (u\<lparr>digit := and_on_help (num_sgn u) (digit u) (num_sgn v) (digit v)\<rparr>))"

definition or_assign :: "sc_number \<Rightarrow> sc_number \<Rightarrow> sc_number" where
  "or_assign u v =
     (if num_sgn v = SC_ZERO then u else if num_sgn u = SC_ZERO then assign u v
      else convert_2C_to_SM (u\<lparr>digit := or_on_help (num_sgn u) (digit u) (num_sgn v) (digit v)\<rparr>))"

definition xor_assign :: "sc_number \<Rightarrow> sc_number \<Rightarrow> sc_number" where
  "xor_assign u v =
     (if num_sgn v = SC_ZERO then u else if num_sgn u = SC_ZERO then assign u v
      else convert_2C_to_SM (u\<lparr>digit := xor_on_help (num_sgn u) (digit u) (num_sgn v) (digit v)\<rparr>))"

text \<open>A shift takes an \<open>unsigned long\<close> and hands it over as an \<open>int\<close>.\<close>

definition int_of_ulong :: "64 word \<Rightarrow> int" where
  "int_of_ulong v = sint (ucast v :: 32 word)"

definition shift_left_assign :: "sc_number \<Rightarrow> 64 word \<Rightarrow> sc_number" where
  "shift_left_assign u v =
     (if v = 0 then u else if num_sgn u = SC_ZERO then u
      else convert_2C_to_SM (u\<lparr>digit := vec_shift_left (convert_SM_to_2C (num_sgn u) (digit u)) (int_of_ulong v)\<rparr>))"

definition shift_right_assign :: "sc_number \<Rightarrow> 64 word \<Rightarrow> sc_number" where
  "shift_right_assign u v =
     (if v = 0 then u else if num_sgn u = SC_ZERO then u
      else convert_2C_to_SM (u\<lparr>digit := vec_shift_right (convert_SM_to_2C (num_sgn u) (digit u)) (int_of_ulong v)
        (if num_sgn u = SC_NEG then DIGIT_MASK else 0)\<rparr>))"

section \<open>Comparisons\<close>

definition num_equal :: "sc_number \<Rightarrow> sc_number \<Rightarrow> bool" where
  "num_equal u v \<longleftrightarrow> (if num_sgn u \<noteq> num_sgn v then False else if vec_skip_and_cmp (digit u) (digit v) \<noteq> 0 then False else True)"

definition num_less :: "sc_number \<Rightarrow> sc_number \<Rightarrow> bool" where
  "num_less u v \<longleftrightarrow>
     (if num_sgn u < num_sgn v then True else if num_sgn u > num_sgn v then False
      else if num_sgn u = SC_POS then vec_skip_and_cmp (digit u) (digit v) < 0
      else if num_sgn u = SC_NEG then vec_skip_and_cmp (digit u) (digit v) > 0 else False)"

definition num_not_equal :: "sc_number \<Rightarrow> sc_number \<Rightarrow> bool" where
  "num_not_equal u v \<longleftrightarrow> \<not> num_equal u v"

definition num_less_equal :: "sc_number \<Rightarrow> sc_number \<Rightarrow> bool" where
  "num_less_equal u v \<longleftrightarrow> num_less u v \<or> num_equal u v"

definition num_greater :: "sc_number \<Rightarrow> sc_number \<Rightarrow> bool" where
  "num_greater u v \<longleftrightarrow> \<not> num_less_equal u v"

definition num_greater_equal :: "sc_number \<Rightarrow> sc_number \<Rightarrow> bool" where
  "num_greater_equal u v \<longleftrightarrow> \<not> num_less u v"

section \<open>The number that an object stands for\<close>

definition num_val :: "sc_number \<Rightarrow> int" where
  "num_val n = num_sgn n * int (dval (digit n))"

definition wrap :: "class_type \<Rightarrow> nat \<Rightarrow> int \<Rightarrow> int" where
  "wrap c nb x = (case c of SIGNED \<Rightarrow> wrap_signed nb x | UNSIGNED \<Rightarrow> wrap_unsigned nb x)"

definition num_wf :: "sc_number \<Rightarrow> bool" where
  "num_wf n \<longleftrightarrow> num_fits (nbits n) (digit n) \<and> digits_ok (digit n) \<and> sign_ok (num_sgn n) (digit n)"

text \<open>The invariant of the classes: the digits are as many as the width needs and below the radix, the sign is that of the
  number, and the number is in the range of the width.\<close>

definition num_ok :: "sc_number \<Rightarrow> bool" where
  "num_ok n \<longleftrightarrow> num_wf n \<and> wrap (cls n) (nbits n) (num_val n) = num_val n"

text \<open>\<open>m\<close> is an object of the class and the width of \<open>u\<close> that holds \<open>x\<close>, wrapped into that width.\<close>

definition takes :: "sc_number \<Rightarrow> int \<Rightarrow> sc_number \<Rightarrow> bool" where
  "takes u x m \<longleftrightarrow> cls m = cls u \<and> nbits m = nbits u \<and> num_ok m \<and> num_val m = wrap (cls u) (nbits u) x"

interpretation kind: number_kind "CONVERT_SM_to_2C_to_SM c" "COPY_DIGITS c" "wrap c" for c
proof (cases c)
  case SIGNED
  then show "number_kind (CONVERT_SM_to_2C_to_SM c) (COPY_DIGITS c) (wrap c)"
    using signed.number_kind_axioms by (simp add: CONVERT_SM_to_2C_to_SM_def COPY_DIGITS_def wrap_def [abs_def])
next
  case UNSIGNED
  then show "number_kind (CONVERT_SM_to_2C_to_SM c) (COPY_DIGITS c) (wrap c)"
    using unsigned.number_kind_axioms by (simp add: CONVERT_SM_to_2C_to_SM_def COPY_DIGITS_def wrap_def [abs_def])
qed

lemma wrap_wrap: "wrap c nb (wrap c nb x) = wrap c nb x"
  by (cases c) (simp_all add: wrap_def wrap_signed_def wrap_unsigned_def)

lemma takesI:
  assumes "num_fits (nbits u) (digit u)" and "sm_val r = wrap (cls u) (nbits u) x \<and> sm_ok r (length (digit u))"
    and "cls m = cls u" and "nbits m = nbits u" and "num_sgn m = fst r" and "digit m = snd r"
  shows "takes u x m"
proof -
  have "num_fits (nbits m) (digit m)" using assms by (simp add: fits_same sm_ok_def)
  then have "num_wf m" using assms by (simp add: num_wf_def sm_ok_def)
  moreover have "num_val m = wrap (cls u) (nbits u) x" using assms by (simp add: num_val_def sm_val_def)
  ultimately show ?thesis using assms(3,4) by (simp add: takes_def num_ok_def wrap_wrap)
qed

lemma takes_self: "num_ok u \<Longrightarrow> takes u (num_val u) u"
  by (simp add: takes_def num_ok_def)

lemma takes_id: "num_ok u \<Longrightarrow> x = num_val u \<Longrightarrow> takes u x u"
  by (simp add: takes_self)

lemma num_okD:
  assumes "num_ok n"
  shows "num_fits (nbits n) (digit n)" and "digits_ok (digit n)" and "sign_ok (num_sgn n) (digit n)" and "sign_pre (num_sgn n) (digit n)"
    and "dval (digit n) < 2 ^ nbits n" and "0 < nbits n"
proof -
  show f: "num_fits (nbits n) (digit n)" "digits_ok (digit n)" "sign_ok (num_sgn n) (digit n)" using assms by (simp_all add: num_ok_def num_wf_def)
  then show "sign_pre (num_sgn n) (digit n)" by (auto simp: sign_ok_def sign_pre_def)
  show pos: "0 < nbits n" using f(1) by (rule fits_bits(4))
  have "\<bar>num_val n\<bar> \<le> 2 ^ (nbits n - 1)" by (rule kind.wrap_bound [where c = "cls n"]) (use assms in \<open>simp add: num_ok_def\<close>)
  moreover have "\<bar>num_val n\<bar> = int (dval (digit n))" using f(3) by (auto simp: sign_ok_def num_val_def)
  ultimately have "int (dval (digit n)) \<le> int (2 ^ (nbits n - 1))" by simp
  then have "dval (digit n) \<le> 2 ^ (nbits n - 1)" by (simp only: of_nat_le_iff)
  also have "(2 :: nat) ^ (nbits n - 1) < 2 ^ nbits n" using pos by (intro power_strict_increasing) simp_all
  finally show "dval (digit n) < 2 ^ nbits n" .
qed

lemma sgn_zero_iff: "num_ok n \<Longrightarrow> num_sgn n = SC_ZERO \<longleftrightarrow> num_val n = 0"
  using num_okD(3) [of n] by (auto simp: sign_ok_def num_val_def SC_ZERO_def)

lemma sgn_unit: "num_ok n \<Longrightarrow> num_sgn n \<noteq> SC_ZERO \<Longrightarrow> (num_sgn n = 1 \<or> num_sgn n = -1) \<and> 0 < dval (digit n)"
  using num_okD(3) [of n] by (auto simp: sign_ok_def SC_ZERO_def)

text \<open>Copying the digits of \<open>v\<close> under a sign.\<close>

lemma copy_digits_takes:
  assumes "num_ok u" and "num_ok v" and "s = 1 \<or> s = -1" and "num_sgn v \<noteq> SC_ZERO"
  shows "takes u (s * int (dval (digit v))) (copy_digits (u\<lparr>num_sgn := s\<rparr>) (nbits v) (digit v))"
proof -
  note u = num_okD [OF assms(1)] and v = num_okD [OF assms(2)]
  have s: "sign_ok s (digit v)" using assms(3) sgn_unit [OF assms(2,4)] by (auto simp: sign_ok_def)
  have "dval (digit v) < 2 ^ (nbits u - 1)" if "nbits v < nbits u"
  proof -
    have "(2 :: nat) ^ nbits v \<le> 2 ^ (nbits u - 1)" using that by (intro power_increasing) simp_all
    then show ?thesis using v(5) by (rule less_le_trans [rotated])
  qed
  from kind.copy_value [OF v(2) u(1) s this, where c = "cls u"] show ?thesis
    by (intro takesI [OF u(1)]) (simp_all add: copy_digits_def put_def)
qed

lemma zero_takes:
  assumes "num_ok u" and "x = 0"
  shows "takes u x (u\<lparr>num_sgn := SC_ZERO, digit := vec_zero 0 (length (digit u)) (digit u)\<rparr>)"
  using kind.zero_value [where c = "cls u" and u = "digit u" and nb = "nbits u"] assms(2)
  by (intro takesI [OF num_okD(1) [OF assms(1)], where r = "(SC_ZERO, vec_zero 0 (length (digit u)) (digit u))"]) simp_all

lemma assign_takes: "num_ok u \<Longrightarrow> num_ok v \<Longrightarrow> takes u (num_val v) (assign u v)"
proof (cases "num_sgn v = SC_ZERO")
  case True
  assume "num_ok u" "num_ok v"
  then show ?thesis using True zero_takes [of u "num_val v"] sgn_zero_iff [of v] by (simp add: assign_def Let_def)
next
  case False
  assume "num_ok u" "num_ok v"
  then show ?thesis using False copy_digits_takes [of u v "num_sgn v"] sgn_unit [of v] by (simp add: assign_def Let_def num_val_def)
qed

section \<open>Sums, differences and products\<close>

lemma add_takes:
  assumes "num_ok u" and "num_ok v" and "num_sgn u \<noteq> SC_ZERO" and "num_sgn v \<noteq> SC_ZERO" and "s = num_sgn v \<or> s = - num_sgn v"
  shows "takes u (num_val u + s * int (dval (digit v)))
    (convert_SM_to_2C_to_SM (put u (add_on_help (num_sgn u) (digit u) s (digit v))))"
proof -
  note u = num_okD [OF assms(1)] and v = num_okD [OF assms(2)]
  obtain t d where a: "add_on_help (num_sgn u) (digit u) s (digit v) = (t, d)" by fastforce
  have s: "sign_ok s (digit v)" "s \<noteq> 0" "num_sgn u \<noteq> 0" using v(3) assms(3-5) by (auto simp: sign_ok_def SC_ZERO_def)
  show ?thesis
    using kind.add_value [OF u(2) v(2) u(3) s(1,3,2) u(1) a, where c = "cls u"]
    by (intro takesI [OF u(1)]) (simp_all add: convert_SM_to_2C_to_SM_def put_def a num_val_def)
qed

text \<open>Objects for the witnesses.\<close>

lemmas num_eval = num_ok_def num_wf_def fits_length sign_ok_def num_val_def RADIX_nat wrap_def wrap_signed_def wrap_unsigned_def
  signed_take_bit_eq_take_bit_minus take_bit_eq_mod

definition minus_eight :: sc_number where
  "minus_eight = \<lparr>cls = SIGNED, num_sgn = -1, nbits = 4, digit = [8]\<rparr>"

definition number_zero_4 :: sc_number where
  "number_zero_4 = \<lparr>cls = SIGNED, num_sgn = 0, nbits = 4, digit = [0]\<rparr>"

definition unsigned_five :: sc_number where
  "unsigned_five = \<lparr>cls = UNSIGNED, num_sgn = 1, nbits = 4, digit = [5]\<rparr>"

lemma examples_ok: "num_ok minus_eight" "num_ok number_zero_4" "num_ok unsigned_five"
  and examples_val: "num_val minus_eight = -8" "num_val number_zero_4 = 0" "num_val unsigned_five = 5"
  and examples_cls: "cls minus_eight = SIGNED" "cls unsigned_five = UNSIGNED" "nbits minus_eight = 4" "nbits unsigned_five = 4" "num_sgn unsigned_five = 1"
  by (simp_all add: minus_eight_def number_zero_4_def unsigned_five_def num_eval)

lemma arithmetic_takes:
  assumes "num_ok u" and "num_ok v"
  shows "takes u (num_val u + num_val v) (plus_assign u v) \<and> takes u (num_val u - num_val v) (minus_assign u v) \<and>
    takes u (num_val u * num_val v) (times_assign u v)"
proof (intro conjI)
  note u = num_okD [OF assms(1)] and v = num_okD [OF assms(2)]
  note zu = sgn_zero_iff [OF assms(1)] and zv = sgn_zero_iff [OF assms(2)]
  show "takes u (num_val u + num_val v) (plus_assign u v)"
    using add_takes [OF assms, of "num_sgn v"] assign_takes [OF assms] takes_id [OF assms(1)] zu zv
    by (auto simp: plus_assign_def num_val_def)
  show "takes u (num_val u - num_val v) (minus_assign u v)"
    using add_takes [OF assms, of "- num_sgn v"] copy_digits_takes [OF assms, of "- num_sgn v"] takes_id [OF assms(1)] zu zv
      sgn_unit [OF assms(2)] by (auto simp: minus_assign_def num_val_def)
  show "takes u (num_val u * num_val v) (times_assign u v)"
  proof (cases "num_sgn u = SC_ZERO \<or> num_sgn v = SC_ZERO")
    case True
    then show ?thesis using zero_takes [OF assms(1), of "num_val u * num_val v"] zu zv by (auto simp: times_assign_def mul_signs_def)
  next
    case False
    define s where "s = mul_signs (num_sgn u) (num_sgn v)"
    have s: "s = 1 \<or> s = -1" "s = num_sgn u * num_sgn v"
      using False sgn_unit [OF assms(1)] sgn_unit [OF assms(2)] by (auto simp: s_def mul_signs_def SC_POS_def SC_NEG_def SC_ZERO_def)
    have e: "(case cls u of SIGNED \<Rightarrow> mul_on_help_signed | UNSIGNED \<Rightarrow> mul_on_help_unsigned) = mul_on_help (CONVERT_SM_to_2C_to_SM (cls u)) (COPY_DIGITS (cls u))"
      by (cases "cls u") (simp_all add: mul_on_help_signed_def mul_on_help_unsigned_def CONVERT_SM_to_2C_to_SM_def COPY_DIGITS_def)
    have "num_val u * num_val v = s * (int (dval (digit u)) * int (dval (digit v)))" by (simp add: num_val_def s(2))
    then show ?thesis
      using kind.mul_value [OF u(2) v(2) _ _ s(1) u(1) v(5), where c = "cls u"] False sgn_unit [OF assms(1)] sgn_unit [OF assms(2)] s(1)
      by (intro takesI [OF u(1)]) (auto simp: times_assign_def Let_def put_def e SC_ZERO_def simp flip: s_def)
  qed
qed

text \<open>C18: For numbers of any class, width and sign, \<open>+=\<close>, \<open>-=\<close> and \<open>*=\<close> store the sum, the difference and the product of the
  numbers, wrapped into the width of the left side, and keep the invariant of the class.\<close>

lemma compound_arithmetic:
  assumes "num_ok u" and "num_ok v"
  shows "takes u (num_val u + num_val v) (plus_assign u v) \<and> takes u (num_val u - num_val v) (minus_assign u v) \<and>
    takes u (num_val u * num_val v) (times_assign u v)"
  by (rule arithmetic_takes [OF assms])

lemma compound_arithmetic_witness:
  "num_val (times_assign minus_eight unsigned_five) = -8 \<and> num_val (plus_assign unsigned_five unsigned_five) = 2 \<and>
   num_val (minus_assign unsigned_five minus_eight) = 5"
  using compound_arithmetic [OF examples_ok(1,3)] compound_arithmetic [OF examples_ok(3,3)] compound_arithmetic [OF examples_ok(3,1)]
  by (simp add: takes_def examples_val examples_cls wrap_def wrap_signed_def wrap_unsigned_def signed_take_bit_eq_take_bit_minus take_bit_eq_mod)

section \<open>Quotients and remainders\<close>

lemma division_takes:
  assumes "num_ok u" and "num_ok v" and "num_val v \<noteq> 0"
  shows "snd (div_assign u v) = None \<and> takes u (num_val u sdiv num_val v) (fst (div_assign u v)) \<and>
    snd (mod_assign u v) = None \<and> takes u (num_val u smod num_val v) (fst (mod_assign u v))"
proof (cases "num_sgn u = SC_ZERO")
  case True
  then have "num_val u = 0" "num_sgn v \<noteq> 0" using sgn_zero_iff assms by (auto simp: SC_ZERO_def)
  moreover have "takes u 0 (u\<lparr>digit := vec_zero 0 (length (digit u)) (digit u)\<rparr>)"
    using kind.zero_value [where c = "cls u" and u = "digit u" and nb = "nbits u"] True
    by (intro takesI [OF num_okD(1) [OF assms(1)], where r = "(SC_ZERO, vec_zero 0 (length (digit u)) (digit u))"]) simp_all
  ultimately show ?thesis using True zero_takes [OF assms(1), of 0]
    by (simp add: div_assign_def mod_assign_def mul_signs_def signed_divide_int_def signed_modulo_int_def)
next
  case False
  note u = num_okD [OF assms(1)] and v = num_okD [OF assms(2)]
  have nz: "num_sgn v \<noteq> SC_ZERO" using assms(3) sgn_zero_iff [OF assms(2)] by simp
  note su = sgn_unit [OF assms(1) False] and sv = sgn_unit [OF assms(2) nz]
  define s where "s = mul_signs (num_sgn u) (num_sgn v)"
  have s: "s = 1 \<or> s = -1" "s = num_sgn u * num_sgn v" "s \<noteq> SC_ZERO"
    using su sv by (auto simp: s_def mul_signs_def SC_POS_def SC_NEG_def SC_ZERO_def)
  let ?C = "CONVERT_SM_to_2C_to_SM (cls u)" and ?D = "COPY_DIGITS (cls u)"
  have e: "(case cls u of SIGNED \<Rightarrow> div_on_help_signed | UNSIGNED \<Rightarrow> div_on_help_unsigned) = div_on_help ?C ?D"
    "(case cls u of SIGNED \<Rightarrow> mod_on_help_signed | UNSIGNED \<Rightarrow> mod_on_help_unsigned) = mod_on_help ?D"
    by (cases "cls u"; simp add: div_on_help_signed_def div_on_help_unsigned_def mod_on_help_signed_def mod_on_help_unsigned_def
      CONVERT_SM_to_2C_to_SM_def COPY_DIGITS_def)+
  have abs: "\<bar>num_val u\<bar> = int (dval (digit u))" "\<bar>num_val v\<bar> = int (dval (digit v))" "sgn (num_val u) = num_sgn u" "sgn (num_val v) = num_sgn v"
    using su sv by (auto simp: num_val_def sgn_if)
  have q: "num_val u sdiv num_val v = s * int (dval (digit u) div dval (digit v))"
    "num_val u smod num_val v = num_sgn u * int (dval (digit u) mod dval (digit v))"
    unfolding signed_divide_int_def signed_modulo_int_def abs s(2) by (simp_all add: zdiv_int zmod_int)
  have "wrap (cls u) (nbits u) (num_sgn u * int (dval (digit u))) = num_sgn u * int (dval (digit u))"
    using assms(1) by (simp add: num_ok_def num_val_def)
  note m = kind.mod_value [OF u(2) v(2) _ _ _ u(1) this]
  have "snd (div_assign u v) = None" "snd (mod_assign u v) = None" using False nz s(3) by (simp_all add: div_assign_def mod_assign_def Let_def flip: s_def)
  moreover have "takes u (num_val u sdiv num_val v) (fst (div_assign u v))"
    unfolding q using kind.div_value [OF u(2) v(2) _ _ s(1) u(1), where c = "cls u"] su sv s(3)
    by (intro takesI [OF u(1)]) (auto simp: div_assign_def Let_def put_def e simp flip: s_def)
  moreover have "takes u (num_val u smod num_val v) (fst (mod_assign u v))"
    unfolding q using m su sv False nz
    by (intro takesI [OF u(1)]) (auto simp: mod_assign_def Let_def put_def e)
  ultimately show ?thesis by simp
qed

text \<open>C20: \<open>/=\<close> and \<open>%=\<close> by a number other than zero store the quotient, rounded towards zero, and the remainder, of the sign of
  the left side, and keep the invariant of the class.\<close>

lemma compound_division:
  assumes "num_ok u" and "num_ok v" and "num_val v \<noteq> 0"
  shows "snd (div_assign u v) = None \<and> takes u (num_val u sdiv num_val v) (fst (div_assign u v)) \<and>
    snd (mod_assign u v) = None \<and> takes u (num_val u smod num_val v) (fst (mod_assign u v))"
  by (rule division_takes [OF assms])

lemma compound_division_witness:
  "num_val (fst (div_assign minus_eight unsigned_five)) = -1 \<and> num_val (fst (mod_assign minus_eight unsigned_five)) = -3 \<and>
   num_val (fst (div_assign unsigned_five minus_eight)) = 0"
  using compound_division [OF examples_ok(1,3)] compound_division [OF examples_ok(3,1)]
  by (simp add: takes_def examples_val examples_cls wrap_def wrap_signed_def wrap_unsigned_def signed_take_bit_eq_take_bit_minus take_bit_eq_mod signed_divide_int_def signed_modulo_int_def)

text \<open>C23: A division by zero reports an error.  \<open>%=\<close> then leaves the number as it was, but \<open>/=\<close> has cleared its sign before and
  not its digits: a number other than zero is left outside the invariant of the class.\<close>

lemma failed_division:
  assumes "num_ok u" and "num_val u \<noteq> 0" and "num_sgn v = SC_ZERO"
  shows "mod_assign u v = (u, Some (ReportError SC_ID_OPERATION_FAILED)) \<and>
    snd (div_assign u v) = Some (ReportError SC_ID_OPERATION_FAILED) \<and> num_val (fst (div_assign u v)) = 0 \<and>
    digit (fst (div_assign u v)) = digit u \<and> \<not> num_ok (fst (div_assign u v))"
  using assms by (auto simp: mod_assign_def div_assign_def mul_signs_def SC_ZERO_def num_val_def num_ok_def num_wf_def sign_ok_def)

lemma failed_division_witness:
  "mod_assign minus_eight number_zero_4 = (minus_eight, Some (ReportError SC_ID_OPERATION_FAILED)) \<and>
   num_val (fst (div_assign minus_eight number_zero_4)) = 0 \<and> \<not> num_ok (fst (div_assign minus_eight number_zero_4))"
  using failed_division [OF examples_ok(1), of number_zero_4] by (simp add: examples_val) (simp add: number_zero_4_def SC_ZERO_def)

section \<open>Bitwise operations\<close>

lemma convert_2C_takes:
  assumes "num_ok u" and "digits_ok d" and "length d = length (digit u)" and "int (dval d) mod 2 ^ nbits u = x mod 2 ^ nbits u"
  shows "takes u x (convert_2C_to_SM (u\<lparr>digit := d\<rparr>))"
proof -
  note u = num_okD [OF assms(1)]
  have f: "num_fits (nbits u) d" using u(1) assms(3) by (rule fits_same)
  have w: "wrap (cls u) (nbits u) (int (dval d)) = wrap (cls u) (nbits u) x" by (rule kind.wrap_cong [OF u(6) assms(4)])
  show ?thesis
    using convert_signed_2C_value [OF assms(2) f] convert_unsigned_2C_value [OF assms(2) f] w assms(3)
    by (intro takesI [OF u(1)]) (simp_all add: convert_2C_to_SM_def put_def wrap_def split: class_type.splits)
qed

lemma bitwise_takes:
  assumes "num_ok u" and "num_ok v"
  shows "takes u (num_val u AND num_val v) (and_assign u v) \<and> takes u (num_val u OR num_val v) (or_assign u v) \<and>
    takes u (num_val u XOR num_val v) (xor_assign u v)"
proof -
  note u = num_okD [OF assms(1)] and v = num_okD [OF assms(2)]
  note zu = sgn_zero_iff [OF assms(1)] and zv = sgn_zero_iff [OF assms(2)]
  have mz: "makezero u = u\<lparr>num_sgn := SC_ZERO, digit := vec_zero 0 (length (digit u)) (digit u)\<rparr>"
    by (simp add: makezero_def make_zero_def put_def)
  show ?thesis
  proof (cases "num_sgn u = SC_ZERO \<or> num_sgn v = SC_ZERO")
    case True
    have "takes u 0 (makezero u)" unfolding mz by (rule zero_takes [OF assms(1) refl])
    then show ?thesis using True zu zv takes_id [OF assms(1)] assign_takes [OF assms]
      by (auto simp: and_assign_def or_assign_def xor_assign_def)
  next
    case False
    then have nz: "num_sgn u \<noteq> SC_ZERO" "num_sgn v \<noteq> SC_ZERO" by simp_all
    note b = bits_on_help_value [OF u(2) v(2) conjunct1 [OF sgn_unit [OF assms(1) nz(1)]] conjunct1 [OF sgn_unit [OF assms(2) nz(2)]] u(1), folded num_val_def]
    show ?thesis
      using convert_2C_takes [OF assms(1)] b nz by (simp add: and_assign_def or_assign_def xor_assign_def)
  qed
qed

text \<open>\<open>&=\<close>, \<open>|=\<close> and \<open>^=\<close> work on the two's complements of the numbers, going on for ever, and store what falls into the width
  of the left side.\<close>

lemma compound_bitwise:
  assumes "num_ok u" and "num_ok v"
  shows "takes u (num_val u AND num_val v) (and_assign u v) \<and> takes u (num_val u OR num_val v) (or_assign u v) \<and>
    takes u (num_val u XOR num_val v) (xor_assign u v)"
  by (rule bitwise_takes [OF assms])

lemma compound_bitwise_witness:
  "num_val (and_assign minus_eight unsigned_five) = 0 \<and> num_val (or_assign minus_eight unsigned_five) = -3 \<and>
   num_val (xor_assign unsigned_five unsigned_five) = 0"
  using compound_bitwise [OF examples_ok(1,3)] compound_bitwise [OF examples_ok(3,3)]
  by (simp add: takes_def examples_val examples_cls wrap_def wrap_signed_def wrap_unsigned_def signed_take_bit_eq_take_bit_minus take_bit_eq_mod)

section \<open>Shifts\<close>

lemma int_of_ulong_small: "unat v < 2 ^ 31 \<Longrightarrow> int_of_ulong v = int (unat v)"
proof -
  assume v: "unat v < 2 ^ 31"
  then have u: "unat (ucast v :: 32 word) = unat v" by (simp add: unsigned_ucast_eq take_bit_nat_eq_self)
  have "sint (ucast v :: 32 word) = signed_take_bit 31 (int (unat (ucast v :: 32 word)))" by (simp add: sint_uint)
  also have "\<dots> = int (unat v)"
  proof -
    have "int (unat v) < int (2 ^ 31)" using v by (simp only: of_nat_less_iff)
    moreover have "- (2 ^ 31) \<le> (0 :: int)" "0 \<le> int (unat v)" by (simp, rule of_nat_0_le_iff)
    ultimately show ?thesis unfolding u by (intro signed_take_bit_int_eq_self) (linarith, simp only: of_nat_power of_nat_numeral)
  qed
  finally show ?thesis by (simp add: int_of_ulong_def)
qed

text \<open>The count is what is left of it as an \<open>int\<close>; a negative one shifts by nothing.\<close>

lemma shifts_take:
  assumes "num_ok u"
  shows "takes u (num_val u * 2 ^ nat (int_of_ulong n)) (shift_left_assign u n) \<and>
    takes u (num_val u div 2 ^ nat (int_of_ulong n)) (shift_right_assign u n)"
proof (cases "n = 0 \<or> num_sgn u = SC_ZERO")
  case True
  then show ?thesis using takes_id [OF assms(1)] sgn_zero_iff [OF assms(1)]
    by (auto simp: shift_left_assign_def shift_right_assign_def int_of_ulong_def)
next
  case False
  note u = num_okD [OF assms(1)]
  let ?M = "int RADIX ^ length (digit u)" and ?s = "nat (int_of_ulong n)" and ?x = "num_val u"
  define d where "d = convert_SM_to_2C (num_sgn u) (digit u)"
  note d = SM_to_2C_value [OF u(2,4), folded d_def num_val_def]
  note l = vec_shift_left_value [OF d(2), of "int_of_ulong n", unfolded d(3)]
  have "int (dval (vec_shift_left d (int_of_ulong n))) mod 2 ^ nbits u = (?x * 2 ^ ?s) mod 2 ^ nbits u"
  proof -
    have "int (dval (vec_shift_left d (int_of_ulong n))) = (int (dval d) * 2 ^ ?s) mod ?M" using l by (simp add: zmod_int)
    also have "\<dots> = (?x * 2 ^ ?s) mod ?M" unfolding d(1) by (simp only: mod_mult_left_eq)
    finally show ?thesis by (simp only: SM_mod [OF u(1)])
  qed
  then have left: "takes u (?x * 2 ^ ?s) (shift_left_assign u n)"
    using convert_2C_takes [OF assms(1)] l False by (simp add: shift_left_assign_def d_def)
  define fill where "fill = (if num_sgn u = SC_NEG then DIGIT_MASK else 0)"
  have fill: "fill = 0 \<or> fill = DIGIT_MASK" by (simp add: fill_def)
  note r = vec_shift_right_value [OF d(2) fill, of "int_of_ulong n", unfolded d(3)]
  have "int (dval (vec_shift_right d (int_of_ulong n) fill)) mod 2 ^ nbits u = (?x div 2 ^ ?s) mod 2 ^ nbits u"
  proof -
    have less: "int (dval (digit u)) < ?M" using dval_less [OF u(2)] by (simp flip: of_nat_power)
    have "num_sgn u = 1 \<or> num_sgn u = -1" using sgn_unit [OF assms(1)] False by simp
    then have "(int (fill_bits fill ?s) * ?M + int (dval d)) div 2 ^ ?s = ?x div 2 ^ ?s \<or>
      (int (fill_bits fill ?s) * ?M + int (dval d)) div 2 ^ ?s = ?x div 2 ^ ?s + ?M"
    proof
      assume p: "num_sgn u = 1"
      then have "fill = 0" "?x = int (dval (digit u))" by (simp_all add: fill_def SC_NEG_def num_val_def)
      then show ?thesis using less d(1) by (simp add: fill_bits_def)
    next
      assume p: "num_sgn u = -1"
      have "fill = DIGIT_MASK" using p by (simp add: fill_def SC_NEG_def)
      then have "int (fill_bits fill ?s) = 2 ^ ?s - 1" by (simp add: fill_bits_def DIGIT_MASK_def of_nat_diff)
      moreover have x: "?x = - int (dval (digit u))" "0 < dval (digit u)" using p sgn_unit [OF assms(1)] False by (simp_all add: num_val_def)
      then have "int (dval d) = ?M + ?x" using less unfolding d(1) x by (simp add: zmod_zminus1_eq_if)
      ultimately have "int (fill_bits fill ?s) * ?M + int (dval d) = ?x + ?M * 2 ^ ?s" by (simp add: left_diff_distrib right_diff_distrib mult.commute)
      then show ?thesis by simp
    qed
    moreover have "(?x div 2 ^ ?s + ?M) mod 2 ^ nbits u = (?x div 2 ^ ?s) mod 2 ^ nbits u"
      using radix_bits [OF fits_bits(5) [OF u(1)]] by (metis mod_add_right_eq mod_0_imp_dvd dvd_imp_mod_0 add.right_neutral)
    moreover have "int (dval (vec_shift_right d (int_of_ulong n) fill)) = (int (fill_bits fill ?s) * ?M + int (dval d)) div 2 ^ ?s"
      using r by (simp add: zdiv_int)
    ultimately show ?thesis by auto
  qed
  then have "takes u (?x div 2 ^ ?s) (shift_right_assign u n)"
    using convert_2C_takes [OF assms(1)] r False by (simp add: shift_right_assign_def d_def fill_def)
  with left show ?thesis by simp
qed

text \<open>C21: A shift of a number by a count below \<open>2\<^sup>3\<^sup>1\<close>, which an \<open>int\<close> can hold, multiplies by the power of two, or divides by it and rounds down,
  whatever the sign of the number, and wraps into the width.\<close>

lemma compound_shifts:
  assumes "num_ok u" and "unat n < 2 ^ 31"
  shows "takes u (num_val u * 2 ^ unat n) (shift_left_assign u n) \<and> takes u (num_val u div 2 ^ unat n) (shift_right_assign u n)"
  using shifts_take [OF assms(1), of n] int_of_ulong_small [OF assms(2)] by simp

lemma compound_shifts_witness:
  "num_val (shift_right_assign minus_eight 2) = -2 \<and> num_val (shift_left_assign unsigned_five 1) = 2"
  using compound_shifts [OF examples_ok(1), of 2] compound_shifts [OF examples_ok(3), of 1]
  by (simp add: takes_def examples_val examples_cls wrap_def wrap_signed_def wrap_unsigned_def signed_take_bit_eq_take_bit_minus take_bit_eq_mod)

text \<open>A count beyond the range of \<open>int\<close> is cut: a shift by \<open>2 ^ 32\<close> changes no bit.\<close>

lemma shift_count_cut:
  assumes "num_ok u"
  shows "takes u (num_val u) (shift_left_assign u (2 ^ 32)) \<and> takes u (num_val u) (shift_right_assign u (2 ^ 32))"
  using shifts_take [OF assms, of "2 ^ 32"] by (simp add: int_of_ulong_def)

section \<open>Comparisons\<close>

text \<open>The comparisons of two numbers, of whatever widths, are those of the integers they hold.\<close>

lemma comparisons:
  assumes "num_ok u" and "num_ok v"
  shows "(num_equal u v \<longleftrightarrow> num_val u = num_val v) \<and> (num_not_equal u v \<longleftrightarrow> num_val u \<noteq> num_val v) \<and>
    (num_less u v \<longleftrightarrow> num_val u < num_val v) \<and> (num_less_equal u v \<longleftrightarrow> num_val u \<le> num_val v) \<and>
    (num_greater u v \<longleftrightarrow> num_val u > num_val v) \<and> (num_greater_equal u v \<longleftrightarrow> num_val u \<ge> num_val v)"
proof -
  note u = num_okD [OF assms(1)] and v = num_okD [OF assms(2)]
  have c: "sgn (vec_skip_and_cmp (digit u) (digit v)) = sgn (int (dval (digit u)) - int (dval (digit v)))"
    by (rule vec_skip_and_cmp_sign [OF u(2) v(2)])
  then have z: "vec_skip_and_cmp (digit u) (digit v) = 0 \<longleftrightarrow> dval (digit u) = dval (digit v)"
    "vec_skip_and_cmp (digit u) (digit v) < 0 \<longleftrightarrow> dval (digit u) < dval (digit v)"
    "vec_skip_and_cmp (digit u) (digit v) > 0 \<longleftrightarrow> dval (digit u) > dval (digit v)"
    by (auto simp: sgn_if split: if_splits)
  have eq: "num_equal u v \<longleftrightarrow> num_val u = num_val v"
    using u(3) v(3) by (elim sign_cases) (simp_all add: num_equal_def z num_val_def)
  have less: "num_less u v \<longleftrightarrow> num_val u < num_val v"
    using u(3) v(3) by (elim sign_cases) (simp_all add: num_less_def z num_val_def SC_POS_def SC_NEG_def)
  show ?thesis unfolding num_not_equal_def num_less_equal_def num_greater_def num_greater_equal_def eq less by auto
qed

lemma comparisons_witness:
  "num_less minus_eight unsigned_five \<and> num_greater_equal unsigned_five number_zero_4 \<and> num_not_equal unsigned_five minus_eight"
  using comparisons [OF examples_ok(1,3)] comparisons [OF examples_ok(3,2)] comparisons [OF examples_ok(3,1)] by (simp add: examples_val)

section \<open>The classes as types\<close>

lemma number_new_takes:
  assumes "number_new c nb = Inr n"
  shows "cls n = c \<and> num_ok n \<and> num_val n = 0"
proof -
  let ?n = "nat (num_bits c nb)"
  have nb: "0 < nb" and n: "n = makezero \<lparr>cls = c, num_sgn = SC_POS, nbits = ?n, digit = new_digits ?n\<rparr>"
    using assms by (simp_all add: number_new_def Let_def split: if_splits)
  have "0 < ?n" using nb by (cases c) (simp_all add: num_bits_def)
  then have "num_fits ?n (replicate (length (new_digits ?n)) 0)" by (simp add: num_fits_def new_digits_def)
  moreover have "wrap c ?n 0 = 0" by (rule kind.wrap_zero)
  ultimately show ?thesis
    by (simp add: n makezero_def make_zero_def put_def num_ok_def num_wf_def num_val_def sign_ok_def SC_ZERO_def)
qed

lemma convert_class_takes:
  assumes "num_ok v"
  defines "c \<equiv> (case cls v of SIGNED \<Rightarrow> UNSIGNED | UNSIGNED \<Rightarrow> SIGNED)"
  shows "cls (convert_class v) = c \<and> num_ok (convert_class v) \<and>
    num_val (convert_class v) = wrap c (nat (num_bits c (int (nbits v)))) (num_val v)"
proof -
  note v = num_okD [OF assms(1)]
  let ?n = "nat (num_bits c (int (nbits v)))"
  define d where "d = (case c of SIGNED \<Rightarrow> replicate (length (digit v)) 0 | UNSIGNED \<Rightarrow> new_digits ?n)"
  have f: "num_fits ?n d"
    using v(1,6) by (cases c) (simp_all add: d_def num_bits_def num_fits_def new_digits_def)
  have "dval (digit v) < 2 ^ (?n - 1)" if "nbits v < ?n"
  proof -
    have "(2 :: nat) ^ nbits v \<le> 2 ^ (?n - 1)" using that by (intro power_increasing) simp_all
    then show ?thesis by (rule less_le_trans [OF v(5)])
  qed
  note k = kind.copy_value [OF v(2) f v(3) this, where c = c]
  have e: "convert_class v = copy_digits \<lparr>cls = c, num_sgn = num_sgn v, nbits = ?n, digit = d\<rparr> (nbits v) (digit v)"
    unfolding convert_class_def Let_def d_def c_def by (cases "cls v") simp_all
  have "takes \<lparr>cls = c, num_sgn = num_sgn v, nbits = ?n, digit = d\<rparr> (num_val v) (convert_class v)"
    unfolding e using k f by (intro takesI) (simp_all add: copy_digits_def put_def num_val_def)
  then show ?thesis by (simp add: takes_def)
qed

definition keeps_type :: "sc_number \<Rightarrow> sc_number \<Rightarrow> bool" where
  "keeps_type u m \<longleftrightarrow> cls m = cls u \<and> nbits m = nbits u \<and> num_ok m"

lemma takes_type: "takes u x m \<Longrightarrow> keeps_type u m"
  by (simp add: takes_def keeps_type_def)

text \<open>C22: Every assignment, with operands of any class and width and any count of a shift, keeps the class and the width of the left
  side and the invariant of the class; so do the conversions and, but for a division by zero, the quotients.\<close>

lemma assignments_keep_type:
  assumes "num_ok u" and "num_ok v"
  shows "keeps_type u (assign u v) \<and> keeps_type u (plus_assign u v) \<and> keeps_type u (minus_assign u v) \<and> keeps_type u (times_assign u v) \<and>
    keeps_type u (and_assign u v) \<and> keeps_type u (or_assign u v) \<and> keeps_type u (xor_assign u v) \<and>
    keeps_type u (shift_left_assign u n) \<and> keeps_type u (shift_right_assign u n) \<and> keeps_type u (fst (mod_assign u v)) \<and>
    (num_val v = 0 \<or> keeps_type u (fst (div_assign u v))) \<and> num_ok (convert_class u) \<and> cls (convert_class u) \<noteq> cls u"
proof -
  have "mod_assign u v = (u, Some (ReportError SC_ID_OPERATION_FAILED))" if "num_val v = 0"
    using sgn_zero_iff [OF assms(2)] that by (simp add: mod_assign_def SC_ZERO_def)
  then have "keeps_type u (fst (mod_assign u v)) \<and> (num_val v = 0 \<or> keeps_type u (fst (div_assign u v)))"
    using assms(1) division_takes [OF assms] by (cases "num_val v = 0") (auto simp: keeps_type_def takes_def)
  moreover have "keeps_type u (assign u v)" by (rule takes_type [OF assign_takes [OF assms]])
  moreover have "cls (convert_class u) \<noteq> cls u" "num_ok (convert_class u)" using convert_class_takes [OF assms(1)] by (cases "cls u"; simp)+
  ultimately show ?thesis
    using arithmetic_takes [OF assms] bitwise_takes [OF assms] shifts_take [OF assms(1), of n] by (blast intro: takes_type)
qed

lemma assignments_keep_type_witness:
  "keeps_type unsigned_five (plus_assign unsigned_five minus_eight) \<and> keeps_type minus_eight (shift_left_assign minus_eight 70) \<and>
   num_ok (convert_class minus_eight)"
  using assignments_keep_type [OF examples_ok(3,1)] assignments_keep_type [OF examples_ok(1,3), of 70] by blast

end
