(* ===== verification/Sc_Number_Friends.thy ===== *)
theory Sc_Number_Friends
  imports Sc_Number
begin

text \<open>
  \<open>sc_nbfriends.inc\<close> and the operators that use it: the sum, difference, product, quotient, remainder and the bitwise
  combinations of two numbers as a new number, wide enough for the result.  The class of the result is signed unless
  both operands are unsigned; a difference is always signed.  A number that is just made has as many bits as the length
  context of the program says, which is an argument here.
\<close>

section \<open>Making numbers\<close>

definition number_of_parts :: "class_type \<Rightarrow> int \<Rightarrow> nat \<Rightarrow> sc_digit list \<Rightarrow> sc_number" where
  "number_of_parts c s nb d =
     (let n = nat (num_bits c (int nb)); u = new_digits n in
      \<lparr>cls = c, num_sgn = s, nbits = n, digit = (if length u \<le> length d then vec_copy (length u) u d else vec_copy_and_zero u d)\<rparr>)"

definition number_zero :: "class_type \<Rightarrow> nat \<Rightarrow> sc_number" where
  "number_zero c len = (let n = nat (num_bits c (int len)) in makezero \<lparr>cls = c, num_sgn = SC_POS, nbits = n, digit = new_digits n\<rparr>)"

definition as_class :: "class_type \<Rightarrow> sc_number \<Rightarrow> sc_number" where
  "as_class c v = (if cls v = c then v else convert_class v)"

text \<open>A copy under another sign, as a signed number.\<close>

definition with_sign :: "sc_number \<Rightarrow> int \<Rightarrow> sc_number" where
  "with_sign v s =
     (case cls v of SIGNED \<Rightarrow> v\<lparr>num_sgn := s\<rparr>
      | UNSIGNED \<Rightarrow> copy_digits \<lparr>cls = SIGNED, num_sgn = s, nbits = nbits v, digit = replicate (length (digit v)) 0\<rparr> (nbits v) (digit v))"

section \<open>Friends\<close>

definition add_friend :: "class_type \<Rightarrow> nat \<Rightarrow> int \<Rightarrow> nat \<Rightarrow> sc_digit list \<Rightarrow> int \<Rightarrow> nat \<Rightarrow> sc_digit list \<Rightarrow> sc_number" where
  "add_friend c len us unb ud vs vnb vd =
     (let u = take (vec_skip_leading_zeros ud) ud; v = take (vec_skip_leading_zeros vd) vd; und = length u; vnd = length v;
          nb = max unb vnb; nd = max und vnd + 1; d = replicate nd 0
      in if us = vs
         then number_of_parts c us (nb + 1)
           (if und = 1 \<and> vnd = 1 then let carry = u ! 0 + v ! 0 in d[0 := carry AND DIGIT_MASK, 1 := drop_bit BITS_PER_DIGIT carry]
            else if und \<ge> vnd then vec_add u v d else vec_add v u d)
         else let cmp_res = vec_cmp und ud vnd vd in
           if cmp_res = 0 then number_zero c len
           else if cmp_res > 0
           then number_of_parts c us nb (if und = 1 \<and> vnd = 1 then d[0 := u ! 0 - v ! 0] else vec_sub u v d)
           else number_of_parts c (- us) nb (if und = 1 \<and> vnd = 1 then d[0 := v ! 0 - u ! 0] else vec_sub v u d))"

definition mul_friend :: "class_type \<Rightarrow> int \<Rightarrow> nat \<Rightarrow> sc_digit list \<Rightarrow> nat \<Rightarrow> sc_digit list \<Rightarrow> sc_number" where
  "mul_friend c s unb ud vnb vd =
     (let u = take (vec_skip_leading_zeros ud) ud; v = take (vec_skip_leading_zeros vd) vd; und = length u; vnd = length v;
          nb = unb + vnb; d = replicate (und + vnd) 0; ud0 = ud ! 0; vd0 = vd ! 0
      in number_of_parts c s nb
        (if vnd = 1 \<and> vd0 = 1 then vec_copy und d u
         else if und = 1 \<and> ud0 = 1 then vec_copy vnd d v
         else if und = 1 \<and> vnd = 1 \<and> ud0 < HALF_DIGIT_RADIX \<and> vd0 < HALF_DIGIT_RADIX then d[0 := ud0 * vd0]
         else mul_digits u v))"

definition div_friend :: "class_type \<Rightarrow> nat \<Rightarrow> int \<Rightarrow> nat \<Rightarrow> sc_digit list \<Rightarrow> nat \<Rightarrow> sc_digit list \<Rightarrow> sc_number" where
  "div_friend c len s unb ud vnb vd =
     (let u = take (vec_skip_leading_zeros ud) ud; v = take (vec_skip_leading_zeros vd) vd; und = length u; vnd = length v;
          cmp_res = vec_cmp und ud vnd vd; d = replicate (max und vnd + 1) 0; vd0 = vd ! 0
      in if cmp_res < 0 then number_zero c len
         else number_of_parts c s (max unb vnb)
           (butlast (if cmp_res \<noteq> 0 \<and> vnd = 1 \<and> vd0 = 1 then vec_copy und d u else div_digits cmp_res u v)))"

definition mod_friend :: "class_type \<Rightarrow> nat \<Rightarrow> int \<Rightarrow> nat \<Rightarrow> sc_digit list \<Rightarrow> nat \<Rightarrow> sc_digit list \<Rightarrow> sc_number" where
  "mod_friend c len us unb ud vnb vd =
     (let u = take (vec_skip_leading_zeros ud) ud; v = take (vec_skip_leading_zeros vd) vd; und = length u; vnd = length v;
          cmp_res = vec_cmp und ud vnd vd; d = replicate (max und vnd + 1) 0; vd0 = vd ! 0
      in if cmp_res = 0 then number_zero c len
         else if cmp_res > 0 \<and> vnd = 1 \<and> vd0 = 1 then number_zero c len
         else let d = butlast (if cmp_res < 0 then vec_copy und d u
                  else if vnd = 1 \<and> und = 1 then d[0 := ud ! 0 mod vd0] else rem_digits u v);
                us = check_for_zero us d
              in if us = SC_ZERO then number_zero c len else number_of_parts c us (min unb vnb) d)"

text \<open>The bitwise friends put the longer vector first and run the loops of the compound assignments.\<close>

definition bits_friend :: "(sc_digit \<Rightarrow> sc_digit \<Rightarrow> sc_digit) \<Rightarrow> (sc_digit \<Rightarrow> sc_digit \<Rightarrow> sc_digit) \<Rightarrow> (sc_digit \<Rightarrow> sc_digit) \<Rightarrow> (sc_digit \<Rightarrow> sc_digit) \<Rightarrow>
    class_type \<Rightarrow> int \<Rightarrow> nat \<Rightarrow> sc_digit list \<Rightarrow> int \<Rightarrow> nat \<Rightarrow> sc_digit list \<Rightarrow> sc_number" where
  "bits_friend f e g g' c us unb ud vs vnb vd =
     (let nb = max unb vnb; (xs, x, ys, y) = (if length ud \<ge> length vd then (us, ud, vs, vd) else (vs, vd, us, ud));
          d = (if mul_signs xs ys > 0 then if xs > 0 then pp_loop e g x y else nn_loop f 1 1 x y
               else if xs > 0 then pn_loop f 1 x y else np_loop f g' 1 x y);
          (s, d) = convert_signed_2C_to_SM nb d
      in number_of_parts c s nb d)"

definition and_friend :: "class_type \<Rightarrow> int \<Rightarrow> nat \<Rightarrow> sc_digit list \<Rightarrow> int \<Rightarrow> nat \<Rightarrow> sc_digit list \<Rightarrow> sc_number" where
  "and_friend = bits_friend (AND) (AND) (\<lambda>x. 0) (\<lambda>xcarry. 0)"

definition or_friend :: "class_type \<Rightarrow> int \<Rightarrow> nat \<Rightarrow> sc_digit list \<Rightarrow> int \<Rightarrow> nat \<Rightarrow> sc_digit list \<Rightarrow> sc_number" where
  "or_friend = bits_friend (OR) (OR) (\<lambda>x. x) (\<lambda>xcarry. xcarry AND DIGIT_MASK)"

definition xor_friend :: "class_type \<Rightarrow> int \<Rightarrow> nat \<Rightarrow> sc_digit list \<Rightarrow> int \<Rightarrow> nat \<Rightarrow> sc_digit list \<Rightarrow> sc_number" where
  "xor_friend = bits_friend (XOR) (\<lambda>x y. (x XOR y) AND DIGIT_MASK) (\<lambda>x. x) (\<lambda>xcarry. xcarry AND DIGIT_MASK)"

section \<open>Operators\<close>

definition result_class :: "sc_number \<Rightarrow> sc_number \<Rightarrow> class_type" where
  "result_class u v = (if cls u = UNSIGNED \<and> cls v = UNSIGNED then UNSIGNED else SIGNED)"

definition op_plus :: "nat \<Rightarrow> sc_number \<Rightarrow> sc_number \<Rightarrow> sc_number" where
  "op_plus len u v =
     (if num_sgn u = SC_ZERO then as_class (result_class u v) v
      else if num_sgn v = SC_ZERO then as_class (result_class u v) u
      else add_friend (result_class u v) len (num_sgn u) (nbits u) (digit u) (num_sgn v) (nbits v) (digit v))"

definition op_minus :: "nat \<Rightarrow> sc_number \<Rightarrow> sc_number \<Rightarrow> sc_number" where
  "op_minus len u v =
     (if num_sgn v = SC_ZERO then as_class SIGNED u
      else if num_sgn u = SC_ZERO then with_sign v (- num_sgn v)
      else add_friend SIGNED len (num_sgn u) (nbits u) (digit u) (- num_sgn v) (nbits v) (digit v))"

definition op_times :: "nat \<Rightarrow> sc_number \<Rightarrow> sc_number \<Rightarrow> sc_number" where
  "op_times len u v =
     (let s = mul_signs (num_sgn u) (num_sgn v) in
      if s = SC_ZERO then number_zero (result_class u v) len
      else mul_friend (result_class u v) s (nbits u) (digit u) (nbits v) (digit v))"

definition op_div :: "nat \<Rightarrow> sc_number \<Rightarrow> sc_number \<Rightarrow> sc_number res" where
  "op_div len u v =
     (let s = mul_signs (num_sgn u) (num_sgn v) in
      if s = SC_ZERO then if num_sgn v = 0 then Inl (ReportError SC_ID_OPERATION_FAILED) else Inr (number_zero (result_class u v) len)
      else Inr (div_friend (result_class u v) len s (nbits u) (digit u) (nbits v) (digit v)))"

definition op_mod :: "nat \<Rightarrow> sc_number \<Rightarrow> sc_number \<Rightarrow> sc_number res" where
  "op_mod len u v =
     (if num_sgn u = SC_ZERO \<or> num_sgn v = SC_ZERO
      then if num_sgn v = 0 then Inl (ReportError SC_ID_OPERATION_FAILED) else Inr (number_zero (result_class u v) len)
      else Inr (mod_friend (result_class u v) len (num_sgn u) (nbits u) (digit u) (nbits v) (digit v)))"

definition op_and :: "nat \<Rightarrow> sc_number \<Rightarrow> sc_number \<Rightarrow> sc_number" where
  "op_and len u v =
     (if num_sgn u = SC_ZERO \<or> num_sgn v = SC_ZERO then number_zero (result_class u v) len
      else and_friend (result_class u v) (num_sgn u) (nbits u) (digit u) (num_sgn v) (nbits v) (digit v))"

definition op_or :: "sc_number \<Rightarrow> sc_number \<Rightarrow> sc_number" where
  "op_or u v =
     (if num_sgn v = SC_ZERO then as_class (result_class u v) u else if num_sgn u = SC_ZERO then as_class (result_class u v) v
      else or_friend (result_class u v) (num_sgn u) (nbits u) (digit u) (num_sgn v) (nbits v) (digit v))"

definition op_xor :: "sc_number \<Rightarrow> sc_number \<Rightarrow> sc_number" where
  "op_xor u v =
     (if num_sgn v = SC_ZERO then as_class (result_class u v) u else if num_sgn u = SC_ZERO then as_class (result_class u v) v
      else xor_friend (result_class u v) (num_sgn u) (nbits u) (digit u) (num_sgn v) (nbits v) (digit v))"

definition op_not :: "sc_number \<Rightarrow> sc_number" where
  "op_not u =
     (let s = num_sgn u; d = digit u in
      if s = SC_ZERO then number_of_parts (cls u) SC_NEG (nbits u) [1]
      else let (s, d) = (if s = SC_POS then (SC_NEG, vec_add_small_on d 1)
             else let d = vec_sub_small_on d 1 in (if is_zero d then SC_ZERO else SC_POS, d))
           in number_of_parts (cls u) s (nbits u) d)"

definition op_negate :: "sc_number \<Rightarrow> sc_number" where
  "op_negate u = with_sign u (- num_sgn u)"

section \<open>What a number of a width can hold\<close>

definition in_range :: "class_type \<Rightarrow> nat \<Rightarrow> int \<Rightarrow> bool" where
  "in_range c nb x \<longleftrightarrow> (case c of SIGNED \<Rightarrow> - (2 ^ (nb - 1)) \<le> x | UNSIGNED \<Rightarrow> 0 \<le> x) \<and> x < 2 ^ (nb - 1)"

lemma in_range_simps [simp]:
  "in_range SIGNED nb x \<longleftrightarrow> - (2 ^ (nb - 1)) \<le> x \<and> x < 2 ^ (nb - 1)" "in_range UNSIGNED nb x \<longleftrightarrow> 0 \<le> x \<and> x < 2 ^ (nb - 1)"
  by (simp_all add: in_range_def)

lemma wrap_iff: "wrap c nb x = x \<longleftrightarrow> in_range c nb x"
  by (cases c) (auto simp: wrap_def wrap_signed_def wrap_unsigned_def signed_take_bit_int_eq_self_iff take_bit_int_eq_self_iff)

lemma num_ok_iff: "num_ok n \<longleftrightarrow> num_wf n \<and> in_range (cls n) (nbits n) (num_val n)"
  by (simp add: num_ok_def wrap_iff)

lemma num_ok_range: "num_ok n \<Longrightarrow> in_range (cls n) (nbits n) (num_val n)"
  by (simp add: num_ok_iff)

lemma range_signed: "in_range c nb x \<Longrightarrow> - (2 ^ (nb - 1)) \<le> x \<and> x < 2 ^ (nb - 1)"
  by (cases c) (auto intro: order_trans [of _ 0])

lemma range_mono:
  assumes "in_range c nb x" and "nb \<le> nb'"
  shows "in_range c nb' x"
proof -
  have "(2 :: int) ^ (nb - 1) \<le> 2 ^ (nb' - 1)" using assms(2) by (intro power_increasing) simp_all
  then show ?thesis using assms(1) by (cases c) (auto simp del: power_increasing_iff)
qed

lemma range_abs: "in_range c nb x \<Longrightarrow> \<bar>x\<bar> \<le> 2 ^ (nb - 1)"
  using range_signed [of c nb x] by auto

text \<open>A number that is made of its parts holds them if they are in the range of the width.\<close>

definition width_of :: "class_type \<Rightarrow> nat \<Rightarrow> nat" where
  "width_of c nb = (case c of SIGNED \<Rightarrow> nb | UNSIGNED \<Rightarrow> nb + 1)"

lemma width_of: "nat (num_bits c (int nb)) = width_of c nb"
  by (cases c) (simp_all add: num_bits_def width_of_def nat_add_distrib)

lemma width_of_pos: "0 < nb \<Longrightarrow> 0 < width_of c nb" "nb \<le> width_of c nb"
  by (cases c; simp add: width_of_def)+

lemma fits_new: "0 < nb \<Longrightarrow> num_fits nb (new_digits nb)"
  by (simp add: num_fits_def new_digits_def)

lemma parts_kept:
  assumes "digits_ok d" and "sign_ok s d" and "0 < nb" and "dval d < 2 ^ (30 * length (new_digits (width_of c nb)))"
  shows "num_wf (number_of_parts c s nb d) \<and> num_val (number_of_parts c s nb d) = s * int (dval d) \<and>
    cls (number_of_parts c s nb d) = c \<and> nbits (number_of_parts c s nb d) = width_of c nb"
proof -
  let ?u = "new_digits (width_of c nb)"
  define d' where "d' = (if length ?u \<le> length d then vec_copy (length ?u) ?u d else vec_copy_and_zero ?u d)"
  note c = copied [OF assms(1) d'_def]
  have f: "num_fits (width_of c nb) d'" using fits_new [OF width_of_pos(1) [OF assms(3), of c]] c(3) by (rule fits_same)
  have "dval d' = dval d" using assms(4) unfolding c(1) RADIX_power by simp
  then show ?thesis using assms(2) c(2) f
    by (auto simp: number_of_parts_def Let_def width_of num_wf_def num_val_def sign_ok_def simp flip: d'_def)
qed

lemma parts_ok:
  assumes "digits_ok d" and "sign_ok s d" and "0 < nb" and "s * int (dval d) = x" and "in_range c (width_of c nb) x"
  shows "num_ok (number_of_parts c s nb d) \<and> num_val (number_of_parts c s nb d) = x \<and>
    cls (number_of_parts c s nb d) = c \<and> nbits (number_of_parts c s nb d) = width_of c nb"
proof -
  let ?w = "width_of c nb"
  have f: "num_fits ?w (new_digits ?w)" by (rule fits_new [OF width_of_pos(1) [OF assms(3)]])
  have "\<bar>x\<bar> = int (dval d)" using assms(2,4) by (auto simp: sign_ok_def)
  then have "int (dval d) \<le> int (2 ^ (?w - 1))" using range_abs [OF assms(5)] by simp
  then have "dval d \<le> 2 ^ (?w - 1)" by (simp only: of_nat_le_iff)
  also have "\<dots> < 2 ^ (30 * length (new_digits ?w))" using fits_above [OF f] by (simp add: RADIX_power)
  finally show ?thesis using parts_kept [OF assms(1-3), of c] assms(4,5) by (simp add: num_ok_iff)
qed

lemma zero_ok: "0 < len \<Longrightarrow> num_ok (number_zero c len) \<and> num_val (number_zero c len) = 0 \<and> cls (number_zero c len) = c"
  using fits_new [OF width_of_pos(1), of len c]
  by (simp add: number_zero_def Let_def width_of makezero_def make_zero_def put_def num_ok_iff num_wf_def num_val_def sign_ok_def
    SC_ZERO_def num_fits_def in_range_def split: class_type.split)

section \<open>Digits of sums and differences\<close>

lemma tight_props: "tight d \<Longrightarrow> digits_ok d \<and> d \<noteq> [] \<and> 0 < dval d \<and> 0 < length d"
  using tight_pos [of d] by (auto simp: tight_def)

lemma add_digits_value:
  assumes "tight u" and "tight v" and "length v \<le> length u"
  defines "d \<equiv> vec_add u v (replicate (length u + 1) 0)"
  shows "dval d = dval u + dval v" and "digits_ok d"
proof -
  note v = vec_add_value [of u v "replicate (length u + 1) 0", folded d_def]
  have "length d = length u + 1" using v(3) tight_props [OF assms(1)] tight_props [OF assms(2)] assms(3) by (simp add: nth_append)
  then show "dval d = dval u + dval v" "digits_ok d"
    using v(1,2) tight_props [OF assms(1)] tight_props [OF assms(2)] assms(3) by (simp_all del: replicate_Suc)
qed

lemma add_one_digit:
  assumes "tight u" and "tight v" and "length u = 1" and "length v = 1"
  defines "carry \<equiv> u ! 0 + v ! 0"
  defines "d \<equiv> (replicate 2 0)[0 := carry AND DIGIT_MASK, 1 := drop_bit BITS_PER_DIGIT carry]"
  shows "dval d = dval u + dval v" and "digits_ok d"
proof -
  note u = tight_one [OF assms(1,3)] and v = tight_one [OF assms(2,4)]
  have d: "d = [carry AND DIGIT_MASK, drop_bit BITS_PER_DIGIT carry]" by (simp add: d_def numeral_2_eq_2)
  have "unat carry = unat (u ! 0) + unat (v ! 0)" unfolding carry_def using u v by (intro unat_plus) (simp add: RADIX_nat)
  then show "dval d = dval u + dval v" "digits_ok d" using u v unfolding d by (simp_all add: RADIX_nat div_less_iff_less_mult)
qed

lemma sub_digits_value:
  assumes "tight u" and "tight v" and "dval v < dval u"
  defines "d \<equiv> vec_sub u v (replicate (length u + 1) 0)"
  shows "dval d = dval u - dval v" and "digits_ok d"
proof -
  note u = tight_props [OF assms(1)] and v = tight_props [OF assms(2)]
  have le: "length v \<le> length u" by (rule tight_length [OF assms(1,2)]) (use assms(3) in simp)
  note s = vec_sub_value(1-4) [OF conjunct1 [OF u] conjunct1 [OF v] le, of "replicate (length u + 1) 0", folded d_def]
  have e: "dval d = dval (take (length u) d) + RADIX ^ length u * dval (drop (length u) d)" by (rule dval_take_drop [OF refl]) (use s(4) in simp)
  have z: "dval (drop (length u) d) = 0" unfolding s(3) by (simp del: replicate_Suc)
  have "(int (dval u) - int (dval v)) mod int RADIX ^ length u = int (dval u) - int (dval v)"
    using assms(3) dval_less [of u] u by (intro mod_pos_pos_trivial) (simp_all flip: of_nat_power)
  then show "dval d = dval u - dval v" using s(1) e z by simp
  show "digits_ok d" by (rule digits_ok_take [OF s(2)]) (simp add: s(3) del: replicate_Suc)
qed

lemma sub_one_digit:
  assumes "tight u" and "tight v" and "length u = 1" and "length v = 1" and "dval v < dval u"
  shows "dval ((replicate 2 0)[0 := u ! 0 - v ! 0]) = dval u - dval v \<and> digits_ok ((replicate 2 0)[0 := u ! 0 - v ! 0])"
proof -
  note u = tight_one [OF assms(1,3)] and v = tight_one [OF assms(2,4)]
  have "unat (u ! 0 - v ! 0) = unat (u ! 0) - unat (v ! 0)" using u v assms(5) by (intro unat_minus) simp
  then show ?thesis using one_digit [of 2 "u ! 0 - v ! 0"] u v by (simp add: less_imp_diff_less)
qed

section \<open>Sums and differences\<close>

text \<open>A new number: the invariant, the class and the value.\<close>

definition makes :: "class_type \<Rightarrow> int \<Rightarrow> sc_number \<Rightarrow> bool" where
  "makes c x m \<longleftrightarrow> cls m = c \<and> num_ok m \<and> num_val m = x"

lemma zero_makes: "0 < len \<Longrightarrow> x = 0 \<Longrightarrow> makes c x (number_zero c len)"
  using zero_ok [of len c] by (simp add: makes_def)

lemma parts_make:
  assumes "digits_ok d" and "s = 1 \<or> s = -1" and "0 < dval d" and "0 < nb" and "s * int (dval d) = x" and "in_range c (width_of c nb) x"
  shows "makes c x (number_of_parts c s nb d)"
proof -
  have "sign_ok s d" using assms(2,3) by (auto simp: sign_ok_def)
  from parts_ok [OF assms(1) this assms(4-6)] show ?thesis by (simp add: makes_def)
qed

text \<open>The sum of two numbers given by their parts, of different signs in the range of \<open>max\<close>, of the same sign with one bit more.\<close>

lemma add_friend_makes:
  assumes "digits_ok ud" and "digits_ok vd" and "us = 1 \<or> us = -1" and "vs = 1 \<or> vs = -1" and "0 < dval ud" and "0 < dval vd"
    and "0 < len" and "0 < unb" and "us * int (dval ud) + vs * int (dval vd) = x"
    and "us = vs \<Longrightarrow> in_range c (width_of c (max unb vnb + 1)) x" and "us \<noteq> vs \<Longrightarrow> in_range c (width_of c (max unb vnb)) x"
  shows "makes c x (add_friend c len us unb ud vs vnb vd)"
proof -
  define u where "u = take (vec_skip_leading_zeros ud) ud"
  define v where "v = take (vec_skip_leading_zeros vd) vd"
  note u = tight_skipped [OF assms(1,5), folded u_def] skipped [OF assms(1,5), folded u_def]
  note v = tight_skipped [OF assms(2,6), folded v_def] skipped [OF assms(2,6), folded v_def]
  note cs = vec_cmp_sign [OF assms(1,2)]
  note def = add_friend_def [of c len us unb ud vs vnb vd, unfolded Let_def, folded u_def v_def, unfolded u(6) v(6)]
  let ?m = "vec_skip_leading_zeros ud" and ?n = "vec_skip_leading_zeros vd"
  show ?thesis
  proof (cases "us = vs")
    case True
    define d where "d = (if ?m = 1 \<and> ?n = 1 then (replicate 2 0)[0 := (u ! 0 + v ! 0) AND DIGIT_MASK, 1 := drop_bit BITS_PER_DIGIT (u ! 0 + v ! 0)]
      else if ?m \<ge> ?n then vec_add u v (replicate (?m + 1) 0) else vec_add v u (replicate (?n + 1) 0))"
    have "dval d = dval u + dval v \<and> digits_ok d"
      using add_one_digit [OF u(1) v(1)] add_digits_value [OF u(1) v(1)] add_digits_value [OF v(1) u(1)] unfolding d_def u(6) v(6) by auto
    then have d: "dval d = dval ud + dval vd" "digits_ok d" using u(2) v(2) by simp_all
    have "add_friend c len us unb ud vs vnb vd = number_of_parts c us (max unb vnb + 1) d"
      unfolding def d_def using True by (auto simp del: replicate_Suc simp: numeral_2_eq_2 max_def)
    then show ?thesis
      using parts_make [OF d(2) assms(3) _ _ _ assms(10) [OF True]] d(1) assms(5,9) True by (simp add: distrib_left)
  next
    case False
    then have vs: "vs = - us" using assms(3,4) by auto
    have x: "us * int (dval ud - dval vd) = x" if "dval vd < dval ud" using that assms(9) by (simp add: vs of_nat_diff right_diff_distrib)
    have x': "- us * int (dval vd - dval ud) = x" if "dval ud < dval vd" using that assms(9) by (simp add: vs of_nat_diff right_diff_distrib)
    have pos: "0 < max unb vnb" using assms(8) by simp
    consider (eq) "vec_cmp ?m ud ?n vd = 0" | (gr) "vec_cmp ?m ud ?n vd > 0" | (le) "vec_cmp ?m ud ?n vd < 0" by linarith
    then show ?thesis
    proof cases
      case eq
      then have "add_friend c len us unb ud vs vnb vd = number_zero c len" unfolding def using False by simp
      then show ?thesis using zero_makes [OF assms(7)] eq cs(2) assms(9) vs by simp
    next
      case gr
      then have less: "dval vd < dval ud" using cs(1) by simp
      define d where "d = (if ?m = 1 \<and> ?n = 1 then (replicate 2 0)[0 := u ! 0 - v ! 0] else vec_sub u v (replicate (?m + 1) 0))"
      have "length v \<le> length u" by (rule tight_length [OF u(1) v(1)]) (use less u(2) v(2) in simp)
      then have "add_friend c len us unb ud vs vnb vd = number_of_parts c us (max unb vnb) d"
        unfolding def d_def using False gr u(6) v(6) by (auto simp del: replicate_Suc simp: numeral_2_eq_2 max_def)
      moreover have "dval d = dval ud - dval vd \<and> digits_ok d"
        using sub_one_digit [OF u(1) v(1)] sub_digits_value [OF u(1) v(1)] less u(2) v(2) unfolding d_def u(6) v(6) by auto
      ultimately show ?thesis using parts_make [OF _ assms(3) _ pos _ assms(11) [OF False], of d] x [OF less] less by simp
    next
      case le
      then have less: "dval ud < dval vd" using cs(3) by simp
      define d where "d = (if ?m = 1 \<and> ?n = 1 then (replicate 2 0)[0 := v ! 0 - u ! 0] else vec_sub v u (replicate (?n + 1) 0))"
      have "length u \<le> length v" by (rule tight_length [OF v(1) u(1)]) (use less u(2) v(2) in simp)
      then have "add_friend c len us unb ud vs vnb vd = number_of_parts c (- us) (max unb vnb) d"
        unfolding def d_def using False le u(6) v(6) by (auto simp del: replicate_Suc simp: numeral_2_eq_2 max_def)
      moreover have "dval d = dval vd - dval ud \<and> digits_ok d"
        using sub_one_digit [OF v(1) u(1)] sub_digits_value [OF v(1) u(1)] less u(2) v(2) unfolding d_def u(6) v(6) by auto
      moreover have "- us = 1 \<or> - us = -1" using assms(3) by auto
      ultimately show ?thesis using parts_make [OF _ _ _ pos _ assms(11) [OF False], of d "- us"] x' [OF less] less by simp
    qed
  qed
qed

lemma copy_makes:
  assumes "num_ok v" and "sign_ok s (digit v)" and "in_range c nb (s * int (dval (digit v)))" and "num_fits nb d"
  shows "makes c (s * int (dval (digit v))) (copy_digits \<lparr>cls = c, num_sgn = s, nbits = nb, digit = d\<rparr> (nbits v) (digit v))"
proof -
  note v = num_okD [OF assms(1)]
  have "dval (digit v) < 2 ^ (nb - 1)" if "nbits v < nb"
  proof -
    have "(2 :: nat) ^ nbits v \<le> 2 ^ (nb - 1)" using that by (intro power_increasing) simp_all
    then show ?thesis by (rule less_le_trans [OF v(5)])
  qed
  from kind.copy_value [OF v(2) assms(4,2) this, where c = c] show ?thesis
    using assms(3) fits_same [OF assms(4)] unfolding wrap_iff [symmetric]
    by (simp add: makes_def copy_digits_def put_def num_ok_iff num_wf_def sm_ok_def sm_val_def num_val_def wrap_iff)
qed

lemma as_class_makes:
  assumes "num_ok v" and "c = SIGNED \<or> cls v = UNSIGNED"
  shows "makes c (num_val v) (as_class c v)"
proof (cases "cls v = c")
  case True
  then show ?thesis using assms(1) by (simp add: makes_def as_class_def)
next
  case False
  then have c: "cls v = UNSIGNED" "c = SIGNED" using assms(2) by (auto intro: class_type.exhaust)
  note v = num_okD [OF assms(1)]
  have r: "in_range SIGNED (nbits v) (num_val v)" using range_signed [OF num_ok_range [OF assms(1)]] by simp
  have f: "num_fits (nbits v) (replicate (length (digit v)) 0)" by (rule fits_same [OF v(1)]) simp
  show ?thesis using copy_makes [OF assms(1) v(3) _ f, of SIGNED] r c
    by (simp add: as_class_def convert_class_def Let_def num_bits_def num_val_def)
qed

lemma result_class_cases: "result_class u v = SIGNED \<or> cls u = UNSIGNED \<and> cls v = UNSIGNED"
  by (simp add: result_class_def)

lemma both_in_range:
  assumes "num_ok u" and "num_ok v" and "nb = max (nbits u) (nbits v)"
  shows "- (2 ^ (nb - 1)) \<le> num_val u" and "num_val u < 2 ^ (nb - 1)" and "- (2 ^ (nb - 1)) \<le> num_val v" and "num_val v < 2 ^ (nb - 1)"
    and "0 < nb" and "(2 :: int) ^ nb = 2 * 2 ^ (nb - 1)"
proof -
  have "nbits u \<le> nb" "nbits v \<le> nb" "0 < nb" using assms(3) num_okD(6) [OF assms(1)] by simp_all
  then show "- (2 ^ (nb - 1)) \<le> num_val u" "num_val u < 2 ^ (nb - 1)" "- (2 ^ (nb - 1)) \<le> num_val v" "num_val v < 2 ^ (nb - 1)" "0 < nb"
    using range_signed [OF range_mono [OF num_ok_range [OF assms(1)]], of nb] range_signed [OF range_mono [OF num_ok_range [OF assms(2)]], of nb]
    by simp_all
  then show "(2 :: int) ^ nb = 2 * 2 ^ (nb - 1)" by (cases nb) simp_all
qed

lemma unsigned_nonneg: "num_ok u \<Longrightarrow> cls u = UNSIGNED \<Longrightarrow> 0 \<le> num_val u"
  using num_ok_range [of u] by simp

lemma sgn_val: "num_ok u \<Longrightarrow> num_sgn u \<noteq> SC_ZERO \<Longrightarrow> num_sgn u = (if 0 < num_val u then 1 else -1) \<and> num_val u \<noteq> 0"
  using sgn_unit [of u] by (auto simp: num_val_def)

lemma op_plus_makes:
  assumes "num_ok u" and "num_ok v" and "0 < len"
  shows "makes (result_class u v) (num_val u + num_val v) (op_plus len u v)"
proof (cases "num_sgn u = SC_ZERO \<or> num_sgn v = SC_ZERO")
  case True
  then show ?thesis
    using as_class_makes [OF assms(1)] as_class_makes [OF assms(2)] sgn_zero_iff [OF assms(1)] sgn_zero_iff [OF assms(2)] result_class_cases [of u v]
    by (auto simp: op_plus_def)
next
  case False
  note u = num_okD [OF assms(1)] and v = num_okD [OF assms(2)]
  let ?c = "result_class u v" and ?n = "max (nbits u) (nbits v)" and ?x = "num_val u + num_val v"
  note b = both_in_range [OF assms(1,2) refl]
  note su = sgn_val [OF assms(1)] and sv = sgn_val [OF assms(2)]
  have same: "in_range ?c (width_of ?c (?n + 1)) ?x"
  proof (cases ?c)
    case SIGNED
    then show ?thesis using b by (simp add: width_of_def)
  next
    case UNSIGNED
    then have "cls u = UNSIGNED" "cls v = UNSIGNED" using result_class_cases [of u v] by simp_all
    then show ?thesis using UNSIGNED b unsigned_nonneg [OF assms(1)] unsigned_nonneg [OF assms(2)] by (simp add: width_of_def)
  qed
  have diff: "in_range ?c (width_of ?c ?n) ?x" if "num_sgn u \<noteq> num_sgn v"
  proof -
    have s: "0 < num_val u \<and> num_val v < 0 \<or> num_val u < 0 \<and> 0 < num_val v" using su sv False that by (auto split: if_splits)
    then have "?c = SIGNED" using unsigned_nonneg [OF assms(1)] unsigned_nonneg [OF assms(2)] result_class_cases [of u v] by auto
    then show ?thesis using b s by (auto simp: width_of_def simp del: max.commute)
  qed
  have "makes ?c ?x (add_friend ?c len (num_sgn u) (nbits u) (digit u) (num_sgn v) (nbits v) (digit v))"
    by (rule add_friend_makes [OF u(2) v(2)])
      (use sgn_unit [OF assms(1)] sgn_unit [OF assms(2)] False assms(3) u(6) same diff in \<open>simp_all add: num_val_def\<close>)
  then show ?thesis using False by (simp add: op_plus_def)
qed

lemma with_sign_makes:
  assumes "num_ok v" and "sign_ok s (digit v)" and "in_range SIGNED (nbits v) (s * int (dval (digit v)))"
  shows "makes SIGNED (s * int (dval (digit v))) (with_sign v s)"
proof (cases "cls v")
  case SIGNED
  then show ?thesis using num_okD [OF assms(1)] assms(2,3)
    by (simp add: with_sign_def makes_def num_ok_iff num_wf_def num_val_def)
next
  case UNSIGNED
  have "num_fits (nbits v) (replicate (length (digit v)) 0)" by (rule fits_same [OF num_okD(1) [OF assms(1)]]) simp
  from copy_makes [OF assms this] UNSIGNED show ?thesis by (simp add: with_sign_def)
qed

text \<open>A difference is a number of its width, unless it is that of zero and the least number of a width.\<close>

lemma op_minus_makes:
  assumes "num_ok u" and "num_ok v" and "0 < len" and "num_val u \<noteq> 0 \<or> num_val v \<noteq> - (2 ^ (nbits v - 1))"
  shows "makes SIGNED (num_val u - num_val v) (op_minus len u v)"
proof -
  note u = num_okD [OF assms(1)] and v = num_okD [OF assms(2)]
  consider "num_sgn v = SC_ZERO" | "num_sgn v \<noteq> SC_ZERO" "num_sgn u = SC_ZERO" | "num_sgn v \<noteq> SC_ZERO" "num_sgn u \<noteq> SC_ZERO" by blast
  then show ?thesis
  proof cases
    case 1
    then show ?thesis using as_class_makes [OF assms(1), of SIGNED] sgn_zero_iff [OF assms(2)] by (simp add: op_minus_def)
  next
    case 2
    have z: "num_val u = 0" using sgn_zero_iff [OF assms(1)] 2 by simp
    then have n: "num_val v \<noteq> - (2 ^ (nbits v - 1))" using assms(4) by simp
    have e: "- num_sgn v * int (dval (digit v)) = - num_val v" by (simp add: num_val_def)
    have "in_range SIGNED (nbits v) (- num_val v)" using range_signed [OF num_ok_range [OF assms(2)]] n by simp
    moreover have "sign_ok (- num_sgn v) (digit v)" using v(3) by (auto simp: sign_ok_def)
    ultimately show ?thesis using with_sign_makes [OF assms(2), of "- num_sgn v", unfolded e] 2 z by (simp add: op_minus_def)
  next
    case 3
    let ?n = "max (nbits u) (nbits v)" and ?x = "num_val u - num_val v"
    note b = both_in_range [OF assms(1,2) refl]
    note s = sgn_val [OF assms(1) 3(2)] sgn_val [OF assms(2) 3(1)]
    have same: "in_range SIGNED (width_of SIGNED (?n + 1)) ?x" if "num_sgn u = - num_sgn v"
      using b s that by (simp add: width_of_def split: if_splits)
    have diff: "in_range SIGNED (width_of SIGNED ?n) ?x" if "num_sgn u \<noteq> - num_sgn v"
      using b s that by (auto simp: width_of_def split: if_splits)
    have "makes SIGNED ?x (add_friend SIGNED len (num_sgn u) (nbits u) (digit u) (- num_sgn v) (nbits v) (digit v))"
      by (rule add_friend_makes [OF u(2) v(2)])
        (use sgn_unit [OF assms(1) 3(2)] sgn_unit [OF assms(2) 3(1)] assms(3) u(6) same diff in \<open>auto simp: num_val_def\<close>)
    then show ?thesis using 3 by (simp add: op_minus_def)
  qed
qed

section \<open>Products, quotients and remainders\<close>

lemma copy_into_zeros: "vec_copy (length w) (replicate (length w + k) 0) w = w @ replicate k 0"
  by (simp add: vec_copy_eq map_nth)

lemma butlast_zeros: "butlast (replicate (Suc n) (0 :: sc_digit)) = replicate n 0"
  by (simp only: replicate_append_same [symmetric] replicate_Suc butlast_snoc)

lemma mul_friend_makes:
  assumes "digits_ok ud" and "digits_ok vd" and "s = 1 \<or> s = -1" and "0 < dval ud" and "0 < dval vd" and "0 < unb"
    and "s * (int (dval ud) * int (dval vd)) = x" and "in_range c (width_of c (unb + vnb)) x"
  shows "makes c x (mul_friend c s unb ud vnb vd)"
proof -
  define u where "u = take (vec_skip_leading_zeros ud) ud"
  define v where "v = take (vec_skip_leading_zeros vd) vd"
  note u = tight_skipped [OF assms(1,4), folded u_def] skipped [OF assms(1,4), folded u_def]
  note v = tight_skipped [OF assms(2,5), folded v_def] skipped [OF assms(2,5), folded v_def]
  let ?m = "vec_skip_leading_zeros ud" and ?n = "vec_skip_leading_zeros vd"
  define d where "d = (if ?n = 1 \<and> vd ! 0 = 1 then vec_copy ?m (replicate (?m + ?n) 0) u
    else if ?m = 1 \<and> ud ! 0 = 1 then vec_copy ?n (replicate (?m + ?n) 0) v
    else if ?m = 1 \<and> ?n = 1 \<and> ud ! 0 < HALF_DIGIT_RADIX \<and> vd ! 0 < HALF_DIGIT_RADIX then (replicate (?m + ?n) 0)[0 := ud ! 0 * vd ! 0]
    else mul_digits u v)"
  have e: "mul_friend c s unb ud vnb vd = number_of_parts c s (unb + vnb) d"
    unfolding mul_friend_def Let_def d_def u(6) v(6) u_def [symmetric] v_def [symmetric] by (rule refl)
  have ne: "u \<noteq> []" "v \<noteq> []" using tight_props u(1) v(1) by blast+
  have "dval d = dval ud * dval vd \<and> digits_ok d"
  proof -
    consider (v1) "?n = 1 \<and> vd ! 0 = 1" | (u1) "?m = 1 \<and> ud ! 0 = 1" "\<not> (?n = 1 \<and> vd ! 0 = 1)"
      | (small) "?m = 1 \<and> ?n = 1 \<and> ud ! 0 < HALF_DIGIT_RADIX \<and> vd ! 0 < HALF_DIGIT_RADIX" "\<not> (?m = 1 \<and> ud ! 0 = 1)" "\<not> (?n = 1 \<and> vd ! 0 = 1)"
      | (large) "d = mul_digits u v" unfolding d_def by argo
    then show ?thesis
    proof cases
      case v1
      then have "d = u @ replicate ?n 0" using copy_into_zeros [of u ?n] by (simp add: d_def u(6))
      moreover have "dval vd = 1" using v1 v(9) by simp
      ultimately show ?thesis using u(2,3) by (simp add: dval_append)
    next
      case u1
      then have "d = vec_copy (length v) (replicate (length v + ?m) 0) v" unfolding d_def v(6) by (simp only: if_True if_False simp_thms add.commute)
      then have "d = v @ replicate ?m 0" using copy_into_zeros by simp
      moreover have "dval ud = 1" using u1 u(9) by simp
      ultimately show ?thesis using v(2,3) by (simp add: dval_append)
    next
      case small
      then have "d = (replicate (?m + ?n) 0)[0 := ud ! 0 * vd ! 0]" unfolding d_def by (simp only: if_True if_False simp_thms)
      moreover have b: "unat (ud ! 0) * unat (vd ! 0) \<le> 1073676289" using small(1) by (intro half_products) (simp_all add: half_radix)
      then have "unat (ud ! 0 * vd ! 0) = unat (ud ! 0) * unat (vd ! 0)" by (intro unat_times) simp
      ultimately show ?thesis using one_digit [of "?m + ?n" "ud ! 0 * vd ! 0"] u(4,9) v(9) small(1) b by (simp add: RADIX_nat)
    next
      case large
      then show ?thesis using mul_digits_value [OF u(3) v(3) ne] u(2) v(2) by simp
    qed
  qed
  then show ?thesis unfolding e using assms(4,5,6,7,8) by (intro parts_make [OF _ assms(3)]) simp_all
qed

lemma div_friend_makes:
  assumes "digits_ok ud" and "digits_ok vd" and "s = 1 \<or> s = -1" and "0 < dval ud" and "0 < dval vd" and "0 < unb" and "0 < len"
    and "s * int (dval ud div dval vd) = x" and "in_range c (width_of c (max unb vnb)) x"
  shows "makes c x (div_friend c len s unb ud vnb vd)"
proof -
  define u where "u = take (vec_skip_leading_zeros ud) ud"
  define v where "v = take (vec_skip_leading_zeros vd) vd"
  note u = tight_skipped [OF assms(1,4), folded u_def] skipped [OF assms(1,4), folded u_def]
  note v = tight_skipped [OF assms(2,5), folded v_def] skipped [OF assms(2,5), folded v_def]
  note cs = vec_cmp_sign [OF assms(1,2)]
  let ?m = "vec_skip_leading_zeros ud" and ?n = "vec_skip_leading_zeros vd"
  let ?c = "vec_cmp ?m ud ?n vd"
  note def = div_friend_def [of c len s unb ud vnb vd, unfolded Let_def, folded u_def v_def, unfolded u(6) v(6)]
  show ?thesis
  proof (cases "?c < 0")
    case True
    then show ?thesis unfolding def using zero_makes [OF assms(7)] cs(3) assms(8) by simp
  next
    case False
    then have le: "dval vd \<le> dval ud" using cs(3) by simp
    define d where "d = butlast (if ?c \<noteq> 0 \<and> ?n = 1 \<and> vd ! 0 = 1 then vec_copy ?m (replicate (max ?m ?n + 1) 0) u else div_digits ?c u v)"
    have e: "div_friend c len s unb ud vnb vd = number_of_parts c s (max unb vnb) d" unfolding def d_def using False by simp
    have "dval d = dval ud div dval vd \<and> digits_ok d"
    proof (cases "?c \<noteq> 0 \<and> ?n = 1 \<and> vd ! 0 = 1")
      case True
      then have m: "max ?m ?n = length u" "dval vd = 1" using u(4,6) v(9) by simp_all
      have "d = butlast (vec_copy (length u) (replicate (length u + 1) 0) u)" unfolding d_def if_P [OF True] m u(6) by (rule refl)
      then have "d = u" unfolding copy_into_zeros by simp
      then show ?thesis using u(2,3) m(2) by simp
    next
      case False
      then have "d = butlast (div_digits ?c u v)" unfolding d_def by (rule arg_cong [OF if_not_P])
      then show ?thesis using div_digits_value [OF u(1) v(1), of ?c] le cs(2) u(2) v(2) by simp
    qed
    moreover have "0 < dval ud div dval vd" using le assms(5) by (simp add: div_greater_zero_iff)
    ultimately show ?thesis unfolding e using assms(6,8,9) by (intro parts_make [OF _ assms(3)]) simp_all
  qed
qed

lemma mod_friend_makes:
  assumes "digits_ok ud" and "digits_ok vd" and "s = 1 \<or> s = -1" and "0 < dval ud" and "0 < dval vd" and "0 < unb" and "0 < vnb"
    and "0 < len" and "s * int (dval ud mod dval vd) = x" and "in_range c (width_of c (min unb vnb)) x"
  shows "makes c x (mod_friend c len s unb ud vnb vd)"
proof -
  define u where "u = take (vec_skip_leading_zeros ud) ud"
  define v where "v = take (vec_skip_leading_zeros vd) vd"
  note u = tight_skipped [OF assms(1,4), folded u_def] skipped [OF assms(1,4), folded u_def]
  note v = tight_skipped [OF assms(2,5), folded v_def] skipped [OF assms(2,5), folded v_def]
  note cs = vec_cmp_sign [OF assms(1,2)]
  let ?m = "vec_skip_leading_zeros ud" and ?n = "vec_skip_leading_zeros vd"
  let ?c = "vec_cmp ?m ud ?n vd" and ?w = "replicate (max ?m ?n + 1) 0 :: sc_digit list"
  note def = mod_friend_def [of c len s unb ud vnb vd, unfolded Let_def, folded u_def v_def, unfolded u(6) v(6)]
  consider (zero) "?c = 0 \<or> ?c > 0 \<and> ?n = 1 \<and> vd ! 0 = 1" | (more) "?c \<noteq> 0" "\<not> (?c > 0 \<and> ?n = 1 \<and> vd ! 0 = 1)" by blast
  then show ?thesis
  proof cases
    case zero
    then have "dval ud mod dval vd = 0" using cs(2) v(9) by auto
    then show ?thesis unfolding def using zero zero_makes [OF assms(8)] assms(9) by auto
  next
    case more
    define d where "d = butlast (if ?c < 0 then vec_copy ?m ?w u else if ?n = 1 \<and> ?m = 1 then ?w[0 := ud ! 0 mod vd ! 0] else rem_digits u v)"
    have e: "mod_friend c len s unb ud vnb vd =
        (if check_for_zero s d = SC_ZERO then number_zero c len else number_of_parts c (check_for_zero s d) (min unb vnb) d)"
      unfolding def d_def using more by (simp only: if_False)
    have d: "dval d = dval ud mod dval vd \<and> digits_ok d"
    proof (cases "?c < 0")
      case True
      then have less: "dval ud < dval vd" using cs(3) by simp
      have "length u \<le> length v" by (rule tight_length [OF v(1) u(1)]) (use less u(2) v(2) in simp)
      then have m: "max ?m ?n + 1 = length u + Suc (?n - ?m)" using u(6) v(6) by simp
      have "d = u @ replicate (?n - ?m) 0" unfolding d_def m using True copy_into_zeros [of u "Suc (?n - ?m)"]
        by (simp add: u(6) butlast_append butlast_zeros del: replicate_Suc)
      then show ?thesis using u(2,3) less by (simp add: dval_append)
    next
      case False
      then have le: "dval vd \<le> dval ud" using cs(3) by simp
      show ?thesis
      proof (cases "?n = 1 \<and> ?m = 1")
        case True
        then have "d = [ud ! 0 mod vd ! 0]" unfolding d_def using False by simp
        then show ?thesis using True u(7,9) v(9) tight_one [OF u(1)] u(6) by (auto simp: unat_mod intro: le_less_trans [OF mod_less_eq_dividend])
      next
        case other: False
        have "d = butlast (rem_digits u v)" unfolding d_def if_not_P [OF False] if_not_P [OF other] by (rule refl)
        then show ?thesis using rem_digits_value [OF u(1) v(1)] le u(2) v(2) by simp
      qed
    qed
    show ?thesis
    proof (cases "dval d = 0")
      case True
      then show ?thesis using zero_makes [OF assms(8)] d assms(9) unfolding e by (simp add: check_for_zero_def first_nonzero)
    next
      case False
      then have "check_for_zero s d = s" "s \<noteq> SC_ZERO" using assms(3) by (auto simp: check_for_zero_def first_nonzero SC_ZERO_def)
      then show ?thesis unfolding e using d False assms(6,7,9,10) by (auto intro!: parts_make [OF _ assms(3)])
    qed
  qed
qed

lemma signs_product:
  assumes "num_ok u" and "num_ok v"
  shows "mul_signs (num_sgn u) (num_sgn v) = SC_ZERO \<longleftrightarrow> num_val u = 0 \<or> num_val v = 0"
    and "num_val u \<noteq> 0 \<Longrightarrow> num_val v \<noteq> 0 \<Longrightarrow> mul_signs (num_sgn u) (num_sgn v) = num_sgn u * num_sgn v \<and>
      (num_sgn u = 1 \<or> num_sgn u = -1) \<and> (num_sgn v = 1 \<or> num_sgn v = -1) \<and> 0 < dval (digit u) \<and> 0 < dval (digit v)"
  using sgn_zero_iff [OF assms(1)] sgn_zero_iff [OF assms(2)] sgn_unit [OF assms(1)] sgn_unit [OF assms(2)]
  by (auto simp: mul_signs_def SC_ZERO_def SC_POS_def SC_NEG_def)

lemma product_bound:
  assumes "\<bar>x\<bar> \<le> 2 ^ (m - 1)" and "\<bar>y\<bar> \<le> 2 ^ (n - 1)" and "0 < m" and "0 < n"
  shows "\<bar>x * y\<bar> < (2 :: int) ^ (m + n - 1)"
proof -
  have "\<bar>x * y\<bar> \<le> 2 ^ (m - 1) * 2 ^ (n - 1)" unfolding abs_mult by (rule mult_mono) (use assms in simp_all)
  also have "\<dots> = 2 ^ (m - 1 + (n - 1))" by (simp only: power_add)
  also have "\<dots> < (2 :: int) ^ (m + n - 1)" by (rule power_strict_increasing) (use assms in simp_all)
  finally show ?thesis .
qed

lemma op_times_makes:
  assumes "num_ok u" and "num_ok v" and "0 < len"
  shows "makes (result_class u v) (num_val u * num_val v) (op_times len u v)"
proof (cases "num_val u = 0 \<or> num_val v = 0")
  case True
  then show ?thesis using zero_makes [OF assms(3)] signs_product(1) [OF assms(1,2)] by (auto simp: op_times_def)
next
  case False
  note u = num_okD [OF assms(1)] and v = num_okD [OF assms(2)]
  let ?c = "result_class u v" and ?n = "nbits u + nbits v" and ?x = "num_val u * num_val v"
  have s: "mul_signs (num_sgn u) (num_sgn v) = num_sgn u * num_sgn v" "num_sgn u = 1 \<or> num_sgn u = -1" "num_sgn v = 1 \<or> num_sgn v = -1"
    "0 < dval (digit u)" "0 < dval (digit v)" using signs_product(2) [OF assms(1,2)] False by simp_all
  have b: "\<bar>?x\<bar> < 2 ^ (?n - 1)"
    by (rule product_bound) (use range_abs num_ok_range assms(1,2) u(6) v(6) in blast)+
  have "in_range ?c (width_of ?c ?n) ?x"
  proof (cases ?c)
    case SIGNED
    then show ?thesis using b by (auto simp: width_of_def abs_less_iff)
  next
    case UNSIGNED
    then have "cls u = UNSIGNED" "cls v = UNSIGNED" using result_class_cases [of u v] by simp_all
    then have "0 \<le> ?x" using unsigned_nonneg assms(1,2) by simp
    moreover have "(2 :: int) ^ (?n - 1) \<le> 2 ^ ?n" by (rule power_increasing) simp_all
    ultimately show ?thesis using UNSIGNED b by (simp add: width_of_def del: power_increasing_iff)
  qed
  then have "makes ?c ?x (mul_friend ?c (num_sgn u * num_sgn v) (nbits u) (digit u) (nbits v) (digit v))"
    by (intro mul_friend_makes [OF u(2) v(2)]) (use s u(6) in \<open>auto simp: num_val_def\<close>)
  then show ?thesis using s False signs_product(1) [OF assms(1,2)] by (simp add: op_times_def)
qed

text \<open>Division by zero is an error; otherwise a quotient fits but for the least number by \<open>-1\<close>, and a remainder always.\<close>

lemma division_signs:
  assumes "num_ok u" and "num_ok v" and "num_val u \<noteq> 0" and "num_val v \<noteq> 0"
  shows "num_val u sdiv num_val v = num_sgn u * num_sgn v * int (dval (digit u) div dval (digit v))"
    and "num_val u smod num_val v = num_sgn u * int (dval (digit u) mod dval (digit v))"
proof -
  have s: "(num_sgn u = 1 \<or> num_sgn u = -1) \<and> (num_sgn v = 1 \<or> num_sgn v = -1) \<and> 0 < dval (digit u) \<and> 0 < dval (digit v)"
    using signs_product(2) [OF assms] by simp
  have abs: "\<bar>num_val u\<bar> = int (dval (digit u))" "\<bar>num_val v\<bar> = int (dval (digit v))" "sgn (num_val u) = num_sgn u" "sgn (num_val v) = num_sgn v"
    using s by (auto simp: num_val_def sgn_if)
  show "num_val u sdiv num_val v = num_sgn u * num_sgn v * int (dval (digit u) div dval (digit v))"
    "num_val u smod num_val v = num_sgn u * int (dval (digit u) mod dval (digit v))"
    unfolding signed_divide_int_def signed_modulo_int_def abs by (simp_all add: zdiv_int zmod_int)
qed

lemma quotient_bounds:
  assumes "(0 :: int) \<le> Q" and "Q \<le> A" and "0 < A" and "- P \<le> s * A" and "s * A < P" and "P \<le> R" and "s = 1 \<or> s = -1" and "t = 1 \<or> t = -1"
    and "s = -1 \<Longrightarrow> t = -1 \<Longrightarrow> Q < P"
  shows "- R \<le> s * t * Q \<and> s * t * Q < R"
  using assms by auto

lemma remainder_bounds:
  assumes "(0 :: int) \<le> Q" and "Q < B" and "B \<le> P" and "s = 1 \<or> s = -1"
  shows "- P \<le> s * Q \<and> s * Q < P"
  using assms by auto

lemma op_div_makes:
  assumes "num_ok u" and "num_ok v" and "0 < len" and "num_val v \<noteq> 0" and "num_val u \<noteq> - (2 ^ (nbits u - 1)) \<or> num_val v \<noteq> -1"
  shows "\<exists>m. op_div len u v = Inr m \<and> makes (result_class u v) (num_val u sdiv num_val v) m"
proof (cases "num_val u = 0")
  case True
  then show ?thesis using zero_makes [OF assms(3)] signs_product(1) [OF assms(1,2)] sgn_zero_iff [OF assms(2)] assms(4)
    by (auto simp: op_div_def signed_divide_int_def SC_ZERO_def)
next
  case False
  note u = num_okD [OF assms(1)] and v = num_okD [OF assms(2)]
  let ?c = "result_class u v" and ?n = "max (nbits u) (nbits v)" and ?x = "num_val u sdiv num_val v"
  let ?a = "dval (digit u)" and ?b = "dval (digit v)"
  have s: "mul_signs (num_sgn u) (num_sgn v) = num_sgn u * num_sgn v" "num_sgn u = 1 \<or> num_sgn u = -1" "num_sgn v = 1 \<or> num_sgn v = -1"
    "0 < ?a" "0 < ?b" using signs_product(2) [OF assms(1,2) False assms(4)] by simp_all
  note q = division_signs(1) [OF assms(1,2) False assms(4)]
  note b = both_in_range [OF assms(1,2) refl]
  have le: "int (?a div ?b) \<le> int ?a" by (simp only: of_nat_le_iff div_le_dividend)
  have less: "int (?a div ?b) < int ?a" if "?b \<noteq> 1" using s(4,5) that by (simp only: of_nat_less_iff) (simp add: div_less_dividend)
  have n: "(2 :: int) ^ (nbits u - 1) \<le> 2 ^ (?n - 1)" by (rule power_increasing) simp_all
  have r: "- (2 ^ (nbits u - 1)) \<le> num_val u" "num_val u < 2 ^ (nbits u - 1)" using range_signed [OF num_ok_range [OF assms(1)]] by simp_all
  have "in_range ?c (width_of ?c ?n) ?x"
  proof (cases ?c)
    case SIGNED
    have "- (2 ^ (?n - 1)) \<le> ?x \<and> ?x < 2 ^ (?n - 1)"
      unfolding q
    proof (rule quotient_bounds [OF of_nat_0_le_iff le _ r(1) [unfolded num_val_def] r(2) [unfolded num_val_def] n s(2,3)])
      show "0 < int ?a" using s(4) by simp
      assume g: "num_sgn u = -1" "num_sgn v = -1"
      show "int (?a div ?b) < 2 ^ (nbits u - 1)"
      proof (cases "?b = 1")
        case True
        then show ?thesis using assms(5) r g by (simp add: num_val_def)
      next
        case False
        have "int ?a \<le> 2 ^ (nbits u - 1)" using r g by (simp add: num_val_def)
        with less [OF False] show ?thesis by (rule less_le_trans)
      qed
    qed
    then show ?thesis using SIGNED by (simp add: width_of_def)
  next
    case UNSIGNED
    then have "cls u = UNSIGNED" "cls v = UNSIGNED" using result_class_cases [of u v] by simp_all
    then have "num_sgn u = 1" "num_sgn v = 1" using unsigned_nonneg [OF assms(1)] unsigned_nonneg [OF assms(2)] s by (auto simp: num_val_def)
    moreover have "int ?a < 2 ^ (nbits u - 1)" using r(2) \<open>num_sgn u = 1\<close> by (simp add: num_val_def)
    then have "int (?a div ?b) < 2 ^ ?n" using le n b(6) by linarith
    ultimately show ?thesis using UNSIGNED q by (simp add: width_of_def)
  qed
  then have "makes ?c ?x (div_friend ?c len (num_sgn u * num_sgn v) (nbits u) (digit u) (nbits v) (digit v))"
    by (intro div_friend_makes [OF u(2) v(2)]) (use s u(6) q assms(3) in auto)
  then show ?thesis using s False assms(4) signs_product(1) [OF assms(1,2)] by (simp add: op_div_def)
qed

lemma op_mod_makes:
  assumes "num_ok u" and "num_ok v" and "0 < len" and "num_val v \<noteq> 0"
  shows "\<exists>m. op_mod len u v = Inr m \<and> makes (result_class u v) (num_val u smod num_val v) m"
proof (cases "num_val u = 0")
  case True
  then show ?thesis using zero_makes [OF assms(3)] sgn_zero_iff [OF assms(1)] sgn_zero_iff [OF assms(2)] assms(4)
    by (auto simp: op_mod_def signed_modulo_int_def SC_ZERO_def)
next
  case False
  note u = num_okD [OF assms(1)] and v = num_okD [OF assms(2)]
  let ?c = "result_class u v" and ?n = "min (nbits u) (nbits v)" and ?x = "num_val u smod num_val v"
  let ?a = "dval (digit u)" and ?b = "dval (digit v)"
  have s: "num_sgn u = 1 \<or> num_sgn u = -1" "num_sgn v = 1 \<or> num_sgn v = -1" "0 < ?a" "0 < ?b"
    using signs_product(2) [OF assms(1,2) False assms(4)] by simp_all
  note q = division_signs(2) [OF assms(1,2) False assms(4)]
  have le: "int (?a mod ?b) \<le> int ?a" "int (?a mod ?b) < int ?b" using s(4) by (simp_all only: of_nat_le_iff of_nat_less_iff mod_less_eq_dividend mod_less_divisor)
  have ru: "- (2 ^ (nbits u - 1)) \<le> num_val u" "num_val u < 2 ^ (nbits u - 1)" using range_signed [OF num_ok_range [OF assms(1)]] by simp_all
  have rv: "int ?b \<le> 2 ^ (nbits v - 1)" using range_abs [OF num_ok_range [OF assms(2)]] s(2) by (auto simp: num_val_def)
  have b: "- (2 ^ (?n - 1)) \<le> ?x \<and> ?x < 2 ^ (?n - 1)"
  proof (cases "nbits u \<le> nbits v")
    case True
    then have m: "?n = nbits u" by simp
    show ?thesis unfolding q m
      using quotient_bounds [OF of_nat_0_le_iff le(1) _ ru(1) [unfolded num_val_def] ru(2) [unfolded num_val_def] order_refl s(1), of 1] s(3) by simp
  next
    case False
    then have m: "?n = nbits v" by simp
    show ?thesis unfolding q m by (rule remainder_bounds [OF of_nat_0_le_iff le(2) rv s(1)])
  qed
  have n: "(2 :: int) ^ (?n - 1) \<le> 2 ^ ?n" by (rule power_increasing [OF diff_le_self]) simp
  have "in_range ?c (width_of ?c ?n) ?x"
  proof (cases ?c)
    case SIGNED
    then show ?thesis using b by (simp add: width_of_def)
  next
    case UNSIGNED
    then have "cls u = UNSIGNED" using result_class_cases [of u v] by simp
    then have "num_sgn u = 1" using unsigned_nonneg [OF assms(1)] s by (auto simp: num_val_def)
    then have "0 \<le> ?x" using q by simp
    moreover have "?x < 2 ^ ?n" using b n by linarith
    ultimately show ?thesis using UNSIGNED by (simp add: width_of_def)
  qed
  then have "makes ?c ?x (mod_friend ?c len (num_sgn u) (nbits u) (digit u) (nbits v) (digit v))"
    by (intro mod_friend_makes [OF u(2) v(2)]) (use s u(6) v(6) q assms(3) in auto)
  then show ?thesis using sgn_zero_iff assms False by (simp add: op_mod_def)
qed

section \<open>Bitwise combinations\<close>

context bitwise
begin

lemma F_range:
  assumes "- (2 ^ m) \<le> x" and "x < 2 ^ m" and "- (2 ^ m) \<le> y" and "y < (2 :: int) ^ m"
  shows "- (2 ^ m) \<le> F x y \<and> F x y < 2 ^ m"
proof -
  have e: "signed_take_bit m x = x" "signed_take_bit m y = y" using assms by (simp_all add: signed_take_bit_int_eq_self)
  have b: "bit x (min m n) = bit x n" "bit y (min m n) = bit y n" for n
    using arg_cong [OF e(1), of "\<lambda>z. bit z n"] arg_cong [OF e(2), of "\<lambda>z. bit z n"] by (simp_all add: bit_signed_take_bit_iff)
  have "signed_take_bit m (F x y) = F x y"
    by (rule bit_eqI) (simp add: bit_signed_take_bit_iff bit_int b)
  then show ?thesis by (simp add: signed_take_bit_int_eq_self_iff)
qed

lemma F_commute: "(\<And>a b. h a b = h b a) \<Longrightarrow> F x y = F y x"
  by (rule bit_eqI) (simp add: bit_int)

lemma friend_makes:
  assumes "digits_ok ud" and "digits_ok vd" and "us = 1 \<or> us = -1" and "vs = 1 \<or> vs = -1" and "num_fits unb ud" and "num_fits vnb vd"
    and "\<And>a b. unat a < RADIX \<Longrightarrow> unat b < RADIX \<Longrightarrow> e a b = masked a b" and "\<And>a. unat a < RADIX \<Longrightarrow> g a = masked a 0"
    and "\<And>a. g' a = masked a 0" and "\<And>a b. h a b = h b a"
    and "F (us * int (dval ud)) (vs * int (dval vd)) = z" and "in_range SIGNED (max unb vnb) z" and "c = UNSIGNED \<Longrightarrow> 0 \<le> z"
  shows "makes c z (bits_friend f e g g' c us unb ud vs vnb vd)"
proof -
  let ?nb = "max unb vnb"
  obtain xs x ys y where o: "(if length ud \<ge> length vd then (us, ud, vs, vd) else (vs, vd, us, ud)) = (xs, x, ys, y)" by (metis prod_cases4)
  have unb: "0 < unb" "length ud = (unb - 1) div 30 + 1" "0 < vnb" "length vd = (vnb - 1) div 30 + 1" using assms(5,6) by (simp_all add: fits_length)
  have F: "F (xs * int (dval x)) (ys * int (dval y)) = z" using o assms(11) F_commute [OF assms(10)] by (auto split: if_splits)
  have xy: "digits_ok x" "digits_ok y" "xs = 1 \<or> xs = -1" "ys = 1 \<or> ys = -1" "length y \<le> length x" using o assms(1-4) by (auto split: if_splits)
  have "(?nb - 1) div 30 = max ((unb - 1) div 30) ((vnb - 1) div 30)"
    using div_le_mono [OF diff_le_mono, of unb vnb 1 30] div_le_mono [OF diff_le_mono, of vnb unb 1 30] by (cases "unb \<le> vnb") simp_all
  moreover have "length x = max (length ud) (length vd)" using o by (auto split: if_splits)
  ultimately have "num_fits ?nb x" using unb by (simp add: fits_length less_max_iff_disj)
  note num_fits = this
  define r where "r = (if mul_signs xs ys > 0 then if xs > 0 then pp_loop e g x y else nn_loop f 1 1 x y
    else if xs > 0 then pn_loop f 1 x y else np_loop f g' 1 x y)"
  have r: "int (dval r) mod 2 ^ ?nb = z mod 2 ^ ?nb" "digits_ok r" "length r = length x"
    unfolding F [symmetric]
    by (rule chosen_value [OF xy(1-4) num_fits _ _ _ take_all [OF xy(5), symmetric] r_def], erule (1) assms(7), erule assms(8), rule assms(9))+
  obtain t d where td: "convert_signed_2C_to_SM ?nb r = (t, d)" by fastforce
  note c = convert_signed_2C_value [OF r(2) fits_same [OF num_fits r(3)], unfolded td]
  have "wrap_signed ?nb (int (dval r)) = wrap_signed ?nb z" by (rule signed_cong [OF r(1)]) (use unb in simp)
  also have "\<dots> = z" using assms(12) wrap_iff [of SIGNED ?nb z] by (simp add: wrap_def)
  finally have w: "t * int (dval d) = z" "sign_ok t d" "digits_ok d" using c by (simp_all add: sm_val_def sm_ok_def)
  have "(2 :: int) ^ (?nb - 1) \<le> 2 ^ ?nb" by (rule power_increasing [OF diff_le_self]) simp
  then have "in_range c (width_of c ?nb) z" using assms(12,13) by (cases c) (auto simp: width_of_def simp del: power_increasing_iff)
  then have "makes c z (number_of_parts c t ?nb d)"
    using parts_ok [OF w(3,2) _ w(1), of ?nb c] unb(1) by (simp add: makes_def)
  then show ?thesis unfolding bits_friend_def Let_def o by (simp add: td flip: r_def)
qed

end

lemma op_bits_make:
  assumes "num_ok u" and "num_ok v" and "0 < len"
  shows "makes (result_class u v) (num_val u AND num_val v) (op_and len u v)"
    and "makes (result_class u v) (num_val u OR num_val v) (op_or u v)"
    and "makes (result_class u v) (num_val u XOR num_val v) (op_xor u v)"
proof -
  note u = num_okD [OF assms(1)] and v = num_okD [OF assms(2)]
  note zu = sgn_zero_iff [OF assms(1)] and zv = sgn_zero_iff [OF assms(2)]
  let ?c = "result_class u v" and ?n = "max (nbits u) (nbits v)"
  have pos: "?c = UNSIGNED \<Longrightarrow> 0 \<le> num_val u \<and> 0 \<le> num_val v"
    using result_class_cases [of u v] unsigned_nonneg assms(1,2) by auto
  note r = and_op.F_range [OF both_in_range(1-4) [OF assms(1,2) refl]] or_op.F_range [OF both_in_range(1-4) [OF assms(1,2) refl]]
    xor_op.F_range [OF both_in_range(1-4) [OF assms(1,2) refl]]
  have cv: "makes ?c (num_val u) (as_class ?c u)" "makes ?c (num_val v) (as_class ?c v)"
    using as_class_makes assms(1,2) result_class_cases [of u v] by auto
  have "makes ?c (num_val u AND num_val v) (op_and len u v) \<and> makes ?c (num_val u OR num_val v) (op_or u v) \<and> makes ?c (num_val u XOR num_val v) (op_xor u v)"
  proof (cases "num_sgn u = SC_ZERO \<or> num_sgn v = SC_ZERO")
    case True
    then show ?thesis using cv zu zv zero_makes [OF assms(3)] by (auto simp: op_and_def op_or_def op_xor_def)
  next
    case False
    then have nz: "num_sgn u \<noteq> SC_ZERO" "num_sgn v \<noteq> SC_ZERO" by simp_all
    have s: "num_sgn u = 1 \<or> num_sgn u = -1" "num_sgn v = 1 \<or> num_sgn v = -1" using sgn_unit assms(1,2) nz by blast+
    have d: "unat a < RADIX \<Longrightarrow> a AND DIGIT_MASK = a" for a by (rule digit_masked)
    have "makes ?c (num_val u AND num_val v) (and_friend ?c (num_sgn u) (nbits u) (digit u) (num_sgn v) (nbits v) (digit v))"
      unfolding and_friend_def
      by (rule and_op.friend_makes [OF u(2) v(2) s u(1) v(1)]) (use d r(1) pos in \<open>auto simp: num_val_def and.assoc\<close>)
    moreover have "makes ?c (num_val u OR num_val v) (or_friend ?c (num_sgn u) (nbits u) (digit u) (num_sgn v) (nbits v) (digit v))"
      unfolding or_friend_def
      by (rule or_op.friend_makes [OF u(2) v(2) s u(1) v(1)]) (use d r(2) pos in \<open>auto simp: num_val_def bit.conj_disj_distrib2\<close>)
    moreover have "makes ?c (num_val u XOR num_val v) (xor_friend ?c (num_sgn u) (nbits u) (digit u) (num_sgn v) (nbits v) (digit v))"
      unfolding xor_friend_def
      by (rule xor_op.friend_makes [OF u(2) v(2) s u(1) v(1)]) (use d r(3) pos in \<open>auto simp: num_val_def\<close>)
    ultimately show ?thesis using nz by (simp add: op_and_def op_or_def op_xor_def)
  qed
  then show "makes ?c (num_val u AND num_val v) (op_and len u v)" "makes ?c (num_val u OR num_val v) (op_or u v)"
    "makes ?c (num_val u XOR num_val v) (op_xor u v)" by blast+
qed

section \<open>Complement and negation\<close>

text \<open>The complement of an unsigned number is negative, and is left in an unsigned object.\<close>

lemma op_not_value:
  assumes "num_ok u"
  shows "cls (op_not u) = cls u \<and> num_wf (op_not u) \<and> num_val (op_not u) = - num_val u - 1 \<and> (num_ok (op_not u) \<longleftrightarrow> cls u = SIGNED)"
proof -
  note u = num_okD [OF assms]
  let ?c = "cls u" and ?w = "width_of (cls u) (nbits u)"
  have f: "num_fits ?w (new_digits ?w)" by (rule fits_new [OF width_of_pos(1) [OF u(6)]])
  have R: "2 ^ (nbits u - 1) < RADIX ^ length (digit u)" by (rule fits_above [OF u(1)])
  have x: "- (2 ^ (nbits u - 1)) \<le> num_val u" "num_val u < 2 ^ (nbits u - 1)" using range_signed [OF num_ok_range [OF assms]] by simp_all
  obtain s d where o: "op_not u = number_of_parts ?c s (nbits u) d" and d: "digits_ok d" "sign_ok s d" "s * int (dval d) = - num_val u - 1"
  proof (cases "num_sgn u = SC_ZERO")
    case True
    then show thesis using that [of SC_NEG "[1]"] sgn_zero_iff [OF assms] by (simp add: op_not_def sign_ok_def SC_NEG_def RADIX_nat)
  next
    case False
    note su = sgn_unit [OF assms False]
    show thesis
    proof (cases "num_sgn u = 1")
      case True
      let ?d = "vec_add_small_on (digit u) 1"
      have "dval (digit u) + 1 < RADIX ^ length (digit u)" using x(2) R True by (simp add: num_val_def)
      then have "dval ?d = dval (digit u) + 1"
        using vec_add_small_on_value [OF u(2), of 1] dval_less [of ?d] dval_mod [of ?d] by (metis One_nat_def RADIX_nat mod_less one_less_numeral_iff semiring_norm(76) unsigned_1)
      then show thesis using that [of SC_NEG ?d] True vec_add_small_on_value [OF u(2), of 1]
        by (simp add: op_not_def sign_ok_def SC_NEG_def SC_POS_def SC_ZERO_def num_val_def RADIX_nat)
    next
      case neg: False
      let ?d = "vec_sub_small_on (digit u) 1"
      have v: "digits_ok ?d" "int (dval ?d) = (int (dval (digit u)) - 1) mod int RADIX ^ length (digit u)"
        using vec_sub_small_on_value [OF u(2), of 1] fits_bits(3) [OF u(1)] by (simp_all add: RADIX_nat)
      have "(int (dval (digit u)) - 1) mod int RADIX ^ length (digit u) = int (dval (digit u)) - 1"
        using su dval_less [OF u(2)] by (intro mod_pos_pos_trivial) (simp_all flip: of_nat_power)
      then have "int (dval ?d) = - num_val u - 1" using v(2) su neg by (simp add: num_val_def)
      then show thesis using that [of "if is_zero ?d then SC_ZERO else SC_POS" ?d] su neg v(1)
        by (simp add: op_not_def sign_ok_def SC_NEG_def SC_POS_def SC_ZERO_def is_zero_def first_nonzero)
    qed
  qed
  have "\<bar>- num_val u - 1\<bar> \<le> 2 ^ (nbits u - 1)" using x by (auto simp: abs_le_iff)
  moreover have "\<bar>- num_val u - 1\<bar> = int (dval d)" using d(2) unfolding d(3) [symmetric] by (auto simp: sign_ok_def)
  ultimately have "int (dval d) \<le> int (2 ^ (nbits u - 1))" by simp
  then have "dval d \<le> 2 ^ (nbits u - 1)" by (simp only: of_nat_le_iff)
  also have "\<dots> \<le> 2 ^ (?w - 1)" by (rule power_increasing [OF diff_le_mono [OF width_of_pos(2)]]) simp
  also have "\<dots> < 2 ^ (30 * length (new_digits ?w))" using fits_above [OF f] by (simp add: RADIX_power)
  finally have k: "num_wf (op_not u)" "num_val (op_not u) = - num_val u - 1" "cls (op_not u) = ?c" "nbits (op_not u) = ?w"
    using parts_kept [OF d(1,2) u(6), of ?c] d(3) by (simp_all add: o)
  have "in_range ?c ?w (- num_val u - 1) \<longleftrightarrow> ?c = SIGNED"
    using x unsigned_nonneg [OF assms] by (cases ?c) (auto simp: width_of_def)
  then show ?thesis using k by (simp add: num_ok_iff)
qed

text \<open>The negative of the least number of a width is left in that width, which cannot hold it.\<close>

lemma op_negate_value:
  assumes "num_ok u"
  shows "cls (op_negate u) = SIGNED \<and> num_wf (op_negate u) \<and> num_val (op_negate u) = - num_val u \<and>
    (num_ok (op_negate u) \<longleftrightarrow> num_val u \<noteq> - (2 ^ (nbits u - 1)))"
proof -
  note u = num_okD [OF assms]
  have x: "- (2 ^ (nbits u - 1)) \<le> num_val u" "num_val u < 2 ^ (nbits u - 1)" using range_signed [OF num_ok_range [OF assms]] by simp_all
  have e: "- num_sgn u * int (dval (digit u)) = - num_val u" by (simp add: num_val_def)
  show ?thesis
  proof (cases "cls u")
    case SIGNED
    then have o: "op_negate u = u\<lparr>num_sgn := - num_sgn u\<rparr>" by (simp add: op_negate_def with_sign_def)
    have "num_wf (op_negate u)" using u(1-3) by (auto simp: o num_wf_def sign_ok_def)
    then show ?thesis using x SIGNED by (auto simp: num_ok_iff o num_val_def)
  next
    case UNSIGNED
    then have "0 \<le> num_val u" using unsigned_nonneg [OF assms] by simp
    moreover have "0 < (2 :: int) ^ (nbits u - 1)" by simp
    ultimately have n: "num_val u \<noteq> - (2 ^ (nbits u - 1))" by linarith
    have "sign_ok (- num_sgn u) (digit u)" using u(3) by (auto simp: sign_ok_def)
    from with_sign_makes [OF assms this] show ?thesis using x n unfolding e op_negate_def by (auto simp: makes_def num_ok_def)
  qed
qed

section \<open>What the operators return\<close>

text \<open>C19: Whatever the classes, widths and signs of the operands, \<open>+\<close>, \<open>*\<close>, \<open>%\<close>, \<open>&\<close>, \<open>|\<close> and \<open>^\<close> return a number of the class of the
  result that is exactly the sum, the product, the remainder and the bitwise combination of the two's complements: no bit is lost.\<close>

lemma operators_exact:
  assumes "num_ok u" and "num_ok v" and "0 < len"
  shows "makes (result_class u v) (num_val u + num_val v) (op_plus len u v) \<and>
    makes (result_class u v) (num_val u * num_val v) (op_times len u v) \<and>
    makes (result_class u v) (num_val u AND num_val v) (op_and len u v) \<and>
    makes (result_class u v) (num_val u OR num_val v) (op_or u v) \<and>
    makes (result_class u v) (num_val u XOR num_val v) (op_xor u v) \<and>
    (if num_val v = 0 then op_mod len u v = Inl (ReportError SC_ID_OPERATION_FAILED)
     else \<exists>m. op_mod len u v = Inr m \<and> makes (result_class u v) (num_val u smod num_val v) m)"
  using op_plus_makes [OF assms] op_times_makes [OF assms] op_bits_make [OF assms] op_mod_makes [OF assms] sgn_zero_iff [OF assms(2)]
  by (auto simp: op_mod_def SC_ZERO_def)

text \<open>\<open>-\<close>, \<open>/\<close>, the negation and the complement are exact too, but their width does not follow the result: the negation of the
  least number of a width and its difference from zero stay in that width, outside the invariant of the class, as does the
  complement of every unsigned number, which is negative.\<close>

lemma operators_leave_width:
  assumes "num_ok u" and "num_ok v" and "0 < len"
  shows "num_val (op_negate v) = - num_val v \<and> (num_ok (op_negate v) \<longleftrightarrow> num_val v \<noteq> - (2 ^ (nbits v - 1))) \<and>
    num_val (op_not v) = - num_val v - 1 \<and> (num_ok (op_not v) \<longleftrightarrow> cls v = SIGNED) \<and>
    num_val (op_minus len u v) = num_val u - num_val v \<and>
    (num_ok (op_minus len u v) \<longleftrightarrow> num_val u \<noteq> 0 \<or> num_val v \<noteq> - (2 ^ (nbits v - 1)))"
proof (cases "num_val u \<noteq> 0 \<or> num_val v \<noteq> - (2 ^ (nbits v - 1))")
  case True
  then show ?thesis using op_negate_value [OF assms(2)] op_not_value [OF assms(2)] op_minus_makes [OF assms] by (simp add: makes_def)
next
  case False
  then have "num_sgn u = SC_ZERO" "num_sgn v \<noteq> SC_ZERO" using sgn_zero_iff [OF assms(1)] sgn_zero_iff [OF assms(2)] by auto
  then have "op_minus len u v = op_negate v" by (simp add: op_minus_def op_negate_def)
  then show ?thesis using op_negate_value [OF assms(2)] op_not_value [OF assms(2)] False by simp
qed

text \<open>A quotient is rounded towards zero and kept whole in the wider of the widths, but for that of the least number by \<open>-1\<close>; a
  division by zero reports an error.\<close>

lemma quotients_exact:
  assumes "num_ok u" and "num_ok v" and "0 < len" and "num_val u \<noteq> - (2 ^ (nbits u - 1)) \<or> num_val v \<noteq> -1"
  shows "if num_val v = 0 then op_div len u v = Inl (ReportError SC_ID_OPERATION_FAILED)
    else \<exists>m. op_div len u v = Inr m \<and> makes (result_class u v) (num_val u sdiv num_val v) m"
proof (cases "num_val v = 0")
  case True
  then show ?thesis using sgn_zero_iff [OF assms(2)] signs_product(1) [OF assms(1,2)] by (simp add: op_div_def SC_ZERO_def)
next
  case False
  then show ?thesis using op_div_makes [OF assms(1-3) False assms(4)] by simp
qed

lemma operators_exact_witness:
  "num_val (op_times 32 minus_eight unsigned_five) = -40 \<and> num_val (op_and 32 minus_eight unsigned_five) = 0 \<and>
   num_val (op_plus 32 unsigned_five unsigned_five) = 10 \<and> cls (op_plus 32 unsigned_five unsigned_five) = UNSIGNED"
  using operators_exact [OF examples_ok(1,3), of 32] operators_exact [OF examples_ok(3,3), of 32]
  by (simp add: makes_def examples_val examples_cls result_class_def)

lemma operators_leave_width_witness:
  "num_val (op_negate minus_eight) = 8 \<and> \<not> num_ok (op_negate minus_eight) \<and> num_val (op_minus 32 number_zero_4 minus_eight) = 8 \<and>
   \<not> num_ok (op_minus 32 number_zero_4 minus_eight) \<and> num_val (op_not unsigned_five) = -6 \<and> \<not> num_ok (op_not unsigned_five)"
  using operators_leave_width [OF examples_ok(2,1), of 32] operators_leave_width [OF examples_ok(2,3), of 32]
  by (simp add: examples_val examples_cls)

lemma quotients_exact_witness:
  "(\<exists>m. op_div 32 minus_eight unsigned_five = Inr m \<and> num_val m = -1) \<and>
   op_div 32 unsigned_five number_zero_4 = Inl (ReportError SC_ID_OPERATION_FAILED)"
  using quotients_exact [OF examples_ok(1,3), of 32] quotients_exact [OF examples_ok(3,2), of 32]
  by (auto simp: makes_def examples_val examples_cls signed_divide_int_def)

end
