(* ===== verification/Sc_Names.thy ===== *)
theory Sc_Names
  imports Sc_Ids Text_Input
begin

text \<open>
  \<open>sc_name_gen.cpp\<close> and the table of \<open>sc_object_manager.cpp\<close>: the generator of names with counters, the table of all
  names of objects, of events and of names taken from outside, and the making of a hierarchical name that is not taken.
  Objects and events are numbers.  The warning that a name was changed is printed and not modelled.
\<close>

section \<open>The generator\<close>

text \<open>The counters, one for each base; the name that was generated last is the result.\<close>

type_synonym name_gen = "string \<rightharpoonup> int"

definition gen_unique_name :: "name_gen \<Rightarrow> string \<Rightarrow> bool \<Rightarrow> (string \<times> name_gen) res" where
  "gen_unique_name g basename preserve_first =
     (if basename = [] then Inl (ReportError SC_ID_GEN_UNIQUE_NAME)
      else case g basename of
        None \<Rightarrow> Inr (if preserve_first then basename else basename @ ''_'' @ show_int 0, g(basename \<mapsto> 0))
      | Some c \<Rightarrow> rbind (check_int (c + 1)) (\<lambda>c. Inr (basename @ ''_'' @ show_int c, g(basename \<mapsto> c))))"

section \<open>The table\<close>

datatype sc_name_origin = SC_NAME_NONE | SC_NAME_OBJECT | SC_NAME_EVENT | SC_NAME_EXTERNAL

record table_entry =
  m_element_p :: "nat option"
  m_name_origin :: sc_name_origin

text \<open>A \<open>std::map\<close> is sorted by its keys, which compare by the codes of their characters.\<close>

type_synonym instance_table = "(string \<times> table_entry) list"

fun string_less :: "string \<Rightarrow> string \<Rightarrow> bool" where
  "string_less cs [] \<longleftrightarrow> False"
| "string_less [] (d # ds) \<longleftrightarrow> True"
| "string_less (c # cs) (d # ds) \<longleftrightarrow> of_char c < (of_char d :: nat) \<or> c = d \<and> string_less cs ds"

fun table_set :: "string \<Rightarrow> table_entry \<Rightarrow> instance_table \<Rightarrow> instance_table" where
  "table_set k e [] = [(k, e)]"
| "table_set k e ((a, b) # t) =
     (if string_less k a then (k, e) # (a, b) # t else if k = a then (k, e) # t else (a, b) # table_set k e t)"

definition name_exists :: "instance_table \<Rightarrow> string \<Rightarrow> bool" where
  "name_exists t name \<longleftrightarrow> (case map_of t name of None \<Rightarrow> False | Some e \<Rightarrow> m_name_origin e \<noteq> SC_NAME_NONE)"

definition get_name :: "instance_table \<Rightarrow> string \<Rightarrow> string option" where
  "get_name t name = (if name_exists t name then Some name else None)"

definition find_of :: "sc_name_origin \<Rightarrow> instance_table \<Rightarrow> string \<Rightarrow> nat option" where
  "find_of origin t name =
     (case map_of t name of None \<Rightarrow> None | Some e \<Rightarrow> if m_name_origin e = origin then m_element_p e else None)"

definition find_event :: "instance_table \<Rightarrow> string \<Rightarrow> nat option" where
  "find_event = find_of SC_NAME_EVENT"

definition find_object :: "instance_table \<Rightarrow> string \<Rightarrow> nat option" where
  "find_object = find_of SC_NAME_OBJECT"

definition insert_object :: "string \<Rightarrow> nat \<Rightarrow> instance_table \<Rightarrow> instance_table" where
  "insert_object name ob = table_set name \<lparr>m_element_p = Some ob, m_name_origin = SC_NAME_OBJECT\<rparr>"

definition insert_event :: "string \<Rightarrow> nat \<Rightarrow> instance_table \<Rightarrow> instance_table" where
  "insert_event name ev = table_set name \<lparr>m_element_p = Some ev, m_name_origin = SC_NAME_EVENT\<rparr>"

definition insert_external_name :: "string \<Rightarrow> instance_table \<Rightarrow> bool \<times> instance_table" where
  "insert_external_name name t =
     (if \<not> name_exists t name then (True, table_set name \<lparr>m_element_p = None, m_name_origin = SC_NAME_EXTERNAL\<rparr> t) else (False, t))"

text \<open>Nothing is ever erased from the map: an entry that is removed keeps its name and has no origin.\<close>

definition remove_of :: "sc_name_origin \<Rightarrow> string \<Rightarrow> instance_table \<Rightarrow> bool \<times> instance_table" where
  "remove_of origin name t =
     (case map_of t name of None \<Rightarrow> (False, t)
      | Some e \<Rightarrow> if m_name_origin e = origin then (True, table_set name \<lparr>m_element_p = None, m_name_origin = SC_NAME_NONE\<rparr> t) else (False, t))"

definition remove_event :: "string \<Rightarrow> instance_table \<Rightarrow> instance_table" where
  "remove_event name t = snd (remove_of SC_NAME_EVENT name t)"

definition remove_object :: "string \<Rightarrow> instance_table \<Rightarrow> instance_table" where
  "remove_object name t = snd (remove_of SC_NAME_OBJECT name t)"

definition remove_external_name :: "string \<Rightarrow> instance_table \<Rightarrow> bool \<times> instance_table" where
  "remove_external_name = remove_of SC_NAME_EXTERNAL"

text \<open>The walk over the objects: an iterator is the key it points at, none at the end.\<close>

fun first_from :: "instance_table \<Rightarrow> (string \<times> nat option) option" where
  "first_from [] = None"
| "first_from ((k, e) # t) = (if m_name_origin e = SC_NAME_OBJECT then Some (k, m_element_p e) else first_from t)"

definition first_object :: "instance_table \<Rightarrow> nat option \<times> string option" where
  "first_object t = (case first_from t of None \<Rightarrow> (None, None) | Some (k, ob) \<Rightarrow> (ob, Some k))"

definition next_object :: "instance_table \<Rightarrow> string option \<Rightarrow> nat option \<times> string option" where
  "next_object t it =
     (case it of None \<Rightarrow> (None, None)
      | Some k \<Rightarrow> case first_from (tl (dropWhile (\<lambda>(a, e). a \<noteq> k) t)) of None \<Rightarrow> (None, None) | Some (k, ob) \<Rightarrow> (ob, Some k))"

section \<open>Making a name\<close>

definition SC_HIERARCHY_CHAR :: char where
  "SC_HIERARCHY_CHAR = CHR ''.''"

definition construct_hierarchical_name :: "string option \<Rightarrow> string \<Rightarrow> string" where
  "construct_hierarchical_name parent leaf = (case parent of Some p \<Rightarrow> p @ [SC_HIERARCHY_CHAR] @ leaf | None \<Rightarrow> leaf)"

lemma construct_length: "length leaf < length leaf' \<Longrightarrow> length (construct_hierarchical_name p leaf) < length (construct_hierarchical_name p leaf')"
  by (simp add: construct_hierarchical_name_def split: option.split)

lemma gen_longer: "gen_unique_name g leaf False = Inr (leaf', g') \<Longrightarrow> length leaf < length leaf'"
  by (auto simp: gen_unique_name_def rbind_def check_int_def split: if_splits option.splits sum.splits)

function create_loop :: "instance_table \<Rightarrow> string option \<Rightarrow> string \<Rightarrow> name_gen \<Rightarrow> (string \<times> name_gen) res" where
  "create_loop t p leaf g =
     (if \<not> name_exists t (construct_hierarchical_name p leaf) then Inr (construct_hierarchical_name p leaf, g)
      else case gen_unique_name g leaf False of Inl e \<Rightarrow> Inl e | Inr (leaf, g) \<Rightarrow> create_loop t p leaf g)"
  by pat_completeness auto

text \<open>Every round makes the name longer, so the names of the table it can meet become fewer.\<close>

lemma filter_shrinks:
  assumes "\<And>x. x \<in> set xs \<Longrightarrow> Q x \<Longrightarrow> P x" and "x \<in> set xs" and "P x" and "\<not> Q x"
  shows "length (filter Q xs) < length (filter P xs)"
proof -
  have "filter Q xs = filter Q (filter P xs)" using assms(1) by (simp add: filter_filter) (rule filter_cong; auto)
  moreover have "x \<in> set (filter P xs)" using assms(2,3) by simp
  then have "length (filter Q (filter P xs)) < length (filter P xs)" using assms(4) by (rule length_filter_less)
  ultimately show ?thesis by simp
qed

termination create_loop
proof (relation "measure (\<lambda>(t, p, leaf, g). length (filter (\<lambda>(k, e). length (construct_hierarchical_name p leaf) \<le> length k) t))")
  fix t :: instance_table and p :: "string option" and leaf leaf' :: string and g g' :: name_gen and y
  assume e: "\<not> \<not> name_exists t (construct_hierarchical_name p leaf)" and g: "gen_unique_name g leaf False = Inr y" "(leaf', g') = y"
  obtain x where x: "(construct_hierarchical_name p leaf, x) \<in> set t" using e by (auto simp: name_exists_def dest: map_of_SomeD split: option.splits)
  have "length (construct_hierarchical_name p leaf) < length (construct_hierarchical_name p leaf')"
    using construct_length gen_longer g by auto
  then have "length (filter (\<lambda>(k, e). length (construct_hierarchical_name p leaf') \<le> length k) t) <
      length (filter (\<lambda>(k, e). length (construct_hierarchical_name p leaf) \<le> length k) t)"
    by (intro filter_shrinks [OF _ x]) auto
  then show "((t, p, leaf', g'), t, p, leaf, g) \<in> measure (\<lambda>(t, p, leaf, g). length (filter (\<lambda>(k, e). length (construct_hierarchical_name p leaf) \<le> length k) t))"
    by simp
qed simp

declare create_loop.simps [simp del]

section \<open>The table is sorted\<close>

lemma string_less_trans: "string_less a b \<Longrightarrow> string_less b c \<Longrightarrow> string_less a c"
proof (induction a b arbitrary: c rule: string_less.induct)
  case (2 d ds)
  then show ?case by (cases c) simp_all
next
  case (3 x cs d ds)
  then show ?case by (cases c) auto
qed simp

lemma string_less_irrefl: "\<not> string_less a a"
  by (induction a) simp_all

lemma string_less_total: "string_less a b \<or> a = b \<or> string_less b a"
proof (induction a b rule: string_less.induct)
  case (1 cs)
  then show ?case by (cases cs) simp_all
next
  case (3 c cs d ds)
  have "c = d" if "(of_char c :: nat) = of_char d" using that by (metis char_of_char)
  then show ?case using 3 by (auto simp: linorder_neq_iff)
qed simp

text \<open>The names ascend, and the entry of an object points to it.\<close>

definition table_ok :: "instance_table \<Rightarrow> bool" where
  "table_ok t \<longleftrightarrow> sorted_wrt string_less (map fst t) \<and> (\<forall>(k, e) \<in> set t. m_name_origin e = SC_NAME_OBJECT \<longrightarrow> m_element_p e \<noteq> None)"

lemma map_of_table_set: "map_of (table_set k e t) = (map_of t)(k \<mapsto> e)"
  by (induction k e t rule: table_set.induct) auto

lemma keys_table_set: "set (map fst (table_set k e t)) = insert k (set (map fst t))"
  by (induction k e t rule: table_set.induct) auto

lemma sorted_table_set: "sorted_wrt string_less (map fst t) \<Longrightarrow> sorted_wrt string_less (map fst (table_set k e t))"
proof (induction k e t rule: table_set.induct)
  case (2 k e a b t)
  have t: "sorted_wrt string_less (map fst t)" "\<forall>x \<in> set (map fst t). string_less a x" using "2.prems" by simp_all
  show ?case
  proof (cases "string_less k a \<or> k = a")
    case True
    then show ?thesis using "2.prems" t(2) string_less_trans by auto
  next
    case False
    then have "string_less a k" using string_less_total by blast
    then have "\<forall>x \<in> set (map fst (table_set k e t)). string_less a x" unfolding keys_table_set using t(2) by simp
    then show ?thesis using False "2.IH" t(1) by simp
  qed
qed simp

lemma set_table_set: "set (table_set k e t) \<subseteq> insert (k, e) (set t)"
  by (induction k e t rule: table_set.induct) auto

lemma table_ok_set: "table_ok t \<Longrightarrow> (m_name_origin e = SC_NAME_OBJECT \<Longrightarrow> m_element_p e \<noteq> None) \<Longrightarrow> table_ok (table_set k e t)"
  using set_table_set [of k e t] by (fastforce simp: table_ok_def sorted_table_set)

lemma table_ok_distinct: "table_ok t \<Longrightarrow> distinct (map fst t)"
  unfolding table_ok_def by (induction t) (auto simp: string_less_irrefl)

text \<open>What the table says of a name.\<close>

lemma name_exists_set: "name_exists (table_set k e t) n \<longleftrightarrow> (if n = k then m_name_origin e \<noteq> SC_NAME_NONE else name_exists t n)"
  by (simp add: name_exists_def map_of_table_set)

lemma find_of_set: "find_of o' (table_set k e t) n = (if n = k then if m_name_origin e = o' then m_element_p e else None else find_of o' t n)"
  by (simp add: find_of_def map_of_table_set)

lemma remove_of_cases:
  "remove_of o' n t = (if (\<exists>e. map_of t n = Some e \<and> m_name_origin e = o') then
    (True, table_set n \<lparr>m_element_p = None, m_name_origin = SC_NAME_NONE\<rparr> t) else (False, t))"
  by (auto simp: remove_of_def split: option.split)

section \<open>The walk\<close>

fun walk :: "nat \<Rightarrow> instance_table \<Rightarrow> nat option \<times> string option \<Rightarrow> nat option list" where
  "walk n t (ob, None) = []"
| "walk 0 t (ob, Some k) = []"
| "walk (Suc n) t (ob, Some k) = ob # walk n t (next_object t (Some k))"

definition objects_in :: "instance_table \<Rightarrow> nat option list" where
  "objects_in t = map (m_element_p \<circ> snd) (filter (\<lambda>(k, e). m_name_origin e = SC_NAME_OBJECT) t)"

lemma first_from_split:
  "case first_from t of None \<Rightarrow> objects_in t = []
   | Some (k, ob) \<Rightarrow> \<exists>ys e zs. t = ys @ (k, e) # zs \<and> m_element_p e = ob \<and> objects_in t = ob # objects_in zs"
proof (induction t)
  case (Cons x t)
  obtain k e where x: "x = (k, e)" by fastforce
  show ?case
  proof (cases "m_name_origin e = SC_NAME_OBJECT")
    case True
    then have f: "first_from (x # t) = Some (k, m_element_p e)" "objects_in (x # t) = m_element_p e # objects_in t"
      by (simp_all add: x objects_in_def)
    show ?thesis unfolding f option.case prod.case by (intro exI [of _ "[]"] exI [of _ e] exI [of _ t]) (simp add: x)
  next
    case False
    then have o: "objects_in (x # t) = objects_in t" "first_from (x # t) = first_from t" by (simp_all add: x objects_in_def)
    show ?thesis unfolding o using Cons.IH by (auto split: option.splits prod.splits) (metis append_Cons)
  qed
qed (simp add: objects_in_def)

lemma walk_from:
  assumes "distinct (map fst t)" and "t = ys @ zs" and "length zs \<le> n"
  shows "walk n t (case first_from zs of None \<Rightarrow> (None, None) | Some (k, ob) \<Rightarrow> (ob, Some k)) = objects_in zs"
  using assms(2,3)
proof (induction n arbitrary: ys zs)
  case 0
  then show ?case by (simp add: objects_in_def)
next
  case (Suc n)
  show ?case
  proof (cases "first_from zs")
    case None
    then show ?thesis using first_from_split [of zs] by simp
  next
    case (Some r)
    then obtain k ob where r: "first_from zs = Some (k, ob)" by fastforce
    then obtain us e vs where z: "zs = us @ (k, e) # vs" "objects_in zs = ob # objects_in vs" using first_from_split [of zs] by auto
    have t: "t = (ys @ us) @ (k, e) # vs" using Suc.prems(1) z(1) by simp
    then have "\<forall>x \<in> set (ys @ us). fst x \<noteq> k" using assms(1) by auto
    then have d: "dropWhile (\<lambda>(a, e). a \<noteq> k) t = (k, e) # vs" unfolding t by (subst dropWhile_append2) (force, simp)
    have "walk n t (case first_from vs of None \<Rightarrow> (None, None) | Some (k, ob) \<Rightarrow> (ob, Some k)) = objects_in vs"
      using Suc.IH [of "ys @ us @ [(k, e)]" vs] Suc.prems(2) t z(1) by simp
    then show ?thesis using z(2) by (simp add: r next_object_def d)
  qed
qed

lemma walk_visits: "table_ok t \<Longrightarrow> walk (length t) t (first_object t) = objects_in t"
  unfolding first_object_def by (rule walk_from [OF table_ok_distinct, of _ "[]"]) simp_all

section \<open>The made name is free\<close>

text \<open>The counters of the bases that a round may still use are below the greatest \<open>int\<close>.\<close>

definition counters_small :: "nat \<Rightarrow> name_gen \<Rightarrow> bool" where
  "counters_small n g \<longleftrightarrow> (\<forall>b c. g b = Some c \<longrightarrow> n \<le> length b \<longrightarrow> 0 \<le> c \<and> c < 2 ^ 31 - 1)"

lemma gen_returns:
  assumes "leaf \<noteq> []" and "counters_small (length leaf) g"
  shows "\<exists>c. gen_unique_name g leaf first = Inr (if g leaf = None \<and> first then leaf else leaf @ ''_'' @ show_int c, g(leaf \<mapsto> c)) \<and> 0 \<le> c \<and>
    (g leaf = None \<longrightarrow> c = 0) \<and> (\<forall>n > length leaf. counters_small n (g(leaf \<mapsto> c)))"
proof (cases "g leaf")
  case None
  then show ?thesis using assms by (auto simp: gen_unique_name_def counters_small_def)
next
  case (Some c)
  then have "0 \<le> c" "c < 2 ^ 31 - 1" using assms(2) by (auto simp: counters_small_def)
  then have "check_int (c + 1) = Inr (c + 1)" by (simp add: check_int_def is_cint_def INT_MIN_def INT_MAX_def)
  then show ?thesis using assms Some \<open>0 \<le> c\<close> by (auto simp: gen_unique_name_def counters_small_def)
qed

lemma create_loop_fresh:
  assumes "leaf \<noteq> []" and "counters_small (length leaf) g"
  shows "\<exists>rest g'. create_loop t p leaf g = Inr (construct_hierarchical_name p (leaf @ rest), g') \<and>
    \<not> name_exists t (construct_hierarchical_name p (leaf @ rest)) \<and>
    (\<not> name_exists t (construct_hierarchical_name p leaf) \<longrightarrow> rest = [] \<and> g' = g)"
  using assms
proof (induction t p leaf g rule: create_loop.induct)
  case (1 t p leaf g)
  show ?case
  proof (cases "name_exists t (construct_hierarchical_name p leaf)")
    case False
    then show ?thesis by (intro exI [of _ "[]"] exI [of _ g]) (simp add: create_loop.simps [of t p leaf g])
  next
    case True
    obtain c where c: "gen_unique_name g leaf False = Inr (leaf @ ''_'' @ show_int c, g(leaf \<mapsto> c))"
      and small: "\<forall>n > length leaf. counters_small n (g(leaf \<mapsto> c))" using gen_returns [OF "1.prems", of False] by auto
    define l where "l = leaf @ ''_'' @ show_int c"
    define g2 where "g2 = g(leaf \<mapsto> c)"
    have "counters_small (length l) g2" "l \<noteq> []" using small by (simp_all add: l_def g2_def)
    moreover have e: "gen_unique_name g leaf False = Inr (l, g2)" unfolding l_def g2_def by (rule c)
    ultimately obtain rest g' where r: "create_loop t p l g2 = Inr (construct_hierarchical_name p (l @ rest), g')"
      "\<not> name_exists t (construct_hierarchical_name p (l @ rest))"
      using "1.IH" [OF _ e refl] True by auto
    have "create_loop t p leaf g = create_loop t p l g2" using True e by (simp add: create_loop.simps [of t p leaf g])
    then show ?thesis using r True by (intro exI [of _ "''_'' @ show_int c @ rest"] exI [of _ g']) (simp add: l_def)
  qed
qed

end
