(* ===== verification/Sc_Object.thy ===== *)
theory Sc_Object
  imports Sc_Names
begin

text \<open>
  \<open>sc_object.cpp\<close> and the hierarchy of \<open>sc_object_manager.cpp\<close> and \<open>sc_simcontext.cpp\<close>: objects with their parents and
  children, the stack of the modules under construction, events as children, detaching and destruction.  Objects that exist
  are a map from numbers; an object that is destroyed leaves it.
\<close>

record sc_object =
  m_name :: string
  m_parent :: "nat option"
  m_child_objects :: "nat list"
  m_child_events :: "nat list"
  m_name_gen :: name_gen

record named_event =
  ev_name :: string
  ev_parent :: "nat option"

text \<open>The object manager, the lists of the simulation context, and the process that runs.\<close>

record hierarchy =
  hi_table :: instance_table
  m_object_stack :: "nat list"
  hi_objects :: "nat \<rightharpoonup> sc_object"
  hi_next :: nat
  hi_events :: "nat \<rightharpoonup> named_event"
  hi_next_event :: nat
  hi_top_objects :: "nat list"
  hi_top_events :: "nat list"
  hi_gen :: name_gen
  hi_process :: "nat option"
  hi_running :: bool
  m_collectable :: "nat list"
  m_references_n :: "nat \<Rightarrow> int"

definition hierarchy_new :: hierarchy where
  "hierarchy_new = \<lparr>hi_table = [], m_object_stack = [], hi_objects = Map.empty, hi_next = 0, hi_events = Map.empty, hi_next_event = 0,
     hi_top_objects = [], hi_top_events = [], hi_gen = Map.empty, hi_process = None, hi_running = False, m_collectable = [],
     m_references_n = (\<lambda>_. 1)\<rparr>"

section \<open>The stack\<close>

definition hierarchy_curr :: "('a) hierarchy_scheme \<Rightarrow> nat option" where
  "hierarchy_curr h = (if m_object_stack h \<noteq> [] then Some (last (m_object_stack h)) else None)"

definition hierarchy_push :: "nat \<Rightarrow> ('a) hierarchy_scheme \<Rightarrow> ('a) hierarchy_scheme" where
  "hierarchy_push ob h = h\<lparr>m_object_stack := m_object_stack h @ [ob]\<rparr>"

definition hierarchy_pop :: "('a) hierarchy_scheme \<Rightarrow> nat option \<times> ('a) hierarchy_scheme" where
  "hierarchy_pop h =
     (if m_object_stack h = [] then (None, h) else (Some (last (m_object_stack h)), h\<lparr>m_object_stack := butlast (m_object_stack h)\<rparr>))"

definition active_object :: "('a) hierarchy_scheme \<Rightarrow> nat option" where
  "active_object h = (case hierarchy_curr h of Some ob \<Rightarrow> Some ob | None \<Rightarrow> hi_process h)"

section \<open>Names\<close>

definition the_object :: "('a) hierarchy_scheme \<Rightarrow> nat \<Rightarrow> sc_object" where
  "the_object h ob = the (hi_objects h ob)"

definition set_object :: "nat \<Rightarrow> (sc_object \<Rightarrow> sc_object) \<Rightarrow> ('a) hierarchy_scheme \<Rightarrow> ('a) hierarchy_scheme" where
  "set_object ob f h = h\<lparr>hi_objects := (hi_objects h)(ob := map_option f (hi_objects h ob))\<rparr>"

text \<open>The generator is that of the module under construction, else of the running process, else of the context.\<close>

definition curr_gen :: "('a) hierarchy_scheme \<Rightarrow> name_gen" where
  "curr_gen h = (case active_object h of Some ob \<Rightarrow> m_name_gen (the_object h ob) | None \<Rightarrow> hi_gen h)"

definition set_gen :: "name_gen \<Rightarrow> ('a) hierarchy_scheme \<Rightarrow> ('a) hierarchy_scheme" where
  "set_gen g h = (case active_object h of Some ob \<Rightarrow> set_object ob (m_name_gen_update (\<lambda>_. g)) h | None \<Rightarrow> h\<lparr>hi_gen := g\<rparr>)"

definition sc_gen_unique_name :: "string \<Rightarrow> bool \<Rightarrow> ('a) hierarchy_scheme \<Rightarrow> (string \<times> ('a) hierarchy_scheme) res" where
  "sc_gen_unique_name basename first h = rbind (gen_unique_name (curr_gen h) basename first) (\<lambda>(nm, g). Inr (nm, set_gen g h))"

definition parent_name :: "('a) hierarchy_scheme \<Rightarrow> nat option \<Rightarrow> string option" where
  "parent_name h parent = map_option (\<lambda>p. m_name (the_object h p)) parent"

definition create_name :: "string \<Rightarrow> ('a) hierarchy_scheme \<Rightarrow> (string \<times> ('a) hierarchy_scheme) res" where
  "create_name leaf h =
     rbind (create_loop (hi_table h) (parent_name h (active_object h)) leaf (curr_gen h)) (\<lambda>(nm, g). Inr (nm, set_gen g h))"

definition basename :: "string \<Rightarrow> string" where
  "basename nm = rev (takeWhile (\<lambda>c. c \<noteq> SC_HIERARCHY_CHAR) (rev nm))"

section \<open>Children\<close>

definition take_child :: "nat \<Rightarrow> nat list \<Rightarrow> bool \<times> nat list" where
  "take_child x xs = (case find (\<lambda>i. xs ! i = x) [0..<length xs] of None \<Rightarrow> (False, xs)
     | Some i \<Rightarrow> (True, butlast (xs[i := xs ! (length xs - 1)])))"

definition add_child_object :: "nat option \<Rightarrow> nat \<Rightarrow> ('a) hierarchy_scheme \<Rightarrow> ('a) hierarchy_scheme" where
  "add_child_object parent ob h = (case parent of
     Some p \<Rightarrow> set_object p (m_child_objects_update (\<lambda>cs. cs @ [ob])) h
   | None \<Rightarrow> h\<lparr>hi_top_objects := hi_top_objects h @ [ob]\<rparr>)"

definition add_child_event :: "nat option \<Rightarrow> nat \<Rightarrow> ('a) hierarchy_scheme \<Rightarrow> ('a) hierarchy_scheme" where
  "add_child_event parent ev h = (case parent of
     Some p \<Rightarrow> set_object p (m_child_events_update (\<lambda>cs. cs @ [ev])) h
   | None \<Rightarrow> h\<lparr>hi_top_events := hi_top_events h @ [ev]\<rparr>)"

definition remove_child_object :: "nat option \<Rightarrow> nat \<Rightarrow> ('a) hierarchy_scheme \<Rightarrow> ('a) hierarchy_scheme" where
  "remove_child_object parent ob h = (case parent of
     Some p \<Rightarrow> (case take_child ob (m_child_objects (the_object h p)) of (found, cs) \<Rightarrow>
       if found then set_object ob (m_parent_update (\<lambda>_. None)) (set_object p (m_child_objects_update (\<lambda>_. cs)) h) else h)
   | None \<Rightarrow> h\<lparr>hi_top_objects := snd (take_child ob (hi_top_objects h))\<rparr>)"

section \<open>Construction\<close>

definition sc_object_init :: "string \<Rightarrow> ('a) hierarchy_scheme \<Rightarrow> (nat \<times> ('a) hierarchy_scheme) res" where
  "sc_object_init nm h =
     (let parent = active_object h; ob = hi_next h in
      rbind (create_name nm h) (\<lambda>(name, h).
        let h = h\<lparr>hi_objects := (hi_objects h)(ob \<mapsto>
              \<lparr>m_name = name, m_parent = parent, m_child_objects = [], m_child_events = [], m_name_gen = Map.empty\<rparr>), hi_next := ob + 1,
              hi_table := insert_object name ob (hi_table h)\<rparr>
        in Inr (ob, add_child_object parent ob h)))"

definition object_name_illegal_char :: "char \<Rightarrow> bool" where
  "object_name_illegal_char ch \<longleftrightarrow> ch = SC_HIERARCHY_CHAR \<or> is_space ch"

definition sc_object_named :: "string \<Rightarrow> ('a) hierarchy_scheme \<Rightarrow> (nat \<times> ('a) hierarchy_scheme) res" where
  "sc_object_named nm h =
     rbind (if nm = [] then sc_gen_unique_name ''object'' False h else Inr (nm, h)) (\<lambda>(nm, h).
       sc_object_init (map (\<lambda>c. if object_name_illegal_char c then CHR ''_'' else c) nm) h)"

definition sc_object_default :: "('a) hierarchy_scheme \<Rightarrow> (nat \<times> ('a) hierarchy_scheme) res" where
  "sc_object_default h = rbind (sc_gen_unique_name ''object'' False h) (\<lambda>(nm, h). sc_object_init nm h)"

definition sc_object_copy :: "nat \<Rightarrow> ('a) hierarchy_scheme \<Rightarrow> (nat \<times> ('a) hierarchy_scheme) res" where
  "sc_object_copy that h =
     rbind (sc_gen_unique_name (basename (m_name (the_object h that))) False h) (\<lambda>(nm, h). sc_object_init nm h)"

text \<open>An event without a name gets one only before the simulation runs; a kernel event gets a name but no entry.\<close>

definition SC_KERNEL_EVENT_PREFIX :: string where
  "SC_KERNEL_EVENT_PREFIX = ''$$$$kernel_event$$$$_''"

definition register_event :: "string \<Rightarrow> bool \<Rightarrow> ('a) hierarchy_scheme \<Rightarrow> (nat \<times> ('a) hierarchy_scheme) res" where
  "register_event leaf is_kernel_event h =
     (let parent = active_object h; ev = hi_next_event h;
          h = h\<lparr>hi_events := (hi_events h)(ev \<mapsto> \<lparr>ev_name = [], ev_parent = parent\<rparr>), hi_next_event := ev + 1\<rparr>
      in if leaf = [] \<and> hi_running h then Inr (ev, h)
         else rbind (if leaf = [] then sc_gen_unique_name (if is_kernel_event then SC_KERNEL_EVENT_PREFIX else ''event'') False h
                     else Inr (if is_kernel_event then SC_KERNEL_EVENT_PREFIX @ leaf else leaf, h)) (\<lambda>(leaf, h).
           rbind (create_name leaf h) (\<lambda>(name, h).
             let h = h\<lparr>hi_events := (hi_events h)(ev \<mapsto> \<lparr>ev_name = name, ev_parent = parent\<rparr>)\<rparr> in
             if is_kernel_event then Inr (ev, h)
             else Inr (ev, add_child_event parent ev (h\<lparr>hi_table := insert_event name ev (hi_table h)\<rparr>)))))"

section \<open>Destruction\<close>

definition detach :: "nat \<Rightarrow> ('a) hierarchy_scheme \<Rightarrow> ('a) hierarchy_scheme" where
  "detach ob h =
     (let x = the_object h ob; h = h\<lparr>hi_table := remove_object (m_name x) (hi_table h)\<rparr> in remove_child_object (m_parent x) ob h)"

definition orphan_child_objects :: "nat \<Rightarrow> ('a) hierarchy_scheme \<Rightarrow> ('a) hierarchy_scheme" where
  "orphan_child_objects ob h =
     fold (\<lambda>c h. add_child_object None c (set_object c (m_parent_update (\<lambda>_. None)) h)) (m_child_objects (the_object h ob)) h"

text \<open>The destructors of modules and of processes make the children children of the context first.\<close>

definition object_delete :: "nat \<Rightarrow> ('a) hierarchy_scheme \<Rightarrow> ('a) hierarchy_scheme" where
  "object_delete ob h = (let h = detach ob (orphan_child_objects ob h) in h\<lparr>hi_objects := (hi_objects h)(ob := None)\<rparr>)"

text \<open>
  The deletion of a process whose last reference goes: at once where no process runs; else it is detached, gets one reference
  and waits in a list, whose processes lose that reference at the end of the evaluation phase.  A process is created with one
  reference.
\<close>

definition delete_process :: "nat \<Rightarrow> ('a) hierarchy_scheme \<Rightarrow> (('a) hierarchy_scheme) res" where
  "delete_process p h =
     (if m_references_n h p \<noteq> 0 then Inl AssertFailed
      else if hi_process h = None then Inr (object_delete p h)
      else let h = detach p (h\<lparr>m_references_n := (m_references_n h)(p := 1)\<rparr>) in Inr (h\<lparr>m_collectable := m_collectable h @ [p]\<rparr>))"

definition reference_decrement :: "nat \<Rightarrow> ('a) hierarchy_scheme \<Rightarrow> (('a) hierarchy_scheme) res" where
  "reference_decrement p h =
     (let n = m_references_n h p - 1; h = h\<lparr>m_references_n := (m_references_n h)(p := n)\<rparr> in if n = 0 then delete_process p h else Inr h)"

definition reference_increment :: "nat \<Rightarrow> ('a) hierarchy_scheme \<Rightarrow> (('a) hierarchy_scheme) res" where
  "reference_increment p h =
     (if m_references_n h p = 0 then Inl AssertFailed else Inr (h\<lparr>m_references_n := (m_references_n h)(p := m_references_n h p + 1)\<rparr>))"

partial_function (option) do_collect_processes :: "('a) hierarchy_scheme \<Rightarrow> (('a) hierarchy_scheme) res option" where
  "do_collect_processes h =
     (case m_collectable h of [] \<Rightarrow> Some (Inr h)
      | p # ps \<Rightarrow> (case reference_decrement p (h\<lparr>m_collectable := ps\<rparr>) of Inl e \<Rightarrow> Some (Inl e) | Inr h \<Rightarrow> do_collect_processes h))"

definition event_delete :: "nat \<Rightarrow> ('a) hierarchy_scheme \<Rightarrow> ('a) hierarchy_scheme" where
  "event_delete ev h =
     (let n = ev_name (the (hi_events h ev)) in
      h\<lparr>hi_table := (if n \<noteq> [] then remove_event n (hi_table h) else hi_table h), hi_events := (hi_events h)(ev := None)\<rparr>)"

definition register_hierarchical_name :: "nat option \<Rightarrow> string \<Rightarrow> ('a) hierarchy_scheme \<Rightarrow> bool \<times> ('a) hierarchy_scheme" where
  "register_hierarchical_name parent nm h =
     (let (ok, t) = insert_external_name (construct_hierarchical_name (parent_name h parent) nm) (hi_table h) in (ok, h\<lparr>hi_table := t\<rparr>))"

definition unregister_hierarchical_name :: "nat option \<Rightarrow> string \<Rightarrow> ('a) hierarchy_scheme \<Rightarrow> bool \<times> ('a) hierarchy_scheme" where
  "unregister_hierarchical_name parent nm h =
     (let (ok, t) = remove_external_name (construct_hierarchical_name (parent_name h parent) nm) (hi_table h) in (ok, h\<lparr>hi_table := t\<rparr>))"

end
