(* ===== verification/Sc_Hierarchy.thy ===== *)
theory Sc_Hierarchy
  imports Sc_Object "HOL-Library.Multiset"
begin

text \<open>
  The hierarchy as a whole: any sequence of the operations that create, destroy, push, pop and register keeps the table of
  names and the trees of children in step with the objects that exist; and two places where the code does not: a process
  whose deletion was deferred, and an event that is destroyed.
\<close>

section \<open>What the operations change\<close>

definition obj_name :: "('a) hierarchy_scheme \<Rightarrow> nat \<Rightarrow> string option" where
  "obj_name h ob = map_option m_name (hi_objects h ob)"

definition obj_parent :: "('a) hierarchy_scheme \<Rightarrow> nat \<Rightarrow> nat option option" where
  "obj_parent h ob = map_option m_parent (hi_objects h ob)"

definition kids :: "('a) hierarchy_scheme \<Rightarrow> nat option \<Rightarrow> nat list" where
  "kids h p = (case p of None \<Rightarrow> hi_top_objects h
     | Some p \<Rightarrow> case hi_objects h p of None \<Rightarrow> [] | Some x \<Rightarrow> m_child_objects x)"

lemmas view_defs = obj_name_def obj_parent_def kids_def

lemma same_views [simp]:
  "obj_name (hi_events_update f0 h) = obj_name h" "obj_name (hi_next_event_update f1 h) = obj_name h" "obj_name (hi_table_update f2 h) = obj_name h" "obj_name (m_object_stack_update f3 h) = obj_name h" "obj_name (hi_process_update f4 h) = obj_name h" "obj_name (hi_running_update f5 h) = obj_name h" "obj_name (hi_next_update f6 h) = obj_name h" "obj_name (hi_top_events_update f7 h) = obj_name h" "obj_name (hi_gen_update f8 h) = obj_name h"
  "obj_parent (hi_events_update f0 h) = obj_parent h" "obj_parent (hi_next_event_update f1 h) = obj_parent h" "obj_parent (hi_table_update f2 h) = obj_parent h" "obj_parent (m_object_stack_update f3 h) = obj_parent h" "obj_parent (hi_process_update f4 h) = obj_parent h" "obj_parent (hi_running_update f5 h) = obj_parent h" "obj_parent (hi_next_update f6 h) = obj_parent h" "obj_parent (hi_top_events_update f7 h) = obj_parent h" "obj_parent (hi_gen_update f8 h) = obj_parent h"
  "kids (hi_events_update f0 h) = kids h" "kids (hi_next_event_update f1 h) = kids h" "kids (hi_table_update f2 h) = kids h" "kids (m_object_stack_update f3 h) = kids h" "kids (hi_process_update f4 h) = kids h" "kids (hi_running_update f5 h) = kids h" "kids (hi_next_update f6 h) = kids h" "kids (hi_top_events_update f7 h) = kids h" "kids (hi_gen_update f8 h) = kids h"
  by (simp_all add: view_defs fun_eq_iff cong: option.case_cong)

lemma same_gen [simp]:
  "hi_table (set_gen g h) = hi_table h" "m_object_stack (set_gen g h) = m_object_stack h" "hi_events (set_gen g h) = hi_events h"
  "hi_next (set_gen g h) = hi_next h" "hi_next_event (set_gen g h) = hi_next_event h" "hi_process (set_gen g h) = hi_process h"
  "hi_running (set_gen g h) = hi_running h" "obj_name (set_gen g h) = obj_name h" "obj_parent (set_gen g h) = obj_parent h"
  "kids (set_gen g h) = kids h" "active_object (set_gen g h) = active_object h" "hierarchy.more (set_gen g h) = hierarchy.more h"
  by (auto simp: set_gen_def set_object_def view_defs fun_eq_iff active_object_def hierarchy_curr_def option.map_comp comp_def split: option.split)

lemma live_gen: "hi_objects (set_gen g h) p = None \<longleftrightarrow> hi_objects h p = None"
  by (auto simp: set_gen_def set_object_def split: option.split)

lemma same_set_object [simp]:
  "hi_table (set_object p f h) = hi_table h" "m_object_stack (set_object p f h) = m_object_stack h" "hi_events (set_object p f h) = hi_events h"
  "hi_next (set_object p f h) = hi_next h" "hi_next_event (set_object p f h) = hi_next_event h" "hi_process (set_object p f h) = hi_process h"
  "hi_running (set_object p f h) = hi_running h" "hi_top_objects (set_object p f h) = hi_top_objects h"
  by (simp_all add: set_object_def)

lemma active_same: "m_object_stack h = m_object_stack h' \<Longrightarrow> hi_process h = hi_process h' \<Longrightarrow> active_object h = active_object h'"
  by (simp add: active_object_def hierarchy_curr_def)

lemma dead_kids: "hi_objects h p = None \<Longrightarrow> kids h (Some p) = []"
  by (simp add: kids_def)

lemma dead_name: "obj_name h ob = None \<longleftrightarrow> hi_objects h ob = None"
  by (simp add: obj_name_def)

lemma dead_parent: "obj_parent h ob = None \<longleftrightarrow> hi_objects h ob = None"
  by (simp add: obj_parent_def)

lemma child_views [simp]:
  "obj_name (add_child_object p ob h) = obj_name h" "obj_parent (add_child_object p ob h) = obj_parent h"
  "obj_name (add_child_event p ev h) = obj_name h" "obj_parent (add_child_event p ev h) = obj_parent h" "kids (add_child_event p ev h) = kids h"
  "hi_table (add_child_object p ob h) = hi_table h" "hi_table (add_child_event p ev h) = hi_table h"
  "hi_events (add_child_object p ob h) = hi_events h" "hi_events (add_child_event p ev h) = hi_events h"
  "hi_next (add_child_object p ob h) = hi_next h" "hi_next (add_child_event p ev h) = hi_next h"
  "hi_next_event (add_child_object p ob h) = hi_next_event h" "hi_next_event (add_child_event p ev h) = hi_next_event h"
  "m_object_stack (add_child_object p ob h) = m_object_stack h" "m_object_stack (add_child_event p ev h) = m_object_stack h"
  "hi_process (add_child_object p ob h) = hi_process h" "hi_process (add_child_event p ev h) = hi_process h"
  "hi_running (add_child_object p ob h) = hi_running h" "hierarchy.more (add_child_object p ob h) = hierarchy.more h"
  by (auto simp: add_child_object_def add_child_event_def view_defs set_object_def fun_eq_iff option.map_comp comp_def split: option.split)

lemma kids_add: "(case p of None \<Rightarrow> True | Some p \<Rightarrow> hi_objects h p \<noteq> None) \<Longrightarrow>
    kids (add_child_object p ob h) q = (if q = p then kids h q @ [ob] else kids h q)"
  by (auto simp: add_child_object_def kids_def set_object_def split: option.splits)

section \<open>Taking a child out of a list\<close>

lemma take_child_out: "x \<notin> set xs \<Longrightarrow> take_child x xs = (False, xs)"
proof -
  assume "x \<notin> set xs"
  then have "find (\<lambda>i. xs ! i = x) [0..<length xs] = None" by (auto simp: find_None_iff in_set_conv_nth)
  then show ?thesis by (simp add: take_child_def)
qed

lemma set_butlast_update:
  assumes "distinct xs" and "i < length xs"
  shows "distinct (butlast (xs[i := xs ! (length xs - 1)])) \<and> set (butlast (xs[i := xs ! (length xs - 1)])) = set xs - {xs ! i}"
proof -
  obtain ys z where xs: "xs = ys @ [z]" using assms(2) by (cases xs rule: rev_cases) auto
  show ?thesis
  proof (cases "i = length ys")
    case True
    then show ?thesis using assms(1) by (auto simp: xs)
  next
    case False
    then have i: "i < length ys" using assms(2) xs by simp
    have b: "butlast (xs[i := xs ! (length xs - 1)]) = ys[i := z]" using i by (simp add: xs list_update_append butlast_append)
    have "mset (ys[i := z]) + {#ys ! i#} = mset ys + {#z#}" using i by (simp add: mset_update)
    then have m: "mset (ys[i := z]) + {#xs ! i#} = mset xs" using i by (simp add: xs nth_append)
    then have "set (ys[i := z]) \<union> {xs ! i} = set xs" by (metis set_mset_mset set_mset_add_mset_insert set_mset_union set_mset_single)
    moreover have "distinct (xs ! i # ys[i := z])" using m assms(1) by (metis add.commute add_mset_add_single mset.simps(2) mset_eq_imp_distinct_iff)
    ultimately show ?thesis unfolding b by auto
  qed
qed

lemma take_child_in:
  assumes "distinct xs" and "x \<in> set xs"
  shows "\<exists>ys. take_child x xs = (True, ys) \<and> distinct ys \<and> set ys = set xs - {x}"
proof -
  obtain i where i: "find (\<lambda>i. xs ! i = x) [0..<length xs] = Some i"
    using assms(2) by (cases "find (\<lambda>i. xs ! i = x) [0..<length xs]") (auto simp: find_None_iff in_set_conv_nth)
  then have "i < length xs" "xs ! i = x" by (auto simp: find_Some_iff)
  then show ?thesis using set_butlast_update [OF assms(1), of i] i by (simp add: take_child_def)
qed

section \<open>The invariant\<close>

text \<open>The table finds exactly the objects that exist, under their names; the events it finds exist and have that name.\<close>

definition names_ok :: "('a) hierarchy_scheme \<Rightarrow> bool" where
  "names_ok h \<longleftrightarrow> table_ok (hi_table h) \<and> (\<forall>ob n. obj_name h ob = Some n \<longleftrightarrow> find_object (hi_table h) n = Some ob) \<and>
     (\<forall>ev n. find_event (hi_table h) n = Some ev \<longrightarrow> map_option ev_name (hi_events h ev) = Some n) \<and>
     find_event (hi_table h) [] = None \<and>
     (\<forall>ob \<ge> hi_next h. obj_name h ob = None) \<and> (\<forall>ev \<ge> hi_next_event h. hi_events h ev = None)"

text \<open>Every object is once in the list of its parent and in no other; a parent is older than its children.\<close>

definition tree_ok :: "('a) hierarchy_scheme \<Rightarrow> bool" where
  "tree_ok h \<longleftrightarrow> (\<forall>p. distinct (kids h p) \<and> (\<forall>ob. ob \<in> set (kids h p) \<longleftrightarrow> obj_parent h ob = Some p)) \<and>
     (\<forall>ob p. obj_parent h ob = Some (Some p) \<longrightarrow> p < ob)"

definition refs_ok :: "('a) hierarchy_scheme \<Rightarrow> bool" where
  "refs_ok h \<longleftrightarrow> (\<forall>ob \<in> set (m_object_stack h). obj_name h ob \<noteq> None) \<and>
     (case hi_process h of None \<Rightarrow> True | Some p \<Rightarrow> obj_name h p \<noteq> None)"

text \<open>The name of a child is the name of its parent, a dot, and a leaf.\<close>

definition path_ok :: "('a) hierarchy_scheme \<Rightarrow> bool" where
  "path_ok h \<longleftrightarrow> (\<forall>ob p. obj_parent h ob = Some (Some p) \<longrightarrow>
     (\<exists>n leaf. obj_name h p = Some n \<and> obj_name h ob = Some (construct_hierarchical_name (Some n) leaf)))"

definition hierarchy_ok :: "('a) hierarchy_scheme \<Rightarrow> bool" where
  "hierarchy_ok h \<longleftrightarrow> names_ok h \<and> tree_ok h \<and> refs_ok h \<and> path_ok h"

lemma hierarchy_ok_same:
  assumes "hi_table h' = hi_table h" "obj_name h' = obj_name h" "hi_events h' = hi_events h" "hi_next h' = hi_next h"
    "hi_next_event h' = hi_next_event h" "kids h' = kids h" "obj_parent h' = obj_parent h" "m_object_stack h' = m_object_stack h" "hi_process h' = hi_process h"
  shows "hierarchy_ok h' = hierarchy_ok h"
  unfolding hierarchy_ok_def names_ok_def tree_ok_def refs_ok_def path_ok_def assms by (rule refl)

lemma hierarchy_okI:
  assumes "hierarchy_ok h" "names_ok h'" "obj_name h' = obj_name h" "kids h' = kids h" "obj_parent h' = obj_parent h"
    "m_object_stack h' = m_object_stack h" "hi_process h' = hi_process h"
  shows "hierarchy_ok h'"
  using assms(1,2) unfolding hierarchy_ok_def tree_ok_def refs_ok_def path_ok_def assms(3-) by blast

lemma set_gen_ok [simp]: "hierarchy_ok (set_gen g h) = hierarchy_ok h"
  by (rule hierarchy_ok_same) simp_all

lemma hierarchy_new_ok: "hierarchy_ok hierarchy_new"
  by (auto simp: hierarchy_ok_def names_ok_def tree_ok_def refs_ok_def path_ok_def hierarchy_new_def table_ok_def view_defs find_event_def find_object_def find_of_def
      split: option.split)

lemma active_exists: "refs_ok h \<Longrightarrow> active_object h = Some p \<Longrightarrow> hi_objects h p \<noteq> None"
  by (auto simp: refs_ok_def active_object_def hierarchy_curr_def obj_name_def split: if_splits option.splits)

section \<open>Creation\<close>

lemma gen_not_empty: "gen_unique_name g b first = Inr (n, g') \<Longrightarrow> n \<noteq> []"
  by (auto simp: gen_unique_name_def rbind_def split: if_splits option.splits sum.splits)

lemma create_loop_free: "create_loop t p leaf g = Inr (n, g') \<Longrightarrow> \<not> name_exists t n \<and> (leaf \<noteq> [] \<longrightarrow> n \<noteq> []) \<and> (\<exists>l. n = construct_hierarchical_name p l)"
proof (induction t p leaf g rule: create_loop.induct)
  case (1 t p leaf g)
  have "leaf \<noteq> [] \<Longrightarrow> construct_hierarchical_name p leaf \<noteq> []" by (simp add: construct_hierarchical_name_def split: option.split)
  then show ?case using 1 by (subst (asm) create_loop.simps) (auto split: if_splits sum.splits prod.splits dest: gen_not_empty)
qed

lemma create_name_shape:
  "create_name leaf h = Inr (n, h') \<Longrightarrow> \<exists>g l. h' = set_gen g h \<and> \<not> name_exists (hi_table h) n \<and> (leaf \<noteq> [] \<longrightarrow> n \<noteq> []) \<and>
    n = construct_hierarchical_name (parent_name h (active_object h)) l"
  unfolding create_name_def rbind_def by (auto split: sum.splits prod.splits dest!: create_loop_free)

lemma unique_name_shape: "sc_gen_unique_name b first h = Inr (n, h') \<Longrightarrow> \<exists>g. h' = set_gen g h \<and> n \<noteq> []"
  unfolding sc_gen_unique_name_def rbind_def by (auto split: sum.splits prod.splits dest: gen_not_empty)

lemma free_not_found: "\<not> name_exists t n \<Longrightarrow> find_object t n = None \<and> find_event t n = None"
  by (auto simp: name_exists_def find_object_def find_event_def find_of_def split: option.splits)

lemma find_insert_object:
  "find_object (insert_object n ob t) m = (if m = n then Some ob else find_object t m)"
  "find_event (insert_object n ob t) m = (if m = n then None else find_event t m)"
  by (simp_all add: find_object_def find_event_def insert_object_def find_of_set)

lemma find_insert_event:
  "find_event (insert_event n ev t) m = (if m = n then Some ev else find_event t m)"
  "find_object (insert_event n ev t) m = (if m = n then None else find_object t m)"
  by (simp_all add: find_object_def find_event_def insert_event_def find_of_set)

lemma table_ok_insert: "table_ok t \<Longrightarrow> table_ok (insert_object n ob t)" "table_ok t \<Longrightarrow> table_ok (insert_event n ob t)"
  by (simp_all add: insert_object_def insert_event_def table_ok_set)

lemma init_shape:
  assumes "sc_object_init nm h = Inr (ob, h')"
  obtains n g l where "\<not> name_exists (hi_table h) n" "ob = hi_next h" "n = construct_hierarchical_name (parent_name h (active_object h)) l"
    "\<exists>h1. create_name nm h = Inr (n, h1)" and
    "h' = add_child_object (active_object h) ob ((set_gen g h)\<lparr>hi_objects := (hi_objects (set_gen g h))(ob \<mapsto>
        \<lparr>m_name = n, m_parent = active_object h, m_child_objects = [], m_child_events = [], m_name_gen = Map.empty\<rparr>), hi_next := ob + 1,
        hi_table := insert_object n ob (hi_table h)\<rparr>)"
proof -
  obtain n h1 where c: "create_name nm h = Inr (n, h1)" using assms by (auto simp: sc_object_init_def rbind_def Let_def split: sum.splits)
  then obtain g l where "h1 = set_gen g h" "\<not> name_exists (hi_table h) n" "n = construct_hierarchical_name (parent_name h (active_object h)) l"
    using create_name_shape by blast
  then show ?thesis using assms c by (intro that [of n l g]) (auto simp: sc_object_init_def Let_def)
qed

lemma new_object_views:
  assumes "hi_objects h ob = None"
  shows "obj_name (h\<lparr>hi_objects := (hi_objects h)(ob \<mapsto> x), hi_next := n, hi_table := t\<rparr>) = (obj_name h)(ob \<mapsto> m_name x)"
    and "obj_parent (h\<lparr>hi_objects := (hi_objects h)(ob \<mapsto> x), hi_next := n, hi_table := t\<rparr>) = (obj_parent h)(ob \<mapsto> m_parent x)"
    and "m_child_objects x = [] \<Longrightarrow> kids (h\<lparr>hi_objects := (hi_objects h)(ob \<mapsto> x), hi_next := n, hi_table := t\<rparr>) = kids h"
  using assms by (auto simp: view_defs fun_eq_iff split: option.split)

text \<open>The views after a new object was created.\<close>

lemma init_views:
  assumes "sc_object_init nm h = Inr (ob, h')" and "hierarchy_ok h"
  obtains n l where "\<not> name_exists (hi_table h) n" "ob = hi_next h" "n = construct_hierarchical_name (parent_name h (active_object h)) l"
    "\<exists>h1. create_name nm h = Inr (n, h1)" "hi_running h' = hi_running h" "hierarchy.more h' = hierarchy.more h"
    "hi_table h' = insert_object n ob (hi_table h)"
    "obj_name h' = (obj_name h)(ob \<mapsto> n)" "obj_parent h' = (obj_parent h)(ob \<mapsto> active_object h)"
    "\<And>p. kids h' p = (if p = active_object h then kids h p @ [ob] else kids h p)" "hi_next h' = ob + 1"
    "hi_events h' = hi_events h" "hi_next_event h' = hi_next_event h" "m_object_stack h' = m_object_stack h" "hi_process h' = hi_process h"
proof -
  obtain n g l where n: "\<not> name_exists (hi_table h) n" "ob = hi_next h" "n = construct_hierarchical_name (parent_name h (active_object h)) l"
    "\<exists>h1. create_name nm h = Inr (n, h1)" and
    h': "h' = add_child_object (active_object h) ob ((set_gen g h)\<lparr>hi_objects := (hi_objects (set_gen g h))(ob \<mapsto>
        \<lparr>m_name = n, m_parent = active_object h, m_child_objects = [], m_child_events = [], m_name_gen = Map.empty\<rparr>), hi_next := ob + 1,
        hi_table := insert_object n ob (hi_table h)\<rparr>)" using init_shape [OF assms(1)] .
  define x where "x = \<lparr>m_name = n, m_parent = active_object h, m_child_objects = [], m_child_events = [], m_name_gen = Map.empty\<rparr>"
  define h1 where "h1 = (set_gen g h)\<lparr>hi_objects := (hi_objects (set_gen g h))(ob \<mapsto> x), hi_next := ob + 1, hi_table := insert_object n ob (hi_table h)\<rparr>"
  have h': "h' = add_child_object (active_object h) ob h1" unfolding h' h1_def x_def ..
  have dead: "hi_objects h ob = None" using assms(2) n(2) by (auto simp: hierarchy_ok_def names_ok_def dead_name)
  then have dead2: "hi_objects (set_gen g h) ob = None" by (simp add: live_gen)
  have live: "case active_object h of None \<Rightarrow> True | Some p \<Rightarrow> hi_objects h1 p \<noteq> None"
    using active_exists [of h] assms(2) by (auto simp: hierarchy_ok_def h1_def live_gen simp del: not_None_eq split: option.split)
  note v = new_object_views [OF dead2, where x = x and n = "ob + 1" and t = "insert_object n ob (hi_table h)", folded h1_def, unfolded same_gen]
  have nm: "obj_name h1 = (obj_name h)(ob \<mapsto> n)" "obj_parent h1 = (obj_parent h)(ob \<mapsto> active_object h)" and k: "kids h1 = kids h"
    using v by (simp_all add: x_def)
  show ?thesis
  proof (rule that [OF n])
    show "kids h' p = (if p = active_object h then kids h p @ [ob] else kids h p)" for p
      unfolding h' kids_add [OF live] k ..
  qed (simp_all add: h' nm, simp_all add: h1_def)
qed

lemma init_ok:
  assumes "sc_object_init nm h = Inr (ob, h')" and "hierarchy_ok h"
  shows "hierarchy_ok h'"
proof -
  obtain n l where n: "\<not> name_exists (hi_table h) n" "ob = hi_next h" "n = construct_hierarchical_name (parent_name h (active_object h)) l"
    "\<exists>h1. create_name nm h = Inr (n, h1)" "hi_running h' = hi_running h" "hierarchy.more h' = hierarchy.more h"
    and v: "hi_table h' = insert_object n ob (hi_table h)"
    "obj_name h' = (obj_name h)(ob \<mapsto> n)" "obj_parent h' = (obj_parent h)(ob \<mapsto> active_object h)"
    "\<And>p. kids h' p = (if p = active_object h then kids h p @ [ob] else kids h p)" "hi_next h' = ob + 1"
    "hi_events h' = hi_events h" "hi_next_event h' = hi_next_event h" "m_object_stack h' = m_object_stack h" "hi_process h' = hi_process h"
    by (rule init_views [OF assms]) (rule that)
  have ok: "names_ok h" "tree_ok h" "refs_ok h" "path_ok h" using assms(2) by (simp_all add: hierarchy_ok_def)
  have dead: "hi_objects h ob = None" using ok(1) n(2) by (auto simp: names_ok_def dead_name)
  then have d: "obj_name h ob = None" "obj_parent h ob = None" by (simp_all add: dead_name dead_parent)
  have free: "find_object (hi_table h) n = None" "find_event (hi_table h) n = None" using free_not_found [OF n(1)] by auto
  have "\<And>m. find_object (hi_table h) m \<noteq> Some ob" using ok(1) d(1) unfolding names_ok_def by (metis option.distinct(1))
  then have "names_ok h'" using ok(1) d(1) free n(2) unfolding names_ok_def v find_insert_object
    by (auto simp: table_ok_insert)
  moreover have "tree_ok h'"
  proof -
    have "\<And>p. ob \<notin> set (kids h p)" "\<And>c. obj_parent h c \<noteq> Some (Some ob)"
      using ok(2) d(2) dead_kids [OF dead] unfolding tree_ok_def by auto (metis empty_iff empty_set)
    moreover have "active_object h = Some p \<Longrightarrow> p < ob" for p
      using active_exists [OF ok(3)] ok(1) n(2) unfolding names_ok_def dead_name by (metis leI)
    ultimately show ?thesis using ok(2) unfolding tree_ok_def v by auto
  qed
  moreover have "refs_ok h'" using ok(3) by (auto simp: refs_ok_def v split: option.splits)
  moreover have "path_ok h'"
  proof -
    have "\<exists>m. obj_name h p = Some m \<and> n = construct_hierarchical_name (Some m) l" if "active_object h = Some p" for p
      using active_exists [OF ok(3) that] n(3) that by (auto simp: parent_name_def the_object_def obj_name_def)
    then show ?thesis using ok(4) d unfolding path_ok_def v by (auto split: if_splits) (metis option.distinct(1))+
  qed
  ultimately show ?thesis by (simp add: hierarchy_ok_def)
qed

lemma created_ok:
  "sc_object_named nm h = Inr (ob, h') \<Longrightarrow> hierarchy_ok h \<Longrightarrow> hierarchy_ok h'"
  "sc_object_default h = Inr (ob, h') \<Longrightarrow> hierarchy_ok h \<Longrightarrow> hierarchy_ok h'"
  "sc_object_copy that h = Inr (ob, h') \<Longrightarrow> hierarchy_ok h \<Longrightarrow> hierarchy_ok h'"
  unfolding sc_object_named_def sc_object_default_def sc_object_copy_def rbind_def
  by (auto split: sum.splits prod.splits if_splits dest!: unique_name_shape init_ok)

section \<open>Events and names from outside\<close>

lemma event_not_found: "hierarchy_ok h \<Longrightarrow> find_event (hi_table h) n \<noteq> Some (hi_next_event h)"
  unfolding hierarchy_ok_def names_ok_def by (metis option.distinct(1) option.simps(8) order_refl)

lemma event_new_ok:
  assumes "hierarchy_ok h"
  shows "hierarchy_ok (h\<lparr>hi_events := (hi_events h)(hi_next_event h \<mapsto> e), hi_next_event := hi_next_event h + 1\<rparr>)"
  using event_not_found [OF assms] assms by (intro hierarchy_okI [OF assms]) (auto simp: hierarchy_ok_def names_ok_def)

lemma event_named_ok:
  assumes "hierarchy_ok h" and "\<forall>n. find_event (hi_table h) n \<noteq> Some ev" and "ev < hi_next_event h"
  shows "hierarchy_ok (h\<lparr>hi_events := (hi_events h)(ev \<mapsto> e)\<rparr>)"
  using assms by (intro hierarchy_okI [OF assms(1)]) (auto simp: hierarchy_ok_def names_ok_def)

lemma event_entered_ok:
  assumes "hierarchy_ok h" and "\<not> name_exists (hi_table h) n" and "map_option ev_name (hi_events h ev) = Some n" and "n \<noteq> []"
  shows "hierarchy_ok (h\<lparr>hi_table := insert_event n ev (hi_table h)\<rparr>)"
  using assms free_not_found [OF assms(2)]
  by (intro hierarchy_okI [OF assms(1)]) (auto simp: hierarchy_ok_def names_ok_def find_insert_event table_ok_insert)

lemma child_event_ok [simp]: "hierarchy_ok (add_child_event p ev h) = hierarchy_ok h"
  by (rule hierarchy_ok_same) simp_all

lemma registered_ok:
  assumes "hierarchy_ok h" and "\<forall>n. find_event (hi_table h) n \<noteq> Some ev" and "ev < hi_next_event h"
    and "create_name leaf h = Inr (n, h1)" and "ev_name e = n" and "leaf \<noteq> []"
  shows "hierarchy_ok (h1\<lparr>hi_events := (hi_events h1)(ev \<mapsto> e)\<rparr>) \<and>
    hierarchy_ok (add_child_event p ev (h1\<lparr>hi_events := (hi_events h1)(ev \<mapsto> e), hi_table := insert_event n ev (hi_table h1)\<rparr>))"
proof -
  obtain g where h1: "h1 = set_gen g h" and n: "\<not> name_exists (hi_table h) n" "n \<noteq> []" using create_name_shape [OF assms(4)] assms(6) by auto
  have ok: "hierarchy_ok (h1\<lparr>hi_events := (hi_events h1)(ev \<mapsto> e)\<rparr>)" unfolding h1 using assms by (intro event_named_ok) simp_all
  have "hierarchy_ok ((h1\<lparr>hi_events := (hi_events h1)(ev \<mapsto> e)\<rparr>)\<lparr>hi_table := insert_event n ev (hi_table (h1\<lparr>hi_events := (hi_events h1)(ev \<mapsto> e)\<rparr>))\<rparr>)"
    by (rule event_entered_ok [OF ok]) (use n assms(5) in \<open>simp_all add: h1\<close>)
  then show ?thesis using ok by simp
qed

lemma register_event_ok:
  assumes r: "register_event leaf kern h = Inr (ev, h')" and "hierarchy_ok h"
  shows "hierarchy_ok h'"
proof -
  define h0 where "h0 = h\<lparr>hi_events := (hi_events h)(hi_next_event h \<mapsto> \<lparr>ev_name = [], ev_parent = active_object h\<rparr>), hi_next_event := hi_next_event h + 1\<rparr>"
  have ok: "hierarchy_ok h0" "\<forall>n. find_event (hi_table h0) n \<noteq> Some (hi_next_event h)" "hi_next_event h < hi_next_event h0"
    unfolding h0_def using event_new_ok [OF assms(2)] event_not_found [OF assms(2)] by simp_all
  show ?thesis
  proof (cases "leaf = [] \<and> hi_running h0")
    case True
    then have "h' = h0" using r by (auto simp: register_event_def Let_def h0_def)
    then show ?thesis using ok(1) by simp
  next
    case False
    let ?gen = "if leaf = [] then sc_gen_unique_name (if kern then SC_KERNEL_EVENT_PREFIX else ''event'') False h0
      else Inr (if kern then SC_KERNEL_EVENT_PREFIX @ leaf else leaf, h0)"
    define named where "named n = \<lparr>ev_name = n, ev_parent = active_object h\<rparr>" for n
    have r: "rbind ?gen (\<lambda>(leaf, h1). rbind (create_name leaf h1) (\<lambda>(n, h2).
        let h3 = h2\<lparr>hi_events := (hi_events h2)(hi_next_event h \<mapsto> named n)\<rparr> in
        if kern then Inr (hi_next_event h, h3)
        else Inr (hi_next_event h, add_child_event (active_object h) (hi_next_event h) (h3\<lparr>hi_table := insert_event n (hi_next_event h) (hi_table h3)\<rparr>))))
      = Inr (ev, h')"
      using r False unfolding register_event_def Let_def h0_def [symmetric] named_def by simp
    then obtain l h1 where g: "?gen = Inr (l, h1)" by (cases ?gen) auto
    then obtain n h2 where c: "create_name l h1 = Inr (n, h2)" using r by (cases "create_name l h1") auto
    have h': "h' = (let h3 = h2\<lparr>hi_events := (hi_events h2)(hi_next_event h \<mapsto> named n)\<rparr> in
        if kern then h3 else add_child_event (active_object h) (hi_next_event h) (h3\<lparr>hi_table := insert_event n (hi_next_event h) (hi_table h3)\<rparr>))"
      using r unfolding g c by (cases kern) (auto simp: c Let_def)
    have l: "(\<exists>g. h1 = set_gen g h0) \<or> h1 = h0" "l \<noteq> []"
      using g by (cases "leaf = []"; force dest: unique_name_shape simp: SC_KERNEL_EVENT_PREFIX_def split: if_splits)+
    have "hierarchy_ok h1" "\<forall>n. find_event (hi_table h1) n \<noteq> Some (hi_next_event h)" "hi_next_event h < hi_next_event h1" using l ok by auto
    from registered_ok [OF this c _ l(2), where e = "named n"] show ?thesis by (simp add: h' Let_def named_def)
  qed
qed

lemma find_remove:
  "find_object (remove_object n t) m = (if m = n then None else find_object t m)"
  "find_event (remove_object n t) m = find_event t m"
  "find_event (remove_event n t) m = (if m = n then None else find_event t m)"
  "find_object (remove_event n t) m = find_object t m"
  by (auto simp: find_object_def find_event_def remove_object_def remove_event_def remove_of_cases find_of_def map_of_table_set split: option.splits)

lemma table_ok_remove: "table_ok t \<Longrightarrow> table_ok (remove_object n t)" "table_ok t \<Longrightarrow> table_ok (remove_event n t)"
  "table_ok t \<Longrightarrow> table_ok (snd (remove_external_name n t))" "table_ok t \<Longrightarrow> table_ok (snd (insert_external_name n t))"
  by (auto simp: remove_object_def remove_event_def remove_external_name_def insert_external_name_def remove_of_cases intro!: table_ok_set)

lemma find_external:
  "find_object (snd (insert_external_name n t)) = find_object t" "find_event (snd (insert_external_name n t)) = find_event t"
  "find_object (snd (remove_external_name n t)) = find_object t" "find_event (snd (remove_external_name n t)) = find_event t"
  using free_not_found [of t n]
  by (auto simp: insert_external_name_def remove_external_name_def remove_of_cases find_object_def find_event_def find_of_def map_of_table_set fun_eq_iff
      split: option.splits)

lemma table_only_ok:
  assumes "hierarchy_ok h" "table_ok t" "find_object t = find_object (hi_table h)" "find_event t = find_event (hi_table h)"
  shows "hierarchy_ok (h\<lparr>hi_table := t\<rparr>)"
  by (rule hierarchy_okI [OF assms(1)]) (use assms in \<open>simp_all add: hierarchy_ok_def names_ok_def\<close>)

lemma external_ok:
  assumes "hierarchy_ok h"
  shows "hierarchy_ok (snd (register_hierarchical_name p n h))" and "hierarchy_ok (snd (unregister_hierarchical_name p n h))"
proof -
  have "table_ok (hi_table h)" using assms by (simp add: hierarchy_ok_def names_ok_def)
  then show "hierarchy_ok (snd (register_hierarchical_name p n h))" "hierarchy_ok (snd (unregister_hierarchical_name p n h))"
    unfolding register_hierarchical_name_def unregister_hierarchical_name_def Let_def
    by (simp_all add: split_beta table_only_ok [OF assms] table_ok_remove find_external)
qed

lemma event_delete_ok:
  assumes "hierarchy_ok h" and "hi_events h ev = Some e"
  shows "hierarchy_ok (event_delete ev h)"
proof -
  have "find_event (hi_table h) n = Some ev \<Longrightarrow> n = ev_name e" for n using assms by (fastforce simp: hierarchy_ok_def names_ok_def)
  moreover have "find_event (hi_table h) [] = None" using assms(1) by (simp add: hierarchy_ok_def names_ok_def)
  ultimately have "\<And>n. n \<noteq> ev_name e \<or> ev_name e = [] \<Longrightarrow> find_event (hi_table h) n \<noteq> Some ev" by (metis option.distinct(1))
  then show ?thesis using assms unfolding event_delete_def Let_def
    by (intro hierarchy_okI [OF assms(1)]) (auto simp: hierarchy_ok_def names_ok_def find_remove table_ok_remove)
qed

section \<open>Destruction\<close>

lemma orphan_effect:
  "fold (\<lambda>c h. add_child_object None c (set_object c (m_parent_update (\<lambda>_. None)) h)) cs h =
    h\<lparr>hi_objects := (\<lambda>c. if c \<in> set cs then map_option (m_parent_update (\<lambda>_. None)) (hi_objects h c) else hi_objects h c),
      hi_top_objects := hi_top_objects h @ cs\<rparr>"
proof (induction cs arbitrary: h)
  case (Cons c cs)
  show ?case unfolding fold_Cons comp_def Cons.IH
    by (auto simp: add_child_object_def set_object_def option.map_comp comp_def fun_eq_iff)
qed simp

lemma remove_child_views:
  assumes "distinct (kids h p)" and "ob \<in> set (kids h p)"
  shows "obj_name (remove_child_object p ob h) = obj_name h"
    and "c \<noteq> ob \<Longrightarrow> obj_parent (remove_child_object p ob h) c = obj_parent h c"
    and "\<exists>ys. kids (remove_child_object p ob h) = (kids h)(p := ys) \<and> distinct ys \<and> set ys = set (kids h p) - {ob}"
    and "hi_table (remove_child_object p ob h) = hi_table h" and "hi_events (remove_child_object p ob h) = hi_events h"
    and "hi_next (remove_child_object p ob h) = hi_next h" and "hi_next_event (remove_child_object p ob h) = hi_next_event h"
    and "m_object_stack (remove_child_object p ob h) = m_object_stack h" and "hi_process (remove_child_object p ob h) = hi_process h"
proof -
  obtain ys where ys: "take_child ob (kids h p) = (True, ys)" "distinct ys" "set ys = set (kids h p) - {ob}"
    using take_child_in [OF assms] by auto
  define h' where "h' = (case p of None \<Rightarrow> h\<lparr>hi_top_objects := ys\<rparr>
    | Some p \<Rightarrow> set_object ob (m_parent_update (\<lambda>_. None)) (set_object p (m_child_objects_update (\<lambda>_. ys)) h))"
  have r: "remove_child_object p ob h = h'"
  proof (cases p)
    case None
    then show ?thesis using ys(1) by (simp add: remove_child_object_def h'_def kids_def)
  next
    case (Some q)
    then obtain x where "hi_objects h q = Some x" using assms(2) by (cases "hi_objects h q") (auto simp: kids_def)
    then show ?thesis using ys(1) Some by (simp add: remove_child_object_def h'_def kids_def the_object_def)
  qed
  have live: "\<exists>x. hi_objects h q = Some x" if "p = Some q" for q using assms(2) that by (cases "hi_objects h q") (auto simp: kids_def)
  show "obj_name (remove_child_object p ob h) = obj_name h"
    "hi_table (remove_child_object p ob h) = hi_table h" "hi_events (remove_child_object p ob h) = hi_events h"
    "hi_next (remove_child_object p ob h) = hi_next h" "hi_next_event (remove_child_object p ob h) = hi_next_event h"
    "m_object_stack (remove_child_object p ob h) = m_object_stack h" "hi_process (remove_child_object p ob h) = hi_process h"
    unfolding r by (auto simp: h'_def set_object_def obj_name_def fun_eq_iff option.map_comp comp_def split: option.split)
  show "c \<noteq> ob \<Longrightarrow> obj_parent (remove_child_object p ob h) c = obj_parent h c"
    unfolding r by (auto simp: h'_def set_object_def obj_parent_def option.map_comp comp_def split: option.split)
  have "kids h' = (kids h)(p := ys)"
    using live by (auto simp: h'_def set_object_def kids_def fun_eq_iff split: option.split)
  then show "\<exists>ys. kids (remove_child_object p ob h) = (kids h)(p := ys) \<and> distinct ys \<and> set ys = set (kids h p) - {ob}"
    unfolding r using ys(2,3) by blast
qed

text \<open>An object is destroyed: its children go to the context, it leaves its parent's list, the table and the memory.\<close>

lemma delete_views:
  assumes "hi_objects h ob = Some x" and ok: "hierarchy_ok h"
  shows "hi_table (object_delete ob h) = remove_object (m_name x) (hi_table h)" and "hi_events (object_delete ob h) = hi_events h"
    and "hi_next (object_delete ob h) = hi_next h" and "hi_next_event (object_delete ob h) = hi_next_event h"
    and "m_object_stack (object_delete ob h) = m_object_stack h" and "hi_process (object_delete ob h) = hi_process h"
    and "obj_name (object_delete ob h) = (obj_name h)(ob := None)"
    and "obj_parent (object_delete ob h) =
      (\<lambda>c. if c = ob then None else if obj_parent h c = Some (Some ob) then Some None else obj_parent h c)"
    and "distinct (kids (object_delete ob h) p) \<and> set (kids (object_delete ob h) p) =
      (if p = Some ob then {} else set (kids h p) - {ob} \<union> (if p = None then set (kids h (Some ob)) else {}))"
proof -
  have tree: "\<And>p. distinct (kids h p)" "\<And>p c. c \<in> set (kids h p) \<longleftrightarrow> obj_parent h c = Some p"
    "\<And>c p. obj_parent h c = Some (Some p) \<Longrightarrow> p < c" using ok by (auto simp: hierarchy_ok_def tree_ok_def)
  define cs where "cs = m_child_objects x"
  have cs: "cs = kids h (Some ob)" by (simp add: cs_def kids_def assms(1))
  define h1 where "h1 = orphan_child_objects ob h"
  have h1: "h1 = h\<lparr>hi_objects := (\<lambda>c. if c \<in> set cs then map_option (m_parent_update (\<lambda>_. None)) (hi_objects h c) else hi_objects h c),
      hi_top_objects := hi_top_objects h @ cs\<rparr>"
    unfolding h1_def orphan_child_objects_def orphan_effect by (simp add: the_object_def assms(1) cs_def)
  have self: "ob \<notin> set cs" unfolding cs tree(2) using tree(3) by blast
  then have x: "hi_objects h1 ob = Some x" by (simp add: h1 assms(1))
  have par: "obj_parent h1 = (\<lambda>c. if c \<in> set cs then Some None else obj_parent h c)"
    using cs tree(2) by (auto simp: h1 obj_parent_def fun_eq_iff)
  have nm: "obj_name h1 = obj_name h" by (auto simp: h1 obj_name_def fun_eq_iff option.map_comp comp_def)
  have kd: "kids h1 q = (if q = None then kids h None @ cs else kids h q)" for q
    by (auto simp: h1 kids_def split: option.split)
  define h2 where "h2 = detach ob h1"
  have del: "object_delete ob h = h2\<lparr>hi_objects := (hi_objects h2)(ob := None)\<rparr>" by (simp add: object_delete_def h1_def h2_def Let_def)
  have drop: "obj_name (h2\<lparr>hi_objects := (hi_objects h2)(ob := None)\<rparr>) = (obj_name h2)(ob := None)"
    "obj_parent (h2\<lparr>hi_objects := (hi_objects h2)(ob := None)\<rparr>) = (obj_parent h2)(ob := None)"
    "kids (h2\<lparr>hi_objects := (hi_objects h2)(ob := None)\<rparr>) q = (if q = Some ob then [] else kids h2 q)" for q
    by (auto simp: view_defs fun_eq_iff split: option.split)
  have px: "obj_parent h ob = Some (m_parent x)" by (simp add: obj_parent_def assms(1))
  define h3 where "h3 = h1\<lparr>hi_table := remove_object (m_name x) (hi_table h1)\<rparr>"
  have k3: "kids h3 q = (if q = None then kids h None @ cs else kids h q)" for q by (simp add: h3_def kd)
  have h2: "h2 = remove_child_object (m_parent x) ob h3" by (simp add: h2_def detach_def h3_def the_object_def x Let_def)
  have "distinct (kids h3 (m_parent x))" "ob \<in> set (kids h3 (m_parent x))"
    using tree(1,2) px unfolding k3 by (auto simp: cs)
  note rc = remove_child_views [OF this, folded h2]
  obtain ys where ys: "kids h2 = (kids h3)(m_parent x := ys)" "distinct ys" "set ys = set (kids h3 (m_parent x)) - {ob}" using rc(3) by auto
  show "hi_table (object_delete ob h) = remove_object (m_name x) (hi_table h)" "hi_events (object_delete ob h) = hi_events h"
    "hi_next (object_delete ob h) = hi_next h" "hi_next_event (object_delete ob h) = hi_next_event h"
    "m_object_stack (object_delete ob h) = m_object_stack h" "hi_process (object_delete ob h) = hi_process h"
    unfolding del by (simp_all add: rc h3_def h1)
  show "obj_name (object_delete ob h) = (obj_name h)(ob := None)" unfolding del drop rc by (simp add: h3_def nm)
  show "obj_parent (object_delete ob h) =
      (\<lambda>c. if c = ob then None else if obj_parent h c = Some (Some ob) then Some None else obj_parent h c)"
    unfolding del drop using rc(2) by (auto simp: fun_eq_iff h3_def par cs tree(2))
  have "q \<noteq> m_parent x \<Longrightarrow> ob \<notin> set (kids h q)" for q using px tree(2) by auto
  then show "distinct (kids (object_delete ob h) p) \<and> set (kids (object_delete ob h) p) =
      (if p = Some ob then {} else set (kids h p) - {ob} \<union> (if p = None then set (kids h (Some ob)) else {}))"
    unfolding del drop ys(1) using ys(2,3) tree(1,2) self cs by (auto simp: k3)
qed

lemma object_delete_ok:
  assumes "hi_objects h ob = Some x" and ok: "hierarchy_ok h" and "ob \<notin> set (m_object_stack h)" and "hi_process h \<noteq> Some ob"
  shows "hierarchy_ok (object_delete ob h)"
proof -
  note v = delete_views [OF assms(1,2)]
  have nm: "obj_name h ob = Some (m_name x)" by (simp add: obj_name_def assms(1))
  have "names_ok (object_delete ob h)" using ok nm unfolding hierarchy_ok_def names_ok_def v find_remove
    by (auto simp: table_ok_remove) (metis option.inject)
  moreover have "tree_ok (object_delete ob h)" using ok v(9) unfolding hierarchy_ok_def tree_ok_def v(8) by auto
  moreover have "path_ok (object_delete ob h)" using ok unfolding hierarchy_ok_def path_ok_def v by (auto split: if_splits)
  moreover have "refs_ok (object_delete ob h)" using ok assms(3,4) unfolding hierarchy_ok_def refs_ok_def v by (auto split: option.splits)
  ultimately show ?thesis by (simp add: hierarchy_ok_def)
qed

section \<open>Every sequence of operations\<close>

text \<open>
  Objects are pushed, run and destroyed while they exist, and none is destroyed while it is on the stack or runs: the code
  holds plain pointers and checks nothing of this.
\<close>

inductive hier_reach :: "hierarchy \<Rightarrow> bool" where
  start: "hier_reach hierarchy_new"
| named: "hier_reach h \<Longrightarrow> sc_object_named nm h = Inr (ob, h') \<Longrightarrow> hier_reach h'"
| default: "hier_reach h \<Longrightarrow> sc_object_default h = Inr (ob, h') \<Longrightarrow> hier_reach h'"
| copy: "hier_reach h \<Longrightarrow> sc_object_copy that h = Inr (ob, h') \<Longrightarrow> hier_reach h'"
| event: "hier_reach h \<Longrightarrow> register_event leaf is_kernel_event h = Inr (ev, h') \<Longrightarrow> hier_reach h'"
| enter: "hier_reach h \<Longrightarrow> register_hierarchical_name p nm h = (b, h') \<Longrightarrow> hier_reach h'"
| leave: "hier_reach h \<Longrightarrow> unregister_hierarchical_name p nm h = (b, h') \<Longrightarrow> hier_reach h'"
| push: "hier_reach h \<Longrightarrow> hi_objects h ob \<noteq> None \<Longrightarrow> hier_reach (hierarchy_push ob h)"
| pop: "hier_reach h \<Longrightarrow> hierarchy_pop h = (r, h') \<Longrightarrow> hier_reach h'"
| schedule: "hier_reach h \<Longrightarrow> (case p of None \<Rightarrow> True | Some q \<Rightarrow> hi_objects h q \<noteq> None) \<Longrightarrow> hier_reach (h\<lparr>hi_process := p, hi_running := b\<rparr>)"
| destroy: "hier_reach h \<Longrightarrow> hi_objects h ob \<noteq> None \<Longrightarrow> ob \<notin> set (m_object_stack h) \<Longrightarrow> hi_process h \<noteq> Some ob \<Longrightarrow> hier_reach (object_delete ob h)"
| event_gone: "hier_reach h \<Longrightarrow> hi_events h ev \<noteq> None \<Longrightarrow> hier_reach (event_delete ev h)"

lemma stack_ok:
  "hierarchy_ok h \<Longrightarrow> hi_objects h ob \<noteq> None \<Longrightarrow> hierarchy_ok (hierarchy_push ob h)"
  "hierarchy_ok h \<Longrightarrow> hierarchy_ok (snd (hierarchy_pop h))"
  "hierarchy_ok h \<Longrightarrow> (case p of None \<Rightarrow> True | Some q \<Rightarrow> hi_objects h q \<noteq> None) \<Longrightarrow> hierarchy_ok (h\<lparr>hi_process := p, hi_running := b\<rparr>)"
  unfolding hierarchy_ok_def names_ok_def tree_ok_def refs_ok_def path_ok_def hierarchy_push_def hierarchy_pop_def
  by (auto simp: dead_name dest: in_set_butlastD split: option.splits)

lemma reach_ok: "hier_reach h \<Longrightarrow> hierarchy_ok h"
proof (induction rule: hier_reach.induct)
  case (enter h p nm b h')
  then show ?case using external_ok(1) [of h p nm] by simp
next
  case (leave h p nm b h')
  then show ?case using external_ok(2) [of h p nm] by simp
next
  case (pop h r h')
  then show ?case using stack_ok(2) [of h] by simp
next
  case (destroy h ob)
  then show ?case by (auto intro: object_delete_ok)
next
  case (event_gone h ev)
  then show ?case by (auto intro: event_delete_ok)
qed (auto intro: hierarchy_new_ok created_ok register_event_ok stack_ok(1) stack_ok(3))

section \<open>Names, trees and walks of a reachable hierarchy\<close>

text \<open>A hierarchy for the examples: a module with two signals of one name, and a process outside.\<close>

definition after_new :: "string \<Rightarrow> hierarchy \<Rightarrow> hierarchy" where
  "after_new nm h = (case sc_object_named nm h of Inl _ \<Rightarrow> h | Inr (ob, h') \<Rightarrow> h')"

lemma after_new_reach: "hier_reach h \<Longrightarrow> hier_reach (after_new nm h)"
  by (auto simp: after_new_def split: sum.split intro: hier_reach.named)

definition example_hierarchy :: hierarchy where
  "example_hierarchy =
     after_new ''run'' (snd (hierarchy_pop (after_new ''sig'' (after_new ''sig'' (hierarchy_push 0 (after_new ''top'' hierarchy_new))))))"

lemma example_reach: "hier_reach example_hierarchy"
proof -
  have "hi_objects (after_new ''top'' hierarchy_new) 0 \<noteq> None" by code_simp
  then show ?thesis unfolding example_hierarchy_def
    by (intro after_new_reach hier_reach.pop [OF _ surjective_pairing] hier_reach.push hier_reach.start)
qed

text \<open>C27: After any sequence of creations, destructions, pushes and registrations the table of names finds an object under a
  name exactly when that object exists and has that name; so no two objects share a name.\<close>

theorem names_found: "hier_reach h \<Longrightarrow> find_object (hi_table h) n = Some ob \<longleftrightarrow> (\<exists>x. hi_objects h ob = Some x \<and> m_name x = n)"
  using reach_ok [of h] by (auto simp: hierarchy_ok_def names_ok_def obj_name_def)

lemma names_found_witness:
  "hi_objects example_hierarchy 2 \<noteq> None \<and> (find_object (hi_table example_hierarchy) ''top.sig_0'' = Some 2 \<longleftrightarrow>
    (\<exists>x. hi_objects example_hierarchy 2 = Some x \<and> m_name x = ''top.sig_0''))"
proof
  show "hi_objects example_hierarchy 2 \<noteq> None" by code_simp
qed (rule names_found [OF example_reach])

text \<open>C28: In every reachable hierarchy each object is exactly once in the list of children of its parent, or of the context
  when it has none; no list holds an object of another parent or one that was destroyed; parents are older than their children,
  and the name of a child is the name of its parent, a dot, and a leaf.\<close>

theorem children_listed:
  "hier_reach h \<Longrightarrow> distinct (kids h p) \<and> (ob \<in> set (kids h p) \<longleftrightarrow> (\<exists>x. hi_objects h ob = Some x \<and> m_parent x = p)) \<and>
    (ob \<in> set (kids h (Some q)) \<longrightarrow> q < ob \<and>
      (\<exists>x y leaf. hi_objects h ob = Some x \<and> hi_objects h q = Some y \<and> m_name x = construct_hierarchical_name (Some (m_name y)) leaf))"
proof -
  assume "hier_reach h"
  then have t: "tree_ok h" "path_ok h" using reach_ok by (simp_all add: hierarchy_ok_def)
  have "ob \<in> set (kids h (Some q)) \<Longrightarrow> obj_parent h ob = Some (Some q)" using t(1) by (simp add: tree_ok_def)
  then show ?thesis using t unfolding tree_ok_def path_ok_def by (fastforce simp: obj_parent_def obj_name_def)
qed

lemma children_listed_witness:
  "kids example_hierarchy (Some 0) = [1, 2] \<and> distinct (kids example_hierarchy (Some 0)) \<and> (0::nat) < 2 \<and>
    (\<exists>x y leaf. hi_objects example_hierarchy 2 = Some x \<and> hi_objects example_hierarchy 0 = Some y \<and>
      m_name x = construct_hierarchical_name (Some (m_name y)) leaf)"
proof -
  have k: "kids example_hierarchy (Some 0) = [1, 2]" by code_simp
  then show ?thesis using children_listed [OF example_reach, of "Some 0" 2 0] by simp
qed

lemma entry_found:
  assumes "table_ok t" and "(n, e) \<in> set t" and "m_name_origin e = SC_NAME_OBJECT"
  shows "\<exists>ob. m_element_p e = Some ob \<and> find_object t n = Some ob"
proof -
  have "m_element_p e \<noteq> None" using assms by (auto simp: table_ok_def)
  moreover have "map_of t n = Some e" using assms(2) table_ok_distinct [OF assms(1)] by simp
  ultimately show ?thesis using assms(3) by (auto simp: find_object_def find_of_def)
qed

lemma found_entry: "find_object t n = Some ob \<Longrightarrow> \<exists>e. (n, e) \<in> set t \<and> m_name_origin e = SC_NAME_OBJECT \<and> m_element_p e = Some ob"
  by (auto simp: find_object_def find_of_def dest: map_of_SomeD split: option.splits if_splits)

lemma objects_in_found:
  assumes "table_ok t"
  shows "set (objects_in t) = Some ` {ob. \<exists>n. find_object t n = Some ob}"
proof (intro equalityI subsetI)
  fix x
  assume "x \<in> set (objects_in t)"
  then obtain n e where "(n, e) \<in> set t" "m_name_origin e = SC_NAME_OBJECT" "x = m_element_p e" by (auto simp: objects_in_def)
  then show "x \<in> Some ` {ob. \<exists>n. find_object t n = Some ob}" using entry_found [OF assms] by blast
next
  fix x
  assume "x \<in> Some ` {ob. \<exists>n. find_object t n = Some ob}"
  then obtain n ob where x: "x = Some ob" "find_object t n = Some ob" by auto
  then obtain e where e: "(n, e) \<in> set t" "m_name_origin e = SC_NAME_OBJECT" "m_element_p e = Some ob" using found_entry by blast
  then have "(n, e) \<in> set (filter (\<lambda>(k, e). m_name_origin e = SC_NAME_OBJECT) t)" by simp
  then have "(m_element_p \<circ> snd) (n, e) \<in> set (objects_in t)" unfolding objects_in_def set_map by (rule imageI)
  then show "x \<in> set (objects_in t)" using e(3) x(1) by simp
qed

lemma objects_in_once: "names_ok h \<Longrightarrow> distinct (objects_in (hi_table h))"
proof -
  assume ok: "names_ok h"
  let ?t = "hi_table h"
  have t: "table_ok ?t" using ok by (simp add: names_ok_def)
  have k: "k = k'" if "find_object ?t k = Some ob" "find_object ?t k' = Some ob" for k k' ob
    using ok that unfolding names_ok_def by (metis option.inject)
  note f = entry_found [OF t]
  have "inj_on (m_element_p \<circ> snd) (set (filter (\<lambda>(k, e). m_name_origin e = SC_NAME_OBJECT) ?t))"
  proof (rule inj_onI)
    fix x y
    assume "x \<in> set (filter (\<lambda>(k, e). m_name_origin e = SC_NAME_OBJECT) ?t)" "y \<in> set (filter (\<lambda>(k, e). m_name_origin e = SC_NAME_OBJECT) ?t)"
      and e: "(m_element_p \<circ> snd) x = (m_element_p \<circ> snd) y"
    then have m: "x \<in> set ?t" "y \<in> set ?t" "m_name_origin (snd x) = SC_NAME_OBJECT" "m_name_origin (snd y) = SC_NAME_OBJECT" by auto
    then have "fst x = fst y" using f [of "fst x" "snd x"] f [of "fst y" "snd y"] e k by auto
    then show "x = y" using m(1,2) table_ok_distinct [OF t] by (metis eq_key_imp_eq_value prod.collapse)
  qed
  moreover have "distinct ?t" using table_ok_distinct [OF t] by (simp add: distinct_map)
  ultimately show ?thesis by (simp add: objects_in_def distinct_map)
qed

text \<open>C30: Walking over a reachable hierarchy with \<open>first_object\<close> and then \<open>next_object\<close> until the end returns every object
  that exists, each exactly once, and nothing else.\<close>

theorem walk_complete:
  "hier_reach h \<Longrightarrow> distinct (walk (length (hi_table h)) (hi_table h) (first_object (hi_table h))) \<and>
    set (walk (length (hi_table h)) (hi_table h) (first_object (hi_table h))) = Some ` {ob. hi_objects h ob \<noteq> None}"
proof -
  assume "hier_reach h"
  then have ok: "names_ok h" "table_ok (hi_table h)" using reach_ok by (auto simp: hierarchy_ok_def names_ok_def)
  have "{ob. \<exists>n. find_object (hi_table h) n = Some ob} = {ob. hi_objects h ob \<noteq> None}"
    using ok(1) unfolding names_ok_def dead_name [symmetric] by auto
  then show ?thesis unfolding walk_visits [OF ok(2)] objects_in_found [OF ok(2)] using objects_in_once [OF ok(1)] by simp
qed

lemma walk_complete_witness:
  "walk (length (hi_table example_hierarchy)) (hi_table example_hierarchy) (first_object (hi_table example_hierarchy)) = map Some [3, 0, 1, 2] \<and>
    {ob. hi_objects example_hierarchy ob \<noteq> None} = {0, 1, 2, 3}"
proof -
  have w: "walk (length (hi_table example_hierarchy)) (hi_table example_hierarchy) (first_object (hi_table example_hierarchy)) = map Some [3, 0, 1, 2]"
    by code_simp
  then show ?thesis using walk_complete [OF example_reach] by (auto simp: image_iff)
qed

text \<open>C29: \<open>create_name\<close> of a leaf that is not empty returns: with counters that do not overflow its loop ends, the name it returns begins with
  the path of the active object and the leaf, no entry has that name, and a leaf that is free is taken as it is.\<close>

theorem create_name_returns:
  "leaf \<noteq> [] \<Longrightarrow> counters_small (length leaf) (curr_gen h) \<Longrightarrow>
    \<exists>rest h'. create_name leaf h = Inr (construct_hierarchical_name (parent_name h (active_object h)) (leaf @ rest), h') \<and>
      \<not> name_exists (hi_table h) (construct_hierarchical_name (parent_name h (active_object h)) (leaf @ rest)) \<and>
      (\<not> name_exists (hi_table h) (construct_hierarchical_name (parent_name h (active_object h)) leaf) \<longrightarrow> rest = [])"
  unfolding create_name_def using create_loop_fresh [of leaf "curr_gen h" "hi_table h" "parent_name h (active_object h)"] by fastforce

lemma create_name_returns_witness:
  "counters_small (length ''top'') (curr_gen (after_new ''top'' hierarchy_new)) \<and> name_exists (hi_table (after_new ''top'' hierarchy_new)) ''top'' \<and>
    (\<exists>rest h'. create_name ''top'' (after_new ''top'' hierarchy_new) = Inr (''top'' @ rest, h') \<and>
      \<not> name_exists (hi_table (after_new ''top'' hierarchy_new)) (''top'' @ rest))"
proof -
  have a: "active_object (after_new ''top'' hierarchy_new) = None" "name_exists (hi_table (after_new ''top'' hierarchy_new)) ''top''" by code_simp+
  have "hi_gen (after_new ''top'' hierarchy_new) = Map.empty"
    by (simp add: after_new_def sc_object_named_def sc_object_init_def object_name_illegal_char_def is_space_def SC_HIERARCHY_CHAR_def create_name_def
        create_loop.simps name_exists_def hierarchy_new_def active_object_def hierarchy_curr_def parent_name_def curr_gen_def set_gen_def add_child_object_def Let_def)
  then have c: "counters_small (length ''top'') (curr_gen (after_new ''top'' hierarchy_new))" by (simp add: curr_gen_def a counters_small_def)
  from create_name_returns [OF _ c] show ?thesis using c a by (auto simp: parent_name_def construct_hierarchical_name_def)
qed

section \<open>Deferred deletion\<close>

lemma remove_child_same [simp]:
  "hi_process (remove_child_object p ob h) = hi_process h" "m_collectable (remove_child_object p ob h) = m_collectable h"
  "m_references_n (remove_child_object p ob h) = m_references_n h" "hi_table (remove_child_object p ob h) = hi_table h"
  "hi_objects (remove_child_object p ob h) q = None \<longleftrightarrow> hi_objects h q = None"
  by (auto simp: remove_child_object_def set_object_def split: option.split prod.split)

lemma delete_same:
  "hi_process (object_delete ob h) = hi_process h" "m_collectable (object_delete ob h) = m_collectable h"
  "m_references_n (object_delete ob h) = m_references_n h"
  "hi_objects (object_delete ob h) q = None \<longleftrightarrow> q = ob \<or> hi_objects h q = None"
  by (auto simp: object_delete_def detach_def orphan_child_objects_def orphan_effect Let_def)

lemma delete_table: "hi_objects h ob = Some x \<Longrightarrow> hi_table (object_delete ob h) = remove_object (m_name x) (hi_table h)"
  by (simp add: object_delete_def detach_def orphan_child_objects_def orphan_effect the_object_def Let_def)

text \<open>Where no process runs the collection of dead processes ends, and it has destroyed every process of the list.\<close>

theorem collection_ends:
  "hi_process h = None \<Longrightarrow> distinct (m_collectable h) \<Longrightarrow> list_all (\<lambda>p. m_references_n h p = 1) (m_collectable h) \<Longrightarrow>
    \<exists>h'. do_collect_processes h = Some (Inr h') \<and> m_collectable h' = [] \<and>
      (\<forall>p. hi_objects h' p = None \<longleftrightarrow> p \<in> set (m_collectable h) \<or> hi_objects h p = None)"
proof (induction "m_collectable h" arbitrary: h)
  case Nil
  then show ?case by (subst do_collect_processes.simps) auto
next
  case (Cons p ps)
  define h1 where "h1 = object_delete p (h\<lparr>m_collectable := ps, m_references_n := (m_references_n h)(p := 0)\<rparr>)"
  have c: "m_collectable h = p # ps" and r: "m_references_n h p = 1" using Cons.hyps(2) Cons.prems(3) by (metis, metis list.pred_inject(2))
  have d: "reference_decrement p (h\<lparr>m_collectable := ps\<rparr>) = Inr h1"
    using Cons.prems(1) r by (simp add: reference_decrement_def delete_process_def h1_def Let_def)
  have s: "do_collect_processes h = do_collect_processes h1" by (subst do_collect_processes.simps) (simp add: c d)
  have h1: "m_collectable h1 = ps" "hi_process h1 = None" "m_references_n h1 = (m_references_n h)(p := 0)"
    "\<And>q. hi_objects h1 q = None \<longleftrightarrow> q = p \<or> hi_objects h q = None" using Cons.prems(1) by (simp_all add: h1_def delete_same)
  have "distinct ps" "p \<notin> set ps" "list_all (\<lambda>q. m_references_n h1 q = 1) ps" using Cons.prems(2,3) unfolding c h1(3) by (auto simp: list_all_iff)
  then obtain h' where "do_collect_processes h1 = Some (Inr h')" "m_collectable h' = []"
    "\<forall>q. hi_objects h' q = None \<longleftrightarrow> q \<in> set ps \<or> hi_objects h1 q = None" using Cons.hyps(1) [of h1] h1 by auto
  then show ?case unfolding s by (intro exI [of _ h']) (auto simp: c h1(4))
qed

text \<open>A process runs and creates a second; the second dies, and the first creates another under the same name.\<close>

definition zombie_hierarchy :: hierarchy where
  "zombie_hierarchy =
     (case reference_decrement 1 (after_new ''job'' ((after_new ''run'' hierarchy_new)\<lparr>hi_process := Some 0, hi_running := True\<rparr>)) of
        Inl _ \<Rightarrow> hierarchy_new | Inr h \<Rightarrow> (after_new ''job'' h)\<lparr>hi_process := None\<rparr>)"

lemma zombie_facts:
  "hi_process zombie_hierarchy = None" "m_collectable zombie_hierarchy = [1]" "m_references_n zombie_hierarchy 1 = 1"
  "map_option m_name (hi_objects zombie_hierarchy 1) = Some ''run.job''" "map_option m_name (hi_objects zombie_hierarchy 2) = Some ''run.job''"
  "find_object (hi_table zombie_hierarchy) ''run.job'' = Some 2"
  by code_simp+

lemma collection_ends_witness:
  "\<exists>h'. do_collect_processes zombie_hierarchy = Some (Inr h') \<and> m_collectable h' = [] \<and> hi_objects h' 1 = None"
  using collection_ends [of zombie_hierarchy] by (auto simp: zombie_facts simp del: One_nat_def)

text \<open>C32: A process whose deletion was deferred is detached a second time when it is collected, by its name: an object that
  was given that name in between exists and is no longer found.\<close>

theorem collection_takes_name:
  "hi_process h = None \<Longrightarrow> m_collectable h = [p] \<Longrightarrow> m_references_n h p = 1 \<Longrightarrow> hi_objects h p = Some x \<Longrightarrow>
    hi_objects h q = Some y \<Longrightarrow> q \<noteq> p \<Longrightarrow> m_name y = m_name x \<Longrightarrow>
    \<exists>h'. do_collect_processes h = Some (Inr h') \<and> hi_objects h' q \<noteq> None \<and> find_object (hi_table h') (m_name y) = None"
proof -
  assume h: "hi_process h = None" "m_collectable h = [p]" "m_references_n h p = 1" "hi_objects h p = Some x" "hi_objects h q = Some y" "q \<noteq> p"
    and n: "m_name y = m_name x"
  define h1 where "h1 = object_delete p (h\<lparr>m_collectable := [], m_references_n := (m_references_n h)(p := 0)\<rparr>)"
  have "do_collect_processes h = do_collect_processes h1"
    by (subst do_collect_processes.simps) (simp add: h reference_decrement_def delete_process_def h1_def Let_def)
  also have "\<dots> = Some (Inr h1)" by (subst do_collect_processes.simps) (simp add: h1_def delete_same)
  finally have "do_collect_processes h = Some (Inr h1)" .
  moreover have "hi_table h1 = remove_object (m_name x) (hi_table h)" using delete_table [of "h\<lparr>m_collectable := [], m_references_n := (m_references_n h)(p := 0)\<rparr>" p x] h
    by (simp add: h1_def)
  moreover have "hi_objects h1 q \<noteq> None" using h by (simp add: h1_def delete_same)
  ultimately show ?thesis using n by (simp add: find_remove)
qed

lemma collection_takes_name_witness:
  "find_object (hi_table zombie_hierarchy) ''run.job'' = Some 2 \<and>
    (\<exists>h'. do_collect_processes zombie_hierarchy = Some (Inr h') \<and> hi_objects h' 2 \<noteq> None \<and> find_object (hi_table h') ''run.job'' = None)"
proof -
  obtain x y where "hi_objects zombie_hierarchy 1 = Some x" "m_name x = ''run.job''" "hi_objects zombie_hierarchy 2 = Some y" "m_name y = ''run.job''"
    using zombie_facts(4,5) by (auto simp del: One_nat_def)
  then show ?thesis using collection_takes_name [of zombie_hierarchy 1 x 2 y] zombie_facts by (simp del: One_nat_def)
qed

section \<open>Destroyed events\<close>

definition event_kids :: "('a) hierarchy_scheme \<Rightarrow> nat option \<Rightarrow> nat list" where
  "event_kids h p = (case p of None \<Rightarrow> hi_top_events h | Some p \<Rightarrow> m_child_events (the_object h p))"

lemma event_kids_add: "(case p of None \<Rightarrow> True | Some p \<Rightarrow> hi_objects h p \<noteq> None) \<Longrightarrow> ev \<in> set (event_kids (add_child_event p ev h) p)"
  by (auto simp: event_kids_def add_child_event_def set_object_def the_object_def split: option.splits)

lemma event_kids_delete [simp]: "event_kids (event_delete ev h) p = event_kids h p"
  by (simp add: event_delete_def event_kids_def the_object_def Let_def split: option.split)

text \<open>An event that was created with a name stays in the list of child events of its parent, or of the context, after it
  was destroyed: the list then holds a pointer to no event.\<close>

theorem destroyed_event_listed:
  "hier_reach h \<Longrightarrow> leaf \<noteq> [] \<Longrightarrow> register_event leaf False h = Inr (ev, h') \<Longrightarrow>
    ev \<in> set (event_kids (event_delete ev h') (active_object h)) \<and> hi_events (event_delete ev h') ev = None"
proof -
  assume h: "hier_reach h" "leaf \<noteq> []" and r: "register_event leaf False h = Inr (ev, h')"
  define h0 where "h0 = h\<lparr>hi_events := (hi_events h)(hi_next_event h \<mapsto> \<lparr>ev_name = [], ev_parent = active_object h\<rparr>), hi_next_event := hi_next_event h + 1\<rparr>"
  obtain n h1 where c: "create_name leaf h0 = Inr (n, h1)"
    using r h(2) unfolding register_event_def Let_def h0_def [symmetric] by (cases "create_name leaf h0") auto
  then obtain g where g: "h1 = set_gen g h0" using create_name_shape by blast
  define h2 where "h2 = h1\<lparr>hi_events := (hi_events h1)(hi_next_event h \<mapsto> \<lparr>ev_name = n, ev_parent = active_object h\<rparr>),
    hi_table := insert_event n (hi_next_event h) (hi_table h1)\<rparr>"
  have h': "h' = add_child_event (active_object h) ev h2" "ev = hi_next_event h"
    using r h(2) c unfolding register_event_def Let_def h0_def [symmetric] by (auto simp: h2_def)
  have "case active_object h of None \<Rightarrow> True | Some p \<Rightarrow> hi_objects h2 p \<noteq> None"
    using active_exists [of h] reach_ok [OF h(1)] by (auto simp: hierarchy_ok_def h2_def g live_gen h0_def simp del: not_None_eq split: option.split)
  then show ?thesis unfolding event_kids_delete h'(1) using event_kids_add by (auto simp: event_delete_def Let_def)
qed

definition top_event :: "nat \<times> hierarchy" where
  "top_event = (case register_event ''done'' False (hierarchy_push 0 (after_new ''top'' hierarchy_new)) of Inl _ \<Rightarrow> (0, hierarchy_new) | Inr r \<Rightarrow> r)"

lemma destroyed_event_listed_witness:
  "find_event (hi_table (snd top_event)) ''top.done'' = Some 0 \<and> 0 \<in> set (event_kids (event_delete 0 (snd top_event)) (Some 0)) \<and>
    hi_events (event_delete 0 (snd top_event)) 0 = None"
proof -
  let ?h = "hierarchy_push 0 (after_new ''top'' hierarchy_new)"
  have o: "hi_objects (after_new ''top'' hierarchy_new) 0 \<noteq> None" by code_simp
  then have h: "hier_reach ?h" by (intro hier_reach.push after_new_reach hier_reach.start)
  have a: "active_object ?h = Some 0" by code_simp
  have i: "isl (register_event ''done'' False ?h) = False" "fst top_event = 0" "find_event (hi_table (snd top_event)) ''top.done'' = Some 0" by code_simp+
  then have "register_event ''done'' False ?h = Inr (0, snd top_event)" unfolding top_event_def
    by (cases "register_event ''done'' False ?h") (auto simp: prod_eq_iff)
  from destroyed_event_listed [OF h _ this] show ?thesis using a i(3) by simp
qed

end
