(* ===== verification/Sc_Module.thy ===== *)
theory Sc_Module
  imports Sc_Hierarchy
begin

text \<open>
  \<open>sc_module_name.cpp\<close>, the constructors and the destructor of \<open>sc_module.cpp\<close>, and the registry of modules: the name object
  that a module's constructor takes is pushed on a stack, the module under construction takes its name from there and pushes
  itself on the stack of objects, and the end of the name object's life ends the construction.  Callbacks are not modelled here.
\<close>

record sc_module_name =
  mn_name :: string
  m_module_p :: "nat option"
  m_pushed :: bool

record sc_module =
  m_end_module_called :: bool
  m_module_name_p :: "nat option"

text \<open>The name objects that are linked through \<open>m_next\<close> are the list from the top of the stack.\<close>

record module_state = hierarchy +
  ms_names :: "nat \<rightharpoonup> sc_module_name"
  ms_next_name :: nat
  m_module_name_stack :: "nat list"
  ms_modules :: "nat \<rightharpoonup> sc_module"
  m_module_vec :: "nat list"
  m_elaborated :: bool

definition the_module_name :: "module_state \<Rightarrow> nat \<Rightarrow> sc_module_name" where
  "the_module_name s i = the (ms_names s i)"

definition the_module :: "module_state \<Rightarrow> nat \<Rightarrow> sc_module" where
  "the_module s m = the (ms_modules s m)"

section \<open>Name objects\<close>

definition push_module_name :: "nat \<Rightarrow> module_state \<Rightarrow> module_state" where
  "push_module_name i s = s\<lparr>m_module_name_stack := i # m_module_name_stack s\<rparr>"

definition pop_module_name :: "module_state \<Rightarrow> (nat \<times> module_state) res" where
  "pop_module_name s = (case m_module_name_stack s of [] \<Rightarrow> Inl NullPointer | i # is \<Rightarrow> Inr (i, s\<lparr>m_module_name_stack := is\<rparr>))"

definition top_of_module_name_stack :: "module_state \<Rightarrow> nat res" where
  "top_of_module_name_stack s =
     (case m_module_name_stack s of [] \<Rightarrow> Inl (ReportError SC_ID_MODULE_NAME_STACK_EMPTY) | i # is \<Rightarrow> Inr i)"

definition module_name_new :: "string \<Rightarrow> module_state \<Rightarrow> nat \<times> module_state" where
  "module_name_new nm s =
     (let i = ms_next_name s in
      (i, push_module_name i (s\<lparr>ms_names := (ms_names s)(i \<mapsto> \<lparr>mn_name = nm, m_module_p = None, m_pushed = True\<rparr>), ms_next_name := i + 1\<rparr>)))"

definition module_name_copy :: "nat \<Rightarrow> module_state \<Rightarrow> nat \<times> module_state" where
  "module_name_copy j s =
     (let i = ms_next_name s in
      (i, s\<lparr>ms_names := (ms_names s)(i \<mapsto> \<lparr>mn_name = mn_name (the_module_name s j), m_module_p = None, m_pushed = False\<rparr>), ms_next_name := i + 1\<rparr>))"

definition set_module :: "nat \<Rightarrow> nat \<Rightarrow> module_state \<Rightarrow> module_state" where
  "set_module i m s = s\<lparr>ms_names := (ms_names s)(i := map_option (m_module_p_update (\<lambda>_. Some m)) (ms_names s i))\<rparr>"

definition clear_module :: "nat \<Rightarrow> nat \<Rightarrow> module_state \<Rightarrow> module_state res" where
  "clear_module i m s =
     (if m_module_p (the_module_name s i) \<noteq> Some m then Inl AssertFailed
      else Inr (s\<lparr>ms_names := (ms_names s)(i := map_option (m_module_p_update (\<lambda>_. None)) (ms_names s i))\<rparr>))"

section \<open>The registry\<close>

definition module_registry_insert :: "nat \<Rightarrow> module_state \<Rightarrow> module_state res" where
  "module_registry_insert m s =
     (if hi_running s then Inl (ReportError SC_ID_INSERT_MODULE)
      else if m_elaborated s then Inl (ReportError SC_ID_INSERT_MODULE)
      else Inr (s\<lparr>m_module_vec := m_module_vec s @ [m]\<rparr>))"

definition module_registry_remove :: "nat \<Rightarrow> module_state \<Rightarrow> module_state res" where
  "module_registry_remove m s =
     (let (found, ms) = take_child m (m_module_vec s) in
      if found then Inr (s\<lparr>m_module_vec := ms\<rparr>) else Inl (ReportError SC_ID_REMOVE_MODULE))"

section \<open>Modules\<close>

definition sc_module_init :: "nat \<Rightarrow> module_state \<Rightarrow> module_state res" where
  "sc_module_init m s =
     rbind (module_registry_insert m s) (\<lambda>s.
       let s = hierarchy_push m s in Inr (s\<lparr>ms_modules := (ms_modules s)(m \<mapsto> \<lparr>m_end_module_called = False, m_module_name_p = None\<rparr>)\<rparr>))"

definition sc_module_new :: "module_state \<Rightarrow> (nat \<times> module_state) res" where
  "sc_module_new s =
     rbind (top_of_module_name_stack s) (\<lambda>i. rbind (sc_object_named (mn_name (the_module_name s i)) s) (\<lambda>(m, s).
       rbind (top_of_module_name_stack s) (\<lambda>i.
         if m_module_p (the_module_name s i) \<noteq> None then Inl (ReportError SC_ID_SC_MODULE_NAME_REQUIRED)
         else rbind (sc_module_init m s) (\<lambda>s. let s = set_module i m s in
           Inr (m, s\<lparr>ms_modules := (ms_modules s)(m \<mapsto> (the_module s m)\<lparr>m_module_name_p := Some i\<rparr>)\<rparr>)))))"

text \<open>The deprecated constructor takes a string and no name object.\<close>

definition sc_module_named :: "string \<Rightarrow> module_state \<Rightarrow> (nat \<times> module_state) res" where
  "sc_module_named nm s = rbind (sc_object_named nm s) (\<lambda>(m, s). rbind (sc_module_init m s) (\<lambda>s. Inr (m, s)))"

definition end_module :: "nat \<Rightarrow> module_state \<Rightarrow> module_state" where
  "end_module m s =
     (if m_end_module_called (the_module s m) then s
      else let s = (snd (hierarchy_pop s))\<lparr>hi_process := None\<rparr> in
        s\<lparr>ms_modules := (ms_modules s)(m \<mapsto> (the_module s m)\<lparr>m_end_module_called := True, m_module_name_p := None\<rparr>)\<rparr>)"

definition module_name_delete :: "nat \<Rightarrow> module_state \<Rightarrow> module_state res" where
  "module_name_delete i s =
     rbind (if m_pushed (the_module_name s i)
            then rbind (pop_module_name s) (\<lambda>(smn, s).
              if i \<noteq> smn then Inl (ReportError SC_ID_SC_MODULE_NAME_USE)
              else Inr (case m_module_p (the_module_name s i) of None \<Rightarrow> s | Some m \<Rightarrow> end_module m s))
            else Inr s) (\<lambda>s. Inr (s\<lparr>ms_names := (ms_names s)(i := None)\<rparr>))"

definition module_delete :: "nat \<Rightarrow> module_state \<Rightarrow> module_state res" where
  "module_delete m s =
     (let s = orphan_child_objects m s in
      rbind (case m_module_name_p (the_module s m) of None \<Rightarrow> Inr s
             | Some i \<Rightarrow> rbind (clear_module i m s) (\<lambda>s. Inr (end_module m s))) (\<lambda>s.
        rbind (module_registry_remove m s) (\<lambda>s. let s = detach m s in
          Inr (s\<lparr>hi_objects := (hi_objects s)(m := None), ms_modules := (ms_modules s)(m := None)\<rparr>))))"

section \<open>Constructing a design\<close>

text \<open>
  A module class creates in its constructor, which takes a name object, other modules and other objects, in an order of its
  own: the name object is made, then the base \<open>sc_module\<close>, then the members and the body, and the name object ends.
\<close>

datatype design = Instance string "design list" | Item string

fun build :: "design \<Rightarrow> module_state \<Rightarrow> module_state res" and build_all :: "design list \<Rightarrow> module_state \<Rightarrow> module_state res" where
  "build (Item nm) s = rbind (sc_object_named nm s) (\<lambda>(ob, s). Inr s)"
| "build (Instance nm ds) s =
     (let (i, s) = module_name_new nm s in
      rbind (sc_module_new s) (\<lambda>(m, s). rbind (build_all ds s) (\<lambda>s. module_name_delete i s)))"
| "build_all [] s = Inr s"
| "build_all (d # ds) s = rbind (build d s) (\<lambda>s. build_all ds s)"

text \<open>The path names of a design below a parent, in the order of creation.\<close>

fun paths :: "string option \<Rightarrow> design \<Rightarrow> string list" and paths_all :: "string option \<Rightarrow> design list \<Rightarrow> string list" where
  "paths p (Item nm) = [construct_hierarchical_name p nm]"
| "paths p (Instance nm ds) = construct_hierarchical_name p nm # paths_all (Some (construct_hierarchical_name p nm)) ds"
| "paths_all p [] = []"
| "paths_all p (d # ds) = paths p d @ paths_all p ds"

definition legal_name :: "string \<Rightarrow> bool" where
  "legal_name nm \<longleftrightarrow> nm \<noteq> [] \<and> list_all (\<lambda>c. \<not> object_name_illegal_char c) nm"

fun legal :: "design \<Rightarrow> bool" and legal_all :: "design list \<Rightarrow> bool" where
  "legal (Item nm) \<longleftrightarrow> legal_name nm"
| "legal (Instance nm ds) \<longleftrightarrow> legal_name nm \<and> legal_all ds"
| "legal_all [] \<longleftrightarrow> True"
| "legal_all (d # ds) \<longleftrightarrow> legal d \<and> legal_all ds"

section \<open>The states between\<close>

text \<open>A state of the elaboration, and a state that was built from it with objects of the given names.\<close>

definition module_ok :: "module_state \<Rightarrow> bool" where
  "module_ok s \<longleftrightarrow> hierarchy_ok s \<and> hi_process s = None \<and> \<not> hi_running s \<and> \<not> m_elaborated s \<and>
     (\<forall>m \<ge> hi_next s. ms_modules s m = None)"

definition built :: "module_state \<Rightarrow> module_state \<Rightarrow> string list \<Rightarrow> bool" where
  "built s s' ps \<longleftrightarrow> module_ok s' \<and> m_object_stack s' = m_object_stack s \<and> m_module_name_stack s' = m_module_name_stack s \<and>
     hi_next s' = hi_next s + length ps \<and> (\<forall>ob < hi_next s. obj_name s' ob = obj_name s ob) \<and>
     map (obj_name s') [hi_next s..<hi_next s + length ps] = map Some ps \<and>
     (\<forall>n. name_exists (hi_table s') n \<longleftrightarrow> name_exists (hi_table s) n \<or> n \<in> set ps) \<and>
     (\<forall>m < hi_next s. ms_modules s' m = ms_modules s m) \<and> (\<forall>i < ms_next_name s. ms_names s' i = ms_names s i) \<and>
     ms_next_name s \<le> ms_next_name s' \<and>
     (\<forall>m. hi_next s \<le> m \<longrightarrow> ms_modules s' m = None \<or> ms_modules s' m = Some \<lparr>m_end_module_called = True, m_module_name_p = None\<rparr>) \<and>
     m_module_vec s' = m_module_vec s @ filter (\<lambda>m. ms_modules s' m \<noteq> None) [hi_next s..<hi_next s + length ps]"

lemma built_refl: "module_ok s \<Longrightarrow> built s s []"
  by (simp add: built_def module_ok_def)

lemma built_trans:
  assumes "built s s1 ps" and "built s1 s2 qs"
  shows "built s s2 (ps @ qs)"
proof -
  note b1 = assms(1) [unfolded built_def] and b2 = assms(2) [unfolded built_def]
  let ?a = "[hi_next s..<hi_next s + length ps]" and ?b = "[hi_next s1..<hi_next s1 + length qs]"
  have n1: "hi_next s1 = hi_next s + length ps" using b1 by blast
  have l: "[hi_next s..<hi_next s + length (ps @ qs)] = ?a @ ?b" using upt_add_eq_append [of "hi_next s" "hi_next s + length ps" "length qs"] by (simp add: n1 add.assoc)
  have o: "\<forall>ob < hi_next s1. obj_name s2 ob = obj_name s1 ob" and m: "\<forall>m < hi_next s1. ms_modules s2 m = ms_modules s1 m"
    and i: "\<forall>i < ms_next_name s1. ms_names s2 i = ms_names s1 i" and t: "\<And>n. name_exists (hi_table s2) n \<longleftrightarrow> name_exists (hi_table s1) n \<or> n \<in> set qs"
    using b2 by blast+
  have low: "map (obj_name s2) ?a = map Some ps"
  proof -
    have "map (obj_name s2) ?a = map (obj_name s1) ?a" using o n1 by (intro map_cong) auto
    then show ?thesis using b1 by metis
  qed
  have high: "map (obj_name s2) ?b = map Some qs" using b2 by blast
  have mods: "filter (\<lambda>m. ms_modules s2 m \<noteq> None) ?a = filter (\<lambda>m. ms_modules s1 m \<noteq> None) ?a" using m n1 by (intro filter_cong) auto
  have vec: "m_module_vec s2 = m_module_vec s @ filter (\<lambda>m. ms_modules s2 m \<noteq> None) ?a @ filter (\<lambda>m. ms_modules s2 m \<noteq> None) ?b"
    using b1 b2 unfolding mods by (metis append.assoc)
  have ended: "\<forall>m. hi_next s \<le> m \<longrightarrow> ms_modules s2 m = None \<or> ms_modules s2 m = Some \<lparr>m_end_module_called = True, m_module_name_p = None\<rparr>"
  proof (intro allI impI)
    fix k
    assume "hi_next s \<le> k"
    then show "ms_modules s2 k = None \<or> ms_modules s2 k = Some \<lparr>m_end_module_called = True, m_module_name_p = None\<rparr>"
      using b1 b2 m by (cases "k < hi_next s1") (metis, metis not_le)
  qed
  show ?thesis unfolding built_def l map_append filter_append low high
  proof (intro conjI)
    show "module_ok s2" "m_object_stack s2 = m_object_stack s" "m_module_name_stack s2 = m_module_name_stack s" "map Some ps @ map Some qs = map Some ps @ map Some qs"
      using b1 b2 by simp_all
    show "hi_next s2 = hi_next s + length (ps @ qs)" using b2 n1 by simp
    show "\<forall>ob < hi_next s. obj_name s2 ob = obj_name s ob" using b1 o n1 by (metis trans_less_add1)
    show "\<forall>m < hi_next s. ms_modules s2 m = ms_modules s m" using b1 m n1 by (metis trans_less_add1)
    show "\<forall>n. name_exists (hi_table s2) n \<longleftrightarrow> name_exists (hi_table s) n \<or> n \<in> set (ps @ qs)" using b1 t by (metis Un_iff set_append)
    show "ms_next_name s \<le> ms_next_name s2" using b1 b2 by (meson le_trans)
    show "\<forall>i < ms_next_name s. ms_names s2 i = ms_names s i" using b1 i by (metis less_le_trans)
  qed (use ended vec in auto)
qed

lemma module_fields_ok [simp]:
  "hierarchy_ok (s\<lparr>ms_names := a\<rparr>) = hierarchy_ok s" "hierarchy_ok (s\<lparr>ms_next_name := b\<rparr>) = hierarchy_ok s"
  "hierarchy_ok (s\<lparr>m_module_name_stack := c\<rparr>) = hierarchy_ok s" "hierarchy_ok (s\<lparr>ms_modules := d\<rparr>) = hierarchy_ok s"
  "hierarchy_ok (s\<lparr>m_module_vec := e\<rparr>) = hierarchy_ok s"
  by (rule hierarchy_ok_same; simp add: view_defs fun_eq_iff cong: option.case_cong)+

lemma module_fields_name [simp]:
  "obj_name (s\<lparr>ms_names := a\<rparr>) = obj_name s" "obj_name (s\<lparr>ms_next_name := b\<rparr>) = obj_name s"
  "obj_name (s\<lparr>m_module_name_stack := c\<rparr>) = obj_name s" "obj_name (s\<lparr>ms_modules := d\<rparr>) = obj_name s" "obj_name (s\<lparr>m_module_vec := e\<rparr>) = obj_name s"
  "active_object (s\<lparr>ms_names := a\<rparr>) = active_object s" "active_object (s\<lparr>ms_next_name := b\<rparr>) = active_object s"
  "active_object (s\<lparr>m_module_name_stack := c\<rparr>) = active_object s" "active_object (s\<lparr>ms_modules := d\<rparr>) = active_object s"
  "active_object (s\<lparr>m_module_vec := e\<rparr>) = active_object s"
  by (simp_all add: obj_name_def fun_eq_iff active_object_def hierarchy_curr_def cong: option.case_cong)

lemma more_same:
  fixes s s' :: module_state
  assumes "hierarchy.more s' = hierarchy.more s"
  shows "ms_names s' = ms_names s" "ms_next_name s' = ms_next_name s" "m_module_name_stack s' = m_module_name_stack s" "ms_modules s' = ms_modules s"
    "m_module_vec s' = m_module_vec s" "m_elaborated s' = m_elaborated s"
  using assms by (cases s, cases s', simp)+

definition active_path :: "('a) hierarchy_scheme \<Rightarrow> string option" where
  "active_path h = (case active_object h of None \<Rightarrow> None | Some p \<Rightarrow> obj_name h p)"

lemma active_path_parent: "hierarchy_ok h \<Longrightarrow> parent_name h (active_object h) = active_path h"
  using active_exists [of h] by (auto simp: hierarchy_ok_def active_path_def parent_name_def the_object_def obj_name_def split: option.split)

lemma name_exists_insert: "name_exists (insert_object n ob t) m \<longleftrightarrow> m = n \<or> name_exists t m"
  by (simp add: insert_object_def name_exists_set)

lemma legal_unchanged: "legal_name nm \<Longrightarrow> map (\<lambda>c. if object_name_illegal_char c then CHR ''_'' else c) nm = nm"
  by (auto simp: legal_name_def list_all_iff intro!: map_idI)

lemma named_legal:
  assumes "hierarchy_ok h" and "legal_name nm" and free: "\<not> name_exists (hi_table h) (construct_hierarchical_name (active_path h) nm)"
  obtains h' where "sc_object_named nm h = Inr (hi_next h, h')" "hierarchy_ok h'" "hi_next h' = hi_next h + 1"
    "obj_name h' = (obj_name h)(hi_next h \<mapsto> construct_hierarchical_name (active_path h) nm)"
    "hi_table h' = insert_object (construct_hierarchical_name (active_path h) nm) (hi_next h) (hi_table h)"
    "m_object_stack h' = m_object_stack h" "hi_process h' = hi_process h" "hi_running h' = hi_running h" "hierarchy.more h' = hierarchy.more h"
proof -
  let ?n = "construct_hierarchical_name (active_path h) nm"
  have c: "create_name nm h = Inr (?n, set_gen (curr_gen h) h)"
    unfolding create_name_def by (subst create_loop.simps) (simp add: active_path_parent [OF assms(1)] free)
  have e: "sc_object_named nm h = sc_object_init nm h" using assms(2) by (simp add: sc_object_named_def legal_unchanged) (simp add: legal_name_def)
  obtain ob h' where r: "sc_object_init nm h = Inr (ob, h')" by (simp add: sc_object_init_def c Let_def)
  show ?thesis
  proof (rule init_views [OF r assms(1)])
    fix n l
    assume v: "ob = hi_next h" "\<exists>h1. create_name nm h = Inr (n, h1)" "hi_table h' = insert_object n ob (hi_table h)"
      "obj_name h' = (obj_name h)(ob \<mapsto> n)" "hi_next h' = ob + 1" "m_object_stack h' = m_object_stack h" "hi_process h' = hi_process h"
      "hi_running h' = hi_running h" "hierarchy.more h' = hierarchy.more h"
    then have n: "n = ?n" using c by simp
    show ?thesis by (rule that [of h']) (use v n r e init_ok [OF r assms(1)] in simp_all)
  qed
qed

lemma build_item:
  assumes "module_ok s" and "legal_name nm" and "\<not> name_exists (hi_table s) (construct_hierarchical_name (active_path s) nm)"
  shows "\<exists>s'. build (Item nm) s = Inr s' \<and> built s s' [construct_hierarchical_name (active_path s) nm]"
proof -
  have ok: "hierarchy_ok s" using assms(1) by (simp add: module_ok_def)
  obtain s' where v: "sc_object_named nm s = Inr (hi_next s, s')" "hierarchy_ok s'" "hi_next s' = hi_next s + 1"
    "obj_name s' = (obj_name s)(hi_next s \<mapsto> construct_hierarchical_name (active_path s) nm)"
    "hi_table s' = insert_object (construct_hierarchical_name (active_path s) nm) (hi_next s) (hi_table s)"
    "m_object_stack s' = m_object_stack s" "hi_process s' = hi_process s" "hi_running s' = hi_running s" "hierarchy.more s' = hierarchy.more s"
    using named_legal [OF ok assms(2,3)] .
  note more = more_same [OF v(9)]
  have "built s s' [construct_hierarchical_name (active_path s) nm]"
    using assms(1) v(2) unfolding built_def module_ok_def more v(3-8) by (auto simp: name_exists_insert)
  then show ?thesis using v(1) by simp
qed

text \<open>The state in which the body of a module's constructor runs.\<close>

definition opened :: "module_state \<Rightarrow> module_state \<Rightarrow> string \<Rightarrow> string \<Rightarrow> bool" where
  "opened s s' nm n \<longleftrightarrow> module_ok s' \<and> m_object_stack s' = m_object_stack s @ [hi_next s] \<and>
     m_module_name_stack s' = ms_next_name s # m_module_name_stack s \<and> ms_next_name s' = ms_next_name s + 1 \<and>
     ms_names s' = (ms_names s)(ms_next_name s \<mapsto> \<lparr>mn_name = nm, m_module_p = Some (hi_next s), m_pushed = True\<rparr>) \<and>
     ms_modules s' = (ms_modules s)(hi_next s \<mapsto> \<lparr>m_end_module_called = False, m_module_name_p = Some (ms_next_name s)\<rparr>) \<and>
     m_module_vec s' = m_module_vec s @ [hi_next s] \<and> hi_next s' = hi_next s + 1 \<and> obj_name s' = (obj_name s)(hi_next s \<mapsto> n) \<and>
     hi_table s' = insert_object n (hi_next s) (hi_table s)"

lemma module_opened:
  assumes ok: "module_ok s" and "legal_name nm" and free: "\<not> name_exists (hi_table s) (construct_hierarchical_name (active_path s) nm)"
  shows "\<exists>s'. sc_module_new (snd (module_name_new nm s)) = Inr (hi_next s, s') \<and> opened s s' nm (construct_hierarchical_name (active_path s) nm)"
proof -
  let ?n = "construct_hierarchical_name (active_path s) nm" and ?m = "hi_next s" and ?i = "ms_next_name s"
  define s0 where "s0 = snd (module_name_new nm s)"
  have s0: "s0 = s\<lparr>ms_names := (ms_names s)(?i \<mapsto> \<lparr>mn_name = nm, m_module_p = None, m_pushed = True\<rparr>), ms_next_name := ?i + 1,
      m_module_name_stack := ?i # m_module_name_stack s\<rparr>" by (simp add: s0_def module_name_new_def push_module_name_def Let_def)
  have h0: "hierarchy_ok s0" "active_path s0 = active_path s" "hi_table s0 = hi_table s" "obj_name s0 = obj_name s"
    using ok by (simp_all add: s0 module_ok_def active_path_def cong: option.case_cong)
  have "\<not> name_exists (hi_table s0) (construct_hierarchical_name (active_path s0) nm)" using free h0 by simp
  from named_legal [OF h0(1) assms(2) this] obtain s1 where s1: "sc_object_named nm s0 = Inr (hi_next s0, s1)" "hierarchy_ok s1"
    "hi_next s1 = hi_next s0 + 1" "obj_name s1 = (obj_name s0)(hi_next s0 \<mapsto> construct_hierarchical_name (active_path s0) nm)"
    "hi_table s1 = insert_object (construct_hierarchical_name (active_path s0) nm) (hi_next s0) (hi_table s0)"
    "m_object_stack s1 = m_object_stack s0" "hi_process s1 = hi_process s0" "hi_running s1 = hi_running s0" "hierarchy.more s1 = hierarchy.more s0" by blast
  have f0: "hi_next s0 = ?m" "m_object_stack s0 = m_object_stack s" "hi_process s0 = hi_process s" "hi_running s0 = hi_running s"
    "ms_names s0 = (ms_names s)(?i \<mapsto> \<lparr>mn_name = nm, m_module_p = None, m_pushed = True\<rparr>)" "ms_next_name s0 = ?i + 1"
    "m_module_name_stack s0 = ?i # m_module_name_stack s" "ms_modules s0 = ms_modules s" "m_module_vec s0 = m_module_vec s" "m_elaborated s0 = m_elaborated s"
    by (simp_all add: s0)
  note more = more_same [OF s1(9), unfolded f0] and s1 = s1(1-8) [unfolded f0 h0]
  define s2 where "s2 = (hierarchy_push ?m s1)\<lparr>m_module_vec := m_module_vec s1 @ [?m],
    ms_names := (ms_names s1)(?i \<mapsto> \<lparr>mn_name = nm, m_module_p = Some ?m, m_pushed = True\<rparr>),
    ms_modules := (ms_modules s1)(?m \<mapsto> \<lparr>m_end_module_called = False, m_module_name_p = Some ?i\<rparr>)\<rparr>"
  have new: "sc_module_new s0 = Inr (?m, s2)"
    using ok s1(1,8) more
    by (simp add: sc_module_new_def top_of_module_name_stack_def f0 the_module_name_def sc_module_init_def module_registry_insert_def module_ok_def
        hierarchy_push_def set_module_def the_module_def s2_def Let_def)
  have "hi_objects s1 ?m \<noteq> None" using s1(4) by (simp add: dead_name [symmetric])
  then have "hierarchy_ok (hierarchy_push ?m s1)" using stack_ok(1) s1(2) by blast
  then have "hierarchy_ok s2" unfolding s2_def by simp
  then have "opened s s2 nm ?n"
    using ok s1 more by (simp add: opened_def module_ok_def s2_def hierarchy_push_def)
  then show ?thesis using new unfolding s0_def by blast
qed

lemma process_none_ok: "hierarchy_ok h \<Longrightarrow> hierarchy_ok (h\<lparr>hi_process := None\<rparr>)"
  unfolding hierarchy_ok_def names_ok_def tree_ok_def refs_ok_def path_ok_def by auto

lemma module_closed:
  assumes "module_ok s" and o: "opened s s2 nm n" and b: "built s2 s3 ps"
  shows "\<exists>s4. module_name_delete (ms_next_name s) s3 = Inr s4 \<and> built s s4 (n # ps)"
proof -
  let ?m = "hi_next s" and ?i = "ms_next_name s"
  let ?done = "\<lparr>m_end_module_called = True, m_module_name_p = None\<rparr>"
  note o = o [unfolded opened_def] and b = b [unfolded built_def]
  have nx: "hi_next s2 = ?m + 1" "ms_next_name s2 = ?i + 1" using o by simp_all
  have nm: "ms_names s3 ?i = Some \<lparr>mn_name = nm, m_module_p = Some ?m, m_pushed = True\<rparr>" using o b by simp
  have md: "ms_modules s3 ?m = Some \<lparr>m_end_module_called = False, m_module_name_p = Some ?i\<rparr>" using o b by simp
  have st: "m_module_name_stack s3 = ?i # m_module_name_stack s" "m_object_stack s3 = m_object_stack s @ [?m]" using o b by simp_all
  define s4 where "s4 = (snd (hierarchy_pop s3))\<lparr>hi_process := None, m_module_name_stack := m_module_name_stack s,
    ms_modules := (ms_modules s3)(?m \<mapsto> ?done), ms_names := (ms_names s3)(?i := None)\<rparr>"
  have del: "module_name_delete ?i s3 = Inr s4"
    using nm md st by (simp add: module_name_delete_def the_module_name_def pop_module_name_def end_module_def the_module_def s4_def hierarchy_pop_def Let_def)
  have ok: "hierarchy_ok s3" "hi_process s3 = None" using b by (simp_all add: module_ok_def)
  then have "hierarchy_ok (snd (hierarchy_pop s3))" using stack_ok(2) by blast
  then have "hierarchy_ok ((snd (hierarchy_pop s3))\<lparr>hi_process := None\<rparr>)" by (rule process_none_ok)
  then have h4: "hierarchy_ok s4" unfolding s4_def by simp
  have f4: "hi_next s4 = hi_next s3" "hi_table s4 = hi_table s3" "hi_process s4 = None" "hi_running s4 = hi_running s3" "m_elaborated s4 = m_elaborated s3"
    "m_object_stack s4 = m_object_stack s" "m_module_name_stack s4 = m_module_name_stack s" "ms_modules s4 = (ms_modules s3)(?m \<mapsto> ?done)"
    "ms_names s4 = (ms_names s3)(?i := None)" "ms_next_name s4 = ms_next_name s3" "m_module_vec s4 = m_module_vec s3" "obj_name s4 = obj_name s3"
    using st by (simp_all add: s4_def hierarchy_pop_def obj_name_def fun_eq_iff)
  have n3: "hi_next s3 = ?m + 1 + length ps" using b nx by simp
  have l: "[?m..<?m + length (n # ps)] = ?m # [hi_next s2..<hi_next s2 + length ps]" unfolding nx by (subst upt_conv_Cons) simp_all
  have low: "obj_name s3 ?m = Some n" using o b by simp
  have vec: "m_module_vec s4 = m_module_vec s @ filter (\<lambda>k. ms_modules s4 k \<noteq> None) [?m..<?m + length (n # ps)]"
  proof -
    have "filter (\<lambda>k. ms_modules s4 k \<noteq> None) [hi_next s2..<hi_next s2 + length ps] = filter (\<lambda>k. ms_modules s3 k \<noteq> None) [hi_next s2..<hi_next s2 + length ps]"
      unfolding f4 by (rule filter_cong) (simp_all add: nx md)
    moreover have "m_module_vec s3 = m_module_vec s @ [?m] @ filter (\<lambda>k. ms_modules s3 k \<noteq> None) [hi_next s2..<hi_next s2 + length ps]"
      using o b by simp
    ultimately show ?thesis unfolding l filter.simps f4 by simp
  qed
  have "built s s4 (n # ps)" unfolding built_def
  proof (intro conjI)
    show "module_ok s4" using b h4 unfolding module_ok_def f4 by (auto simp: n3)
    show "map (obj_name s4) [?m..<?m + length (n # ps)] = map Some (n # ps)" unfolding l f4 list.map low using b by simp
    show "\<forall>k. name_exists (hi_table s4) k \<longleftrightarrow> name_exists (hi_table s) k \<or> k \<in> set (n # ps)" using o b unfolding f4 by (auto simp: name_exists_insert)
    show "\<forall>ob < ?m. obj_name s4 ob = obj_name s ob" "\<forall>m < ?m. ms_modules s4 m = ms_modules s m" "\<forall>i < ?i. ms_names s4 i = ms_names s i"
      "?i \<le> ms_next_name s4" using o b unfolding f4 by simp_all
    show "\<forall>k. ?m \<le> k \<longrightarrow> ms_modules s4 k = None \<or> ms_modules s4 k = Some ?done" using b unfolding f4 nx by auto
  qed (use vec n3 in \<open>simp_all add: f4\<close>)
  then show ?thesis using del by blast
qed

lemma built_path:
  assumes "module_ok s" and "built s s' ps"
  shows "active_path s' = active_path s"
proof -
  have a: "active_object s' = active_object s" using assms by (simp add: built_def module_ok_def active_object_def hierarchy_curr_def)
  have "p < hi_next s" if "active_object s = Some p" for p
    using active_exists [of s p] that assms(1) unfolding module_ok_def hierarchy_ok_def names_ok_def dead_name by (metis leI)
  then show ?thesis using assms(2) unfolding active_path_def a by (auto simp: built_def split: option.split)
qed

lemma build_names:
  "module_ok s \<Longrightarrow> legal d \<Longrightarrow> distinct (paths (active_path s) d) \<Longrightarrow> list_all (\<lambda>n. \<not> name_exists (hi_table s) n) (paths (active_path s) d) \<Longrightarrow>
    \<exists>s'. build d s = Inr s' \<and> built s s' (paths (active_path s) d)"
  "module_ok s \<Longrightarrow> legal_all ds \<Longrightarrow> distinct (paths_all (active_path s) ds) \<Longrightarrow> list_all (\<lambda>n. \<not> name_exists (hi_table s) n) (paths_all (active_path s) ds) \<Longrightarrow>
    \<exists>s'. build_all ds s = Inr s' \<and> built s s' (paths_all (active_path s) ds)"
proof (induction d and ds arbitrary: s and s rule: legal_legal_all.induct)
  case (1 nm)
  then show ?case using build_item [of s nm] by simp
next
  case (2 nm ds)
  let ?n = "construct_hierarchical_name (active_path s) nm"
  obtain s2 where s2: "sc_module_new (snd (module_name_new nm s)) = Inr (hi_next s, s2)" "opened s s2 nm ?n"
    using module_opened [OF "2.prems"(1)] "2.prems" by auto
  have ok: "module_ok s2" "active_path s2 = Some ?n" using s2(2) by (auto simp: opened_def active_path_def active_object_def hierarchy_curr_def)
  have "list_all (\<lambda>n. \<not> name_exists (hi_table s2) n) (paths_all (Some ?n) ds)"
    using "2.prems"(3,4) s2(2) by (auto simp: opened_def name_exists_insert list_all_iff)
  then obtain s3 where s3: "build_all ds s2 = Inr s3" "built s2 s3 (paths_all (Some ?n) ds)"
    using "2.IH" [OF ok(1)] "2.prems" ok(2) by auto
  obtain s4 where "module_name_delete (ms_next_name s) s3 = Inr s4" "built s s4 (?n # paths_all (Some ?n) ds)"
    using module_closed [OF "2.prems"(1) s2(2) s3(2)] by blast
  then show ?case using s2(1) s3(1) by (simp add: split_beta module_name_new_def Let_def)
next
  case 3
  then show ?case by (simp add: built_refl)
next
  case (4 d ds)
  obtain s1 where s1: "build d s = Inr s1" "built s s1 (paths (active_path s) d)" using "4.IH"(1) [OF "4.prems"(1)] "4.prems" by auto
  have ok: "module_ok s1" using s1(2) by (simp add: built_def)
  have "active_path s1 = active_path s" using "4.prems"(1) s1(2) by (rule built_path)
  moreover have "list_all (\<lambda>n. \<not> name_exists (hi_table s1) n) (paths_all (active_path s) ds)"
    using "4.prems"(3,4) s1(2) by (auto simp: built_def list_all_iff)
  ultimately obtain s2 where "build_all ds s1 = Inr s2" "built s1 s2 (paths_all (active_path s) ds)"
    using "4.IH"(2) [OF ok] "4.prems" by auto
  then show ?case using s1 built_trans by auto
qed

section \<open>What construction and destruction do\<close>

text \<open>C26: Constructing a design during elaboration always succeeds when its names are legal, its path names differ and none is
  taken.  Every module and member gets its path name, in the order of creation; the stacks of objects and of name objects are
  as before; every module was ended and is registered, in the order of creation; and the tables and child lists are consistent.\<close>

theorem design_constructed:
  "module_ok s \<Longrightarrow> legal d \<Longrightarrow> distinct (paths (active_path s) d) \<Longrightarrow> list_all (\<lambda>n. \<not> name_exists (hi_table s) n) (paths (active_path s) d) \<Longrightarrow>
    \<exists>s'. build d s = Inr s' \<and> hierarchy_ok s' \<and> m_object_stack s' = m_object_stack s \<and> m_module_name_stack s' = m_module_name_stack s \<and>
      map (obj_name s') [hi_next s..<hi_next s'] = map Some (paths (active_path s) d) \<and>
      m_module_vec s' = m_module_vec s @ filter (\<lambda>m. ms_modules s' m \<noteq> None) [hi_next s..<hi_next s'] \<and>
      list_all (\<lambda>m. case ms_modules s' m of None \<Rightarrow> True | Some x \<Rightarrow> m_end_module_called x \<and> m_module_name_p x = None) [hi_next s..<hi_next s']"
proof -
  assume a: "module_ok s" "legal d" "distinct (paths (active_path s) d)" "list_all (\<lambda>n. \<not> name_exists (hi_table s) n) (paths (active_path s) d)"
  obtain s' where s': "build d s = Inr s'" "built s s' (paths (active_path s) d)" using build_names(1) [OF a] by blast
  have e: "ms_modules s' m = None \<or> ms_modules s' m = Some \<lparr>m_end_module_called = True, m_module_name_p = None\<rparr>" if "hi_next s \<le> m" for m
    using s'(2) that by (simp add: built_def)
  have "(case ms_modules s' m of None \<Rightarrow> True | Some x \<Rightarrow> m_end_module_called x \<and> m_module_name_p x = None)" if "hi_next s \<le> m" for m
    using e [OF that] by auto
  then have "list_all (\<lambda>m. case ms_modules s' m of None \<Rightarrow> True | Some x \<Rightarrow> m_end_module_called x \<and> m_module_name_p x = None) [hi_next s..<hi_next s']"
    by (simp add: list_all_iff)
  then show ?thesis using s' by (intro exI [of _ s']) (simp add: built_def module_ok_def)
qed

definition elaboration_start :: module_state where
  "elaboration_start = hierarchy.extend hierarchy_new (module_state.fields Map.empty 0 [] Map.empty [] False)"

definition example_design :: design where
  "example_design = Instance ''cpu'' [Item ''clk'', Instance ''alu'' [Item ''out''], Instance ''mem'' []]"

lemma elaboration_start_ok: "module_ok elaboration_start"
proof -
  have "hierarchy_ok elaboration_start"
    by (auto simp: elaboration_start_def hierarchy.defs module_state.defs hierarchy_ok_def names_ok_def tree_ok_def refs_ok_def path_ok_def hierarchy_new_def
        table_ok_def view_defs find_event_def find_object_def find_of_def split: option.split)
  then show ?thesis by (simp add: module_ok_def elaboration_start_def hierarchy.defs module_state.defs hierarchy_new_def)
qed

lemma example_legal: "legal example_design" "distinct (paths (active_path elaboration_start) example_design)"
  "list_all (\<lambda>n. \<not> name_exists (hi_table elaboration_start) n) (paths (active_path elaboration_start) example_design)"
  by code_simp+

lemma design_constructed_witness:
  "\<exists>s'. build example_design elaboration_start = Inr s' \<and>
    map (obj_name s') [0..<hi_next s'] = map Some [''cpu'', ''cpu.clk'', ''cpu.alu'', ''cpu.alu.out'', ''cpu.mem'']"
proof -
  have p: "paths (active_path elaboration_start) example_design = [''cpu'', ''cpu.clk'', ''cpu.alu'', ''cpu.alu.out'', ''cpu.mem'']" by code_simp
  have "hi_next elaboration_start = 0" by code_simp
  then show ?thesis using design_constructed [OF elaboration_start_ok example_legal] unfolding p by metis
qed

lemma named_same:
  assumes "sc_object_named nm h = Inr (ob, h')"
  shows "hi_running h' = hi_running h \<and> hierarchy.more h' = hierarchy.more h"
proof -
  obtain l h1 where g: "(if nm = [] then sc_gen_unique_name ''object'' False h else Inr (nm, h)) = Inr (l, h1)"
    using assms by (cases "if nm = [] then sc_gen_unique_name ''object'' False h else Inr (nm, h)") (auto simp: sc_object_named_def)
  then have h1: "hi_running h1 = hi_running h" "hierarchy.more h1 = hierarchy.more h"
    by (auto split: if_splits dest!: unique_name_shape)
  have "sc_object_init (map (\<lambda>c. if object_name_illegal_char c then CHR ''_'' else c) l) h1 = Inr (ob, h')"
    using assms unfolding sc_object_named_def g by simp
  then show ?thesis by (rule init_shape) (simp add: h1)
qed

text \<open>A module without a name object, a module after the elaboration, a name object that ends while a younger one lives.\<close>

lemma no_name_object: "m_module_name_stack s = [] \<Longrightarrow> sc_module_new s = Inl (ReportError SC_ID_MODULE_NAME_STACK_EMPTY)"
  by (simp add: sc_module_new_def top_of_module_name_stack_def)

lemma new_module_cases:
  assumes "m_module_name_stack s = j # js"
  shows "sc_module_new s = (case sc_object_named (mn_name (the_module_name s j)) s of Inl e \<Rightarrow> Inl e
    | Inr (m, s1) \<Rightarrow> if m_module_p (the_module_name s j) \<noteq> None then Inl (ReportError SC_ID_SC_MODULE_NAME_REQUIRED)
        else if hi_running s \<or> m_elaborated s then Inl (ReportError SC_ID_INSERT_MODULE)
        else Inr (m, s1\<lparr>m_module_vec := m_module_vec s @ [m], m_object_stack := m_object_stack s1 @ [m],
          ms_names := (ms_names s)(j := map_option (m_module_p_update (\<lambda>_. Some m)) (ms_names s j)),
          ms_modules := (ms_modules s)(m \<mapsto> \<lparr>m_end_module_called = False, m_module_name_p = Some j\<rparr>)\<rparr>))"
proof (cases "sc_object_named (mn_name (the_module_name s j)) s")
  case (Inl e)
  then show ?thesis using assms by (simp add: sc_module_new_def top_of_module_name_stack_def)
next
  case (Inr r)
  obtain m s1 where r: "r = (m, s1)" by fastforce
  have m: "hi_running s1 = hi_running s" "hierarchy.more s1 = hierarchy.more s" using named_same [of _ s m s1] Inr r by auto
  note more = more_same [OF m(2)]
  have n: "the_module_name s1 = the_module_name s" by (simp add: the_module_name_def more fun_eq_iff)
  have st: "m_module_name_stack s1 = j # js" using more assms by simp
  have init: "sc_module_init m s1 = (if hi_running s \<or> m_elaborated s then Inl (ReportError SC_ID_INSERT_MODULE)
    else Inr (s1\<lparr>m_module_vec := m_module_vec s @ [m], m_object_stack := m_object_stack s1 @ [m],
      ms_modules := (ms_modules s)(m \<mapsto> \<lparr>m_end_module_called = False, m_module_name_p = None\<rparr>)\<rparr>))"
    unfolding sc_module_init_def module_registry_insert_def hierarchy_push_def more m(1) Let_def by (simp add: more)
  show ?thesis unfolding sc_module_new_def top_of_module_name_stack_def assms list.case rbind_Inr Inr r prod.case st n init sum.case
    by (simp add: set_module_def the_module_def more Let_def)
qed

lemma module_too_late: "m_module_name_stack s = j # js \<Longrightarrow> hi_running s \<or> m_elaborated s \<Longrightarrow> \<exists>e. sc_module_new s = Inl e"
  by (auto simp: new_module_cases split: sum.split)

lemma names_nest: "m_pushed (the_module_name s i) \<Longrightarrow> m_module_name_stack s = j # js \<Longrightarrow> i \<noteq> j \<Longrightarrow>
    module_name_delete i s = Inl (ReportError SC_ID_SC_MODULE_NAME_USE)"
  by (simp add: module_name_delete_def pop_module_name_def)

text \<open>One name object makes one module: where a module was just made from the name object on top of the stack, a second
  module that would take the same one is never built.\<close>

theorem one_module_per_name:
  "m_module_name_stack s = j # js \<Longrightarrow> ms_names s j = Some n \<Longrightarrow> sc_module_new s = Inr (m, s') \<Longrightarrow> \<exists>e. sc_module_new s' = Inl e"
proof -
  assume st: "m_module_name_stack s = j # js" and n: "ms_names s j = Some n" and r: "sc_module_new s = Inr (m, s')"
  obtain k s1 where s1: "sc_object_named (mn_name (the_module_name s j)) s = Inr (k, s1)" and
    s': "s' = s1\<lparr>m_module_vec := m_module_vec s @ [m], m_object_stack := m_object_stack s1 @ [m],
          ms_names := (ms_names s)(j := map_option (m_module_p_update (\<lambda>_. Some m)) (ms_names s j)),
          ms_modules := (ms_modules s)(m \<mapsto> \<lparr>m_end_module_called = False, m_module_name_p = Some j\<rparr>)\<rparr>"
    using r unfolding new_module_cases [OF st]
    by (cases "sc_object_named (mn_name (the_module_name s j)) s") (auto split: if_splits)
  have "m_module_name_stack s1 = j # js" using named_same [OF s1] more_same(3) st by metis
  then have "m_module_name_stack s' = j # js" "m_module_p (the_module_name s' j) \<noteq> None"
    unfolding s' by (simp_all add: the_module_name_def n)
  then show ?thesis by (auto simp: new_module_cases split: sum.split)
qed

lemma one_module_per_name_witness:
  "(let s = snd (module_name_new ''a'' elaboration_start) in m_module_name_stack s = [0] \<and>
    (case sc_module_new s of Inl _ \<Rightarrow> False | Inr (m, s') \<Rightarrow> isl (sc_module_new s')))"
proof -
  let ?s = "snd (module_name_new ''a'' elaboration_start)"
  have st: "m_module_name_stack ?s = [0]" by code_simp
  have n: "ms_names ?s 0 = Some \<lparr>mn_name = ''a'', m_module_p = None, m_pushed = True\<rparr>" by code_simp
  have "isl (sc_module_new ?s) = False" by code_simp
  then obtain m s' where r: "sc_module_new ?s = Inr (m, s')" by (cases "sc_module_new ?s") auto
  from one_module_per_name [OF st n r] show ?thesis using st r by auto
qed

lemma detach_vec: "detach m (s\<lparr>m_module_vec := v\<rparr>) = (detach m s)\<lparr>m_module_vec := v\<rparr>"
  by (simp add: detach_def remove_child_object_def set_object_def the_object_def Let_def split: option.split prod.split)

lemma module_delete_is:
  assumes "ms_modules s m = Some \<lparr>m_end_module_called = True, m_module_name_p = None\<rparr>" and "take_child m (m_module_vec s) = (True, v)"
  shows "module_delete m s = Inr ((object_delete m s)\<lparr>m_module_vec := v, ms_modules := (ms_modules s)(m := None)\<rparr>)"
proof -
  let ?o = "orphan_child_objects m s"
  have o: "ms_modules ?o = ms_modules s" "m_module_vec ?o = m_module_vec s" by (simp_all add: orphan_child_objects_def orphan_effect)
  have d: "ms_modules (detach m ?o) = ms_modules s"
    by (simp add: detach_def remove_child_object_def set_object_def Let_def o split: option.split prod.split)
  have a: "m_module_name_p (the_module ?o m) = None" by (simp add: the_module_def o assms(1))
  have r: "module_registry_remove m ?o = Inr (?o\<lparr>m_module_vec := v\<rparr>)" by (simp add: module_registry_remove_def o assms(2))
  have "module_delete m s = (let s = detach m (?o\<lparr>m_module_vec := v\<rparr>) in
      Inr (s\<lparr>hi_objects := (hi_objects s)(m := None), ms_modules := (ms_modules s)(m := None)\<rparr>))"
    by (simp add: module_delete_def a r)
  also have "\<dots> = Inr ((object_delete m s)\<lparr>m_module_vec := v, ms_modules := (ms_modules s)(m := None)\<rparr>)"
    unfolding detach_vec object_delete_def Let_def by (simp add: d)
  finally show ?thesis .
qed

text \<open>C31: Destroying a module whose construction ended succeeds: exactly the module leaves the table and the registry, its
  children become children of the context under the names they had, and the names and trees stay consistent.\<close>

theorem module_destroyed:
  "hierarchy_ok s \<Longrightarrow> hi_objects s m \<noteq> None \<Longrightarrow> ms_modules s m = Some \<lparr>m_end_module_called = True, m_module_name_p = None\<rparr> \<Longrightarrow>
    distinct (m_module_vec s) \<Longrightarrow> m \<in> set (m_module_vec s) \<Longrightarrow> m \<notin> set (m_object_stack s) \<Longrightarrow> hi_process s \<noteq> Some m \<Longrightarrow>
    \<exists>s'. module_delete m s = Inr s' \<and> hierarchy_ok s' \<and> obj_name s' = (obj_name s)(m := None) \<and> set (m_module_vec s') = set (m_module_vec s) - {m} \<and>
      set (kids s' None) = set (kids s None) - {m} \<union> set (kids s (Some m))"
proof -
  assume ok: "hierarchy_ok s" and ob: "hi_objects s m \<noteq> None" and md: "ms_modules s m = Some \<lparr>m_end_module_called = True, m_module_name_p = None\<rparr>"
    and vec: "distinct (m_module_vec s)" "m \<in> set (m_module_vec s)" and st: "m \<notin> set (m_object_stack s)" "hi_process s \<noteq> Some m"
  obtain x where x: "hi_objects s m = Some x" using ob by auto
  obtain v where v: "take_child m (m_module_vec s) = (True, v)" "set v = set (m_module_vec s) - {m}" using take_child_in [OF vec] by blast
  let ?s = "(object_delete m s)\<lparr>m_module_vec := v, ms_modules := (ms_modules s)(m := None)\<rparr>"
  have k: "kids ?s None = kids (object_delete m s) None" by (simp add: kids_def)
  have "hierarchy_ok ?s" using object_delete_ok [OF x ok st] by simp
  moreover have "obj_name ?s = (obj_name s)(m := None)" using delete_views(7) [OF x ok] by simp
  moreover have "set (kids ?s None) = set (kids s None) - {m} \<union> set (kids s (Some m))" using delete_views(9) [OF x ok, of None] unfolding k by simp
  ultimately show ?thesis using module_delete_is [OF md v(1)] v(2) by auto
qed

definition small_design :: design where
  "small_design = Instance ''cpu'' [Item ''clk'']"

definition built_example :: module_state where
  "built_example = (case build small_design elaboration_start of Inl _ \<Rightarrow> elaboration_start | Inr s \<Rightarrow> s)"

lemma small_legal: "legal small_design" "distinct (paths (active_path elaboration_start) small_design)"
  "list_all (\<lambda>n. \<not> name_exists (hi_table elaboration_start) n) (paths (active_path elaboration_start) small_design)"
  by code_simp+

lemma built_example_ok: "hierarchy_ok built_example"
  using build_names(1) [OF elaboration_start_ok small_legal] by (auto simp: built_example_def built_def module_ok_def)

lemma built_example_module: "ms_modules built_example 0 = Some \<lparr>m_end_module_called = True, m_module_name_p = None\<rparr>"
proof -
  have "map_option (\<lambda>x. (m_end_module_called x, m_module_name_p x)) (ms_modules built_example 0) = Some (True, None)" by code_simp
  then show ?thesis by auto
qed

lemma module_destroyed_witness:
  "m_module_vec built_example = [0] \<and> kids built_example (Some 0) = [1] \<and>
    (\<exists>s'. module_delete 0 built_example = Inr s' \<and> hierarchy_ok s' \<and> set (kids s' None) = {1})"
proof -
  have f1: "m_module_vec built_example = [0]" by code_simp
  have f2: "kids built_example (Some 0) = [1]" by code_simp
  have f3: "kids built_example None = [0]" by code_simp
  have f4: "m_object_stack built_example = []" by code_simp
  have f5: "hi_process built_example = None" by code_simp
  have "\<not> Option.is_none (hi_objects built_example 0)" by code_simp
  then have f6: "hi_objects built_example 0 \<noteq> None" by (simp add: Option.is_none_def)
  note f = f1 f2 f3 f4 f5
  from module_destroyed [OF built_example_ok f6 built_example_module] show ?thesis by (auto simp: f)
qed

end
