(* ===== verification/Sc_Report.thy ===== *)
theory Sc_Report
  imports Sc_Ids "HOL-Library.Word"
begin

text \<open>
  \<open>sc_report_handler.cpp\<close>: what a report does.  The table of message definitions, actions and limits per message, per severity and
  per both, the masks, the counters, and the default handler, which displays, logs, stops, aborts or throws.  An exception or an
  abort is a value beside the state, so that what the handler did before stays visible; a report that never returns is \<open>None\<close>.
  Handlers of the user, the text of a printed report and integer identifiers are not modelled.
\<close>

unbundle bit_operations_syntax

section \<open>Severities, actions, reports\<close>

datatype sc_severity = SC_INFO | SC_WARNING | SC_ERROR | SC_FATAL

fun severity_number :: "sc_severity \<Rightarrow> nat" where
  "severity_number SC_INFO = 0"
| "severity_number SC_WARNING = 1"
| "severity_number SC_ERROR = 2"
| "severity_number SC_FATAL = 3"

type_synonym sc_actions = "32 word"

definition SC_MEDIUM :: int where "SC_MEDIUM = 200"

definition SC_UNSPECIFIED :: sc_actions where "SC_UNSPECIFIED = 0x00"
definition SC_DO_NOTHING :: sc_actions where "SC_DO_NOTHING = 0x01"
definition SC_THROW :: sc_actions where "SC_THROW = 0x02"
definition SC_LOG :: sc_actions where "SC_LOG = 0x04"
definition SC_DISPLAY :: sc_actions where "SC_DISPLAY = 0x08"
definition SC_CACHE_REPORT :: sc_actions where "SC_CACHE_REPORT = 0x10"
definition SC_INTERRUPT :: sc_actions where "SC_INTERRUPT = 0x20"
definition SC_STOP :: sc_actions where "SC_STOP = 0x40"
definition SC_ABORT :: sc_actions where "SC_ABORT = 0x80"

lemmas action_defs = SC_UNSPECIFIED_def SC_DO_NOTHING_def SC_THROW_def SC_LOG_def SC_DISPLAY_def SC_CACHE_REPORT_def SC_INTERRUPT_def
  SC_STOP_def SC_ABORT_def

fun default_actions :: "sc_severity \<Rightarrow> sc_actions" where
  "default_actions SC_INFO = SC_LOG OR SC_DISPLAY"
| "default_actions SC_WARNING = SC_LOG OR SC_DISPLAY"
| "default_actions SC_ERROR = SC_LOG OR SC_CACHE_REPORT OR SC_THROW"
| "default_actions SC_FATAL = SC_LOG OR SC_DISPLAY OR SC_CACHE_REPORT OR SC_ABORT"

definition UINT_MAX :: "32 word" where "UINT_MAX = -1"

record sc_msg_def =
  msg_type :: string
  md_actions :: sc_actions
  md_sev_actions :: "sc_severity \<Rightarrow> sc_actions"
  md_limit :: "32 word"
  md_sev_limit :: "sc_severity \<Rightarrow> 32 word"
  limit_mask :: "32 word"
  md_call_count :: "32 word"
  md_sev_call_count :: "sc_severity \<Rightarrow> 32 word"
  md_id :: int

record sc_report =
  severity :: sc_severity
  rep_type :: string
  rep_msg :: string
  rep_file :: string
  rep_line :: int
  timestamp :: "64 word"
  rep_process :: "nat option"
  m_verbosity_level :: int

text \<open>
  The static members of the handler, the stream of the log, the flags that \<open>sc_stop\<close> uses, and what was printed.  The list of
  groups of message definitions ends with the predefined messages, which are kept apart.
\<close>

record reports =
  suppress_mask :: sc_actions
  force_mask :: sc_actions
  sev_actions :: "sc_severity \<Rightarrow> sc_actions"
  sev_limit :: "sc_severity \<Rightarrow> 32 word"
  sev_call_count :: "sc_severity \<Rightarrow> 32 word"
  messages :: "(bool \<times> sc_msg_def list) list"
  msg_terminator :: "sc_msg_def list"
  last_global_report :: "sc_report option"
  last_report :: "nat \<Rightarrow> sc_report option"
  available_actions :: sc_actions
  catch_actions :: sc_actions
  verbosity_level :: int
  log_file_name :: "string option"
  log_open :: "string option"
  log_name :: string
  r_process :: "nat option"
  r_time :: "64 word"
  r_forced_stop :: bool
  stop_warning_issued :: bool
  r_displayed :: "sc_report list"
  r_logged :: "(string \<times> sc_report) list"
  r_interrupts :: "(string \<times> sc_severity) list"

section \<open>Message definitions\<close>

definition SC_ID_UNKNOWN_ERROR :: string where "SC_ID_UNKNOWN_ERROR = ''unknown error''"
definition SC_ID_ABORT :: string where "SC_ID_ABORT = ''simulation aborted''"
definition SC_ID_ASSERTION_FAILED :: string where "SC_ID_ASSERTION_FAILED = ''assertion failed''"
definition SC_ID_SIMULATION_STOP_CALLED_TWICE :: string where "SC_ID_SIMULATION_STOP_CALLED_TWICE = ''sc_stop has already been called''"

definition new_msg_def :: "string \<Rightarrow> int \<Rightarrow> sc_msg_def" where
  "new_msg_def t i = \<lparr>msg_type = t, md_actions = 0, md_sev_actions = (\<lambda>_. 0), md_limit = 0, md_sev_limit = (\<lambda>_. 0), limit_mask = 0,
     md_call_count = 0, md_sev_call_count = (\<lambda>_. 0), md_id = i\<rparr>"

definition default_msgs :: "sc_msg_def list" where
  "default_msgs = [new_msg_def ''register_id failed'' 800, new_msg_def SC_ID_UNKNOWN_ERROR 0, new_msg_def '''' 1, new_msg_def ''not implemented'' 2,
     new_msg_def ''internal error'' 3, new_msg_def SC_ID_ASSERTION_FAILED 4, new_msg_def ''out of bounds'' 5, new_msg_def SC_ID_ABORT 99]"

definition all_msgs :: "reports \<Rightarrow> sc_msg_def list" where
  "all_msgs h = concat (map snd (messages h)) @ msg_terminator h"

definition message_name :: "string option \<Rightarrow> string" where
  "message_name t = (case t of None \<Rightarrow> SC_ID_UNKNOWN_ERROR | Some t \<Rightarrow> t)"

definition mdlookup :: "string option \<Rightarrow> reports \<Rightarrow> sc_msg_def option" where
  "mdlookup t h = find (\<lambda>d. msg_type d = message_name t) (all_msgs h)"

text \<open>A change of the definition that the look-up returns.\<close>

fun update_first :: "string \<Rightarrow> (sc_msg_def \<Rightarrow> sc_msg_def) \<Rightarrow> sc_msg_def list \<Rightarrow> sc_msg_def list" where
  "update_first t f [] = []"
| "update_first t f (d # ds) = (if msg_type d = t then f d # ds else d # update_first t f ds)"

fun update_groups :: "string \<Rightarrow> (sc_msg_def \<Rightarrow> sc_msg_def) \<Rightarrow> (bool \<times> sc_msg_def list) list \<Rightarrow> (bool \<times> sc_msg_def list) list \<times> bool" where
  "update_groups t f [] = ([], False)"
| "update_groups t f ((a, ds) # gs) =
     (if list_ex (\<lambda>d. msg_type d = t) ds then ((a, update_first t f ds) # gs, True)
      else let (gs, done) = update_groups t f gs in ((a, ds) # gs, done))"

definition update_md :: "string \<Rightarrow> (sc_msg_def \<Rightarrow> sc_msg_def) \<Rightarrow> reports \<Rightarrow> reports" where
  "update_md t f h =
     (let (gs, done) = update_groups t f (messages h) in
      h\<lparr>messages := gs, msg_terminator := (if done then msg_terminator h else update_first t f (msg_terminator h))\<rparr>)"

definition add_static_msg_types :: "sc_msg_def list \<Rightarrow> reports \<Rightarrow> reports" where
  "add_static_msg_types ds h = h\<lparr>messages := (False, ds) # messages h\<rparr>"

definition add_msg_type :: "string option \<Rightarrow> reports \<Rightarrow> reports" where
  "add_msg_type t h =
     (case mdlookup t h of Some _ \<Rightarrow> h | None \<Rightarrow> if message_name t = [] then h
      else h\<lparr>messages := (True, [new_msg_def (message_name t) (- 1)]) # messages h\<rparr>)"

section \<open>Settings\<close>

text \<open>Each setting returns the old value.  A message that is not known is added; one without a text cannot be, and the code then
  follows a null pointer.\<close>

definition with_md :: "string option \<Rightarrow> (sc_msg_def \<Rightarrow> 'a) \<Rightarrow> (sc_msg_def \<Rightarrow> sc_msg_def) \<Rightarrow> reports \<Rightarrow> ('a \<times> reports) res" where
  "with_md t old f h =
     (let h = add_msg_type t h in case mdlookup t h of None \<Rightarrow> Inl NullPointer | Some d \<Rightarrow> Inr (old d, update_md (message_name t) f h))"

definition set_severity_actions :: "sc_severity \<Rightarrow> sc_actions \<Rightarrow> reports \<Rightarrow> sc_actions \<times> reports" where
  "set_severity_actions s a h = (sev_actions h s, h\<lparr>sev_actions := (sev_actions h)(s := a)\<rparr>)"

definition set_message_actions :: "string option \<Rightarrow> sc_actions \<Rightarrow> reports \<Rightarrow> (sc_actions \<times> reports) res" where
  "set_message_actions t a = with_md t md_actions (md_actions_update (\<lambda>_. a))"

definition set_both_actions :: "string option \<Rightarrow> sc_severity \<Rightarrow> sc_actions \<Rightarrow> reports \<Rightarrow> (sc_actions \<times> reports) res" where
  "set_both_actions t s a = with_md t (\<lambda>d. md_sev_actions d s) (md_sev_actions_update (\<lambda>g. g(s := a)))"

definition stop_after_severity :: "sc_severity \<Rightarrow> int \<Rightarrow> reports \<Rightarrow> int \<times> reports" where
  "stop_after_severity s limit h =
     (sint (sev_limit h s), h\<lparr>sev_limit := (sev_limit h)(s := if limit < 0 then UINT_MAX else word_of_int limit)\<rparr>)"

definition stop_after_message :: "string option \<Rightarrow> int \<Rightarrow> reports \<Rightarrow> (int \<times> reports) res" where
  "stop_after_message t limit = with_md t (\<lambda>d. sint (if limit_mask d AND 1 \<noteq> 0 then md_limit d else UINT_MAX))
     (\<lambda>d. if limit < 0 then d\<lparr>limit_mask := limit_mask d AND NOT 1\<rparr>
          else d\<lparr>limit_mask := limit_mask d OR 1, md_limit := word_of_int limit\<rparr>)"

definition severity_bit :: "sc_severity \<Rightarrow> 32 word" where
  "severity_bit s = push_bit (severity_number s + 1) 1"

definition stop_after_both :: "string option \<Rightarrow> sc_severity \<Rightarrow> int \<Rightarrow> reports \<Rightarrow> (int \<times> reports) res" where
  "stop_after_both t s limit = with_md t (\<lambda>d. sint (if limit_mask d AND severity_bit s \<noteq> 0 then md_sev_limit d s else UINT_MAX))
     (\<lambda>d. if limit < 0 then d\<lparr>limit_mask := limit_mask d AND NOT (severity_bit s)\<rparr>
          else d\<lparr>limit_mask := limit_mask d OR severity_bit s, md_sev_limit := (md_sev_limit d)(s := word_of_int limit)\<rparr>)"

definition suppress :: "sc_actions \<Rightarrow> reports \<Rightarrow> sc_actions \<times> reports" where
  "suppress m h = (suppress_mask h, h\<lparr>suppress_mask := m\<rparr>)"

definition force :: "sc_actions \<Rightarrow> reports \<Rightarrow> sc_actions \<times> reports" where
  "force m h = (force_mask h, h\<lparr>force_mask := m\<rparr>)"

definition set_catch_actions :: "sc_actions \<Rightarrow> reports \<Rightarrow> sc_actions \<times> reports" where
  "set_catch_actions a h = (catch_actions h, h\<lparr>catch_actions := a\<rparr>)"

definition set_verbosity_level :: "int \<Rightarrow> reports \<Rightarrow> int \<times> reports" where
  "set_verbosity_level v h = (verbosity_level h, h\<lparr>verbosity_level := v\<rparr>)"

definition get_severity_count :: "sc_severity \<Rightarrow> reports \<Rightarrow> int" where
  "get_severity_count s h = sint (sev_call_count h s)"

definition get_message_count :: "string option \<Rightarrow> reports \<Rightarrow> (int \<times> reports) res" where
  "get_message_count t = with_md t (\<lambda>d. sint (md_call_count d)) id"

definition get_both_count :: "string option \<Rightarrow> sc_severity \<Rightarrow> reports \<Rightarrow> (int \<times> reports) res" where
  "get_both_count t s = with_md t (\<lambda>d. sint (md_sev_call_count d s)) id"

text \<open>A free bit for an action of the user: the loop shifts until the bit leaves the word.\<close>

fun find_action :: "nat \<Rightarrow> sc_actions \<Rightarrow> sc_actions \<Rightarrow> sc_actions" where
  "find_action 0 p used = SC_UNSPECIFIED"
| "find_action (Suc n) p used = (if p = 0 then SC_UNSPECIFIED else if p AND used = 0 then p else find_action n (push_bit 1 p) used)"

definition get_new_action_id :: "reports \<Rightarrow> sc_actions \<times> reports" where
  "get_new_action_id h = (let p = find_action 33 1 (available_actions h) in (p, h\<lparr>available_actions := available_actions h OR p\<rparr>))"

definition reset_counts :: "sc_msg_def \<Rightarrow> sc_msg_def" where
  "reset_counts d = d\<lparr>md_call_count := 0, md_sev_call_count := (\<lambda>_. 0)\<rparr>"

text \<open>The environment can switch the messages of deprecated features off.\<close>

definition report_initialize :: "bool \<Rightarrow> reports \<Rightarrow> reports" where
  "report_initialize disabled h =
     (let h = h\<lparr>sev_call_count := (\<lambda>_. 0), messages := map (\<lambda>(a, ds). (a, map reset_counts ds)) (messages h)\<rparr> in
      if disabled then (case set_message_actions (Some ''/IEEE_Std_1666/deprecated'') SC_DO_NOTHING h of Inl e \<Rightarrow> h | Inr (old, h) \<Rightarrow> h) else h)"

section \<open>The log file\<close>

definition log_release :: "reports \<Rightarrow> bool \<times> reports" where
  "log_release h = (if log_open h \<noteq> None then (False, h\<lparr>log_open := None, log_name := []\<rparr>) else (True, h))"

definition update_file_name :: "string option \<Rightarrow> reports \<Rightarrow> reports" where
  "update_file_name name h =
     (case name of None \<Rightarrow> snd (log_release h)
      | Some f \<Rightarrow> if log_name h = [] then h\<lparr>log_name := f, log_open := Some f\<rparr>
        else if log_name h \<noteq> f then let h = snd (log_release h) in h\<lparr>log_name := f, log_open := Some f\<rparr> else h)"

definition set_log_file_name :: "string option \<Rightarrow> reports \<Rightarrow> bool \<times> reports" where
  "set_log_file_name name h =
     (case name of None \<Rightarrow> (False, h\<lparr>log_file_name := None\<rparr>)
      | Some f \<Rightarrow> if log_file_name h \<noteq> None then (False, h) else (True, h\<lparr>log_file_name := Some f\<rparr>))"

definition sc_report_close_default_log :: "reports \<Rightarrow> bool \<times> reports" where
  "sc_report_close_default_log h = (let (ret, h) = log_release h in (ret, snd (set_log_file_name None h)))"

definition report_release :: "reports \<Rightarrow> reports" where
  "report_release h =
     (let h = snd (sc_report_close_default_log (h\<lparr>last_global_report := None\<rparr>)) in h\<lparr>messages := rev (filter (\<lambda>(a, ds). \<not> a) (messages h))\<rparr>)"

section \<open>A report\<close>

definition cache_report :: "sc_report \<Rightarrow> reports \<Rightarrow> reports" where
  "cache_report rep h =
     (case r_process h of Some p \<Rightarrow> h\<lparr>last_report := (last_report h)(p \<mapsto> rep)\<rparr> | None \<Rightarrow> h\<lparr>last_global_report := Some rep\<rparr>)"

definition get_cached_report :: "reports \<Rightarrow> sc_report option" where
  "get_cached_report h = (case r_process h of Some p \<Rightarrow> last_report h p | None \<Rightarrow> last_global_report h)"

definition clear_cached_report :: "reports \<Rightarrow> reports" where
  "clear_cached_report h =
     (case r_process h of Some p \<Rightarrow> h\<lparr>last_report := (last_report h)(p := None)\<rparr> | None \<Rightarrow> h\<lparr>last_global_report := None\<rparr>)"

definition count_up :: "32 word \<Rightarrow> 32 word" where
  "count_up c = (if c < UINT_MAX then c + 1 else c)"

text \<open>The actions of a report: the setting for message and severity, else for the message, else for the severity; the masks; and
  a stop when the limit is reached, which is looked for in the same order.\<close>

definition execute :: "string option \<Rightarrow> sc_severity \<Rightarrow> reports \<Rightarrow> (sc_actions \<times> reports) res" where
  "execute t s h =
     (case mdlookup t h of None \<Rightarrow> Inl NullPointer
      | Some d \<Rightarrow>
          let actions = md_sev_actions d s;
              actions = (if SC_UNSPECIFIED = actions then md_actions d else actions);
              actions = (if SC_UNSPECIFIED = actions then sev_actions h s else actions);
              actions = (actions AND NOT (suppress_mask h)) OR force_mask h;
              d = d\<lparr>md_sev_call_count := (md_sev_call_count d)(s := count_up (md_sev_call_count d s)), md_call_count := count_up (md_call_count d)\<rparr>;
              h = (update_md (message_name t) (\<lambda>_. d) h)\<lparr>sev_call_count := (sev_call_count h)(s := count_up (sev_call_count h s))\<rparr>;
              (limit, call_count) = (if limit_mask d AND severity_bit s \<noteq> 0 then (md_sev_limit d s, md_sev_call_count d s)
                else if limit_mask d AND 1 \<noteq> 0 then (md_limit d, md_call_count d) else (sev_limit h s, sev_call_count h s))
          in Inr (if limit = 0 then actions else if limit \<noteq> UINT_MAX \<and> limit \<le> call_count then actions OR SC_STOP else actions, h))"

definition prepare :: "sc_severity \<Rightarrow> string option \<Rightarrow> string \<Rightarrow> int \<Rightarrow> string \<Rightarrow> int \<Rightarrow> reports \<Rightarrow> ((sc_report \<times> sc_actions) option \<times> reports) res" where
  "prepare s t msg verbosity file line h =
     (if s = SC_INFO \<and> verbosity_level h < verbosity then Inr (None, h)
      else rbind (execute t s (add_msg_type t h)) (\<lambda>(actions, h).
        let rep = \<lparr>severity = s, rep_type = message_name t, rep_msg = msg, rep_file = file, rep_line = line, timestamp = r_time h,
              rep_process = r_process h, m_verbosity_level = verbosity\<rparr>
        in Inr (Some (rep, actions), if actions AND SC_CACHE_REPORT \<noteq> 0 then cache_report rep h else h)))"

definition display_and_log :: "sc_report \<Rightarrow> sc_actions \<Rightarrow> reports \<Rightarrow> reports" where
  "display_and_log rep actions h =
     (let h = (if actions AND SC_DISPLAY \<noteq> 0 then h\<lparr>r_displayed := r_displayed h @ [rep]\<rparr> else h) in
      if actions AND SC_LOG \<noteq> 0 \<and> log_file_name h \<noteq> None
      then let h = update_file_name (log_file_name h) h in case log_open h of None \<Rightarrow> h | Some f \<Rightarrow> h\<lparr>r_logged := r_logged h @ [(f, rep)]\<rparr>
      else h)"

text \<open>
  The default handler.  A stop sets the flag of the simulation context (what else \<open>stop\<close> does there is in \<open>Sc_Simulate\<close>) and after the
  first one reports a warning, once; an abort reports that the simulation is aborted.  Processes that are being killed, whose unwinding a throw
  ends, are not modelled.  The
  result is the exception or the abort, none where the handler returns, beside the state.
\<close>

definition nothing :: "reports \<Rightarrow> (fault option \<times> reports) option" where
  "nothing h = Some (None, h)"

partial_function (option) default_handler :: "sc_report \<Rightarrow> sc_actions \<Rightarrow> reports \<Rightarrow> (fault option \<times> reports) option" where
  "default_handler rep actions h0 =
     Option.bind
       (let h = display_and_log rep actions h0 in
        if actions AND SC_STOP = 0 then nothing h
        else if r_forced_stop h then
          (if stop_warning_issued h then nothing h
           else case prepare SC_WARNING (Some SC_ID_SIMULATION_STOP_CALLED_TWICE) [] SC_MEDIUM ''sc_simcontext.cpp'' 1011 (h\<lparr>stop_warning_issued := True\<rparr>) of
             Inl e \<Rightarrow> Some (Some e, h)
           | Inr (r, h) \<Rightarrow> (case r of None \<Rightarrow> nothing h | Some ra \<Rightarrow> default_handler (fst ra) (snd ra) h))
        else nothing (h\<lparr>r_forced_stop := True\<rparr>))
       (\<lambda>eh. if fst eh \<noteq> None then Some eh
         else
           (let h = (if actions AND SC_INTERRUPT \<noteq> 0 then (snd eh)\<lparr>r_interrupts := r_interrupts (snd eh) @ [(rep_type rep, severity rep)]\<rparr> else snd eh) in
            if actions AND SC_ABORT \<noteq> 0 then
              Option.bind
                (case prepare SC_INFO (Some SC_ID_ABORT) [] SC_MEDIUM ''sc_report_handler.cpp'' 833 h of
                   Inl e \<Rightarrow> Some (Some e, h)
                 | Inr (r, h) \<Rightarrow> (case r of None \<Rightarrow> nothing h | Some ra \<Rightarrow> default_handler (fst ra) (snd ra) h))
                (\<lambda>eh. if fst eh \<noteq> None then Some eh else Some (Some Aborted, snd eh))
            else if actions AND SC_THROW \<noteq> 0 then Some (Some (ReportError (rep_type rep)), h)
            else nothing h))"

definition report :: "sc_severity \<Rightarrow> string option \<Rightarrow> string \<Rightarrow> int \<Rightarrow> string \<Rightarrow> int \<Rightarrow> reports \<Rightarrow> (fault option \<times> reports) option" where
  "report s t msg verbosity file line h =
     (case prepare s t msg verbosity file line h of
        Inl e \<Rightarrow> Some (Some e, h)
      | Inr (None, h) \<Rightarrow> Some (None, h)
      | Inr (Some (rep, actions), h) \<Rightarrow> default_handler rep actions h)"

definition report_plain :: "sc_severity \<Rightarrow> string option \<Rightarrow> string \<Rightarrow> string \<Rightarrow> int \<Rightarrow> reports \<Rightarrow> (fault option \<times> reports) option" where
  "report_plain s t msg file line h = report s t msg SC_MEDIUM file line h"

text \<open>\<open>sc_abort\<close>, which the handler also calls, and the failure of an assertion.\<close>

definition sc_abort :: "reports \<Rightarrow> (fault option \<times> reports) option" where
  "sc_abort h = Option.bind (report_plain SC_INFO (Some SC_ID_ABORT) [] ''sc_report_handler.cpp'' 833 h)
     (\<lambda>eh. if fst eh \<noteq> None then Some eh else Some (Some Aborted, snd eh))"

definition sc_assertion_failed :: "string \<Rightarrow> string \<Rightarrow> int \<Rightarrow> reports \<Rightarrow> (fault option \<times> reports) option" where
  "sc_assertion_failed msg file line h = Option.bind (report_plain SC_FATAL (Some SC_ID_ASSERTION_FAILED) msg file line h)
     (\<lambda>eh. if fst eh \<noteq> None then Some eh else sc_abort (snd eh))"

definition reports_new :: "sc_msg_def list \<Rightarrow> reports" where
  "reports_new ds = \<lparr>suppress_mask = 0, force_mask = 0, sev_actions = default_actions, sev_limit = (\<lambda>_. UINT_MAX), sev_call_count = (\<lambda>_. 0),
     messages = [(False, ds)], msg_terminator = default_msgs, last_global_report = None, last_report = Map.empty, available_actions = 0xFF,
     catch_actions = SC_DISPLAY, verbosity_level = SC_MEDIUM, log_file_name = None, log_open = None, log_name = [], r_process = None, r_time = 0,
     r_forced_stop = False, stop_warning_issued = False, r_displayed = [], r_logged = [], r_interrupts = []\<rparr>"

section \<open>Looking up and changing definitions\<close>

definition known :: "reports \<Rightarrow> string \<Rightarrow> sc_msg_def option" where
  "known h n = find (\<lambda>d. msg_type d = n) (all_msgs h)"

lemma mdlookup_known: "mdlookup t h = known h (message_name t)"
  by (simp add: mdlookup_def known_def)

lemma find_append: "find P (xs @ ys) = (case find P xs of None \<Rightarrow> find P ys | Some x \<Rightarrow> Some x)"
  by (induction xs) simp_all

lemma update_first_append: "update_first t f (xs @ ys) = (if list_ex (\<lambda>d. msg_type d = t) xs then update_first t f xs @ ys else xs @ update_first t f ys)"
  by (induction xs) auto

lemma update_groups_all:
  "update_groups t f gs = (gs', b) \<Longrightarrow> update_first t f (concat (map snd gs) @ ys) = concat (map snd gs') @ (if b then ys else update_first t f ys)"
  by (induction t f gs arbitrary: gs' b rule: update_groups.induct) (auto simp: update_first_append split: if_splits prod.splits)

lemma all_msgs_update: "all_msgs (update_md t f h) = update_first t f (all_msgs h)"
proof -
  obtain gs b where g: "update_groups t f (messages h) = (gs, b)" by fastforce
  show ?thesis using update_groups_all [OF g, of "msg_terminator h"] by (simp add: update_md_def g all_msgs_def)
qed

lemma find_update_first:
  "(\<And>d. msg_type d = t \<Longrightarrow> msg_type (f d) = t) \<Longrightarrow> find (\<lambda>d. msg_type d = n) (update_first t f ds) =
    (if n = t then map_option f (find (\<lambda>d. msg_type d = t) ds) else find (\<lambda>d. msg_type d = n) ds)"
  by (induction ds) auto

lemma known_update:
  "(\<And>d. msg_type d = t \<Longrightarrow> msg_type (f d) = t) \<Longrightarrow> known (update_md t f h) n = (if n = t then map_option f (known h t) else known h n)"
  by (simp add: known_def all_msgs_update find_update_first)

lemma known_type: "known h n = Some d \<Longrightarrow> msg_type d = n"
  by (simp add: known_def find_Some_iff) auto

lemma known_add: "known (add_msg_type t h) n =
    (if n = message_name t \<and> known h n = None \<and> n \<noteq> [] then Some (new_msg_def n (- 1)) else known h n)"
  by (auto simp: add_msg_type_def mdlookup_known known_def all_msgs_def find_append new_msg_def_def split: option.split)

lemma update_md_same [simp]:
  "suppress_mask (update_md t f h) = suppress_mask h" "force_mask (update_md t f h) = force_mask h" "sev_actions (update_md t f h) = sev_actions h"
  "sev_limit (update_md t f h) = sev_limit h" "sev_call_count (update_md t f h) = sev_call_count h" "verbosity_level (update_md t f h) = verbosity_level h"
  "r_forced_stop (update_md t f h) = r_forced_stop h" "last_report (update_md t f h) = last_report h" "r_process (update_md t f h) = r_process h"
  "last_global_report (update_md t f h) = last_global_report h" "r_time (update_md t f h) = r_time h" "stop_warning_issued (update_md t f h) = stop_warning_issued h"
  by (simp_all add: update_md_def split: prod.split)

lemma add_msg_same [simp]:
  "suppress_mask (add_msg_type t h) = suppress_mask h" "force_mask (add_msg_type t h) = force_mask h" "sev_actions (add_msg_type t h) = sev_actions h"
  "sev_limit (add_msg_type t h) = sev_limit h" "sev_call_count (add_msg_type t h) = sev_call_count h" "verbosity_level (add_msg_type t h) = verbosity_level h"
  "r_forced_stop (add_msg_type t h) = r_forced_stop h" "last_report (add_msg_type t h) = last_report h" "r_process (add_msg_type t h) = r_process h"
  "last_global_report (add_msg_type t h) = last_global_report h" "r_time (add_msg_type t h) = r_time h" "stop_warning_issued (add_msg_type t h) = stop_warning_issued h"
  by (simp_all add: add_msg_type_def split: option.split)

section \<open>Counters and limits\<close>

text \<open>The definition with the counters of a message after one report.\<close>

definition counted :: "sc_severity \<Rightarrow> sc_msg_def \<Rightarrow> sc_msg_def" where
  "counted s d = d\<lparr>md_sev_call_count := (md_sev_call_count d)(s := count_up (md_sev_call_count d s)), md_call_count := count_up (md_call_count d)\<rparr>"

definition base_actions :: "sc_severity \<Rightarrow> sc_msg_def \<Rightarrow> reports \<Rightarrow> sc_actions" where
  "base_actions s d h =
     ((if md_sev_actions d s \<noteq> 0 then md_sev_actions d s else if md_actions d \<noteq> 0 then md_actions d else sev_actions h s)
        AND NOT (suppress_mask h)) OR force_mask h"

definition limit_of :: "sc_severity \<Rightarrow> sc_msg_def \<Rightarrow> reports \<Rightarrow> 32 word \<times> 32 word" where
  "limit_of s d h = (if limit_mask d AND severity_bit s \<noteq> 0 then (md_sev_limit d s, md_sev_call_count d s)
    else if limit_mask d AND 1 \<noteq> 0 then (md_limit d, md_call_count d) else (sev_limit h s, sev_call_count h s))"

lemma execute_known:
  assumes "known h (message_name t) = Some d"
  shows "execute t s h = (let h' = (update_md (message_name t) (\<lambda>_. counted s d) h)\<lparr>sev_call_count := (sev_call_count h)(s := count_up (sev_call_count h s))\<rparr>;
      (limit, count) = limit_of s (counted s d) h' in
    Inr (if limit \<noteq> 0 \<and> limit \<noteq> UINT_MAX \<and> limit \<le> count then base_actions s d h OR SC_STOP else base_actions s d h, h'))"
  using assms by (auto simp: execute_def mdlookup_known counted_def base_actions_def limit_of_def Let_def SC_UNSPECIFIED_def split: prod.split)

lemma counted_type [simp]: "msg_type (counted s d) = msg_type d"
  by (simp add: counted_def)

lemma known_execute:
  assumes "known h (message_name t) = Some d" and "execute t s h = Inr (a, h')"
  shows "known h' n = (if n = message_name t then Some (counted s d) else known h n)"
    and "sev_call_count h' = (sev_call_count h)(s := count_up (sev_call_count h s))"
    and "suppress_mask h' = suppress_mask h" and "force_mask h' = force_mask h" and "sev_actions h' = sev_actions h" and "sev_limit h' = sev_limit h"
    and "verbosity_level h' = verbosity_level h"
proof -
  have ty: "msg_type d = message_name t" using assms(1) by (rule known_type)
  have h': "h' = (update_md (message_name t) (\<lambda>_. counted s d) h)\<lparr>sev_call_count := (sev_call_count h)(s := count_up (sev_call_count h s))\<rparr>"
    using assms(2) unfolding execute_known [OF assms(1)] by (simp add: Let_def split: prod.splits)
  have "known h' n = known (update_md (message_name t) (\<lambda>_. counted s d) h) n" by (simp add: h' known_def all_msgs_def)
  then show "known h' n = (if n = message_name t then Some (counted s d) else known h n)" using assms(1) ty by (simp add: known_update)
  show "sev_call_count h' = (sev_call_count h)(s := count_up (sev_call_count h s))" "suppress_mask h' = suppress_mask h" "force_mask h' = force_mask h"
    "sev_actions h' = sev_actions h" "sev_limit h' = sev_limit h" "verbosity_level h' = verbosity_level h" by (simp_all add: h')
qed

lemma execute_returns: "known h (message_name t) = Some d \<Longrightarrow> \<exists>a h'. execute t s h = Inr (a, h')"
  by (simp add: execute_known Let_def split: prod.split)

text \<open>A run of reports, of which only the counting matters.\<close>

fun executes :: "(sc_severity \<times> string option) list \<Rightarrow> reports \<Rightarrow> reports res" where
  "executes [] h = Inr h"
| "executes ((s, t) # xs) h = rbind (execute t s (add_msg_type t h)) (\<lambda>(a, h). executes xs h)"

definition reports_of :: "sc_severity \<Rightarrow> string \<Rightarrow> (sc_severity \<times> string option) list \<Rightarrow> nat" where
  "reports_of s n xs = length (filter (\<lambda>(s', t). s' = s \<and> message_name t = n) xs)"

lemma unat_UINT_MAX: "unat UINT_MAX = 2 ^ 32 - 1"
  by (simp add: UINT_MAX_def unsigned_minus_1_eq_mask mask_eq_exp_minus_1)

lemma unat_32: "unat (c :: 32 word) < 2 ^ 32"
  using unsigned_less [where 'a = nat, of c] by simp

lemma unat_count_up: "unat (count_up c) = min (2 ^ 32 - 1) (unat c + 1)"
proof (cases "c < UINT_MAX")
  case True
  then have "unat c < 2 ^ 32 - 1" using unat_UINT_MAX by (metis word_less_nat_alt)
  then show ?thesis using True by (simp add: count_up_def unat_word_ariths)
next
  case False
  then have "\<not> unat c < 2 ^ 32 - 1" using unat_UINT_MAX by (metis word_less_nat_alt)
  then show ?thesis using False unat_32 [of c] by (simp add: count_up_def)
qed

lemma known_after_add: "known h [] \<noteq> None \<Longrightarrow> \<exists>d. known (add_msg_type t h) (message_name t) = Some d"
  by (cases "known h (message_name t)") (auto simp: known_add)

lemma executes_counts:
  assumes "known h [] \<noteq> None" and "known h n = Some d"
  shows "\<exists>h' d'. executes xs h = Inr h' \<and> known h' [] \<noteq> None \<and> known h' n = Some d' \<and>
    unat (md_sev_call_count d' s) = min (2 ^ 32 - 1) (unat (md_sev_call_count d s) + reports_of s n xs) \<and>
    md_sev_actions d' = md_sev_actions d \<and> md_actions d' = md_actions d \<and> limit_mask d' = limit_mask d \<and> md_sev_limit d' = md_sev_limit d \<and>
    suppress_mask h' = suppress_mask h \<and> force_mask h' = force_mask h \<and> sev_actions h' = sev_actions h"
  using assms
proof (induction xs arbitrary: h d)
  case Nil
  then show ?case using unat_32 [of "md_sev_call_count d s"] by (auto simp: reports_of_def)
next
  case (Cons x xs)
  obtain s' t where x: "x = (s', t)" by fastforce
  let ?h = "add_msg_type t h"
  obtain e where e: "known ?h (message_name t) = Some e" using known_after_add [OF Cons.prems(1)] by blast
  obtain a h1 where r: "execute t s' ?h = Inr (a, h1)" using execute_returns [OF e] by blast
  note k = known_execute [OF e r]
  have d: "known ?h n = Some d" using Cons.prems(2) by (simp add: known_add)
  define d1 where "d1 = (if n = message_name t then counted s' d else d)"
  have n1: "known h1 [] \<noteq> None" using Cons.prems(1) by (auto simp: k(1) known_add)
  have k1: "known h1 n = Some d1" using d e by (auto simp: k(1) d1_def)
  obtain h' d' where ih: "executes xs h1 = Inr h'" "known h' [] \<noteq> None" "known h' n = Some d'"
    "unat (md_sev_call_count d' s) = min (2 ^ 32 - 1) (unat (md_sev_call_count d1 s) + reports_of s n xs)"
    "md_sev_actions d' = md_sev_actions d1" "md_actions d' = md_actions d1" "limit_mask d' = limit_mask d1" "md_sev_limit d' = md_sev_limit d1"
    "suppress_mask h' = suppress_mask h1" "force_mask h' = force_mask h1" "sev_actions h' = sev_actions h1"
    using Cons.IH [OF n1 k1] by blast
  have u: "unat (md_sev_call_count d1 s) = (if n = message_name t \<and> s' = s then min (2 ^ 32 - 1) (unat (md_sev_call_count d s) + 1) else unat (md_sev_call_count d s))"
    by (auto simp: d1_def counted_def unat_count_up)
  have c: "reports_of s n (x # xs) = (if n = message_name t \<and> s' = s then Suc (reports_of s n xs) else reports_of s n xs)"
    by (auto simp: reports_of_def x)
  have "unat (md_sev_call_count d' s) = min (2 ^ 32 - 1) (unat (md_sev_call_count d s) + reports_of s n (x # xs))"
    unfolding ih(4) u c by (auto simp: min_def)
  moreover have "executes (x # xs) h = Inr h'" using ih(1) r by (simp add: x)
  moreover have "md_sev_actions d1 = md_sev_actions d" "md_actions d1 = md_actions d" "limit_mask d1 = limit_mask d" "md_sev_limit d1 = md_sev_limit d"
    by (simp_all add: d1_def counted_def)
  ultimately show ?case using ih(2,3,5-) k(3-5) by auto
qed

lemma severity_bit_nonzero [simp]: "severity_bit s \<noteq> 0"
  by (cases s) (simp_all add: severity_bit_def)

text \<open>The definition of a message, or the one that is made when the message is first named.\<close>

definition definition_of :: "reports \<Rightarrow> string \<Rightarrow> sc_msg_def" where
  "definition_of h n = (case known h n of Some d \<Rightarrow> d | None \<Rightarrow> new_msg_def n (- 1))"

lemma known_named: "known h [] \<noteq> None \<Longrightarrow> known (add_msg_type t h) (message_name t) = Some (definition_of h (message_name t))"
  by (auto simp: known_add definition_of_def)

lemma stop_bit: "(x OR SC_STOP) AND SC_STOP \<noteq> 0"
  by (simp add: bit.conj_disj_distrib2 SC_STOP_def)

text \<open>C34: After \<open>stop_after\<close> with a positive limit for a message and a severity, whether the message was known or not and whatever
  of it was reported before, and after any further reports of any kind, the next report of that message and severity asks for a
  stop exactly when the reports of that message and severity, earlier ones and this one counted, have reached the limit, or the
  actions set or forced for it ask for a stop themselves; however high the limits of the message or of the severity alone.\<close>

theorem stops_at_limit:
  "known h [] \<noteq> None \<Longrightarrow> 0 < limit \<Longrightarrow> limit < 2 ^ 31 \<Longrightarrow> d = definition_of h (message_name t) \<Longrightarrow>
    \<exists>old h1 h2 a h3. stop_after_both t s limit h = Inr (old, h1) \<and> executes xs h1 = Inr h2 \<and> execute t s h2 = Inr (a, h3) \<and>
      (a AND SC_STOP \<noteq> 0 \<longleftrightarrow> base_actions s d h AND SC_STOP \<noteq> 0 \<or>
        nat limit \<le> unat (md_sev_call_count d s) + reports_of s (message_name t) xs + 1)"
proof -
  assume e: "known h [] \<noteq> None" and l: "0 < limit" "limit < 2 ^ 31" and "d = definition_of h (message_name t)"
  let ?n = "message_name t" and ?h = "add_msg_type t h"
  have d: "known ?h ?n = Some d" using known_named [OF e] \<open>d = _\<close> by simp
  have e': "known ?h [] \<noteq> None" using e by (simp add: known_add)
  define f :: "sc_msg_def \<Rightarrow> sc_msg_def" where "f d = d\<lparr>limit_mask := limit_mask d OR severity_bit s, md_sev_limit := (md_sev_limit d)(s := word_of_int limit)\<rparr>" for d
  define h1 where "h1 = update_md ?n f ?h"
  have st: "\<exists>old. stop_after_both t s limit h = Inr (old, h1)"
    using l by (simp add: stop_after_both_def with_md_def mdlookup_known d h1_def f_def [abs_def])
  have k1: "known h1 m = (if m = ?n then Some (f d) else known ?h m)" for m unfolding h1_def using d by (subst known_update) (simp_all add: f_def)
  have n1: "known h1 [] \<noteq> None" using e' by (simp add: k1)
  obtain h2 d2 where h2: "executes xs h1 = Inr h2" "known h2 ?n = Some d2"
    "unat (md_sev_call_count d2 s) = min (2 ^ 32 - 1) (unat (md_sev_call_count (f d) s) + reports_of s ?n xs)"
    "md_sev_actions d2 = md_sev_actions (f d)" "md_actions d2 = md_actions (f d)" "limit_mask d2 = limit_mask (f d)" "md_sev_limit d2 = md_sev_limit (f d)"
    "suppress_mask h2 = suppress_mask h1" "force_mask h2 = force_mask h1" "sev_actions h2 = sev_actions h1"
    using executes_counts [OF n1, of ?n "f d" xs s] k1 by auto
  obtain a h3 where r: "execute t s h2 = Inr (a, h3)" using execute_returns [OF h2(2)] by blast
  have lim: "limit_of s (counted s d2) h' = (word_of_int limit, count_up (md_sev_call_count d2 s))" for h'
  proof -
    have "(limit_mask d OR severity_bit s) AND severity_bit s = severity_bit s" by (simp add: bit.conj_disj_distrib2)
    then show ?thesis by (simp add: limit_of_def counted_def h2 f_def)
  qed
  have base: "base_actions s d2 h2 = base_actions s d h" by (simp add: base_actions_def h2 f_def h1_def)
  have u: "unat (word_of_int limit :: 32 word) = nat limit"
    using l by (simp add: unat_eq_nat_uint uint_word_of_int_eq take_bit_int_eq_self)
  then have w: "(word_of_int limit :: 32 word) \<noteq> 0" "(word_of_int limit :: 32 word) \<noteq> UINT_MAX" using l unat_UINT_MAX by auto
  have c: "unat (count_up (md_sev_call_count d2 s)) = min (2 ^ 32 - 1) (unat (md_sev_call_count d s) + reports_of s ?n xs + 1)"
    unfolding unat_count_up h2(3) by (simp add: f_def min_def)
  have "(word_of_int limit :: 32 word) \<le> count_up (md_sev_call_count d2 s) \<longleftrightarrow>
      nat limit \<le> unat (md_sev_call_count d s) + reports_of s ?n xs + 1"
    unfolding word_le_nat_alt u c using l by auto
  then have "a = (if nat limit \<le> unat (md_sev_call_count d s) + reports_of s ?n xs + 1 then base_actions s d h OR SC_STOP else base_actions s d h)"
    using r unfolding execute_known [OF h2(2)] lim base using w by (auto simp: Let_def)
  then have "a AND SC_STOP \<noteq> 0 \<longleftrightarrow> base_actions s d h AND SC_STOP \<noteq> 0 \<or> nat limit \<le> unat (md_sev_call_count d s) + reports_of s ?n xs + 1"
    using stop_bit by simp
  then show ?thesis using st h2(1) r by blast
qed

lemma stops_at_limit_witness:
  "\<exists>old h1 h2 a h3. stop_after_both (Some SC_ID_INSERT_MODULE) SC_WARNING 2 (reports_new []) = Inr (old, h1) \<and>
    executes [(SC_WARNING, Some SC_ID_INSERT_MODULE), (SC_INFO, Some SC_ID_INSERT_MODULE)] h1 = Inr h2 \<and>
    execute (Some SC_ID_INSERT_MODULE) SC_WARNING h2 = Inr (a, h3) \<and> a AND SC_STOP \<noteq> 0"
proof -
  let ?h = "reports_new []" and ?t = "Some SC_ID_INSERT_MODULE"
  have k: "known ?h [] \<noteq> None" "definition_of ?h (message_name ?t) = new_msg_def SC_ID_INSERT_MODULE (- 1)"
    by (simp_all add: definition_of_def known_def all_msgs_def reports_new_def default_msgs_def new_msg_def_def message_name_def
        SC_ID_ASSERTION_FAILED_def SC_ID_UNKNOWN_ERROR_def SC_ID_ABORT_def SC_ID_INSERT_MODULE_def)
  have r: "nat 2 \<le> unat (md_sev_call_count (new_msg_def SC_ID_INSERT_MODULE (- 1)) SC_WARNING) +
      reports_of SC_WARNING (message_name ?t) [(SC_WARNING, ?t), (SC_INFO, ?t)] + 1" by (simp add: reports_of_def new_msg_def_def)
  show ?thesis using stops_at_limit [OF k(1), of 2 "new_msg_def SC_ID_INSERT_MODULE (- 1)" ?t SC_WARNING "[(SC_WARNING, ?t), (SC_INFO, ?t)]"] k(2) r
    by auto
qed

section \<open>Reports under the default settings\<close>

definition default_settings :: "reports \<Rightarrow> bool" where
  "default_settings h \<longleftrightarrow> suppress_mask h = 0 \<and> force_mask h = 0 \<and> sev_actions h = default_actions \<and> sev_limit h = (\<lambda>_. UINT_MAX) \<and>
     known h [] \<noteq> None \<and> (\<forall>n d. known h n = Some d \<longrightarrow> md_actions d = 0 \<and> md_sev_actions d = (\<lambda>_. 0) \<and> limit_mask d = 0)"

lemma same_known: "messages h' = messages h \<Longrightarrow> msg_terminator h' = msg_terminator h \<Longrightarrow> known h' = known h"
  by (simp add: known_def all_msgs_def fun_eq_iff)

lemma logging_known [simp]: "known (display_and_log rep a h) = known h"
  by (rule same_known; auto simp: display_and_log_def update_file_name_def log_release_def Let_def split: option.split)

lemma logging_same [simp]:
  "suppress_mask (display_and_log rep a h) = suppress_mask h" "force_mask (display_and_log rep a h) = force_mask h"
  "sev_actions (display_and_log rep a h) = sev_actions h" "sev_limit (display_and_log rep a h) = sev_limit h"
  "verbosity_level (display_and_log rep a h) = verbosity_level h" "r_forced_stop (display_and_log rep a h) = r_forced_stop h"
  "last_global_report (display_and_log rep a h) = last_global_report h" "last_report (display_and_log rep a h) = last_report h"
  "r_process (display_and_log rep a h) = r_process h"
  by (auto simp: display_and_log_def update_file_name_def log_release_def Let_def split: option.split)

lemma cache_known [simp]: "known (cache_report rep h) = known h"
  by (rule same_known; simp add: cache_report_def split: option.split)

lemma cache_same [simp]:
  "suppress_mask (cache_report rep h) = suppress_mask h" "force_mask (cache_report rep h) = force_mask h"
  "sev_actions (cache_report rep h) = sev_actions h" "sev_limit (cache_report rep h) = sev_limit h" "verbosity_level (cache_report rep h) = verbosity_level h"
  "r_forced_stop (cache_report rep h) = r_forced_stop h" "r_process (cache_report rep h) = r_process h" "get_cached_report (cache_report rep h) = Some rep"
  by (auto simp: cache_report_def get_cached_report_def split: option.split)

lemma default_parts [simp]:
  "default_actions s AND SC_STOP = 0" "default_actions s AND SC_INTERRUPT = 0"
  "default_actions s AND SC_ABORT \<noteq> 0 \<longleftrightarrow> s = SC_FATAL" "default_actions s AND SC_THROW \<noteq> 0 \<longleftrightarrow> s = SC_ERROR"
  "default_actions s AND SC_CACHE_REPORT \<noteq> 0 \<longleftrightarrow> s = SC_ERROR \<or> s = SC_FATAL"
  by (cases s; simp add: action_defs)+

declare default_actions.simps [simp del]

lemma execute_default:
  assumes "default_settings h" and "known h (message_name t) = Some d"
  shows "\<exists>h'. execute t s h = Inr (default_actions s, h') \<and> default_settings h' \<and> r_forced_stop h' = r_forced_stop h \<and>
    verbosity_level h' = verbosity_level h \<and> r_process h' = r_process h \<and> last_report h' = last_report h \<and> last_global_report h' = last_global_report h"
proof -
  obtain a h' where r: "execute t s h = Inr (a, h')" using execute_returns [OF assms(2)] by blast
  have d: "md_actions d = 0" "md_sev_actions d = (\<lambda>_. 0)" "limit_mask d = 0" using assms by (auto simp: default_settings_def)
  have h: "suppress_mask h = 0" "force_mask h = 0" "sev_actions h = default_actions" "sev_limit h = (\<lambda>_. UINT_MAX)" using assms(1) by (auto simp: default_settings_def)
  note k = known_execute [OF assms(2) r]
  have b: "base_actions s d h = default_actions s" by (simp add: base_actions_def d h)
  have "a = default_actions s" "r_forced_stop h' = r_forced_stop h" "r_process h' = r_process h" "last_report h' = last_report h" "last_global_report h' = last_global_report h"
    using r unfolding execute_known [OF assms(2)] by (auto simp: Let_def limit_of_def counted_def d h b)
  moreover have "default_settings h'"
    using assms(1) d unfolding default_settings_def k(2-6) by (auto simp: k(1) counted_def)
  ultimately show ?thesis using r k(7) by auto
qed

lemma prepare_default:
  assumes "default_settings h" and "s = SC_INFO \<longrightarrow> v \<le> verbosity_level h"
  shows "\<exists>rep h'. prepare s t m v f l h = Inr (Some (rep, default_actions s), h') \<and> rep_type rep = message_name t \<and> severity rep = s \<and> default_settings h' \<and>
    r_forced_stop h' = r_forced_stop h \<and> verbosity_level h' = verbosity_level h \<and>
    get_cached_report h' = (if s = SC_ERROR \<or> s = SC_FATAL then Some rep else get_cached_report h)"
proof -
  let ?h = "add_msg_type t h"
  have "known h [] \<noteq> None" using assms(1) by (simp add: default_settings_def)
  then obtain d where d: "known ?h (message_name t) = Some d" using known_after_add by blast
  have ok: "default_settings ?h" using assms(1) by (auto simp: default_settings_def known_add new_msg_def_def split: if_splits)
  from execute_default [OF ok d] obtain h' where h': "execute t s ?h = Inr (default_actions s, h')" "default_settings h'" "r_forced_stop h' = r_forced_stop h"
    "verbosity_level h' = verbosity_level h" "r_process h' = r_process h" "last_report h' = last_report h" "last_global_report h' = last_global_report h"
    by force
  have c: "get_cached_report h' = get_cached_report h" using h' by (simp add: get_cached_report_def split: option.split)
  have dc: "default_settings (cache_report rep h')" for rep using h'(2) by (simp add: default_settings_def)
  have p: "\<not> (s = SC_INFO \<and> verbosity_level h < v)" using assms(2) by auto
  show ?thesis using h' c dc unfolding prepare_def if_not_P [OF p] h'(1) rbind_Inr prod.case Let_def by auto
qed

lemma handler_no_stop:
  assumes "a AND SC_STOP = 0" and "a AND SC_INTERRUPT = 0"
  shows "default_handler rep a h =
    (if a AND SC_ABORT \<noteq> 0 then
       Option.bind (case prepare SC_INFO (Some SC_ID_ABORT) [] SC_MEDIUM ''sc_report_handler.cpp'' 833 (display_and_log rep a h) of
           Inl e \<Rightarrow> Some (Some e, display_and_log rep a h)
         | Inr (r, h) \<Rightarrow> (case r of None \<Rightarrow> nothing h | Some ra \<Rightarrow> default_handler (fst ra) (snd ra) h))
         (\<lambda>eh. if fst eh \<noteq> None then Some eh else Some (Some Aborted, snd eh))
     else if a AND SC_THROW \<noteq> 0 then Some (Some (ReportError (rep_type rep)), display_and_log rep a h)
     else Some (None, display_and_log rep a h))"
  by (subst default_handler.simps) (simp add: assms nothing_def Let_def)

lemma default_settings_same [simp]: "default_settings (display_and_log rep a h) = default_settings h"
  by (simp add: default_settings_def)

lemma cached_same [simp]: "get_cached_report (display_and_log rep a h) = get_cached_report h"
  by (simp add: get_cached_report_def split: option.split)

lemma abort_default:
  assumes "default_settings h"
  shows "\<exists>h'. (case prepare SC_INFO (Some SC_ID_ABORT) [] SC_MEDIUM ''sc_report_handler.cpp'' 833 h of
           Inl e \<Rightarrow> Some (Some e, h)
         | Inr (r, h) \<Rightarrow> (case r of None \<Rightarrow> nothing h | Some ra \<Rightarrow> default_handler (fst ra) (snd ra) h)) = Some (None, h') \<and>
    default_settings h' \<and> r_forced_stop h' = r_forced_stop h \<and> get_cached_report h' = get_cached_report h"
proof (cases "SC_MEDIUM \<le> verbosity_level h")
  case True
  then obtain rep h' where p: "prepare SC_INFO (Some SC_ID_ABORT) [] SC_MEDIUM ''sc_report_handler.cpp'' 833 h = Inr (Some (rep, default_actions SC_INFO), h')"
    "default_settings h'" "r_forced_stop h' = r_forced_stop h" "get_cached_report h' = get_cached_report h"
    using prepare_default [OF assms, of SC_INFO SC_MEDIUM "Some SC_ID_ABORT" "[]" "''sc_report_handler.cpp''" 833] by auto
  have "default_handler rep (default_actions SC_INFO) h' = Some (None, display_and_log rep (default_actions SC_INFO) h')"
    using default_parts(3,4) [of SC_INFO] by (subst handler_no_stop) simp_all
  then show ?thesis using p(2-4) by (simp add: p(1))
next
  case False
  then show ?thesis using assms by (simp add: prepare_def nothing_def)
qed

lemma default_outcome:
  "default_settings h \<Longrightarrow>
    \<exists>h'. report s t m v f l h = Some (case s of SC_ERROR \<Rightarrow> Some (ReportError (message_name t)) | SC_FATAL \<Rightarrow> Some Aborted | _ \<Rightarrow> None, h') \<and>
      default_settings h' \<and> r_forced_stop h' = r_forced_stop h \<and>
      (if s = SC_ERROR \<or> s = SC_FATAL then \<exists>rep. get_cached_report h' = Some rep \<and> rep_type rep = message_name t \<and> severity rep = s
       else get_cached_report h' = get_cached_report h)"
proof (cases "s = SC_INFO \<and> verbosity_level h < v")
  case True
  assume "default_settings h"
  then show ?thesis using True by (simp add: report_def prepare_def)
next
  case False
  assume ok: "default_settings h"
  obtain rep h1 where p: "prepare s t m v f l h = Inr (Some (rep, default_actions s), h1)" "rep_type rep = message_name t" "severity rep = s"
    "default_settings h1" "r_forced_stop h1 = r_forced_stop h"
    "get_cached_report h1 = (if s = SC_ERROR \<or> s = SC_FATAL then Some rep else get_cached_report h)"
    using prepare_default [OF ok, of s v t m f l] False by auto
  have r: "report s t m v f l h = default_handler rep (default_actions s) h1" by (simp add: report_def p(1))
  show ?thesis
  proof (cases "s = SC_FATAL")
    case True
    have "default_settings (display_and_log rep (default_actions s) h1)" using p(4) by simp
    from abort_default [OF this] True p show ?thesis unfolding r by (subst handler_no_stop) auto
  next
    case False
    then show ?thesis using p unfolding r by (subst handler_no_stop) (auto split: sc_severity.split)
  qed
qed

text \<open>C33: Under the default settings, whatever was reported before, an error always returns control by throwing its message, a fatal
  error by aborting, an information or a warning by returning; the settings stay, no report stops the simulation, and the
  last error is in the cache.  So the limit of fatal errors is not one, as the comment at the table of the limits has it, and a
  fatal error aborts through its action and not through a limit.\<close>

theorem default_reports:
  "default_settings h \<Longrightarrow>
    \<exists>h'. report s t m v f l h = Some (case s of SC_ERROR \<Rightarrow> Some (ReportError (message_name t)) | SC_FATAL \<Rightarrow> Some Aborted | _ \<Rightarrow> None, h') \<and>
      default_settings h' \<and> r_forced_stop h' = r_forced_stop h \<and>
      (if s = SC_ERROR \<or> s = SC_FATAL then \<exists>rep. get_cached_report h' = Some rep \<and> rep_type rep = message_name t \<and> severity rep = s
       else get_cached_report h' = get_cached_report h)"
  by (rule default_outcome)

lemma default_reports_witness:
  "\<exists>h'. report SC_ERROR (Some SC_ID_INSERT_MODULE) ''simulation running'' SC_MEDIUM ''sc_module_registry.cpp'' 49 (reports_new []) =
      Some (Some (ReportError SC_ID_INSERT_MODULE), h') \<and> \<not> r_forced_stop h'"
proof -
  have "default_settings (reports_new [])"
    by (auto simp: default_settings_def known_def all_msgs_def reports_new_def default_msgs_def new_msg_def_def split: if_splits)
  from default_reports [OF this, of SC_ERROR "Some SC_ID_INSERT_MODULE"] show ?thesis by (force simp: message_name_def reports_new_def)
qed

lemma assertion_aborts: "default_settings h \<Longrightarrow> \<exists>h'. sc_assertion_failed msg file line h = Some (Some Aborted, h')"
  using default_outcome [where h = h and s = SC_FATAL and t = "Some SC_ID_ASSERTION_FAILED" and m = msg and v = SC_MEDIUM and f = "file" and l = "line"]
  by (auto simp: sc_assertion_failed_def report_plain_def)

section \<open>An abort that never comes\<close>

definition abort_forced :: "reports \<Rightarrow> bool" where
  "abort_forced h \<longleftrightarrow> force_mask h AND SC_ABORT \<noteq> 0 \<and> SC_MEDIUM \<le> verbosity_level h \<and> known h [] \<noteq> None"

lemma abort_forced_same [simp]: "abort_forced (display_and_log rep a h) = abort_forced h" "abort_forced (h\<lparr>stop_warning_issued := b\<rparr>) = abort_forced h"
  "abort_forced (h\<lparr>r_forced_stop := b\<rparr>) = abort_forced h" "abort_forced (h\<lparr>r_interrupts := x\<rparr>) = abort_forced h"
  by (simp_all add: abort_forced_def known_def all_msgs_def)

lemma base_forced: "force_mask h AND SC_ABORT \<noteq> 0 \<Longrightarrow> base_actions s d h AND SC_ABORT \<noteq> 0"
  by (simp add: base_actions_def bit.conj_disj_distrib2 or_eq_0_iff)

lemma prepare_forced:
  assumes "abort_forced h" and "s = SC_INFO \<longrightarrow> v \<le> verbosity_level h"
  shows "\<exists>rep a h'. prepare s t m v f l h = Inr (Some (rep, a), h') \<and> a AND SC_ABORT \<noteq> 0 \<and> abort_forced h'"
proof -
  let ?h = "add_msg_type t h"
  have "known h [] \<noteq> None" using assms(1) by (simp add: abort_forced_def)
  then obtain d where d: "known ?h (message_name t) = Some d" using known_after_add by blast
  obtain a h' where r: "execute t s ?h = Inr (a, h')" using execute_returns [OF d] by blast
  note k = known_execute [OF d r]
  have "a = base_actions s d ?h \<or> a = base_actions s d ?h OR SC_STOP" using r unfolding execute_known [OF d] by (auto simp: Let_def split: prod.splits if_splits)
  moreover have "base_actions s d ?h AND SC_ABORT \<noteq> 0" using assms(1) by (intro base_forced) (simp add: abort_forced_def)
  ultimately have a: "a AND SC_ABORT \<noteq> 0" by (auto simp: bit.conj_disj_distrib2 or_eq_0_iff)
  have ok: "abort_forced h'" using assms(1) k(4,7) by (auto simp: abort_forced_def k(1) known_add)
  have c: "abort_forced (cache_report rep h')" for rep using ok by (simp add: abort_forced_def)
  have p: "\<not> (s = SC_INFO \<and> verbosity_level h < v)" using assms(2) by auto
  show ?thesis unfolding prepare_def if_not_P [OF p] r rbind_Inr prod.case Let_def using a ok c by auto
qed

text \<open>The two reports inside the handler are, with a forced abort, reports whose handler has to return first.\<close>

lemma inner_never:
  assumes "\<And>rep a h r. self rep a h = Some r \<Longrightarrow> \<not> (a AND SC_ABORT \<noteq> 0 \<and> abort_forced h)" and "abort_forced h" and "s = SC_INFO \<longrightarrow> v \<le> verbosity_level h"
  shows "(case prepare s t m v f l h of Inl e \<Rightarrow> Some (Some e, h0)
     | Inr (r, h) \<Rightarrow> (case r of None \<Rightarrow> nothing h | Some ra \<Rightarrow> self (fst ra) (snd ra) h)) = None"
proof -
  obtain rep a h' where p: "prepare s t m v f l h = Inr (Some (rep, a), h')" "a AND SC_ABORT \<noteq> 0" "abort_forced h'"
    using prepare_forced [OF assms(2,3)] by blast
  then have "self rep a h' = None" using assms(1) [of rep a h'] by (cases "self rep a h'") auto
  then show ?thesis by (simp add: p(1))
qed

lemma handler_never:
  assumes "default_handler rep a h = Some r"
  shows "\<not> (a AND SC_ABORT \<noteq> 0 \<and> abort_forced h)"
proof (rule default_handler.raw_induct [of "\<lambda>rep a h r. \<not> (a AND SC_ABORT \<noteq> 0 \<and> abort_forced h)", OF _ assms], goal_cases)
  case (1 self rep a h0 r)
  note never = inner_never [of self, OF "1"(1)]
  show ?case
  proof
    assume c: "a AND SC_ABORT \<noteq> 0 \<and> abort_forced h0"
    define h where "h = display_and_log rep a h0"
    have h: "abort_forced h" using c by (simp add: h_def)
    have v: "SC_MEDIUM \<le> verbosity_level g" if "abort_forced g" for g using that by (simp add: abort_forced_def)
    have abort: "Option.bind (case prepare SC_INFO (Some SC_ID_ABORT) [] SC_MEDIUM ''sc_report_handler.cpp'' 833 g of Inl e \<Rightarrow> Some (Some e, g')
       | Inr (r, h) \<Rightarrow> (case r of None \<Rightarrow> nothing h | Some ra \<Rightarrow> self (fst ra) (snd ra) h)) k = None" if "abort_forced g" for g g' k
      using never [where h = g and s = SC_INFO and v = SC_MEDIUM] that v by simp
    have stop: "(case prepare SC_WARNING (Some SC_ID_SIMULATION_STOP_CALLED_TWICE) [] SC_MEDIUM ''sc_simcontext.cpp'' 1011 (h\<lparr>stop_warning_issued := True\<rparr>) of
         Inl e \<Rightarrow> Some (Some e, h)
       | Inr (r, h) \<Rightarrow> (case r of None \<Rightarrow> nothing h | Some ra \<Rightarrow> self (fst ra) (snd ra) h)) = None"
      using never [where h = "h\<lparr>stop_warning_issued := True\<rparr>" and s = SC_WARNING and v = SC_MEDIUM] h by simp
    have i: "abort_forced (if b then g\<lparr>r_interrupts := x\<rparr> else g)" if "abort_forced g" for b g x using that by simp
    define body where "body eh = (let h = (if a AND SC_INTERRUPT \<noteq> 0 then (snd eh)\<lparr>r_interrupts := r_interrupts (snd eh) @ [(rep_type rep, severity rep)]\<rparr> else snd eh) in
            if a AND SC_ABORT \<noteq> 0 then
              Option.bind
                (case prepare SC_INFO (Some SC_ID_ABORT) [] SC_MEDIUM ''sc_report_handler.cpp'' 833 h of
                   Inl e \<Rightarrow> Some (Some e, h)
                 | Inr (r, h) \<Rightarrow> (case r of None \<Rightarrow> nothing h | Some ra \<Rightarrow> self (fst ra) (snd ra) h))
                (\<lambda>eh. if fst eh \<noteq> None then Some eh else Some (Some Aborted, snd eh))
            else if a AND SC_THROW \<noteq> 0 then Some (Some (ReportError (rep_type rep)), h)
            else nothing h)" for eh :: "fault option \<times> reports"
    have body: "body (None, g) = None" if "abort_forced g" for g
      unfolding body_def Let_def snd_conv if_P [OF c [THEN conjunct1]] by (rule abort [OF i [OF that]])
    from "1"(2) show False using c h stop body unfolding h_def [symmetric] Let_def body_def [unfolded Let_def, symmetric]
      by (auto simp: nothing_def split: if_splits)
  qed
qed

text \<open>C35: With a forced abort and a verbosity level of at least \<open>SC_MEDIUM\<close> no report that the verbosity does not filter ever returns,
  not even by aborting: \<open>sc_abort\<close> first reports that the simulation is aborted, and the handler of that report calls \<open>sc_abort\<close> again.\<close>

theorem forced_abort_never_returns:
  "force_mask h AND SC_ABORT \<noteq> 0 \<Longrightarrow> SC_MEDIUM \<le> verbosity_level h \<Longrightarrow> known h [] \<noteq> None \<Longrightarrow> s = SC_INFO \<longrightarrow> v \<le> verbosity_level h \<Longrightarrow>
    report s t m v f l h = None"
proof -
  assume h: "force_mask h AND SC_ABORT \<noteq> 0" "SC_MEDIUM \<le> verbosity_level h" "known h [] \<noteq> None" and s: "s = SC_INFO \<longrightarrow> v \<le> verbosity_level h"
  then have "abort_forced h" by (simp add: abort_forced_def)
  then obtain rep a h' where p: "prepare s t m v f l h = Inr (Some (rep, a), h')" "a AND SC_ABORT \<noteq> 0" "abort_forced h'"
    using prepare_forced s by blast
  then show ?thesis using handler_never [of rep a h'] by (cases "default_handler rep a h'") (auto simp: report_def)
qed

lemma forced_abort_never_returns_witness:
  "report SC_WARNING None ''low'' SC_MEDIUM ''main.cpp'' 1 (snd (force SC_ABORT (reports_new []))) = None"
  by (rule forced_abort_never_returns)
    (simp_all add: force_def reports_new_def SC_ABORT_def known_def all_msgs_def default_msgs_def new_msg_def_def)

section \<open>Resetting the counters, and actions of the user\<close>

text \<open>\<open>initialize\<close> stops before the predefined messages: their counters are not reset.\<close>

lemma find_reset: "find (\<lambda>d. msg_type d = n) (map reset_counts ds) = map_option reset_counts (find (\<lambda>d. msg_type d = n) ds)"
  by (induction ds) (auto simp: reset_counts_def)

lemma initialize_misses_predefined:
  "known (report_initialize False h) n = (case find (\<lambda>d. msg_type d = n) (concat (map snd (messages h))) of
     None \<Rightarrow> known h n | Some d \<Rightarrow> Some (reset_counts d))"
proof -
  have "concat (map snd (map (\<lambda>(a, ds). (a, map reset_counts ds)) gs)) = map reset_counts (concat (map snd gs))" for gs :: "(bool \<times> sc_msg_def list) list"
    by (induction gs) auto
  then show ?thesis by (simp add: known_def all_msgs_def report_initialize_def find_append find_reset split: option.split)
qed

lemma find_action_bit:
  "n + k = 33 \<Longrightarrow> k \<le> 32 \<Longrightarrow>
    find_action n (push_bit k 1) used = 0 \<and> (\<forall>j. k \<le> j \<longrightarrow> j < 32 \<longrightarrow> bit used j) \<or>
    (\<exists>j. k \<le> j \<and> j < 32 \<and> find_action n (push_bit k 1) used = push_bit j 1 \<and> \<not> bit used j)"
proof (induction n arbitrary: k)
  case (Suc n)
  show ?case
  proof (cases "k = 32")
    case True
    then have "push_bit k (1 :: 32 word) = 0" by (simp add: push_bit_eq_mult)
    then show ?thesis using True by (simp add: SC_UNSPECIFIED_def)
  next
    case False
    then have k: "k < 32" using Suc.prems by simp
    then have nz: "push_bit k (1 :: 32 word) \<noteq> 0" by (simp add: push_bit_eq_mult)
    have f: "push_bit k (1 :: 32 word) AND used = 0 \<longleftrightarrow> \<not> bit used k" by (simp add: push_bit_of_1 and.commute and_exp_eq_0_iff_not_bit)
    show ?thesis
    proof (cases "bit used k")
      case True
      define q where "q = find_action n (push_bit (Suc k) 1) used"
      have e: "find_action (Suc n) (push_bit k 1) used = q" using nz f True by (simp add: push_bit_push_bit mult.commute q_def)
      have "n + Suc k = 33" "Suc k \<le> 32" using Suc.prems k by simp_all
      then consider "q = 0" "\<forall>j. Suc k \<le> j \<longrightarrow> j < 32 \<longrightarrow> bit used j" | j where "Suc k \<le> j" "j < 32" "q = push_bit j 1" "\<not> bit used j"
        using Suc.IH [of "Suc k"] unfolding q_def by blast
      then show ?thesis unfolding e
      proof cases
        case 1
        then have "\<forall>j. k \<le> j \<longrightarrow> j < 32 \<longrightarrow> bit used j" using True by (metis Suc_leI le_neq_implies_less)
        then show "q = 0 \<and> (\<forall>j. k \<le> j \<longrightarrow> j < 32 \<longrightarrow> bit used j) \<or> (\<exists>j. k \<le> j \<and> j < 32 \<and> q = push_bit j 1 \<and> \<not> bit used j)" using 1 by simp
      next
        case (2 j)
        then show "q = 0 \<and> (\<forall>j. k \<le> j \<longrightarrow> j < 32 \<longrightarrow> bit used j) \<or> (\<exists>j. k \<le> j \<and> j < 32 \<and> q = push_bit j 1 \<and> \<not> bit used j)"
          by (intro disjI2 exI [of _ j]) simp
      qed
    next
      case False
      then show ?thesis using nz f k by auto
    qed
  qed
qed (simp add: SC_UNSPECIFIED_def)

text \<open>A new action is one bit that no action has, and none is given exactly when all are in use.\<close>

lemma new_action_free:
  assumes "get_new_action_id h = (p, h')"
  shows "p AND available_actions h = 0" and "available_actions h' = available_actions h OR p" and "p = 0 \<longleftrightarrow> available_actions h = - 1"
proof -
  let ?u = "available_actions h"
  have p: "p = find_action 33 (push_bit 0 1) ?u" "available_actions h' = ?u OR p" using assms by (auto simp: get_new_action_id_def Let_def)
  have c: "p = 0 \<and> (\<forall>j. 0 \<le> j \<longrightarrow> j < 32 \<longrightarrow> bit ?u j) \<or> (\<exists>j. 0 \<le> j \<and> j < 32 \<and> p = push_bit j 1 \<and> \<not> bit ?u j)"
    unfolding p(1) by (rule find_action_bit) simp_all
  show "available_actions h' = ?u OR p" by (rule p(2))
  show "p AND ?u = 0" using c by (auto simp: push_bit_of_1 and.commute and_exp_eq_0_iff_not_bit)
  show "p = 0 \<longleftrightarrow> ?u = - 1"
  proof
    assume "p = 0"
    then have "\<forall>j < 32. bit ?u j" using c by (auto simp: push_bit_eq_mult)
    then show "?u = - 1" by (intro bit_word_eqI) simp
  next
    assume "?u = - 1"
    then show "p = 0" using c by auto
  qed
qed

end
