(* ===== verification/Spec2Isabelle.thy ===== *)
theory Spec2Isabelle
  imports Network Run_Invariant Sc_Start Sc_Fifo Sc_Locks Sc_Event_Queue Sc_Binding Sc_Number_Friends Sc_Module Sc_Report
begin

text \<open>
  A verification library for the neural-network processor simulator (\<open>src/\<close>, \<open>inc/\<close>) and for the
  part of the SystemC 2.3.3 kernel (\<open>systemc-2.3.3/src/sysc\<close>) that runs it.

  \<^bold>\<open>The program.\<close>  \<open>src/main.cpp\<close> wires eleven clocked modules and one combinational one.  \<open>IO\<close> reads a
  network and a picture from two files and puts them on a bus as a schedule of writes; \<open>CONTROLLER\<close>
  sequences the layers; \<open>LAYERS_STORAGE\<close>, \<open>WEIGHT_STORAGE\<close> and \<open>PREVIOUS_LAYER\<close> hold the sizes, the weights
  and the values of the layer behind; \<open>GENERATOR\<close> hands the neuron numbers of a layer to the shortest queue of
  seven \<open>PROCESSOR\<close>s, whose results \<open>NEXT_LAYER\<close> collects; \<open>END_REDUCER\<close> tells when all are done, and
  \<open>PREVIOUS_LAYER_CONTROLLER\<close> copies the results back, with \<open>PREVIOUS_LAYER_SIZE\<close> holding the old size.
  \<open>PREVIOUS_LAYER\<close> sends the last layer to \<open>IO\<close> and stops the simulation.

  \<^bold>\<open>Shared theories.\<close>  \<open>Prelude\<close>: faults, results, the checked \<open>int\<close>, runs over clock edges, the liveness
  predicate \<open>reaches\<close>.  \<open>Rounding\<close>: rounding to a number of significant bits, to nearest even.  \<open>Float32\<close> and
  \<open>Float64\<close>: \<open>float\<close> and \<open>double\<close> as a sign and a magnitude, a multiple of the least positive number,
  with infinities and NaN, every operation rounded.  \<open>Text_Input\<close>: the formatted input of \<open>istream\<close>.  \<open>Read_Port\<close>: the
  locale of a memory with one read port per processor, interpreted for the two memories the processors read.

  \<^bold>\<open>The modules\<close>, one theory each (\<open>Io_Module\<close>, \<open>Controller\<close>, \<open>Layers_Storage\<close>, \<open>Weight_Storage\<close>,
  \<open>Previous_Layer\<close>, \<open>Previous_Layer_Controller\<close>, \<open>Previous_Layer_Size\<close>, \<open>Generator\<close>, \<open>Processor\<close>,
  \<open>Next_Layer\<close>, \<open>End_Reducer\<close>): a record of the input ports \<open>X_ports\<close>, a record of the members and output ports, the
  state after construction \<open>X_new\<close>, one definition per method, and \<open>X_posedge\<close>, which runs the methods
  in the reverse of the order of their registration and the thread after them, the order in which the kernel
  makes them ready (\<open>Sc_Wakeup\<close>).  A thread is a program point (\<open>X_pc\<close>): the edge runs it from one
  \<open>wait\<close> to the next, with every test and every early exit of the code.  \<open>Processor_Job\<close> and \<open>Processor_Run\<close>
  follow a processor through a neuron.  Each theory ends with what its module does on its own, under any inputs.

  \<^bold>\<open>The system.\<close>  \<open>System\<close>: the signals, the netlist of \<open>main.cpp\<close>, one clock period (\<open>sys_edge\<close>), the run
  and \<open>sc_main\<close>; \<open>System_Edge\<close>: the edge as seen by the modules.  \<open>Run_Base\<close>, \<open>Run_Load\<close>, \<open>Run_Start\<close>,
  \<open>Run_Calc\<close>, \<open>Run_Clone\<close> and \<open>Run_Output\<close> follow the phases of a simulation, \<open>Run_Invariant\<close> has what holds of
  every state, and \<open>Network\<close> has the reference \<open>feed_forward\<close>, written with lists only, and the phases
  put together.  The run has fuel, a number of clock periods; the theorems give a number from which on
  the result does not change, so enough fuel exists for every configuration that \<open>fits\<close>: sizes from 1 to \<open>2\<^sup>2\<^sup>4\<close>, which a \<open>float\<close>
  carries exactly, and to \<open>MEM_SIZE\<close> behind the first layer, as many picture values as inputs, and weight addresses
  and neuron counts within \<open>int\<close>.  Of \<open>std::exp\<close>, which is not in the repository, it is assumed that it maps numbers
  that are not positive to representable numbers of the unit interval and NaN to NaN (\<open>expf_contract\<close>).

  \<^bold>\<open>The kernel.\<close>  \<open>Sc_Pq\<close>: the binary heap, in the locale \<open>pq_order\<close> of its comparison.  \<open>Sc_Runnable\<close>: the
  chained run queues, which refine four lists.  \<open>Sc_State\<close>: events, timed notifications, processes and the context as
  records over numbered objects, where \<open>pq_order\<close> is interpreted for the notification times.
  \<open>Sc_Event\<close> and \<open>Sc_Notify\<close>: notification, cancellation and the lists of
  sensitive processes, and their refinement of the abstract \<open>pending\<close>, a linear order in which
  notifying is \<open>min\<close>.  \<open>Sc_Process\<close>: sensitivity, waiting, triggers and process control (with the locale
  \<open>process_frame\<close> of what leaving an event keeps).  \<open>Sc_Wait\<close>: the functions \<open>wait\<close> and \<open>next_trigger\<close>.  \<open>Sc_Trigger\<close>,
  \<open>Sc_Frame\<close> (the locales \<open>trigger_keeps\<close> and \<open>trigger_frame\<close> of what a trigger keeps, interpreted for the advance of the time and for the locks) and \<open>Sc_Wakeup\<close>: \<open>sc_event::trigger\<close>, whom it wakes
  in which order, and two ways in which it goes wrong.  \<open>Sc_Simcontext\<close> and \<open>Sc_Simulate\<close>:
  creation of processes, the delta cycle, elaboration, start, time and stop; loops that need not end are partial
  functions into \<open>option\<close>.  \<open>Sc_Signal\<close>: signals, writer policies and the clock, whose high
  phase is the period times the duty cycle, computed in \<open>double\<close>.  \<open>Sc_Delta\<close>: a delta
  cycle of processes that communicate through signals is a simultaneous step, which is what \<open>sys_edge\<close> takes for
  granted.  \<open>Sc_Time\<close>: the next notification and the advance of the time, which always ends.
  \<open>Sc_Channels\<close>: contracts of signals and clock.  \<open>Sc_Start\<close>: the order of the first processes,
  and suspended processes.  \<open>Sc_Fifo\<close>: the circular buffer, its refinement of a bounded queue and the order it keeps.
  \<open>Sc_Locks\<close>: mutex and semaphore, mutual exclusion and counting over any interleaving of calls.  \<open>Sc_Event_Queue\<close>: a heap of
  times that implements a multiset, and the one order of calls in which its assertion fails.  \<open>Sc_Port\<close> and \<open>Sc_Binding\<close>: ports, their
  binding to channels and to the ports of the module around them, and the completion of all bindings at the end of the elaboration
  (the locales \<open>binding_calls\<close> and \<open>registry_calls\<close> of what the calls to the channels keep, interpreted for signals), which ends where ports are
  bound to ports above them and need not return if they are bound in a circle.  \<open>Sc_Names\<close>: the generator and the table of names, and the loop of
  \<open>create_name\<close>, which ends because every round lengthens the name.  \<open>Sc_Object\<close> and \<open>Sc_Hierarchy\<close>: objects, named events, the
  stack of objects and the deferred deletion of processes; the invariant \<open>hierarchy_ok\<close> (the table finds exactly the objects that
  exist, the child lists are trees, names are paths) over every sequence of operations (\<open>hier_reach\<close>), and two places where
  the code loses track.  \<open>Sc_Module\<close>: name objects, construction and destruction of modules, and \<open>build\<close>, the construction of a
  nested design, which needs no fuel.  \<open>Sc_Report\<close>: message definitions, actions, limits and the default handler of reports; under the default
  settings an error throws its message, which is what \<open>ReportError\<close> stands for in the other theories.  \<open>Sc_Ids\<close>: the texts of the reported errors.  The bodies of processes,
  the updates of channels and the callbacks of modules are parameters of the kernel.

  \<^bold>\<open>The numbers\<close> of arbitrary width (\<open>sysc/datatypes/int\<close>).  \<open>Nb_Digits\<close>, \<open>Nb_Mul\<close>, \<open>Nb_Shift\<close>, \<open>Nb_Div\<close>: the functions of
  \<open>sc_nbutils\<close> on vectors of 30-bit digits held in 32-bit words, each with the natural number (\<open>dval\<close>) that its result stands for: sums and
  differences with their carries, the product by half digits, division by a digit and the division byte by byte with guessed
  quotients, shifts.  \<open>Nb_Sign\<close>: signs, two's complement and the cut to a width.  \<open>Nb_Help\<close> and
  \<open>Nb_Bits\<close>: the helpers of the compound assignments, in the locale \<open>number_kind\<close> of the two macros by which the signed and the unsigned
  version differ, and the loops of \<open>&\<close>, \<open>|\<close> and \<open>^\<close> in the locale \<open>bitwise\<close>.  \<open>Sc_Number\<close>: \<open>sc_signed\<close> and
  \<open>sc_unsigned\<close> as one record with a class field; every assignment is the operation on the integers, wrapped into the width
  (\<open>takes\<close>).  \<open>Sc_Number_Friends\<close>: the operators, which make a number wide enough for the exact result (\<open>makes\<close>), and where they do not.

  \<^bold>\<open>Not modelled.\<close>  The waveform file and everything printed apart from the reported results; TLM, exports and attributes
  (the netlist is resolved in \<open>System\<close>, apart from the names of \<open>Sc_Module\<close>); units and resolution of the time; killing, resetting and throwing into a process,
  which unwind stacks of the host language; coroutine packages; updates requested from other host threads; memory management.
  Of the number types: fixed point, 64-bit integers, strings, concatenation and part selections, which the simulator does not use.
  The model of the system and the model of the kernel are not composed: \<open>sys_edge\<close> states
  the semantics of the kernel for synchronous modules, and \<open>Sc_Delta\<close>, \<open>Sc_Channels\<close> and \<open>Sc_Start\<close> prove that
  semantics of the kernel's own code.
\<close>

section \<open>The whole program\<close>

text \<open>C1: with a configuration that fits the machine, the simulation stops after finitely many
  clock periods, and from then on the result of \<open>sc_main\<close> is the same: one report per output
  neuron, one clock period apart, numbered from 0, whose values are the feed-forward network of
  the configuration in the arithmetic of the code (up to the sign of a zero); and the
  processors together have calculated every neuron behind the first layer once.  Of
  \<open>std::exp\<close> it is assumed that it maps numbers that are not positive into the unit
  interval.\<close>

theorem sc_main_computes_network:
  assumes "expf_contract expf"
    and "loadData (fs (g_configFile (parse_args default_options args))) (fs (g_pictureFile (parse_args default_options args))) =
      Inr (Some d)"
    and "fits d"
  shows "\<exists>n T rep ns. (\<forall>k. sc_main expf fs args (n + k) = Inr (Some (rep, ns))) \<and>
    reported T (network_output expf d) rep \<and> length ns = COUNT_PC_UNIT \<and> sum_list ns = sum_list (tl (ld_layers d))"
proof -
  let ?g = "parse_args default_options args"
  let ?t = "sum_list (map nat (tl (ld_layers d)))"
  obtain s0 where s0: "sys_initialize (sys_new (fs (g_configFile ?g)) (fs (g_pictureFile ?g))) = Inr s0"
    "fresh (fs (g_configFile ?g)) (fs (g_pictureFile ?g)) s0"
    using initialize_fresh by blast
  obtain n s where s: "sys_run expf n s0 = Inr s" "finished (network_output expf d) ?t s"
    using reaches_run [OF run_finishes [OF assms s0(2)]] by blast
  then obtain T where T: "pl_stop (sy_pl s)" "counts s ?t" "length (sy_proc s) = COUNT_PC_UNIT"
    "reported T (network_output expf d) (io_report (sy_io s))"
    by (auto simp: finished_def)
  have "sc_main expf fs args (n + k) = Inr (Some (io_report (sy_io s), map proc_count_neurons_calc (sy_proc s)))" for k
    using sys_run_enough [OF s(1) T(1), of "n + k"] s0(1) T(1) by (simp add: sc_main_def Let_def)
  moreover have "int ?t = sum_list (tl (ld_layers d))" by (rule fits_sum [OF assms(3)])
  ultimately show ?thesis using T counts_sum_list [OF T(2,3)]
    by (intro exI [of _ n] exI [of _ T] exI [of _ "io_report (sy_io s)"] exI [of _ "map proc_count_neurons_calc (sy_proc s)"]) simp
qed

text \<open>The smallest network: one input, one neuron, a weight and no bias.\<close>

definition small_load :: load_result where
  "small_load = \<lparr>ld_layersCount = 2, ld_layers = [1, 1], ld_weights = [float_one], ld_picture = [float_one]\<rparr>"

definition small_files :: "string \<Rightarrow> string option" where
  "small_files f = Some (if f = ''input/picture.txt'' then ''1'' else print_config [1, 1] ''1'')"

lemma small_files_load: "loadData (Some (print_config [1, 1] ''1'')) (Some ''1'') = Inr (Some small_load)"
  using loadData_print [of "[1, 1]" "''1''" "''1''"]
  by (simp add: is_cint_def INT_MIN_def INT_MAX_def read_floats_1 small_load_def)

lemma small_load_fits: "fits small_load"
  by (simp add: fits_def small_load_def layers_fit_def MEM_SIZE_def INT_MAX_def)

theorem sc_main_computes_network_witness:
  "\<exists>n T rep ns. sc_main expf_zero small_files [] n = Inr (Some (rep, ns)) \<and>
    reported T (network_output expf_zero small_load) rep \<and> length rep = 1 \<and> sum_list ns = 1"
proof -
  have "loadData (small_files (g_configFile (parse_args default_options []))) (small_files (g_pictureFile (parse_args default_options []))) =
      Inr (Some small_load)"
    using small_files_load by (simp add: small_files_def default_options_def)
  from sc_main_computes_network [OF expf_contract_zero this small_load_fits] obtain n T rep ns where
    *: "\<forall>k. sc_main expf_zero small_files [] (n + k) = Inr (Some (rep, ns))" "reported T (network_output expf_zero small_load) rep"
      "sum_list ns = sum_list (tl (ld_layers small_load))" by blast
  have "sc_main expf_zero small_files [] n = Inr (Some (rep, ns))" using *(1) [rule_format, of 0] by simp
  moreover have "length rep = 1"
    using *(2) by (simp add: reported_def network_output_def length_feed_forward small_load_def)
  ultimately show ?thesis using *(2,3) by (auto simp: small_load_def)
qed

section \<open>Phases\<close>






end
